(* ===== verification/NetMF_Prelude.thy ===== *)
theory NetMF_Prelude imports Main "HOL-Library.Word" begin

text \<open>
  Shared vocabulary of the development: the C integer types as words, the named collections
  of rewrite rules, and generic lemmas on lists, words and options used by several
  components.
\<close>

unbundle bit_operations_syntax

type_synonym u8 = "8 word"
type_synonym u16 = "16 word"
type_synonym u32 = "32 word"
type_synonym u64 = "64 word"

section \<open>Words\<close>

lemma and_255_u32: "(w :: u32) AND 255 = take_bit 8 w"
proof -
  have "(255 :: u32) = mask 8" by (simp add: mask_eq_exp_minus_1)
  then show ?thesis by (simp only: take_bit_eq_mask)
qed

lemma bit_u8_less: "bit (b :: u8) n \<Longrightarrow> n < 8"
  using bit_imp_le_length [of b n] by simp

lemma bit_u32_less: "bit (w :: u32) n \<Longrightarrow> n < 32"
  using bit_imp_le_length [of w n] by simp

lemma unat_u8_less: "unat (b :: u8) < 256"
  using unsigned_less [of b, where ?'a = nat] by simp

lemma unat_u16_less: "unat (w :: u16) < 65536"
  using unsigned_less [of w, where ?'a = nat] by simp

lemma unat_u32_less: "unat (w :: u32) < 4294967296"
  using unsigned_less [of w, where ?'a = nat] by simp

lemma unat_ucast_u8_u32 [simp]: "unat (ucast (b :: u8) :: u32) = unat b"
  using unat_u8_less [of b] by (simp add: unsigned_ucast_eq take_bit_nat_eq_self)

lemma xor_word_eq_0_iff: "(a :: 'a::len word) XOR b = 0 \<longleftrightarrow> a = b"
  by (metis xor.assoc xor.left_neutral xor.right_neutral xor_self_eq)

lemma xor_word_right_cancel [simp]: "(a :: 'a::len word) XOR c = b XOR c \<longleftrightarrow> a = b"
  by (metis xor.assoc xor.right_neutral xor_self_eq)

lemma xor_word_left_cancel [simp]: "c XOR (a :: 'a::len word) = c XOR b \<longleftrightarrow> a = b"
  by (simp add: xor.commute [of c])

section \<open>Indices of rings\<close>

lemma mod_wrap: "(r :: nat) < k \<Longrightarrow> n \<le> k \<Longrightarrow> 0 < k \<Longrightarrow> (r + n) mod k = (if r + n < k then r + n else r + n - k)"
  by (simp add: mod_if)

end
