(* ===== verification/Crc32.thy ===== *)
theory Crc32 imports NetMF_Prelude begin

text \<open>
  The CRC-32 routine shared by the wire protocol, the virtual-method cache and the
  configuration sectors: \<^verbatim>\<open>src/Support/crc/CRC.cpp\<close>. The table is copied entry by entry.
  \<open>SUPPORT_ComputeCRC\<close> keeps the signature of the code, a buffer, a signed \<open>int\<close>
  length and a start value; reading past the end of the buffer is \<open>None\<close>. The lemmas show
  that the table is the one of the polynomial of the comment (checked against a bit-serial
  reference), that a CRC over two buffers chains, and that every error confined to one byte
  is detected.
\<close>

section \<open>Table and routine\<close>

definition c_CRCTable :: "u32 list" where
  "c_CRCTable =
    [
     0x00000000, 0x04C11DB7, 0x09823B6E, 0x0D4326D9, 0x130476DC, 0x17C56B6B, 0x1A864DB2, 0x1E475005,
     0x2608EDB8, 0x22C9F00F, 0x2F8AD6D6, 0x2B4BCB61, 0x350C9B64, 0x31CD86D3, 0x3C8EA00A, 0x384FBDBD,
     0x4C11DB70, 0x48D0C6C7, 0x4593E01E, 0x4152FDA9, 0x5F15ADAC, 0x5BD4B01B, 0x569796C2, 0x52568B75,
     0x6A1936C8, 0x6ED82B7F, 0x639B0DA6, 0x675A1011, 0x791D4014, 0x7DDC5DA3, 0x709F7B7A, 0x745E66CD,
     0x9823B6E0, 0x9CE2AB57, 0x91A18D8E, 0x95609039, 0x8B27C03C, 0x8FE6DD8B, 0x82A5FB52, 0x8664E6E5,
     0xBE2B5B58, 0xBAEA46EF, 0xB7A96036, 0xB3687D81, 0xAD2F2D84, 0xA9EE3033, 0xA4AD16EA, 0xA06C0B5D,
     0xD4326D90, 0xD0F37027, 0xDDB056FE, 0xD9714B49, 0xC7361B4C, 0xC3F706FB, 0xCEB42022, 0xCA753D95,
     0xF23A8028, 0xF6FB9D9F, 0xFBB8BB46, 0xFF79A6F1, 0xE13EF6F4, 0xE5FFEB43, 0xE8BCCD9A, 0xEC7DD02D,
     0x34867077, 0x30476DC0, 0x3D044B19, 0x39C556AE, 0x278206AB, 0x23431B1C, 0x2E003DC5, 0x2AC12072,
     0x128E9DCF, 0x164F8078, 0x1B0CA6A1, 0x1FCDBB16, 0x018AEB13, 0x054BF6A4, 0x0808D07D, 0x0CC9CDCA,
     0x7897AB07, 0x7C56B6B0, 0x71159069, 0x75D48DDE, 0x6B93DDDB, 0x6F52C06C, 0x6211E6B5, 0x66D0FB02,
     0x5E9F46BF, 0x5A5E5B08, 0x571D7DD1, 0x53DC6066, 0x4D9B3063, 0x495A2DD4, 0x44190B0D, 0x40D816BA,
     0xACA5C697, 0xA864DB20, 0xA527FDF9, 0xA1E6E04E, 0xBFA1B04B, 0xBB60ADFC, 0xB6238B25, 0xB2E29692,
     0x8AAD2B2F, 0x8E6C3698, 0x832F1041, 0x87EE0DF6, 0x99A95DF3, 0x9D684044, 0x902B669D, 0x94EA7B2A,
     0xE0B41DE7, 0xE4750050, 0xE9362689, 0xEDF73B3E, 0xF3B06B3B, 0xF771768C, 0xFA325055, 0xFEF34DE2,
     0xC6BCF05F, 0xC27DEDE8, 0xCF3ECB31, 0xCBFFD686, 0xD5B88683, 0xD1799B34, 0xDC3ABDED, 0xD8FBA05A,
     0x690CE0EE, 0x6DCDFD59, 0x608EDB80, 0x644FC637, 0x7A089632, 0x7EC98B85, 0x738AAD5C, 0x774BB0EB,
     0x4F040D56, 0x4BC510E1, 0x46863638, 0x42472B8F, 0x5C007B8A, 0x58C1663D, 0x558240E4, 0x51435D53,
     0x251D3B9E, 0x21DC2629, 0x2C9F00F0, 0x285E1D47, 0x36194D42, 0x32D850F5, 0x3F9B762C, 0x3B5A6B9B,
     0x0315D626, 0x07D4CB91, 0x0A97ED48, 0x0E56F0FF, 0x1011A0FA, 0x14D0BD4D, 0x19939B94, 0x1D528623,
     0xF12F560E, 0xF5EE4BB9, 0xF8AD6D60, 0xFC6C70D7, 0xE22B20D2, 0xE6EA3D65, 0xEBA91BBC, 0xEF68060B,
     0xD727BBB6, 0xD3E6A601, 0xDEA580D8, 0xDA649D6F, 0xC423CD6A, 0xC0E2D0DD, 0xCDA1F604, 0xC960EBB3,
     0xBD3E8D7E, 0xB9FF90C9, 0xB4BCB610, 0xB07DABA7, 0xAE3AFBA2, 0xAAFBE615, 0xA7B8C0CC, 0xA379DD7B,
     0x9B3660C6, 0x9FF77D71, 0x92B45BA8, 0x9675461F, 0x8832161A, 0x8CF30BAD, 0x81B02D74, 0x857130C3,
     0x5D8A9099, 0x594B8D2E, 0x5408ABF7, 0x50C9B640, 0x4E8EE645, 0x4A4FFBF2, 0x470CDD2B, 0x43CDC09C,
     0x7B827D21, 0x7F436096, 0x7200464F, 0x76C15BF8, 0x68860BFD, 0x6C47164A, 0x61043093, 0x65C52D24,
     0x119B4BE9, 0x155A565E, 0x18197087, 0x1CD86D30, 0x029F3D35, 0x065E2082, 0x0B1D065B, 0x0FDC1BEC,
     0x3793A651, 0x3352BBE6, 0x3E119D3F, 0x3AD08088, 0x2497D08D, 0x2056CD3A, 0x2D15EBE3, 0x29D4F654,
     0xC5A92679, 0xC1683BCE, 0xCC2B1D17, 0xC8EA00A0, 0xD6AD50A5, 0xD26C4D12, 0xDF2F6BCB, 0xDBEE767C,
     0xE3A1CBC1, 0xE760D676, 0xEA23F0AF, 0xEEE2ED18, 0xF0A5BD1D, 0xF464A0AA, 0xF9278673, 0xFDE69BC4,
     0x89B8FD09, 0x8D79E0BE, 0x803AC667, 0x84FBDBD0, 0x9ABC8BD5, 0x9E7D9662, 0x933EB0BB, 0x97FFAD0C,
     0xAFB010B1, 0xAB710D06, 0xA6322BDF, 0xA2F33668, 0xBCB4666D, 0xB8757BDA, 0xB5365D03, 0xB1F740B4
    ]"

definition crc_step :: "u32 \<Rightarrow> u8 \<Rightarrow> u32" where
  "crc_step crc b =
     (c_CRCTable ! unat ((drop_bit 24 crc XOR ucast b) AND 0xFF)) XOR push_bit 8 crc"

fun SUPPORT_ComputeCRC :: "u8 list \<Rightarrow> int \<Rightarrow> u32 \<Rightarrow> u32 option" where
  "SUPPORT_ComputeCRC ptr nLength crc =
     (if nLength > 0
      then (case ptr of
              [] \<Rightarrow> None
            | b # ptr' \<Rightarrow> SUPPORT_ComputeCRC ptr' (nLength - 1) (crc_step crc b))
      else Some crc)"

declare SUPPORT_ComputeCRC.simps [simp del]

text \<open>The CRC of a whole buffer, as a fold.\<close>

definition crc_of :: "u8 list \<Rightarrow> u32 \<Rightarrow> u32" where
  "crc_of bs crc = foldl crc_step crc bs"


section \<open>The bit-serial reference\<close>

text \<open>
  One step of the division by the generator polynomial
  \<open>x^32 + x^26 + x^23 + ... + 1\<close> (\<open>0x04C11DB7\<close> without the leading term).
\<close>

definition crc_bit :: "u32 \<Rightarrow> u32" where
  "crc_bit c = (if bit c 31 then push_bit 1 c XOR 0x04C11DB7 else push_bit 1 c)"

definition crc_byte :: "u32 \<Rightarrow> u32" where
  "crc_byte c = (crc_bit ^^ 8) c"

lemma crc_bit_xor: "crc_bit (a XOR b) = crc_bit a XOR crc_bit b"
  by (simp add: crc_bit_def bit_xor_iff push_bit_xor ac_simps)

lemma crc_bit_funpow_xor: "(crc_bit ^^ n) (a XOR b) = (crc_bit ^^ n) a XOR (crc_bit ^^ n) b"
  by (induction n) (simp_all add: crc_bit_xor)

lemma crc_byte_xor: "crc_byte (a XOR b) = crc_byte a XOR crc_byte b"
  by (simp add: crc_byte_def crc_bit_funpow_xor)

lemma bit_double_Suc: "bit (w * 2 :: u32) (Suc n) \<longleftrightarrow> n < 31 \<and> bit w n"
  using bit_push_bit_iff [of 1 w "Suc n"] by auto

lemma crc_bit_inj: "crc_bit a = crc_bit b \<Longrightarrow> a = b"
proof -
  assume "crc_bit a = crc_bit b"
  then have z: "crc_bit (a XOR b) = 0" by (simp add: crc_bit_xor)
  define d where "d = a XOR b"
  have "bit d n = False" for n
  proof (cases "n < 32")
    case False
    then show ?thesis using bit_imp_le_length [of d n] by auto
  next
    case n: True
    have b0: "bit (crc_bit d) k = False" for k
      using z by (simp add: d_def)
    have d31: "\<not> bit d 31"
      using b0 [of 0] by (auto simp: crc_bit_def bit_simps bit_0 even_xor_iff split: if_splits)
    show ?thesis
    proof (cases "n = 31")
      case True
      then show ?thesis using d31 by simp
    next
      case False
      with n have "Suc n < 32" by simp
      then show ?thesis
        using b0 [of "Suc n"] d31 by (auto simp: crc_bit_def bit_double_Suc)
    qed
  qed
  then have "d = 0" by (intro bit_word_eqI) simp
  then show "a = b" by (simp add: d_def xor_word_eq_0_iff)
qed

lemma crc_byte_inj: "crc_byte a = crc_byte b \<Longrightarrow> a = b"
  by (auto simp: crc_byte_def numeral_eq_Suc dest!: crc_bit_inj)

lemma crc_bit_low: "\<not> bit c 31 \<Longrightarrow> crc_bit c = push_bit 1 c"
  by (simp add: crc_bit_def)

lemma crc_byte_low:
  assumes "\<And>n. 24 \<le> n \<Longrightarrow> \<not> bit l n"
  shows "crc_byte l = push_bit 8 l"
proof -
  have "(crc_bit ^^ k) l = push_bit k l" if "k \<le> 8" for k
    using that
  proof (induction k)
    case 0
    then show ?case by simp
  next
    case (Suc k)
    have "\<not> bit (push_bit k l) 31"
      using assms [of "31 - k"] Suc.prems by (auto simp: bit_simps)
    with Suc show ?case by (simp add: crc_bit_low)
  qed
  then show ?thesis by (simp add: crc_byte_def)
qed

lemma c_CRCTable_length [simp]: "length c_CRCTable = 256"
  by (simp add: c_CRCTable_def)

definition crc_entry :: "nat \<Rightarrow> u32" where
  "crc_entry i = crc_byte (push_bit 24 (of_nat i))"

fun crc_doubling :: "nat \<Rightarrow> u32 list" where
  "crc_doubling 0 = [0]"
| "crc_doubling (Suc k) =
     crc_doubling k @ map (\<lambda>w. w XOR crc_entry (2 ^ k)) (crc_doubling k)"

lemma crc_entry_0: "crc_entry 0 = 0"
  by (simp add: crc_entry_def crc_byte_low)

lemma crc_entry_add:
  assumes "i < 2 ^ k"
  shows "crc_entry (2 ^ k + i) = crc_entry i XOR crc_entry (2 ^ k)"
proof -
  have nb: "\<not> bit i k"
    using assms by (metis bit_take_bit_iff less_irrefl take_bit_nat_eq_self)
  have "(2 ^ k :: nat) AND i = 0"
    using nb by (intro bit_eqI) (auto simp: bit_and_iff bit_exp_iff)
  then have "(2 ^ k + i) = (2 ^ k XOR i)"
    by (rule disjunctive_add_eq_xor)
  then have "(of_nat (2 ^ k + i) :: u32) = of_nat i XOR of_nat (2 ^ k)"
    by (simp only: of_nat_xor_eq xor.commute)
  then show ?thesis
    by (simp only: crc_entry_def push_bit_xor crc_byte_xor)
qed

lemma crc_doubling_eq: "crc_doubling k = map crc_entry [0..<2 ^ k]"
proof (induction k)
  case 0
  then show ?case by (simp add: crc_entry_0)
next
  case (Suc k)
  have "map crc_entry [2 ^ k..<2 ^ k + 2 ^ k] = map (\<lambda>i. crc_entry (2 ^ k + i)) [0..<2 ^ k]"
    by (simp add: map_add_upt [symmetric] add.commute)
  also have "\<dots> = map (\<lambda>w. w XOR crc_entry (2 ^ k)) (map crc_entry [0..<2 ^ k])"
    by (simp add: crc_entry_add)
  finally have "map crc_entry [0..<2 ^ k + 2 ^ k]
     = map crc_entry [0..<2 ^ k] @ map (\<lambda>w. w XOR crc_entry (2 ^ k)) (map crc_entry [0..<2 ^ k])"
    by (simp only: upt_add_eq_append [of 0 "2 ^ k" "2 ^ k", simplified] map_append)
  then show ?case by (simp add: Suc.IH mult_2)
qed

lemma crc_byte_unfold:
  "crc_byte c =
     crc_bit (crc_bit (crc_bit (crc_bit (crc_bit (crc_bit (crc_bit (crc_bit c)))))))"
  by (simp add: crc_byte_def numeral_eq_Suc)

lemma crc_entry_powers:
  "crc_entry (Suc 0) = 0x04C11DB7" "crc_entry 2 = 0x09823B6E" "crc_entry 4 = 0x130476DC"
  "crc_entry 8 = 0x2608EDB8" "crc_entry 16 = 0x4C11DB70" "crc_entry 32 = 0x9823B6E0"
  "crc_entry 64 = 0x34867077" "crc_entry 128 = 0x690CE0EE"
  by (simp_all add: crc_entry_def crc_byte_unfold crc_bit_def bit_numeral_word_iff)

lemma c_CRCTable_doubling: "c_CRCTable = crc_doubling 8"
proof -
  have "8 = Suc (Suc (Suc (Suc (Suc (Suc (Suc (Suc 0)))))))" by simp
  then show ?thesis
    by (simp only: crc_doubling.simps) (simp add: c_CRCTable_def crc_entry_powers)
qed


lemma c_CRCTable_nth: "c_CRCTable ! unat (b :: u8) = crc_byte (push_bit 24 (ucast b))"
proof -
  have b: "unat b < 256"
    using unsigned_less [of b, where ?'a = nat] by simp
  have "c_CRCTable = map crc_entry [0..<256]"
    by (simp add: c_CRCTable_doubling crc_doubling_eq)
  then have "c_CRCTable ! unat b = crc_entry (unat b)"
    using nth_map_upt [of "unat b" 256 0 crc_entry] b by (simp only:) simp
  then show ?thesis
    by (simp add: crc_entry_def unsigned_ucast_eq)
qed

text \<open>The table-driven step is eight steps of the division, for every state and byte.\<close>

lemma crc_step_bitserial: "crc_step crc b = crc_byte (crc XOR push_bit 24 (ucast b))"
proof -
  define h :: u8 where "h = ucast (drop_bit 24 crc)"
  have idx: "(drop_bit 24 crc XOR ucast b) AND 0xFF = ucast (h XOR b)"
    by (rule bit_word_eqI) (auto simp: h_def and_255_u32 bit_simps dest: bit_u8_less)
  have split: "crc = push_bit 24 (ucast h) XOR take_bit 24 crc"
    by (rule bit_word_eqI) (auto simp: h_def bit_simps)
  have low: "crc_byte (take_bit 24 crc) = push_bit 8 (take_bit 24 crc)"
    by (rule crc_byte_low) (simp add: bit_simps)
  have drop: "push_bit 8 (take_bit 24 crc) = push_bit 8 crc"
    by (rule bit_word_eqI) (auto simp: bit_simps)
  have whole: "crc_byte crc = crc_byte (push_bit 24 (ucast h)) XOR crc_byte (take_bit 24 crc)"
    by (subst split) (simp only: crc_byte_xor)
  have "crc_step crc b = crc_byte (push_bit 24 (ucast (h XOR b))) XOR push_bit 8 crc"
    by (simp add: crc_step_def idx unat_ucast_u8_u32 c_CRCTable_nth)
  also have "\<dots> = crc_byte (push_bit 24 (ucast h)) XOR crc_byte (take_bit 24 crc)
      XOR crc_byte (push_bit 24 (ucast b))"
    by (simp add: low drop unsigned_xor_eq push_bit_xor crc_byte_xor ac_simps)
  also have "\<dots> = crc_byte (crc XOR push_bit 24 (ucast b))"
    using whole by (simp add: crc_byte_xor xor.assoc)
  finally show ?thesis .
qed

lemma crc_step_inj_state: "crc_step c b = crc_step c' b \<Longrightarrow> c = c'"
  by (auto simp: crc_step_bitserial crc_byte_xor dest: crc_byte_inj)

lemma crc_of_Nil [simp]: "crc_of [] c = c"
  and crc_of_Cons [simp]: "crc_of (b # bs) c = crc_of bs (crc_step c b)"
  and crc_of_append [simp]: "crc_of (xs @ ys) c = crc_of ys (crc_of xs c)"
  by (simp_all add: crc_of_def)

lemma crc_of_inj_state: "crc_of bs c = crc_of bs c' \<Longrightarrow> c = c'"
  by (induction bs arbitrary: c c') (auto dest: crc_step_inj_state)

text \<open>Four bytes enter the register as one big-endian word, then 32 division steps run.\<close>

definition be_word :: "u8 \<Rightarrow> u8 \<Rightarrow> u8 \<Rightarrow> u8 \<Rightarrow> u32" where
  "be_word b0 b1 b2 b3 =
     push_bit 24 (ucast b0) XOR push_bit 16 (ucast b1) XOR push_bit 8 (ucast b2) XOR ucast b3"

lemma be_word_bit:
  "bit (be_word b0 b1 b2 b3) n =
     (if n < 8 then bit b3 n else if n < 16 then bit b2 (n - 8)
      else if n < 24 then bit b1 (n - 16) else bit b0 (n - 24))"
  by (auto simp: be_word_def bit_simps dest: bit_u8_less)

lemma be_word_inj:
  assumes "be_word b0 b1 b2 b3 = be_word c0 c1 c2 c3"
  shows "[b0, b1, b2, b3] = [c0, c1, c2, c3]"
proof -
  have eq: "bit (be_word b0 b1 b2 b3) n = bit (be_word c0 c1 c2 c3) n" for n
    using assms by simp
  have "bit b3 n = bit c3 n \<and> bit b2 n = bit c2 n \<and> bit b1 n = bit c1 n \<and> bit b0 n = bit c0 n"
    if "n < 8" for n
    using that eq [of n] eq [of "n + 8"] eq [of "n + 16"] eq [of "n + 24"]
    by (simp add: be_word_bit)
  then show ?thesis
    by (auto intro!: bit_word_eqI)
qed

lemma crc_byte_push:
  assumes "k \<le> 16"
  shows "crc_byte (push_bit k (ucast (b :: u8))) = push_bit (k + 8) (ucast b)"
proof -
  have "crc_byte (push_bit k (ucast b)) = push_bit 8 (push_bit k (ucast b))"
    using assms by (intro crc_byte_low) (auto simp: bit_simps dest: bit_u8_less)
  then show ?thesis by (simp add: add.commute)
qed

lemma crc_of_four:
  "crc_of [b0, b1, b2, b3] c
     = crc_byte (crc_byte (crc_byte (crc_byte (c XOR be_word b0 b1 b2 b3))))"
proof -
  have b3: "crc_byte (ucast b3) = push_bit 8 (ucast b3)"
    using crc_byte_push [of 0 b3] by simp
  have b2: "crc_byte (push_bit 8 (ucast b2)) = push_bit 16 (ucast b2)"
    and b1: "crc_byte (push_bit 16 (ucast b1)) = push_bit 24 (ucast b1)"
    and b3': "crc_byte (push_bit 8 (ucast b3)) = push_bit 16 (ucast b3)"
    and b2': "crc_byte (push_bit 16 (ucast b2)) = push_bit 24 (ucast b2)"
    and b3'': "crc_byte (push_bit 16 (ucast b3)) = push_bit 24 (ucast b3)"
    by (simp_all add: crc_byte_push)
  show ?thesis
    by (simp only: crc_of_Cons crc_of_Nil crc_step_bitserial be_word_def crc_byte_xor
      b1 b2 b3 b2' b3' b3'' xor.assoc)
qed

lemma crc_of_four_inj:
  assumes "length us = 4" "length vs = 4" "crc_of us c = crc_of vs c"
  shows "us = vs"
proof -
  obtain u0 u1 u2 u3 where us: "us = [u0, u1, u2, u3]"
    using assms(1) by (auto simp: numeral_eq_Suc length_Suc_conv)
  obtain v0 v1 v2 v3 where vs: "vs = [v0, v1, v2, v3]"
    using assms(2) by (auto simp: numeral_eq_Suc length_Suc_conv)
  have "c XOR be_word u0 u1 u2 u3 = c XOR be_word v0 v1 v2 v3"
    by (rule crc_byte_inj, rule crc_byte_inj, rule crc_byte_inj, rule crc_byte_inj)
      (use assms(3) in \<open>simp only: us vs crc_of_four\<close>)
  then have "be_word u0 u1 u2 u3 = be_word v0 v1 v2 v3"
    by simp
  then show ?thesis using be_word_inj us vs by simp
qed

text \<open>The routine on a whole buffer is the fold; past its end it has no result.\<close>

lemma SUPPORT_ComputeCRC_prefix:
  "0 \<le> n \<Longrightarrow> nat n \<le> length bs \<Longrightarrow>
     SUPPORT_ComputeCRC bs n c = Some (crc_of (take (nat n) bs) c)"
proof (induction bs arbitrary: n c)
  case Nil
  then show ?case by (subst SUPPORT_ComputeCRC.simps) simp
next
  case (Cons b bs)
  show ?case
  proof (cases "n = 0")
    case True
    then show ?thesis by (subst SUPPORT_ComputeCRC.simps) simp
  next
    case False
    with Cons.prems have "take (nat n) (b # bs) = b # take (nat (n - 1)) bs"
      by (simp add: take_Cons' nat_diff_distrib)
    with Cons False show ?thesis by (subst SUPPORT_ComputeCRC.simps) simp
  qed
qed

lemma SUPPORT_ComputeCRC_all [simp]:
  "SUPPORT_ComputeCRC bs (int (length bs)) c = Some (crc_of bs c)"
  by (simp add: SUPPORT_ComputeCRC_prefix)

lemma SUPPORT_ComputeCRC_nonpos [simp]: "n \<le> 0 \<Longrightarrow> SUPPORT_ComputeCRC bs n c = Some c"
  by (subst SUPPORT_ComputeCRC.simps) simp

section \<open>Properties\<close>

text \<open>
  C19: the table-driven loop computes the CRC of its polynomial. For every buffer and start
  value, the routine returns the register that the bit-serial division reaches when each byte
  is added at the top and eight steps of the division run.
\<close>

theorem crc_is_polynomial_division:
  "SUPPORT_ComputeCRC bs (int (length bs)) c
     = Some (foldl (\<lambda>r b. (crc_bit ^^ 8) (r XOR push_bit 24 (ucast b))) c bs)"
  by (simp add: crc_of_def crc_step_bitserial [abs_def] crc_byte_def)

text \<open>
  C20: burst errors are detected. Two buffers that differ only inside a window of four
  consecutive bytes never have the same CRC, whatever surrounds the window.
\<close>

theorem crc_detects_bursts:
  assumes "length us = 4" "length vs = 4" "us \<noteq> vs"
  shows "SUPPORT_ComputeCRC (xs @ us @ ys) (int (length (xs @ us @ ys))) c
      \<noteq> SUPPORT_ComputeCRC (xs @ vs @ ys) (int (length (xs @ vs @ ys))) c"
proof
  assume "SUPPORT_ComputeCRC (xs @ us @ ys) (int (length (xs @ us @ ys))) c
      = SUPPORT_ComputeCRC (xs @ vs @ ys) (int (length (xs @ vs @ ys))) c"
  then have "crc_of ys (crc_of us (crc_of xs c)) = crc_of ys (crc_of vs (crc_of xs c))"
    by (simp only: SUPPORT_ComputeCRC_all crc_of_append option.inject)
  then have "us = vs"
    using assms(1,2) by (blast dest: crc_of_inj_state crc_of_four_inj)
  with assms(3) show False by simp
qed

theorem crc_detects_bursts_witness:
  "SUPPORT_ComputeCRC ([7] @ [1, 2, 3, 4] @ [9]) 6 0 \<noteq> SUPPORT_ComputeCRC ([7] @ [1, 2, 0, 4] @ [9]) 6 0"
  using crc_detects_bursts [of "[1, 2, 3, 4]" "[1, 2, 0, 4]" "[7]" "[9]" 0] by simp

end
