(* ===== verification/AvlTree.thy ===== *)
theory AvlTree imports NetMF_Prelude begin

text \<open>
  The balanced tree of the native runtime, \<^verbatim>\<open>src/CLR/Core/AVLTree.cpp\<close> with its types in
  \<^verbatim>\<open>src/CLR/Include/TinyCLR_Runtime__HeapBlock.h\<close>. A subtree pointer (\<open>Entry*\<close>) is
  a value of \<open>'e tree\<close>, \<open>NULL\<close> is \<open>Null\<close>; the operations that take a reference to
  a pointer (\<open>Entry*& n\<close>) return the new subtree. The four callbacks of \<open>OwnerInfo\<close>
  are fields of a record and their state is threaded. A dereference of \<open>NULL\<close> is the
  result \<open>None\<close>; the lemmas show that it never happens on a balanced tree, that insertion
  and removal keep the balance and the order, and that they implement insertion and removal
  on the sorted list of keys.
\<close>

section \<open>Types\<close>

datatype Skew = SKEW_LEFT | SKEW_NONE | SKEW_RIGHT

datatype Result = RES_OK | RES_BALANCE | RES_NOTFOUND | RES_DUPLICATE | RES_ERROR

datatype 'e tree = Null | Entry (m_left: "'e tree") (datum: 'e) (m_skew: Skew) (m_right: "'e tree")

record ('s, 'e) OwnerInfo =
  m_ftn_compare :: "'s \<Rightarrow> 'e \<Rightarrow> 'e \<Rightarrow> int"
  m_ftn_newNode :: "'s \<Rightarrow> 'e \<Rightarrow> 's \<times> 'e option"
  m_ftn_freeNode :: "'s \<Rightarrow> 'e \<Rightarrow> 's"
  m_ftn_reassignNode :: "'s \<Rightarrow> 'e \<Rightarrow> 'e \<Rightarrow> 's \<times> 'e"

section \<open>Lookup and rotations\<close>

fun Find :: "('s, 'e) OwnerInfo \<Rightarrow> 's \<Rightarrow> 'e tree \<Rightarrow> 'e \<Rightarrow> 'e option" where
  "Find own st Null srcDatum = None"
| "Find own st (Entry l e k r) srcDatum =
     (let cmp = m_ftn_compare own st e srcDatum in
      if cmp = 0 then Some e
      else if cmp > 0 then Find own st l srcDatum
      else Find own st r srcDatum)"

fun RotateLeft :: "'e tree \<Rightarrow> 'e tree option" where
  "RotateLeft (Entry a up ku (Entry b low kl c)) =
     Some (Entry (Entry a up ku b) low kl c)"
| "RotateLeft _ = None"

fun RotateRight :: "'e tree \<Rightarrow> 'e tree option" where
  "RotateRight (Entry (Entry a low kl b) up ku c) =
     Some (Entry a low kl (Entry b up ku c))"
| "RotateRight _ = None"

section \<open>Rebalancing\<close>

text \<open>
  The double rotations: the code stores the three skews first and then rotates the child and
  the node.
\<close>

definition rot_left_right ::
  "'e tree \<Rightarrow> 'e \<Rightarrow> Skew \<Rightarrow> 'e tree \<Rightarrow> 'e \<Rightarrow> Skew \<Rightarrow> 'e tree \<Rightarrow> 'e tree option" where
  "rot_left_right ll le kl lr e k r =
     (case RotateLeft (Entry ll le kl lr) of
        None \<Rightarrow> None
      | Some l' \<Rightarrow> RotateRight (Entry l' e k r))"

definition rot_right_left ::
  "'e tree \<Rightarrow> 'e \<Rightarrow> Skew \<Rightarrow> 'e tree \<Rightarrow> 'e \<Rightarrow> Skew \<Rightarrow> 'e tree \<Rightarrow> 'e tree option" where
  "rot_right_left l e k rl re kr rr =
     (case RotateRight (Entry rl re kr rr) of
        None \<Rightarrow> None
      | Some r' \<Rightarrow> RotateLeft (Entry l e k r'))"

fun LeftGrown :: "'e tree \<Rightarrow> ('e tree \<times> Result) option" where
  "LeftGrown (Entry l e SKEW_LEFT r) =
     (case l of
        Null \<Rightarrow> None
      | Entry ll le kl lr \<Rightarrow>
          (if kl = SKEW_LEFT
           then map_option (\<lambda>n. (n, RES_OK)) (RotateRight (Entry (Entry ll le SKEW_NONE lr) e SKEW_NONE r))
           else (case lr of
                   Null \<Rightarrow> None
                 | Entry rl re kr rr \<Rightarrow>
                     (let (kn, kl') =
                        (case kr of
                           SKEW_LEFT \<Rightarrow> (SKEW_RIGHT, SKEW_NONE)
                         | SKEW_RIGHT \<Rightarrow> (SKEW_NONE, SKEW_LEFT)
                         | SKEW_NONE \<Rightarrow> (SKEW_NONE, SKEW_NONE))
                      in map_option (\<lambda>n. (n, RES_OK))
                           (rot_left_right ll le kl' (Entry rl re SKEW_NONE rr) e kn r)))))"
| "LeftGrown (Entry l e SKEW_RIGHT r) = Some (Entry l e SKEW_NONE r, RES_OK)"
| "LeftGrown (Entry l e SKEW_NONE r) = Some (Entry l e SKEW_LEFT r, RES_BALANCE)"
| "LeftGrown Null = None"

fun RightGrown :: "'e tree \<Rightarrow> ('e tree \<times> Result) option" where
  "RightGrown (Entry l e SKEW_LEFT r) = Some (Entry l e SKEW_NONE r, RES_OK)"
| "RightGrown (Entry l e SKEW_RIGHT r) =
     (case r of
        Null \<Rightarrow> None
      | Entry rl re kr rr \<Rightarrow>
          (if kr = SKEW_RIGHT
           then map_option (\<lambda>n. (n, RES_OK)) (RotateLeft (Entry l e SKEW_NONE (Entry rl re SKEW_NONE rr)))
           else (case rl of
                   Null \<Rightarrow> None
                 | Entry ll le kl lr \<Rightarrow>
                     (let (kn, kr') =
                        (case kl of
                           SKEW_RIGHT \<Rightarrow> (SKEW_LEFT, SKEW_NONE)
                         | SKEW_LEFT \<Rightarrow> (SKEW_NONE, SKEW_RIGHT)
                         | SKEW_NONE \<Rightarrow> (SKEW_NONE, SKEW_NONE))
                      in map_option (\<lambda>n. (n, RES_OK))
                           (rot_right_left l e kn (Entry ll le SKEW_NONE lr) re kr' rr)))))"
| "RightGrown (Entry l e SKEW_NONE r) = Some (Entry l e SKEW_RIGHT r, RES_BALANCE)"
| "RightGrown Null = None"

fun LeftShrunk :: "'e tree \<Rightarrow> ('e tree \<times> Result) option" where
  "LeftShrunk (Entry l e SKEW_LEFT r) = Some (Entry l e SKEW_NONE r, RES_BALANCE)"
| "LeftShrunk (Entry l e SKEW_RIGHT r) =
     (case r of
        Null \<Rightarrow> None
      | Entry rl re kr rr \<Rightarrow>
          (if kr = SKEW_RIGHT
           then map_option (\<lambda>n. (n, RES_BALANCE)) (RotateLeft (Entry l e SKEW_NONE (Entry rl re SKEW_NONE rr)))
           else if kr = SKEW_NONE
           then map_option (\<lambda>n. (n, RES_OK)) (RotateLeft (Entry l e SKEW_RIGHT (Entry rl re SKEW_LEFT rr)))
           else (case rl of
                   Null \<Rightarrow> None
                 | Entry ll le kl lr \<Rightarrow>
                     (let (kn, kr') =
                        (case kl of
                           SKEW_LEFT \<Rightarrow> (SKEW_NONE, SKEW_RIGHT)
                         | SKEW_RIGHT \<Rightarrow> (SKEW_LEFT, SKEW_NONE)
                         | SKEW_NONE \<Rightarrow> (SKEW_NONE, SKEW_NONE))
                      in map_option (\<lambda>n. (n, RES_BALANCE))
                           (rot_right_left l e kn (Entry ll le SKEW_NONE lr) re kr' rr)))))"
| "LeftShrunk (Entry l e SKEW_NONE r) = Some (Entry l e SKEW_RIGHT r, RES_OK)"
| "LeftShrunk Null = None"

fun RightShrunk :: "'e tree \<Rightarrow> ('e tree \<times> Result) option" where
  "RightShrunk (Entry l e SKEW_RIGHT r) = Some (Entry l e SKEW_NONE r, RES_BALANCE)"
| "RightShrunk (Entry l e SKEW_LEFT r) =
     (case l of
        Null \<Rightarrow> None
      | Entry ll le kl lr \<Rightarrow>
          (if kl = SKEW_LEFT
           then map_option (\<lambda>n. (n, RES_BALANCE)) (RotateRight (Entry (Entry ll le SKEW_NONE lr) e SKEW_NONE r))
           else if kl = SKEW_NONE
           then map_option (\<lambda>n. (n, RES_OK)) (RotateRight (Entry (Entry ll le SKEW_RIGHT lr) e SKEW_LEFT r))
           else (case lr of
                   Null \<Rightarrow> None
                 | Entry rl re kr rr \<Rightarrow>
                     (let (kn, kl') =
                        (case kr of
                           SKEW_LEFT \<Rightarrow> (SKEW_RIGHT, SKEW_NONE)
                         | SKEW_RIGHT \<Rightarrow> (SKEW_NONE, SKEW_LEFT)
                         | SKEW_NONE \<Rightarrow> (SKEW_NONE, SKEW_NONE))
                      in map_option (\<lambda>n. (n, RES_BALANCE))
                           (rot_left_right ll le kl' (Entry rl re SKEW_NONE rr) e kn r)))))"
| "RightShrunk (Entry l e SKEW_NONE r) = Some (Entry l e SKEW_LEFT r, RES_OK)"
| "RightShrunk Null = None"

section \<open>Insertion and removal\<close>

text \<open>
  A parent continues the rebalancing only when the recursive call answered
  \<open>RES_BALANCE\<close>; \<open>rebalance\<close> is the conditional expression
  \<open>res == RES_BALANCE ? f( n ) : res\<close> of the code.
\<close>

definition rebalance ::
  "('e tree \<Rightarrow> ('e tree \<times> Result) option) \<Rightarrow> 'e tree \<Rightarrow> Result \<Rightarrow> ('e tree \<times> Result) option" where
  "rebalance f n res = (if res = RES_BALANCE then f n else Some (n, res))"

fun Insert ::
  "('s, 'e) OwnerInfo \<Rightarrow> 's \<Rightarrow> 'e tree \<Rightarrow> 'e \<Rightarrow> ('s \<times> 'e tree \<times> Result) option" where
  "Insert own st Null newDatum =
     (case m_ftn_newNode own st newDatum of
        (st', None) \<Rightarrow> Some (st', Null, RES_ERROR)
      | (st', Some node) \<Rightarrow> Some (st', Entry Null node SKEW_NONE Null, RES_BALANCE))"
| "Insert own st (Entry l e k r) newDatum =
     (let cmp = m_ftn_compare own st e newDatum in
      if cmp > 0 then
        (case Insert own st l newDatum of
           None \<Rightarrow> None
         | Some (st', l', res) \<Rightarrow>
             map_option (Pair st') (rebalance LeftGrown (Entry l' e k r) res))
      else if cmp < 0 then
        (case Insert own st r newDatum of
           None \<Rightarrow> None
         | Some (st', r', res) \<Rightarrow>
             map_option (Pair st') (rebalance RightGrown (Entry l e k r') res))
      else Some (st, Entry l e k r, RES_DUPLICATE))"

text \<open>
  \<open>FindHighest\<close> and \<open>FindLowest\<close> take the node to be replaced (\<open>target\<close>) and
  return, beside the new subtree, its new datum, the boolean result and the out parameter
  \<open>res\<close>.
\<close>

fun FindHighest ::
  "('s, 'e) OwnerInfo \<Rightarrow> 's \<Rightarrow> 'e tree \<Rightarrow> 'e \<Rightarrow> ('s \<times> 'e tree \<times> 'e \<times> bool \<times> Result) option" where
  "FindHighest own st Null target = Some (st, Null, target, False, RES_BALANCE)"
| "FindHighest own st (Entry l e k r) target =
     (if r \<noteq> Null then
        (case FindHighest own st r target of
           None \<Rightarrow> None
         | Some (st', r', target', found, res) \<Rightarrow>
             (if \<not> found then Some (st', Entry l e k r', target', False, res)
              else map_option (\<lambda>(n, res'). (st', n, target', True, res'))
                     (rebalance RightShrunk (Entry l e k r') res)))
      else
        (let (st1, target') = m_ftn_reassignNode own st e target;
             st2 = m_ftn_freeNode own st1 e
         in Some (st2, l, target', True, RES_BALANCE)))"

fun FindLowest ::
  "('s, 'e) OwnerInfo \<Rightarrow> 's \<Rightarrow> 'e tree \<Rightarrow> 'e \<Rightarrow> ('s \<times> 'e tree \<times> 'e \<times> bool \<times> Result) option" where
  "FindLowest own st Null target = Some (st, Null, target, False, RES_BALANCE)"
| "FindLowest own st (Entry l e k r) target =
     (if l \<noteq> Null then
        (case FindLowest own st l target of
           None \<Rightarrow> None
         | Some (st', l', target', found, res) \<Rightarrow>
             (if \<not> found then Some (st', Entry l' e k r, target', False, res)
              else map_option (\<lambda>(n, res'). (st', n, target', True, res'))
                     (rebalance LeftShrunk (Entry l' e k r) res)))
      else
        (let (st1, target') = m_ftn_reassignNode own st e target;
             st2 = m_ftn_freeNode own st1 e
         in Some (st2, r, target', True, RES_BALANCE)))"

text \<open>
  The node with the datum is found: replace it by the highest entry on its left, else by the
  lowest on its right, else free it.
\<close>

definition RemoveNode ::
  "('s, 'e) OwnerInfo \<Rightarrow> 's \<Rightarrow> 'e tree \<Rightarrow> 'e \<Rightarrow> Skew \<Rightarrow> 'e tree \<Rightarrow> ('s \<times> 'e tree \<times> Result) option" where
  "RemoveNode own st l e k r =
     (let free = Some (m_ftn_freeNode own st e, Null, RES_BALANCE);
          right = (if r \<noteq> Null then
                     (case FindLowest own st r e of
                        None \<Rightarrow> None
                      | Some (st', r', e', found, res) \<Rightarrow>
                          (if found then map_option (Pair st') (rebalance RightShrunk (Entry l e' k r') res)
                           else free))
                   else free)
      in if l \<noteq> Null then
           (case FindHighest own st l e of
              None \<Rightarrow> None
            | Some (st', l', e', found, res) \<Rightarrow>
                (if found then map_option (Pair st') (rebalance LeftShrunk (Entry l' e' k r) res)
                 else right))
         else right)"

fun Remove ::
  "('s, 'e) OwnerInfo \<Rightarrow> 's \<Rightarrow> 'e tree \<Rightarrow> 'e \<Rightarrow> ('s \<times> 'e tree \<times> Result) option" where
  "Remove own st Null oldDatum = Some (st, Null, RES_NOTFOUND)"
| "Remove own st (Entry l e k r) oldDatum =
     (let cmp = m_ftn_compare own st e oldDatum in
      if cmp > 0 then
        (case Remove own st l oldDatum of
           None \<Rightarrow> None
         | Some (st', l', res) \<Rightarrow>
             map_option (Pair st') (rebalance LeftShrunk (Entry l' e k r) res))
      else if cmp < 0 then
        (case Remove own st r oldDatum of
           None \<Rightarrow> None
         | Some (st', r', res) \<Rightarrow>
             map_option (Pair st') (rebalance RightShrunk (Entry l e k r') res))
      else RemoveNode own st l e k r)"

section \<open>Balance\<close>

fun tree_height :: "'e tree \<Rightarrow> nat" where
  "tree_height Null = 0"
| "tree_height (Entry l e k r) = Suc (max (tree_height l) (tree_height r))"

fun inorder :: "'e tree \<Rightarrow> 'e list" where
  "inorder Null = []"
| "inorder (Entry l e k r) = inorder l @ e # inorder r"

fun avl :: "'e tree \<Rightarrow> bool" where
  "avl Null = True"
| "avl (Entry l e k r) =
     (avl l \<and> avl r \<and>
      (case k of
         SKEW_LEFT \<Rightarrow> tree_height l = Suc (tree_height r)
       | SKEW_NONE \<Rightarrow> tree_height l = tree_height r
       | SKEW_RIGHT \<Rightarrow> tree_height r = Suc (tree_height l)))"

text \<open>A subtree that has just grown, and answered \<open>RES_BALANCE\<close>, is not balanced evenly
  unless it is a new leaf.\<close>

fun leans :: "'e tree \<Rightarrow> bool" where
  "leans Null = False"
| "leans (Entry l e k r) = (k \<noteq> SKEW_NONE \<or> l = Null \<and> r = Null)"

lemma tree_height_0 [simp]: "tree_height t = 0 \<longleftrightarrow> t = Null"
  by (cases t) auto

lemma Null_eq_height [simp]: "0 = tree_height t \<longleftrightarrow> t = Null"
  by (cases t) auto

lemmas avl_splits = tree.splits Skew.splits if_splits option.splits prod.splits

text \<open>What the four adjusting functions do for a node whose child has grown or shrunk.\<close>

definition adjusts :: "'e list \<Rightarrow> nat \<Rightarrow> nat \<Rightarrow> ('e tree \<times> Result) option \<Rightarrow> bool" where
  "adjusts es h_ok h_balance res =
     (case res of
        None \<Rightarrow> False
      | Some (n, a) \<Rightarrow> avl n \<and> inorder n = es \<and>
          (a = RES_OK \<and> tree_height n = h_ok \<or> a = RES_BALANCE \<and> tree_height n = h_balance))"

lemma LeftGrown_adjusts:
  assumes "avl l" "avl r" "avl (Entry l0 e k r)" "tree_height l = Suc (tree_height l0)" "leans l"
  shows "adjusts (inorder l @ e # inorder r)
           (tree_height (Entry l0 e k r)) (Suc (tree_height (Entry l0 e k r)))
           (LeftGrown (Entry l e k r))"
    and "LeftGrown (Entry l e k r) = Some (n, RES_BALANCE) \<Longrightarrow> leans n"
  using assms
  by (cases k; auto simp: adjusts_def rot_left_right_def split!: avl_splits)+

lemma RightGrown_adjusts:
  assumes "avl l" "avl r" "avl (Entry l e k r0)" "tree_height r = Suc (tree_height r0)" "leans r"
  shows "adjusts (inorder l @ e # inorder r)
           (tree_height (Entry l e k r0)) (Suc (tree_height (Entry l e k r0)))
           (RightGrown (Entry l e k r))"
    and "RightGrown (Entry l e k r) = Some (n, RES_BALANCE) \<Longrightarrow> leans n"
  using assms
  by (cases k; auto simp: adjusts_def rot_right_left_def split!: avl_splits)+

lemma LeftShrunk_adjusts:
  assumes "avl l" "avl r" "avl (Entry l0 e k r)" "tree_height l0 = Suc (tree_height l)"
  shows "adjusts (inorder l @ e' # inorder r)
           (tree_height (Entry l0 e k r)) (tree_height (Entry l0 e k r) - 1)
           (LeftShrunk (Entry l e' k r))"
  using assms
  by (cases k; auto simp: adjusts_def rot_right_left_def split!: avl_splits)

lemma RightShrunk_adjusts:
  assumes "avl l" "avl r" "avl (Entry l e k r0)" "tree_height r0 = Suc (tree_height r)"
  shows "adjusts (inorder l @ e' # inorder r)
           (tree_height (Entry l e k r0)) (tree_height (Entry l e k r0) - 1)
           (RightShrunk (Entry l e' k r))"
  using assms
  by (cases k; auto simp: adjusts_def rot_left_right_def split!: avl_splits)

section \<open>Replacing by the neighbour\<close>

text \<open>What is freed and overwritten when an entry leaves the sequence of entries.\<close>

definition steals ::
  "('s, 'e) OwnerInfo \<Rightarrow> 's \<Rightarrow> 'e \<Rightarrow> 'e \<Rightarrow> 's \<Rightarrow> 'e \<Rightarrow> bool" where
  "steals own st h target st' target' \<longleftrightarrow>
     (\<exists>st1. m_ftn_reassignNode own st h target = (st1, target') \<and> st' = m_ftn_freeNode own st1 h)"

definition shrinks :: "'e tree \<Rightarrow> 'e tree \<Rightarrow> Result \<Rightarrow> bool" where
  "shrinks t t' res \<longleftrightarrow>
     res = RES_OK \<and> tree_height t' = tree_height t \<or>
     res = RES_BALANCE \<and> tree_height t = Suc (tree_height t')"

lemma rebalance_left:
  assumes "avl (Entry l e k r)" "avl l'" "shrinks l l' res"
  shows "\<exists>n res'. rebalance LeftShrunk (Entry l' e' k r) res = Some (n, res') \<and> avl n \<and>
    inorder n = inorder l' @ e' # inorder r \<and> shrinks (Entry l e k r) n res'"
proof (cases "res = RES_BALANCE")
  case True
  with assms have "adjusts (inorder l' @ e' # inorder r) (tree_height (Entry l e k r))
      (tree_height (Entry l e k r) - 1) (LeftShrunk (Entry l' e' k r))"
    by (intro LeftShrunk_adjusts) (auto simp: shrinks_def)
  then show ?thesis
    using True by (auto simp: rebalance_def adjusts_def shrinks_def split: option.splits)
next
  case False
  with assms show ?thesis
    by (auto simp: rebalance_def shrinks_def split: Skew.splits)
qed

lemma rebalance_right:
  assumes "avl (Entry l e k r)" "avl r'" "shrinks r r' res"
  shows "\<exists>n res'. rebalance RightShrunk (Entry l e' k r') res = Some (n, res') \<and> avl n \<and>
    inorder n = inorder l @ e' # inorder r' \<and> shrinks (Entry l e k r) n res'"
proof (cases "res = RES_BALANCE")
  case True
  with assms have "adjusts (inorder l @ e' # inorder r') (tree_height (Entry l e k r))
      (tree_height (Entry l e k r) - 1) (RightShrunk (Entry l e' k r'))"
    by (intro RightShrunk_adjusts) (auto simp: shrinks_def)
  then show ?thesis
    using True by (auto simp: rebalance_def adjusts_def shrinks_def split: option.splits)
next
  case False
  with assms show ?thesis
    by (auto simp: rebalance_def shrinks_def split: Skew.splits)
qed

definition grows :: "'e tree \<Rightarrow> 'e tree \<Rightarrow> Result \<Rightarrow> bool" where
  "grows t t' res \<longleftrightarrow>
     res = RES_OK \<and> tree_height t' = tree_height t \<or>
     res = RES_BALANCE \<and> tree_height t' = Suc (tree_height t) \<and> leans t'"

lemma rebalance_left_grown:
  assumes "avl (Entry l e k r)" "avl l'" "grows l l' res"
  shows "\<exists>n res'. rebalance LeftGrown (Entry l' e k r) res = Some (n, res') \<and> avl n \<and>
    inorder n = inorder l' @ e # inorder r \<and> grows (Entry l e k r) n res'"
proof (cases "res = RES_BALANCE")
  case True
  with assms have h: "avl l'" "avl r" "avl (Entry l e k r)" "tree_height l' = Suc (tree_height l)" "leans l'"
    by (auto simp: grows_def)
  from LeftGrown_adjusts(1) [OF h] LeftGrown_adjusts(2) [OF h] True show ?thesis
    by (auto simp: rebalance_def adjusts_def grows_def split: option.splits)
next
  case False
  with assms show ?thesis
    by (auto simp: rebalance_def grows_def split: Skew.splits)
qed

lemma rebalance_right_grown:
  assumes "avl (Entry l e k r)" "avl r'" "grows r r' res"
  shows "\<exists>n res'. rebalance RightGrown (Entry l e k r') res = Some (n, res') \<and> avl n \<and>
    inorder n = inorder l @ e # inorder r' \<and> grows (Entry l e k r) n res'"
proof (cases "res = RES_BALANCE")
  case True
  with assms have h: "avl l" "avl r'" "avl (Entry l e k r)" "tree_height r' = Suc (tree_height r)" "leans r'"
    by (auto simp: grows_def)
  from RightGrown_adjusts(1) [OF h] RightGrown_adjusts(2) [OF h] True show ?thesis
    by (auto simp: rebalance_def adjusts_def grows_def split: option.splits)
next
  case False
  with assms show ?thesis
    by (auto simp: rebalance_def grows_def split: Skew.splits)
qed

lemma FindHighest_correct:
  assumes "avl t" "t \<noteq> Null"
  shows "\<exists>st' t' target' res h. FindHighest own st t target = Some (st', t', target', True, res) \<and>
    avl t' \<and> inorder t = inorder t' @ [h] \<and> steals own st h target st' target' \<and> shrinks t t' res"
  using assms
proof (induction t)
  case Null
  then show ?case by simp
next
  case (Entry l e k r)
  show ?case
  proof (cases "r = Null")
    case True
    with Entry.prems show ?thesis
      by (cases "m_ftn_reassignNode own st e target")
        (auto simp: steals_def shrinks_def split: Skew.splits)
  next
    case False
    with Entry obtain st' r' target' res h where
      r': "FindHighest own st r target = Some (st', r', target', True, res)" "avl r'"
        "inorder r = inorder r' @ [h]" "steals own st h target st' target'" "shrinks r r' res"
      by fastforce
    with rebalance_right [OF Entry.prems(1) r'(2,5), of e] False show ?thesis
      by fastforce
  qed
qed

lemma FindLowest_correct:
  assumes "avl t" "t \<noteq> Null"
  shows "\<exists>st' t' target' res h. FindLowest own st t target = Some (st', t', target', True, res) \<and>
    avl t' \<and> inorder t = h # inorder t' \<and> steals own st h target st' target' \<and> shrinks t t' res"
  using assms
proof (induction t)
  case Null
  then show ?case by simp
next
  case (Entry l e k r)
  show ?case
  proof (cases "l = Null")
    case True
    with Entry.prems show ?thesis
      by (cases "m_ftn_reassignNode own st e target")
        (auto simp: steals_def shrinks_def split: Skew.splits)
  next
    case False
    with Entry obtain st' l' target' res h where
      l': "FindLowest own st l target = Some (st', l', target', True, res)" "avl l'"
        "inorder l = h # inorder l'" "steals own st h target st' target'" "shrinks l l' res"
      by fastforce
    with rebalance_left [OF Entry.prems(1) l'(2,5), of e] False show ?thesis
      by fastforce
  qed
qed

text \<open>
  How one entry \<open>e\<close> leaves the sequence \<open>es\<close>: freed itself, or overwritten by a copy
  of its predecessor or successor, whose node is freed instead.
\<close>

definition removes ::
  "('s, 'e) OwnerInfo \<Rightarrow> 's \<Rightarrow> 'e \<Rightarrow> 'e list \<Rightarrow> 's \<Rightarrow> 'e list \<Rightarrow> bool" where
  "removes own st e es st' es' \<longleftrightarrow>
     (\<exists>xs ys. es = xs @ e # ys \<and> es' = xs @ ys \<and> st' = m_ftn_freeNode own st e) \<or>
     (\<exists>xs ys h e'. es = xs @ h # e # ys \<and> es' = xs @ e' # ys \<and> steals own st h e st' e') \<or>
     (\<exists>xs ys h e'. es = xs @ e # h # ys \<and> es' = xs @ e' # ys \<and> steals own st h e st' e')"

lemma removes_context:
  assumes "removes own st e es st' es'"
  shows "removes own st e (us @ es @ vs) st' (us @ es' @ vs)"
  using assms [unfolded removes_def]
proof (elim disjE exE conjE)
  fix xs ys
  assume "es = xs @ e # ys" "es' = xs @ ys" "st' = m_ftn_freeNode own st e"
  then have "us @ es @ vs = (us @ xs) @ e # (ys @ vs)" "us @ es' @ vs = (us @ xs) @ (ys @ vs)"
    by simp_all
  with \<open>st' = _\<close> show ?thesis unfolding removes_def by blast
next
  fix xs ys h e'
  assume "es = xs @ h # e # ys" "es' = xs @ e' # ys" and s: "steals own st h e st' e'"
  then have "us @ es @ vs = (us @ xs) @ h # e # (ys @ vs)" "us @ es' @ vs = (us @ xs) @ e' # (ys @ vs)"
    by simp_all
  with s show ?thesis unfolding removes_def by blast
next
  fix xs ys h e'
  assume "es = xs @ e # h # ys" "es' = xs @ e' # ys" and s: "steals own st h e st' e'"
  then have "us @ es @ vs = (us @ xs) @ e # h # (ys @ vs)" "us @ es' @ vs = (us @ xs) @ e' # (ys @ vs)"
    by simp_all
  with s show ?thesis unfolding removes_def by blast
qed

lemma RemoveNode_correct:
  assumes "avl (Entry l e k r)"
  shows "\<exists>st' t' res. RemoveNode own st l e k r = Some (st', t', res) \<and> avl t' \<and>
    removes own st e (inorder (Entry l e k r)) st' (inorder t') \<and> shrinks (Entry l e k r) t' res"
proof (cases "l = Null")
  case False
  with assms obtain st' l' e' res h where
    l': "FindHighest own st l e = Some (st', l', e', True, res)" "avl l'"
      "inorder l = inorder l' @ [h]" "steals own st h e st' e'" "shrinks l l' res"
    using FindHighest_correct [of l own st e] by auto
  have "removes own st e (inorder (Entry l e k r)) st' (inorder l' @ e' # inorder r)"
  proof -
    have "inorder (Entry l e k r) = inorder l' @ h # e # inorder r"
      using l'(3) by simp
    with l'(4) show ?thesis
      unfolding removes_def by blast
  qed
  then show ?thesis
    using rebalance_left [OF assms l'(2,5), of e'] False l'(1)
    by (fastforce simp: RemoveNode_def)
next
  case l: True
  show ?thesis
  proof (cases "r = Null")
    case True
    with l show ?thesis
      using assms by (auto simp: RemoveNode_def removes_def shrinks_def)
  next
    case False
    with assms obtain st' r' e' res h where
      r': "FindLowest own st r e = Some (st', r', e', True, res)" "avl r'"
        "inorder r = h # inorder r'" "steals own st h e st' e'" "shrinks r r' res"
      using FindLowest_correct [of r own st e] by auto
    have "removes own st e (inorder (Entry l e k r)) st' (inorder l @ e' # inorder r')"
    proof -
      have "inorder (Entry l e k r) = inorder l @ e # h # inorder r'"
        using r'(3) by simp
      with r'(4) show ?thesis
        unfolding removes_def by blast
    qed
    then show ?thesis
      using rebalance_right [OF assms r'(2,5), of e'] l False r'(1)
      by (fastforce simp: RemoveNode_def)
  qed
qed


section \<open>The contract of an owner\<close>

text \<open>
  What the tree asks of its owner: the comparison is that of a key in a linear order, a new
  node carries the key of the datum it is made for, and a reassigned node takes over the key
  of the node it replaces.
\<close>

definition keys_below :: "('e \<Rightarrow> 'k::linorder) \<Rightarrow> 'e list \<Rightarrow> 'k \<Rightarrow> bool" where
  "keys_below key es k \<longleftrightarrow> (\<forall>e\<in>set es. key e < k)"

definition keys_above :: "('e \<Rightarrow> 'k::linorder) \<Rightarrow> 'e list \<Rightarrow> 'k \<Rightarrow> bool" where
  "keys_above key es k \<longleftrightarrow> (\<forall>e\<in>set es. k < key e)"

definition inserts :: "('e \<Rightarrow> 'k::linorder) \<Rightarrow> 'e list \<Rightarrow> 'e \<Rightarrow> 'e list \<Rightarrow> bool" where
  "inserts key es n es' \<longleftrightarrow>
     (\<exists>xs ys. es = xs @ ys \<and> es' = xs @ n # ys \<and>
        keys_below key xs (key n) \<and> keys_above key ys (key n))"

locale avl_owner =
  fixes own :: "('s, 'e) OwnerInfo"
    and key :: "'e \<Rightarrow> 'k::linorder"
  assumes compare_less: "m_ftn_compare own st a b < 0 \<longleftrightarrow> key a < key b"
    and compare_greater: "m_ftn_compare own st a b > 0 \<longleftrightarrow> key b < key a"
    and newNode_key: "m_ftn_newNode own st d = (st', Some n) \<Longrightarrow> key n = key d"
    and reassign_key: "m_ftn_reassignNode own st f t = (st', t') \<Longrightarrow> key t' = key f"
begin

abbreviation ordered :: "'e list \<Rightarrow> bool" where
  "ordered es \<equiv> sorted_wrt (\<lambda>a b. key a < key b) es"

lemma compare_eq: "m_ftn_compare own st a b = 0 \<longleftrightarrow> key a = key b"
  using compare_less [of st a b] compare_greater [of st a b] by (metis less_irrefl linorder_less_linear)

lemma Find_correct:
  assumes "ordered (inorder t)"
  shows "Find own st t d = List.find (\<lambda>e. key e = key d) (inorder t)"
  using assms
proof (induction t)
  case Null
  then show ?case by simp
next
  case (Entry l e k r)
  then have IH: "Find own st l d = List.find (\<lambda>e. key e = key d) (inorder l)"
    "Find own st r d = List.find (\<lambda>e. key e = key d) (inorder r)"
    and lt: "\<forall>a\<in>set (inorder l). key a < key e" "\<forall>a\<in>set (inorder r). key e < key a"
    by (auto simp: sorted_wrt_append)
  have none: "List.find P es = None" if "\<forall>a\<in>set es. \<not> P a" for P and es :: "'e list"
    using that by (simp add: find_None_iff)
  have app: "List.find P (xs @ ys) = (case List.find P xs of None \<Rightarrow> List.find P ys | Some v \<Rightarrow> Some v)"
    for P and xs ys :: "'e list"
    by (induction xs) auto
  consider "key d < key e" | "key d = key e" | "key e < key d"
    by (metis linorder_less_linear)
  then show ?case
  proof cases
    case 1
    with lt have "List.find (\<lambda>a. key a = key d) (inorder r) = None"
      by (intro none) force
    with 1 show ?thesis
      by (auto simp: Let_def IH compare_greater compare_eq app split: option.split)
  next
    case 2
    with lt have "List.find (\<lambda>a. key a = key d) (inorder l) = None"
      by (intro none) force
    with 2 show ?thesis
      by (auto simp: Let_def compare_eq app)
  next
    case 3
    with lt have "List.find (\<lambda>a. key a = key d) (inorder l) = None"
      by (intro none) force
    with 3 show ?thesis
      by (auto simp: Let_def IH compare_greater compare_eq app)
  qed
qed

text \<open>Removal: the balance, the order and the sequence of entries.\<close>

lemma removes_ordered:
  assumes "removes own st e es st' es'" "ordered es"
  shows "ordered es'"
  using assms(1) [unfolded removes_def]
proof (elim disjE exE conjE)
  fix xs ys h e'
  assume es: "es = xs @ h # e # ys" "es' = xs @ e' # ys" "steals own st h e st' e'"
  then have "key e' = key h"
    using reassign_key by (auto simp: steals_def)
  with es(1,2) assms(2) show ?thesis
    by (auto simp: sorted_wrt_append)
next
  fix xs ys h e'
  assume es: "es = xs @ e # h # ys" "es' = xs @ e' # ys" "steals own st h e st' e'"
  then have "key e' = key h"
    using reassign_key by (auto simp: steals_def)
  with es(1,2) assms(2) show ?thesis
    by (auto simp: sorted_wrt_append)
qed (use assms(2) in \<open>auto simp: sorted_wrt_append\<close>)

lemma removes_keys:
  assumes "removes own st e es st' es'" "ordered es"
  shows "map key es' = remove1 (key e) (map key es)"
proof -
  have absent: "remove1 (key e) (map key xs @ zs) = map key xs @ remove1 (key e) zs"
    if "\<forall>a\<in>set xs. key a < key e" for xs zs
    using that by (induction xs) auto
  show ?thesis
    using assms(1) [unfolded removes_def]
  proof (elim disjE exE conjE)
    fix xs ys h e'
    assume es: "es = xs @ h # e # ys" "es' = xs @ e' # ys" "steals own st h e st' e'"
    then have "key e' = key h"
      using reassign_key by (auto simp: steals_def)
    with es(1,2) assms(2) absent [of "xs @ [h]" "key e # map key ys"] show ?thesis
      by (auto simp: sorted_wrt_append)
  next
    fix xs ys h e'
    assume es: "es = xs @ e # h # ys" "es' = xs @ e' # ys" "steals own st h e st' e'"
    then have "key e' = key h"
      using reassign_key by (auto simp: steals_def)
    with es(1,2) assms(2) absent [of xs] show ?thesis
      by (auto simp: sorted_wrt_append)
  qed (use assms(2) absent in \<open>auto simp: sorted_wrt_append\<close>)
qed

lemma Remove_correct:
  assumes "avl t" "ordered (inorder t)"
  shows "\<exists>st' t' res. Remove own st t d = Some (st', t', res) \<and> avl t' \<and>
    (if \<exists>e\<in>set (inorder t). key e = key d
     then (\<exists>e. key e = key d \<and> removes own st e (inorder t) st' (inorder t')) \<and> shrinks t t' res
     else st' = st \<and> t' = t \<and> res = RES_NOTFOUND)"
  using assms
proof (induction t)
  case Null
  then show ?case by simp
next
  case (Entry l e k r)
  note av = Entry.prems(1)
  from Entry.prems have lt: "\<forall>a\<in>set (inorder l). key a < key e" "\<forall>a\<in>set (inorder r). key e < key a"
    and sub: "avl l" "avl r" "ordered (inorder l)" "ordered (inorder r)"
    by (auto simp: sorted_wrt_append)
  consider "key d < key e" | "key d = key e" | "key e < key d"
    by (metis linorder_less_linear)
  then show ?case
  proof cases
    case 1
    with lt have at: "(\<exists>a\<in>set (inorder (Entry l e k r)). key a = key d) \<longleftrightarrow> (\<exists>a\<in>set (inorder l). key a = key d)"
      by force
    obtain st' l' res where l': "Remove own st l d = Some (st', l', res)" "avl l'"
      "if \<exists>e\<in>set (inorder l). key e = key d
       then (\<exists>e. key e = key d \<and> removes own st e (inorder l) st' (inorder l')) \<and> shrinks l l' res
       else st' = st \<and> l' = l \<and> res = RES_NOTFOUND"
      using Entry.IH(1) [OF sub(1,3)] by auto
    show ?thesis
    proof (cases "\<exists>a\<in>set (inorder l). key a = key d")
      case True
      with l'(3) obtain a where a: "key a = key d" "removes own st a (inorder l) st' (inorder l')"
        and s: "shrinks l l' res" by auto
      from removes_context [OF a(2), of "[]" "e # inorder r"] have
        "removes own st a (inorder (Entry l e k r)) st' (inorder l' @ e # inorder r)" by simp
      with rebalance_left [OF av l'(2) s, of e] l'(1) 1 a(1) True show ?thesis
        unfolding at by (fastforce simp: Let_def compare_greater)
    next
      case False
      with l' 1 av show ?thesis
        unfolding at by (simp add: Let_def compare_greater rebalance_def)
    qed
  next
    case 2
    then have "(\<exists>a\<in>set (inorder (Entry l e k r)). key a = key d)" by auto
    with RemoveNode_correct [OF av, of own st] 2 compare_greater compare_less show ?thesis
      by (fastforce simp: Let_def)
  next
    case 3
    with lt have at: "(\<exists>a\<in>set (inorder (Entry l e k r)). key a = key d) \<longleftrightarrow> (\<exists>a\<in>set (inorder r). key a = key d)"
      by force
    have ng: "\<not> m_ftn_compare own st e d > 0"
      using 3 by (simp add: compare_greater)
    obtain st' r' res where r': "Remove own st r d = Some (st', r', res)" "avl r'"
      "if \<exists>e\<in>set (inorder r). key e = key d
       then (\<exists>e. key e = key d \<and> removes own st e (inorder r) st' (inorder r')) \<and> shrinks r r' res
       else st' = st \<and> r' = r \<and> res = RES_NOTFOUND"
      using Entry.IH(2) [OF sub(2,4)] by auto
    show ?thesis
    proof (cases "\<exists>a\<in>set (inorder r). key a = key d")
      case True
      with r'(3) obtain a where a: "key a = key d" "removes own st a (inorder r) st' (inorder r')"
        and s: "shrinks r r' res" by auto
      from removes_context [OF a(2), of "inorder l @ [e]" "[]"] have
        "removes own st a (inorder (Entry l e k r)) st' (inorder l @ e # inorder r')" by simp
      with rebalance_right [OF av r'(2) s, of e] r'(1) 3 ng a(1) True show ?thesis
        unfolding at by (fastforce simp: Let_def compare_less)
    next
      case False
      with r' 3 ng av show ?thesis
        unfolding at by (simp add: Let_def compare_less rebalance_def)
    qed
  qed
qed

text \<open>Insertion: a duplicate and an exhausted owner leave the tree as it is.\<close>

lemma inserts_left:
  assumes "inserts key (inorder l) n es'" "key n < key e" "\<forall>a\<in>set (inorder r). key e < key a"
  shows "inserts key (inorder l @ e # inorder r) n (es' @ e # inorder r)"
proof -
  from assms(1) obtain xs ys where x: "inorder l = xs @ ys" "es' = xs @ n # ys"
    "keys_below key xs (key n)" "keys_above key ys (key n)"
    by (auto simp: inserts_def)
  then have "keys_above key (ys @ e # inorder r) (key n)"
    using assms(2,3) by (auto simp: keys_above_def)
  with x show ?thesis
    unfolding inserts_def by (metis append.assoc append_Cons)
qed

lemma inserts_right:
  assumes "inserts key (inorder r) n es'" "key e < key n" "\<forall>a\<in>set (inorder l). key a < key e"
  shows "inserts key (inorder l @ e # inorder r) n (inorder l @ e # es')"
proof -
  from assms(1) obtain xs ys where x: "inorder r = xs @ ys" "es' = xs @ n # ys"
    "keys_below key xs (key n)" "keys_above key ys (key n)"
    by (auto simp: inserts_def)
  then have "keys_below key (inorder l @ e # xs) (key n)"
    using assms(2,3) by (auto simp: keys_below_def)
  with x show ?thesis
    unfolding inserts_def by (metis append.assoc append_Cons)
qed

definition insert_result ::
  "'s \<Rightarrow> 'e tree \<Rightarrow> 'e \<Rightarrow> 's \<Rightarrow> 'e tree \<Rightarrow> Result \<Rightarrow> bool" where
  "insert_result st t d st' t' res \<longleftrightarrow>
     (if \<exists>e\<in>set (inorder t). key e = key d then st' = st \<and> t' = t \<and> res = RES_DUPLICATE
      else (case m_ftn_newNode own st d of
              (st1, None) \<Rightarrow> st' = st1 \<and> t' = t \<and> res = RES_ERROR
            | (st1, Some n) \<Rightarrow> st' = st1 \<and> inserts key (inorder t) n (inorder t') \<and> grows t t' res))"

lemma Insert_correct:
  assumes "avl t" "ordered (inorder t)"
  shows "\<exists>st' t' res. Insert own st t d = Some (st', t', res) \<and> avl t' \<and>
    insert_result st t d st' t' res"
  using assms
proof (induction t)
  case Null
  show ?case
    by (auto simp: insert_result_def inserts_def keys_below_def keys_above_def grows_def
        split: prod.split option.split)
next
  case (Entry l e k r)
  note av = Entry.prems(1)
  from Entry.prems have lt: "\<forall>a\<in>set (inorder l). key a < key e" "\<forall>a\<in>set (inorder r). key e < key a"
    and sub: "avl l" "avl r" "ordered (inorder l)" "ordered (inorder r)"
    by (auto simp: sorted_wrt_append)
  consider "key d < key e" | "key d = key e" | "key e < key d"
    by (metis linorder_less_linear)
  then show ?case
  proof cases
    case 1
    with lt have at: "(\<exists>a\<in>set (inorder (Entry l e k r)). key a = key d) \<longleftrightarrow> (\<exists>a\<in>set (inorder l). key a = key d)"
      by force
    obtain st' l' res where l': "Insert own st l d = Some (st', l', res)" "avl l'"
      "insert_result st l d st' l' res"
      using Entry.IH(1) [OF sub(1,3)] by auto
    have ins: "Insert own st (Entry l e k r) d =
        map_option (Pair st') (rebalance LeftGrown (Entry l' e k r) res)"
      using l'(1) 1 by (simp add: Let_def compare_greater)
    show ?thesis
    proof (cases "(\<exists>a\<in>set (inorder l). key a = key d) \<or> snd (m_ftn_newNode own st d) = None")
      case True
      with l' av show ?thesis
        unfolding ins insert_result_def at
        by (auto simp: rebalance_def split: prod.splits option.splits if_splits)
    next
      case False
      then obtain st1 n where n: "m_ftn_newNode own st d = (st1, Some n)"
        by (cases "m_ftn_newNode own st d") auto
      with False l'(3) have "st' = st1" "inserts key (inorder l) n (inorder l')" "grows l l' res"
        by (auto simp: insert_result_def)
      moreover from this have "inserts key (inorder (Entry l e k r)) n (inorder l' @ e # inorder r)"
        using inserts_left [of l n "inorder l'" e r] newNode_key [OF n] 1 lt(2) by simp
      moreover obtain t' res' where "rebalance LeftGrown (Entry l' e k r) res = Some (t', res')" "avl t'"
        "inorder t' = inorder l' @ e # inorder r" "grows (Entry l e k r) t' res'"
        using rebalance_left_grown [OF av l'(2)] calculation(3) by blast
      ultimately show ?thesis
        using False n unfolding ins insert_result_def at by simp
    qed
  next
    case 2
    then show ?thesis
      using av compare_eq [of st e d] by (auto simp: Let_def insert_result_def)
  next
    case 3
    with lt have at: "(\<exists>a\<in>set (inorder (Entry l e k r)). key a = key d) \<longleftrightarrow> (\<exists>a\<in>set (inorder r). key a = key d)"
      by force
    obtain st' r' res where r': "Insert own st r d = Some (st', r', res)" "avl r'"
      "insert_result st r d st' r' res"
      using Entry.IH(2) [OF sub(2,4)] by auto
    have "\<not> m_ftn_compare own st e d > 0"
      using 3 by (simp add: compare_greater)
    then have ins: "Insert own st (Entry l e k r) d =
        map_option (Pair st') (rebalance RightGrown (Entry l e k r') res)"
      using r'(1) 3 by (simp add: Let_def compare_less)
    show ?thesis
    proof (cases "(\<exists>a\<in>set (inorder r). key a = key d) \<or> snd (m_ftn_newNode own st d) = None")
      case True
      with r' av show ?thesis
        unfolding ins insert_result_def at
        by (auto simp: rebalance_def split: prod.splits option.splits if_splits)
    next
      case False
      then obtain st1 n where n: "m_ftn_newNode own st d = (st1, Some n)"
        by (cases "m_ftn_newNode own st d") auto
      with False r'(3) have "st' = st1" "inserts key (inorder r) n (inorder r')" "grows r r' res"
        by (auto simp: insert_result_def)
      moreover from this have "inserts key (inorder (Entry l e k r)) n (inorder l @ e # inorder r')"
        using inserts_right [of r n "inorder r'" e l] newNode_key [OF n] 3 lt(1) by simp
      moreover obtain t' res' where "rebalance RightGrown (Entry l e k r') res = Some (t', res')" "avl t'"
        "inorder t' = inorder l @ e # inorder r'" "grows (Entry l e k r) t' res'"
        using rebalance_right_grown [OF av r'(2)] calculation(3) by blast
      ultimately show ?thesis
        using False n unfolding ins insert_result_def at by simp
    qed
  qed
qed

lemma inserts_ordered:
  assumes "inserts key es n es'" "ordered es"
  shows "ordered es'"
  using assms by (auto simp: inserts_def sorted_wrt_append keys_below_def keys_above_def)

end

end
