(* ===== verification/MethodCacheAvl.thy ===== *)
theory MethodCacheAvl imports AvlTree "HOL-Library.Product_Lexorder" "HOL-Library.Multiset" begin

text \<open>
  The cache of resolved virtual methods, \<^verbatim>\<open>CLR_RT_EventCache::VirtualMethodTable\<close> of
  \<^verbatim>\<open>src/CLR/Core/Cache.cpp\<close>, in the variant built on the balanced tree
  (\<^verbatim>\<open>TINYCLR_USE_AVLTREE_FOR_METHODLOOKUP\<close>), which no build under \<^verbatim>\<open>src\<close> turns on. An entry is known by its index in the array
  \<open>m_entries\<close>; the two doubly linked lists through the entries are lists of indices. The
  tables of the type system are a parameter. The lemmas show that the callbacks keep the
  contract \<open>avl_owner\<close>, and that a lookup is the lookup in a bounded list of keys
  in the order of their last use.
\<close>

section \<open>Entries, lists and callbacks\<close>

record Payload =
  m_mdVirtual :: u32
  m_cls :: u32
  m_md :: u32

record LookupEntry =
  m_id :: nat
  m_payload :: Payload

record EntryLists =
  m_list_freeItems :: "nat list"
  m_list_inUse :: "nat list"

record VirtualMethodTable =
  m_tree :: "LookupEntry tree"
  m_lists :: EntryLists

definition Payload_Compare :: "Payload \<Rightarrow> Payload \<Rightarrow> int" where
  "Payload_Compare left right =
     (if m_mdVirtual left = m_mdVirtual right then
        (if m_cls left = m_cls right then 0
         else if m_cls left < m_cls right then -1 else 1)
      else if m_mdVirtual left < m_mdVirtual right then -1 else 1)"

definition Callback_Compare :: "EntryLists \<Rightarrow> LookupEntry \<Rightarrow> LookupEntry \<Rightarrow> int" where
  "Callback_Compare st left right = Payload_Compare (m_payload left) (m_payload right)"

text \<open>An entry is on at most one list; linking it removes it from there first.\<close>

definition RemoveFromList :: "nat \<Rightarrow> EntryLists \<Rightarrow> EntryLists" where
  "RemoveFromList i st =
     st\<lparr>m_list_freeItems := remove1 i (m_list_freeItems st),
        m_list_inUse := remove1 i (m_list_inUse st)\<rparr>"

fun insert_after :: "nat \<Rightarrow> nat \<Rightarrow> nat list \<Rightarrow> nat list" where
  "insert_after i new [] = []"
| "insert_after i new (x # xs) = (if x = i then x # new # xs else x # insert_after i new xs)"

definition InsertAfterNode :: "nat \<Rightarrow> nat \<Rightarrow> EntryLists \<Rightarrow> EntryLists" where
  "InsertAfterNode i new st =
     (if i \<noteq> new then
        (let st = RemoveFromList new st in
         st\<lparr>m_list_freeItems := insert_after i new (m_list_freeItems st),
            m_list_inUse := insert_after i new (m_list_inUse st)\<rparr>)
      else st)"

definition LinkAtFront_inUse :: "nat \<Rightarrow> EntryLists \<Rightarrow> EntryLists" where
  "LinkAtFront_inUse i st =
     (let st = RemoveFromList i st in st\<lparr>m_list_inUse := i # m_list_inUse st\<rparr>)"

definition LinkAtBack_free :: "nat \<Rightarrow> EntryLists \<Rightarrow> EntryLists" where
  "LinkAtBack_free i st =
     (let st = RemoveFromList i st in st\<lparr>m_list_freeItems := m_list_freeItems st @ [i]\<rparr>)"

definition Callback_NewNode :: "EntryLists \<Rightarrow> LookupEntry \<Rightarrow> EntryLists \<times> LookupEntry option" where
  "Callback_NewNode st payload =
     (case m_list_freeItems st of
        [] \<Rightarrow> (st, None)
      | i # rest \<Rightarrow>
          (LinkAtFront_inUse i (st\<lparr>m_list_freeItems := rest\<rparr>),
           Some \<lparr>m_id = i, m_payload = m_payload payload\<rparr>))"

definition Callback_FreeNode :: "EntryLists \<Rightarrow> LookupEntry \<Rightarrow> EntryLists" where
  "Callback_FreeNode st node = LinkAtBack_free (m_id node) st"

definition Callback_Reassign ::
  "EntryLists \<Rightarrow> LookupEntry \<Rightarrow> LookupEntry \<Rightarrow> EntryLists \<times> LookupEntry" where
  "Callback_Reassign st from to =
     (InsertAfterNode (m_id from) (m_id to) st, to\<lparr>m_payload := m_payload from\<rparr>)"

definition m_owner :: "(EntryLists, LookupEntry) OwnerInfo" where
  "m_owner =
     \<lparr>m_ftn_compare = Callback_Compare, m_ftn_newNode = Callback_NewNode,
      m_ftn_freeNode = Callback_FreeNode, m_ftn_reassignNode = Callback_Reassign\<rparr>"

definition VirtualMethodTable_Initialize :: "nat \<Rightarrow> VirtualMethodTable" where
  "VirtualMethodTable_Initialize PayloadArraySize =
     \<lparr>m_tree = Null,
      m_lists = foldl (\<lambda>st i. LinkAtBack_free i st) \<lparr>m_list_freeItems = [], m_list_inUse = []\<rparr>
                  [0..<PayloadArraySize]\<rparr>"

section \<open>The lookup\<close>

text \<open>
  What the lookup reads of the type system: the class a method belongs to, whether it is
  abstract, and the search through the class hierarchy (\<open>None\<close>: no such method).
\<close>

record TypeSystem =
  InitializeFromMethod :: "u32 \<Rightarrow> u32"
  is_abstract :: "u32 \<Rightarrow> bool"
  FindVirtualMethodDef :: "u32 \<Rightarrow> u32 \<Rightarrow> u32 option"

definition lookup_key :: "u32 \<Rightarrow> u32 \<Rightarrow> u32 \<Rightarrow> LookupEntry" where
  "lookup_key mdVirtual cls md =
     \<lparr>m_id = 0, m_payload = \<lparr>m_mdVirtual = mdVirtual, m_cls = cls, m_md = md\<rparr>\<rparr>"

text \<open>
  Make room for one entry: when no entry is free, the last one of the list of entries in use
  leaves the tree. The answer is \<open>False\<close> when there is none.
\<close>

definition steal_node :: "VirtualMethodTable \<Rightarrow> (VirtualMethodTable \<times> bool) option" where
  "steal_node vt =
     (if m_list_freeItems (m_lists vt) = [] then
        (if m_list_inUse (m_lists vt) = [] then Some (vt, False)
         else
           (case List.find (\<lambda>e. m_id e = last (m_list_inUse (m_lists vt))) (inorder (m_tree vt)) of
              None \<Rightarrow> None
            | Some en \<Rightarrow>
                (case Remove m_owner (m_lists vt) (m_tree vt) en of
                   None \<Rightarrow> None
                 | Some (st, t, res) \<Rightarrow> Some (\<lparr>m_tree = t, m_lists = st\<rparr>, True))))
      else Some (vt, True))"

definition FindVirtualMethod ::
  "TypeSystem \<Rightarrow> u32 \<Rightarrow> u32 \<Rightarrow> VirtualMethodTable \<Rightarrow> (VirtualMethodTable \<times> u32 option) option" where
  "FindVirtualMethod ts cls mdVirtual vt =
     (if cls = InitializeFromMethod ts mdVirtual \<and> \<not> is_abstract ts mdVirtual
      then Some (vt, Some mdVirtual)
      else
        (case Find m_owner (m_lists vt) (m_tree vt) (lookup_key mdVirtual cls 0) of
           Some en \<Rightarrow>
             Some (vt\<lparr>m_lists := LinkAtFront_inUse (m_id en) (m_lists vt)\<rparr>, Some (m_md (m_payload en)))
         | None \<Rightarrow>
             (case FindVirtualMethodDef ts cls mdVirtual of
                None \<Rightarrow> Some (vt, None)
              | Some md \<Rightarrow>
                  (case steal_node vt of
                     None \<Rightarrow> None
                   | Some (vt, False) \<Rightarrow> Some (vt, Some md)
                   | Some (vt, True) \<Rightarrow>
                       (case Insert m_owner (m_lists vt) (m_tree vt) (lookup_key mdVirtual cls md) of
                          None \<Rightarrow> None
                        | Some (st, t, res) \<Rightarrow> Some (\<lparr>m_tree = t, m_lists = st\<rparr>, Some md))))))"

section \<open>The callbacks keep the contract of the tree\<close>

definition entry_key :: "LookupEntry \<Rightarrow> u32 \<times> u32" where
  "entry_key e = (m_mdVirtual (m_payload e), m_cls (m_payload e))"

lemma Callback_Compare_key:
  "Callback_Compare st a b < 0 \<longleftrightarrow> entry_key a < entry_key b"
  "Callback_Compare st a b > 0 \<longleftrightarrow> entry_key b < entry_key a"
  by (auto simp: Callback_Compare_def Payload_Compare_def entry_key_def less_prod_def')

lemma m_owner_simps [simp]:
  "m_ftn_compare m_owner = Callback_Compare" "m_ftn_newNode m_owner = Callback_NewNode"
  "m_ftn_freeNode m_owner = Callback_FreeNode" "m_ftn_reassignNode m_owner = Callback_Reassign"
  by (simp_all add: m_owner_def)

interpretation vm: avl_owner m_owner entry_key
  by unfold_locales
    (auto simp: Callback_Compare_key Callback_NewNode_def Callback_Reassign_def entry_key_def
      split: list.splits)

section \<open>Entries and lists belong together\<close>

text \<open>
  The entries of the tree are exactly the ones on the list in use, and the two lists share
  out the array. \<open>key_of\<close> is the key stored in an entry of the tree, \<open>mru\<close> the keys in
  the order of the list in use.
\<close>

definition pool :: "nat \<Rightarrow> EntryLists \<Rightarrow> LookupEntry list \<Rightarrow> bool" where
  "pool N st es \<longleftrightarrow>
     distinct (map m_id es) \<and> m_id ` set es = set (m_list_inUse st) \<and>
     distinct (m_list_freeItems st @ m_list_inUse st) \<and>
     set (m_list_freeItems st) \<union> set (m_list_inUse st) = {..<N}"

definition key_of :: "LookupEntry list \<Rightarrow> nat \<Rightarrow> u32 \<times> u32" where
  "key_of es i = the (map_of (map (\<lambda>e. (m_id e, entry_key e)) es) i)"

definition mru :: "EntryLists \<Rightarrow> LookupEntry list \<Rightarrow> (u32 \<times> u32) list" where
  "mru st es = map (key_of es) (m_list_inUse st)"

lemma key_of_member:
  assumes "distinct (map m_id es)" "e \<in> set es"
  shows "key_of es (m_id e) = entry_key e"
proof -
  have "distinct (map fst (map (\<lambda>e. (m_id e, entry_key e)) es))"
    using assms(1) by (simp add: comp_def)
  moreover have "(m_id e, entry_key e) \<in> set (map (\<lambda>e. (m_id e, entry_key e)) es)"
    using assms(2) by auto
  ultimately show ?thesis
    unfolding key_of_def by (simp only: map_of_is_SomeI option.sel)
qed

lemma ordered_key_inj:
  assumes "sorted_wrt (\<lambda>a b. entry_key a < entry_key b) es"
  shows "inj_on entry_key (set es)"
  using assms
proof (induction es)
  case (Cons e es)
  then have "entry_key e \<notin> entry_key ` set es"
    by auto
  with Cons show ?case by (simp add: inj_on_insert image_iff)
qed simp

lemma key_of_inj:
  assumes "sorted_wrt (\<lambda>a b. entry_key a < entry_key b) es" "distinct (map m_id es)"
  shows "inj_on (key_of es) (m_id ` set es)"
  using ordered_key_inj [OF assms(1)] key_of_member [OF assms(2)]
  by (auto simp: inj_on_def)

lemma map_remove1_inj:
  assumes "inj_on f (set xs)" "x \<in> set xs"
  shows "map f (remove1 x xs) = remove1 (f x) (map f xs)"
  using assms by (induction xs) (auto simp: inj_on_def)

lemma remove_after_insert:
  assumes "distinct xs" "new \<notin> set xs" "i \<noteq> new"
  shows "remove1 i (insert_after i new xs) = map (\<lambda>j. if j = i then new else j) xs"
  using assms
proof (induction xs)
  case (Cons x xs)
  have "map (\<lambda>j. if j = i then new else j) ys = ys" if "i \<notin> set ys" for ys
    using that by (induction ys) auto
  with Cons show ?case by auto
qed simp

lemma insert_after_absent: "i \<notin> set xs \<Longrightarrow> insert_after i new xs = xs"
  by (induction xs) auto

lemma Callback_FreeNode_pool:
  assumes "pool N st (xs @ e # ys)"
  shows "pool N (Callback_FreeNode st e) (xs @ ys)"
    and "m_list_inUse (Callback_FreeNode st e) = remove1 (m_id e) (m_list_inUse st)"
proof -
  from assms have e: "m_id e \<in> set (m_list_inUse st)" "m_id e \<notin> set (m_list_freeItems st)"
    and d: "distinct (m_list_inUse st)"
    unfolding pool_def by auto
  show "m_list_inUse (Callback_FreeNode st e) = remove1 (m_id e) (m_list_inUse st)"
    by (simp add: Callback_FreeNode_def LinkAtBack_free_def RemoveFromList_def Let_def)
  from assms have ids: "m_id ` set (xs @ ys) = set (remove1 (m_id e) (m_list_inUse st))"
  proof -
    from assms have "m_id e \<notin> m_id ` set (xs @ ys)" "insert (m_id e) (m_id ` set (xs @ ys)) = set (m_list_inUse st)"
      unfolding pool_def by auto
    then show ?thesis using d by (simp add: set_eq_iff) blast
  qed
  have u: "set (m_list_freeItems st) \<union> set (m_list_inUse st) = {..<N}"
    using assms by (simp add: pool_def)
  then have "insert (m_id e) (set (m_list_freeItems st)) \<union> set (remove1 (m_id e) (m_list_inUse st)) = {..<N}"
    using e(1) d by auto
  with ids e d assms show "pool N (Callback_FreeNode st e) (xs @ ys)"
    by (auto simp: pool_def Callback_FreeNode_def LinkAtBack_free_def RemoveFromList_def Let_def
        remove1_idem)
qed

definition replace_id :: "nat \<Rightarrow> nat \<Rightarrow> nat \<Rightarrow> nat" where
  "replace_id i new j = (if j = i then new else j)"

lemma steal_lists:
  assumes "steals m_owner st h e st' e'" "distinct (m_list_freeItems st @ m_list_inUse st)"
    "m_id h \<in> set (m_list_inUse st)" "m_id e \<in> set (m_list_inUse st)" "m_id h \<noteq> m_id e"
  shows "e' = e\<lparr>m_payload := m_payload h\<rparr>"
    and "m_list_freeItems st' = m_list_freeItems st @ [m_id h]"
    and "m_list_inUse st' = map (replace_id (m_id h) (m_id e)) (remove1 (m_id e) (m_list_inUse st))"
proof -
  have f: "m_id e \<notin> set (m_list_freeItems st)" "m_id h \<notin> set (m_list_freeItems st)"
    and d: "distinct (remove1 (m_id e) (m_list_inUse st))"
      "m_id e \<notin> set (remove1 (m_id e) (m_list_inUse st))"
    using assms(2-4) by auto
  show "e' = e\<lparr>m_payload := m_payload h\<rparr>"
    using assms(1) by (auto simp: steals_def Callback_Reassign_def)
  show "m_list_freeItems st' = m_list_freeItems st @ [m_id h]"
    using assms(1,5) f
    by (auto simp: steals_def Callback_Reassign_def Callback_FreeNode_def LinkAtBack_free_def
        RemoveFromList_def InsertAfterNode_def Let_def insert_after_absent remove1_idem)
  show "m_list_inUse st' = map (replace_id (m_id h) (m_id e)) (remove1 (m_id e) (m_list_inUse st))"
    using assms(1,5) remove_after_insert [OF d assms(5)]
    by (auto simp: steals_def Callback_Reassign_def Callback_FreeNode_def LinkAtBack_free_def
        RemoveFromList_def InsertAfterNode_def Let_def replace_id_def)
qed

lemma pool_swap:
  assumes "pool N st es" "e \<in> set es" "h \<in> set es" "h \<noteq> e"
    "steals m_owner st h e st' e'"
    "distinct (map m_id es')" "set es' = insert e' (set es - {e, h})"
    "sorted_wrt (\<lambda>a b. entry_key a < entry_key b) es"
  shows "pool N st' es'" and "mru st' es' = remove1 (entry_key e) (mru st es)"
proof -
  let ?u = "m_list_inUse st" and ?f = "m_list_freeItems st"
  from assms(1) have dm: "distinct (map m_id es)" and ids: "m_id ` set es = set ?u"
    and dl: "distinct (?f @ ?u)" and un: "set ?f \<union> set ?u = {..<N}"
    by (auto simp: pool_def)
  from dm assms(2-4) have ne: "m_id h \<noteq> m_id e"
    by (auto simp: distinct_map inj_on_def)
  from ids assms(2,3) have mem: "m_id e \<in> set ?u" "m_id h \<in> set ?u"
    by auto
  note st' = steal_lists [OF assms(5) dl mem(2,1) ne]
  have rem: "set (remove1 (m_id e) ?u) = set ?u - {m_id e}" "distinct (remove1 (m_id e) ?u)"
    using dl by auto
  have u': "set (m_list_inUse st') = set ?u - {m_id h}"
    using mem ne by (auto simp: st'(3) rem(1) replace_id_def)
  have others: "m_id ` (set es - {e, h}) = set ?u - {m_id e, m_id h}"
    using dm assms(2,3) ids [symmetric] by (auto simp: distinct_map inj_on_def)
  have ids': "m_id ` set es' = set ?u - {m_id h}"
    using mem ne by (auto simp: assms(7) st'(1) others)
  have "distinct (m_list_inUse st')"
    unfolding st'(3) using rem ne
    by (auto simp: distinct_map inj_on_def replace_id_def split: if_splits)
  moreover have "set ?f \<inter> set ?u = {}"
    using dl by auto
  moreover have "insert (m_id h) (set ?f) \<union> (set ?u - {m_id h}) = {..<N}"
    using un mem(2) by auto
  ultimately show "pool N st' es'"
    using dl assms(6) mem(2) by (auto simp: pool_def u' ids' st'(2))
  have e': "e' \<in> set es'" "m_id e' = m_id e" "entry_key e' = entry_key h"
    by (auto simp: assms(7) st'(1) entry_key_def)
  have key: "key_of es' (replace_id (m_id h) (m_id e) j) = key_of es j" if "j \<in> set ?u - {m_id e}" for j
  proof (cases "j = m_id h")
    case True
    then show ?thesis
      using key_of_member [OF assms(6) e'(1)] key_of_member [OF dm assms(3)] e'(2,3)
      by (simp add: replace_id_def)
  next
    case False
    with that others obtain a where a: "a \<in> set es - {e, h}" "j = m_id a" by blast
    then show ?thesis
      using key_of_member [OF assms(6), of a] key_of_member [OF dm, of a] False
      by (simp add: assms(7) replace_id_def)
  qed
  have "mru st' es' = map (key_of es) (remove1 (m_id e) ?u)"
    unfolding mru_def st'(3) using key rem(1) by (auto simp: comp_def)
  also have "\<dots> = remove1 (key_of es (m_id e)) (map (key_of es) ?u)"
    using key_of_inj [OF assms(8) dm] mem(1) ids by (intro map_remove1_inj) auto
  finally show "mru st' es' = remove1 (entry_key e) (mru st es)"
    by (simp add: mru_def key_of_member [OF dm assms(2)])
qed

text \<open>An entry that leaves the tree leaves the list of keys, whichever node is freed.\<close>

lemma removes_pool:
  assumes "removes m_owner st e es st' es'" "pool N st es"
    "sorted_wrt (\<lambda>a b. entry_key a < entry_key b) es"
  shows "pool N st' es' \<and> mru st' es' = remove1 (entry_key e) (mru st es) \<and>
    m_payload ` set es' \<subseteq> m_payload ` set es"
  using assms(1) [unfolded removes_def]
proof (elim disjE exE conjE)
  fix xs ys
  assume es: "es = xs @ e # ys" "es' = xs @ ys" "st' = m_ftn_freeNode m_owner st e"
  note free = Callback_FreeNode_pool [OF assms(2) [unfolded es(1)]]
  have dm: "distinct (map m_id es)" and ids: "m_id ` set es = set (m_list_inUse st)"
    and di: "distinct (m_list_inUse st)"
    using assms(2) by (auto simp: pool_def)
  have mem: "m_id e \<in> set (m_list_inUse st)" using ids es(1) by auto
  have "key_of es' j = key_of es j" if "j \<in> set (m_list_inUse st) - {m_id e}" for j
  proof -
    from that ids es(1) obtain a where a: "a \<in> set xs \<union> set ys" "j = m_id a" by auto
    then show ?thesis
      using key_of_member [OF dm, of a] key_of_member [of es' a] dm by (auto simp: es(1,2))
  qed
  then have "mru st' es' = map (key_of es) (remove1 (m_id e) (m_list_inUse st))"
    using di by (simp add: mru_def es(3) free(2))
  also have "\<dots> = remove1 (key_of es (m_id e)) (map (key_of es) (m_list_inUse st))"
    using key_of_inj [OF assms(3) dm] mem ids by (intro map_remove1_inj) auto
  finally show ?thesis
    using free(1) key_of_member [OF dm, of e] by (auto simp: mru_def es)
next
  fix xs ys h e'
  assume es: "es = xs @ h # e # ys" "es' = xs @ e' # ys" and s: "steals m_owner st h e st' e'"
  have d: "distinct (map m_id es)" using assms(2) by (simp add: pool_def)
  have e': "e' = e\<lparr>m_payload := m_payload h\<rparr>"
    using s by (auto simp: steals_def Callback_Reassign_def)
  have m: "e \<in> set es" "h \<in> set es" "h \<noteq> e" "distinct (map m_id es')"
      "set es' = insert e' (set es - {e, h})"
    using d by (auto simp: es e')
  from pool_swap [OF assms(2) m(1-3) s m(4,5) assms(3)] show ?thesis
    by (auto simp: m(5) e' es)
next
  fix xs ys h e'
  assume es: "es = xs @ e # h # ys" "es' = xs @ e' # ys" and s: "steals m_owner st h e st' e'"
  have d: "distinct (map m_id es)" using assms(2) by (simp add: pool_def)
  have e': "e' = e\<lparr>m_payload := m_payload h\<rparr>"
    using s by (auto simp: steals_def Callback_Reassign_def)
  have m: "e \<in> set es" "h \<in> set es" "h \<noteq> e" "distinct (map m_id es')"
      "set es' = insert e' (set es - {e, h})"
    using d by (auto simp: es e')
  from pool_swap [OF assms(2) m(1-3) s m(4,5) assms(3)] show ?thesis
    by (auto simp: m(5) e' es)
qed

section \<open>The cache as a bounded list of keys\<close>

definition cache_inv :: "nat \<Rightarrow> TypeSystem \<Rightarrow> VirtualMethodTable \<Rightarrow> bool" where
  "cache_inv N ts vt \<longleftrightarrow>
     avl (m_tree vt) \<and>
     sorted_wrt (\<lambda>a b. entry_key a < entry_key b) (inorder (m_tree vt)) \<and>
     pool N (m_lists vt) (inorder (m_tree vt)) \<and>
     (\<forall>p\<in>m_payload ` set (inorder (m_tree vt)).
        FindVirtualMethodDef ts (m_cls p) (m_mdVirtual p) = Some (m_md p))"

definition mru_keys :: "VirtualMethodTable \<Rightarrow> (u32 \<times> u32) list" where
  "mru_keys vt = mru (m_lists vt) (inorder (m_tree vt))"

text \<open>The specification: a list of at most \<open>N\<close> keys, the last used one first.\<close>

definition lru_use :: "nat \<Rightarrow> 'k \<Rightarrow> 'k list \<Rightarrow> 'k list" where
  "lru_use N k ks =
     (if k \<in> set ks then k # remove1 k ks
      else if length ks < N then k # ks
      else if ks = [] then []
      else k # butlast ks)"

definition is_terminal :: "TypeSystem \<Rightarrow> u32 \<Rightarrow> u32 \<Rightarrow> bool" where
  "is_terminal ts cls mdVirtual \<longleftrightarrow>
     cls = InitializeFromMethod ts mdVirtual \<and> \<not> is_abstract ts mdVirtual"

definition resolve :: "TypeSystem \<Rightarrow> u32 \<Rightarrow> u32 \<Rightarrow> u32 option" where
  "resolve ts cls mdVirtual =
     (if is_terminal ts cls mdVirtual then Some mdVirtual else FindVirtualMethodDef ts cls mdVirtual)"

lemma pool_length:
  assumes "pool N st es"
  shows "length (m_list_freeItems st) + length (m_list_inUse st) = N"
proof -
  from assms have "distinct (m_list_freeItems st @ m_list_inUse st)"
    "set (m_list_freeItems st @ m_list_inUse st) = {..<N}"
    by (auto simp: pool_def)
  then show ?thesis
    by (metis card_lessThan distinct_card length_append)
qed

lemma mru_distinct:
  assumes "pool N st es" "sorted_wrt (\<lambda>a b. entry_key a < entry_key b) es"
  shows "distinct (mru st es)"
  using assms key_of_inj [OF assms(2)] by (auto simp: mru_def distinct_map pool_def)

lemma set_mru:
  assumes "pool N st es"
  shows "set (mru st es) = entry_key ` set es"
proof -
  from assms have "set (m_list_inUse st) = m_id ` set es" "distinct (map m_id es)"
    by (auto simp: pool_def)
  then show ?thesis
    by (auto simp: mru_def key_of_member image_image)
qed

lemma Callback_NewNode_pool:
  assumes "Callback_NewNode st d = (st', Some n)" "pool N st (xs @ ys)"
  shows "pool N st' (xs @ n # ys) \<and> mru st' (xs @ n # ys) = entry_key n # mru st (xs @ ys)"
proof -
  from assms(1) obtain i rest where i: "m_list_freeItems st = i # rest"
    "n = \<lparr>m_id = i, m_payload = m_payload d\<rparr>"
    "st' = LinkAtFront_inUse i (st\<lparr>m_list_freeItems := rest\<rparr>)"
    by (auto simp: Callback_NewNode_def split: list.splits)
  from assms(2) i(1) have fresh: "i \<notin> set rest" "i \<notin> set (m_list_inUse st)"
    and ids: "m_id ` set (xs @ ys) = set (m_list_inUse st)" and dm: "distinct (map m_id (xs @ ys))"
    by (auto simp: pool_def)
  have st': "m_list_freeItems st' = rest" "m_list_inUse st' = i # m_list_inUse st"
    using fresh by (simp_all add: i(3) LinkAtFront_inUse_def RemoveFromList_def remove1_idem Let_def)
  from fresh(2) ids have "i \<notin> m_id ` set xs" "i \<notin> m_id ` set ys" by auto
  then have dm': "distinct (map m_id (xs @ n # ys))"
    using dm by (auto simp: i(2))
  have "m_id ` set (xs @ n # ys) = insert i (set (m_list_inUse st))"
    using ids by (auto simp: i(2))
  with assms(2) i(1) fresh dm' have p: "pool N st' (xs @ n # ys)"
    by (auto simp: pool_def st')
  have "key_of (xs @ n # ys) j = key_of (xs @ ys) j" if "j \<in> set (m_list_inUse st)" for j
  proof -
    from that ids obtain a where "a \<in> set (xs @ ys)" "j = m_id a" by auto
    then show ?thesis
      using key_of_member [OF dm, of a] key_of_member [OF dm', of a] by auto
  qed
  moreover have "key_of (xs @ n # ys) i = entry_key n"
    using key_of_member [OF dm', of n] by (simp add: i(2))
  ultimately show ?thesis
    using p by (simp add: mru_def st')
qed

lemma remove1_last:
  assumes "distinct xs" "xs \<noteq> []"
  shows "remove1 (last xs) xs = butlast xs"
  using assms by (induction xs) auto

lemma steal_node_correct:
  assumes "cache_inv N ts vt"
  shows "\<exists>vt'. steal_node vt = Some (vt', N \<noteq> 0) \<and> cache_inv N ts vt' \<and>
    mru_keys vt' = (if length (mru_keys vt) < N then mru_keys vt else butlast (mru_keys vt)) \<and>
    (N \<noteq> 0 \<longrightarrow> m_list_freeItems (m_lists vt') \<noteq> [])"
proof -
  let ?es = "inorder (m_tree vt)" and ?st = "m_lists vt"
  from assms have av: "avl (m_tree vt)" and so: "sorted_wrt (\<lambda>a b. entry_key a < entry_key b) ?es"
    and p: "pool N ?st ?es" by (auto simp: cache_inv_def)
  have len: "length (mru_keys vt) = length (m_list_inUse ?st)"
    by (simp add: mru_keys_def mru_def)
  show ?thesis
  proof (cases "m_list_freeItems ?st = []")
    case False
    then show ?thesis
      using assms pool_length [OF p] len by (auto simp: steal_node_def)
  next
    case full: True
    show ?thesis
    proof (cases "m_list_inUse ?st = []")
      case True
      then show ?thesis
        using assms full pool_length [OF p] len by (auto simp: steal_node_def)
    next
      case False
      with p have "last (m_list_inUse ?st) \<in> m_id ` set ?es"
        by (auto simp: pool_def)
      then obtain en where en: "List.find (\<lambda>e. m_id e = last (m_list_inUse ?st)) ?es = Some en"
        by (cases "List.find (\<lambda>e. m_id e = last (m_list_inUse ?st)) ?es") (auto simp: find_None_iff)
      then have en_in: "en \<in> set ?es" and en_id: "m_id en = last (m_list_inUse ?st)"
        by (auto simp: find_Some_iff)
      from vm.Remove_correct [OF av so, of ?st en] en_in obtain st' t' res e where
        r: "Remove m_owner ?st (m_tree vt) en = Some (st', t', res)" "avl t'"
          "entry_key e = entry_key en" "removes m_owner ?st e ?es st' (inorder t')"
        by (metis (no_types))
      note rp = removes_pool [OF r(4) p so]
      have so': "sorted_wrt (\<lambda>a b. entry_key a < entry_key b) (inorder t')"
        by (rule vm.removes_ordered [OF r(4) so])
      have "entry_key en = last (mru ?st ?es)"
        using key_of_member [of ?es en] en_in en_id p False
        by (simp add: mru_def last_map pool_def)
      moreover have "mru ?st ?es \<noteq> []" using False by (simp add: mru_def)
      ultimately have "remove1 (entry_key e) (mru ?st ?es) = butlast (mru ?st ?es)"
        using mru_distinct [OF p so] r(3)
        by (simp add: remove1_last)
      then have mru': "mru st' (inorder t') = butlast (mru ?st ?es)"
        using rp by simp
      have step: "steal_node vt = Some (\<lparr>m_tree = t', m_lists = st'\<rparr>, True)"
        using full False en r(1) by (simp add: steal_node_def)
      have inv: "cache_inv N ts \<lparr>m_tree = t', m_lists = st'\<rparr>"
      proof -
        have "\<forall>p\<in>m_payload ` set (inorder t'). FindVirtualMethodDef ts (m_cls p) (m_mdVirtual p) = Some (m_md p)"
          using rp assms unfolding cache_inv_def by (meson subsetD)
        moreover have "pool N st' (inorder t')"
          using rp by simp
        ultimately show ?thesis
          using r(2) so' by (simp only: cache_inv_def VirtualMethodTable.simps)
      qed
      have len': "length (m_list_inUse ?st) = N"
        using pool_length [OF p] full by simp
      have "length (m_list_inUse st') = N - 1"
        using arg_cong [OF mru', of length] len' by (simp add: mru_def)
      moreover have "length (m_list_freeItems st') + length (m_list_inUse st') = N"
        using pool_length [of N st' "inorder t'"] rp by simp
      moreover have "N \<noteq> 0"
        using len' False by auto
      ultimately have "m_list_freeItems st' \<noteq> []" "N \<noteq> 0" by auto
      with step inv mru' len len' show ?thesis
        by (simp add: mru_keys_def)
    qed
  qed
qed

section \<open>The lookup against the specification\<close>

lemma hit_correct:
  assumes "cache_inv N ts vt" "en \<in> set (inorder (m_tree vt))"
  shows "cache_inv N ts (vt\<lparr>m_lists := LinkAtFront_inUse (m_id en) (m_lists vt)\<rparr>)"
    and "mru_keys (vt\<lparr>m_lists := LinkAtFront_inUse (m_id en) (m_lists vt)\<rparr>) =
      entry_key en # remove1 (entry_key en) (mru_keys vt)"
proof -
  let ?es = "inorder (m_tree vt)" and ?st = "m_lists vt"
  from assms have so: "sorted_wrt (\<lambda>a b. entry_key a < entry_key b) ?es" and p: "pool N ?st ?es"
    by (auto simp: cache_inv_def)
  then have dm: "distinct (map m_id ?es)" and ids: "m_id ` set ?es = set (m_list_inUse ?st)"
    and dl: "distinct (m_list_freeItems ?st @ m_list_inUse ?st)"
    and un: "set (m_list_freeItems ?st) \<union> set (m_list_inUse ?st) = {..<N}"
    by (auto simp: pool_def)
  from ids assms(2) have mem: "m_id en \<in> set (m_list_inUse ?st)" by auto
  with dl have nf: "m_id en \<notin> set (m_list_freeItems ?st)" by auto
  then have st': "m_list_freeItems (LinkAtFront_inUse (m_id en) ?st) = m_list_freeItems ?st"
    "m_list_inUse (LinkAtFront_inUse (m_id en) ?st) = m_id en # remove1 (m_id en) (m_list_inUse ?st)"
    by (simp_all add: LinkAtFront_inUse_def RemoveFromList_def remove1_idem Let_def)
  from dl have s: "set (remove1 (m_id en) (m_list_inUse ?st)) = set (m_list_inUse ?st) - {m_id en}"
    by simp
  have ins: "insert (m_id en) (set (m_list_inUse ?st)) = set (m_list_inUse ?st)"
    using mem by (rule insert_absorb)
  have "pool N (LinkAtFront_inUse (m_id en) ?st) ?es"
    using dm dl un ids mem nf by (simp add: pool_def st' s ins)
  then show "cache_inv N ts (vt\<lparr>m_lists := LinkAtFront_inUse (m_id en) (m_lists vt)\<rparr>)"
    using assms(1) by (simp add: cache_inv_def)
  have "map (key_of ?es) (remove1 (m_id en) (m_list_inUse ?st)) =
      remove1 (key_of ?es (m_id en)) (map (key_of ?es) (m_list_inUse ?st))"
    using key_of_inj [OF so dm] mem ids by (intro map_remove1_inj) auto
  then show "mru_keys (vt\<lparr>m_lists := LinkAtFront_inUse (m_id en) (m_lists vt)\<rparr>) =
      entry_key en # remove1 (entry_key en) (mru_keys vt)"
    using key_of_member [OF dm assms(2)] by (simp add: mru_keys_def mru_def st')
qed

lemma insert_correct:
  assumes "cache_inv N ts vt" "m_list_freeItems (m_lists vt) \<noteq> []"
    "entry_key d \<notin> set (mru_keys vt)"
    "FindVirtualMethodDef ts (m_cls (m_payload d)) (m_mdVirtual (m_payload d)) = Some (m_md (m_payload d))"
  shows "\<exists>st t res. Insert m_owner (m_lists vt) (m_tree vt) d = Some (st, t, res) \<and>
    cache_inv N ts \<lparr>m_tree = t, m_lists = st\<rparr> \<and>
    mru_keys \<lparr>m_tree = t, m_lists = st\<rparr> = entry_key d # mru_keys vt"
proof -
  let ?es = "inorder (m_tree vt)" and ?st = "m_lists vt"
  from assms(1) have av: "avl (m_tree vt)" and so: "sorted_wrt (\<lambda>a b. entry_key a < entry_key b) ?es"
    and p: "pool N ?st ?es" by (auto simp: cache_inv_def)
  obtain st t res where i: "Insert m_owner ?st (m_tree vt) d = Some (st, t, res)" "avl t"
    "vm.insert_result ?st (m_tree vt) d st t res"
    using vm.Insert_correct [OF av so] by blast
  have absent: "\<not> (\<exists>e\<in>set ?es. entry_key e = entry_key d)"
    using assms(3) unfolding mru_keys_def set_mru [OF p] by (metis image_eqI)
  obtain st1 n where n: "Callback_NewNode ?st d = (st1, Some n)" "m_payload n = m_payload d"
    using assms(2) by (cases "m_list_freeItems ?st") (auto simp: Callback_NewNode_def)
  with i(3) absent have ins: "st = st1" "inserts entry_key ?es n (inorder t)"
    by (auto simp: vm.insert_result_def)
  from ins(2) obtain xs ys where x: "?es = xs @ ys" "inorder t = xs @ n # ys"
    by (auto simp: inserts_def)
  from Callback_NewNode_pool [OF n(1)] p have
    "pool N st (inorder t)" "mru st (inorder t) = entry_key d # mru ?st ?es"
    using n(2) by (auto simp: x ins(1) entry_key_def)
  moreover have "sorted_wrt (\<lambda>a b. entry_key a < entry_key b) (inorder t)"
    by (rule vm.inserts_ordered [OF ins(2) so])
  moreover have "\<forall>p\<in>m_payload ` set (inorder t). FindVirtualMethodDef ts (m_cls p) (m_mdVirtual p) = Some (m_md p)"
    using assms(1,4) n(2) by (auto simp: cache_inv_def x)
  ultimately show ?thesis
    using i(1,2) by (auto simp: cache_inv_def mru_keys_def)
qed

lemma Find_correct_key:
  assumes "cache_inv N ts vt"
  shows "case Find m_owner (m_lists vt) (m_tree vt) (lookup_key mdVirtual cls md) of
      None \<Rightarrow> (mdVirtual, cls) \<notin> set (mru_keys vt)
    | Some en \<Rightarrow> en \<in> set (inorder (m_tree vt)) \<and> entry_key en = (mdVirtual, cls)"
proof -
  from assms have so: "sorted_wrt (\<lambda>a b. entry_key a < entry_key b) (inorder (m_tree vt))"
    and p: "pool N (m_lists vt) (inorder (m_tree vt))" by (auto simp: cache_inv_def)
  have k: "entry_key (lookup_key mdVirtual cls md) = (mdVirtual, cls)"
    by (simp add: entry_key_def lookup_key_def)
  show ?thesis
    unfolding vm.Find_correct [OF so] mru_keys_def set_mru [OF p] k
    by (force split: option.split simp: find_None_iff find_Some_iff)
qed

lemma FindVirtualMethod_refines:
  assumes "cache_inv N ts vt"
  shows "\<exists>vt'. FindVirtualMethod ts cls mdVirtual vt = Some (vt', resolve ts cls mdVirtual) \<and>
    cache_inv N ts vt' \<and>
    mru_keys vt' =
      (if is_terminal ts cls mdVirtual \<or> FindVirtualMethodDef ts cls mdVirtual = None then mru_keys vt
       else lru_use N (mdVirtual, cls) (mru_keys vt))"
proof (cases "is_terminal ts cls mdVirtual")
  case True
  then show ?thesis
    using assms by (simp add: FindVirtualMethod_def is_terminal_def resolve_def)
next
  case nt: False
  note find = Find_correct_key [OF assms, of mdVirtual cls 0]
  have p: "pool N (m_lists vt) (inorder (m_tree vt))" using assms by (simp add: cache_inv_def)
  show ?thesis
  proof (cases "Find m_owner (m_lists vt) (m_tree vt) (lookup_key mdVirtual cls 0)")
    case (Some en)
    with find have en: "en \<in> set (inorder (m_tree vt))" "entry_key en = (mdVirtual, cls)" by auto
    with assms have "FindVirtualMethodDef ts cls mdVirtual = Some (m_md (m_payload en))"
      by (auto simp: cache_inv_def entry_key_def)
    moreover have "(mdVirtual, cls) \<in> set (mru_keys vt)"
      using en set_mru [OF p] by (force simp: mru_keys_def)
    ultimately show ?thesis
      using nt Some hit_correct [OF assms en(1)] en(2)
      by (simp add: FindVirtualMethod_def is_terminal_def [symmetric] resolve_def lru_use_def)
  next
    case None
    with find have absent: "(mdVirtual, cls) \<notin> set (mru_keys vt)" by simp
    show ?thesis
    proof (cases "FindVirtualMethodDef ts cls mdVirtual")
      case no: None
      then show ?thesis
        using nt None assms
        by (simp add: FindVirtualMethod_def is_terminal_def [symmetric] resolve_def)
    next
      case md: (Some md)
      obtain vt1 where s: "steal_node vt = Some (vt1, N \<noteq> 0)" "cache_inv N ts vt1"
        "mru_keys vt1 = (if length (mru_keys vt) < N then mru_keys vt else butlast (mru_keys vt))"
        "N \<noteq> 0 \<longrightarrow> m_list_freeItems (m_lists vt1) \<noteq> []"
        using steal_node_correct [OF assms] by blast
      have len: "length (mru_keys vt) \<le> N"
        using pool_length [OF p] by (simp add: mru_keys_def mru_def)
      show ?thesis
      proof (cases "N = 0")
        case True
        then show ?thesis
          using nt None md s len absent
          by (simp add: FindVirtualMethod_def is_terminal_def [symmetric] resolve_def lru_use_def)
      next
        case False
        have "(mdVirtual, cls) \<notin> set (mru_keys vt1)"
          using absent s(3) in_set_butlastD by (fastforce split: if_splits)
        then obtain st t res where
          i: "Insert m_owner (m_lists vt1) (m_tree vt1) (lookup_key mdVirtual cls md) = Some (st, t, res)"
            "cache_inv N ts \<lparr>m_tree = t, m_lists = st\<rparr>"
            "mru_keys \<lparr>m_tree = t, m_lists = st\<rparr> = (mdVirtual, cls) # mru_keys vt1"
          using insert_correct [OF s(2), of "lookup_key mdVirtual cls md"] s(4) False md
          by (auto simp: lookup_key_def entry_key_def)
        then show ?thesis
          using nt None md s(1,3) False absent len
          by (auto simp: FindVirtualMethod_def is_terminal_def [symmetric] resolve_def lru_use_def)
      qed
    qed
  qed
qed

lemma Initialize_lists:
  "foldl (\<lambda>st i. LinkAtBack_free i st) \<lparr>m_list_freeItems = [], m_list_inUse = []\<rparr> [0..<N] =
     \<lparr>m_list_freeItems = [0..<N], m_list_inUse = []\<rparr>"
  by (induction N) (simp_all add: LinkAtBack_free_def RemoveFromList_def Let_def remove1_idem)

lemma Initialize_inv:
  "cache_inv N ts (VirtualMethodTable_Initialize N)" "mru_keys (VirtualMethodTable_Initialize N) = []"
  by (auto simp: VirtualMethodTable_Initialize_def Initialize_lists cache_inv_def pool_def
      mru_keys_def mru_def)

fun run_lookups ::
  "TypeSystem \<Rightarrow> (u32 \<times> u32) list \<Rightarrow> VirtualMethodTable \<Rightarrow> (VirtualMethodTable \<times> u32 option list) option" where
  "run_lookups ts [] vt = Some (vt, [])"
| "run_lookups ts ((cls, mdVirtual) # qs) vt =
     (case FindVirtualMethod ts cls mdVirtual vt of
        None \<Rightarrow> None
      | Some (vt', r) \<Rightarrow> map_option (\<lambda>(vt'', rs). (vt'', r # rs)) (run_lookups ts qs vt'))"

lemma run_lookups_refines:
  assumes "cache_inv N ts vt"
  shows "\<exists>vt'. run_lookups ts qs vt = Some (vt', map (\<lambda>(cls, mdVirtual). resolve ts cls mdVirtual) qs) \<and>
    cache_inv N ts vt' \<and> length (mru_keys vt') \<le> N"
  using assms
proof (induction qs arbitrary: vt)
  case Nil
  then show ?case
    using pool_length [of N "m_lists vt" "inorder (m_tree vt)"]
    by (simp add: cache_inv_def mru_keys_def mru_def)
next
  case (Cons q qs)
  obtain cls mdVirtual where q: "q = (cls, mdVirtual)" by (cases q)
  obtain vt1 where v: "FindVirtualMethod ts cls mdVirtual vt = Some (vt1, resolve ts cls mdVirtual)"
    "cache_inv N ts vt1"
    using FindVirtualMethod_refines [OF Cons.prems] by blast
  show ?case
    using Cons.IH [OF v(2)] v(1) by (auto simp: q)
qed

section \<open>Properties\<close>

text \<open>
  C7: The tree lookup is a transparent LRU cache: from every state of the table that the code
  can be in, it answers what the type system answers, keeps its invariant (balance, order,
  entries and lists in step, cached answers correct), and changes the list of cached keys as
  a bounded list with the last used key in front does.
\<close>

theorem FindVirtualMethod_is_lru_cache:
  assumes "cache_inv N ts vt"
  shows "\<exists>vt'. FindVirtualMethod ts cls mdVirtual vt = Some (vt', resolve ts cls mdVirtual) \<and>
    cache_inv N ts vt' \<and>
    mru_keys vt' =
      (if is_terminal ts cls mdVirtual \<or> FindVirtualMethodDef ts cls mdVirtual = None then mru_keys vt
       else lru_use N (mdVirtual, cls) (mru_keys vt))"
  by (rule FindVirtualMethod_refines [OF assms])

definition sample_ts :: TypeSystem where
  "sample_ts = \<lparr>InitializeFromMethod = (\<lambda>m. m + 1), is_abstract = (\<lambda>m. m = 7),
     FindVirtualMethodDef = (\<lambda>cls m. Some (cls + m))\<rparr>"

theorem FindVirtualMethod_is_lru_cache_witness:
  "\<exists>vt'. FindVirtualMethod sample_ts 8 7 (VirtualMethodTable_Initialize 2) = Some (vt', Some 15) \<and>
     mru_keys vt' = [(7, 8)]"
  using FindVirtualMethod_is_lru_cache [OF Initialize_inv(1) [of 2 sample_ts], of 8 7]
  by (auto simp: Initialize_inv(2) resolve_def is_terminal_def sample_ts_def lru_use_def)

text \<open>
  From the initialised table every sequence of lookups returns, with the answers of the
  type system in order and never more than the configured number of keys cached.
\<close>

lemma lookups_from_initialize:
  "\<exists>vt'. run_lookups ts qs (VirtualMethodTable_Initialize N) =
       Some (vt', map (\<lambda>(cls, mdVirtual). resolve ts cls mdVirtual) qs) \<and>
     cache_inv N ts vt' \<and> length (mru_keys vt') \<le> N"
  by (rule run_lookups_refines [OF Initialize_inv(1)])

text \<open>
  C21: Removal from the tree of the cache never dereferences NULL, keeps the balance, and
  removes exactly one entry, the one with the key, or reports that there is none.
\<close>

theorem Remove_keeps_balance:
  assumes "avl t" "sorted_wrt (\<lambda>a b. entry_key a < entry_key b) (inorder t)"
  shows "\<exists>st' t' res. Remove m_owner st t d = Some (st', t', res) \<and> avl t' \<and>
    (if entry_key d \<in> entry_key ` set (inorder t)
     then map entry_key (inorder t') = remove1 (entry_key d) (map entry_key (inorder t)) \<and>
       (res = RES_OK \<and> tree_height t' = tree_height t \<or>
        res = RES_BALANCE \<and> tree_height t = Suc (tree_height t'))
     else st' = st \<and> t' = t \<and> res = RES_NOTFOUND)"
proof -
  obtain st' t' res where r: "Remove m_owner st t d = Some (st', t', res)" "avl t'"
    "if \<exists>e\<in>set (inorder t). entry_key e = entry_key d
     then (\<exists>e. entry_key e = entry_key d \<and> removes m_owner st e (inorder t) st' (inorder t')) \<and> shrinks t t' res
     else st' = st \<and> t' = t \<and> res = RES_NOTFOUND"
    using vm.Remove_correct [OF assms] by blast
  have at: "entry_key d \<in> entry_key ` set (inorder t) \<longleftrightarrow> (\<exists>e\<in>set (inorder t). entry_key e = entry_key d)"
    by (simp add: image_iff eq_commute)
  show ?thesis
  proof (cases "\<exists>e\<in>set (inorder t). entry_key e = entry_key d")
    case True
    with r(3) obtain e where "entry_key e = entry_key d" "removes m_owner st e (inorder t) st' (inorder t')"
      "shrinks t t' res" by auto
    with vm.removes_keys [OF this(2) assms(2)] r(1,2) True show ?thesis
      unfolding at shrinks_def by simp
  next
    case False
    with r show ?thesis unfolding at by simp
  qed
qed

definition sample_lists :: EntryLists where
  "sample_lists = \<lparr>m_list_freeItems = [], m_list_inUse = [1, 0]\<rparr>"

definition sample_tree :: "LookupEntry tree" where
  "sample_tree = Entry Null \<lparr>m_id = 1, m_payload = \<lparr>m_mdVirtual = 1, m_cls = 2, m_md = 3\<rparr>\<rparr> SKEW_RIGHT
     (Entry Null \<lparr>m_id = 0, m_payload = \<lparr>m_mdVirtual = 4, m_cls = 5, m_md = 6\<rparr>\<rparr> SKEW_NONE Null)"

theorem Remove_keeps_balance_witness:
  "\<exists>st' t' res. Remove m_owner sample_lists sample_tree (lookup_key 1 2 0) = Some (st', t', res) \<and>
     avl t' \<and> map entry_key (inorder t') = [(4, 5)]"
  using Remove_keeps_balance [of sample_tree sample_lists "lookup_key 1 2 0"]
  by (auto simp: entry_key_def lookup_key_def sample_tree_def)

end
