(* ===== verification/SimpleHeap.thy ===== *)
theory SimpleHeap imports NetMF_Prelude begin

text \<open>
  The native allocator, \<^verbatim>\<open>src/DeviceCode/pal/SimpleHeap/SimpleHeap.cpp\<close>, in the build with guard
  words. The memory of the heap is a map from addresses to block headers and a map from
  addresses to tail guard words; address 0 is \<open>NULL\<close>. Sizes are 32-bit words, so the
  arithmetic on the requested length wraps as it does on the device. The lemmas relate the
  doubly linked chain of headers to the list of blocks that tile the buffer.
\<close>

section \<open>State\<close>

record BlockHeader =
  blk_next :: nat
  blk_prev :: nat
  blk_length :: u32
  blk_signature :: u32
  blk_head_guard :: u32

definition c_Free :: u32 where "c_Free = 0xDEADBEEF"
definition c_Busy :: u32 where "c_Busy = 0xDEADBE5E"
definition c_Guard :: u32 where "c_Guard = 0xbab1f00d"

record HeapMemory =
  g_s_FirstCluster :: nat
  headers :: "nat \<Rightarrow> BlockHeader option"
  tail_words :: "nat \<Rightarrow> u32 option"

datatype fault = HARD_BREAKPOINT | BAD_POINTER | OUT_OF_FUEL

abbreviation sizeof_BlockHeader :: nat where "sizeof_BlockHeader \<equiv> 20"

definition update_header :: "HeapMemory \<Rightarrow> nat \<Rightarrow> (BlockHeader \<Rightarrow> BlockHeader) \<Rightarrow> fault + HeapMemory" where
  "update_header h a f =
     (case headers h a of
        None \<Rightarrow> Inl BAD_POINTER
      | Some b \<Rightarrow> Inr (h\<lparr>headers := (headers h)(a \<mapsto> f b)\<rparr>))"

section \<open>Operations\<close>

definition SimpleHeap_Initialize :: "nat \<Rightarrow> u32 \<Rightarrow> HeapMemory" where
  "SimpleHeap_Initialize buffer len =
     \<lparr>g_s_FirstCluster = buffer,
      headers = [buffer \<mapsto> \<lparr>blk_next = 0, blk_prev = 0, blk_length = len,
        blk_signature = c_Free, blk_head_guard = c_Guard\<rparr>],
      tail_words = Map.empty\<rparr>"

definition SimpleHeap_IsAllocated :: "HeapMemory \<Rightarrow> nat \<Rightarrow> fault + bool" where
  "SimpleHeap_IsAllocated h ptr =
     (if ptr \<noteq> 0 then
        (case headers h (ptr - sizeof_BlockHeader) of
           None \<Rightarrow> Inl BAD_POINTER
         | Some blk \<Rightarrow>
             (if blk_signature blk = c_Busy then Inr True
              else if blk_signature blk = c_Free then Inr False
              else Inr False))
      else Inr False)"

text \<open>Both merges of \<open>SimpleHeap_Release\<close>: the block at \<open>a\<close> takes over the block at \<open>b\<close>.\<close>

definition absorb :: "HeapMemory \<Rightarrow> nat \<Rightarrow> nat \<Rightarrow> fault + HeapMemory" where
  "absorb h a b =
     (case headers h b of
        None \<Rightarrow> Inl BAD_POINTER
      | Some blk \<Rightarrow>
          (case update_header h a (\<lambda>p. p\<lparr>blk_length := blk_length p + blk_length blk,
                                        blk_next := blk_next blk\<rparr>) of
             Inl e \<Rightarrow> Inl e
           | Inr h \<Rightarrow>
               (if blk_next blk \<noteq> 0 then update_header h (blk_next blk) (\<lambda>n. n\<lparr>blk_prev := a\<rparr>)
                else Inr h)))"

definition merge_next :: "HeapMemory \<Rightarrow> nat \<Rightarrow> fault + HeapMemory" where
  "merge_next h blk =
     (case headers h blk of
        None \<Rightarrow> Inl BAD_POINTER
      | Some b \<Rightarrow>
          (if blk_next b \<noteq> 0 then
             (case headers h (blk_next b) of
                None \<Rightarrow> Inl BAD_POINTER
              | Some n \<Rightarrow> if blk_signature n = c_Free then absorb h blk (blk_next b) else Inr h)
           else Inr h))"

definition merge_prev :: "HeapMemory \<Rightarrow> nat \<Rightarrow> fault + HeapMemory" where
  "merge_prev h blk =
     (case headers h blk of
        None \<Rightarrow> Inl BAD_POINTER
      | Some b \<Rightarrow>
          (if blk_prev b \<noteq> 0 then
             (case headers h (blk_prev b) of
                None \<Rightarrow> Inl BAD_POINTER
              | Some p \<Rightarrow> if blk_signature p = c_Free then absorb h (blk_prev b) blk else Inr h)
           else Inr h))"

definition SimpleHeap_Release :: "HeapMemory \<Rightarrow> nat \<Rightarrow> fault + HeapMemory" where
  "SimpleHeap_Release h ptr =
     (if ptr \<noteq> 0 then
        (let blk = ptr - sizeof_BlockHeader in
         case headers h blk of
           None \<Rightarrow> Inl BAD_POINTER
         | Some b \<Rightarrow>
             (if blk_head_guard b \<noteq> c_Guard then Inl HARD_BREAKPOINT
              else if tail_words h (blk + unat (blk_length b) - 4) \<noteq> Some c_Guard then Inl HARD_BREAKPOINT
              else
                (case merge_next (h\<lparr>headers := (headers h)(blk \<mapsto> b\<lparr>blk_signature := c_Free\<rparr>)\<rparr>) blk of
                   Inl e \<Rightarrow> Inl e
                 | Inr h \<Rightarrow> merge_prev h blk)))
      else Inr h)"

text \<open>
  The size of the block for a request, the split of a free block, the search for the first
  free block that is large enough (\<open>0\<close>: none), the marking of the block found, and the
  allocation. A split leaves the signature and the guard of the new header as memory has
  them (here 0); the marking sets both.
\<close>

definition block_size :: "u32 \<Rightarrow> u32" where
  "block_size len = (len + 20 + 4 + 4 - 1) AND NOT (4 - 1)"

definition split_block :: "HeapMemory \<Rightarrow> nat \<Rightarrow> BlockHeader \<Rightarrow> u32 \<Rightarrow> fault + (HeapMemory \<times> nat)" where
  "split_block h prev b len =
     (let ptr = prev + unat (blk_length b) - unat len;
          hs = (headers h)(ptr \<mapsto>
             \<lparr>blk_next = blk_next b, blk_prev = prev, blk_length = len, blk_signature = 0, blk_head_guard = 0\<rparr>,
             prev \<mapsto> b\<lparr>blk_next := ptr, blk_length := blk_length b - len\<rparr>)
      in if blk_next b \<noteq> 0 then
           (case update_header (h\<lparr>headers := hs\<rparr>) (blk_next b) (\<lambda>n. n\<lparr>blk_prev := ptr\<rparr>) of
              Inl e \<Rightarrow> Inl e
            | Inr h \<Rightarrow> Inr (h, ptr))
         else Inr (h\<lparr>headers := hs\<rparr>, ptr))"

fun find_block :: "nat \<Rightarrow> HeapMemory \<Rightarrow> nat \<Rightarrow> u32 \<Rightarrow> fault + (HeapMemory \<times> nat)" where
  "find_block 0 h ptr len = Inl OUT_OF_FUEL"
| "find_block (Suc fuel) h ptr len =
     (if ptr = 0 then Inr (h, 0)
      else (case headers h ptr of
              None \<Rightarrow> Inl BAD_POINTER
            | Some b \<Rightarrow>
                (if blk_signature b = c_Free \<and> blk_length b \<ge> len then
                   (if blk_length b \<le> len + 20 * 2 then Inr (h, ptr)
                    else split_block h ptr b len)
                 else find_block fuel h (blk_next b) len)))"

definition claim_block :: "HeapMemory \<Rightarrow> nat \<Rightarrow> fault + HeapMemory" where
  "claim_block h ptr =
     (case headers h ptr of
        None \<Rightarrow> Inl BAD_POINTER
      | Some b \<Rightarrow>
          Inr (h\<lparr>headers := (headers h)(ptr \<mapsto> b\<lparr>blk_signature := c_Busy, blk_head_guard := c_Guard\<rparr>),
                 tail_words := (tail_words h)(ptr + unat (blk_length b) - 4 \<mapsto> c_Guard)\<rparr>))"

definition SimpleHeap_Allocate :: "nat \<Rightarrow> HeapMemory \<Rightarrow> u32 \<Rightarrow> fault + (HeapMemory \<times> nat)" where
  "SimpleHeap_Allocate fuel h len =
     (case find_block fuel h (g_s_FirstCluster h) (block_size len) of
        Inl e \<Rightarrow> Inl e
      | Inr (h, ptr) \<Rightarrow>
          (if ptr \<noteq> 0 then
             (case claim_block h ptr of
                Inl e \<Rightarrow> Inl e
              | Inr h \<Rightarrow> Inr (h, ptr + sizeof_BlockHeader))
           else Inr (h, 0)))"

text \<open>
  The reallocation answers, beside the heap and the new pointer, how many bytes it copies.
\<close>

definition SimpleHeap_ReAllocate :: "nat \<Rightarrow> HeapMemory \<Rightarrow> nat \<Rightarrow> u32 \<Rightarrow> fault + (HeapMemory \<times> nat \<times> u32)" where
  "SimpleHeap_ReAllocate fuel h ptr len =
     (case SimpleHeap_Allocate fuel h len of
        Inl e \<Rightarrow> Inl e
      | Inr (h, p) \<Rightarrow>
          (if p = 0 then Inr (h, 0, 0)
           else if ptr \<noteq> 0 then
             (case headers h (ptr - sizeof_BlockHeader) of
                None \<Rightarrow> Inl BAD_POINTER
              | Some blk \<Rightarrow>
                  (case SimpleHeap_Release h ptr of
                     Inl e \<Rightarrow> Inl e
                   | Inr h \<Rightarrow> Inr (h, p, if len > blk_length blk then blk_length blk else len)))
           else Inr (h, p, 0)))"

section \<open>Blocks tiling the buffer\<close>

type_synonym block = "nat \<times> bool"

definition total :: "block list \<Rightarrow> nat" where
  "total bs = sum_list (map fst bs)"

lemma total_simps [simp]:
  "total [] = 0" "total ((n, b) # bs) = n + total bs" "total (xs @ ys) = total xs + total ys"
  by (simp_all add: total_def)

definition node_ok :: "HeapMemory \<Rightarrow> nat \<Rightarrow> nat \<Rightarrow> nat \<Rightarrow> nat \<Rightarrow> bool \<Rightarrow> bool" where
  "node_ok h a prev nxt n busy \<longleftrightarrow>
     (case headers h a of
        None \<Rightarrow> False
      | Some b \<Rightarrow>
          blk_prev b = prev \<and> blk_next b = nxt \<and> unat (blk_length b) = n \<and>
          blk_signature b = (if busy then c_Busy else c_Free) \<and>
          (busy \<longrightarrow> blk_head_guard b = c_Guard \<and> tail_words h (a + n - 4) = Some c_Guard)) \<and>
     24 \<le> n"

fun seg :: "HeapMemory \<Rightarrow> nat \<Rightarrow> nat \<Rightarrow> block list \<Rightarrow> nat \<Rightarrow> bool" where
  "seg h prev a [] z = True"
| "seg h prev a ((n, busy) # bs) z =
     (node_ok h a prev (if bs = [] then z else a + n) n busy \<and> seg h a (a + n) bs z)"

definition last_addr :: "nat \<Rightarrow> nat \<Rightarrow> block list \<Rightarrow> nat" where
  "last_addr prev a bs = (if bs = [] then prev else a + total (butlast bs))"

lemma seg_append:
  "seg h prev a (xs @ ys) z \<longleftrightarrow>
     seg h prev a xs (if ys = [] then z else a + total xs) \<and>
     seg h (last_addr prev a xs) (a + total xs) ys z"
proof (induction xs arbitrary: prev a)
  case Nil
  then show ?case by (simp add: last_addr_def)
next
  case (Cons x xs)
  obtain n busy where x: "x = (n, busy)" by (cases x)
  show ?case
    by (cases "xs = []") (auto simp: x Cons.IH last_addr_def add.assoc)
qed

lemma seg_frame:
  assumes "seg h prev a bs z"
    and "\<And>x. a \<le> x \<Longrightarrow> x < a + total bs \<Longrightarrow> headers h' x = headers h x \<and> tail_words h' x = tail_words h x"
  shows "seg h' prev a bs z"
  using assms
proof (induction bs arbitrary: prev a)
  case Nil
  then show ?case by simp
next
  case (Cons x bs)
  obtain n busy where x: "x = (n, busy)" by (cases x)
  from Cons.prems(1) have n: "node_ok h a prev (if bs = [] then z else a + n) n busy" "seg h a (a + n) bs z" "24 \<le> n"
    by (auto simp: x node_ok_def)
  have "headers h' a = headers h a" "tail_words h' (a + n - 4) = tail_words h (a + n - 4)"
    using Cons.prems(2) [of a] Cons.prems(2) [of "a + n - 4"] n(3) by (auto simp: x)
  with n(1) have "node_ok h' a prev (if bs = [] then z else a + n) n busy"
    unfolding node_ok_def by (simp only:)
  moreover have "seg h' a (a + n) bs z"
    by (rule Cons.IH [OF n(2)]) (use Cons.prems(2) in \<open>auto simp: x\<close>)
  ultimately show ?case by (simp add: x)
qed

definition heap_ok :: "HeapMemory \<Rightarrow> nat \<Rightarrow> block list \<Rightarrow> bool" where
  "heap_ok h base bs \<longleftrightarrow>
     g_s_FirstCluster h = base \<and> 0 < base \<and> bs \<noteq> [] \<and> base + total bs \<le> 2 ^ 32 \<and>
     total bs + 40 < 2 ^ 32 \<and> seg h 0 base bs 0"

lemma node_ok_header:
  assumes "node_ok h a prev nxt n busy"
  obtains b where "headers h a = Some b" "blk_prev b = prev" "blk_next b = nxt" "unat (blk_length b) = n"
    "blk_signature b = (if busy then c_Busy else c_Free)" "24 \<le> n"
  using assms by (auto simp: node_ok_def split: option.splits)

lemma signatures_differ [simp]: "c_Busy \<noteq> c_Free" "c_Free \<noteq> c_Busy"
  by (simp_all add: c_Busy_def c_Free_def)

lemma unat_add_u32: "unat (a :: u32) + unat b < 2 ^ 32 \<Longrightarrow> unat (a + b) = unat a + unat b"
  by (simp add: unat_word_ariths)

lemma unat_sub_u32: "(b :: u32) \<le> a \<Longrightarrow> unat (a - b) = unat a - unat b"
  by (simp add: unat_sub)

lemma seg_gt:
  assumes "seg h p a bs z" "bs \<noteq> []"
  shows "24 \<le> total bs"
  using assms by (cases bs) (auto simp: node_ok_def)

text \<open>Writing a header at \<open>a\<close> leaves the segments before and after it as they are.\<close>

lemma seg_prev_update:
  assumes "seg h p a bs z" "bs \<noteq> []" "headers h a = Some b"
    "h' = h\<lparr>headers := hs\<rparr>" "hs a = Some (b\<lparr>blk_prev := q\<rparr>)"
    "\<And>x. a < x \<Longrightarrow> x < a + total bs \<Longrightarrow> hs x = headers h x"
  shows "seg h' q a bs z"
proof -
  obtain n busy bs' where bs: "bs = (n, busy) # bs'"
    using assms(2) by (cases bs) auto
  from assms(1) have n: "node_ok h a p (if bs' = [] then z else a + n) n busy" "seg h a (a + n) bs' z" "24 \<le> n"
    by (auto simp: bs node_ok_def)
  have "node_ok h' a q (if bs' = [] then z else a + n) n busy"
    using n(1) assms(3-5) unfolding node_ok_def by (simp split del: if_split)
  moreover have "seg h' a (a + n) bs' z"
    by (rule seg_frame [OF n(2)]) (use assms(4,6) n(3) in \<open>auto simp: bs\<close>)
  ultimately show ?thesis by (simp add: bs)
qed

text \<open>Merging two adjacent free blocks.\<close>

lemma absorb_seg:
  assumes "seg h p a (xs @ (n, False) # (m, False) # ys) 0" "0 < a"
    "total (xs @ (n, False) # (m, False) # ys) < 2 ^ 32"
  shows "\<exists>h'. absorb h (a + total xs) (a + total xs + n) = Inr h' \<and>
    seg h' p a (xs @ (n + m, False) # ys) 0 \<and> g_s_FirstCluster h' = g_s_FirstCluster h"
proof -
  let ?A = "a + total xs" and ?B = "a + total xs + n"
  let ?C = "?B + m"
  let ?z = "if ys = [] then 0 else ?C"
  from assms(1) have s: "seg h p a xs ?A" "node_ok h ?A (last_addr p a xs) ?B n False"
    "node_ok h ?B ?A ?z m False" "seg h ?B ?C ys 0"
    by (simp_all add: seg_append split del: if_split)
  from s(2) obtain b where b: "headers h ?A = Some b" "blk_prev b = last_addr p a xs" "blk_next b = ?B"
    "unat (blk_length b) = n" "blk_signature b = c_Free" "24 \<le> n"
    by (rule node_ok_header) auto
  from s(3) obtain c where c: "headers h ?B = Some c" "blk_prev c = ?A" "blk_next c = ?z"
    "unat (blk_length c) = m" "blk_signature c = c_Free" "24 \<le> m"
    by (rule node_ok_header) auto
  define b' where "b' = b\<lparr>blk_length := blk_length b + blk_length c, blk_next := ?z\<rparr>"
  have len: "unat (blk_length b + blk_length c) = n + m"
    using assms(3) b(4) c(4) by (subst unat_add_u32) simp_all
  have frame_xs: "seg h' p a xs ?A" if "\<And>x. x < ?A \<Longrightarrow> headers h' x = headers h x"
    "tail_words h' = tail_words h" for h'
    by (rule seg_frame [OF s(1)]) (simp add: that)
  have nA: "node_ok h' ?A (last_addr p a xs) ?z (n + m) False" if "headers h' ?A = Some b'" for h'
    using that b c len by (simp add: node_ok_def b'_def)
  show ?thesis
  proof (cases "ys = []")
    case True
    let ?h = "h\<lparr>headers := (headers h)(?A \<mapsto> b')\<rparr>"
    have "absorb h ?A ?B = Inr ?h"
      using b(1) c(1,3) True by (simp add: absorb_def update_header_def b'_def)
    moreover have "seg ?h p a (xs @ (n + m, False) # ys) 0"
      using frame_xs [of ?h] nA [of ?h] True by (simp add: seg_append)
    ultimately show ?thesis by simp
  next
    case False
    then obtain d where d: "headers h ?C = Some d"
      using s(4) by (cases ys) (auto simp: node_ok_def split: option.splits)
    let ?h = "h\<lparr>headers := (headers h)(?A \<mapsto> b', ?C \<mapsto> d\<lparr>blk_prev := ?A\<rparr>)\<rparr>"
    have "absorb h ?A ?B = Inr ?h"
      using b(1,6) c(1,3,6) d False assms(2) by (simp add: absorb_def update_header_def b'_def)
    moreover have "seg ?h ?A ?C ys 0"
      by (rule seg_prev_update [OF s(4) False d, where hs = "headers ?h"]) (use b(6) in auto)
    moreover have "seg ?h p a xs ?A"
      by (rule frame_xs) (use b(6) in auto)
    moreover have "node_ok ?h ?A (last_addr p a xs) ?z (n + m) False"
      by (rule nA) (use b(6) in auto)
    ultimately show ?thesis
      using False by (auto simp: seg_append add.assoc)
  qed
qed

section \<open>Allocation\<close>

text \<open>First fit on the list of blocks: the offset of the block and the new list.\<close>

fun alloc_blocks :: "nat \<Rightarrow> block list \<Rightarrow> (nat \<times> block list) option" where
  "alloc_blocks len [] = None"
| "alloc_blocks len ((n, busy) # bs) =
     (if \<not> busy \<and> len \<le> n then
        (if n \<le> len + 40 then Some (0, (n, True) # bs)
         else Some (n - len, (n - len, False) # (len, True) # bs))
      else map_option (\<lambda>(off, bs'). (n + off, (n, busy) # bs')) (alloc_blocks len bs))"

lemma split_seg:
  assumes "seg h p a ((n, False) # bs) 0" "0 < a" "headers h a = Some b"
    "24 \<le> unat len" "unat len + 40 < n" "total ((n, False) # bs) + 40 < 2 ^ 32"
  shows "\<exists>h1 h2. split_block h a b len = Inr (h1, a + (n - unat len)) \<and>
    claim_block h1 (a + (n - unat len)) = Inr h2 \<and>
    seg h2 p a ((n - unat len, False) # (unat len, True) # bs) 0 \<and>
    g_s_FirstCluster h2 = g_s_FirstCluster h \<and>
    (\<forall>x<a. headers h2 x = headers h x \<and> tail_words h2 x = tail_words h x)"
proof -
  let ?l = "unat len"
  let ?Q = "a + (n - ?l)" and ?C = "a + n"
  let ?z = "if bs = [] then 0 else ?C"
  from assms(1) have s: "node_ok h a p ?z n False" "seg h a ?C bs 0"
    by (simp_all split del: if_split)
  then have b: "blk_prev b = p" "blk_next b = ?z" "unat (blk_length b) = n" "blk_signature b = c_Free" "24 \<le> n"
    using assms(3) by (auto simp: node_ok_def split del: if_split)
  have ptr: "a + unat (blk_length b) - ?l = ?Q"
    using assms(5) b(3) by simp
  have rest: "unat (blk_length b - len) = n - ?l"
    using assms(5) b(3) by (subst unat_sub_u32) (simp_all add: word_le_nat_alt)
  define bq where "bq = \<lparr>blk_next = ?z, blk_prev = a, blk_length = len, blk_signature = 0, blk_head_guard = 0\<rparr>"
  define b' where "b' = b\<lparr>blk_next := ?Q, blk_length := blk_length b - len\<rparr>"
  have end_Q: "?Q + ?l = ?C" using assms(5) by simp
  have aQ: "a < ?Q" "?Q < ?C" "24 \<le> n - ?l" using assms(4,5) by simp_all
  have node_a: "node_ok h2 a p ?Q (n - ?l) False" if "headers h2 a = Some b'" for h2
    using that b rest aQ by (simp add: node_ok_def b'_def)
  have node_Q: "node_ok h2 ?Q a ?z ?l True"
    if "headers h2 ?Q = Some (bq\<lparr>blk_signature := c_Busy, blk_head_guard := c_Guard\<rparr>)"
      "tail_words h2 (?Q + ?l - 4) = Some c_Guard" for h2
    using that assms(4) unfolding node_ok_def by (simp add: bq_def)
  show ?thesis
  proof (cases "bs = []")
    case True
    let ?h1 = "h\<lparr>headers := (headers h)(?Q \<mapsto> bq, a \<mapsto> b')\<rparr>"
    let ?h2 = "h\<lparr>headers := (headers h)(?Q \<mapsto> bq, a \<mapsto> b', ?Q \<mapsto> bq\<lparr>blk_signature := c_Busy, blk_head_guard := c_Guard\<rparr>),
      tail_words := (tail_words h)(?Q + ?l - 4 \<mapsto> c_Guard)\<rparr>"
    have "split_block h a b len = Inr (?h1, ?Q)"
      using True b(2) ptr by (simp add: split_block_def bq_def b'_def Let_def)
    moreover have "claim_block ?h1 ?Q = Inr ?h2"
      using aQ by (simp add: claim_block_def bq_def)
    moreover have "seg ?h2 p a ((n - ?l, False) # (?l, True) # bs) 0"
      using node_a [of ?h2] node_Q [of ?h2] aQ True by simp
    moreover have "g_s_FirstCluster ?h2 = g_s_FirstCluster h"
      by simp
    moreover have "\<forall>x<a. headers ?h2 x = headers h x \<and> tail_words ?h2 x = tail_words h x"
      using aQ assms(4) end_Q by auto
    ultimately show ?thesis by blast
  next
    case False
    then obtain d where d: "headers h ?C = Some d"
      using s(2) by (cases bs) (auto simp: node_ok_def split: option.splits)
    let ?h1 = "h\<lparr>headers := (headers h)(?Q \<mapsto> bq, a \<mapsto> b', ?C \<mapsto> d\<lparr>blk_prev := ?Q\<rparr>)\<rparr>"
    let ?h2 = "?h1\<lparr>headers := (headers ?h1)(?Q \<mapsto> bq\<lparr>blk_signature := c_Busy, blk_head_guard := c_Guard\<rparr>),
      tail_words := (tail_words h)(?Q + ?l - 4 \<mapsto> c_Guard)\<rparr>"
    have "split_block h a b len = Inr (?h1, ?Q)"
      using False b(2) ptr d aQ assms(2) by (simp add: split_block_def bq_def b'_def Let_def update_header_def)
    moreover have "claim_block ?h1 ?Q = Inr ?h2"
      using aQ by (simp add: claim_block_def bq_def)
    moreover have "seg ?h2 p a ((n - ?l, False) # (?l, True) # bs) 0"
    proof -
      have "seg (h\<lparr>headers := headers ?h1\<rparr>) ?Q ?C bs 0"
        by (rule seg_prev_update [OF s(2) False d, where hs = "headers ?h1"]) (use aQ in auto)
      then have "seg ?h2 ?Q ?C bs 0"
        by (rule seg_frame) (use aQ end_Q in auto)
      moreover have "node_ok ?h2 a p ?Q (n - ?l) False"
        by (rule node_a) (use aQ in simp)
      moreover have "node_ok ?h2 ?Q a ?z ?l True"
        by (rule node_Q) (use aQ in simp_all)
      ultimately show ?thesis
        using False aQ end_Q by simp
    qed
    moreover have "g_s_FirstCluster ?h2 = g_s_FirstCluster h"
      by simp
    moreover have "\<forall>x<a. headers ?h2 x = headers h x \<and> tail_words ?h2 x = tail_words h x"
      using aQ assms(4) end_Q by auto
    ultimately show ?thesis by blast
  qed
qed

lemma claim_seg:
  assumes "seg h p a ((n, False) # bs) 0"
  shows "\<exists>h2. claim_block h a = Inr h2 \<and> seg h2 p a ((n, True) # bs) 0 \<and>
    g_s_FirstCluster h2 = g_s_FirstCluster h \<and>
    (\<forall>x<a. headers h2 x = headers h x \<and> tail_words h2 x = tail_words h x)"
proof -
  let ?z = "if bs = [] then 0 else a + n"
  from assms have s: "node_ok h a p ?z n False" "seg h a (a + n) bs 0" "24 \<le> n"
    by (auto simp: node_ok_def split del: if_split)
  then obtain b where b: "headers h a = Some b" "blk_prev b = p" "blk_next b = ?z" "unat (blk_length b) = n"
    by (blast elim: node_ok_header)
  let ?h2 = "h\<lparr>headers := (headers h)(a \<mapsto> b\<lparr>blk_signature := c_Busy, blk_head_guard := c_Guard\<rparr>),
    tail_words := (tail_words h)(a + n - 4 \<mapsto> c_Guard)\<rparr>"
  have "claim_block h a = Inr ?h2"
    using b by (simp add: claim_block_def)
  moreover have "node_ok ?h2 a p ?z n True"
    using b s(3) by (simp add: node_ok_def)
  moreover have "seg ?h2 a (a + n) bs 0"
    by (rule seg_frame [OF s(2)]) (use s(3) in auto)
  moreover have "\<forall>x<a. headers ?h2 x = headers h x \<and> tail_words ?h2 x = tail_words h x"
    using s(3) by auto
  moreover have "g_s_FirstCluster ?h2 = g_s_FirstCluster h"
    by simp
  ultimately have "claim_block h a = Inr ?h2 \<and> seg ?h2 p a ((n, True) # bs) 0 \<and>
    g_s_FirstCluster ?h2 = g_s_FirstCluster h \<and>
    (\<forall>x<a. headers ?h2 x = headers h x \<and> tail_words ?h2 x = tail_words h x)"
    by (simp only: seg.simps)
  then show ?thesis by blast
qed

definition found :: "HeapMemory \<Rightarrow> nat \<Rightarrow> nat \<Rightarrow> block list \<Rightarrow> (nat \<times> block list) option \<Rightarrow> HeapMemory \<Rightarrow> nat \<Rightarrow> bool" where
  "found h p a bs r h1 q \<longleftrightarrow>
     (case r of
        None \<Rightarrow> h1 = h \<and> q = 0
      | Some (off, bs') \<Rightarrow> q = a + off \<and> bs' \<noteq> [] \<and>
          (\<exists>h2. claim_block h1 q = Inr h2 \<and> seg h2 p a bs' 0 \<and> g_s_FirstCluster h2 = g_s_FirstCluster h \<and>
            (\<forall>x<a. headers h2 x = headers h x \<and> tail_words h2 x = tail_words h x)))"

lemma length_le_add_40:
  assumes "unat (l :: u32) + 40 < 2 ^ 32"
  shows "w \<le> l + 40 \<longleftrightarrow> unat w \<le> unat l + 40"
proof -
  have "unat (l + 40) = unat l + 40"
    using assms by (subst unat_add_u32) simp_all
  then show ?thesis by (simp add: word_le_nat_alt)
qed

lemma find_block_seg:
  assumes "seg h p a bs 0" "0 < a" "total bs + 40 < 2 ^ 32" "length bs < fuel" "24 \<le> unat len"
  shows "\<exists>h1 q. find_block fuel h (if bs = [] then 0 else a) len = Inr (h1, q) \<and>
    found h p a bs (alloc_blocks (unat len) bs) h1 q"
  using assms
proof (induction bs arbitrary: fuel p a)
  case Nil
  then show ?case by (cases fuel) (auto simp: found_def)
next
  case (Cons x bs)
  obtain n busy where x: "x = (n, busy)" by (cases x)
  obtain fuel' where f: "fuel = Suc fuel'" using Cons.prems(4) by (cases fuel) auto
  let ?z = "if bs = [] then 0 else a + n"
  from Cons.prems(1) have s: "node_ok h a p ?z n busy" "seg h a (a + n) bs 0" "24 \<le> n"
    by (auto simp: x node_ok_def split del: if_split)
  then obtain b where b: "headers h a = Some b" "blk_prev b = p" "blk_next b = ?z" "unat (blk_length b) = n"
    "blk_signature b = (if busy then c_Busy else c_Free)"
    by (blast elim: node_ok_header)
  show ?case
  proof (cases "\<not> busy \<and> unat len \<le> n")
    case True
    then have free: "busy = False" by simp
    have fit: "blk_signature b = c_Free \<and> len \<le> blk_length b"
      using True b(4,5) by (simp add: word_le_nat_alt)
    show ?thesis
    proof (cases "n \<le> unat len + 40")
      case True
      have "blk_length b \<le> len + 20 * 2"
      proof (cases "unat len + 40 < 2 ^ 32")
        case True
        then show ?thesis using length_le_add_40 [OF True] b(4) \<open>n \<le> unat len + 40\<close> by simp
      next
        case False
        then have "False"
          using fit b(4) Cons.prems(3) by (simp add: x word_le_nat_alt)
        then show ?thesis ..
      qed
      with fit b(1) Cons.prems(2) f have "find_block fuel h a len = Inr (h, a)" by simp
      with claim_seg [of h p a n bs] Cons.prems(1) free \<open>\<not> busy \<and> unat len \<le> n\<close> True
      show ?thesis by (auto simp: x found_def)
    next
      case big: False
      then have nb: "unat len + 40 < n" by simp
      then have lt: "unat len + 40 < 2 ^ 32" using Cons.prems(3) by (simp add: x)
      have "\<not> blk_length b \<le> len + 20 * 2"
        using length_le_add_40 [OF lt] b(4) big by simp
      with fit b(1) Cons.prems(2) f have "find_block fuel h a len = split_block h a b len" by simp
      with split_seg [of h p a n bs b len] Cons.prems b(1) nb free True
      show ?thesis by (auto simp: x found_def)
    qed
  next
    case False
    then have nofit: "\<not> (blk_signature b = c_Free \<and> len \<le> blk_length b)"
      using b(4,5) by (auto simp: word_le_nat_alt)
    have "find_block fuel h a len = find_block fuel' h ?z len"
      using nofit b(1,3) Cons.prems(2) unfolding f by (simp only: find_block.simps option.case if_False) simp
    moreover obtain h1 q where h1: "find_block fuel' h ?z len = Inr (h1, q)"
      "found h a (a + n) bs (alloc_blocks (unat len) bs) h1 q"
      using Cons.IH [OF s(2), of fuel'] Cons.prems(2-5) f by (auto simp: x)
    ultimately have fb: "find_block fuel h a len = Inr (h1, q)" by simp
    show ?thesis
    proof (cases "alloc_blocks (unat len) bs")
      case None
      with h1(2) fb False show ?thesis by (auto simp: x found_def)
    next
      case (Some r)
      obtain off bs' where r: "r = (off, bs')" by (cases r)
      from h1(2) Some r obtain h2 where h2: "q = a + n + off" "bs' \<noteq> []" "claim_block h1 q = Inr h2"
        "seg h2 a (a + n) bs' 0" "g_s_FirstCluster h2 = g_s_FirstCluster h"
        "\<forall>x<a + n. headers h2 x = headers h x \<and> tail_words h2 x = tail_words h x"
        by (auto simp: found_def)
      from Some have "bs \<noteq> []" by auto
      moreover have "headers h2 a = headers h a" "tail_words h2 (a + n - 4) = tail_words h (a + n - 4)"
        using h2(6) s(3) by simp_all
      ultimately have "node_ok h2 a p (a + n) n busy"
        using s(1) unfolding node_ok_def by (simp only: if_False)
      with h2 fb False Some r show ?thesis
        by (auto simp: x found_def add.assoc)
    qed
  qed
qed

lemma alloc_blocks_total:
  "alloc_blocks len bs = Some (off, bs') \<Longrightarrow> total bs' = total bs"
  by (induction bs arbitrary: off bs') (auto split: if_splits)

lemma Allocate_refines:
  assumes "heap_ok h base bs" "length bs < fuel" "24 \<le> unat (block_size len)"
  shows "\<exists>h' q. SimpleHeap_Allocate fuel h len = Inr (h', q) \<and>
    (case alloc_blocks (unat (block_size len)) bs of
       None \<Rightarrow> q = 0 \<and> h' = h
     | Some (off, bs') \<Rightarrow> q = base + off + 20 \<and> heap_ok h' base bs')"
proof -
  from assms(1) have s: "seg h 0 base bs 0" "0 < base" "bs \<noteq> []" "total bs + 40 < 2 ^ 32"
    "g_s_FirstCluster h = base" "base + total bs \<le> 2 ^ 32"
    by (auto simp: heap_ok_def)
  obtain h1 q where f: "find_block fuel h base (block_size len) = Inr (h1, q)"
    "found h 0 base bs (alloc_blocks (unat (block_size len)) bs) h1 q"
    using find_block_seg [OF s(1,2,4) assms(2,3)] s(3) by auto
  show ?thesis
  proof (cases "alloc_blocks (unat (block_size len)) bs")
    case None
    with f s(5) show ?thesis by (simp add: SimpleHeap_Allocate_def found_def)
  next
    case (Some r)
    obtain off bs' where r: "r = (off, bs')" by (cases r)
    with f(2) Some obtain h2 where "q = base + off" "bs' \<noteq> []" "claim_block h1 q = Inr h2"
      "seg h2 0 base bs' 0" "g_s_FirstCluster h2 = base"
      using s(5) by (auto simp: found_def)
    with f(1) s alloc_blocks_total [of _ bs off bs'] Some r show ?thesis
      by (auto simp: SimpleHeap_Allocate_def heap_ok_def)
  qed
qed

section \<open>Release\<close>

text \<open>On the list of blocks: the block after \<open>xs\<close> becomes free and joins its free neighbours.\<close>

definition release_blocks :: "block list \<Rightarrow> nat \<Rightarrow> block list \<Rightarrow> block list" where
  "release_blocks xs n ys =
     (let (n', ys') = (case ys of (m, False) # ys' \<Rightarrow> (n + m, ys') | _ \<Rightarrow> (n, ys))
      in if xs \<noteq> [] \<and> \<not> snd (last xs) then butlast xs @ (fst (last xs) + n', False) # ys'
         else xs @ (n', False) # ys')"

lemma merge_next_seg:
  assumes "seg h p a (xs @ (n, False) # ys) 0" "0 < a" "total (xs @ (n, False) # ys) < 2 ^ 32"
  shows "\<exists>h' n' ys'. merge_next h (a + total xs) = Inr h' \<and> seg h' p a (xs @ (n', False) # ys') 0 \<and>
    g_s_FirstCluster h' = g_s_FirstCluster h \<and> n + total ys = n' + total ys' \<and>
    (n', ys') = (case ys of (m, False) # ys' \<Rightarrow> (n + m, ys') | _ \<Rightarrow> (n, ys))"
proof -
  let ?A = "a + total xs"
  let ?z = "if ys = [] then 0 else ?A + n"
  from assms(1) have s: "node_ok h ?A (last_addr p a xs) ?z n False" "seg h ?A (?A + n) ys 0"
    by (simp_all add: seg_append split del: if_split)
  then obtain b where b: "headers h ?A = Some b" "blk_next b = ?z"
    by (blast elim: node_ok_header)
  show ?thesis
  proof (cases ys)
    case Nil
    then show ?thesis
      using b assms(1) by (auto simp: merge_next_def)
  next
    case (Cons y ys')
    obtain m busy where y: "y = (m, busy)" by (cases y)
    with Cons s(2) have "node_ok h (?A + n) ?A (if ys' = [] then 0 else ?A + n + m) m busy" by simp
    then obtain c where c: "headers h (?A + n) = Some c" "blk_signature c = (if busy then c_Busy else c_Free)"
      by (blast elim: node_ok_header)
    show ?thesis
    proof (cases busy)
      case True
      then show ?thesis
        using b c assms(1,2) Cons y by (auto simp: merge_next_def)
    next
      case False
      obtain h' where "absorb h ?A (?A + n) = Inr h'" "seg h' p a (xs @ (n + m, False) # ys') 0"
        "g_s_FirstCluster h' = g_s_FirstCluster h"
        using absorb_seg [of h p a xs n m ys'] assms Cons y False by auto
      then show ?thesis
        using b c assms(2) Cons y False by (auto simp: merge_next_def)
    qed
  qed
qed

lemma merge_prev_seg:
  assumes "seg h 0 a (xs @ (n, False) # ys) 0" "0 < a" "total (xs @ (n, False) # ys) < 2 ^ 32"
  shows "\<exists>h'. merge_prev h (a + total xs) = Inr h' \<and> g_s_FirstCluster h' = g_s_FirstCluster h \<and>
    seg h' 0 a (if xs \<noteq> [] \<and> \<not> snd (last xs) then butlast xs @ (fst (last xs) + n, False) # ys
      else xs @ (n, False) # ys) 0"
proof -
  let ?A = "a + total xs"
  from assms(1) have "node_ok h ?A (last_addr 0 a xs) (if ys = [] then 0 else ?A + n) n False"
    by (simp add: seg_append split del: if_split)
  then obtain b where b: "headers h ?A = Some b" "blk_prev b = last_addr 0 a xs"
    by (blast elim: node_ok_header)
  show ?thesis
  proof (cases "xs = []")
    case True
    then show ?thesis
      using b assms(1) by (simp add: merge_prev_def last_addr_def)
  next
    case False
    then obtain us k busy where xs: "xs = us @ [(k, busy)]"
      by (metis append_butlast_last_id surj_pair)
    with assms(1) have "node_ok h (a + total us) (last_addr 0 a us) (a + total us + k) k busy"
      by (simp add: seg_append add.assoc)
    then obtain c where c: "headers h (a + total us) = Some c" "blk_signature c = (if busy then c_Busy else c_Free)"
      by (blast elim: node_ok_header)
    have pa: "last_addr 0 a xs = a + total us" "?A = a + total us + k"
      by (simp_all add: xs last_addr_def)
    show ?thesis
    proof (cases busy)
      case True
      then show ?thesis
        using b c assms(1,2) pa xs by (simp add: merge_prev_def)
    next
      case False
      obtain h' where "absorb h (a + total us) (a + total us + k) = Inr h'"
        "seg h' 0 a (us @ (k + n, False) # ys) 0" "g_s_FirstCluster h' = g_s_FirstCluster h"
        using absorb_seg [of h 0 a us k n ys] assms xs False by auto
      then show ?thesis
        using b c assms(2) pa xs False by (simp add: merge_prev_def add.assoc)
    qed
  qed
qed

lemma Release_refines:
  assumes "heap_ok h base (xs @ (n, True) # ys)"
  shows "\<exists>h'. SimpleHeap_Release h (base + total xs + 20) = Inr h' \<and>
    heap_ok h' base (release_blocks xs n ys)"
proof -
  let ?A = "base + total xs"
  let ?z = "if ys = [] then 0 else ?A + n"
  from assms have s: "seg h 0 base (xs @ (n, True) # ys) 0" "0 < base"
    "total (xs @ (n, True) # ys) + 40 < 2 ^ 32" "base + total (xs @ (n, True) # ys) \<le> 2 ^ 32"
    "g_s_FirstCluster h = base"
    by (simp_all add: heap_ok_def)
  from s(1) have seg3: "seg h 0 base xs ?A" "node_ok h ?A (last_addr 0 base xs) ?z n True"
    "seg h ?A (?A + n) ys 0"
    by (simp_all add: seg_append split del: if_split)
  then obtain b where b: "headers h ?A = Some b" "blk_prev b = last_addr 0 base xs" "blk_next b = ?z"
    "unat (blk_length b) = n" "24 \<le> n"
    by (blast elim: node_ok_header)
  have guards: "blk_head_guard b = c_Guard" "tail_words h (?A + n - 4) = Some c_Guard"
    using seg3(2) b(1) by (auto simp: node_ok_def)
  let ?h = "h\<lparr>headers := (headers h)(?A \<mapsto> b\<lparr>blk_signature := c_Free\<rparr>)\<rparr>"
  have "node_ok ?h ?A (last_addr 0 base xs) ?z n False"
    using b by (simp add: node_ok_def)
  moreover have "seg ?h 0 base xs ?A"
    by (rule seg_frame [OF seg3(1)]) auto
  moreover have "seg ?h ?A (?A + n) ys 0"
    by (rule seg_frame [OF seg3(3)]) (use b(5) in auto)
  ultimately have "seg ?h 0 base (xs @ (n, False) # ys) 0"
    by (simp add: seg_append)
  then obtain h1 n' ys' where m: "merge_next ?h ?A = Inr h1" "seg h1 0 base (xs @ (n', False) # ys') 0"
    "g_s_FirstCluster h1 = base" "n + total ys = n' + total ys'"
    "(n', ys') = (case ys of (m, False) # ys' \<Rightarrow> (n + m, ys') | _ \<Rightarrow> (n, ys))"
    using merge_next_seg [of ?h 0 base xs n ys] s by auto
  obtain h2 where h2: "merge_prev h1 ?A = Inr h2" "g_s_FirstCluster h2 = base"
    "seg h2 0 base (if xs \<noteq> [] \<and> \<not> snd (last xs) then butlast xs @ (fst (last xs) + n', False) # ys'
      else xs @ (n', False) # ys') 0"
    using merge_prev_seg [OF m(2)] s m(3,4) by auto
  have rel: "release_blocks xs n ys = (if xs \<noteq> [] \<and> \<not> snd (last xs)
      then butlast xs @ (fst (last xs) + n', False) # ys' else xs @ (n', False) # ys')"
    unfolding release_blocks_def m(5) [symmetric] Let_def by simp
  have tot: "total (release_blocks xs n ys) = total (xs @ (n, True) # ys)"
  proof (cases "xs = []")
    case True
    with m(4) show ?thesis unfolding rel by simp
  next
    case False
    then have "total xs = total (butlast xs) + fst (last xs)"
      by (metis append_butlast_last_id prod.collapse total_simps add.right_neutral)
    with m(4) show ?thesis unfolding rel by simp
  qed
  have "SimpleHeap_Release h (?A + 20) = Inr h2"
    using b guards m(1) h2(1) by (simp add: SimpleHeap_Release_def)
  moreover have "heap_ok h2 base (release_blocks xs n ys)"
    using h2(2,3) s tot rel unfolding heap_ok_def by auto
  ultimately show ?thesis by blast
qed

section \<open>The contract of an allocator\<close>

text \<open>
  The regions handed out and not yet released, as (pointer, usable size). The laws: an
  allocation answers 0 and changes nothing, or adds a region of at least the requested size
  that is apart from the others; a release of a region takes exactly that one away.
\<close>

definition apart :: "nat \<times> nat \<Rightarrow> nat \<times> nat \<Rightarrow> bool" where
  "apart r q \<longleftrightarrow> fst r + snd r \<le> fst q \<or> fst q + snd q \<le> fst r"

datatype request = Alloc u32 | Free nat

text \<open>A pointer held for a request of \<open>len\<close> bytes is the start of a region of at least that size.\<close>

definition holds :: "nat \<times> u32 \<Rightarrow> nat \<times> nat \<Rightarrow> bool" where
  "holds w r \<longleftrightarrow> (case (w, r) of ((p, len), q, n) \<Rightarrow> p = q \<and> unat len \<le> n)"

locale allocator =
  fixes alloc :: "'h \<Rightarrow> u32 \<Rightarrow> fault + ('h \<times> nat)"
    and release :: "'h \<Rightarrow> nat \<Rightarrow> fault + 'h"
    and rep :: "'h \<Rightarrow> (nat \<times> nat) set \<Rightarrow> bool"
    and limit :: nat
  assumes alloc_law: "rep h A \<Longrightarrow> unat len < limit \<Longrightarrow>
      \<exists>h' p. alloc h len = Inr (h', p) \<and>
        (p = 0 \<and> rep h' A \<or>
         p \<noteq> 0 \<and> (\<exists>n\<ge>unat len. (p, n) \<notin> A \<and> rep h' (insert (p, n) A) \<and> (\<forall>r\<in>A. apart (p, n) r)))"
    and release_law: "rep h A \<Longrightarrow> (p, n) \<in> A \<Longrightarrow> \<exists>h'. release h p = Inr h' \<and> rep h' (A - {(p, n)})"
begin

text \<open>
  A client that releases only what it owns: the run of its requests. It holds the pointers it
  was given, each with the length it asked for; \<open>Free i\<close> releases the one at \<open>i\<close>, if there is one.
\<close>

fun run :: "'h \<Rightarrow> (nat \<times> u32) list \<Rightarrow> request list \<Rightarrow> fault + ('h \<times> (nat \<times> u32) list)" where
  "run h own [] = Inr (h, own)"
| "run h own (Alloc len # rs) =
     (case alloc h len of
        Inl e \<Rightarrow> Inl e
      | Inr (h', p) \<Rightarrow> run h' (if p = 0 then own else (p, len) # own) rs)"
| "run h own (Free i # rs) =
     (if i < length own then
        (case release h (fst (own ! i)) of
           Inl e \<Rightarrow> Inl e
         | Inr h' \<Rightarrow> run h' (take i own @ drop (Suc i) own) rs)
      else run h own rs)"

definition all_apart :: "(nat \<times> nat) list \<Rightarrow> bool" where
  "all_apart rs \<longleftrightarrow> sorted_wrt apart rs \<and> distinct rs"

lemma run_safe:
  assumes "rep h (set rs)" "all_apart rs" "list_all2 holds own rs" "\<forall>len. Alloc len \<in> set reqs \<longrightarrow> unat len < limit"
  shows "\<exists>h' own' rs'. run h own reqs = Inr (h', own') \<and> list_all2 holds own' rs' \<and> rep h' (set rs') \<and> all_apart rs'"
  using assms
proof (induction reqs arbitrary: h own rs)
  case Nil
  then show ?case by auto
next
  case (Cons req reqs)
  note rest = Cons.prems(4) [THEN spec, THEN mp, OF list.set_intros(2)]
  have len: "length own = length rs" using Cons.prems(3) by (rule list_all2_lengthD)
  show ?case
  proof (cases req)
    case (Alloc len)
    then have "unat len < limit" using Cons.prems(4) by simp
    from alloc_law [OF Cons.prems(1) this] obtain h' p where a: "alloc h len = Inr (h', p)"
      "p = 0 \<and> rep h' (set rs) \<or>
       p \<noteq> 0 \<and> (\<exists>n\<ge>unat len. (p, n) \<notin> set rs \<and> rep h' (insert (p, n) (set rs)) \<and> (\<forall>r\<in>set rs. apart (p, n) r))"
      by blast
    show ?thesis
    proof (cases "p = 0")
      case True
      with a Cons.IH [of h' rs own] Cons.prems(2,3) rest Alloc show ?thesis by simp
    next
      case False
      with a obtain n where n: "unat len \<le> n" "(p, n) \<notin> set rs" "rep h' (set ((p, n) # rs))"
        "\<forall>r\<in>set rs. apart (p, n) r"
        by auto
      have "holds (p, len) (p, n)" using n(1) by (simp add: holds_def)
      with n Cons.prems(2,3) have "all_apart ((p, n) # rs)" "list_all2 holds ((p, len) # own) ((p, n) # rs)"
        by (simp_all add: all_apart_def)
      with Cons.IH [OF n(3)] a rest Alloc False show ?thesis by simp
    qed
  next
    case (Free i)
    show ?thesis
    proof (cases "i < length own")
      case True
      then have i: "i < length rs" using len by simp
      let ?rs = "take i rs @ drop (Suc i) rs"
      from i have split: "rs = take i rs @ rs ! i # drop (Suc i) rs" by (simp add: id_take_nth_drop)
      then have d: "all_apart (take i rs @ rs ! i # drop (Suc i) rs)" using Cons.prems(2) by simp
      have st: "set rs = insert (rs ! i) (set ?rs)"
        by (subst split) simp
      have nin: "rs ! i \<notin> set ?rs"
        using d by (simp add: all_apart_def)
      have "(fst (rs ! i), snd (rs ! i)) \<in> set rs" "fst (own ! i) = fst (rs ! i)"
        using i list_all2_nthD [OF Cons.prems(3) True] by (auto simp: holds_def split: prod.splits)
      with release_law [OF Cons.prems(1) this(1)] obtain h' where
        h': "release h (fst (own ! i)) = Inr h'" "rep h' (set rs - {rs ! i})" by auto
      have "set rs - {rs ! i} = set ?rs" using st nin by auto
      with h' have r: "rep h' (set ?rs)" by simp
      have "all_apart ?rs" using d by (auto simp: all_apart_def sorted_wrt_append)
      moreover have "list_all2 holds (take i own @ drop (Suc i) own) ?rs"
        using Cons.prems(3) by (intro list_all2_appendI list_all2_takeI list_all2_dropI)
      ultimately show ?thesis
        using Cons.IH [OF r] h'(1) True rest Free by simp
    next
      case False
      with Cons.IH [OF Cons.prems(1-3)] rest Free show ?thesis by simp
    qed
  qed
qed

end

section \<open>The heap keeps the contract\<close>

fun owned :: "nat \<Rightarrow> block list \<Rightarrow> (nat \<times> nat) set" where
  "owned a [] = {}"
| "owned a ((n, busy) # bs) = (if busy then {(a + 20, n - 24)} else {}) \<union> owned (a + n) bs"

fun coalesced :: "block list \<Rightarrow> bool" where
  "coalesced (x # y # bs) = ((snd x \<or> snd y) \<and> coalesced (y # bs))"
| "coalesced bs = True"

definition sizes_ok :: "block list \<Rightarrow> bool" where
  "sizes_ok bs \<longleftrightarrow> (\<forall>x\<in>set bs. 24 \<le> fst x)"

lemma seg_sizes_ok: "seg h p a bs z \<Longrightarrow> sizes_ok bs"
  by (induction h p a bs z rule: seg.induct) (auto simp: sizes_ok_def node_ok_def)

lemma sizes_ok_simps [simp]:
  "sizes_ok []" "sizes_ok (x # bs) \<longleftrightarrow> 24 \<le> fst x \<and> sizes_ok bs"
  "sizes_ok (bs @ cs) \<longleftrightarrow> sizes_ok bs \<and> sizes_ok cs"
  by (auto simp: sizes_ok_def)

lemma length_blocks: "sizes_ok bs \<Longrightarrow> length bs \<le> total bs div 24"
  by (induction bs) auto

lemma owned_append: "owned a (xs @ ys) = owned a xs \<union> owned (a + total xs) ys"
  by (induction xs arbitrary: a) (auto simp: add.assoc)

lemma owned_bounds:
  assumes "r \<in> owned a bs" "sizes_ok bs"
  shows "a + 20 \<le> fst r \<and> fst r + snd r + 4 \<le> a + total bs"
  using assms
proof (induction bs arbitrary: a)
  case (Cons x bs)
  obtain n busy where x: "x = (n, busy)" by (cases x)
  show ?case
    using Cons.prems Cons.IH [of "a + n"] by (auto simp: x split: if_splits)
qed simp

lemma coalesced_Cons: "coalesced (x # bs) \<longleftrightarrow> (bs = [] \<or> snd x \<or> snd (hd bs)) \<and> coalesced bs"
  by (cases bs) auto

lemma coalesced_append:
  "coalesced (xs @ ys) \<longleftrightarrow> coalesced xs \<and> coalesced ys \<and> (xs = [] \<or> ys = [] \<or> snd (last xs) \<or> snd (hd ys))"
  by (induction xs) (auto simp: coalesced_Cons hd_append)

lemma alloc_blocks_owned:
  assumes "alloc_blocks len bs = Some (off, bs')" "24 \<le> len" "sizes_ok bs" "coalesced bs"
  shows "\<exists>n\<ge>len. owned a bs' = insert (a + off + 20, n - 24) (owned a bs) \<and>
    (a + off + 20, n - 24) \<notin> owned a bs \<and> (\<forall>r\<in>owned a bs. apart (a + off + 20, n - 24) r) \<and>
    coalesced bs' \<and> bs' \<noteq> [] \<and> (snd (hd bs) \<longrightarrow> snd (hd bs'))"
  using assms
proof (induction bs arbitrary: a off bs')
  case (Cons x bs)
  obtain n busy where x: "x = (n, busy)" by (cases x)
  have above: "a + n + 20 \<le> fst r" if "r \<in> owned (a + n) bs" for r
    using owned_bounds [OF that] Cons.prems(3) by simp
  show ?case
  proof (cases "\<not> busy \<and> len \<le> n")
    case fits: True
    show ?thesis
    proof (cases "n \<le> len + 40")
      case True
      with fits Cons.prems have r: "off = 0" "bs' = (n, True) # bs" by (auto simp: x)
      with fits Cons.prems above show ?thesis
        by (intro exI [of _ n]) (force simp: x apart_def coalesced_Cons)
    next
      case False
      with fits Cons.prems have r: "off = n - len" "bs' = (n - len, False) # (len, True) # bs"
        by (auto simp: x)
      have "a + (n - len) + len = a + n" using False by simp
      with r fits False Cons.prems above show ?thesis
        by (intro exI [of _ len]) (force simp: x apart_def coalesced_Cons)
    qed
  next
    case False
    with Cons.prems(1) obtain off1 bs1 where r: "alloc_blocks len bs = Some (off1, bs1)"
      "off = n + off1" "bs' = (n, busy) # bs1"
      unfolding x by (auto simp: x split: if_splits)
    obtain m where m: "m \<ge> len" "owned (a + n) bs1 = insert (a + n + off1 + 20, m - 24) (owned (a + n) bs)"
      "(a + n + off1 + 20, m - 24) \<notin> owned (a + n) bs"
      "\<forall>r\<in>owned (a + n) bs. apart (a + n + off1 + 20, m - 24) r" "coalesced bs1" "bs1 \<noteq> []"
      "snd (hd bs) \<longrightarrow> snd (hd bs1)"
      using Cons.IH [OF r(1) Cons.prems(2), of "a + n"] Cons.prems(3,4) by (auto simp: coalesced_Cons)
    have "bs \<noteq> []" using r(1) by auto
    then show ?thesis
      using m r Cons.prems(3,4)
      by (intro exI [of _ m]) (auto simp: x apart_def coalesced_Cons add.assoc)
  qed
qed simp

lemma owned_member:
  assumes "r \<in> owned a bs"
  obtains xs n ys where "bs = xs @ (n, True) # ys" "r = (a + total xs + 20, n - 24)"
  using assms
proof (induction bs arbitrary: a thesis)
  case (Cons x bs)
  obtain n busy where x: "x = (n, busy)" by (cases x)
  from Cons.prems(2) consider "busy" "r = (a + 20, n - 24)" | "r \<in> owned (a + n) bs"
    by (auto simp: x split: if_splits)
  then show ?case
  proof cases
    case 1
    then show ?thesis using Cons.prems(1) [of "[]" n bs] by (simp add: x)
  next
    case 2
    then obtain xs m ys where "bs = xs @ (m, True) # ys" "r = (a + n + total xs + 20, m - 24)"
      using Cons.IH by blast
    then show ?thesis using Cons.prems(1) [of "(n, busy) # xs" m ys] by (simp add: x add.assoc)
  qed
qed simp

lemma release_blocks_owned:
  assumes "sizes_ok (xs @ (n, True) # ys)" "coalesced (xs @ (n, True) # ys)"
  shows "owned a (release_blocks xs n ys) = owned a (xs @ (n, True) # ys) - {(a + total xs + 20, n - 24)}"
    and "coalesced (release_blocks xs n ys)"
    and "total (release_blocks xs n ys) = total (xs @ (n, True) # ys)"
proof -
  let ?p = "(a + total xs + 20, n - 24)"
  have "?p \<notin> owned a xs"
    using owned_bounds [of ?p a xs] assms(1) by auto
  moreover have "?p \<notin> owned (a + total xs + n) ys"
    using owned_bounds [of ?p "a + total xs + n" ys] assms(1) by auto
  ultimately have own: "owned a (xs @ (n, True) # ys) - {?p} = owned a xs \<union> owned (a + total xs + n) ys"
    by (auto simp: owned_append)
  obtain n' ys' where m: "(n', ys') = (case ys of (m, False) # ys' \<Rightarrow> (n + m, ys') | _ \<Rightarrow> (n, ys))"
    by (metis surj_pair)
  have right: "owned (b + n) ys = owned (b + n') ys' \<and> n + total ys = n' + total ys' \<and>
      (ys' = [] \<or> snd (hd ys')) \<and> coalesced ys'" for b
    using m assms(2)
    by (auto simp: coalesced_append coalesced_Cons add.assoc split: list.splits prod.splits bool.splits)
  have rel: "release_blocks xs n ys = (if xs \<noteq> [] \<and> \<not> snd (last xs)
      then butlast xs @ (fst (last xs) + n', False) # ys' else xs @ (n', False) # ys')"
    unfolding release_blocks_def m [symmetric] Let_def by simp
  show "owned a (release_blocks xs n ys) = owned a (xs @ (n, True) # ys) - {?p}"
    and "coalesced (release_blocks xs n ys)"
    and "total (release_blocks xs n ys) = total (xs @ (n, True) # ys)"
  proof (atomize (full), cases "xs \<noteq> [] \<and> \<not> snd (last xs)")
    case False
    with right [of "a + total xs"] own assms(2)
    show "owned a (release_blocks xs n ys) = owned a (xs @ (n, True) # ys) - {?p} \<and>
      coalesced (release_blocks xs n ys) \<and> total (release_blocks xs n ys) = total (xs @ (n, True) # ys)"
      unfolding rel by (auto simp: owned_append coalesced_append coalesced_Cons)
  next
    case True
    then obtain us k where xs: "xs = us @ [(k, False)]"
      by (metis append_butlast_last_id prod.collapse)
    with True right [of "a + total us + k"] own assms(2)
    show "owned a (release_blocks xs n ys) = owned a (xs @ (n, True) # ys) - {?p} \<and>
      coalesced (release_blocks xs n ys) \<and> total (release_blocks xs n ys) = total (xs @ (n, True) # ys)"
      unfolding rel by (auto simp: owned_append coalesced_append coalesced_Cons add.assoc)
  qed
qed

lemma and_not_3_u32: "unat ((w :: u32) AND NOT 3) = unat w - unat w mod 4"
proof -
  have m: "(3 :: u32) = mask 2" by (simp add: mask_eq_exp_minus_1)
  have "w AND NOT (mask 2) = push_bit 2 (drop_bit 2 w)"
    by (rule bit_word_eqI) (auto simp: bit_simps not_less dest!: le_Suc_ex)
  moreover have "take_bit 32 (unat w) = unat w"
    using unat_u32_less [of w] by (simp add: take_bit_nat_eq_self)
  ultimately have "unat (w AND NOT 3) = take_bit 32 (push_bit 2 (drop_bit 2 (unat w)))"
    unfolding m by (simp add: unsigned_push_bit_eq unsigned_drop_bit_eq)
  also have "\<dots> = 4 * (unat w div 4)"
    using unat_u32_less [of w] by (simp add: push_bit_eq_mult drop_bit_eq_div take_bit_nat_eq_self)
  finally show ?thesis by (simp add: minus_mod_eq_mult_div)
qed

lemma unat_block_size:
  assumes "unat len < 2 ^ 32 - 27"
  shows "unat (block_size len) = 4 * ((unat len + 27) div 4)"
    and "unat len + 24 \<le> unat (block_size len)" "unat (block_size len) \<le> unat len + 27"
proof -
  have "unat (len + 27) = unat len + 27"
    using assms by (subst unat_add_u32) simp_all
  moreover have "block_size len = (len + 27) AND NOT 3"
    unfolding block_size_def by (simp add: add.commute)
  ultimately show "unat (block_size len) = 4 * ((unat len + 27) div 4)"
    by (simp only: and_not_3_u32 minus_mod_eq_mult_div)
  then show "unat len + 24 \<le> unat (block_size len)" "unat (block_size len) \<le> unat len + 27"
    by simp_all
qed

text \<open>The heap of \<open>cap\<close> bytes at \<open>base\<close>, with free neighbours always merged.\<close>

definition heap_rep :: "nat \<Rightarrow> nat \<Rightarrow> HeapMemory \<Rightarrow> (nat \<times> nat) set \<Rightarrow> bool" where
  "heap_rep base cap h A \<longleftrightarrow>
     (\<exists>bs. heap_ok h base bs \<and> total bs = cap \<and> coalesced bs \<and> A = owned base bs)"

definition enough_fuel :: "nat \<Rightarrow> nat" where
  "enough_fuel cap = Suc (cap div 24)"

lemma heap_ok_sizes: "heap_ok h base bs \<Longrightarrow> sizes_ok bs"
  by (auto simp: heap_ok_def intro: seg_sizes_ok)

lemma heap_rep_alloc:
  assumes "heap_rep base cap h A" "unat len < 2 ^ 32 - 27"
  shows "\<exists>h' p. SimpleHeap_Allocate (enough_fuel cap) h len = Inr (h', p) \<and>
    (p = 0 \<and> heap_rep base cap h' A \<or>
     p \<noteq> 0 \<and> (\<exists>n\<ge>unat len. (p, n) \<notin> A \<and> heap_rep base cap h' (insert (p, n) A) \<and> (\<forall>r\<in>A. apart (p, n) r)))"
proof -
  from assms(1) obtain bs where bs: "heap_ok h base bs" "total bs = cap" "coalesced bs" "A = owned base bs"
    by (auto simp: heap_rep_def)
  note sz = heap_ok_sizes [OF bs(1)] and len = unat_block_size [OF assms(2)]
  have fuel: "length bs < enough_fuel cap"
    using length_blocks [OF sz] bs(2) by (simp add: enough_fuel_def)
  obtain h' p where a: "SimpleHeap_Allocate (enough_fuel cap) h len = Inr (h', p)"
    "case alloc_blocks (unat (block_size len)) bs of None \<Rightarrow> p = 0 \<and> h' = h
     | Some (off, bs') \<Rightarrow> p = base + off + 20 \<and> heap_ok h' base bs'"
    using Allocate_refines [OF bs(1) fuel, of len] len(2) by auto
  show ?thesis
  proof (cases "alloc_blocks (unat (block_size len)) bs")
    case None
    with a assms(1) show ?thesis by auto
  next
    case (Some r)
    obtain off bs' where r: "r = (off, bs')" by (cases r)
    with a(2) Some have p: "p = base + off + 20" "heap_ok h' base bs'" by auto
    from alloc_blocks_owned [of "unat (block_size len)" bs off bs' base] Some r len(2) sz bs(3)
    obtain n where n: "unat (block_size len) \<le> n" "owned base bs' = insert (p, n - 24) A"
      "(p, n - 24) \<notin> A" "\<forall>r\<in>A. apart (p, n - 24) r" "coalesced bs'"
      by (auto simp: p(1) bs(4))
    moreover have "heap_rep base cap h' (insert (p, n - 24) A)"
      using p(2) n(2,5) alloc_blocks_total [of _ bs off bs'] Some r bs(2) by (auto simp: heap_rep_def)
    moreover have "unat len \<le> n - 24" using n(1) len(2) by simp
    ultimately show ?thesis using a(1) p(1) by auto
  qed
qed

lemma heap_rep_release:
  assumes "heap_rep base cap h A" "(p, n) \<in> A"
  shows "\<exists>h'. SimpleHeap_Release h p = Inr h' \<and> heap_rep base cap h' (A - {(p, n)})"
proof -
  from assms(1) obtain bs where bs: "heap_ok h base bs" "total bs = cap" "coalesced bs" "A = owned base bs"
    by (auto simp: heap_rep_def)
  from assms(2) obtain xs m ys where m: "bs = xs @ (m, True) # ys" "(p, n) = (base + total xs + 20, m - 24)"
    unfolding bs(4) by (rule owned_member)
  from Release_refines [of h base xs m ys] bs(1) m(1) obtain h' where
    "SimpleHeap_Release h p = Inr h'" "heap_ok h' base (release_blocks xs m ys)"
    using m(2) by auto
  with release_blocks_owned [of xs m ys] heap_ok_sizes [OF bs(1)] bs m show ?thesis
    unfolding heap_rep_def by metis
qed

lemma heap_rep_header:
  assumes "heap_rep base cap h A" "(p, n) \<in> A"
  shows "\<exists>b. headers h (p - 20) = Some b \<and> unat (blk_length b) = n + 24 \<and> p \<noteq> 0"
proof -
  from assms(1) obtain bs where bs: "heap_ok h base bs" "A = owned base bs"
    by (auto simp: heap_rep_def)
  from assms(2) obtain xs m ys where m: "bs = xs @ (m, True) # ys" "(p, n) = (base + total xs + 20, m - 24)"
    unfolding bs(2) by (rule owned_member)
  from bs(1) m(1) have "node_ok h (base + total xs) (last_addr 0 base xs) (if ys = [] then 0 else base + total xs + m) m True"
    by (simp add: heap_ok_def seg_append split del: if_split)
  then show ?thesis
    using m(2) by (auto elim!: node_ok_header)
qed

interpretation sh: allocator "SimpleHeap_Allocate (enough_fuel cap)" SimpleHeap_Release
  "heap_rep base cap" "2 ^ 32 - 27" for base cap
  by unfold_locales (fact heap_rep_alloc heap_rep_release)+

lemma heap_rep_bounds:
  assumes "heap_rep base cap h A" "(p, n) \<in> A"
  shows "base + 20 \<le> p \<and> p + n + 4 \<le> base + cap"
proof -
  from assms obtain bs where "heap_ok h base bs" "total bs = cap" "(p, n) \<in> owned base bs"
    by (auto simp: heap_rep_def)
  with owned_bounds [OF this(3) heap_ok_sizes] show ?thesis by auto
qed

lemma Initialize_rep:
  assumes "0 < base" "24 \<le> unat len" "unat len + 40 < 2 ^ 32" "base + unat len \<le> 2 ^ 32"
  shows "heap_ok (SimpleHeap_Initialize base len) base [(unat len, False)]"
    and "heap_rep base (unat len) (SimpleHeap_Initialize base len) {}"
proof -
  show ok: "heap_ok (SimpleHeap_Initialize base len) base [(unat len, False)]"
    using assms by (simp add: heap_ok_def SimpleHeap_Initialize_def node_ok_def)
  show "heap_rep base (unat len) (SimpleHeap_Initialize base len) {}"
    unfolding heap_rep_def using ok by (intro exI [of _ "[(unat len, False)]"]) simp
qed

lemma alloc_release_blocks:
  assumes "alloc_blocks len bs = Some (off, bs')" "coalesced bs"
  shows "\<exists>xs n ys. bs' = xs @ (n, True) # ys \<and> off = total xs \<and> release_blocks xs n ys = bs"
  using assms
proof (induction bs arbitrary: off bs')
  case (Cons x bs)
  obtain n busy where x: "x = (n, busy)" by (cases x)
  show ?case
  proof (cases "\<not> busy \<and> len \<le> n")
    case True
    have keep: "release_blocks [] n bs = x # bs"
      using True Cons.prems(2) by (cases bs) (auto simp: x release_blocks_def coalesced_Cons split: bool.splits)
    show ?thesis
    proof (cases "n \<le> len + 40")
      case fit: True
      with True Cons.prems(1) keep show ?thesis
        by (intro exI [of _ "[]"] exI [of _ n] exI [of _ bs]) (simp add: x)
    next
      case False
      then have "bs' = [(n - len, False)] @ (len, True) # bs" "off = n - len"
        using True Cons.prems(1) by (auto simp: x)
      moreover have "release_blocks [(n - len, False)] len bs = x # bs"
        using keep True False by (cases bs) (auto simp: x release_blocks_def split: bool.splits)
      ultimately show ?thesis
        by (intro exI [of _ "[(n - len, False)]"] exI [of _ len] exI [of _ bs]) simp
    qed
  next
    case False
    with Cons.prems(1) obtain off1 bs1 where r: "alloc_blocks len bs = Some (off1, bs1)"
      "off = n + off1" "bs' = (n, busy) # bs1"
      unfolding x by (auto split: if_splits)
    with Cons.IH Cons.prems(2) obtain xs m ys where m: "bs1 = xs @ (m, True) # ys" "off1 = total xs"
      "release_blocks xs m ys = bs" by (auto simp: coalesced_Cons)
    have "release_blocks (x # xs) m ys = x # bs"
    proof (cases "xs = []")
      case True
      with m(3) have "bs \<noteq> []" "\<not> snd (hd bs)"
        by (auto simp: release_blocks_def split: list.splits prod.splits bool.splits)
      with Cons.prems(2) have busy by (simp add: x coalesced_Cons)
      with m(3) True show ?thesis
        by (auto simp: x release_blocks_def split: list.splits prod.splits bool.splits)
    next
      case False
      with m(3) show ?thesis
        by (auto simp: x release_blocks_def Let_def split: prod.splits)
    qed
    with r m show ?thesis
      by (intro exI [of _ "x # xs"] exI [of _ m] exI [of _ ys]) (simp add: x)
  qed
qed simp

section \<open>Properties\<close>

text \<open>
  The allocation is first fit on the blocks that tile the buffer: on every well-formed heap
  it ends within the fuel, hands out the start of the first free block that is large enough,
  split from its end when more than two headers would be left over, and answers NULL with the
  heap untouched exactly when no free block is large enough.
\<close>

lemma Allocate_is_first_fit:
  assumes "heap_ok h base bs" "length bs < fuel" "unat len < 2 ^ 32 - 27"
  shows "\<exists>h' q. SimpleHeap_Allocate fuel h len = Inr (h', q) \<and>
    (case alloc_blocks (unat (block_size len)) bs of
       None \<Rightarrow> q = 0 \<and> h' = h
     | Some (off, bs') \<Rightarrow> q = base + off + 20 \<and> heap_ok h' base bs')"
  using Allocate_refines [OF assms(1,2)] unat_block_size(2) [OF assms(3)] by auto

lemma Allocate_is_first_fit_witness:
  "\<exists>h' q. SimpleHeap_Allocate 2 (SimpleHeap_Initialize 4096 1024) 100 = Inr (h', q) \<and>
     q = 5016 \<and> heap_ok h' 4096 [(900, False), (124, True)]"
  using Allocate_is_first_fit [OF Initialize_rep(1) [of 4096 1024], of 2 100]
  by (auto simp: unat_block_size(1))

text \<open>
  Releasing a block frees it and merges it with its free neighbours on both sides; no
  guard trips, no pointer leaves the heap, and the heap stays well formed.
\<close>

lemma Release_merges:
  assumes "heap_ok h base (xs @ (n, True) # ys)"
  shows "\<exists>h'. SimpleHeap_Release h (base + total xs + 20) = Inr h' \<and>
    heap_ok h' base (release_blocks xs n ys)"
  by (rule Release_refines [OF assms])

text \<open>
  C16: From an initialised heap, whatever sequence of allocations and releases of its own blocks
  a client asks for, each request being smaller than \<open>2^32 - 27\<close> bytes, no operation faults, and
  every pointer the client holds in the end is the start of a region at least as long as it
  asked for, inside the buffer with room for the header in front and the guard behind, the
  regions never overlapping. The bound on the requests is needed: the size of a larger one wraps, and a
  block too small for it is handed out (\<open>Allocate_wraps\<close>).
\<close>

theorem requests_never_overlap:
  assumes "0 < base" "24 \<le> unat len" "unat len + 40 < 2 ^ 32" "base + unat len \<le> 2 ^ 32"
    "\<forall>l. Alloc l \<in> set reqs \<longrightarrow> unat l < 2 ^ 32 - 27"
  shows "\<exists>h' own rs. sh.run (unat len) (SimpleHeap_Initialize base len) [] reqs = Inr (h', own) \<and>
    list_all2 (\<lambda>(p, l) (q, n). p = q \<and> unat l \<le> n) own rs \<and>
    sorted_wrt (\<lambda>(p, n) (q, m). p + n \<le> q \<or> q + m \<le> p) rs \<and> distinct rs \<and>
    (\<forall>(p, n)\<in>set rs. base + 20 \<le> p \<and> p + n + 4 \<le> base + unat len) \<and>
    heap_rep base (unat len) h' (set rs)"
proof -
  obtain h' own rs where r: "sh.run (unat len) (SimpleHeap_Initialize base len) [] reqs = Inr (h', own)"
    "list_all2 holds own rs" "heap_rep base (unat len) h' (set rs)" "sh.all_apart rs"
    using sh.run_safe [of base "unat len" "SimpleHeap_Initialize base len" "[]" "[]" reqs]
      Initialize_rep(2) [OF assms(1-4)] assms(5) by (auto simp: sh.all_apart_def)
  have "holds = (\<lambda>(p, l) (q, n). p = q \<and> unat l \<le> n)" "apart = (\<lambda>(p, n) (q, m). p + n \<le> q \<or> q + m \<le> p)"
    by (auto simp: fun_eq_iff holds_def apart_def)
  moreover have "base + 20 \<le> p \<and> p + n + 4 \<le> base + unat len" if "(p, n) \<in> set rs" for p n
    using heap_rep_bounds [OF r(3) that] .
  ultimately show ?thesis using r by (auto simp: sh.all_apart_def)
qed

text \<open>
  An allocation followed by the release of its block restores the blocks of the heap.
\<close>

lemma Allocate_Release_restores:
  assumes "heap_ok h base bs" "coalesced bs" "length bs < fuel" "unat len < 2 ^ 32 - 27"
    "SimpleHeap_Allocate fuel h len = Inr (h', q)" "q \<noteq> 0"
  shows "\<exists>h''. SimpleHeap_Release h' q = Inr h'' \<and> heap_ok h'' base bs"
proof -
  have "24 \<le> unat (block_size len)"
    using unat_block_size(2) [OF assms(4)] by simp
  from Allocate_refines [OF assms(1,3) this] assms(5,6) obtain off bs' where
    a: "alloc_blocks (unat (block_size len)) bs = Some (off, bs')" "q = base + off + 20" "heap_ok h' base bs'"
    by (auto split: option.splits)
  with alloc_release_blocks [OF a(1) assms(2)] Release_refines [of h' base] show ?thesis
    by (metis add.commute)
qed

lemma Allocate_Release_restores_witness:
  "\<exists>h' q h''. SimpleHeap_Allocate 2 (SimpleHeap_Initialize 4096 1024) 100 = Inr (h', q) \<and>
     SimpleHeap_Release h' q = Inr h'' \<and> heap_ok h'' 4096 [(1024, False)]"
proof -
  have ok: "heap_ok (SimpleHeap_Initialize 4096 1024) 4096 [(1024, False)]"
    using Initialize_rep(1) [of 4096 1024] by simp
  obtain h' q where a: "SimpleHeap_Allocate 2 (SimpleHeap_Initialize 4096 1024) 100 = Inr (h', q)" "q = 5016"
    using Allocate_refines [OF ok, of 2 100] unat_block_size [of 100] by auto
  from Allocate_Release_restores [OF ok _ _ _ a(1)] a show ?thesis by auto
qed

lemma Release_merges_witness:
  "\<exists>h' q h''. SimpleHeap_Allocate 2 (SimpleHeap_Initialize 4096 1024) 100 = Inr (h', q) \<and>
     SimpleHeap_Release h' q = Inr h'' \<and> heap_ok h'' 4096 [(1024, False)]"
proof -
  have ok: "heap_ok (SimpleHeap_Initialize 4096 1024) 4096 [(1024, False)]"
    using Initialize_rep(1) [of 4096 1024] by simp
  obtain h' where a: "SimpleHeap_Allocate 2 (SimpleHeap_Initialize 4096 1024) 100 = Inr (h', 5016)"
    "heap_ok h' 4096 ([(900, False)] @ (124, True) # [])"
    using Allocate_refines [OF ok, of 2 100] unat_block_size [of 100] by auto
  from Release_merges [OF a(2)] a(1) show ?thesis by (auto simp: release_blocks_def)
qed

theorem requests_never_overlap_witness:
  "\<exists>h' own rs. sh.run 1024 (SimpleHeap_Initialize 4096 1024) [] [Alloc 10, Alloc 20, Free 1, Alloc 5] = Inr (h', own) \<and>
     list_all2 (\<lambda>(p, l) (q, n). p = q \<and> unat l \<le> n) own rs \<and>
     heap_rep 4096 1024 h' (set rs) \<and> distinct rs"
  using requests_never_overlap [of 4096 1024 "[Alloc 10, Alloc 20, Free 1, Alloc 5]"] by simp blast

text \<open>
  The size computation wraps: a request of 4 GB less four bytes is not refused but is
  answered with a block of 20 bytes, which has no room for any data.
\<close>

lemma Allocate_wraps:
  "\<exists>h' q. SimpleHeap_Allocate (Suc 0) (SimpleHeap_Initialize 4096 1024) 0xFFFFFFFC = Inr (h', q) \<and> q \<noteq> 0 \<and>
     (case headers h' (q - sizeof_BlockHeader) of Some b \<Rightarrow> blk_length b = 20 | None \<Rightarrow> False)"
proof -
  have "block_size 0xFFFFFFFC = 20" by (simp add: block_size_def)
  then show ?thesis
    by (simp add: SimpleHeap_Allocate_def SimpleHeap_Initialize_def split_block_def claim_block_def)
qed

text \<open>
  A reallocation ends without a fault and replaces the old region by a new one of at
  least the requested size, or answers NULL and keeps the old one; it copies up to the length
  of the whole old block, header and guard included, which is 24 bytes more than the old
  region has room for.
\<close>

lemma ReAllocate_moves:
  assumes "heap_rep base cap h A" "(ptr, n) \<in> A" "unat len < 2 ^ 32 - 27"
  shows "\<exists>h' p copied. SimpleHeap_ReAllocate (enough_fuel cap) h ptr len = Inr (h', p, copied) \<and>
    (p = 0 \<and> copied = 0 \<and> heap_rep base cap h' A \<or>
     p \<noteq> 0 \<and> unat copied = min (unat len) (n + 24) \<and>
     (\<exists>m\<ge>unat len. heap_rep base cap h' (insert (p, m) (A - {(ptr, n)}))))"
proof -
  obtain h1 p where a: "SimpleHeap_Allocate (enough_fuel cap) h len = Inr (h1, p)"
    "p = 0 \<and> heap_rep base cap h1 A \<or>
     p \<noteq> 0 \<and> (\<exists>m\<ge>unat len. (p, m) \<notin> A \<and> heap_rep base cap h1 (insert (p, m) A))"
    using heap_rep_alloc [OF assms(1,3)] by blast
  show ?thesis
  proof (cases "p = 0")
    case True
    with a show ?thesis by (simp add: SimpleHeap_ReAllocate_def)
  next
    case False
    with a(2) obtain m where m: "unat len \<le> m" "(p, m) \<notin> A" "heap_rep base cap h1 (insert (p, m) A)"
      by auto
    then have mem: "(ptr, n) \<in> insert (p, m) A" using assms(2) by simp
    obtain b where b: "headers h1 (ptr - 20) = Some b" "unat (blk_length b) = n + 24" "ptr \<noteq> 0"
      using heap_rep_header [OF m(3) mem] by blast
    obtain h2 where h2: "SimpleHeap_Release h1 ptr = Inr h2" "heap_rep base cap h2 (insert (p, m) A - {(ptr, n)})"
      using heap_rep_release [OF m(3) mem] by blast
    have "insert (p, m) A - {(ptr, n)} = insert (p, m) (A - {(ptr, n)})"
      using m(2) assms(2) by auto
    moreover have "unat (if len > blk_length b then blk_length b else len) = min (unat len) (n + 24)"
      using b(2) by (auto simp: word_less_nat_alt)
    ultimately show ?thesis
      using a(1) False b h2 m(1) by (auto simp: SimpleHeap_ReAllocate_def)
  qed
qed

lemma ReAllocate_moves_witness:
  "\<exists>h' p h'' p' copied. SimpleHeap_Allocate (enough_fuel 1024) (SimpleHeap_Initialize 4096 1024) 8 = Inr (h', p) \<and>
     SimpleHeap_ReAllocate (enough_fuel 1024) h' p 100 = Inr (h'', p', copied) \<and> p' = 4984 \<and> copied = 32"
proof -
  have ok: "heap_ok (SimpleHeap_Initialize 4096 1024) 4096 [(1024, False)]"
    using Initialize_rep(1) [of 4096 1024] by simp
  obtain h' where a: "SimpleHeap_Allocate (enough_fuel 1024) (SimpleHeap_Initialize 4096 1024) 8 = Inr (h', 5108)"
    "heap_ok h' 4096 [(992, False), (32, True)]"
    using Allocate_refines [OF ok, of "enough_fuel 1024" 8] unat_block_size [of 8]
    by (auto simp: enough_fuel_def)
  then have "heap_rep 4096 1024 h' {(5108, 8)}"
    unfolding heap_rep_def by (intro exI [of _ "[(992, False), (32, True)]"]) simp
  from ReAllocate_moves [OF this, of 5108 8 100] obtain h'' p' copied where
    r: "SimpleHeap_ReAllocate (enough_fuel 1024) h' 5108 100 = Inr (h'', p', copied)"
    "p' = 0 \<and> copied = 0 \<or> p' \<noteq> 0 \<and> unat copied = 32" by auto
  obtain h2 where "SimpleHeap_Allocate (enough_fuel 1024) h' 100 = Inr (h2, 4984)"
    using Allocate_refines [OF a(2), of "enough_fuel 1024" 100] unat_block_size [of 100]
    by (auto simp: enough_fuel_def)
  with r(1) have "p' = 4984"
    by (auto simp: SimpleHeap_ReAllocate_def split: option.splits sum.splits)
  with a(1) r show ?thesis
    by (auto simp: word_unat_eq_iff)
qed

end
