(* ===== verification/TimeDriver.thy ===== *)
theory TimeDriver imports NetMF_Prelude "HOL-Library.Signed_Division" begin

text \<open>
  The calendar and the clock offsets of \<^verbatim>\<open>src/DeviceCode/pal/time/time_driver.cpp\<close>, with the
  constants of \<^verbatim>\<open>src/DeviceCode/Include/Time_decl.h\<close>. Times are counts of 100 ns since
  1601 as integers, without the wrap-around of \<open>INT64\<close>, which the dates that the lemmas cover stay far
  below; the divisions truncate towards zero as in C (\<open>sdiv\<close>, \<open>smod\<close>), the
  \<open>WORD\<close> casts and the 64-bit products wrap. The lemmas show that the closed formulas count
  the days of the Gregorian calendar, and that the conversions are inverse to each other on
  every date up to the end of 3111, well beyond the last date of the managed \<open>DateTime\<close>.
\<close>

section \<open>Calendar\<close>

record SYSTEMTIME =
  wYear :: int
  wMonth :: int
  wDayOfWeek :: int
  wDay :: int
  wHour :: int
  wMinute :: int
  wSecond :: int
  wMilliseconds :: int

definition CummulativeDaysForMonth :: "int list" where
  "CummulativeDaysForMonth = [0, 31, 59, 90, 120, 151, 181, 212, 243, 273, 304, 334, 365]"

definition IS_LEAP_YEAR :: "int \<Rightarrow> bool" where
  "IS_LEAP_YEAR y \<longleftrightarrow> (y smod 4 = 0 \<and> y smod 100 \<noteq> 0) \<or> y smod 400 = 0"

definition NUMBER_OF_LEAP_YEARS :: "int \<Rightarrow> int" where
  "NUMBER_OF_LEAP_YEARS y = ((y - 1) sdiv 4 - (y - 1) sdiv 100 + (y - 1) sdiv 400) - 388"

definition YEARS_TO_DAYS :: "int \<Rightarrow> int" where
  "YEARS_TO_DAYS y = (y - 1601) * 365 + NUMBER_OF_LEAP_YEARS y"

text \<open>\<open>None\<close> is an access outside the table.\<close>

definition MONTH_TO_DAYS :: "int \<Rightarrow> int \<Rightarrow> int option" where
  "MONTH_TO_DAYS y m =
     (if 0 \<le> m - 1 \<and> m - 1 < int (length CummulativeDaysForMonth) then
        Some (CummulativeDaysForMonth ! nat (m - 1) + (if IS_LEAP_YEAR y \<and> m > 2 then 1 else 0))
      else None)"

definition WORD :: "int \<Rightarrow> int" where
  "WORD n = n mod 65536"

definition ToSystemTime :: "int \<Rightarrow> SYSTEMTIME option" where
  "ToSystemTime time =
     (let time = time sdiv 10000;
          ms = WORD (time smod 1000); time = time sdiv 1000;
          s = WORD (time smod 60); time = time sdiv 60;
          mi = WORD (time smod 60); time = time sdiv 60;
          h = WORD (time smod 24); time = time sdiv 24;
          dow = WORD ((time + 1) smod 7);
          year = WORD (time sdiv 365 + 1601);
          ytd = YEARS_TO_DAYS year;
          (year, ytd) = (if ytd > time then (WORD (year - 1), YEARS_TO_DAYS (WORD (year - 1))) else (year, ytd));
          time = time - ytd;
          month = WORD (time sdiv 31 + 1)
      in case MONTH_TO_DAYS year (month + 1) of
           None \<Rightarrow> None
         | Some mtd \<Rightarrow>
             (let month = (if time \<ge> mtd then WORD (month + 1) else month) in
              case MONTH_TO_DAYS year month of
                None \<Rightarrow> None
              | Some mtd \<Rightarrow>
                  Some \<lparr>wYear = year, wMonth = month, wDayOfWeek = dow, wDay = WORD (time - mtd + 1),
                        wHour = h, wMinute = mi, wSecond = s, wMilliseconds = ms\<rparr>))"

definition FromSystemTime :: "SYSTEMTIME \<Rightarrow> int option" where
  "FromSystemTime st =
     (case MONTH_TO_DAYS (wYear st) (wMonth st) of
        None \<Rightarrow> None
      | Some mtd \<Rightarrow>
          (let r = YEARS_TO_DAYS (wYear st) + mtd + wDay st - 1
           in Some (((((r * 24 + wHour st) * 60 + wMinute st) * 60 + wSecond st) * 1000 + wMilliseconds st) * 10000)))"

definition AccDaysInMonth :: "int \<Rightarrow> int \<Rightarrow> int option" where
  "AccDaysInMonth year month = MONTH_TO_DAYS year month"

definition DaysInMonth :: "int \<Rightarrow> int \<Rightarrow> int option" where
  "DaysInMonth year month =
     (case (MONTH_TO_DAYS year (month + 1), MONTH_TO_DAYS year month) of
        (Some b, Some a) \<Rightarrow> Some (b - a)
      | _ \<Rightarrow> None)"

section \<open>Clock\<close>

record TimeState =
  m_initialized :: bool
  m_utcTime :: int
  m_timezoneOffset :: int
  m_Utc_c :: int
  m_Ticks_a :: int
  m_Ticks_b :: int
  m_Ticks_c :: int

definition wrap64 :: "int \<Rightarrow> int" where
  "wrap64 n = (n + 2 ^ 63) mod 2 ^ 64 - 2 ^ 63"

definition INITIAL_TIME :: int where
  "INITIAL_TIME = 128752416000000000"

text \<open>The drift parameters are those the driver of the platform answers.\<close>

definition Time_Initialize :: "int \<times> int \<times> int \<Rightarrow> TimeState \<Rightarrow> TimeState" where
  "Time_Initialize drift st =
     (if \<not> m_initialized st then
        (let (a, b, c) = drift in
         st\<lparr>m_Ticks_a := a, m_Ticks_b := b, m_Ticks_c := c, m_timezoneOffset := 0,
            m_utcTime := INITIAL_TIME, m_Utc_c := INITIAL_TIME, m_initialized := True\<rparr>)
      else st)"

definition Time_Uninitialize :: "TimeState \<Rightarrow> TimeState" where
  "Time_Uninitialize st = (if m_initialized st then st\<lparr>m_initialized := False\<rparr> else st)"

text \<open>\<open>now\<close> is the value of the hardware counter; a division by zero is \<open>None\<close>.\<close>

definition GetMachineTime :: "int \<Rightarrow> TimeState \<Rightarrow> int option" where
  "GetMachineTime now st =
     (if m_Ticks_a st = 0 then None
      else Some (wrap64 (wrap64 (wrap64 (now * m_Ticks_b st) + m_Ticks_c st) sdiv m_Ticks_a st)))"

definition GetUtcTime :: "int \<Rightarrow> TimeState \<Rightarrow> int option" where
  "GetUtcTime now st = map_option (\<lambda>t. wrap64 (t + m_Utc_c st)) (GetMachineTime now st)"

definition SetUtcTime :: "int \<Rightarrow> int \<Rightarrow> int \<Rightarrow> TimeState \<Rightarrow> (TimeState \<times> int) option" where
  "SetUtcTime now now' utcTime st =
     (case GetMachineTime now st of
        None \<Rightarrow> None
      | Some t \<Rightarrow>
          (let st = st\<lparr>m_Utc_c := wrap64 (utcTime - t)\<rparr>
           in map_option (Pair st) (GetUtcTime now' st)))"

definition GetLocalTime :: "int \<Rightarrow> TimeState \<Rightarrow> int option" where
  "GetLocalTime now st = map_option (\<lambda>t. wrap64 (t + m_timezoneOffset st)) (GetUtcTime now st)"

definition GetTimeZoneOffset :: "TimeState \<Rightarrow> int" where
  "GetTimeZoneOffset st = m_timezoneOffset st sdiv 600000000"

definition SetTimeZoneOffset :: "int \<Rightarrow> TimeState \<Rightarrow> TimeState \<times> int" where
  "SetTimeZoneOffset offset st =
     (let offset = offset smod 1440 in (st\<lparr>m_timezoneOffset := wrap64 (offset * 600000000)\<rparr>, offset))"

definition GetTickCount :: "int \<Rightarrow> TimeState \<Rightarrow> int option" where
  "GetTickCount now st = map_option (\<lambda>t. t sdiv 10000) (GetMachineTime now st)"

section \<open>Text\<close>

text \<open>
  The numbers as \<^verbatim>\<open>%d\<close>, \<^verbatim>\<open>%02d\<close> and \<^verbatim>\<open>%07d\<close> print them when they are not negative; the buffer is
  taken to be large enough.
\<close>

fun dec_digits :: "nat \<Rightarrow> string" where
  "dec_digits n = (if n < 10 then [char_of (48 + n)] else dec_digits (n div 10) @ [char_of (48 + n mod 10)])"

declare dec_digits.simps [simp del]

definition pad :: "nat \<Rightarrow> string \<Rightarrow> string" where
  "pad k s = replicate (k - length s) (CHR ''0'') @ s"

definition TimeSpanToString :: "int \<Rightarrow> string" where
  "TimeSpanToString ticks =
     (let ticksAbs = nat \<bar>ticks\<bar>;
          sign = (if ticks < 0 then ''-'' else '''');
          rest = ticksAbs mod (1000 * 10000);
          ticksAbs = ticksAbs div (1000 * 10000);
          (day, ticksAbs) = (if ticksAbs > 86400 then (dec_digits (ticksAbs div 86400) @ ''.'', ticksAbs mod 86400)
                             else ('''', ticksAbs));
          hour = pad 2 (dec_digits (ticksAbs div 3600)) @ '':''; ticksAbs = ticksAbs mod 3600;
          minute = pad 2 (dec_digits (ticksAbs div 60)) @ '':''; ticksAbs = ticksAbs mod 60;
          sec = pad 2 (dec_digits ticksAbs);
          frac = (if rest \<noteq> 0 then ''.'' @ pad 7 (dec_digits rest) else '''')
      in sign @ day @ hour @ minute @ sec @ frac)"

definition DateTimeToString :: "int \<Rightarrow> string option" where
  "DateTimeToString time =
     map_option (\<lambda>st. pad 4 (dec_digits (nat (wYear st))) @ ''/'' @ pad 2 (dec_digits (nat (wMonth st))) @ ''/'' @
         pad 2 (dec_digits (nat (wDay st))) @ '' '' @ pad 2 (dec_digits (nat (wHour st))) @ '':'' @
         pad 2 (dec_digits (nat (wMinute st))) @ '':'' @ pad 2 (dec_digits (nat (wSecond st))) @ ''.'' @
         pad 3 (dec_digits (nat (wMilliseconds st))))
       (ToSystemTime time)"

section \<open>The calendar counted day by day\<close>

definition leap :: "int \<Rightarrow> bool" where
  "leap y \<longleftrightarrow> 4 dvd y \<and> \<not> 100 dvd y \<or> 400 dvd y"

definition year_length :: "int \<Rightarrow> int" where
  "year_length y = (if leap y then 366 else 365)"

lemma sdiv_nonneg: "0 \<le> (a :: int) \<Longrightarrow> 0 < b \<Longrightarrow> a sdiv b = a div b"
  by (cases "a = 0") (simp_all add: signed_divide_int_def)

lemma smod_nonneg: "0 \<le> (a :: int) \<Longrightarrow> 0 < b \<Longrightarrow> a smod b = a mod b"
  by (cases "a = 0") (simp_all add: signed_modulo_int_def)

lemma IS_LEAP_YEAR_leap: "0 \<le> y \<Longrightarrow> IS_LEAP_YEAR y \<longleftrightarrow> leap y"
  by (simp add: IS_LEAP_YEAR_def leap_def smod_nonneg dvd_eq_mod_eq_0)

lemma div_step:
  assumes "0 < (k :: int)"
  shows "y div k = (y - 1) div k + (if k dvd y then 1 else 0)"
proof (cases "k dvd y")
  case True
  then obtain q where q: "y = k * q" by (elim dvdE)
  have "(y - 1) div k = q - 1"
    by (rule int_div_pos_eq [of _ _ _ "k - 1"]) (use assms in \<open>simp_all add: q algebra_simps\<close>)
  with q assms show ?thesis by simp
next
  case False
  then have "1 \<le> y mod k"
    using assms by (metis dvd_eq_mod_eq_0 int_one_le_iff_zero_less pos_mod_sign order_le_less)
  moreover have "y mod k < k" using assms by simp
  ultimately have "(y - 1) div k = y div k"
    by (intro int_div_pos_eq [of _ _ _ "y mod k - 1"]) simp_all
  with False show ?thesis by simp
qed

lemma YEARS_TO_DAYS_step:
  assumes "1601 \<le> y"
  shows "YEARS_TO_DAYS (y + 1) = YEARS_TO_DAYS y + year_length y"
proof -
  have "(4::int) dvd 100" "(100::int) dvd 400" by simp_all
  then have "100 dvd y \<longrightarrow> 4 dvd y" "400 dvd y \<longrightarrow> 100 dvd y"
    by (meson dvd_trans)+
  then have len: "year_length y = 365 + (if 4 dvd y then 1 else 0) - (if 100 dvd y then 1 else 0) + (if 400 dvd y then 1 else 0)"
    by (auto simp: year_length_def leap_def)
  have next_year: "YEARS_TO_DAYS (y + 1) = (y - 1600) * 365 + (y div 4 - y div 100 + y div 400 - 388)"
    using assms by (simp only: YEARS_TO_DAYS_def NUMBER_OF_LEAP_YEARS_def) (simp add: sdiv_nonneg)
  have this_year: "YEARS_TO_DAYS y = (y - 1601) * 365 + ((y - 1) div 4 - (y - 1) div 100 + (y - 1) div 400 - 388)"
    using assms by (simp only: YEARS_TO_DAYS_def NUMBER_OF_LEAP_YEARS_def) (simp add: sdiv_nonneg)
  obtain a b c where abc: "(y - 1) div 4 = a" "(y - 1) div 100 = b" "(y - 1) div 400 = c" by blast
  have steps: "y div 4 = a + (if 4 dvd y then 1 else 0)" "y div 100 = b + (if 100 dvd y then 1 else 0)"
    "y div 400 = c + (if 400 dvd y then 1 else 0)"
    unfolding abc [symmetric] by (rule div_step; simp)+
  show ?thesis
    unfolding next_year this_year steps abc len by simp
qed

lemma YEARS_TO_DAYS_base: "YEARS_TO_DAYS 1601 = 0"
  by (simp add: YEARS_TO_DAYS_def NUMBER_OF_LEAP_YEARS_def)

lemma YEARS_TO_DAYS_sum:
  "YEARS_TO_DAYS (1601 + int n) = (\<Sum>i<n. year_length (1601 + int i))"
proof (induction n)
  case 0
  then show ?case by (simp add: YEARS_TO_DAYS_base)
next
  case (Suc n)
  then show ?case
    using YEARS_TO_DAYS_step [of "1601 + int n"] by (simp add: algebra_simps)
qed

lemma YEARS_TO_DAYS_mono:
  assumes "1601 \<le> y" "y \<le> z"
  shows "YEARS_TO_DAYS y + (z - y) * 365 \<le> YEARS_TO_DAYS z"
  using assms(2)
proof (induction z rule: int_ge_induct)
  case (step z)
  then show ?case
    using YEARS_TO_DAYS_step [of z] assms(1) by (auto simp: year_length_def algebra_simps)
qed simp

section \<open>Months\<close>

definition month_start :: "bool \<Rightarrow> int \<Rightarrow> int" where
  "month_start l m = CummulativeDaysForMonth ! nat (m - 1) + (if l \<and> m > 2 then 1 else 0)"

definition month_length :: "bool \<Rightarrow> int \<Rightarrow> int" where
  "month_length l m = (if m = 2 then (if l then 29 else 28) else if m \<in> {4, 6, 9, 11} then 30 else 31)"

lemma MONTH_TO_DAYS_start:
  "0 \<le> y \<Longrightarrow> 1 \<le> m \<Longrightarrow> m \<le> 13 \<Longrightarrow> MONTH_TO_DAYS y m = Some (month_start (leap y) m)"
  by (simp add: MONTH_TO_DAYS_def month_start_def IS_LEAP_YEAR_leap CummulativeDaysForMonth_def)

definition month_of :: "bool \<Rightarrow> int \<Rightarrow> int" where
  "month_of l doy = (let e = doy div 31 + 1 in if doy \<ge> month_start l (e + 1) then e + 1 else e)"

definition month_facts :: "bool \<Rightarrow> int \<Rightarrow> bool" where
  "month_facts l doy \<longleftrightarrow>
     (let m = month_of l doy in
      1 \<le> m \<and> m \<le> 12 \<and> doy div 31 + 1 \<le> 12 \<and>
      month_start l m \<le> doy \<and> doy < month_start l m + month_length l m)"

lemma month_facts_all:
  "list_all (month_facts True) [0..365]" "list_all (month_facts False) [0..364]"
  by code_simp+

lemma month_of_day:
  assumes "0 \<le> doy" "doy < (if l then 366 else 365)"
  shows "month_facts l doy"
  using month_facts_all assms by (cases l) (auto simp: list_all_iff)

lemma month_starts:
  "list_all (\<lambda>m. month_start l (m + 1) = month_start l m + month_length l m \<and> 0 \<le> month_start l m \<and>
     month_start l m + month_length l m \<le> (if l then 366 else 365) \<and> 0 < month_length l m) [1..12]"
  by (cases l; simp; code_simp)

lemma month_start_step:
  assumes "1 \<le> m" "m \<le> 12"
  shows "month_start l (m + 1) = month_start l m + month_length l m" "0 \<le> month_start l m"
    "month_start l m + month_length l m \<le> (if l then 366 else 365)" "0 < month_length l m"
proof -
  have "m \<in> set [1..12]" using assms by simp
  with month_starts [of l] show "month_start l (m + 1) = month_start l m + month_length l m"
    "0 \<le> month_start l m" "month_start l m + month_length l m \<le> (if l then 366 else 365)"
    "0 < month_length l m"
    unfolding list_all_iff by blast+
qed

lemma month_start_mono:
  assumes "1 \<le> m" "m < n" "n \<le> 13"
  shows "month_start l m + month_length l m \<le> month_start l n"
proof -
  have "m + 1 \<le> n" using assms(2) by simp
  then show ?thesis
    using assms(3)
  proof (induction n rule: int_ge_induct)
    case base
    then show ?case using month_start_step(1) [of m l] assms(1) by simp
  next
    case (step n)
    then show ?case using month_start_step(1,4) [of n l] assms(1) by simp
  qed
qed

lemma month_unique:
  assumes "1 \<le> m" "m \<le> 12" "0 \<le> d" "d < month_length l m"
  shows "month_of l (month_start l m + d) = m"
proof -
  let ?doy = "month_start l m + d" and ?n = "month_of l (month_start l m + d)"
  have "month_facts l ?doy"
    by (rule month_of_day) (use month_start_step [OF assms(1,2), of l] assms(3,4) in auto)
  then have n: "1 \<le> ?n" "?n \<le> 12" "month_start l ?n \<le> ?doy" "?doy < month_start l ?n + month_length l ?n"
    by (simp_all add: month_facts_def Let_def)
  consider "?n < m" | "?n = m" | "m < ?n" by linarith
  then show ?thesis
  proof cases
    case 1
    then show ?thesis using month_start_mono [of ?n m l] n assms by simp
  next
    case 3
    then show ?thesis using month_start_mono [of m ?n l] n assms by simp
  qed simp
qed

section \<open>Years\<close>

lemma WORD_id: "0 \<le> n \<Longrightarrow> n < 65536 \<Longrightarrow> WORD n = n"
  by (simp add: WORD_def)

definition last_year :: int where "last_year = 3111"

lemma leap_years_bound:
  assumes "1601 \<le> y" "y \<le> last_year"
  shows "0 \<le> NUMBER_OF_LEAP_YEARS y" "NUMBER_OF_LEAP_YEARS y + year_length y \<le> 730"
proof -
  have "YEARS_TO_DAYS 1601 + (y - 1601) * 365 \<le> YEARS_TO_DAYS y"
    by (rule YEARS_TO_DAYS_mono) (use assms in simp_all)
  then show "0 \<le> NUMBER_OF_LEAP_YEARS y"
    by (simp add: YEARS_TO_DAYS_base) (simp add: YEARS_TO_DAYS_def)
  have top: "YEARS_TO_DAYS 3112 = 551880"
    by (simp add: YEARS_TO_DAYS_def NUMBER_OF_LEAP_YEARS_def)
  have "YEARS_TO_DAYS (y + 1) + (3112 - (y + 1)) * 365 \<le> YEARS_TO_DAYS 3112"
    by (rule YEARS_TO_DAYS_mono) (use assms in \<open>simp_all add: last_year_def\<close>)
  with YEARS_TO_DAYS_step [OF assms(1)] show "NUMBER_OF_LEAP_YEARS y + year_length y \<le> 730"
    unfolding top by (simp add: YEARS_TO_DAYS_def [of y])
qed

lemma year_found:
  assumes "1601 \<le> y" "y \<le> last_year" "0 \<le> doy" "doy < year_length y" "t = YEARS_TO_DAYS y + doy"
  shows "(if YEARS_TO_DAYS (WORD (t sdiv 365 + 1601)) > t
          then (WORD (WORD (t sdiv 365 + 1601) - 1), YEARS_TO_DAYS (WORD (WORD (t sdiv 365 + 1601) - 1)))
          else (WORD (t sdiv 365 + 1601), YEARS_TO_DAYS (WORD (t sdiv 365 + 1601)))) = (y, YEARS_TO_DAYS y)"
proof -
  note L = leap_years_bound [OF assms(1,2)]
  let ?x = "NUMBER_OF_LEAP_YEARS y + doy"
  have t: "t = (y - 1601) * 365 + ?x" "0 \<le> ?x" "?x < 730"
    using assms(3-5) L by (simp_all add: YEARS_TO_DAYS_def)
  have y: "y < 3112" using assms(2) by (simp add: last_year_def)
  have s: "t sdiv 365 = t div 365"
    using t assms(1) by (intro sdiv_nonneg) simp_all
  have "t div 365 = y - 1601 + ?x div 365"
    unfolding t(1) by simp
  moreover have "?x div 365 = 0 \<or> ?x div 365 = 1"
    using t(2,3) by (cases "?x < 365") (auto simp: int_div_pos_eq [of _ 365 1 "?x - 365"])
  ultimately consider "t sdiv 365 + 1601 = y" | "t sdiv 365 + 1601 = y + 1"
    unfolding s by fastforce
  then show ?thesis
  proof cases
    case 1
    then show ?thesis using assms(1,3,5) y by (simp add: WORD_id)
  next
    case 2
    then have w: "WORD (t sdiv 365 + 1601) = y + 1" "WORD (y + 1 - 1) = y"
      using assms(1) y by (simp_all add: WORD_id)
    have "YEARS_TO_DAYS (y + 1) > t"
      using YEARS_TO_DAYS_step [OF assms(1)] assms(4,5) by simp
    then show ?thesis unfolding w by simp
  qed
qed

lemma year_exists:
  assumes "0 \<le> t" "t < YEARS_TO_DAYS (last_year + 1)"
  obtains y where "1601 \<le> y" "y \<le> last_year" "YEARS_TO_DAYS y \<le> t" "t < YEARS_TO_DAYS y + year_length y"
proof -
  have "\<exists>y. 1601 \<le> y \<and> y < z \<and> YEARS_TO_DAYS y \<le> t \<and> t < YEARS_TO_DAYS (y + 1)"
    if "1601 \<le> z" "t < YEARS_TO_DAYS z" for z
    using that
  proof (induction z rule: int_ge_induct)
    case base
    then show ?case using assms(1) by (simp add: YEARS_TO_DAYS_base)
  next
    case (step z)
    then show ?case by (cases "t < YEARS_TO_DAYS z") force+
  qed
  from this [of "last_year + 1"] assms(2) that show ?thesis
    by (force simp: YEARS_TO_DAYS_step last_year_def)
qed

section \<open>Conversions\<close>

definition valid_time :: "SYSTEMTIME \<Rightarrow> bool" where
  "valid_time st \<longleftrightarrow>
     1601 \<le> wYear st \<and> wYear st \<le> last_year \<and> 1 \<le> wMonth st \<and> wMonth st \<le> 12 \<and>
     1 \<le> wDay st \<and> wDay st \<le> month_length (leap (wYear st)) (wMonth st) \<and>
     0 \<le> wHour st \<and> wHour st < 24 \<and> 0 \<le> wMinute st \<and> wMinute st < 60 \<and>
     0 \<le> wSecond st \<and> wSecond st < 60 \<and> 0 \<le> wMilliseconds st \<and> wMilliseconds st < 1000"

definition day_number :: "SYSTEMTIME \<Rightarrow> int" where
  "day_number st = YEARS_TO_DAYS (wYear st) + month_start (leap (wYear st)) (wMonth st) + wDay st - 1"

definition weekday :: "SYSTEMTIME \<Rightarrow> int" where
  "weekday st = (day_number st + 1) mod 7"

definition time_of :: "SYSTEMTIME \<Rightarrow> int" where
  "time_of st = ((((day_number st * 24 + wHour st) * 60 + wMinute st) * 60 + wSecond st) * 1000 + wMilliseconds st) * 10000"

lemma FromSystemTime_time_of:
  "valid_time st \<Longrightarrow> FromSystemTime st = Some (time_of st)"
  by (simp add: FromSystemTime_def valid_time_def MONTH_TO_DAYS_start time_of_def day_number_def Let_def)

lemma day_in_year:
  assumes "valid_time st"
  shows "0 \<le> month_start (leap (wYear st)) (wMonth st) + wDay st - 1"
    and "month_start (leap (wYear st)) (wMonth st) + wDay st - 1 < year_length (wYear st)"
    and "0 \<le> YEARS_TO_DAYS (wYear st)"
proof -
  from assms have v: "1601 \<le> wYear st" "wYear st \<le> last_year" "1 \<le> wMonth st" "wMonth st \<le> 12" "1 \<le> wDay st"
    "wDay st \<le> month_length (leap (wYear st)) (wMonth st)"
    by (simp_all add: valid_time_def)
  show "0 \<le> month_start (leap (wYear st)) (wMonth st) + wDay st - 1"
    using month_start_step(2) [OF v(3,4), of "leap (wYear st)"] v(5) by simp
  show "month_start (leap (wYear st)) (wMonth st) + wDay st - 1 < year_length (wYear st)"
    using month_start_step(3) [OF v(3,4), of "leap (wYear st)"] v(6) by (auto simp: year_length_def)
  show "0 \<le> YEARS_TO_DAYS (wYear st)"
    using YEARS_TO_DAYS_mono [of 1601 "wYear st"] v(1) by (simp add: YEARS_TO_DAYS_base)
qed

lemma div_digits:
  assumes "0 \<le> (a :: int)" "0 \<le> b" "b < k"
  shows "(a * k + b) sdiv k = a" "(a * k + b) smod k = b"
proof -
  have n: "0 \<le> a * k + b" using assms by simp
  have k: "0 < k" using assms by simp
  have "(a * k + b) div k = a" using assms by (intro int_div_pos_eq [of _ _ _ b]) simp_all
  then show "(a * k + b) sdiv k = a" using sdiv_nonneg [OF n k] by simp
  have "(a * k + b) mod k = b" using assms by (simp add: int_mod_pos_eq)
  then show "(a * k + b) smod k = b" using smod_nonneg [OF n k] by simp
qed

lemma ToSystemTime_time_of:
  assumes "valid_time st" "0 \<le> r" "r < 10000"
  shows "ToSystemTime (time_of st + r) = Some (st\<lparr>wDayOfWeek := weekday st\<rparr>)"
proof -
  let ?l = "leap (wYear st)"
  define doy where "doy = month_start ?l (wMonth st) + wDay st - 1"
  define d where "d = day_number st"
  from assms(1) have v: "1601 \<le> wYear st" "wYear st \<le> last_year" "1 \<le> wMonth st" "wMonth st \<le> 12" "1 \<le> wDay st"
    "wDay st \<le> month_length ?l (wMonth st)" "0 \<le> wHour st" "wHour st < 24" "0 \<le> wMinute st" "wMinute st < 60"
    "0 \<le> wSecond st" "wSecond st < 60" "0 \<le> wMilliseconds st" "wMilliseconds st < 1000"
    by (simp_all add: valid_time_def)
  note dy = day_in_year [OF assms(1), folded doy_def]
  have d: "d = YEARS_TO_DAYS (wYear st) + doy" "0 \<le> d"
    using dy by (simp_all add: d_def doy_def day_number_def)
  define t1 where "t1 = d * 24 + wHour st"
  define t2 where "t2 = t1 * 60 + wMinute st"
  define t3 where "t3 = t2 * 60 + wSecond st"
  define t4 where "t4 = t3 * 1000 + wMilliseconds st"
  have nn: "0 \<le> t1" "0 \<le> t2" "0 \<le> t3" "0 \<le> t4"
    using d(2) v by (simp_all add: t1_def t2_def t3_def t4_def)
  have time: "time_of st + r = t4 * 10000 + r"
    by (simp add: time_of_def t4_def t3_def t2_def t1_def d_def)
  note digits = div_digits [OF nn(4) assms(2,3)] div_digits [OF nn(3) v(13,14), folded t4_def]
    div_digits [OF nn(2) v(11,12), folded t3_def] div_digits [OF nn(1) v(9,10), folded t2_def]
    div_digits [OF d(2) v(7,8), folded t1_def]
  have words: "WORD (wMilliseconds st) = wMilliseconds st" "WORD (wSecond st) = wSecond st"
    "WORD (wMinute st) = wMinute st" "WORD (wHour st) = wHour st"
    using v by (simp_all add: WORD_id)
  have dow: "WORD ((d + 1) smod 7) = weekday st"
    using d(2) by (simp add: weekday_def smod_nonneg WORD_id d_def [symmetric])
  have mf: "month_facts ?l doy"
    by (rule month_of_day) (use dy in \<open>simp_all add: year_length_def\<close>)
  have month: "month_of ?l doy = wMonth st"
    using month_unique [of "wMonth st" "wDay st - 1" ?l] v by (simp add: doy_def algebra_simps)
  have e: "doy sdiv 31 = doy div 31" "0 \<le> doy div 31" "doy div 31 + 1 \<le> 12"
    using dy(1) mf by (simp_all add: sdiv_nonneg month_facts_def Let_def)
  have wm: "WORD (doy sdiv 31 + 1) = doy div 31 + 1"
    unfolding e(1) using e(2,3) by (intro WORD_id) simp_all
  have m_next: "MONTH_TO_DAYS (wYear st) (doy div 31 + 1 + 1) = Some (month_start ?l (doy div 31 + 1 + 1))"
    using v(1) e(2,3) by (intro MONTH_TO_DAYS_start) simp_all
  have m_sel: "(if doy \<ge> month_start ?l (doy div 31 + 1 + 1) then WORD (doy div 31 + 1 + 1) else doy div 31 + 1) = wMonth st"
    using month e(2,3) v(4) by (auto simp: month_of_def Let_def WORD_id)
  have m_this: "MONTH_TO_DAYS (wYear st) (wMonth st) = Some (month_start ?l (wMonth st))"
    using v(1,3,4) by (intro MONTH_TO_DAYS_start) simp_all
  have day: "WORD (doy - month_start ?l (wMonth st) + 1) = wDay st"
    using v(5,6) month_start_step(2,3) [OF v(3,4), of ?l] by (auto simp: doy_def WORD_id split: if_splits)
  have rest: "d - YEARS_TO_DAYS (wYear st) = doy" by (simp add: d(1))
  show ?thesis
    unfolding ToSystemTime_def time Let_def digits words dow year_found [OF v(1,2) dy(1,2) d(1)]
      prod.case rest wm m_next option.case m_sel m_this day
    by simp
qed

lemma time_exists:
  assumes "0 \<le> t" "t < YEARS_TO_DAYS (last_year + 1) * 864000000000"
  obtains st where "valid_time st" "t = time_of st + t mod 10000"
proof -
  define t1 where "t1 = t div 10000"
  define t2 where "t2 = t1 div 1000"
  define t3 where "t3 = t2 div 60"
  define t4 where "t4 = t3 div 60"
  define d where "d = t4 div 24"
  have "d = t div 864000000000"
    by (simp add: d_def t4_def t3_def t2_def t1_def zdiv_zmult2_eq [symmetric])
  with assms have d: "0 \<le> d" "d < YEARS_TO_DAYS (last_year + 1)"
    by (simp_all add: div_less_iff_less_mult pos_imp_zdiv_nonneg_iff)
      (metis div_less_iff_less_mult zero_less_numeral mult.commute)?
  obtain y where y: "1601 \<le> y" "y \<le> last_year" "YEARS_TO_DAYS y \<le> d" "d < YEARS_TO_DAYS y + year_length y"
    using year_exists [OF d] by blast
  define doy where "doy = d - YEARS_TO_DAYS y"
  have mf: "month_facts (leap y) doy"
    by (rule month_of_day) (use y(3,4) in \<open>simp_all add: doy_def year_length_def split: if_splits\<close>)
  define m where "m = month_of (leap y) doy"
  define st where "st = \<lparr>wYear = y, wMonth = m, wDayOfWeek = 0, wDay = doy - month_start (leap y) m + 1,
    wHour = t4 mod 24, wMinute = t3 mod 60, wSecond = t2 mod 60, wMilliseconds = t1 mod 1000\<rparr>"
  have "valid_time st"
    using mf y(1,2) by (simp add: valid_time_def st_def month_facts_def m_def Let_def)
  moreover have "time_of st + t mod 10000 = t"
  proof -
    have "day_number st = d" by (simp add: day_number_def st_def doy_def)
    then have "time_of st = ((((d * 24 + t4 mod 24) * 60 + t3 mod 60) * 60 + t2 mod 60) * 1000 + t1 mod 1000) * 10000"
      by (simp add: time_of_def st_def)
    also have "\<dots> = t1 * 10000"
      unfolding d_def div_mult_mod_eq by (simp only: t4_def div_mult_mod_eq) (simp only: t3_def t2_def div_mult_mod_eq)
    finally show ?thesis by (simp add: t1_def)
  qed
  ultimately show ?thesis using that by metis
qed

section \<open>Properties\<close>

text \<open>
  The closed formula counts days: the number it gives for a year is the number of days
  of the years from 1601 on, with the leap years of the Gregorian calendar.
\<close>

lemma YEARS_TO_DAYS_counts:
  "YEARS_TO_DAYS (1601 + int n) = (\<Sum>i<n. year_length (1601 + int i))"
  by (rule YEARS_TO_DAYS_sum)

text \<open>
  C22: Every date with a valid time of day from 1601 up to the end of 3111 survives the trip
  through a 64-bit time: the fields come back as they were, with the right day of the week.
\<close>

theorem ToSystemTime_FromSystemTime:
  assumes "valid_time st"
  shows "(case FromSystemTime st of None \<Rightarrow> None | Some t \<Rightarrow> ToSystemTime t)
    = Some (st\<lparr>wDayOfWeek := weekday st\<rparr>)"
  using FromSystemTime_time_of [OF assms] ToSystemTime_time_of [OF assms, of 0] by simp

definition leap_day :: SYSTEMTIME where
  "leap_day = \<lparr>wYear = 2012, wMonth = 2, wDayOfWeek = 0, wDay = 29, wHour = 23, wMinute = 59,
     wSecond = 59, wMilliseconds = 999\<rparr>"

theorem ToSystemTime_FromSystemTime_witness:
  "(case FromSystemTime leap_day of None \<Rightarrow> None | Some t \<Rightarrow> ToSystemTime t) = Some (leap_day\<lparr>wDayOfWeek := 3\<rparr>)"
proof -
  have "valid_time leap_day" "weekday leap_day = 3" by code_simp+
  with ToSystemTime_FromSystemTime [of leap_day] show ?thesis by simp
qed

text \<open>
  Every time in that range is converted to a valid date, and converting back gives the
  time rounded down to a millisecond.
\<close>

lemma FromSystemTime_ToSystemTime:
  assumes "0 \<le> t" "t < YEARS_TO_DAYS 3112 * 864000000000"
  shows "\<exists>st. ToSystemTime t = Some st \<and> valid_time st \<and> FromSystemTime st = Some (t - t mod 10000)"
proof -
  obtain st where st: "valid_time st" "t = time_of st + t mod 10000"
    by (rule time_exists [of t]) (use assms in \<open>simp_all add: last_year_def\<close>)
  have v: "valid_time (st\<lparr>wDayOfWeek := weekday st\<rparr>)" "time_of (st\<lparr>wDayOfWeek := weekday st\<rparr>) = time_of st"
    using st(1) by (simp_all add: valid_time_def time_of_def day_number_def)
  have "ToSystemTime (time_of st + t mod 10000) = Some (st\<lparr>wDayOfWeek := weekday st\<rparr>)"
    by (rule ToSystemTime_time_of [OF st(1)]) simp_all
  with st(2) v FromSystemTime_time_of [OF v(1)] show ?thesis by (metis add_diff_cancel_right')
qed

lemma FromSystemTime_ToSystemTime_witness:
  "\<exists>st. ToSystemTime INITIAL_TIME = Some st \<and> valid_time st \<and> FromSystemTime st = Some INITIAL_TIME"
  using FromSystemTime_ToSystemTime [of INITIAL_TIME]
  by (simp add: INITIAL_TIME_def YEARS_TO_DAYS_def NUMBER_OF_LEAP_YEARS_def)

text \<open>
  The range is tight: the estimate of the year is corrected by one only, so the last day
  of 3112 is converted to day 0 of the following year, which is no date.
\<close>

lemma ToSystemTime_after_range:
  "(case ToSystemTime ((YEARS_TO_DAYS 3113 - 1) * 864000000000) of
      Some st \<Rightarrow> wYear st = 3113 \<and> wMonth st = 1 \<and> wDay st = 0
    | None \<Rightarrow> False)"
  by code_simp

text \<open>
  The length of a month is that of the calendar, for every year and month.
\<close>

lemma DaysInMonth_calendar:
  assumes "0 \<le> y" "1 \<le> m" "m \<le> 12"
  shows "DaysInMonth y m = Some (month_length (leap y) m)"
  using assms month_start_step(1) [OF assms(2,3), of "leap y"]
  by (simp add: DaysInMonth_def MONTH_TO_DAYS_start)

lemma DaysInMonth_calendar_witness:
  "DaysInMonth 2000 2 = Some 29 \<and> DaysInMonth 1900 2 = Some 28"
  using DaysInMonth_calendar [of 2000 2] DaysInMonth_calendar [of 1900 2]
  by (simp add: month_length_def leap_def)

text \<open>
  A clock that is set reads back: when the counter does not advance between the two
  reads, the UTC time is the one set, whatever the drift parameters and the old offset, and
  the local time is apart from it by the time zone offset that was set, reduced to less than
  a day.
\<close>

lemma wrap64_id: "-(2 ^ 63) \<le> n \<Longrightarrow> n < 2 ^ 63 \<Longrightarrow> wrap64 n = n"
  by (simp add: wrap64_def)

lemma wrap64_absorb: "wrap64 (a + wrap64 (b - a)) = wrap64 b"
proof -
  have "a + wrap64 (b - a) + 2 ^ 63 = (a + ((b - a + 2 ^ 63) mod 2 ^ 64))"
    by (simp add: wrap64_def)
  then have "(a + wrap64 (b - a) + 2 ^ 63) mod 2 ^ 64 = (a + (b - a + 2 ^ 63)) mod 2 ^ 64"
    by (simp only: mod_add_right_eq)
  then show ?thesis by (simp add: wrap64_def)
qed

lemma clock_reads_back:
  assumes "m_Ticks_a st \<noteq> 0" "-(2 ^ 63) \<le> t" "t < 2 ^ 63"
  shows "\<exists>st'. SetUtcTime now now t (fst (SetTimeZoneOffset offset st)) = Some (st', t) \<and>
    GetUtcTime now st' = Some t \<and>
    GetTimeZoneOffset st' = offset smod 1440 \<and>
    GetLocalTime now st' = Some (wrap64 (t + (offset smod 1440) * 600000000))"
proof -
  define z where "z = offset smod 1440"
  have "\<bar>z\<bar> < 1440"
    unfolding z_def signed_modulo_int_def by (simp add: abs_mult sgn_if)
  then have w: "wrap64 (z * 600000000) = z * 600000000"
    by (intro wrap64_id) simp_all
  have q: "(z * 600000000) sdiv 600000000 = z"
    by (cases "z = 0") (simp_all add: signed_divide_int_def sgn_mult abs_mult sgn_mult_abs)
  obtain m where m: "GetMachineTime now (fst (SetTimeZoneOffset offset st)) = Some m"
    using assms(1) by (simp add: GetMachineTime_def SetTimeZoneOffset_def Let_def)
  let ?st = "(fst (SetTimeZoneOffset offset st))\<lparr>m_Utc_c := wrap64 (t - m)\<rparr>"
  have "GetMachineTime now ?st = Some m"
    using m by (simp add: GetMachineTime_def split: if_splits)
  then have utc: "GetUtcTime now ?st = Some t"
    using wrap64_absorb [of m t] assms(2,3) by (simp add: GetUtcTime_def wrap64_id)
  have tz: "m_timezoneOffset ?st = z * 600000000"
    using w by (simp add: SetTimeZoneOffset_def Let_def z_def)
  show ?thesis
    using m utc tz q
    by (simp add: SetUtcTime_def Let_def GetTimeZoneOffset_def GetLocalTime_def z_def)
qed

definition booted_clock :: TimeState where
  "booted_clock = Time_Initialize (1, 1, 0)
     \<lparr>m_initialized = False, m_utcTime = 0, m_timezoneOffset = 0, m_Utc_c = 0, m_Ticks_a = 0,
      m_Ticks_b = 0, m_Ticks_c = 0\<rparr>"

lemma clock_reads_back_witness:
  "\<exists>st'. SetUtcTime 5 5 1000 (fst (SetTimeZoneOffset (- 1500) booted_clock)) = Some (st', 1000) \<and>
    GetUtcTime 5 st' = Some 1000 \<and> GetTimeZoneOffset st' = - 60"
  using clock_reads_back [of booted_clock 1000 5 "- 1500"]
  by (auto simp: booted_clock_def Time_Initialize_def)

text \<open>
  A span of exactly one day is printed as 24 hours and not as one day; one second more
  is printed as a day.
\<close>

theorem TimeSpanToString_one_day:
  "TimeSpanToString (86400 * 10000000) = ''24:00:00'' \<and>
   TimeSpanToString (86401 * 10000000) = ''1.00:00:01''"
proof -
  have "dec_digits 0 = ''0''" "dec_digits 1 = ''1''" "dec_digits (Suc 0) = ''1''" "dec_digits 24 = ''24''"
    by (simp_all add: dec_digits.simps [of 0] dec_digits.simps [of 1] dec_digits.simps [of "Suc 0"]
        dec_digits.simps [of 24] dec_digits.simps [of 2] dec_digits.simps [of 4] char_of_def bit_0)
  then show ?thesis
    by (simp add: TimeSpanToString_def Let_def pad_def)
qed

end
