(* ===== verification/DblLinkedList.thy ===== *)
theory DblLinkedList imports NetMF_Prelude begin

text \<open>
  The intrusive doubly linked list, \<^verbatim>\<open>HAL_DblLinkedNode\<close> and \<^verbatim>\<open>HAL_DblLinkedList\<close> of
  \<^verbatim>\<open>src/DeviceCode/Include/tinyhal.h\<close> (the managed heap has the same code in
  \<^verbatim>\<open>CLR_RT_DblLinkedList\<close>). The two links of every node are maps from addresses to addresses,
  0 is \<open>NULL\<close>; a list is the pair of the addresses of its two overlapping end nodes. The lemmas
  relate the links to the list of the linked nodes. The locale \<open>fifo\<close> states what a queue
  promises its client.
\<close>

section \<open>Links and operations\<close>

record Links =
  m_nextNode :: "nat \<Rightarrow> nat"
  m_prevNode :: "nat \<Rightarrow> nat"

record ListEnds =
  Head :: nat
  Tail :: nat

definition set_next :: "nat \<Rightarrow> nat \<Rightarrow> Links \<Rightarrow> Links" where
  "set_next a v st = st\<lparr>m_nextNode := (m_nextNode st)(a := v)\<rparr>"

definition set_prev :: "nat \<Rightarrow> nat \<Rightarrow> Links \<Rightarrow> Links" where
  "set_prev a v st = st\<lparr>m_prevNode := (m_prevNode st)(a := v)\<rparr>"

definition Node_Initialize :: "nat \<Rightarrow> Links \<Rightarrow> Links" where
  "Node_Initialize n st = set_prev n 0 (set_next n 0 st)"

definition IsLinked :: "nat \<Rightarrow> Links \<Rightarrow> bool" where
  "IsLinked n st \<longleftrightarrow> m_nextNode st n \<noteq> 0"

definition RemoveFromList :: "nat \<Rightarrow> Links \<Rightarrow> Links" where
  "RemoveFromList n st =
     (let nxt = m_nextNode st n; prv = m_prevNode st n;
          st = (if prv \<noteq> 0 then set_next prv nxt st else st)
      in if nxt \<noteq> 0 then set_prev nxt prv st else st)"

definition Unlink :: "nat \<Rightarrow> Links \<Rightarrow> Links" where
  "Unlink n st = Node_Initialize n (RemoveFromList n st)"

definition List_Initialize :: "ListEnds \<Rightarrow> Links \<Rightarrow> Links" where
  "List_Initialize l st =
     set_prev (Tail l) (Head l) (set_next (Tail l) 0 (set_prev (Head l) 0 (set_next (Head l) (Tail l) st)))"

definition FirstNode :: "ListEnds \<Rightarrow> Links \<Rightarrow> nat" where
  "FirstNode l st = m_nextNode st (Head l)"

definition LastNode :: "ListEnds \<Rightarrow> Links \<Rightarrow> nat" where
  "LastNode l st = m_prevNode st (Tail l)"

definition IsEmpty :: "ListEnds \<Rightarrow> Links \<Rightarrow> bool" where
  "IsEmpty l st \<longleftrightarrow> FirstNode l st = Tail l"

definition FirstValidNode :: "ListEnds \<Rightarrow> Links \<Rightarrow> nat" where
  "FirstValidNode l st = (if m_nextNode st (FirstNode l st) \<noteq> 0 then FirstNode l st else 0)"

definition LastValidNode :: "ListEnds \<Rightarrow> Links \<Rightarrow> nat" where
  "LastValidNode l st = (if m_prevNode st (LastNode l st) \<noteq> 0 then LastNode l st else 0)"

text \<open>The count of the nodes; \<open>None\<close> when the fuel runs out before the end is reached.\<close>

fun count_from :: "nat \<Rightarrow> nat \<Rightarrow> Links \<Rightarrow> nat option" where
  "count_from 0 p st = None"
| "count_from (Suc fuel) p st =
     (if m_nextNode st p \<noteq> 0 then map_option Suc (count_from fuel (m_nextNode st p) st) else Some 0)"

definition NumOfNodes :: "nat \<Rightarrow> ListEnds \<Rightarrow> Links \<Rightarrow> nat option" where
  "NumOfNodes fuel l st = count_from fuel (FirstNode l st) st"

definition Insert_node :: "nat \<Rightarrow> nat \<Rightarrow> nat \<Rightarrow> Links \<Rightarrow> Links" where
  "Insert_node prv nxt n st =
     set_next prv n (set_prev nxt n (set_prev n prv (set_next n nxt st)))"

definition InsertBeforeNode :: "nat \<Rightarrow> nat \<Rightarrow> Links \<Rightarrow> Links" where
  "InsertBeforeNode n new st =
     (if n \<noteq> 0 \<and> new \<noteq> 0 \<and> n \<noteq> new then
        (let st = RemoveFromList new st in Insert_node (m_prevNode st n) n new st)
      else st)"

definition InsertAfterNode :: "nat \<Rightarrow> nat \<Rightarrow> Links \<Rightarrow> Links" where
  "InsertAfterNode n new st =
     (if n \<noteq> 0 \<and> new \<noteq> 0 \<and> n \<noteq> new then
        (let st = RemoveFromList new st in Insert_node n (m_nextNode st n) new st)
      else st)"

definition LinkAtFront :: "ListEnds \<Rightarrow> nat \<Rightarrow> Links \<Rightarrow> Links" where
  "LinkAtFront l n st = InsertAfterNode (Head l) n st"

definition LinkAtBack :: "ListEnds \<Rightarrow> nat \<Rightarrow> Links \<Rightarrow> Links" where
  "LinkAtBack l n st = InsertBeforeNode (Tail l) n st"

definition ExtractFirstNode :: "ListEnds \<Rightarrow> Links \<Rightarrow> Links \<times> nat" where
  "ExtractFirstNode l st =
     (let n = FirstValidNode l st in (if n \<noteq> 0 then Unlink n st else st, n))"

definition ExtractLastNode :: "ListEnds \<Rightarrow> Links \<Rightarrow> Links \<times> nat" where
  "ExtractLastNode l st =
     (let n = LastValidNode l st in (if n \<noteq> 0 then Unlink n st else st, n))"

section \<open>The list of linked nodes\<close>

fun linked :: "Links \<Rightarrow> nat \<Rightarrow> nat list \<Rightarrow> nat \<Rightarrow> bool" where
  "linked st p [] q \<longleftrightarrow> m_nextNode st p = q \<and> m_prevNode st q = p"
| "linked st p (x # xs) q \<longleftrightarrow> m_nextNode st p = x \<and> m_prevNode st x = p \<and> linked st x xs q"

definition free_node :: "Links \<Rightarrow> nat \<Rightarrow> bool" where
  "free_node st n \<longleftrightarrow> m_nextNode st n = 0 \<and> m_prevNode st n = 0"

definition dll :: "ListEnds \<Rightarrow> Links \<Rightarrow> nat list \<Rightarrow> bool" where
  "dll l st xs \<longleftrightarrow>
     linked st (Head l) xs (Tail l) \<and> distinct (Head l # xs @ [Tail l]) \<and>
     0 \<notin> set (Head l # xs @ [Tail l]) \<and> m_prevNode st (Head l) = 0 \<and> m_nextNode st (Tail l) = 0"

lemma link_simps [simp]:
  "m_nextNode (set_next a v st) b = (if b = a then v else m_nextNode st b)"
  "m_prevNode (set_next a v st) b = m_prevNode st b"
  "m_nextNode (set_prev a v st) b = m_nextNode st b"
  "m_prevNode (set_prev a v st) b = (if b = a then v else m_prevNode st b)"
  by (simp_all add: set_next_def set_prev_def)

lemma linked_append:
  "linked st p (xs @ y # ys) q \<longleftrightarrow> linked st p xs y \<and> linked st y ys q"
  by (induction xs arbitrary: p) auto

lemma linked_frame:
  assumes "linked st p xs q"
    and "\<And>x. x \<in> set (p # xs) \<Longrightarrow> m_nextNode st' x = m_nextNode st x"
    and "\<And>x. x \<in> set (xs @ [q]) \<Longrightarrow> m_prevNode st' x = m_prevNode st x"
  shows "linked st' p xs q"
  using assms by (induction xs arbitrary: p) auto

text \<open>Joining two stretches, and inserting a node between them.\<close>

lemma linked_split:
  "linked st p (xs @ ys) q \<longleftrightarrow>
    linked st p xs (hd (ys @ [q])) \<and> linked st (last (p # xs)) ys q"
proof (cases ys)
  case Nil
  have "linked st p xs q \<Longrightarrow> m_nextNode st (last (p # xs)) = q \<and> m_prevNode st q = last (p # xs)"
    by (induction xs arbitrary: p) auto
  with Nil show ?thesis by auto
next
  case (Cons y zs)
  have "linked st p xs y \<Longrightarrow> m_nextNode st (last (p # xs)) = y \<and> m_prevNode st y = last (p # xs)"
    by (induction xs arbitrary: p) auto
  with Cons show ?thesis by (auto simp: linked_append)
qed

lemma linked_last:
  assumes "linked st p xs q"
  shows "m_prevNode st q = last (p # xs)" "m_nextNode st (last (p # xs)) = q"
  using assms by (induction xs arbitrary: p) auto

lemma linked_hd:
  assumes "linked st p xs q"
  shows "m_nextNode st p = hd (xs @ [q])" "m_prevNode st (hd (xs @ [q])) = p"
  using assms by (cases xs; auto)+

lemma linked_weld:
  assumes "linked st p (xs @ ys) q" "distinct (p # xs @ ys @ [q])" "n \<notin> set (p # xs @ ys @ [q])"
  shows "linked (Insert_node (last (p # xs)) (hd (ys @ [q])) n st) p (xs @ n # ys) q"
proof -
  let ?l = "last (p # xs)" and ?r = "hd (ys @ [q])"
  let ?st = "Insert_node ?l ?r n st"
  from assms(1) have s: "linked st p xs ?r" "linked st ?l ys q"
    by (simp_all add: linked_split)
  have l: "?l \<in> set (p # xs)" and r: "?r \<in> set (ys @ [q])"
    by (rule last_in_set; simp) (rule hd_in_set; simp)
  have ns: "?l \<noteq> n" "?r \<noteq> n" "n \<notin> set (p # xs)" "n \<notin> set (ys @ [q])"
    using assms(3) l r by auto
  have disj: "set (p # xs) \<inter> set (ys @ [q]) = {}" using assms(2) by auto
  have "linked ?st p xs n"
  proof (cases xs rule: rev_cases)
    case Nil
    then show ?thesis using ns by (simp add: Insert_node_def)
  next
    case (snoc us u)
    have "linked st p us u" using s(1) by (simp add: snoc linked_append)
    then have "linked ?st p us u"
      by (rule linked_frame) (use ns disj r snoc assms(2) in \<open>auto simp: Insert_node_def\<close>)
    with snoc ns show ?thesis by (simp add: Insert_node_def linked_append)
  qed
  moreover have "linked ?st n ys q"
  proof (cases ys)
    case Nil
    then show ?thesis using ns by (auto simp: Insert_node_def)
  next
    case (Cons y zs)
    have "linked st y zs q" using s(2) by (simp add: Cons)
    then have "linked ?st y zs q"
      by (rule linked_frame) (use ns disj l Cons assms(2) in \<open>auto simp: Insert_node_def\<close>)
    with Cons ns show ?thesis by (auto simp: Insert_node_def)
  qed
  ultimately show ?thesis by (simp add: linked_append)
qed

lemma mem_nonzero: "(x :: nat) \<in> S \<Longrightarrow> 0 \<notin> S \<Longrightarrow> x \<noteq> 0"
  by metis

lemma linked_remove:
  assumes "linked st p (xs @ n # ys) q" "distinct (p # xs @ n # ys @ [q])"
    "0 \<notin> set (p # xs @ n # ys @ [q])"
  shows "linked (RemoveFromList n st) p (xs @ ys) q"
proof -
  let ?l = "last (p # xs)" and ?r = "hd (ys @ [q])"
  from assms(1) have s: "linked st p xs n" "linked st n ys q"
    by (simp_all add: linked_append)
  have l: "?l \<in> set (p # xs)" and r: "?r \<in> set (ys @ [q])"
    by (rule last_in_set; simp) (rule hd_in_set; simp)
  have pn: "m_prevNode st n = ?l" "m_nextNode st n = ?r"
    using linked_last(1) [OF s(1)] linked_hd(1) [OF s(2)] by simp_all
  have nz: "?l \<noteq> 0"
    by (rule mem_nonzero [OF l]) (use assms(3) in auto)
  have nz': "?r \<noteq> 0"
    by (rule mem_nonzero [OF r]) (use assms(3) in auto)
  let ?st = "set_prev ?r ?l (set_next ?l ?r st)"
  have rem: "RemoveFromList n st = ?st"
    by (simp add: RemoveFromList_def Let_def pn nz nz' del: last.simps)
  have disj: "set (p # xs) \<inter> set (ys @ [q]) = {}" using assms(2) by auto
  have "linked ?st p xs ?r"
  proof (cases xs rule: rev_cases)
    case Nil
    then show ?thesis by simp
  next
    case (snoc us u)
    have "linked st p us u" using s(1) by (simp add: snoc linked_append)
    then have "linked ?st p us u"
      by (rule linked_frame) (use disj r snoc assms(2) in auto)
    with snoc show ?thesis by (simp add: linked_append)
  qed
  moreover have "linked ?st ?l ys q"
  proof (cases ys)
    case Nil
    then show ?thesis by simp
  next
    case (Cons y zs)
    have "linked st y zs q" using s(2) by (simp add: Cons)
    then have "linked ?st y zs q"
      by (rule linked_frame) (use disj l Cons assms(2) in auto)
    with Cons show ?thesis by simp
  qed
  ultimately show ?thesis
    unfolding rem by (simp add: linked_split)
qed

section \<open>The operations on lists\<close>

definition pool_free :: "Links \<Rightarrow> nat set \<Rightarrow> bool" where
  "pool_free st S \<longleftrightarrow> (\<forall>n\<in>S. free_node st n)"

lemma RemoveFromList_free: "free_node st n \<Longrightarrow> RemoveFromList n st = st"
  by (simp add: RemoveFromList_def free_node_def)

lemma dll_insert_before:
  assumes "dll l st (xs @ ys)" "free_node st n" "n \<noteq> 0" "n \<notin> set (Head l # xs @ ys @ [Tail l])"
  shows "dll l (InsertBeforeNode (hd (ys @ [Tail l])) n st) (xs @ n # ys)"
    and "free_node st m \<Longrightarrow> m \<notin> set (Head l # xs @ n # ys @ [Tail l]) \<Longrightarrow>
      free_node (InsertBeforeNode (hd (ys @ [Tail l])) n st) m"
proof -
  from assms(1) have d: "linked st (Head l) (xs @ ys) (Tail l)" "distinct (Head l # xs @ ys @ [Tail l])"
    "0 \<notin> set (Head l # xs @ ys @ [Tail l])" "m_prevNode st (Head l) = 0" "m_nextNode st (Tail l) = 0"
    by (auto simp: dll_def)
  let ?r = "hd (ys @ [Tail l])" and ?l = "last (Head l # xs)"
  have r: "?r \<in> set (ys @ [Tail l])" and lm: "?l \<in> set (Head l # xs)"
    by (rule hd_in_set; simp) (rule last_in_set; simp)
  have nz: "?r \<noteq> 0"
    by (rule mem_nonzero [OF r]) (use d(3) in auto)
  have nn: "?r \<noteq> n" using r assms(4) by auto
  have prv: "m_prevNode st ?r = ?l"
    using d(1) linked_last(1) [of st "Head l" xs ?r] by (simp add: linked_split)
  have eq: "InsertBeforeNode ?r n st = Insert_node ?l ?r n st"
    using nz nn assms(3) prv by (simp add: InsertBeforeNode_def RemoveFromList_free [OF assms(2)] Let_def)
  have w: "linked (Insert_node ?l ?r n st) (Head l) (xs @ n # ys) (Tail l)"
    by (rule linked_weld [OF d(1,2) assms(4)])
  have "m_prevNode (Insert_node ?l ?r n st) (Head l) = 0" "m_nextNode (Insert_node ?l ?r n st) (Tail l) = 0"
    using r lm d assms(4) by (auto simp: Insert_node_def)
  with w d assms(3,4) show "dll l (InsertBeforeNode ?r n st) (xs @ n # ys)"
    unfolding eq by (auto simp: dll_def)
  show "free_node (InsertBeforeNode ?r n st) m"
    if "free_node st m" "m \<notin> set (Head l # xs @ n # ys @ [Tail l])"
    using that r lm unfolding eq by (auto simp: free_node_def Insert_node_def)
qed

lemma dll_unlink:
  assumes "dll l st (xs @ n # ys)"
  shows "dll l (Unlink n st) (xs @ ys)" and "free_node (Unlink n st) n"
    and "free_node st m \<Longrightarrow> m \<notin> set (Head l # xs @ n # ys @ [Tail l]) \<Longrightarrow> free_node (Unlink n st) m"
proof -
  from assms have d: "linked st (Head l) (xs @ n # ys) (Tail l)" "distinct (Head l # xs @ n # ys @ [Tail l])"
    "0 \<notin> set (Head l # xs @ n # ys @ [Tail l])" "m_prevNode st (Head l) = 0" "m_nextNode st (Tail l) = 0"
    by (auto simp: dll_def)
  let ?l = "last (Head l # xs)" and ?r = "hd (ys @ [Tail l])"
  have lm: "?l \<in> set (Head l # xs)" and r: "?r \<in> set (ys @ [Tail l])"
    by (rule last_in_set; simp) (rule hd_in_set; simp)
  have pn: "m_prevNode st n = ?l" "m_nextNode st n = ?r"
    using d(1) linked_last(1) [of st "Head l" xs n] linked_hd(1) [of st n ys "Tail l"]
    by (simp_all add: linked_append)
  have "linked (RemoveFromList n st) (Head l) (xs @ ys) (Tail l)"
    by (rule linked_remove [OF d(1-3)])
  then have "linked (Unlink n st) (Head l) (xs @ ys) (Tail l)"
    by (rule linked_frame) (use d(2) in \<open>auto simp: Unlink_def Node_Initialize_def\<close>)
  moreover have "m_prevNode (Unlink n st) (Head l) = 0" "m_nextNode (Unlink n st) (Tail l) = 0"
    using d lm r by (auto simp: Unlink_def Node_Initialize_def RemoveFromList_def Let_def pn)
  ultimately show "dll l (Unlink n st) (xs @ ys)"
    using d by (auto simp: dll_def)
  show "free_node (Unlink n st) n"
    by (simp add: Unlink_def Node_Initialize_def free_node_def)
  show "free_node (Unlink n st) m" if "free_node st m" "m \<notin> set (Head l # xs @ n # ys @ [Tail l])"
    using that lm r by (auto simp: Unlink_def Node_Initialize_def RemoveFromList_def Let_def pn free_node_def)
qed

text \<open>Each operation writes only the links of the nodes of its list.\<close>

lemma dll_insert_frame:
  assumes "dll l st (xs @ ys)" "free_node st n" "n \<noteq> 0" "n \<notin> set (Head l # xs @ ys @ [Tail l])"
    "m \<notin> set (Head l # xs @ n # ys @ [Tail l])"
  shows "m_nextNode (InsertBeforeNode (hd (ys @ [Tail l])) n st) m = m_nextNode st m"
    "m_prevNode (InsertBeforeNode (hd (ys @ [Tail l])) n st) m = m_prevNode st m"
proof -
  let ?r = "hd (ys @ [Tail l])" and ?l = "last (Head l # xs)"
  have r: "?r \<in> set (ys @ [Tail l])" and lm: "?l \<in> set (Head l # xs)"
    by (rule hd_in_set; simp) (rule last_in_set; simp)
  have "m_prevNode st ?r = ?l"
    using assms(1) linked_last(1) [of st "Head l" xs ?r] by (simp add: linked_split dll_def)
  then have "InsertBeforeNode ?r n st = (if ?r \<noteq> 0 \<and> n \<noteq> 0 \<and> ?r \<noteq> n then Insert_node ?l ?r n st else st)"
    by (simp only: InsertBeforeNode_def RemoveFromList_free [OF assms(2)] Let_def)
  moreover have "m \<noteq> ?l" "m \<noteq> ?r" "m \<noteq> n" using r lm assms(5) by auto
  ultimately show "m_nextNode (InsertBeforeNode ?r n st) m = m_nextNode st m"
    "m_prevNode (InsertBeforeNode ?r n st) m = m_prevNode st m"
    by (simp_all add: Insert_node_def)
qed

lemma dll_unlink_frame:
  assumes "dll l st (xs @ n # ys)" "m \<notin> set (Head l # xs @ n # ys @ [Tail l])"
  shows "m_nextNode (Unlink n st) m = m_nextNode st m" "m_prevNode (Unlink n st) m = m_prevNode st m"
proof -
  let ?l = "last (Head l # xs)" and ?r = "hd (ys @ [Tail l])"
  have lm: "?l \<in> set (Head l # xs)" and r: "?r \<in> set (ys @ [Tail l])"
    by (rule last_in_set; simp) (rule hd_in_set; simp)
  have "m_prevNode st n = ?l" "m_nextNode st n = ?r"
    using assms(1) linked_last(1) [of st "Head l" xs n] linked_hd(1) [of st n ys "Tail l"]
    by (simp_all add: linked_append dll_def)
  moreover have "m \<noteq> ?l" "m \<noteq> ?r" "m \<noteq> n" using r lm assms(2) by auto
  ultimately show "m_nextNode (Unlink n st) m = m_nextNode st m" "m_prevNode (Unlink n st) m = m_prevNode st m"
    by (simp_all add: Unlink_def Node_Initialize_def RemoveFromList_def Let_def)
qed

lemma dll_cong:
  assumes "dll l st xs"
    "\<And>m. m \<in> set (Head l # xs @ [Tail l]) \<Longrightarrow> m_nextNode st' m = m_nextNode st m \<and> m_prevNode st' m = m_prevNode st m"
  shows "dll l st' xs"
proof -
  have "linked st' (Head l) xs (Tail l)"
    by (rule linked_frame [of st]) (use assms in \<open>auto simp: dll_def\<close>)
  with assms show ?thesis by (simp add: dll_def)
qed

lemma dll_unlink_free: "free_node st n \<Longrightarrow> Unlink n st = st"
  by (simp add: Unlink_def RemoveFromList_free Node_Initialize_def set_next_def set_prev_def free_node_def
      fun_upd_idem)

lemma dll_first:
  assumes "dll l st xs"
  shows "FirstNode l st = hd (xs @ [Tail l])" "m_nextNode st (FirstNode l st) = 0 \<longleftrightarrow> xs = []"
    "FirstValidNode l st = (if xs = [] then 0 else hd xs)" "IsEmpty l st \<longleftrightarrow> xs = []"
proof -
  from assms have d: "linked st (Head l) xs (Tail l)" "0 \<notin> set (xs @ [Tail l])" "m_nextNode st (Tail l) = 0"
    "Tail l \<notin> set xs" by (auto simp: dll_def)
  show f: "FirstNode l st = hd (xs @ [Tail l])"
    using linked_hd(1) [OF d(1)] by (simp add: FirstNode_def)
  show n: "m_nextNode st (FirstNode l st) = 0 \<longleftrightarrow> xs = []"
  proof (cases xs)
    case (Cons x ys)
    then have "linked st x ys (Tail l)" using d(1) by simp
    from linked_hd(1) [OF this] show ?thesis
      using d(2) Cons f by (metis Un_iff append_Cons hd_append hd_in_set list.distinct(1) list.sel(1) list.set_intros(2)
          self_append_conv2 set_append snoc_eq_iff_butlast)
  qed (use f d(3) in simp)
  show "FirstValidNode l st = (if xs = [] then 0 else hd xs)"
    using n f by (auto simp: FirstValidNode_def)
  show "IsEmpty l st \<longleftrightarrow> xs = []"
    using f d(4) by (cases xs) (auto simp: IsEmpty_def)
qed

lemma dll_extract_first:
  assumes "dll l st xs"
  shows "case xs of
      [] \<Rightarrow> ExtractFirstNode l st = (st, 0)
    | x # ys \<Rightarrow> ExtractFirstNode l st = (Unlink x st, x) \<and> dll l (Unlink x st) ys"
proof (cases xs)
  case (Cons x ys)
  with assms have "x \<noteq> 0" by (auto simp: dll_def)
  with dll_first(3) [OF assms] dll_unlink(1) [of l st "[]" x ys] assms Cons show ?thesis
    by (simp add: ExtractFirstNode_def)
qed (use dll_first(3) [OF assms] in \<open>simp add: ExtractFirstNode_def\<close>)

lemma dll_extract_last:
  assumes "dll l st (xs @ [x])"
  shows "ExtractLastNode l st = (Unlink x st, x) \<and> dll l (Unlink x st) xs"
proof -
  from assms have d: "linked st (Head l) (xs @ [x]) (Tail l)" "0 \<notin> set (Head l # xs @ [x])"
    by (auto simp: dll_def)
  have "m_prevNode st (Tail l) = x" using linked_last(1) [OF d(1)] by simp
  moreover have "m_prevNode st x = last (Head l # xs)"
    using d(1) linked_last(1) [of st "Head l" xs x] by (simp add: linked_append)
  moreover have "last (Head l # xs) \<noteq> 0"
    by (rule mem_nonzero [OF last_in_set]) (use d(2) in auto)
  ultimately show ?thesis
    using d(2) dll_unlink(1) [of l st xs x "[]"] assms
    by (simp add: ExtractLastNode_def LastValidNode_def LastNode_def)
qed

lemma dll_link_back:
  assumes "dll l st xs" "free_node st n" "n \<noteq> 0" "n \<notin> set (Head l # xs @ [Tail l])"
  shows "dll l (LinkAtBack l n st) (xs @ [n])"
    and "free_node st m \<Longrightarrow> m \<notin> set (Head l # xs @ n # [Tail l]) \<Longrightarrow> free_node (LinkAtBack l n st) m"
  using dll_insert_before [of l st xs "[]" n] assms by (simp_all add: LinkAtBack_def)

lemma dll_count:
  assumes "linked st p xs q" "m_nextNode st q = 0" "0 \<notin> set (xs @ [q])" "length xs < fuel"
  shows "count_from fuel (hd (xs @ [q])) st = Some (length xs)"
  using assms
proof (induction xs arbitrary: p fuel)
  case Nil
  then show ?case by (cases fuel) auto
next
  case (Cons x xs)
  obtain f where f: "fuel = Suc f" using Cons.prems(4) by (cases fuel) auto
  have l: "linked st x xs q" using Cons.prems(1) by simp
  have "hd (xs @ [q]) \<noteq> 0" using Cons.prems(3) by (cases xs) auto
  with Cons.IH [OF l] Cons.prems linked_hd(1) [OF l] f show ?case by simp
qed

lemma dll_initialize:
  assumes "Head l \<noteq> 0" "Tail l \<noteq> 0" "Head l \<noteq> Tail l"
  shows "dll l (List_Initialize l st) []"
    and "m \<noteq> Head l \<Longrightarrow> m \<noteq> Tail l \<Longrightarrow> free_node (List_Initialize l st) m \<longleftrightarrow> free_node st m"
  using assms by (auto simp: List_Initialize_def dll_def free_node_def)

section \<open>The contract of a queue\<close>

text \<open>
  \<open>rep\<close> relates a state to the list of the elements waiting, \<open>can\<close> says that an element may
  be offered. An offer is accepted at the back or refused; a removal answers the front. The
  runs of a client are the relation \<open>reach\<close>, with the elements accepted and the elements
  answered so far.
\<close>

locale fifo =
  fixes rep :: "'s \<Rightarrow> 'a list \<Rightarrow> bool"
    and can :: "'s \<Rightarrow> 'a \<Rightarrow> bool"
    and enq :: "'s \<Rightarrow> 'a \<Rightarrow> 's \<times> bool"
    and deq :: "'s \<Rightarrow> 's \<times> 'a option"
  assumes enq_law: "rep s xs \<Longrightarrow> can s a \<Longrightarrow> enq s a = (s', ok) \<Longrightarrow> rep s' (if ok then xs @ [a] else xs)"
    and deq_law: "rep s xs \<Longrightarrow> deq s = (s', r) \<Longrightarrow>
      (case xs of [] \<Rightarrow> r = None \<and> rep s' [] | x # ys \<Rightarrow> r = Some x \<and> rep s' ys)"
begin

inductive reach :: "'s \<Rightarrow> 'a list \<Rightarrow> 'a list \<Rightarrow> 's \<Rightarrow> bool" for s0 where
  start: "reach s0 [] [] s0"
| offer: "reach s0 acc out s \<Longrightarrow> can s a \<Longrightarrow> enq s a = (s', ok) \<Longrightarrow>
    reach s0 (if ok then acc @ [a] else acc) out s'"
| remove: "reach s0 acc out s \<Longrightarrow> deq s = (s', r) \<Longrightarrow>
    reach s0 acc (case r of None \<Rightarrow> out | Some a \<Rightarrow> out @ [a]) s'"

inductive_cases reachE: "reach s0 acc out s"

lemma in_order:
  assumes "reach s0 acc out s" "rep s0 xs"
  shows "\<exists>ys. rep s ys \<and> xs @ acc = out @ ys"
  using assms
proof (induction rule: reach.induct)
  case start
  then show ?case by simp
next
  case (offer acc out s a s' ok)
  then obtain ys where ys: "rep s ys" "xs @ acc = out @ ys" by auto
  from enq_law [OF ys(1) offer.hyps(2,3)] ys(2) show ?case
    by (cases ok) (auto simp flip: append_assoc)
next
  case (remove acc out s s' r)
  then obtain ys where ys: "rep s ys" "xs @ acc = out @ ys" by auto
  from deq_law [OF ys(1) remove.hyps(2)] ys(2) show ?case
    by (cases ys) auto
qed

end

section \<open>The list as a queue of nodes\<close>

definition node_queue :: "ListEnds \<Rightarrow> nat set \<Rightarrow> Links \<Rightarrow> nat list \<Rightarrow> bool" where
  "node_queue l S st xs \<longleftrightarrow>
     dll l st xs \<and> set xs \<subseteq> S \<and> 0 \<notin> S \<and> Head l \<notin> S \<and> Tail l \<notin> S \<and> pool_free st (S - set xs)"

definition can_link :: "nat set \<Rightarrow> Links \<Rightarrow> nat \<Rightarrow> bool" where
  "can_link S st n \<longleftrightarrow> n \<in> S \<and> \<not> IsLinked n st"

definition link_back :: "ListEnds \<Rightarrow> Links \<Rightarrow> nat \<Rightarrow> Links \<times> bool" where
  "link_back l st n = (LinkAtBack l n st, True)"

definition extract_first :: "ListEnds \<Rightarrow> Links \<Rightarrow> Links \<times> nat option" where
  "extract_first l st = (case ExtractFirstNode l st of (st, n) \<Rightarrow> (st, if n = 0 then None else Some n))"

lemma linked_next:
  assumes "dll l st xs" "n \<in> set xs"
  shows "IsLinked n st"
proof -
  obtain us vs where xs: "xs = us @ n # vs" using assms(2) by (meson split_list)
  with assms(1) have l: "linked st n vs (Tail l)" "0 \<notin> set (vs @ [Tail l])"
    by (auto simp: dll_def linked_append)
  have "hd (vs @ [Tail l]) \<noteq> 0"
    by (rule mem_nonzero [OF hd_in_set l(2)]) simp
  with linked_hd(1) [OF l(1)] show ?thesis
    by (simp add: IsLinked_def)
qed

lemma node_queue_link:
  assumes "node_queue l S st xs" "can_link S st n"
  shows "node_queue l S (LinkAtBack l n st) (xs @ [n])"
proof -
  from assms have "n \<in> S" "0 \<notin> S" "Head l \<notin> S" "Tail l \<notin> S" "n \<notin> set xs"
    using linked_next [of l st xs n] unfolding node_queue_def can_link_def by blast+
  then have n: "n \<in> S" "n \<notin> set xs" "n \<noteq> 0" "n \<notin> set (Head l # xs @ [Tail l])"
    by (metis, simp, metis, auto)
  then have f: "free_node st n" and d: "dll l st xs"
    using assms(1) by (auto simp: node_queue_def pool_free_def)
  have "pool_free (LinkAtBack l n st) (S - set (xs @ [n]))"
    using assms(1) dll_link_back(2) [OF d f n(3,4)]
    by (auto simp: node_queue_def pool_free_def)
  with dll_link_back(1) [OF d f n(3,4)] assms(1) n(1) show ?thesis
    by (simp add: node_queue_def)
qed

lemma node_queue_unlink:
  assumes "node_queue l S st (xs @ n # ys)"
  shows "node_queue l S (Unlink n st) (xs @ ys)"
proof -
  have d: "dll l st (xs @ n # ys)" using assms by (simp add: node_queue_def)
  have "free_node (Unlink n st) m" if "m \<in> S - set (xs @ ys)" for m
  proof (cases "m = n")
    case True
    then show ?thesis using dll_unlink(2) [OF d] by simp
  next
    case False
    with that assms have "free_node st m" "m \<notin> set (Head l # xs @ n # ys @ [Tail l])"
      by (auto simp: node_queue_def pool_free_def)
    then show ?thesis by (rule dll_unlink(3) [OF d])
  qed
  with dll_unlink(1) [OF d] assms show ?thesis
    by (auto simp: node_queue_def pool_free_def)
qed

interpretation dq: fifo "node_queue l S" "can_link S" "link_back l" "extract_first l" for l S
proof
  show "node_queue l S s' (if ok then xs @ [a] else xs)"
    if "node_queue l S s xs" "can_link S s a" "link_back l s a = (s', ok)" for s xs a s' ok
    using that node_queue_link by (auto simp: link_back_def)
  show "case xs of [] \<Rightarrow> r = None \<and> node_queue l S s' [] | x # ys \<Rightarrow> r = Some x \<and> node_queue l S s' ys"
    if q: "node_queue l S s xs" "extract_first l s = (s', r)" for s xs s' r
  proof (cases xs)
    case Nil
    with q dll_extract_first [of l s xs] show ?thesis
      by (auto simp: node_queue_def extract_first_def)
  next
    case (Cons x ys)
    then have "x \<noteq> 0" "dll l s xs" using q(1) by (auto simp: node_queue_def dll_def)
    with Cons q dll_extract_first [of l s xs] node_queue_unlink [of l S s "[]" x ys] show ?thesis
      by (auto simp: extract_first_def)
  qed
qed

section \<open>A family of lists\<close>

text \<open>
  Several lists live in the same links: \<open>S\<close> gives the sequence of every list of \<open>Ls\<close>. A node is
  on one list at most, and a node on none has null links. \<open>lists_but\<close> leaves one node out of
  that last condition: \<^verbatim>\<open>RemoveFromList\<close> takes a node out and leaves its own links as they were.
\<close>

definition list_nodes :: "(ListEnds \<Rightarrow> nat list) \<Rightarrow> ListEnds \<Rightarrow> nat set" where
  "list_nodes S l = set (Head l # S l @ [Tail l])"

definition lists_but :: "nat set \<Rightarrow> ListEnds set \<Rightarrow> Links \<Rightarrow> (ListEnds \<Rightarrow> nat list) \<Rightarrow> bool" where
  "lists_but X Ls st S \<longleftrightarrow>
     (\<forall>l\<in>Ls. dll l st (S l)) \<and>
     (\<forall>l\<in>Ls. \<forall>k\<in>Ls. l \<noteq> k \<longrightarrow> list_nodes S l \<inter> list_nodes S k = {}) \<and>
     (\<forall>n. n \<notin> X \<longrightarrow> (\<forall>l\<in>Ls. n \<notin> list_nodes S l) \<longrightarrow> free_node st n)"

abbreviation lists_rep :: "ListEnds set \<Rightarrow> Links \<Rightarrow> (ListEnds \<Rightarrow> nat list) \<Rightarrow> bool" where
  "lists_rep \<equiv> lists_but {}"

definition is_end :: "ListEnds set \<Rightarrow> nat \<Rightarrow> bool" where
  "is_end Ls n \<longleftrightarrow> (\<exists>l\<in>Ls. n = Head l \<or> n = Tail l)"

text \<open>The operations on the sequences.\<close>

definition place_before :: "nat \<Rightarrow> nat \<Rightarrow> nat \<Rightarrow> nat list \<Rightarrow> nat list" where
  "place_before y x t xs =
     (if y \<in> set (xs @ [t]) then takeWhile (\<lambda>z. z \<noteq> y) xs @ x # dropWhile (\<lambda>z. z \<noteq> y) xs else xs)"

definition place_after :: "nat \<Rightarrow> nat \<Rightarrow> nat \<Rightarrow> nat list \<Rightarrow> nat list" where
  "place_after y x h xs =
     (if y = h then x # xs
      else if y \<in> set xs then takeWhile (\<lambda>z. z \<noteq> y) xs @ y # x # tl (dropWhile (\<lambda>z. z \<noteq> y) xs) else xs)"

datatype list_op =
    Insert_before nat nat
  | Insert_after nat nat
  | Unlink_of nat
  | Extract_first ListEnds
  | Extract_last ListEnds
  | Count nat ListEnds

fun list_op_ok :: "ListEnds set \<Rightarrow> (ListEnds \<Rightarrow> nat list) \<Rightarrow> list_op \<Rightarrow> bool" where
  "list_op_ok Ls S (Insert_before y x) \<longleftrightarrow> \<not> is_end Ls x \<and> (y = 0 \<or> (\<exists>l\<in>Ls. y \<in> set (S l @ [Tail l])))"
| "list_op_ok Ls S (Insert_after y x) \<longleftrightarrow> \<not> is_end Ls x \<and> (y = 0 \<or> (\<exists>l\<in>Ls. y \<in> set (Head l # S l)))"
| "list_op_ok Ls S (Unlink_of x) \<longleftrightarrow> x \<noteq> 0 \<and> \<not> is_end Ls x"
| "list_op_ok Ls S (Extract_first l) \<longleftrightarrow> l \<in> Ls"
| "list_op_ok Ls S (Extract_last l) \<longleftrightarrow> l \<in> Ls"
| "list_op_ok Ls S (Count fuel l) \<longleftrightarrow> l \<in> Ls \<and> length (S l) < fuel"

fun list_spec :: "list_op \<Rightarrow> (ListEnds \<Rightarrow> nat list) \<Rightarrow> (ListEnds \<Rightarrow> nat list) \<times> nat option" where
  "list_spec (Insert_before y x) S =
     (if y = 0 \<or> x = 0 \<or> y = x then S else (\<lambda>l. place_before y x (Tail l) (remove1 x (S l))), None)"
| "list_spec (Insert_after y x) S =
     (if y = 0 \<or> x = 0 \<or> y = x then S else (\<lambda>l. place_after y x (Head l) (remove1 x (S l))), None)"
| "list_spec (Unlink_of x) S = (\<lambda>l. remove1 x (S l), None)"
| "list_spec (Extract_first l) S = (S(l := tl (S l)), Some (if S l = [] then 0 else hd (S l)))"
| "list_spec (Extract_last l) S = (S(l := butlast (S l)), Some (if S l = [] then 0 else last (S l)))"
| "list_spec (Count fuel l) S = (S, Some (length (S l)))"

text \<open>The operations on the links, with their answers.\<close>

fun list_exec :: "list_op \<Rightarrow> Links \<Rightarrow> Links \<times> nat option" where
  "list_exec (Insert_before y x) st = (InsertBeforeNode y x st, None)"
| "list_exec (Insert_after y x) st = (InsertAfterNode y x st, None)"
| "list_exec (Unlink_of x) st = (Unlink x st, None)"
| "list_exec (Extract_first l) st = (case ExtractFirstNode l st of (st', n) \<Rightarrow> (st', Some n))"
| "list_exec (Extract_last l) st = (case ExtractLastNode l st of (st', n) \<Rightarrow> (st', Some n))"
| "list_exec (Count fuel l) st = (st, NumOfNodes fuel l st)"

fun ops_ok :: "ListEnds set \<Rightarrow> list_op list \<Rightarrow> (ListEnds \<Rightarrow> nat list) \<Rightarrow> bool" where
  "ops_ok Ls [] S \<longleftrightarrow> True"
| "ops_ok Ls (op # ops) S \<longleftrightarrow> list_op_ok Ls S op \<and> ops_ok Ls ops (fst (list_spec op S))"

fun run_spec :: "list_op list \<Rightarrow> (ListEnds \<Rightarrow> nat list) \<Rightarrow> (ListEnds \<Rightarrow> nat list) \<times> nat option list" where
  "run_spec [] S = (S, [])"
| "run_spec (op # ops) S = (case list_spec op S of (S', a) \<Rightarrow> case run_spec ops S' of (S'', as) \<Rightarrow> (S'', a # as))"

fun run_exec :: "list_op list \<Rightarrow> Links \<Rightarrow> Links \<times> nat option list" where
  "run_exec [] st = (st, [])"
| "run_exec (op # ops) st = (case list_exec op st of (st', a) \<Rightarrow> case run_exec ops st' of (st'', as) \<Rightarrow> (st'', a # as))"

lemma lists_cong: "(\<And>l. l \<in> Ls \<Longrightarrow> S l = S' l) \<Longrightarrow> lists_but X Ls st S \<longleftrightarrow> lists_but X Ls st S'"
  by (simp add: lists_but_def list_nodes_def)

lemma lists_dll: "lists_but X Ls st S \<Longrightarrow> l \<in> Ls \<Longrightarrow> dll l st (S l)"
  by (simp add: lists_but_def)

lemma dll_parts:
  assumes "dll l st (xs @ ys)"
  shows "linked st (Head l) (xs @ ys) (Tail l)" "distinct (Head l # xs @ ys @ [Tail l])"
    "0 \<notin> set (Head l # xs @ ys @ [Tail l])" "m_prevNode st (Head l) = 0" "m_nextNode st (Tail l) = 0"
    "last (Head l # xs) \<in> set (Head l # xs)" "hd (ys @ [Tail l]) \<in> set (ys @ [Tail l])"
    "m_prevNode st (hd (ys @ [Tail l])) = last (Head l # xs)"
    "m_nextNode st (last (Head l # xs)) = hd (ys @ [Tail l])"
proof -
  show l: "linked st (Head l) (xs @ ys) (Tail l)" "distinct (Head l # xs @ ys @ [Tail l])"
    "0 \<notin> set (Head l # xs @ ys @ [Tail l])" "m_prevNode st (Head l) = 0" "m_nextNode st (Tail l) = 0"
    using assms by (auto simp: dll_def)
  show "last (Head l # xs) \<in> set (Head l # xs)" "hd (ys @ [Tail l]) \<in> set (ys @ [Tail l])"
    by (rule last_in_set; simp) (rule hd_in_set; simp)
  have "linked st (Head l) xs (hd (ys @ [Tail l]))" using l(1) by (simp add: linked_split)
  from linked_last [OF this]
  show "m_prevNode st (hd (ys @ [Tail l])) = last (Head l # xs)"
    "m_nextNode st (last (Head l # xs)) = hd (ys @ [Tail l])" by auto
qed

text \<open>Writes to the nodes of one list, which keep it a list, do not disturb the other lists.\<close>

lemma lists_update:
  assumes "lists_but X Ls st S" "l \<in> Ls" "dll l st' zs"
    and "\<And>m. m \<notin> list_nodes S l \<Longrightarrow> m \<notin> X \<Longrightarrow> m_nextNode st' m = m_nextNode st m \<and> m_prevNode st' m = m_prevNode st m"
    and "set zs \<subseteq> set (S l) \<union> X" "set (S l) \<subseteq> set zs \<union> Y" "\<And>k x. k \<in> Ls \<Longrightarrow> x \<in> X \<Longrightarrow> x \<notin> list_nodes S k"
    and "X \<subseteq> Y \<union> set zs"
  shows "lists_but Y Ls st' (S(l := zs))"
proof -
  have other: "dll k st' (S k)" if "k \<in> Ls" "k \<noteq> l" for k
  proof (rule dll_cong)
    show "dll k st (S k)" using assms(1) that by (simp add: lists_but_def)
    show "m_nextNode st' m = m_nextNode st m \<and> m_prevNode st' m = m_prevNode st m"
      if m: "m \<in> set (Head k # S k @ [Tail k])" for m
    proof (rule assms(4))
      have "list_nodes S k \<inter> list_nodes S l = {}"
        using assms(1,2) \<open>k \<in> Ls\<close> \<open>k \<noteq> l\<close> unfolding lists_but_def by metis
      with m show "m \<notin> list_nodes S l" by (auto simp: list_nodes_def)
      show "m \<notin> X" using assms(7) [OF \<open>k \<in> Ls\<close>] m by (auto simp: list_nodes_def)
    qed
  qed
  have sub: "list_nodes (S(l := zs)) k \<subseteq> list_nodes S k \<union> (if k = l then X else {})" for k
    using assms(5) by (auto simp: list_nodes_def)
  have "list_nodes (S(l := zs)) i \<inter> list_nodes (S(l := zs)) k = {}" if "i \<in> Ls" "k \<in> Ls" "i \<noteq> k" for i k
  proof -
    have "list_nodes S i \<inter> list_nodes S k = {}" using assms(1) that unfolding lists_but_def by metis
    moreover have "X \<inter> list_nodes S i = {}" "X \<inter> list_nodes S k = {}"
      using assms(7) that(1,2) by blast+
    ultimately show ?thesis
      using sub [of i] sub [of k] that(3) by (cases "i = l"; cases "k = l"; simp) blast+
  qed
  moreover have "free_node st' n" if n: "n \<notin> Y" "\<forall>k\<in>Ls. n \<notin> list_nodes (S(l := zs)) k" for n
  proof -
    have nl: "n \<notin> list_nodes (S(l := zs)) l" using n(2) assms(2) by blast
    then have a: "n \<notin> list_nodes S l" using n(1) assms(6) by (auto simp: list_nodes_def)
    have b: "n \<notin> X" using assms(8) n(1) nl by (auto simp: list_nodes_def)
    have "n \<notin> list_nodes S k" if "k \<in> Ls" for k
      by (cases "k = l") (use a n(2) that in \<open>auto simp: list_nodes_def\<close>)
    with assms(1) b have "free_node st n" by (simp add: lists_but_def)
    with a b show ?thesis using assms(4) [of n] by (simp add: free_node_def)
  qed
  ultimately show ?thesis
    using other assms(3) unfolding lists_but_def by simp
qed

lemma dll_remove:
  assumes "dll l st (xs @ n # ys)"
  shows "dll l (RemoveFromList n st) (xs @ ys)"
    and "m \<notin> set (Head l # xs @ ys @ [Tail l]) \<Longrightarrow>
      m_nextNode (RemoveFromList n st) m = m_nextNode st m \<and> m_prevNode (RemoveFromList n st) m = m_prevNode st m"
proof -
  let ?l = "last (Head l # xs)" and ?r = "hd (ys @ [Tail l])"
  note p = dll_parts [OF assms]
  have p': "m_nextNode st n = ?r" "m_prevNode st n = ?l" "?r \<in> set (ys @ [Tail l])"
    using dll_parts(7-9) [of l st "xs @ [n]" ys] dll_parts(8) [of l st xs "n # ys"] assms by simp_all
  have nz: "?l \<noteq> 0"
    by (rule mem_nonzero [OF p(6)]) (use p(3) in auto)
  have nz': "?r \<noteq> 0"
    by (rule mem_nonzero [OF p'(3)]) (use p(3) in auto)
  have eq: "RemoveFromList n st = set_prev ?r ?l (set_next ?l ?r st)"
    by (simp add: RemoveFromList_def Let_def p' nz nz' del: last.simps)
  have "linked (RemoveFromList n st) (Head l) (xs @ ys) (Tail l)"
    by (rule linked_remove) (use p(1-3) in auto)
  moreover have "m_prevNode (RemoveFromList n st) (Head l) = 0" "m_nextNode (RemoveFromList n st) (Tail l) = 0"
    using p(2,4-6) p'(3) unfolding eq by auto
  ultimately show "dll l (RemoveFromList n st) (xs @ ys)"
    using p(2,3) by (auto simp: dll_def)
  show "m_nextNode (RemoveFromList n st) m = m_nextNode st m \<and> m_prevNode (RemoveFromList n st) m = m_prevNode st m"
    if "m \<notin> set (Head l # xs @ ys @ [Tail l])"
    using that p(6) p'(3) unfolding eq by auto
qed

lemma dll_weld:
  assumes "dll l st (xs @ ys)" "n \<noteq> 0" "n \<notin> set (Head l # xs @ ys @ [Tail l])"
  shows "dll l (Insert_node (last (Head l # xs)) (hd (ys @ [Tail l])) n st) (xs @ n # ys)"
    and "m \<notin> set (Head l # xs @ n # ys @ [Tail l]) \<Longrightarrow>
      m_nextNode (Insert_node (last (Head l # xs)) (hd (ys @ [Tail l])) n st) m = m_nextNode st m \<and>
      m_prevNode (Insert_node (last (Head l # xs)) (hd (ys @ [Tail l])) n st) m = m_prevNode st m"
proof -
  let ?l = "last (Head l # xs)" and ?r = "hd (ys @ [Tail l])"
  let ?st = "Insert_node ?l ?r n st"
  note p = dll_parts [OF assms(1)]
  have "linked ?st (Head l) (xs @ n # ys) (Tail l)"
    by (rule linked_weld [OF p(1,2) assms(3)])
  moreover have "m_prevNode ?st (Head l) = 0" "m_nextNode ?st (Tail l) = 0"
    using p(2,4-7) assms(3) by (auto simp: Insert_node_def)
  ultimately show "dll l ?st (xs @ n # ys)"
    using p(2,3) assms(2,3) by (auto simp: dll_def)
  show "m_nextNode ?st m = m_nextNode st m \<and> m_prevNode ?st m = m_prevNode st m"
    if "m \<notin> set (Head l # xs @ n # ys @ [Tail l])"
    using that p(6,7) by (auto simp: Insert_node_def)
qed

text \<open>Taking a node out of whatever list it is on, and the two ways to complete it.\<close>

lemma remove1_absent: "x \<notin> set xs \<Longrightarrow> remove1 x xs = xs"
  by (rule remove1_idem)

lemma lists_remove:
  assumes r: "lists_rep Ls st S" and x: "\<not> is_end Ls x"
  shows "lists_but {x} Ls (RemoveFromList x st) (\<lambda>l. remove1 x (S l))"
    and "l \<in> Ls \<Longrightarrow> x \<notin> list_nodes (\<lambda>l. remove1 x (S l)) l"
proof -
  show gone: "x \<notin> list_nodes (\<lambda>l. remove1 x (S l)) l" if "l \<in> Ls" for l
    using x that lists_dll [OF r that] by (auto simp: list_nodes_def is_end_def dll_def)
  show "lists_but {x} Ls (RemoveFromList x st) (\<lambda>l. remove1 x (S l))"
  proof (cases "\<exists>l\<in>Ls. x \<in> set (S l)")
    case False
    then have "free_node st x"
      using r x by (auto simp: lists_but_def list_nodes_def is_end_def)
    then have "RemoveFromList x st = st" by (rule RemoveFromList_free)
    moreover have "lists_but {x} Ls st S" using r by (auto simp: lists_but_def)
    ultimately show ?thesis
      using lists_cong [of Ls S "\<lambda>l. remove1 x (S l)"] False by (simp add: remove1_idem)
  next
    case True
    then obtain l us vs where l: "l \<in> Ls" "S l = us @ x # vs" by (metis split_list)
    have d: "dll l st (us @ x # vs)" using lists_dll [OF r l(1)] l(2) by simp
    have nu: "x \<notin> set us" using d by (auto simp: dll_def)
    have other: "remove1 x (S k) = S k" if "k \<in> Ls" "k \<noteq> l" for k
    proof (rule remove1_idem)
      have "list_nodes S k \<inter> list_nodes S l = {}" using r that l(1) by (simp add: lists_but_def)
      then show "x \<notin> set (S k)" using l(2) by (auto simp: list_nodes_def)
    qed
    have "lists_but {x} Ls (RemoveFromList x st) (S(l := us @ vs))"
      by (rule lists_update [OF r l(1) dll_remove(1) [OF d]])
        (use dll_remove(2) [OF d] l(2) in \<open>auto simp: list_nodes_def\<close>)
    then show ?thesis
      using lists_cong [of Ls "S(l := us @ vs)" "\<lambda>l. remove1 x (S l)"] other l(2) nu
      by (simp add: remove1_append)
  qed
qed

lemma lists_weld:
  assumes "lists_but {x} Ls st S" "\<And>k. k \<in> Ls \<Longrightarrow> x \<notin> list_nodes S k" "x \<noteq> 0" "l \<in> Ls" "S l = xs @ ys"
  shows "lists_rep Ls (Insert_node (last (Head l # xs)) (hd (ys @ [Tail l])) x st) (S(l := xs @ x # ys))"
proof (rule lists_update [OF assms(1,4)])
  have d: "dll l st (xs @ ys)" using lists_dll [OF assms(1,4)] assms(5) by simp
  have n: "x \<notin> set (Head l # xs @ ys @ [Tail l])"
    using assms(2) [OF assms(4)] assms(5) by (simp add: list_nodes_def)
  note w = dll_weld [OF d assms(3) n]
  show "dll l (Insert_node (last (Head l # xs)) (hd (ys @ [Tail l])) x st) (xs @ x # ys)" by (rule w(1))
  show "m_nextNode (Insert_node (last (Head l # xs)) (hd (ys @ [Tail l])) x st) m = m_nextNode st m \<and>
      m_prevNode (Insert_node (last (Head l # xs)) (hd (ys @ [Tail l])) x st) m = m_prevNode st m"
    if "m \<notin> list_nodes S l" "m \<notin> {x}" for m
    by (rule w(2)) (use that assms(5) in \<open>auto simp: list_nodes_def\<close>)
qed (use assms in auto)

lemma lists_reset:
  assumes "lists_but {x} Ls st S" "\<And>k. k \<in> Ls \<Longrightarrow> x \<notin> list_nodes S k"
  shows "lists_rep Ls (Node_Initialize x st) S"
proof -
  have "dll k (Node_Initialize x st) (S k)" if "k \<in> Ls" for k
    by (rule dll_cong [OF lists_dll [OF assms(1) that]])
      (use assms(2) [OF that] in \<open>auto simp: list_nodes_def Node_Initialize_def\<close>)
  moreover have "free_node (Node_Initialize x st) n" if "\<forall>k\<in>Ls. n \<notin> list_nodes S k" for n
    using assms(1) that by (auto simp: lists_but_def free_node_def Node_Initialize_def)
  ultimately show ?thesis using assms(1) by (simp add: lists_but_def)
qed

lemma lists_unlink:
  "lists_rep Ls st S \<Longrightarrow> \<not> is_end Ls x \<Longrightarrow> lists_rep Ls (Unlink x st) (\<lambda>l. remove1 x (S l))"
  unfolding Unlink_def by (rule lists_reset [OF lists_remove(1)]) (auto dest: lists_remove(2))

text \<open>Where a node stands in its sequence.\<close>

lemma all_other:
  "y \<notin> set xs \<Longrightarrow> takeWhile (\<lambda>z. z \<noteq> y) xs = xs" "y \<notin> set xs \<Longrightarrow> dropWhile (\<lambda>z. z \<noteq> y) xs = []"
  by (induction xs) auto

lemma place_before_split:
  "y \<notin> set us \<Longrightarrow> us @ vs = xs \<Longrightarrow> hd (vs @ [t]) = y \<Longrightarrow> t \<notin> set xs \<Longrightarrow>
    place_before y x t xs = us @ x # vs"
  by (cases vs) (auto simp: place_before_def dropWhile_append takeWhile_append2 all_other)

lemma place_after_split:
  "y \<notin> set us \<Longrightarrow> y \<noteq> h \<Longrightarrow> us @ y # vs = xs \<Longrightarrow> place_after y x h xs = us @ y # x # vs"
  by (auto simp: place_after_def dropWhile_append takeWhile_append2)

lemma at_or_end:
  assumes "y \<in> set (xs @ [t])"
  shows "\<exists>us vs. xs = us @ vs \<and> hd (vs @ [t]) = y \<and> y \<notin> set us"
proof (cases "y \<in> set xs")
  case True
  then obtain us vs where "xs = us @ y # vs" "y \<notin> set us" by (meson split_list_first)
  then show ?thesis by (intro exI [of _ us] exI [of _ "y # vs"]) simp
next
  case False
  with assms show ?thesis by (intro exI [of _ xs] exI [of _ "[]"]) simp
qed

lemma at_or_head:
  assumes "y \<in> set (h # xs)" "h \<notin> set xs" "distinct xs"
  shows "\<exists>us vs. xs = us @ vs \<and> last (h # us) = y \<and> place_after y x h xs = us @ x # vs"
proof (cases "y \<in> set xs")
  case True
  then obtain us vs where xs: "xs = us @ y # vs" "y \<notin> set us" by (meson split_list_first)
  moreover have "y \<noteq> h" using True assms(2) by auto
  ultimately have "place_after y x h xs = (us @ [y]) @ x # vs" by (simp add: place_after_split)
  with xs show ?thesis by (intro exI [of _ "us @ [y]"] exI [of _ vs]) simp
next
  case False
  with assms show ?thesis by (intro exI [of _ "[]"] exI [of _ xs]) (simp add: place_after_def)
qed

lemma elsewhere:
  assumes "lists_but X Ls st S" "l \<in> Ls" "k \<in> Ls" "k \<noteq> l" "y \<in> list_nodes S l"
  shows "y \<notin> list_nodes S k"
  using assms unfolding lists_but_def by (metis IntI empty_iff)

lemma remove1_keeps: "y \<noteq> x \<Longrightarrow> y \<in> list_nodes (\<lambda>l. remove1 x (S l)) l \<longleftrightarrow> y \<in> list_nodes S l"
  by (auto simp: list_nodes_def)

lemma lists_insert_before:
  assumes r: "lists_rep Ls st S" and x: "\<not> is_end Ls x" "x \<noteq> 0" "y \<noteq> x" and y: "y \<noteq> 0"
    and l: "l \<in> Ls" "y \<in> set (S l @ [Tail l])"
  shows "lists_rep Ls (InsertBeforeNode y x st) (\<lambda>l. place_before y x (Tail l) (remove1 x (S l)))"
proof -
  let ?S = "\<lambda>l. remove1 x (S l)" and ?st = "RemoveFromList x st"
  note b = lists_remove [OF r x(1)]
  have y': "y \<in> set (?S l @ [Tail l])" using l(2) x(3) by auto
  then obtain us vs where s: "?S l = us @ vs" "hd (vs @ [Tail l]) = y" "y \<notin> set us"
    using at_or_end by metis
  have d: "dll l ?st (us @ vs)" using lists_dll [OF b(1) l(1)] s(1) by simp
  have eq: "InsertBeforeNode y x st = Insert_node (last (Head l # us)) (hd (vs @ [Tail l])) x ?st"
    using y x(2,3) dll_parts(8) [OF d] s(2) by (simp add: InsertBeforeNode_def Let_def del: last.simps)
  have p: "place_before y x (Tail l) (?S l) = us @ x # vs"
    by (rule place_before_split) (use s dll_parts(2) [OF d] in auto)
  have q: "place_before y x (Tail k) (?S k) = ?S k" if "k \<in> Ls" "k \<noteq> l" for k
  proof -
    have "y \<in> list_nodes ?S l" using y' by (auto simp: list_nodes_def)
    then have "y \<notin> list_nodes ?S k" by (rule elsewhere [OF b(1) l(1) that])
    then show ?thesis by (simp add: list_nodes_def place_before_def)
  qed
  have "lists_rep Ls (InsertBeforeNode y x st) (?S(l := us @ x # vs))"
    unfolding eq by (rule lists_weld [OF b(1) b(2) x(2) l(1)]) (use s(1) in auto)
  then show ?thesis
    using lists_cong [of Ls "?S(l := us @ x # vs)" "\<lambda>l. place_before y x (Tail l) (?S l)"] p q by simp
qed

lemma lists_insert_after:
  assumes r: "lists_rep Ls st S" and x: "\<not> is_end Ls x" "x \<noteq> 0" "y \<noteq> x" and y: "y \<noteq> 0"
    and l: "l \<in> Ls" "y \<in> set (Head l # S l)"
  shows "lists_rep Ls (InsertAfterNode y x st) (\<lambda>l. place_after y x (Head l) (remove1 x (S l)))"
proof -
  let ?S = "\<lambda>l. remove1 x (S l)" and ?st = "RemoveFromList x st"
  note b = lists_remove [OF r x(1)]
  have y': "y \<in> set (Head l # ?S l)" using l(2) x(3) by auto
  have "Head l \<notin> set (?S l)" "distinct (?S l)" using lists_dll [OF b(1) l(1)] by (auto simp: dll_def)
  then obtain us vs where s: "?S l = us @ vs" "last (Head l # us) = y"
      "place_after y x (Head l) (?S l) = us @ x # vs"
    using at_or_head [OF y'] by metis
  have d: "dll l ?st (us @ vs)" using lists_dll [OF b(1) l(1)] s(1) by simp
  have eq: "InsertAfterNode y x st = Insert_node (last (Head l # us)) (hd (vs @ [Tail l])) x ?st"
    using y x(2,3) dll_parts(9) [OF d] s(2) by (simp add: InsertAfterNode_def Let_def del: last.simps)
  have q: "place_after y x (Head k) (?S k) = ?S k" if "k \<in> Ls" "k \<noteq> l" for k
  proof -
    have "y \<in> list_nodes ?S l" using y' by (auto simp: list_nodes_def)
    then have "y \<notin> list_nodes ?S k" by (rule elsewhere [OF b(1) l(1) that])
    then show ?thesis by (simp add: list_nodes_def place_after_def)
  qed
  have "lists_rep Ls (InsertAfterNode y x st) (?S(l := us @ x # vs))"
    unfolding eq by (rule lists_weld [OF b(1) b(2) x(2) l(1)]) (use s(1) in auto)
  then show ?thesis
    using lists_cong [of Ls "?S(l := us @ x # vs)" "\<lambda>l. place_after y x (Head l) (?S l)"] s(3) q by simp
qed

text \<open>A node taken from one list is on no other.\<close>

lemma lists_unlink_one:
  assumes r: "lists_rep Ls st S" and l: "l \<in> Ls" "S l = us @ x # vs"
  shows "lists_rep Ls (Unlink x st) (S(l := us @ vs))"
proof -
  have d: "dll l st (us @ x # vs)" using lists_dll [OF r l(1)] l(2) by simp
  have xl: "x \<in> list_nodes S l" using l(2) by (simp add: list_nodes_def)
  have other: "x \<notin> list_nodes S k" if "k \<in> Ls" "k \<noteq> l" for k
    by (rule elsewhere [OF r l(1) that xl])
  then have e: "\<not> is_end Ls x"
    using d by (auto simp: is_end_def dll_def list_nodes_def)
  have "x \<notin> set us" using d by (auto simp: dll_def)
  then have "lists_rep Ls (Unlink x st) (\<lambda>l. remove1 x (S l)) \<longleftrightarrow> lists_rep Ls (Unlink x st) (S(l := us @ vs))"
    by (intro lists_cong) (use other l(2) in \<open>auto simp: remove1_append remove1_idem list_nodes_def\<close>)
  with lists_unlink [OF r e] show ?thesis by simp
qed

lemma list_step:
  assumes r: "lists_rep Ls st S" and ok: "list_op_ok Ls S op"
  shows "lists_rep Ls (fst (list_exec op st)) (fst (list_spec op S)) \<and> snd (list_exec op st) = snd (list_spec op S)"
proof (cases op)
  case (Insert_before y x)
  show ?thesis
  proof (cases "y = 0 \<or> x = 0 \<or> y = x")
    case True
    with Insert_before r show ?thesis by (auto simp: InsertBeforeNode_def)
  next
    case False
    with Insert_before ok obtain l where "l \<in> Ls" "y \<in> set (S l @ [Tail l])" "\<not> is_end Ls x" by auto
    with False lists_insert_before [OF r] Insert_before show ?thesis by simp
  qed
next
  case (Insert_after y x)
  show ?thesis
  proof (cases "y = 0 \<or> x = 0 \<or> y = x")
    case True
    with Insert_after r show ?thesis by (auto simp: InsertAfterNode_def)
  next
    case False
    with Insert_after ok obtain l where "l \<in> Ls" "y \<in> set (Head l # S l)" "\<not> is_end Ls x" by auto
    with False lists_insert_after [OF r] Insert_after show ?thesis by simp
  qed
next
  case (Unlink_of x)
  with ok lists_unlink [OF r] show ?thesis by simp
next
  case (Extract_first l)
  then have l: "l \<in> Ls" using ok by simp
  show ?thesis
  proof (cases "S l")
    case Nil
    then have "S(l := tl (S l)) = S" by (simp add: fun_upd_idem)
    with Nil Extract_first r dll_extract_first [OF lists_dll [OF r l]] show ?thesis by simp
  next
    case (Cons x vs)
    with Extract_first lists_unlink_one [OF r l, of "[]" x vs] dll_extract_first [OF lists_dll [OF r l]]
    show ?thesis by simp
  qed
next
  case (Extract_last l)
  then have l: "l \<in> Ls" using ok by simp
  show ?thesis
  proof (cases "S l" rule: rev_cases)
    case Nil
    then have "dll l st []" using lists_dll [OF r l] by simp
    then have "LastValidNode l st = 0" by (simp add: LastValidNode_def LastNode_def dll_def)
    moreover have "S(l := butlast (S l)) = S" using Nil by (simp add: fun_upd_idem)
    ultimately show ?thesis using Nil Extract_last r by (simp add: ExtractLastNode_def)
  next
    case (snoc us x)
    with Extract_last lists_unlink_one [OF r l, of us x "[]"] dll_extract_last [of l st us x] lists_dll [OF r l]
    show ?thesis by simp
  qed
next
  case (Count fuel l)
  then have l: "l \<in> Ls" "length (S l) < fuel" using ok by auto
  have d: "dll l st (S l)" by (rule lists_dll [OF r l(1)])
  then have "count_from fuel (hd (S l @ [Tail l])) st = Some (length (S l))"
    by (intro dll_count [of _ "Head l" _ "Tail l"]) (use l(2) in \<open>auto simp: dll_def\<close>)
  with Count r dll_first(1) [OF d] show ?thesis by (simp add: NumOfNodes_def)
qed

lemma lists_initialize:
  assumes "lists_rep Ls st S" "Head l \<noteq> 0" "Tail l \<noteq> 0" "Head l \<noteq> Tail l" "l \<notin> Ls"
    "\<forall>k\<in>Ls. Head l \<notin> list_nodes S k \<and> Tail l \<notin> list_nodes S k"
  shows "lists_rep (insert l Ls) (List_Initialize l st) (S(l := []))"
proof -
  have eq: "m_nextNode (List_Initialize l st) n = m_nextNode st n"
    "m_prevNode (List_Initialize l st) n = m_prevNode st n" if "n \<noteq> Head l" "n \<noteq> Tail l" for n
    using that by (auto simp: List_Initialize_def)
  have "dll k (List_Initialize l st) (S k)" if k: "k \<in> Ls" for k
  proof (rule dll_cong [OF lists_dll [OF assms(1) k]])
    fix m assume "m \<in> set (Head k # S k @ [Tail k])"
    then have "m \<noteq> Head l" "m \<noteq> Tail l" using assms(6) k unfolding list_nodes_def by metis+
    with eq show "m_nextNode (List_Initialize l st) m = m_nextNode st m \<and>
      m_prevNode (List_Initialize l st) m = m_prevNode st m" by blast
  qed
  moreover have "dll l (List_Initialize l st) []" by (rule dll_initialize(1) [OF assms(2-4)])
  moreover have nodes: "list_nodes (S(l := [])) k = (if k = l then {Head l, Tail l} else list_nodes S k)" for k
    by (simp add: list_nodes_def)
  moreover have "free_node (List_Initialize l st) n"
    if "\<forall>k\<in>insert l Ls. n \<notin> list_nodes (S(l := [])) k" for n
  proof -
    have "n \<noteq> Head l" "n \<noteq> Tail l" "\<forall>k\<in>Ls. n \<notin> list_nodes S k"
      using that assms(5) unfolding nodes by (auto split: if_splits)
    with assms(1) eq show ?thesis by (simp add: lists_but_def free_node_def)
  qed
  ultimately show ?thesis
    using assms(1,5,6) unfolding lists_but_def by auto
qed

section \<open>Properties\<close>

text \<open>
  C23: The links behave as the sequences of the nodes. Over any sequence of operations on any
  number of lists with nodes in common - a node inserted before or after a node of a list (or
  at its end), wherever the node was before: on no list, elsewhere on the same list or on
  another, which it leaves; any node unlinked; the first or the last node extracted; the nodes
  counted - the links stay those of the lists computed on the sequences, every node on one list
  at most and the links of the others null, and every answer is the one computed on the
  sequences. A node is inserted next to one that is on a list, the end nodes are not moved, and
  the fuel of a count exceeds the length of its list (the loop of the code has no bound).
\<close>

theorem links_refine_sequence:
  assumes "lists_rep Ls st S" "ops_ok Ls ops S"
  shows "lists_rep Ls (fst (run_exec ops st)) (fst (run_spec ops S)) \<and>
    snd (run_exec ops st) = snd (run_spec ops S)"
  using assms
proof (induction ops arbitrary: st S)
  case (Cons op ops)
  from list_step [OF Cons.prems(1), of op] Cons.prems(2)
  have s: "lists_rep Ls (fst (list_exec op st)) (fst (list_spec op S))"
    "snd (list_exec op st) = snd (list_spec op S)" by auto
  with Cons.IH [OF s(1)] Cons.prems(2) show ?case
    by (simp add: case_prod_beta)
qed simp

definition sample_ends :: ListEnds where
  "sample_ends = \<lparr>Head = 1, Tail = 2\<rparr>"

definition other_ends :: ListEnds where
  "other_ends = \<lparr>Head = 3, Tail = 4\<rparr>"

definition sample_links :: Links where
  "sample_links = List_Initialize other_ends
     (List_Initialize sample_ends \<lparr>m_nextNode = (\<lambda>_. 0), m_prevNode = (\<lambda>_. 0)\<rparr>)"

lemma sample_links_rep: "lists_rep {other_ends, sample_ends} sample_links (\<lambda>_. [])"
proof -
  let ?z = "\<lparr>m_nextNode = (\<lambda>_. 0), m_prevNode = (\<lambda>_. 0)\<rparr> :: Links"
  have "lists_rep {} ?z (\<lambda>_. [])" by (simp add: lists_but_def free_node_def)
  then have "lists_rep {sample_ends} (List_Initialize sample_ends ?z) ((\<lambda>_. [])(sample_ends := []))"
    by (rule lists_initialize) (auto simp: sample_ends_def)
  then have "lists_rep {sample_ends} (List_Initialize sample_ends ?z) (\<lambda>_. [])"
    by (simp add: fun_upd_idem)
  then have "lists_rep {other_ends, sample_ends} sample_links ((\<lambda>_. [])(other_ends := []))"
    unfolding sample_links_def
    by (rule lists_initialize) (auto simp: sample_ends_def other_ends_def list_nodes_def)
  then show ?thesis by (simp add: fun_upd_idem)
qed

definition sample_ops :: "list_op list" where
  "sample_ops = [Insert_before 2 7, Insert_after 1 8, Insert_before 8 9, Insert_before 8 7,
     Insert_after 3 9, Unlink_of 5, Count 3 sample_ends, Extract_last sample_ends, Extract_first other_ends]"

theorem links_refine_sequence_witness:
  "lists_rep {other_ends, sample_ends} (fst (run_exec sample_ops sample_links))
     (fst (run_spec sample_ops (\<lambda>_. []))) \<and>
   fst (run_spec sample_ops (\<lambda>_. [])) sample_ends = [7] \<and>
   snd (run_exec sample_ops sample_links) =
     [None, None, None, None, None, None, Some 2, Some 8, Some 9]"
proof -
  have "ops_ok {other_ends, sample_ends} sample_ops (\<lambda>_. [])"
    by (simp add: sample_ops_def sample_ends_def other_ends_def is_end_def place_before_def place_after_def)
  from links_refine_sequence [OF sample_links_rep this] show ?thesis
    by (simp add: sample_ops_def sample_ends_def other_ends_def place_before_def place_after_def)
qed

end
