(* ===== verification/Completions.thy ===== *)
theory Completions imports DblLinkedList "HOL-Library.Multiset" begin

text \<open>
  Deferred and timed calls: \<^verbatim>\<open>HAL_CONTINUATION\<close> and \<^verbatim>\<open>HAL_COMPLETION\<close> of
  \<^verbatim>\<open>src/DeviceCode/pal/AsyncProcCall\<close>. Both kinds of node live on intrusive lists; a completion
  has a deadline in ticks and the timer hardware one compare register. A callback is known by
  its node, the calls made are recorded in order. Each operation runs with the interrupts off
  (\<open>GLOBAL_LOCK\<close>) and is one step; what interrupts do while the processor sleeps is a
  parameter. The build is the release build: the debug assertions on the times (\<^verbatim>\<open>ASSERT\<close>) and the
  fields of \<^verbatim>\<open>_DEBUG\<close> are left out. The lemmas show that the completions are kept in the order of their deadlines,
  that the compare register holds the first deadline, and where sleeping loses it.
\<close>

section \<open>State\<close>

record Async =
  links :: Links
  EventTimeTicks :: "nat \<Rightarrow> u64"
  ExecuteInISR :: "nat \<Rightarrow> bool"
  EntryPoint :: "nat \<Rightarrow> nat"
  compare_reg :: u64
  timer_event :: bool
  executed :: "nat list"

definition g_HAL_Completion_List :: ListEnds where
  "g_HAL_Completion_List = \<lparr>Head = 1, Tail = 2\<rparr>"

definition g_HAL_Continuation_List :: ListEnds where
  "g_HAL_Continuation_List = \<lparr>Head = 3, Tail = 4\<rparr>"

definition HAL_Completion_IdleValue :: u64 where
  "HAL_Completion_IdleValue = 0x0000FFFFFFFFFFFF"

definition HAL_Time_SetCompare :: "u64 \<Rightarrow> Async \<Rightarrow> Async" where
  "HAL_Time_SetCompare t st = st\<lparr>compare_reg := t\<rparr>"

section \<open>Continuations\<close>


definition CONTINUATION_InitializeList :: "Async \<Rightarrow> Async" where
  "CONTINUATION_InitializeList st = st\<lparr>links := List_Initialize g_HAL_Continuation_List (links st)\<rparr>"

definition InitializeCallback :: "nat \<Rightarrow> nat \<Rightarrow> Async \<Rightarrow> Async" where
  "InitializeCallback n entry st =
     st\<lparr>links := Node_Initialize n (links st), EntryPoint := (EntryPoint st)(n := entry)\<rparr>"


definition CONTINUATION_Abort :: "nat \<Rightarrow> Async \<Rightarrow> Async" where
  "CONTINUATION_Abort n st = st\<lparr>links := Unlink n (links st)\<rparr>"


text \<open>Empty a list; \<open>None\<close> when the fuel runs out.\<close>

fun extract_all :: "nat \<Rightarrow> ListEnds \<Rightarrow> Links \<Rightarrow> Links option" where
  "extract_all 0 l ls = None"
| "extract_all (Suc fuel) l ls =
     (case ExtractFirstNode l ls of (ls, ptr) \<Rightarrow> if ptr = 0 then Some ls else extract_all fuel l ls)"

definition CONTINUATION_Uninitialize :: "nat \<Rightarrow> Async \<Rightarrow> Async option" where
  "CONTINUATION_Uninitialize fuel st =
     map_option (\<lambda>ls. st\<lparr>links := ls\<rparr>) (extract_all fuel g_HAL_Continuation_List (links st))"

section \<open>Completions\<close>

definition COMPLETION_InitializeList :: "Async \<Rightarrow> Async" where
  "COMPLETION_InitializeList st = st\<lparr>links := List_Initialize g_HAL_Completion_List (links st)\<rparr>"



text \<open>The search for the first node with a later deadline, or the end node.\<close>

fun find_later :: "nat \<Rightarrow> u64 \<Rightarrow> nat \<Rightarrow> Async \<Rightarrow> nat option" where
  "find_later 0 t ptr st = None"
| "find_later (Suc fuel) t ptr st =
     (let ptrNext = m_nextNode (links st) ptr in
      if ptrNext = 0 then Some ptr
      else if t < EventTimeTicks st ptr then Some ptr
      else find_later fuel t ptrNext st)"

definition EnqueueTicks :: "nat \<Rightarrow> nat \<Rightarrow> u64 \<Rightarrow> Async \<Rightarrow> Async option" where
  "EnqueueTicks fuel this t st =
     (let st = st\<lparr>EventTimeTicks := (EventTimeTicks st)(this := t)\<rparr> in
      case find_later fuel t (FirstNode g_HAL_Completion_List (links st)) st of
        None \<Rightarrow> None
      | Some ptr \<Rightarrow>
          (let st = st\<lparr>links := InsertBeforeNode ptr this (links st)\<rparr> in
           Some (if this = FirstNode g_HAL_Completion_List (links st)
                 then HAL_Time_SetCompare t st else st)))"

text \<open>\<open>now\<close> is the tick counter, \<open>to_ticks\<close> the conversion of the platform.\<close>

definition EnqueueDelta64 :: "nat \<Rightarrow> nat \<Rightarrow> u64 \<Rightarrow> (u64 \<Rightarrow> u64) \<Rightarrow> u64 \<Rightarrow> Async \<Rightarrow> Async option" where
  "EnqueueDelta64 fuel this now to_ticks uSecFromNow st =
     EnqueueTicks fuel this (now + to_ticks uSecFromNow) st"

definition EnqueueDelta :: "nat \<Rightarrow> nat \<Rightarrow> u64 \<Rightarrow> (u64 \<Rightarrow> u64) \<Rightarrow> u32 \<Rightarrow> Async \<Rightarrow> Async option" where
  "EnqueueDelta fuel this now to_ticks uSecFromNow st =
     EnqueueDelta64 fuel this now to_ticks (ucast uSecFromNow) st"

definition COMPLETION_Abort :: "nat \<Rightarrow> Async \<Rightarrow> Async" where
  "COMPLETION_Abort this st =
     (let firstNode = FirstNode g_HAL_Completion_List (links st);
          st = st\<lparr>links := Unlink this (links st)\<rparr>
      in if firstNode = this then
           HAL_Time_SetCompare
             (if IsEmpty g_HAL_Completion_List (links st) then HAL_Completion_IdleValue
              else EventTimeTicks st (FirstNode g_HAL_Completion_List (links st))) st
         else st)"

datatype wait_state = SetCompare_NilCompare | SetCompare_ResetCompare | KeepCompare

definition wait_state_of :: "u64 \<Rightarrow> Async \<Rightarrow> wait_state" where
  "wait_state_of Expire st =
     (let ptr = FirstNode g_HAL_Completion_List (links st) in
      if m_nextNode (links st) ptr = 0 then SetCompare_NilCompare
      else if EventTimeTicks st ptr > Expire then SetCompare_ResetCompare
      else KeepCompare)"

definition WaitForInterrupts :: "u64 \<Rightarrow> (Async \<Rightarrow> Async) \<Rightarrow> Async \<Rightarrow> Async" where
  "WaitForInterrupts Expire CPU_Sleep st =
     (let state = wait_state_of Expire st;
          st = (if state \<noteq> KeepCompare then HAL_Time_SetCompare Expire st else st);
          st = CPU_Sleep st
      in if state \<noteq> KeepCompare then
           (let ptr = FirstNode g_HAL_Completion_List (links st) in
            HAL_Time_SetCompare
              (if state = SetCompare_ResetCompare then EventTimeTicks st ptr else HAL_Completion_IdleValue) st)
         else st)"

definition COMPLETION_Uninitialize :: "nat \<Rightarrow> Async \<Rightarrow> Async option" where
  "COMPLETION_Uninitialize fuel st =
     map_option (\<lambda>ls. st\<lparr>links := ls\<rparr>) (extract_all fuel g_HAL_Completion_List (links st))"

section \<open>The two lists\<close>

abbreviation CL :: ListEnds where "CL \<equiv> g_HAL_Completion_List"
abbreviation CT :: ListEnds where "CT \<equiv> g_HAL_Continuation_List"

lemma ends [simp]: "Head CL = 1" "Tail CL = 2" "Head CT = 3" "Tail CT = 4"
  by (simp_all add: g_HAL_Completion_List_def g_HAL_Continuation_List_def)

definition two_lists :: "nat set \<Rightarrow> Links \<Rightarrow> nat list \<Rightarrow> nat list \<Rightarrow> bool" where
  "two_lists S ls cs ks \<longleftrightarrow>
     dll CL ls cs \<and> dll CT ls ks \<and> set cs \<inter> set ks = {} \<and> set cs \<union> set ks \<subseteq> S \<and>
     (\<forall>n\<in>S. 4 < n) \<and> pool_free ls (S - set cs - set ks)"

definition async_ok :: "nat set \<Rightarrow> Async \<Rightarrow> nat list \<Rightarrow> nat list \<Rightarrow> bool" where
  "async_ok S st cs ks \<longleftrightarrow>
     two_lists S (links st) cs ks \<and> sorted (map (EventTimeTicks st) cs) \<and>
     (cs \<noteq> [] \<longrightarrow> compare_reg st = EventTimeTicks st (hd cs))"

lemma two_lists_insert:
  assumes "two_lists S ls (us @ vs) ks" "n \<in> S" "n \<notin> set us \<union> set vs \<union> set ks"
  shows "two_lists S (InsertBeforeNode (hd (vs @ [Tail CL])) n ls) (us @ n # vs) ks"
proof -
  from assms have d: "dll CL ls (us @ vs)" and k: "dll CT ls ks" and n4: "\<forall>n\<in>S. 4 < n"
    and f: "free_node ls n" and sub: "set (us @ vs) \<union> set ks \<subseteq> S" "(set us \<union> set vs) \<inter> set ks = {}"
    by (auto simp: two_lists_def pool_free_def)
  have nz: "n \<noteq> 0" using n4 assms(2) by (metis not_less_zero)
  have nn: "n \<notin> set (Head CL # us @ vs @ [Tail CL])" using n4 assms(2,3) by auto
  note ins = dll_insert_before(1) [OF d f nz nn] and fr = dll_insert_frame [OF d f nz nn]
  let ?ls = "InsertBeforeNode (hd (vs @ [Tail CL])) n ls"
  have out: "m \<notin> set (Head CL # us @ n # vs @ [Tail CL])" if "m \<in> set (Head CT # ks @ [Tail CT])" for m
  proof -
    have "m \<in> set ks \<or> m = 3 \<or> m = 4" using that by auto
    then show ?thesis using sub n4 assms(2,3) by fastforce
  qed
  have "dll CT ?ls ks"
    by (rule dll_cong [OF k]) (use fr out in blast)
  moreover have "free_node ?ls m" if "m \<in> S - set (us @ n # vs) - set ks" for m
  proof -
    have "m \<notin> set (Head CL # us @ n # vs @ [Tail CL])" using that n4 by fastforce
    with fr [OF this] that assms(1) show ?thesis
      by (auto simp: two_lists_def pool_free_def free_node_def)
  qed
  ultimately show ?thesis
    using ins assms sub n4 by (auto simp: two_lists_def pool_free_def)
qed

lemma two_lists_unlink:
  assumes "two_lists S ls (us @ n # vs) ks"
  shows "two_lists S (Unlink n ls) (us @ vs) ks"
proof -
  from assms have d: "dll CL ls (us @ n # vs)" and k: "dll CT ls ks" and n4: "\<forall>n\<in>S. 4 < n"
    and sub: "set (us @ n # vs) \<union> set ks \<subseteq> S" "set (us @ n # vs) \<inter> set ks = {}"
    by (auto simp: two_lists_def)
  note un = dll_unlink(1,2) [OF d] and fr = dll_unlink_frame [OF d]
  have out: "m \<notin> set (Head CL # us @ n # vs @ [Tail CL])" if "m \<in> set (Head CT # ks @ [Tail CT])" for m
  proof -
    have "m \<in> set ks \<or> m = 3 \<or> m = 4" using that by auto
    then show ?thesis using sub n4 by fastforce
  qed
  have "dll CT (Unlink n ls) ks"
    by (rule dll_cong [OF k]) (use fr out in blast)
  moreover have "free_node (Unlink n ls) m" if "m \<in> S - set (us @ vs) - set ks" for m
  proof (cases "m = n")
    case True
    then show ?thesis using un(2) by simp
  next
    case False
    then have "m \<notin> set (Head CL # us @ n # vs @ [Tail CL])" using that n4 by fastforce
    with fr [OF this] that assms False show ?thesis
      by (auto simp: two_lists_def pool_free_def free_node_def)
  qed
  ultimately show ?thesis
    using un(1) sub n4 by (auto simp: two_lists_def pool_free_def)
qed


section \<open>Deadlines\<close>

lemma find_later_linked:
  assumes "linked (links st) p cs q" "m_nextNode (links st) q = 0" "0 \<notin> set (cs @ [q])"
    "length cs < fuel"
  shows "\<exists>us vs. cs = us @ vs \<and> find_later fuel t (hd (cs @ [q])) st = Some (hd (vs @ [q])) \<and>
    (\<forall>u\<in>set us. EventTimeTicks st u \<le> t) \<and> (vs = [] \<or> t < EventTimeTicks st (hd vs))"
  using assms
proof (induction cs arbitrary: p fuel)
  case Nil
  then show ?case by (cases fuel) auto
next
  case (Cons c cs)
  obtain f where f: "fuel = Suc f" using Cons.prems(4) by (cases fuel) auto
  have l: "linked (links st) c cs q" using Cons.prems(1) by simp
  have nxt: "m_nextNode (links st) c = hd (cs @ [q])" by (rule linked_hd(1) [OF l])
  have nz: "hd (cs @ [q]) \<noteq> 0"
    by (rule mem_nonzero [OF hd_in_set]) (use Cons.prems(3) in auto)
  show ?case
  proof (cases "t < EventTimeTicks st c")
    case True
    then show ?thesis
      using nxt nz f by (intro exI [of _ "[]"] exI [of _ "c # cs"]) (simp add: Let_def)
  next
    case False
    obtain us vs where u: "cs = us @ vs" "find_later f t (hd (cs @ [q])) st = Some (hd (vs @ [q]))"
      "\<forall>u\<in>set us. EventTimeTicks st u \<le> t" "vs = [] \<or> t < EventTimeTicks st (hd vs)"
    proof -
      have "m_nextNode (links st) q = 0" "0 \<notin> set (cs @ [q])" "length cs < f"
        using Cons.prems(2-4) f by auto
      then show ?thesis using Cons.IH [OF l, of f] that by blast
    qed
    then show ?thesis
      using nxt nz f False by (intro exI [of _ "c # us"] exI [of _ vs]) (auto simp: Let_def)
  qed
qed

lemma EnqueueTicks_lists:
  assumes "async_ok S st cs ks" "n \<in> S" "n \<notin> set cs \<union> set ks" "length cs < fuel"
  shows "\<exists>st' us vs. EnqueueTicks fuel n t st = Some st' \<and> cs = us @ vs \<and> async_ok S st' (us @ n # vs) ks \<and>
    (\<forall>u\<in>set us. EventTimeTicks st u \<le> t) \<and> (\<forall>v\<in>set vs. t < EventTimeTicks st v) \<and>
    EventTimeTicks st' = (EventTimeTicks st)(n := t) \<and>
    executed st' = executed st \<and> EntryPoint st' = EntryPoint st \<and> ExecuteInISR st' = ExecuteInISR st"
proof -
  let ?st = "st\<lparr>EventTimeTicks := (EventTimeTicks st)(n := t)\<rparr>"
  from assms(1) have two: "two_lists S (links st) cs ks" and so: "sorted (map (EventTimeTicks st) cs)"
    and cmp: "cs \<noteq> [] \<longrightarrow> compare_reg st = EventTimeTicks st (hd cs)" and d: "dll CL (links st) cs"
    by (auto simp: async_ok_def two_lists_def)
  have same: "EventTimeTicks ?st c = EventTimeTicks st c" if "c \<in> set cs" for c
    using that assms(3) by auto
  from d have "linked (links ?st) 1 cs 2" "m_nextNode (links ?st) 2 = 0" "0 \<notin> set (cs @ [2])"
    by (auto simp: dll_def)
  from find_later_linked [OF this assms(4), of t] obtain us vs where
    u: "cs = us @ vs" "find_later fuel t (hd (cs @ [2])) ?st = Some (hd (vs @ [2]))"
      "\<forall>u\<in>set us. EventTimeTicks ?st u \<le> t" "vs = [] \<or> t < EventTimeTicks ?st (hd vs)"
    by blast
  have us: "\<forall>u\<in>set us. EventTimeTicks st u \<le> t" using u(1,3) same by auto
  have vs: "\<forall>v\<in>set vs. t < EventTimeTicks st v"
  proof (cases vs)
    case (Cons v ws)
    with u(1,4) same have "t < EventTimeTicks st v" by auto
    with so Cons u(1) show ?thesis by (auto simp: sorted_append dest: order_less_le_trans)
  qed simp
  have two': "two_lists S (InsertBeforeNode (hd (vs @ [2])) n (links st)) (us @ n # vs) ks"
    using two_lists_insert [of S "links st" us vs ks n] two assms(2,3) u(1) by simp
  then have f': "FirstNode CL (InsertBeforeNode (hd (vs @ [2])) n (links st)) = hd (us @ n # vs)"
    using dll_first(1) [of CL _ "us @ n # vs"] by (cases us) (auto simp: two_lists_def)
  have f: "FirstNode CL (links st) = hd (cs @ [2])"
    using dll_first(1) [OF d] by simp
  let ?st' = "(if us = [] then HAL_Time_SetCompare t else id)
    (?st\<lparr>links := InsertBeforeNode (hd (vs @ [2])) n (links st)\<rparr>)"
  have "n = hd (us @ n # vs) \<longleftrightarrow> us = []"
    using assms(3) u(1) by (cases us) auto
  then have "EnqueueTicks fuel n t st = Some ?st'"
    using u(2) f f' by (simp add: EnqueueTicks_def Let_def)
  moreover have "async_ok S ?st' (us @ n # vs) ks"
  proof -
    have "sorted (map (EventTimeTicks ?st) (us @ n # vs))"
    proof -
      have "n \<notin> set us" "n \<notin> set vs" using assms(3) u(1) by auto
      then show ?thesis
        using so us vs unfolding u(1) by (auto simp: sorted_append intro: order_less_imp_le)
    qed
    moreover have "compare_reg ?st' = EventTimeTicks ?st (hd (us @ n # vs))"
      using cmp u(1) same by (cases us) (auto simp: HAL_Time_SetCompare_def)
    ultimately show ?thesis
      using two' by (cases "us = []") (auto simp: async_ok_def HAL_Time_SetCompare_def)
  qed
  ultimately show ?thesis
    using u(1) us vs by (intro exI [of _ ?st'] exI [of _ us] exI [of _ vs]) (simp add: HAL_Time_SetCompare_def)
qed


lemma Abort_lists:
  assumes "async_ok S st (us @ n # vs) ks"
  shows "async_ok S (COMPLETION_Abort n st) (us @ vs) ks \<and>
    (us @ vs = [] \<longrightarrow> compare_reg (COMPLETION_Abort n st) = HAL_Completion_IdleValue)"
proof -
  from assms have two: "two_lists S (links st) (us @ n # vs) ks" and d: "dll CL (links st) (us @ n # vs)"
    and so: "sorted (map (EventTimeTicks st) (us @ n # vs))"
    and cmp: "compare_reg st = EventTimeTicks st (hd (us @ n # vs))"
    by (auto simp: async_ok_def two_lists_def)
  have two1: "two_lists S (Unlink n (links st)) (us @ vs) ks"
    by (rule two_lists_unlink [OF two])
  then have d1: "dll CL (Unlink n (links st)) (us @ vs)" by (simp add: two_lists_def)
  have f: "FirstNode CL (links st) = hd (us @ n # vs)"
    using dll_first(1) [OF d] by (cases us) auto
  have f1: "FirstNode CL (Unlink n (links st)) = hd (us @ vs @ [2])" "IsEmpty CL (Unlink n (links st)) \<longleftrightarrow> us @ vs = []"
    using dll_first(1,4) [OF d1] by simp_all
  have first: "hd (us @ n # vs) = n \<longleftrightarrow> us = []"
    using d by (cases us) (auto simp: dll_def)
  show ?thesis
  proof (cases us)
    case Nil
    with two1 so f f1 show ?thesis
      by (cases vs) (auto simp: COMPLETION_Abort_def Let_def HAL_Time_SetCompare_def async_ok_def)
  next
    case (Cons u ws)
    then have "COMPLETION_Abort n st = st\<lparr>links := Unlink n (links st)\<rparr>"
      using first f by (simp add: COMPLETION_Abort_def Let_def)
    with two1 so cmp Cons show ?thesis
      by (auto simp: async_ok_def sorted_append)
  qed
qed

section \<open>Runs\<close>













definition boot_async :: Async where
  "boot_async = COMPLETION_InitializeList (CONTINUATION_InitializeList
     \<lparr>links = \<lparr>m_nextNode = (\<lambda>_. 0), m_prevNode = (\<lambda>_. 0)\<rparr>, EventTimeTicks = (\<lambda>_. 0),
      ExecuteInISR = (\<lambda>n. n \<noteq> 8), EntryPoint = (\<lambda>n. n), compare_reg = 0, timer_event = False, executed = []\<rparr>)"

lemma boot_async_ok: "\<forall>n\<in>S. 4 < n \<Longrightarrow> async_ok S boot_async [] []"
  by (auto simp: boot_async_def COMPLETION_InitializeList_def CONTINUATION_InitializeList_def async_ok_def
      two_lists_def dll_def pool_free_def free_node_def List_Initialize_def)

section \<open>Properties\<close>

text \<open>
  A completion is put behind every completion with the same or an earlier deadline and
  before every later one, the others keep their places, and the compare register of the timer
  holds the first deadline.
\<close>

lemma EnqueueTicks_by_deadline:
  assumes "async_ok S st cs ks" "n \<in> S" "n \<notin> set cs \<union> set ks" "length cs < fuel"
  shows "\<exists>st' us vs. EnqueueTicks fuel n t st = Some st' \<and> cs = us @ vs \<and>
    async_ok S st' (us @ n # vs) ks \<and> compare_reg st' = EventTimeTicks st' (hd (us @ n # vs)) \<and>
    (\<forall>u\<in>set us. EventTimeTicks st' u \<le> t) \<and> (\<forall>v\<in>set vs. t < EventTimeTicks st' v)"
proof -
  obtain st' us vs where e: "EnqueueTicks fuel n t st = Some st'" "cs = us @ vs" "async_ok S st' (us @ n # vs) ks"
    "\<forall>u\<in>set us. EventTimeTicks st u \<le> t" "\<forall>v\<in>set vs. t < EventTimeTicks st v"
    "EventTimeTicks st' = (EventTimeTicks st)(n := t)"
    using EnqueueTicks_lists [OF assms] by blast
  then have "compare_reg st' = EventTimeTicks st' (hd (us @ n # vs))"
    by (auto simp: async_ok_def)
  moreover have "\<forall>u\<in>set us. EventTimeTicks st' u \<le> t" "\<forall>v\<in>set vs. t < EventTimeTicks st' v"
    using e(2,4-6) assms(3) by auto
  ultimately show ?thesis using e(1-3) by blast
qed

lemma EnqueueTicks_by_deadline_witness:
  "\<exists>st'. EnqueueTicks 1 7 500 boot_async = Some st' \<and> async_ok {7, 8} st' [7] [] \<and> compare_reg st' = EventTimeTicks st' 7"
  using EnqueueTicks_by_deadline [OF boot_async_ok, of "{7, 8}" 7 1 500] by auto



text \<open>
  Sleeping with no completion pending ends with the compare register at its idle value
  whatever an interrupt enqueued meanwhile: a completion enqueued while the processor sleeps is
  first in the list, yet the register does not hold its deadline.
\<close>

lemma WaitForInterrupts_loses_deadline:
  assumes "async_ok S st [] ks" "n \<in> S" "n \<notin> set ks" "t \<noteq> HAL_Completion_IdleValue"
    "EnqueueTicks 1 n t (HAL_Time_SetCompare Expire st) = Some st1"
  shows "FirstNode g_HAL_Completion_List (links (WaitForInterrupts Expire (\<lambda>_. st1) st)) = n \<and>
    EventTimeTicks (WaitForInterrupts Expire (\<lambda>_. st1) st) n = t \<and>
    compare_reg (WaitForInterrupts Expire (\<lambda>_. st1) st) \<noteq> t"
proof -
  have d: "dll CL (links st) []" using assms(1) by (simp add: async_ok_def two_lists_def)
  have "wait_state_of Expire st = SetCompare_NilCompare"
    using dll_first(1,2) [OF d] by (simp add: wait_state_of_def Let_def)
  moreover have "async_ok S (HAL_Time_SetCompare Expire st) [] ks"
    using assms(1) by (simp add: async_ok_def HAL_Time_SetCompare_def)
  from EnqueueTicks_lists [OF this assms(2), of 1 t] assms(3,5) have
    "async_ok S st1 [n] ks" "EventTimeTicks st1 n = t" by auto
  moreover from this(1) have "FirstNode CL (links st1) = n"
    using dll_first(1) [of CL "links st1" "[n]"] by (simp add: async_ok_def two_lists_def)
  ultimately show ?thesis
    using assms(4) by (simp add: WaitForInterrupts_def Let_def HAL_Time_SetCompare_def)
qed

lemma WaitForInterrupts_loses_deadline_witness:
  "\<exists>st1. EnqueueTicks 1 7 500 (HAL_Time_SetCompare 900 boot_async) = Some st1 \<and>
     FirstNode g_HAL_Completion_List (links (WaitForInterrupts 900 (\<lambda>_. st1) boot_async)) = 7 \<and>
     compare_reg (WaitForInterrupts 900 (\<lambda>_. st1) boot_async) \<noteq> 500"
proof -
  have ok: "async_ok {7} boot_async [] []" by (rule boot_async_ok) simp
  then have "async_ok {7} (HAL_Time_SetCompare 900 boot_async) [] []"
    by (simp add: async_ok_def HAL_Time_SetCompare_def)
  from EnqueueTicks_lists [OF this, of 7 1 500] obtain st1 where
    "EnqueueTicks 1 7 500 (HAL_Time_SetCompare 900 boot_async) = Some st1" by auto
  with WaitForInterrupts_loses_deadline [OF ok, of 7 500 900 st1] show ?thesis
    by (auto simp: HAL_Completion_IdleValue_def)
qed

end
