(* ===== verification/HalQueue.thy ===== *)
theory HalQueue imports DblLinkedList begin

text \<open>
  The ring buffers \<^verbatim>\<open>Hal_Queue_KnownSize\<close> and \<^verbatim>\<open>Hal_Queue_UnknownSize\<close> of
  \<^verbatim>\<open>src/DeviceCode/Include/tinyhal.h\<close>. A pointer into the storage is an index; the caller
  writes the pushed element through it (\<open>put\<close>) and reads the popped one. The two templates
  have the same state; the one with the size in its type is the prefix \<open>Known\<close>. The lemmas
  relate the ring to the list of its elements, for single elements and for contiguous blocks,
  and show that the ring keeps the contract \<open>fifo\<close>.
\<close>

section \<open>State and operations\<close>

record 'a HalQueue =
  m_writer :: nat
  m_reader :: nat
  m_size :: nat
  m_full :: bool
  m_data :: "'a list"

definition Queue_Initialize :: "'a list \<Rightarrow> nat \<Rightarrow> 'a HalQueue" where
  "Queue_Initialize data size' =
     \<lparr>m_writer = 0, m_reader = 0, m_size = size', m_full = False, m_data = data\<rparr>"

definition NumberOfElements :: "'a HalQueue \<Rightarrow> nat" where
  "NumberOfElements q =
     (if m_writer q < m_reader q then m_size q + m_writer q - m_reader q
      else if m_full q then m_size q
      else m_writer q - m_reader q)"

definition Queue_IsEmpty :: "'a HalQueue \<Rightarrow> bool" where
  "Queue_IsEmpty q \<longleftrightarrow> m_writer q = m_reader q \<and> \<not> m_full q"

definition Queue_IsFull :: "'a HalQueue \<Rightarrow> bool" where
  "Queue_IsFull q = m_full q"

definition Queue_index :: "int \<Rightarrow> 'a HalQueue \<Rightarrow> nat option" where
  "Queue_index index q =
     (if index < 0 \<or> index > int (NumberOfElements q) then None
      else Some ((m_reader q + nat index) mod m_size q))"

definition Push :: "'a HalQueue \<Rightarrow> 'a HalQueue \<times> nat option" where
  "Push q =
     (let oldWriter = m_writer q in
      if m_full q then (q, None)
      else
        (let w = (if m_writer q + 1 = m_size q then 0 else m_writer q + 1);
             q = q\<lparr>m_writer := w\<rparr>;
             q = (if m_writer q = m_reader q then q\<lparr>m_full := True\<rparr> else q)
         in (q, Some oldWriter)))"

definition Peek :: "'a HalQueue \<Rightarrow> nat option" where
  "Peek q = (if m_writer q = m_reader q \<and> \<not> m_full q then None else Some (m_reader q))"

definition Pop :: "'a HalQueue \<Rightarrow> 'a HalQueue \<times> nat option" where
  "Pop q =
     (let oldReader = m_reader q in
      if m_reader q = m_writer q \<and> \<not> m_full q then (q, None)
      else
        (let r = (if m_reader q + 1 = m_size q then 0 else m_reader q + 1)
         in (q\<lparr>m_reader := r, m_full := False\<rparr>, Some oldReader)))"

text \<open>The block versions also answer how many elements they cover.\<close>

definition Push_block :: "nat \<Rightarrow> 'a HalQueue \<Rightarrow> 'a HalQueue \<times> nat option \<times> nat" where
  "Push_block nElements q =
     (let oldWriter = m_writer q in
      if m_full q \<or> nElements = 0 then (q, None, 0)
      else
        (let mx = (if m_writer q < m_reader q then m_reader q - m_writer q else m_size q - m_writer q);
             n = (if mx < nElements then mx else nElements);
             w = (if m_writer q + n = m_size q then 0 else m_writer q + n);
             q = q\<lparr>m_writer := w\<rparr>;
             q = (if m_writer q = m_reader q then q\<lparr>m_full := True\<rparr> else q)
         in (q, Some oldWriter, n)))"

definition Pop_block :: "nat \<Rightarrow> 'a HalQueue \<Rightarrow> 'a HalQueue \<times> nat option \<times> nat" where
  "Pop_block nElements q =
     (let oldReader = m_reader q in
      if nElements = 0 then (q, None, 0)
      else if m_reader q = m_writer q \<and> \<not> m_full q then (q\<lparr>m_reader := 0, m_writer := 0\<rparr>, None, 0)
      else
        (let mx = (if m_writer q \<le> m_reader q then m_size q - m_reader q else m_writer q - m_reader q);
             n = (if mx < nElements then mx else nElements);
             r = (if m_reader q + n = m_size q then 0 else m_reader q + n)
         in (q\<lparr>m_reader := r, m_full := False\<rparr>, Some oldReader, n)))"

definition Storage :: "'a HalQueue \<Rightarrow> 'a list" where
  "Storage q = m_data q"

text \<open>The template with the size in its type computes the next index before it tests.\<close>

definition Known_Initialize :: "'a HalQueue \<Rightarrow> 'a HalQueue" where
  "Known_Initialize q = q\<lparr>m_writer := 0, m_reader := 0, m_full := False\<rparr>"

definition Known_NumberOfElements :: "'a HalQueue \<Rightarrow> nat" where
  "Known_NumberOfElements q =
     (if m_writer q < m_reader q then length (m_data q) + m_writer q - m_reader q
      else if m_full q then length (m_data q)
      else m_writer q - m_reader q)"

definition Known_index :: "int \<Rightarrow> 'a HalQueue \<Rightarrow> nat option" where
  "Known_index index q =
     (if index < 0 \<or> index > int (Known_NumberOfElements q) then None
      else Some ((m_reader q + nat index) mod length (m_data q)))"

definition Known_Push :: "'a HalQueue \<Rightarrow> 'a HalQueue \<times> nat option" where
  "Known_Push q =
     (let oldWriter = m_writer q;
          nextWriter = oldWriter + 1;
          nextWriter = (if nextWriter = length (m_data q) then 0 else nextWriter)
      in if m_full q then (q, None)
         else
           (let q = (if nextWriter = m_reader q then q\<lparr>m_full := True\<rparr> else q)
            in (q\<lparr>m_writer := nextWriter\<rparr>, Some oldWriter)))"

definition Known_Pop :: "'a HalQueue \<Rightarrow> 'a HalQueue \<times> nat option" where
  "Known_Pop q =
     (let oldReader = m_reader q in
      if oldReader = m_writer q \<and> \<not> m_full q then (q, None)
      else
        (let nextReader = oldReader + 1;
             nextReader = (if nextReader = length (m_data q) then 0 else nextReader)
         in (q\<lparr>m_reader := nextReader, m_full := False\<rparr>, Some oldReader)))"

section \<open>The ring as a list\<close>

definition ring :: "'a HalQueue \<Rightarrow> nat \<Rightarrow> bool" where
  "ring q n \<longleftrightarrow>
     0 < m_size q \<and> length (m_data q) = m_size q \<and> m_reader q < m_size q \<and> n \<le> m_size q \<and>
     m_writer q = (m_reader q + n) mod m_size q \<and> (m_full q \<longleftrightarrow> n = m_size q)"

definition slot :: "'a HalQueue \<Rightarrow> nat \<Rightarrow> 'a" where
  "slot q i = m_data q ! ((m_reader q + i) mod m_size q)"

definition queue_rep :: "'a HalQueue \<Rightarrow> 'a list \<Rightarrow> bool" where
  "queue_rep q xs \<longleftrightarrow> ring q (length xs) \<and> (\<forall>i<length xs. xs ! i = slot q i)"

definition put :: "nat \<Rightarrow> 'a \<Rightarrow> 'a HalQueue \<Rightarrow> 'a HalQueue" where
  "put i a q = q\<lparr>m_data := (m_data q)[i := a]\<rparr>"

definition put_block :: "nat \<Rightarrow> 'a list \<Rightarrow> 'a HalQueue \<Rightarrow> 'a HalQueue" where
  "put_block i vs q = q\<lparr>m_data := take i (m_data q) @ vs @ drop (i + length vs) (m_data q)\<rparr>"

definition push_elem :: "'a HalQueue \<Rightarrow> 'a \<Rightarrow> 'a HalQueue \<times> bool" where
  "push_elem q a = (case Push q of (q, None) \<Rightarrow> (q, False) | (q, Some i) \<Rightarrow> (put i a q, True))"

definition pop_elem :: "'a HalQueue \<Rightarrow> 'a HalQueue \<times> 'a option" where
  "pop_elem q = (case Pop q of (q', None) \<Rightarrow> (q', None) | (q', Some i) \<Rightarrow> (q', Some (m_data q ! i)))"

lemma ring_count:
  assumes "ring q n"
  shows "NumberOfElements q = n" "Queue_IsEmpty q \<longleftrightarrow> n = 0" "m_full q \<longleftrightarrow> n = m_size q"
  using assms by (auto simp: ring_def NumberOfElements_def Queue_IsEmpty_def mod_wrap split: if_splits)

lemma slot_neq:
  assumes "ring q n" "i < n" "n < m_size q"
  shows "(m_reader q + i) mod m_size q \<noteq> m_writer q"
  using assms by (auto simp: ring_def mod_wrap split: if_splits)

lemma push_elem_rep:
  assumes "queue_rep q xs"
  shows "push_elem q a = (q', ok) \<Longrightarrow> queue_rep q' (if ok then xs @ [a] else xs)"
    and "snd (push_elem q a) \<longleftrightarrow> length xs < m_size q"
proof -
  let ?n = "length xs"
  from assms have r: "ring q ?n" and c: "\<forall>i<?n. xs ! i = slot q i" by (auto simp: queue_rep_def)
  show "snd (push_elem q a) \<longleftrightarrow> ?n < m_size q"
    using r by (auto simp: push_elem_def Push_def Let_def ring_def)
  show "queue_rep q' (if ok then xs @ [a] else xs)" if p: "push_elem q a = (q', ok)"
  proof (cases "m_full q")
    case True
    with p assms show ?thesis by (simp add: push_elem_def Push_def)
  next
    case False
    with r have n: "?n < m_size q" by (auto simp: ring_def)
    let ?w = "if m_writer q + 1 = m_size q then 0 else m_writer q + 1"
    have w: "m_writer q < m_size q" using r by (simp add: ring_def)
    have next_w: "?w = (m_reader q + Suc ?n) mod m_size q"
    proof -
      have "?w = Suc (m_writer q) mod m_size q" using w by (auto simp: mod_if)
      also have "\<dots> = Suc (m_reader q + ?n) mod m_size q"
        using r by (simp add: ring_def mod_Suc_eq)
      finally show ?thesis by simp
    qed
    have full: "?w = m_reader q \<longleftrightarrow> Suc ?n = m_size q"
      using r n by (auto simp: ring_def mod_wrap split: if_splits)
    let ?q = "\<lparr>m_writer = ?w, m_reader = m_reader q, m_size = m_size q, m_full = (?w = m_reader q),
      m_data = (m_data q)[m_writer q := a], \<dots> = HalQueue.more q\<rparr>"
    have q': "q' = ?q" "ok"
      using p False by (auto simp: push_elem_def Push_def Let_def put_def split: if_splits)
    have "ring q' (Suc ?n)"
      using r n next_w full by (simp add: ring_def q')
    moreover have "(xs @ [a]) ! i = slot q' i" if "i < Suc ?n" for i
    proof (cases "i = ?n")
      case True
      with r w show ?thesis by (simp add: slot_def q' ring_def)
    next
      case False
      with that have i: "i < ?n" by simp
      with slot_neq [OF r i n] c show ?thesis by (simp add: slot_def q' nth_append)
    qed
    ultimately show ?thesis using q'(2) by (simp add: queue_rep_def)
  qed
qed

lemma ring_advance:
  assumes "ring q n" "k \<le> n" "0 < k" "m_reader q + k \<le> m_size q"
    "q' = q\<lparr>m_reader := if m_reader q + k = m_size q then 0 else m_reader q + k, m_full := False\<rparr>"
  shows "ring q' (n - k)" and "i < n - k \<Longrightarrow> slot q' i = slot q (k + i)"
proof -
  have s: "0 < m_size q" "m_reader q < m_size q" "n \<le> m_size q" "m_writer q = (m_reader q + n) mod m_size q"
    using assms(1) by (simp_all add: ring_def)
  have r': "m_reader q' = (m_reader q + k) mod m_size q"
    using assms(4,5) s by (auto simp: mod_wrap)
  have "(m_reader q' + (n - k)) mod m_size q = (m_reader q + k + (n - k)) mod m_size q"
    unfolding r' by (rule mod_add_left_eq)
  then have "(m_reader q' + (n - k)) mod m_size q = (m_reader q + n) mod m_size q"
    using assms(2) by simp
  with assms s show "ring q' (n - k)"
    by (auto simp: ring_def)
  show "slot q' i = slot q (k + i)"
  proof -
    have "(m_reader q' + i) mod m_size q = (m_reader q + (k + i)) mod m_size q"
      unfolding r' by (simp add: mod_add_left_eq add.assoc)
    then show ?thesis using assms(5) by (simp add: slot_def)
  qed
qed

lemma pop_elem_rep:
  assumes "queue_rep q xs" "pop_elem q = (q', r)"
  shows "case xs of [] \<Rightarrow> r = None \<and> queue_rep q' [] | x # ys \<Rightarrow> r = Some x \<and> queue_rep q' ys"
proof -
  from assms(1) have rg: "ring q (length xs)" and c: "\<forall>i<length xs. xs ! i = slot q i"
    by (auto simp: queue_rep_def)
  have e: "m_reader q = m_writer q \<and> \<not> m_full q \<longleftrightarrow> xs = []"
    using ring_count(2) [OF rg] by (auto simp: Queue_IsEmpty_def)
  show ?thesis
  proof (cases xs)
    case Nil
    with assms e show ?thesis by (auto simp: pop_elem_def Pop_def)
  next
    case (Cons x ys)
    let ?q = "q\<lparr>m_reader := if m_reader q + 1 = m_size q then 0 else m_reader q + 1, m_full := False\<rparr>"
    have q': "q' = ?q" "r = Some (m_data q ! m_reader q)"
      using assms(2) e Cons by (auto simp: pop_elem_def Pop_def Let_def split: if_splits)
    have k: "m_reader q + 1 \<le> m_size q" using rg by (simp add: ring_def)
    note adv = ring_advance [OF rg _ _ k, of ?q, simplified]
    have "x = slot q 0" using c Cons by force
    then have "r = Some x" using rg q'(2) by (simp add: slot_def ring_def)
    moreover have "\<forall>i<length ys. ys ! i = slot ?q i"
    proof (intro allI impI)
      fix i assume "i < length ys"
      with c Cons adv(2) [of i] show "ys ! i = slot ?q i" by auto
    qed
    ultimately show ?thesis
      using adv(1) Cons by (simp add: queue_rep_def q'(1))
  qed
qed

interpretation hq: fifo queue_rep "\<lambda>_ _. True" push_elem pop_elem
proof
  show "queue_rep s' (if ok then xs @ [a] else xs)"
    if "queue_rep s xs" "push_elem s a = (s', ok)" for s xs s' and a :: 'a and ok
    using that by (rule push_elem_rep(1))
  show "case xs of [] \<Rightarrow> r = None \<and> queue_rep s' [] | x # ys \<Rightarrow> r = Some x \<and> queue_rep s' ys"
    if "queue_rep s xs" "pop_elem s = (s', r)" for s s' :: "'a HalQueue" and xs r
    using that by (rule pop_elem_rep)
qed

section \<open>Blocks\<close>

text \<open>The client copies as many elements as it was granted.\<close>

definition push_elems :: "'a HalQueue \<Rightarrow> 'a list \<Rightarrow> 'a HalQueue \<times> nat" where
  "push_elems q vs =
     (case Push_block (length vs) q of
        (q', None, n) \<Rightarrow> (q', n)
      | (q', Some i, n) \<Rightarrow> (put_block i (take n vs) q', n))"

definition pop_elems :: "'a HalQueue \<Rightarrow> nat \<Rightarrow> 'a HalQueue \<times> 'a list" where
  "pop_elems q nElements =
     (case Pop_block nElements q of
        (q', None, n) \<Rightarrow> (q', [])
      | (q', Some i, n) \<Rightarrow> (q', take n (drop i (m_data q))))"

lemma put_block_nth:
  assumes "w + length us \<le> length d" "j < length d"
  shows "(take w d @ us @ drop (w + length us) d) ! j =
    (if w \<le> j \<and> j < w + length us then us ! (j - w) else d ! j)"
  using assms by (auto simp: nth_append min_def)

lemma push_elems_rep:
  assumes "queue_rep q xs" "push_elems q vs = (q', n)"
  shows "n \<le> length vs \<and> queue_rep q' (xs @ take n vs) \<and> (n = 0 \<longleftrightarrow> vs = [] \<or> length xs = m_size q)"
proof -
  let ?n = "length xs"
  from assms(1) have r: "ring q ?n" and c: "\<forall>i<?n. xs ! i = slot q i" by (auto simp: queue_rep_def)
  then have s: "0 < m_size q" "m_reader q < m_size q" "?n \<le> m_size q" "m_writer q = (m_reader q + ?n) mod m_size q"
    "m_full q \<longleftrightarrow> ?n = m_size q" "length (m_data q) = m_size q"
    by (simp_all add: ring_def)
  show ?thesis
  proof (cases "m_full q \<or> vs = []")
    case True
    with assms s show ?thesis by (auto simp: push_elems_def Push_block_def)
  next
    case False
    then have n: "?n < m_size q" "vs \<noteq> []" using s by auto
    define w where "w = m_writer q"
    define mx where "mx = (if w < m_reader q then m_reader q - w else m_size q - w)"
    define k where "k = (if mx < length vs then mx else length vs)"
    have w: "w < m_size q" "w = (if m_reader q + ?n < m_size q then m_reader q + ?n else m_reader q + ?n - m_size q)"
      unfolding w_def s(4) using s(1-3) by (simp, intro mod_wrap)
    have mx: "0 < mx" "w + mx \<le> m_size q" "mx + ?n \<le> m_size q"
      using w n s(2) by (auto simp: mx_def split: if_splits)
    have k: "0 < k" "k \<le> length vs" "w + k \<le> m_size q" "k + ?n \<le> m_size q" "k \<le> mx"
      using mx n(2) by (auto simp: k_def)
    let ?w = "if w + k = m_size q then 0 else w + k"
    let ?us = "take k vs"
    have lu: "length ?us = k" using k(2) by simp
    have blk: "Push_block (length vs) q =
        ((if ?w = m_reader q then q\<lparr>m_writer := ?w, m_full := True\<rparr> else q\<lparr>m_writer := ?w\<rparr>), Some w, k)"
    proof -
      have "\<not> (m_full q \<or> length vs = 0)" using False by simp
      then show ?thesis
        unfolding Push_block_def Let_def w_def [symmetric] mx_def [symmetric] k_def [symmetric]
        by (simp only: if_False) simp
    qed
    have q': "m_writer q' = ?w" "m_reader q' = m_reader q" "m_size q' = m_size q"
      "m_full q' \<longleftrightarrow> ?w = m_reader q" "m_data q' = take w (m_data q) @ ?us @ drop (w + k) (m_data q)" "n = k"
      using assms(2) False k(2) unfolding push_elems_def blk put_block_def
      by (auto simp: min_absorb2 split: if_splits)
    have next_w: "?w = (m_reader q + (?n + k)) mod m_size q"
    proof -
      have "?w = (w + k) mod m_size q" using k(3) w(1) by (auto simp: mod_if)
      also have "\<dots> = (m_reader q + ?n + k) mod m_size q"
        unfolding w_def s(4) by (rule mod_add_left_eq)
      finally show ?thesis by (simp add: add.assoc)
    qed
    have full: "?w = m_reader q \<longleftrightarrow> ?n + k = m_size q"
    proof -
      have "?w = (if m_reader q + (?n + k) < m_size q then m_reader q + (?n + k) else m_reader q + (?n + k) - m_size q)"
        unfolding next_w using s k(4) by (intro mod_wrap) simp_all
      then show ?thesis using k(1,4) s(2) by (auto split: if_splits)
    qed
    have "ring q' (?n + k)"
      using s w(1) k next_w full lu by (simp add: ring_def q')
    moreover have "(xs @ ?us) ! i = slot q' i" if i: "i < ?n + k" for i
    proof -
      define j where "j = (m_reader q + i) mod m_size q"
      have j: "j < m_size q" using s(1) by (simp add: j_def)
      have sl: "slot q' i = (if w \<le> j \<and> j < w + k then ?us ! (j - w) else m_data q ! j)"
        using put_block_nth [of w ?us "m_data q" j] k(3) s(6) j lu by (simp add: slot_def q' j_def)
      show ?thesis
      proof (cases "i < ?n")
        case True
        have "j = (if m_reader q + i < m_size q then m_reader q + i else m_reader q + i - m_size q)"
          unfolding j_def using True s by (intro mod_wrap) simp_all
        then have "\<not> (w \<le> j \<and> j < w + k)"
          using True w n k(5) s(2) by (auto simp: mx_def split: if_splits)
        with sl have "slot q' i = m_data q ! j" by (simp only: if_False)
        moreover have "xs ! i = m_data q ! j" using c True by (simp add: slot_def j_def)
        ultimately show ?thesis using True by (simp add: nth_append)
      next
        case False
        then obtain e where e: "i = ?n + e" "e < k" using i by (metis add_less_cancel_left le_Suc_ex not_less)
        have "j = (w + e) mod m_size q"
          unfolding j_def w_def s(4) e(1) by (simp add: mod_add_left_eq add.assoc)
        then have "j = w + e" using e(2) k(3) by simp
        with sl e show ?thesis by (simp add: nth_append)
      qed
    qed
    ultimately show ?thesis
      using k lu q'(6) n by (simp add: queue_rep_def)
  qed
qed

lemma pop_elems_rep:
  assumes "queue_rep q xs" "pop_elems q m = (q', vs)"
  shows "\<exists>ys. xs = vs @ ys \<and> queue_rep q' ys \<and> length vs \<le> m \<and> (vs = [] \<longleftrightarrow> xs = [] \<or> m = 0)"
proof -
  let ?n = "length xs"
  from assms(1) have r: "ring q ?n" and c: "\<forall>i<?n. xs ! i = slot q i" by (auto simp: queue_rep_def)
  then have s: "0 < m_size q" "m_reader q < m_size q" "?n \<le> m_size q" "m_writer q = (m_reader q + ?n) mod m_size q"
    "m_full q \<longleftrightarrow> ?n = m_size q" "length (m_data q) = m_size q"
    by (simp_all add: ring_def)
  have e: "m_reader q = m_writer q \<and> \<not> m_full q \<longleftrightarrow> xs = []"
    using ring_count(2) [OF r] by (auto simp: Queue_IsEmpty_def)
  consider "m = 0" | "m \<noteq> 0" "xs = []" | "m \<noteq> 0" "xs \<noteq> []" by blast
  then show ?thesis
  proof cases
    case 1
    with assms show ?thesis by (auto simp: pop_elems_def Pop_block_def)
  next
    case 2
    then have "q' = q\<lparr>m_reader := 0, m_writer := 0\<rparr>" "vs = []"
      using assms(2) e by (auto simp: pop_elems_def Pop_block_def Let_def)
    with 2 s show ?thesis by (auto simp: queue_rep_def ring_def)
  next
    case 3
    define mx where "mx = (if m_writer q \<le> m_reader q then m_size q - m_reader q else m_writer q - m_reader q)"
    define k where "k = (if mx < m then mx else m)"
    have "0 < ?n" using 3(2) by simp
    then have mx: "0 < mx" "m_reader q + mx \<le> m_size q" "mx \<le> ?n"
      using s by (auto simp: mx_def mod_wrap split: if_splits)
    have k: "0 < k" "k \<le> ?n" "m_reader q + k \<le> m_size q" "k \<le> m"
      using mx 3(1) by (auto simp: k_def)
    let ?q = "q\<lparr>m_reader := if m_reader q + k = m_size q then 0 else m_reader q + k, m_full := False\<rparr>"
    have q': "q' = ?q" "vs = take k (drop (m_reader q) (m_data q))"
      using assms(2) 3 e
      by (auto simp: pop_elems_def Pop_block_def Let_def mx_def [symmetric] k_def [symmetric] split: if_splits)
    note adv = ring_advance [OF r k(2,1,3) refl]
    have "vs = take k xs"
    proof (rule nth_equalityI)
      show "length vs = length (take k xs)" using k s(6) by (simp add: q'(2))
      fix i assume "i < length vs"
      then have i: "i < k" "m_reader q + i < m_size q" using k(2,3) s(6) by (auto simp: q'(2))
      then have "vs ! i = slot q i" using s(6) k(3) by (simp add: q'(2) slot_def)
      with c i k(2) show "vs ! i = take k xs ! i" by simp
    qed
    moreover have "queue_rep q' (drop k xs)"
      using adv(1) c k(2) by (auto simp: queue_rep_def q'(1) adv(2))
    ultimately show ?thesis
      using k 3 by (intro exI [of _ "drop k xs"]) auto
  qed
qed

section \<open>The template with a known size\<close>

lemma Known_is_Unknown:
  assumes "ring q n"
  shows "Known_Push q = Push q" "Known_Pop q = Pop q" "Known_NumberOfElements q = NumberOfElements q"
    "Known_index i q = Queue_index i q"
proof -
  have s: "length (m_data q) = m_size q" using assms by (simp add: ring_def)
  show "Known_Push q = Push q" "Known_Pop q = Pop q"
    by (auto simp: Known_Push_def Push_def Known_Pop_def Pop_def Let_def s)
  show "Known_NumberOfElements q = NumberOfElements q"
    by (simp add: Known_NumberOfElements_def NumberOfElements_def s)
  then show "Known_index i q = Queue_index i q"
    by (simp add: Known_index_def Queue_index_def s)
qed

lemma Queue_Initialize_rep: "data \<noteq> [] \<Longrightarrow> queue_rep (Queue_Initialize data (length data)) []"
  by (simp add: queue_rep_def ring_def Queue_Initialize_def)

section \<open>Properties\<close>

text \<open>
  C25: First in, first out: after any run of pushes and pops on a freshly initialised ring,
  the elements popped followed by the ones still in the ring are exactly the elements pushed
  successfully, in order.
\<close>

theorem ring_is_fifo:
  assumes "data \<noteq> []" "hq.reach (Queue_Initialize data (length data)) acc out q"
  shows "\<exists>ys. queue_rep q ys \<and> acc = out @ ys \<and> length ys = NumberOfElements q"
proof -
  obtain ys where ys: "queue_rep q ys" "acc = out @ ys"
    using hq.in_order [OF assms(2) Queue_Initialize_rep [OF assms(1)]] by auto
  then show ?thesis
    using ring_count(1) [of q "length ys"] by (auto simp: queue_rep_def)
qed

theorem ring_is_fifo_witness:
  "\<exists>q ys. hq.reach (Queue_Initialize [0 :: nat, 0] 2) [5, 6] [5] q \<and> queue_rep q ys \<and> [5, 6] = [5] @ ys"
proof -
  define q0 where "q0 = Queue_Initialize [0 :: nat, 0] 2"
  define q1 where "q1 = fst (push_elem q0 5)"
  define q2 where "q2 = fst (push_elem q1 6)"
  define q3 where "q3 = fst (pop_elem q2)"
  have e: "push_elem q0 5 = (q1, True)" "push_elem q1 6 = (q2, True)" "pop_elem q2 = (q3, Some 5)"
    by (simp_all add: q0_def q1_def q2_def q3_def push_elem_def pop_elem_def Push_def Pop_def
        Queue_Initialize_def put_def Let_def)
  have "hq.reach q0 [5] [] q1"
    using hq.reach.offer [OF hq.reach.start, of q0 5 q1 True] e(1) by simp
  then have "hq.reach q0 [5, 6] [] q2"
    using hq.reach.offer [of q0 "[5]" "[]" q1 6 q2 True] e(2) by simp
  then have "hq.reach q0 [5, 6] [5] q3"
    using hq.reach.remove [of q0 "[5, 6]" "[]" q2 q3 "Some 5"] e(3) by simp
  then show ?thesis
    using ring_is_fifo [of "[0 :: nat, 0]" "[5, 6]" "[5]" q3]
    by (auto simp: q0_def numeral_2_eq_2)
qed

text \<open>
  The block operations move whole stretches: a block push stores a prefix of what is
  offered, at least one element unless the ring is full or nothing is offered, and a block pop
  answers a prefix of the waiting elements, at least one unless there is none.
\<close>

lemma blocks_refine_append:
  assumes "queue_rep q xs" "push_elems q vs = (q', n)" "pop_elems q' m = (q'', us)"
  shows "n \<le> length vs \<and> (n = 0 \<longleftrightarrow> vs = [] \<or> length xs = m_size q) \<and>
    (\<exists>ys. xs @ take n vs = us @ ys \<and> queue_rep q'' ys \<and> (us = [] \<longleftrightarrow> xs @ take n vs = [] \<or> m = 0))"
  using push_elems_rep [OF assms(1,2)] pop_elems_rep [OF _ assms(3)] by blast

lemma blocks_refine_append_witness:
  "\<exists>ys. [5] @ take 2 [6, 7, 8] = [5, 6] @ ys \<and>
     queue_rep (fst (pop_elems (fst (push_elems (fst (push_elem (Queue_Initialize [0 :: nat, 0, 0] 3) 5)) [6, 7, 8])) 2)) ys"
proof -
  define q where "q = fst (push_elem (Queue_Initialize [0 :: nat, 0, 0] 3) 5)"
  have "push_elem (Queue_Initialize [0 :: nat, 0, 0] 3) 5 = (q, True)"
    by (simp add: q_def push_elem_def Push_def Queue_Initialize_def Let_def)
  then have r: "queue_rep q [5]"
    using push_elem_rep(1) [OF Queue_Initialize_rep [of "[0 :: nat, 0, 0]"], of 5 q True] by (simp add: numeral_3_eq_3)
  have p: "push_elems q [6, 7, 8] = (fst (push_elems q [6, 7, 8]), 2)"
    "pop_elems (fst (push_elems q [6, 7, 8])) 2 = (fst (pop_elems (fst (push_elems q [6, 7, 8])) 2), [5, 6])"
    by (simp_all add: q_def push_elem_def Push_def Queue_Initialize_def Let_def put_def push_elems_def
        Push_block_def put_block_def pop_elems_def Pop_block_def)
  from blocks_refine_append [OF r p] show ?thesis by (simp add: q_def)
qed

text \<open>
  The bounds test of the index operator admits one index too many: for a ring that is not
  full, the index equal to the number of elements answers the free slot of the next push
  instead of NULL.
\<close>

theorem index_one_past_end:
  assumes "queue_rep q xs" "length xs < m_size q"
  shows "Queue_index (int (length xs)) q = Some (m_writer q) \<and> snd (Push q) = Some (m_writer q)"
  using assms ring_count(1) [of q "length xs"]
  by (auto simp: queue_rep_def Queue_index_def Push_def ring_def Let_def)

theorem index_one_past_end_witness:
  "Queue_index 0 (Queue_Initialize [9 :: nat] 1) = Some 0"
  using index_one_past_end [OF Queue_Initialize_rep [of "[9 :: nat]"]] by (simp add: Queue_Initialize_def)

end
