(* ===== verification/Collections.thy ===== *)
theory Collections imports DblLinkedList "HOL-Library.Signed_Division" begin

text \<open>
  The native halves of the managed collections: \<^verbatim>\<open>CLR_RT_HeapBlock_ArrayList.cpp\<close>,
  \<^verbatim>\<open>CLR_RT_HeapBlock_Queue.cpp\<close> and \<^verbatim>\<open>CLR_RT_HeapBlock_Stack.cpp\<close> under \<^verbatim>\<open>src/CLR/Core\<close>, on
  arrays of object references (0 is \<open>NULL\<close>). An array is the list of its elements with its
  element type; whether an array of a given length can be allocated is a parameter. A failure
  is the \<open>HRESULT\<close>; an access outside an array, which the code does not test, is
  \<open>ACCESS_VIOLATION\<close>. The lemmas relate each collection to a list.
\<close>

section \<open>Arrays\<close>

datatype clr_error =
    CLR_E_OUT_OF_RANGE | CLR_E_INVALID_OPERATION | CLR_E_INVALID_PARAMETER | CLR_E_OUT_OF_MEMORY
  | ACCESS_VIOLATION

datatype CLR_DataType = DATATYPE_OBJECT | DATATYPE_CLASS

record Array =
  m_typeOfElement :: CLR_DataType
  elems :: "nat list"

abbreviation m_numOfElements :: "Array \<Rightarrow> nat" where
  "m_numOfElements a \<equiv> length (elems a)"

definition GetElement :: "Array \<Rightarrow> nat \<Rightarrow> clr_error + nat" where
  "GetElement a i = (if i < m_numOfElements a then Inr (elems a ! i) else Inl ACCESS_VIOLATION)"

definition SetElement :: "Array \<Rightarrow> nat \<Rightarrow> nat \<Rightarrow> clr_error + Array" where
  "SetElement a i v =
     (if i < m_numOfElements a then Inr (a\<lparr>elems := (elems a)[i := v]\<rparr>) else Inl ACCESS_VIOLATION)"

text \<open>
  A new array of \<open>System.Object\<close>: the metadata gives that type the element type \<open>CLASS\<close>
  (\<^verbatim>\<open>src/CLR/Tools/Parser/Linker.cpp\<close>), and the elements are cleared.
\<close>

definition CreateInstance :: "(nat \<Rightarrow> bool) \<Rightarrow> nat \<Rightarrow> clr_error + Array" where
  "CreateInstance mem n =
     (if mem n then Inr \<lparr>m_typeOfElement = DATATYPE_CLASS, elems = replicate n 0\<rparr>
      else Inl CLR_E_OUT_OF_MEMORY)"

definition ClearElements :: "nat \<Rightarrow> nat \<Rightarrow> Array \<Rightarrow> clr_error + Array" where
  "ClearElements i n a =
     (if i + n \<le> m_numOfElements a
      then Inr (a\<lparr>elems := take i (elems a) @ replicate n 0 @ drop (i + n) (elems a)\<rparr>)
      else Inl ACCESS_VIOLATION)"

definition copy_elems :: "nat list \<Rightarrow> nat \<Rightarrow> nat list \<Rightarrow> nat \<Rightarrow> nat \<Rightarrow> nat list" where
  "copy_elems src i dst j n = take j dst @ take n (drop i src) @ drop (j + n) dst"

text \<open>\<open>CLR_RT_HeapBlock_Array::Copy\<close> between two different arrays of objects.\<close>

definition Array_Copy :: "Array \<Rightarrow> nat \<Rightarrow> Array \<Rightarrow> nat \<Rightarrow> nat \<Rightarrow> clr_error + (Array \<times> Array)" where
  "Array_Copy src i dst j n =
     (if n = 0 then Inr (src, dst)
      else if n + i > m_numOfElements src \<or> n + j > m_numOfElements dst then Inl CLR_E_OUT_OF_RANGE
      else Inr (src, dst\<lparr>elems := copy_elems (elems src) i (elems dst) j n\<rparr>))"

section \<open>ArrayList\<close>

record ArrayList =
  al_items :: Array
  al_size :: nat

definition c_DefaultCapacity :: nat where "c_DefaultCapacity = 4"

definition GetItem :: "int \<Rightarrow> ArrayList \<Rightarrow> clr_error + nat" where
  "GetItem index l =
     (if index < 0 \<or> index \<ge> int (al_size l) then Inl CLR_E_OUT_OF_RANGE
      else GetElement (al_items l) (nat index))"

definition SetItem :: "int \<Rightarrow> nat \<Rightarrow> ArrayList \<Rightarrow> clr_error + ArrayList" where
  "SetItem index v l =
     (if index < 0 \<or> index \<ge> int (al_size l) then Inl CLR_E_OUT_OF_RANGE
      else (case SetElement (al_items l) (nat index) v of
              Inl e \<Rightarrow> Inl e
            | Inr a \<Rightarrow> Inr (l\<lparr>al_items := a\<rparr>)))"

definition SetCapacity :: "(nat \<Rightarrow> bool) \<Rightarrow> int \<Rightarrow> ArrayList \<Rightarrow> clr_error + ArrayList" where
  "SetCapacity mem newCapacity l =
     (if newCapacity \<noteq> int (m_numOfElements (al_items l)) then
        (if newCapacity < int (al_size l) then Inl CLR_E_OUT_OF_RANGE
         else
           (let newCapacity = (if newCapacity < int c_DefaultCapacity then c_DefaultCapacity else nat newCapacity) in
            case CreateInstance mem newCapacity of
              Inl e \<Rightarrow> Inl e
            | Inr a \<Rightarrow>
                Inr (l\<lparr>al_items := (if al_size l > 0
                   then a\<lparr>elems := copy_elems (elems (al_items l)) 0 (elems a) 0 (al_size l)\<rparr> else a)\<rparr>)))
      else Inr l)"

text \<open>
  \<^verbatim>\<open>CLR_INT32\<close> arithmetic: an overflow wraps (what every compiler the port uses does). The sizes and
  capacities themselves are below \<open>2^31\<close>.
\<close>

definition INT32 :: "int \<Rightarrow> int" where
  "INT32 x = signed_take_bit 31 x"

definition EnsureCapacity :: "(nat \<Rightarrow> bool) \<Rightarrow> int \<Rightarrow> int \<Rightarrow> ArrayList \<Rightarrow> clr_error + ArrayList" where
  "EnsureCapacity mem mn currentCapacity l =
     (if currentCapacity < mn then
        (let newCapacity = INT32 (currentCapacity * 3) sdiv 2;
             newCapacity = (if newCapacity < mn then mn else newCapacity)
         in SetCapacity mem newCapacity l)
      else Inr l)"

definition make_room :: "(nat \<Rightarrow> bool) \<Rightarrow> ArrayList \<Rightarrow> clr_error + ArrayList" where
  "make_room mem l =
     (if al_size l = m_numOfElements (al_items l)
      then EnsureCapacity mem (INT32 (int (al_size l) + 1)) (int (m_numOfElements (al_items l))) l
      else Inr l)"

definition Add :: "(nat \<Rightarrow> bool) \<Rightarrow> nat \<Rightarrow> ArrayList \<Rightarrow> clr_error + (ArrayList \<times> nat)" where
  "Add mem v l =
     (case make_room mem l of
        Inl e \<Rightarrow> Inl e
      | Inr l \<Rightarrow>
          (let size' = al_size l in
           case SetElement (al_items l) size' v of
             Inl e \<Rightarrow> Inl e
           | Inr a \<Rightarrow> Inr (l\<lparr>al_items := a, al_size := size' + 1\<rparr>, size')))"

definition ArrayList_Clear :: "ArrayList \<Rightarrow> clr_error + ArrayList" where
  "ArrayList_Clear l =
     (case ClearElements 0 (al_size l) (al_items l) of
        Inl e \<Rightarrow> Inl e
      | Inr a \<Rightarrow> Inr (l\<lparr>al_items := a, al_size := 0\<rparr>))"

text \<open>The two loops that move the elements by one slot; the bodies run at least once.\<close>

fun shift_up :: "nat list \<Rightarrow> nat \<Rightarrow> nat \<Rightarrow> nat list" where
  "shift_up xs current e =
     (let xs = xs[current := xs ! (current - 1)] in
      if current - 1 \<le> e then xs else shift_up xs (current - 1) e)"

declare shift_up.simps [simp del]

function shift_down :: "nat list \<Rightarrow> nat \<Rightarrow> nat \<Rightarrow> nat list" where
  "shift_down xs current e =
     (let xs = xs[current := xs ! (current + 1)] in
      if e \<le> current + 1 then xs else shift_down xs (current + 1) e)"
  by auto
termination by (relation "measure (\<lambda>(xs, c, e). e - c)") auto

declare shift_down.simps [simp del]

definition Insert_at :: "(nat \<Rightarrow> bool) \<Rightarrow> int \<Rightarrow> nat \<Rightarrow> ArrayList \<Rightarrow> clr_error + ArrayList" where
  "Insert_at mem index v l =
     (if index < 0 \<or> index > int (al_size l) then Inl CLR_E_OUT_OF_RANGE
      else
        (case make_room mem l of
           Inl e \<Rightarrow> Inl e
         | Inr l \<Rightarrow>
             (let i = nat index; size' = al_size l; a = al_items l in
              if size' < m_numOfElements a then
                (let xs = (if i < size' then shift_up (elems a) size' i else elems a)
                 in Inr (l\<lparr>al_items := a\<lparr>elems := xs[i := v]\<rparr>, al_size := size' + 1\<rparr>))
              else Inl ACCESS_VIOLATION)))"

definition RemoveAt :: "int \<Rightarrow> ArrayList \<Rightarrow> clr_error + ArrayList" where
  "RemoveAt index l =
     (let size' = al_size l; a = al_items l in
      if index < 0 \<or> index \<ge> int size' then Inl CLR_E_OUT_OF_RANGE
      else if size' \<le> m_numOfElements a then
        (let i = nat index;
             xs = (if i < size' - 1 then shift_down (elems a) i (size' - 1) else elems a);
             size' = size' - 1
         in Inr (l\<lparr>al_items := a\<lparr>elems := xs[size' := 0]\<rparr>, al_size := size'\<rparr>))
      else Inl ACCESS_VIOLATION)"

section \<open>Queue\<close>

record ObjQueue =
  q_array :: Array
  q_head :: nat
  q_tail :: nat
  q_size :: nat

definition Dequeue :: "ObjQueue \<Rightarrow> clr_error + (ObjQueue \<times> nat)" where
  "Dequeue q =
     (if q_size q = 0 then Inl CLR_E_INVALID_OPERATION
      else
        (case GetElement (q_array q) (q_head q) of
           Inl e \<Rightarrow> Inl e
         | Inr v \<Rightarrow>
             (case SetElement (q_array q) (q_head q) 0 of
                Inl e \<Rightarrow> Inl e
              | Inr a \<Rightarrow>
                  Inr (q\<lparr>q_array := a, q_head := (q_head q + 1) mod m_numOfElements a, q_size := q_size q - 1\<rparr>, v))))"

text \<open>
  The fast path for arrays with element type \<open>OBJECT\<close> has the arguments of its \<open>memcpy\<close> the
  wrong way round: it writes the source.
\<close>

definition ObjArrayMemcpy :: "Array \<Rightarrow> nat \<Rightarrow> Array \<Rightarrow> nat \<Rightarrow> nat \<Rightarrow> clr_error + (Array \<times> Array)" where
  "ObjArrayMemcpy src i dst j n =
     (if n + i > m_numOfElements src \<or> n + j > m_numOfElements dst then Inl ACCESS_VIOLATION
      else Inr (src\<lparr>elems := copy_elems (elems dst) j (elems src) i n\<rparr>, dst))"

definition arrayCopy :: "Array \<Rightarrow> nat \<Rightarrow> Array \<Rightarrow> nat \<Rightarrow> nat \<Rightarrow> clr_error + (Array \<times> Array)" where
  "arrayCopy src i dst j n =
     (if m_typeOfElement dst = DATATYPE_OBJECT then ObjArrayMemcpy src i dst j n else Array_Copy src i dst j n)"

definition CopyTo :: "Array \<Rightarrow> nat \<Rightarrow> ObjQueue \<Rightarrow> clr_error + (ObjQueue \<times> Array)" where
  "CopyTo toArray index q =
     (let array = q_array q; size' = q_size q; head = q_head q; tail = q_tail q in
      if int (m_numOfElements toArray) - int index < int size' then Inl CLR_E_INVALID_PARAMETER
      else if size' > 0 then
        (if head < tail then
           (case arrayCopy array head toArray index size' of
              Inl e \<Rightarrow> Inl e
            | Inr (a, t) \<Rightarrow> Inr (q\<lparr>q_array := a\<rparr>, t))
         else
           (let firstPart = m_numOfElements array - head in
            case arrayCopy array head toArray index firstPart of
              Inl e \<Rightarrow> Inl e
            | Inr (a, t) \<Rightarrow>
                (case arrayCopy a 0 t (index + firstPart) tail of
                   Inl e \<Rightarrow> Inl e
                 | Inr (a, t) \<Rightarrow> Inr (q\<lparr>q_array := a\<rparr>, t))))
      else Inr (q, toArray))"

text \<open>The growth ignores the answer of the copy.\<close>

definition grow_queue :: "(nat \<Rightarrow> bool) \<Rightarrow> ObjQueue \<Rightarrow> clr_error + ObjQueue" where
  "grow_queue mem q =
     (case CreateInstance mem (m_numOfElements (q_array q) * 2) of
        Inl e \<Rightarrow> Inl e
      | Inr array \<Rightarrow>
          (let t = (case CopyTo array 0 q of Inl e \<Rightarrow> array | Inr (q', t) \<Rightarrow> t)
           in Inr (q\<lparr>q_array := t, q_head := 0, q_tail := q_size q\<rparr>)))"

definition Enqueue :: "(nat \<Rightarrow> bool) \<Rightarrow> nat \<Rightarrow> ObjQueue \<Rightarrow> clr_error + ObjQueue" where
  "Enqueue mem v q =
     (case (if q_size q = m_numOfElements (q_array q) then grow_queue mem q else Inr q) of
        Inl e \<Rightarrow> Inl e
      | Inr q \<Rightarrow>
          (case SetElement (q_array q) (q_tail q) v of
             Inl e \<Rightarrow> Inl e
           | Inr a \<Rightarrow> Inr (q\<lparr>q_array := a, q_tail := (q_tail q + 1) mod m_numOfElements a, q_size := q_size q + 1\<rparr>)))"

definition Queue_Peek :: "ObjQueue \<Rightarrow> clr_error + nat" where
  "Queue_Peek q = (if q_size q = 0 then Inl CLR_E_INVALID_OPERATION else GetElement (q_array q) (q_head q))"

definition Queue_Clear :: "ObjQueue \<Rightarrow> clr_error + ObjQueue" where
  "Queue_Clear q =
     (let array = q_array q;
          cleared =
            (if q_size q > 0 then
               (if q_head q < q_tail q then ClearElements (q_head q) (q_size q) array
                else (case ClearElements (q_head q) (m_numOfElements array - q_head q) array of
                        Inl e \<Rightarrow> Inl e
                      | Inr a \<Rightarrow> ClearElements 0 (q_tail q) a))
             else Inr array)
      in case cleared of
           Inl e \<Rightarrow> Inl e
         | Inr a \<Rightarrow> Inr (q\<lparr>q_array := a, q_size := 0, q_head := 0, q_tail := 0\<rparr>))"

section \<open>Stack\<close>

record ObjStack =
  s_array :: Array
  s_size :: nat

definition Stack_Pop :: "ObjStack \<Rightarrow> clr_error + (ObjStack \<times> nat)" where
  "Stack_Pop s =
     (if s_size s = 0 then Inl CLR_E_INVALID_OPERATION
      else
        (let i = m_numOfElements (s_array s) - s_size s in
         case GetElement (s_array s) i of
           Inl e \<Rightarrow> Inl e
         | Inr v \<Rightarrow>
             (case SetElement (s_array s) i 0 of
                Inl e \<Rightarrow> Inl e
              | Inr a \<Rightarrow> Inr (s\<lparr>s_array := a, s_size := s_size s - 1\<rparr>, v))))"

definition grow_stack :: "(nat \<Rightarrow> bool) \<Rightarrow> ObjStack \<Rightarrow> clr_error + ObjStack" where
  "grow_stack mem s =
     (case CreateInstance mem (m_numOfElements (s_array s) * 2) of
        Inl e \<Rightarrow> Inl e
      | Inr a \<Rightarrow>
          Inr (s\<lparr>s_array := a\<lparr>elems := copy_elems (elems (s_array s)) 0 (elems a) (s_size s) (s_size s)\<rparr>\<rparr>))"

definition Stack_Push :: "(nat \<Rightarrow> bool) \<Rightarrow> nat \<Rightarrow> ObjStack \<Rightarrow> clr_error + ObjStack" where
  "Stack_Push mem v s =
     (case (if s_size s = m_numOfElements (s_array s) then grow_stack mem s else Inr s) of
        Inl e \<Rightarrow> Inl e
      | Inr s \<Rightarrow>
          (let size' = s_size s + 1 in
           case SetElement (s_array s) (m_numOfElements (s_array s) - size') v of
             Inl e \<Rightarrow> Inl e
           | Inr a \<Rightarrow> Inr (s\<lparr>s_array := a, s_size := size'\<rparr>)))"

definition Stack_Peek :: "ObjStack \<Rightarrow> clr_error + nat" where
  "Stack_Peek s =
     (if s_size s = 0 then Inl CLR_E_INVALID_OPERATION
      else GetElement (s_array s) (m_numOfElements (s_array s) - s_size s))"

definition Stack_Clear :: "ObjStack \<Rightarrow> clr_error + ObjStack" where
  "Stack_Clear s =
     (case ClearElements (m_numOfElements (s_array s) - s_size s) (s_size s) (s_array s) of
        Inl e \<Rightarrow> Inl e
      | Inr a \<Rightarrow> Inr (s\<lparr>s_array := a, s_size := 0\<rparr>))"

section \<open>The array list as a list\<close>

definition al_rep :: "ArrayList \<Rightarrow> nat list \<Rightarrow> bool" where
  "al_rep l xs \<longleftrightarrow> al_size l = length xs \<and> (\<exists>k. elems (al_items l) = xs @ replicate k 0)"

lemma shift_up_nth:
  assumes "e < current" "current < length xs"
  shows "length (shift_up xs current e) = length xs"
    and "j < length xs \<Longrightarrow> shift_up xs current e ! j = (if e < j \<and> j \<le> current then xs ! (j - 1) else xs ! j)"
proof -
  have "length (shift_up xs current e) = length xs \<and>
      (\<forall>j<length xs. shift_up xs current e ! j = (if e < j \<and> j \<le> current then xs ! (j - 1) else xs ! j))"
    using assms
  proof (induction xs current e rule: shift_up.induct)
    case (1 xs current e)
    let ?xs = "xs[current := xs ! (current - 1)]"
    show ?case
    proof (cases "current - 1 \<le> e")
      case True
      with 1(2,3) have "e = current - 1" by simp
      moreover have "shift_up xs current e = ?xs"
        using True by (subst shift_up.simps) (simp add: Let_def)
      ultimately show ?thesis
        using 1(2,3) by (auto simp: nth_list_update)
    next
      case False
      with 1 have IH: "length (shift_up ?xs (current - 1) e) = length ?xs"
        "\<forall>j<length ?xs. shift_up ?xs (current - 1) e ! j = (if e < j \<and> j \<le> current - 1 then ?xs ! (j - 1) else ?xs ! j)"
        by auto
      have "shift_up xs current e = shift_up ?xs (current - 1) e"
        using False by (subst shift_up.simps) (simp add: Let_def)
      with IH False 1(3) show ?thesis
        by (auto simp: nth_list_update)
    qed
  qed
  then show "length (shift_up xs current e) = length xs"
    "j < length xs \<Longrightarrow> shift_up xs current e ! j = (if e < j \<and> j \<le> current then xs ! (j - 1) else xs ! j)"
    by auto
qed

lemma shift_down_nth:
  assumes "current < e" "e < length xs"
  shows "length (shift_down xs current e) = length xs"
    and "j < length xs \<Longrightarrow> shift_down xs current e ! j = (if current \<le> j \<and> j < e then xs ! (j + 1) else xs ! j)"
proof -
  have "length (shift_down xs current e) = length xs \<and>
      (\<forall>j<length xs. shift_down xs current e ! j = (if current \<le> j \<and> j < e then xs ! (j + 1) else xs ! j))"
    using assms
  proof (induction xs current e rule: shift_down.induct)
    case (1 xs current e)
    let ?xs = "xs[current := xs ! (current + 1)]"
    show ?case
    proof (cases "e \<le> current + 1")
      case True
      with 1(2,3) have "e = current + 1" by simp
      moreover have "shift_down xs current e = ?xs"
        using True by (subst shift_down.simps) (simp add: Let_def)
      ultimately show ?thesis
        using 1(2,3) by (auto simp: nth_list_update)
    next
      case False
      with 1 have IH: "length (shift_down ?xs (current + 1) e) = length ?xs"
        "\<forall>j<length ?xs. shift_down ?xs (current + 1) e ! j = (if current + 1 \<le> j \<and> j < e then ?xs ! (j + 1) else ?xs ! j)"
        by auto
      have "shift_down xs current e = shift_down ?xs (current + 1) e"
        using False by (subst shift_down.simps) (simp add: Let_def)
      with IH False 1(3) show ?thesis
        by (auto simp: nth_list_update Suc_le_eq le_less)
    qed
  qed
  then show "length (shift_down xs current e) = length xs"
    "j < length xs \<Longrightarrow> shift_down xs current e ! j = (if current \<le> j \<and> j < e then xs ! (j + 1) else xs ! j)"
    by auto
qed

lemma copy_front:
  "n \<le> length src \<Longrightarrow> n \<le> length dst \<Longrightarrow> copy_elems src 0 dst 0 n = take n src @ drop n dst"
  by (simp add: copy_elems_def)

lemma SetCapacity_rep:
  assumes "al_rep l xs"
  shows "SetCapacity mem c l =
      (if c = int (m_numOfElements (al_items l)) then Inr l
       else if c < int (length xs) then Inl CLR_E_OUT_OF_RANGE
       else if mem (max (nat c) 4)
         then Inr (l\<lparr>al_items := \<lparr>m_typeOfElement = DATATYPE_CLASS, elems = xs @ replicate (max (nat c) 4 - length xs) 0\<rparr>\<rparr>)
         else Inl CLR_E_OUT_OF_MEMORY)"
proof -
  have m: "max (nat c) 4 = (if c < int 4 then 4 else nat c)" by auto
  show ?thesis
    unfolding m using assms
    by (auto simp: al_rep_def SetCapacity_def Let_def CreateInstance_def c_DefaultCapacity_def copy_front)
qed

text \<open>
  The capacity asked for when the array is full: half as much again (unless that product
  overflows, when one more is asked for), at least one more and at least four.
\<close>

definition grown_capacity :: "nat \<Rightarrow> nat" where
  "grown_capacity c = max 4 (max (c + 1) (if c * 3 < 2 ^ 31 then c * 3 div 2 else 0))"

definition can_hold_more :: "(nat \<Rightarrow> bool) \<Rightarrow> ArrayList \<Rightarrow> bool" where
  "can_hold_more mem l \<longleftrightarrow>
     al_size l < m_numOfElements (al_items l) \<or> mem (grown_capacity (m_numOfElements (al_items l)))"

lemma INT32_id: "- (2 ^ 31) \<le> x \<Longrightarrow> x < 2 ^ 31 \<Longrightarrow> INT32 x = x"
  unfolding INT32_def by (rule signed_take_bit_int_eq_self) simp_all

lemma INT32_wrap: "2 ^ 31 \<le> x \<Longrightarrow> x < 3 * 2 ^ 31 \<Longrightarrow> INT32 x = x - 2 ^ 32"
proof -
  assume x: "2 ^ 31 \<le> x" "x < 3 * 2 ^ 31"
  have "(x + 2 ^ 31) mod 2 ^ 32 = (x + 2 ^ 31 - 2 ^ 32) mod 2 ^ 32"
    by (rule minus_mod_self2 [symmetric])
  also have "\<dots> = x + 2 ^ 31 - 2 ^ 32" using x by (intro mod_pos_pos_trivial) auto
  finally show "INT32 x = x - 2 ^ 32"
    by (simp add: INT32_def signed_take_bit_eq_take_bit_shift take_bit_eq_mod)
qed

lemma new_capacity:
  assumes "c < 2 ^ 31 - 1"
  shows "max (max (int c + 1) (INT32 (int c * 3) sdiv 2)) 4 = int (grown_capacity c)"
proof (cases "c * 3 < 2 ^ 31")
  case True
  then have "INT32 (int c * 3) = int c * 3" by (intro INT32_id) auto
  then have "INT32 (int c * 3) sdiv 2 = int (c * 3 div 2)"
    by (cases "c = 0") (simp_all add: signed_divide_int_def sgn_mult zdiv_int)
  with True show ?thesis by (simp add: grown_capacity_def)
next
  case False
  then have "INT32 (int c * 3) = int c * 3 - 2 ^ 32" using assms by (intro INT32_wrap) auto
  moreover have "(int c * 3 - 2 ^ 32) sdiv 2 \<le> int c + 1"
    using assms by (auto simp: signed_divide_int_def sgn_if)
  ultimately show ?thesis using False by (simp add: grown_capacity_def)
qed

lemma make_room_rep:
  assumes "al_rep l xs" "length xs < 2 ^ 31 - 1"
  shows "if can_hold_more mem l
    then \<exists>l' k. make_room mem l = Inr l' \<and> al_size l' = length xs \<and> elems (al_items l') = xs @ replicate (Suc k) 0
    else make_room mem l = Inl CLR_E_OUT_OF_MEMORY"
proof (cases "al_size l = m_numOfElements (al_items l)")
  case True
  let ?c = "m_numOfElements (al_items l)"
  let ?q = "INT32 (int ?c * 3) sdiv 2"
  let ?n = "if ?q < int ?c + 1 then int ?c + 1 else ?q"
  have c: "?c = length xs" using assms(1) True by (simp add: al_rep_def)
  have "INT32 (int ?c + 1) = int ?c + 1" using assms(2) unfolding c by (intro INT32_id) auto
  then have mr: "make_room mem l = SetCapacity mem ?n l"
    using True by (simp add: make_room_def EnsureCapacity_def Let_def)
  have "max ?n 4 = int (grown_capacity ?c)"
    using new_capacity [of ?c] assms(2) unfolding c by (auto simp: max_def split: if_splits)
  then have n: "max (nat ?n) 4 = grown_capacity ?c" by linarith
  have s: "SetCapacity mem ?n l = (if mem (grown_capacity ?c)
      then Inr (l\<lparr>al_items := \<lparr>m_typeOfElement = DATATYPE_CLASS, elems = xs @ replicate (grown_capacity ?c - length xs) 0\<rparr>\<rparr>)
      else Inl CLR_E_OUT_OF_MEMORY)"
    unfolding SetCapacity_rep [OF assms(1)] n using c by simp
  obtain k where "grown_capacity ?c - length xs = Suc k"
    using c by (cases "grown_capacity ?c - length xs") (auto simp: grown_capacity_def)
  with s mr True assms(1) show ?thesis
    by (auto simp: can_hold_more_def al_rep_def)
next
  case False
  with assms obtain k where "elems (al_items l) = xs @ replicate k 0" "k \<noteq> 0" "al_size l = length xs"
    by (auto simp: al_rep_def)
  then show ?thesis
    using False by (cases k) (auto simp: make_room_def can_hold_more_def)
qed

lemma Add_rep:
  assumes "al_rep l xs" "length xs < 2 ^ 31 - 1"
  shows "if can_hold_more mem l then \<exists>l'. Add mem v l = Inr (l', length xs) \<and> al_rep l' (xs @ [v])
    else Add mem v l = Inl CLR_E_OUT_OF_MEMORY"
proof (cases "can_hold_more mem l")
  case True
  then obtain l1 k where "make_room mem l = Inr l1" "al_size l1 = length xs"
      "elems (al_items l1) = xs @ replicate (Suc k) 0"
    using make_room_rep [OF assms, of mem] by auto
  with True show ?thesis
    by (auto simp: Add_def Let_def SetElement_def al_rep_def list_update_append)
next
  case False
  then show ?thesis using make_room_rep [OF assms, of mem] by (simp add: Add_def)
qed

lemma Insert_rep:
  assumes "al_rep l xs" "length xs < 2 ^ 31 - 1" "i \<le> length xs"
  shows "if can_hold_more mem l
    then \<exists>l'. Insert_at mem (int i) v l = Inr l' \<and> al_rep l' (take i xs @ v # drop i xs)
    else Insert_at mem (int i) v l = Inl CLR_E_OUT_OF_MEMORY"
proof (cases "can_hold_more mem l")
  case True
  then obtain l1 k where m: "make_room mem l = Inr l1" "al_size l1 = length xs"
    "elems (al_items l1) = xs @ replicate (Suc k) 0"
    using make_room_rep [OF assms(1,2), of mem] by auto
  let ?xs = "xs @ replicate (Suc k) 0"
  let ?ys = "(if i < length xs then shift_up ?xs (length xs) i else ?xs)[i := v]"
  have "?ys = (take i xs @ v # drop i xs) @ replicate k 0"
  proof (rule nth_equalityI)
    show "length ?ys = length ((take i xs @ v # drop i xs) @ replicate k 0)"
      using assms(3) by (simp add: shift_up_nth(1))
    fix j assume "j < length ?ys"
    then have j: "j < length ?xs" using shift_up_nth(1) [of i "length xs" ?xs] by (auto split: if_splits)
    show "?ys ! j = ((take i xs @ v # drop i xs) @ replicate k 0) ! j"
      using j assms(3) shift_up_nth [of i "length xs" ?xs]
      by (auto simp: nth_list_update nth_append nth_Cons' min_def simp del: replicate_Suc)
  qed
  moreover have "\<not> int i > int (al_size l)" using assms(1,3) by (simp add: al_rep_def)
  ultimately show ?thesis
    using m assms(3) True by (auto simp: Insert_at_def Let_def al_rep_def)
next
  case False
  moreover have "\<not> int i > int (al_size l)" using assms(1,3) by (simp add: al_rep_def)
  ultimately show ?thesis using make_room_rep [OF assms(1,2), of mem] by (simp add: Insert_at_def)
qed

lemma RemoveAt_rep:
  assumes "al_rep l xs" "i < length xs"
  shows "\<exists>l'. RemoveAt (int i) l = Inr l' \<and> al_rep l' (take i xs @ drop (Suc i) xs)"
proof -
  from assms(1) obtain k where k: "al_size l = length xs" "elems (al_items l) = xs @ replicate k 0"
    by (auto simp: al_rep_def)
  let ?xs = "xs @ replicate k 0" and ?n = "length xs - 1"
  let ?ys = "(if i < ?n then shift_down ?xs i ?n else ?xs)[?n := 0]"
  have "?ys = (take i xs @ drop (Suc i) xs) @ replicate (Suc k) 0"
  proof (rule nth_equalityI)
    show "length ?ys = length ((take i xs @ drop (Suc i) xs) @ replicate (Suc k) 0)"
      using assms(2) by (simp add: shift_down_nth(1))
    fix j assume "j < length ?ys"
    then have j: "j < length ?xs" using shift_down_nth(1) [of i ?n ?xs] by (auto split: if_splits)
    show "?ys ! j = ((take i xs @ drop (Suc i) xs) @ replicate (Suc k) 0) ! j"
      using j assms(2) shift_down_nth [of i ?n ?xs]
      by (auto simp: nth_list_update nth_append min_def simp del: replicate_Suc)
  qed
  then show ?thesis
    using k assms(2) by (auto simp: RemoveAt_def Let_def al_rep_def intro!: exI [of _ "Suc k"] simp del: replicate_Suc)
qed

section \<open>The queue as a list\<close>

definition q_slot :: "ObjQueue \<Rightarrow> nat \<Rightarrow> nat" where
  "q_slot q i = elems (q_array q) ! ((q_head q + i) mod m_numOfElements (q_array q))"

definition q_rep :: "ObjQueue \<Rightarrow> nat list \<Rightarrow> bool" where
  "q_rep q xs \<longleftrightarrow>
     m_typeOfElement (q_array q) = DATATYPE_CLASS \<and>
     0 < m_numOfElements (q_array q) \<and> q_head q < m_numOfElements (q_array q) \<and>
     q_size q = length xs \<and> length xs \<le> m_numOfElements (q_array q) \<and>
     q_tail q = (q_head q + length xs) mod m_numOfElements (q_array q) \<and>
     (\<forall>i<m_numOfElements (q_array q). q_slot q i = (if i < length xs then xs ! i else 0))"

lemma mod_slot_inj:
  assumes "(r :: nat) < k" "i < k" "j < k" "(r + i) mod k = (r + j) mod k"
  shows "i = j"
  using assms by (simp add: mod_wrap split: if_splits)

lemma q_elems:
  assumes "q_rep q xs" "xs \<noteq> []"
  shows "if q_head q < q_tail q
    then take (length xs) (drop (q_head q) (elems (q_array q))) = xs \<and> q_head q + length xs \<le> m_numOfElements (q_array q)
    else drop (q_head q) (elems (q_array q)) @ take (q_tail q) (elems (q_array q)) = xs \<and>
      q_tail q \<le> m_numOfElements (q_array q) \<and>
      m_numOfElements (q_array q) - q_head q + q_tail q = length xs"
proof -
  let ?cap = "m_numOfElements (q_array q)"
  from assms(1) have s: "0 < ?cap" "q_head q < ?cap" "length xs \<le> ?cap" "q_tail q = (q_head q + length xs) mod ?cap"
    and c: "\<And>i. i < length xs \<Longrightarrow> elems (q_array q) ! ((q_head q + i) mod ?cap) = xs ! i"
    by (auto simp: q_rep_def q_slot_def)
  have n: "0 < length xs" using assms(2) by simp
  have t: "q_tail q = (if q_head q + length xs < ?cap then q_head q + length xs else q_head q + length xs - ?cap)"
    unfolding s(4) using s by (simp add: mod_wrap)
  show ?thesis
  proof (cases "q_head q < q_tail q")
    case True
    then have w: "q_head q + length xs < ?cap" using t s(2,3) by (auto split: if_splits)
    have "take (length xs) (drop (q_head q) (elems (q_array q))) = xs"
    proof (rule nth_equalityI)
      fix i assume "i < length (take (length xs) (drop (q_head q) (elems (q_array q))))"
      then show "take (length xs) (drop (q_head q) (elems (q_array q))) ! i = xs ! i"
        using c [of i] w by simp
    qed (use w in simp)
    with True w show ?thesis by simp
  next
    case False
    then have w: "q_tail q = q_head q + length xs - ?cap" "?cap \<le> q_head q + length xs"
      using t n by (auto split: if_splits)
    have "drop (q_head q) (elems (q_array q)) @ take (q_tail q) (elems (q_array q)) = xs"
    proof (rule nth_equalityI)
      show "length (drop (q_head q) (elems (q_array q)) @ take (q_tail q) (elems (q_array q))) = length xs"
        using w s(2,3) by simp
      fix i assume "i < length (drop (q_head q) (elems (q_array q)) @ take (q_tail q) (elems (q_array q)))"
      then have i: "i < length xs" using w s(2,3) by simp
      have "(q_head q + i) mod ?cap = (if q_head q + i < ?cap then q_head q + i else q_head q + i - ?cap)"
        using s i by (simp add: mod_wrap)
      with c [OF i] i w s(2,3)
      show "(drop (q_head q) (elems (q_array q)) @ take (q_tail q) (elems (q_array q))) ! i = xs ! i"
        by (auto simp: nth_append add.commute [of i] split: if_splits)
    qed
    with False w s(2,3) show ?thesis by simp
  qed
qed

lemma CopyTo_rep:
  assumes "q_rep q xs" "m_typeOfElement a = DATATYPE_CLASS" "index + length xs \<le> m_numOfElements a"
  shows "CopyTo a index q = Inr (q, a\<lparr>elems := take index (elems a) @ xs @ drop (index + length xs) (elems a)\<rparr>)"
proof -
  have sz: "q_size q = length xs" using assms(1) by (simp add: q_rep_def)
  have len: "\<not> int (m_numOfElements a) - int index < int (length xs)" using assms(3) by simp
  show ?thesis
  proof (cases "xs = []")
    case True
    with sz len show ?thesis by (simp add: CopyTo_def)
  next
    case False
    note el = q_elems [OF assms(1) False]
    show ?thesis
    proof (cases "q_head q < q_tail q")
      case True
      with el have e: "take (length xs) (drop (q_head q) (elems (q_array q))) = xs"
        "q_head q + length xs \<le> m_numOfElements (q_array q)" by auto
      show ?thesis
        using True False sz len e assms(2,3)
        by (simp add: CopyTo_def Let_def arrayCopy_def Array_Copy_def copy_elems_def)
    next
      case f: False
      let ?h = "drop (q_head q) (elems (q_array q))" and ?t = "take (q_tail q) (elems (q_array q))"
      from el f have e: "?h @ ?t = xs" "q_tail q \<le> m_numOfElements (q_array q)"
        "m_numOfElements (q_array q) - q_head q + q_tail q = length xs" by auto
      have h: "q_head q < m_numOfElements (q_array q)" using assms(1) by (simp add: q_rep_def)
      let ?fp = "m_numOfElements (q_array q) - q_head q"
      let ?a1 = "a\<lparr>elems := take index (elems a) @ ?h @ drop (index + ?fp) (elems a)\<rparr>"
      have c1: "arrayCopy (q_array q) (q_head q) a index ?fp = Inr (q_array q, ?a1)"
        using assms(2,3) e(3) h by (simp add: arrayCopy_def Array_Copy_def copy_elems_def)
      have l1: "m_numOfElements ?a1 = m_numOfElements a" using assms(3) e(3) by simp
      have tk: "take (index + ?fp) (elems ?a1) = take index (elems a) @ ?h"
        using assms(3) e(3) by simp
      have dr: "drop (index + ?fp + q_tail q) (elems ?a1) = drop (index + length xs) (elems a)"
        using assms(3) e(3) by (simp add: add.commute add.left_commute)
      have c2: "arrayCopy (q_array q) 0 ?a1 (index + ?fp) (q_tail q) =
          Inr (q_array q, a\<lparr>elems := take index (elems a) @ xs @ drop (index + length xs) (elems a)\<rparr>)"
      proof (cases "q_tail q = 0")
        case True
        with e show ?thesis using assms(2) by (simp add: arrayCopy_def Array_Copy_def)
      next
        case False
        have "\<not> q_tail q + (index + ?fp) > m_numOfElements ?a1" unfolding l1 using assms(3) e(3) by simp
        moreover have "copy_elems (elems (q_array q)) 0 (elems ?a1) (index + ?fp) (q_tail q) =
            take index (elems a) @ xs @ drop (index + length xs) (elems a)"
          unfolding copy_elems_def tk dr by (simp add: append_assoc [symmetric] e(1) del: append_assoc) (simp add: e(1))
        ultimately show ?thesis
          using False e(2) assms(2) by (simp add: arrayCopy_def Array_Copy_def del: append_assoc)
      qed
      show ?thesis
        using f False sz len c1 c2 by (simp add: CopyTo_def Let_def)
    qed
  qed
qed

lemma q_set_slot:
  assumes "q_rep q xs" "i < m_numOfElements (q_array q)" "j < m_numOfElements (q_array q)"
  shows "(elems (q_array q))[(q_head q + i) mod m_numOfElements (q_array q) := v] !
      ((q_head q + j) mod m_numOfElements (q_array q)) = (if j = i then v else q_slot q j)"
  using assms mod_slot_inj [of "q_head q" "m_numOfElements (q_array q)" i j]
  by (auto simp: q_rep_def q_slot_def nth_list_update)

lemma Enqueue_room:
  assumes "q_rep q xs" "length xs < m_numOfElements (q_array q)"
  shows "\<exists>q'. Enqueue mem v q = Inr q' \<and> q_rep q' (xs @ [v])"
proof -
  let ?cap = "m_numOfElements (q_array q)"
  from assms have s: "0 < ?cap" "q_head q < ?cap" "q_size q = length xs" "q_tail q = (q_head q + length xs) mod ?cap"
    by (auto simp: q_rep_def)
  let ?q = "q\<lparr>q_array := (q_array q)\<lparr>elems := (elems (q_array q))[q_tail q := v]\<rparr>,
    q_tail := (q_tail q + 1) mod ?cap, q_size := q_size q + 1\<rparr>"
  have "Enqueue mem v q = Inr ?q"
    using s assms(2) by (simp add: Enqueue_def SetElement_def)
  moreover have "q_rep ?q (xs @ [v])"
  proof -
    have t: "(q_tail q + 1) mod ?cap = (q_head q + (length xs + 1)) mod ?cap"
      unfolding s(4) by (simp add: mod_add_left_eq mod_Suc_eq)
    have sl: "q_slot ?q j = (if j < Suc (length xs) then (xs @ [v]) ! j else 0)" if j: "j < ?cap" for j
    proof -
      have "q_slot ?q j = (if j = length xs then v else q_slot q j)"
        using q_set_slot [OF assms(1,2) j, of v] unfolding s(4) [symmetric] q_slot_def [of ?q] by simp
      moreover have "q_slot q j = (if j < length xs then xs ! j else 0)"
        using assms(1) j by (simp add: q_rep_def)
      ultimately show ?thesis by (auto simp: nth_append less_Suc_eq)
    qed
    show ?thesis
      unfolding q_rep_def using assms s t sl by (simp add: q_rep_def)
  qed
  ultimately show ?thesis by blast
qed

lemma grow_queue_rep:
  assumes "q_rep q xs" "mem (m_numOfElements (q_array q) * 2)" "length xs = m_numOfElements (q_array q)"
  shows "\<exists>q'. grow_queue mem q = Inr q' \<and> q_rep q' xs \<and> m_numOfElements (q_array q') = 2 * m_numOfElements (q_array q)"
proof -
  let ?n = "length xs"
  have s: "0 < ?n" "q_size q = ?n" using assms(1,3) by (auto simp: q_rep_def)
  have "CopyTo \<lparr>m_typeOfElement = DATATYPE_CLASS, elems = replicate (?n * 2) 0\<rparr> 0 q =
      Inr (q, \<lparr>m_typeOfElement = DATATYPE_CLASS, elems = xs @ replicate ?n 0\<rparr>)"
    using CopyTo_rep [OF assms(1), of "\<lparr>m_typeOfElement = DATATYPE_CLASS, elems = replicate (?n * 2) 0\<rparr>" 0] by simp
  then have "grow_queue mem q = Inr (q\<lparr>q_array := \<lparr>m_typeOfElement = DATATYPE_CLASS, elems = xs @ replicate ?n 0\<rparr>,
      q_head := 0, q_tail := ?n\<rparr>)"
    using assms(2,3) s(2) by (simp add: grow_queue_def CreateInstance_def)
  moreover have "q_rep (q\<lparr>q_array := \<lparr>m_typeOfElement = DATATYPE_CLASS, elems = xs @ replicate ?n 0\<rparr>,
      q_head := 0, q_tail := ?n\<rparr>) xs"
    using s by (auto simp: q_rep_def q_slot_def nth_append)
  ultimately show ?thesis using assms(3) by auto
qed

lemma Enqueue_rep:
  assumes "q_rep q xs"
  shows "if length xs < m_numOfElements (q_array q) \<or> mem (m_numOfElements (q_array q) * 2)
    then \<exists>q'. Enqueue mem v q = Inr q' \<and> q_rep q' (xs @ [v])
    else Enqueue mem v q = Inl CLR_E_OUT_OF_MEMORY"
proof (cases "length xs < m_numOfElements (q_array q)")
  case True
  with Enqueue_room [OF assms] show ?thesis by simp
next
  case False
  with assms have full: "length xs = m_numOfElements (q_array q)" "q_size q = m_numOfElements (q_array q)"
    by (auto simp: q_rep_def)
  show ?thesis
  proof (cases "mem (m_numOfElements (q_array q) * 2)")
    case True
    obtain q1 where g: "grow_queue mem q = Inr q1" "q_rep q1 xs"
      "m_numOfElements (q_array q1) = 2 * m_numOfElements (q_array q)"
      using grow_queue_rep [of q xs mem, OF assms True full(1)] by blast
    have room: "length xs < m_numOfElements (q_array q1)" using g(3) full(1) assms by (auto simp: q_rep_def)
    moreover have "q_size q1 = length xs" using g(2) by (simp add: q_rep_def)
    ultimately have "Enqueue mem v q = Enqueue mem v q1"
      using g(1) full(2) by (simp add: Enqueue_def)
    with Enqueue_room [OF g(2) room] True show ?thesis by auto
  next
    case False
    with full show ?thesis by (simp add: Enqueue_def grow_queue_def CreateInstance_def)
  qed
qed

lemma Dequeue_rep:
  assumes "q_rep q xs"
  shows "case xs of [] \<Rightarrow> Dequeue q = Inl CLR_E_INVALID_OPERATION
    | x # ys \<Rightarrow> \<exists>q'. Dequeue q = Inr (q', x) \<and> q_rep q' ys"
proof (cases xs)
  case Nil
  with assms show ?thesis by (simp add: Dequeue_def q_rep_def)
next
  case (Cons x ys)
  let ?cap = "m_numOfElements (q_array q)"
  from assms Cons have s: "0 < ?cap" "q_head q < ?cap" "q_size q = Suc (length ys)" "Suc (length ys) \<le> ?cap"
    "q_tail q = (q_head q + Suc (length ys)) mod ?cap" and c: "\<forall>i<?cap. q_slot q i = (if i < length xs then xs ! i else 0)"
    by (auto simp: q_rep_def)
  let ?q = "q\<lparr>q_array := (q_array q)\<lparr>elems := (elems (q_array q))[q_head q := 0]\<rparr>,
    q_head := (q_head q + 1) mod ?cap, q_size := q_size q - 1\<rparr>"
  have x: "elems (q_array q) ! q_head q = x"
    using c s(1,2) Cons by (force simp: q_slot_def)
  have "Dequeue q = Inr (?q, x)"
    using s x by (simp add: Dequeue_def GetElement_def SetElement_def)
  moreover have "q_rep ?q ys"
  proof -
    have "q_slot ?q j = (if j < length ys then ys ! j else 0)" if j: "j < ?cap" for j
    proof -
      have idx: "(q_head ?q + j) mod ?cap = (q_head q + (j + 1) mod ?cap) mod ?cap"
        by (simp add: mod_add_left_eq mod_add_right_eq add.assoc add.commute)
      have h0: "(q_head q + 0) mod ?cap = q_head q" using s(2) by simp
      have "q_slot ?q j = (if (j + 1) mod ?cap = 0 then 0 else q_slot q ((j + 1) mod ?cap))"
        using q_set_slot [OF assms s(1), of "(j + 1) mod ?cap" 0] s(1,2) idx
        unfolding q_slot_def [of ?q] by simp
      moreover have "(j + 1) mod ?cap = (if j + 1 < ?cap then j + 1 else 0)"
        using j by (simp add: mod_if)
      ultimately show ?thesis
        using c j Cons s(4) by (auto simp: nth_Cons')
    qed
    moreover have "((q_head q + 1) mod ?cap + length ys) mod ?cap = q_tail q"
      unfolding s(5) by (simp add: mod_add_left_eq)
    ultimately show ?thesis
      using assms s Cons by (simp add: q_rep_def)
  qed
  ultimately show ?thesis by (simp add: Cons)
qed

lemma Queue_Clear_rep:
  assumes "q_rep q xs"
  shows "\<exists>q'. Queue_Clear q = Inr q' \<and> q_rep q' [] \<and> m_numOfElements (q_array q') = m_numOfElements (q_array q)"
proof -
  let ?cap = "m_numOfElements (q_array q)"
  from assms have s: "0 < ?cap" "q_head q < ?cap" "length xs \<le> ?cap" "q_size q = length xs"
    "m_typeOfElement (q_array q) = DATATYPE_CLASS" "q_tail q = (q_head q + length xs) mod ?cap"
    by (auto simp: q_rep_def)
  have z: "elems (q_array q) ! ((q_head q + i) mod ?cap) = 0" if "length xs \<le> i" "i < ?cap" for i
    using assms that by (auto simp: q_rep_def q_slot_def)
  have z': "elems (q_array q) ! j = 0" if "j < ?cap" "j < q_head q \<or> q_head q + length xs \<le> j" "j + ?cap \<ge> q_head q + length xs" for j
    using that s z [of "if q_head q \<le> j then j - q_head q else j + ?cap - q_head q"] by (auto split: if_splits)
  have t: "q_tail q = (if q_head q + length xs < ?cap then q_head q + length xs else q_head q + length xs - ?cap)"
    unfolding s(6) using s by (simp add: mod_wrap)
  have empty: "q_rep (q\<lparr>q_array := a, q_size := 0, q_head := 0, q_tail := 0\<rparr>) []"
    if "elems a = replicate ?cap 0" "m_typeOfElement a = DATATYPE_CLASS" for a
    using that s(1) by (simp add: q_rep_def q_slot_def)
  show ?thesis
  proof (cases "xs = []")
    case True
    have "elems (q_array q) = replicate ?cap 0"
      by (rule nth_equalityI) (use z' True s in \<open>auto simp: linorder_not_less [symmetric]\<close>)
    with True s empty [of "q_array q"] show ?thesis by (simp add: Queue_Clear_def)
  next
    case ne: False
    show ?thesis
    proof (cases "q_head q < q_tail q")
      case True
      then have w: "q_head q + length xs < ?cap" using t s by (auto split: if_splits)
      let ?e = "take (q_head q) (elems (q_array q)) @ replicate (length xs) 0 @ drop (q_head q + length xs) (elems (q_array q))"
      have "?e = replicate ?cap 0"
        using w z' by (intro nth_equalityI) (auto simp: nth_append)
      with w ne True s empty [of "(q_array q)\<lparr>elems := ?e\<rparr>"] show ?thesis
        by (simp add: Queue_Clear_def ClearElements_def Let_def)
    next
      case False
      then have w: "q_tail q = q_head q + length xs - ?cap" "?cap \<le> q_head q + length xs"
        using t ne by (auto split: if_splits)
      let ?e1 = "take (q_head q) (elems (q_array q)) @ replicate (?cap - q_head q) 0"
      let ?e = "replicate (q_tail q) 0 @ drop (q_tail q) ?e1"
      have "?e = replicate ?cap 0"
        using w s z' by (intro nth_equalityI) (auto simp: nth_append)
      with w ne False s empty [of "(q_array q)\<lparr>elems := ?e\<rparr>"] show ?thesis
        by (simp add: Queue_Clear_def ClearElements_def Let_def)
    qed
  qed
qed

text \<open>The queue as a provider of the contract of a queue: a failed \<open>Enqueue\<close> changes nothing.\<close>

definition q_offer :: "(nat \<Rightarrow> bool) \<Rightarrow> ObjQueue \<Rightarrow> nat \<Rightarrow> ObjQueue \<times> bool" where
  "q_offer mem q v = (case Enqueue mem v q of Inl e \<Rightarrow> (q, False) | Inr q' \<Rightarrow> (q', True))"

definition q_remove :: "ObjQueue \<Rightarrow> ObjQueue \<times> nat option" where
  "q_remove q = (case Dequeue q of Inl e \<Rightarrow> (q, None) | Inr (q', v) \<Rightarrow> (q', Some v))"

interpretation oq: fifo q_rep "\<lambda>_ _. True" "q_offer mem" q_remove for mem
proof
  show "q_rep s' (if ok then xs @ [a] else xs)"
    if "q_rep s xs" "q_offer mem s a = (s', ok)" for s xs s' a ok
    using Enqueue_rep [OF that(1), of mem a] that by (auto simp: q_offer_def split: if_splits)
  show "case xs of [] \<Rightarrow> r = None \<and> q_rep s' [] | x # ys \<Rightarrow> r = Some x \<and> q_rep s' ys"
    if "q_rep s xs" "q_remove s = (s', r)" for s s' xs r
    using Dequeue_rep [OF that(1)] that by (cases xs) (auto simp: q_remove_def)
qed

section \<open>The stack as a list\<close>

text \<open>The top of the stack is the lowest used index, the head of the list.\<close>

definition s_rep :: "ObjStack \<Rightarrow> nat list \<Rightarrow> bool" where
  "s_rep s xs \<longleftrightarrow>
     0 < m_numOfElements (s_array s) \<and> s_size s = length xs \<and>
     (\<exists>k. elems (s_array s) = replicate k 0 @ xs)"

lemma Stack_Pop_rep:
  assumes "s_rep s xs"
  shows "case xs of [] \<Rightarrow> Stack_Pop s = Inl CLR_E_INVALID_OPERATION
    | x # ys \<Rightarrow> \<exists>s'. Stack_Pop s = Inr (s', x) \<and> s_rep s' ys"
proof (cases xs)
  case Nil
  with assms show ?thesis by (simp add: s_rep_def Stack_Pop_def)
next
  case (Cons x ys)
  with assms obtain k where k: "elems (s_array s) = replicate k 0 @ x # ys" "s_size s = Suc (length ys)"
    by (auto simp: s_rep_def)
  have "replicate k 0 @ 0 # ys = replicate (Suc k) 0 @ ys"
    by (simp add: replicate_app_Cons_same)
  with k Cons show ?thesis
    by (auto simp: Stack_Pop_def GetElement_def SetElement_def s_rep_def list_update_append nth_append
        simp del: replicate_Suc)
qed

lemma grow_stack_rep:
  assumes "s_rep s xs" "s_size s = m_numOfElements (s_array s)" "mem (m_numOfElements (s_array s) * 2)"
  shows "\<exists>s'. grow_stack mem s = Inr s' \<and> s_rep s' xs \<and> s_size s' < m_numOfElements (s_array s')"
proof -
  from assms have k: "elems (s_array s) = xs" "s_size s = length xs" "0 < length xs"
    by (auto simp: s_rep_def)
  have "copy_elems xs 0 (replicate (length xs * 2) 0) (length xs) (length xs) = replicate (length xs) 0 @ xs"
    by (simp add: copy_elems_def min_def)
  with k assms(2,3) show ?thesis
    by (auto simp: grow_stack_def CreateInstance_def s_rep_def)
qed

lemma Stack_Push_rep:
  assumes "s_rep s xs"
  shows "if length xs < m_numOfElements (s_array s) \<or> mem (m_numOfElements (s_array s) * 2)
    then \<exists>s'. Stack_Push mem v s = Inr s' \<and> s_rep s' (v # xs)
    else Stack_Push mem v s = Inl CLR_E_OUT_OF_MEMORY"
proof -
  have room: "\<exists>s'. Stack_Push mem v s = Inr s' \<and> s_rep s' (v # xs)"
    if "s_rep s xs" "s_size s < m_numOfElements (s_array s)" for s
  proof -
    from that obtain k0 where k0: "elems (s_array s) = replicate k0 0 @ xs" "s_size s = length xs" "0 < k0"
      by (auto simp: s_rep_def)
    then obtain k where k: "elems (s_array s) = replicate (Suc k) 0 @ xs"
      by (cases k0) auto
    note k = k k0(2)
    have "replicate (Suc k) 0 @ xs = replicate k 0 @ 0 # xs"
      by (simp add: replicate_app_Cons_same)
    then have "(replicate (Suc k) 0 @ xs)[k := v] = replicate k 0 @ v # xs"
      by (simp add: list_update_append del: replicate_Suc)
    with k show ?thesis
      by (auto simp: Stack_Push_def SetElement_def s_rep_def Let_def simp del: replicate_Suc)
  qed
  have sz: "s_size s = length xs" "length xs \<le> m_numOfElements (s_array s)"
    using assms by (auto simp: s_rep_def)
  show ?thesis
  proof (cases "length xs < m_numOfElements (s_array s)")
    case True
    with room [OF assms] sz show ?thesis by simp
  next
    case False
    with sz have full: "s_size s = m_numOfElements (s_array s)" by simp
    show ?thesis
    proof (cases "mem (m_numOfElements (s_array s) * 2)")
      case True
      obtain s1 where g: "grow_stack mem s = Inr s1" "s_rep s1 xs" "s_size s1 < m_numOfElements (s_array s1)"
        using grow_stack_rep [of s xs mem, OF assms full True] by blast
      have "Stack_Push mem v s = Stack_Push mem v s1"
        using g(1,3) full by (simp add: Stack_Push_def)
      with room [OF g(2,3)] True show ?thesis by simp
    next
      case False
      with full sz show ?thesis by (simp add: Stack_Push_def grow_stack_def CreateInstance_def)
    qed
  qed
qed

lemma Stack_Clear_rep:
  assumes "s_rep s xs"
  shows "\<exists>s'. Stack_Clear s = Inr s' \<and> s_rep s' []"
  using assms
  by (auto simp: s_rep_def Stack_Clear_def ClearElements_def simp flip: replicate_add)

section \<open>Properties\<close>

text \<open>
  C26: The array list is a list. For every list (the empty one included) and every index:
  appending and inserting succeed exactly when the array has room or the memory for the grown
  one can be had (else they answer out of memory), and then do to the contents what the list
  operations do, whatever the growth and the shifting loops did to the array, the append
  answering the index of the new element; removing, reading and writing at an index do the same,
  and clearing empties; an index outside the list is out of range for each of them. The bound on
  the size is that of \<^verbatim>\<open>CLR_INT32\<close>: with \<open>2^31 - 1\<close> elements the size asked for would wrap.
\<close>

theorem array_list_is_list:
  assumes "al_rep l xs" "length xs < 2 ^ 31 - 1"
  shows "(if can_hold_more mem l then \<exists>l'. Add mem v l = Inr (l', length xs) \<and> al_rep l' (xs @ [v])
      else Add mem v l = Inl CLR_E_OUT_OF_MEMORY) \<and>
    (if i < 0 \<or> i > int (length xs) then Insert_at mem i v l = Inl CLR_E_OUT_OF_RANGE
     else if can_hold_more mem l
       then \<exists>l'. Insert_at mem i v l = Inr l' \<and> al_rep l' (take (nat i) xs @ v # drop (nat i) xs)
     else Insert_at mem i v l = Inl CLR_E_OUT_OF_MEMORY) \<and>
    (if i < 0 \<or> i \<ge> int (length xs)
     then RemoveAt i l = Inl CLR_E_OUT_OF_RANGE \<and> GetItem i l = Inl CLR_E_OUT_OF_RANGE \<and>
       SetItem i v l = Inl CLR_E_OUT_OF_RANGE
     else (\<exists>l'. RemoveAt i l = Inr l' \<and> al_rep l' (take (nat i) xs @ drop (Suc (nat i)) xs)) \<and>
       GetItem i l = Inr (xs ! nat i) \<and>
       (\<exists>l'. SetItem i v l = Inr l' \<and> al_rep l' (xs[nat i := v]))) \<and>
    (\<exists>l'. ArrayList_Clear l = Inr l' \<and> al_rep l' [])"
  (is "?add \<and> ?ins \<and> ?acc \<and> ?clear")
proof (intro conjI)
  show ?add by (rule Add_rep [OF assms])
  show ?ins
    using Insert_rep [OF assms, of "nat i" mem v] assms(1) by (auto simp: al_rep_def Insert_at_def)
  show ?acc
    using RemoveAt_rep [OF assms(1), of "nat i"] assms(1)
    by (auto simp: al_rep_def RemoveAt_def GetItem_def SetItem_def GetElement_def SetElement_def nth_append
        list_update_append Let_def)
  show ?clear
    using assms(1) by (auto simp: al_rep_def ArrayList_Clear_def ClearElements_def simp flip: replicate_add)
qed

theorem array_list_is_list_witness:
  "\<exists>li. Insert_at (\<lambda>n. True) 1 9 \<lparr>al_items = \<lparr>m_typeOfElement = DATATYPE_CLASS, elems = [5, 6]\<rparr>, al_size = 2\<rparr> = Inr li
    \<and> al_rep li [5, 9, 6]"
proof -
  have r: "al_rep \<lparr>al_items = \<lparr>m_typeOfElement = DATATYPE_CLASS, elems = [5, 6]\<rparr>, al_size = 2\<rparr> [5, 6]"
    by (simp add: al_rep_def)
  show ?thesis
    using array_list_is_list [OF r, of "\<lambda>n. True" 9 1] by (simp add: can_hold_more_def)
qed

text \<open>
  The object queue is first in first out through every growth: after any run of enqueues
  (failed ones included) and dequeues from a new queue, the objects dequeued followed by the ones
  still queued are exactly the objects enqueued successfully, in order.
\<close>

lemma object_queue_is_fifo:
  assumes "0 < n" "oq.reach mem \<lparr>q_array = \<lparr>m_typeOfElement = DATATYPE_CLASS, elems = replicate n 0\<rparr>,
      q_head = 0, q_tail = 0, q_size = 0\<rparr> acc out q"
  shows "\<exists>ys. q_rep q ys \<and> acc = out @ ys \<and> q_size q = length ys"
proof -
  have "q_rep \<lparr>q_array = \<lparr>m_typeOfElement = DATATYPE_CLASS, elems = replicate n 0\<rparr>,
      q_head = 0, q_tail = 0, q_size = 0\<rparr> []"
    using assms(1) by (simp add: q_rep_def q_slot_def)
  from oq.in_order [OF assms(2) this] show ?thesis by (auto simp: q_rep_def)
qed

lemma object_queue_is_fifo_witness:
  "\<exists>q ys. q_rep q ys \<and> [5, 6] = [5] @ ys \<and> m_numOfElements (q_array q) = 2"
proof -
  define q0 where "q0 = \<lparr>q_array = \<lparr>m_typeOfElement = DATATYPE_CLASS, elems = replicate 1 0\<rparr>,
      q_head = 0, q_tail = 0, q_size = 0\<rparr>"
  define q1 where "q1 = fst (q_offer (\<lambda>n. True) q0 5)"
  define q2 where "q2 = fst (q_offer (\<lambda>n. True) q1 6)"
  define q3 where "q3 = fst (q_remove q2)"
  note defs = q_offer_def q_remove_def Enqueue_def Dequeue_def grow_queue_def CreateInstance_def
    CopyTo_def arrayCopy_def Array_Copy_def copy_elems_def GetElement_def SetElement_def Let_def
  have q1: "q1 = \<lparr>q_array = \<lparr>m_typeOfElement = DATATYPE_CLASS, elems = [5]\<rparr>, q_head = 0, q_tail = 0, q_size = 1\<rparr>"
    "q_offer (\<lambda>n. True) q0 5 = (q1, True)"
    by (simp_all add: q0_def q1_def defs)
  have q2: "q2 = \<lparr>q_array = \<lparr>m_typeOfElement = DATATYPE_CLASS, elems = [5, 6]\<rparr>, q_head = 0, q_tail = 0, q_size = 2\<rparr>"
    "q_offer (\<lambda>n. True) q1 6 = (q2, True)"
    by (simp_all add: q2_def q1(1) defs numeral_2_eq_2)
  have q3: "q_remove q2 = (q3, Some 5)" "m_numOfElements (q_array q3) = 2"
    by (simp_all add: q3_def q2(1) defs)
  have "oq.reach (\<lambda>n. True) q0 [5] [] q1"
    using oq.reach.offer [OF oq.reach.start, of "\<lambda>n. True" q0 5 q1 True] q1(2) by simp
  then have "oq.reach (\<lambda>n. True) q0 [5, 6] [] q2"
    using oq.reach.offer [of "\<lambda>n. True" q0 "[5]" "[]" q1 6 q2 True] q2(2) by simp
  then have "oq.reach (\<lambda>n. True) q0 [5, 6] [5] q3"
    using oq.reach.remove [of "\<lambda>n. True" q0 "[5, 6]" "[]" q2 q3 "Some 5"] q3 by simp
  from object_queue_is_fifo [OF _ this [unfolded q0_def]] q3(2) show ?thesis by auto
qed

text \<open>
  The object stack is last in first out: a push succeeds exactly when there is room or the
  doubled array can be had, the pushed object is the one a pop then answers, and the pop gives
  back the contents before the push, whether or not the push grew the array.
\<close>

lemma object_stack_is_lifo:
  assumes "s_rep s xs"
  shows "if length xs < m_numOfElements (s_array s) \<or> mem (m_numOfElements (s_array s) * 2)
    then \<exists>s' s''. Stack_Push mem v s = Inr s' \<and> Stack_Peek s' = Inr v \<and> Stack_Pop s' = Inr (s'', v) \<and> s_rep s'' xs
    else Stack_Push mem v s = Inl CLR_E_OUT_OF_MEMORY"
proof -
  have "\<exists>s''. Stack_Peek s' = Inr v \<and> Stack_Pop s' = Inr (s'', v) \<and> s_rep s'' xs" if "s_rep s' (v # xs)" for s'
    using Stack_Pop_rep [OF that] that by (auto simp: s_rep_def Stack_Peek_def GetElement_def nth_append)
  then show ?thesis
    using Stack_Push_rep [OF assms, of mem v] by (auto split: if_splits)
qed

lemma object_stack_is_lifo_witness:
  "\<exists>s'. Stack_Push (\<lambda>n. True) 7 \<lparr>s_array = \<lparr>m_typeOfElement = DATATYPE_CLASS, elems = [5]\<rparr>, s_size = 1\<rparr> = Inr s'
    \<and> Stack_Peek s' = Inr 7"
proof -
  have "s_rep \<lparr>s_array = \<lparr>m_typeOfElement = DATATYPE_CLASS, elems = [5]\<rparr>, s_size = 1\<rparr> [5]"
    by (simp add: s_rep_def)
  from object_stack_is_lifo [OF this, of "\<lambda>n. True" 7] show ?thesis by auto
qed

text \<open>
  The fast path of the queue's copy is wired backwards: into an array with element type
  \<open>OBJECT\<close>, a queue that does not wrap copies nothing, answers success, and overwrites its own
  objects with the elements of the target.
\<close>

lemma fast_copy_is_backwards:
  assumes "q_rep q xs" "q_head q < q_tail q" "m_typeOfElement a = DATATYPE_OBJECT" "length xs \<le> m_numOfElements a"
  shows "\<exists>q'. CopyTo a 0 q = Inr (q', a) \<and>
    take (length xs) (drop (q_head q) (elems (q_array q'))) = take (length xs) (elems a)"
proof -
  have ne: "xs \<noteq> []" using assms(1,2) by (auto simp: q_rep_def)
  have sz: "q_size q = length xs" using assms(1) by (simp add: q_rep_def)
  have w: "q_head q + length xs \<le> m_numOfElements (q_array q)"
    using q_elems [OF assms(1) ne] assms(2) by simp
  show ?thesis
    using assms(2-4) ne sz w
    by (simp add: CopyTo_def Let_def arrayCopy_def ObjArrayMemcpy_def copy_elems_def)
qed

lemma fast_copy_is_backwards_witness:
  "\<exists>q'. CopyTo \<lparr>m_typeOfElement = DATATYPE_OBJECT, elems = [0, 0]\<rparr> 0
      \<lparr>q_array = \<lparr>m_typeOfElement = DATATYPE_CLASS, elems = [5, 0]\<rparr>, q_head = 0, q_tail = 1, q_size = 1\<rparr>
    = Inr (q', \<lparr>m_typeOfElement = DATATYPE_OBJECT, elems = [0, 0]\<rparr>)"
proof -
  have "q_rep \<lparr>q_array = \<lparr>m_typeOfElement = DATATYPE_CLASS, elems = [5, 0]\<rparr>, q_head = 0, q_tail = 1, q_size = 1\<rparr> [5]"
    by (auto simp: q_rep_def q_slot_def less_Suc_eq numeral_2_eq_2)
  from fast_copy_is_backwards [OF this, of "\<lparr>m_typeOfElement = DATATYPE_OBJECT, elems = [0, 0]\<rparr>"] show ?thesis by auto
qed

end
