(* ===== verification/UnicodeHelper.thy ===== *)
theory UnicodeHelper imports NetMF_Prelude begin

text \<open>
  The conversion between UTF-8 and UTF-16, \<^verbatim>\<open>CLR_RT_UnicodeHelper\<close> of
  \<^verbatim>\<open>src/CLR/Core/CLR_RT_UnicodeHelper.cpp\<close>. An input pointer is the list of the units from
  it to the end of the buffer; a read past that end makes an operation \<open>None\<close>. An output pointer
  is the list of the units written before it, with the room left as the code counts it and a
  flag for the terminator written at it. Counts of characters are integers that do not wrap: the product
  \<open>3 * iMaxChars\<close> overflows in the code only for counts that no buffer of the runtime has. The lemmas compare the conversions with the two
  encoding forms of a code point, written as arithmetic.
\<close>

unbundle bit_operations_syntax

section \<open>The converter\<close>

record UnicodeHelper =
  m_inputUTF8 :: "u8 list"
  m_inputUTF16 :: "u16 list"
  m_outputUTF8 :: "u8 list"
  m_outputUTF8_size :: int
  m_endUTF8 :: bool
  m_outputUTF16 :: "u16 list"
  m_outputUTF16_size :: int
  m_endUTF16 :: bool

definition SURROGATE_HALFSHIFT :: nat where "SURROGATE_HALFSHIFT = 10"
definition SURROGATE_HALFBASE :: u32 where "SURROGATE_HALFBASE = 0x00010000"
definition SURROGATE_HALFMASK :: u32 where "SURROGATE_HALFMASK = 0x000003FF"
definition HIGH_SURROGATE_START :: u32 where "HIGH_SURROGATE_START = 0xD800"
definition HIGH_SURROGATE_END :: u32 where "HIGH_SURROGATE_END = 0xDBFF"
definition LOW_SURROGATE_START :: u32 where "LOW_SURROGATE_START = 0xDC00"
definition LOW_SURROGATE_END :: u32 where "LOW_SURROGATE_END = 0xDFFF"

lemmas surrogate_defs = SURROGATE_HALFSHIFT_def SURROGATE_HALFBASE_def SURROGATE_HALFMASK_def
  HIGH_SURROGATE_START_def HIGH_SURROGATE_END_def LOW_SURROGATE_START_def LOW_SURROGATE_END_def

section \<open>Counting\<close>

definition UTF8_BAD_LOWPART :: "u8 \<Rightarrow> bool" where
  "UTF8_BAD_LOWPART ch \<longleftrightarrow> ch < 0x80 \<or> ch > 0xBF"

text \<open>A run of \<open>UTF8_CHECK_LOWPART\<close>: whether every byte passed, and the input behind them.\<close>

fun check_lowparts :: "nat \<Rightarrow> u8 list \<Rightarrow> (bool \<times> u8 list) option" where
  "check_lowparts 0 src = Some (True, src)"
| "check_lowparts (Suc k) [] = None"
| "check_lowparts (Suc k) (ch # src) =
     (if UTF8_BAD_LOWPART ch then Some (False, src) else check_lowparts k src)"

lemma check_lowparts_length: "check_lowparts k src = Some (ok, src') \<Longrightarrow> length src' \<le> length src"
  by (induction k src rule: check_lowparts.induct) (auto split: if_splits)

function count_characters :: "int \<Rightarrow> int \<Rightarrow> u8 list \<Rightarrow> int option" where
  "count_characters mx num [] = None"
| "count_characters mx num (ch # src) =
     (if ch = 0 then Some num
      else if mx = 0 then Some num
      else
        (let hi = ch AND 0xF0; mx = mx - 1 in
         if hi < 0x80 then count_characters mx (num + 1) src
         else if hi < 0xC0 then Some (- 1)
         else
           (let (n, units) = (if hi < 0xE0 then (1, 1) else if hi = 0xE0 then (2, 1) else (3, 2)) in
            case check_lowparts n src of
              None \<Rightarrow> None
            | Some (ok, src') \<Rightarrow> (if ok then count_characters mx (num + units) src' else Some (- 1)))))"
  by pat_completeness auto
termination
  by (relation "measure (\<lambda>(mx, num, src). length src)") (auto dest!: check_lowparts_length)

definition CountNumberOfCharacters :: "int \<Rightarrow> UnicodeHelper \<Rightarrow> int option" where
  "CountNumberOfCharacters mx h = count_characters mx 0 (m_inputUTF8 h)"

function count_bytes :: "int \<Rightarrow> int \<Rightarrow> u16 list \<Rightarrow> int option" where
  "count_bytes mx num [] = None"
| "count_bytes mx num (u # src) =
     (let ch = ucast u :: u32 in
      if ch = 0 then Some num
      else if mx = 0 then Some num
      else
        (let mx = mx - 1 in
         if ch < 0x0080 then count_bytes mx (num + 1) src
         else if ch < 0x0800 then count_bytes mx (num + 2) src
         else if ch \<ge> LOW_SURROGATE_START \<and> ch \<le> LOW_SURROGATE_END then Some (- 1)
         else if ch \<ge> HIGH_SURROGATE_START \<and> ch \<le> HIGH_SURROGATE_END then
           (case src of
              [] \<Rightarrow> None
            | u' # src' \<Rightarrow>
                (let ch = ucast u' :: u32 in
                 if ch \<ge> LOW_SURROGATE_START \<and> ch \<le> LOW_SURROGATE_END
                 then count_bytes mx (num + 4) src' else Some (- 1)))
         else count_bytes mx (num + 3) src))"
  by pat_completeness auto
termination by (relation "measure (\<lambda>(mx, num, src). length src)") auto

definition CountNumberOfBytes :: "int \<Rightarrow> UnicodeHelper \<Rightarrow> int option" where
  "CountNumberOfBytes mx h = count_bytes mx 0 (m_inputUTF16 h)"

section \<open>From UTF-8\<close>

text \<open>What one round of a conversion loop does: go on with the new bounds, or leave.\<close>

datatype round = More UnicodeHelper int int | ExitFalse UnicodeHelper | Break UnicodeHelper

definition put16 :: "u16 list \<Rightarrow> UnicodeHelper \<Rightarrow> UnicodeHelper" where
  "put16 us h = h\<lparr>m_outputUTF16 := m_outputUTF16 h @ us, m_outputUTF16_size := m_outputUTF16_size h - int (length us)\<rparr>"

text \<open>\<open>UTF8_LOAD_LOWPART\<close> run \<open>k\<close> times.\<close>

fun load_lowparts :: "nat \<Rightarrow> u32 \<Rightarrow> u8 list \<Rightarrow> (u32 \<times> u8 list) option" where
  "load_lowparts 0 ch2 src = Some (ch2, src)"
| "load_lowparts (Suc k) ch2 [] = None"
| "load_lowparts (Suc k) ch2 (b # src) =
     load_lowparts k (push_bit 6 ch2 OR ((ucast b :: u32) AND 0x3F)) src"

text \<open>
  A character of \<open>1 + k\<close> bytes that takes \<open>n\<close> units: \<open>ch2\<close> holds the bits of the first byte,
  \<open>h\<close> stands before it, \<open>src\<close> is the input behind it.
\<close>

definition multibyte :: "bool \<Rightarrow> nat \<Rightarrow> nat \<Rightarrow> u32 \<Rightarrow> (u32 \<Rightarrow> u16 list) \<Rightarrow> UnicodeHelper \<Rightarrow> u8 list \<Rightarrow> int \<Rightarrow> int \<Rightarrow> round option" where
  "multibyte fJustMove k n ch2 units h src iMaxChars iMaxBytes =
     (if iMaxBytes \<ge> int (Suc k) then
        (if fJustMove then
           Some (More (h\<lparr>m_inputUTF8 := drop k src\<rparr>) (iMaxChars - int n) (iMaxBytes - int (Suc k)))
         else if m_outputUTF16_size h < int n then Some (ExitFalse h)
         else (case load_lowparts k ch2 src of
                 None \<Rightarrow> None
               | Some (ch2, src) \<Rightarrow>
                   Some (More (put16 (units ch2) (h\<lparr>m_inputUTF8 := src\<rparr>))
                     (iMaxChars - int n) (iMaxBytes - int (Suc k)))))
      else Some (ExitFalse h))"

definition surrogates :: "u32 \<Rightarrow> u16 list" where
  "surrogates ch2 =
     [ucast (drop_bit SURROGATE_HALFSHIFT ch2 + HIGH_SURROGATE_START),
      ucast ((ch2 AND SURROGATE_HALFMASK) + LOW_SURROGATE_START)]"

definition from_utf8_round :: "bool \<Rightarrow> UnicodeHelper \<Rightarrow> int \<Rightarrow> int \<Rightarrow> round option" where
  "from_utf8_round fJustMove h iMaxChars iMaxBytes =
     (case m_inputUTF8 h of
        [] \<Rightarrow> None
      | b # src \<Rightarrow>
          (let ch = ucast b :: u32; hi = ch AND 0xF0 in
           if ch = 0 then Some (ExitFalse h)
           else if hi < 0x80 then
             (if fJustMove then Some (More (h\<lparr>m_inputUTF8 := src\<rparr>) (iMaxChars - 1) (iMaxBytes - 1))
              else if m_outputUTF16_size h < 1 then Some (ExitFalse h)
              else Some (More (put16 [ucast ch] (h\<lparr>m_inputUTF8 := src\<rparr>)) (iMaxChars - 1) (iMaxBytes - 1)))
           else if hi < 0xC0 then Some (ExitFalse (h\<lparr>m_inputUTF8 := src\<rparr>))
           else if hi < 0xE0 then
             (if ch AND 0xFF < 0xC2 then Some (ExitFalse h)
              else multibyte fJustMove 1 1 (ch AND 0x1F) (\<lambda>ch2. [ucast ch2]) h src iMaxChars iMaxBytes)
           else if hi = 0xE0 then
             multibyte fJustMove 2 1 (ch AND 0x0F) (\<lambda>ch2. [ucast ch2]) h src iMaxChars iMaxBytes
           else
             (if ch AND 0xFF \<ge> 0xF5 then Some (ExitFalse h)
              else multibyte fJustMove 3 2 (ch AND 0x07) surrogates h src iMaxChars iMaxBytes)))"

lemma from_utf8_round_bytes:
  "from_utf8_round j h c b = Some (More h' c' b') \<Longrightarrow> b' < b"
  by (auto simp: from_utf8_round_def multibyte_def Let_def split: list.splits if_splits option.splits)

function from_utf8 :: "bool \<Rightarrow> UnicodeHelper \<Rightarrow> int \<Rightarrow> int \<Rightarrow> (UnicodeHelper \<times> bool) option" where
  "from_utf8 fJustMove h iMaxChars iMaxBytes =
     (if iMaxChars > 0 \<and> iMaxBytes > 0 then
        (case from_utf8_round fJustMove h iMaxChars iMaxBytes of
           None \<Rightarrow> None
         | Some (More h iMaxChars iMaxBytes) \<Rightarrow> from_utf8 fJustMove h iMaxChars iMaxBytes
         | Some (ExitFalse h) \<Rightarrow> Some (h, False)
         | Some (Break h) \<Rightarrow> Some (h, True))
      else if fJustMove then Some (h, True)
      else if m_outputUTF16_size h < 1 then Some (h, False)
      else Some (h\<lparr>m_endUTF16 := True\<rparr>, True))"
  by auto
termination
  by (relation "measure (\<lambda>(j, h, c, b). nat b)") (auto dest: from_utf8_round_bytes)

declare from_utf8.simps [simp del]

definition ConvertFromUTF8 :: "int \<Rightarrow> bool \<Rightarrow> int \<Rightarrow> UnicodeHelper \<Rightarrow> (UnicodeHelper \<times> bool) option" where
  "ConvertFromUTF8 iMaxChars fJustMove iMaxBytes h =
     from_utf8 fJustMove h iMaxChars (if iMaxBytes = - 1 then iMaxChars * 3 else iMaxBytes)"

section \<open>To UTF-8\<close>

definition put8 :: "u8 list \<Rightarrow> UnicodeHelper \<Rightarrow> UnicodeHelper" where
  "put8 bs h = h\<lparr>m_outputUTF8 := m_outputUTF8 h @ bs, m_outputUTF8_size := m_outputUTF8_size h - int (length bs)\<rparr>"

definition emit8 :: "bool \<Rightarrow> u8 list \<Rightarrow> UnicodeHelper \<Rightarrow> int \<Rightarrow> round option" where
  "emit8 fJustMove bs h iMaxChars =
     (if fJustMove then Some (More h iMaxChars 0)
      else if m_outputUTF8_size h < int (length bs) then Some (ExitFalse h)
      else Some (More (put8 bs h) iMaxChars 0))"

definition lowpart :: "u32 \<Rightarrow> u8" where
  "lowpart ch = ucast (0x80 OR (ch AND 0x3F))"

text \<open>A surrogate pair does not count against \<open>iMaxChars\<close>.\<close>

definition to_utf8_round :: "bool \<Rightarrow> UnicodeHelper \<Rightarrow> int \<Rightarrow> round option" where
  "to_utf8_round fJustMove h iMaxChars =
     (case m_inputUTF16 h of
        [] \<Rightarrow> None
      | u # src \<Rightarrow>
          (let ch = ucast u :: u32; h = h\<lparr>m_inputUTF16 := src\<rparr> in
           if ch < 0x0080 then
             (if ch = 0 then Some (Break h) else emit8 fJustMove [ucast ch] h (iMaxChars - 1))
           else if ch < 0x0800 then
             emit8 fJustMove [ucast (0xC0 OR (drop_bit 6 ch AND 0x1F)), lowpart ch] h (iMaxChars - 1)
           else if ch \<ge> HIGH_SURROGATE_START \<and> ch \<le> HIGH_SURROGATE_END then
             (case src of
                [] \<Rightarrow> None
              | u' # src' \<Rightarrow>
                  (let ch = SURROGATE_HALFBASE + push_bit SURROGATE_HALFSHIFT (ch - HIGH_SURROGATE_START) +
                         ((ucast u' :: u32) - LOW_SURROGATE_START)
                   in emit8 fJustMove
                        [ucast (0xF0 OR (drop_bit 6 (drop_bit 6 (drop_bit 6 ch)) AND 0x07)),
                         lowpart (drop_bit 6 (drop_bit 6 ch)), lowpart (drop_bit 6 ch), lowpart ch]
                        (h\<lparr>m_inputUTF16 := src'\<rparr>) iMaxChars))
           else
             emit8 fJustMove [ucast (0xE0 OR (drop_bit 6 (drop_bit 6 ch) AND 0x0F)), lowpart (drop_bit 6 ch), lowpart ch]
               h (iMaxChars - 1)))"

lemma to_utf8_round_length:
  "to_utf8_round j h c = Some (More h' c' b) \<Longrightarrow> length (m_inputUTF16 h') < length (m_inputUTF16 h)"
  by (auto simp: to_utf8_round_def emit8_def put8_def Let_def split: list.splits if_splits)

definition finish_utf8 :: "bool \<Rightarrow> UnicodeHelper \<Rightarrow> UnicodeHelper \<times> bool" where
  "finish_utf8 fJustMove h =
     (if fJustMove then (h, True)
      else if m_outputUTF8_size h < 1 then (h, False)
      else (h\<lparr>m_endUTF8 := True\<rparr>, True))"

function to_utf8 :: "bool \<Rightarrow> UnicodeHelper \<Rightarrow> int \<Rightarrow> (UnicodeHelper \<times> bool) option" where
  "to_utf8 fJustMove h iMaxChars =
     (if iMaxChars > 0 then
        (case to_utf8_round fJustMove h iMaxChars of
           None \<Rightarrow> None
         | Some (More h iMaxChars b) \<Rightarrow> to_utf8 fJustMove h iMaxChars
         | Some (ExitFalse h) \<Rightarrow> Some (h, False)
         | Some (Break h) \<Rightarrow> Some (finish_utf8 fJustMove h))
      else Some (finish_utf8 fJustMove h))"
  by auto
termination
  by (relation "measure (\<lambda>(j, h, c). length (m_inputUTF16 h))") (auto dest: to_utf8_round_length)

declare to_utf8.simps [simp del]

definition ConvertToUTF8 :: "int \<Rightarrow> bool \<Rightarrow> UnicodeHelper \<Rightarrow> (UnicodeHelper \<times> bool) option" where
  "ConvertToUTF8 iMaxChars fJustMove h = to_utf8 fJustMove h iMaxChars"

section \<open>The encoding forms of a code point\<close>

definition scalar :: "nat \<Rightarrow> bool" where
  "scalar c \<longleftrightarrow> 0 < c \<and> c < 0x110000 \<and> \<not> (0xD800 \<le> c \<and> c < 0xE000)"

definition utf8 :: "nat \<Rightarrow> u8 list" where
  "utf8 c = map of_nat
     (if c < 0x80 then [c]
      else if c < 0x800 then [0xC0 + c div 64, 0x80 + c mod 64]
      else if c < 0x10000 then [0xE0 + c div 4096, 0x80 + c div 64 mod 64, 0x80 + c mod 64]
      else [0xF0 + c div 262144, 0x80 + c div 4096 mod 64, 0x80 + c div 64 mod 64, 0x80 + c mod 64])"

definition utf16 :: "nat \<Rightarrow> u16 list" where
  "utf16 c = map of_nat
     (if c < 0x10000 then [c]
      else [0xD800 + (c - 0x10000) div 1024, 0xDC00 + (c - 0x10000) mod 1024])"

text \<open>What the decoder writes for a code point.\<close>

definition units_written :: "nat \<Rightarrow> u16 list" where
  "units_written c = (if c < 0x10000 then utf16 c else map of_nat [0xD800 + c div 1024, 0xDC00 + c mod 1024])"

section \<open>Bits as arithmetic\<close>

lemma unat_of_nat_u32: "n < 4294967296 \<Longrightarrow> unat (of_nat n :: u32) = n"
  by (simp add: unat_of_nat take_bit_nat_eq_self)

lemma ucast_of_nat_u16_u32: "n < 65536 \<Longrightarrow> (ucast (of_nat n :: u16) :: u32) = of_nat n"
  by (rule word_unat_eq_iff [THEN iffD2]) (simp add: unat_of_nat unsigned_ucast_eq take_bit_nat_eq_self)

lemma ucast_of_nat_u8_u32: "n < 256 \<Longrightarrow> (ucast (of_nat n :: u8) :: u32) = of_nat n"
  by (rule word_unat_eq_iff [THEN iffD2]) (simp add: unat_of_nat unsigned_ucast_eq take_bit_nat_eq_self)

lemma ucast_of_nat_down: "(ucast (of_nat n :: u32) :: u16) = of_nat n" "(ucast (of_nat n :: u32) :: u8) = of_nat n"
  by (simp_all add: word_unat_eq_iff unsigned_ucast_eq unat_of_nat take_bit_eq_mod mod_mod_cancel)

lemma drop_bit_of_nat_u32:
  assumes "n < 4294967296"
  shows "drop_bit k (of_nat n :: u32) = of_nat (n div 2 ^ k)"
proof -
  have "n div 2 ^ k < 4294967296" using assms by (rule order_le_less_trans [OF div_le_dividend])
  then have "unat (drop_bit k (of_nat n :: u32)) = unat (of_nat (n div 2 ^ k) :: u32)"
    unfolding unat_drop_bit_eq unat_of_nat_u32 [OF assms] by (simp only: unat_of_nat_u32 drop_bit_eq_div)
  then show ?thesis by (simp only: word_unat_eq_iff)
qed

lemma and_mask_of_nat_u32: "(of_nat n :: u32) AND mask k = of_nat (n mod 2 ^ k)"
  by (simp flip: take_bit_eq_mask take_bit_eq_mod add: take_bit_of_nat)

lemma masks_u32: "(0x3F :: u32) = mask 6" "(0x1F :: u32) = mask 5" "(0x0F :: u32) = mask 4" "(0x07 :: u32) = mask 3"
  "(0x3FF :: u32) = mask 10" "(0xFF :: u32) = mask 8"
  by (simp_all add: mask_eq_exp_minus_1)

lemma or_of_nat_u32:
  assumes "b < 2 ^ k"
  shows "push_bit k (of_nat a :: u32) OR of_nat b = of_nat (a * 2 ^ k + b)"
proof -
  have "push_bit k a OR b = push_bit k a + b"
  proof (rule disjunctive_add_eq_or [symmetric], rule bit_eqI)
    have "take_bit k b = b" using assms by (simp add: take_bit_nat_eq_self)
    then have "bit b n \<Longrightarrow> n < k" for n by (metis bit_take_bit_iff)
    then show "bit (push_bit k a AND b) n = bit (0 :: nat) n" for n by (auto simp: bit_simps) (meson leD)
  qed
  then show ?thesis
    by (metis of_nat_or_eq push_bit_of_nat push_bit_eq_mult)
qed

lemma lead_of_nat_u32: "push_bit k (of_nat a :: u32) OR (of_nat n AND mask k) = of_nat (a * 2 ^ k + n mod 2 ^ k)"
  unfolding and_mask_of_nat_u32 by (rule or_of_nat_u32) simp

lemma lead_bytes:
  "(0x80 :: u32) OR (of_nat n AND 0x3F) = of_nat (128 + n mod 64)"
  "(0xC0 :: u32) OR (of_nat n AND 0x1F) = of_nat (192 + n mod 32)"
  "(0xE0 :: u32) OR (of_nat n AND 0x0F) = of_nat (224 + n mod 16)"
  "(0xF0 :: u32) OR (of_nat n AND 0x07) = of_nat (240 + n mod 8)"
  using lead_of_nat_u32 [of 6 2 n] lead_of_nat_u32 [of 5 6 n] lead_of_nat_u32 [of 4 14 n] lead_of_nat_u32 [of 3 30 n]
  by (simp_all add: masks_u32 push_bit_eq_mult)

lemma lowpart_of_nat: "lowpart (of_nat n) = of_nat (128 + n mod 64)"
  unfolding lowpart_def lead_bytes ucast_of_nat_down ..

lemma of_nat_u32_less:
  assumes "n < 4294967296"
  shows "(of_nat n :: u32) < numeral k \<longleftrightarrow> n < unat (numeral k :: u32)"
    "(of_nat n :: u32) \<le> numeral k \<longleftrightarrow> n \<le> unat (numeral k :: u32)"
    "numeral k \<le> (of_nat n :: u32) \<longleftrightarrow> unat (numeral k :: u32) \<le> n"
    "(of_nat n :: u32) = 0 \<longleftrightarrow> n = 0"
  using assms by (simp_all add: word_less_nat_alt word_le_nat_alt unat_of_nat_u32 word_unat_eq_iff)

lemma surrogate_value:
  assumes "0x10000 \<le> c" "c < 0x110000"
  shows "SURROGATE_HALFBASE + push_bit SURROGATE_HALFSHIFT (of_nat (0xD800 + (c - 0x10000) div 1024) - HIGH_SURROGATE_START) +
    (of_nat (0xDC00 + (c - 0x10000) mod 1024) - LOW_SURROGATE_START) = of_nat c"
proof -
  have "c = 0x10000 + (c - 0x10000) div 1024 * 1024 + (c - 0x10000) mod 1024" using assms(1) by simp
  then have "(of_nat c :: u32) = of_nat (0x10000 + (c - 0x10000) div 1024 * 1024 + (c - 0x10000) mod 1024)" by simp
  then show ?thesis
    by (simp only: surrogate_defs of_nat_add of_nat_mult of_nat_numeral push_bit_eq_mult) simp
qed

section \<open>To UTF-8\<close>

text \<open>One round writes the encoding of one code point, or leaves when there is no room for it.\<close>

lemma to_utf8_round_scalar:
  assumes "scalar c" "m_inputUTF16 h = utf16 c @ src"
  shows "to_utf8_round False h n =
    (let h = h\<lparr>m_inputUTF16 := src\<rparr> in
     if m_outputUTF8_size h < int (length (utf8 c)) then Some (ExitFalse h)
     else Some (More (put8 (utf8 c) h) (if c < 0x10000 then n - 1 else n) 0))"
proof (cases "c < 0x10000")
  case True
  then have c: "(ucast (of_nat c :: u16) :: u32) = of_nat c" "c < 4294967296" by (simp_all add: ucast_of_nat_u16_u32)
  have "m_inputUTF16 h = of_nat c # src" using assms(2) True by (simp add: utf16_def)
  moreover have "c div 64 mod 32 = c div 64" if "c < 0x800" using that by simp
  moreover have "c div 4096 mod 16 = c div 4096" using True by simp
  moreover have "c \<noteq> 0" "\<not> (0xD800 \<le> c \<and> c \<le> 0xDBFF)" using assms(1) by (auto simp: scalar_def)
  moreover have "drop_bit 6 (of_nat c :: u32) = of_nat (c div 64)" "drop_bit 6 (of_nat (c div 64) :: u32) = of_nat (c div 4096)"
    using True drop_bit_of_nat_u32 [of c 6] drop_bit_of_nat_u32 [of "c div 64" 6] by (simp_all flip: div_mult2_eq)
  ultimately show ?thesis
    using True c
    by (simp add: to_utf8_round_def emit8_def Let_def lowpart_of_nat lead_bytes ucast_of_nat_down of_nat_u32_less
        surrogate_defs utf8_def cong: conj_cong del: of_nat_add of_nat_Suc)
next
  case False
  let ?a = "0xD800 + (c - 0x10000) div 1024" and ?b = "0xDC00 + (c - 0x10000) mod 1024"
  have lt: "c < 0x110000" using assms(1) by (simp add: scalar_def)
  have a: "?a < 65536" "\<not> ?a < 0x800" "0xD800 \<le> ?a" "?a \<le> 0xDBFF" using lt by auto
  have b: "?b < 65536" by simp
  have "m_inputUTF16 h = of_nat ?a # of_nat ?b # src" using assms(2) False by (simp add: utf16_def del: of_nat_add)
  moreover have "drop_bit 6 (of_nat c :: u32) = of_nat (c div 64)" "drop_bit 12 (of_nat c :: u32) = of_nat (c div 4096)"
    "drop_bit 18 (of_nat c :: u32) = of_nat (c div 262144)"
    using lt by (simp_all add: drop_bit_of_nat_u32)
  moreover have "c div 262144 mod 8 = c div 262144" using lt by simp
  ultimately show ?thesis
    using False lt a b ucast_of_nat_u16_u32 [OF a(1)] ucast_of_nat_u16_u32 [OF b] surrogate_value [of c]
    by (simp add: to_utf8_round_def emit8_def Let_def lowpart_of_nat lead_bytes ucast_of_nat_down of_nat_u32_less
        HIGH_SURROGATE_START_def HIGH_SURROGATE_END_def utf8_def del: of_nat_add of_nat_Suc)
qed

lemma utf16_not_Nil: "0 < length (utf16 c)"
  by (simp add: utf16_def)

lemma to_utf8_string:
  assumes "\<forall>c\<in>set cs. scalar c" "m_inputUTF16 h = concat (map utf16 cs) @ 0 # rest"
    "int (length (concat (map utf8 cs))) < m_outputUTF8_size h" "int (length (concat (map utf16 cs))) \<le> n"
  shows "\<exists>h'. to_utf8 False h n = Some (h', True) \<and> m_outputUTF8 h' = m_outputUTF8 h @ concat (map utf8 cs) \<and>
    m_endUTF8 h' \<and> m_outputUTF8_size h' = m_outputUTF8_size h - int (length (concat (map utf8 cs)))"
  using assms
proof (induction cs arbitrary: h n)
  case Nil
  then show ?case
    by (subst to_utf8.simps) (simp add: to_utf8_round_def finish_utf8_def Let_def)
next
  case (Cons c cs)
  let ?h = "put8 (utf8 c) (h\<lparr>m_inputUTF16 := concat (map utf16 cs) @ 0 # rest\<rparr>)"
  let ?n = "if c < 0x10000 then n - 1 else n"
  have n: "n > 0" using Cons.prems(4) utf16_not_Nil [of c] by (simp del: length_greater_0_conv)
  have "to_utf8_round False h n = Some (More ?h ?n 0)"
    using Cons.prems to_utf8_round_scalar [of c h "concat (map utf16 cs) @ 0 # rest" n] by (simp add: Let_def)
  then have "to_utf8 False h n = to_utf8 False ?h ?n"
    using n by (subst to_utf8.simps) simp
  moreover have "\<exists>h'. to_utf8 False ?h ?n = Some (h', True) \<and> m_outputUTF8 h' = m_outputUTF8 ?h @ concat (map utf8 cs) \<and>
    m_endUTF8 h' \<and> m_outputUTF8_size h' = m_outputUTF8_size ?h - int (length (concat (map utf8 cs)))"
  proof (rule Cons.IH)
    show "int (length (concat (map utf16 cs))) \<le> ?n"
      using Cons.prems(4) by (auto simp: utf16_def [of c])
  qed (use Cons.prems in \<open>auto simp: put8_def\<close>)
  ultimately show ?case by (auto simp: put8_def)
qed

section \<open>From UTF-8\<close>

lemma and_F0_u32:
  assumes "n < 256"
  shows "(of_nat n :: u32) AND 0xF0 = of_nat (n div 16 * 16)"
proof -
  have "list_all (\<lambda>n. (of_nat n :: u32) AND 0xF0 = of_nat (n div 16 * 16)) [0..<256]"
    by code_simp
  with assms show ?thesis by (auto simp: list_all_iff)
qed

lemma load_lowparts_cons:
  assumes "x < 64"
  shows "load_lowparts (Suc k) (of_nat a) (of_nat (128 + x) # src) = load_lowparts k (of_nat (a * 64 + x)) src"
proof -
  have "(ucast (of_nat (128 + x) :: u8) :: u32) AND 0x3F = of_nat x"
    unfolding ucast_of_nat_u8_u32 [of "128 + x", OF less_trans, of 192] masks_u32 and_mask_of_nat_u32
    using assms by (simp add: ucast_of_nat_u8_u32 [of "128 + x"] masks_u32 and_mask_of_nat_u32 mod_add_eq [symmetric] del: of_nat_add)
  then show ?thesis using or_of_nat_u32 [of x 6 a] assms by simp
qed

lemma surrogates_of_nat:
  "c < 4294967296 \<Longrightarrow> surrogates (of_nat c) = map of_nat [0xD800 + c div 1024, 0xDC00 + c mod 1024]"
  by (simp add: surrogates_def surrogate_defs drop_bit_of_nat_u32 masks_u32 and_mask_of_nat_u32 add.commute
      flip: ucast_of_nat_down)

lemma from_utf8_round_lead:
  assumes "m_inputUTF8 h = of_nat l # src" "l < 256"
  shows "from_utf8_round False h n b =
    (if l = 0 then Some (ExitFalse h)
     else if l < 0x80 then
       (if m_outputUTF16_size h < 1 then Some (ExitFalse h)
        else Some (More (put16 [of_nat l] (h\<lparr>m_inputUTF8 := src\<rparr>)) (n - 1) (b - 1)))
     else if l < 0xC0 then Some (ExitFalse (h\<lparr>m_inputUTF8 := src\<rparr>))
     else if l < 0xC2 then Some (ExitFalse h)
     else if l < 0xE0 then multibyte False 1 1 (of_nat (l mod 32)) (\<lambda>ch2. [ucast ch2]) h src n b
     else if l < 0xF0 then multibyte False 2 1 (of_nat (l mod 16)) (\<lambda>ch2. [ucast ch2]) h src n b
     else if l < 0xF5 then multibyte False 3 2 (of_nat (l mod 8)) surrogates h src n b
     else Some (ExitFalse h))"
proof -
  have hi: "(of_nat l :: u32) AND 0xF0 < 0x80 \<longleftrightarrow> l < 0x80" "(of_nat l :: u32) AND 0xF0 < 0xC0 \<longleftrightarrow> l < 0xC0"
    "(of_nat l :: u32) AND 0xF0 < 0xE0 \<longleftrightarrow> l < 0xE0" "(of_nat l :: u32) AND 0xF0 = 0xE0 \<longleftrightarrow> 0xE0 \<le> l \<and> l < 0xF0"
    using assms(2) unfolding and_F0_u32 [OF assms(2)]
    by (auto simp: of_nat_u32_less word_unat_eq_iff unat_of_nat_u32 simp del: of_nat_mult)
  show ?thesis
    using assms
    by (simp add: from_utf8_round_def hi ucast_of_nat_u8_u32 ucast_of_nat_down of_nat_u32_less masks_u32 and_mask_of_nat_u32
        Let_def cong: if_cong del: of_nat_add)
qed

lemma lead_mods: "d < 32 \<Longrightarrow> (192 + d) mod 32 = (d :: nat)" "d < 16 \<Longrightarrow> (224 + d) mod 16 = (d :: nat)"
  "d < 8 \<Longrightarrow> (240 + d) mod 8 = (d :: nat)"
  using mod_mult_self3 [of 6 32 d] mod_mult_self3 [of 14 16 d] mod_mult_self3 [of 30 8 d] by simp_all

lemma div_mod_64:
  "c div 4096 * 64 + c div 64 mod 64 = c div (64 :: nat)" "c div 262144 * 64 + c div 4096 mod 64 = c div (4096 :: nat)"
  using div_mult_mod_eq [of "c div 64" 64] div_mult_mod_eq [of "c div 4096" 64] by (simp_all flip: div_mult2_eq)

text \<open>A character with its low bits in \<open>xs\<close>, six in each byte.\<close>

lemma load_lowparts_list:
  assumes "\<forall>x\<in>set xs. x < 64"
  shows "load_lowparts (length xs) (of_nat a) (map (\<lambda>x. of_nat (128 + x)) xs @ src) =
    Some (of_nat (foldl (\<lambda>a x. a * 64 + x) a xs), src)"
  using assms
proof (induction xs arbitrary: a)
  case (Cons x xs)
  then have "load_lowparts (length (x # xs)) (of_nat a) (map (\<lambda>x. of_nat (128 + x)) (x # xs) @ src) =
      load_lowparts (length xs) (of_nat (a * 64 + x)) (map (\<lambda>x. of_nat (128 + x)) xs @ src)"
    using load_lowparts_cons [of x "length xs" a] by (simp del: load_lowparts.simps)
  also have "\<dots> = Some (of_nat (foldl (\<lambda>a x. a * 64 + x) (a * 64 + x) xs), src)"
    by (rule Cons.IH) (use Cons.prems in simp)
  finally show ?case by simp
qed simp

lemma multibyte_list:
  assumes "\<forall>x\<in>set xs. x < 64" "foldl (\<lambda>a x. a * 64 + x) a xs = c"
    "int (Suc (length xs)) \<le> b" "int n \<le> m_outputUTF16_size h"
  shows "multibyte False (length xs) n (of_nat a) units h (map (\<lambda>x. of_nat (128 + x)) xs @ src) m b =
    Some (More (put16 (units (of_nat c)) (h\<lparr>m_inputUTF8 := src\<rparr>)) (m - int n) (b - int (Suc (length xs))))"
  using assms load_lowparts_list [OF assms(1), of a src] by (simp add: multibyte_def)

lemma from_utf8_round_scalar:
  assumes "scalar c" "m_inputUTF8 h = utf8 c @ src" "int (length (utf8 c)) \<le> b"
    "int (length (utf16 c)) \<le> m_outputUTF16_size h"
  shows "from_utf8_round False h n b =
    Some (More (put16 (units_written c) (h\<lparr>m_inputUTF8 := src\<rparr>)) (n - int (length (utf16 c))) (b - int (length (utf8 c))))"
proof -
  have lt: "0 < c" "c < 0x110000" using assms(1) by (auto simp: scalar_def)
  note defs = utf8_def utf16_def units_written_def ucast_of_nat_down
  consider "c < 0x80" | "0x80 \<le> c" "c < 0x800" | "0x800 \<le> c" "c < 0x10000" | "0x10000 \<le> c" by linarith
  then show ?thesis
  proof cases
    case 1
    with lt assms from_utf8_round_lead [of h c src n b] show ?thesis by (simp add: defs)
  next
    case 2
    let ?xs = "[c mod 64]" and ?l = "192 + c div 64"
    have l: "?l mod 32 = c div 64" using 2 by (intro lead_mods) simp
    have r: "2 \<le> c div 64" "c div 64 < 32" using 2  by auto
    have "m_inputUTF8 h = of_nat ?l # (map (\<lambda>x. of_nat (128 + x)) ?xs @ src)"
      using 2 assms(2) by (simp add: utf8_def del: of_nat_add)
    from from_utf8_round_lead [OF this, of n b] l r 2
    have "from_utf8_round False h n b =
        multibyte False (length ?xs) 1 (of_nat (c div 64)) (\<lambda>ch2. [ucast ch2]) h (map (\<lambda>x. of_nat (128 + x)) ?xs @ src) n b"
      by (simp del: of_nat_add)
    also have "\<dots> = Some (More (put16 [ucast (of_nat c :: u32)] (h\<lparr>m_inputUTF8 := src\<rparr>)) (n - int 1) (b - int (Suc (length ?xs))))"
      using 2 assms(3,4) by (intro multibyte_list) (auto simp: defs)
    finally show ?thesis using 2 by (simp add: defs)
  next
    case 3
    let ?xs = "[c div 64 mod 64, c mod 64]" and ?l = "224 + c div 4096"
    have l: "?l mod 16 = c div 4096" using 3 by (intro lead_mods) simp
    have r: "0 \<le> c div 4096" "c div 4096 < 16" using 3  by auto
    have "m_inputUTF8 h = of_nat ?l # (map (\<lambda>x. of_nat (128 + x)) ?xs @ src)"
      using 3 assms(2) by (simp add: utf8_def del: of_nat_add)
    from from_utf8_round_lead [OF this, of n b] l r 3
    have "from_utf8_round False h n b =
        multibyte False (length ?xs) 1 (of_nat (c div 4096)) (\<lambda>ch2. [ucast ch2]) h (map (\<lambda>x. of_nat (128 + x)) ?xs @ src) n b"
      by (simp add: numeral_2_eq_2 del: of_nat_add)
    also have "\<dots> = Some (More (put16 [ucast (of_nat c :: u32)] (h\<lparr>m_inputUTF8 := src\<rparr>)) (n - int 1) (b - int (Suc (length ?xs))))"
      using 3 assms(3,4) by (intro multibyte_list) (auto simp: defs div_mod_64)
    finally show ?thesis using 3 by (simp add: defs)
  next
    case 4
    let ?xs = "[c div 4096 mod 64, c div 64 mod 64, c mod 64]" and ?l = "240 + c div 262144"
    have l: "?l mod 8 = c div 262144" using lt by (intro lead_mods) simp
    have r: "0 \<le> c div 262144" "c div 262144 < 5" using 4 lt by auto
    have "m_inputUTF8 h = of_nat ?l # (map (\<lambda>x. of_nat (128 + x)) ?xs @ src)"
      using 4 assms(2) by (simp add: utf8_def del: of_nat_add)
    from from_utf8_round_lead [OF this, of n b] l r 4 lt
    have "from_utf8_round False h n b =
        multibyte False (length ?xs) 2 (of_nat (c div 262144)) surrogates h (map (\<lambda>x. of_nat (128 + x)) ?xs @ src) n b"
      by (simp add: numeral_3_eq_3 del: of_nat_add)
    also have "\<dots> = Some (More (put16 (surrogates (of_nat c)) (h\<lparr>m_inputUTF8 := src\<rparr>)) (n - int 2) (b - int (Suc (length ?xs))))"
      using 4 assms(3,4) by (intro multibyte_list) (auto simp: defs div_mod_64)
    finally show ?thesis using 4 lt by (simp add: defs surrogates_of_nat)
  qed
qed

lemma units_written_length: "length (units_written c) = length (utf16 c)"
  by (simp add: units_written_def utf16_def)

lemma from_utf8_string:
  assumes "\<forall>c\<in>set cs. scalar c" "m_inputUTF8 h = concat (map utf8 cs) @ src"
    "n = int (length (concat (map utf16 cs)))" "int (length (concat (map utf8 cs))) \<le> b" "n < m_outputUTF16_size h"
  shows "\<exists>h'. from_utf8 False h n b = Some (h', True) \<and> m_outputUTF16 h' = m_outputUTF16 h @ concat (map units_written cs) \<and>
    m_endUTF16 h' \<and> m_inputUTF8 h' = src"
  using assms
proof (induction cs arbitrary: h n b)
  case Nil
  then show ?case by (subst from_utf8.simps) simp
next
  case (Cons c cs)
  let ?h = "put16 (units_written c) (h\<lparr>m_inputUTF8 := concat (map utf8 cs) @ src\<rparr>)"
  let ?n = "n - int (length (utf16 c))" and ?b = "b - int (length (utf8 c))"
  have pos: "n > 0" "b > 0"
    using Cons.prems(3,4) by (auto simp: utf16_def [of c] utf8_def [of c] split: if_split_asm)
  have "from_utf8_round False h n b = Some (More ?h ?n ?b)"
    using Cons.prems by (intro from_utf8_round_scalar) auto
  then have "from_utf8 False h n b = from_utf8 False ?h ?n ?b"
    using pos by (subst from_utf8.simps) simp
  moreover have "\<exists>h'. from_utf8 False ?h ?n ?b = Some (h', True) \<and>
      m_outputUTF16 h' = m_outputUTF16 ?h @ concat (map units_written cs) \<and> m_endUTF16 h' \<and> m_inputUTF8 h' = src"
    by (rule Cons.IH) (use Cons.prems in \<open>auto simp: put16_def units_written_length\<close>)
  ultimately show ?case by (auto simp: put16_def)
qed

section \<open>Counting\<close>

lemma count_bytes_scalar:
  assumes "scalar c" "mx \<noteq> 0"
  shows "count_bytes mx num (utf16 c @ src) = count_bytes (mx - 1) (num + int (length (utf8 c))) src"
proof (cases "c < 0x10000")
  case True
  have "c \<noteq> 0" "\<not> (0xD800 \<le> c \<and> c \<le> 0xDBFF)" "\<not> (0xDC00 \<le> c \<and> c \<le> 0xDFFF)" using assms(1) by (auto simp: scalar_def)
  with True assms(2) show ?thesis
    by (simp add: utf16_def utf8_def ucast_of_nat_u16_u32 of_nat_u32_less surrogate_defs Let_def cong: conj_cong)
next
  case False
  let ?a = "0xD800 + (c - 0x10000) div 1024" and ?b = "0xDC00 + (c - 0x10000) mod 1024"
  have a: "?a < 65536" "\<not> ?a < 0x800" "0xD800 \<le> ?a" "?a \<le> 0xDBFF" using assms(1) by (auto simp: scalar_def)
  have b: "?b < 65536" "0xDC00 \<le> ?b" "?b \<le> 0xDFFF" by (auto simp: less_Suc_eq_le [symmetric])
  from False a b assms(2) ucast_of_nat_u16_u32 [OF a(1)] ucast_of_nat_u16_u32 [OF b(1)] show ?thesis
    by (simp add: utf16_def utf8_def of_nat_u32_less surrogate_defs Let_def cong: conj_cong del: of_nat_add)
qed

lemma count_bytes_string:
  assumes "\<forall>c\<in>set cs. scalar c" "mx < 0"
  shows "count_bytes mx num (concat (map utf16 cs) @ 0 # rest) = Some (num + int (length (concat (map utf8 cs))))"
  using assms
proof (induction cs arbitrary: mx num)
  case Nil
  then show ?case by simp
next
  case (Cons c cs)
  then show ?case using count_bytes_scalar [of c mx num] by (simp del: count_bytes.simps)
qed

lemma of_nat_u8_less:
  assumes "n < 256"
  shows "(of_nat n :: u8) < numeral k \<longleftrightarrow> n < unat (numeral k :: u8)"
    "numeral k < (of_nat n :: u8) \<longleftrightarrow> unat (numeral k :: u8) < n"
    "(of_nat n :: u8) = 0 \<longleftrightarrow> n = 0"
  using assms by (simp_all add: word_less_nat_alt word_unat_eq_iff unat_of_nat take_bit_nat_eq_self)

lemma lowpart_good: "x < 64 \<Longrightarrow> \<not> UTF8_BAD_LOWPART (of_nat (128 + x))"
  by (simp add: UTF8_BAD_LOWPART_def of_nat_u8_less del: of_nat_add)

lemma NUL_bad: "UTF8_BAD_LOWPART 0"
  by (simp add: UTF8_BAD_LOWPART_def)

lemma check_lowparts_list:
  "\<forall>x\<in>set xs. x < 64 \<Longrightarrow> check_lowparts (length xs) (map (\<lambda>x. of_nat (128 + x)) xs @ src) = Some (True, src)"
  by (induction xs) (auto simp: lowpart_good simp del: of_nat_add)

lemma and_F0_u8:
  assumes "n < 256"
  shows "(of_nat n :: u8) AND 0xF0 = of_nat (n div 16 * 16)"
proof -
  have "list_all (\<lambda>n. (of_nat n :: u8) AND 0xF0 = of_nat (n div 16 * 16)) [0..<256]"
    by code_simp
  with assms show ?thesis by (auto simp: list_all_iff)
qed

lemma count_characters_lead:
  assumes "l < 256" "mx \<noteq> 0"
  shows "count_characters mx num (of_nat l # src) =
    (if l = 0 then Some num
     else if l < 0x80 then count_characters (mx - 1) (num + 1) src
     else if l < 0xC0 then Some (- 1)
     else (let (n, units) = (if l < 0xE0 then (1, 1) else if l < 0xF0 then (2, 1) else (3, 2)) in
           case check_lowparts n src of
             None \<Rightarrow> None
           | Some (ok, src') \<Rightarrow> (if ok then count_characters (mx - 1) (num + units) src' else Some (- 1))))"
proof -
  have "l div 16 * 16 < 256" using assms(1) by simp
  then have hi: "(of_nat l :: u8) AND 0xF0 < 0x80 \<longleftrightarrow> l < 0x80" "(of_nat l :: u8) AND 0xF0 < 0xC0 \<longleftrightarrow> l < 0xC0"
    "(of_nat l :: u8) AND 0xF0 < 0xE0 \<longleftrightarrow> l < 0xE0" "(of_nat l :: u8) AND 0xF0 = 0xE0 \<longleftrightarrow> 0xE0 \<le> l \<and> l < 0xF0"
    using assms(1) unfolding and_F0_u8 [OF assms(1)]
    by (auto simp: of_nat_u8_less word_unat_eq_iff unat_of_nat take_bit_nat_eq_self simp del: of_nat_mult)
  show ?thesis
    using assms by (simp add: hi of_nat_u8_less Let_def cong: if_cong option.case_cong)
qed

lemma count_characters_scalar:
  assumes "scalar c" "mx \<noteq> 0"
  shows "count_characters mx num (utf8 c @ src) = count_characters (mx - 1) (num + int (length (utf16 c))) src"
proof -
  have lt: "0 < c" "c < 0x110000" using assms(1) by (auto simp: scalar_def)
  note good = check_lowparts_list [of "[c mod 64]" src] check_lowparts_list [of "[c div 64 mod 64, c mod 64]" src]
    check_lowparts_list [of "[c div 4096 mod 64, c div 64 mod 64, c mod 64]" src]
  consider "c < 0x80" | "0x80 \<le> c" "c < 0x800" | "0x800 \<le> c" "c < 0x10000" | "0x10000 \<le> c" by linarith
  then show ?thesis
  proof cases
    case 1
    with lt assms count_characters_lead [of c mx num src] show ?thesis by (simp add: utf8_def utf16_def)
  next
    case 2
    then have "c div 64 < 32" by auto
    with 2 assms(2) good(1) show ?thesis
      using count_characters_lead [of "192 + c div 64" mx num]
      by (simp add: utf8_def utf16_def Let_def del: of_nat_add count_characters.simps check_lowparts.simps)
  next
    case 3
    then have "c div 4096 < 16" by auto
    with 3 assms(2) good(2) show ?thesis
      using count_characters_lead [of "224 + c div 4096" mx num]
      by (simp add: utf8_def utf16_def numeral_2_eq_2 Let_def del: of_nat_add count_characters.simps check_lowparts.simps)
  next
    case 4
    with lt have "c div 262144 < 5" by auto
    with 4 assms(2) good(3) show ?thesis
      using count_characters_lead [of "240 + c div 262144" mx num]
      by (simp add: utf8_def utf16_def numeral_3_eq_3 Let_def del: of_nat_add count_characters.simps check_lowparts.simps)
  qed
qed

lemma count_characters_string:
  assumes "\<forall>c\<in>set cs. scalar c" "mx < 0"
  shows "count_characters mx num (concat (map utf8 cs) @ 0 # rest) = Some (num + int (length (concat (map utf16 cs))))"
  using assms
proof (induction cs arbitrary: mx num)
  case Nil
  then show ?case by simp
next
  case (Cons c cs)
  then show ?case using count_characters_scalar [of c mx num] by (simp del: count_characters.simps)
qed

section \<open>Bounds\<close>

text \<open>The room as the code counts it and the units written always add up.\<close>

definition room_kept :: "UnicodeHelper \<Rightarrow> UnicodeHelper \<Rightarrow> bool" where
  "room_kept h h' \<longleftrightarrow> (\<exists>us. m_outputUTF16 h' = m_outputUTF16 h @ us \<and>
     m_outputUTF16_size h' = m_outputUTF16_size h - int (length us) \<and> 0 \<le> m_outputUTF16_size h')"

lemma room_kept_trans: "room_kept h h' \<Longrightarrow> room_kept h' h'' \<Longrightarrow> room_kept h h''"
  by (auto simp: room_kept_def)

lemma multibyte_room:
  assumes "multibyte j k n ch2 units h src c b = Some r" "0 \<le> m_outputUTF16_size h" "\<And>ch2. length (units ch2) = n"
  shows "case r of More h' c' b' \<Rightarrow> room_kept h h' \<and> m_endUTF16 h' = m_endUTF16 h
    | ExitFalse h' \<Rightarrow> room_kept h h' \<and> m_endUTF16 h' = m_endUTF16 h | Break h' \<Rightarrow> False"
  using assms by (auto simp: multibyte_def room_kept_def put16_def split: if_splits option.splits)

lemma from_utf8_round_room:
  assumes "from_utf8_round j h c b = Some r" "0 \<le> m_outputUTF16_size h"
  shows "case r of More h' c' b' \<Rightarrow> room_kept h h' \<and> m_endUTF16 h' = m_endUTF16 h
    | ExitFalse h' \<Rightarrow> room_kept h h' \<and> m_endUTF16 h' = m_endUTF16 h | Break h' \<Rightarrow> False"
proof (cases "m_inputUTF8 h")
  case Nil
  with assms show ?thesis by (simp add: from_utf8_round_def)
next
  case (Cons b0 src)
  have m: "multibyte j k n ch2 units h src c b = Some r \<Longrightarrow> (\<And>ch2. length (units ch2) = n) \<Longrightarrow>
      case r of More h' c' b' \<Rightarrow> room_kept h h' \<and> m_endUTF16 h' = m_endUTF16 h
        | ExitFalse h' \<Rightarrow> room_kept h h' \<and> m_endUTF16 h' = m_endUTF16 h | Break h' \<Rightarrow> False" for k n ch2 units
    using multibyte_room [OF _ assms(2)] by blast
  from assms Cons m [of 1 1 _ "\<lambda>ch2. [ucast ch2]"] m [of 2 1 _ "\<lambda>ch2. [ucast ch2]"] m [of 3 2 _ surrogates]
  show ?thesis
    by (auto simp: from_utf8_round_def Let_def room_kept_def put16_def surrogates_def split: if_splits)
qed

lemma from_utf8_room:
  assumes "from_utf8 j h c b = Some (h', ok)" "0 \<le> m_outputUTF16_size h"
  shows "room_kept h h' \<and> (m_endUTF16 h' \<longrightarrow> m_endUTF16 h \<or> 0 < m_outputUTF16_size h')"
  using assms
proof (induction j h c b rule: from_utf8.induct)
  case (1 j h c b)
  show ?case
  proof (cases "c > 0 \<and> b > 0")
    case False
    with 1(2,3) show ?thesis
      by (subst (asm) from_utf8.simps) (auto simp: room_kept_def split: if_splits)
  next
    case True
    then obtain r where r: "from_utf8_round j h c b = Some r"
      using 1(2) by (subst (asm) from_utf8.simps) (auto split: option.splits)
    note room = from_utf8_round_room [OF r 1(3)]
    show ?thesis
    proof (cases r)
      case (More h1 c1 b1)
      with True r 1(2) have "from_utf8 j h1 c1 b1 = Some (h', ok)"
        by (subst (asm) from_utf8.simps) simp
      moreover have "0 \<le> m_outputUTF16_size h1" using room More by (auto simp: room_kept_def)
      ultimately have "room_kept h1 h' \<and> (m_endUTF16 h' \<longrightarrow> m_endUTF16 h1 \<or> 0 < m_outputUTF16_size h')"
        using 1(1) True r More by blast
      with room More room_kept_trans show ?thesis by auto
    next
      case (ExitFalse h1)
      with True r 1(2) room show ?thesis by (subst (asm) from_utf8.simps) auto
    next
      case (Break h1)
      with room show ?thesis by simp
    qed
  qed
qed

section \<open>Properties\<close>

text \<open>
  C27: Encoding is right for every well-formed string: the count of bytes is the length of the
  UTF-8 form, and with room for one byte more the conversion writes exactly that form, each
  surrogate pair as one four-byte character, and terminates it.
\<close>

theorem ConvertToUTF8_encodes:
  assumes "\<forall>c\<in>set cs. scalar c" "m_inputUTF16 h = concat (map utf16 cs) @ 0 # rest"
    "CountNumberOfBytes (- 1) h = Some k" "k < m_outputUTF8_size h" "int (length (concat (map utf16 cs))) \<le> n"
  shows "k = int (length (concat (map utf8 cs))) \<and>
    (\<exists>h'. ConvertToUTF8 n False h = Some (h', True) \<and> m_outputUTF8 h' = m_outputUTF8 h @ concat (map utf8 cs) \<and> m_endUTF8 h')"
proof -
  have "k = int (length (concat (map utf8 cs)))"
    using assms(2,3) count_bytes_string [OF assms(1), of "- 1" 0 rest] by (simp add: CountNumberOfBytes_def)
  with to_utf8_string [OF assms(1,2) _ assms(5)] assms(4) show ?thesis
    unfolding ConvertToUTF8_def by auto
qed

theorem ConvertToUTF8_encodes_witness:
  "\<exists>h'. ConvertToUTF8 3 False \<lparr>m_inputUTF8 = [], m_inputUTF16 = [0x20AC, 0xD83D, 0xDE00, 0], m_outputUTF8 = [], m_outputUTF8_size = 8,
      m_endUTF8 = False, m_outputUTF16 = [], m_outputUTF16_size = 0, m_endUTF16 = False\<rparr> = Some (h', True) \<and>
    m_outputUTF8 h' = [0xE2, 0x82, 0xAC, 0xF0, 0x9F, 0x98, 0x80]"
  using ConvertToUTF8_encodes [of "[0x20AC, 0x1F600]" "\<lparr>m_inputUTF8 = [], m_inputUTF16 = [0x20AC, 0xD83D, 0xDE00, 0],
      m_outputUTF8 = [], m_outputUTF8_size = 8, m_endUTF8 = False, m_outputUTF16 = [], m_outputUTF16_size = 0,
      m_endUTF16 = False\<rparr>" "[]" 7 3]
    count_bytes_string [of "[0x20AC, 0x1F600]" "- 1" 0 "[]"]
  by (auto simp: scalar_def utf16_def utf8_def CountNumberOfBytes_def simp del: count_bytes.simps)

text \<open>
  Encoding and decoding are inverse on strings without supplementary characters: the
  conversion back, asked for as many characters as the count answers, gives the original units
  and terminates them.
\<close>

lemma utf8_roundtrip:
  assumes "\<forall>c\<in>set cs. scalar c \<and> c < 0x10000" "m_inputUTF16 h = concat (map utf16 cs) @ 0 # rest"
    "int (length (concat (map utf8 cs))) < m_outputUTF8_size h" "m_outputUTF8 h = []"
    "m_inputUTF8 g = m_outputUTF8 (fst (the (ConvertToUTF8 (int (length cs)) False h))) @ [0]"
    "int (length cs) < m_outputUTF16_size g" "m_outputUTF16 g = []"
  shows "\<exists>g'. CountNumberOfCharacters (- 1) g = Some (int (length cs)) \<and>
    ConvertFromUTF8 (int (length cs)) False (- 1) g = Some (g', True) \<and>
    m_outputUTF16 g' @ [0] = take (Suc (length cs)) (m_inputUTF16 h) \<and> m_endUTF16 g'"
proof -
  have sc: "\<forall>c\<in>set cs. scalar c" using assms(1) by blast
  have l: "length (concat (map utf16 cs)) = length cs" "concat (map units_written cs) = concat (map utf16 cs)"
    "length (concat (map utf8 cs)) \<le> length cs * 3"
    using assms(1) by (induction cs) (auto simp: utf16_def utf8_def units_written_def)
  have "m_inputUTF8 g = concat (map utf8 cs) @ [0]"
    using to_utf8_string [OF sc assms(2,3), of "int (length cs)"] assms(4,5) l(1) by (auto simp: ConvertToUTF8_def)
  then show ?thesis
    using count_characters_string [OF sc, of "- 1" 0 "[]"] assms(2,6,7) l
      from_utf8_string [OF sc, of g "[0]" "int (length cs)" "int (length cs) * 3"]
    by (auto simp: CountNumberOfCharacters_def ConvertFromUTF8_def simp del: count_characters.simps)
qed

lemma utf8_roundtrip_witness:
  "\<exists>g'. ConvertFromUTF8 2 False (- 1) \<lparr>m_inputUTF8 = [0xE2, 0x82, 0xAC, 0x41, 0], m_inputUTF16 = [], m_outputUTF8 = [], m_outputUTF8_size = 0,
      m_endUTF8 = False, m_outputUTF16 = [], m_outputUTF16_size = 3, m_endUTF16 = False\<rparr> = Some (g', True) \<and>
    m_outputUTF16 g' = [0x20AC, 0x41]"
proof -
  define h where "h = \<lparr>m_inputUTF8 = [], m_inputUTF16 = [0x20AC, 0x41, 0], m_outputUTF8 = [], m_outputUTF8_size = 5,
      m_endUTF8 = False, m_outputUTF16 = [], m_outputUTF16_size = 0, m_endUTF16 = False\<rparr>"
  define g where "g = \<lparr>m_inputUTF8 = [0xE2, 0x82, 0xAC, 0x41, 0], m_inputUTF16 = [], m_outputUTF8 = [], m_outputUTF8_size = 0,
      m_endUTF8 = False, m_outputUTF16 = [], m_outputUTF16_size = 3, m_endUTF16 = False\<rparr>"
  have sc: "\<forall>c\<in>set [0x20AC, 0x41]. scalar c \<and> c < 0x10000" by (simp add: scalar_def)
  have "m_outputUTF8 (fst (the (ConvertToUTF8 2 False h))) @ [0] = m_inputUTF8 g"
    using to_utf8_string [of "[0x20AC, 0x41]" h "[]" 2]
    by (auto simp: h_def g_def scalar_def utf16_def utf8_def ConvertToUTF8_def)
  then show ?thesis
    using utf8_roundtrip [OF sc, of h "[]" g] by (auto simp: h_def g_def utf16_def utf8_def)
qed

text \<open>
  Decoding gives every supplementary character a high surrogate that is 64 too large: the
  base 0x10000 is not subtracted before the halves are taken.
\<close>

lemma supplementary_high_surrogate:
  assumes "0x10000 \<le> c" "c < 0x110000" "m_inputUTF8 h = utf8 c @ src" "2 < m_outputUTF16_size h"
  shows "\<exists>h' hi lo. utf16 c = [hi, lo] \<and> ConvertFromUTF8 2 False (- 1) h = Some (h', True) \<and>
    m_outputUTF16 h' = m_outputUTF16 h @ [hi + 64, lo]"
proof -
  have sc: "scalar c" using assms(1,2) by (simp add: scalar_def)
  have "0xD800 + c div 1024 = 0xD800 + (c - 0x10000) div 1024 + 64" "c mod 1024 = (c - 0x10000) mod 1024"
  proof -
    obtain d where "c = d + 64 * 1024" using assms(1) by (intro that [of "c - 65536"]) simp
    then show "0xD800 + c div 1024 = 0xD800 + (c - 0x10000) div 1024 + 64" "c mod 1024 = (c - 0x10000) mod 1024"
      using mod_mult_self1 [of d 64 1024] by simp_all
  qed
  then have "units_written c = [of_nat (0xD800 + (c - 0x10000) div 1024) + 64, of_nat (0xDC00 + (c - 0x10000) mod 1024)]"
    using assms(1) by (simp add: units_written_def)
  then show ?thesis
    using from_utf8_string [of "[c]" h src 2 6] sc assms by (auto simp: utf16_def utf8_def ConvertFromUTF8_def)
qed

lemma supplementary_high_surrogate_witness:
  "\<exists>h'. ConvertFromUTF8 2 False (- 1) \<lparr>m_inputUTF8 = [0xF0, 0x9F, 0x98, 0x80, 0], m_inputUTF16 = [], m_outputUTF8 = [], m_outputUTF8_size = 0,
      m_endUTF8 = False, m_outputUTF16 = [], m_outputUTF16_size = 3, m_endUTF16 = False\<rparr> = Some (h', True) \<and>
    m_outputUTF16 h' = [0xD87D, 0xDE00]"
  using supplementary_high_surrogate [of "0x1F600" "\<lparr>m_inputUTF8 = [0xF0, 0x9F, 0x98, 0x80, 0], m_inputUTF16 = [], m_outputUTF8 = [],
      m_outputUTF8_size = 0, m_endUTF8 = False, m_outputUTF16 = [], m_outputUTF16_size = 3, m_endUTF16 = False\<rparr>" "[0]"]
  by (auto simp: utf8_def utf16_def)

text \<open>
  C28: Decoding never writes outside its buffer, whatever the input: the units written and the
  room left add up to the room given, the room left is never negative, and the terminator is
  written only where there is room for it.
\<close>

theorem ConvertFromUTF8_in_bounds:
  assumes "ConvertFromUTF8 n fJustMove b h = Some (h', ok)" "0 \<le> m_outputUTF16_size h" "\<not> m_endUTF16 h"
  shows "\<exists>us. m_outputUTF16 h' = m_outputUTF16 h @ us \<and> int (length us) + m_outputUTF16_size h' = m_outputUTF16_size h \<and>
    0 \<le> m_outputUTF16_size h' \<and> \<not> (m_endUTF16 h' \<and> m_outputUTF16_size h' = 0)"
  using from_utf8_room [OF assms(1) [unfolded ConvertFromUTF8_def] assms(2)] assms(3)
  by (auto simp: room_kept_def)

theorem ConvertFromUTF8_in_bounds_witness:
  "\<exists>us. m_outputUTF16 (fst (the (ConvertFromUTF8 2 False (- 1) \<lparr>m_inputUTF8 = [0x41, 0x42, 0], m_inputUTF16 = [], m_outputUTF8 = [],
      m_outputUTF8_size = 0, m_endUTF8 = False, m_outputUTF16 = [], m_outputUTF16_size = 1, m_endUTF16 = False\<rparr>))) = us \<and> length us \<le> 1"
proof -
  let ?h = "\<lparr>m_inputUTF8 = [0x41, 0x42, 0], m_inputUTF16 = [], m_outputUTF8 = [], m_outputUTF8_size = 0, m_endUTF8 = False,
      m_outputUTF16 = [], m_outputUTF16_size = 1, m_endUTF16 = False\<rparr> :: UnicodeHelper"
  have "ConvertFromUTF8 2 False (- 1) ?h = Some (fst (the (ConvertFromUTF8 2 False (- 1) ?h)), False)"
    by (simp add: ConvertFromUTF8_def from_utf8.simps from_utf8_round_def put16_def Let_def)
  from ConvertFromUTF8_in_bounds [OF this] show ?thesis by auto
qed

text \<open>
  A string that ends inside a three-byte character is read past its terminator by the
  conversion, although the count of characters rejects it.
\<close>

theorem truncated_reads_past:
  assumes "0xE0 \<le> l" "l < 0xF0" "m_inputUTF8 h = [of_nat l, 0]" "0 < m_outputUTF16_size h"
  shows "ConvertFromUTF8 1 False (- 1) h = None \<and> CountNumberOfCharacters (- 1) h = Some (- 1)"
proof -
  have "from_utf8_round False h 1 3 = None"
    using from_utf8_round_lead [of h l "[0]" 1 3] assms by (simp add: multibyte_def numeral_2_eq_2)
  then have "ConvertFromUTF8 1 False (- 1) h = None"
    by (simp add: ConvertFromUTF8_def from_utf8.simps)
  moreover have "CountNumberOfCharacters (- 1) h = Some (- 1)"
    using count_characters_lead [of l "- 1" 0 "[0]"] assms
    by (simp add: CountNumberOfCharacters_def numeral_2_eq_2 NUL_bad del: count_characters.simps)
  ultimately show ?thesis by simp
qed

theorem truncated_reads_past_witness:
  "ConvertFromUTF8 1 False (- 1) \<lparr>m_inputUTF8 = [0xE2, 0], m_inputUTF16 = [], m_outputUTF8 = [], m_outputUTF8_size = 0,
      m_endUTF8 = False, m_outputUTF16 = [], m_outputUTF16_size = 2, m_endUTF16 = False\<rparr> = None"
  using truncated_reads_past [of "0xE2" "\<lparr>m_inputUTF8 = [0xE2, 0], m_inputUTF16 = [], m_outputUTF8 = [], m_outputUTF8_size = 0,
      m_endUTF8 = False, m_outputUTF16 = [], m_outputUTF16_size = 2, m_endUTF16 = False\<rparr>"] by simp

end
