(* ===== verification/WireProtocol.thy ===== *)
theory WireProtocol imports Crc32 begin

text \<open>
  The framing of the debugger and messaging protocol, \<^verbatim>\<open>src/Support/WireProtocol/WireProtocol.cpp\<close>
  with \<^verbatim>\<open>src/Support/Include/WireProtocol.h\<close>: packets with two checksums, and the receiver as a
  state machine that synchronises on a marker. The header being received is the 32 bytes of
  its memory image on a little-endian target. The port answers the chunks of bytes that arrive,
  an empty chunk being a poll that finds nothing; the application layer, the transmitter and the
  clock are the functions the controller is given, with a state of their own. The lemmas follow
  the bytes of a stream through the receiver.
\<close>

section \<open>Packets\<close>

definition c_NonCritical :: u32 where "c_NonCritical = 0x0001"
definition c_Reply :: u32 where "c_Reply = 0x0002"
definition c_BadHeader :: u32 where "c_BadHeader = 0x0004"
definition c_BadPayload :: u32 where "c_BadPayload = 0x0008"
definition c_NACK :: u32 where "c_NACK = 0x4000"
definition c_PayloadTimeout :: u64 where "c_PayloadTimeout = 60000000"

text \<open>The markers \<open>MSdbgV1\<close> and \<open>MSpktV1\<close> with their terminator.\<close>

definition MARKER_DEBUGGER_V1 :: "u8 list" where
  "MARKER_DEBUGGER_V1 = [0x4D, 0x53, 0x64, 0x62, 0x67, 0x56, 0x31, 0x00]"

definition MARKER_PACKET_V1 :: "u8 list" where
  "MARKER_PACKET_V1 = [0x4D, 0x53, 0x70, 0x6B, 0x74, 0x56, 0x31, 0x00]"

record WP_Packet =
  m_signature :: "u8 list"
  m_crcHeader :: u32
  m_crcData :: u32
  m_cmd :: u32
  m_seq :: u16
  m_seqReply :: u16
  m_flags :: u32
  m_packetSize :: u32

definition le16 :: "u16 \<Rightarrow> u8 list" where
  "le16 w = [ucast w, ucast (drop_bit 8 w)]"

definition le32 :: "u32 \<Rightarrow> u8 list" where
  "le32 w = [ucast w, ucast (drop_bit 8 w), ucast (drop_bit 16 w), ucast (drop_bit 24 w)]"

definition rd16 :: "u8 list \<Rightarrow> nat \<Rightarrow> u16" where
  "rd16 bs i = ucast (bs ! i) OR push_bit 8 (ucast (bs ! (i + 1)))"

definition rd32 :: "u8 list \<Rightarrow> nat \<Rightarrow> u32" where
  "rd32 bs i = ucast (bs ! i) OR push_bit 8 (ucast (bs ! (i + 1))) OR
     push_bit 16 (ucast (bs ! (i + 2))) OR push_bit 24 (ucast (bs ! (i + 3)))"

definition sizeof_signature :: nat where "sizeof_signature = 8"
definition sizeof_header :: nat where "sizeof_header = 32"

definition packet_image :: "WP_Packet \<Rightarrow> u8 list" where
  "packet_image p = m_signature p @ le32 (m_crcHeader p) @ le32 (m_crcData p) @ le32 (m_cmd p) @
     le16 (m_seq p) @ le16 (m_seqReply p) @ le32 (m_flags p) @ le32 (m_packetSize p)"

definition packet_of :: "u8 list \<Rightarrow> WP_Packet" where
  "packet_of bs = \<lparr>m_signature = take 8 bs, m_crcHeader = rd32 bs 8, m_crcData = rd32 bs 12, m_cmd = rd32 bs 16,
     m_seq = rd16 bs 20, m_seqReply = rd16 bs 22, m_flags = rd32 bs 24, m_packetSize = rd32 bs 28\<rparr>"

section \<open>Messages and controller\<close>

datatype ReceiveState =
    Idle | Initialize | WaitingForHeader | ReadingHeader | CompleteHeader | ReadingPayload | CompletePayload

record WP_Message =
  m_header :: "u8 list"
  m_payload :: "u8 list option"
  m_pos :: nat
  m_size :: nat
  m_payloadTicks :: u64
  m_rxState :: ReceiveState

text \<open>
  What the controller is given: \<open>TransmitMessage\<close> gets the header and the payload;
  \<open>App_ProcessHeader\<close> answers whether it accepts the header, and the payload buffer it set;
  \<open>App_ProcessPayload\<close> may send messages and therefore gets the counter of the messages sent;
  \<open>CurrentTicks\<close> reads the clock.
\<close>

record 'w Layers =
  TransmitMessage :: "'w \<Rightarrow> u8 list \<Rightarrow> u8 list option \<Rightarrow> 'w \<times> bool"
  App_ProcessHeader :: "'w \<Rightarrow> u8 list \<Rightarrow> 'w \<times> bool \<times> u8 list option"
  App_ProcessPayload :: "'w \<Rightarrow> u16 \<Rightarrow> u8 list \<Rightarrow> u8 list option \<Rightarrow> 'w \<times> u16 \<times> bool"
  App_Release :: "'w \<Rightarrow> 'w"
  CurrentTicks :: "'w \<Rightarrow> 'w \<times> u64"
  TicksToTime :: "u64 \<Rightarrow> u64"

record 'w WP_Controller =
  m_szMarker :: "u8 list option"
  m_state :: 'w
  m_port :: "u8 list list"
  m_inboundMessage :: WP_Message
  m_lastOutboundMessage :: u16

definition Message_Initialize :: WP_Message where
  "Message_Initialize = \<lparr>m_header = replicate 32 0, m_payload = None, m_pos = 0, m_size = 0, m_payloadTicks = 0,
     m_rxState = Idle\<rparr>"

definition PrepareReception :: "WP_Message \<Rightarrow> WP_Message" where
  "PrepareReception m = m\<lparr>m_rxState := Initialize\<rparr>"

definition Controller_Initialize :: "u8 list option \<Rightarrow> 'w \<Rightarrow> u8 list list \<Rightarrow> 'w WP_Controller" where
  "Controller_Initialize szMarker state port =
     \<lparr>m_szMarker = szMarker, m_state = state, m_port = port,
      m_inboundMessage = PrepareReception Message_Initialize, m_lastOutboundMessage = 0\<rparr>"

text \<open>
  The header of a packet, its checksum computed over the image with a zero in its place;
  \<open>None\<close> is a read outside the payload. The length of a checksum is a signed integer.
\<close>

definition prepare :: "u8 list \<Rightarrow> u32 \<Rightarrow> u16 \<Rightarrow> u16 \<Rightarrow> u32 \<Rightarrow> u32 \<Rightarrow> u8 list \<Rightarrow> WP_Packet option" where
  "prepare signature cmd seq' seqReply flags payloadSize payload =
     (case SUPPORT_ComputeCRC payload (sint payloadSize) 0 of
        None \<Rightarrow> None
      | Some crcData \<Rightarrow>
          (let p = \<lparr>m_signature = signature, m_crcHeader = 0, m_crcData = crcData, m_cmd = cmd, m_seq = seq',
                 m_seqReply = seqReply, m_flags = flags, m_packetSize = payloadSize\<rparr>
           in case SUPPORT_ComputeCRC (packet_image p) (int sizeof_header) 0 of
                None \<Rightarrow> None
              | Some crc \<Rightarrow> Some (p\<lparr>m_crcHeader := crc\<rparr>)))"

definition marker_of :: "'w WP_Controller \<Rightarrow> u8 list" where
  "marker_of c = (case m_szMarker c of None \<Rightarrow> MARKER_PACKET_V1 | Some s \<Rightarrow> take sizeof_signature s)"

definition PrepareRequest :: "u32 \<Rightarrow> u32 \<Rightarrow> u32 \<Rightarrow> u8 list \<Rightarrow> 'w WP_Controller \<Rightarrow> (WP_Packet \<times> 'w WP_Controller) option" where
  "PrepareRequest cmd flags payloadSize payload c =
     map_option (\<lambda>p. (p, c\<lparr>m_lastOutboundMessage := m_lastOutboundMessage c + 1\<rparr>))
       (prepare (marker_of c) cmd (m_lastOutboundMessage c) 0 flags payloadSize payload)"

definition PrepareReply :: "WP_Packet \<Rightarrow> u32 \<Rightarrow> u32 \<Rightarrow> u8 list \<Rightarrow> 'w WP_Controller \<Rightarrow> (WP_Packet \<times> 'w WP_Controller) option" where
  "PrepareReply req flags payloadSize payload c =
     map_option (\<lambda>p. (p, c\<lparr>m_lastOutboundMessage := m_lastOutboundMessage c + 1\<rparr>))
       (prepare (marker_of c) (m_cmd req) (m_lastOutboundMessage c) (m_seq req) (flags OR c_Reply) payloadSize payload)"

definition SendProtocolMessage :: "'w Layers \<Rightarrow> u8 list \<Rightarrow> u8 list option \<Rightarrow> 'w WP_Controller \<Rightarrow> 'w WP_Controller \<times> bool" where
  "SendProtocolMessage L header payload c =
     (let (w, ok) = TransmitMessage L (m_state c) header payload in (c\<lparr>m_state := w\<rparr>, ok))"

definition SendRequest :: "'w Layers \<Rightarrow> u32 \<Rightarrow> u32 \<Rightarrow> u32 \<Rightarrow> u8 list option \<Rightarrow> 'w WP_Controller \<Rightarrow> ('w WP_Controller \<times> bool) option" where
  "SendRequest L cmd flags payloadSize payload c =
     (case PrepareRequest cmd flags payloadSize (case payload of None \<Rightarrow> [] | Some bs \<Rightarrow> bs) c of
        None \<Rightarrow> None
      | Some (p, c) \<Rightarrow> Some (SendProtocolMessage L (packet_image p) payload c))"

section \<open>The receiver\<close>

definition Release :: "'w Layers \<Rightarrow> 'w WP_Controller \<Rightarrow> 'w WP_Controller" where
  "Release L c =
     (case m_payload (m_inboundMessage c) of
        None \<Rightarrow> c
      | Some _ \<Rightarrow> c\<lparr>m_state := App_Release L (m_state c), m_inboundMessage := (m_inboundMessage c)\<lparr>m_payload := None\<rparr>\<rparr>)"

definition VerifyHeader :: "WP_Message \<Rightarrow> bool" where
  "VerifyHeader m \<longleftrightarrow>
     SUPPORT_ComputeCRC (packet_image ((packet_of (m_header m))\<lparr>m_crcHeader := 0\<rparr>)) (int sizeof_header) 0 =
       Some (m_crcHeader (packet_of (m_header m)))"

definition VerifyPayload :: "WP_Message \<Rightarrow> bool option" where
  "VerifyPayload m =
     (let p = packet_of (m_header m) in
      case m_payload m of
        None \<Rightarrow> (if m_packetSize p \<noteq> 0 then Some False else Some (m_crcData p = 0))
      | Some buf \<Rightarrow>
          map_option (\<lambda>crc. crc = m_crcData p) (SUPPORT_ComputeCRC buf (sint (m_packetSize p)) 0))"

definition ReplyBadPacket :: "'w Layers \<Rightarrow> u32 \<Rightarrow> 'w WP_Controller \<Rightarrow> 'w WP_Controller" where
  "ReplyBadPacket L flags c =
     (case SendRequest L 0 (c_NonCritical OR c_NACK OR flags) 0 None c of None \<Rightarrow> c | Some (c, ok) \<Rightarrow> c)"

definition put_bytes :: "u8 list \<Rightarrow> nat \<Rightarrow> u8 list \<Rightarrow> u8 list" where
  "put_bytes got pos buf = take pos buf @ got @ drop (pos + length got) buf"

text \<open>\<open>ReceiveBytes\<close> of both clients: nothing to do for a size of 0, failure when the port has nothing.\<close>

fun ReceiveBytes :: "nat \<Rightarrow> u8 list list \<Rightarrow> u8 list list \<times> (u8 list) option" where
  "ReceiveBytes size' port = (if size' = 0 then (port, Some []) else
     (case port of
        [] \<Rightarrow> ([], None)
      | chunk # port \<Rightarrow>
          (if chunk = [] then (port, None)
           else if length chunk \<le> size' then (port, Some chunk)
           else (drop size' chunk # port, Some (take size' chunk)))))"

declare ReceiveBytes.simps [simp del]

text \<open>The search for the start of a message; \<open>k\<close> bytes of the header have been received.\<close>

definition marker_prefix :: "u8 list \<Rightarrow> nat \<Rightarrow> bool" where
  "marker_prefix header k \<longleftrightarrow>
     (let lenCmp = min k sizeof_signature in
      take lenCmp header = take lenCmp MARKER_DEBUGGER_V1 \<or> take lenCmp header = take lenCmp MARKER_PACKET_V1)"

fun synch :: "u8 list \<Rightarrow> nat \<Rightarrow> u8 list \<times> nat" where
  "synch header 0 = (header, 0)"
| "synch header (Suc k) =
     (if marker_prefix header (Suc k) then (header, Suc k)
      else synch (take k (drop 1 header) @ drop k header) k)"

text \<open>
  One round of the loop of \<open>Process\<close>: the controller after it, and the answer when it returns.
  \<open>None\<close> is a read outside the payload buffer.
\<close>

definition header_complete :: "'w Layers \<Rightarrow> 'w WP_Controller \<Rightarrow> 'w WP_Controller" where
  "header_complete L c =
     (let m = m_inboundMessage c;
          bad = (\<lambda>c. let p = packet_of (m_header (m_inboundMessage c));
                         c = (if m_flags p AND c_NonCritical = 0 then ReplyBadPacket L c_BadHeader c else c)
                     in c\<lparr>m_inboundMessage := (m_inboundMessage c)\<lparr>m_rxState := Initialize\<rparr>\<rparr>)
      in if VerifyHeader m then
           (case App_ProcessHeader L (m_state c) (m_header m) of
              (w, accepted, buf) \<Rightarrow>
                (let m = m\<lparr>m_payload := buf\<rparr>; c = c\<lparr>m_state := w, m_inboundMessage := m\<rparr>; p = packet_of (m_header m) in
                 if accepted then
                   (if m_packetSize p \<noteq> 0 then
                      (case buf of
                         None \<Rightarrow> c\<lparr>m_inboundMessage := m\<lparr>m_rxState := Initialize\<rparr>\<rparr>
                       | Some _ \<Rightarrow>
                           (let (w, ticks) = CurrentTicks L w in
                            c\<lparr>m_state := w,
                              m_inboundMessage := m\<lparr>m_payloadTicks := ticks, m_rxState := ReadingPayload, m_pos := 0,
                                m_size := unat (m_packetSize p)\<rparr>\<rparr>))
                    else c\<lparr>m_inboundMessage := m\<lparr>m_rxState := CompletePayload\<rparr>\<rparr>)
                 else bad c))
         else bad c)"

definition read_payload :: "'w Layers \<Rightarrow> 'w WP_Controller \<Rightarrow> 'w WP_Controller \<times> bool option" where
  "read_payload L c =
     (let m = m_inboundMessage c; (w, curTicks) = CurrentTicks L (m_state c); c = c\<lparr>m_state := w\<rparr> in
      if TicksToTime L (curTicks - m_payloadTicks m) < c_PayloadTimeout then
        (let m = m\<lparr>m_payloadTicks := curTicks\<rparr> in
         case ReceiveBytes (m_size m) (m_port c) of
           (port, None) \<Rightarrow> (c\<lparr>m_port := port, m_inboundMessage := m\<rparr>, Some True)
         | (port, Some got) \<Rightarrow>
             (let m = m\<lparr>m_payload := map_option (put_bytes got (m_pos m)) (m_payload m),
                        m_pos := m_pos m + length got, m_size := m_size m - length got\<rparr>
              in (c\<lparr>m_port := port, m_inboundMessage := (if m_size m = 0 then m\<lparr>m_rxState := CompletePayload\<rparr> else m)\<rparr>, None)))
      else (c\<lparr>m_inboundMessage := m\<lparr>m_rxState := Initialize\<rparr>\<rparr>, None))"

definition rx_round :: "'w Layers \<Rightarrow> 'w WP_Controller \<Rightarrow> ('w WP_Controller \<times> bool option) option" where
  "rx_round L c =
     (let m = m_inboundMessage c in
      case m_rxState m of
        Idle \<Rightarrow> Some (c, Some True)
      | Initialize \<Rightarrow>
          (let c = Release L c; m = m_inboundMessage c
           in Some (c\<lparr>m_inboundMessage := m\<lparr>m_rxState := WaitingForHeader, m_pos := 0, m_size := sizeof_header\<rparr>\<rparr>, None))
      | WaitingForHeader \<Rightarrow>
          (case ReceiveBytes (m_size m) (m_port c) of
             (port, None) \<Rightarrow> Some (c\<lparr>m_port := port\<rparr>, Some True)
           | (port, Some got) \<Rightarrow>
               (let header = put_bytes got (m_pos m) (m_header m);
                    k = m_pos m + length got;
                    (header, len) = synch header k;
                    m = m\<lparr>m_header := header, m_pos := len, m_size := sizeof_header - len\<rparr>
                in Some (c\<lparr>m_port := port,
                     m_inboundMessage := (if len \<ge> sizeof_signature then m\<lparr>m_rxState := ReadingHeader\<rparr> else m)\<rparr>, None)))
      | ReadingHeader \<Rightarrow>
          (case ReceiveBytes (m_size m) (m_port c) of
             (port, None) \<Rightarrow> Some (c\<lparr>m_port := port\<rparr>, Some True)
           | (port, Some got) \<Rightarrow>
               (let m = m\<lparr>m_header := put_bytes got (m_pos m) (m_header m), m_pos := m_pos m + length got,
                          m_size := m_size m - length got\<rparr>
                in Some (c\<lparr>m_port := port,
                     m_inboundMessage := (if m_size m = 0 then m\<lparr>m_rxState := CompleteHeader\<rparr> else m)\<rparr>, None)))
      | CompleteHeader \<Rightarrow> Some (header_complete L c, None)
      | ReadingPayload \<Rightarrow> Some (read_payload L c)
      | CompletePayload \<Rightarrow>
          map_option (\<lambda>good.
              (let c = (if good then
                          (case App_ProcessPayload L (m_state c) (m_lastOutboundMessage c) (m_header m) (m_payload m) of
                             (w, n, answer) \<Rightarrow> c\<lparr>m_state := w, m_lastOutboundMessage := n\<rparr>)
                        else ReplyBadPacket L c_BadPayload c)
               in (c\<lparr>m_inboundMessage := (m_inboundMessage c)\<lparr>m_rxState := Initialize\<rparr>\<rparr>, None)))
            (VerifyPayload m))"

text \<open>The loop; \<open>Inl\<close> is the controller when the fuel runs out.\<close>

fun Process :: "'w Layers \<Rightarrow> nat \<Rightarrow> 'w WP_Controller \<Rightarrow> ('w WP_Controller + 'w WP_Controller \<times> bool) option" where
  "Process L 0 c = Some (Inl c)"
| "Process L (Suc fuel) c =
     (case rx_round L c of
        None \<Rightarrow> None
      | Some (c, Some answer) \<Rightarrow> Some (Inr (c, answer))
      | Some (c, None) \<Rightarrow> Process L fuel c)"

definition AdvanceState :: "'w Layers \<Rightarrow> nat \<Rightarrow> 'w WP_Controller \<Rightarrow> ('w WP_Controller + 'w WP_Controller \<times> bool) option" where
  "AdvanceState = Process"

section \<open>Packets and their images\<close>

lemma le_length [simp]: "length (le16 w) = 2" "length (le32 w') = 4"
  by (simp_all add: le16_def le32_def)

lemma rd16_le16: "rd16 (xs @ le16 w @ ys) (length xs) = w"
  by (rule bit_word_eqI) (auto simp: rd16_def le16_def nth_append bit_simps dest: bit_imp_le_length)

lemma le32_bytes:
  "ucast (ucast w :: u8) OR push_bit 8 (ucast (ucast (drop_bit 8 w) :: u8)) OR
     push_bit 16 (ucast (ucast (drop_bit 16 w) :: u8)) OR push_bit 24 (ucast (ucast (drop_bit 24 w) :: u8)) = (w :: u32)"
proof (rule bit_word_eqI)
  fix n assume n: "n < LENGTH(32)"
  then consider "n < 8" | "8 \<le> n" "n < 16" | "16 \<le> n" "n < 24" | "24 \<le> n" "n < 32" by fastforce
  then show "bit (ucast (ucast w :: u8) OR push_bit 8 (ucast (ucast (drop_bit 8 w) :: u8)) OR
      push_bit 16 (ucast (ucast (drop_bit 16 w) :: u8)) OR push_bit 24 (ucast (ucast (drop_bit 24 w) :: u8)) :: u32) n = bit w n"
    by cases (auto simp: bit_or_iff bit_push_bit_iff bit_ucast_iff bit_drop_bit_eq)
qed

lemma rd32_le32: "rd32 (xs @ le32 w @ ys) (length xs) = w"
proof -
  have "(xs @ le32 w @ ys) ! (length xs + i) = le32 w ! i" if "i < 4" for i
    using that by (simp add: nth_append)
  from this [of 0] this [of 1] this [of 2] this [of 3] show ?thesis
    unfolding rd32_def by (simp add: le32_def le32_bytes numeral_3_eq_3)
qed

lemma length_packet_image [simp]: "length (m_signature p) = 8 \<Longrightarrow> length (packet_image p) = 32"
  by (simp add: packet_image_def)

lemma packet_of_image:
  assumes "length (m_signature p) = 8"
  shows "packet_of (packet_image p) = p"
proof -
  let ?a = "m_signature p" let ?b = "?a @ le32 (m_crcHeader p)" let ?c = "?b @ le32 (m_crcData p)"
  let ?d = "?c @ le32 (m_cmd p)" let ?e = "?d @ le16 (m_seq p)" let ?f = "?e @ le16 (m_seqReply p)"
  let ?g = "?f @ le32 (m_flags p)"
  have "rd32 (packet_image p) 8 = m_crcHeader p"
    using rd32_le32 [of ?a] assms by (simp add: packet_image_def)
  moreover have "rd32 (packet_image p) 12 = m_crcData p"
    using rd32_le32 [of ?b] assms by (simp add: packet_image_def)
  moreover have "rd32 (packet_image p) 16 = m_cmd p"
    using rd32_le32 [of ?c] assms by (simp add: packet_image_def)
  moreover have "rd16 (packet_image p) 20 = m_seq p"
    using rd16_le16 [of ?d] assms by (simp add: packet_image_def)
  moreover have "rd16 (packet_image p) 22 = m_seqReply p"
    using rd16_le16 [of ?e] assms by (simp add: packet_image_def)
  moreover have "rd32 (packet_image p) 24 = m_flags p"
    using rd32_le32 [of ?f] assms by (simp add: packet_image_def)
  moreover have "rd32 (packet_image p) 28 = m_packetSize p"
    using rd32_le32 [of ?g _ "[]"] assms by (simp add: packet_image_def)
  ultimately show ?thesis
    using assms by (simp add: packet_of_def) (simp add: packet_image_def)
qed

text \<open>What a sender prepares passes both checks of the receiver.\<close>

lemma prepare_verified:
  assumes "prepare sig cmd sq sr flags n payload = Some p" "length sig = 8"
  shows "m_signature p = sig" "m_packetSize p = n" "VerifyHeader (m\<lparr>m_header := packet_image p\<rparr>)"
    "VerifyPayload (m\<lparr>m_header := packet_image p, m_payload := Some payload\<rparr>) = Some True"
proof -
  obtain crc where crc: "SUPPORT_ComputeCRC payload (sint n) 0 = Some (m_crcData p)"
    "SUPPORT_ComputeCRC (packet_image (p\<lparr>m_crcHeader := 0\<rparr>)) 32 0 = Some (m_crcHeader p)"
    and p: "m_signature p = sig" "m_packetSize p = n"
    using assms(1) by (auto simp: prepare_def sizeof_header_def Let_def split: option.splits)
  then show "m_signature p = sig" "m_packetSize p = n" by simp_all
  have "packet_of (packet_image p) = p" using p(1) assms(2) by (simp add: packet_of_image)
  with crc p show "VerifyHeader (m\<lparr>m_header := packet_image p\<rparr>)"
    "VerifyPayload (m\<lparr>m_header := packet_image p, m_payload := Some payload\<rparr>) = Some True"
    by (simp_all add: VerifyHeader_def VerifyPayload_def sizeof_header_def)
qed

section \<open>Receiving and synchronising\<close>

lemma ReceiveBytes_None: "0 < n \<Longrightarrow> ReceiveBytes n [] = ([], None)"
  by (simp add: ReceiveBytes.simps)

lemma ReceiveBytes_0: "ReceiveBytes 0 port = (port, Some [])"
  by (simp add: ReceiveBytes.simps)

lemma ReceiveBytes_Some:
  assumes "ReceiveBytes n port = (port', Some got)" "0 < n"
  shows "got \<noteq> []" "length got \<le> n" "concat port = got @ concat port'" "[] \<notin> set port \<Longrightarrow> [] \<notin> set port'"
  using assms by (cases port; force simp: ReceiveBytes.simps split: if_splits)+

lemma ReceiveBytes_available:
  assumes "0 < n" "[] \<notin> set port" "port \<noteq> []"
  shows "\<exists>port' got. ReceiveBytes n port = (port', Some got)"
  using assms by (cases port) (auto simp: ReceiveBytes.simps split: if_splits)

lemma put_bytes_simps [simp]:
  "pos + length got \<le> length buf \<Longrightarrow> length (put_bytes got pos buf) = length buf"
  "pos \<le> length buf \<Longrightarrow> take (pos + length got) (put_bytes got pos buf) = take pos buf @ got"
  by (simp_all add: put_bytes_def)

text \<open>Bytes that may still turn out to be the start of a message.\<close>

definition compat :: "u8 list \<Rightarrow> bool" where
  "compat s \<longleftrightarrow>
     (\<exists>M\<in>{MARKER_DEBUGGER_V1, MARKER_PACKET_V1}. take 8 s = take (length s) M)"

definition marked :: "u8 list \<Rightarrow> bool" where
  "marked s \<longleftrightarrow> take 8 s \<in> {MARKER_DEBUGGER_V1, MARKER_PACKET_V1}"

lemma marker_length [simp]: "length MARKER_DEBUGGER_V1 = 8" "length MARKER_PACKET_V1 = 8"
  by (simp_all add: MARKER_DEBUGGER_V1_def MARKER_PACKET_V1_def)

lemma marker_prefix_compat: "k \<le> length h \<Longrightarrow> marker_prefix h k \<longleftrightarrow> compat (take k h)"
  by (simp add: marker_prefix_def compat_def sizeof_signature_def Let_def min_def)

lemma compat_marked: "8 \<le> length s \<Longrightarrow> compat s \<longleftrightarrow> marked s"
  by (auto simp: compat_def marked_def)

lemma marked_compat:
  assumes "marked s"
  shows "compat (take n s)"
proof -
  obtain M where M: "M \<in> {MARKER_DEBUGGER_V1, MARKER_PACKET_V1}" "take 8 s = M" using assms by (auto simp: marked_def)
  then have len: "length M = 8" "8 \<le> length s" by (auto simp: min_def dest: arg_cong [where f = length] split: if_splits)
  have "take 8 (take n s) = take n M" unfolding M(2) [symmetric] by (simp add: min.commute)
  also have "\<dots> = take (length (take n s)) M" using len by (cases "n \<le> length s") auto
  finally show ?thesis using M(1) unfolding compat_def by blast
qed

lemma synch_spec:
  assumes "k \<le> length h" "synch h k = (h', k')"
  shows "\<exists>j\<le>k. k' = k - j \<and> length h' = length h \<and> take k' h' = drop j (take k h) \<and>
    (k' = 0 \<or> compat (take k' h')) \<and> (\<forall>i<j. \<not> compat (drop i (take k h)))"
  using assms
proof (induction h k rule: synch.induct)
  case (1 h)
  then show ?case by simp
next
  case (2 h k)
  show ?case
  proof (cases "marker_prefix h (Suc k)")
    case True
    with 2(2,3) show ?thesis by (auto simp: marker_prefix_compat)
  next
    case False
    let ?h = "take k (drop 1 h) @ drop k h"
    have nc: "\<not> compat (take (Suc k) h)" using False 2(2) by (simp add: marker_prefix_compat)
    have len: "length ?h = length h" and tk: "take k ?h = drop 1 (take (Suc k) h)"
      using 2(2) by (simp_all add: drop_take)
    have "k \<le> length ?h" "synch ?h k = (h', k')" using 2(2,3) False len by simp_all
    from 2(1) [OF False this] obtain j where j: "j \<le> k" "k' = k - j" "length h' = length ?h"
      "take k' h' = drop j (take k ?h)" "k' = 0 \<or> compat (take k' h')" "\<forall>i<j. \<not> compat (drop i (take k ?h))"
      by blast
    have "\<not> compat (drop i (take (Suc k) h))" if "i < Suc j" for i
    proof (cases i)
      case 0
      with nc show ?thesis by simp
    next
      case (Suc i')
      with that have "\<not> compat (drop i' (take k ?h))" using j(6) by simp
      with Suc show ?thesis unfolding tk drop_drop by simp
    qed
    moreover have "take k' h' = drop (Suc j) (take (Suc k) h)" unfolding j(4) tk drop_drop by simp
    ultimately show ?thesis
      using j(1,2,3,5) len by (intro exI [of _ "Suc j"]) simp
  qed
qed

section \<open>A message through the receiver\<close>

inductive rx_step :: "'w Layers \<Rightarrow> 'w WP_Controller \<Rightarrow> 'w WP_Controller \<Rightarrow> bool" for L where
  go_on: "rx_round L c = Some (c', None) \<Longrightarrow> rx_step L c c'"

inductive_simps rx_step_iff: "rx_step L c c'"

abbreviation rx_steps :: "'w Layers \<Rightarrow> 'w WP_Controller \<Rightarrow> 'w WP_Controller \<Rightarrow> bool" where
  "rx_steps L \<equiv> (rx_step L)\<^sup>*\<^sup>*"

text \<open>A round before the payload is complete: what the application does with payloads plays no part.\<close>

inductive rx_quiet :: "'w Layers \<Rightarrow> 'w WP_Controller \<Rightarrow> 'w WP_Controller \<Rightarrow> bool" for L where
  quiet: "rx_round L c = Some (c', None) \<Longrightarrow> m_rxState (m_inboundMessage c) \<noteq> CompletePayload \<Longrightarrow> rx_quiet L c c'"

inductive_simps rx_quiet_iff: "rx_quiet L c c'"

abbreviation rx_quiets :: "'w Layers \<Rightarrow> 'w WP_Controller \<Rightarrow> 'w WP_Controller \<Rightarrow> bool" where
  "rx_quiets L \<equiv> (rx_quiet L)\<^sup>*\<^sup>*"

lemmas quiet_first = converse_rtranclp_into_rtranclp [of "rx_quiet L" for L]

lemma quiets_steps: "rx_quiets L c c' \<Longrightarrow> rx_steps L c c'"
  by (rule rtranclp_mono [of "rx_quiet L" "rx_step L", THEN predicate2D]) (auto simp: rx_quiet_iff rx_step_iff)

lemma round_frame:
  assumes "m_rxState (m_inboundMessage c) \<noteq> CompletePayload \<or> VerifyPayload (m_inboundMessage c) \<noteq> Some True"
  shows "rx_round (L\<lparr>App_ProcessPayload := f\<rparr>) c = rx_round L c"
proof -
  let ?L = "L\<lparr>App_ProcessPayload := f\<rparr>"
  have send: "SendProtocolMessage ?L = SendProtocolMessage L" by (simp add: fun_eq_iff SendProtocolMessage_def)
  have reply: "ReplyBadPacket ?L fl c = ReplyBadPacket L fl c" for fl c
    unfolding ReplyBadPacket_def SendRequest_def send ..
  have sel: "App_Release ?L = App_Release L" "App_ProcessHeader ?L = App_ProcessHeader L" "CurrentTicks ?L = CurrentTicks L"
    "TicksToTime ?L = TicksToTime L" by simp_all
  have frame: "Release ?L c = Release L c" "header_complete ?L c = header_complete L c" "read_payload ?L c = read_payload L c"
    unfolding Release_def header_complete_def read_payload_def reply sel by (rule refl)+
  show ?thesis
  proof (cases "m_rxState (m_inboundMessage c) = CompletePayload")
    case False
    then show ?thesis by (cases "m_rxState (m_inboundMessage c)") (simp_all add: rx_round_def frame Let_def)
  next
    case True
    with assms show ?thesis
      by (cases "VerifyPayload (m_inboundMessage c)") (auto simp: rx_round_def reply Let_def)
  qed
qed

lemma quiets_frame: "rx_quiets L c c' \<Longrightarrow> rx_quiets (L\<lparr>App_ProcessPayload := f\<rparr>) c c'"
  by (rule rtranclp_mono [of "rx_quiet L", THEN predicate2D]) (auto simp: rx_quiet_iff round_frame)

text \<open>The receiver is collecting a header in state \<open>st\<close>: \<open>s\<close> is what it holds and what is still to come.\<close>

definition rx_at :: "ReceiveState \<Rightarrow> 'w \<Rightarrow> u8 list \<Rightarrow> 'w WP_Controller \<Rightarrow> bool" where
  "rx_at st w s c \<longleftrightarrow>
     (let m = m_inboundMessage c in
      m_rxState m = st \<and> m_state c = w \<and> [] \<notin> set (m_port c) \<and> length (m_header m) = 32 \<and> m_pos m \<le> 32 \<and>
      m_size m = 32 - m_pos m \<and> take (m_pos m) (m_header m) @ concat (m_port c) = s)"

lemma length_concat_port: "ReceiveBytes n port = (port', Some got) \<Longrightarrow> 0 < n \<Longrightarrow>
    length (concat port') < length (concat port)"
  using ReceiveBytes_Some(1,3) [of n port port' got] by simp

lemma port_available:
  assumes "0 < n" "[] \<notin> set port" "concat port \<noteq> []"
  shows "\<exists>port' got. ReceiveBytes n port = (port', Some got)"
  using ReceiveBytes_available [OF assms(1,2)] assms(3) by (cases "port = []") simp_all

lemma waiting_round:
  assumes "rx_at WaitingForHeader w (noise @ hdr @ tail) c" "m_pos (m_inboundMessage c) < 8" "length hdr = 32"
    "marked hdr" "\<forall>i<length noise. \<not> marked (drop i (noise @ hdr))"
  shows "\<exists>c' noise'. rx_quiet L c c' \<and> length (concat (m_port c')) < length (concat (m_port c)) \<and>
    m_lastOutboundMessage c' = m_lastOutboundMessage c \<and>
    (rx_at ReadingHeader w (hdr @ tail) c' \<or>
     (rx_at WaitingForHeader w (noise' @ hdr @ tail) c' \<and> m_pos (m_inboundMessage c') < 8 \<and>
      (\<forall>i<length noise'. \<not> marked (drop i (noise' @ hdr)))))"
proof -
  let ?m = "m_inboundMessage c"
  from assms(1) have m: "m_rxState ?m = WaitingForHeader" "m_state c = w" "[] \<notin> set (m_port c)" "length (m_header ?m) = 32"
    "m_size ?m = 32 - m_pos ?m" "take (m_pos ?m) (m_header ?m) @ concat (m_port c) = noise @ hdr @ tail"
    by (auto simp: rx_at_def Let_def)
  have size: "0 < m_size ?m" using m(5) assms(2) by simp
  have "0 < length (concat (m_port c))"
    using assms(2,3) m(4) arg_cong [OF m(6), of length] by (simp del: length_greater_0_conv concat_eq_Nil_conv)
  then have "concat (m_port c) \<noteq> []" by blast
  then obtain port got where r: "ReceiveBytes (m_size ?m) (m_port c) = (port, Some got)"
    using port_available [OF size m(3)] by blast
  note got = ReceiveBytes_Some [OF r size]
  define k where "k = m_pos ?m + length got"
  define h where "h = put_bytes got (m_pos ?m) (m_header ?m)"
  have k: "k \<le> 32" using got(2) m(5) size by (simp add: k_def)
  have h: "length h = 32" "take k h = take (m_pos ?m) (m_header ?m) @ got"
    using k m(4) by (simp_all add: h_def k_def)
  obtain h' k' where sy: "synch h k = (h', k')" by fastforce
  obtain j where j: "j \<le> k" "k' = k - j" "length h' = 32" "take k' h' = drop j (take k h)"
    "k' = 0 \<or> compat (take k' h')" "\<forall>i<j. \<not> compat (drop i (take k h))"
    using synch_spec [OF _ sy] k h(1) by auto
  let ?n = "m_inboundMessage c\<lparr>m_header := h', m_pos := k', m_size := 32 - k'\<rparr>"
  let ?c = "c\<lparr>m_port := port, m_inboundMessage := (if 8 \<le> k' then ?n\<lparr>m_rxState := ReadingHeader\<rparr> else ?n)\<rparr>"
  have step: "rx_quiet L c ?c"
    using m(1) r sy unfolding rx_quiet_iff rx_round_def h_def k_def
    by (simp add: Let_def sizeof_header_def sizeof_signature_def)
  have all: "take k h @ concat port = noise @ hdr @ tail" using h(2) m(6) got(3) by simp
  have jn: "j \<le> length noise"
  proof (rule ccontr)
    assume "\<not> j \<le> length noise"
    then have lt: "length noise < j" by simp
    have "drop (length noise) (take k h) = take (k - length noise) (drop (length noise) (take k h @ concat port))"
      using h(1) k lt j(1) by (simp add: min_def)
    also have "\<dots> = take (k - length noise) (hdr @ tail)" unfolding all by simp
    finally have "compat (drop (length noise) (take k h))"
      using assms(3,4) k by (simp add: marked_compat)
    with j(6) lt show False by blast
  qed
  let ?noise = "drop j noise"
  have rest: "take k' h' @ concat port = ?noise @ hdr @ tail"
    using arg_cong [OF all, of "drop j"] jn j(1,4) h(1) k by (simp add: min_def)
  have clean: "\<forall>i<length ?noise. \<not> marked (drop i (?noise @ hdr))"
  proof (intro allI impI)
    fix i assume "i < length ?noise"
    then have "\<not> marked (drop (j + i) (noise @ hdr))" using assms(5) by simp
    with jn show "\<not> marked (drop i (?noise @ hdr))" by (simp add: add.commute)
  qed
  have len: "length (concat port) < length (concat (m_port c))"
    using length_concat_port [OF r size] .
  show ?thesis
  proof (cases "8 \<le> k'")
    case True
    have "?noise = []"
    proof (rule ccontr)
      assume ne: "?noise \<noteq> []"
      have "compat (take k' h')" using True j(5) by auto
      then have "marked (take k' h')" using True j(1,2,3) k by (subst (asm) compat_marked) auto
      have "take 8 (take k' h') = take 8 (take k' h' @ concat port)" using True j(1,2,3) k by simp
      also have "\<dots> = take 8 (?noise @ hdr @ tail)" by (simp only: rest)
      also have "\<dots> = take 8 (?noise @ hdr)" using assms(3) by simp
      finally have "marked (?noise @ hdr)" using \<open>marked (take k' h')\<close> by (simp only: marked_def)
      with clean ne show False by (metis drop0 length_greater_0_conv)
    qed
    with rest True j k m got(4) have "rx_at ReadingHeader w (hdr @ tail) ?c"
      by (simp add: rx_at_def)
    with step len show ?thesis by (intro exI [of _ ?c]) simp
  next
    case False
    with rest j k m got(4) have "rx_at WaitingForHeader w (?noise @ hdr @ tail) ?c"
      by (simp add: rx_at_def)
    with step len clean False show ?thesis by (intro exI [of _ ?c] exI [of _ ?noise]) simp
  qed
qed

lemma synchronises:
  assumes "rx_at WaitingForHeader w (noise @ hdr @ tail) c" "m_pos (m_inboundMessage c) < 8" "length hdr = 32"
    "marked hdr" "\<forall>i<length noise. \<not> marked (drop i (noise @ hdr))"
  shows "\<exists>c'. rx_quiets L c c' \<and> rx_at ReadingHeader w (hdr @ tail) c' \<and> m_lastOutboundMessage c' = m_lastOutboundMessage c"
  using assms
proof (induction "length (concat (m_port c))" arbitrary: c noise rule: less_induct)
  case less
  obtain c1 noise1 where c1: "rx_quiet L c c1" "length (concat (m_port c1)) < length (concat (m_port c))"
    "m_lastOutboundMessage c1 = m_lastOutboundMessage c"
    "rx_at ReadingHeader w (hdr @ tail) c1 \<or>
     (rx_at WaitingForHeader w (noise1 @ hdr @ tail) c1 \<and> m_pos (m_inboundMessage c1) < 8 \<and>
      (\<forall>i<length noise1. \<not> marked (drop i (noise1 @ hdr))))"
    using waiting_round [OF less.prems] by blast
  from c1(4) show ?case
  proof
    assume "rx_at ReadingHeader w (hdr @ tail) c1"
    with c1(1,3) show ?thesis by (intro exI [of _ c1]) auto
  next
    assume "rx_at WaitingForHeader w (noise1 @ hdr @ tail) c1 \<and> m_pos (m_inboundMessage c1) < 8 \<and>
      (\<forall>i<length noise1. \<not> marked (drop i (noise1 @ hdr)))"
    with less.hyps [OF c1(2), of noise1] less.prems(3,4) obtain c' where
      "rx_quiets L c1 c'" "rx_at ReadingHeader w (hdr @ tail) c'" "m_lastOutboundMessage c' = m_lastOutboundMessage c1" by blast
    with c1(1,3) show ?thesis using quiet_first by (metis (no_types))
  qed
qed

section \<open>Headers and payloads\<close>

definition header_read :: "'w \<Rightarrow> u8 list \<Rightarrow> u8 list \<Rightarrow> 'w WP_Controller \<Rightarrow> bool" where
  "header_read w hdr s c \<longleftrightarrow>
     m_rxState (m_inboundMessage c) = CompleteHeader \<and> m_state c = w \<and> m_header (m_inboundMessage c) = hdr \<and>
     [] \<notin> set (m_port c) \<and> concat (m_port c) = s"

lemma put_bytes_all: "take pos buf @ got @ s = t \<Longrightarrow> pos + length got = length buf \<Longrightarrow> put_bytes got pos buf @ s = t"
  by (simp add: put_bytes_def)

lemma put_bytes_Nil [simp]: "put_bytes [] pos buf = buf"
  by (simp add: put_bytes_def)

lemma reads_header:
  assumes "rx_at ReadingHeader w (hdr @ tail) c" "length hdr = 32"
  shows "\<exists>c'. rx_quiets L c c' \<and> header_read w hdr tail c' \<and> m_lastOutboundMessage c' = m_lastOutboundMessage c"
  using assms(1)
proof (induction "m_size (m_inboundMessage c)" arbitrary: c rule: less_induct)
  case less
  let ?m = "m_inboundMessage c"
  from less.prems have m: "m_rxState ?m = ReadingHeader" "m_state c = w" "[] \<notin> set (m_port c)" "length (m_header ?m) = 32"
    "m_pos ?m \<le> 32" "m_size ?m = 32 - m_pos ?m" "take (m_pos ?m) (m_header ?m) @ concat (m_port c) = hdr @ tail"
    by (auto simp: rx_at_def Let_def)
  show ?case
  proof (cases "m_size ?m = 0")
    case True
    let ?c = "c\<lparr>m_inboundMessage := ?m\<lparr>m_rxState := CompleteHeader\<rparr>\<rparr>"
    have "rx_quiet L c ?c"
      using m(1) True by (simp add: rx_quiet_iff rx_round_def Let_def ReceiveBytes_0)
    moreover have "header_read w hdr tail ?c"
      using m True assms(2) by (simp add: header_read_def)
    ultimately show ?thesis by (intro exI [of _ ?c]) auto
  next
    case False
    have "0 < length (concat (m_port c))"
      using False assms(2) m(4-6) arg_cong [OF m(7), of length]
      by (simp del: length_greater_0_conv concat_eq_Nil_conv)
    then obtain port got where r: "ReceiveBytes (m_size ?m) (m_port c) = (port, Some got)"
      using port_available [of "m_size ?m" "m_port c"] False m(3) by auto
    note got = ReceiveBytes_Some [OF r] and sz = False [THEN neq0_conv [THEN iffD1]]
    let ?n = "?m\<lparr>m_header := put_bytes got (m_pos ?m) (m_header ?m), m_pos := m_pos ?m + length got,
        m_size := m_size ?m - length got\<rparr>"
    let ?c = "c\<lparr>m_port := port, m_inboundMessage := (if m_size ?m \<le> length got then ?n\<lparr>m_rxState := CompleteHeader\<rparr> else ?n)\<rparr>"
    have step: "rx_quiet L c ?c"
      using m(1) r by (simp add: rx_quiet_iff rx_round_def Let_def)
    have all: "take (m_pos ?m) (m_header ?m) @ got @ concat port = hdr @ tail" using m(7) got(3) sz by simp
    have le: "m_pos ?m + length got \<le> 32" using got(2) sz m(5,6) by simp
    show ?thesis
    proof (cases "m_size ?m \<le> length got")
      case True
      then have "put_bytes got (m_pos ?m) (m_header ?m) @ concat port = hdr @ tail"
        using all le m(4,6) by (intro put_bytes_all) auto
      then have "put_bytes got (m_pos ?m) (m_header ?m) = hdr" "concat port = tail"
        using assms(2) le m(4) by (simp_all add: append_eq_append_conv)
      then have "header_read w hdr tail ?c" using True m(2,3) got(4) sz by (simp add: header_read_def)
      with step show ?thesis by (intro exI [of _ ?c]) auto
    next
      case more: False
      have "rx_at ReadingHeader w (hdr @ tail) ?c"
        using more all le m got(4) sz by (simp add: rx_at_def)
      moreover have "m_size (m_inboundMessage ?c) < m_size ?m" using more got(1) sz by (simp add: le_diff_iff')
      ultimately obtain c' where "rx_quiets L ?c c'" "header_read w hdr tail c'" "m_lastOutboundMessage c' = m_lastOutboundMessage c"
        using less.hyps by fastforce
      with step show ?thesis using quiet_first by blast
    qed
  qed
qed

text \<open>The payload: \<open>s\<close> is what the buffer holds and what is still to come.\<close>

definition prompt :: "'w Layers \<Rightarrow> bool" where
  "prompt L \<longleftrightarrow> (\<forall>w w'. TicksToTime L (snd (CurrentTicks L w) - snd (CurrentTicks L w')) < c_PayloadTimeout)"

definition payload_at :: "'w Layers \<Rightarrow> u8 list \<Rightarrow> nat \<Rightarrow> u8 list \<Rightarrow> 'w WP_Controller \<Rightarrow> bool" where
  "payload_at L hdr n s c \<longleftrightarrow>
     (let m = m_inboundMessage c in
      m_rxState m = ReadingPayload \<and> [] \<notin> set (m_port c) \<and> m_header m = hdr \<and> m_packetSize (packet_of hdr) \<noteq> 0 \<and>
      (\<exists>w. m_payloadTicks m = snd (CurrentTicks L w)) \<and> m_pos m < n \<and> m_size m = n - m_pos m \<and>
      (\<exists>buf. m_payload m = Some buf \<and> length buf = n \<and> take (m_pos m) buf @ concat (m_port c) = s))"

definition bytes_of :: "u8 list option \<Rightarrow> u8 list" where
  "bytes_of p = (case p of None \<Rightarrow> [] | Some b \<Rightarrow> b)"

definition payload_read :: "u8 list \<Rightarrow> u8 list \<Rightarrow> u8 list \<Rightarrow> 'w WP_Controller \<Rightarrow> bool" where
  "payload_read hdr payload s c \<longleftrightarrow>
     m_rxState (m_inboundMessage c) = CompletePayload \<and> [] \<notin> set (m_port c) \<and> m_header (m_inboundMessage c) = hdr \<and>
     bytes_of (m_payload (m_inboundMessage c)) = payload \<and>
     (m_payload (m_inboundMessage c) = None \<longleftrightarrow> m_packetSize (packet_of hdr) = 0) \<and> concat (m_port c) = s"

text \<open>States of the application that differ only in what reading the clock changes.\<close>

definition clocked :: "'w Layers \<Rightarrow> 'w \<Rightarrow> 'w \<Rightarrow> bool" where
  "clocked L = (\<lambda>w w'. w' = fst (CurrentTicks L w))\<^sup>*\<^sup>*"

lemma clocked_refl [simp]: "clocked L w w"
  by (simp add: clocked_def)

lemma clocked_step: "clocked L (fst (CurrentTicks L w)) w' \<Longrightarrow> clocked L w w'"
  unfolding clocked_def by (rule converse_rtranclp_into_rtranclp [rotated]) simp_all

lemma reads_payload:
  assumes "payload_at L hdr (length payload) (payload @ tail) c" "prompt L"
  shows "\<exists>c'. rx_quiets L c c' \<and> payload_read hdr payload tail c' \<and> clocked L (m_state c) (m_state c') \<and>
    m_lastOutboundMessage c' = m_lastOutboundMessage c"
  using assms(1)
proof (induction "m_size (m_inboundMessage c)" arbitrary: c rule: less_induct)
  case less
  let ?m = "m_inboundMessage c"
  from less.prems obtain buf w0 where m: "m_rxState ?m = ReadingPayload" "[] \<notin> set (m_port c)" "m_header ?m = hdr"
    "m_payloadTicks ?m = snd (CurrentTicks L w0)" "m_pos ?m < length payload" "m_size ?m = length payload - m_pos ?m"
    and hz: "m_packetSize (packet_of hdr) \<noteq> 0"
    and buf: "m_payload ?m = Some buf" "length buf = length payload" "take (m_pos ?m) buf @ concat (m_port c) = payload @ tail"
    by (auto simp: payload_at_def Let_def)
  have sz: "0 < m_size ?m" using m(5,6) by simp
  have "0 < length (concat (m_port c))"
    using m(5) buf(2) arg_cong [OF buf(3), of length] by (simp del: length_greater_0_conv concat_eq_Nil_conv)
  then obtain port got where r: "ReceiveBytes (m_size ?m) (m_port c) = (port, Some got)"
    using port_available [OF sz m(2)] by auto
  note got = ReceiveBytes_Some [OF r sz]
  obtain w1 t where ct: "CurrentTicks L (m_state c) = (w1, t)" by fastforce
  have intime: "TicksToTime L (t - m_payloadTicks ?m) < c_PayloadTimeout"
    using assms(2) ct m(4) unfolding prompt_def by (metis snd_conv)
  let ?n = "?m\<lparr>m_payloadTicks := t, m_payload := Some (put_bytes got (m_pos ?m) buf), m_pos := m_pos ?m + length got,
      m_size := m_size ?m - length got\<rparr>"
  let ?c = "c\<lparr>m_state := w1, m_port := port,
      m_inboundMessage := (if m_size ?m \<le> length got then ?n\<lparr>m_rxState := CompletePayload\<rparr> else ?n)\<rparr>"
  have step: "rx_quiet L c ?c"
    using m(1) r ct intime buf(1) by (simp add: rx_quiet_iff rx_round_def read_payload_def Let_def)
  have w: "w1 = fst (CurrentTicks L (m_state c))" using ct by simp
  have all: "take (m_pos ?m) buf @ got @ concat port = payload @ tail" using buf(3) got(3) by simp
  have le: "m_pos ?m + length got \<le> length payload" using got(2) m(5,6) by simp
  show ?case
  proof (cases "m_size ?m \<le> length got")
    case True
    then have "put_bytes got (m_pos ?m) buf @ concat port = payload @ tail"
      using all le m(6) buf(2) by (intro put_bytes_all) auto
    then have "put_bytes got (m_pos ?m) buf = payload" "concat port = tail"
      using le buf(2) by (simp_all add: append_eq_append_conv)
    then have "payload_read hdr payload tail ?c" using True m(2,3) got(4) hz by (simp add: payload_read_def bytes_of_def)
    with step w clocked_step [of L "m_state c" w1] show ?thesis by (intro exI [of _ ?c]) auto
  next
    case more: False
    have "payload_at L hdr (length payload) (payload @ tail) ?c"
    proof -
      have "\<exists>w. t = snd (CurrentTicks L w)" using ct by (intro exI [of _ "m_state c"]) simp
      moreover have "m_pos ?m + length got < length payload" using more m(6) by simp
      ultimately show ?thesis using more all le m(1,2,3,6) buf(2) got(4) hz by (simp add: payload_at_def)
    qed
    moreover have "m_size (m_inboundMessage ?c) < m_size ?m" using more got(1) by (simp add: le_diff_iff')
    ultimately have "\<exists>c'. rx_quiets L ?c c' \<and> payload_read hdr payload tail c' \<and> clocked L (m_state ?c) (m_state c') \<and>
        m_lastOutboundMessage c' = m_lastOutboundMessage ?c"
      using less.hyps by blast
    then obtain c' where c': "rx_quiets L ?c c'" "payload_read hdr payload tail c'" "clocked L w1 (m_state c')"
      "m_lastOutboundMessage c' = m_lastOutboundMessage c"
      by auto
    have "rx_quiets L c c'" using step c'(1) by (rule quiet_first)
    moreover have "clocked L (m_state c) (m_state c')" using c'(3) unfolding w by (rule clocked_step)
    ultimately show ?thesis using c'(2,4) by blast
  qed
qed

section \<open>The contract of the application layer\<close>

text \<open>
  What the receiver needs of an application: a buffer of the size of the payload for a header it
  accepts. \<open>abs\<close> is a view of the application and of the counter of sent messages that only the
  delivery of a message changes, by \<open>handle\<close>.
\<close>

definition sent :: "WP_Packet \<Rightarrow> u8 list \<Rightarrow> bool" where
  "sent p payload \<longleftrightarrow> length payload < 2 ^ 31 \<and>
     (\<exists>sig\<in>{MARKER_DEBUGGER_V1, MARKER_PACKET_V1}. \<exists>cmd sq sr flags.
        prepare sig cmd sq sr flags (of_nat (length payload)) payload = Some p)"

text \<open>Noise in front of a packet that does not contain a marker, not even one that ends in the packet.\<close>

definition no_marker :: "u8 list \<Rightarrow> WP_Packet \<Rightarrow> bool" where
  "no_marker noise p \<longleftrightarrow> (\<forall>i<length noise. \<not> marked (drop i (noise @ packet_image p)))"

definition rx_ready :: "'w WP_Controller \<Rightarrow> bool" where
  "rx_ready c \<longleftrightarrow> m_rxState (m_inboundMessage c) = Initialize \<and> length (m_header (m_inboundMessage c)) = 32 \<and>
     [] \<notin> set (m_port c)"

lemma unat_of_length: "length payload < 2 ^ 31 \<Longrightarrow> unat (of_nat (length payload) :: u32) = length payload"
  by (simp add: unat_of_nat take_bit_nat_eq_self)

lemma sent_facts:
  assumes "sent p payload"
  shows "length (packet_image p) = 32" "marked (packet_image p)" "packet_of (packet_image p) = p"
    "unat (m_packetSize p) = length payload"
    "m_header m = packet_image p \<Longrightarrow> VerifyHeader m"
    "m_header m = packet_image p \<Longrightarrow> bytes_of (m_payload m) = payload \<Longrightarrow>
       (m_payload m = None \<longrightarrow> m_packetSize p = 0) \<Longrightarrow> VerifyPayload m = Some True"
proof -
  from assms obtain sig cmd sq sr flags where s: "sig \<in> {MARKER_DEBUGGER_V1, MARKER_PACKET_V1}"
    and prep: "prepare sig cmd sq sr flags (of_nat (length payload)) payload = Some p" and lt: "length payload < 2 ^ 31"
    unfolding sent_def by blast
  have sig: "length sig = 8" using s by auto
  note p = prepare_verified [OF prep sig]
  show "length (packet_image p) = 32" "packet_of (packet_image p) = p"
    using p(1) sig by (simp_all add: packet_of_image)
  have "take 8 (packet_image p) = sig" using p(1) sig by (simp add: packet_image_def)
  with s show "marked (packet_image p)" by (simp add: marked_def)
  show "unat (m_packetSize p) = length payload" unfolding p(2) by (rule unat_of_length [OF lt])
  show "VerifyHeader m" if "m_header m = packet_image p"
  proof -
    have "m\<lparr>m_header := packet_image p\<rparr> = m" using that by simp
    with p(3) [of m] show ?thesis by simp
  qed
  show "VerifyPayload m = Some True" if h: "m_header m = packet_image p" and b: "bytes_of (m_payload m) = payload"
    and z: "m_payload m = None \<longrightarrow> m_packetSize p = 0"
  proof (cases "m_payload m")
    case None
    with b have e: "payload = []" by (simp add: bytes_of_def)
    have "m_crcData p = 0" using prep e by (auto simp: prepare_def Let_def split: option.splits)
    with None z h \<open>packet_of (packet_image p) = p\<close> show ?thesis by (simp add: VerifyPayload_def)
  next
    case (Some buf)
    with b have "m_payload m = Some payload" by (simp add: bytes_of_def)
    with h have "m\<lparr>m_header := packet_image p, m_payload := Some payload\<rparr> = m" by simp
    with p(4) [of m] show ?thesis by simp
  qed
qed

locale application =
  fixes L :: "'w Layers"
    and accepts :: "u8 list \<Rightarrow> bool"
    and abs :: "'w \<Rightarrow> u16 \<Rightarrow> 'a"
    and handle :: "'a \<Rightarrow> u8 list \<times> u8 list \<Rightarrow> 'a"
  assumes accept_law: "accepts h \<Longrightarrow> App_ProcessHeader L w h = (w', ok, buf) \<Longrightarrow>
      ok \<and> abs w' n = abs w n \<and> (buf = None \<longleftrightarrow> m_packetSize (packet_of h) = 0) \<and>
      length (bytes_of buf) = unat (m_packetSize (packet_of h))"
    and deliver_law: "App_ProcessPayload L w n h p = (w', n', answer) \<Longrightarrow> p = None \<or> bytes_of p \<noteq> [] \<Longrightarrow> abs w' n' = handle (abs w n) (h, bytes_of p)"
    and release_law: "abs (App_Release L w) n = abs w n"
    and clock_law: "abs (fst (CurrentTicks L w)) n = abs w n"
begin

lemma clocked_abs: "clocked L w w' \<Longrightarrow> abs w' n = abs w n"
  unfolding clocked_def by (induction rule: rtranclp_induct) (simp_all add: clock_law)

lemma initialize_round:
  assumes "rx_ready c"
  shows "\<exists>c'. rx_quiet L c c' \<and> rx_at WaitingForHeader (m_state c') (concat (m_port c)) c' \<and> m_pos (m_inboundMessage c') = 0 \<and>
    abs (m_state c') n = abs (m_state c) n \<and> m_lastOutboundMessage c' = m_lastOutboundMessage c"
  using assms
  by (cases "m_payload (m_inboundMessage c)")
    (auto simp: rx_quiet_iff rx_round_def rx_ready_def Let_def Release_def rx_at_def sizeof_header_def release_law)

lemma complete_header_round:
  assumes "header_read w (packet_image p) (payload @ rest) c" "sent p original" "accepts (packet_image p)"
    "length payload = length original"
  shows "\<exists>c'. rx_quiet L c c' \<and> abs (m_state c') n = abs w n \<and> m_lastOutboundMessage c' = m_lastOutboundMessage c \<and>
    (if payload = [] then payload_read (packet_image p) payload rest c'
     else payload_at L (packet_image p) (length payload) (payload @ rest) c')"
proof -
  note s = sent_facts(1-3) [OF assms(2)] sent_facts(4) [OF assms(2), folded assms(4)] sent_facts(5) [OF assms(2)]
  obtain w' ok buf where a: "App_ProcessHeader L w (packet_image p) = (w', ok, buf)" by (metis prod_cases3)
  note acc = accept_law [OF assms(3) a, of n]
  from assms(1) have m: "m_rxState (m_inboundMessage c) = CompleteHeader" "m_state c = w"
    "m_header (m_inboundMessage c) = packet_image p" "[] \<notin> set (m_port c)" "concat (m_port c) = payload @ rest"
    by (auto simp: header_read_def)
  have vh: "VerifyHeader (m_inboundMessage c)" using s(5) m(3) by blast
  show ?thesis
  proof (cases "payload = []")
    case True
    have z: "m_packetSize p = 0" using s(4) True by (simp add: unat_eq_0)
    have "bytes_of buf = []" using acc s(3) z by (auto simp: bytes_of_def)
    with True z m s(3) a vh acc show ?thesis
      by (simp add: rx_quiet_iff rx_round_def header_complete_def Let_def payload_read_def bytes_of_def)
  next
    case False
    have nz: "m_packetSize p \<noteq> 0" using s(4) False by auto
    then obtain b where b: "buf = Some b" "length b = length payload" using acc s(3,4) by (cases buf) (auto simp: bytes_of_def)
    obtain w2 t where t: "CurrentTicks L w' = (w2, t)" by fastforce
    have "abs w2 n = abs w n" using clock_law [of w' n] acc t by simp
    moreover have "\<exists>w. t = snd (CurrentTicks L w)" using t by (intro exI [of _ w']) simp
    ultimately show ?thesis
      using False nz m s(3,4) a vh acc b t
      by (simp add: rx_quiet_iff rx_round_def header_complete_def Let_def payload_at_def)
  qed
qed

lemma deliver_round:
  assumes "payload_read (packet_image p) payload rest c" "sent p payload"
  shows "\<exists>c'. rx_step L c c' \<and> rx_ready c' \<and> concat (m_port c') = rest \<and>
    abs (m_state c') (m_lastOutboundMessage c') = handle (abs (m_state c) (m_lastOutboundMessage c)) (packet_image p, payload)"
proof -
  note s = sent_facts [OF assms(2)]
  let ?m = "m_inboundMessage c"
  from assms(1) have m: "m_rxState ?m = CompletePayload" "[] \<notin> set (m_port c)" "m_header ?m = packet_image p"
    "bytes_of (m_payload ?m) = payload" "m_payload ?m = None \<longrightarrow> m_packetSize p = 0" "concat (m_port c) = rest"
    "m_payload ?m = None \<or> bytes_of (m_payload ?m) \<noteq> []"
    using s(4) by (auto simp: payload_read_def bytes_of_def s(3) unat_eq_0)
  obtain w' n' ok where a: "App_ProcessPayload L (m_state c) (m_lastOutboundMessage c) (packet_image p) (m_payload ?m) = (w', n', ok)"
    by (metis prod_cases3)
  have v: "VerifyPayload ?m = Some True" by (rule s(6) [OF m(3,4,5)])
  let ?c = "c\<lparr>m_state := w', m_lastOutboundMessage := n', m_inboundMessage := ?m\<lparr>m_rxState := Initialize\<rparr>\<rparr>"
  have "rx_step L c ?c"
    unfolding rx_step_iff rx_round_def using m(1,3) a v by (simp add: Let_def)
  moreover have "rx_ready ?c" "concat (m_port ?c) = rest"
    using m(2,3,6) s(1) by (simp_all add: rx_ready_def)
  moreover have "abs w' n' = handle (abs (m_state c) (m_lastOutboundMessage c)) (packet_image p, payload)"
    using deliver_law [OF a m(7)] m(4) by simp
  ultimately show ?thesis by (intro exI [of _ ?c]) simp
qed

lemma message_read:
  assumes "rx_ready c" "concat (m_port c) = noise @ packet_image p @ payload @ rest" "no_marker noise p"
    "sent p original" "accepts (packet_image p)" "prompt L" "length payload = length original"
  shows "\<exists>c'. rx_quiets L c c' \<and> payload_read (packet_image p) payload rest c' \<and>
    m_lastOutboundMessage c' = m_lastOutboundMessage c \<and>
    abs (m_state c') (m_lastOutboundMessage c) = abs (m_state c) (m_lastOutboundMessage c)"
proof -
  note s = sent_facts(1,2) [OF assms(4)]
  let ?n = "m_lastOutboundMessage c"
  obtain c1 where c1: "rx_quiet L c c1" "rx_at WaitingForHeader (m_state c1) (noise @ packet_image p @ payload @ rest) c1"
    "m_pos (m_inboundMessage c1) = 0" "abs (m_state c1) ?n = abs (m_state c) ?n" "m_lastOutboundMessage c1 = ?n"
    using initialize_round [OF assms(1), of ?n] assms(2) by auto
  obtain c2 where c2: "rx_quiets L c1 c2" "rx_at ReadingHeader (m_state c1) (packet_image p @ payload @ rest) c2"
    "m_lastOutboundMessage c2 = ?n"
    using synchronises [OF c1(2) _ s] c1(3,5) assms(3) by (auto simp: no_marker_def)
  obtain c3 where c3: "rx_quiets L c2 c3" "header_read (m_state c1) (packet_image p) (payload @ rest) c3"
    "m_lastOutboundMessage c3 = ?n"
    using reads_header [OF c2(2) s(1)] c2(3) by auto
  obtain c4 where c4: "rx_quiet L c3 c4" "abs (m_state c4) ?n = abs (m_state c1) ?n" "m_lastOutboundMessage c4 = ?n"
    "if payload = [] then payload_read (packet_image p) payload rest c4
     else payload_at L (packet_image p) (length payload) (payload @ rest) c4"
    using complete_header_round [OF c3(2) assms(4,5,7), of ?n] c3(3) by auto
  obtain c5 where c5: "rx_quiets L c4 c5" "payload_read (packet_image p) payload rest c5" "abs (m_state c5) ?n = abs (m_state c4) ?n"
    "m_lastOutboundMessage c5 = ?n"
  proof (cases "payload = []")
    case True
    with c4 that [of c4] show ?thesis by simp
  next
    case False
    with c4(4) have "payload_at L (packet_image p) (length payload) (payload @ rest) c4" by simp
    from reads_payload [OF this assms(6)] c4(3) that clocked_abs show ?thesis by metis
  qed
  have "rx_quiets L c c5"
    using c1(1) c2(1) c3(1) c4(1) c5(1) by (meson r_into_rtranclp rtranclp_trans)
  then show ?thesis using c5 c4(2) c1(4) by auto
qed

lemma one_message:
  assumes "rx_ready c" "concat (m_port c) = noise @ packet_image p @ payload @ rest" "no_marker noise p"
    "sent p payload" "accepts (packet_image p)" "prompt L"
  shows "\<exists>c'. rx_steps L c c' \<and> rx_ready c' \<and> concat (m_port c') = rest \<and>
    abs (m_state c') (m_lastOutboundMessage c') = handle (abs (m_state c) (m_lastOutboundMessage c)) (packet_image p, payload)"
proof -
  obtain c1 where c1: "rx_steps L c c1" "payload_read (packet_image p) payload rest c1"
    "m_lastOutboundMessage c1 = m_lastOutboundMessage c"
    "abs (m_state c1) (m_lastOutboundMessage c) = abs (m_state c) (m_lastOutboundMessage c)"
    using message_read [OF assms refl] quiets_steps by blast
  obtain c2 where "rx_step L c1 c2" "rx_ready c2" "concat (m_port c2) = rest"
    "abs (m_state c2) (m_lastOutboundMessage c2) = handle (abs (m_state c1) (m_lastOutboundMessage c1)) (packet_image p, payload)"
    using deliver_round [OF c1(2) assms(4)] by blast
  with c1 show ?thesis by (metis rtranclp.rtrancl_into_rtrancl)
qed

lemma all_messages:
  assumes "rx_ready c" "concat (m_port c) = concat (map (\<lambda>(noise, p, payload). noise @ packet_image p @ payload) ms) @ rest"
    "\<forall>(noise, p, payload)\<in>set ms. no_marker noise p \<and> sent p payload \<and> accepts (packet_image p)" "prompt L"
  shows "\<exists>c'. rx_steps L c c' \<and> rx_ready c' \<and> concat (m_port c') = rest \<and>
    abs (m_state c') (m_lastOutboundMessage c') =
      foldl handle (abs (m_state c) (m_lastOutboundMessage c)) (map (\<lambda>(noise, p, payload). (packet_image p, payload)) ms)"
  using assms(1-3)
proof (induction ms arbitrary: c)
  case Nil
  then show ?case by auto
next
  case (Cons m ms)
  obtain noise p payload where m: "m = (noise, p, payload)" by (cases m)
  let ?rest = "concat (map (\<lambda>(noise, p, payload). noise @ packet_image p @ payload) ms) @ rest"
  obtain c1 where c1: "rx_steps L c c1" "rx_ready c1" "concat (m_port c1) = ?rest"
    "abs (m_state c1) (m_lastOutboundMessage c1) = handle (abs (m_state c) (m_lastOutboundMessage c)) (packet_image p, payload)"
    using one_message [OF Cons.prems(1), of noise p payload ?rest] Cons.prems(2,3) assms(4) by (auto simp: m)
  obtain c2 where c2: "rx_steps L c1 c2" "rx_ready c2" "concat (m_port c2) = rest"
    "abs (m_state c2) (m_lastOutboundMessage c2) =
      foldl handle (abs (m_state c1) (m_lastOutboundMessage c1)) (map (\<lambda>(noise, p, payload). (packet_image p, payload)) ms)"
    using Cons.IH [OF c1(2,3)] Cons.prems(3) by auto
  have "rx_steps L c c2" using c1(1) c2(1) by (rule rtranclp_trans)
  with c2 c1(4) show ?case by (auto simp: m)
qed

end

section \<open>Reachable states\<close>

text \<open>
  The controller from its initialisation on: rounds of the receiver, bytes arriving in any chunks,
  requests sent by the application.
\<close>

inductive reachable :: "'w Layers \<Rightarrow> 'w WP_Controller \<Rightarrow> bool" for L where
  init: "reachable L (Controller_Initialize marker w port)"
| round: "reachable L c \<Longrightarrow> rx_round L c = Some (c', a) \<Longrightarrow> reachable L c'"
| arrive: "reachable L c \<Longrightarrow> reachable L (c\<lparr>m_port := port\<rparr>)"
| send: "reachable L c \<Longrightarrow> SendRequest L cmd flags n payload c = Some (c', ok) \<Longrightarrow> reachable L c'"

lemma reachable_steps: "rx_steps L c c' \<Longrightarrow> reachable L c \<Longrightarrow> reachable L c'"
  by (induction rule: rtranclp_induct) (auto simp: rx_step_iff intro: reachable.round)

definition buffers :: "'w Layers \<Rightarrow> bool" where
  "buffers L \<longleftrightarrow> (\<forall>w h w' buf. App_ProcessHeader L w h = (w', True, Some buf) \<longrightarrow>
     unat (m_packetSize (packet_of h)) \<le> length buf)"

text \<open>The bounds of the receiver; \<open>b\<close> says whether the application keeps its part.\<close>

definition message_inv :: "bool \<Rightarrow> WP_Message \<Rightarrow> bool" where
  "message_inv b m \<longleftrightarrow> length (m_header m) = 32 \<and>
     (let n = unat (m_packetSize (packet_of (m_header m))) in
      case m_rxState m of
        Idle \<Rightarrow> True | Initialize \<Rightarrow> True | CompleteHeader \<Rightarrow> True
      | WaitingForHeader \<Rightarrow> m_pos m < 8 \<and> m_size m = 32 - m_pos m
      | ReadingHeader \<Rightarrow> m_pos m + m_size m = 32
      | ReadingPayload \<Rightarrow> VerifyHeader m \<and> 0 < m_size m \<and> m_pos m + m_size m = n \<and>
          m_payload m \<noteq> None \<and> (b \<longrightarrow> n \<le> length (bytes_of (m_payload m)))
      | CompletePayload \<Rightarrow> VerifyHeader m \<and>
          (b \<longrightarrow> m_payload m \<noteq> None \<longrightarrow> n \<le> length (bytes_of (m_payload m))))"

lemma SendRequest_message: "SendRequest L cmd flags n payload c = Some (c', ok) \<Longrightarrow> m_inboundMessage c' = m_inboundMessage c \<and> m_port c' = m_port c"
  by (auto simp: SendRequest_def PrepareRequest_def SendProtocolMessage_def split: option.splits prod.splits)

lemma ReplyBadPacket_message [simp]:
  "m_inboundMessage (ReplyBadPacket L flags c) = m_inboundMessage c" "m_port (ReplyBadPacket L flags c) = m_port c"
  using SendRequest_message [of L 0 "c_NonCritical OR c_NACK OR flags" 0 None c]
  by (auto simp: ReplyBadPacket_def split: option.splits prod.splits)

lemma Release_message [simp]:
  "m_header (m_inboundMessage (Release L c)) = m_header (m_inboundMessage c)" "m_port (Release L c) = m_port c"
  by (auto simp: Release_def split: option.splits)

lemma VerifyHeader_cong: "m_header m = m_header m' \<Longrightarrow> VerifyHeader m = VerifyHeader m'"
  by (simp add: VerifyHeader_def)

definition rx_rank :: "ReceiveState \<Rightarrow> nat" where
  "rx_rank st = (case st of Idle \<Rightarrow> 0 | WaitingForHeader \<Rightarrow> 1 | Initialize \<Rightarrow> 2 | CompletePayload \<Rightarrow> 3 | ReadingPayload \<Rightarrow> 4
     | CompleteHeader \<Rightarrow> 5 | ReadingHeader \<Rightarrow> 6)"

definition rx_measure :: "'w WP_Controller \<Rightarrow> nat" where
  "rx_measure c = 8 * length (concat (m_port c)) + rx_rank (m_rxState (m_inboundMessage c))"

text \<open>What one round does to the invariant and to the measure.\<close>

abbreviation round_ok :: "bool \<Rightarrow> 'w WP_Controller \<Rightarrow> 'w WP_Controller \<times> bool option \<Rightarrow> bool" where
  "round_ok b c r \<equiv> message_inv b (m_inboundMessage (fst r)) \<and>
     (case snd r of None \<Rightarrow> rx_measure (fst r) < rx_measure c | Some answer \<Rightarrow> answer)"

lemma read_measure:
  assumes "ReceiveBytes n port = (port', Some got)" "0 < n" "rx_rank st' < rx_rank st + 8"
  shows "8 * length (concat port') + rx_rank st' < 8 * length (concat port) + rx_rank st"
  using length_concat_port [OF assms(1,2)] assms(3) by linarith

lemma rx_rank_less: "rx_rank st < rx_rank st' + 8"
  by (cases st; cases st') (simp_all add: rx_rank_def)

lemma waiting_ok:
  assumes "message_inv b (m_inboundMessage c)" "m_rxState (m_inboundMessage c) = WaitingForHeader" "rx_round L c = Some r"
  shows "round_ok b c r"
proof -
  let ?m = "m_inboundMessage c"
  from assms(1,2) have m: "length (m_header ?m) = 32" "m_pos ?m < 8" "m_size ?m = 32 - m_pos ?m"
    by (auto simp: message_inv_def Let_def)
  then have size: "0 < m_size ?m" by simp
  obtain port res where rb: "ReceiveBytes (m_size ?m) (m_port c) = (port, res)" by fastforce
  show ?thesis
  proof (cases res)
    case None
    with assms rb show ?thesis by (auto simp: rx_round_def Let_def)
  next
    case (Some got)
    note r = rb [unfolded Some] and got = ReceiveBytes_Some [OF rb [unfolded Some] size]
    define k where "k = m_pos ?m + length got"
    define h where "h = put_bytes got (m_pos ?m) (m_header ?m)"
    have k: "k \<le> length h" "length h = 32" using got(2) m size by (simp_all add: h_def k_def)
    obtain h' k' where sy: "synch h k = (h', k')" by fastforce
    from synch_spec [OF k(1) sy] k have k': "length h' = 32" "k' \<le> 32" by auto
    from assms(2,3) r sy have "r = (c\<lparr>m_port := port, m_inboundMessage :=
        (if 8 \<le> k' then ?m\<lparr>m_header := h', m_pos := k', m_size := 32 - k', m_rxState := ReadingHeader\<rparr>
         else ?m\<lparr>m_header := h', m_pos := k', m_size := 32 - k'\<rparr>)\<rparr>, None)"
      by (simp add: rx_round_def Let_def h_def k_def sizeof_header_def sizeof_signature_def)
    with k' assms(2) read_measure [OF r size rx_rank_less] show ?thesis
      by (auto simp: message_inv_def rx_measure_def Let_def)
  qed
qed

lemma reading_ok:
  assumes "message_inv b (m_inboundMessage c)" "m_rxState (m_inboundMessage c) = ReadingHeader" "rx_round L c = Some r"
  shows "round_ok b c r"
proof -
  let ?m = "m_inboundMessage c"
  from assms(1,2) have m: "length (m_header ?m) = 32" "m_pos ?m + m_size ?m = 32"
    by (auto simp: message_inv_def Let_def)
  obtain port res where rb: "ReceiveBytes (m_size ?m) (m_port c) = (port, res)" by fastforce
  show ?thesis
  proof (cases res)
    case None
    with assms rb show ?thesis by (auto simp: rx_round_def Let_def)
  next
    case (Some got)
    note r = rb [unfolded Some]
    let ?n = "?m\<lparr>m_header := put_bytes got (m_pos ?m) (m_header ?m), m_pos := m_pos ?m + length got, m_size := m_size ?m - length got\<rparr>"
    from assms(2,3) r have res: "r = (c\<lparr>m_port := port, m_inboundMessage :=
        (if m_size ?m \<le> length got then ?n\<lparr>m_rxState := CompleteHeader\<rparr> else ?n)\<rparr>, None)"
      by (simp add: rx_round_def Let_def)
    show ?thesis
    proof (cases "m_size ?m = 0")
      case True
      with r have "got = []" "port = m_port c" by (simp_all add: ReceiveBytes_0)
      with True m assms(2) show ?thesis unfolding res by (simp add: message_inv_def rx_measure_def rx_rank_def Let_def)
    next
      case False
      then have size: "0 < m_size ?m" by simp
      from ReceiveBytes_Some(2) [OF r size] m assms(2) read_measure [OF r size rx_rank_less] show ?thesis
        unfolding res by (auto simp: message_inv_def rx_measure_def Let_def)
    qed
  qed
qed

lemma complete_ok:
  assumes "message_inv (buffers L) (m_inboundMessage c)" "m_rxState (m_inboundMessage c) = CompleteHeader" "rx_round L c = Some r"
  shows "round_ok (buffers L) c r"
proof -
  let ?m = "m_inboundMessage c"
  obtain w ok buf where a: "App_ProcessHeader L (m_state c) (m_header ?m) = (w, ok, buf)" by (metis prod_cases3)
  obtain w2 t where t: "CurrentTicks L w = (w2, t)" by fastforce
  have b: "unat (m_packetSize (packet_of (m_header ?m))) \<le> length bs" if "ok" "buf = Some bs" "buffers L" for bs
  proof -
    have "App_ProcessHeader L (m_state c) (m_header ?m) = (w, True, Some bs)" using a that by simp
    with that(3) show ?thesis unfolding buffers_def by blast
  qed
  have r: "r = (header_complete L c, None)" using assms(2,3) by (simp add: rx_round_def Let_def)
  have vh: "VerifyHeader (?m\<lparr>m_payload := p, m_payloadTicks := tk, m_rxState := st, m_pos := x, m_size := y\<rparr>) = VerifyHeader ?m"
    "VerifyHeader (?m\<lparr>m_payload := p, m_rxState := st\<rparr>) = VerifyHeader ?m" for p tk st x y
    by (rule VerifyHeader_cong; simp)+
  show ?thesis
    using assms(1,2) a t b vh
    by (cases buf; cases ok)
      (auto simp: r header_complete_def Let_def message_inv_def rx_measure_def rx_rank_def bytes_of_def unat_gt_0)
qed

lemma payload_ok:
  assumes "message_inv b (m_inboundMessage c)" "m_rxState (m_inboundMessage c) = ReadingPayload" "rx_round L c = Some r"
  shows "round_ok b c r"
proof -
  let ?m = "m_inboundMessage c"
  from assms(1,2) obtain buf where m: "length (m_header ?m) = 32" "VerifyHeader ?m" "0 < m_size ?m"
    "m_pos ?m + m_size ?m = unat (m_packetSize (packet_of (m_header ?m)))" "m_payload ?m = Some buf"
    "b \<longrightarrow> unat (m_packetSize (packet_of (m_header ?m))) \<le> length buf"
    by (auto simp: message_inv_def Let_def bytes_of_def)
  obtain w t where t: "CurrentTicks L (m_state c) = (w, t)" by fastforce
  obtain port res where rb: "ReceiveBytes (m_size ?m) (m_port c) = (port, res)" by fastforce
  have r: "r = read_payload L c" using assms(2,3) by (simp add: rx_round_def Let_def)
  have vh: "VerifyHeader (?m\<lparr>m_payloadTicks := t, m_payload := p, m_pos := x, m_size := y\<rparr>)"
    "VerifyHeader (?m\<lparr>m_payloadTicks := t, m_payload := p, m_pos := x, m_size := y, m_rxState := st\<rparr>)"
    "VerifyHeader (?m\<lparr>m_payloadTicks := t\<rparr>)" for p x y st
    using m(2) by (simp_all add: VerifyHeader_def)
  show ?thesis
  proof (cases "TicksToTime L (t - m_payloadTicks ?m) < c_PayloadTimeout")
    case False
    with m(1) assms(2) t show ?thesis
      by (simp add: r read_payload_def Let_def message_inv_def rx_measure_def rx_rank_def)
  next
    case True
    show ?thesis
    proof (cases res)
      case None
      with True rb t m vh assms(2) show ?thesis
        by (simp add: r read_payload_def Let_def message_inv_def bytes_of_def)
    next
      case (Some got)
      note rs = rb [unfolded Some] and got = ReceiveBytes_Some [OF rb [unfolded Some] m(3)]
      have "length (put_bytes got (m_pos ?m) buf) = length buf" if b using that got(2) m(4,6) by simp
      moreover note read_measure [OF rs m(3) rx_rank_less]
      ultimately show ?thesis
        using True rs t m vh assms(2) got(2)
        by (auto simp: r read_payload_def Let_def message_inv_def bytes_of_def rx_measure_def)
    qed
  qed
qed

lemma round_keeps:
  assumes "message_inv (buffers L) (m_inboundMessage c)" "rx_round L c = Some r"
  shows "round_ok (buffers L) c r"
proof (cases "m_rxState (m_inboundMessage c)")
  case CompletePayload
  with assms show ?thesis
    by (auto simp: rx_round_def Let_def message_inv_def rx_measure_def rx_rank_def split: prod.splits)
qed (use assms waiting_ok [of "buffers L" c L r] reading_ok [of "buffers L" c L r] complete_ok [of L c r] payload_ok [of "buffers L" c L r]
  in \<open>auto simp: rx_round_def Let_def message_inv_def rx_measure_def rx_rank_def sizeof_header_def\<close>)

lemma reachable_inv: "reachable L c \<Longrightarrow> message_inv (buffers L) (m_inboundMessage c)"
proof (induction rule: reachable.induct)
  case (init marker w port)
  then show ?case by (simp add: Controller_Initialize_def PrepareReception_def Message_Initialize_def message_inv_def)
next
  case (round c c' a)
  then show ?case using round_keeps [of L c "(c', a)"] by simp
next
  case (send c cmd flags n payload c' ok)
  then show ?case using SendRequest_message by metis
qed simp

lemma sint_le_unat: "sint (n :: u32) \<le> int (unat n)"
proof -
  have "uint n < 2 ^ 32" using unsigned_less [of n, where ?'a = int] by simp
  then have "take_bit 32 (uint n) = uint n" by (intro take_bit_int_eq_self) simp_all
  then show ?thesis unfolding sint_uint by (simp add: signed_take_bit_eq_take_bit_minus)
qed

lemma sint_small:
  assumes "unat (n :: u32) < 2 ^ 31"
  shows "sint n = int (unat n)"
proof -
  have "int (unat n) < int (2 ^ 31)" using assms by (simp only: of_nat_less_iff)
  then have "uint n < 2 ^ 31" by (simp only: of_nat_unat of_nat_power of_nat_numeral)
  then have "signed_take_bit 31 (uint n) = uint n"
    by (intro signed_take_bit_int_eq_self) (auto intro: order_trans [OF _ uint_ge_0])
  then show ?thesis unfolding sint_uint by simp
qed

lemma ComputeCRC_total:
  assumes "unat n \<le> length buf"
  shows "SUPPORT_ComputeCRC buf (sint (n :: u32)) crc \<noteq> None"
proof (cases "0 \<le> sint n")
  case True
  have "nat (sint n) \<le> length buf" using assms sint_le_unat [of n] True by linarith
  with True show ?thesis by (simp add: SUPPORT_ComputeCRC_prefix)
next
  case False
  then show ?thesis by simp
qed

lemma round_total:
  assumes "reachable L c" "buffers L"
  shows "\<exists>r. rx_round L c = Some r"
proof (cases "m_rxState (m_inboundMessage c)")
  case CompletePayload
  with reachable_inv [OF assms(1)] assms(2)
  have "m_payload (m_inboundMessage c) \<noteq> None \<Longrightarrow>
      unat (m_packetSize (packet_of (m_header (m_inboundMessage c)))) \<le> length (bytes_of (m_payload (m_inboundMessage c)))"
    by (simp add: message_inv_def Let_def)
  then have "VerifyPayload (m_inboundMessage c) \<noteq> None"
    using ComputeCRC_total by (auto simp: VerifyPayload_def Let_def bytes_of_def split: option.splits)
  with CompletePayload show ?thesis by (auto simp: rx_round_def Let_def)
qed (auto simp: rx_round_def Let_def split: prod.splits option.splits)

lemma Process_enough:
  assumes "reachable L c" "buffers L" "rx_measure c < fuel"
  shows "\<exists>c'. Process L fuel c = Some (Inr (c', True)) \<and> reachable L c'"
  using assms(1,3)
proof (induction fuel arbitrary: c)
  case 0
  then show ?case by simp
next
  case (Suc fuel)
  obtain c1 a where r: "rx_round L c = Some (c1, a)" using round_total [OF Suc.prems(1) assms(2)] by auto
  note ok = round_keeps [OF reachable_inv [OF Suc.prems(1)] r] and reach = reachable.round [OF Suc.prems(1) r]
  show ?case
  proof (cases a)
    case None
    with ok Suc.prems(2) have "rx_measure c1 < fuel" by simp
    from Suc.IH [OF reach this] r None show ?thesis by simp
  next
    case (Some answer)
    with ok r reach show ?thesis by auto
  qed
qed

lemma Process_steps: "rx_steps L c c' \<Longrightarrow> \<exists>k. \<forall>fuel. Process L (k + fuel) c = Process L fuel c'"
proof (induction rule: converse_rtranclp_induct)
  case base
  show ?case by (intro exI [of _ 0]) simp
next
  case (step c c1)
  then obtain k where "\<forall>fuel. Process L (k + fuel) c1 = Process L fuel c'" by blast
  with step(1) show ?case by (intro exI [of _ "Suc k"]) (simp add: rx_step_iff)
qed

text \<open>An application that accepts every header and ignores the payload, for examples.\<close>

definition silent_layers :: "unit Layers" where
  "silent_layers = \<lparr>TransmitMessage = (\<lambda>w h p. (w, True)),
     App_ProcessHeader = (\<lambda>w h. (w, True, Some (replicate (unat (m_packetSize (packet_of h))) 0))),
     App_ProcessPayload = (\<lambda>w n h p. (w, n, True)), App_Release = (\<lambda>w. w), CurrentTicks = (\<lambda>w. (w, 0)),
     TicksToTime = (\<lambda>t. t)\<rparr>"

lemma silent_buffers: "buffers silent_layers"
  by (auto simp: buffers_def silent_layers_def)

section \<open>Properties\<close>

text \<open>
  C29: A call of the receiver returns: whatever bytes have arrived, whatever the application and
  the clock do, the loop ends with the answer true within eight rounds for each byte and seven
  more, if the application gives every header it accepts a buffer large enough.
\<close>

theorem Process_returns:
  assumes "reachable L c" "buffers L"
  shows "\<exists>c'. AdvanceState L (8 * length (concat (m_port c)) + 7) c = Some (Inr (c', True))"
proof -
  have "rx_rank st < 7" for st by (cases st) (simp_all add: rx_rank_def)
  then have "rx_measure c < 8 * length (concat (m_port c)) + 7" by (simp add: rx_measure_def)
  from Process_enough [OF assms this] show ?thesis by (auto simp: AdvanceState_def)
qed

theorem Process_returns_witness:
  "\<exists>c'. AdvanceState silent_layers 23 (Controller_Initialize None () [[0x4D, 0x53]]) = Some (Inr (c', True))"
  using Process_returns [OF reachable.init silent_buffers, of None "()" "[[0x4D, 0x53]]"]
  by (simp add: Controller_Initialize_def)

text \<open>
  The receiver stays inside its buffers: in every reachable state the header has its 32 bytes,
  the position and the number of bytes asked for never reach behind the end of the header or of
  the payload buffer, and no checksum reads behind a buffer.
\<close>

lemma receiver_in_bounds:
  assumes "reachable L c" "buffers L"
  shows "length (m_header (m_inboundMessage c)) = 32 \<and> rx_round L c \<noteq> None \<and>
    (m_rxState (m_inboundMessage c) \<in> {WaitingForHeader, ReadingHeader} \<longrightarrow>
       m_pos (m_inboundMessage c) + m_size (m_inboundMessage c) = 32) \<and>
    (m_rxState (m_inboundMessage c) = ReadingPayload \<longrightarrow>
       m_pos (m_inboundMessage c) + m_size (m_inboundMessage c) \<le> length (bytes_of (m_payload (m_inboundMessage c))))"
  using reachable_inv [OF assms(1)] round_total [OF assms] assms(2)
  by (auto simp: message_inv_def Let_def)

lemma receiver_in_bounds_witness:
  "rx_round silent_layers (Controller_Initialize None () [[0x4D, 0x53]]) \<noteq> None"
  using receiver_in_bounds [OF reachable.init silent_buffers, of None "()" "[[0x4D, 0x53]]"] by simp

text \<open>
  C8: Only verified messages are delivered: in a reachable state the next round depends on what
  the application does with a payload only when both checksums of the packet are right.
\<close>

theorem only_verified_delivered:
  assumes "reachable L c" "rx_round (L\<lparr>App_ProcessPayload := f\<rparr>) c \<noteq> rx_round L c"
  shows "VerifyHeader (m_inboundMessage c) \<and> VerifyPayload (m_inboundMessage c) = Some True"
proof -
  have "m_rxState (m_inboundMessage c) = CompletePayload \<and> VerifyPayload (m_inboundMessage c) = Some True"
    using assms(2) round_frame by blast
  with reachable_inv [OF assms(1)] show ?thesis by (simp add: message_inv_def Let_def)
qed

lemma SendRequest_marker: "SendRequest L cmd flags n payload c = Some (c', ok) \<Longrightarrow> m_szMarker c' = m_szMarker c"
  by (auto simp: SendRequest_def PrepareRequest_def SendProtocolMessage_def split: option.splits prod.splits)

lemma ReplyBadPacket_marker [simp]: "m_szMarker (ReplyBadPacket L flags c) = m_szMarker c"
  by (auto simp: ReplyBadPacket_def dest: SendRequest_marker split: option.splits prod.splits)

lemma round_marker: "rx_round L c = Some (c', a) \<Longrightarrow> m_szMarker c' = m_szMarker c"
  by (cases "m_rxState (m_inboundMessage c)")
    (auto simp: rx_round_def Release_def header_complete_def read_payload_def Let_def
      split: option.splits prod.splits if_splits)

lemma quiets_marker: "rx_quiets L c c' \<Longrightarrow> marker_of c = marker_of c'"
  by (induction rule: rtranclp_induct) (auto simp: rx_quiet_iff marker_of_def dest: round_marker)

text \<open>Damage inside a window of four bytes changes the checksum, so that the payload no longer verifies.\<close>

lemma VerifyPayload_damaged:
  assumes "sent p (xs @ us @ ys)" "us \<noteq> vs" "length us = 4" "length vs = 4"
    "m_header m = packet_image p" "m_payload m = Some (xs @ vs @ ys)"
  shows "VerifyPayload m = Some False"
proof -
  let ?good = "m\<lparr>m_payload := Some (xs @ us @ ys)\<rparr>"
  note s = sent_facts [OF assms(1)]
  have lt: "length (xs @ us @ ys) < 2 ^ 31" using assms(1) by (simp add: sent_def)
  have n: "sint (m_packetSize p) = int (length (xs @ us @ ys))" "sint (m_packetSize p) = int (length (xs @ vs @ ys))"
    using s(4) lt assms(3,4) sint_small [of "m_packetSize p"] by simp_all
  have "VerifyPayload ?good = Some True" by (rule s(6)) (use assms(5) in \<open>simp_all add: bytes_of_def\<close>)
  then have "crc_of (xs @ us @ ys) 0 = m_crcData p"
    using assms(5) s(3) unfolding VerifyPayload_def Let_def by (simp add: n(1) del: of_nat_add length_append)
  moreover have "crc_of (xs @ us @ ys) 0 \<noteq> crc_of (xs @ vs @ ys) 0"
    using assms(2) crc_of_four_inj [OF assms(3,4)] by (auto dest!: crc_of_inj_state)
  ultimately show ?thesis
    using assms(5,6) s(3) unfolding VerifyPayload_def Let_def by (simp add: n(2) del: of_nat_add length_append)
qed

text \<open>An empty packet can always be prepared; a bad payload is answered by one and by nothing else.\<close>

lemma prepare_empty:
  assumes "length sig = 8"
  shows "\<exists>p. prepare sig cmd sq sr flags 0 [] = Some p"
proof -
  let ?p = "\<lparr>m_signature = sig, m_crcHeader = 0, m_crcData = 0, m_cmd = cmd, m_seq = sq, m_seqReply = sr,
      m_flags = flags, m_packetSize = 0\<rparr>"
  have "SUPPORT_ComputeCRC (packet_image ?p) (int (length (packet_image ?p))) 0 \<noteq> None"
    using SUPPORT_ComputeCRC_all [of "packet_image ?p" 0] by simp
  then have "SUPPORT_ComputeCRC (packet_image ?p) 32 0 \<noteq> None" using assms by simp
  moreover have "SUPPORT_ComputeCRC [] 0 0 = Some 0" using SUPPORT_ComputeCRC_all [of "[]" 0] by simp
  ultimately show ?thesis by (auto simp: prepare_def sizeof_header_def)
qed

lemma rejecting_round:
  assumes "m_rxState (m_inboundMessage c) = CompletePayload" "VerifyPayload (m_inboundMessage c) = Some False"
    "prepare (marker_of c) 0 (m_lastOutboundMessage c) 0 (c_NonCritical OR c_NACK OR c_BadPayload) 0 [] = Some nack"
  shows "rx_round L c = Some (c\<lparr>m_state := fst (TransmitMessage L (m_state c) (packet_image nack) None),
      m_lastOutboundMessage := m_lastOutboundMessage c + 1,
      m_inboundMessage := (m_inboundMessage c)\<lparr>m_rxState := Initialize\<rparr>\<rparr>, None)"
  using assms
  by (simp add: rx_round_def ReplyBadPacket_def SendRequest_def PrepareRequest_def SendProtocolMessage_def Let_def
      case_prod_beta)

definition gives_buffer :: "'w Layers \<Rightarrow> u8 list \<Rightarrow> bool" where
  "gives_buffer L h \<longleftrightarrow> (\<forall>w w' ok buf. App_ProcessHeader L w h = (w', ok, buf) \<longrightarrow>
     ok \<and> (buf = None \<longleftrightarrow> m_packetSize (packet_of h) = 0) \<and>
     length (bytes_of buf) = unat (m_packetSize (packet_of h)))"

text \<open>
  C30: A damaged payload is rejected. A packet arrives behind any noise that holds no marker, in
  any chunks, and four consecutive bytes of its payload have been changed in any way on the
  line, the header being intact; the application gives the header a buffer and the clock does
  not time out. Then the receiver takes in header and payload, and the round that completes the
  payload transmits an empty non-critical NACK with the flag for a bad payload; the payload is not handed
  on (every round is the same whatever the application would do with a payload), and the
  receiver is ready for the bytes that follow.
\<close>

theorem damaged_payload_rejected:
  assumes "rx_ready c" "concat (m_port c) = noise @ packet_image p @ (xs @ vs @ ys) @ rest" "no_marker noise p"
    "sent p (xs @ us @ ys)" "us \<noteq> vs" "length us = 4" "length vs = 4"
    "gives_buffer L (packet_image p)" "prompt L" "length (marker_of c) = 8"
  shows "\<exists>c1 c2 nack. payload_read (packet_image p) (xs @ vs @ ys) rest c1 \<and>
    prepare (marker_of c) 0 (m_lastOutboundMessage c) 0 (c_NonCritical OR c_NACK OR c_BadPayload) 0 [] = Some nack \<and>
    m_state c2 = fst (TransmitMessage L (m_state c1) (packet_image nack) None) \<and>
    m_lastOutboundMessage c2 = m_lastOutboundMessage c + 1 \<and> rx_ready c2 \<and> concat (m_port c2) = rest \<and>
    (\<forall>f. rx_steps (L\<lparr>App_ProcessPayload := f\<rparr>) c c1 \<and>
      rx_round (L\<lparr>App_ProcessPayload := f\<rparr>) c1 = Some (c2, None))"
proof -
  have app: "application L (\<lambda>h. h = packet_image p) (\<lambda>_ _. ()) (\<lambda>_ _. ())"
    using assms(8) by unfold_locales (auto simp: gives_buffer_def)
  obtain c1 where c1: "rx_quiets L c c1" "payload_read (packet_image p) (xs @ vs @ ys) rest c1"
    "m_lastOutboundMessage c1 = m_lastOutboundMessage c"
    using application.message_read [OF app assms(1-4) refl assms(9)] assms(6,7) by auto
  have marker: "marker_of c1 = marker_of c" by (rule quiets_marker [OF c1(1), symmetric])
  obtain nack where n: "prepare (marker_of c) 0 (m_lastOutboundMessage c) 0 (c_NonCritical OR c_NACK OR c_BadPayload) 0 [] = Some nack"
    using prepare_empty [OF assms(10)] by blast
  have st: "m_rxState (m_inboundMessage c1) = CompletePayload" "m_header (m_inboundMessage c1) = packet_image p"
    "m_payload (m_inboundMessage c1) = Some (xs @ vs @ ys)" "[] \<notin> set (m_port c1)" "concat (m_port c1) = rest"
    using c1(2) assms(7) by (auto simp: payload_read_def bytes_of_def split: option.splits)
  have bad: "VerifyPayload (m_inboundMessage c1) = Some False"
    by (rule VerifyPayload_damaged [OF assms(4-7) st(2,3)])
  let ?c2 = "c1\<lparr>m_state := fst (TransmitMessage L (m_state c1) (packet_image nack) None),
      m_lastOutboundMessage := m_lastOutboundMessage c1 + 1,
      m_inboundMessage := (m_inboundMessage c1)\<lparr>m_rxState := Initialize\<rparr>\<rparr>"
  have "rx_round (L\<lparr>App_ProcessPayload := f\<rparr>) c1 = Some (?c2, None)" for f
    using rejecting_round [OF st(1) bad, of nack L] n marker c1(3) round_frame [where c = c1 and L = L and f = f] bad by simp
  moreover have "rx_steps (L\<lparr>App_ProcessPayload := f\<rparr>) c c1" for f
    by (rule quiets_steps [OF quiets_frame [OF c1(1)]])
  moreover have "rx_ready ?c2" using st(2,4) sent_facts(1) [OF assms(4)] by (simp add: rx_ready_def)
  ultimately show ?thesis using c1(2,3) n st(5) by (intro exI [of _ c1] exI [of _ ?c2] exI [of _ nack]) simp
qed

text \<open>An application that keeps the headers it is asked to transmit and gives every header a buffer.\<close>

definition buffering_layers :: "u8 list list Layers" where
  "buffering_layers = \<lparr>TransmitMessage = (\<lambda>w h p. (w @ [h], True)),
     App_ProcessHeader = (\<lambda>w h. (w, True, let n = unat (m_packetSize (packet_of h)) in
       if n = 0 then None else Some (replicate n 0))),
     App_ProcessPayload = (\<lambda>w n h p. (w @ [h], n, True)), App_Release = id, CurrentTicks = (\<lambda>w. (w, 0)),
     TicksToTime = id\<rparr>"

lemma buffering_simps: "fst (TransmitMessage buffering_layers w h p) = w @ [h]"
  by (simp add: buffering_layers_def)

theorem damaged_payload_rejected_witness:
  "\<exists>p nack c1 c2. sent p [1, 2, 3, 4, 5] \<and>
     rx_steps buffering_layers (Controller_Initialize None [] [packet_image p @ [1, 2, 0, 4, 5]]) c1 \<and>
     rx_round buffering_layers c1 = Some (c2, None) \<and>
     prepare MARKER_PACKET_V1 0 0 0 (c_NonCritical OR c_NACK OR c_BadPayload) 0 [] = Some nack \<and>
     m_state c2 = m_state c1 @ [packet_image nack]"
proof -
  let ?b = "[] @ [1, 2, 3, 4] @ [5] :: u8 list" and ?L = buffering_layers
  have "\<exists>p. prepare MARKER_PACKET_V1 0 0 0 0 5 ?b = Some p"
    using SUPPORT_ComputeCRC_all [of ?b 0] by (auto simp: prepare_def Let_def sizeof_header_def SUPPORT_ComputeCRC_prefix)
  then obtain p where "prepare MARKER_PACKET_V1 0 0 0 0 5 ?b = Some p" by blast
  then have p: "sent p ?b" unfolding sent_def by force
  let ?c = "Controller_Initialize None [] [packet_image p @ [1, 2, 0, 4, 5]] :: u8 list list WP_Controller"
  have c: "rx_ready ?c" "concat (m_port ?c) = [] @ packet_image p @ ([] @ [1, 2, 0, 4] @ [5]) @ []" "no_marker [] p"
    "length (marker_of ?c) = 8" "marker_of ?c = MARKER_PACKET_V1" "m_lastOutboundMessage ?c = 0"
    by (simp_all add: Controller_Initialize_def Message_Initialize_def PrepareReception_def rx_ready_def no_marker_def
        marker_of_def)
  have L: "gives_buffer ?L (packet_image p)" "prompt ?L" "?L\<lparr>App_ProcessPayload := App_ProcessPayload ?L\<rparr> = ?L"
    by (auto simp: buffering_layers_def gives_buffer_def prompt_def bytes_of_def c_PayloadTimeout_def Let_def unat_eq_0)
  from damaged_payload_rejected [OF c(1-3) p _ _ _ L(1,2) c(4)] obtain c1 c2 nack where
    n: "prepare MARKER_PACKET_V1 0 0 0 (c_NonCritical OR c_NACK OR c_BadPayload) 0 [] = Some nack"
    and "m_state c2 = fst (TransmitMessage ?L (m_state c1) (packet_image nack) None)"
    "\<forall>f. rx_steps (?L\<lparr>App_ProcessPayload := f\<rparr>) ?c c1 \<and> rx_round (?L\<lparr>App_ProcessPayload := f\<rparr>) c1 = Some (c2, None)"
    unfolding c(5,6) by auto
  then have "m_state c2 = m_state c1 @ [packet_image nack]" "rx_steps ?L ?c c1" "rx_round ?L c1 = Some (c2, None)"
    unfolding buffering_simps using L(3) by metis+
  with p n show ?thesis by (intro exI [of _ p] exI [of _ nack] exI [of _ c1] exI [of _ c2]) simp
qed

end
