(* ===== verification/Messaging.thy ===== *)
theory Messaging imports WireProtocol "HOL-Library.Multiset" begin

text \<open>
  The messaging layer over the framing, \<^verbatim>\<open>CLR_Messaging\<close> of \<^verbatim>\<open>src/CLR/Messaging/Messaging.cpp\<close>: it
  answers the calls of the receiver, dispatches requests and replies to the tables of command
  handlers, sends replies, and keeps two caches of messages by which a repeated request is answered
  without being executed again and a reply is processed once. A cache is the list of its messages,
  the most recently used first (\<^verbatim>\<open>DblLinkedList.thy\<close> is about the links). The port, the allocator,
  the clock and the command handlers are parameters; a handler answers the new state of its owner,
  the calls of \<open>ReplyToCommand\<close> it makes, and its result.
\<close>

section \<open>State\<close>

definition c_ACK :: u32 where "c_ACK = 0x8000"
definition c_NoCaching :: u32 where "c_NoCaching = 0x2000"
definition c_Processed :: u32 where "c_Processed = 0x00000001"
definition c_MaxCacheSize :: u32 where "c_MaxCacheSize = 5 * 1024"
definition TIME_CONVERSION__TO_SECONDS :: int where "TIME_CONVERSION__TO_SECONDS = 10000000"

record CachedMessage =
  cm_flags :: u32
  cm_size :: u32
  cm_lastSeen :: int
  cm_header :: WP_Packet
  cm_payload :: "u8 list option"

record 'o Messaging =
  m_cacheSubordinate :: "CachedMessage list"
  m_cacheMaster :: "CachedMessage list"
  m_cacheTotalSize :: u32
  m_written :: "u8 list"
  m_time :: int
  m_owner :: 'o

type_synonym 'o handler =
  "'o \<Rightarrow> WP_Packet \<Rightarrow> u8 list option \<Rightarrow> 'o \<times> (bool \<times> bool \<times> u8 list option) list \<times> bool"

record 'o Env =
  DebuggerPort_Write :: "u8 list \<Rightarrow> u8 list \<Rightarrow> nat"
  can_allocate :: "u32 \<Rightarrow> bool"
  sizeof_CachedMessage :: u32
  m_Lookup_Requests :: "(u32 \<times> 'o handler) list list"
  m_Lookup_Replies :: "(u32 \<times> 'o handler) list list"
  env_ticks :: "int \<Rightarrow> u64"
  env_TicksToTime :: "u64 \<Rightarrow> u64"

definition has_flag :: "u32 \<Rightarrow> u32 \<Rightarrow> bool" where
  "has_flag flags f \<longleftrightarrow> flags AND f \<noteq> 0"

section \<open>Sending\<close>

text \<open>\<open>DebuggerPort_Write\<close> says how many of the bytes offered are taken, after those already written.\<close>

definition write_port :: "'o Env \<Rightarrow> u8 list \<Rightarrow> 'o Messaging \<Rightarrow> 'o Messaging \<times> bool" where
  "write_port env bytes s =
     (let n = DebuggerPort_Write env (m_written s) bytes
      in (s\<lparr>m_written := m_written s @ take n bytes\<rparr>, n = length bytes))"

definition cache_message :: "'o Env \<Rightarrow> WP_Packet \<Rightarrow> u8 list option \<Rightarrow> 'o Messaging \<Rightarrow> (CachedMessage \<times> 'o Messaging) option" where
  "cache_message env p payload s =
     (let len = sizeof_CachedMessage env + m_packetSize p in
      if can_allocate env len then
        Some (\<lparr>cm_flags = 0, cm_size = len, cm_lastSeen = m_time s,
               cm_header = (if m_packetSize p \<noteq> 0 \<and> payload \<noteq> None then p else p\<lparr>m_packetSize := 0\<rparr>),
               cm_payload = (if m_packetSize p \<noteq> 0 then map_option (take (unat (m_packetSize p))) payload else None)\<rparr>,
              s\<lparr>m_cacheTotalSize := m_cacheTotalSize s + len\<rparr>)
      else None)"

definition Msg_TransmitMessage :: "'o Env \<Rightarrow> bool \<Rightarrow> WP_Packet \<Rightarrow> u8 list option \<Rightarrow> 'o Messaging \<Rightarrow> 'o Messaging \<times> bool" where
  "Msg_TransmitMessage env fQueue p payload s =
     (case write_port env (packet_image p) s of
        (s, False) \<Rightarrow> (s, False)
      | (s, True) \<Rightarrow>
          (case (if m_packetSize p \<noteq> 0 \<and> payload \<noteq> None
                 then write_port env (take (unat (m_packetSize p)) (the payload)) s else (s, True)) of
             (s, False) \<Rightarrow> (s, False)
           | (s, True) \<Rightarrow>
               (if fQueue \<and> \<not> has_flag (m_flags p) c_NoCaching then
                  (if has_flag (m_flags p) c_Reply then
                     (case cache_message env p payload s of
                        None \<Rightarrow> (s, True)
                      | Some (cache, s) \<Rightarrow> (s\<lparr>m_cacheSubordinate := cache # m_cacheSubordinate s\<rparr>, True))
                   else if has_flag (m_flags p) c_NonCritical then (s, True)
                   else
                     (case cache_message env p payload s of
                        None \<Rightarrow> (s, True)
                      | Some (cache, s) \<Rightarrow> (s\<lparr>m_cacheMaster := cache # m_cacheMaster s\<rparr>, True)))
                else (s, True))))"

text \<open>The reply is prepared by the controller, whose marker is the one of the debugger.\<close>

definition messaging_controller :: "u16 \<Rightarrow> unit WP_Controller" where
  "messaging_controller n =
     \<lparr>m_szMarker = Some MARKER_DEBUGGER_V1, m_state = (), m_port = [], m_inboundMessage = Message_Initialize,
      m_lastOutboundMessage = n\<rparr>"

definition reply_flags :: "WP_Packet \<Rightarrow> bool \<Rightarrow> bool \<Rightarrow> u32" where
  "reply_flags req fSuccess fCritical =
     (if has_flag (m_flags req) c_NoCaching then c_NoCaching else 0) OR
     (if fSuccess then c_ACK else c_NACK) OR (if \<not> fCritical then c_NonCritical else 0)"

definition ReplyToCommand :: "'o Env \<Rightarrow> bool \<times> bool \<times> u8 list option \<Rightarrow> 'o Messaging \<times> u16 \<times> WP_Packet \<Rightarrow> 'o Messaging \<times> u16 \<times> WP_Packet" where
  "ReplyToCommand env = (\<lambda>(fSuccess, fCritical, ptr) (s, n, msg).
     (if has_flag (m_flags msg) c_NonCritical then (s, n, msg)
      else
        (let msg = msg\<lparr>m_flags := m_flags msg OR c_NonCritical\<rparr>;
             ptr = (if fSuccess then ptr else None);
             bytes = (case ptr of None \<Rightarrow> [] | Some b \<Rightarrow> b)
         in case PrepareReply msg (reply_flags msg fSuccess fCritical) (of_nat (length bytes)) bytes (messaging_controller n) of
              None \<Rightarrow> (s, n, msg)
            | Some (p, c) \<Rightarrow> (fst (Msg_TransmitMessage env True p ptr s), m_lastOutboundMessage c, msg))))"

section \<open>Processing\<close>

text \<open>The first message of a cache that matches, and the others in their order.\<close>

fun find_cached :: "(CachedMessage \<Rightarrow> bool) \<Rightarrow> CachedMessage list \<Rightarrow> (CachedMessage \<times> CachedMessage list) option" where
  "find_cached P [] = None"
| "find_cached P (c # cs) =
     (if P c then Some (c, cs) else map_option (\<lambda>(x, xs). (x, c # xs)) (find_cached P cs))"

definition dispatch :: "'o Env \<Rightarrow> (u32 \<times> 'o handler) list list \<Rightarrow> WP_Packet \<Rightarrow> u8 list option \<Rightarrow> 'o Messaging \<times> u16 \<Rightarrow> 'o Messaging \<times> u16" where
  "dispatch env tables p payload = (\<lambda>(s, n).
     (case map_of (concat tables) (m_cmd p) of
        None \<Rightarrow> (case ReplyToCommand env (False, False, None) (s, n, p) of (s, n, _) \<Rightarrow> (s, n))
      | Some hnd \<Rightarrow>
          (case hnd (m_owner s) p payload of
             (own, calls, result) \<Rightarrow>
               (case ReplyToCommand env (result, False, None)
                       (foldl (\<lambda>st call. ReplyToCommand env call st) (s\<lparr>m_owner := own\<rparr>, n, p) calls) of
                  (s, n, _) \<Rightarrow> (s, n)))))"

definition request_of :: "WP_Packet \<Rightarrow> CachedMessage \<Rightarrow> bool" where
  "request_of res cache \<longleftrightarrow> m_cmd (cm_header cache) = m_cmd res \<and> m_seq (cm_header cache) = m_seqReply res"

definition reply_of :: "WP_Packet \<Rightarrow> CachedMessage \<Rightarrow> bool" where
  "reply_of req cache \<longleftrightarrow> m_cmd req = m_cmd (cm_header cache) \<and> m_seq req = m_seqReply (cm_header cache)"

definition ProcessPayload :: "'o Env \<Rightarrow> WP_Packet \<Rightarrow> u8 list option \<Rightarrow> 'o Messaging \<times> u16 \<Rightarrow> 'o Messaging \<times> u16" where
  "ProcessPayload env p payload = (\<lambda>(s, n).
     (if has_flag (m_flags p) c_NACK then (s, n)
      else if has_flag (m_flags p) c_Reply then
        (case find_cached (request_of p) (m_cacheMaster s) of
           None \<Rightarrow> dispatch env (m_Lookup_Replies env) p payload (s, n)
         | Some (cache, others) \<Rightarrow>
             (let seen = cache\<lparr>cm_lastSeen := m_time s\<rparr> in
              if has_flag (cm_flags cache) c_Processed then (s\<lparr>m_cacheMaster := seen # others\<rparr>, n)
              else dispatch env (m_Lookup_Replies env) p payload
                (s\<lparr>m_cacheMaster := seen\<lparr>cm_flags := cm_flags cache OR c_Processed\<rparr> # others\<rparr>, n)))
      else
        (case find_cached (reply_of p) (m_cacheSubordinate s) of
           None \<Rightarrow> dispatch env (m_Lookup_Requests env) p payload (s, n)
         | Some (cache, others) \<Rightarrow>
             (let seen = cache\<lparr>cm_lastSeen := m_time s\<rparr> in
              (fst (Msg_TransmitMessage env False (cm_header cache) (cm_payload cache)
                 (s\<lparr>m_cacheSubordinate := seen # others\<rparr>)), n)))))"

text \<open>The walk from the back of a cache that drops old messages, and any while there is too much.\<close>

definition purge_step :: "int \<Rightarrow> CachedMessage \<Rightarrow> CachedMessage list \<times> u32 \<Rightarrow> CachedMessage list \<times> u32" where
  "purge_step oldest cache = (\<lambda>(kept, totalSize).
     (if cm_lastSeen cache < oldest \<or> totalSize > c_MaxCacheSize then (kept, totalSize - cm_size cache)
      else (cache # kept, totalSize)))"

definition purge_list :: "int \<Rightarrow> CachedMessage list \<Rightarrow> u32 \<Rightarrow> CachedMessage list \<times> u32" where
  "purge_list oldest lst totalSize = foldr (purge_step oldest) lst ([], totalSize)"

definition PurgeCache :: "'o Messaging \<Rightarrow> 'o Messaging" where
  "PurgeCache s =
     (let oldest = m_time s - TIME_CONVERSION__TO_SECONDS * 3;
          (master, totalSize) = purge_list oldest (m_cacheMaster s) (m_cacheTotalSize s);
          (subordinate, totalSize) = purge_list oldest (m_cacheSubordinate s) totalSize
      in s\<lparr>m_cacheMaster := master, m_cacheSubordinate := subordinate, m_cacheTotalSize := totalSize\<rparr>)"

section \<open>The layers given to the controller\<close>

definition Phy_TransmitMessage :: "'o Env \<Rightarrow> 'o Messaging \<Rightarrow> u8 list \<Rightarrow> u8 list option \<Rightarrow> 'o Messaging \<times> bool" where
  "Phy_TransmitMessage env s header payload = Msg_TransmitMessage env True (packet_of header) payload s"

definition Msg_ProcessHeader :: "'o Env \<Rightarrow> 'o Messaging \<Rightarrow> u8 list \<Rightarrow> 'o Messaging \<times> bool \<times> u8 list option" where
  "Msg_ProcessHeader env s header =
     (let n = m_packetSize (packet_of header) in
      if n \<noteq> 0 then
        (if can_allocate env n then (s, True, Some (replicate (unat n) 0)) else (s, False, None))
      else (s, True, None))"

definition Msg_ProcessPayload :: "'o Env \<Rightarrow> 'o Messaging \<Rightarrow> u16 \<Rightarrow> u8 list \<Rightarrow> u8 list option \<Rightarrow> 'o Messaging \<times> u16 \<times> bool" where
  "Msg_ProcessPayload env s n header payload =
     (case ProcessPayload env (packet_of header) payload (s, n) of (s, n) \<Rightarrow> (s, n, True))"

definition c_Messaging :: "'o Env \<Rightarrow> 'o Messaging Layers" where
  "c_Messaging env =
     \<lparr>TransmitMessage = Phy_TransmitMessage env, App_ProcessHeader = Msg_ProcessHeader env,
      App_ProcessPayload = Msg_ProcessPayload env, App_Release = (\<lambda>s. s),
      CurrentTicks = (\<lambda>s. (s, env_ticks env (m_time s))), TicksToTime = env_TicksToTime env\<rparr>"

section \<open>Replying\<close>

lemma has_flag_or [simp]: "has_flag (a OR b) f \<longleftrightarrow> has_flag a f \<or> has_flag b f"
  by (simp add: has_flag_def bit_eq_iff bit_simps) blast

lemma has_flag_zero [simp]: "\<not> has_flag 0 f"
  by (simp add: has_flag_def)

lemmas flag_defs = c_ACK_def c_NoCaching_def c_NACK_def c_NonCritical_def c_Reply_def

lemma flags_distinct [simp]:
  "has_flag c_Reply c_Reply" "has_flag c_NonCritical c_NonCritical" "\<not> has_flag c_ACK c_NoCaching" "\<not> has_flag c_NACK c_NoCaching"
  "\<not> has_flag c_NonCritical c_NoCaching" "\<not> has_flag c_Reply c_NoCaching"
  by (simp_all add: has_flag_def flag_defs)

text \<open>A port that takes everything, and enough memory.\<close>

definition unimpeded :: "'o Env \<Rightarrow> bool" where
  "unimpeded env \<longleftrightarrow> (\<forall>w b. DebuggerPort_Write env w b = length b) \<and> (\<forall>n. can_allocate env n)"

lemma write_port_unimpeded: "unimpeded env \<Longrightarrow> write_port env bytes s = (s\<lparr>m_written := m_written s @ bytes\<rparr>, True)"
  by (simp add: write_port_def unimpeded_def)

definition wire_bytes :: "WP_Packet \<Rightarrow> u8 list option \<Rightarrow> u8 list" where
  "wire_bytes p payload = packet_image p @
     (if m_packetSize p \<noteq> 0 \<and> payload \<noteq> None then take (unat (m_packetSize p)) (the payload) else [])"

lemma retransmit: "unimpeded env \<Longrightarrow> Msg_TransmitMessage env False p payload s = (s\<lparr>m_written := m_written s @ wire_bytes p payload\<rparr>, True)"
  by (simp add: Msg_TransmitMessage_def write_port_unimpeded wire_bytes_def)

text \<open>
  A reply that is sent is written and, unless the request says otherwise, put at the front of the
  cache in a form that is retransmitted as the same bytes.
\<close>

lemma prepare_reply:
  "\<exists>p. PrepareReply req flags (of_nat (length bytes)) bytes (messaging_controller n) = Some (p, messaging_controller (n + 1)) \<and>
     m_cmd p = m_cmd req \<and> m_seqReply p = m_seq req \<and> m_flags p = flags OR c_Reply \<and> m_packetSize p = of_nat (length bytes)"
proof -
  have "unat (of_nat (length bytes) :: u32) \<le> length bytes" by (simp add: unat_of_nat)
  then obtain crc where "SUPPORT_ComputeCRC bytes (sint (of_nat (length bytes) :: u32)) 0 = Some crc"
    using ComputeCRC_total by blast
  then show ?thesis
    by (auto simp: PrepareReply_def prepare_def Let_def messaging_controller_def marker_of_def sizeof_header_def
        sizeof_signature_def SUPPORT_ComputeCRC_prefix)
qed

lemma transmit_reply:
  assumes "unimpeded env" "has_flag (m_flags p) c_Reply" "\<not> has_flag (m_flags p) c_NoCaching"
  shows "Msg_TransmitMessage env True p ptr s =
    (case cache_message env p ptr (s\<lparr>m_written := m_written s @ wire_bytes p ptr\<rparr>) of
       None \<Rightarrow> (s\<lparr>m_written := m_written s @ wire_bytes p ptr\<rparr>, True)
     | Some (cache, s) \<Rightarrow> (s\<lparr>m_cacheSubordinate := cache # m_cacheSubordinate s\<rparr>, True))"
  using assms
  by (cases "m_packetSize p \<noteq> 0 \<and> ptr \<noteq> None")
    (auto simp: Msg_TransmitMessage_def write_port_unimpeded wire_bytes_def split: option.splits)

lemma ReplyToCommand_sends:
  assumes "unimpeded env" "\<not> has_flag (m_flags msg) c_NonCritical" "\<not> has_flag (m_flags msg) c_NoCaching"
  shows "\<exists>p ptr cache t. ReplyToCommand env call (s, n, msg) =
      (s\<lparr>m_written := m_written s @ wire_bytes p ptr, m_cacheSubordinate := cache # m_cacheSubordinate s, m_cacheTotalSize := t\<rparr>,
       n + 1, msg\<lparr>m_flags := m_flags msg OR c_NonCritical\<rparr>) \<and>
     reply_of msg cache \<and> wire_bytes (cm_header cache) (cm_payload cache) = wire_bytes p ptr"
proof -
  obtain ok crit data where call: "call = (ok, crit, data)" by (cases call)
  let ?msg = "msg\<lparr>m_flags := m_flags msg OR c_NonCritical\<rparr>"
  let ?ptr = "if ok then data else None"
  let ?bytes = "case ?ptr of None \<Rightarrow> [] | Some b \<Rightarrow> b"
  let ?flags = "reply_flags ?msg ok crit"
  obtain p where p: "PrepareReply ?msg ?flags (of_nat (length ?bytes)) ?bytes (messaging_controller n) = Some (p, messaging_controller (n + 1))"
    "m_cmd p = m_cmd msg" "m_seqReply p = m_seq msg" "m_flags p = ?flags OR c_Reply" "m_packetSize p = of_nat (length ?bytes)"
    using prepare_reply [of ?msg ?flags ?bytes n] by auto
  have nc: "\<not> has_flag (m_flags p) c_NoCaching" "has_flag (m_flags p) c_Reply"
    using assms(3) by (simp_all add: p(4) reply_flags_def)
  have zero: "m_packetSize p = 0 \<Longrightarrow> packet_image (p\<lparr>m_packetSize := 0\<rparr>) = packet_image p" by (simp add: packet_image_def)
  have none: "m_packetSize p = 0" if "?ptr = None" using p(5) that by simp
  let ?s = "s\<lparr>m_written := m_written s @ wire_bytes p ?ptr\<rparr>"
  obtain cache t where c: "cache_message env p ?ptr ?s = Some (cache, ?s\<lparr>m_cacheTotalSize := t\<rparr>)"
    using assms(1) by (auto simp: cache_message_def unimpeded_def Let_def)
  have wb: "wire_bytes (cm_header cache) (cm_payload cache) = wire_bytes p ?ptr" and rep: "reply_of msg cache"
    using c none p(2,3) zero by (auto simp: cache_message_def Let_def wire_bytes_def reply_of_def split: if_splits)
  have "Msg_TransmitMessage env True p ?ptr s = (?s\<lparr>m_cacheTotalSize := t, m_cacheSubordinate := cache # m_cacheSubordinate s\<rparr>, True)"
    using transmit_reply [OF assms(1) nc(2,1)] c by simp
  then have "ReplyToCommand env call (s, n, msg) =
      (?s\<lparr>m_cacheTotalSize := t, m_cacheSubordinate := cache # m_cacheSubordinate s\<rparr>, n + 1, ?msg)"
    using assms(2) p(1) unfolding ReplyToCommand_def call by (simp add: Let_def messaging_controller_def)
  with wb rep show ?thesis
    by (intro exI [of _ p] exI [of _ ?ptr] exI [of _ cache] exI [of _ t]) simp
qed

lemma ReplyToCommand_done: "has_flag (m_flags msg) c_NonCritical \<Longrightarrow> ReplyToCommand env call (s, n, msg) = (s, n, msg)"
  by (simp add: ReplyToCommand_def split: prod.split)

lemma ReplyToCommand_flag: "has_flag (m_flags (snd (snd (ReplyToCommand env call (s, n, msg))))) c_NonCritical"
  by (auto simp: ReplyToCommand_def Let_def split: prod.split option.split)

lemma replies_once:
  "has_flag (m_flags (snd (snd st))) c_NonCritical \<Longrightarrow> foldl (\<lambda>st call. ReplyToCommand env call st) st calls = st"
  by (cases st; induction calls) (auto simp: ReplyToCommand_done)

section \<open>Requests\<close>

text \<open>A request that is executed is answered once, with bytes that a repetition gets again.\<close>

lemma dispatch_answers:
  assumes "unimpeded env" "\<not> has_flag (m_flags p) c_NonCritical" "\<not> has_flag (m_flags p) c_NoCaching"
  shows "\<exists>own cache r t. dispatch env tables p payload (s, n) =
      (s\<lparr>m_owner := own, m_written := m_written s @ r, m_cacheSubordinate := cache # m_cacheSubordinate s, m_cacheTotalSize := t\<rparr>, n + 1) \<and>
     reply_of p cache \<and> wire_bytes (cm_header cache) (cm_payload cache) = r"
proof (cases "map_of (concat tables) (m_cmd p)")
  case None
  from ReplyToCommand_sends [OF assms, of "(False, False, None)" s n] obtain p' ptr cache t where
    "ReplyToCommand env (False, False, None) (s, n, p) =
      (s\<lparr>m_written := m_written s @ wire_bytes p' ptr, m_cacheSubordinate := cache # m_cacheSubordinate s, m_cacheTotalSize := t\<rparr>,
       n + 1, p\<lparr>m_flags := m_flags p OR c_NonCritical\<rparr>)"
    "reply_of p cache" "wire_bytes (cm_header cache) (cm_payload cache) = wire_bytes p' ptr" by blast
  with None show ?thesis
    by (intro exI [of _ "m_owner s"] exI [of _ cache] exI [of _ "wire_bytes p' ptr"] exI [of _ t]) (simp add: dispatch_def)
next
  case (Some hnd)
  obtain own calls result where h: "hnd (m_owner s) p payload = (own, calls, result)" by (metis prod_cases3)
  define all where "all = calls @ [(result, False, None)]"
  then have "all \<noteq> []" by simp
  then obtain call more where more: "all = call # more" by (meson list.exhaust)
  let ?s = "s\<lparr>m_owner := own\<rparr>"
  have "dispatch env tables p payload (s, n) =
      (case foldl (\<lambda>st call. ReplyToCommand env call st) (?s, n, p) all of (s, n, _) \<Rightarrow> (s, n))"
    using Some h by (simp add: dispatch_def all_def)
  also have "foldl (\<lambda>st call. ReplyToCommand env call st) (?s, n, p) all = ReplyToCommand env call (?s, n, p)"
    unfolding more using replies_once [OF ReplyToCommand_flag [of env call ?s n p], of env] by simp
  finally have d: "dispatch env tables p payload (s, n) = (case ReplyToCommand env call (?s, n, p) of (s, n, _) \<Rightarrow> (s, n))" .
  from ReplyToCommand_sends [OF assms, of call ?s n] obtain p' ptr cache t where
    "ReplyToCommand env call (?s, n, p) =
      (?s\<lparr>m_written := m_written ?s @ wire_bytes p' ptr, m_cacheSubordinate := cache # m_cacheSubordinate ?s, m_cacheTotalSize := t\<rparr>,
       n + 1, p\<lparr>m_flags := m_flags p OR c_NonCritical\<rparr>)"
    "reply_of p cache" "wire_bytes (cm_header cache) (cm_payload cache) = wire_bytes p' ptr" by blast
  with d show ?thesis
    by (intro exI [of _ own] exI [of _ cache] exI [of _ "wire_bytes p' ptr"] exI [of _ t]) simp
qed

lemma find_cached_hd: "P c \<Longrightarrow> find_cached P (c # cs) = Some (c, cs)"
  by simp

lemma find_cached_sound: "find_cached P cs = Some (c, rest) \<Longrightarrow> P c \<and> mset cs = add_mset c (mset rest)"
  by (induction cs arbitrary: rest) (auto split: if_splits)

section \<open>Replies\<close>

lemma ReplyToCommand_master: "m_cacheMaster (fst (ReplyToCommand env call (s, n, msg))) = m_cacheMaster s"
proof -
  have "m_cacheMaster (fst (Msg_TransmitMessage env True p ptr s)) = m_cacheMaster s" if "has_flag (m_flags p) c_Reply" for p ptr
    using that by (auto simp: Msg_TransmitMessage_def write_port_def Let_def cache_message_def split: prod.splits bool.splits option.splits if_splits)
  moreover have "has_flag (m_flags p) c_Reply" if "PrepareReply msg' fl k b c = Some (p, c')" for msg' fl k b p and c c' :: "unit WP_Controller"
    using that by (auto simp: PrepareReply_def prepare_def Let_def split: option.splits)
  ultimately show ?thesis
    by (auto simp: ReplyToCommand_def Let_def split: prod.split option.split)
qed

lemma ReplyToCommand_time: "m_time (fst (ReplyToCommand env call (s, n, msg))) = m_time s"
  by (auto simp: ReplyToCommand_def Msg_TransmitMessage_def write_port_def Let_def cache_message_def
      split: prod.splits bool.splits option.splits if_splits)

lemma replies_master:
  "m_cacheMaster (fst (foldl (\<lambda>st call. ReplyToCommand env call st) st calls)) = m_cacheMaster (fst st)"
proof (induction calls arbitrary: st)
  case (Cons call calls)
  then show ?case by (cases st) (simp add: ReplyToCommand_master)
qed simp

lemma dispatch_master: "m_cacheMaster (fst (dispatch env tables p payload (s, n))) = m_cacheMaster s"
proof (cases "map_of (concat tables) (m_cmd p)")
  case None
  then show ?thesis using ReplyToCommand_master [of env "(False, False, None)" s n p]
    by (cases "ReplyToCommand env (False, False, None) (s, n, p)") (simp add: dispatch_def)
next
  case (Some hnd)
  obtain own calls result where h: "hnd (m_owner s) p payload = (own, calls, result)" by (metis prod_cases3)
  have "fst (dispatch env tables p payload (s, n)) =
      fst (foldl (\<lambda>st call. ReplyToCommand env call st) (s\<lparr>m_owner := own\<rparr>, n, p) (calls @ [(result, False, None)]))"
    using Some h by (simp add: dispatch_def split: prod.split)
  then show ?thesis by (simp only: replies_master) simp
qed

section \<open>Purging\<close>

text \<open>The size the messaging keeps is the sum over both caches, in 32 bits.\<close>

definition sizes :: "CachedMessage list \<Rightarrow> nat" where
  "sizes lst = (\<Sum>c\<leftarrow>lst. unat (cm_size c))"

lemma sizes_simps [simp]: "sizes [] = 0" "sizes (c # lst) = unat (cm_size c) + sizes lst"
  by (simp_all add: sizes_def)

lemma purge_list_spec:
  assumes "sizes lst + rest < 2 ^ 32" "purge_list oldest lst (of_nat (sizes lst + rest)) = (kept, totalSize)"
  shows "totalSize = of_nat (sizes kept + rest) \<and> sizes kept \<le> sizes lst \<and> set kept \<subseteq> set lst \<and>
    (\<forall>c\<in>set kept. oldest \<le> cm_lastSeen c) \<and> (kept \<noteq> [] \<longrightarrow> sizes kept + rest \<le> 5120) \<and>
    (sizes lst + rest \<le> 5120 \<longrightarrow> kept = filter (\<lambda>c. oldest \<le> cm_lastSeen c) lst)"
  using assms
proof (induction lst arbitrary: rest kept totalSize)
  case Nil
  then show ?case by (simp add: purge_list_def)
next
  case (Cons c lst)
  let ?n = "unat (cm_size c)"
  obtain kept1 total1 where p: "purge_list oldest lst (of_nat (sizes lst + (?n + rest))) = (kept1, total1)" by fastforce
  have lt: "sizes lst + (?n + rest) < 2 ^ 32" using Cons.prems(1) by simp
  from Cons.IH [OF lt p] have IH: "total1 = of_nat (sizes kept1 + (?n + rest))" "sizes kept1 \<le> sizes lst"
    "set kept1 \<subseteq> set lst" "\<forall>c\<in>set kept1. oldest \<le> cm_lastSeen c"
    "kept1 \<noteq> [] \<longrightarrow> sizes kept1 + (?n + rest) \<le> 5120"
    "sizes lst + (?n + rest) \<le> 5120 \<longrightarrow> kept1 = filter (\<lambda>c. oldest \<le> cm_lastSeen c) lst" by blast+
  have size: "sizes (c # lst) + rest = sizes lst + (?n + rest)" by simp
  have step: "purge_step oldest c (kept1, total1) = (kept, totalSize)"
    using Cons.prems(2) p unfolding size by (simp add: purge_list_def)
  have total1: "total1 = of_nat (sizes kept1 + rest) + cm_size c" using IH(1) by simp
  have un: "unat total1 = sizes kept1 + (?n + rest)"
  proof -
    have "sizes kept1 + (?n + rest) < 4294967296" using IH(2) lt by simp
    then have "unat (of_nat (sizes kept1 + (?n + rest)) :: u32) = sizes kept1 + (?n + rest)"
      by (simp only: unat_of_nat) simp
    with IH(1) show ?thesis by simp
  qed
  have big: "total1 > c_MaxCacheSize \<longleftrightarrow> sizes kept1 + (?n + rest) > 5120"
    by (simp add: word_less_nat_alt un c_MaxCacheSize_def)
  show ?case
  proof (cases "cm_lastSeen c < oldest \<or> total1 > c_MaxCacheSize")
    case True
    then have k: "kept = kept1" "totalSize = total1 - cm_size c" using step by (auto simp: purge_step_def)
    have "cm_lastSeen c < oldest" if "sizes lst + (?n + rest) \<le> 5120"
      using True IH(2) that unfolding big by linarith
    then have "sizes (c # lst) + rest \<le> 5120 \<longrightarrow> kept = filter (\<lambda>c. oldest \<le> cm_lastSeen c) (c # lst)"
      using IH(6) k(1) unfolding size by fastforce
    moreover have "kept \<noteq> [] \<longrightarrow> sizes kept + rest \<le> 5120" using IH(5) k(1) by (cases "kept1 = []") simp_all
    moreover have "totalSize = of_nat (sizes kept + rest)" using total1 k by simp
    moreover have "sizes kept \<le> sizes (c # lst)" "set kept \<subseteq> set (c # lst)" "\<forall>c\<in>set kept. oldest \<le> cm_lastSeen c"
      using IH(2-4) k(1) by auto
    ultimately show ?thesis by blast
  next
    case False
    then have k: "kept = c # kept1" "totalSize = total1" using step by (auto simp: purge_step_def)
    have le: "sizes kept1 + (?n + rest) \<le> 5120" using False unfolding big by simp
    have "sizes (c # lst) + rest \<le> 5120 \<longrightarrow> kept = filter (\<lambda>c. oldest \<le> cm_lastSeen c) (c # lst)"
      using IH(6) k(1) False unfolding size by simp
    moreover have "totalSize = of_nat (sizes kept + rest)" using IH(1) k by (simp add: ac_simps)
    moreover have "sizes kept \<le> sizes (c # lst)" "set kept \<subseteq> set (c # lst)" "\<forall>c\<in>set kept. oldest \<le> cm_lastSeen c"
      "sizes kept + rest \<le> 5120"
      using IH(2-4) k(1) le False by auto
    ultimately show ?thesis by blast
  qed
qed

section \<open>The receiver delivers to the messaging\<close>

definition msg_accepts :: "'o Env \<Rightarrow> u8 list \<Rightarrow> bool" where
  "msg_accepts env h \<longleftrightarrow> m_packetSize (packet_of h) = 0 \<or> can_allocate env (m_packetSize (packet_of h))"

definition msg_handle :: "'o Env \<Rightarrow> 'o Messaging \<times> u16 \<Rightarrow> u8 list \<times> u8 list \<Rightarrow> 'o Messaging \<times> u16" where
  "msg_handle env st = (\<lambda>(h, bytes). ProcessPayload env (packet_of h) (if bytes = [] then None else Some bytes) st)"

interpretation msg: application "c_Messaging env" "msg_accepts env" Pair "msg_handle env" for env
proof
  show "ok \<and> (w', n) = (w, n) \<and> (buf = None) = (m_packetSize (packet_of h) = 0) \<and>
      length (bytes_of buf) = unat (m_packetSize (packet_of h))"
    if "msg_accepts env h" "App_ProcessHeader (c_Messaging env) w h = (w', ok, buf)" for h and w w' :: "'a Messaging" and ok buf n
    using that by (auto simp: c_Messaging_def Msg_ProcessHeader_def msg_accepts_def Let_def bytes_of_def split: if_splits)
  show "(w', n') = msg_handle env (w, n) (h, bytes_of p)"
    if "App_ProcessPayload (c_Messaging env) w n h p = (w', n', answer)" "p = None \<or> bytes_of p \<noteq> []"
    for w w' :: "'a Messaging" and n n' h p answer
  proof -
    have "(if bytes_of p = [] then None else Some (bytes_of p)) = p"
      using that(2) by (cases p) (simp_all add: bytes_of_def)
    with that(1) show ?thesis
      by (auto simp: c_Messaging_def Msg_ProcessPayload_def msg_handle_def split: prod.splits)
  qed
qed (simp_all add: c_Messaging_def)

lemma buffers_Messaging: "buffers (c_Messaging env)"
  by (auto simp: buffers_def c_Messaging_def Msg_ProcessHeader_def Let_def split: if_splits)

text \<open>A messaging with one command that counts its calls, for examples.\<close>

definition counting_env :: "nat Env" where
  "counting_env = \<lparr>DebuggerPort_Write = (\<lambda>w b. length b), can_allocate = (\<lambda>n. True), sizeof_CachedMessage = 88,
     m_Lookup_Requests = [[(7, \<lambda>own p payload. (own + 1, [(True, False, Some [42])], True))]],
     m_Lookup_Replies = [[(7, \<lambda>own p payload. (own + 1, [], True))]], env_ticks = (\<lambda>t. 0), env_TicksToTime = (\<lambda>t. t)\<rparr>"

definition empty_messaging :: "nat Messaging" where
  "empty_messaging = \<lparr>m_cacheSubordinate = [], m_cacheMaster = [], m_cacheTotalSize = 0, m_written = [], m_time = 0, m_owner = 0\<rparr>"

definition example_packet :: "u32 \<Rightarrow> WP_Packet" where
  "example_packet flags = the (prepare MARKER_PACKET_V1 7 5 3 flags 0 [])"

lemma example_packet:
  "sent (example_packet flags) []" "m_flags (example_packet flags) = flags" "m_cmd (example_packet flags) = 7"
  "m_seq (example_packet flags) = 5" "m_seqReply (example_packet flags) = 3"
proof -
  obtain p where p: "prepare MARKER_PACKET_V1 7 5 3 flags 0 [] = Some p"
    by (auto simp: prepare_def Let_def sizeof_header_def SUPPORT_ComputeCRC_prefix)
  then have e: "example_packet flags = p" by (simp add: example_packet_def)
  show "sent (example_packet flags) []" unfolding e sent_def using p by fastforce
  show "m_flags (example_packet flags) = flags" "m_cmd (example_packet flags) = 7"
    "m_seq (example_packet flags) = 5" "m_seqReply (example_packet flags) = 3"
    using p unfolding e by (auto simp: prepare_def Let_def split: option.splits)
qed

lemma counting_env: "unimpeded counting_env" "prompt (c_Messaging counting_env)" "msg_accepts counting_env h"
  by (simp_all add: unimpeded_def counting_env_def prompt_def c_Messaging_def c_PayloadTimeout_def msg_accepts_def)

abbreviation example_controller :: "nat Messaging WP_Controller" where
  "example_controller \<equiv> Controller_Initialize None empty_messaging [packet_image (example_packet c_NACK)]"

lemma example_ready: "rx_ready example_controller" "concat (m_port example_controller) = [] @ packet_image (example_packet c_NACK) @ [] @ []"
proof -
  have "packet_image (example_packet c_NACK) \<noteq> []" using sent_facts(1) [OF example_packet(1), of c_NACK] by auto
  then show "rx_ready example_controller" "concat (m_port example_controller) = [] @ packet_image (example_packet c_NACK) @ [] @ []"
    by (simp_all add: rx_ready_def Controller_Initialize_def PrepareReception_def Message_Initialize_def)
qed

section \<open>Properties\<close>

theorem only_verified_delivered_witness:
  "\<exists>c. reachable (c_Messaging counting_env) c \<and> m_rxState (m_inboundMessage c) = CompletePayload \<and>
     VerifyPayload (m_inboundMessage c) = Some True"
proof -
  let ?L = "c_Messaging counting_env" and ?p = "example_packet c_NACK"
  let ?f = "\<lambda>w n h p. (w, n + 1, True)"
  obtain c where c: "rx_steps ?L example_controller c" "payload_read (packet_image ?p) [] [] c"
    using msg.message_read [OF example_ready _ example_packet(1) counting_env(3,2) refl] quiets_steps
    by (fastforce simp: no_marker_def)
  have st: "m_rxState (m_inboundMessage c) = CompletePayload" "m_header (m_inboundMessage c) = packet_image ?p"
    "bytes_of (m_payload (m_inboundMessage c)) = []"
    using c(2) by (auto simp: payload_read_def)
  have v: "VerifyPayload (m_inboundMessage c) = Some True"
    using c(2) sent_facts(3,6) [OF example_packet(1)] by (auto simp: payload_read_def)
  have nack: "has_flag (m_flags (packet_of (packet_image ?p))) c_NACK"
    unfolding sent_facts(3) [OF example_packet(1)] example_packet(2) by (simp add: has_flag_def c_NACK_def)
  have r: "reachable ?L c" using reachable_steps [OF c(1) reachable.init] .
  have "rx_round (?L\<lparr>App_ProcessPayload := ?f\<rparr>) c \<noteq> rx_round ?L c"
    using st v nack
    by (auto simp: rx_round_def Let_def c_Messaging_def Msg_ProcessPayload_def ProcessPayload_def dest: arg_cong [where f = m_lastOutboundMessage])
  from only_verified_delivered [OF r this] r st(1) show ?thesis by blast
qed



text \<open>
  C10: A request is executed once: when it is repeated, whatever time has passed while its reply is
  still cached, the state of the handlers and the count of messages stay as they are and the very
  same bytes are sent again.
\<close>

theorem request_executed_once:
  assumes "unimpeded env" "\<not> has_flag (m_flags p) c_NACK" "\<not> has_flag (m_flags p) c_Reply"
    "\<not> has_flag (m_flags p) c_NonCritical" "\<not> has_flag (m_flags p) c_NoCaching"
    "\<forall>c\<in>set (m_cacheSubordinate s). \<not> reply_of p c"
    "ProcessPayload env p payload (s, n) = (s1, n1)" "ProcessPayload env p payload' (s1\<lparr>m_time := later\<rparr>, n1) = (s2, n2)"
  shows "\<exists>r. m_written s1 = m_written s @ r \<and> m_written s2 = m_written s1 @ r \<and> m_owner s2 = m_owner s1 \<and>
    n1 = n + 1 \<and> n2 = n1"
proof -
  have "find_cached (reply_of p) (m_cacheSubordinate s) = None"
    using assms(6) find_cached_sound [of "reply_of p" "m_cacheSubordinate s"]
    by (cases "find_cached (reply_of p) (m_cacheSubordinate s)") (auto dest: union_single_eq_member simp flip: set_mset_mset)
  then have first: "(s1, n1) = dispatch env (m_Lookup_Requests env) p payload (s, n)"
    using assms(2,3,7) by (simp add: ProcessPayload_def)
  obtain own cache r t where d: "(s1, n1) =
      (s\<lparr>m_owner := own, m_written := m_written s @ r, m_cacheSubordinate := cache # m_cacheSubordinate s, m_cacheTotalSize := t\<rparr>, n + 1)"
    "reply_of p cache" "wire_bytes (cm_header cache) (cm_payload cache) = r"
    using dispatch_answers [OF assms(1,4,5), of "m_Lookup_Requests env" payload s n] first by metis
  then have "(s2, n2) = (s1\<lparr>m_time := later, m_cacheSubordinate := cache\<lparr>cm_lastSeen := later\<rparr> # m_cacheSubordinate s,
      m_written := m_written s1 @ r\<rparr>, n1)"
    using assms(2,3,8) by (simp add: ProcessPayload_def retransmit [OF assms(1)] Let_def)
  with d(1) show ?thesis by simp
qed

theorem request_executed_once_witness:
  "m_owner (fst (ProcessPayload counting_env (example_packet 0) None (ProcessPayload counting_env (example_packet 0) None (empty_messaging, 0)))) =
     m_owner (fst (ProcessPayload counting_env (example_packet 0) None (empty_messaging, 0)))"
proof -
  obtain s1 n1 where 1: "ProcessPayload counting_env (example_packet 0) None (empty_messaging, 0) = (s1, n1)" by fastforce
  obtain s2 n2 where 2: "ProcessPayload counting_env (example_packet 0) None (s1\<lparr>m_time := m_time s1\<rparr>, n1) = (s2, n2)" by fastforce
  have "m_owner s2 = m_owner s1"
    using request_executed_once [OF counting_env(1) _ _ _ _ _ 1 2] by (auto simp: example_packet empty_messaging_def)
  with 1 2 show ?thesis by simp
qed

text \<open>
  A reply is processed once: repeating it, after any time, only refreshes the cached request.
\<close>

lemma reply_processed_once:
  assumes "has_flag (m_flags p) c_Reply" "find_cached (request_of p) (m_cacheMaster s) \<noteq> None"
    "ProcessPayload env p payload (s, n) = (s1, n1)"
  shows "\<exists>cache others. m_cacheMaster s1 = cache # others \<and>
    ProcessPayload env p payload' (s1\<lparr>m_time := later\<rparr>, n1) =
      (if has_flag (m_flags p) c_NACK then s1\<lparr>m_time := later\<rparr>
       else s1\<lparr>m_time := later, m_cacheMaster := cache\<lparr>cm_lastSeen := later\<rparr> # others\<rparr>, n1)"
proof (cases "has_flag (m_flags p) c_NACK")
  case True
  moreover have "m_cacheMaster s \<noteq> []" using assms(2) by auto
  ultimately show ?thesis using assms(3) by (cases "m_cacheMaster s") (auto simp: ProcessPayload_def)
next
  case False
  obtain cache others where f: "find_cached (request_of p) (m_cacheMaster s) = Some (cache, others)" using assms(2) by auto
  have req: "request_of p cache" using find_cached_sound [OF f] by blast
  let ?done = "cache\<lparr>cm_lastSeen := m_time s, cm_flags := cm_flags cache OR c_Processed\<rparr>"
  have proc: "has_flag c_Processed c_Processed" by (simp add: has_flag_def c_Processed_def)
  have "\<exists>c. m_cacheMaster s1 = c # others \<and> request_of p c \<and> has_flag (cm_flags c) c_Processed"
  proof (cases "has_flag (cm_flags cache) c_Processed")
    case True
    with f assms(1,3) False req show ?thesis by (auto simp: ProcessPayload_def Let_def request_of_def)
  next
    case new: False
    then have "(s1, n1) = dispatch env (m_Lookup_Replies env) p payload (s\<lparr>m_cacheMaster := ?done # others\<rparr>, n)"
      using f assms(1,3) False by (simp add: ProcessPayload_def Let_def)
    then have "m_cacheMaster s1 = ?done # others"
      using dispatch_master [of env "m_Lookup_Replies env" p payload "s\<lparr>m_cacheMaster := ?done # others\<rparr>" n]
      by (simp flip: \<open>(s1, n1) = _\<close>)
    with req proc show ?thesis by (auto simp: request_of_def)
  qed
  then show ?thesis using assms(1) False by (auto simp: ProcessPayload_def Let_def)
qed

lemma reply_processed_once_witness:
  "\<exists>s1 n1 cache others. ProcessPayload counting_env (example_packet c_Reply) None
       (empty_messaging\<lparr>m_cacheMaster := [\<lparr>cm_flags = 0, cm_size = 88, cm_lastSeen = 0,
          cm_header = (example_packet 0)\<lparr>m_seq := 3\<rparr>, cm_payload = None\<rparr>]\<rparr>, 0) = (s1, n1) \<and>
     ProcessPayload counting_env (example_packet c_Reply) None (s1\<lparr>m_time := 9\<rparr>, n1) =
       (s1\<lparr>m_time := 9, m_cacheMaster := cache\<lparr>cm_lastSeen := 9\<rparr> # others\<rparr>, n1)"
proof -
  let ?s = "empty_messaging\<lparr>m_cacheMaster := [\<lparr>cm_flags = 0, cm_size = 88, cm_lastSeen = 0,
      cm_header = (example_packet 0)\<lparr>m_seq := 3\<rparr>, cm_payload = None\<rparr>]\<rparr>"
  obtain s1 n1 where 1: "ProcessPayload counting_env (example_packet c_Reply) None (?s, 0) = (s1, n1)" by fastforce
  have f: "has_flag (m_flags (example_packet c_Reply)) c_Reply" "\<not> has_flag (m_flags (example_packet c_Reply)) c_NACK"
    by (simp_all add: example_packet has_flag_def c_Reply_def c_NACK_def)
  have "find_cached (request_of (example_packet c_Reply)) (m_cacheMaster ?s) \<noteq> None"
    by (simp add: request_of_def example_packet)
  from reply_processed_once [OF f(1) this 1, of None 9] obtain cache others where
    "ProcessPayload counting_env (example_packet c_Reply) None (s1\<lparr>m_time := 9\<rparr>, n1) =
      (s1\<lparr>m_time := 9, m_cacheMaster := cache\<lparr>cm_lastSeen := 9\<rparr> # others\<rparr>, n1)"
    unfolding if_not_P [OF f(2)] by blast
  with 1 show ?thesis by blast
qed

text \<open>
  Purging keeps the caches small and the replies of the last three seconds: afterwards the
  messages kept take at most 5120 bytes, none of them is older than three seconds, the recorded
  size is their size, and when nothing had to go for its size every recent message is kept.
\<close>

lemma PurgeCache_bounds:
  assumes "m_cacheTotalSize s = of_nat (sizes (m_cacheMaster s) + sizes (m_cacheSubordinate s))"
    "sizes (m_cacheMaster s) + sizes (m_cacheSubordinate s) < 2 ^ 32"
  shows "m_cacheTotalSize (PurgeCache s) = of_nat (sizes (m_cacheMaster (PurgeCache s)) + sizes (m_cacheSubordinate (PurgeCache s))) \<and>
    sizes (m_cacheMaster (PurgeCache s)) + sizes (m_cacheSubordinate (PurgeCache s)) \<le> 5120 \<and>
    (\<forall>c\<in>set (m_cacheMaster (PurgeCache s) @ m_cacheSubordinate (PurgeCache s)). m_time s - 30000000 \<le> cm_lastSeen c) \<and>
    (sizes (m_cacheMaster s) + sizes (m_cacheSubordinate s) \<le> 5120 \<longrightarrow>
       m_cacheMaster (PurgeCache s) = filter (\<lambda>c. m_time s - 30000000 \<le> cm_lastSeen c) (m_cacheMaster s) \<and>
       m_cacheSubordinate (PurgeCache s) = filter (\<lambda>c. m_time s - 30000000 \<le> cm_lastSeen c) (m_cacheSubordinate s))"
proof -
  let ?old = "m_time s - 30000000"
  let ?m = "m_cacheMaster s" and ?s = "m_cacheSubordinate s"
  obtain km tm where m: "purge_list ?old ?m (of_nat (sizes ?m + sizes ?s)) = (km, tm)" by fastforce
  note M = purge_list_spec [OF assms(2) m]
  have lt: "sizes ?s + sizes km < 2 ^ 32" using M assms(2) by linarith
  obtain ks ts where k: "purge_list ?old ?s (of_nat (sizes ?s + sizes km)) = (ks, ts)" by fastforce
  note S = purge_list_spec [OF lt k]
  have r: "PurgeCache s = s\<lparr>m_cacheMaster := km, m_cacheSubordinate := ks, m_cacheTotalSize := ts\<rparr>"
    using m k M unfolding PurgeCache_def Let_def assms(1) by (simp add: TIME_CONVERSION__TO_SECONDS_def add.commute)
  have "sizes km + sizes ks \<le> 5120"
  proof (cases "ks = []")
    case True
    show ?thesis
    proof (cases "km = []")
      case True
      with \<open>ks = []\<close> show ?thesis by simp
    next
      case False
      with M True show ?thesis by simp
    qed
  next
    case False
    with S show ?thesis by simp
  qed
  moreover have "ts = of_nat (sizes km + sizes ks)" using S by (simp only: add.commute [of "sizes km"])
  moreover have "\<forall>c\<in>set (km @ ks). ?old \<le> cm_lastSeen c" using M S by auto
  moreover have "km = filter (\<lambda>c. ?old \<le> cm_lastSeen c) ?m \<and> ks = filter (\<lambda>c. ?old \<le> cm_lastSeen c) ?s"
    if "sizes ?m + sizes ?s \<le> 5120"
  proof -
    have "sizes ?s + sizes km \<le> 5120" using M that by linarith
    with M S that show ?thesis by blast
  qed
  moreover have "m_cacheMaster (PurgeCache s) = km" "m_cacheSubordinate (PurgeCache s) = ks" "m_cacheTotalSize (PurgeCache s) = ts"
    unfolding r by simp_all
  ultimately show ?thesis by metis
qed

lemma PurgeCache_bounds_witness:
  "m_cacheMaster (PurgeCache (empty_messaging\<lparr>m_cacheTotalSize := 100, m_cacheMaster := [\<lparr>cm_flags = 0, cm_size = 100, cm_lastSeen = - 40000000,
      cm_header = example_packet 0, cm_payload = None\<rparr>]\<rparr>)) = []"
  using PurgeCache_bounds [of "empty_messaging\<lparr>m_cacheTotalSize := 100, m_cacheMaster := [\<lparr>cm_flags = 0, cm_size = 100,
      cm_lastSeen = - 40000000, cm_header = example_packet 0, cm_payload = None\<rparr>]\<rparr>"]
  by (simp add: empty_messaging_def)

end
