(* ===== verification/HeapBlock.thy ===== *)
theory HeapBlock imports DblLinkedList begin

text \<open>
  The words of the managed heap, \<^verbatim>\<open>src/CLR/Include/TinyCLR_Runtime__HeapBlock.h\<close>. An address is the
  index of a block; a block has its identification (data type, flags, size in blocks) and two words
  of data, which are the links of a \<^verbatim>\<open>CLR_RT_HeapBlock_Node\<close>. The memory is the map of the
  identifications and the two maps of \<^verbatim>\<open>DblLinkedList.thy\<close>; 0 is \<open>NULL\<close>. The lemmas say how
  blocks tile a stretch of memory.
\<close>

section \<open>Blocks\<close>

datatype CLR_DataType =
    DATATYPE_VOID | DATATYPE_BOOLEAN | DATATYPE_I1 | DATATYPE_U1 | DATATYPE_CHAR | DATATYPE_I2 | DATATYPE_U2
  | DATATYPE_I4 | DATATYPE_U4 | DATATYPE_R4 | DATATYPE_I8 | DATATYPE_U8 | DATATYPE_R8 | DATATYPE_DATETIME
  | DATATYPE_TIMESPAN | DATATYPE_STRING | DATATYPE_OBJECT | DATATYPE_CLASS | DATATYPE_VALUETYPE
  | DATATYPE_SZARRAY | DATATYPE_BYREF | DATATYPE_FREEBLOCK | DATATYPE_CACHEDBLOCK | DATATYPE_ASSEMBLY
  | DATATYPE_WEAKCLASS | DATATYPE_REFLECTION | DATATYPE_ARRAY_BYREF | DATATYPE_DELEGATE_HEAD
  | DATATYPE_DELEGATELIST_HEAD | DATATYPE_OBJECT_TO_EVENT | DATATYPE_BINARY_BLOB_HEAD | DATATYPE_THREAD
  | DATATYPE_SUBTHREAD | DATATYPE_STACK_FRAME | DATATYPE_TIMER_HEAD | DATATYPE_LOCK_HEAD
  | DATATYPE_LOCK_OWNER_HEAD | DATATYPE_LOCK_REQUEST_HEAD | DATATYPE_WAIT_FOR_OBJECT_HEAD
  | DATATYPE_FINALIZER_HEAD | DATATYPE_MEMORY_STREAM_HEAD | DATATYPE_MEMORY_STREAM_DATA
  | DATATYPE_SERIALIZER_HEAD | DATATYPE_SERIALIZER_DUPLICATE | DATATYPE_SERIALIZER_STATE
  | DATATYPE_ENDPOINT_HEAD | DATATYPE_IO_PORT | DATATYPE_I2C_XACTION

definition HB_Alive :: u32 where "HB_Alive = 0x01"
definition HB_KeepAlive :: u32 where "HB_KeepAlive = 0x02"
definition HB_Event :: u32 where "HB_Event = 0x04"
definition HB_Pinned :: u32 where "HB_Pinned = 0x08"
definition HB_InitializeToZero :: u32 where "HB_InitializeToZero = 0x00100"
definition HB_SpecialGCAllocation :: u32 where "HB_SpecialGCAllocation = 0x00400"
definition HB_NoGcOnFailure :: u32 where "HB_NoGcOnFailure = 0x00200"
definition HB_MaxSize :: u32 where "HB_MaxSize = 0x0000FFFF"

record BlockId =
  b_type :: CLR_DataType
  b_flags :: u8
  b_size :: u16

definition RAW_ID :: "CLR_DataType \<Rightarrow> u32 \<Rightarrow> u32 \<Rightarrow> BlockId" where
  "RAW_ID dataType flags size' = \<lparr>b_type = dataType, b_flags = ucast flags, b_size = ucast size'\<rparr>"

definition IsFlagSet :: "BlockId \<Rightarrow> u32 \<Rightarrow> bool" where
  "IsFlagSet b f \<longleftrightarrow> b_flags b AND ucast f \<noteq> 0"

definition SetFlags :: "u32 \<Rightarrow> BlockId \<Rightarrow> BlockId" where
  "SetFlags f b = b\<lparr>b_flags := b_flags b OR ucast f\<rparr>"

definition ResetFlags :: "u32 \<Rightarrow> BlockId \<Rightarrow> BlockId" where
  "ResetFlags f b = b\<lparr>b_flags := b_flags b AND NOT (ucast f)\<rparr>"

definition MarkAlive :: "BlockId \<Rightarrow> BlockId" where "MarkAlive = SetFlags HB_Alive"
definition MarkDead :: "BlockId \<Rightarrow> BlockId" where "MarkDead = ResetFlags HB_Alive"

abbreviation IsAlive :: "BlockId \<Rightarrow> bool" where "IsAlive b \<equiv> IsFlagSet b HB_Alive"
abbreviation IsEvent :: "BlockId \<Rightarrow> bool" where "IsEvent b \<equiv> IsFlagSet b HB_Event"

lemma and_one_u8: "(w :: u8) AND 1 \<noteq> 0 \<longleftrightarrow> bit w 0"
  by (simp add: and_one_eq bit_0 mod_2_eq_odd)

lemma and_four_u8: "(w :: u8) AND 4 \<noteq> 0 \<longleftrightarrow> bit w 2"
proof -
  have four: "bit (4 :: u8) n \<longleftrightarrow> n = 2" for n
  proof -
    have "(4 :: u8) = 2 ^ 2" by simp
    then show ?thesis by (simp only: bit_exp_iff) (auto simp: possible_bit_def)
  qed
  show ?thesis
  proof
    assume "w AND 4 \<noteq> 0"
    then obtain n where "bit (w AND 4) n" by (metis bit_0_eq bot_apply bot_bool_def bit_eq_iff)
    then show "bit w 2" unfolding bit_and_iff four by blast
  next
    assume "bit w 2"
    then have "bit (w AND 4) 2" unfolding bit_and_iff four by simp
    then show "w AND 4 \<noteq> 0" by (metis bit_0_eq bot_apply bot_bool_def)
  qed
qed

lemma flag_bits: "IsAlive b \<longleftrightarrow> bit (b_flags b) 0" "IsEvent b \<longleftrightarrow> bit (b_flags b) 2"
  by (simp_all add: IsFlagSet_def HB_Alive_def HB_Event_def and_one_u8 and_four_u8)

lemma mark_flags [simp]:
  "IsAlive (MarkAlive b)" "\<not> IsAlive (MarkDead b)" "IsEvent (MarkAlive b) = IsEvent b" "IsEvent (MarkDead b) = IsEvent b"
  "b_type (MarkAlive b) = b_type b" "b_type (MarkDead b) = b_type b"
  "b_size (MarkAlive b) = b_size b" "b_size (MarkDead b) = b_size b"
  unfolding flag_bits
  by (simp_all add: MarkAlive_def MarkDead_def SetFlags_def ResetFlags_def HB_Alive_def bit_or_iff bit_and_iff bit_not_iff
      bit_1_iff)

lemma MarkAlive_idem: "IsAlive b \<Longrightarrow> MarkAlive b = b"
proof -
  assume "IsAlive b"
  then have "b_flags b OR 1 = b_flags b"
    by (intro bit_word_eqI) (auto simp: flag_bits bit_or_iff bit_1_iff)
  then show ?thesis by (cases b) (simp add: MarkAlive_def SetFlags_def HB_Alive_def)
qed

lemma RAW_ID_simps [simp]:
  "b_type (RAW_ID d f n) = d" "b_size (RAW_ID d f n) = ucast n" "b_flags (RAW_ID d f n) = ucast f"
  by (simp_all add: RAW_ID_def)

lemma RAW_ID_alive: "IsAlive (RAW_ID d f n) \<longleftrightarrow> bit f 0"
  unfolding flag_bits by (simp add: bit_ucast_iff)

lemma free_id_dead [simp]: "\<not> IsAlive (RAW_ID DATATYPE_FREEBLOCK HB_Pinned n)"
  unfolding RAW_ID_alive by (simp add: HB_Pinned_def bit_0)

section \<open>Tilings\<close>

abbreviation extent :: "(nat \<Rightarrow> BlockId) \<Rightarrow> nat \<Rightarrow> nat" where
  "extent ids a \<equiv> unat (b_size (ids a))"

fun tiles :: "(nat \<Rightarrow> BlockId) \<Rightarrow> nat \<Rightarrow> nat list \<Rightarrow> nat \<Rightarrow> bool" where
  "tiles ids p [] e \<longleftrightarrow> p = e"
| "tiles ids p (h # hs) e \<longleftrightarrow> h = p \<and> 0 < extent ids h \<and> tiles ids (h + extent ids h) hs e"

lemma tiles_append: "tiles ids p (xs @ ys) e \<longleftrightarrow> (\<exists>m. tiles ids p xs m \<and> tiles ids m ys e)"
  by (induction xs arbitrary: p) auto

lemma tiles_bounds:
  assumes "tiles ids p hs e"
  shows "p \<le> e" "h \<in> set hs \<Longrightarrow> p \<le> h \<and> 0 < extent ids h \<and> h + extent ids h \<le> e"
proof -
  have le: "p \<le> e" if "tiles ids p hs e" for p hs
    using that by (induction hs arbitrary: p) (fastforce)+
  then show "p \<le> e" using assms .
  show "h \<in> set hs \<Longrightarrow> p \<le> h \<and> 0 < extent ids h \<and> h + extent ids h \<le> e"
    using assms
  proof (induction hs arbitrary: p)
    case (Cons x hs)
    then have t: "tiles ids (x + extent ids x) hs e" "x = p" "0 < extent ids x" by auto
    from le [OF t(1)] Cons.IH [OF _ t(1)] Cons.prems(1) t show ?case by fastforce
  qed simp
qed

lemma tile_in: "tiles ids p hs e \<Longrightarrow> h \<in> set hs \<Longrightarrow> 0 < extent ids h"
  using tiles_bounds(2) by blast

lemma tiles_apart:
  assumes "tiles ids p hs e"
  shows "sorted_wrt (\<lambda>a b. a + extent ids a \<le> b) hs" "distinct hs" "sorted hs"
proof -
  show s: "sorted_wrt (\<lambda>a b. a + extent ids a \<le> b) hs"
    using assms
  proof (induction hs arbitrary: p)
    case (Cons x hs)
    then have t: "tiles ids (x + extent ids x) hs e" by auto
    from Cons.IH [OF t] tiles_bounds(2) [OF t] show ?case by auto
  qed simp
  have pos: "\<forall>h\<in>set hs. 0 < extent ids h" using tiles_bounds(2) [OF assms] by blast
  from s pos show "distinct hs" by (induction hs) fastforce+
  from s show "sorted hs" by (induction hs) fastforce+
qed

lemma tiles_cong: "(\<And>h. h \<in> set hs \<Longrightarrow> extent ids' h = extent ids h) \<Longrightarrow> tiles ids' p hs e = tiles ids p hs e"
  by (induction hs arbitrary: p) auto

lemma tiles_disjoint:
  assumes "tiles ids p hs e" "a \<in> set hs" "b \<in> set hs" "a \<noteq> b"
  shows "{a..<a + extent ids a} \<inter> {b..<b + extent ids b} = {}"
proof -
  have "a + extent ids a \<le> b \<or> b + extent ids b \<le> a"
    using tiles_apart(1) [OF assms(1)] assms(2-4) by (induction hs) auto
  then show ?thesis by auto
qed

lemma tiles_cover:
  assumes "tiles ids p hs e"
  shows "(\<Union>h\<in>set hs. {h..<h + extent ids h}) = {p..<e}"
  using assms
proof (induction hs arbitrary: p)
  case (Cons x hs)
  then have t: "tiles ids (x + extent ids x) hs e" "x = p" by auto
  from Cons.IH [OF t(1)] t(2) tiles_bounds(1) [OF t(1)] show ?case
    by (auto simp: ivl_disj_un_two)
qed simp

end
