(* ===== verification/HeapCluster.thy ===== *)
theory HeapCluster imports HeapBlock begin

text \<open>
  The managed heap, \<^verbatim>\<open>src/CLR/Core/CLR_RT_HeapCluster.cpp\<close>: a stretch of blocks with a list of the
  free ones. Objects are taken from the front of the first free block that is large enough, events
  from the back of the last one; a garbage collection rebuilds the list from the blocks that were
  not marked, merging neighbours. The heap does not move anything here. Loops along the links have
  fuel, and answer \<open>None\<close> when it runs out.
\<close>

section \<open>The cluster\<close>

record HeapCluster =
  m_payloadStart :: nat
  m_payloadEnd :: nat
  m_freeList :: ListEnds
  m_ids :: "nat \<Rightarrow> BlockId"
  m_links :: Links

definition SetDataId :: "nat \<Rightarrow> BlockId \<Rightarrow> HeapCluster \<Rightarrow> HeapCluster" where
  "SetDataId a b c = c\<lparr>m_ids := (m_ids c)(a := b)\<rparr>"

definition SetNext :: "nat \<Rightarrow> nat \<Rightarrow> HeapCluster \<Rightarrow> HeapCluster" where
  "SetNext a v c = c\<lparr>m_links := set_next a v (m_links c)\<rparr>"

definition SetPrev :: "nat \<Rightarrow> nat \<Rightarrow> HeapCluster \<Rightarrow> HeapCluster" where
  "SetPrev a v c = c\<lparr>m_links := set_prev a v (m_links c)\<rparr>"

definition zero_id :: BlockId where
  "zero_id = RAW_ID DATATYPE_VOID 0 0"

definition InitializeToZero :: "nat \<Rightarrow> HeapCluster \<Rightarrow> HeapCluster" where
  "InitializeToZero a c =
     (let n = unat (b_size (m_ids c a)); lnk = m_links c in
      c\<lparr>m_ids := (\<lambda>x. if a < x \<and> x < a + n then zero_id else m_ids c x),
        m_links := lnk\<lparr>m_nextNode := (\<lambda>x. if a \<le> x \<and> x < a + n then 0 else m_nextNode lnk x),
                       m_prevNode := (\<lambda>x. if a \<le> x \<and> x < a + n then 0 else m_prevNode lnk x)\<rparr>\<rparr>)"

section \<open>Allocation\<close>

text \<open>The walk along \<open>go\<close> to the first block that is large enough; \<open>Some None\<close> at the end of the list.\<close>

fun find_fit :: "nat \<Rightarrow> (nat \<Rightarrow> nat) \<Rightarrow> (nat \<Rightarrow> BlockId) \<Rightarrow> u32 \<Rightarrow> nat \<Rightarrow> nat option option" where
  "find_fit 0 go ids len p = None"
| "find_fit (Suc fuel) go ids len p =
     (if go p = 0 then Some None
      else if len \<le> ucast (b_size (ids p)) then Some (Some p)
      else find_fit fuel go ids len (go p))"

definition ExtractBlocks :: "nat \<Rightarrow> CLR_DataType \<Rightarrow> u32 \<Rightarrow> u32 \<Rightarrow> HeapCluster \<Rightarrow> (HeapCluster \<times> nat) option" where
  "ExtractBlocks fuel dataType flags len c =
     (let lnk = m_links c; event = flags AND HB_Event \<noteq> 0 in
      case (if event then find_fit fuel (m_prevNode lnk) (m_ids c) len (LastNode (m_freeList c) lnk)
            else find_fit fuel (m_nextNode lnk) (m_ids c) len (FirstNode (m_freeList c) lnk)) of
        None \<Rightarrow> None
      | Some None \<Rightarrow> Some (c, 0)
      | Some (Some res) \<Rightarrow>
          (let nxt = m_nextNode lnk res; prv = m_prevNode lnk res;
               available = ucast (b_size (m_ids c res)) - len;
               (c, res) =
                 (if available \<noteq> 0 then
                    (if event then
                       (SetDataId res (RAW_ID DATATYPE_FREEBLOCK HB_Pinned available) c, res + unat available)
                     else
                       (let ptr = res + unat len;
                            c = SetDataId ptr (RAW_ID DATATYPE_FREEBLOCK HB_Pinned available) c
                        in (SetPrev nxt ptr (SetNext prv ptr (SetPrev ptr prv (SetNext ptr nxt c))), res)))
                  else (SetPrev nxt prv (SetNext prv nxt c), res));
               c = SetDataId res (RAW_ID dataType flags len) c
           in Some (if flags AND HB_InitializeToZero \<noteq> 0 then InitializeToZero res c else c, res)))"

section \<open>Recovery after a garbage collection\<close>

fun dead_run :: "nat \<Rightarrow> HeapCluster \<Rightarrow> nat \<Rightarrow> u32 \<Rightarrow> (nat \<times> u32) option" where
  "dead_run 0 c nxt lenTot = None"
| "dead_run (Suc fuel) c nxt lenTot =
     (let len = b_size (m_ids c nxt); nxt = nxt + unat len; lenTot = lenTot + ucast len in
      if nxt < m_payloadEnd c \<and> \<not> IsAlive (m_ids c nxt) then dead_run fuel c nxt lenTot
      else Some (nxt, lenTot))"

fun recover_loop :: "nat \<Rightarrow> nat \<Rightarrow> nat \<Rightarrow> HeapCluster \<Rightarrow> (HeapCluster \<times> nat) option" where
  "recover_loop 0 ptr last' c = None"
| "recover_loop (Suc fuel) ptr last' c =
     (if ptr < m_payloadEnd c then
        (if \<not> IsAlive (m_ids c ptr) then
           (case dead_run (Suc fuel) c ptr 0 of
              None \<Rightarrow> None
            | Some (nxt, lenTot) \<Rightarrow>
                recover_loop fuel nxt ptr
                  (SetPrev ptr last' (SetNext last' ptr (SetDataId ptr (RAW_ID DATATYPE_FREEBLOCK HB_Pinned lenTot) c))))
         else
           (let c = (if \<not> IsEvent (m_ids c ptr) then SetDataId ptr (MarkDead (m_ids c ptr)) c else c)
            in recover_loop fuel (ptr + unat (b_size (m_ids c ptr))) last' c))
      else Some (c, last'))"

definition RecoverFromGC :: "nat \<Rightarrow> HeapCluster \<Rightarrow> HeapCluster option" where
  "RecoverFromGC fuel c =
     (let head' = Head (m_freeList c); tail' = Tail (m_freeList c) in
      case recover_loop fuel (m_payloadStart c) head' (SetPrev head' 0 c) of
        None \<Rightarrow> None
      | Some (c, last') \<Rightarrow> Some (SetNext tail' 0 (SetPrev tail' last' (SetNext last' tail' c))))"

section \<open>Initialisation and insertion\<close>

text \<open>
  Without heap persistence every block of a new cluster is made a free block of size 1. The size is
  in bytes; \<open>header\<close> and \<open>block\<close> are the sizes of the cluster's header and of a block, \<open>start\<close> is the
  address behind the header.
\<close>

definition HeapCluster_Initialize :: "nat \<Rightarrow> nat \<Rightarrow> u32 \<Rightarrow> u32 \<Rightarrow> u32 \<Rightarrow> HeapCluster \<Rightarrow> HeapCluster option" where
  "HeapCluster_Initialize fuel start header block size' c =
     (let n = unat ((size' - header) div block);
          c = c\<lparr>m_links := List_Initialize (m_freeList c) (m_links c), m_payloadStart := start, m_payloadEnd := start + n,
                m_ids := (\<lambda>x. if start \<le> x \<and> x < start + n then RAW_ID DATATYPE_FREEBLOCK 0 1 else m_ids c x)\<rparr>
      in RecoverFromGC fuel c)"

fun find_after :: "nat \<Rightarrow> Links \<Rightarrow> nat \<Rightarrow> nat \<Rightarrow> nat option" where
  "find_after 0 lnk node p = None"
| "find_after (Suc fuel) lnk node p =
     (if m_nextNode lnk p = 0 \<or> p > node then Some p else find_after fuel lnk node (m_nextNode lnk p))"

definition coalesce_next :: "nat \<Rightarrow> u32 \<Rightarrow> HeapCluster \<Rightarrow> HeapCluster \<times> u32" where
  "coalesce_next node size' c =
     (let ptr = m_nextNode (m_links c) node in
      if m_nextNode (m_links c) ptr \<noteq> 0 \<and> node + unat size' = ptr
      then (c\<lparr>m_links := Unlink ptr (m_links c)\<rparr>, size' + ucast (b_size (m_ids c ptr))) else (c, size'))"

definition coalesce_prev :: "nat \<Rightarrow> u32 \<Rightarrow> HeapCluster \<Rightarrow> HeapCluster \<times> u32 \<times> nat" where
  "coalesce_prev node size' c =
     (let ptr = m_prevNode (m_links c) node in
      if m_prevNode (m_links c) ptr \<noteq> 0 \<and> ptr + unat (b_size (m_ids c ptr)) = node
      then (c\<lparr>m_links := Unlink node (m_links c)\<rparr>, size' + ucast (b_size (m_ids c ptr)), ptr) else (c, size', node))"

definition InsertInOrder :: "nat \<Rightarrow> nat \<Rightarrow> u32 \<Rightarrow> HeapCluster \<Rightarrow> (HeapCluster \<times> nat) option" where
  "InsertInOrder fuel node size' c =
     (case find_after fuel (m_links c) node (FirstNode (m_freeList c) (m_links c)) of
        None \<Rightarrow> None
      | Some ptr \<Rightarrow>
          (let c = SetPrev node 0 (SetNext node 0 c);
               c = c\<lparr>m_links := InsertBeforeNode ptr node (m_links c)\<rparr>;
               (c, size') = coalesce_next node size' c;
               (c, size', node) = coalesce_prev node size' c
           in Some (SetDataId node (RAW_ID DATATYPE_FREEBLOCK HB_Pinned size') c, node)))"

section \<open>The blocks of a cluster\<close>

abbreviation is_free :: "HeapCluster \<Rightarrow> nat \<Rightarrow> bool" where
  "is_free c h \<equiv> b_type (m_ids c h) = DATATYPE_FREEBLOCK"

abbreviation cells :: "HeapCluster \<Rightarrow> nat \<Rightarrow> nat set" where
  "cells c h \<equiv> {h..<h + extent (m_ids c) h}"

text \<open>\<open>hs\<close> are the heads of the blocks of the cluster; the free ones are those in the list.\<close>

definition heap_ok :: "HeapCluster \<Rightarrow> nat list \<Rightarrow> bool" where
  "heap_ok c hs \<longleftrightarrow>
     tiles (m_ids c) (m_payloadStart c) hs (m_payloadEnd c) \<and>
     dll (m_freeList c) (m_links c) (filter (is_free c) hs) \<and>
     0 < m_payloadStart c \<and> m_payloadEnd c - m_payloadStart c < 65536 \<and>
     Head (m_freeList c) \<notin> {m_payloadStart c..<m_payloadEnd c} \<and>
     Tail (m_freeList c) \<notin> {m_payloadStart c..<m_payloadEnd c} \<and>
     (\<forall>h\<in>set hs. is_free c h \<longrightarrow> \<not> IsAlive (m_ids c h))"

definition used :: "HeapCluster \<Rightarrow> nat list \<Rightarrow> nat list" where
  "used c hs = filter (\<lambda>h. \<not> is_free c h) hs"

definition free_cells :: "HeapCluster \<Rightarrow> nat list \<Rightarrow> nat set" where
  "free_cells c hs = (\<Union>h\<in>set (filter (is_free c) hs). cells c h)"

text \<open>The words of a block are the same in two states of the memory.\<close>

definition same_block :: "HeapCluster \<Rightarrow> HeapCluster \<Rightarrow> nat \<Rightarrow> bool" where
  "same_block c c' h \<longleftrightarrow> (\<forall>x\<in>cells c h. m_ids c' x = m_ids c x \<and>
     m_nextNode (m_links c') x = m_nextNode (m_links c) x \<and> m_prevNode (m_links c') x = m_prevNode (m_links c) x)"

lemma set_simps [simp]:
  "m_ids (SetDataId a b c) = (m_ids c)(a := b)" "m_links (SetDataId a b c) = m_links c"
  "m_freeList (SetDataId a b c) = m_freeList c" "m_payloadStart (SetDataId a b c) = m_payloadStart c"
  "m_payloadEnd (SetDataId a b c) = m_payloadEnd c"
  "m_ids (SetNext a v c) = m_ids c" "m_links (SetNext a v c) = set_next a v (m_links c)"
  "m_freeList (SetNext a v c) = m_freeList c" "m_payloadStart (SetNext a v c) = m_payloadStart c"
  "m_payloadEnd (SetNext a v c) = m_payloadEnd c"
  "m_ids (SetPrev a v c) = m_ids c" "m_links (SetPrev a v c) = set_prev a v (m_links c)"
  "m_freeList (SetPrev a v c) = m_freeList c" "m_payloadStart (SetPrev a v c) = m_payloadStart c"
  "m_payloadEnd (SetPrev a v c) = m_payloadEnd c"
  "m_freeList (InitializeToZero a c) = m_freeList c" "m_payloadStart (InitializeToZero a c) = m_payloadStart c"
  "m_payloadEnd (InitializeToZero a c) = m_payloadEnd c"
  by (simp_all add: SetDataId_def SetNext_def SetPrev_def InitializeToZero_def Let_def)

lemma zero_outside:
  "x \<notin> {a<..<a + extent (m_ids c) a} \<Longrightarrow> m_ids (InitializeToZero a c) x = m_ids c x"
  "x \<notin> cells c a \<Longrightarrow> m_nextNode (m_links (InitializeToZero a c)) x = m_nextNode (m_links c) x"
  "x \<notin> cells c a \<Longrightarrow> m_prevNode (m_links (InitializeToZero a c)) x = m_prevNode (m_links c) x"
  by (auto simp: InitializeToZero_def Let_def)

section \<open>Walking along the free list\<close>

lemma find_fit_forward:
  assumes "linked lnk p xs q" "m_nextNode lnk q = 0" "0 \<notin> set (xs @ [q])" "length xs < fuel"
  shows "find_fit fuel (m_nextNode lnk) ids len (hd (xs @ [q])) = Some (find (\<lambda>h. len \<le> ucast (b_size (ids h))) xs)"
  using assms
proof (induction xs arbitrary: p fuel)
  case Nil
  then show ?case by (cases fuel) auto
next
  case (Cons x xs)
  obtain f where f: "fuel = Suc f" using Cons.prems(4) by (cases fuel) auto
  have l: "linked lnk x xs q" using Cons.prems(1) by simp
  have "m_nextNode lnk x = hd (xs @ [q])" by (rule linked_hd(1) [OF l])
  moreover have "hd (xs @ [q]) \<noteq> 0" using Cons.prems(3) by (cases xs) auto
  ultimately show ?case using Cons.IH [OF l] Cons.prems f by simp
qed

lemma find_fit_backward:
  assumes "linked lnk p xs q" "m_prevNode lnk p = 0" "0 \<notin> set (p # xs)" "length xs < fuel"
  shows "find_fit fuel (m_prevNode lnk) ids len (last (p # xs)) = Some (find (\<lambda>h. len \<le> ucast (b_size (ids h))) (rev xs))"
  using assms
proof (induction xs arbitrary: q fuel rule: rev_induct)
  case Nil
  then show ?case by (cases fuel) auto
next
  case (snoc x xs)
  obtain f where f: "fuel = Suc f" using snoc.prems(4) by (cases fuel) auto
  have l: "linked lnk p xs x" using snoc.prems(1) by (simp add: linked_append)
  have "m_prevNode lnk x = last (p # xs)" by (rule linked_last(1) [OF l])
  moreover have "last (p # xs) \<noteq> 0"
    by (rule mem_nonzero [OF last_in_set]) (use snoc.prems(3) in auto)
  ultimately show ?case using snoc.IH [OF l] snoc.prems f by simp
qed

lemma find_fit_list:
  assumes "dll l lnk xs" "length xs < fuel"
  shows "find_fit fuel (m_nextNode lnk) ids len (FirstNode l lnk) = Some (find (\<lambda>h. len \<le> ucast (b_size (ids h))) xs)"
    "find_fit fuel (m_prevNode lnk) ids len (LastNode l lnk) = Some (find (\<lambda>h. len \<le> ucast (b_size (ids h))) (rev xs))"
proof -
  from assms(1) have d: "linked lnk (Head l) xs (Tail l)" "m_nextNode lnk (Tail l) = 0" "0 \<notin> set (xs @ [Tail l])"
    "m_prevNode lnk (Head l) = 0" "0 \<notin> set (Head l # xs)" by (auto simp: dll_def)
  show "find_fit fuel (m_nextNode lnk) ids len (FirstNode l lnk) = Some (find (\<lambda>h. len \<le> ucast (b_size (ids h))) xs)"
    unfolding dll_first(1) [OF assms(1)] by (rule find_fit_forward [OF d(1-3) assms(2)])
  show "find_fit fuel (m_prevNode lnk) ids len (LastNode l lnk) = Some (find (\<lambda>h. len \<le> ucast (b_size (ids h))) (rev xs))"
    unfolding LastNode_def linked_last(1) [OF d(1)] by (rule find_fit_backward [OF d(1,4,5) assms(2)])
qed

text \<open>What \<open>ExtractBlocks\<close> does to the links: the block goes out of the list, or another takes its place.\<close>

lemma dll_neighbours:
  assumes "dll l st (xs @ n # ys)"
  shows "m_prevNode st n = last (Head l # xs)" "m_nextNode st n = hd (ys @ [Tail l])"
    "last (Head l # xs) \<in> set (Head l # xs)" "hd (ys @ [Tail l]) \<in> set (ys @ [Tail l])"
    "last (Head l # xs) \<noteq> 0" "hd (ys @ [Tail l]) \<noteq> 0"
proof -
  from assms have "linked st (Head l) xs n" "linked st n ys (Tail l)" and z: "0 \<notin> set (Head l # xs @ n # ys @ [Tail l])"
    by (auto simp: dll_def linked_append)
  then show "m_prevNode st n = last (Head l # xs)" "m_nextNode st n = hd (ys @ [Tail l])"
    using linked_last(1) linked_hd(1) by blast+
  show l: "last (Head l # xs) \<in> set (Head l # xs)" and r: "hd (ys @ [Tail l]) \<in> set (ys @ [Tail l])"
    by (rule last_in_set; simp) (rule hd_in_set; simp)
  show "last (Head l # xs) \<noteq> 0" by (rule mem_nonzero [OF l]) (use z in auto)
  show "hd (ys @ [Tail l]) \<noteq> 0" by (rule mem_nonzero [OF r]) (use z in auto)
qed

lemma dll_bypass:
  assumes "dll l st (xs @ n # ys)"
  shows "dll l (set_prev (m_nextNode st n) (m_prevNode st n) (set_next (m_prevNode st n) (m_nextNode st n) st)) (xs @ ys)"
proof -
  note nb = dll_neighbours [OF assms]
  from assms have d: "linked st (Head l) (xs @ n # ys) (Tail l)" "distinct (Head l # xs @ n # ys @ [Tail l])"
    "0 \<notin> set (Head l # xs @ n # ys @ [Tail l])" "m_prevNode st (Head l) = 0" "m_nextNode st (Tail l) = 0"
    by (auto simp: dll_def)
  have eq: "set_prev (m_nextNode st n) (m_prevNode st n) (set_next (m_prevNode st n) (m_nextNode st n) st) = RemoveFromList n st"
    using nb by (simp add: RemoveFromList_def Let_def)
  have "m_prevNode (RemoveFromList n st) (Head l) = 0" "m_nextNode (RemoveFromList n st) (Tail l) = 0"
    using d nb by (auto simp: RemoveFromList_def Let_def)
  with linked_remove [OF d(1-3)] d show ?thesis unfolding eq by (auto simp: dll_def)
qed

lemma dll_replace:
  assumes "dll l st (xs @ n # ys)" "m \<noteq> 0" "m \<notin> set (Head l # xs @ ys @ [Tail l])"
  shows "dll l (set_prev (m_nextNode st n) m (set_next (m_prevNode st n) m
           (set_prev m (m_prevNode st n) (set_next m (m_nextNode st n) st)))) (xs @ m # ys)"
proof -
  note nb = dll_neighbours [OF assms(1)]
  let ?l = "m_prevNode st n" and ?r = "m_nextNode st n"
  let ?by = "set_prev ?r ?l (set_next ?l ?r st)"
  from dll_bypass [OF assms(1)] have b: "linked ?by (Head l) (xs @ ys) (Tail l)"
    "m_prevNode ?by (Head l) = 0" "m_nextNode ?by (Tail l) = 0" by (auto simp: dll_def)
  from assms(1) have d: "distinct (Head l # xs @ ys @ [Tail l])" "0 \<notin> set (Head l # xs @ ys @ [Tail l])" by (auto simp: dll_def)
  from linked_weld [OF b(1) d(1) assms(3)]
  have w: "linked (Insert_node ?l ?r m ?by) (Head l) (xs @ m # ys) (Tail l)" using nb by simp
  have ne: "?l \<noteq> m" "?r \<noteq> m" "?l \<noteq> Tail l" "?r \<noteq> Head l" using nb assms(3) d(1) by auto
  have eq: "set_prev ?r m (set_next ?l m (set_prev m ?l (set_next m ?r st))) = Insert_node ?l ?r m ?by"
    by (simp add: Insert_node_def set_next_def set_prev_def fun_upd_twist fun_eq_iff)
  have "m_prevNode (Insert_node ?l ?r m ?by) (Head l) = 0" "m_nextNode (Insert_node ?l ?r m ?by) (Tail l) = 0"
    using b(2,3) ne assms(3) by (auto simp: Insert_node_def)
  with w d assms(2,3) show ?thesis unfolding eq by (auto simp: dll_def)
qed

section \<open>Replacing a block\<close>

lemma heap_okD:
  assumes "heap_ok c hs"
  shows "tiles (m_ids c) (m_payloadStart c) hs (m_payloadEnd c)" "dll (m_freeList c) (m_links c) (filter (is_free c) hs)"
    "0 < m_payloadStart c" "m_payloadEnd c - m_payloadStart c < 65536"
    "Head (m_freeList c) \<notin> {m_payloadStart c..<m_payloadEnd c}" "Tail (m_freeList c) \<notin> {m_payloadStart c..<m_payloadEnd c}"
    "\<And>h. h \<in> set hs \<Longrightarrow> is_free c h \<Longrightarrow> \<not> IsAlive (m_ids c h)"
  using assms by (auto simp: heap_ok_def)

lemma tile_separate:
  assumes "tiles ids p (as @ b # bs) e" "h \<in> set as \<union> set bs"
  shows "{h..<h + extent ids h} \<inter> {b..<b + extent ids b} = {}" "h \<notin> {b..<b + extent ids b}"
proof -
  have "h \<noteq> b" using assms tiles_apart(2) [OF assms(1)] by auto
  then show "{h..<h + extent ids h} \<inter> {b..<b + extent ids b} = {}"
    using tiles_disjoint [OF assms(1), of h b] assms(2) by auto
  moreover have "0 < extent ids h" using tiles_bounds(2) [OF assms(1), of h] assms(2) by auto
  ultimately show "h \<notin> {b..<b + extent ids b}" by fastforce
qed

text \<open>A free block may be replaced by blocks that tile its cells.\<close>

lemma heap_ok_replace:
  assumes "heap_ok c (as @ b # bs)" "is_free c b"
    "m_payloadStart c' = m_payloadStart c" "m_payloadEnd c' = m_payloadEnd c" "m_freeList c' = m_freeList c"
    "\<And>x. x \<notin> cells c b \<Longrightarrow> m_ids c' x = m_ids c x"
    "tiles (m_ids c') b ms (b + extent (m_ids c) b)"
    "dll (m_freeList c) (m_links c') (filter (is_free c) as @ filter (is_free c') ms @ filter (is_free c) bs)"
    "\<And>h. h \<in> set ms \<Longrightarrow> is_free c' h \<Longrightarrow> \<not> IsAlive (m_ids c' h)"
  shows "heap_ok c' (as @ ms @ bs)" "used c' (as @ ms @ bs) = used c as @ used c' ms @ used c bs"
    "free_cells c' (as @ ms @ bs) = free_cells c (as @ b # bs) - cells c b \<union> free_cells c' ms"
proof -
  note ok = heap_okD [OF assms(1)]
  note sep = tile_separate [OF ok(1)]
  have out: "m_ids c' h = m_ids c h" if "h \<in> set as \<union> set bs" for h
    by (rule assms(6)) (use sep(2) [OF that] in simp)
  obtain m where t: "tiles (m_ids c) (m_payloadStart c) as m" "tiles (m_ids c) m (b # bs) (m_payloadEnd c)"
    using ok(1) by (auto simp: tiles_append)
  have "tiles (m_ids c') (m_payloadStart c) as b"
    using t tiles_cong [of as "m_ids c'" "m_ids c"] out by auto
  moreover have "tiles (m_ids c') (b + extent (m_ids c) b) bs (m_payloadEnd c)"
    using t(2) tiles_cong [of bs "m_ids c'" "m_ids c"] out by auto
  ultimately have tiles: "tiles (m_ids c') (m_payloadStart c) (as @ ms @ bs) (m_payloadEnd c)"
    using assms(7) by (auto simp: tiles_append)
  have f: "filter (is_free c') as = filter (is_free c) as" "filter (is_free c') bs = filter (is_free c) bs"
    using out by (auto intro!: filter_cong)
  have f': "filter (\<lambda>h. \<not> is_free c' h) as = filter (\<lambda>h. \<not> is_free c h) as"
    "filter (\<lambda>h. \<not> is_free c' h) bs = filter (\<lambda>h. \<not> is_free c h) bs"
    using out by (auto intro!: filter_cong)
  have dead: "\<not> IsAlive (m_ids c' h)" if "h \<in> set (as @ ms @ bs)" "is_free c' h" for h
  proof (cases "h \<in> set ms")
    case True
    with assms(9) that(2) show ?thesis by blast
  next
    case False
    with that(1) have h: "h \<in> set as \<union> set bs" by auto
    with ok(7) [of h] that(2) out [OF h] show ?thesis by auto
  qed
  show "heap_ok c' (as @ ms @ bs)"
    unfolding heap_ok_def using tiles assms(3-5,8) ok(3-6) f dead by simp
  show "used c' (as @ ms @ bs) = used c as @ used c' ms @ used c bs"
    using f' by (simp add: used_def)
  have c: "cells c' h = cells c h" if "h \<in> set as \<union> set bs" for h using out [OF that] by simp
  have "free_cells c' (as @ ms @ bs) = free_cells c as \<union> free_cells c' ms \<union> free_cells c bs"
    using c out f by (auto simp: free_cells_def)
  moreover have "free_cells c as \<inter> cells c b = {}" "free_cells c bs \<inter> cells c b = {}"
    using sep(1) by (fastforce simp: free_cells_def)+
  moreover have "free_cells c (as @ b # bs) = free_cells c as \<union> cells c b \<union> free_cells c bs"
    using assms(2) by (auto simp: free_cells_def)
  ultimately show "free_cells c' (as @ ms @ bs) = free_cells c (as @ b # bs) - cells c b \<union> free_cells c' ms" by blast
qed

lemma same_block_outside:
  assumes "tiles (m_ids c) p (as @ b # bs) e" "h \<in> set as \<union> set bs"
    "\<And>x. x \<notin> cells c b \<Longrightarrow> m_ids c' x = m_ids c x"
    "\<And>x. x \<in> cells c h \<Longrightarrow> m_nextNode (m_links c') x = m_nextNode (m_links c) x \<and> m_prevNode (m_links c') x = m_prevNode (m_links c) x"
  shows "same_block c c' h"
  using assms(3,4) tile_separate(1) [OF assms(1,2)] by (fastforce simp: same_block_def)

section \<open>Allocation\<close>

text \<open>Where the list ends and the nodes of the list are not inside a used block.\<close>

lemma used_unlisted:
  assumes "heap_ok c hs" "h \<in> set hs" "\<not> is_free c h" "x \<in> cells c h"
  shows "x \<notin> set (Head (m_freeList c) # filter (is_free c) hs @ [Tail (m_freeList c)])"
proof -
  note ok = heap_okD [OF assms(1)]
  have "h + extent (m_ids c) h \<le> m_payloadEnd c" "m_payloadStart c \<le> h" using tiles_bounds(2) [OF ok(1) assms(2)] by auto
  then have "x \<in> {m_payloadStart c..<m_payloadEnd c}" using assms(4) by auto
  with ok(5,6) have "x \<noteq> Head (m_freeList c)" "x \<noteq> Tail (m_freeList c)" by auto
  moreover have "x \<notin> set (filter (is_free c) hs)"
  proof
    assume x: "x \<in> set (filter (is_free c) hs)"
    then have "x \<noteq> h" "x \<in> set hs" using assms(3) by auto
    moreover have "x \<in> cells c x" using tiles_bounds(2) [OF ok(1)] x by auto
    ultimately show False using tiles_disjoint [OF ok(1) _ assms(2), of x] assms(4) by auto
  qed
  ultimately show ?thesis by simp
qed

definition chosen :: "u32 \<Rightarrow> u32 \<Rightarrow> HeapCluster \<Rightarrow> nat list \<Rightarrow> nat option" where
  "chosen flags len c hs =
     find (\<lambda>h. is_free c h \<and> unat len \<le> extent (m_ids c) h) (if flags AND HB_Event \<noteq> 0 then rev hs else hs)"

lemma find_filter: "find P (filter Q xs) = find (\<lambda>x. Q x \<and> P x) xs"
  by (induction xs) auto

lemma size_le: "len \<le> ucast (w :: u16) \<longleftrightarrow> unat (len :: u32) \<le> unat w"
proof -
  have "unat (ucast w :: u32) = unat w"
    using unat_u16_less [of w] by (simp add: unsigned_ucast_eq take_bit_nat_eq_self)
  then show ?thesis by (simp add: word_le_nat_alt)
qed

lemma chosen_fit:
  assumes "heap_ok c hs" "length hs < fuel"
  shows "(if flags AND HB_Event \<noteq> 0 then find_fit fuel (m_prevNode (m_links c)) (m_ids c) len (LastNode (m_freeList c) (m_links c))
      else find_fit fuel (m_nextNode (m_links c)) (m_ids c) len (FirstNode (m_freeList c) (m_links c))) = Some (chosen flags len c hs)"
proof -
  have d: "dll (m_freeList c) (m_links c) (filter (is_free c) hs)" using heap_okD [OF assms(1)] by blast
  have fuel: "length (filter (is_free c) hs) < fuel" using assms(2) by (meson length_filter_le order_le_less_trans)
  from find_fit_list [OF d fuel, of "m_ids c" len] show ?thesis
    by (simp add: chosen_def find_filter rev_filter size_le)
qed

lemma set_fields: "c\<lparr>m_links := l, m_ids := i\<rparr> = c\<lparr>m_ids := i, m_links := l\<rparr>"
  by (cases c) simp

text \<open>
  \<open>a\<close> heads the \<open>k\<close> cells taken from the \<open>n\<close> cells of the free block \<open>b\<close>; \<open>ms\<close> are the heads that
  replace \<open>b\<close>, \<open>rest\<close> those of them that are free.
\<close>

lemma carve_heap:
  assumes ok: "heap_ok c (as @ b # bs)" and b: "is_free c b"
    and new: "a \<in> set ms" "{a..<a + k} \<subseteq> cells c b" "extent ids a = k" "b_type (ids a) \<noteq> DATATYPE_FREEBLOCK"
    and ids: "\<And>x. x \<notin> cells c b \<Longrightarrow> ids x = m_ids c x" "tiles ids b ms (b + extent (m_ids c) b)"
    and ms: "filter (\<lambda>h. b_type (ids h) = DATATYPE_FREEBLOCK) ms = rest"
      "filter (\<lambda>h. b_type (ids h) \<noteq> DATATYPE_FREEBLOCK) ms = [a]"
    and rest: "\<And>h. h \<in> set rest \<Longrightarrow> \<not> IsAlive (ids h)"
      "(\<Union>h\<in>set rest. {h..<h + extent ids h}) = cells c b - {a..<a + k}"
    and lnk: "dll (m_freeList c) lnk (filter (is_free c) as @ rest @ filter (is_free c) bs)"
      "\<And>x. x \<notin> cells c b \<Longrightarrow> x \<notin> set (Head (m_freeList c) # filter (is_free c) (as @ b # bs) @ [Tail (m_freeList c)]) \<Longrightarrow>
         m_nextNode lnk x = m_nextNode (m_links c) x \<and> m_prevNode lnk x = m_prevNode (m_links c) x"
  defines "c1 \<equiv> c\<lparr>m_ids := ids, m_links := lnk\<rparr>"
  assumes c': "c' = (if zero then InitializeToZero a c1 else c1)"
  shows "heap_ok c' (as @ ms @ bs) \<and> used c' (as @ ms @ bs) = used c as @ [a] @ used c bs \<and>
    free_cells c' (as @ ms @ bs) = free_cells c (as @ b # bs) - {a..<a + k} \<and> m_ids c' a = ids a \<and>
    (\<forall>h\<in>set (used c (as @ b # bs)). same_block c c' h) \<and>
    m_freeList c' = m_freeList c \<and> m_payloadStart c' = m_payloadStart c \<and> m_payloadEnd c' = m_payloadEnd c"
proof -
  let ?l = "m_freeList c" and ?xs = "filter (is_free c) as" and ?ys = "filter (is_free c) bs"
  note D = heap_okD [OF ok]
  have fields: "m_payloadStart c' = m_payloadStart c" "m_payloadEnd c' = m_payloadEnd c" "m_freeList c' = m_freeList c"
    by (simp_all add: c' c1_def)
  have zero: "m_ids c' x = ids x" if "x \<notin> {a<..<a + k}" for x
    using that zero_outside(1) [of x a c1] new(3) by (auto simp: c' c1_def)
  have links: "m_nextNode (m_links c') x = m_nextNode lnk x \<and> m_prevNode (m_links c') x = m_prevNode lnk x"
    if "x \<notin> {a..<a + k}" for x
    using that zero_outside(2,3) [of x a c1] new(3) by (auto simp: c' c1_def)
  have out: "m_ids c' x = m_ids c x" if "x \<notin> cells c b" for x
  proof -
    have "x \<notin> {a<..<a + k}" using that new(2) by auto
    with zero ids(1) [OF that] show ?thesis by simp
  qed
  have id_ms: "m_ids c' h = ids h" if h: "h \<in> set ms" for h
  proof (rule zero)
    show "h \<notin> {a<..<a + k}"
    proof (cases "h = a")
      case False
      from tile_in [OF ids(2) h] have "h \<in> {h..<h + extent ids h}" by simp
      with tiles_disjoint [OF ids(2) h new(1) False] new(3) show ?thesis by auto
    qed simp
  qed
  have tiles: "tiles (m_ids c') b ms (b + extent (m_ids c) b)"
    using ids(2) tiles_cong [of ms "m_ids c'" ids] id_ms by auto
  have free_ms: "filter (is_free c') ms = rest" and used_ms: "used c' ms = [a]"
    unfolding ms(1) [symmetric] ms(2) [symmetric] used_def using id_ms by (auto intro!: filter_cong)
  have rest_ms: "h \<in> set ms" if "h \<in> set rest" for h using that ms(1) by auto
  have "x \<notin> {a..<a + k}" if x: "x \<in> set (Head ?l # (?xs @ rest @ ?ys) @ [Tail ?l])" for x
  proof (cases "x \<in> set rest")
    case True
    have "0 < extent ids x" by (rule tile_in [OF ids(2) rest_ms [OF True]])
    then have "x \<in> (\<Union>h\<in>set rest. {h..<h + extent ids h})" using True by force
    with rest(2) show ?thesis by blast
  next
    case False
    from tiles_bounds(2) [OF D(1), of b] D(5,6) have "Head ?l \<notin> cells c b" "Tail ?l \<notin> cells c b" by auto
    moreover have "x \<in> {Head ?l, Tail ?l} \<union> (set as \<union> set bs)" using x False by auto
    ultimately have "x \<notin> cells c b" using tile_separate(2) [OF D(1), of x] by blast
    with new(2) show ?thesis by blast
  qed
  then have list: "dll ?l (m_links c') (?xs @ filter (is_free c') ms @ ?ys)"
    unfolding free_ms using links by (intro dll_cong [OF lnk(1)]) blast
  have dead: "\<not> IsAlive (m_ids c' h)" if "h \<in> set ms" "is_free c' h" for h
  proof -
    have "h \<in> set rest" using that unfolding free_ms [symmetric] by simp
    from rest(1) [OF this] show ?thesis unfolding id_ms [OF that(1)] .
  qed
  have R: "heap_ok c' (as @ ms @ bs)" "used c' (as @ ms @ bs) = used c as @ used c' ms @ used c bs"
    "free_cells c' (as @ ms @ bs) = free_cells c (as @ b # bs) - cells c b \<union> free_cells c' ms"
    by (rule heap_ok_replace [OF ok b fields _ tiles list]; (erule out | erule (1) dead))+
  have "free_cells c' ms = (\<Union>h\<in>set rest. {h..<h + extent ids h})"
    unfolding free_cells_def free_ms by (rule SUP_cong) (simp_all only: id_ms [OF rest_ms])
  note fm = this [unfolded rest(2)]
  have "cells c b \<subseteq> free_cells c (as @ b # bs)" using b by (auto simp: free_cells_def)
  with new(2) have fc: "free_cells c' (as @ ms @ bs) = free_cells c (as @ b # bs) - {a..<a + k}"
    unfolding R(3) fm by blast
  have "same_block c c' h" if "h \<in> set (used c (as @ b # bs))" for h
  proof -
    have h: "h \<in> set as \<union> set bs" "\<not> is_free c h" "h \<in> set (as @ b # bs)" using that b by (auto simp: used_def)
    show ?thesis
    proof (rule same_block_outside [OF D(1) h(1) out])
      fix x assume x: "x \<in> cells c h"
      have nb: "x \<notin> cells c b" using tile_separate(1) [OF D(1) h(1)] x by blast
      then have "x \<notin> {a..<a + k}" using new(2) by blast
      with links lnk(2) [OF nb used_unlisted [OF ok h(3,2) x]]
      show "m_nextNode (m_links c') x = m_nextNode (m_links c) x \<and> m_prevNode (m_links c') x = m_prevNode (m_links c) x" by simp
    qed
  qed
  with R(1,2) used_ms fc fields zero [of a] show ?thesis by simp
qed

text \<open>The three ways in which \<open>ExtractBlocks\<close> carves the block it has chosen.\<close>

lemma ExtractBlocks_carves:
  assumes ok: "heap_ok c (as @ b # bs)" and fuel: "length (as @ b # bs) < fuel" and b: "is_free c b"
    and pick: "chosen flags len c (as @ b # bs) = Some b" and fit: "unat len \<le> extent (m_ids c) b" and pos: "0 < unat len"
    and dt: "dataType \<noteq> DATATYPE_FREEBLOCK"
  defines "a \<equiv> (if flags AND HB_Event \<noteq> 0 then b + extent (m_ids c) b - unat len else b)"
  shows "\<exists>c' ms. ExtractBlocks fuel dataType flags len c = Some (c', a) \<and> heap_ok c' (as @ ms @ bs) \<and>
    used c' (as @ ms @ bs) = used c as @ [a] @ used c bs \<and>
    free_cells c' (as @ ms @ bs) = free_cells c (as @ b # bs) - {a..<a + unat len} \<and>
    m_ids c' a = RAW_ID dataType flags len \<and> (\<forall>h\<in>set (used c (as @ b # bs)). same_block c c' h) \<and>
    m_freeList c' = m_freeList c \<and> m_payloadStart c' = m_payloadStart c \<and> m_payloadEnd c' = m_payloadEnd c"
proof -
  let ?n = "extent (m_ids c) b" and ?k = "unat len" and ?l = "m_freeList c" and ?st = "m_links c"
  let ?xs = "filter (is_free c) as" and ?ys = "filter (is_free c) bs"
  let ?nxt = "m_nextNode ?st b" and ?prv = "m_prevNode ?st b"
  define new where "new = RAW_ID dataType flags len"
  define rest_id where "rest_id = RAW_ID DATATYPE_FREEBLOCK HB_Pinned (ucast (b_size (m_ids c b)) - len)"
  define zero where "zero \<longleftrightarrow> flags AND HB_InitializeToZero \<noteq> 0"
  note D = heap_okD [OF ok]
  have dll: "dll ?l ?st (?xs @ b # ?ys)" using D(2) b by simp
  note nb = dll_neighbours [OF dll]
  have small: "?n < 65536" by (rule unat_u16_less)
  have size: "unat (ucast (b_size (m_ids c b)) :: u32) = ?n"
    using small by (simp add: unsigned_ucast_eq take_bit_nat_eq_self)
  have avail: "unat (ucast (b_size (m_ids c b)) - len :: u32) = ?n - ?k"
    using fit size by (simp add: unat_sub word_le_nat_alt)
  have "ucast (b_size (m_ids c b)) - len = 0 \<longleftrightarrow> ?n = ?k"
    unfolding unat_eq_0 [symmetric] avail using fit by auto
  then have all: "ucast (b_size (m_ids c b)) = len \<longleftrightarrow> ?n = ?k" by simp
  have new: "unat (b_size new) = ?k" "b_type new \<noteq> DATATYPE_FREEBLOCK"
    using fit small dt by (simp_all add: new_def unsigned_ucast_eq take_bit_nat_eq_self)
  have rest: "unat (b_size rest_id) = ?n - ?k" "b_type rest_id = DATATYPE_FREEBLOCK" "\<not> IsAlive rest_id"
    using small by (simp_all add: rest_id_def unsigned_ucast_eq take_bit_nat_eq_self avail)
  note ex_def = ExtractBlocks_def Let_def chosen_fit [OF ok fuel] pick
  note ex_simps = SetDataId_def SetNext_def SetPrev_def set_fields all
  have frame: "x \<noteq> ?nxt \<and> x \<noteq> ?prv \<and> x \<noteq> b" if "x \<notin> set (Head ?l # filter (is_free c) (as @ b # bs) @ [Tail ?l])" for x
    using that nb b by auto
  consider (whole) "?n = ?k" "a = b"
    | (rear) "?k < ?n" "flags AND HB_Event \<noteq> 0" "a = b + (?n - ?k)" "a \<noteq> b"
    | (front) "?k < ?n" "flags AND HB_Event = 0" "a = b" "b + ?k \<noteq> b"
  proof (cases "?n = ?k")
    case True
    with whole show ?thesis by (simp add: a_def)
  next
    case False
    with fit pos rear front show ?thesis by (cases "flags AND HB_Event = 0") (simp_all add: a_def)
  qed
  then show ?thesis
  proof cases
    case whole
    let ?ids = "(m_ids c)(b := new)" and ?lnk = "set_prev ?nxt ?prv (set_next ?prv ?nxt ?st)"
    define c' where "c' = (if zero then InitializeToZero a (c\<lparr>m_ids := ?ids, m_links := ?lnk\<rparr>) else c\<lparr>m_ids := ?ids, m_links := ?lnk\<rparr>)"
    have "ExtractBlocks fuel dataType flags len c = Some (c', a)"
      unfolding ex_def by (simp add: ex_simps whole c'_def zero_def new_def)
    moreover have "heap_ok c' (as @ [b] @ bs) \<and> used c' (as @ [b] @ bs) = used c as @ [a] @ used c bs \<and>
      free_cells c' (as @ [b] @ bs) = free_cells c (as @ b # bs) - {a..<a + ?k} \<and> m_ids c' a = ?ids a \<and>
      (\<forall>h\<in>set (used c (as @ b # bs)). same_block c c' h) \<and>
      m_freeList c' = m_freeList c \<and> m_payloadStart c' = m_payloadStart c \<and> m_payloadEnd c' = m_payloadEnd c"
    proof (rule carve_heap [where ids = ?ids and lnk = ?lnk and rest = "[]" and k = ?k, OF ok b])
      show "m_nextNode ?lnk x = m_nextNode ?st x \<and> m_prevNode ?lnk x = m_prevNode ?st x"
        if "x \<notin> cells c b" "x \<notin> set (Head ?l # filter (is_free c) (as @ b # bs) @ [Tail ?l])" for x
        using frame [OF that(2)] by simp
      show "?ids x = m_ids c x" if "x \<notin> cells c b" for x using that whole pos by auto
    qed (use whole new pos dll_bypass [OF dll] in \<open>simp_all add: c'_def\<close>)
    ultimately show ?thesis using whole(2) new_def by (intro exI [of _ c'] exI [of _ "[b]"]) simp
  next
    case rear
    let ?ids = "(m_ids c)(b := rest_id, a := new)" and ?lnk = ?st
    define c' where "c' = (if zero then InitializeToZero a (c\<lparr>m_ids := ?ids, m_links := ?lnk\<rparr>) else c\<lparr>m_ids := ?ids, m_links := ?lnk\<rparr>)"
    have "ExtractBlocks fuel dataType flags len c = Some (c', a)"
      unfolding ex_def using rear by (simp add: ex_simps avail c'_def zero_def new_def rest_id_def)
    moreover have "heap_ok c' (as @ [b, a] @ bs) \<and> used c' (as @ [b, a] @ bs) = used c as @ [a] @ used c bs \<and>
      free_cells c' (as @ [b, a] @ bs) = free_cells c (as @ b # bs) - {a..<a + ?k} \<and> m_ids c' a = ?ids a \<and>
      (\<forall>h\<in>set (used c (as @ b # bs)). same_block c c' h) \<and>
      m_freeList c' = m_freeList c \<and> m_payloadStart c' = m_payloadStart c \<and> m_payloadEnd c' = m_payloadEnd c"
    proof (rule carve_heap [where ids = ?ids and lnk = ?lnk and rest = "[b]" and k = ?k, OF ok b])
      show "{a..<a + ?k} \<subseteq> cells c b" "tiles ?ids b [b, a] (b + ?n)"
        using rear pos by (auto simp: new rest)
      show "(\<Union>h\<in>set [b]. {h..<h + extent ?ids h}) = cells c b - {a..<a + ?k}"
        using rear by (auto simp: rest)
      show "?ids x = m_ids c x" if "x \<notin> cells c b" for x using that rear pos by auto
      show "\<not> IsAlive (?ids h)" if "h \<in> set [b]" for h using that rear(4) rest(3) by auto
    qed (use rear(3,4) new rest dll frame in \<open>simp_all add: c'_def\<close>)
    ultimately show ?thesis using new_def by (intro exI [of _ c'] exI [of _ "[b, a]"]) simp
  next
    case front
    let ?r = "b + ?k"
    let ?ids = "(m_ids c)(?r := rest_id, b := new)"
      and ?lnk = "set_prev ?nxt ?r (set_next ?prv ?r (set_prev ?r ?prv (set_next ?r ?nxt ?st)))"
    define c' where "c' = (if zero then InitializeToZero a (c\<lparr>m_ids := ?ids, m_links := ?lnk\<rparr>) else c\<lparr>m_ids := ?ids, m_links := ?lnk\<rparr>)"
    have ex: "ExtractBlocks fuel dataType flags len c = Some (c', a)"
      unfolding ex_def using front by (simp add: ex_simps c'_def zero_def new_def rest_id_def)
    have r: "?r \<in> cells c b" using front by auto
    have "m_payloadStart c \<le> b" "b + ?n \<le> m_payloadEnd c" using tiles_bounds(2) [OF D(1), of b] by auto
    then have "?r \<in> {m_payloadStart c..<m_payloadEnd c}" using r by auto
    with D(3,5,6) have "?r \<noteq> Head ?l" "?r \<noteq> Tail ?l" "?r \<noteq> 0" by auto
    moreover have "?r \<notin> set as \<union> set bs" using tile_separate(2) [OF D(1), of ?r] r by blast
    ultimately have "?r \<noteq> 0" "?r \<notin> set (Head ?l # ?xs @ ?ys @ [Tail ?l])" by auto
    from dll_replace [OF dll this] have list: "dll ?l ?lnk (?xs @ ?r # ?ys)" .
    have "heap_ok c' (as @ [b, ?r] @ bs) \<and> used c' (as @ [b, ?r] @ bs) = used c as @ [a] @ used c bs \<and>
      free_cells c' (as @ [b, ?r] @ bs) = free_cells c (as @ b # bs) - {a..<a + ?k} \<and> m_ids c' a = ?ids a \<and>
      (\<forall>h\<in>set (used c (as @ b # bs)). same_block c c' h) \<and>
      m_freeList c' = m_freeList c \<and> m_payloadStart c' = m_payloadStart c \<and> m_payloadEnd c' = m_payloadEnd c"
    proof (rule carve_heap [where ids = ?ids and lnk = ?lnk and rest = "[?r]" and k = ?k, OF ok b])
      show "{a..<a + ?k} \<subseteq> cells c b" "tiles ?ids b [b, ?r] (b + ?n)"
        using front pos by (auto simp: new rest)
      show "(\<Union>h\<in>set [?r]. {h..<h + extent ?ids h}) = cells c b - {a..<a + ?k}"
        using front by (auto simp: rest)
      show "?ids x = m_ids c x" if "x \<notin> cells c b" for x using that front pos by auto
      show "m_nextNode ?lnk x = m_nextNode ?st x \<and> m_prevNode ?lnk x = m_prevNode ?st x"
        if "x \<notin> cells c b" "x \<notin> set (Head ?l # filter (is_free c) (as @ b # bs) @ [Tail ?l])" for x
        using frame [OF that(2)] that(1) r by auto
    qed (use front(3,4) new rest list in \<open>simp_all add: c'_def\<close>)
    with ex front(3) new_def show ?thesis by (intro exI [of _ c'] exI [of _ "[b, ?r]"]) simp
  qed
qed

section \<open>Recovery\<close>

text \<open>A list that is open at its end.\<close>

fun chain :: "Links \<Rightarrow> nat \<Rightarrow> nat list \<Rightarrow> bool" where
  "chain st p [] \<longleftrightarrow> True"
| "chain st p (x # xs) \<longleftrightarrow> m_nextNode st p = x \<and> m_prevNode st x = p \<and> chain st x xs"

lemma chain_close:
  assumes "chain st p xs" "distinct (p # xs)" "q \<notin> set (p # xs)"
  shows "linked (set_next q 0 (set_prev q (last (p # xs)) (set_next (last (p # xs)) q st))) p xs q"
proof -
  have open_end: "chain st p xs \<Longrightarrow> linked st' p xs q" if "distinct (p # xs)" "q \<notin> set (p # xs)"
    "\<And>x. x \<noteq> last (p # xs) \<Longrightarrow> x \<noteq> q \<Longrightarrow> m_nextNode st' x = m_nextNode st x"
    "\<And>x. x \<noteq> q \<Longrightarrow> m_prevNode st' x = m_prevNode st x"
    "m_nextNode st' (last (p # xs)) = q" "m_prevNode st' q = last (p # xs)" for st'
    using that
  proof (induction xs arbitrary: p)
    case (Cons x xs)
    have "last (x # xs) \<noteq> p" using Cons.prems(2) last_in_set [of "x # xs"] by auto
    then have "m_nextNode st' p = x" "m_prevNode st' x = p" using Cons.prems by auto
    moreover have "linked st' x xs q" by (rule Cons.IH) (use Cons.prems in auto)
    ultimately show ?case by simp
  qed simp
  have "last (p # xs) \<in> set (p # xs)" by (rule last_in_set) simp
  with assms(3) have "last (p # xs) \<noteq> q" by metis
  then show ?thesis by (intro open_end assms) (auto simp del: last.simps)
qed

abbreviation dead :: "HeapCluster \<Rightarrow> nat \<Rightarrow> bool" where
  "dead c h \<equiv> \<not> IsAlive (m_ids c h)"

lemma dead_run_spec:
  assumes "tiles (m_ids c) p (h # hs) (m_payloadEnd c)" "length hs < fuel"
  shows "\<exists>nxt. dead_run fuel c h tot = Some (nxt, tot + of_nat (nxt - h)) \<and> h + extent (m_ids c) h \<le> nxt \<and>
    tiles (m_ids c) nxt (dropWhile (dead c) hs) (m_payloadEnd c)"
  using assms
proof (induction hs arbitrary: fuel p h tot)
  case Nil
  then obtain f where f: "fuel = Suc f" by (cases fuel) auto
  have "(of_nat (extent (m_ids c) h) :: u32) = ucast (b_size (m_ids c h))" by simp
  with Nil(1) f show ?case by (intro exI [of _ "h + extent (m_ids c) h"]) (auto simp: Let_def)
next
  case (Cons x hs)
  from Cons.prems obtain f where f: "fuel = Suc f" "length hs < f" by (cases fuel) auto
  let ?x = "h + extent (m_ids c) h"
  have t: "tiles (m_ids c) ?x (x # hs) (m_payloadEnd c)" and x: "x = ?x" using Cons.prems(1) by auto
  have lt: "?x < m_payloadEnd c" using tiles_bounds(2) [OF t, of x] x by auto
  show ?case
  proof (cases "IsAlive (m_ids c x)")
    case True
    with f t x lt show ?thesis by (intro exI [of _ ?x]) (simp add: Let_def)
  next
    case False
    from Cons.IH [OF t f(2), of "tot + ucast (b_size (m_ids c h))"] obtain nxt where
      n: "dead_run f c x (tot + ucast (b_size (m_ids c h))) = Some (nxt, tot + ucast (b_size (m_ids c h)) + of_nat (nxt - x))"
      "x + extent (m_ids c) x \<le> nxt" "tiles (m_ids c) nxt (dropWhile (dead c) hs) (m_payloadEnd c)" by blast
    have "dead_run fuel c h tot = dead_run f c x (tot + ucast (b_size (m_ids c h)))"
      using f(1) x lt False by (simp add: Let_def)
    moreover have "nxt - h = extent (m_ids c) h + (nxt - x)" using n(2) x by simp
    then have "ucast (b_size (m_ids c h)) + of_nat (nxt - x) = (of_nat (nxt - h) :: u32)" by simp
    ultimately show ?thesis using n False x by (intro exI [of _ nxt]) (simp add: add.assoc)
  qed
qed

end
