(* ===== verification/HeapRecovery.thy ===== *)
theory HeapRecovery imports HeapCluster begin

text \<open>
  The recovery of the managed heap after a marking, \<^verbatim>\<open>RecoverFromGC\<close> and \<^verbatim>\<open>InsertInOrder\<close> of
  \<^verbatim>\<open>src/CLR/Core/CLR_RT_HeapCluster.cpp\<close>, and what a cluster promises: every request is first
  fit, a recovery leaves exactly the marked blocks, the compaction's insertions merge what touches,
  and over any run the blocks in use never overlap.
\<close>

section \<open>Recovery\<close>

definition aged :: "BlockId \<Rightarrow> BlockId" where
  "aged b = (if IsEvent b then b else MarkDead b)"

lemma aged_simps [simp]: "b_type (aged b) = b_type b" "b_size (aged b) = b_size b"
  by (simp_all add: aged_def)

text \<open>What the recovery leaves of an alive block: everything but its mark.\<close>

definition recovered :: "HeapCluster \<Rightarrow> HeapCluster \<Rightarrow> nat \<Rightarrow> bool" where
  "recovered c c' h \<longleftrightarrow> m_ids c' h = aged (m_ids c h) \<and>
     (\<forall>x\<in>cells c h. (x \<noteq> h \<longrightarrow> m_ids c' x = m_ids c x) \<and>
        m_nextNode (m_links c') x = m_nextNode (m_links c) x \<and> m_prevNode (m_links c') x = m_prevNode (m_links c) x)"

lemma recovered_cong:
  assumes "recovered c c' h" "\<And>x. x \<in> cells c h \<Longrightarrow> m_ids c x = m_ids d x \<and>
      m_nextNode (m_links c) x = m_nextNode (m_links d) x \<and> m_prevNode (m_links c) x = m_prevNode (m_links d) x"
    "0 < extent (m_ids c) h"
  shows "recovered d c' h"
proof -
  have "h \<in> cells c h" using assms(3) by simp
  with assms(2) have "m_ids c h = m_ids d h" by blast
  with assms(1,2) show ?thesis unfolding recovered_def by metis
qed

abbreviation no_neighbours :: "HeapCluster \<Rightarrow> nat list \<Rightarrow> bool" where
  "no_neighbours c hs \<equiv> successively (\<lambda>a b. \<not> (is_free c a \<and> is_free c b)) hs"

text \<open>The header of every free block, as the recovery writes it.\<close>

abbreviation pinned_free :: "HeapCluster \<Rightarrow> nat list \<Rightarrow> bool" where
  "pinned_free c hs \<equiv> \<forall>h\<in>set hs. is_free c h \<longrightarrow> (\<exists>n. m_ids c h = RAW_ID DATATYPE_FREEBLOCK HB_Pinned n)"

definition recovers :: "HeapCluster \<Rightarrow> nat \<Rightarrow> nat \<Rightarrow> nat list \<Rightarrow> HeapCluster \<Rightarrow> nat \<Rightarrow> nat list \<Rightarrow> bool" where
  "recovers c ptr last' hs c' last'' hs' \<longleftrightarrow>
     tiles (m_ids c') ptr hs' (m_payloadEnd c) \<and> last'' = last (last' # filter (is_free c') hs') \<and>
     chain (m_links c') last' (filter (is_free c') hs') \<and> no_neighbours c' hs' \<and>
     used c' hs' = filter (\<lambda>h. IsAlive (m_ids c h)) hs \<and> (\<forall>h\<in>set (used c' hs'). recovered c c' h) \<and>
     (\<forall>h\<in>set hs'. is_free c' h \<longrightarrow> dead c' h) \<and> pinned_free c' hs' \<and>
     (\<forall>x. x \<notin> {ptr..<m_payloadEnd c} \<longrightarrow> m_ids c' x = m_ids c x \<and> m_prevNode (m_links c') x = m_prevNode (m_links c) x \<and>
        (x \<noteq> last' \<longrightarrow> m_nextNode (m_links c') x = m_nextNode (m_links c) x)) \<and>
     m_freeList c' = m_freeList c \<and> m_payloadStart c' = m_payloadStart c \<and> m_payloadEnd c' = m_payloadEnd c"

lemma recovers_end: "recovers c (m_payloadEnd c) last' [] c last' []"
  by (simp add: recovers_def used_def)

lemma recovers_alive:
  assumes "IsAlive (m_ids c h)" "0 < extent (m_ids c) h" "\<not> is_free c h" "last' \<notin> {h..<m_payloadEnd c}"
    "tiles (m_ids c) (h + extent (m_ids c) h) hs (m_payloadEnd c)"
    "recovers (SetDataId h (aged (m_ids c h)) c) (h + extent (m_ids c) h) last' hs c' last'' hs'"
  shows "recovers c h last' (h # hs) c' last'' (h # hs')"
proof -
  let ?c = "SetDataId h (aged (m_ids c h)) c" and ?n = "h + extent (m_ids c) h" and ?e = "m_payloadEnd c"
  note R = assms(6) [unfolded recovers_def set_simps]
  have le: "?n \<le> ?e" by (rule tiles_bounds(1) [OF assms(5)])
  have frame: "m_ids c' x = m_ids ?c x \<and> m_prevNode (m_links c') x = m_prevNode (m_links c) x \<and>
      (x \<noteq> last' \<longrightarrow> m_nextNode (m_links c') x = m_nextNode (m_links c) x)" if "x \<notin> {?n..<?e}" for x
    using R that by simp
  have id: "m_ids c' h = aged (m_ids c h)" using frame [of h] assms(2) by simp
  have in_hs: "x \<noteq> h \<and> {x..<x + extent (m_ids c) x} \<subseteq> {?n..<?e} \<and> 0 < extent (m_ids c) x" if "x \<in> set hs" for x
    using tiles_bounds(2) [OF assms(5) that] assms(2) by auto
  have alive: "filter (\<lambda>x. IsAlive (m_ids ?c x)) hs = filter (\<lambda>x. IsAlive (m_ids c x)) hs"
    using in_hs by (auto intro!: filter_cong)
  have "recovered c c' x" if "x \<in> set (used c' (h # hs'))" for x
  proof (cases "x = h")
    case True
    have "h \<noteq> last'" if "h < ?e" using assms(4) that by auto
    have "m_ids c' y = m_ids c y \<and> m_nextNode (m_links c') y = m_nextNode (m_links c) y \<and> m_prevNode (m_links c') y = m_prevNode (m_links c) y"
      if "y \<in> cells c h" "y \<noteq> h" for y
      using frame [of y] that assms(4) le by auto
    moreover have "m_nextNode (m_links c') h = m_nextNode (m_links c) h \<and> m_prevNode (m_links c') h = m_prevNode (m_links c) h"
      using frame [of h] assms(2,4) le by auto
    ultimately show ?thesis unfolding True recovered_def using id by metis
  next
    case False
    then have x: "x \<in> set (used c' hs')" using that by (auto simp: used_def split: if_splits)
    then have "recovered ?c c' x" "x \<in> set hs" using R by auto
    from recovered_cong [OF this(1), of c] in_hs [OF this(2)] show ?thesis by fastforce
  qed
  moreover have "no_neighbours c' (h # hs')"
    using R id assms(3) by (cases hs') auto
  moreover have "tiles (m_ids c') h (h # hs') ?e" using R id assms(2) by simp
  moreover have "used c' (h # hs') = filter (\<lambda>x. IsAlive (m_ids c x)) (h # hs)"
    using R id assms(1,3) alive by (simp add: used_def)
  moreover have "\<forall>x. x \<notin> {h..<?e} \<longrightarrow> m_ids c' x = m_ids c x \<and> m_prevNode (m_links c') x = m_prevNode (m_links c) x \<and>
      (x \<noteq> last' \<longrightarrow> m_nextNode (m_links c') x = m_nextNode (m_links c) x)"
  proof (intro allI impI)
    fix x assume x: "x \<notin> {h..<?e}"
    have "h < ?e" using le assms(2) by simp
    with x have "x \<noteq> h" "x \<notin> {?n..<?e}" by auto
    with frame [of x] show "m_ids c' x = m_ids c x \<and> m_prevNode (m_links c') x = m_prevNode (m_links c) x \<and>
      (x \<noteq> last' \<longrightarrow> m_nextNode (m_links c') x = m_nextNode (m_links c) x)" by simp
  qed
  ultimately show ?thesis using R id assms(3) unfolding recovers_def by simp
qed

lemma recovers_dead:
  assumes "h < nxt" "nxt \<le> m_payloadEnd c" "nxt - h < 65536" "last' \<notin> {h..<m_payloadEnd c}"
    "tiles (m_ids c) nxt hs (m_payloadEnd c)" "hs \<noteq> [] \<Longrightarrow> IsAlive (m_ids c (hd hs))"
    "\<And>x. x \<in> set hs \<Longrightarrow> IsAlive (m_ids c x) \<Longrightarrow> \<not> is_free c x"
    "recovers (SetPrev h last' (SetNext last' h (SetDataId h (RAW_ID DATATYPE_FREEBLOCK HB_Pinned (of_nat (nxt - h))) c))) nxt h hs
      c' last'' hs'"
    "filter (\<lambda>x. IsAlive (m_ids c x)) all = filter (\<lambda>x. IsAlive (m_ids c x)) hs"
  shows "recovers c h last' all c' last'' (h # hs')"
proof -
  let ?c = "SetPrev h last' (SetNext last' h (SetDataId h (RAW_ID DATATYPE_FREEBLOCK HB_Pinned (of_nat (nxt - h))) c))"
  let ?e = "m_payloadEnd c"
  note R = assms(8) [unfolded recovers_def set_simps]
  have frame: "m_ids c' x = m_ids ?c x \<and> m_prevNode (m_links c') x = m_prevNode (m_links ?c) x \<and>
      (x \<noteq> h \<longrightarrow> m_nextNode (m_links c') x = m_nextNode (m_links ?c) x)" if "x \<notin> {nxt..<?e}" for x
    using R that by (simp del: link_simps)
  have id: "m_ids c' h = RAW_ID DATATYPE_FREEBLOCK HB_Pinned (of_nat (nxt - h))" using frame [of h] assms(1) by simp
  have ext: "extent (m_ids c') h = nxt - h"
    using assms(3) by (simp add: id unsigned_ucast_eq take_bit_nat_eq_self unat_of_nat)
  have in_hs: "x \<noteq> h \<and> {x..<x + extent (m_ids c) x} \<subseteq> {nxt..<?e} \<and> 0 < extent (m_ids c) x" if "x \<in> set hs" for x
    using tiles_bounds(2) [OF assms(5) that] assms(1) by auto
  have alive: "filter (\<lambda>x. IsAlive (m_ids ?c x)) hs = filter (\<lambda>x. IsAlive (m_ids c x)) hs"
    using in_hs by (auto intro!: filter_cong)
  have used: "used c' (h # hs') = filter (\<lambda>x. IsAlive (m_ids c x)) hs" using R alive id by (simp add: used_def)
  have last: "last' \<noteq> h" using assms(1,2,4) by auto
  have "recovered c c' x" if "x \<in> set (used c' (h # hs'))" for x
  proof -
    have "x \<in> set (used c' hs')" using that id by (auto simp: used_def)
    moreover have "x \<in> set hs" using that used by auto
    ultimately have x: "x \<in> set hs" "x \<in> set (used c' hs')" by simp_all
    then have r: "recovered ?c c' x" using R by auto
    have "y \<noteq> h \<and> y \<noteq> last'" if "y \<in> cells c x" for y using in_hs [OF x(1)] that assms(1,4) by auto
    with in_hs [OF x(1)] show ?thesis by (intro recovered_cong [OF r]) auto
  qed
  moreover have "no_neighbours c' (h # hs')"
  proof (cases hs')
    case (Cons y ys)
    with R have y: "y = nxt" "nxt < ?e" using tiles_bounds(2) [of "m_ids c'" nxt hs' ?e y] by auto
    with assms(5) have "hs \<noteq> []" "hd hs = nxt" by (cases hs; auto)+
    with assms(6) have "nxt \<in> set (filter (\<lambda>x. IsAlive (m_ids c x)) hs)" by (cases hs) auto
    then have "nxt \<in> set (used c' (h # hs'))" using used by simp
    then have "\<not> is_free c' nxt" by (auto simp: used_def split: if_splits)
    with y Cons R show ?thesis by simp
  qed simp
  moreover have "tiles (m_ids c') h (h # hs') ?e" using R ext assms(1) by simp
  moreover have "chain (m_links c') last' (filter (is_free c') (h # hs'))"
  proof -
    have "last' \<notin> {nxt..<?e}" "h \<notin> {nxt..<?e}" using assms(1,4) by auto
    with frame [of last'] frame [of h] last have "m_nextNode (m_links c') last' = h" "m_prevNode (m_links c') h = last'" by simp_all
    with R id show ?thesis by simp
  qed
  moreover have "\<forall>x. x \<notin> {h..<?e} \<longrightarrow> m_ids c' x = m_ids c x \<and> m_prevNode (m_links c') x = m_prevNode (m_links c) x \<and>
      (x \<noteq> last' \<longrightarrow> m_nextNode (m_links c') x = m_nextNode (m_links c) x)"
  proof (intro allI impI)
    fix x assume x: "x \<notin> {h..<?e}"
    with assms(1,2) have "x \<noteq> h" "x \<notin> {nxt..<?e}" by auto
    with frame [of x] show "m_ids c' x = m_ids c x \<and> m_prevNode (m_links c') x = m_prevNode (m_links c) x \<and>
      (x \<noteq> last' \<longrightarrow> m_nextNode (m_links c') x = m_nextNode (m_links c) x)" by simp
  qed
  moreover have "pinned_free c' (h # hs')"
  proof -
    have "pinned_free c' hs'" using R by blast
    then show ?thesis using id by (metis set_ConsD)
  qed
  ultimately show ?thesis using R id used assms(9) unfolding recovers_def by (simp del: RAW_ID_simps) simp
qed

lemma recover_loop_spec:
  assumes "tiles (m_ids c) ptr hs (m_payloadEnd c)" "m_payloadEnd c - ptr < 65536" "length hs < fuel"
    "last' \<notin> {ptr..<m_payloadEnd c}" "\<And>h. h \<in> set hs \<Longrightarrow> IsAlive (m_ids c h) \<Longrightarrow> \<not> is_free c h"
  shows "\<exists>c' last'' hs'. recover_loop fuel ptr last' c = Some (c', last'') \<and> recovers c ptr last' hs c' last'' hs'"
  using assms
proof (induction fuel arbitrary: ptr last' c hs)
  case (Suc fuel)
  let ?e = "m_payloadEnd c"
  show ?case
  proof (cases hs)
    case Nil
    with Suc.prems(1) recovers_end [of c last'] show ?thesis by auto
  next
    case (Cons h rest)
    have h: "h = ptr" "0 < extent (m_ids c) h" and t: "tiles (m_ids c) (h + extent (m_ids c) h) rest ?e"
      using Suc.prems(1) Cons by auto
    have le: "h + extent (m_ids c) h \<le> ?e" by (rule tiles_bounds(1) [OF t])
    then have lt: "ptr < ?e" using h by simp
    have rest: "length rest < fuel" using Suc.prems(3) Cons by simp
    have notin: "x \<noteq> h" if "x \<in> set rest" for x using tiles_bounds(2) [OF t that] h(2) by auto
    show ?thesis
    proof (cases "IsAlive (m_ids c h)")
      case True
      let ?c = "SetDataId h (aged (m_ids c h)) c"
      have "tiles (m_ids ?c) (h + extent (m_ids c) h) rest (m_payloadEnd ?c)"
        using t notin tiles_cong [of rest "m_ids ?c" "m_ids c"] by auto
      then obtain c' last'' hs' where IH: "recover_loop fuel (h + extent (m_ids c) h) last' ?c = Some (c', last'')"
        "recovers ?c (h + extent (m_ids c) h) last' rest c' last'' hs'"
        using Suc.IH [of ?c "h + extent (m_ids c) h" rest last'] Suc.prems(2,4,5) Cons h rest notin by fastforce
      have "recover_loop (Suc fuel) ptr last' c = Some (c', last'')"
      proof (cases "IsEvent (m_ids c h)")
        case True
        then have "?c = c" by (cases c) (simp add: SetDataId_def aged_def)
        with IH(1) True \<open>IsAlive (m_ids c h)\<close> lt h(1) show ?thesis by simp
      next
        case False
        with IH(1) \<open>IsAlive (m_ids c h)\<close> lt h(1) show ?thesis by (simp add: aged_def Let_def)
      qed
      moreover have "recovers c h last' (h # rest) c' last'' (h # hs')"
        by (rule recovers_alive [OF True h(2) _ _ t IH(2)]) (use Suc.prems(4,5) Cons h True in auto)
      ultimately show ?thesis using Cons h by auto
    next
      case False
      have "tiles (m_ids c) ptr (h # rest) ?e" using Suc.prems(1) unfolding Cons .
      from dead_run_spec [OF this less_SucI [OF rest], of 0] obtain nxt where
        run: "dead_run (Suc fuel) c h 0 = Some (nxt, of_nat (nxt - h))" and nxt: "h + extent (m_ids c) h \<le> nxt"
        "tiles (m_ids c) nxt (dropWhile (dead c) rest) ?e" by auto
      let ?rs = "dropWhile (dead c) rest"
      let ?c = "SetPrev h last' (SetNext last' h (SetDataId h (RAW_ID DATATYPE_FREEBLOCK HB_Pinned (of_nat (nxt - h))) c))"
      have sub: "x \<in> set rest" if "x \<in> set ?rs" for x using that set_dropWhileD by fast
      have "tiles (m_ids ?c) nxt ?rs (m_payloadEnd ?c)"
        using nxt(2) notin sub tiles_cong [of ?rs "m_ids ?c" "m_ids c"] by auto
      moreover have "length ?rs < fuel" using rest length_dropWhile_le [of "dead c" rest] by simp
      moreover have "nxt \<le> ?e" by (rule tiles_bounds(1) [OF nxt(2)])
      ultimately obtain c' last'' hs' where IH: "recover_loop fuel nxt h ?c = Some (c', last'')" "recovers ?c nxt h ?rs c' last'' hs'"
        using Suc.IH [of ?c nxt ?rs h] Suc.prems(2,5) Cons h nxt(1) notin sub by fastforce
      have "recover_loop (Suc fuel) ptr last' c = Some (c', last'')"
        using False lt h(1) run IH(1) by simp
      moreover have "recovers c h last' (h # rest) c' last'' (h # hs')"
      proof (rule recovers_dead [OF _ \<open>nxt \<le> ?e\<close> _ _ nxt(2) _ _ IH(2)])
        show "filter (\<lambda>x. IsAlive (m_ids c x)) (h # rest) = filter (\<lambda>x. IsAlive (m_ids c x)) ?rs"
          using False takeWhile_dropWhile_id [of "dead c" rest] set_takeWhileD
          by (metis (mono_tags, lifting) filter.simps(2) filter_False filter_append append_Nil)
        show "IsAlive (m_ids c (hd ?rs))" if "?rs \<noteq> []" using that hd_dropWhile by blast
      qed (use Suc.prems(2,4,5) Cons h nxt(1) \<open>nxt \<le> ?e\<close> sub in auto)
      ultimately show ?thesis using Cons h by auto
    qed
  qed
qed simp

text \<open>The recovery does not read the free list, only its ends.\<close>

definition frame_ok :: "HeapCluster \<Rightarrow> nat list \<Rightarrow> bool" where
  "frame_ok c hs \<longleftrightarrow>
     tiles (m_ids c) (m_payloadStart c) hs (m_payloadEnd c) \<and> 0 < m_payloadStart c \<and>
     m_payloadEnd c - m_payloadStart c < 65536 \<and>
     Head (m_freeList c) \<notin> {m_payloadStart c..<m_payloadEnd c} \<and> Tail (m_freeList c) \<notin> {m_payloadStart c..<m_payloadEnd c} \<and>
     Head (m_freeList c) \<noteq> 0 \<and> Tail (m_freeList c) \<noteq> 0 \<and> Head (m_freeList c) \<noteq> Tail (m_freeList c) \<and>
     (\<forall>h\<in>set hs. is_free c h \<longrightarrow> dead c h)"

lemma frame_okD:
  assumes "frame_ok c hs"
  shows "tiles (m_ids c) (m_payloadStart c) hs (m_payloadEnd c)" "0 < m_payloadStart c"
    "m_payloadEnd c - m_payloadStart c < 65536"
    "Head (m_freeList c) \<notin> {m_payloadStart c..<m_payloadEnd c}" "Tail (m_freeList c) \<notin> {m_payloadStart c..<m_payloadEnd c}"
    "\<And>h. h \<in> set hs \<Longrightarrow> is_free c h \<Longrightarrow> dead c h"
    "Head (m_freeList c) \<noteq> 0 \<and> Tail (m_freeList c) \<noteq> 0 \<and> Head (m_freeList c) \<noteq> Tail (m_freeList c)"
  using assms by (auto simp: frame_ok_def)

lemma heap_frame: "heap_ok c hs \<Longrightarrow> frame_ok c hs"
  by (auto simp: heap_ok_def frame_ok_def dll_def)

lemma RecoverFromGC_ok:
  assumes "frame_ok c hs" "length hs < fuel"
  shows "\<exists>c' hs'. RecoverFromGC fuel c = Some c' \<and> heap_ok c' hs' \<and> no_neighbours c' hs' \<and>
    used c' hs' = filter (\<lambda>h. IsAlive (m_ids c h)) hs \<and> (\<forall>h\<in>set (used c' hs'). recovered c c' h) \<and>
    m_freeList c' = m_freeList c \<and> m_payloadStart c' = m_payloadStart c \<and> m_payloadEnd c' = m_payloadEnd c \<and> pinned_free c' hs'"
proof -
  note D = frame_okD [OF assms(1)]
  let ?H = "Head (m_freeList c)" and ?T = "Tail (m_freeList c)" and ?s = "m_payloadStart c" and ?e = "m_payloadEnd c"
  let ?c = "SetPrev ?H 0 c"
  have HT: "?H \<noteq> 0" "?T \<noteq> 0" "?H \<noteq> ?T" using D(7) by blast+
  obtain c1 last'' hs' where loop: "recover_loop fuel ?s ?H ?c = Some (c1, last'')" "recovers ?c ?s ?H hs c1 last'' hs'"
    using recover_loop_spec [of ?c ?s hs fuel ?H] D assms(2) by fastforce
  let ?fr = "filter (is_free c1) hs'"
  let ?c' = "SetNext ?T 0 (SetPrev ?T last'' (SetNext last'' ?T c1))"
  note R = loop(2) [unfolded recovers_def set_simps]
  have bounds: "?s \<le> h \<and> h < ?e \<and> cells c1 h \<subseteq> {?s..<?e}" if "h \<in> set hs'" for h
    using tiles_bounds(2) [of "m_ids c1" ?s hs' ?e h] R that by auto
  have dist: "distinct (?H # ?fr @ [?T])" "0 \<notin> set (?H # ?fr @ [?T])"
  proof -
    have "x \<in> {?s..<?e}" if "x \<in> set ?fr" for x using bounds [of x] that by auto
    with D(2,4,5) have "?H \<notin> set ?fr" "?T \<notin> set ?fr" "0 \<notin> set ?fr" by force+
    moreover have "distinct ?fr" using tiles_apart(2) [of "m_ids c1" ?s hs' ?e] R by simp
    ultimately show "distinct (?H # ?fr @ [?T])" "0 \<notin> set (?H # ?fr @ [?T])" using HT by auto
  qed
  have last: "last'' = last (?H # ?fr)" using R by blast
  then have last_in: "last'' \<in> set (?H # ?fr)" by (metis last_in_set list.distinct(1))
  have out: "?H \<notin> {?s..<?e}" "?T \<notin> {?s..<?e}" using D(4,5) by auto
  have "linked (m_links ?c') ?H ?fr ?T"
    unfolding set_simps last by (rule chain_close) (use R dist in auto)
  moreover have "m_prevNode (m_links ?c') ?H = 0"
    using R out HT by (simp add: last [symmetric])
  ultimately have dll: "dll (m_freeList c) (m_links ?c') ?fr" using dist by (simp add: dll_def)
  have rec: "recovered c ?c' h" if h: "h \<in> set (used c1 hs')" for h
  proof -
    have hs': "h \<in> set hs'" "\<not> is_free c1 h" using h by (simp_all add: used_def)
    have r: "recovered ?c c1 h" using R h by blast
    have ext: "extent (m_ids c1) h = extent (m_ids c) h" using r by (simp add: recovered_def)
    have "x \<noteq> ?H \<and> x \<noteq> ?T \<and> x \<noteq> last''" if x: "x \<in> cells c h" for x
    proof -
      have x1: "x \<in> cells c1 h" using x ext by simp
      have "x \<noteq> last''"
      proof (cases "last'' \<in> set ?fr")
        case True
        then have "last'' \<in> set hs'" "last'' \<noteq> h" using hs' by auto
        with R hs'(1) x1 tiles_disjoint [of "m_ids c1" ?s hs' ?e last'' h] tile_in [of "m_ids c1" ?s hs' ?e last'']
        show ?thesis by fastforce
      next
        case False
        with last_in have "last'' = ?H" by auto
        with bounds [OF hs'(1)] x1 out show ?thesis by blast
      qed
      moreover have "x \<in> {?s..<?e}" using bounds [OF hs'(1)] x1 by blast
      ultimately show ?thesis using out by metis
    qed
    with r show ?thesis unfolding recovered_def by simp
  qed
  have ex: "RecoverFromGC fuel c = Some ?c'" by (simp add: RecoverFromGC_def Let_def loop(1))
  have fields: "m_freeList ?c' = m_freeList c" "m_payloadStart ?c' = ?s" "m_payloadEnd ?c' = ?e" "m_ids ?c' = m_ids c1"
    using R by simp_all
  have "heap_ok ?c' hs'"
    unfolding heap_ok_def fields using R dll D(2-5) by blast
  moreover have "used ?c' hs' = used c1 hs'" by (simp add: used_def)
  ultimately show ?thesis using R ex rec fields by (intro exI [of _ ?c'] exI [of _ hs']) simp
qed

section \<open>Insertion in order\<close>

section \<open>Insertion in order\<close>

abbreviation apart :: "HeapCluster \<Rightarrow> nat list \<Rightarrow> bool" where
  "apart c fs \<equiv> sorted_wrt (\<lambda>a b. a + extent (m_ids c) a \<le> b) fs"

abbreviation covered :: "HeapCluster \<Rightarrow> nat list \<Rightarrow> nat set" where
  "covered c fs \<equiv> (\<Union>f\<in>set fs. cells c f)"

text \<open>The free list as the compaction sees it: blocks in order, apart from each other, inside \<open>s\<close> to \<open>e\<close>.\<close>

definition free_list :: "HeapCluster \<Rightarrow> nat list \<Rightarrow> bool" where
  "free_list c fs \<longleftrightarrow> dll (m_freeList c) (m_links c) fs \<and> apart c fs \<and> (\<forall>f\<in>set fs. 0 < extent (m_ids c) f) \<and>
     covered c fs \<subseteq> {m_payloadStart c..<m_payloadEnd c}"

lemma exI4: "P a b c d \<Longrightarrow> \<exists>a b c d. P a b c d"
  by blast

lemma dll_ends:
  assumes "dll l st (xs @ ys)"
  shows "m_nextNode st (hd (ys @ [Tail l])) = 0 \<longleftrightarrow> ys = []" "m_prevNode st (last (Head l # xs)) = 0 \<longleftrightarrow> xs = []"
proof -
  show "m_nextNode st (hd (ys @ [Tail l])) = 0 \<longleftrightarrow> ys = []"
  proof (cases ys)
    case (Cons y zs)
    with dll_neighbours(2,6) [of l st xs y zs] assms show ?thesis by simp
  qed (use assms in \<open>simp add: dll_def\<close>)
  show "m_prevNode st (last (Head l # xs)) = 0 \<longleftrightarrow> xs = []"
  proof (cases xs rule: rev_cases)
    case (snoc us u)
    with dll_neighbours(1,5) [of l st us u ys] assms show ?thesis by simp
  qed (use assms in \<open>simp add: dll_def\<close>)
qed

lemma find_after_list:
  assumes "linked lnk p xs q" "m_nextNode lnk q = 0" "0 \<notin> set (xs @ [q])" "length xs < fuel"
  shows "find_after fuel lnk node (hd (xs @ [q])) = Some (hd (dropWhile (\<lambda>x. x \<le> node) xs @ [q]))"
  using assms
proof (induction xs arbitrary: p fuel)
  case Nil
  then show ?case by (cases fuel) auto
next
  case (Cons x xs)
  obtain f where f: "fuel = Suc f" using Cons.prems(4) by (cases fuel) auto
  have l: "linked lnk x xs q" using Cons.prems(1) by simp
  have "m_nextNode lnk x = hd (xs @ [q])" by (rule linked_hd(1) [OF l])
  moreover have "hd (xs @ [q]) \<noteq> 0" using Cons.prems(3) by (cases xs) auto
  ultimately show ?case using Cons.IH [OF l] Cons.prems f by (simp add: not_le)
qed

lemma dll_clear:
  assumes "dll l st xs" "n \<notin> set (Head l # xs @ [Tail l])"
  shows "dll l (set_prev n 0 (set_next n 0 st)) xs" "free_node (set_prev n 0 (set_next n 0 st)) n"
  using assms by (auto simp: free_node_def intro: dll_cong)

text \<open>Each step writes the links of the nodes of the list only.\<close>

definition only_links :: "nat set \<Rightarrow> Links \<Rightarrow> Links \<Rightarrow> bool" where
  "only_links S st st' \<longleftrightarrow> (\<forall>x. x \<notin> S \<longrightarrow> m_nextNode st' x = m_nextNode st x \<and> m_prevNode st' x = m_prevNode st x)"

lemma only_links_refl [simp]: "only_links S st st" by (simp add: only_links_def)

lemma only_links_trans: "only_links S st st' \<Longrightarrow> only_links S st' st'' \<Longrightarrow> only_links S st st''" by (simp add: only_links_def)

lemma only_links_mono: "only_links S st st' \<Longrightarrow> S \<subseteq> T \<Longrightarrow> only_links T st st'" by (auto simp: only_links_def)

lemma unlink_only: "dll l st (xs @ n # ys) \<Longrightarrow> only_links (set (Head l # xs @ n # ys @ [Tail l])) st (Unlink n st)"
  using dll_unlink_frame by (simp add: only_links_def)

text \<open>The new node is in the list; the block behind it and the one before it are swallowed when they touch it.\<close>

abbreviation spread :: "HeapCluster \<Rightarrow> nat list \<Rightarrow> bool" where
  "spread c fs \<equiv> sorted_wrt (\<lambda>a b. a + extent (m_ids c) a < b) fs"

lemma unat_extent: "unat (ucast (w :: u16) :: u32) = unat w"
  using unat_u16_less [of w] by (simp add: unsigned_ucast_eq take_bit_nat_eq_self)

lemma coalesce_next_spec:
  assumes dll: "dll (m_freeList c) st (xs @ node # ys)"
    and ys: "apart c ys" "\<forall>y\<in>set ys. node + unat size' \<le> y \<and> y + extent (m_ids c) y \<le> e" and e: "node + unat size' \<le> e" "e - node < 65536"
  shows "\<exists>lnk size2 mid ys2. coalesce_next node size' (c\<lparr>m_links := st\<rparr>) = (c\<lparr>m_links := lnk\<rparr>, size2) \<and> ys = mid @ ys2 \<and>
    dll (m_freeList c) lnk (xs @ node # ys2) \<and> unat size' \<le> unat size2 \<and> node + unat size2 \<le> e \<and>
    {node..<node + unat size2} = {node..<node + unat size'} \<union> covered c mid \<and>
    (\<forall>y\<in>set ys2. node + unat size2 \<le> y) \<and> (spread c ys \<longrightarrow> (\<forall>y\<in>set ys2. node + unat size2 < y)) \<and>
    only_links (set (Head (m_freeList c) # xs @ node # ys @ [Tail (m_freeList c)])) st lnk"
proof -
  let ?l = "m_freeList c" and ?st = st
  have nx: "m_nextNode ?st node = hd (ys @ [Tail ?l])" by (rule dll_neighbours(2) [OF dll])
  have z: "m_nextNode ?st (hd (ys @ [Tail ?l])) = 0 \<longleftrightarrow> ys = []" using dll_ends(1) [of ?l ?st "xs @ [node]" ys] dll by simp
  show ?thesis
  proof (cases "\<exists>y zs. ys = y # zs \<and> node + unat size' = y")
    case True
    then obtain y zs where y: "ys = y # zs" "y = node + unat size'" by blast
    let ?m = "extent (m_ids c) y" and ?size = "size' + ucast (b_size (m_ids c y))"
    have le: "y + ?m \<le> e" using ys(2) y by simp
    then have "unat ?size = unat size' + ?m" using e y(2) by (simp add: unat_word_ariths unat_extent)
    then have sz: "node + unat ?size = y + ?m" "unat size' \<le> unat ?size" using y(2) by simp_all
    have "coalesce_next node size' (c\<lparr>m_links := st\<rparr>) = (c\<lparr>m_links := Unlink y ?st\<rparr>, ?size)"
      using nx z y by (simp add: coalesce_next_def Let_def)
    moreover have "dll ?l (Unlink y ?st) (xs @ node # zs)"
      using dll_unlink(1) [of ?l ?st "xs @ [node]" y zs] dll y(1) by simp
    moreover have "{node..<node + unat ?size} = {node..<node + unat size'} \<union> covered c [y]"
      unfolding sz(1) using y(2) by auto
    moreover have "\<forall>z\<in>set zs. node + unat ?size \<le> z" "spread c ys \<longrightarrow> (\<forall>z\<in>set zs. node + unat ?size < z)"
      unfolding sz(1) using ys(1) y(1) by simp_all
    moreover have "only_links (set (Head ?l # xs @ node # ys @ [Tail ?l])) st (Unlink y ?st)"
      using unlink_only [of ?l ?st "xs @ [node]" y zs] dll y(1) by simp
    ultimately show ?thesis using sz le y(1) by (intro exI4 [of _ "Unlink y ?st" ?size "[y]" zs]) simp
  next
    case False
    have "node + unat size' < y" if y: "y \<in> set ys" for y
    proof -
      obtain w ws where w: "ys = w # ws" using y by (cases ys) auto
      have "w \<le> y" using ys(1) y by (auto simp: w intro: add_leD1)
      moreover have "node + unat size' \<le> w" "node + unat size' \<noteq> w" using ys(2) False w by auto
      ultimately show ?thesis by simp
    qed
    moreover have "coalesce_next node size' (c\<lparr>m_links := st\<rparr>) = (c\<lparr>m_links := ?st\<rparr>, size')"
      using nx z False by (cases ys) (auto simp: coalesce_next_def Let_def)
    ultimately show ?thesis using dll e by (intro exI4 [of _ ?st size' "[]" ys]) (auto simp: less_imp_le)
  qed
qed

lemma coalesce_prev_spec:
  assumes dll: "dll (m_freeList c) st (xs @ node # ys)"
    and xs: "apart c xs" "\<forall>x\<in>set xs. s \<le> x \<and> x + extent (m_ids c) x \<le> node \<and> 0 < extent (m_ids c) x"
    and e: "s \<le> node" "0 < unat size'" "node + unat size' - s < 65536"
  shows "\<exists>lnk size2 us mid r. coalesce_prev node size' (c\<lparr>m_links := st\<rparr>) = (c\<lparr>m_links := lnk\<rparr>, size2, r) \<and> xs = us @ mid \<and>
    dll (m_freeList c) lnk (us @ r # ys) \<and> r + unat size2 = node + unat size' \<and> s \<le> r \<and> r \<le> node \<and> unat size2 < 65536 \<and>
    {r..<r + unat size2} = covered c mid \<union> {node..<node + unat size'} \<and>
    (\<forall>x\<in>set us. x + extent (m_ids c) x \<le> r) \<and> (spread c xs \<longrightarrow> (\<forall>x\<in>set us. x + extent (m_ids c) x < r)) \<and>
    only_links (set (Head (m_freeList c) # xs @ node # ys @ [Tail (m_freeList c)])) st lnk \<and> (r = node \<or> r \<in> set xs)"
proof -
  let ?l = "m_freeList c" and ?st = st
  have pv: "m_prevNode ?st node = last (Head ?l # xs)" by (rule dll_neighbours(1) [OF dll])
  have z: "m_prevNode ?st (last (Head ?l # xs)) = 0 \<longleftrightarrow> xs = []" using dll_ends(2) [of ?l ?st xs "node # ys"] dll by simp
  show ?thesis
  proof (cases "\<exists>us u. xs = us @ [u] \<and> u + extent (m_ids c) u = node")
    case True
    then obtain us u where u: "xs = us @ [u]" "node = u + extent (m_ids c) u" by blast
    let ?m = "extent (m_ids c) u" and ?size = "size' + ucast (b_size (m_ids c u))"
    have su: "s \<le> u" using xs(2) u by simp
    then have lt: "unat size' + ?m < 65536" using e u(2) by simp
    then have "unat ?size = unat size' + ?m" by (simp add: unat_word_ariths unat_extent)
    then have sz: "u + unat ?size = node + unat size'" "unat ?size < 65536" using u(2) lt by simp_all
    have "coalesce_prev node size' (c\<lparr>m_links := st\<rparr>) = (c\<lparr>m_links := Unlink node ?st\<rparr>, ?size, u)"
      using pv z u by (simp add: coalesce_prev_def Let_def)
    moreover have "dll ?l (Unlink node ?st) (us @ u # ys)" using dll_unlink(1) [OF dll] u(1) by simp
    moreover have "{u..<u + unat ?size} = covered c [u] \<union> {node..<node + unat size'}" unfolding sz(1) using u(2) by auto
    moreover have "\<forall>x\<in>set us. x + extent (m_ids c) x \<le> u" "spread c xs \<longrightarrow> (\<forall>x\<in>set us. x + extent (m_ids c) x < u)"
      using xs(1) u(1) by (simp_all add: sorted_wrt_append)
    ultimately show ?thesis
      using sz su u unlink_only [OF dll] by (intro exI4 [of _ "Unlink node ?st" ?size us "[u]"] exI [of _ u]) (simp add: add.assoc)
  next
    case False
    have "x + extent (m_ids c) x < node" if x: "x \<in> set xs" for x
    proof -
      obtain us u where u: "xs = us @ [u]" using x by (cases xs rule: rev_cases) auto
      have "u + extent (m_ids c) u < node" using xs(2) False u by fastforce
      moreover have "x + extent (m_ids c) x \<le> u" if "x \<in> set us" using xs(1) that by (simp add: u sorted_wrt_append)
      ultimately show ?thesis using x u by fastforce
    qed
    moreover have "coalesce_prev node size' (c\<lparr>m_links := st\<rparr>) = (c\<lparr>m_links := ?st\<rparr>, size', node)"
      using pv z False by (cases xs rule: rev_cases) (auto simp: coalesce_prev_def Let_def)
    ultimately show ?thesis using dll e
      by (intro exI4 [of _ ?st size' xs "[]"] exI [of _ node]) (auto simp: less_imp_le)
  qed
qed

lemma free_list_merge:
  assumes fl: "free_list c (ps @ mid @ qs)" and dll: "dll (m_freeList c) lnk (ps @ r # qs)" and m: "0 < m" "extent ids r = m"
    and ids: "\<forall>x. x \<noteq> r \<longrightarrow> ids x = m_ids c x"
    and cells: "{r..<r + m} = S \<union> covered c mid" and S: "S \<subseteq> {m_payloadStart c..<m_payloadEnd c}"
    and before: "\<forall>p\<in>set ps. p + extent (m_ids c) p \<le> r" and after: "\<forall>q\<in>set qs. r + m \<le> q"
  defines "c' \<equiv> c\<lparr>m_links := lnk, m_ids := ids\<rparr>"
  shows "free_list c' (ps @ r # qs)" "covered c' (ps @ r # qs) = covered c (ps @ mid @ qs) \<union> S"
proof -
  from fl have F: "apart c (ps @ mid @ qs)" "\<forall>f\<in>set (ps @ mid @ qs). 0 < extent (m_ids c) f"
    "covered c (ps @ mid @ qs) \<subseteq> {m_payloadStart c..<m_payloadEnd c}" by (auto simp: free_list_def)
  have same: "ids x = m_ids c x" if "x \<in> set ps \<union> set qs" for x
  proof -
    have "0 < extent (m_ids c) x" using that F(2) by auto
    then have "x \<noteq> r" using that before after m(1) by auto
    with ids show ?thesis by blast
  qed
  have cov: "covered c' ps = covered c ps" "covered c' qs = covered c qs" using same by (auto simp: c'_def)
  have r: "cells c' r = S \<union> covered c mid" using cells m(2) by (simp add: c'_def)
  show C: "covered c' (ps @ r # qs) = covered c (ps @ mid @ qs) \<union> S"
    using cov r by (simp add: Un_ac)
  have "apart c' (ps @ r # qs)"
  proof -
    have "apart c' ps" "apart c' qs"
      using F(1) same by (auto simp: c'_def sorted_wrt_append intro: sorted_wrt_mono_rel [rotated])
    moreover have "p + extent ids p \<le> q" if "p \<in> set ps" "q \<in> set qs" for p q
      using F(1) that same by (simp add: sorted_wrt_append)
    ultimately show ?thesis using before after same m(2) by (auto simp: sorted_wrt_append c'_def)
  qed
  moreover have "\<forall>f\<in>set (ps @ r # qs). 0 < extent (m_ids c') f" using F(2) same m by (auto simp: c'_def)
  moreover have "covered c' (ps @ r # qs) \<subseteq> {m_payloadStart c'..<m_payloadEnd c'}"
    unfolding C using F(3) S by (simp add: c'_def)
  ultimately show "free_list c' (ps @ r # qs)" using dll unfolding free_list_def c'_def by simp
qed

lemma InsertInOrder_spec:
  assumes fl: "free_list c fs" and fuel: "length fs < fuel" and n: "0 < unat size'"
    and room: "m_payloadEnd c - m_payloadStart c < 65536" "0 < m_payloadStart c"
    and ends: "Head (m_freeList c) \<notin> {m_payloadStart c..<m_payloadEnd c}" "Tail (m_freeList c) \<notin> {m_payloadStart c..<m_payloadEnd c}"
    and S: "{node..<node + unat size'} \<subseteq> {m_payloadStart c..<m_payloadEnd c}" "{node..<node + unat size'} \<inter> covered c fs = {}"
  shows "\<exists>c' fs' r. InsertInOrder fuel node size' c = Some (c', r) \<and> free_list c' fs' \<and> r \<in> set fs' \<and> node \<in> cells c' r \<and>
    covered c' fs' = covered c fs \<union> {node..<node + unat size'} \<and> (\<forall>x. x \<noteq> r \<longrightarrow> m_ids c' x = m_ids c x) \<and>
    m_freeList c' = m_freeList c \<and> m_payloadStart c' = m_payloadStart c \<and> m_payloadEnd c' = m_payloadEnd c \<and>
    (spread c fs \<longrightarrow> spread c' fs') \<and> set fs' \<subseteq> insert r (set fs) \<and> (\<exists>n. m_ids c' r = RAW_ID DATATYPE_FREEBLOCK HB_Pinned n) \<and>
    only_links (insert node (set (Head (m_freeList c) # fs @ [Tail (m_freeList c)]))) (m_links c) (m_links c')"
proof -
  let ?l = "m_freeList c" and ?n = "unat size'" and ?s = "m_payloadStart c" and ?e = "m_payloadEnd c"
  define xs where "xs = takeWhile (\<lambda>x. x \<le> node) fs"
  define ys where "ys = dropWhile (\<lambda>x. x \<le> node) fs"
  have fs: "fs = xs @ ys" by (simp add: xs_def ys_def)
  from fl have F: "dll ?l (m_links c) (xs @ ys)" "apart c (xs @ ys)" "\<forall>f\<in>set (xs @ ys). 0 < extent (m_ids c) f"
    "covered c (xs @ ys) \<subseteq> {?s..<?e}" by (auto simp: free_list_def fs)
  have before: "x + extent (m_ids c) x \<le> node" if "x \<in> set xs" for x
  proof -
    have "x \<le> node" using that set_takeWhileD unfolding xs_def by fast
    moreover have "node \<notin> cells c x" using S(2) n that unfolding fs by fastforce
    ultimately show ?thesis by auto
  qed
  have after: "node + ?n \<le> y" if "y \<in> set ys" for y
  proof -
    have hd: "node < hd ys" using that hd_dropWhile [of "\<lambda>x. x \<le> node" fs] unfolding ys_def by fastforce
    have "hd ys \<le> y"
      using F(2) that by (cases ys) (auto simp: sorted_wrt_append intro: add_leD1)
    moreover have "y \<notin> {node..<node + ?n}"
    proof -
      have "y \<in> cells c y" using F(3) that by auto
      then have "y \<in> covered c fs" using that unfolding fs by auto
      with S(2) show ?thesis by blast
    qed
    ultimately show ?thesis using hd by auto
  qed
  have node: "node \<noteq> 0" "node \<notin> set (Head ?l # xs @ ys @ [Tail ?l])"
  proof -
    have "node \<in> {?s..<?e}" using S(1) n by auto
    with room(2) ends have "node \<noteq> 0" "node \<noteq> Head ?l" "node \<noteq> Tail ?l" by auto
    moreover have "node \<notin> set xs"
    proof
      assume "node \<in> set xs"
      with F(3) have "0 < extent (m_ids c) node" by auto
      with before [OF \<open>node \<in> set xs\<close>] show False by simp
    qed
    moreover have "node \<notin> set ys" using after [of node] n by auto
    ultimately show "node \<noteq> 0" "node \<notin> set (Head ?l # xs @ ys @ [Tail ?l])" by auto
  qed
  have find: "find_after fuel (m_links c) node (FirstNode ?l (m_links c)) = Some (hd (ys @ [Tail ?l]))"
  proof -
    have d: "dll ?l (m_links c) fs" using F(1) fs by simp
    then have "linked (m_links c) (Head ?l) fs (Tail ?l)" "m_nextNode (m_links c) (Tail ?l) = 0" "0 \<notin> set (fs @ [Tail ?l])"
      by (auto simp: dll_def)
    from find_after_list [OF this fuel] show ?thesis unfolding dll_first(1) [OF d] ys_def .
  qed
  let ?st = "InsertBeforeNode (hd (ys @ [Tail ?l])) node (set_prev node 0 (set_next node 0 (m_links c)))"
  have d1: "dll ?l ?st (xs @ node # ys)"
    by (rule dll_insert_before(1)) (use dll_clear [OF F(1)] node in auto)
  have inside: "a + extent (m_ids c) a \<le> ?e \<and> ?s \<le> a" if "a \<in> set (xs @ ys)" for a
  proof -
    have "cells c a \<subseteq> {?s..<?e}" using F(4) that by (meson UN_subset_iff)
    moreover have "0 < extent (m_ids c) a" using F(3) that by blast
    ultimately show ?thesis by (simp add: ivl_subset)
  qed
  have se: "?s \<le> node" "node + ?n \<le> ?e" "?e - node < 65536" using S(1) n room by (auto simp: ivl_subset)
  have ap: "apart c xs" "apart c ys" using F(2) by (simp_all add: sorted_wrt_append)
  have "\<forall>y\<in>set ys. node + ?n \<le> y \<and> y + extent (m_ids c) y \<le> ?e" using after inside by simp
  from coalesce_next_spec [OF d1 ap(2) this se(2,3)] obtain lnk2 size2 mid2 ys2 where
    N: "coalesce_next node size' (c\<lparr>m_links := ?st\<rparr>) = (c\<lparr>m_links := lnk2\<rparr>, size2)" "ys = mid2 @ ys2" "dll ?l lnk2 (xs @ node # ys2)"
      "?n \<le> unat size2" "node + unat size2 \<le> ?e" "{node..<node + unat size2} = {node..<node + ?n} \<union> covered c mid2"
      "\<forall>y\<in>set ys2. node + unat size2 \<le> y" "spread c ys \<longrightarrow> (\<forall>y\<in>set ys2. node + unat size2 < y)"
      "only_links (set (Head ?l # xs @ node # ys @ [Tail ?l])) ?st lnk2"
    by (elim exE conjE) (rule that)
  have pre: "\<forall>x\<in>set xs. ?s \<le> x \<and> x + extent (m_ids c) x \<le> node \<and> 0 < extent (m_ids c) x"
    using before inside F(3) by simp
  have size2: "0 < unat size2" "node + unat size2 - ?s < 65536" using N(4,5) n room(1) se(1) by linarith+
  from coalesce_prev_spec [OF N(3) ap(1) pre se(1) size2] obtain lnk3 size3 us mid r where
    P: "coalesce_prev node size2 (c\<lparr>m_links := lnk2\<rparr>) = (c\<lparr>m_links := lnk3\<rparr>, size3, r)" "xs = us @ mid" "dll ?l lnk3 (us @ r # ys2)"
      "r + unat size3 = node + unat size2" "?s \<le> r" "r \<le> node" "unat size3 < 65536"
      "{r..<r + unat size3} = covered c mid \<union> {node..<node + unat size2}"
      "\<forall>x\<in>set us. x + extent (m_ids c) x \<le> r" "spread c xs \<longrightarrow> (\<forall>x\<in>set us. x + extent (m_ids c) x < r)"
      "only_links (set (Head ?l # xs @ node # ys2 @ [Tail ?l])) lnk2 lnk3" "r = node \<or> r \<in> set xs"
    by (elim exE conjE) (rule that)
  let ?ids = "(m_ids c)(r := RAW_ID DATATYPE_FREEBLOCK HB_Pinned size3)" and ?fs' = "us @ r # ys2"
  let ?c' = "c\<lparr>m_links := lnk3, m_ids := ?ids\<rparr>"
  have ex: "InsertInOrder fuel node size' c = Some (?c', r)"
    using N(1) P(1) unfolding InsertInOrder_def find by (simp add: Let_def SetDataId_def SetNext_def SetPrev_def)
  have ext: "extent ?ids r = unat size3" using P(7) by (simp add: unsigned_ucast_eq take_bit_nat_eq_self)
  have pos: "0 < unat size3" using P(4,6) N(4) n by linarith
  have m1: "free_list c (us @ (mid @ mid2) @ ys2)" using fl P(2) N(2) fs by simp
  have m2: "\<forall>x. x \<noteq> r \<longrightarrow> ?ids x = m_ids c x" by simp
  have m3: "{r..<r + unat size3} = {node..<node + ?n} \<union> covered c (mid @ mid2)" unfolding P(8) N(6) by auto
  have m4: "\<forall>q\<in>set ys2. r + unat size3 \<le> q" using N(7) P(4) by simp
  have fs': "us @ (mid @ mid2) @ ys2 = fs" by (simp add: fs P(2) N(2))
  note M = free_list_merge [OF m1 P(3) pos ext m2 m3 S(1) P(9) m4, unfolded fs']
  have "spread ?c' ?fs'" if sp: "spread c fs"
  proof -
    have sp': "spread c us" "spread c ys2" and lt: "\<forall>x\<in>set us. x + extent (m_ids c) x < r" "\<forall>y\<in>set ys2. r + unat size3 < y"
      using sp P(2,4,10) N(2,8) by (simp_all add: fs sorted_wrt_append)
    then have ne: "x \<noteq> r" if "x \<in> set us \<union> set ys2" for x using that by auto
    have "spread ?c' us" "spread ?c' ys2" using sp' ne by (auto intro: sorted_wrt_mono_rel [rotated])
    moreover have "x + extent ?ids x < y" if "x \<in> set us" "y \<in> set ys2" for x y
      using lt that ne [of x] by fastforce
    ultimately show ?thesis using lt ne ext by (auto simp: sorted_wrt_append)
  qed
  moreover have "node \<in> cells ?c' r" using P(4,6) N(4) n ext by auto
  moreover have "only_links (insert node (set (Head ?l # fs @ [Tail ?l]))) (m_links c) lnk3"
  proof -
    let ?cleared = "set_prev node 0 (set_next node 0 (m_links c))"
    have "only_links (insert node (set (Head ?l # fs @ [Tail ?l]))) (m_links c) ?cleared" by (simp add: only_links_def)
    moreover have "only_links (insert node (set (Head ?l # fs @ [Tail ?l]))) ?cleared ?st"
      using dll_insert_frame [OF dll_clear(1) [OF F(1)] dll_clear(2) [OF F(1)]] node unfolding only_links_def fs by auto
    moreover have "only_links (insert node (set (Head ?l # fs @ [Tail ?l]))) ?st lnk2"
      by (rule only_links_mono [OF N(9)]) (auto simp: fs)
    moreover have "only_links (insert node (set (Head ?l # fs @ [Tail ?l]))) lnk2 lnk3"
      by (rule only_links_mono [OF P(11)]) (auto simp: fs N(2))
    ultimately show ?thesis by (blast intro: only_links_trans)
  qed
  moreover have "set ?fs' \<subseteq> insert r (set fs)" by (auto simp: fs P(2) N(2))
  moreover have "\<exists>n. ?ids r = RAW_ID DATATYPE_FREEBLOCK HB_Pinned n" by auto
  ultimately show ?thesis
    using ex M by (intro exI [of _ ?c'] exI [of _ ?fs'] exI [of _ r] conjI) (assumption | simp)+
qed

section \<open>Runs of a cluster\<close>

lemma tiles_length: "tiles ids p hs e \<Longrightarrow> length hs \<le> e - p"
proof (induction hs arbitrary: p)
  case (Cons h hs)
  then have "tiles ids (p + extent ids p) hs e" "0 < extent ids p" by auto
  with Cons.IH [of "p + extent ids p"] tiles_bounds(1) [of ids "p + extent ids p" hs e] show ?case by simp
qed simp

lemma enough_fuel: "heap_ok c hs \<Longrightarrow> length hs < 65536"
  using heap_okD(1,4) tiles_length by (meson order_le_less_trans)

lemma heap_free_cells:
  assumes "heap_ok c hs"
  shows "free_cells c hs = {m_payloadStart c..<m_payloadEnd c} - (\<Union>h\<in>set (used c hs). cells c h)"
proof -
  note D = heap_okD [OF assms]
  have "cells c a \<inter> cells c b = {}" if "a \<in> set hs" "is_free c a" "b \<in> set (used c hs)" for a b
  proof -
    have "a \<noteq> b" "b \<in> set hs" using that by (auto simp: used_def)
    then show ?thesis using tiles_disjoint [OF D(1) that(1)] by blast
  qed
  moreover have "(\<Union>h\<in>set hs. cells c h) = free_cells c hs \<union> (\<Union>h\<in>set (used c hs). cells c h)"
    by (auto simp: free_cells_def used_def)
  ultimately show ?thesis using tiles_cover [OF D(1)] by (fastforce simp: free_cells_def)
qed

lemma used_apart:
  assumes "heap_ok c hs" "a \<in> set (used c hs)" "b \<in> set (used c hs)" "a \<noteq> b"
  shows "cells c a \<inter> cells c b = {}"
  using tiles_disjoint [OF heap_okD(1) [OF assms(1)], of a b] assms by (auto simp: used_def)

text \<open>What the program does with its blocks: anything but to their sizes, and to make them free.\<close>

definition writes :: "HeapCluster \<Rightarrow> nat list \<Rightarrow> HeapCluster \<Rightarrow> bool" where
  "writes c hs c' \<longleftrightarrow> m_freeList c' = m_freeList c \<and> m_payloadStart c' = m_payloadStart c \<and> m_payloadEnd c' = m_payloadEnd c \<and>
     (\<forall>h\<in>set (used c hs). b_size (m_ids c' h) = b_size (m_ids c h) \<and> \<not> is_free c' h) \<and>
     (\<forall>x. x \<notin> (\<Union>h\<in>set (used c hs). cells c h) \<longrightarrow> m_ids c' x = m_ids c x \<and>
        m_nextNode (m_links c') x = m_nextNode (m_links c) x \<and> m_prevNode (m_links c') x = m_prevNode (m_links c) x)"

lemma heap_ok_writes:
  assumes "heap_ok c hs" "writes c hs c'"
  shows "heap_ok c' hs"
proof -
  note D = heap_okD [OF assms(1)]
  have free: "m_ids c' h = m_ids c h" if h: "h \<in> set hs" "is_free c h" for h
  proof -
    have "h \<in> cells c h" using tile_in [OF D(1) h(1)] by simp
    then have "h \<in> free_cells c hs" using h by (auto simp: free_cells_def)
    then show ?thesis using assms(2) heap_free_cells [OF assms(1)] by (auto simp: writes_def)
  qed
  have used: "b_size (m_ids c' h) = b_size (m_ids c h)" "is_free c' h \<longleftrightarrow> is_free c h" if "h \<in> set hs" for h
    using assms(2) free [OF that] that by (cases "is_free c h"; auto simp: writes_def used_def)+
  have f: "filter (is_free c') hs = filter (is_free c) hs" using used(2) by (auto intro!: filter_cong)
  have "dll (m_freeList c) (m_links c') (filter (is_free c) hs)"
  proof (rule dll_cong [OF D(2)])
    fix m assume "m \<in> set (Head (m_freeList c) # filter (is_free c) hs @ [Tail (m_freeList c)])"
    then have "m \<notin> cells c h" if "h \<in> set (used c hs)" for h
      using used_unlisted [OF assms(1), of h m] that by (auto simp: used_def)
    then show "m_nextNode (m_links c') m = m_nextNode (m_links c) m \<and> m_prevNode (m_links c') m = m_prevNode (m_links c) m"
      using assms(2) by (auto simp: writes_def)
  qed
  moreover have "tiles (m_ids c') (m_payloadStart c) hs (m_payloadEnd c)"
    using D(1) used(1) tiles_cong [of hs "m_ids c'" "m_ids c"] by auto
  ultimately show ?thesis
    using assms(2) D(3-7) f free used(2) by (auto simp: heap_ok_def writes_def)
qed

lemma ExtractBlocks_spec:
  assumes "heap_ok c hs" "length hs < fuel" "0 < unat len" "dataType \<noteq> DATATYPE_FREEBLOCK"
  shows "case chosen flags len c hs of
      None \<Rightarrow> ExtractBlocks fuel dataType flags len c = Some (c, 0) \<and> (\<forall>h\<in>set hs. is_free c h \<longrightarrow> extent (m_ids c) h < unat len)
    | Some b \<Rightarrow> \<exists>c' hs' a. ExtractBlocks fuel dataType flags len c = Some (c', a) \<and> heap_ok c' hs' \<and>
        is_free c b \<and> b \<in> set hs \<and> unat len \<le> extent (m_ids c) b \<and>
        a = (if flags AND HB_Event \<noteq> 0 then b + extent (m_ids c) b - unat len else b) \<and> {a..<a + unat len} \<subseteq> free_cells c hs \<and>
        set (used c' hs') = insert a (set (used c hs)) \<and> m_ids c' a = RAW_ID dataType flags len \<and> extent (m_ids c') a = unat len \<and>
        free_cells c' hs' = free_cells c hs - {a..<a + unat len} \<and> (\<forall>h\<in>set (used c hs). same_block c c' h)"
proof (cases "chosen flags len c hs")
  case None
  then have "\<forall>h\<in>set hs. is_free c h \<longrightarrow> extent (m_ids c) h < unat len"
    by (auto simp: chosen_def find_None_iff not_le split: if_splits)
  moreover have "ExtractBlocks fuel dataType flags len c = Some (c, 0)"
    unfolding ExtractBlocks_def Let_def chosen_fit [OF assms(1,2)] None by simp
  ultimately show ?thesis using None by simp
next
  case (Some b)
  then have b: "is_free c b" "b \<in> set hs" "unat len \<le> extent (m_ids c) b"
    by (auto simp: chosen_def find_Some_iff split: if_splits) (metis nth_mem length_rev set_rev)
  then obtain as bs where hs: "hs = as @ b # bs" by (meson split_list)
  let ?a = "if flags AND HB_Event \<noteq> 0 then b + extent (m_ids c) b - unat len else b"
  from ExtractBlocks_carves [OF assms(1) [unfolded hs] assms(2) [unfolded hs] b(1) Some [unfolded hs] b(3) assms(3,4)]
  obtain c' ms where r: "ExtractBlocks fuel dataType flags len c = Some (c', ?a)" "heap_ok c' (as @ ms @ bs)"
    "used c' (as @ ms @ bs) = used c as @ [?a] @ used c bs" "free_cells c' (as @ ms @ bs) = free_cells c hs - {?a..<?a + unat len}"
    "m_ids c' ?a = RAW_ID dataType flags len" "\<forall>h\<in>set (used c hs). same_block c c' h"
    unfolding hs by blast
  have "set (used c' (as @ ms @ bs)) = insert ?a (set (used c hs))" using r(3) b(1) by (auto simp: hs used_def)
  moreover have "{?a..<?a + unat len} \<subseteq> free_cells c hs" 
  proof -
    have "cells c b \<subseteq> free_cells c hs" using b by (auto simp: free_cells_def)
    moreover have "{?a..<?a + unat len} \<subseteq> cells c b" using b(3) by auto
    ultimately show ?thesis by blast
  qed
  moreover have "extent (m_ids c') ?a = unat len"
    using r(5) b(3) unat_u16_less [of "b_size (m_ids c b)"] by (simp add: unsigned_ucast_eq take_bit_nat_eq_self)
  ultimately show ?thesis using Some r b by (auto intro!: exI [of _ c'] exI [of _ "as @ ms @ bs"])
qed

lemma tiles_ones: "(\<And>x. p \<le> x \<Longrightarrow> x < p + n \<Longrightarrow> extent ids x = 1) \<Longrightarrow> tiles ids p [p..<p + n] (p + n)"
proof (induction n arbitrary: p)
  case (Suc n)
  have "tiles ids (Suc p) [Suc p..<Suc p + n] (Suc p + n)" by (rule Suc.IH) (use Suc.prems in auto)
  moreover have "[p..<p + Suc n] = p # [Suc p..<Suc p + n]" by (simp add: upt_conv_Cons)
  ultimately show ?case using Suc.prems [of p] by simp
qed simp

lemma HeapCluster_Initialize_ok:
  fixes size' header block :: u32
  defines "n \<equiv> unat ((size' - header) div block)"
  assumes "0 < start" "n < 65536" "n < fuel" "Head (m_freeList c) \<notin> {start..<start + n}" "Tail (m_freeList c) \<notin> {start..<start + n}"
    "Head (m_freeList c) \<noteq> 0" "Tail (m_freeList c) \<noteq> 0" "Head (m_freeList c) \<noteq> Tail (m_freeList c)"
  shows "\<exists>c'. HeapCluster_Initialize fuel start header block size' c = Some c' \<and> heap_ok c' (if n = 0 then [] else [start]) \<and>
    free_cells c' (if n = 0 then [] else [start]) = {start..<start + n} \<and>
    m_freeList c' = m_freeList c \<and> m_payloadStart c' = start \<and> m_payloadEnd c' = start + n"
proof -
  let ?c = "c\<lparr>m_links := List_Initialize (m_freeList c) (m_links c), m_payloadStart := start, m_payloadEnd := start + n,
      m_ids := (\<lambda>x. if start \<le> x \<and> x < start + n then RAW_ID DATATYPE_FREEBLOCK 0 1 else m_ids c x)\<rparr>"
  have "tiles (m_ids ?c) start [start..<start + n] (start + n)"
    by (rule tiles_ones) (simp add: RAW_ID_def)
  moreover have "dead ?c h" if "h \<in> set [start..<start + n]" for h using that by (simp add: RAW_ID_alive)
  ultimately have "frame_ok ?c [start..<start + n]" using assms by (simp add: frame_ok_def)
  from RecoverFromGC_ok [OF this, of fuel] assms(4) obtain c' hs' where
    r: "RecoverFromGC fuel ?c = Some c'" "heap_ok c' hs'" "no_neighbours c' hs'"
      "used c' hs' = filter (\<lambda>h. IsAlive (m_ids ?c h)) [start..<start + n]"
      "m_freeList c' = m_freeList c" "m_payloadStart c' = start" "m_payloadEnd c' = start + n"
    by (auto simp del: RAW_ID_simps)
  have "used c' hs' = []" using r(4) by (simp add: RAW_ID_alive filter_empty_conv)
  then have free: "\<forall>h\<in>set hs'. is_free c' h" by (simp add: used_def filter_empty_conv)
  have "hs' = (if n = 0 then [] else [start])"
  proof (cases hs')
    case Nil
    then show ?thesis using heap_okD(1) [OF r(2)] r(6,7) by auto
  next
    case (Cons h rest)
    then have "rest = []" using r(3) free by (cases rest) auto
    with Cons show ?thesis using heap_okD(1) [OF r(2)] r(6,7) by auto
  qed
  moreover have "free_cells c' hs' = {start..<start + n}"
    using heap_free_cells [OF r(2)] \<open>used c' hs' = []\<close> r(6,7) by simp
  moreover have "HeapCluster_Initialize fuel start header block size' c = Some c'"
    using r(1) by (simp add: HeapCluster_Initialize_def Let_def n_def)
  ultimately show ?thesis using r(2,5-7) by (intro exI [of _ c']) simp
qed

text \<open>
  A cluster from its initialisation on: requests, writes of the program and of the marking into
  the blocks handed out, and recoveries. 65536 is enough fuel for every walk.
\<close>

inductive cluster_run :: "HeapCluster \<Rightarrow> bool" where
  start: "0 < start \<Longrightarrow> unat ((size' - header) div block) < 65536 \<Longrightarrow>
    Head (m_freeList c) \<notin> {start..<start + unat ((size' - header) div block)} \<Longrightarrow>
    Tail (m_freeList c) \<notin> {start..<start + unat ((size' - header) div block)} \<Longrightarrow>
    Head (m_freeList c) \<noteq> 0 \<Longrightarrow> Tail (m_freeList c) \<noteq> 0 \<Longrightarrow> Head (m_freeList c) \<noteq> Tail (m_freeList c) \<Longrightarrow>
    HeapCluster_Initialize 65536 start header block size' c = Some c' \<Longrightarrow> cluster_run c'"
| request: "cluster_run c \<Longrightarrow> 0 < unat len \<Longrightarrow> dataType \<noteq> DATATYPE_FREEBLOCK \<Longrightarrow>
    ExtractBlocks 65536 dataType flags len c = Some (c', a) \<Longrightarrow> cluster_run c'"
| store: "cluster_run c \<Longrightarrow> heap_ok c hs \<Longrightarrow> writes c hs c' \<Longrightarrow> cluster_run c'"
| recover: "cluster_run c \<Longrightarrow> RecoverFromGC 65536 c = Some c' \<Longrightarrow> cluster_run c'"

lemma cluster_run_ok: "cluster_run c \<Longrightarrow> \<exists>hs. heap_ok c hs"
proof (induction rule: cluster_run.induct)
  case (start start size' header block c c')
  from HeapCluster_Initialize_ok [OF start(1,2) start(2-7)] start(8) show ?case by auto
next
  case (request c len dataType flags c' a)
  then obtain hs where "heap_ok c hs" by blast
  from ExtractBlocks_spec [OF this enough_fuel [OF this] request(2,3), of flags] request(4) \<open>heap_ok c hs\<close> show ?case
    by (auto split: option.splits)
next
  case (store c hs c')
  then show ?case using heap_ok_writes by blast
next
  case (recover c c')
  then obtain hs where "heap_ok c hs" by blast
  from RecoverFromGC_ok [OF heap_frame [OF this] enough_fuel [OF this]] recover(2) show ?case by auto
qed

section \<open>What the cluster promises\<close>

text \<open>A cluster of ten blocks: an object of 3 blocks at 1 and a free block of 7 at 4.\<close>

definition sample_cluster :: "u32 \<Rightarrow> HeapCluster" where
  "sample_cluster flags = \<lparr>m_payloadStart = 1, m_payloadEnd = 11, m_freeList = \<lparr>Head = 20, Tail = 21\<rparr>,
     m_ids = (\<lambda>x. zero_id)(1 := RAW_ID DATATYPE_CLASS flags 3, 4 := RAW_ID DATATYPE_FREEBLOCK HB_Pinned 7),
     m_links = \<lparr>m_nextNode = (\<lambda>x. 0)(20 := 4, 4 := 21), m_prevNode = (\<lambda>x. 0)(21 := 4, 4 := 20)\<rparr>\<rparr>"

lemma sample_cluster_ok: "heap_ok (sample_cluster flags) [1, 4]"
  by (simp add: heap_ok_def sample_cluster_def dll_def)

lemma sample_cluster_cells:
  "used (sample_cluster flags) [1, 4] = [1]" "free_cells (sample_cluster flags) [1, 4] = {4..<11}"
  "chosen f len (sample_cluster flags) [1, 4] = (if unat len \<le> 7 then Some 4 else None)"
  "extent (m_ids (sample_cluster flags)) 1 = 3" "extent (m_ids (sample_cluster flags)) 4 = 7"
  by (auto simp: used_def free_cells_def chosen_def sample_cluster_def)

text \<open>
  C12: A request is served first fit: from the first free block of the list that is large enough, or
  for an event from the last one; objects are cut from its front and events from its back. The
  block returned has the header asked for and was free, it is the only change to the blocks in use
  and to the free blocks, and what the other blocks in use hold is not touched. When nothing is
  returned, no free block is large enough and the cluster is as it was.
\<close>

theorem ExtractBlocks_first_fit:
  assumes "heap_ok c hs" "length hs < fuel" "0 < unat len" "dataType \<noteq> DATATYPE_FREEBLOCK"
  shows "case chosen flags len c hs of
      None \<Rightarrow> ExtractBlocks fuel dataType flags len c = Some (c, 0) \<and> (\<forall>h\<in>set hs. is_free c h \<longrightarrow> extent (m_ids c) h < unat len)
    | Some b \<Rightarrow> \<exists>c' hs' a. ExtractBlocks fuel dataType flags len c = Some (c', a) \<and> heap_ok c' hs' \<and>
        is_free c b \<and> b \<in> set hs \<and> unat len \<le> extent (m_ids c) b \<and>
        a = (if flags AND HB_Event \<noteq> 0 then b + extent (m_ids c) b - unat len else b) \<and> {a..<a + unat len} \<subseteq> free_cells c hs \<and>
        set (used c' hs') = insert a (set (used c hs)) \<and> m_ids c' a = RAW_ID dataType flags len \<and> extent (m_ids c') a = unat len \<and>
        free_cells c' hs' = free_cells c hs - {a..<a + unat len} \<and> (\<forall>h\<in>set (used c hs). same_block c c' h)"
  by (rule ExtractBlocks_spec [OF assms])

theorem ExtractBlocks_first_fit_witness:
  "\<exists>c' hs'. ExtractBlocks 3 DATATYPE_STRING HB_Event 2 (sample_cluster 0) = Some (c', 9) \<and> heap_ok c' hs' \<and>
     set (used c' hs') = {9, 1} \<and> free_cells c' hs' = {4..<9}"
proof -
  have ev: "HB_Event \<noteq> 0" by (simp add: HB_Event_def)
  have "{4..<11} - {9..<9 + 2} = {4..<9 :: nat}" by auto
  with ExtractBlocks_first_fit [OF sample_cluster_ok, of 3 2 DATATYPE_STRING HB_Event 0]
  have "\<exists>c' hs'. ExtractBlocks 3 DATATYPE_STRING HB_Event 2 (sample_cluster 0) = Some (c', 9) \<and> heap_ok c' hs' \<and>
     is_free (sample_cluster 0) 4 \<and> set (used c' hs') = {9, 1} \<and> m_ids c' 9 = RAW_ID DATATYPE_STRING HB_Event 2 \<and>
     extent (m_ids c') 9 = 2 \<and> free_cells c' hs' = {4..<9} \<and> same_block (sample_cluster 0) c' 1"
    by (simp add: sample_cluster_cells ev del: One_nat_def)
  then show ?thesis by blast
qed

text \<open>
  C13: A recovery leaves exactly the blocks that were marked, with their content, their marks taken
  back except those of events; everything else is free and in the list, and no two free blocks are
  neighbours, so that no request fails because memory is split without need.
\<close>

theorem RecoverFromGC_reclaims:
  assumes "heap_ok c hs" "length hs < fuel"
  shows "\<exists>c' hs'. RecoverFromGC fuel c = Some c' \<and> heap_ok c' hs' \<and> no_neighbours c' hs' \<and>
    used c' hs' = filter (\<lambda>h. IsAlive (m_ids c h)) hs \<and> (\<forall>h\<in>set (used c' hs'). recovered c c' h) \<and>
    free_cells c' hs' = {m_payloadStart c..<m_payloadEnd c} - (\<Union>h\<in>set (filter (\<lambda>h. IsAlive (m_ids c h)) hs). cells c h)"
proof -
  from RecoverFromGC_ok [OF heap_frame [OF assms(1)] assms(2)] obtain c' hs' where
    r: "RecoverFromGC fuel c = Some c'" "heap_ok c' hs'" "no_neighbours c' hs'"
      "used c' hs' = filter (\<lambda>h. IsAlive (m_ids c h)) hs" "\<forall>h\<in>set (used c' hs'). recovered c c' h"
      "m_payloadStart c' = m_payloadStart c" "m_payloadEnd c' = m_payloadEnd c" by blast
  have "cells c' h = cells c h" if "h \<in> set (used c' hs')" for h using r(5) that by (simp add: recovered_def)
  then have "(\<Union>h\<in>set (used c' hs'). cells c' h) = (\<Union>h\<in>set (used c' hs'). cells c h)" by (rule SUP_cong [OF refl])
  with heap_free_cells [OF r(2)] r show ?thesis by (intro exI [of _ c'] exI [of _ hs']) simp
qed

theorem RecoverFromGC_reclaims_witness:
  "(\<exists>c' hs'. RecoverFromGC 3 (sample_cluster 0) = Some c' \<and> heap_ok c' hs' \<and> free_cells c' hs' = {1..<11}) \<and>
   (\<exists>c' hs'. RecoverFromGC 3 (sample_cluster HB_Alive) = Some c' \<and> used c' hs' = [1] \<and> recovered (sample_cluster HB_Alive) c' 1)"
proof -
  have bit_HB_Alive: "bit HB_Alive 0" "\<not> bit HB_Pinned 0" by (simp_all add: HB_Alive_def HB_Pinned_def bit_0)
  have alive: "filter (\<lambda>h. IsAlive (m_ids (sample_cluster 0) h)) [1, 4] = []"
    "filter (\<lambda>h. IsAlive (m_ids (sample_cluster HB_Alive) h)) [1, 4] = [1]"
    by (simp_all add: sample_cluster_def RAW_ID_alive bit_HB_Alive)
  have ends: "m_payloadStart (sample_cluster 0) = 1" "m_payloadEnd (sample_cluster 0) = 11" by (simp_all add: sample_cluster_def)
  from RecoverFromGC_reclaims [OF sample_cluster_ok, of 3 0]
    RecoverFromGC_reclaims [OF sample_cluster_ok, of 3 HB_Alive]
  show ?thesis unfolding alive ends by auto
qed

text \<open>
  A block given back to the list of an ordered cluster finds its place in the order of the
  addresses and is merged with the free blocks that touch it on either side: the free memory grows
  by exactly that block, the list stays ordered and without overlap, and where no two free
  blocks touched before, none do afterwards.
\<close>

lemma InsertInOrder_coalesces:
  assumes "free_list c fs" "length fs < fuel" "0 < unat size'"
    and "m_payloadEnd c - m_payloadStart c < 65536" "0 < m_payloadStart c"
    and "Head (m_freeList c) \<notin> {m_payloadStart c..<m_payloadEnd c}" "Tail (m_freeList c) \<notin> {m_payloadStart c..<m_payloadEnd c}"
    and "{node..<node + unat size'} \<subseteq> {m_payloadStart c..<m_payloadEnd c}" "{node..<node + unat size'} \<inter> covered c fs = {}"
  shows "\<exists>c' fs' r. InsertInOrder fuel node size' c = Some (c', r) \<and> free_list c' fs' \<and> r \<in> set fs' \<and> node \<in> cells c' r \<and>
    covered c' fs' = covered c fs \<union> {node..<node + unat size'} \<and> (\<forall>x. x \<noteq> r \<longrightarrow> m_ids c' x = m_ids c x) \<and>
    (spread c fs \<longrightarrow> spread c' fs')"
  using InsertInOrder_spec [OF assms] by blast

lemma InsertInOrder_coalesces_witness:
  "\<exists>c' fs' r. InsertInOrder 2 1 3 (sample_cluster 0) = Some (c', r) \<and> free_list c' fs' \<and> r \<in> set fs' \<and> 1 \<in> cells c' r \<and>
     covered c' fs' = {1..<11} \<and> spread c' fs'"
proof -
  have ends: "m_payloadStart (sample_cluster 0) = 1" "m_payloadEnd (sample_cluster 0) = 11"
    "m_freeList (sample_cluster 0) = \<lparr>Head = 20, Tail = 21\<rparr>" by (simp_all add: sample_cluster_def)
  have fl: "free_list (sample_cluster 0) [4]" by (simp add: free_list_def sample_cluster_def dll_def)
  have cov: "covered (sample_cluster 0) [4] = {4..<11}" by (simp add: sample_cluster_cells)
  have un: "{4..<11} \<union> {1..<1 + 3} = {1..<11 :: nat}" by auto
  from InsertInOrder_coalesces [OF fl, of 2 3 1] un show ?thesis unfolding ends cov by auto
qed

text \<open>
  C11: Whatever is requested, written and recovered from the initialisation on, the blocks of a
  cluster tile its memory, the list holds exactly the free ones in the order of their addresses, and
  no two blocks in use share a word; every further request is answered, and answered with a block
  that lies in the cluster and outside all blocks in use, or not at all when none is large enough.
\<close>

theorem cluster_never_overlaps:
  assumes "cluster_run c"
  shows "\<exists>hs. tiles (m_ids c) (m_payloadStart c) hs (m_payloadEnd c) \<and>
    dll (m_freeList c) (m_links c) (filter (is_free c) hs) \<and> sorted (filter (is_free c) hs) \<and>
    (\<forall>a\<in>set (used c hs). \<forall>b\<in>set (used c hs). a \<noteq> b \<longrightarrow> cells c a \<inter> cells c b = {}) \<and>
    (\<forall>dataType flags len. 0 < unat len \<longrightarrow> dataType \<noteq> DATATYPE_FREEBLOCK \<longrightarrow>
       (\<exists>c' a. ExtractBlocks 65536 dataType flags len c = Some (c', a) \<and>
          (if a = 0 then c' = c \<and> (\<forall>h\<in>set hs. is_free c h \<longrightarrow> extent (m_ids c) h < unat len)
           else {a..<a + unat len} \<subseteq> {m_payloadStart c..<m_payloadEnd c} \<and>
             (\<forall>h\<in>set (used c hs). {a..<a + unat len} \<inter> cells c h = {}))))"
proof -
  from cluster_run_ok [OF assms] obtain hs where ok: "heap_ok c hs" by blast
  note D = heap_okD [OF ok]
  have req: "\<exists>c' a. ExtractBlocks 65536 dataType flags len c = Some (c', a) \<and>
      (if a = 0 then c' = c \<and> (\<forall>h\<in>set hs. is_free c h \<longrightarrow> extent (m_ids c) h < unat len)
       else {a..<a + unat len} \<subseteq> {m_payloadStart c..<m_payloadEnd c} \<and>
         (\<forall>h\<in>set (used c hs). {a..<a + unat len} \<inter> cells c h = {}))"
    if "0 < unat len" "dataType \<noteq> DATATYPE_FREEBLOCK" for dataType flags len
  proof (cases "chosen flags len c hs")
    case None
    with ExtractBlocks_spec [OF ok enough_fuel [OF ok] that, of flags] show ?thesis by auto
  next
    case (Some b)
    with ExtractBlocks_spec [OF ok enough_fuel [OF ok] that, of flags] obtain c' a where
      r: "ExtractBlocks 65536 dataType flags len c = Some (c', a)" "{a..<a + unat len} \<subseteq> free_cells c hs" by auto
    have cells: "{a..<a + unat len} \<subseteq> {m_payloadStart c..<m_payloadEnd c} \<and> (\<forall>h\<in>set (used c hs). {a..<a + unat len} \<inter> cells c h = {})"
      using r(2) unfolding heap_free_cells [OF ok] by blast
    then have "a \<in> {m_payloadStart c..<m_payloadEnd c}" using that(1) by auto
    then have "a \<noteq> 0" using D(3) by auto
    with r(1) cells show ?thesis by auto
  qed
  have "sorted (filter (is_free c) hs)" using tiles_apart(3) [OF D(1)] by (rule sorted_wrt_filter)
  with D(1,2) used_apart [OF ok] req show ?thesis by blast
qed

theorem cluster_never_overlaps_witness:
  "\<exists>c c' hs. HeapCluster_Initialize 65536 1 12 12 132 (sample_cluster 0) = Some c \<and> cluster_run c \<and>
     tiles (m_ids c) (m_payloadStart c) hs (m_payloadEnd c) \<and> ExtractBlocks 65536 DATATYPE_STRING 0 4 c = Some (c', 1)"
proof -
  have n: "unat ((132 - 12 :: u32) div 12) = 10" by simp
  have ends: "m_freeList (sample_cluster 0) = \<lparr>Head = 20, Tail = 21\<rparr>" by (simp add: sample_cluster_def)
  from HeapCluster_Initialize_ok [of 1 132 12 12 65536 "sample_cluster 0", unfolded n ends] obtain c where
    c: "HeapCluster_Initialize 65536 1 12 12 132 (sample_cluster 0) = Some c" "heap_ok c [1]" "free_cells c [1] = {1..<1 + 10}" by auto
  have run: "cluster_run c" by (rule cluster_run.start [OF _ _ _ _ _ _ _ c(1)]) (simp_all add: n ends)
  have f: "is_free c 1" "cells c 1 = {1..<11}" using c(3) by (auto simp: free_cells_def split: if_splits)
  have "card (cells c 1) = 10" unfolding f(2) by simp
  then have e: "extent (m_ids c) 1 = 10" by simp
  have "chosen 0 4 c [1] = Some 1" using f(1) e by (simp add: chosen_def)
  with ExtractBlocks_spec [OF c(2) enough_fuel [OF c(2)], of 4 DATATYPE_STRING 0] obtain c' where
    "ExtractBlocks 65536 DATATYPE_STRING 0 4 c = Some (c', 1)" by auto
  with cluster_never_overlaps [OF run] c(1) run show ?thesis by blast
qed

end
