(* ===== verification/GarbageCollector.thy ===== *)
theory GarbageCollector imports HeapRecovery begin

text \<open>
  The marking of the garbage collector, \<^verbatim>\<open>src/CLR/Core/GarbageCollector_ComputeReachabilityGraph.cpp\<close>
  and \<^verbatim>\<open>GarbageCollector.cpp\<close>. The blocks that may be alive are followed from the roots without
  recursion: what is left to do of a run of blocks is an element of a mark stack, a buffer that
  may be extended by further buffers allocated on the way. When no memory is left for one, the run
  is dropped and a flag is set; the heap is then scanned for marked objects until it is not set any
  more. A buffer is a list here, and a write or read outside of it is the result \<open>OutOfBounds\<close>.
\<close>

section \<open>The memory as the collector sees it\<close>

text \<open>
  What the marking reads and never writes: the pointers in a block, and the layout and the counts
  of arrays, delegates and lists of delegates.
\<close>

record ObjectView =
  v_Dereference :: "nat \<Rightarrow> nat"
  v_Array :: "nat \<Rightarrow> nat"
  v_fReference :: "nat \<Rightarrow> bool"
  v_GetFirstElement :: "nat \<Rightarrow> nat"
  v_numOfElements :: "nat \<Rightarrow> u32"
  v_object :: "nat \<Rightarrow> nat"
  v_flags :: "nat \<Rightarrow> u32"
  v_GetDelegates :: "nat \<Rightarrow> nat"
  v_length :: "nat \<Rightarrow> u32"

definition c_Weak :: u32 where "c_Weak = 0x00000001"
definition c_minimumSpaceForGC :: nat where "c_minimumSpaceForGC = 128"

type_synonym MarkStackElement = "nat \<times> u32"

record MarkStack =
  ms_elements :: "MarkStackElement list"
  ms_last :: nat
  ms_top :: nat

definition MarkStack_Initialize :: "nat \<Rightarrow> MarkStack" where
  "MarkStack_Initialize n = \<lparr>ms_elements = replicate n (0, 0), ms_last = n - 1, ms_top = 0\<rparr>"

text \<open>
  The collector: the identifications of the blocks, the links of the weak delegates, the list of
  mark stacks and the index of the current one, and the answers that the allocator will give.
\<close>

record GC =
  gc_ids :: "nat \<Rightarrow> BlockId"
  gc_links :: Links
  m_weakDelegates_Reachable :: ListEnds
  m_markStackList :: "MarkStack list"
  m_markStack :: nat
  m_fOutOfStackSpaceForGC :: bool
  gc_answers :: "bool list"

record MarkLocals =
  l_stackList :: nat
  l_stack :: nat
  l_stackLast :: nat
  l_lst :: nat
  l_num :: u32

datatype 'a gc_run = OutOfFuel | OutOfBounds | Marked 'a
datatype 'a gc_step = Finished | Fault | Next 'a

section \<open>Following the pointers\<close>

definition load_state :: "GC \<Rightarrow> MarkLocals \<Rightarrow> MarkLocals" where
  "load_state g l =
     (let s = m_markStackList g ! m_markStack g in
      l\<lparr>l_stackLast := ms_last s, l_stack := ms_top s, l_stackList := m_markStack g\<rparr>)"

definition save_state :: "MarkLocals \<Rightarrow> GC \<Rightarrow> GC" where
  "save_state l g =
     g\<lparr>m_markStackList := (m_markStackList g)[m_markStack g :=
          (m_markStackList g ! m_markStack g)\<lparr>ms_last := l_stackLast l, ms_top := l_stack l\<rparr>],
       m_markStack := l_stackList l\<rparr>"

definition get_element :: "MarkLocals \<Rightarrow> GC \<Rightarrow> MarkStackElement" where
  "get_element l g = ms_elements (m_markStackList g ! l_stackList l) ! l_stack l"

definition set_element :: "MarkLocals \<Rightarrow> MarkStackElement \<Rightarrow> GC \<Rightarrow> GC" where
  "set_element l e g =
     (let s = m_markStackList g ! l_stackList l in
      g\<lparr>m_markStackList := (m_markStackList g)[l_stackList l := s\<lparr>ms_elements := (ms_elements s)[l_stack l := e]\<rparr>]\<rparr>)"

text \<open>The blocks that belong to a block, and the block it points to.\<close>

definition expand :: "ObjectView \<Rightarrow> BlockId \<Rightarrow> nat \<Rightarrow> nat \<times> u32" where
  "expand v b ptr =
     (if b_type b = DATATYPE_CLASS \<or> b_type b = DATATYPE_VALUETYPE then (ptr + 1, ucast (b_size b) - 1)
      else if b_type b = DATATYPE_SZARRAY then
        (if v_fReference v ptr then (v_GetFirstElement v ptr, v_numOfElements v ptr) else (0, 0))
      else if b_type b = DATATYPE_DELEGATE_HEAD then (v_object v ptr, 1)
      else if b_type b = DATATYPE_DELEGATELIST_HEAD then
        (if v_flags v ptr AND c_Weak \<noteq> 0 then (0, 0) else (v_GetDelegates v ptr, v_length v ptr))
      else (0, 0))"

definition target :: "ObjectView \<Rightarrow> BlockId \<Rightarrow> nat \<Rightarrow> nat" where
  "target v b ptr =
     (if b_type b = DATATYPE_OBJECT \<or> b_type b = DATATYPE_BYREF then v_Dereference v ptr
      else if b_type b = DATATYPE_ARRAY_BYREF then v_Array v ptr else 0)"

definition link_weak :: "ObjectView \<Rightarrow> nat \<Rightarrow> GC \<Rightarrow> GC" where
  "link_weak v ptr g =
     (if b_type (gc_ids g ptr) = DATATYPE_DELEGATELIST_HEAD \<and> v_flags v ptr AND c_Weak \<noteq> 0
      then g\<lparr>gc_links := LinkAtBack (m_weakDelegates_Reachable g) ptr (Node_Initialize ptr (gc_links g))\<rparr> else g)"

definition gc_MarkAlive :: "nat \<Rightarrow> GC \<Rightarrow> GC" where
  "gc_MarkAlive ptr g = g\<lparr>gc_ids := (gc_ids g)(ptr := MarkAlive (gc_ids g ptr))\<rparr>"

definition visit :: "ObjectView \<Rightarrow> nat \<Rightarrow> MarkLocals \<Rightarrow> GC \<Rightarrow> MarkLocals \<times> GC" where
  "visit v ptr l g =
     (let g = gc_MarkAlive ptr g; (first, count) = expand v (gc_ids g ptr) ptr;
          sub = target v (gc_ids g ptr) ptr; g = link_weak v ptr g in
      (if sub \<noteq> 0 \<and> \<not> IsAlive (gc_ids g sub) then l\<lparr>l_lst := sub, l_num := 1\<rparr>
       else l\<lparr>l_lst := first, l_num := count\<rparr>, g))"

section \<open>The mark stacks\<close>

definition mark_pop :: "ObjectView \<Rightarrow> MarkLocals \<Rightarrow> GC \<Rightarrow> (MarkLocals \<times> GC) gc_step" where
  "mark_pop v l g =
     (let (ptr, n) = get_element l g; g = set_element l (ptr + 1, n - 1) g in
      if n - 1 = 0 then
        (if l_stack l = 0 then Fault else Next (visit v ptr (l\<lparr>l_stack := l_stack l - 1\<rparr>) g))
      else Next (visit v ptr l g))"

definition mark_push :: "ObjectView \<Rightarrow> MarkLocals \<Rightarrow> GC \<Rightarrow> (MarkLocals \<times> GC) gc_step" where
  "mark_push v l g =
     (let ptr = l_lst l; l = l\<lparr>l_stack := l_stack l + 1\<rparr> in
      if l_stack l < length (ms_elements (m_markStackList g ! l_stackList l))
      then Next (visit v ptr l (set_element l (ptr + 1, l_num l - 1) g)) else Fault)"

text \<open>The allocator is asked for 128, 64, ... elements; when its answers are used up, it refuses.\<close>

fun try_stacks :: "nat \<Rightarrow> bool list \<Rightarrow> nat option \<times> bool list" where
  "try_stacks c [] = (None, [])"
| "try_stacks c (a # as) = (if c = 0 then (None, a # as) else if a then (Some c, as) else try_stacks (c div 2) as)"

definition mark_step :: "ObjectView \<Rightarrow> MarkLocals \<Rightarrow> GC \<Rightarrow> (MarkLocals \<times> GC) gc_step" where
  "mark_step v l g =
     (if l_num l = 0 then
        (if snd (get_element l g) = 0 then
           (if l_stackList l = 0 then Finished
            else (let g = save_state l g; g = g\<lparr>m_markStack := l_stackList l - 1\<rparr> in mark_pop v (load_state g l) g))
         else mark_pop v l g)
      else if 1 < l_num l then
        (if l_stack l = l_stackLast l then
           (if l_stackList l + 1 < length (m_markStackList g) then
              (let g = save_state l g; l = l\<lparr>l_stackList := l_stackList l + 1\<rparr> in mark_push v (load_state g l) g)
            else
              (case (if m_fOutOfStackSpaceForGC g then (None, gc_answers g) else try_stacks c_minimumSpaceForGC (gc_answers g)) of
                 (Some c, as) \<Rightarrow>
                   (let g = save_state l g;
                        g = g\<lparr>m_markStackList := m_markStackList g @ [MarkStack_Initialize c],
                              m_markStack := length (m_markStackList g), gc_answers := as\<rparr>
                    in mark_push v (load_state g l) g)
               | (None, as) \<Rightarrow>
                   Next (l\<lparr>l_lst := 0, l_num := 0\<rparr>, g\<lparr>m_fOutOfStackSpaceForGC := True, gc_answers := as\<rparr>)))
         else mark_push v l g)
      else Next (visit v (l_lst l) l g))"

fun mark_loop :: "nat \<Rightarrow> ObjectView \<Rightarrow> MarkLocals \<Rightarrow> GC \<Rightarrow> GC gc_run" where
  "mark_loop 0 v l g = OutOfFuel"
| "mark_loop (Suc fuel) v l g =
     (case mark_step v l g of
        Finished \<Rightarrow> Marked (save_state l g)
      | Fault \<Rightarrow> OutOfBounds
      | Next (l, g) \<Rightarrow> mark_loop fuel v l g)"

definition ComputeReachabilityGraphForMultipleBlocks :: "nat \<Rightarrow> ObjectView \<Rightarrow> nat \<Rightarrow> u32 \<Rightarrow> GC \<Rightarrow> GC gc_run" where
  "ComputeReachabilityGraphForMultipleBlocks fuel v lst num g =
     mark_loop fuel v (load_state g \<lparr>l_stackList = 0, l_stack = 0, l_stackLast = 0, l_lst = lst, l_num = num\<rparr>) g"

definition ComputeReachabilityGraphForSingleBlock :: "nat \<Rightarrow> ObjectView \<Rightarrow> nat \<Rightarrow> GC \<Rightarrow> GC gc_run" where
  "ComputeReachabilityGraphForSingleBlock fuel v obj g =
     (if obj = 0 \<or> IsAlive (gc_ids g obj) then Marked g
      else ComputeReachabilityGraphForMultipleBlocks fuel v obj 1 g)"

definition CheckSingleBlock_Force :: "nat \<Rightarrow> ObjectView \<Rightarrow> nat \<Rightarrow> GC \<Rightarrow> GC gc_run" where
  "CheckSingleBlock_Force fuel v ptr g =
     (if ptr \<noteq> 0 then ComputeReachabilityGraphForMultipleBlocks fuel v ptr 1 g else Marked g)"

definition CheckMultipleBlocks :: "nat \<Rightarrow> ObjectView \<Rightarrow> nat \<Rightarrow> u32 \<Rightarrow> GC \<Rightarrow> GC gc_run" where
  "CheckMultipleBlocks fuel v lst num g =
     (if lst \<noteq> 0 then ComputeReachabilityGraphForMultipleBlocks fuel v lst num g else Marked g)"

section \<open>The roots\<close>

text \<open>The three calls by which roots are given to the marking.\<close>

datatype Root = SingleBlock nat | ForcedBlock nat | MultipleBlocks nat u32

fun check_root :: "nat \<Rightarrow> ObjectView \<Rightarrow> Root \<Rightarrow> GC \<Rightarrow> GC gc_run" where
  "check_root fuel v (SingleBlock obj) g = ComputeReachabilityGraphForSingleBlock fuel v obj g"
| "check_root fuel v (ForcedBlock ptr) g = CheckSingleBlock_Force fuel v ptr g"
| "check_root fuel v (MultipleBlocks lst num) g = CheckMultipleBlocks fuel v lst num g"

fun gc_bind :: "'a gc_run \<Rightarrow> ('a \<Rightarrow> 'b gc_run) \<Rightarrow> 'b gc_run" where
  "gc_bind (Marked g) k = k g"
| "gc_bind OutOfFuel k = OutOfFuel"
| "gc_bind OutOfBounds k = OutOfBounds"

fun check_roots :: "nat \<Rightarrow> ObjectView \<Rightarrow> Root list \<Rightarrow> GC \<Rightarrow> GC gc_run" where
  "check_roots fuel v [] g = Marked g"
| "check_roots fuel v (r # rs) g = gc_bind (check_root fuel v r g) (check_roots fuel v rs)"

record ProtectFromGC =
  pf_fpn :: "Root list option"
  pf_data :: nat

record StackFrame =
  sf_arguments :: nat
  sf_numArgs :: u32
  sf_locals :: nat
  sf_numLocals :: u32
  sf_evalStack :: nat
  sf_TopValuePosition :: u32

record Thread =
  th_dlg :: nat
  th_currentException :: nat
  th_nestedExceptions :: "nat list"
  th_stackFrames :: "StackFrame list"
  th_locks :: "nat list"
  th_waitForObject :: "(nat \<times> u32) option"

record AssemblyStatics =
  as_pStaticFields :: nat
  as_iStaticFields :: u32
  as_pFile :: nat

record EngineRoots =
  er_protected :: "ProtectFromGC list"
  er_finalizersPending :: "nat list"
  er_assemblies :: "AssemblyStatics list"
  er_threadsReady :: "Thread list"
  er_threadsWaiting :: "Thread list"
  er_globalLock :: nat
  er_currentUICulture :: nat

text \<open>A callback stands for the checks it makes.\<close>

definition ProtectFromGC_Invoke :: "ProtectFromGC \<Rightarrow> Root list" where
  "ProtectFromGC_Invoke p =
     (case pf_fpn p of Some checks \<Rightarrow> checks | None \<Rightarrow> if pf_data p \<noteq> 0 then [MultipleBlocks (pf_data p) 1] else [])"

definition Assembly_Mark :: "AssemblyStatics list \<Rightarrow> Root list" where
  "Assembly_Mark as =
     concat (map (\<lambda>a. [MultipleBlocks (as_pStaticFields a) (as_iStaticFields a), SingleBlock (as_pFile a)]) as)"

definition Thread_Mark :: "Thread \<Rightarrow> Root list" where
  "Thread_Mark th =
     [SingleBlock (th_dlg th), ForcedBlock (th_currentException th)] @ map ForcedBlock (th_nestedExceptions th) @
     concat (map (\<lambda>s. [MultipleBlocks (sf_arguments s) (sf_numArgs s), MultipleBlocks (sf_locals s) (sf_numLocals s),
                       MultipleBlocks (sf_evalStack s) (sf_TopValuePosition s)]) (th_stackFrames th)) @
     map ForcedBlock (th_locks th) @
     (case th_waitForObject th of None \<Rightarrow> [] | Some (objects, n) \<Rightarrow> [MultipleBlocks objects n])"

definition mark_roots :: "EngineRoots \<Rightarrow> Root list" where
  "mark_roots e =
     concat (map ProtectFromGC_Invoke (er_protected e)) @ map SingleBlock (er_finalizersPending e) @
     Assembly_Mark (er_assemblies e) @ concat (map Thread_Mark (er_threadsReady e)) @
     concat (map Thread_Mark (er_threadsWaiting e)) @ [ForcedBlock (er_globalLock e), ForcedBlock (er_currentUICulture e)]"

section \<open>The mark phase\<close>

fun slow_walk :: "nat \<Rightarrow> nat \<Rightarrow> ObjectView \<Rightarrow> nat \<Rightarrow> nat \<Rightarrow> GC \<Rightarrow> GC gc_run" where
  "slow_walk 0 fuel v ptr end' g = OutOfFuel"
| "slow_walk (Suc n) fuel v ptr end' g =
     (if ptr < end' then
        gc_bind (if IsAlive (gc_ids g ptr) \<and> \<not> IsEvent (gc_ids g ptr) then CheckSingleBlock_Force fuel v ptr g else Marked g)
          (\<lambda>g. slow_walk n fuel v (ptr + unat (b_size (gc_ids g ptr))) end' g)
      else Marked g)"

fun slow_clusters :: "nat \<Rightarrow> ObjectView \<Rightarrow> (nat \<times> nat) list \<Rightarrow> GC \<Rightarrow> GC gc_run" where
  "slow_clusters fuel v [] g = Marked g"
| "slow_clusters fuel v ((start, end') # hcs) g = gc_bind (slow_walk fuel fuel v start end' g) (slow_clusters fuel v hcs)"

fun MarkSlow :: "nat \<Rightarrow> nat \<Rightarrow> ObjectView \<Rightarrow> (nat \<times> nat) list \<Rightarrow> GC \<Rightarrow> GC gc_run" where
  "MarkSlow 0 fuel v hcs g = OutOfFuel"
| "MarkSlow (Suc n) fuel v hcs g =
     (if m_fOutOfStackSpaceForGC g
      then gc_bind (slow_clusters fuel v hcs (g\<lparr>m_fOutOfStackSpaceForGC := False\<rparr>)) (MarkSlow n fuel v hcs)
      else Marked g)"

text \<open>A finalizer is its node and its object; those with dead objects move to the pending ones.\<close>

fun finalize_dead :: "nat \<Rightarrow> ObjectView \<Rightarrow> (nat \<times> nat) list \<Rightarrow> GC \<Rightarrow> (GC \<times> nat list) gc_run" where
  "finalize_dead fuel v [] g = Marked (g, [])"
| "finalize_dead fuel v ((fin, obj) # fins) g =
     (if \<not> IsAlive (gc_ids g obj) then
        gc_bind (ComputeReachabilityGraphForSingleBlock fuel v obj g) (\<lambda>g.
        gc_bind (finalize_dead fuel v fins g) (\<lambda>(g, pending). Marked (g, fin # pending)))
      else finalize_dead fuel v fins g)"

definition Mark :: "nat \<Rightarrow> ObjectView \<Rightarrow> EngineRoots \<Rightarrow> (nat \<times> nat) list \<Rightarrow> (nat \<times> nat) list \<Rightarrow> GC \<Rightarrow> (GC \<times> nat list) gc_run" where
  "Mark fuel v e hcs finalizersAlive g =
     (let g = g\<lparr>m_fOutOfStackSpaceForGC := False, gc_links := List_Initialize (m_weakDelegates_Reachable g) (gc_links g),
                m_markStackList := [MarkStack_Initialize c_minimumSpaceForGC], m_markStack := 0\<rparr> in
      gc_bind (check_roots fuel v (mark_roots e) g) (\<lambda>g.
      gc_bind (MarkSlow fuel fuel v hcs g) (\<lambda>g.
      gc_bind (finalize_dead fuel v finalizersAlive g) (\<lambda>(g, pending).
      gc_bind (MarkSlow fuel fuel v hcs g) (\<lambda>g.
      Marked (g\<lparr>m_markStackList := take 1 (m_markStackList g)\<rparr>, pending))))))"

end
