(* ===== verification/GcMarking.thy ===== *)
theory GcMarking imports GarbageCollector begin

text \<open>
  The marking of \<^verbatim>\<open>GarbageCollector.thy\<close> is exact. The mark stacks are seen as the list of the runs
  of blocks that are still to be visited; the invariant relates the blocks already visited, those
  in the list and those that were dropped when no memory was left for another stack.
\<close>

section \<open>The graph of the blocks\<close>

definition blocks :: "nat \<times> u32 \<Rightarrow> nat set" where
  "blocks r = {fst r..<fst r + unat (snd r)}"

definition kids :: "ObjectView \<Rightarrow> (nat \<Rightarrow> BlockId) \<Rightarrow> nat \<Rightarrow> nat set" where
  "kids v ids p = blocks (expand v (ids p) p)"

definition edges :: "ObjectView \<Rightarrow> (nat \<Rightarrow> BlockId) \<Rightarrow> (nat \<times> nat) set" where
  "edges v ids = {(p, q). q \<in> kids v ids p \<or> (q \<noteq> 0 \<and> q = target v (ids p) p)}"

definition reach :: "ObjectView \<Rightarrow> (nat \<Rightarrow> BlockId) \<Rightarrow> nat set \<Rightarrow> nat set" where
  "reach v ids R = (edges v ids)\<^sup>* `` R"

definition marked :: "nat set \<Rightarrow> (nat \<Rightarrow> BlockId) \<Rightarrow> nat \<Rightarrow> BlockId" where
  "marked D ids = (\<lambda>p. if p \<in> D then MarkAlive (ids p) else ids p)"

lemma blocks_simps [simp]: "blocks (a, 0) = {}" "blocks (a, 1) = {a}"
  by (auto simp: blocks_def)

lemma blocks_split:
  assumes "n \<noteq> 0"
  shows "blocks (a, n) = insert a (blocks (a + 1, n - 1))"
proof -
  have "unat n \<noteq> 0" using assms by (simp add: unat_eq_0)
  moreover have "unat (n - 1) = unat n - 1" using assms by (simp add: unat_minus_one)
  ultimately show ?thesis by (auto simp: blocks_def)
qed

lemma marked_simps [simp]:
  "IsAlive (marked D ids p) \<longleftrightarrow> p \<in> D \<or> IsAlive (ids p)" "b_type (marked D ids p) = b_type (ids p)"
  "b_size (marked D ids p) = b_size (ids p)" "IsEvent (marked D ids p) = IsEvent (ids p)" "marked {} ids = ids"
  by (simp_all add: marked_def)

lemma marked_marked [simp]: "marked D (marked E ids) = marked (D \<union> E) ids"
  by (auto simp: marked_def MarkAlive_idem)

lemma same_kinds:
  assumes "b_type b' = b_type b" "b_size b' = b_size b"
  shows "expand v b' p = expand v b p" "target v b' p = target v b p"
  by (simp_all add: expand_def target_def assms)

lemma kids_marked [simp]:
  "expand v (marked D ids p) q = expand v (ids p) q" "target v (marked D ids p) q = target v (ids p) q"
  "kids v (marked D ids) = kids v ids" "edges v (marked D ids) = edges v ids" "reach v (marked D ids) = reach v ids"
  by (simp_all add: same_kinds [of "marked D ids p" "ids p"] same_kinds [of "marked D ids q" "ids q" for q]
      kids_def edges_def reach_def fun_eq_iff)

lemma reach_base: "R \<subseteq> reach v ids R"
  by (auto simp: reach_def)

lemma reach_mono: "R \<subseteq> S \<Longrightarrow> reach v ids R \<subseteq> reach v ids S"
  by (auto simp: reach_def)

lemma reach_kid: "p \<in> reach v ids R \<Longrightarrow> q \<in> kids v ids p \<Longrightarrow> q \<in> reach v ids R"
  by (auto simp: reach_def edges_def intro: rtrancl_into_rtrancl)

lemma reach_target: "p \<in> reach v ids R \<Longrightarrow> target v (ids p) p \<noteq> 0 \<Longrightarrow> target v (ids p) p \<in> reach v ids R"
  by (auto simp: reach_def edges_def intro: rtrancl_into_rtrancl)

lemma reach_closed:
  assumes "R \<subseteq> D" "\<And>p. p \<in> D \<Longrightarrow> kids v ids p \<subseteq> D" "\<And>p. p \<in> D \<Longrightarrow> target v (ids p) p \<noteq> 0 \<Longrightarrow> target v (ids p) p \<in> D"
  shows "reach v ids R \<subseteq> D"
proof -
  have "(p, q) \<in> (edges v ids)\<^sup>* \<Longrightarrow> p \<in> D \<Longrightarrow> q \<in> D" for p q
    by (induction rule: rtrancl_induct) (use assms(2,3) in \<open>auto simp: edges_def\<close>)
  then show ?thesis using assms(1) by (auto simp: reach_def)
qed

section \<open>The runs to be visited\<close>

definition entries :: "MarkStack \<Rightarrow> nat \<Rightarrow> MarkStackElement list" where
  "entries s k = take k (tl (ms_elements s))"

definition waiting :: "MarkLocals \<Rightarrow> GC \<Rightarrow> MarkStackElement list" where
  "waiting l g = concat (map (\<lambda>s. entries s (ms_top s)) (take (l_stackList l) (m_markStackList g))) @
     entries (m_markStackList g ! l_stackList l) (l_stack l)"

definition frontier :: "MarkLocals \<Rightarrow> GC \<Rightarrow> MarkStackElement list" where
  "frontier l g = waiting l g @ (if l_num l = 0 then [] else [(l_lst l, l_num l)])"

text \<open>A stack has a sentinel and room for one element at least; the stacks below the current one are full.\<close>

definition stack_ok :: "MarkStack \<Rightarrow> bool" where
  "stack_ok s \<longleftrightarrow> ms_last s = length (ms_elements s) - 1 \<and> 0 < ms_last s \<and> snd (hd (ms_elements s)) = 0"

definition stacks_ok :: "MarkLocals \<Rightarrow> GC \<Rightarrow> bool" where
  "stacks_ok l g \<longleftrightarrow> l_stackList l = m_markStack g \<and> m_markStack g < length (m_markStackList g) \<and>
     (\<forall>s\<in>set (m_markStackList g). stack_ok s) \<and> l_stackLast l = ms_last (m_markStackList g ! m_markStack g) \<and>
     l_stack l \<le> l_stackLast l \<and> (\<forall>e\<in>set (waiting l g). snd e \<noteq> 0) \<and>
     (\<forall>i<m_markStack g. ms_top (m_markStackList g ! i) = ms_last (m_markStackList g ! i))"

text \<open>What the operations on the stacks leave alone.\<close>

definition same_heap :: "GC \<Rightarrow> GC \<Rightarrow> bool" where
  "same_heap g g' \<longleftrightarrow> gc_ids g' = gc_ids g \<and> gc_links g' = gc_links g \<and> m_weakDelegates_Reachable g' = m_weakDelegates_Reachable g"

lemma stack_okD:
  assumes "stack_ok s"
  shows "ms_elements s = hd (ms_elements s) # tl (ms_elements s)" "length (tl (ms_elements s)) = ms_last s"
    "ms_elements s ! 0 = hd (ms_elements s)" "length (ms_elements s) = Suc (ms_last s)"
  using assms by (cases "ms_elements s"; simp add: stack_ok_def)+

lemma entries_Suc:
  assumes "stack_ok s" "k < ms_last s"
  shows "entries s (Suc k) = entries s k @ [ms_elements s ! Suc k]"
proof -
  have "tl (ms_elements s) ! k = ms_elements s ! Suc k"
    using stack_okD(2) [OF assms(1)] assms(2) by (simp add: nth_tl)
  then show ?thesis using stack_okD(2) [OF assms(1)] assms(2) by (simp add: entries_def take_Suc_conv_app_nth)
qed

lemma entries_update:
  "k < i \<Longrightarrow> entries (s\<lparr>ms_elements := (ms_elements s)[i := e]\<rparr>) k = entries s k"
  by (cases "ms_elements s"; cases i) (simp_all add: entries_def)

lemma stack_ok_update: "stack_ok s \<Longrightarrow> 0 < i \<Longrightarrow> stack_ok (s\<lparr>ms_elements := (ms_elements s)[i := e]\<rparr>)"
  by (cases "ms_elements s"; cases i) (auto simp: stack_ok_def)

abbreviation current :: "MarkLocals \<Rightarrow> GC \<Rightarrow> MarkStack" where
  "current l g \<equiv> m_markStackList g ! l_stackList l"

definition lower :: "MarkLocals \<Rightarrow> GC \<Rightarrow> MarkStackElement list" where
  "lower l g = concat (map (\<lambda>s. entries s (ms_top s)) (take (l_stackList l) (m_markStackList g)))"

lemma waiting_lower: "waiting l g = lower l g @ entries (current l g) (l_stack l)"
  by (simp add: waiting_def lower_def)

lemma stack_ok_pos: "stack_ok s \<Longrightarrow> 0 < ms_last s"
  unfolding stack_ok_def by blast

lemma stack_ok_top [simp]: "stack_ok (s\<lparr>ms_top := k\<rparr>) = stack_ok s"
  by (simp add: stack_ok_def)

lemma stacks_okD:
  assumes "stacks_ok l g"
  shows "l_stackList l = m_markStack g" "m_markStack g < length (m_markStackList g)" "stack_ok (current l g)"
    "l_stackLast l = ms_last (current l g)" "l_stack l \<le> ms_last (current l g)"
    "\<And>s. s \<in> set (m_markStackList g) \<Longrightarrow> stack_ok s" "\<And>e. e \<in> set (waiting l g) \<Longrightarrow> snd e \<noteq> 0"
    "\<And>i. i < m_markStack g \<Longrightarrow> ms_top (m_markStackList g ! i) = ms_last (m_markStackList g ! i)"
  using assms by (auto simp: stacks_ok_def)

lemma sentinel:
  assumes "stacks_ok l g" "l_stack l = 0"
  shows "snd (get_element l g) = 0"
proof -
  note s = stacks_okD(3) [OF assms(1)]
  from stack_okD(3) [OF s] s show ?thesis by (simp add: get_element_def stack_ok_def assms(2))
qed

lemma waiting_top:
  assumes "stacks_ok l g" "0 < l_stack l"
  shows "waiting l g = lower l g @ entries (current l g) (l_stack l - 1) @ [get_element l g]" "snd (get_element l g) \<noteq> 0"
proof -
  note S = stacks_okD [OF assms(1)]
  have "l_stack l = Suc (l_stack l - 1)" "l_stack l - 1 < ms_last (current l g)" using assms(2) S(5) by auto
  from entries_Suc [OF S(3) this(2)] this(1)
  have "entries (current l g) (l_stack l) = entries (current l g) (l_stack l - 1) @ [get_element l g]"
    by (simp add: get_element_def)
  then show w: "waiting l g = lower l g @ entries (current l g) (l_stack l - 1) @ [get_element l g]" by (simp add: waiting_lower)
  show "snd (get_element l g) \<noteq> 0" by (rule S(7)) (simp add: w)
qed

lemma set_element_simps [simp]:
  "gc_ids (set_element l e g) = gc_ids g" "gc_links (set_element l e g) = gc_links g"
  "m_weakDelegates_Reachable (set_element l e g) = m_weakDelegates_Reachable g" "m_markStack (set_element l e g) = m_markStack g"
  "m_fOutOfStackSpaceForGC (set_element l e g) = m_fOutOfStackSpaceForGC g" "gc_answers (set_element l e g) = gc_answers g"
  "length (m_markStackList (set_element l e g)) = length (m_markStackList g)"
  by (simp_all add: set_element_def Let_def)

text \<open>Writing the element at the top of the current stack.\<close>

lemma waiting_set:
  assumes "stacks_ok l g" "0 < i" "i \<le> ms_last (current l g)" "l_stackList l' = l_stackList l" "l_stack l' = i"
  shows "waiting (l'\<lparr>l_stack := i - 1\<rparr>) (set_element l' e g) = lower l g @ entries (current l g) (i - 1)"
    "waiting l' (set_element l' e g) = lower l g @ entries (current l g) (i - 1) @ [e]"
    "\<forall>s\<in>set (m_markStackList (set_element l' e g)). stack_ok s"
    "\<And>j. j < m_markStack g \<Longrightarrow> m_markStackList (set_element l' e g) ! j = m_markStackList g ! j"
    "ms_last (current l' (set_element l' e g)) = ms_last (current l g)"
proof -
  note S = stacks_okD [OF assms(1)]
  let ?s = "current l g" and ?g = "set_element l' e g"
  let ?t = "?s\<lparr>ms_elements := (ms_elements ?s)[i := e]\<rparr>"
  have list: "m_markStackList ?g = (m_markStackList g)[l_stackList l := ?t]"
    by (simp add: set_element_def Let_def assms(4,5))
  have cur: "current l' ?g = ?t" using S(1,2) list assms(4) by simp
  have low: "lower l' ?g = lower l g" by (simp add: lower_def list assms(4))
  have ok: "stack_ok ?t" by (rule stack_ok_update [OF S(3) assms(2)])
  then show "\<forall>s\<in>set (m_markStackList ?g). stack_ok s"
    unfolding list using S(6) by (auto dest: set_update_subset_insert [THEN subsetD])
  have below: "entries ?t (i - 1) = entries ?s (i - 1)" using assms(2) by (intro entries_update) simp
  have "current (l'\<lparr>l_stack := i - 1\<rparr>) ?g = ?t" "lower (l'\<lparr>l_stack := i - 1\<rparr>) ?g = lower l g"
    using cur low by (simp_all add: lower_def)
  then show "waiting (l'\<lparr>l_stack := i - 1\<rparr>) ?g = lower l g @ entries ?s (i - 1)"
    unfolding waiting_lower using below by simp
  have "entries ?t (Suc (i - 1)) = entries ?t (i - 1) @ [ms_elements ?t ! Suc (i - 1)]"
    by (rule entries_Suc [OF ok]) (use assms(2,3) in simp)
  then have "entries ?t i = entries ?s (i - 1) @ [e]"
    using assms(2,3) below stack_okD(4) [OF S(3)] by simp
  then show "waiting l' ?g = lower l g @ entries ?s (i - 1) @ [e]" unfolding waiting_lower cur low by (simp add: assms(5))
  show "m_markStackList ?g ! j = m_markStackList g ! j" if "j < m_markStack g" for j
    using that S(1) by (simp add: list)
  show "ms_last (current l' ?g) = ms_last ?s" unfolding cur by simp
qed

text \<open>A state of the marking after the stacks have been worked on: the next block is about to be visited.\<close>

definition taken :: "MarkLocals \<Rightarrow> GC \<Rightarrow> MarkStackElement list \<Rightarrow> MarkLocals \<Rightarrow> GC \<Rightarrow> bool" where
  "taken l g ws l' g' \<longleftrightarrow> stacks_ok l' g' \<and> waiting l' g' = ws \<and> same_heap g g' \<and>
     m_fOutOfStackSpaceForGC g' = m_fOutOfStackSpaceForGC g \<and> set (gc_answers g') \<subseteq> set (gc_answers g) \<and>
     (length (m_markStackList g') = length (m_markStackList g) \<or> True \<in> set (gc_answers g))"

lemma mark_pop_spec:
  assumes "stacks_ok l g" "0 < l_stack l"
  shows "\<exists>ds p n l' g'. waiting l g = ds @ [(p, n)] \<and> n \<noteq> 0 \<and> mark_pop v l g = Next (visit v p l' g') \<and>
    taken l g (ds @ (if n = 1 then [] else [(p + 1, n - 1)])) l' g'"
proof -
  note S = stacks_okD [OF assms(1)]
  obtain p n where e: "get_element l g = (p, n)" by (cases "get_element l g")
  let ?ds = "lower l g @ entries (current l g) (l_stack l - 1)" and ?g = "set_element l (p + 1, n - 1) g"
  note W = waiting_top [OF assms, unfolded e snd_conv]
  note U = waiting_set [OF assms(1,2) S(5) refl refl, where e = "(p + 1, n - 1)"]
  have ds: "snd e \<noteq> 0" if "e \<in> set ?ds" for e using S(7) [of e] that W(1) by auto
  have one: "n - 1 = 0 \<longleftrightarrow> n = 1" by simp
  show ?thesis
  proof (cases "n = 1")
    case True
    let ?l = "l\<lparr>l_stack := l_stack l - 1\<rparr>"
    have "mark_pop v l g = Next (visit v p ?l ?g)" using True assms(2) by (simp add: mark_pop_def e)
    moreover have "taken l g ?ds ?l ?g"
      unfolding taken_def same_heap_def using S U ds by (auto simp: stacks_ok_def)
    ultimately show ?thesis using W True by (intro exI [of _ ?ds] exI [of _ p] exI [of _ n] exI [of _ ?l] exI [of _ ?g]) simp
  next
    case False
    have "mark_pop v l g = Next (visit v p l ?g)" using False by (simp add: mark_pop_def e)
    moreover have "taken l g (?ds @ [(p + 1, n - 1)]) l ?g"
      unfolding taken_def same_heap_def using S U ds False by (auto simp: stacks_ok_def)
    ultimately show ?thesis using W False by (intro exI [of _ ?ds] exI [of _ p] exI [of _ n] exI [of _ l] exI [of _ ?g]) simp
  qed
qed

lemma mark_push_spec:
  assumes "stacks_ok l g" "l_stack l < l_stackLast l" "1 < l_num l"
  shows "\<exists>l' g'. mark_push v l g = Next (visit v (l_lst l) l' g') \<and> taken l g (waiting l g @ [(l_lst l + 1, l_num l - 1)]) l' g'"
proof -
  note S = stacks_okD [OF assms(1)]
  let ?l = "l\<lparr>l_stack := l_stack l + 1\<rparr>" and ?e = "(l_lst l + 1, l_num l - 1)"
  let ?g = "set_element ?l ?e g"
  have U: "waiting ?l ?g = waiting l g @ [?e]" "\<forall>s\<in>set (m_markStackList ?g). stack_ok s"
    "\<And>j. j < m_markStack g \<Longrightarrow> m_markStackList ?g ! j = m_markStackList g ! j" "ms_last (current l ?g) = ms_last (current l g)"
    using waiting_set [OF assms(1), where i = "l_stack l + 1" and l' = ?l and e = ?e] assms(2) S(4) by (simp_all add: waiting_lower)
  have "l_num l - 1 \<noteq> 0" using assms(3) by auto
  then have "taken l g (waiting l g @ [?e]) ?l ?g"
    unfolding taken_def same_heap_def using S U assms(2) by (auto simp: stacks_ok_def)
  moreover have "mark_push v l g = Next (visit v (l_lst l) ?l ?g)"
    using assms(2) S(4) stack_okD(4) [OF S(3)] by (simp add: mark_push_def Let_def)
  ultimately show ?thesis by blast
qed

lemma mark_push_full: "stacks_ok l g \<Longrightarrow> l_stack l = l_stackLast l \<Longrightarrow> mark_push v l g = Fault"
  using stacks_okD(3,4) stack_okD(4) by (fastforce simp: mark_push_def Let_def)

lemma save_state_simps [simp]:
  "gc_ids (save_state l g) = gc_ids g" "gc_links (save_state l g) = gc_links g"
  "m_weakDelegates_Reachable (save_state l g) = m_weakDelegates_Reachable g" "m_markStack (save_state l g) = l_stackList l"
  "m_fOutOfStackSpaceForGC (save_state l g) = m_fOutOfStackSpaceForGC g" "gc_answers (save_state l g) = gc_answers g"
  "length (m_markStackList (save_state l g)) = length (m_markStackList g)"
  by (simp_all add: save_state_def)

lemma load_state_simps [simp]:
  "l_lst (load_state g l) = l_lst l" "l_num (load_state g l) = l_num l" "l_stackList (load_state g l) = m_markStack g"
  "l_stack (load_state g l) = ms_top (m_markStackList g ! m_markStack g)"
  "l_stackLast (load_state g l) = ms_last (m_markStackList g ! m_markStack g)"
  by (simp_all add: load_state_def Let_def)

text \<open>Saving the state changes the recorded top of the current stack only.\<close>

lemma save_state_list:
  assumes "stacks_ok l g"
  shows "m_markStackList (save_state l g) = (m_markStackList g)[m_markStack g := (current l g)\<lparr>ms_top := l_stack l\<rparr>]"
    "\<forall>s\<in>set (m_markStackList (save_state l g)). stack_ok s"
    "m_markStackList (save_state l g) ! m_markStack g = (current l g)\<lparr>ms_top := l_stack l\<rparr>"
proof -
  note S = stacks_okD [OF assms]
  show l: "m_markStackList (save_state l g) = (m_markStackList g)[m_markStack g := (current l g)\<lparr>ms_top := l_stack l\<rparr>]"
    using S(1,4) by (simp add: save_state_def)
  have "stack_ok ((current l g)\<lparr>ms_top := l_stack l\<rparr>)" using S(3) by simp
  then show "\<forall>s\<in>set (m_markStackList (save_state l g)). stack_ok s"
    unfolding l using S(6) by (auto dest: set_update_subset_insert [THEN subsetD])
  show "m_markStackList (save_state l g) ! m_markStack g = (current l g)\<lparr>ms_top := l_stack l\<rparr>" unfolding l using S(2) by simp
qed

lemma entries_top [simp]: "entries (s\<lparr>ms_top := k\<rparr>) j = entries s j" "entries (MarkStack_Initialize n) 0 = []"
  by (simp_all add: entries_def)

text \<open>The current stack is exhausted and the one below it is taken up again.\<close>

lemma previous_stack:
  assumes "stacks_ok l g" "l_stack l = 0" "l_stackList l \<noteq> 0"
  defines "g1 \<equiv> (save_state l g)\<lparr>m_markStack := l_stackList l - 1\<rparr>"
  shows "taken l g (waiting l g) (load_state g1 l) g1" "0 < l_stack (load_state g1 l)"
proof -
  note S = stacks_okD [OF assms(1)] and V = save_state_list [OF assms(1)]
  obtain i where i: "m_markStack g = Suc i" using S(1) assms(3) by (cases "m_markStack g") auto
  have list: "m_markStackList g1 = (m_markStackList g)[Suc i := (current l g)\<lparr>ms_top := l_stack l\<rparr>]"
    by (simp add: g1_def V(1) i)
  have ms: "m_markStack g1 = i" using S(1) i by (simp add: g1_def)
  have below: "take i (m_markStackList g1) = take i (m_markStackList g)" "\<And>j. j \<le> i \<Longrightarrow> m_markStackList g1 ! j = m_markStackList g ! j"
    by (simp_all add: list)
  have full: "\<And>j. j \<le> i \<Longrightarrow> ms_top (m_markStackList g ! j) = ms_last (m_markStackList g ! j)" using S(8) i by simp
  have "waiting (load_state g1 l) g1 = concat (map (\<lambda>s. entries s (ms_top s)) (take (Suc i) (m_markStackList g)))"
    using below S(2) i by (simp add: waiting_def ms take_Suc_conv_app_nth)
  moreover have "waiting l g = concat (map (\<lambda>s. entries s (ms_top s)) (take (Suc i) (m_markStackList g)))"
    using S(1) i assms(2) by (simp add: waiting_def entries_def)
  ultimately have w: "waiting (load_state g1 l) g1 = waiting l g" by simp
  have ok: "\<forall>s\<in>set (m_markStackList g1). stack_ok s" using V(2) by (simp add: g1_def)
  have len: "length (m_markStackList g1) = length (m_markStackList g)" by (simp add: g1_def)
  have "stacks_ok (load_state g1 l) g1"
    unfolding stacks_ok_def w using S(2,7) ok len full below(2) by (auto simp: ms i)
  then show "taken l g (waiting l g) (load_state g1 l) g1"
    using w len by (simp add: taken_def same_heap_def g1_def)
  have "stack_ok (m_markStackList g ! i)" using S(2,6) i by simp
  then have "0 < ms_last (m_markStackList g ! i)" unfolding stack_ok_def by blast
  then show "0 < l_stack (load_state g1 l)" using full [of i] below(2) [of i] by (simp add: ms)
qed

lemma try_stacks_spec:
  "try_stacks c as = (r, as') \<Longrightarrow> set as' \<subseteq> set as \<and> (\<forall>n. r = Some n \<longrightarrow> 0 < n \<and> True \<in> set as)"
  by (induction c as rule: try_stacks.induct) (auto split: if_splits)

text \<open>A stack is added on top of the full one.\<close>

lemma another_stack:
  assumes "stacks_ok l g" "l_stack l = l_stackLast l" "l_stackList l + 1 = length (m_markStackList g)"
    and "0 < c" "True \<in> set (gc_answers g)" "set as \<subseteq> set (gc_answers g)"
  defines "g1 \<equiv> save_state l g"
  defines "g2 \<equiv> g1\<lparr>m_markStackList := m_markStackList g1 @ [MarkStack_Initialize c], m_markStack := length (m_markStackList g1), gc_answers := as\<rparr>"
  shows "c \<noteq> 1 \<Longrightarrow> taken l g (waiting l g) (load_state g2 l) g2" "c \<noteq> 1 \<Longrightarrow> l_stack (load_state g2 l) < l_stackLast (load_state g2 l)"
    "c = 1 \<Longrightarrow> mark_push v (load_state g2 l) g2 = Fault"
proof -
  note S = stacks_okD [OF assms(1)] and V = save_state_list [OF assms(1)]
  let ?n = "length (m_markStackList g)"
  have ms: "m_markStack g2 = ?n" "Suc (m_markStack g) = ?n" using S(1) assms(3) by (simp_all add: g2_def g1_def)
  have list: "m_markStackList g2 = m_markStackList g1 @ [MarkStack_Initialize c]" by (simp add: g2_def)
  have len: "length (m_markStackList g1) = ?n" by (simp add: g1_def)
  have top: "m_markStackList g2 ! ?n = MarkStack_Initialize c" by (simp add: list len [symmetric])
  have "m_markStackList g1 = take (m_markStack g) (m_markStackList g) @ [(current l g)\<lparr>ms_top := l_stack l\<rparr>]"
    using ms(2) S(2) by (simp add: g1_def V(1) upd_conv_take_nth_drop)
  then have all: "concat (map (\<lambda>s. entries s (ms_top s)) (m_markStackList g1)) = waiting l g"
    using S(1) by (simp add: waiting_def)
  have front: "take ?n (m_markStackList g2) = m_markStackList g1" by (simp add: list len [symmetric])
  have init: "ms_top (MarkStack_Initialize c) = 0" by (simp add: MarkStack_Initialize_def)
  have len2: "length (m_markStackList g2) = Suc ?n" by (simp add: list len)
  have w: "waiting (load_state g2 l) g2 = waiting l g"
    by (simp add: waiting_def [of "load_state g2 l"] ms(1) top init front all)
  show "taken l g (waiting l g) (load_state g2 l) g2" if "c \<noteq> 1"
  proof -
    have "\<forall>s\<in>set (m_markStackList g2). stack_ok s"
      using V(2) that assms(4) by (auto simp: list g1_def stack_ok_def MarkStack_Initialize_def hd_replicate)
    moreover have "ms_top (m_markStackList g2 ! j) = ms_last (m_markStackList g2 ! j)" if j: "j < ?n" for j
    proof (cases "j = m_markStack g")
      case True
      then show ?thesis using V(3) j S(4) assms(2) by (simp add: list nth_append len) (simp add: g1_def)
    next
      case False
      then have "j < m_markStack g" using j ms(2) by simp
      then show ?thesis using S(8) j by (simp add: list nth_append len) (simp add: g1_def V(1))
    qed
    ultimately have "stacks_ok (load_state g2 l) g2"
      unfolding stacks_ok_def w using S(7) by (auto simp: ms(1) len2 top init)
    then show ?thesis using w assms(5,6) by (simp add: taken_def same_heap_def g2_def g1_def)
  qed
  show "l_stack (load_state g2 l) < l_stackLast (load_state g2 l)" if "c \<noteq> 1"
    using that assms(4) by (simp add: ms(1) top) (simp add: MarkStack_Initialize_def)
  show "mark_push v (load_state g2 l) g2 = Fault" if "c = 1"
    using that by (simp add: mark_push_def Let_def ms(1) top) (simp add: MarkStack_Initialize_def)
qed

lemma waiting_Nil:
  assumes "stacks_ok l g" "waiting l g = []"
  shows "l_stack l = 0" "l_stackList l = 0"
proof -
  note S = stacks_okD [OF assms(1)]
  show "l_stack l = 0" using waiting_top(1) [OF assms(1)] assms(2) by (cases "l_stack l") auto
  show "l_stackList l = 0"
  proof (rule ccontr)
    assume "l_stackList l \<noteq> 0"
    then have z: "0 < m_markStack g" using S(1) by simp
    let ?s = "m_markStackList g ! 0"
    have "?s \<in> set (take (l_stackList l) (m_markStackList g))" using z S(1,2) by (metis in_set_conv_nth length_take min_less_iff_conj nth_take order_less_trans)
    then have "entries ?s (ms_top ?s) = []" using assms(2) by (auto simp: waiting_def)
    moreover have s: "stack_ok ?s" using z S(2) by (intro S(6) nth_mem) linarith
    moreover have "tl (ms_elements ?s) \<noteq> []" "0 < ms_last ?s"
      using stack_okD(2) [OF s] s unfolding stack_ok_def by (metis length_0_conv less_numeral_extra(3)) (rule stack_ok_pos [OF s])
    ultimately show False using S(8) [OF z] by (simp add: entries_def)
  qed
qed

text \<open>
  A round of the marking on the frontier: the first block of its last run is visited, or the run
  that does not fit on any stack is dropped, or the buffer is overrun, which takes a second stack.
\<close>

lemma mark_step_done:
  assumes "stacks_ok l g" "frontier l g = []"
  shows "mark_step v l g = Finished"
proof -
  from assms(2) have "waiting l g = []" "l_num l = 0" by (auto simp: frontier_def split: if_splits)
  with waiting_Nil [OF assms(1)] sentinel [OF assms(1)] show ?thesis by (simp add: mark_step_def)
qed

lemma mark_step_spec:
  assumes ok: "stacks_ok l g" and fr: "frontier l g = ds @ [(p, n)]"
  shows "(\<exists>l' g'. mark_step v l g = Next (visit v p l' g') \<and> taken l g (ds @ (if n = 1 then [] else [(p + 1, n - 1)])) l' g') \<or>
    (mark_step v l g = Fault \<and> (1 < length (m_markStackList g) \<or> True \<in> set (gc_answers g))) \<or>
    (1 < l_num l \<and> ds = waiting l g \<and> ds \<noteq> [] \<and>
      (\<exists>as. set as \<subseteq> set (gc_answers g) \<and>
        mark_step v l g = Next (l\<lparr>l_lst := 0, l_num := 0\<rparr>, g\<lparr>m_fOutOfStackSpaceForGC := True, gc_answers := as\<rparr>)))"
proof -
  note S = stacks_okD [OF ok]
  have n1: "1 < k \<Longrightarrow> k \<noteq> 1 \<and> k \<noteq> 0" for k :: u32 by auto
  have few: "k = 0 \<or> k = 1 \<or> 1 < k" for k :: u32
    by unat_arith
  consider (pop) "l_num l = 0" | (one) "l_num l = 1" | (push) "1 < l_num l" using few by blast
  then show ?thesis
  proof cases
    case one
    with fr have "ds = waiting l g" "p = l_lst l" "n = 1" by (simp_all add: frontier_def)
    moreover have "mark_step v l g = Next (visit v (l_lst l) l g)" using one by (simp add: mark_step_def)
    moreover have "taken l g (waiting l g) l g" using ok by (simp add: taken_def same_heap_def)
    ultimately show ?thesis by (intro disjI1 exI [of _ l] exI [of _ g]) simp
  next
    case pop
    then have w: "waiting l g = ds @ [(p, n)]" using fr by (simp add: frontier_def)
    show ?thesis
    proof (cases "l_stack l = 0")
      case False
      then obtain ds' p' n' l' g' where r: "waiting l g = ds' @ [(p', n')]" "mark_pop v l g = Next (visit v p' l' g')"
        "taken l g (ds' @ (if n' = 1 then [] else [(p' + 1, n' - 1)])) l' g'"
        using mark_pop_spec [OF ok, of v] by blast
      have "mark_step v l g = mark_pop v l g"
        using pop waiting_top(2) [OF ok] False by (simp add: mark_step_def)
      moreover have eq: "ds' = ds" "p' = p" "n' = n" using r(1) w by simp_all
      ultimately show ?thesis using r(2,3) [unfolded eq] by metis
    next
      case True
      have sl: "l_stackList l \<noteq> 0"
      proof
        assume "l_stackList l = 0"
        then have "waiting l g = []" using True by (simp add: waiting_def entries_def)
        with w show False by simp
      qed
      let ?g = "(save_state l g)\<lparr>m_markStack := l_stackList l - 1\<rparr>"
      note P = previous_stack [OF ok True sl]
      from P(1) have t: "stacks_ok (load_state ?g l) ?g" "waiting (load_state ?g l) ?g = waiting l g" by (simp_all add: taken_def)
      from mark_pop_spec [OF t(1) P(2), of v] obtain ds' p' n' l' g' where
        r: "waiting (load_state ?g l) ?g = ds' @ [(p', n')]" "mark_pop v (load_state ?g l) ?g = Next (visit v p' l' g')"
        "taken (load_state ?g l) ?g (ds' @ (if n' = 1 then [] else [(p' + 1, n' - 1)])) l' g'" by blast
      have "mark_step v l g = mark_pop v (load_state ?g l) ?g"
        using pop sentinel [OF ok True] sl by (simp add: mark_step_def Let_def)
      moreover have "taken l g (ds' @ (if n' = 1 then [] else [(p' + 1, n' - 1)])) l' g'"
        using r(3) P(1) unfolding taken_def same_heap_def by auto
      moreover have "ds' = ds" "p' = p" "n' = n" using r(1) t(2) w by simp_all
      ultimately show ?thesis using r(2) by metis
    qed
  next
    case push
    then have w: "ds = waiting l g" "p = l_lst l" "n = l_num l" using fr n1 by (auto simp: frontier_def split: if_splits)
    note not_one = n1 [OF push]
    show ?thesis
    proof (cases "l_stack l = l_stackLast l")
      case False
      then have lt: "l_stack l < l_stackLast l" using S(4,5) by simp
      from mark_push_spec [OF ok lt push, of v] False push not_one w show ?thesis by (auto simp: mark_step_def)
    next
      case full: True
      show ?thesis
      proof (cases "l_stackList l + 1 < length (m_markStackList g)")
        case True
        have "mark_push v (load_state (save_state l g) (l\<lparr>l_stackList := l_stackList l + 1\<rparr>)) (save_state l g) = Fault"
          using save_state_list(3) [OF ok] S full stack_okD(4) [OF S(3)]
          by (simp add: mark_push_def Let_def)
        then have "mark_step v l g = Fault" using True full push not_one by (simp add: mark_step_def Let_def)
        with True show ?thesis by simp
      next
        case False
        then have last: "l_stackList l + 1 = length (m_markStackList g)" using S(1,2) by simp
        obtain r as where ask: "(if m_fOutOfStackSpaceForGC g then (None, gc_answers g) else try_stacks c_minimumSpaceForGC (gc_answers g)) = (r, as)"
          by fastforce
        have ans: "set as \<subseteq> set (gc_answers g)" "\<And>c. r = Some c \<Longrightarrow> 0 < c \<and> True \<in> set (gc_answers g)"
          using ask try_stacks_spec [of c_minimumSpaceForGC "gc_answers g" r as] by (auto split: if_splits)
        show ?thesis
        proof (cases r)
          case None
          have "waiting l g \<noteq> []" using waiting_Nil(1) [OF ok] full S(3,4) by (auto simp: stack_ok_def)
          moreover have "mark_step v l g = Next (l\<lparr>l_lst := 0, l_num := 0\<rparr>, g\<lparr>m_fOutOfStackSpaceForGC := True, gc_answers := as\<rparr>)"
            using push not_one full last ask None by (simp add: mark_step_def Let_def)
          ultimately show ?thesis using push w ans(1) by auto
        next
          case (Some c)
          let ?g1 = "save_state l g"
          let ?g2 = "?g1\<lparr>m_markStackList := m_markStackList ?g1 @ [MarkStack_Initialize c], m_markStack := length (m_markStackList ?g1), gc_answers := as\<rparr>"
          have c: "0 < c" "True \<in> set (gc_answers g)" using ans(2) [OF Some] by auto
          note A = another_stack [OF ok full last c(1,2) ans(1)]
          have step: "mark_step v l g = mark_push v (load_state ?g2 l) ?g2"
            using push not_one full last ask Some by (simp add: mark_step_def Let_def)
          show ?thesis
          proof (cases "c = 1")
            case True
            with A(3) step c(2) show ?thesis by simp
          next
            case False
            from A(1) [OF False] have t: "stacks_ok (load_state ?g2 l) ?g2" "waiting (load_state ?g2 l) ?g2 = waiting l g"
              by (simp_all add: taken_def)
            have num: "1 < l_num (load_state ?g2 l)" using push by simp
            from mark_push_spec [OF t(1) A(2) [OF False] num, of v] obtain l' g' where
              r: "mark_push v (load_state ?g2 l) ?g2 = Next (visit v (l_lst l) l' g')"
              "taken (load_state ?g2 l) ?g2 (waiting l g @ [(l_lst l + 1, l_num l - 1)]) l' g'" unfolding t(2) load_state_simps by blast
            have "taken l g (waiting l g @ [(l_lst l + 1, l_num l - 1)]) l' g'"
              using r(2) A(1) [OF False] c(2) unfolding taken_def same_heap_def by auto
            with step r(1) w not_one show ?thesis by (intro disjI1 exI [of _ l'] exI [of _ g']) simp
          qed
        qed
      qed
    qed
  qed
qed

section \<open>Visiting a block\<close>

lemma visit_spec:
  assumes "visit v p l g = (l2, g2)"
  shows "gc_ids g2 = marked {p} (gc_ids g)" "m_markStackList g2 = m_markStackList g" "m_markStack g2 = m_markStack g"
    "m_fOutOfStackSpaceForGC g2 = m_fOutOfStackSpaceForGC g" "gc_answers g2 = gc_answers g"
    "l_stackList l2 = l_stackList l" "l_stack l2 = l_stack l" "l_stackLast l2 = l_stackLast l"
    "(l_lst l2, l_num l2) =
      (let sub = target v (gc_ids g p) p in
       if sub \<noteq> 0 \<and> \<not> IsAlive (gc_ids g2 sub) then (sub, 1) else expand v (gc_ids g p) p)"
proof -
  let ?g = "gc_MarkAlive p g"
  have id: "gc_ids ?g = marked {p} (gc_ids g)" by (auto simp: gc_MarkAlive_def marked_def)
  have g2: "g2 = link_weak v p ?g" using assms by (auto simp: visit_def Let_def split: prod.splits if_splits)
  have w: "gc_ids (link_weak v p ?g) = gc_ids ?g" "m_markStackList (link_weak v p ?g) = m_markStackList ?g"
    "m_markStack (link_weak v p ?g) = m_markStack ?g" "m_fOutOfStackSpaceForGC (link_weak v p ?g) = m_fOutOfStackSpaceForGC ?g"
    "gc_answers (link_weak v p ?g) = gc_answers ?g" by (simp_all add: link_weak_def)
  show "gc_ids g2 = marked {p} (gc_ids g)" by (simp add: g2 w id)
  show "m_markStackList g2 = m_markStackList g" "m_markStack g2 = m_markStack g"
    "m_fOutOfStackSpaceForGC g2 = m_fOutOfStackSpaceForGC g" "gc_answers g2 = gc_answers g"
    by (simp_all only: g2 w) (simp_all add: gc_MarkAlive_def)
  show "l_stackList l2 = l_stackList l" "l_stack l2 = l_stack l" "l_stackLast l2 = l_stackLast l"
    "(l_lst l2, l_num l2) =
      (let sub = target v (gc_ids g p) p in
       if sub \<noteq> 0 \<and> \<not> IsAlive (gc_ids g2 sub) then (sub, 1) else expand v (gc_ids g p) p)"
    using assms unfolding g2 w(1) id
    by (auto simp: visit_def Let_def id w(1) split: prod.splits if_splits)
qed

lemma visit_stacks:
  assumes "visit v p l g = (l2, g2)"
  shows "stacks_ok l2 g2 = stacks_ok l g" "waiting l2 g2 = waiting l g"
proof -
  show w: "waiting l2 g2 = waiting l g" using visit_spec [OF assms] by (simp add: waiting_def)
  show "stacks_ok l2 g2 = stacks_ok l g" using visit_spec [OF assms] by (simp add: stacks_ok_def w)
qed

section \<open>One call of the marking\<close>

abbreviation count :: "ObjectView \<Rightarrow> (nat \<Rightarrow> BlockId) \<Rightarrow> nat \<Rightarrow> u32" where
  "count v ids p \<equiv> snd (expand v (ids p) p)"

lemma target_expand: "target v b p \<noteq> 0 \<Longrightarrow> expand v b p = (0, 0)"
  by (auto simp: target_def expand_def split: if_splits)

text \<open>
  \<open>U\<close> is a part of the memory that nothing points out of. What belongs to an object are its fields,
  elements or delegates, which are references or values, never objects themselves.
\<close>

definition heap_wf :: "ObjectView \<Rightarrow> (nat \<Rightarrow> BlockId) \<Rightarrow> nat set \<Rightarrow> bool" where
  "heap_wf v ids U \<longleftrightarrow> finite U \<and>
     (\<forall>p\<in>U. kids v ids p \<subseteq> U \<and> (\<forall>q\<in>kids v ids p. count v ids q = 0) \<and> (target v (ids p) p \<noteq> 0 \<longrightarrow> target v (ids p) p \<in> U))"

lemma heap_wf_marked [simp]: "heap_wf v (marked D ids) U = heap_wf v ids U"
  by (simp add: heap_wf_def)

lemma heap_wf_reach: "heap_wf v ids U \<Longrightarrow> R \<subseteq> U \<Longrightarrow> reach v ids R \<subseteq> U"
  by (rule reach_closed) (auto simp: heap_wf_def)

text \<open>The parts of the blocks in \<open>D\<close> that may have been dropped: runs of two blocks and more.\<close>

definition spilled :: "ObjectView \<Rightarrow> (nat \<Rightarrow> BlockId) \<Rightarrow> nat set \<Rightarrow> nat set" where
  "spilled v ids D = (\<Union>p\<in>{p\<in>D. 1 < count v ids p}. kids v ids p)"

definition lost :: "ObjectView \<Rightarrow> (nat \<Rightarrow> BlockId) \<Rightarrow> GC \<Rightarrow> nat set \<Rightarrow> nat set" where
  "lost v ids g D = (if m_fOutOfStackSpaceForGC g then spilled v ids D else {})"

definition todo :: "MarkLocals \<Rightarrow> GC \<Rightarrow> nat set" where
  "todo l g = (\<Union>e\<in>set (frontier l g). blocks e)"

lemma spilled_mono: "D \<subseteq> E \<Longrightarrow> spilled v ids D \<subseteq> spilled v ids E"
  by (auto simp: spilled_def)

lemma spilled_marked [simp]: "spilled v (marked D ids) E = spilled v ids E"
  by (simp add: spilled_def)

text \<open>The blocks visited are \<open>D\<close>; the memory was \<open>ids\<close> and the flag \<open>f\<close> when the call began.\<close>

definition covers :: "ObjectView \<Rightarrow> (nat \<Rightarrow> BlockId) \<Rightarrow> nat set \<Rightarrow> bool \<Rightarrow> MarkLocals \<Rightarrow> GC \<Rightarrow> nat set \<Rightarrow> bool" where
  "covers v ids R f l g D \<longleftrightarrow>
     gc_ids g = marked D ids \<and> D \<union> todo l g \<subseteq> reach v ids R \<and> R \<subseteq> D \<union> todo l g \<union> lost v ids g D \<and>
     (\<forall>p\<in>D. kids v ids p \<subseteq> D \<union> todo l g \<union> lost v ids g D) \<and>
     (\<forall>p\<in>D. target v (ids p) p \<noteq> 0 \<longrightarrow> target v (ids p) p \<in> D \<or> IsAlive (ids (target v (ids p) p)) \<or> (l_num l = 1 \<and> l_lst l = target v (ids p) p)) \<and>
     (f \<longrightarrow> m_fOutOfStackSpaceForGC g) \<and> (m_fOutOfStackSpaceForGC g \<longrightarrow> f \<or> (\<exists>p\<in>D. \<not> IsAlive (ids p)))"

text \<open>Objects are expanded only when they have just been found dead, or as the root itself.\<close>

definition shaped :: "ObjectView \<Rightarrow> (nat \<Rightarrow> BlockId) \<Rightarrow> MarkLocals \<Rightarrow> GC \<Rightarrow> nat set \<Rightarrow> bool" where
  "shaped v ids l g D \<longleftrightarrow>
     (\<forall>e\<in>set (waiting l g). \<forall>q\<in>blocks e. count v ids q = 0) \<and>
     (l_num l = 1 \<longrightarrow> waiting l g = [] \<or> count v ids (l_lst l) = 0 \<or> \<not> IsAlive (gc_ids g (l_lst l))) \<and>
     (1 < l_num l \<longrightarrow> (\<forall>q\<in>blocks (l_lst l, l_num l). count v ids q = 0) \<and>
        (waiting l g = [] \<or> (\<exists>p\<in>D. \<not> IsAlive (ids p) \<and> (l_lst l, l_num l) = expand v (ids p) p)))"

definition front_weight :: "ObjectView \<Rightarrow> (nat \<Rightarrow> BlockId) \<Rightarrow> MarkLocals \<Rightarrow> GC \<Rightarrow> nat" where
  "front_weight v ids l g =
     (if l_num l = 1 then (if IsAlive (gc_ids g (l_lst l)) then 2 + 2 * unat (count v ids (l_lst l)) else 1) else 2 * unat (l_num l))"

definition dead_weight :: "ObjectView \<Rightarrow> (nat \<Rightarrow> BlockId) \<Rightarrow> nat set \<Rightarrow> GC \<Rightarrow> nat" where
  "dead_weight v ids U g = (\<Sum>p\<in>{p\<in>U. \<not> IsAlive (gc_ids g p)}. 2 * unat (count v ids p) + 3)"

definition weight :: "ObjectView \<Rightarrow> (nat \<Rightarrow> BlockId) \<Rightarrow> nat set \<Rightarrow> MarkLocals \<Rightarrow> GC \<Rightarrow> nat" where
  "weight v ids U l g = 2 * (\<Sum>e\<leftarrow>waiting l g. unat (snd e)) + front_weight v ids l g + dead_weight v ids U g"

lemma todo_frontier: "frontier l g = xs \<Longrightarrow> todo l g = (\<Union>e\<in>set xs. blocks e)"
  by (simp add: todo_def)

lemma overflow_keeps:
  fixes as :: "bool list"
  assumes "covers v ids R f l g D" "shaped v ids l g D" "1 < l_num l" "waiting l g \<noteq> []"
  defines "l' \<equiv> l\<lparr>l_lst := 0, l_num := 0\<rparr>" and "g' \<equiv> g\<lparr>m_fOutOfStackSpaceForGC := True, gc_answers := as\<rparr>"
  shows "covers v ids R f l' g' D" "shaped v ids l' g' D" "weight v ids U l' g' < weight v ids U l g"
proof -
  have w: "waiting l' g' = waiting l g" by (simp add: l'_def g'_def waiting_def)
  have nz: "l_num l \<noteq> 0" "l_num l \<noteq> 1" using assms(3) by auto
  have t: "todo l g = todo l' g' \<union> blocks (l_lst l, l_num l)"
    using nz w by (auto simp: todo_def frontier_def l'_def)
  from assms(2-4) obtain p where p: "p \<in> D" "\<not> IsAlive (ids p)" "(l_lst l, l_num l) = expand v (ids p) p"
    by (auto simp: shaped_def)
  from p(3) have "count v ids p = l_num l" by (metis snd_conv)
  with p assms(3) have "blocks (l_lst l, l_num l) \<subseteq> spilled v ids D" by (auto simp: spilled_def kids_def)
  then have sub: "D \<union> todo l g \<union> lost v ids g D \<subseteq> D \<union> todo l' g' \<union> lost v ids g' D"
    unfolding t by (auto simp: lost_def g'_def)
  show "covers v ids R f l' g' D"
    unfolding covers_def
  proof (intro conjI)
    note C = assms(1) [unfolded covers_def]
    show "gc_ids g' = marked D ids" using C by (simp add: g'_def)
    show "D \<union> todo l' g' \<subseteq> reach v ids R" using C t by auto
    show "R \<subseteq> D \<union> todo l' g' \<union> lost v ids g' D" using C sub by blast
    show "\<forall>p\<in>D. kids v ids p \<subseteq> D \<union> todo l' g' \<union> lost v ids g' D" using C sub by blast
    show "\<forall>p\<in>D. target v (ids p) p \<noteq> 0 \<longrightarrow> target v (ids p) p \<in> D \<or> IsAlive (ids (target v (ids p) p)) \<or> (l_num l' = 1 \<and> l_lst l' = target v (ids p) p)"
      using C nz by auto
    show "f \<longrightarrow> m_fOutOfStackSpaceForGC g'" by (simp add: g'_def)
    show "m_fOutOfStackSpaceForGC g' \<longrightarrow> f \<or> (\<exists>p\<in>D. \<not> IsAlive (ids p))" using p by blast
  qed
  show "shaped v ids l' g' D" using assms(2) unfolding shaped_def w by (simp add: l'_def)
  show "weight v ids U l' g' < weight v ids U l g"
    using nz unfolding weight_def w by (simp add: l'_def g'_def unat_gt_0 front_weight_def dead_weight_def)
qed

lemma dead_weight_visit:
  assumes "finite U" "gc_ids g2 = marked {p} (gc_ids g)"
  shows "dead_weight v ids U g2 \<le> dead_weight v ids U g"
    "p \<in> U \<Longrightarrow> \<not> IsAlive (gc_ids g p) \<Longrightarrow> dead_weight v ids U g2 + (2 * unat (count v ids p) + 3) = dead_weight v ids U g"
proof -
  have eq: "{q\<in>U. \<not> IsAlive (gc_ids g2 q)} = {q\<in>U. \<not> IsAlive (gc_ids g q)} - {p}"
    using assms(2) by auto
  show "dead_weight v ids U g2 \<le> dead_weight v ids U g"
    unfolding dead_weight_def eq by (rule sum_mono2) (use assms(1) in auto)
  show "dead_weight v ids U g2 + (2 * unat (count v ids p) + 3) = dead_weight v ids U g" if "p \<in> U" "\<not> IsAlive (gc_ids g p)"
    unfolding dead_weight_def eq using that assms(1) sum.remove [of "{q\<in>U. \<not> IsAlive (gc_ids g q)}" p "\<lambda>p. 2 * unat (count v ids p) + 3"]
    by simp
qed

text \<open>The run at the end of the frontier is the current one, or the one on top of the stack.\<close>

lemma frontier_last:
  assumes "frontier l g = ds @ [(p, n)]" "stacks_ok l g"
  shows "n \<noteq> 0" "l_num l = 0 \<Longrightarrow> waiting l g = ds @ [(p, n)]" "l_num l \<noteq> 0 \<Longrightarrow> waiting l g = ds \<and> p = l_lst l \<and> n = l_num l"
  using assms stacks_okD(7) [OF assms(2), of "(p, n)"] by (auto simp: frontier_def split: if_splits)

lemma visit_keeps:
  assumes wf: "heap_wf v ids U" "R \<subseteq> U" and ok: "stacks_ok l g" and cov: "covers v ids R f l g D" and sh: "shaped v ids l g D"
    and fr: "frontier l g = ds @ [(p, n)]"
    and tk: "taken l g (ds @ (if n = 1 then [] else [(p + 1, n - 1)])) l1 g1" and vis: "visit v p l1 g1 = (l2, g2)"
  shows "covers v ids R f l2 g2 (insert p D)" "shaped v ids l2 g2 (insert p D)" "weight v ids U l2 g2 < weight v ids U l g"
proof -
  let ?D = "insert p D" and ?rest = "if n = 1 then [] else [(p + 1, n - 1)]" and ?sub = "target v (ids p) p"
  note C = cov [unfolded covers_def] and V = visit_spec [OF vis]
  have R_U: "reach v ids R \<subseteq> U" by (rule heap_wf_reach [OF wf])
  have ids1: "gc_ids g1 = marked D ids" using tk C by (simp add: taken_def same_heap_def)
  have ids2: "gc_ids g2 = marked ?D ids" using V(1) by (simp add: ids1)
  have w2: "waiting l2 g2 = ds @ ?rest" using tk visit_stacks(2) [OF vis] by (simp add: taken_def)
  have flag2: "m_fOutOfStackSpaceForGC g2 = m_fOutOfStackSpaceForGC g" using tk V(4) by (simp add: taken_def)
  note last = frontier_last [OF fr ok]
  have split: "blocks (p, n) = insert p (\<Union>e\<in>set ?rest. blocks e)"
    using blocks_split [OF last(1), of p] by auto
  have todo1: "todo l g = insert p (\<Union>e\<in>set (ds @ ?rest). blocks e)"
    unfolding todo_frontier [OF fr] using split by auto
  have cur: "(l_lst l2, l_num l2) = (if ?sub \<noteq> 0 \<and> ?sub \<notin> ?D \<and> \<not> IsAlive (ids ?sub) then (?sub, 1) else expand v (ids p) p)"
    using V(9) by (simp add: ids1 ids2 Let_def)
  have kids2: "blocks (l_lst l2, l_num l2) = (if ?sub \<noteq> 0 \<and> ?sub \<notin> ?D \<and> \<not> IsAlive (ids ?sub) then {?sub} else kids v ids p)"
    unfolding cur by (simp add: kids_def)
  have todo2: "todo l2 g2 = (\<Union>e\<in>set (ds @ ?rest). blocks e) \<union> blocks (l_lst l2, l_num l2)"
    unfolding todo_def frontier_def w2 by auto
  have p: "p \<in> reach v ids R" using C todo1 by auto
  have pU: "p \<in> U" using p R_U by auto
  have kids_p: "kids v ids p \<subseteq> todo l2 g2"
  proof (cases "?sub \<noteq> 0")
    case True
    then show ?thesis by (simp add: kids_def target_expand)
  next
    case False
    then show ?thesis unfolding todo2 kids2 by auto
  qed
  have lost_mono: "lost v ids g D \<subseteq> lost v ids g2 ?D"
    using spilled_mono [of D ?D v ids] by (simp add: lost_def flag2 subset_insertI)
  have grow: "D \<union> todo l g \<union> lost v ids g D \<subseteq> ?D \<union> todo l2 g2 \<union> lost v ids g2 ?D"
    using lost_mono unfolding todo1 todo2 by auto
  show "covers v ids R f l2 g2 ?D"
    unfolding covers_def
  proof (intro conjI)
    show "gc_ids g2 = marked ?D ids" by (rule ids2)
    have "blocks (l_lst l2, l_num l2) \<subseteq> reach v ids R"
      unfolding kids2 using reach_kid [OF p] reach_target [OF p] by auto
    then show "?D \<union> todo l2 g2 \<subseteq> reach v ids R" using C p unfolding todo1 todo2 by auto
    show "R \<subseteq> ?D \<union> todo l2 g2 \<union> lost v ids g2 ?D" using C grow by blast
    show "\<forall>q\<in>?D. kids v ids q \<subseteq> ?D \<union> todo l2 g2 \<union> lost v ids g2 ?D" using C grow kids_p by blast
    show "f \<longrightarrow> m_fOutOfStackSpaceForGC g2" "m_fOutOfStackSpaceForGC g2 \<longrightarrow> f \<or> (\<exists>p\<in>?D. \<not> IsAlive (ids p))"
      using C flag2 by auto
    show "\<forall>q\<in>?D. target v (ids q) q \<noteq> 0 \<longrightarrow> target v (ids q) q \<in> ?D \<or> IsAlive (ids (target v (ids q) q)) \<or>
        (l_num l2 = 1 \<and> l_lst l2 = target v (ids q) q)"
    proof (intro ballI impI)
      fix q assume q: "q \<in> ?D" "target v (ids q) q \<noteq> 0"
      show "target v (ids q) q \<in> ?D \<or> IsAlive (ids (target v (ids q) q)) \<or> (l_num l2 = 1 \<and> l_lst l2 = target v (ids q) q)"
      proof (cases "q = p")
        case True
        with q cur show ?thesis by (auto split: if_splits)
      next
        case False
        with q C consider "target v (ids q) q \<in> D" | "IsAlive (ids (target v (ids q) q))" | "l_num l = 1" "l_lst l = target v (ids q) q"
          by auto
        then show ?thesis using last(3) by cases auto
      qed
    qed
  qed
  have flat_ws: "\<forall>e\<in>set (ds @ ?rest). \<forall>q\<in>blocks e. count v ids q = 0"
  proof (cases "l_num l = 0")
    case True
    have "\<forall>q\<in>blocks (p, n). count v ids q = 0" using sh last(2) [OF True] by (simp add: shaped_def)
    moreover have "\<forall>e\<in>set ds. \<forall>q\<in>blocks e. count v ids q = 0" using sh last(2) [OF True] by (simp add: shaped_def)
    ultimately show ?thesis unfolding split by auto
  next
    case False
    have "n \<noteq> 1 \<Longrightarrow> \<forall>q\<in>blocks (p, n). count v ids q = 0"
    proof -
      assume "n \<noteq> 1"
      then have "1 < l_num l" using last(3) [OF False] False by unat_arith
      then show ?thesis using sh last(3) [OF False] by (simp add: shaped_def)
    qed
    moreover have "\<forall>e\<in>set ds. \<forall>q\<in>blocks e. count v ids q = 0" using sh last(3) [OF False] by (simp add: shaped_def)
    ultimately show ?thesis unfolding split by auto
  qed
  have flat_p: "count v ids p = 0 \<or> (l_num l = 1 \<and> ds @ ?rest = waiting l g \<and> (waiting l g = [] \<or> \<not> IsAlive (gc_ids g p)))"
  proof (cases "l_num l = 1")
    case True
    with last(3) sh show ?thesis by (auto simp: shaped_def)
  next
    case False
    have "count v ids p = 0"
    proof (cases "l_num l = 0")
      case True
      with sh last(2) split show ?thesis by (auto simp: shaped_def)
    next
      case nz: False
      then have "1 < l_num l" using False by unat_arith
      with sh last(3) [OF nz] split show ?thesis by (auto simp: shaped_def)
    qed
    then show ?thesis by simp
  qed
  have flat_kids: "\<forall>q\<in>kids v ids p. count v ids q = 0" using wf pU by (auto simp: heap_wf_def)
  have kid1: "count v ids (l_lst l2) = 0" if "l_num l2 = 1" "(l_lst l2, l_num l2) = expand v (ids p) p"
    using flat_kids that by (simp add: kids_def that(2) [symmetric])
  show "shaped v ids l2 g2 ?D"
    unfolding shaped_def w2
  proof (intro conjI impI)
    show "\<forall>e\<in>set (ds @ ?rest). \<forall>q\<in>blocks e. count v ids q = 0" by (rule flat_ws)
    show "ds @ ?rest = [] \<or> count v ids (l_lst l2) = 0 \<or> \<not> IsAlive (gc_ids g2 (l_lst l2))" if "l_num l2 = 1"
      using cur kid1 [OF that] by (auto simp: ids2 split: if_splits)
    assume big: "1 < l_num l2"
    then have e: "(l_lst l2, l_num l2) = expand v (ids p) p" using cur by (auto split: if_splits)
    then show "\<forall>q\<in>blocks (l_lst l2, l_num l2). count v ids q = 0" using flat_kids by (simp add: kids_def)
    have "count v ids p = l_num l2" using e by (metis snd_conv)
    with big have "count v ids p \<noteq> 0" by auto
    with flat_p C have "ds @ ?rest = [] \<or> \<not> IsAlive (ids p)" by auto
    with e show "ds @ ?rest = [] \<or> (\<exists>p\<in>?D. \<not> IsAlive (ids p) \<and> (l_lst l2, l_num l2) = expand v (ids p) p)" by auto
  qed
  have fw: "front_weight v ids l2 g2 \<le> 2 * unat (count v ids p) + 1"
  proof (cases "(l_lst l2, l_num l2) = expand v (ids p) p")
    case True
    then have "count v ids p = l_num l2" by (metis snd_conv)
    with kid1 True show ?thesis by (auto simp: front_weight_def)
  next
    case False
    with cur have "l_num l2 = 1" "\<not> IsAlive (gc_ids g2 (l_lst l2))" by (auto simp: ids2 split: if_splits)
    then show ?thesis by (simp add: front_weight_def)
  qed
  have dw: "dead_weight v ids U g2 \<le> dead_weight v ids U g"
    "\<not> IsAlive (gc_ids g p) \<Longrightarrow> dead_weight v ids U g2 + (2 * unat (count v ids p) + 3) = dead_weight v ids U g"
    using dead_weight_visit [of U g2 p g v ids] wf(1) pU C ids2 by (auto simp: heap_wf_def)
  have rest: "(\<Sum>e\<leftarrow>?rest. unat (snd e)) = unat n - 1"
    using last(1) by (simp add: unat_minus_one)
  have pos: "0 < unat n" using last(1) by (simp add: unat_gt_0)
  show "weight v ids U l2 g2 < weight v ids U l g"
  proof (cases "l_num l = 1")
    case True
    then show ?thesis
      using last(3) fw dw flat_p unfolding weight_def w2 by (auto simp: front_weight_def [of v ids l g])
  next
    case False
    then have f0: "count v ids p = 0" using flat_p by blast
    have "(\<Sum>e\<leftarrow>waiting l g. unat (snd e)) * 2 + front_weight v ids l g = 2 * (\<Sum>e\<leftarrow>ds. unat (snd e)) + 2 * unat n"
      using last(2,3) False by (cases "l_num l = 0") (auto simp: front_weight_def)
    with fw dw(1) rest pos f0 show ?thesis unfolding weight_def w2 map_append sum_list_append rest by simp
  qed
qed

text \<open>Between two calls only the lowest stack counts, and it is empty.\<close>

definition gc_ready :: "GC \<Rightarrow> bool" where
  "gc_ready g \<longleftrightarrow> m_markStack g = 0 \<and> m_markStackList g \<noteq> [] \<and> (\<forall>s\<in>set (m_markStackList g). stack_ok s) \<and>
     ms_top (m_markStackList g ! 0) = 0"

definition granted :: "GC \<Rightarrow> bool" where
  "granted g \<longleftrightarrow> 1 < length (m_markStackList g) \<or> True \<in> set (gc_answers g)"

text \<open>What a call leaves: \<open>D\<close> is visited, and all that was dropped belongs to blocks of \<open>D\<close>.\<close>

definition traced :: "ObjectView \<Rightarrow> (nat \<Rightarrow> BlockId) \<Rightarrow> nat set \<Rightarrow> bool \<Rightarrow> GC \<Rightarrow> nat set \<Rightarrow> bool" where
  "traced v ids R f g D \<longleftrightarrow>
     gc_ids g = marked D ids \<and> D \<subseteq> reach v ids R \<and> R \<subseteq> D \<union> lost v ids g D \<and>
     (\<forall>p\<in>D. kids v ids p \<subseteq> D \<union> lost v ids g D) \<and>
     (\<forall>p\<in>D. target v (ids p) p \<noteq> 0 \<longrightarrow> target v (ids p) p \<in> D \<or> IsAlive (ids (target v (ids p) p))) \<and>
     (f \<longrightarrow> m_fOutOfStackSpaceForGC g) \<and> (m_fOutOfStackSpaceForGC g \<longrightarrow> f \<or> (\<exists>p\<in>D. \<not> IsAlive (ids p)))"

lemma taken_granted: "taken l g ws l' g' \<Longrightarrow> granted g' \<Longrightarrow> granted g"
  by (auto simp: taken_def granted_def)

lemma finished_spec:
  assumes "stacks_ok l g" "covers v ids R f l g D" "frontier l g = []"
  shows "gc_ready (save_state l g)" "granted (save_state l g) = granted g" "traced v ids R f (save_state l g) D"
proof -
  from assms(3) have w: "waiting l g = []" "l_num l = 0" by (auto simp: frontier_def split: if_splits)
  note S = stacks_okD [OF assms(1)] and N = waiting_Nil [OF assms(1) w(1)] and V = save_state_list [OF assms(1)]
  have "ms_top (m_markStackList (save_state l g) ! m_markStack g) = l_stack l" unfolding V(3) by simp
  with V(2) N S(1,2) show "gc_ready (save_state l g)"
    by (auto simp: gc_ready_def simp flip: length_greater_0_conv)
  show "granted (save_state l g) = granted g" by (simp add: granted_def)
  have "todo l g = {}" using assms(3) by (simp add: todo_def)
  with assms(2) w(2) show "traced v ids R f (save_state l g) D" by (auto simp: covers_def traced_def lost_def)
qed

lemma mark_loop_spec:
  assumes wf: "heap_wf v ids U" "R \<subseteq> U"
  shows "stacks_ok l g \<Longrightarrow> covers v ids R f l g D \<Longrightarrow> shaped v ids l g D \<Longrightarrow> weight v ids U l g < fuel \<Longrightarrow>
    (mark_loop fuel v l g = OutOfBounds \<and> granted g) \<or>
    (\<exists>g' E. mark_loop fuel v l g = Marked g' \<and> gc_ready g' \<and> (granted g' \<longrightarrow> granted g) \<and> traced v ids R f g' E)"
proof (induction fuel arbitrary: l g D)
  case 0
  then show ?case by simp
next
  case (Suc fuel)
  show ?case
  proof (cases "frontier l g" rule: rev_cases)
    case Nil
    from mark_step_done [OF Suc.prems(1) this] finished_spec [OF Suc.prems(1,2) this] show ?thesis by auto
  next
    case (snoc ds e)
    obtain p n where e: "e = (p, n)" by (cases e)
    note fr = snoc [unfolded e]
    from mark_step_spec [OF Suc.prems(1) fr, of v] consider
      (visit) l1 g1 where "mark_step v l g = Next (visit v p l1 g1)" "taken l g (ds @ (if n = 1 then [] else [(p + 1, n - 1)])) l1 g1"
    | (fault) "mark_step v l g = Fault" "granted g"
    | (drop) as where "1 < l_num l" "waiting l g \<noteq> []" "set as \<subseteq> set (gc_answers g)"
        "mark_step v l g = Next (l\<lparr>l_lst := 0, l_num := 0\<rparr>, g\<lparr>m_fOutOfStackSpaceForGC := True, gc_answers := as\<rparr>)"
      unfolding granted_def by blast
    then show ?thesis
    proof cases
      case visit
      obtain l2 g2 where vis: "visit v p l1 g1 = (l2, g2)" by fastforce
      note K = visit_keeps [OF wf Suc.prems(1-3) fr visit(2) vis]
      have ok: "stacks_ok l2 g2" using visit(2) visit_stacks(1) [OF vis] by (simp add: taken_def)
      have "granted g2 \<longrightarrow> granted g" using taken_granted [OF visit(2)] visit_spec(2,5) [OF vis] by (simp add: granted_def)
      with Suc.IH [OF ok K(1,2)] K(3) Suc.prems(4) visit(1) vis show ?thesis by fastforce
    next
      case fault
      then show ?thesis by simp
    next
      case (drop as)
      let ?l = "l\<lparr>l_lst := 0, l_num := 0\<rparr>" and ?g = "g\<lparr>m_fOutOfStackSpaceForGC := True, gc_answers := as\<rparr>"
      note K = overflow_keeps [OF Suc.prems(2,3) drop(1,2), where as = as]
      have "waiting ?l ?g = waiting l g" by (simp add: waiting_def)
      then have ok: "stacks_ok ?l ?g" using Suc.prems(1) by (simp add: stacks_ok_def)
      have "granted ?g \<longrightarrow> granted g" using drop(3) by (auto simp: granted_def)
      with Suc.IH [OF ok K(1,2)] K(3) [where U = U] Suc.prems(4) drop(4) show ?thesis by fastforce
    qed
  qed
qed

text \<open>Twice the weight of the whole heap is enough fuel for any call.\<close>

definition heap_size :: "ObjectView \<Rightarrow> (nat \<Rightarrow> BlockId) \<Rightarrow> nat set \<Rightarrow> nat" where
  "heap_size v ids U = (\<Sum>p\<in>U. 2 * unat (count v ids p) + 3)"

lemma heap_size_marked [simp]: "heap_size v (marked D ids) U = heap_size v ids U"
  by (simp add: heap_size_def)

lemma heap_size_bounds:
  assumes "finite U"
  shows "3 * card U \<le> heap_size v ids U" "p \<in> U \<Longrightarrow> 2 * unat (count v ids p) + 3 \<le> heap_size v ids U"
    "dead_weight v ids U g \<le> heap_size v ids U"
proof -
  show "3 * card U \<le> heap_size v ids U"
    using sum_mono [of U "\<lambda>_. 3" "\<lambda>p. 2 * unat (count v ids p) + 3"] by (simp add: heap_size_def)
  show "2 * unat (count v ids p) + 3 \<le> heap_size v ids U" if "p \<in> U"
    unfolding heap_size_def using that assms by (intro member_le_sum) auto
  show "dead_weight v ids U g \<le> heap_size v ids U"
    unfolding heap_size_def dead_weight_def by (rule sum_mono2) (use assms in auto)
qed

lemma card_blocks: "card (blocks (a, n)) = unat n"
  by (simp add: blocks_def)

lemma mark_call:
  assumes wf: "heap_wf v (gc_ids g) U" "blocks (lst, num) \<subseteq> U" and ready: "gc_ready g"
    and flat: "num = 1 \<or> (\<forall>q\<in>blocks (lst, num). count v (gc_ids g) q = 0)" and fuel: "2 * heap_size v (gc_ids g) U < fuel"
  shows "(ComputeReachabilityGraphForMultipleBlocks fuel v lst num g = OutOfBounds \<and> granted g) \<or>
    (\<exists>g' D. ComputeReachabilityGraphForMultipleBlocks fuel v lst num g = Marked g' \<and> gc_ready g' \<and> (granted g' \<longrightarrow> granted g) \<and>
       traced v (gc_ids g) (blocks (lst, num)) (m_fOutOfStackSpaceForGC g) g' D)"
proof -
  let ?l = "load_state g \<lparr>l_stackList = 0, l_stack = 0, l_stackLast = 0, l_lst = lst, l_num = num\<rparr>"
  let ?ids = "gc_ids g"
  have fin: "finite U" using wf(1) by (simp add: heap_wf_def)
  have w: "waiting ?l g = []" using ready by (simp add: waiting_def gc_ready_def entries_def)
  have ok: "stacks_ok ?l g" using ready unfolding stacks_ok_def w by (simp add: gc_ready_def)
  have todo: "todo ?l g = blocks (lst, num)" by (simp add: todo_def frontier_def w)
  have cov: "covers v ?ids (blocks (lst, num)) (m_fOutOfStackSpaceForGC g) ?l g {}"
    using reach_base by (simp add: covers_def todo)
  have sh: "shaped v ?ids ?l g {}" unfolding shaped_def w using flat by auto
  have "front_weight v ?ids ?l g \<le> heap_size v ?ids U"
  proof (cases "num = 1")
    case True
    then have "lst \<in> U" using wf(2) by simp
    from heap_size_bounds(2) [OF fin this, of v ?ids] True show ?thesis by (simp add: front_weight_def)
  next
    case False
    have "unat num \<le> card U" using card_mono [OF fin wf(2)] by (simp add: card_blocks)
    with heap_size_bounds(1) [OF fin, of v ?ids] False show ?thesis by (simp add: front_weight_def)
  qed
  with heap_size_bounds(3) [OF fin, of v ?ids g] fuel have "weight v ?ids U ?l g < fuel" by (simp add: weight_def w)
  from mark_loop_spec [OF wf ok cov sh this] show ?thesis unfolding ComputeReachabilityGraphForMultipleBlocks_def .
qed

section \<open>Calls in sequence\<close>

text \<open>
  The memory when a collection begins: no pointer to a marked block, no marked object among the
  blocks of the clusters, and everything with more than one part is an object of a cluster.
\<close>

definition heads_of :: "(nat \<Rightarrow> BlockId) \<Rightarrow> (nat \<times> nat) list \<Rightarrow> nat list list \<Rightarrow> bool" where
  "heads_of ids hcs hss \<longleftrightarrow> list_all2 (\<lambda>(start, end') hs. tiles ids start hs end') hcs hss"

definition clean_heap :: "ObjectView \<Rightarrow> (nat \<Rightarrow> BlockId) \<Rightarrow> nat set \<Rightarrow> (nat \<times> nat) list \<Rightarrow> nat list list \<Rightarrow> bool" where
  "clean_heap v ids U hcs hss \<longleftrightarrow> heap_wf v ids U \<and> heads_of ids hcs hss \<and>
     (\<forall>p\<in>U. target v (ids p) p \<noteq> 0 \<longrightarrow> \<not> IsAlive (ids (target v (ids p) p))) \<and>
     (\<forall>h\<in>set (concat hss). IsEvent (ids h) \<or> \<not> IsAlive (ids h)) \<and>
     (\<forall>p\<in>U. 1 < count v ids p \<longrightarrow> p \<in> set (concat hss) \<and> \<not> IsEvent (ids p)) \<and> 0 \<notin> U"

text \<open>\<open>D\<close> is marked since the collection began, from the roots \<open>R\<close>.\<close>

definition so_far :: "ObjectView \<Rightarrow> (nat \<Rightarrow> BlockId) \<Rightarrow> nat set \<Rightarrow> GC \<Rightarrow> nat set \<Rightarrow> bool" where
  "so_far v ids R g D \<longleftrightarrow> gc_ids g = marked D ids \<and> D \<subseteq> reach v ids R \<and> R \<subseteq> D \<union> spilled v ids D \<and>
     (\<forall>p\<in>D. kids v ids p \<subseteq> D \<union> spilled v ids D) \<and>
     (\<forall>p\<in>D. target v (ids p) p \<noteq> 0 \<longrightarrow> target v (ids p) p \<in> D)"

definition settled :: "ObjectView \<Rightarrow> (nat \<Rightarrow> BlockId) \<Rightarrow> GC \<Rightarrow> nat set \<Rightarrow> bool" where
  "settled v ids g D \<longleftrightarrow> m_fOutOfStackSpaceForGC g \<or> spilled v ids D \<subseteq> D"

lemma lost_spilled: "lost v ids g D \<subseteq> spilled v ids D"
  by (simp add: lost_def)

lemma so_far_reach:
  assumes "so_far v ids R g D" "spilled v ids D \<subseteq> D"
  shows "D = reach v ids R"
proof
  show "D \<subseteq> reach v ids R" using assms(1) by (simp add: so_far_def)
  show "reach v ids R \<subseteq> D"
    by (rule reach_closed) (use assms in \<open>unfold so_far_def, blast+\<close>)
qed

lemma reach_absorb: "S \<subseteq> reach v ids R \<Longrightarrow> reach v ids (R \<union> S) = reach v ids R"
proof
  assume S: "S \<subseteq> reach v ids R"
  show "reach v ids (R \<union> S) \<subseteq> reach v ids R"
    by (rule reach_closed) (use S reach_base [of R v ids] reach_kid [of _ v ids R] reach_target [of _ v ids R] in auto)
  show "reach v ids R \<subseteq> reach v ids (R \<union> S)" by (rule reach_mono) simp
qed

lemma so_far_call:
  assumes clean: "clean_heap v ids U hcs hss" and R: "R \<subseteq> U" and S: "S \<subseteq> U"
    and so: "so_far v ids R g D" and tr: "traced v (gc_ids g) S (m_fOutOfStackSpaceForGC g) g' E"
  shows "so_far v ids (R \<union> S) g' (D \<union> E)" "settled v ids g D \<Longrightarrow> settled v ids g' (D \<union> E)"
    "m_fOutOfStackSpaceForGC g \<Longrightarrow> m_fOutOfStackSpaceForGC g'"
    "\<not> m_fOutOfStackSpaceForGC g' \<Longrightarrow> S \<subseteq> E \<and> (\<forall>p\<in>E. kids v ids p \<subseteq> E)"
    "m_fOutOfStackSpaceForGC g' \<Longrightarrow> m_fOutOfStackSpaceForGC g \<or> \<not> E \<subseteq> D"
proof -
  have ids: "gc_ids g = marked D ids" using so by (simp add: so_far_def)
  have T: "gc_ids g' = marked (D \<union> E) ids" "E \<subseteq> reach v ids S" "S \<subseteq> E \<union> lost v (marked D ids) g' E"
    "\<And>p. p \<in> E \<Longrightarrow> kids v ids p \<subseteq> E \<union> lost v (marked D ids) g' E"
    "\<And>p. p \<in> E \<Longrightarrow> target v (ids p) p \<noteq> 0 \<Longrightarrow> target v (ids p) p \<in> E \<or> target v (ids p) p \<in> D \<or> IsAlive (ids (target v (ids p) p))"
    "m_fOutOfStackSpaceForGC g \<Longrightarrow> m_fOutOfStackSpaceForGC g'"
    "m_fOutOfStackSpaceForGC g' \<Longrightarrow> m_fOutOfStackSpaceForGC g \<or> (\<exists>p\<in>E. p \<notin> D)"
    using tr by (auto simp: traced_def ids Un_commute)
  have O: "D \<subseteq> reach v ids R" "R \<subseteq> D \<union> spilled v ids D" "\<And>p. p \<in> D \<Longrightarrow> kids v ids p \<subseteq> D \<union> spilled v ids D"
    "\<And>p. p \<in> D \<Longrightarrow> target v (ids p) p \<noteq> 0 \<Longrightarrow> target v (ids p) p \<in> D" using so by (auto simp: so_far_def)
  have lost: "lost v (marked D ids) g' E \<subseteq> spilled v ids (D \<union> E)"
    using lost_spilled [of v "marked D ids" g' E] spilled_mono [of E "D \<union> E" v ids] by auto
  have sp: "spilled v ids D \<subseteq> spilled v ids (D \<union> E)" by (rule spilled_mono) simp
  have wf: "heap_wf v ids U" using clean by (simp add: clean_heap_def)
  have E_U: "E \<subseteq> U" using T(2) heap_wf_reach [OF wf S] by blast
  have reached: "D \<union> E \<subseteq> reach v ids (R \<union> S)"
    using O(1) T(2) reach_mono [of R "R \<union> S" v ids] reach_mono [of S "R \<union> S" v ids] by blast
  have roots: "R \<union> S \<subseteq> (D \<union> E) \<union> spilled v ids (D \<union> E)" using O(2) T(3) lost sp by blast
  have kids: "kids v ids p \<subseteq> (D \<union> E) \<union> spilled v ids (D \<union> E)" if "p \<in> D \<union> E" for p
    using O(3) [of p] T(4) [of p] lost sp that by blast
  have targets: "target v (ids p) p \<in> D \<union> E" if "p \<in> D \<union> E" "target v (ids p) p \<noteq> 0" for p
  proof (cases "p \<in> D")
    case False
    with that E_U have "\<not> IsAlive (ids (target v (ids p) p))" using clean unfolding clean_heap_def by blast
    with T(5) [of p] that False show ?thesis by blast
  qed (use O(4) that in blast)
  show "so_far v ids (R \<union> S) g' (D \<union> E)"
    unfolding so_far_def using T(1) reached roots kids targets by blast
  show "m_fOutOfStackSpaceForGC g \<Longrightarrow> m_fOutOfStackSpaceForGC g'" by (rule T(6))
  show cl: "\<not> m_fOutOfStackSpaceForGC g' \<Longrightarrow> S \<subseteq> E \<and> (\<forall>p\<in>E. kids v ids p \<subseteq> E)" using T(3,4) by (simp add: lost_def)
  show "m_fOutOfStackSpaceForGC g' \<Longrightarrow> m_fOutOfStackSpaceForGC g \<or> \<not> E \<subseteq> D" using T(7) by blast
  show "settled v ids g' (D \<union> E)" if "settled v ids g D"
  proof (cases "m_fOutOfStackSpaceForGC g'")
    case False
    then have "\<not> m_fOutOfStackSpaceForGC g" using T(6) by blast
    with that have "spilled v ids D \<subseteq> D" by (simp add: settled_def)
    with cl [OF False] show ?thesis by (auto simp: settled_def spilled_def)
  qed (simp add: settled_def)
qed

text \<open>Results of the phases, and their composition.\<close>

fun run_ok :: "'a gc_run \<Rightarrow> bool \<Rightarrow> ('a \<Rightarrow> bool) \<Rightarrow> bool" where
  "run_ok OutOfFuel gr P \<longleftrightarrow> False"
| "run_ok OutOfBounds gr P \<longleftrightarrow> gr"
| "run_ok (Marked x) gr P \<longleftrightarrow> P x"

lemma run_ok_bind:
  assumes "run_ok r gr P" "\<And>x. P x \<Longrightarrow> run_ok (k x) gr Q"
  shows "run_ok (gc_bind r k) gr Q"
  using assms by (cases r) auto

lemma run_ok_mono: "run_ok r gr P \<Longrightarrow> (\<And>x. P x \<Longrightarrow> Q x) \<Longrightarrow> run_ok r gr Q"
  by (cases r) auto

definition ready :: "bool \<Rightarrow> GC \<Rightarrow> bool" where
  "ready gr g \<longleftrightarrow> gc_ready g \<and> (granted g \<longrightarrow> gr)"

text \<open>A call in a clean heap.\<close>

lemma phase_call:
  assumes clean: "clean_heap v ids U hcs hss" and R: "R \<subseteq> U" and S: "blocks (lst, num) \<subseteq> U"
    and flat: "num = 1 \<or> (\<forall>q\<in>blocks (lst, num). count v ids q = 0)" and fuel: "2 * heap_size v ids U < fuel"
    and g: "ready gr g" "so_far v ids R g D"
  shows "run_ok (ComputeReachabilityGraphForMultipleBlocks fuel v lst num g) gr
    (\<lambda>g'. ready gr g' \<and> (\<exists>E. traced v (gc_ids g) (blocks (lst, num)) (m_fOutOfStackSpaceForGC g) g' E))"
proof -
  have ids: "gc_ids g = marked D ids" using g(2) by (simp add: so_far_def)
  have "heap_wf v ids U" using clean by (simp add: clean_heap_def)
  then have "(ComputeReachabilityGraphForMultipleBlocks fuel v lst num g = OutOfBounds \<and> granted g) \<or>
    (\<exists>g' E. ComputeReachabilityGraphForMultipleBlocks fuel v lst num g = Marked g' \<and> gc_ready g' \<and> (granted g' \<longrightarrow> granted g) \<and>
       traced v (gc_ids g) (blocks (lst, num)) (m_fOutOfStackSpaceForGC g) g' E)"
    by (intro mark_call [where U = U]) (use S flat fuel g(1) ids in \<open>simp_all add: ready_def\<close>)
  then show ?thesis using g(1) by (auto simp: ready_def)
qed

section \<open>The roots\<close>

fun root_blocks :: "Root \<Rightarrow> nat set" where
  "root_blocks (SingleBlock obj) = {obj} - {0}"
| "root_blocks (ForcedBlock ptr) = {ptr} - {0}"
| "root_blocks (MultipleBlocks lst num) = (if lst = 0 then {} else blocks (lst, num))"

text \<open>A single root is an object, a run of roots is made of references.\<close>

fun root_ok :: "ObjectView \<Rightarrow> (nat \<Rightarrow> BlockId) \<Rightarrow> Root \<Rightarrow> bool" where
  "root_ok v ids (SingleBlock obj) \<longleftrightarrow> \<not> IsAlive (ids obj)"
| "root_ok v ids (ForcedBlock ptr) \<longleftrightarrow> True"
| "root_ok v ids (MultipleBlocks lst num) \<longleftrightarrow> num = 1 \<or> (\<forall>q\<in>blocks (lst, num). count v ids q = 0)"

definition phase :: "ObjectView \<Rightarrow> (nat \<Rightarrow> BlockId) \<Rightarrow> bool \<Rightarrow> nat set \<Rightarrow> nat set \<Rightarrow> GC \<Rightarrow> bool" where
  "phase v ids gr L R g \<longleftrightarrow> ready gr g \<and> (\<exists>D. L \<subseteq> D \<and> so_far v ids R g D \<and> settled v ids g D)"

lemma so_far_add:
  assumes "so_far v ids R g D" "S \<subseteq> D"
  shows "so_far v ids (R \<union> S) g D"
  using assms reach_mono [of R "R \<union> S" v ids] unfolding so_far_def by blast

lemma phase_root:
  assumes clean: "clean_heap v ids U hcs hss" and R: "R \<subseteq> U" and S: "root_blocks r \<subseteq> U" and ok: "root_ok v ids r"
    and fuel: "2 * heap_size v ids U < fuel" and ph: "phase v ids gr L R g"
  shows "run_ok (check_root fuel v r g) gr (phase v ids gr L (R \<union> root_blocks r))"
proof -
  from ph obtain D where D: "ready gr g" "so_far v ids R g D" "settled v ids g D" "L \<subseteq> D" by (auto simp: phase_def)
  have same: "phase v ids gr L (R \<union> T) g" if "T \<subseteq> D" for T
    using D so_far_add [OF D(2) that] by (auto simp: phase_def)
  have call: "run_ok (ComputeReachabilityGraphForMultipleBlocks fuel v lst num g) gr (phase v ids gr L (R \<union> blocks (lst, num)))"
    if "blocks (lst, num) \<subseteq> U" "num = 1 \<or> (\<forall>q\<in>blocks (lst, num). count v ids q = 0)" for lst num
  proof (rule run_ok_mono [OF phase_call [OF clean R that fuel D(1,2)]], elim conjE exE)
    fix g' E assume g': "ready gr g'" "traced v (gc_ids g) (blocks (lst, num)) (m_fOutOfStackSpaceForGC g) g' E"
    from so_far_call(1,2) [OF clean R that(1) D(2) g'(2)] D(3,4) g'(1) show "phase v ids gr L (R \<union> blocks (lst, num)) g'"
      unfolding phase_def by blast
  qed
  show ?thesis
  proof (cases r)
    case (SingleBlock obj)
    show ?thesis
    proof (cases "obj = 0 \<or> IsAlive (gc_ids g obj)")
      case True
      have "root_blocks r \<subseteq> D" using True ok D(2) SingleBlock by (auto simp: so_far_def)
      from same [OF this] True SingleBlock show ?thesis by (simp add: ComputeReachabilityGraphForSingleBlock_def)
    next
      case False
      with call [of obj 1] S SingleBlock show ?thesis by (simp add: ComputeReachabilityGraphForSingleBlock_def)
    qed
  next
    case (ForcedBlock ptr)
    with call [of ptr 1] same [of "{}"] S show ?thesis by (cases "ptr = 0") (simp_all add: CheckSingleBlock_Force_def)
  next
    case (MultipleBlocks lst num)
    with call [of lst num] same [of "{}"] S ok show ?thesis by (cases "lst = 0") (simp_all add: CheckMultipleBlocks_def)
  qed
qed

lemma phase_roots:
  assumes clean: "clean_heap v ids U hcs hss" and fuel: "2 * heap_size v ids U < fuel"
  shows "R \<subseteq> U \<Longrightarrow> (\<Union>r\<in>set rs. root_blocks r) \<subseteq> U \<Longrightarrow> \<forall>r\<in>set rs. root_ok v ids r \<Longrightarrow> phase v ids gr L R g \<Longrightarrow>
    run_ok (check_roots fuel v rs g) gr (phase v ids gr L (R \<union> (\<Union>r\<in>set rs. root_blocks r)))"
proof (induction rs arbitrary: R g)
  case (Cons r rs)
  have "run_ok (check_root fuel v r g) gr (phase v ids gr L (R \<union> root_blocks r))"
    by (rule phase_root [OF clean Cons.prems(1) _ _ fuel Cons.prems(4)]) (use Cons.prems in auto)
  then have "run_ok (check_roots fuel v (r # rs) g) gr (phase v ids gr L ((R \<union> root_blocks r) \<union> (\<Union>r\<in>set rs. root_blocks r)))"
    unfolding check_roots.simps by (rule run_ok_bind) (rule Cons.IH; use Cons.prems in auto)
  then show ?case by (simp add: Un_assoc)
qed simp

section \<open>The slow marking\<close>

text \<open>In a pass that began with \<open>D0\<close> the objects of \<open>seen\<close> have been scanned.\<close>

definition passing :: "ObjectView \<Rightarrow> (nat \<Rightarrow> BlockId) \<Rightarrow> bool \<Rightarrow> nat set \<Rightarrow> nat set \<Rightarrow> nat set \<Rightarrow> GC \<Rightarrow> bool" where
  "passing v ids gr R D0 seen g \<longleftrightarrow> ready gr g \<and>
     (\<exists>D. so_far v ids R g D \<and> D0 \<subseteq> D \<and>
        (if m_fOutOfStackSpaceForGC g then \<not> D \<subseteq> D0
         else \<forall>p\<in>D. 1 < count v ids p \<longrightarrow> p \<in> seen \<or> p \<notin> D0 \<longrightarrow> kids v ids p \<subseteq> D))"

lemma passing_scan:
  assumes clean: "clean_heap v ids U hcs hss" and R: "R \<subseteq> U" and fuel: "2 * heap_size v ids U < fuel"
    and h: "h \<in> set (concat hss)" and ps: "passing v ids gr R D0 seen g"
  shows "run_ok (if IsAlive (gc_ids g h) \<and> \<not> IsEvent (gc_ids g h) then CheckSingleBlock_Force fuel v h g else Marked g) gr
    (passing v ids gr R D0 (insert h seen))"
proof -
  from ps obtain D where D: "ready gr g" "so_far v ids R g D" "D0 \<subseteq> D"
    and pass: "if m_fOutOfStackSpaceForGC g then \<not> D \<subseteq> D0
         else \<forall>p\<in>D. 1 < count v ids p \<longrightarrow> p \<in> seen \<or> p \<notin> D0 \<longrightarrow> kids v ids p \<subseteq> D"
    unfolding passing_def by blast
  have ids: "gc_ids g = marked D ids" "D \<subseteq> reach v ids R" using D(2) by (auto simp: so_far_def)
  have reach: "reach v ids R \<subseteq> U" using clean R by (intro heap_wf_reach) (simp_all add: clean_heap_def)
  show ?thesis
  proof (cases "IsAlive (gc_ids g h) \<and> \<not> IsEvent (gc_ids g h)")
    case False
    have "h \<notin> D \<or> \<not> 1 < count v ids h"
      using False clean reach ids by (auto simp: clean_heap_def)
    with pass D False show ?thesis by (auto simp: passing_def split: if_splits)
  next
    case True
    have "h \<in> D" using True h clean ids(1) by (auto simp: clean_heap_def)
    then have hU: "blocks (h, 1) \<subseteq> U" and hR: "blocks (h, 1) \<subseteq> reach v ids R"
      using ids(2) reach by auto
    have h0: "h \<noteq> 0" using hU clean unfolding clean_heap_def by (metis blocks_simps(2) insert_subset)
    have "run_ok (ComputeReachabilityGraphForMultipleBlocks fuel v h 1 g) gr (passing v ids gr R D0 (insert h seen))"
    proof (rule run_ok_mono [OF phase_call [OF clean R hU disjI1 [OF refl] fuel D(1,2)]], elim conjE exE)
      fix g' E assume g': "ready gr g'" "traced v (gc_ids g) (blocks (h, 1)) (m_fOutOfStackSpaceForGC g) g' E"
      note S = so_far_call [OF clean R hU D(2) g'(2)]
      have "so_far v ids R g' (D \<union> E)"
        using S(1) reach_absorb [OF hR] unfolding so_far_def by auto
      moreover have "if m_fOutOfStackSpaceForGC g' then \<not> D \<union> E \<subseteq> D0
         else \<forall>p\<in>D \<union> E. 1 < count v ids p \<longrightarrow> p \<in> insert h seen \<or> p \<notin> D0 \<longrightarrow> kids v ids p \<subseteq> D \<union> E"
      proof (cases "m_fOutOfStackSpaceForGC g'")
        case True
        with S(5) pass D(3) show ?thesis by (auto split: if_splits)
      next
        case False
        then have nf: "\<not> m_fOutOfStackSpaceForGC g" using S(3) by blast
        from S(4) [OF False] have E: "h \<in> E" "\<forall>p\<in>E. kids v ids p \<subseteq> E" by auto
        have "kids v ids p \<subseteq> D \<union> E" if p: "p \<in> D \<union> E" "1 < count v ids p" "p \<in> insert h seen \<or> p \<notin> D0" for p
        proof (cases "p \<in> E")
          case False
          with p E(1) have "p \<in> D" "p \<in> seen \<or> p \<notin> D0" by auto
          with pass nf p(2) show ?thesis by auto
        qed (use E(2) in blast)
        with False show ?thesis by simp
      qed
      ultimately show "passing v ids gr R D0 (insert h seen) g'"
        using g'(1) D(3) unfolding passing_def by blast
    qed
    with True h0 show ?thesis by (simp add: CheckSingleBlock_Force_def)
  qed
qed

lemma passing_ids: "passing v ids gr R D0 seen g \<Longrightarrow> b_size (gc_ids g p) = b_size (ids p)"
  by (auto simp: passing_def so_far_def)

lemma passing_walk:
  assumes clean: "clean_heap v ids U hcs hss" and R: "R \<subseteq> U" and fuel: "2 * heap_size v ids U < fuel"
  shows "tiles ids start hs end' \<Longrightarrow> set hs \<subseteq> set (concat hss) \<Longrightarrow> length hs < n \<Longrightarrow> passing v ids gr R D0 seen g \<Longrightarrow>
    run_ok (slow_walk n fuel v start end' g) gr (passing v ids gr R D0 (seen \<union> set hs))"
proof (induction hs arbitrary: start n seen g)
  case Nil
  then obtain m where "n = Suc m" by (cases n) auto
  with Nil show ?case by simp
next
  case (Cons h hs)
  then obtain m where m: "n = Suc m" by (cases n) auto
  from Cons.prems(1) have t: "h = start" "tiles ids (start + extent ids start) hs end'" by auto
  have lt: "start < end'" using tiles_bounds(2) [OF Cons.prems(1), of start] t(1) by auto
  have "h \<in> set (concat hss)" using Cons.prems(2) by simp
  from passing_scan [OF clean R fuel this Cons.prems(4)]
  have scan: "run_ok (if IsAlive (gc_ids g start) \<and> \<not> IsEvent (gc_ids g start) then CheckSingleBlock_Force fuel v start g else Marked g) gr
      (passing v ids gr R D0 (insert h seen))" unfolding t(1) .
  have "run_ok (slow_walk n fuel v start end' g) gr (passing v ids gr R D0 (insert h seen \<union> set hs))"
    unfolding m slow_walk.simps if_P [OF lt]
  proof (rule run_ok_bind [OF scan])
    fix g' assume g': "passing v ids gr R D0 (insert h seen) g'"
    have "tiles ids (start + unat (b_size (gc_ids g' start))) hs end'" using t(2) passing_ids [OF g'] by simp
    then show "run_ok (slow_walk m fuel v (start + unat (b_size (gc_ids g' start))) end' g') gr
        (passing v ids gr R D0 (insert h seen \<union> set hs))"
      by (rule Cons.IH) (use Cons.prems(2,3) m g' in auto)
  qed
  then show ?case by simp
qed

lemma passing_clusters:
  assumes clean: "clean_heap v ids U hcs hss" and R: "R \<subseteq> U" and fuel: "2 * heap_size v ids U < fuel"
  shows "heads_of ids hcs' hss' \<Longrightarrow> set (concat hss') \<subseteq> set (concat hss) \<Longrightarrow> \<forall>hs\<in>set hss'. length hs < fuel \<Longrightarrow>
    passing v ids gr R D0 seen g \<Longrightarrow>
    run_ok (slow_clusters fuel v hcs' g) gr (passing v ids gr R D0 (seen \<union> set (concat hss')))"
proof (induction hcs' arbitrary: hss' seen g)
  case Nil
  then show ?case by (simp add: heads_of_def)
next
  case (Cons hc hcs')
  obtain start end' where hc: "hc = (start, end')" by (cases hc)
  from Cons.prems(1) obtain hs hss2 where h: "hss' = hs # hss2" "tiles ids start hs end'" "heads_of ids hcs' hss2"
    by (auto simp: heads_of_def list_all2_Cons1 hc)
  have "run_ok (slow_walk fuel fuel v start end' g) gr (passing v ids gr R D0 (seen \<union> set hs))"
    by (rule passing_walk [OF clean R fuel h(2)]) (use Cons.prems h(1) in auto)
  then have "run_ok (slow_clusters fuel v (hc # hcs') g) gr (passing v ids gr R D0 ((seen \<union> set hs) \<union> set (concat hss2)))"
    unfolding hc slow_clusters.simps by (rule run_ok_bind) (rule Cons.IH [OF h(3)]; use Cons.prems h(1) in auto)
  then show ?case using h(1) by (simp add: Un_assoc)
qed

lemma phase_MarkSlow:
  assumes clean: "clean_heap v ids U hcs hss" and R: "R \<subseteq> U" and fuel: "2 * heap_size v ids U < fuel"
    and walks: "\<forall>hs\<in>set hss. length hs < fuel"
  shows "ready gr g \<Longrightarrow> so_far v ids R g D \<Longrightarrow> settled v ids g D \<Longrightarrow> L \<subseteq> D \<Longrightarrow> Suc (card (U - D)) < n \<Longrightarrow>
    run_ok (MarkSlow n fuel v hcs g) gr (\<lambda>g. phase v ids gr L R g \<and> \<not> m_fOutOfStackSpaceForGC g)"
proof (induction n arbitrary: g D)
  case 0
  then show ?case by simp
next
  case (Suc n)
  have U: "finite U" "D \<subseteq> U" using clean Suc.prems(2) heap_wf_reach [OF _ R, of v ids]
    by (auto simp: clean_heap_def so_far_def heap_wf_def)
  show ?case
  proof (cases "m_fOutOfStackSpaceForGC g")
    case False
    with Suc.prems show ?thesis by (auto simp: phase_def)
  next
    case True
    let ?g = "g\<lparr>m_fOutOfStackSpaceForGC := False\<rparr>"
    have start: "passing v ids gr R D {} ?g"
      using Suc.prems(1,2) unfolding passing_def ready_def gc_ready_def granted_def so_far_def
      by (intro conjI exI [of _ D]) auto
    have heads: "heads_of ids hcs hss" using clean by (simp add: clean_heap_def)
    from passing_clusters [OF clean R fuel heads subset_refl walks start]
    have pass: "run_ok (slow_clusters fuel v hcs ?g) gr (passing v ids gr R D (set (concat hss)))" by simp
    show ?thesis
      unfolding MarkSlow.simps if_P [OF True]
    proof (rule run_ok_bind [OF pass])
      fix g' assume "passing v ids gr R D (set (concat hss)) g'"
      then obtain E where E: "ready gr g'" "so_far v ids R g' E" "D \<subseteq> E"
        "if m_fOutOfStackSpaceForGC g' then \<not> E \<subseteq> D
         else \<forall>p\<in>E. 1 < count v ids p \<longrightarrow> p \<in> set (concat hss) \<or> p \<notin> D \<longrightarrow> kids v ids p \<subseteq> E"
        unfolding passing_def by blast
      have E_U: "E \<subseteq> U" using clean E(2) heap_wf_reach [OF _ R, of v ids] by (auto simp: clean_heap_def so_far_def)
      show "run_ok (MarkSlow n fuel v hcs g') gr (\<lambda>g. phase v ids gr L R g \<and> \<not> m_fOutOfStackSpaceForGC g)"
      proof (cases "m_fOutOfStackSpaceForGC g'")
        case f: True
        with E(3,4) U E_U have "U - E \<subset> U - D" by auto
        then have "card (U - E) < card (U - D)" using U(1) by (intro psubset_card_mono) auto
        with Suc.prems(5) have "Suc (card (U - E)) < n" by simp
        then show ?thesis using Suc.prems(4) E(3) by (intro Suc.IH [OF E(1,2)]) (auto simp: settled_def f)
      next
        case f: False
        have "\<forall>p\<in>E. 1 < count v ids p \<longrightarrow> p \<in> set (concat hss)" using clean E_U by (auto simp: clean_heap_def)
        with E(4) f have "spilled v ids E \<subseteq> E" unfolding spilled_def by fastforce
        moreover obtain m where "n = Suc m" using Suc.prems(5) by (cases n) auto
        ultimately show ?thesis using E(1-3) f Suc.prems(4) by (auto simp: phase_def settled_def)
      qed
    qed
  qed
qed

section \<open>Finalizers and the whole phase\<close>

text \<open>An object whose finalizer becomes pending was not among the marked ones \<open>L\<close>.\<close>

lemma phase_finalize:
  assumes clean: "clean_heap v ids U hcs hss" and fuel: "2 * heap_size v ids U < fuel"
  shows "R \<subseteq> U \<Longrightarrow> snd ` set fins \<subseteq> U \<Longrightarrow> \<forall>obj\<in>snd ` set fins. \<not> IsAlive (ids obj) \<Longrightarrow> phase v ids gr L R g \<Longrightarrow>
    run_ok (finalize_dead fuel v fins g) gr
      (\<lambda>(g', pending). phase v ids gr L (R \<union> snd ` set fins) g' \<and> (\<forall>fin\<in>set pending. \<exists>obj. (fin, obj) \<in> set fins \<and> obj \<notin> L))"
proof (induction fins arbitrary: R g)
  case (Cons f fins)
  obtain fin obj where f: "f = (fin, obj)" by (cases f)
  from Cons.prems(4) obtain D where D: "ready gr g" "so_far v ids R g D" "settled v ids g D" "L \<subseteq> D" by (auto simp: phase_def)
  have obj: "obj \<in> U" "\<not> IsAlive (ids obj)" using Cons.prems(2,3) f by auto
  have rest: "run_ok (finalize_dead fuel v fins g') gr
      (\<lambda>(g', pending). phase v ids gr L ((R \<union> {obj}) \<union> snd ` set fins) g' \<and> (\<forall>fin\<in>set pending. \<exists>obj. (fin, obj) \<in> set fins \<and> obj \<notin> L))"
    if "phase v ids gr L (R \<union> {obj}) g'" for g'
    by (rule Cons.IH [OF _ _ _ that]) (use Cons.prems obj in auto)
  have all: "(R \<union> {obj}) \<union> snd ` set fins = R \<union> snd ` set (f # fins)" by (simp add: f)
  show ?case
  proof (cases "IsAlive (gc_ids g obj)")
    case True
    with obj D have "phase v ids gr L (R \<union> {obj}) g"
      using so_far_add [OF D(2), of "{obj}"] by (auto simp: phase_def so_far_def)
    from rest [OF this] show ?thesis unfolding all using True f by (auto elim!: run_ok_mono)
  next
    case False
    have root: "run_ok (check_root fuel v (SingleBlock obj) g) gr (phase v ids gr L (R \<union> root_blocks (SingleBlock obj)))"
      by (rule phase_root [OF clean Cons.prems(1) _ _ fuel Cons.prems(4)]) (use obj in auto)
    have nz: "obj \<noteq> 0" using obj(1) clean unfolding clean_heap_def by metis
    then have call: "run_ok (ComputeReachabilityGraphForSingleBlock fuel v obj g) gr (phase v ids gr L (R \<union> {obj}))"
      using root unfolding check_root.simps root_blocks.simps by simp
    have L: "obj \<notin> L" using False D(2,4) by (auto simp: so_far_def)
    show ?thesis
      unfolding f finalize_dead.simps if_P [OF False]
    proof (rule run_ok_bind [OF call])
      fix g' assume g': "phase v ids gr L (R \<union> {obj}) g'"
      show "run_ok (gc_bind (finalize_dead fuel v fins g') (\<lambda>(g, pending). Marked (g, fin # pending))) gr
        (\<lambda>(g', pending). phase v ids gr L (R \<union> snd ` set ((fin, obj) # fins)) g' \<and>
           (\<forall>fina\<in>set pending. \<exists>obja. (fina, obja) \<in> set ((fin, obj) # fins) \<and> obja \<notin> L))"
        using L all by (intro run_ok_bind [OF rest [OF g']]) (auto simp: f, blast+)
    qed
  qed
qed simp

text \<open>The roots of a collection.\<close>

definition engine_roots :: "EngineRoots \<Rightarrow> nat set" where
  "engine_roots e = (\<Union>r\<in>set (mark_roots e). root_blocks r)"

lemma Mark_spec:
  assumes clean: "clean_heap v (gc_ids g) U hcs hss"
    and fuel: "2 * heap_size v (gc_ids g) U + 1 < fuel" "\<forall>hs\<in>set hss. length hs < fuel"
    and roots: "engine_roots e \<subseteq> U" "\<forall>r\<in>set (mark_roots e). root_ok v (gc_ids g) r"
    and fins: "snd ` set finalizers \<subseteq> U" "\<forall>obj\<in>snd ` set finalizers. \<not> IsAlive (gc_ids g obj)"
  shows "run_ok (Mark fuel v e hcs finalizers g) (True \<in> set (gc_answers g))
    (\<lambda>(g', pending). gc_ids g' = marked (reach v (gc_ids g) (engine_roots e \<union> snd ` set finalizers)) (gc_ids g) \<and>
       \<not> m_fOutOfStackSpaceForGC g' \<and> m_markStack g' = 0 \<and> length (m_markStackList g') = 1 \<and>
       (\<forall>fin\<in>set pending. \<exists>obj. (fin, obj) \<in> set finalizers \<and> obj \<notin> reach v (gc_ids g) (engine_roots e)))"
proof -
  let ?ids = "gc_ids g" and ?gr = "True \<in> set (gc_answers g)" and ?R = "engine_roots e" and ?F = "snd ` set finalizers"
  let ?g = "g\<lparr>m_fOutOfStackSpaceForGC := False, gc_links := List_Initialize (m_weakDelegates_Reachable g) (gc_links g),
                m_markStackList := [MarkStack_Initialize c_minimumSpaceForGC], m_markStack := 0\<rparr>"
  have fuel': "2 * heap_size v ?ids U < fuel" using fuel by simp
  have fin: "finite U" using clean by (simp add: clean_heap_def heap_wf_def)
  have card: "Suc (card (U - D)) < fuel" for D
    using heap_size_bounds(1) [OF fin, of v ?ids] card_mono [OF fin, of "U - D"] fuel(1) by auto
  have "gc_ready ?g" by (simp add: gc_ready_def stack_ok_def MarkStack_Initialize_def c_minimumSpaceForGC_def)
  then have "ready ?gr ?g" by (simp add: ready_def granted_def)
  then have "phase v ?ids ?gr {} {} ?g"
    unfolding phase_def by (intro conjI exI [of _ "{}"]) (simp_all add: so_far_def settled_def spilled_def)
  from phase_roots [OF clean fuel' _ _ roots(2) this] roots(1)
  have a: "run_ok (check_roots fuel v (mark_roots e) ?g) ?gr (phase v ?ids ?gr {} ?R)" by (simp add: engine_roots_def)
  have b: "run_ok (MarkSlow fuel fuel v hcs g') ?gr (\<lambda>g. phase v ?ids ?gr (reach v ?ids ?R) ?R g)"
    if "phase v ?ids ?gr {} ?R g'" for g'
  proof -
    from that obtain D where D: "ready ?gr g'" "so_far v ?ids ?R g' D" "settled v ?ids g' D" by (auto simp: phase_def)
    show ?thesis
    proof (rule run_ok_mono [OF phase_MarkSlow [OF clean roots(1) fuel' fuel(2) D _ card, of "{}"]], simp, elim conjE)
      fix g'' assume "phase v ?ids ?gr {} ?R g''" "\<not> m_fOutOfStackSpaceForGC g''"
      then show "phase v ?ids ?gr (reach v ?ids ?R) ?R g''"
        using so_far_reach [of v ?ids ?R g''] by (auto simp: phase_def settled_def)
    qed
  qed
  have c: "run_ok (finalize_dead fuel v finalizers g') ?gr
      (\<lambda>(g', pending). phase v ?ids ?gr (reach v ?ids ?R) (?R \<union> ?F) g' \<and>
         (\<forall>fin\<in>set pending. \<exists>obj. (fin, obj) \<in> set finalizers \<and> obj \<notin> reach v ?ids ?R))"
    if "phase v ?ids ?gr (reach v ?ids ?R) ?R g'" for g'
    by (rule phase_finalize [OF clean fuel' roots(1) fins that])
  have d: "run_ok (MarkSlow fuel fuel v hcs g') ?gr (\<lambda>g. gc_ready g \<and> gc_ids g = marked (reach v ?ids (?R \<union> ?F)) ?ids \<and> \<not> m_fOutOfStackSpaceForGC g)"
    if "phase v ?ids ?gr (reach v ?ids ?R) (?R \<union> ?F) g'" for g'
  proof -
    from that obtain D where D: "ready ?gr g'" "so_far v ?ids (?R \<union> ?F) g' D" "settled v ?ids g' D" by (auto simp: phase_def)
    have RF: "?R \<union> ?F \<subseteq> U" using roots(1) fins(1) by simp
    show ?thesis
    proof (rule run_ok_mono [OF phase_MarkSlow [OF clean RF fuel' fuel(2) D _ card, of "{}"]], simp, elim conjE)
      fix g'' assume "phase v ?ids ?gr {} (?R \<union> ?F) g''" "\<not> m_fOutOfStackSpaceForGC g''"
      then obtain E where E: "gc_ready g''" "so_far v ?ids (?R \<union> ?F) g'' E" "spilled v ?ids E \<subseteq> E" by (auto simp: phase_def settled_def ready_def)
      from so_far_reach [OF E(2,3)] E(1,2) \<open>\<not> m_fOutOfStackSpaceForGC g''\<close>
      show "gc_ready g'' \<and> gc_ids g'' = marked (reach v ?ids (?R \<union> ?F)) ?ids \<and> \<not> m_fOutOfStackSpaceForGC g''"
        by (simp add: so_far_def)
    qed
  qed
  have one: "xs \<noteq> [] \<Longrightarrow> min (length xs) (Suc 0) = Suc 0" for xs :: "MarkStack list" by (cases xs) auto
  show ?thesis
    unfolding Mark_def Let_def
    by (rule run_ok_bind [OF a], rule run_ok_bind [OF b], assumption, rule run_ok_bind [OF c], assumption,
        clarsimp, rule run_ok_bind [OF d], assumption) (auto simp: gc_ready_def one)
qed

end
