(* ===== verification/GcProps.thy ===== *)
theory GcProps imports GcMarking begin

text \<open>
  What the mark phase of the garbage collector promises, and where it fails: with one mark stack it
  marks exactly what is reachable, however small the stack; a second stack that has been left and
  is needed again is not switched to, so that the buffer of the first is overrun; and the scan of
  the slow marking links a list of weak delegates a second time, which closes a cycle in the list.
\<close>

section \<open>The mark phase is exact\<close>

text \<open>
  C2: From a clean heap the mark phase ends, and unless the allocator has granted a further mark
  stack it ends within the bounds of its buffer. It marks exactly the blocks reachable from the
  roots and from the objects to be finalized, by depth or, when the stack overflows, by scanning
  the heap until nothing was dropped; and only finalizers of objects that the roots do not reach
  become pending.
\<close>

theorem Mark_marks_exactly_reachable:
  assumes "clean_heap v (gc_ids g) U hcs hss"
    and "2 * heap_size v (gc_ids g) U + 1 < fuel" "\<forall>hs\<in>set hss. length hs < fuel"
    and "engine_roots e \<subseteq> U" "\<forall>r\<in>set (mark_roots e). root_ok v (gc_ids g) r"
    and "snd ` set finalizers \<subseteq> U" "\<forall>obj\<in>snd ` set finalizers. \<not> IsAlive (gc_ids g obj)"
  shows "case Mark fuel v e hcs finalizers g of
      OutOfFuel \<Rightarrow> False
    | OutOfBounds \<Rightarrow> True \<in> set (gc_answers g)
    | Marked (g', pending) \<Rightarrow>
        (\<forall>p. gc_ids g' p = (if p \<in> reach v (gc_ids g) (engine_roots e \<union> snd ` set finalizers) then MarkAlive (gc_ids g p) else gc_ids g p)) \<and>
        \<not> m_fOutOfStackSpaceForGC g' \<and> m_markStack g' = 0 \<and> length (m_markStackList g') = 1 \<and>
        (\<forall>fin\<in>set pending. \<exists>obj. (fin, obj) \<in> set finalizers \<and> obj \<notin> reach v (gc_ids g) (engine_roots e))"
  using Mark_spec [OF assms] by (cases "Mark fuel v e hcs finalizers g") (auto simp: marked_def)

text \<open>
  A static field at 5 refers to the array at 10, whose first element refers to the object at 13;
  nothing refers to the string at 14.
\<close>

definition sample_ids :: "nat \<Rightarrow> BlockId" where
  "sample_ids = (\<lambda>_. RAW_ID DATATYPE_VOID 0 1)(5 := RAW_ID DATATYPE_OBJECT 0 1, 10 := RAW_ID DATATYPE_SZARRAY 0 3,
     11 := RAW_ID DATATYPE_OBJECT 0 1, 12 := RAW_ID DATATYPE_OBJECT 0 1, 13 := RAW_ID DATATYPE_CLASS 0 1, 14 := RAW_ID DATATYPE_STRING 0 1)"

definition sample_view :: ObjectView where
  "sample_view = \<lparr>v_Dereference = (\<lambda>_. 0)(5 := 10, 11 := 13), v_Array = (\<lambda>_. 0), v_fReference = (\<lambda>_. True), v_GetFirstElement = Suc,
     v_numOfElements = (\<lambda>_. 2), v_object = (\<lambda>_. 0), v_flags = (\<lambda>_. 0), v_GetDelegates = (\<lambda>_. 0), v_length = (\<lambda>_. 0)\<rparr>"

definition sample_gc :: "(nat \<Rightarrow> BlockId) \<Rightarrow> bool list \<Rightarrow> GC" where
  "sample_gc ids as = \<lparr>gc_ids = ids, gc_links = \<lparr>m_nextNode = (\<lambda>_. 0), m_prevNode = (\<lambda>_. 0)\<rparr>, m_weakDelegates_Reachable = \<lparr>Head = 1, Tail = 2\<rparr>,
     m_markStackList = [MarkStack_Initialize 2], m_markStack = 0, m_fOutOfStackSpaceForGC = False, gc_answers = as\<rparr>"

definition sample_roots :: EngineRoots where
  "sample_roots = \<lparr>er_protected = [], er_finalizersPending = [], er_assemblies = [\<lparr>as_pStaticFields = 5, as_iStaticFields = 1, as_pFile = 0\<rparr>],
     er_threadsReady = [], er_threadsWaiting = [], er_globalLock = 0, er_currentUICulture = 0\<rparr>"

lemma sample_dead: "\<not> IsAlive (sample_ids p)"
  by (simp add: sample_ids_def RAW_ID_alive)

lemma sample_shape:
  "expand sample_view (sample_ids 5) 5 = (0, 0)" "expand sample_view (sample_ids 10) 10 = (11, 2)" "expand sample_view (sample_ids 11) 11 = (0, 0)"
  "expand sample_view (sample_ids 12) 12 = (0, 0)" "expand sample_view (sample_ids 13) 13 = (14, 0)"
  "target sample_view (sample_ids 5) 5 = 10" "target sample_view (sample_ids 10) 10 = 0" "target sample_view (sample_ids 11) 11 = 13"
  "target sample_view (sample_ids 12) 12 = 0" "target sample_view (sample_ids 13) 13 = 0"
  by (simp_all add: sample_ids_def sample_view_def expand_def target_def)

lemma sample_kids:
  "kids sample_view sample_ids 5 = {}" "kids sample_view sample_ids 10 = {11, 12}" "kids sample_view sample_ids 11 = {}"
  "kids sample_view sample_ids 12 = {}" "kids sample_view sample_ids 13 = {}"
  by (auto simp: kids_def sample_shape blocks_def)

lemma sample_clean: "clean_heap sample_view sample_ids {5, 10, 11, 12, 13} [(10, 15)] [[10, 13, 14]]"
proof -
  have "heap_wf sample_view sample_ids {5, 10, 11, 12, 13}" by (simp add: heap_wf_def sample_kids sample_shape)
  moreover have "tiles sample_ids 10 [10, 13, 14] 15" by (simp add: sample_ids_def)
  moreover have "\<not> IsEvent (sample_ids 10)" by (simp add: sample_ids_def flag_bits)
  ultimately show ?thesis by (simp add: clean_heap_def heads_of_def sample_dead sample_shape)
qed

lemma sample_engine: "mark_roots sample_roots = [MultipleBlocks 5 1, SingleBlock 0, ForcedBlock 0, ForcedBlock 0]" "engine_roots sample_roots = {5}"
  by (simp_all add: engine_roots_def mark_roots_def sample_roots_def Assembly_Mark_def)

lemma sample_reach: "reach sample_view sample_ids {5} = {5, 10, 11, 12, 13}"
proof
  show "reach sample_view sample_ids {5} \<subseteq> {5, 10, 11, 12, 13}"
    by (rule reach_closed) (auto simp: sample_kids sample_shape)
  have "5 \<in> reach sample_view sample_ids {5}" using reach_base [of "{5}"] by blast
  from reach_target [OF this] have a: "10 \<in> reach sample_view sample_ids {5}" by (simp add: sample_shape)
  from reach_kid [OF a] have b: "11 \<in> reach sample_view sample_ids {5}" "12 \<in> reach sample_view sample_ids {5}" by (simp_all add: sample_kids)
  from reach_target [OF b(1)] have "13 \<in> reach sample_view sample_ids {5}" by (simp add: sample_shape)
  with a b \<open>5 \<in> _\<close> show "{5, 10, 11, 12, 13} \<subseteq> reach sample_view sample_ids {5}" by simp
qed

lemma sample_size: "heap_size sample_view sample_ids {5, 10, 11, 12, 13} = 19"
  by (simp add: heap_size_def sample_shape)

theorem Mark_marks_exactly_reachable_witness:
  "\<exists>g'. Mark 50 sample_view sample_roots [(10, 15)] [] (sample_gc sample_ids []) = Marked (g', []) \<and>
     IsAlive (gc_ids g' 13) \<and> \<not> IsAlive (gc_ids g' 14)"
proof -
  let ?g = "sample_gc sample_ids []"
  have g: "gc_ids ?g = sample_ids" "gc_answers ?g = []" by (simp_all add: sample_gc_def)
  note Mark_marks_exactly_reachable [where g = ?g and v = sample_view and U = "{5, 10, 11, 12, 13}" and hcs = "[(10, 15)]"
      and hss = "[[10, 13, 14]]" and fuel = 50 and e = sample_roots and finalizers = "[]"]
  then show ?thesis
    by (auto simp: g sample_engine sample_reach sample_dead sample_clean sample_size sample_shape split: gc_run.splits)
qed

section \<open>A mark stack that is needed again\<close>

text \<open>
  C31: When the current mark stack is full and another one follows it in the list, because it was
  filled before and left empty, the marking does not move on to it: the state is loaded from the
  old stack again, and the next element is written behind the end of its buffer.
\<close>

theorem second_stack_is_overrun:
  assumes "stacks_ok l g" "1 < l_num l" "l_stack l = l_stackLast l" "l_stackList l + 1 < length (m_markStackList g)"
  shows "mark_step v l g = Fault"
proof -
  have "l_num l \<noteq> 0" using assms(2) by auto
  moreover have "mark_push v (load_state (save_state l g) (l\<lparr>l_stackList := l_stackList l + 1\<rparr>)) (save_state l g) = Fault"
    using save_state_list(3) [OF assms(1)] stacks_okD(1-4) [OF assms(1)] stack_okD(4) [OF stacks_okD(3) [OF assms(1)]] assms(3)
    by (simp add: mark_push_def Let_def)
  ultimately show ?thesis using assms(2-4) by (simp add: mark_step_def Let_def)
qed

text \<open>Two arrays one after the other, with a stack of one element and one allocation, get there.\<close>

definition chain_ids :: "nat \<Rightarrow> BlockId" where
  "chain_ids p = (if p \<in> {10, 20, 30, 40} then RAW_ID DATATYPE_SZARRAY 0 3
     else if p \<in> {11, 12, 21, 22, 31, 32, 41, 42} then RAW_ID DATATYPE_OBJECT 0 1 else RAW_ID DATATYPE_VOID 0 1)"

definition chain_view :: ObjectView where
  "chain_view = \<lparr>v_Dereference = (\<lambda>p. if p = 11 then 20 else if p = 12 then 30 else if p = 31 then 40 else 0), v_Array = (\<lambda>_. 0),
     v_fReference = (\<lambda>_. True), v_GetFirstElement = Suc, v_numOfElements = (\<lambda>_. 2), v_object = (\<lambda>_. 0), v_flags = (\<lambda>_. 0),
     v_GetDelegates = (\<lambda>_. 0), v_length = (\<lambda>_. 0)\<rparr>"

definition out_of_bounds :: "GC gc_run \<Rightarrow> bool" where
  "out_of_bounds r = (case r of OutOfBounds \<Rightarrow> True | _ \<Rightarrow> False)"

lemma chain_overrun:
  "out_of_bounds (CheckSingleBlock_Force 50 chain_view 10 (sample_gc chain_ids [True]))"
  "\<not> out_of_bounds (CheckSingleBlock_Force 50 chain_view 10 (sample_gc chain_ids [False]))"
  by code_simp+

theorem second_stack_is_overrun_witness:
  "mark_step chain_view \<lparr>l_stackList = 0, l_stack = 1, l_stackLast = 1, l_lst = 41, l_num = 2\<rparr>
     (sample_gc chain_ids []\<lparr>m_markStackList := [\<lparr>ms_elements = [(0, 0), (32, 1)], ms_last = 1, ms_top = 0\<rparr>, MarkStack_Initialize 128]\<rparr>) = Fault"
  by (rule second_stack_is_overrun) (simp_all add: stacks_ok_def stack_ok_def sample_gc_def waiting_def entries_def MarkStack_Initialize_def)

section \<open>Weak delegates in the slow marking\<close>

text \<open>
  A list of weak delegates that is visited again while it is the last one in the list of the
  reachable ones is linked to itself: whoever walks along the links from it never comes to the end.
\<close>

lemma weak_delegates_linked_twice:
  assumes "b_type (gc_ids g n) = DATATYPE_DELEGATELIST_HEAD" "v_flags v n AND c_Weak \<noteq> 0"
    and "dll (m_weakDelegates_Reachable g) (gc_links g) (xs @ [n])" "visit v n l g = (l', g')"
  shows "m_nextNode (gc_links g') n = n \<and> (\<forall>fuel. count_from fuel n (gc_links g') = None)"
proof -
  let ?w = "m_weakDelegates_Reachable g" and ?st = "Node_Initialize n (gc_links g)"
  have d: "n \<noteq> 0" "Tail ?w \<noteq> 0" "Tail ?w \<noteq> n" "m_prevNode (gc_links g) (Tail ?w) = n"
    using assms(3) by (auto simp: dll_def linked_append)
  have "gc_links g' = LinkAtBack ?w n ?st"
    using assms(1,2,4) by (auto simp: visit_def Let_def link_weak_def gc_MarkAlive_def split: prod.splits if_splits)
  then have self: "m_nextNode (gc_links g') n = n"
    using d by (simp add: LinkAtBack_def InsertBeforeNode_def RemoveFromList_def Node_Initialize_def Insert_node_def Let_def)
  have "count_from fuel n (gc_links g') = None" for fuel by (induction fuel) (simp_all add: self d(1))
  with self show ?thesis by simp
qed

lemma weak_delegates_linked_twice_witness:
  "let g = sample_gc ((\<lambda>_. RAW_ID DATATYPE_VOID 0 1)(7 := RAW_ID DATATYPE_DELEGATELIST_HEAD HB_Alive 1)) [] in
   let g = g\<lparr>gc_links := LinkAtBack \<lparr>Head = 1, Tail = 2\<rparr> 7 (List_Initialize \<lparr>Head = 1, Tail = 2\<rparr> (gc_links g))\<rparr> in
   m_nextNode (gc_links (snd (visit (sample_view\<lparr>v_flags := \<lambda>_. 1\<rparr>) 7 \<lparr>l_stackList = 0, l_stack = 0, l_stackLast = 1, l_lst = 7, l_num = 1\<rparr> g))) 7 = 7"
proof -
  define g where "g = sample_gc ((\<lambda>_. RAW_ID DATATYPE_VOID 0 1)(7 := RAW_ID DATATYPE_DELEGATELIST_HEAD HB_Alive 1)) []"
  define g1 where "g1 = g\<lparr>gc_links := LinkAtBack \<lparr>Head = 1, Tail = 2\<rparr> 7 (List_Initialize \<lparr>Head = 1, Tail = 2\<rparr> (gc_links g))\<rparr>"
  define v where "v = sample_view\<lparr>v_flags := \<lambda>_. 1\<rparr>"
  define l :: MarkLocals where "l = \<lparr>l_stackList = 0, l_stack = 0, l_stackLast = 1, l_lst = 7, l_num = 1\<rparr>"
  have "dll \<lparr>Head = 1, Tail = 2\<rparr> (LinkAtBack \<lparr>Head = 1, Tail = 2\<rparr> 7 (List_Initialize \<lparr>Head = 1, Tail = 2\<rparr> (gc_links g))) ([] @ [7])"
    by (simp add: dll_def LinkAtBack_def InsertBeforeNode_def RemoveFromList_def Insert_node_def List_Initialize_def Let_def g_def sample_gc_def)
  then have d: "dll (m_weakDelegates_Reachable g1) (gc_links g1) ([] @ [7])" by (simp add: g1_def g_def sample_gc_def)
  have t: "b_type (gc_ids g1 7) = DATATYPE_DELEGATELIST_HEAD" "v_flags v 7 AND c_Weak \<noteq> 0"
    by (simp_all add: g1_def g_def sample_gc_def v_def c_Weak_def)
  have "visit v 7 l g1 = (fst (visit v 7 l g1), snd (visit v 7 l g1))" by simp
  from weak_delegates_linked_twice [OF t d this] show ?thesis by (simp add: Let_def g1_def g_def v_def l_def)
qed

end
