(* ===== verification/HeapMemory.thy ===== *)
theory HeapMemory imports HeapRecovery begin

text \<open>
  Several clusters in one memory (\<^verbatim>\<open>m_heap\<close> of the execution engine): a cluster reads and writes the memory
  at its foot only, its payload and the ends of its list of free blocks.
\<close>

text \<open>A cluster, with the memory as it is.\<close>

definition within :: "HeapCluster \<Rightarrow> (nat \<Rightarrow> BlockId) \<Rightarrow> Links \<Rightarrow> HeapCluster" where
  "within c ids lnk = c\<lparr>m_ids := ids, m_links := lnk\<rparr>"

abbreviation payload :: "HeapCluster \<Rightarrow> nat set" where
  "payload c \<equiv> {m_payloadStart c..<m_payloadEnd c}"

definition foot :: "HeapCluster \<Rightarrow> nat set" where
  "foot c = payload c \<union> {Head (m_freeList c), Tail (m_freeList c)}"

lemma within_simps [simp]:
  "m_ids (within c ids lnk) = ids" "m_links (within c ids lnk) = lnk" "m_freeList (within c ids lnk) = m_freeList c"
  "m_payloadStart (within c ids lnk) = m_payloadStart c" "m_payloadEnd (within c ids lnk) = m_payloadEnd c"
  by (simp_all add: within_def)

text \<open>A cluster depends on the memory at its foot only.\<close>

definition agree :: "nat set \<Rightarrow> (nat \<Rightarrow> BlockId) \<times> Links \<Rightarrow> (nat \<Rightarrow> BlockId) \<times> Links \<Rightarrow> bool" where
  "agree S m m' \<longleftrightarrow> (\<forall>x\<in>S. fst m' x = fst m x \<and> m_nextNode (snd m') x = m_nextNode (snd m) x \<and> m_prevNode (snd m') x = m_prevNode (snd m) x)"

lemma agree_refl: "agree S m m" by (simp add: agree_def)

lemma agree_sym: "agree S m m' \<Longrightarrow> agree S m' m" by (simp add: agree_def)

lemma agree_trans: "agree S m m' \<Longrightarrow> agree S m' m'' \<Longrightarrow> agree S m m''" by (simp add: agree_def)

lemma tiles_cong_ids:
  assumes "tiles ids p hs e" "\<And>x. x \<in> {p..<e} \<Longrightarrow> ids' x = ids x"
  shows "tiles ids' p hs e"
  using assms
proof (induction hs arbitrary: p)
  case (Cons h hs)
  have "h < e" using tiles_bounds(2) [OF Cons.prems(1), of h] by simp
  then have "ids' h = ids h" using Cons.prems by simp
  then show ?case using Cons.prems Cons.IH [of "h + extent ids h"] by auto
qed simp

lemma heads_in: "tiles ids (m_payloadStart c) hs (m_payloadEnd c) \<Longrightarrow> h \<in> set hs \<Longrightarrow> {h..<h + extent ids h} \<subseteq> payload c \<and> h \<in> payload c"
  using tiles_bounds(2) [of ids "m_payloadStart c" hs "m_payloadEnd c" h] by auto

lemma frame_ok_agree:
  assumes "frame_ok (within c ids lnk) hs" "agree (foot c) (ids, lnk) (ids', lnk')"
  shows "frame_ok (within c ids' lnk') hs"
proof -
  have i: "ids' x = ids x" if "x \<in> payload c" for x using assms(2) that by (simp add: agree_def foot_def)
  have t: "tiles ids (m_payloadStart c) hs (m_payloadEnd c)" using assms(1) by (simp add: frame_ok_def)
  have "ids' h = ids h" if "h \<in> set hs" for h using i heads_in [OF t that] by blast
  then show ?thesis using assms(1) tiles_cong_ids [OF t i] by (auto simp: frame_ok_def)
qed

lemma heap_ok_agree:
  assumes "heap_ok (within c ids lnk) hs" "agree (foot c) (ids, lnk) (ids', lnk')"
  shows "heap_ok (within c ids' lnk') hs"
proof -
  have i: "ids' x = ids x" if "x \<in> payload c" for x using assms(2) that by (simp add: agree_def foot_def)
  have t: "tiles ids (m_payloadStart c) hs (m_payloadEnd c)" using assms(1) by (simp add: heap_ok_def)
  have h: "ids' h = ids h" if "h \<in> set hs" for h using i heads_in [OF t that] by blast
  then have f: "filter (\<lambda>h. b_type (ids' h) = DATATYPE_FREEBLOCK) hs = filter (\<lambda>h. b_type (ids h) = DATATYPE_FREEBLOCK) hs"
    by (intro filter_cong) auto
  have d: "dll (m_freeList c) lnk (filter (\<lambda>h. b_type (ids h) = DATATYPE_FREEBLOCK) hs)"
    using assms(1) by (simp add: heap_ok_def)
  have "dll (m_freeList c) lnk' (filter (\<lambda>h. b_type (ids h) = DATATYPE_FREEBLOCK) hs)"
  proof (rule dll_cong [OF d])
    fix m assume "m \<in> set (Head (m_freeList c) # filter (\<lambda>h. b_type (ids h) = DATATYPE_FREEBLOCK) hs @ [Tail (m_freeList c)])"
    then have "m \<in> foot c" using heads_in [OF t] by (auto simp: foot_def)
    then show "m_nextNode lnk' m = m_nextNode lnk m \<and> m_prevNode lnk' m = m_prevNode lnk m"
      using assms(2) by (simp add: agree_def)
  qed
  then show ?thesis using assms(1) tiles_cong_ids [OF t i] h by (auto simp: heap_ok_def f)
qed

end
