(* ===== verification/GcCollect.thy ===== *)
theory GcCollect imports GcProps HeapMemory begin

text \<open>
  A whole collection, \<open>ExecuteGarbageCollection\<close> of \<^verbatim>\<open>src/CLR/Core/GarbageCollector.cpp\<close>: the mark phase,
  the weak references, and the sweep of the weak delegates and of the clusters, on one memory. The
  recovery of the event objects by their handlers, the persistence of weak references and the memory
  pressure are outside. The list of weak references is a list of its own here: in the code it is linked
  through the blocks of the weak references, so that dropping one writes the links of its neighbours.
\<close>

section \<open>Weak references\<close>

record WeakReference =
  wr_block :: nat
  m_identity_flags :: u32
  m_targetDirect :: nat
  m_targetSerialized :: nat

definition WR_Restored :: u32 where "WR_Restored = 0x40000000"
definition WR_ExtendedType :: u32 where "WR_ExtendedType = 0x80000000"

definition mark_id :: "nat \<Rightarrow> (nat \<Rightarrow> BlockId) \<Rightarrow> nat \<Rightarrow> BlockId" where
  "mark_id p ids = ids(p := MarkAlive (ids p))"

definition keep_serialized :: "WeakReference \<Rightarrow> (nat \<Rightarrow> BlockId) \<Rightarrow> nat \<Rightarrow> BlockId" where
  "keep_serialized w ids =
     (if m_targetSerialized w \<noteq> 0 \<and> \<not> IsAlive (ids (m_targetSerialized w)) then mark_id (m_targetSerialized w) ids else ids)"

text \<open>One reference of the list: what is left of it, if it stays, and the marks.\<close>

definition mark_weak :: "WeakReference \<Rightarrow> (nat \<Rightarrow> BlockId) \<Rightarrow> WeakReference option \<times> (nat \<Rightarrow> BlockId)" where
  "mark_weak w ids =
     (let ids = (if m_identity_flags w AND WR_Restored \<noteq> 0 \<and> m_targetSerialized w \<noteq> 0 then mark_id (wr_block w) ids else ids) in
      if IsAlive (ids (wr_block w)) then
        (let ids = (if m_identity_flags w AND WR_ExtendedType \<noteq> 0 then keep_serialized w ids else ids) in
         if m_targetDirect w \<noteq> 0 then
           (if IsAlive (ids (m_targetDirect w)) then (Some w, keep_serialized w ids)
            else (Some (w\<lparr>m_targetDirect := 0\<rparr>), ids))
         else (Some w, ids))
      else (None, ids))"

fun MarkWeak :: "WeakReference list \<Rightarrow> (nat \<Rightarrow> BlockId) \<Rightarrow> WeakReference list \<times> (nat \<Rightarrow> BlockId)" where
  "MarkWeak [] ids = ([], ids)"
| "MarkWeak (w # ws) ids =
     (let (r, ids) = mark_weak w ids; (ws, ids) = MarkWeak ws ids in
      (case r of None \<Rightarrow> ws | Some w \<Rightarrow> w # ws, ids))"

section \<open>The sweep\<close>

text \<open>One reference of a list of weak delegates: a delegate with a dead object is dropped.\<close>

definition sweep_delegate :: "nat \<Rightarrow> ObjectView \<times> (nat \<Rightarrow> BlockId) \<Rightarrow> ObjectView \<times> (nat \<Rightarrow> BlockId)" where
  "sweep_delegate el = (\<lambda>(v, ids).
     let dlg = v_Dereference v el in
     if dlg \<noteq> 0 then
       (let obj = v_Dereference v (v_object v dlg) in
        if obj \<noteq> 0 \<and> \<not> IsAlive (ids obj) then (v\<lparr>v_Dereference := (v_Dereference v)(el := 0)\<rparr>, ids)
        else (v, mark_id dlg ids))
     else (v, ids))"

definition sweep_delegates :: "nat \<Rightarrow> ObjectView \<times> (nat \<Rightarrow> BlockId) \<Rightarrow> ObjectView \<times> (nat \<Rightarrow> BlockId)" where
  "sweep_delegates weak m =
     fold sweep_delegate [v_GetDelegates (fst m) weak..<v_GetDelegates (fst m) weak + unat (v_length (fst m) weak)] m"

text \<open>The nodes a \<open>TINYCLR_FOREACH_NODE\<close> visits.\<close>

fun foreach_node :: "nat \<Rightarrow> Links \<Rightarrow> nat \<Rightarrow> nat list option" where
  "foreach_node 0 lnk ptr = None"
| "foreach_node (Suc n) lnk ptr =
     (if m_nextNode lnk ptr \<noteq> 0 then map_option (Cons ptr) (foreach_node n lnk (m_nextNode lnk ptr)) else Some [])"

fun RecoverClusters :: "nat \<Rightarrow> HeapCluster list \<Rightarrow> (nat \<Rightarrow> BlockId) \<Rightarrow> Links \<Rightarrow> ((nat \<Rightarrow> BlockId) \<times> Links) option" where
  "RecoverClusters fuel [] ids lnk = Some (ids, lnk)"
| "RecoverClusters fuel (hc # hcs) ids lnk =
     (case RecoverFromGC fuel (within hc ids lnk) of
        None \<Rightarrow> None
      | Some c \<Rightarrow> RecoverClusters fuel hcs (m_ids c) (m_links c))"

definition Sweep :: "nat \<Rightarrow> ObjectView \<Rightarrow> HeapCluster list \<Rightarrow> GC \<Rightarrow> (ObjectView \<times> (nat \<Rightarrow> BlockId) \<times> Links) option" where
  "Sweep fuel v clusters g =
     (case foreach_node fuel (gc_links g) (FirstNode (m_weakDelegates_Reachable g) (gc_links g)) of
        None \<Rightarrow> None
      | Some weaks \<Rightarrow>
          (let (v, ids) = fold sweep_delegates weaks (v, gc_ids g) in
           map_option (\<lambda>(ids, lnk). (v, ids, lnk)) (RecoverClusters fuel clusters ids (gc_links g))))"

section \<open>The collection\<close>

record Collected =
  col_view :: ObjectView
  col_ids :: "nat \<Rightarrow> BlockId"
  col_links :: Links
  col_weak :: "WeakReference list"
  col_pending :: "nat list"

definition ExecuteGarbageCollection ::
  "nat \<Rightarrow> ObjectView \<Rightarrow> EngineRoots \<Rightarrow> HeapCluster list \<Rightarrow> (nat \<times> nat) list \<Rightarrow> WeakReference list \<Rightarrow> GC \<Rightarrow> Collected gc_run" where
  "ExecuteGarbageCollection fuel v e clusters finalizersAlive weakReferences g =
     gc_bind (Mark fuel v e (map (\<lambda>c. (m_payloadStart c, m_payloadEnd c)) clusters) finalizersAlive g) (\<lambda>(g, pending).
       let (ws, ids) = MarkWeak weakReferences (gc_ids g) in
       case Sweep fuel v clusters (g\<lparr>gc_ids := ids\<rparr>) of
         None \<Rightarrow> OutOfFuel
       | Some (v, ids, lnk) \<Rightarrow>
           Marked \<lparr>col_view = v, col_ids = ids, col_links = lnk, col_weak = ws, col_pending = pending\<rparr>)"

end
