(* ===== verification/GcCollectProps.thy ===== *)
theory GcCollectProps imports GcCollect begin

text \<open>
  A collection keeps what is reachable and frees the rest, in all clusters; weak references and weak
  delegates are left with a target that survives, or none.
\<close>

section \<open>The recovery of all clusters\<close>

text \<open>A recovery writes in the payload and at the ends of the free list only.\<close>

definition untouched :: "nat set \<Rightarrow> HeapCluster \<Rightarrow> HeapCluster \<Rightarrow> bool" where
  "untouched S c c' \<longleftrightarrow> (\<forall>x. x \<notin> S \<longrightarrow> m_ids c' x = m_ids c x \<and>
     m_nextNode (m_links c') x = m_nextNode (m_links c) x \<and> m_prevNode (m_links c') x = m_prevNode (m_links c) x)"

definition shape :: "HeapCluster \<Rightarrow> nat \<times> nat \<times> ListEnds" where
  "shape c = (m_payloadStart c, m_payloadEnd c, m_freeList c)"

lemma untouched_refl: "untouched S c c" by (simp add: untouched_def)

lemma untouched_trans: "untouched S c d \<Longrightarrow> untouched S d e \<Longrightarrow> untouched S c e"
  by (auto simp: untouched_def)

lemma untouched_set:
  "a \<in> S \<Longrightarrow> untouched S c (SetDataId a b c)" "a \<in> S \<Longrightarrow> untouched S c (SetNext a v c)" "a \<in> S \<Longrightarrow> untouched S c (SetPrev a v c)"
  by (auto simp: untouched_def)

lemma shape_set [simp]:
  "shape (SetDataId a b c) = shape c" "shape (SetNext a v c) = shape c" "shape (SetPrev a v c) = shape c"
  by (simp_all add: shape_def)

lemma dead_run_grows: "dead_run n c ptr len = Some (nxt, tot) \<Longrightarrow> ptr \<le> nxt"
  by (induction n arbitrary: ptr len) (fastforce simp: Let_def split: if_splits)+

lemma recover_loop_untouched:
  assumes "recover_loop n ptr l c = Some (c', l')" "m_payloadStart c \<le> ptr" "l \<in> foot c"
  shows "untouched (foot c) c c' \<and> shape c' = shape c \<and> l' \<in> foot c"
  using assms
proof (induction n arbitrary: ptr l c)
  case (Suc n)
  show ?case
  proof (cases "ptr < m_payloadEnd c")
    case False
    then show ?thesis using Suc.prems by (simp add: untouched_refl)
  next
    case lt: True
    then have p: "ptr \<in> foot c" using Suc.prems(2) by (simp add: foot_def)
    have foot_eq: "foot d = foot c" if "shape d = shape c" for d using that by (simp add: shape_def foot_def)
    show ?thesis
    proof (cases "IsAlive (m_ids c ptr)")
      case False
      then obtain nxt tot where d: "dead_run (Suc n) c ptr 0 = Some (nxt, tot)"
        and r: "recover_loop n nxt ptr (SetPrev ptr l (SetNext l ptr (SetDataId ptr (RAW_ID DATATYPE_FREEBLOCK HB_Pinned tot) c))) = Some (c', l')"
        using Suc.prems(1) lt by (auto split: option.splits simp del: dead_run.simps)
      let ?c = "SetPrev ptr l (SetNext l ptr (SetDataId ptr (RAW_ID DATATYPE_FREEBLOCK HB_Pinned tot) c))"
      have "untouched (foot c) c ?c" by (intro untouched_trans [OF untouched_trans [OF untouched_set(1) untouched_set(2)] untouched_set(3)] p Suc.prems(3))
      moreover have "untouched (foot ?c) ?c c' \<and> shape c' = shape ?c \<and> l' \<in> foot ?c"
        using Suc.IH [OF r] Suc.prems dead_run_grows [OF d] p foot_eq [of ?c] by simp
      ultimately show ?thesis using foot_eq [of ?c] untouched_trans by (metis shape_set)
    next
      case True
      let ?c = "if \<not> IsEvent (m_ids c ptr) then SetDataId ptr (MarkDead (m_ids c ptr)) c else c"
      have r: "recover_loop n (ptr + unat (b_size (m_ids ?c ptr))) l ?c = Some (c', l')"
        using Suc.prems(1) lt True by (simp add: Let_def split: if_splits)
      have "untouched (foot c) c ?c" using p by (simp add: untouched_refl untouched_set)
      moreover have s: "shape ?c = shape c" by simp
      moreover have "untouched (foot ?c) ?c c' \<and> shape c' = shape ?c \<and> l' \<in> foot ?c"
        using Suc.IH [OF r] Suc.prems s foot_eq [OF s] by (simp add: shape_def)
      ultimately show ?thesis using foot_eq [OF s] untouched_trans by metis
    qed
  qed
qed simp

lemma RecoverFromGC_untouched:
  assumes "RecoverFromGC fuel c = Some c'"
  shows "untouched (foot c) c c' \<and> shape c' = shape c"
proof -
  let ?c = "SetPrev (Head (m_freeList c)) 0 c"
  obtain c1 l where r: "recover_loop fuel (m_payloadStart c) (Head (m_freeList c)) ?c = Some (c1, l)"
    and c': "c' = SetNext (Tail (m_freeList c)) 0 (SetPrev (Tail (m_freeList c)) l (SetNext l (Tail (m_freeList c)) c1))"
    using assms by (auto simp: RecoverFromGC_def Let_def split: option.splits)
  have f: "foot ?c = foot c" by (simp add: foot_def)
  have a: "untouched (foot c) ?c c1 \<and> shape c1 = shape ?c \<and> l \<in> foot c"
    using recover_loop_untouched [OF r] f by (simp add: foot_def)
  have "untouched (foot c) c ?c" by (rule untouched_set(3)) (simp add: foot_def)
  moreover have "untouched (foot c) c1 c'" unfolding c'
    by (intro untouched_trans [OF untouched_trans [OF untouched_set(2) untouched_set(3)] untouched_set(2)])
      (use a in \<open>auto simp: foot_def\<close>)
  ultimately show ?thesis using a untouched_trans c' by (metis shape_set)
qed

text \<open>What the recovery promises of one cluster, between the memories before and after.\<close>

definition cluster_recovered :: "HeapCluster \<Rightarrow> nat list \<Rightarrow> (nat \<Rightarrow> BlockId) \<times> Links \<Rightarrow> (nat \<Rightarrow> BlockId) \<times> Links \<Rightarrow> nat list \<Rightarrow> bool" where
  "cluster_recovered c hs m m' hs' \<longleftrightarrow>
     heap_ok (within c (fst m') (snd m')) hs' \<and> no_neighbours (within c (fst m') (snd m')) hs' \<and>
     used (within c (fst m') (snd m')) hs' = filter (\<lambda>h. IsAlive (fst m h)) hs \<and>
     (\<forall>h\<in>set (used (within c (fst m') (snd m')) hs').
        recovered (within c (fst m) (snd m)) (within c (fst m') (snd m')) h) \<and>
     pinned_free (within c (fst m') (snd m')) hs'"

lemma used_within: "used (within c ids lnk) hs = filter (\<lambda>h. b_type (ids h) \<noteq> DATATYPE_FREEBLOCK) hs"
  by (simp add: used_def)

lemma cluster_recovered_agree:
  assumes "cluster_recovered c hs m m' hs'" "tiles (fst m) (m_payloadStart c) hs (m_payloadEnd c)"
    and "agree (foot c) m n" "agree (foot c) m' n'"
  shows "cluster_recovered c hs n n' hs'"
proof -
  obtain ids lnk where m: "m = (ids, lnk)" by (cases m) auto
  obtain ids' lnk' where m': "m' = (ids', lnk')" by (cases m') auto
  obtain idn lnn where n: "n = (idn, lnn)" by (cases n) auto
  obtain idn' lnn' where n': "n' = (idn', lnn')" by (cases n') auto
  note R = assms(1) [unfolded cluster_recovered_def m m' fst_conv snd_conv]
  note t = assms(2) [unfolded m fst_conv]
  have i: "idn x = ids x" "idn' x = ids' x" "m_nextNode lnn x = m_nextNode lnk x" "m_prevNode lnn x = m_prevNode lnk x"
    "m_nextNode lnn' x = m_nextNode lnk' x" "m_prevNode lnn' x = m_prevNode lnk' x" if "x \<in> payload c" for x
    using assms(3,4) that by (auto simp: agree_def foot_def m m' n n')
  have hp: "heap_ok (within c idn' lnn') hs'" 
    using R by (intro heap_ok_agree [OF _ assms(4) [unfolded m' n']]) blast
  have t': "tiles ids' (m_payloadStart c) hs' (m_payloadEnd c)" using R by (simp add: heap_ok_def)
  have i': "idn' h = ids' h" if "h \<in> set hs'" for h using i(2) [of h] heads_in [OF t' that] by blast
  have "no_neighbours (within c idn' lnn') hs' = no_neighbours (within c ids' lnk') hs'"
    by (rule successively_cong) (auto simp: i')
  moreover have us: "used (within c idn' lnn') hs' = used (within c ids' lnk') hs'"
    unfolding used_within by (rule filter_cong) (auto simp: i')
  moreover have "filter (\<lambda>h. IsAlive (idn h)) hs = filter (\<lambda>h. IsAlive (ids h)) hs"
    by (rule filter_cong) (use heads_in [OF t] i in auto)
  moreover have "recovered (within c idn lnn) (within c idn' lnn') h" if h: "h \<in> set (used (within c ids' lnk') hs')" for h
  proof -
    have hs: "h \<in> set hs" using h R by auto
    have r: "recovered (within c ids lnk) (within c ids' lnk') h" using R h by blast
    have "{h..<h + extent ids h} \<subseteq> payload c" "h \<in> payload c" using heads_in [OF t hs] by auto
    then show ?thesis using r i unfolding recovered_def within_simps by (metis subsetD)
  qed
  moreover have "pinned_free (within c idn' lnn') hs'"
  proof -
    have "pinned_free (within c ids' lnk') hs'" using R by blast
    then show ?thesis unfolding within_simps using i' by metis
  qed
  ultimately show ?thesis using R hp by (simp add: cluster_recovered_def n n')
qed

lemma list_all2_with_set: "list_all2 P xs ys \<Longrightarrow> list_all2 (\<lambda>x y. x \<in> set xs \<and> P x y) xs ys"
  by (simp add: list_all2_conv_all_nth)

lemma RecoverClusters_spec:
  assumes "list_all2 (\<lambda>c hs. frame_ok (within c ids lnk) hs \<and> length hs < fuel) cs hss"
    and "sorted_wrt (\<lambda>c d. foot c \<inter> foot d = {}) cs"
  shows "\<exists>ids' lnk' hss'. RecoverClusters fuel cs ids lnk = Some (ids', lnk') \<and> length hss' = length cs \<and>
     (\<forall>i<length cs. cluster_recovered (cs ! i) (hss ! i) (ids, lnk) (ids', lnk') (hss' ! i)) \<and>
     agree (- \<Union>(foot ` set cs)) (ids, lnk) (ids', lnk')"
  using assms
proof (induction cs arbitrary: hss ids lnk)
  case Nil
  then show ?case by (auto simp: agree_refl)
next
  case (Cons c cs)
  obtain hs hss1 where hss: "hss = hs # hss1" and f: "frame_ok (within c ids lnk) hs" "length hs < fuel"
    and rest: "list_all2 (\<lambda>c hs. frame_ok (within c ids lnk) hs \<and> length hs < fuel) cs hss1"
    using Cons.prems(1) by (auto simp: list_all2_Cons1)
  have apart: "foot c \<inter> foot d = {}" if "d \<in> set cs" for d using Cons.prems(2) that by simp
  obtain c1 hs1 where r: "RecoverFromGC fuel (within c ids lnk) = Some c1" "heap_ok c1 hs1" "no_neighbours c1 hs1"
      "used c1 hs1 = filter (\<lambda>h. IsAlive (ids h)) hs" "\<forall>h\<in>set (used c1 hs1). recovered (within c ids lnk) c1 h" "pinned_free c1 hs1"
    using RecoverFromGC_ok [OF f, unfolded within_simps] by (elim exE conjE) (rule that)
  define ids1 lnk1 where "ids1 = m_ids c1" and "lnk1 = m_links c1"
  have u: "untouched (foot c) (within c ids lnk) c1" and s: "shape c1 = shape c"
    using RecoverFromGC_untouched [OF r(1)] by (simp_all add: foot_def shape_def)
  have c1: "c1 = within c ids1 lnk1"
    using s by (cases c; cases c1) (simp add: within_def ids1_def lnk1_def shape_def)
  have ag: "agree S (ids, lnk) (ids1, lnk1)" if "S \<inter> foot c = {}" for S
    using u that by (auto simp: untouched_def agree_def ids1_def lnk1_def)
  have "list_all2 (\<lambda>c hs. frame_ok (within c ids1 lnk1) hs \<and> length hs < fuel) cs hss1"
  proof (rule list_all2_mono [OF rest [THEN list_all2_with_set]])
    fix d ds
    assume "d \<in> set cs \<and> (frame_ok (within d ids lnk) ds \<and> length ds < fuel)"
    then show "frame_ok (within d ids1 lnk1) ds \<and> length ds < fuel"
      using frame_ok_agree [of d ids lnk ds ids1 lnk1] ag [of "foot d"] apart [of d] by (simp add: Int_commute)
  qed
  then obtain ids' lnk' hss' where R: "RecoverClusters fuel cs ids1 lnk1 = Some (ids', lnk')" "length hss' = length cs"
      "\<And>i. i < length cs \<Longrightarrow> cluster_recovered (cs ! i) (hss1 ! i) (ids1, lnk1) (ids', lnk') (hss' ! i)"
      "agree (- \<Union>(foot ` set cs)) (ids1, lnk1) (ids', lnk')"
    using Cons.IH [of ids1 lnk1 hss1] Cons.prems(2) by auto
  have t: "tiles ids (m_payloadStart d) ds (m_payloadEnd d)" if "frame_ok (within d ids lnk) ds" for d ds
    using that by (simp add: frame_ok_def)
  have agc: "agree (foot c) (ids1, lnk1) (ids', lnk')"
  proof -
    have "foot c \<inter> \<Union>(foot ` set cs) = {}" using apart by blast
    then have "foot c \<subseteq> - \<Union>(foot ` set cs)" by blast
    then show ?thesis using R(4) unfolding agree_def by blast
  qed
  have one: "cluster_recovered c hs (ids, lnk) (ids', lnk') hs1"
  proof -
    have "cluster_recovered c hs (ids, lnk) (ids1, lnk1) hs1"
      using r c1 by (simp add: cluster_recovered_def)
    then show ?thesis by (rule cluster_recovered_agree) (use t [OF f(1)] agc in \<open>simp_all add: agree_refl\<close>)
  qed
  have others: "cluster_recovered (cs ! i) (hss1 ! i) (ids, lnk) (ids', lnk') (hss' ! i)" if i: "i < length cs" for i
  proof (rule cluster_recovered_agree [OF R(3) [OF i]])
    have a: "foot (cs ! i) \<inter> foot c = {}" using apart [of "cs ! i"] i by auto
    show "agree (foot (cs ! i)) (ids1, lnk1) (ids, lnk)" by (rule agree_sym [OF ag [OF a]])
    have "frame_ok (within (cs ! i) ids lnk) (hss1 ! i)" using rest i by (simp add: list_all2_conv_all_nth)
    then have "frame_ok (within (cs ! i) ids1 lnk1) (hss1 ! i)" by (rule frame_ok_agree) (rule ag [OF a])
    then show "tiles (fst (ids1, lnk1)) (m_payloadStart (cs ! i)) (hss1 ! i) (m_payloadEnd (cs ! i))" by (simp add: frame_ok_def)
  qed (rule agree_refl)
  have all: "agree (- \<Union>(foot ` set (c # cs))) (ids, lnk) (ids', lnk')"
  proof (rule agree_trans)
    show "agree (- \<Union>(foot ` set (c # cs))) (ids, lnk) (ids1, lnk1)" by (rule ag) auto
    show "agree (- \<Union>(foot ` set (c # cs))) (ids1, lnk1) (ids', lnk')" using R(4) by (auto simp: agree_def)
  qed
  have "cluster_recovered ((c # cs) ! i) (hss ! i) (ids, lnk) (ids', lnk') ((hs1 # hss') ! i)" if "i < length (c # cs)" for i
    using one others that by (cases i) (auto simp: hss)
  moreover have "RecoverClusters fuel (c # cs) ids lnk = Some (ids', lnk')"
    using r(1) R(1) by (simp add: ids1_def lnk1_def)
  ultimately show ?case using all R(2) by (intro exI [of _ ids'] exI [of _ lnk'] exI [of _ "hs1 # hss'"]) simp
qed

section \<open>Weak references\<close>

text \<open>The blocks that only a weak reference can keep: itself, when it was restored, and its serialized target.\<close>

definition weak_blocks :: "WeakReference list \<Rightarrow> nat set" where
  "weak_blocks ws = (\<Union>w\<in>{w\<in>set ws. m_targetSerialized w \<noteq> 0}. {wr_block w, m_targetSerialized w})"

lemma marked_insert: "mark_id p (marked A ids) = marked (insert p A) ids"
  by (auto simp: mark_id_def marked_def MarkAlive_idem)

lemma keep_serialized_marked:
  "\<exists>B. keep_serialized w (marked A ids) = marked B ids \<and> A \<subseteq> B \<and> B \<subseteq> A \<union> ({m_targetSerialized w} - {0})"
  by (cases "m_targetSerialized w \<noteq> 0 \<and> \<not> IsAlive (marked A ids (m_targetSerialized w))")
    (auto simp: keep_serialized_def marked_insert intro: exI [of _ "insert (m_targetSerialized w) A"])

text \<open>A weak reference after the marking: it is alive, and so is what it points to.\<close>

definition weak_ok :: "(nat \<Rightarrow> BlockId) \<Rightarrow> WeakReference \<Rightarrow> bool" where
  "weak_ok ids w \<longleftrightarrow> IsAlive (ids (wr_block w)) \<and> (m_targetDirect w \<noteq> 0 \<longrightarrow> IsAlive (ids (m_targetDirect w))) \<and>
     (m_targetSerialized w \<noteq> 0 \<and> (m_identity_flags w AND WR_ExtendedType \<noteq> 0 \<or> m_targetDirect w \<noteq> 0) \<longrightarrow>
        IsAlive (ids (m_targetSerialized w)))"

text \<open>The blocks that a reference in the list relies on.\<close>

definition weak_targets :: "WeakReference \<Rightarrow> nat set" where
  "weak_targets w = {wr_block w, m_targetDirect w} \<union>
     (if m_identity_flags w AND WR_ExtendedType \<noteq> 0 \<or> m_targetDirect w \<noteq> 0 then {m_targetSerialized w} else {})"

lemma weak_ok_mono: "weak_ok (marked A ids) w \<Longrightarrow> A \<subseteq> B \<Longrightarrow> weak_ok (marked B ids) w"
  by (auto simp: weak_ok_def)

text \<open>A reference that stays in the list: its block is in \<open>A\<close>, or it was restored and waits to be read.\<close>

definition wr_held :: "nat set \<Rightarrow> WeakReference \<Rightarrow> bool" where
  "wr_held A w \<longleftrightarrow> wr_block w \<in> A \<or> m_identity_flags w AND WR_Restored \<noteq> 0 \<and> m_targetSerialized w \<noteq> 0"

lemma wr_held_mono: "wr_held A w \<Longrightarrow> A \<subseteq> B \<Longrightarrow> wr_held B w"
  by (auto simp: wr_held_def)

lemma mark_weak_spec:
  "\<exists>r B. mark_weak w (marked A ids) = (r, marked B ids) \<and> A \<subseteq> B \<and> B \<subseteq> A \<union> weak_blocks [w] \<and>
     (\<forall>w'. r = Some w' \<longrightarrow> weak_ok (marked B ids) w' \<and> (w' = w \<or> w' = w\<lparr>m_targetDirect := 0\<rparr>)) \<and>
     (wr_held A w \<longrightarrow> r \<noteq> None \<and> (m_targetDirect w = 0 \<or> m_targetDirect w \<in> A \<longrightarrow> r = Some w))"
proof -
  let ?p = "wr_block w" and ?s = "m_targetSerialized w" and ?d = "m_targetDirect w"
  let ?restored = "m_identity_flags w AND WR_Restored \<noteq> 0 \<and> ?s \<noteq> 0" and ?ext = "m_identity_flags w AND WR_ExtendedType \<noteq> 0"
  define A1 where "A1 = (if ?restored then insert ?p A else A)"
  define A2 where "A2 = (if ?ext \<and> ?s \<noteq> 0 then insert ?s A1 else A1)"
  define A3 where "A3 = (if ?s \<noteq> 0 then insert ?s A2 else A2)"
  have m1: "(if ?restored then mark_id ?p (marked A ids) else marked A ids) = marked A1 ids"
    by (simp add: A1_def marked_insert)
  have ks: "keep_serialized w (marked C ids) = marked (if ?s \<noteq> 0 then insert ?s C else C) ids" for C
    by (auto simp: keep_serialized_def marked_insert) (auto simp: marked_def MarkAlive_idem)
  have m2: "(if ?ext then keep_serialized w (marked A1 ids) else marked A1 ids) = marked A2 ids"
    by (simp add: A2_def ks)
  have m3: "keep_serialized w (marked A2 ids) = marked A3 ids" by (simp add: A3_def ks)
  have sub: "A \<subseteq> A1" "A1 \<subseteq> A2" "A2 \<subseteq> A3" "A3 \<subseteq> A \<union> weak_blocks [w]"
    by (auto simp: A1_def A2_def A3_def weak_blocks_def)
  have eq: "mark_weak w (marked A ids) =
      (if IsAlive (marked A1 ids ?p) then
         (if ?d \<noteq> 0 then (if IsAlive (marked A2 ids ?d) then (Some w, marked A3 ids) else (Some (w\<lparr>m_targetDirect := 0\<rparr>), marked A2 ids))
          else (Some w, marked A2 ids))
       else (None, marked A1 ids))"
    unfolding mark_weak_def Let_def m1 m2 m3 ..
  have held: "wr_held A w \<Longrightarrow> IsAlive (marked A1 ids ?p)" by (auto simp: wr_held_def A1_def)
  consider "\<not> IsAlive (marked A1 ids ?p)" | "IsAlive (marked A1 ids ?p)" "?d \<noteq> 0" "IsAlive (marked A2 ids ?d)"
    | "IsAlive (marked A1 ids ?p)" "?d \<noteq> 0" "\<not> IsAlive (marked A2 ids ?d)" | "IsAlive (marked A1 ids ?p)" "?d = 0" by blast
  then show ?thesis
  proof cases
    case 1
    then show ?thesis using sub eq held by (intro exI [of _ None] exI [of _ A1]) auto
  next
    case 2
    have "weak_ok (marked A3 ids) w" using 2 sub by (auto simp: weak_ok_def A3_def)
    then show ?thesis using 2 sub eq by (intro exI [of _ "Some w"] exI [of _ A3]) simp
  next
    case 3
    have "weak_ok (marked A2 ids) (w\<lparr>m_targetDirect := 0\<rparr>)" using 3 sub by (auto simp: weak_ok_def A2_def)
    moreover have "?d \<notin> A" using 3 sub by auto
    ultimately show ?thesis using 3 sub eq by (intro exI [of _ "Some (w\<lparr>m_targetDirect := 0\<rparr>)"] exI [of _ A2]) auto
  next
    case 4
    have "weak_ok (marked A2 ids) w" using 4 sub by (auto simp: weak_ok_def A2_def)
    then show ?thesis using 4 sub eq by (intro exI [of _ "Some w"] exI [of _ A2]) auto
  qed
qed

lemma MarkWeak_spec:
  "\<exists>ws' B. MarkWeak ws (marked A ids) = (ws', marked B ids) \<and> A \<subseteq> B \<and> B \<subseteq> A \<union> weak_blocks ws \<and>
     (\<forall>w'\<in>set ws'. weak_ok (marked B ids) w' \<and> (\<exists>w\<in>set ws. w' = w \<or> w' = w\<lparr>m_targetDirect := 0\<rparr>)) \<and>
     (\<forall>w\<in>set ws. wr_held A w \<longrightarrow> (w \<in> set ws' \<or> w\<lparr>m_targetDirect := 0\<rparr> \<in> set ws') \<and>
        (m_targetDirect w = 0 \<or> m_targetDirect w \<in> A \<longrightarrow> w \<in> set ws'))"
proof (induction ws arbitrary: A)
  case Nil
  then show ?case by auto
next
  case (Cons w ws)
  obtain r C where r: "mark_weak w (marked A ids) = (r, marked C ids)" "A \<subseteq> C" "C \<subseteq> A \<union> weak_blocks [w]"
      "\<forall>w'. r = Some w' \<longrightarrow> weak_ok (marked C ids) w' \<and> (w' = w \<or> w' = w\<lparr>m_targetDirect := 0\<rparr>)"
      "wr_held A w \<longrightarrow> r \<noteq> None \<and> (m_targetDirect w = 0 \<or> m_targetDirect w \<in> A \<longrightarrow> r = Some w)"
    using mark_weak_spec [of w A ids] by blast
  obtain ws' B where IH: "MarkWeak ws (marked C ids) = (ws', marked B ids)" "C \<subseteq> B" "B \<subseteq> C \<union> weak_blocks ws"
      "\<forall>w'\<in>set ws'. weak_ok (marked B ids) w' \<and> (\<exists>w\<in>set ws. w' = w \<or> w' = w\<lparr>m_targetDirect := 0\<rparr>)"
      "\<forall>w\<in>set ws. wr_held C w \<longrightarrow> (w \<in> set ws' \<or> w\<lparr>m_targetDirect := 0\<rparr> \<in> set ws') \<and>
        (m_targetDirect w = 0 \<or> m_targetDirect w \<in> C \<longrightarrow> w \<in> set ws')"
    using Cons.IH [of C] by blast
  let ?ws = "case r of None \<Rightarrow> ws' | Some w \<Rightarrow> w # ws'"
  have "MarkWeak (w # ws) (marked A ids) = (?ws, marked B ids)" by (simp add: r(1) IH(1))
  moreover have "\<forall>v\<in>set ?ws. weak_ok (marked B ids) v \<and> (\<exists>u\<in>set (w # ws). v = u \<or> v = u\<lparr>m_targetDirect := 0\<rparr>)"
    using IH(4) r(4) weak_ok_mono [OF _ IH(2)] by (auto split: option.splits)
  moreover have "(v \<in> set ?ws \<or> v\<lparr>m_targetDirect := 0\<rparr> \<in> set ?ws) \<and> (m_targetDirect v = 0 \<or> m_targetDirect v \<in> A \<longrightarrow> v \<in> set ?ws)"
    if v: "v \<in> set (w # ws)" "wr_held A v" for v
  proof (cases "v = w")
    case True
    then show ?thesis using r(4,5) v(2) by (auto split: option.splits)
  next
    case False
    then have "v \<in> set ws" "wr_held C v" using v wr_held_mono r(2) by auto
    with IH(5) r(2) show ?thesis by (auto split: option.splits)
  qed
  moreover have "B \<subseteq> A \<union> weak_blocks (w # ws)" using IH(3) r(3) by (auto simp: weak_blocks_def)
  ultimately show ?case using IH(2) r(2) by (intro exI [of _ ?ws] exI [of _ B]) blast
qed

section \<open>A collection without weak delegates\<close>

text \<open>The marking writes the links of weak delegates only.\<close>

definition no_weak_delegates :: "ObjectView \<Rightarrow> bool" where
  "no_weak_delegates v \<longleftrightarrow> (\<forall>p. v_flags v p AND c_Weak = 0)"

definition same_links :: "GC \<Rightarrow> GC \<Rightarrow> bool" where
  "same_links g g' \<longleftrightarrow> gc_links g' = gc_links g \<and> m_weakDelegates_Reachable g' = m_weakDelegates_Reachable g"

lemma same_links_refl: "same_links g g" by (simp add: same_links_def)

lemma same_links_trans: "same_links g g' \<Longrightarrow> same_links g' g'' \<Longrightarrow> same_links g g''" by (simp add: same_links_def)

definition keeps_links :: "GC \<Rightarrow> GC gc_run \<Rightarrow> bool" where
  "keeps_links g r \<longleftrightarrow> (\<forall>g'. r = Marked g' \<longrightarrow> same_links g g')"

lemma keeps_links_marked [simp]: "keeps_links g (Marked g') = same_links g g'" by (simp add: keeps_links_def)

lemma keeps_links_bind: "keeps_links g r \<Longrightarrow> (\<And>g'. same_links g g' \<Longrightarrow> keeps_links g (k g')) \<Longrightarrow> keeps_links g (gc_bind r k)"
  by (cases r) (auto simp: keeps_links_def)

lemma keeps_links_same: "same_links g g' \<Longrightarrow> keeps_links g' r \<Longrightarrow> keeps_links g r"
  by (auto simp: keeps_links_def same_links_def)

lemma same_links_edits [simp]:
  "same_links g (set_element l e g') = same_links g g'" "same_links g (save_state l g') = same_links g g'"
  "same_links g (gc_MarkAlive p g') = same_links g g'"
  "same_links g (g'\<lparr>m_markStack := i\<rparr>) = same_links g g'" "same_links g (g'\<lparr>m_markStackList := ss\<rparr>) = same_links g g'"
  "same_links g (g'\<lparr>gc_answers := as\<rparr>) = same_links g g'" "same_links g (g'\<lparr>m_fOutOfStackSpaceForGC := b\<rparr>) = same_links g g'"
  by (simp_all add: same_links_def set_element_def save_state_def gc_MarkAlive_def Let_def)

lemma visit_links: "no_weak_delegates v \<Longrightarrow> same_links g (snd (visit v p l g))"
  by (simp add: visit_def link_weak_def no_weak_delegates_def Let_def same_links_refl split: prod.split)

lemma visit_next: "visit v p l g' = (l', g'') \<Longrightarrow> no_weak_delegates v \<Longrightarrow> same_links g g' \<Longrightarrow> same_links g g''"
  using visit_links [of v g' p l] same_links_trans by simp

lemma mark_pop_links: "mark_pop v l g' = Next (l', g'') \<Longrightarrow> no_weak_delegates v \<Longrightarrow> same_links g g' \<Longrightarrow> same_links g g''"
  by (auto simp: mark_pop_def Let_def elim!: visit_next split: prod.splits if_splits)

lemma mark_push_links: "mark_push v l g' = Next (l', g'') \<Longrightarrow> no_weak_delegates v \<Longrightarrow> same_links g g' \<Longrightarrow> same_links g g''"
  by (auto simp: mark_push_def Let_def elim!: visit_next split: prod.splits if_splits)

lemma mark_step_links: "mark_step v l g = Next (l', g') \<Longrightarrow> no_weak_delegates v \<Longrightarrow> same_links g g'"
  by (auto simp: mark_step_def Let_def same_links_refl split: if_splits prod.splits option.splits
      elim!: mark_pop_links mark_push_links visit_next)

lemma mark_loop_links: "no_weak_delegates v \<Longrightarrow> keeps_links g (mark_loop n v l g)"
proof (induction n arbitrary: l g)
  case (Suc n)
  show ?case
  proof (cases "mark_step v l g")
    case (Next lg)
    obtain l' g' where lg: "lg = (l', g')" by (cases lg)
    then show ?thesis using keeps_links_same [OF mark_step_links [OF Next [unfolded lg] Suc.prems] Suc.IH [OF Suc.prems]] Next by simp
  qed (auto simp: keeps_links_def same_links_refl)
qed (simp add: keeps_links_def)

lemma single_links: "no_weak_delegates v \<Longrightarrow> keeps_links g (ComputeReachabilityGraphForSingleBlock n v p g)"
  by (simp add: ComputeReachabilityGraphForSingleBlock_def ComputeReachabilityGraphForMultipleBlocks_def mark_loop_links same_links_refl)

lemma forced_links: "no_weak_delegates v \<Longrightarrow> keeps_links g (CheckSingleBlock_Force n v p g)"
  by (simp add: CheckSingleBlock_Force_def ComputeReachabilityGraphForMultipleBlocks_def mark_loop_links same_links_refl)

lemma root_links: "no_weak_delegates v \<Longrightarrow> keeps_links g (check_root n v r g)"
  by (cases r) (simp_all add: single_links forced_links CheckMultipleBlocks_def ComputeReachabilityGraphForMultipleBlocks_def
      mark_loop_links same_links_refl)

lemma roots_links: "no_weak_delegates v \<Longrightarrow> keeps_links g (check_roots n v rs g)"
proof (induction rs arbitrary: g)
  case (Cons r rs)
  then show ?case using keeps_links_same by (auto intro!: keeps_links_bind root_links)
qed (simp add: same_links_refl)

lemma walk_links: "no_weak_delegates v \<Longrightarrow> keeps_links g (slow_walk n fuel v p e g)"
proof (induction n arbitrary: p g)
  case (Suc n)
  then show ?case using keeps_links_same by (auto intro!: keeps_links_bind simp: forced_links same_links_refl)
qed (simp add: keeps_links_def)

lemma clusters_links: "no_weak_delegates v \<Longrightarrow> keeps_links g (slow_clusters fuel v hcs g)"
proof (induction hcs arbitrary: g)
  case (Cons hc hcs)
  then show ?case using keeps_links_same by (cases hc) (auto intro!: keeps_links_bind walk_links)
qed (simp add: same_links_refl)

lemma MarkSlow_links: "no_weak_delegates v \<Longrightarrow> keeps_links g (MarkSlow n fuel v hcs g)"
proof (induction n arbitrary: g)
  case (Suc n)
  have "keeps_links g (slow_clusters fuel v hcs (g\<lparr>m_fOutOfStackSpaceForGC := False\<rparr>))"
    by (rule keeps_links_same [OF _ clusters_links [OF Suc.prems]]) (simp add: same_links_refl)
  then show ?case using keeps_links_same [OF _ Suc.IH [OF Suc.prems]] by (auto intro!: keeps_links_bind simp: same_links_refl)
qed (simp add: keeps_links_def)

lemma finalize_links: "no_weak_delegates v \<Longrightarrow> finalize_dead fuel v fins g = Marked (g', pending) \<Longrightarrow> same_links g g'"
proof (induction fins arbitrary: g pending)
  case (Cons f fins)
  obtain fin obj where f: "f = (fin, obj)" by (cases f)
  show ?case
  proof (cases "IsAlive (gc_ids g obj)")
    case True
    then show ?thesis using Cons f by simp
  next
    case False
    obtain g1 where g1: "ComputeReachabilityGraphForSingleBlock fuel v obj g = Marked g1"
      using Cons.prems(2) f False by (cases "ComputeReachabilityGraphForSingleBlock fuel v obj g") auto
    moreover obtain g2 p where "finalize_dead fuel v fins g1 = Marked (g2, p)"
      using Cons.prems(2) f False g1 by (cases "finalize_dead fuel v fins g1") auto
    ultimately show ?thesis using Cons f False single_links [of v g fuel obj] same_links_trans by simp
  qed
qed (simp add: same_links_refl)


lemma Mark_links:
  assumes "no_weak_delegates v" "Mark fuel v e hcs fins g = Marked (g', pending)"
  shows "gc_links g' = List_Initialize (m_weakDelegates_Reachable g) (gc_links g) \<and> m_weakDelegates_Reachable g' = m_weakDelegates_Reachable g"
proof -
  let ?g = "g\<lparr>m_fOutOfStackSpaceForGC := False, gc_links := List_Initialize (m_weakDelegates_Reachable g) (gc_links g),
                m_markStackList := [MarkStack_Initialize c_minimumSpaceForGC], m_markStack := 0\<rparr>"
  obtain g1 where g1: "check_roots fuel v (mark_roots e) ?g = Marked g1"
    using assms(2) by (cases "check_roots fuel v (mark_roots e) ?g") (auto simp: Mark_def Let_def)
  obtain g2 where g2: "MarkSlow fuel fuel v hcs g1 = Marked g2"
    using assms(2) g1 by (cases "MarkSlow fuel fuel v hcs g1") (auto simp: Mark_def Let_def)
  obtain g3 p where g3: "finalize_dead fuel v fins g2 = Marked (g3, p)"
    using assms(2) g1 g2 by (cases "finalize_dead fuel v fins g2") (auto simp: Mark_def Let_def)
  obtain g4 where g4: "MarkSlow fuel fuel v hcs g3 = Marked g4"
    using assms(2) g1 g2 g3 by (cases "MarkSlow fuel fuel v hcs g3") (auto simp: Mark_def Let_def)
  have "same_links ?g g1" "same_links g1 g2" "same_links g2 g3" "same_links g3 g4"
    using roots_links [OF assms(1), of ?g fuel "mark_roots e"] MarkSlow_links [OF assms(1), of g1 fuel fuel hcs] g1 g2
      finalize_links [OF assms(1) g3] MarkSlow_links [OF assms(1), of g3 fuel fuel hcs] g4 by simp_all
  then show ?thesis using assms(2) g1 g2 g3 g4 by (auto simp: Mark_def Let_def same_links_def)
qed

section \<open>The whole collection\<close>

abbreviation bounds :: "HeapCluster list \<Rightarrow> (nat \<times> nat) list" where
  "bounds cs \<equiv> map (\<lambda>c. (m_payloadStart c, m_payloadEnd c)) cs"

text \<open>What the roots and the objects to be finalized reach.\<close>

definition live :: "ObjectView \<Rightarrow> EngineRoots \<Rightarrow> (nat \<times> nat) list \<Rightarrow> GC \<Rightarrow> nat set" where
  "live v e fins g = reach v (gc_ids g) (engine_roots e \<union> snd ` set fins)"

text \<open>
  The memory when a collection begins: the clusters, each with its blocks, lie apart from each
  other; the free blocks are not in use; there is fuel for every block.
\<close>

definition collectable ::
  "nat \<Rightarrow> ObjectView \<Rightarrow> EngineRoots \<Rightarrow> HeapCluster list \<Rightarrow> nat list list \<Rightarrow> (nat \<times> nat) list \<Rightarrow> WeakReference list \<Rightarrow> nat set \<Rightarrow> GC \<Rightarrow> bool" where
  "collectable fuel v e cs hss fins ws U g \<longleftrightarrow>
     clean_heap v (gc_ids g) U (bounds cs) hss \<and> 2 * heap_size v (gc_ids g) U + 1 < fuel \<and> (\<forall>hs\<in>set hss. length hs < fuel) \<and>
     engine_roots e \<subseteq> U \<and> (\<forall>r\<in>set (mark_roots e). root_ok v (gc_ids g) r) \<and>
     snd ` set fins \<subseteq> U \<and> (\<forall>obj\<in>snd ` set fins. \<not> IsAlive (gc_ids g obj)) \<and>
     list_all2 (\<lambda>c. frame_ok (within c (gc_ids g) (gc_links g))) cs hss \<and> sorted_wrt (\<lambda>c d. foot c \<inter> foot d = {}) cs \<and>
     (\<forall>p\<in>U \<union> weak_blocks ws. b_type (gc_ids g p) \<noteq> DATATYPE_FREEBLOCK) \<and>
     no_weak_delegates v \<and> Head (m_weakDelegates_Reachable g) \<noteq> Tail (m_weakDelegates_Reachable g) \<and>
     (\<forall>c\<in>set cs. Head (m_weakDelegates_Reachable g) \<notin> payload c \<and> Tail (m_weakDelegates_Reachable g) \<notin> payload c)"

lemma no_weak_nodes:
  assumes "Head w \<noteq> Tail w" "fuel \<noteq> 0" "lnk = List_Initialize w lnk0"
  shows "foreach_node fuel lnk (FirstNode w lnk) = Some []"
  using assms by (cases fuel) (simp_all add: List_Initialize_def FirstNode_def)

lemma frame_ok_marked:
  assumes "frame_ok (within c ids lnk) hs" "\<forall>p\<in>A. b_type (ids p) \<noteq> DATATYPE_FREEBLOCK"
  shows "frame_ok (within c (marked A ids) lnk') hs"
proof -
  have "tiles (marked A ids) p hs e = tiles ids p hs e" for p hs e by (rule tiles_cong) simp
  then show ?thesis using assms by (auto simp: frame_ok_def)
qed

lemma live_inside:
  assumes "collectable fuel v e cs hss fins ws U g"
  shows "live v e fins g \<subseteq> U"
  unfolding live_def by (rule heap_wf_reach) (use assms in \<open>auto simp: collectable_def clean_heap_def\<close>)

text \<open>The collection: its three phases, one after the other.\<close>

definition collected :: "ObjectView \<Rightarrow> EngineRoots \<Rightarrow> HeapCluster list \<Rightarrow> nat list list \<Rightarrow> (nat \<times> nat) list \<Rightarrow> WeakReference list \<Rightarrow> GC \<Rightarrow> Collected \<Rightarrow> nat set \<Rightarrow> nat list list \<Rightarrow> bool" where
  "collected v e cs hss fins ws g r A hss' \<longleftrightarrow>
     live v e fins g \<subseteq> A \<and> A \<subseteq> live v e fins g \<union> weak_blocks ws \<and> length hss' = length cs \<and> col_view r = v \<and>
     (\<forall>i<length cs. cluster_recovered (cs ! i) (hss ! i)
        (marked A (gc_ids g), List_Initialize (m_weakDelegates_Reachable g) (gc_links g)) (col_ids r, col_links r) (hss' ! i)) \<and>
     agree (- \<Union>(foot ` set cs)) (marked A (gc_ids g), List_Initialize (m_weakDelegates_Reachable g) (gc_links g)) (col_ids r, col_links r) \<and>
     (\<forall>w'\<in>set (col_weak r). weak_ok (marked A (gc_ids g)) w' \<and> (\<exists>w\<in>set ws. w' = w \<or> w' = w\<lparr>m_targetDirect := 0\<rparr>)) \<and>
     (\<forall>w\<in>set ws. wr_held (live v e fins g) w \<longrightarrow> (w \<in> set (col_weak r) \<or> w\<lparr>m_targetDirect := 0\<rparr> \<in> set (col_weak r)) \<and>
        (m_targetDirect w = 0 \<or> m_targetDirect w \<in> live v e fins g \<longrightarrow> w \<in> set (col_weak r))) \<and>
     (\<forall>fin\<in>set (col_pending r). \<exists>obj. (fin, obj) \<in> set fins \<and> obj \<notin> reach v (gc_ids g) (engine_roots e))"

lemma collection_spec:
  assumes "collectable fuel v e cs hss fins ws U g"
  shows "run_ok (ExecuteGarbageCollection fuel v e cs fins ws g) (True \<in> set (gc_answers g)) (\<lambda>r. \<exists>A hss'. collected v e cs hss fins ws g r A hss')"
proof -
  note C = assms [unfolded collectable_def]
  let ?ids = "gc_ids g" and ?w = "m_weakDelegates_Reachable g"
  let ?L = "live v e fins g" and ?lnk = "List_Initialize (m_weakDelegates_Reachable g) (gc_links g)"
  have spec: "run_ok (Mark fuel v e (bounds cs) fins g) (True \<in> set (gc_answers g))
    (\<lambda>(g', pending). gc_ids g' = marked ?L ?ids \<and>
        \<not> m_fOutOfStackSpaceForGC g' \<and> m_markStack g' = 0 \<and> length (m_markStackList g') = 1 \<and>
        (\<forall>fin\<in>set pending. \<exists>obj. (fin, obj) \<in> set fins \<and> obj \<notin> reach v ?ids (engine_roots e)))"
    unfolding live_def by (rule Mark_spec [where U = U and hss = hss]) (use C in auto)
  have free: "\<forall>p\<in>U \<union> weak_blocks ws. b_type (?ids p) \<noteq> DATATYPE_FREEBLOCK" using C by (elim conjE)
  show ?thesis
  proof (cases "Mark fuel v e (bounds cs) fins g")
    case (Marked gp)
    obtain g1 pending where gp: "gp = (g1, pending)" by (cases gp)
    note M = Marked [unfolded gp]
    have g1: "gc_ids g1 = marked ?L ?ids" "gc_links g1 = ?lnk" "m_weakDelegates_Reachable g1 = ?w"
      "\<forall>fin\<in>set pending. \<exists>obj. (fin, obj) \<in> set fins \<and> obj \<notin> reach v ?ids (engine_roots e)"
      using spec M Mark_links [OF _ M] C by simp_all
    from MarkWeak_spec [of ws ?L ?ids]
    obtain ws' A where W: "MarkWeak ws (marked ?L ?ids) = (ws', marked A ?ids)" "?L \<subseteq> A" "A \<subseteq> ?L \<union> weak_blocks ws"
        "\<forall>w'\<in>set ws'. weak_ok (marked A ?ids) w' \<and> (\<exists>w\<in>set ws. w' = w \<or> w' = w\<lparr>m_targetDirect := 0\<rparr>)"
        "\<forall>w\<in>set ws. wr_held ?L w \<longrightarrow> (w \<in> set ws' \<or> w\<lparr>m_targetDirect := 0\<rparr> \<in> set ws') \<and>
          (m_targetDirect w = 0 \<or> m_targetDirect w \<in> ?L \<longrightarrow> w \<in> set ws')"
      by (elim exE conjE) rule
    have "\<forall>p\<in>A. b_type (?ids p) \<noteq> DATATYPE_FREEBLOCK" using W(3) live_inside [OF assms] free by blast
    then have f: "list_all2 (\<lambda>c hs. frame_ok (within c (marked A ?ids) ?lnk) hs \<and> length hs < fuel) cs hss"
      using C frame_ok_marked by (auto simp: list_all2_conv_all_nth)
    have apart: "sorted_wrt (\<lambda>c d. foot c \<inter> foot d = {}) cs" using C by (elim conjE)
    from RecoverClusters_spec [OF f apart]
    obtain ids' lnk' hss' where R: "RecoverClusters fuel cs (marked A ?ids) ?lnk = Some (ids', lnk')" "length hss' = length cs"
        "\<forall>i<length cs. cluster_recovered (cs ! i) (hss ! i) (marked A ?ids, ?lnk) (ids', lnk') (hss' ! i)"
        "agree (- \<Union>(foot ` set cs)) (marked A ?ids, ?lnk) (ids', lnk')"
      by (elim exE conjE) rule
    let ?r = "\<lparr>col_view = v, col_ids = ids', col_links = lnk', col_weak = ws', col_pending = pending\<rparr>"
    have "foreach_node fuel ?lnk (FirstNode ?w ?lnk) = Some []" using C by (intro no_weak_nodes) auto
    then have S: "Sweep fuel v cs (g1\<lparr>gc_ids := marked A ?ids\<rparr>) = Some (v, ids', lnk')"
      using R(1) g1 by (simp add: Sweep_def)
    have "ExecuteGarbageCollection fuel v e cs fins ws g = Marked ?r"
      by (simp add: ExecuteGarbageCollection_def M g1(1) W(1) S)
    moreover have "collected v e cs hss fins ws g ?r A hss'"
      unfolding collected_def using W R g1 by simp
    ultimately show ?thesis by auto
  qed (use spec in \<open>simp_all add: ExecuteGarbageCollection_def\<close>)
qed


section \<open>What a collection promises\<close>


lemma mark_undone: "\<not> IsAlive b \<Longrightarrow> MarkDead (MarkAlive b) = b"
proof -
  assume "\<not> IsAlive b"
  then have "(b_flags b OR 1) AND NOT 1 = b_flags b"
    by (intro bit_word_eqI) (auto simp: flag_bits bit_or_iff bit_and_iff bit_not_iff bit_1_iff intro: gr0I)
  then show ?thesis by (cases b) (simp add: MarkAlive_def MarkDead_def SetFlags_def ResetFlags_def HB_Alive_def)
qed

text \<open>A block as it was: its header, but for the mark of an event, and all its words.\<close>

definition intact :: "HeapCluster \<Rightarrow> HeapCluster \<Rightarrow> nat \<Rightarrow> bool" where
  "intact c c' h \<longleftrightarrow> (IsEvent (m_ids c h) \<or> m_ids c' h = m_ids c h) \<and>
     (\<forall>x\<in>cells c h. b_type (m_ids c' x) = b_type (m_ids c x) \<and> b_size (m_ids c' x) = b_size (m_ids c x) \<and>
        m_nextNode (m_links c') x = m_nextNode (m_links c) x \<and> m_prevNode (m_links c') x = m_prevNode (m_links c) x)"

lemma recovered_intact:
  assumes "recovered (within c (marked A ids) (List_Initialize w lnk)) (within c ids' lnk') h" "h \<in> A \<or> IsAlive (ids h)"
    and "IsEvent (ids h) \<or> \<not> IsAlive (ids h)" "Head w \<notin> {h..<h + extent ids h}" "Tail w \<notin> {h..<h + extent ids h}"
  shows "intact (within c ids lnk) (within c ids' lnk') h"
proof -
  have id: "ids' h = aged (marked A ids h)" using assms(1) by (simp add: recovered_def)
  have "IsEvent (ids h) \<or> ids' h = ids h"
    using assms(2,3) unfolding id by (auto simp: aged_def marked_def mark_undone)
  moreover have "b_type (ids' x) = b_type (ids x) \<and> b_size (ids' x) = b_size (ids x) \<and>
      m_nextNode lnk' x = m_nextNode lnk x \<and> m_prevNode lnk' x = m_prevNode lnk x" if x: "x \<in> {h..<h + extent ids h}" for x
  proof (cases "x = h")
    case True
    then show ?thesis using assms x id by (auto simp: recovered_def List_Initialize_def)
  next
    case False
    then have "ids' x = marked A ids x" using assms(1) x by (simp add: recovered_def)
    then show ?thesis using assms x by (auto simp: recovered_def List_Initialize_def)
  qed
  ultimately show ?thesis by (simp add: intact_def)
qed

text \<open>The clusters after a collection in which \<open>A\<close> was marked.\<close>

definition cluster_collected :: "GC \<Rightarrow> nat set \<Rightarrow> Collected \<Rightarrow> HeapCluster \<Rightarrow> nat list \<Rightarrow> nat list \<Rightarrow> bool" where
  "cluster_collected g A r c hs hs' \<longleftrightarrow>
     heap_ok (within c (col_ids r) (col_links r)) hs' \<and> no_neighbours (within c (col_ids r) (col_links r)) hs' \<and>
     used (within c (col_ids r) (col_links r)) hs' = filter (\<lambda>h. h \<in> A \<or> IsAlive (gc_ids g h)) hs \<and>
     (\<forall>h\<in>set (used (within c (col_ids r) (col_links r)) hs').
        intact (within c (gc_ids g) (gc_links g)) (within c (col_ids r) (col_links r)) h)"

lemma collected_clusters:
  assumes "collectable fuel v e cs hss fins ws U g" "collected v e cs hss fins ws g r A hss'" "i < length cs"
  shows "cluster_collected g A r (cs ! i) (hss ! i) (hss' ! i)"
proof -
  let ?ids = "gc_ids g" and ?w = "m_weakDelegates_Reachable g" and ?c = "cs ! i" and ?hs = "hss ! i"
  let ?c' = "within ?c (col_ids r) (col_links r)"
  have R: "cluster_recovered ?c ?hs (marked A ?ids, List_Initialize ?w (gc_links g)) (col_ids r, col_links r) (hss' ! i)"
    using assms(2,3) by (simp add: collected_def)
  then have u: "used ?c' (hss' ! i) = filter (\<lambda>h. h \<in> A \<or> IsAlive (?ids h)) ?hs"
    by (simp add: cluster_recovered_def)
  have f: "frame_ok (within ?c ?ids (gc_links g)) ?hs" and len: "length hss = length cs"
    using assms(1,3) by (auto simp: collectable_def list_all2_conv_all_nth)
  have t: "tiles ?ids (m_payloadStart ?c) ?hs (m_payloadEnd ?c)" using f by (simp add: frame_ok_def)
  have clean: "\<forall>h\<in>set (concat hss). IsEvent (?ids h) \<or> \<not> IsAlive (?ids h)" using assms(1) by (simp add: collectable_def clean_heap_def)
  have ends: "Head ?w \<notin> payload ?c" "Tail ?w \<notin> payload ?c" using assms(1,3) by (simp_all add: collectable_def)
  have "intact (within ?c ?ids (gc_links g)) ?c' h" if h: "h \<in> set (used ?c' (hss' ! i))" for h
  proof (rule recovered_intact)
    show "recovered (within ?c (marked A ?ids) (List_Initialize ?w (gc_links g))) ?c' h"
      using R h by (simp add: cluster_recovered_def)
    have hs: "h \<in> set ?hs" and "h \<in> A \<or> IsAlive (?ids h)" using h u by auto
    then show "h \<in> A \<or> IsAlive (?ids h)" by simp
    have "?hs \<in> set hss" using len assms(3) by simp
    then show "IsEvent (?ids h) \<or> \<not> IsAlive (?ids h)" using clean hs by auto
    show "Head ?w \<notin> {h..<h + extent ?ids h}" "Tail ?w \<notin> {h..<h + extent ?ids h}"
      using heads_in [OF t hs] ends by blast+
  qed
  then show ?thesis using R u by (simp add: cluster_collected_def cluster_recovered_def)
qed

text \<open>The sample heap as a cluster, and a weak reference to the array in it.\<close>

definition sample_clusters :: "HeapCluster list" where
  "sample_clusters = [\<lparr>m_payloadStart = 10, m_payloadEnd = 15, m_freeList = \<lparr>Head = 20, Tail = 21\<rparr>, m_ids = sample_ids,
     m_links = \<lparr>m_nextNode = (\<lambda>_. 0), m_prevNode = (\<lambda>_. 0)\<rparr>\<rparr>]"

definition sample_weak :: "WeakReference list" where
  "sample_weak = [\<lparr>wr_block = 13, m_identity_flags = 0, m_targetDirect = 10, m_targetSerialized = 0\<rparr>]"

lemma sample_collectable:
  "collectable 50 sample_view sample_roots sample_clusters [[10, 13, 14]] [] sample_weak {5, 10, 11, 12, 13} (sample_gc sample_ids [])"
proof -
  have ids: "gc_ids (sample_gc sample_ids []) = sample_ids" "m_weakDelegates_Reachable (sample_gc sample_ids []) = \<lparr>Head = 1, Tail = 2\<rparr>"
    by (simp_all add: sample_gc_def)
  have "tiles sample_ids 10 [10, 13, 14] 15" by (simp add: sample_ids_def)
  then have "frame_ok (within (hd sample_clusters) sample_ids (gc_links (sample_gc sample_ids []))) [10, 13, 14]"
    by (simp add: frame_ok_def sample_clusters_def sample_dead)
  moreover have "bounds sample_clusters = [(10, 15)]" by (simp add: sample_clusters_def)
  moreover have "\<forall>p\<in>{5, 10, 11, 12, 13}. b_type (sample_ids p) \<noteq> DATATYPE_FREEBLOCK" by (simp add: sample_ids_def)
  moreover have "no_weak_delegates sample_view" by (simp add: no_weak_delegates_def sample_view_def)
  moreover have "weak_blocks sample_weak = {}" by (simp add: weak_blocks_def sample_weak_def)
  ultimately show ?thesis
    using sample_clean by (simp add: collectable_def ids sample_size sample_engine sample_dead sample_clusters_def)
qed

lemma sample_live: "live sample_view sample_roots [] (sample_gc sample_ids []) = {5, 10, 11, 12, 13}"
  by (simp add: live_def sample_engine sample_reach sample_gc_def)

text \<open>
  C3: A collection never runs out of steps, and unless the allocator has granted a further mark stack
  it never leaves the buffer of its mark stack. It keeps every block that the roots, the objects to
  be finalized or the pending serialization of a weak reference hold, with its header and all its
  words; it keeps the events that were alive; and every other block of every cluster is free
  afterwards, in well-formed clusters without two free neighbours. Only finalizers of objects that
  the roots do not reach become pending.
\<close>

theorem collection_keeps_reachable:
  assumes "collectable fuel v e cs hss fins ws U g"
  shows "case ExecuteGarbageCollection fuel v e cs fins ws g of
      OutOfFuel \<Rightarrow> False
    | OutOfBounds \<Rightarrow> True \<in> set (gc_answers g)
    | Marked r \<Rightarrow>
        (\<exists>A hss'. live v e fins g \<subseteq> A \<and> A \<subseteq> live v e fins g \<union> weak_blocks ws \<and>
           (\<forall>i<length cs. cluster_collected g A r (cs ! i) (hss ! i) (hss' ! i))) \<and>
        (\<forall>fin\<in>set (col_pending r). \<exists>obj. (fin, obj) \<in> set fins \<and> obj \<notin> reach v (gc_ids g) (engine_roots e))"
proof (cases "ExecuteGarbageCollection fuel v e cs fins ws g")
  case (Marked r)
  then obtain A hss' where "collected v e cs hss fins ws g r A hss'" using collection_spec [OF assms] by auto
  with collected_clusters [OF assms this] Marked show ?thesis by (auto simp: collected_def)
qed (use collection_spec [OF assms] in simp_all)

theorem collection_keeps_reachable_witness:
  "\<exists>r hs'. ExecuteGarbageCollection 50 sample_view sample_roots sample_clusters [] sample_weak (sample_gc sample_ids []) = Marked r \<and>
     heap_ok (within (hd sample_clusters) (col_ids r) (col_links r)) hs' \<and>
     used (within (hd sample_clusters) (col_ids r) (col_links r)) hs' = [10, 13]"
proof -
  have a: "gc_answers (sample_gc sample_ids []) = []" "gc_ids (sample_gc sample_ids []) = sample_ids" by (simp_all add: sample_gc_def)
  have w: "weak_blocks sample_weak = {}" by (simp add: weak_blocks_def sample_weak_def)
  have c: "length sample_clusters = 1" "sample_clusters ! 0 = hd sample_clusters" by (simp_all add: sample_clusters_def)
  from collection_keeps_reachable [OF sample_collectable]
  obtain r A hss' where r: "ExecuteGarbageCollection 50 sample_view sample_roots sample_clusters [] sample_weak (sample_gc sample_ids []) = Marked r"
      "{5, 10, 11, 12, 13} \<subseteq> A" "A \<subseteq> {5, 10, 11, 12, 13}" "cluster_collected (sample_gc sample_ids []) A r (hd sample_clusters) [10, 13, 14] (hss' ! 0)"
    by (auto simp: a w c sample_live split: gc_run.splits)
  have "filter (\<lambda>h. h \<in> A \<or> IsAlive (sample_ids h)) [10, 13, 14] = [10, 13]" using r(2,3) by (auto simp: sample_dead)
  then show ?thesis using r(1,4) by (auto simp: cluster_collected_def a)
qed

text \<open>
  C14: After a collection no weak reference dangles: each one left in the list is one of the list
  before, at most with its target cleared; its own block is still in use, and so is the object it
  points to, if any, and its serialized target, if it has one and is an extended reference or
  still points to an object (only extended references get a serialized target, where they are
  serialized and restored). A weak reference that the roots reach, or that was restored and
  waits to be read, stays in the list, and keeps a target that the roots reach.
\<close>

theorem weak_references_do_not_dangle:
  assumes "collectable fuel v e cs hss fins ws U g" "ExecuteGarbageCollection fuel v e cs fins ws g = Marked r"
  shows "(\<forall>w'\<in>set (col_weak r). \<exists>w\<in>set ws. w' = w \<or> w' = w\<lparr>m_targetDirect := 0\<rparr>) \<and>
     (\<forall>w\<in>set ws. wr_held (live v e fins g) w \<longrightarrow> (w \<in> set (col_weak r) \<or> w\<lparr>m_targetDirect := 0\<rparr> \<in> set (col_weak r)) \<and>
        (m_targetDirect w = 0 \<or> m_targetDirect w \<in> live v e fins g \<longrightarrow> w \<in> set (col_weak r))) \<and>
     (\<exists>hss'. \<forall>i<length cs. heap_ok (within (cs ! i) (col_ids r) (col_links r)) (hss' ! i) \<and>
        (\<forall>w\<in>set (col_weak r). weak_targets w \<inter> set (hss ! i) - {0} \<subseteq>
           set (used (within (cs ! i) (col_ids r) (col_links r)) (hss' ! i))))"
proof -
  obtain A hss' where c: "collected v e cs hss fins ws g r A hss'" using collection_spec [OF assms(1)] assms(2) by auto
  have "weak_targets w \<inter> set (hss ! i) - {0} \<subseteq> set (used (within (cs ! i) (col_ids r) (col_links r)) (hss' ! i))"
    if "i < length cs" "w \<in> set (col_weak r)" for i w
  proof -
    have "weak_ok (marked A (gc_ids g)) w" using c that(2) by (simp add: collected_def)
    then have "h \<in> A \<or> IsAlive (gc_ids g h)" if "h \<in> weak_targets w - {0}" for h
      using that by (auto simp: weak_ok_def weak_targets_def split: if_splits)
    then show ?thesis using collected_clusters [OF assms(1) c that(1)] by (auto simp: cluster_collected_def)
  qed
  moreover have "heap_ok (within (cs ! i) (col_ids r) (col_links r)) (hss' ! i)" if "i < length cs" for i
    using collected_clusters [OF assms(1) c that] by (simp add: cluster_collected_def)
  moreover have "(\<forall>w'\<in>set (col_weak r). \<exists>w\<in>set ws. w' = w \<or> w' = w\<lparr>m_targetDirect := 0\<rparr>)" using c by (simp add: collected_def)
  moreover have "\<forall>w\<in>set ws. wr_held (live v e fins g) w \<longrightarrow> (w \<in> set (col_weak r) \<or> w\<lparr>m_targetDirect := 0\<rparr> \<in> set (col_weak r)) \<and>
        (m_targetDirect w = 0 \<or> m_targetDirect w \<in> live v e fins g \<longrightarrow> w \<in> set (col_weak r))"
    using c unfolding collected_def by (elim conjE)
  ultimately show ?thesis by blast
qed

text \<open>An extended reference whose object has died: only its serialized form, block 14, is left.\<close>

definition sample_extended :: "WeakReference list" where
  "sample_extended = [\<lparr>wr_block = 13, m_identity_flags = WR_ExtendedType, m_targetDirect = 0, m_targetSerialized = 14\<rparr>]"

lemma extended_collectable:
  "collectable 50 sample_view sample_roots sample_clusters [[10, 13, 14]] [] sample_extended {5, 10, 11, 12, 13} (sample_gc sample_ids [])"
proof -
  have "b_type (sample_ids 13) \<noteq> DATATYPE_FREEBLOCK" "b_type (sample_ids 14) \<noteq> DATATYPE_FREEBLOCK" by (simp_all add: sample_ids_def)
  moreover have "weak_blocks sample_extended = {13, 14}" "weak_blocks sample_weak = {}"
    by (auto simp: weak_blocks_def sample_extended_def sample_weak_def)
  ultimately show ?thesis
    using sample_collectable unfolding collectable_def by (auto simp: sample_gc_def)
qed

theorem weak_references_do_not_dangle_witness:
  "\<exists>r hs'. ExecuteGarbageCollection 50 sample_view sample_roots sample_clusters [] sample_extended (sample_gc sample_ids []) = Marked r \<and>
     hd sample_extended \<in> set (col_weak r) \<and>
     14 \<in> set (used (within (hd sample_clusters) (col_ids r) (col_links r)) hs')"
proof -
  have a: "gc_answers (sample_gc sample_ids []) = []" by (simp add: sample_gc_def)
  obtain r where r: "ExecuteGarbageCollection 50 sample_view sample_roots sample_clusters [] sample_extended (sample_gc sample_ids []) = Marked r"
    using collection_spec [OF extended_collectable] a
    by (cases "ExecuteGarbageCollection 50 sample_view sample_roots sample_clusters [] sample_extended (sample_gc sample_ids [])") auto
  have c: "length sample_clusters = 1" "sample_clusters ! 0 = hd sample_clusters" by (simp_all add: sample_clusters_def)
  have w: "weak_targets (hd sample_extended) = {13, 0, 14}" "wr_held {5, 10, 11, 12, 13} (hd sample_extended)"
    by (auto simp: weak_targets_def sample_extended_def WR_ExtendedType_def wr_held_def)
  have d: "m_targetDirect (hd sample_extended) = 0" "hd sample_extended \<in> set sample_extended" by (simp_all add: sample_extended_def)
  note T = weak_references_do_not_dangle [OF extended_collectable r]
  have "hd sample_extended \<in> set (col_weak r)" using T w(2) d unfolding sample_live by blast
  moreover obtain hss' where "weak_targets (hd sample_extended) \<inter> set ([[10, 13, 14]] ! 0) - {0} \<subseteq>
      set (used (within (hd sample_clusters) (col_ids r) (col_links r)) (hss' ! 0))"
    using T calculation unfolding c by (metis c(2) less_one)
  ultimately show ?thesis using r w(1) by (intro exI [of _ r] exI [of _ "hss' ! 0"]) auto
qed







end
