(* ===== verification/Relocation.thy ===== *)
theory Relocation imports HeapRecovery begin

text \<open>
  The relocation of pointers, \<^verbatim>\<open>src/CLR/Core/GarbageCollector_Compaction.cpp\<close>: the table of the regions that
  have moved, and the search a pointer is looked up with. The passes over all pointers of the heap
  and of the engine, which the code makes when the table is full and at the end, are recorded: a pass
  is the table it was made with.
\<close>

record RelocationRegion =
  m_start :: u32
  m_end :: u32
  m_destination :: u32
  m_offset :: u32

record Relocation =
  m_relocBlocks :: "RelocationRegion list"
  m_relocTotal :: nat
  passes :: "RelocationRegion list list"

definition c_minimumSpaceForCompact :: nat where "c_minimumSpaceForCompact = 128"

definition Heap_Relocate_Prepare :: "nat \<Rightarrow> Relocation \<Rightarrow> Relocation" where
  "Heap_Relocate_Prepare n s = s\<lparr>m_relocBlocks := [], m_relocTotal := n\<rparr>"

text \<open>\<open>m_relocCount\<close> is the length of the table.\<close>

definition Heap_Relocate :: "Relocation \<Rightarrow> Relocation" where
  "Heap_Relocate s =
     (if m_relocBlocks s \<noteq> [] then s\<lparr>m_relocBlocks := [], passes := passes s @ [m_relocBlocks s]\<rparr> else s)"

fun insert_region :: "RelocationRegion \<Rightarrow> RelocationRegion list \<Rightarrow> RelocationRegion list" where
  "insert_region r [] = [r]"
| "insert_region r (q # qs) = (if m_start q > m_start r then r # q # qs else q # insert_region r qs)"

definition Heap_Relocate_AddBlock :: "u32 \<Rightarrow> u32 \<Rightarrow> u32 \<Rightarrow> Relocation \<Rightarrow> Relocation" where
  "Heap_Relocate_AddBlock dst src len s =
     (let s = s\<lparr>m_relocBlocks := insert_region \<lparr>m_start = src, m_end = src + len, m_destination = dst, m_offset = dst - src\<rparr> (m_relocBlocks s)\<rparr>
      in if length (m_relocBlocks s) = m_relocTotal s then Heap_Relocate s else s)"

text \<open>The bounds that \<open>Heap_Relocate\<close> computes before the pass, and the search of \<open>Heap_Relocate(void**)\<close>.\<close>

definition m_relocMinimum :: "RelocationRegion list \<Rightarrow> u32" where
  "m_relocMinimum bs = foldl (\<lambda>m b. if m > m_start b then m_start b else m) (m_start (hd bs)) bs"

definition m_relocMaximum :: "RelocationRegion list \<Rightarrow> u32" where
  "m_relocMaximum bs = foldl (\<lambda>m b. if m < m_end b then m_end b else m) (m_end (hd bs)) bs"

function reloc_search :: "RelocationRegion list \<Rightarrow> u32 \<Rightarrow> nat \<Rightarrow> nat \<Rightarrow> u32" where
  "reloc_search bs dst left right =
     (if left < right then
        (let center = (left + right) div 2; relocCurrent = bs ! center in
         if dst < m_start relocCurrent then reloc_search bs dst left center
         else if dst \<ge> m_end relocCurrent then reloc_search bs dst (center + 1) right
         else dst + m_offset relocCurrent)
      else dst)"
  by pat_completeness auto
termination by (relation "measure (\<lambda>(bs, dst, left, right). right - left)") auto

declare reloc_search.simps [simp del]

definition Heap_Relocate_ref :: "RelocationRegion list \<Rightarrow> u32 \<Rightarrow> u32" where
  "Heap_Relocate_ref bs dst =
     (if dst \<ge> m_relocMinimum bs \<and> dst < m_relocMaximum bs then reloc_search bs dst 0 (length bs) else dst)"

section \<open>The search finds the region\<close>

definition in_region :: "u32 \<Rightarrow> RelocationRegion \<Rightarrow> bool" where
  "in_region a r \<longleftrightarrow> m_start r \<le> a \<and> a < m_end r"

text \<open>A table in order: the regions are not empty, and each ends before the next one starts.\<close>

definition regions_ok :: "RelocationRegion list \<Rightarrow> bool" where
  "regions_ok bs \<longleftrightarrow> (\<forall>r\<in>set bs. m_start r < m_end r) \<and> sorted_wrt (\<lambda>r q. m_end r \<le> m_start q) bs"

definition relocated :: "RelocationRegion list \<Rightarrow> u32 \<Rightarrow> u32" where
  "relocated bs a = (case find (in_region a) bs of Some r \<Rightarrow> a + m_offset r | None \<Rightarrow> a)"

lemma regions_before:
  assumes "regions_ok bs" "i < j" "j < length bs"
  shows "m_end (bs ! i) \<le> m_start (bs ! j)"
  using assms by (simp add: regions_ok_def sorted_wrt_iff_nth_less)

lemma relocated_nth:
  assumes "regions_ok bs" "i < length bs" "in_region a (bs ! i)"
  shows "relocated bs a = a + m_offset (bs ! i)"
proof -
  have "\<not> in_region a (bs ! j)" if "j < i" for j
    using regions_before [OF assms(1) that assms(2)] assms(3) by (auto simp: in_region_def)
  then have "find (in_region a) bs = Some (bs ! i)"
    using assms(2,3) by (auto simp: find_Some_iff intro!: exI [of _ i])
  then show ?thesis by (simp add: relocated_def)
qed

lemma relocated_none: "(\<And>r. r \<in> set bs \<Longrightarrow> \<not> in_region a r) \<Longrightarrow> relocated bs a = a"
  by (simp add: relocated_def find_None_iff [THEN iffD2])

lemma reloc_search_correct:
  assumes "regions_ok bs" "right \<le> length bs"
    and "\<forall>i<left. m_end (bs ! i) \<le> dst" "\<forall>i<length bs. right \<le> i \<longrightarrow> dst < m_start (bs ! i)"
  shows "reloc_search bs dst left right = relocated bs dst"
  using assms(2-)
proof (induction "right - left" arbitrary: left right rule: less_induct)
  case less
  show ?case
  proof (cases "left < right")
    case False
    have "\<not> in_region dst r" if "r \<in> set bs" for r
    proof -
      from that obtain i where i: "i < length bs" "r = bs ! i" by (auto simp: in_set_conv_nth)
      then show ?thesis using less.prems(2,3) False by (cases "i < left") (auto simp: in_region_def)
    qed
    then show ?thesis using False relocated_none by (simp add: reloc_search.simps [of bs dst left right])
  next
    case True
    define c where "c = (left + right) div 2"
    have c: "left \<le> c" "c < right" "c < length bs" using True less.prems(1) by (auto simp: c_def)
    have eq: "reloc_search bs dst left right = (if dst < m_start (bs ! c) then reloc_search bs dst left c
         else if dst \<ge> m_end (bs ! c) then reloc_search bs dst (c + 1) right else dst + m_offset (bs ! c))"
      using True by (simp add: reloc_search.simps [of bs dst left right] c_def)
    consider "dst < m_start (bs ! c)" | "m_end (bs ! c) \<le> dst" "\<not> dst < m_start (bs ! c)" | "in_region dst (bs ! c)"
      by (force simp: in_region_def not_le not_less)
    then show ?thesis
    proof cases
      case 1
      have "dst < m_start (bs ! i)" if "i < length bs" "c \<le> i" for i
      proof (cases "i = c")
        case False
        with that regions_before [OF assms(1), of c i] have "m_end (bs ! c) \<le> m_start (bs ! i)" by simp
        moreover have "m_start (bs ! c) < m_end (bs ! c)" using assms(1) c(3) by (simp add: regions_ok_def)
        ultimately show ?thesis using 1 by (meson less_trans order_less_le_trans)
      qed (use 1 in simp)
      then show ?thesis unfolding eq using 1 less.hyps [of c left] c less.prems by auto
    next
      case 2
      have "m_end (bs ! i) \<le> dst" if "i < c + 1" for i
      proof (cases "i = c")
        case False
        with that c(3) regions_before [OF assms(1), of i c] have "m_end (bs ! i) \<le> m_start (bs ! c)" by simp
        then show ?thesis using 2(2) by (meson not_less order_trans)
      qed (use 2 in simp)
      then show ?thesis unfolding eq using 2 less.hyps [of right "c + 1"] c less.prems by auto
    next
      case 3
      then show ?thesis unfolding eq relocated_nth [OF assms(1) c(3) 3] by (auto simp: in_region_def)
    qed
  qed
qed

lemma foldl_min: "foldl (\<lambda>m b. if m > f b then f b else m) (x :: 'a :: linorder) bs \<le> y \<longleftrightarrow> x \<le> y \<or> (\<exists>b\<in>set bs. f b \<le> y)"
  by (induction bs arbitrary: x) (auto simp: not_less)

lemma foldl_max: "y < foldl (\<lambda>m b. if m < f b then f b else m) (x :: 'a :: linorder) bs \<longleftrightarrow> y < x \<or> (\<exists>b\<in>set bs. y < f b)"
  by (induction bs arbitrary: x) (auto simp: not_less)

lemma Heap_Relocate_ref_correct:
  assumes "regions_ok bs"
  shows "Heap_Relocate_ref bs a = relocated bs a"
proof (cases "m_relocMinimum bs \<le> a \<and> a < m_relocMaximum bs")
  case True
  then show ?thesis using reloc_search_correct [OF assms, of "length bs" 0 a] by (simp add: Heap_Relocate_ref_def)
next
  case False
  have "\<not> in_region a r" if "r \<in> set bs" for r
    using False that unfolding m_relocMinimum_def m_relocMaximum_def foldl_min foldl_max in_region_def by auto
  then have "relocated bs a = a" by (rule relocated_none)
  then show ?thesis using False by (auto simp: Heap_Relocate_ref_def)
qed

lemma set_insert_region [simp]: "set (insert_region r bs) = insert r (set bs)"
  by (induction bs) auto

lemma insert_region_ok:
  assumes "regions_ok bs" "m_start r < m_end r" "\<forall>q\<in>set bs. m_end q \<le> m_start r \<or> m_end r \<le> m_start q"
  shows "regions_ok (insert_region r bs)"
proof -
  have "sorted_wrt (\<lambda>r q. m_end r \<le> m_start q) (insert_region r bs)"
    using assms
  proof (induction bs)
    case (Cons q qs)
    have q: "m_start q < m_end q" "\<forall>p\<in>set qs. m_end q \<le> m_start p" "regions_ok qs" using Cons.prems(1) by (auto simp: regions_ok_def)
    show ?case
    proof (cases "m_start q > m_start r")
      case True
      then have "m_end r \<le> m_start q" using Cons.prems(3) q(1) by auto
      then show ?thesis using True Cons.prems(1) q by (auto simp: regions_ok_def intro: order_trans less_imp_le)
    next
      case False
      then have "m_end q \<le> m_start r" using Cons.prems(2,3) by auto
      then show ?thesis using False Cons.IH [OF q(3)] Cons.prems q by auto
    qed
  qed simp
  then show ?thesis using assms(1,2) by (auto simp: regions_ok_def)
qed

end
