(* ===== verification/HeapCompaction.thy ===== *)
theory HeapCompaction imports HeapMemory Relocation begin

text \<open>
  The compaction of the heap, \<open>Heap_Compact\<close> of \<^verbatim>\<open>src/CLR/Core/GarbageCollector_Compaction.cpp\<close>: blocks that
  may move are moved backward into the free regions, run by run, and the regions that moved are
  recorded for the relocation of the pointers. The words of a block are its header and the two words
  of its data; \<^verbatim>\<open>memmove\<close> copies all three.
\<close>

definition HB_Unmovable :: u32 where "HB_Unmovable = HB_Pinned OR HB_Event"

abbreviation unmovable :: "(nat \<Rightarrow> BlockId) \<Rightarrow> nat \<Rightarrow> bool" where
  "unmovable ids p \<equiv> IsFlagSet (ids p) HB_Unmovable"

text \<open>A block has 12 bytes.\<close>

definition byte_address :: "nat \<Rightarrow> u32" where "byte_address p = of_nat (12 * p)"

record Compaction =
  cp_ids :: "nat \<Rightarrow> BlockId"
  cp_links :: Links
  cp_reloc :: Relocation
  freeRegion_hc :: nat
  freeRegion :: nat
  currentSource_hc :: nat
  currentSource :: nat
  currentSource_end :: nat

text \<open>The search for a cluster with a free region, from the cluster with index \<open>i\<close>; 0 when there is none.\<close>

fun next_free_region :: "nat \<Rightarrow> HeapCluster list \<Rightarrow> Links \<Rightarrow> nat \<times> nat" where
  "next_free_region i [] lnk = (i, 0)"
| "next_free_region i (hc # hcs) lnk =
     (let free = FirstNode (m_freeList hc) lnk in
      if m_nextNode lnk free \<noteq> 0 then (i, free) else next_free_region (Suc i) hcs lnk)"

definition to_free_region :: "nat \<Rightarrow> HeapCluster list \<Rightarrow> Compaction \<Rightarrow> Compaction" where
  "to_free_region i cs s =
     (let (i, free) = next_free_region i (drop i cs) (cp_links s) in s\<lparr>freeRegion_hc := i, freeRegion := free\<rparr>)"

section \<open>The blocks that move together\<close>

fun skip_unmovable :: "nat \<Rightarrow> (nat \<Rightarrow> BlockId) \<Rightarrow> nat \<Rightarrow> nat \<Rightarrow> nat option" where
  "skip_unmovable 0 ids src end' = None"
| "skip_unmovable (Suc n) ids src end' =
     (if src < end' \<and> unmovable ids src then skip_unmovable n ids (src + unat (b_size (ids src))) end' else Some src)"

fun slide_run :: "nat \<Rightarrow> (nat \<Rightarrow> BlockId) \<Rightarrow> nat \<Rightarrow> nat \<Rightarrow> u32 \<Rightarrow> (nat \<times> u32) option" where
  "slide_run 0 ids src end' move = None"
| "slide_run (Suc n) ids src end' move =
     (if src < end' \<and> \<not> unmovable ids src then
        (let len = b_size (ids src) in slide_run n ids (src + unat len) end' (move + ucast len))
      else Some (src, move))"

fun fit_run :: "nat \<Rightarrow> (nat \<Rightarrow> BlockId) \<Rightarrow> nat \<Rightarrow> nat \<Rightarrow> u32 \<Rightarrow> u32 \<Rightarrow> (nat \<times> u32 \<times> u32) option" where
  "fit_run 0 ids src end' move free = None"
| "fit_run (Suc n) ids src end' move free =
     (if free \<noteq> 0 \<and> src < end' \<and> \<not> unmovable ids src then
        (let len = b_size (ids src) in
         if free < ucast len then Some (src, move, free)
         else fit_run n ids (src + unat len) end' (move + ucast len) (free - ucast len))
      else Some (src, move, free))"

definition memmove_blocks :: "nat \<Rightarrow> nat \<Rightarrow> nat \<Rightarrow> (nat \<Rightarrow> BlockId) \<times> Links \<Rightarrow> (nat \<Rightarrow> BlockId) \<times> Links" where
  "memmove_blocks dst src n = (\<lambda>(ids, lnk).
     let from' = (\<lambda>x. if x \<in> {dst..<dst + n} then src + (x - dst) else x) in
     (ids \<circ> from', \<lparr>m_nextNode = m_nextNode lnk \<circ> from', m_prevNode = m_prevNode lnk \<circ> from'\<rparr>))"

section \<open>A move\<close>

definition moved_region :: "nat \<Rightarrow> nat \<Rightarrow> u32 \<Rightarrow> RelocationRegion" where
  "moved_region dst src move =
     \<lparr>m_start = byte_address src, m_end = byte_address src + move * 12, m_destination = byte_address dst,
      m_offset = byte_address dst - byte_address src\<rparr>"

text \<open>\<open>InsertInOrder\<close> on the cluster with index \<open>i\<close> of the memory.\<close>

definition insert_block :: "nat \<Rightarrow> HeapCluster list \<Rightarrow> nat \<Rightarrow> nat \<Rightarrow> u32 \<Rightarrow> (nat \<Rightarrow> BlockId) \<times> Links \<Rightarrow> (((nat \<Rightarrow> BlockId) \<times> Links) \<times> nat) option" where
  "insert_block fuel cs i node n = (\<lambda>(ids, lnk).
     map_option (\<lambda>(c, r). ((m_ids c, m_links c), r)) (InsertInOrder fuel node n (within (cs ! i) ids lnk)))"

text \<open>The old free region goes, the data is copied, and what is left of the region becomes the new one.\<close>

definition fill_region :: "nat \<Rightarrow> HeapCluster list \<Rightarrow> u32 \<Rightarrow> u32 \<Rightarrow> Compaction \<Rightarrow> (((nat \<Rightarrow> BlockId) \<times> Links) \<times> nat) option" where
  "fill_region fuel cs move size' s =
     (let next' = m_nextNode (cp_links s) (freeRegion s);
          m = memmove_blocks (freeRegion s) (currentSource s) (unat move) (cp_ids s, Unlink (freeRegion s) (cp_links s))
      in if size' \<noteq> 0 then insert_block fuel cs (freeRegion_hc s) (freeRegion s + unat move) size' m else Some (m, next'))"

text \<open>The region the blocks came from becomes free, unless they slid.\<close>

definition free_source :: "nat \<Rightarrow> HeapCluster list \<Rightarrow> u32 \<Rightarrow> Compaction \<Rightarrow> ((nat \<Rightarrow> BlockId) \<times> Links) \<times> nat \<Rightarrow> (((nat \<Rightarrow> BlockId) \<times> Links) \<times> nat) option" where
  "free_source fuel cs move s = (\<lambda>(m, free).
     map_option (\<lambda>(m, dst). (m, if dst < free \<and> free < dst + unat (b_size (fst m dst)) then dst else free))
       (insert_block fuel cs (currentSource_hc s) (currentSource s) move m))"

definition move_blocks :: "nat \<Rightarrow> HeapCluster list \<Rightarrow> bool \<Rightarrow> u32 \<Rightarrow> u32 \<Rightarrow> Compaction \<Rightarrow> (((nat \<Rightarrow> BlockId) \<times> Links) \<times> nat) option" where
  "move_blocks fuel cs slide move size' s =
     (case fill_region fuel cs move size' s of
        None \<Rightarrow> None
      | Some mf \<Rightarrow> if slide then Some mf else free_source fuel cs move s mf)"

text \<open>One round of the inner loop; the flag tells whether the loop goes on.\<close>

definition next_region :: "HeapCluster list \<Rightarrow> Compaction \<Rightarrow> bool \<times> Compaction" where
  "next_region cs s =
     (if m_nextNode (cp_links s) (freeRegion s) = 0
      then (let s = to_free_region (Suc (freeRegion_hc s)) cs s in (freeRegion s \<noteq> 0, s)) else (True, s))"

definition compact_run :: "nat \<Rightarrow> HeapCluster list \<Rightarrow> Compaction \<Rightarrow> (bool \<times> Compaction) option" where
  "compact_run fuel cs s =
     (let free_size = ucast (b_size (cp_ids s (freeRegion s))); slide = (currentSource s = freeRegion s + unat free_size) in
      case (if slide then map_option (\<lambda>(src, move). (src, move, free_size)) (slide_run fuel (cp_ids s) (currentSource s) (currentSource_end s) 0)
            else fit_run fuel (cp_ids s) (currentSource s) (currentSource_end s) 0 free_size) of
        None \<Rightarrow> None
      | Some (src, move, size') \<Rightarrow>
          if move \<noteq> 0 then
            (case skip_unmovable fuel (cp_ids s) src (currentSource_end s) of
               None \<Rightarrow> None
             | Some src \<Rightarrow>
                 (case move_blocks fuel cs slide move size' s of
                    None \<Rightarrow> None
                  | Some ((ids, lnk), free) \<Rightarrow>
                      Some (next_region cs (s\<lparr>cp_ids := ids, cp_links := lnk, freeRegion := free, currentSource := src,
                        cp_reloc := (cp_reloc s)\<lparr>m_relocBlocks := m_relocBlocks (cp_reloc s) @
                          [moved_region (freeRegion s) (currentSource s) move]\<rparr>\<rparr>))))
          else Some (next_region cs (s\<lparr>freeRegion := m_nextNode (cp_links s) (freeRegion s), currentSource := src\<rparr>)))"

text \<open>Blocks move backward only; the table is emptied by a pass when it is full.\<close>

definition only_backward :: "HeapCluster list \<Rightarrow> Compaction \<Rightarrow> Compaction" where
  "only_backward cs s =
     (if currentSource s < freeRegion s
      then s\<lparr>currentSource_hc := freeRegion_hc s, currentSource := freeRegion s, currentSource_end := m_payloadEnd (cs ! freeRegion_hc s)\<rparr>
      else s)"

definition flush_full :: "Compaction \<Rightarrow> Compaction" where
  "flush_full s =
     (if length (m_relocBlocks (cp_reloc s)) \<ge> m_relocTotal (cp_reloc s) then s\<lparr>cp_reloc := Heap_Relocate (cp_reloc s)\<rparr> else s)"

definition compact_step :: "nat \<Rightarrow> HeapCluster list \<Rightarrow> Compaction \<Rightarrow> (bool \<times> Compaction) option" where
  "compact_step fuel cs s =
     (let s = only_backward cs s in
      case skip_unmovable fuel (cp_ids s) (currentSource s) (currentSource_end s) of
        None \<Rightarrow> None
      | Some src \<Rightarrow>
          (let s = s\<lparr>currentSource := src\<rparr> in
           if src = currentSource_end s then Some (False, s) else compact_run fuel cs (flush_full s)))"

fun compact_source :: "nat \<Rightarrow> nat \<Rightarrow> HeapCluster list \<Rightarrow> Compaction \<Rightarrow> Compaction option" where
  "compact_source 0 fuel cs s = None"
| "compact_source (Suc n) fuel cs s =
     (case compact_step fuel cs s of
        None \<Rightarrow> None
      | Some (goes_on, s) \<Rightarrow> if goes_on then compact_source n fuel cs s else Some s)"

section \<open>The compaction\<close>

fun compact_clusters :: "nat \<Rightarrow> nat \<Rightarrow> HeapCluster list \<Rightarrow> Compaction \<Rightarrow> Compaction option" where
  "compact_clusters 0 fuel cs s = None"
| "compact_clusters (Suc n) fuel cs s =
     (if currentSource_hc s < length cs then
        (let c = cs ! currentSource_hc s; s = s\<lparr>currentSource := m_payloadStart c, currentSource_end := m_payloadEnd c\<rparr>;
             s = (if freeRegion s = 0 then to_free_region 0 cs s else s)
         in if freeRegion s = 0 then Some s
            else
              (case compact_source fuel fuel cs s of
                 None \<Rightarrow> None
               | Some s \<Rightarrow> compact_clusters n fuel cs (s\<lparr>currentSource_hc := Suc (currentSource_hc s)\<rparr>)))
      else Some s)"

definition Heap_Compact :: "nat \<Rightarrow> HeapCluster list \<Rightarrow> (nat \<Rightarrow> BlockId) \<Rightarrow> Links \<Rightarrow> Relocation \<Rightarrow> Compaction option" where
  "Heap_Compact fuel cs ids lnk rel =
     (case compact_clusters fuel fuel cs
         \<lparr>cp_ids = ids, cp_links = lnk, cp_reloc = Heap_Relocate_Prepare c_minimumSpaceForCompact rel,
          freeRegion_hc = 0, freeRegion = 0, currentSource_hc = 0, currentSource = 0, currentSource_end = 0\<rparr> of
        None \<Rightarrow> None
      | Some s \<Rightarrow> Some (s\<lparr>cp_reloc := Heap_Relocate (cp_reloc s)\<rparr>))"

end
