(* ===== verification/CompactionSteps.thy ===== *)
theory CompactionSteps imports HeapCompaction begin

text \<open>
  The steps of the compaction on the blocks of the clusters: a set of blocks that divides a part of the
  memory, with holes while blocks are on their way.
\<close>

section \<open>Blocks that divide a part of the memory\<close>

definition partition :: "(nat \<Rightarrow> BlockId) \<Rightarrow> nat set \<Rightarrow> nat set \<Rightarrow> bool" where
  "partition ids B P \<longleftrightarrow> (\<forall>b\<in>B. 0 < extent ids b) \<and> (\<Union>b\<in>B. {b..<b + extent ids b}) = P \<and>
     (\<forall>a\<in>B. \<forall>b\<in>B. \<forall>x. x \<in> {a..<a + extent ids a} \<longrightarrow> x \<in> {b..<b + extent ids b} \<longrightarrow> a = b)"

lemma partitionD:
  assumes "partition ids B P"
  shows "b \<in> B \<Longrightarrow> 0 < extent ids b" "b \<in> B \<Longrightarrow> {b..<b + extent ids b} \<subseteq> P" "b \<in> B \<Longrightarrow> b \<in> P"
    "a \<in> B \<Longrightarrow> b \<in> B \<Longrightarrow> x \<in> {a..<a + extent ids a} \<Longrightarrow> x \<in> {b..<b + extent ids b} \<Longrightarrow> a = b"
    "x \<in> P \<Longrightarrow> \<exists>b\<in>B. x \<in> {b..<b + extent ids b}"
proof -
  show p: "b \<in> B \<Longrightarrow> 0 < extent ids b" "b \<in> B \<Longrightarrow> {b..<b + extent ids b} \<subseteq> P" using assms by (auto simp: partition_def)
  then show "b \<in> B \<Longrightarrow> b \<in> P" by fastforce
  show "a \<in> B \<Longrightarrow> b \<in> B \<Longrightarrow> x \<in> {a..<a + extent ids a} \<Longrightarrow> x \<in> {b..<b + extent ids b} \<Longrightarrow> a = b"
    using assms unfolding partition_def by blast
  show "x \<in> P \<Longrightarrow> \<exists>b\<in>B. x \<in> {b..<b + extent ids b}" using assms unfolding partition_def by blast
qed

lemma partitionI:
  assumes "\<And>b. b \<in> B \<Longrightarrow> 0 < extent ids b" "\<And>b. b \<in> B \<Longrightarrow> {b..<b + extent ids b} \<subseteq> P"
    and "\<And>x. x \<in> P \<Longrightarrow> \<exists>b\<in>B. x \<in> {b..<b + extent ids b}"
    and "\<And>a b x. a \<in> B \<Longrightarrow> b \<in> B \<Longrightarrow> x \<in> {a..<a + extent ids a} \<Longrightarrow> x \<in> {b..<b + extent ids b} \<Longrightarrow> a = b"
  shows "partition ids B P"
proof -
  have "(\<Union>b\<in>B. {b..<b + extent ids b}) = P" using assms(2,3) by blast
  then show ?thesis using assms(1,4) unfolding partition_def by (intro conjI ballI allI impI) assumption+
qed

lemma partition_cong:
  assumes "partition ids B P" "\<And>b. b \<in> B \<Longrightarrow> extent ids' b = extent ids b"
  shows "partition ids' B P"
proof (rule partitionI)
  note D = partitionD [OF assms(1)]
  show "0 < extent ids' b" "{b..<b + extent ids' b} \<subseteq> P" if "b \<in> B" for b using D(1,2) [OF that] assms(2) [OF that] by simp_all
  show "\<exists>b\<in>B. x \<in> {b..<b + extent ids' b}" if "x \<in> P" for x using D(5) [OF that] assms(2) by fastforce
  show "a = b" if "a \<in> B" "b \<in> B" "x \<in> {a..<a + extent ids' a}" "x \<in> {b..<b + extent ids' b}" for a b x
    using D(4) [OF that(1,2), of x] that assms(2) by simp
qed

lemma partition_union:
  assumes "partition ids B P" "partition ids C Q" "P \<inter> Q = {}"
  shows "partition ids (B \<union> C) (P \<union> Q)"
proof (rule partitionI)
  note D = partitionD [OF assms(1)] and E = partitionD [OF assms(2)]
  show "0 < extent ids b" if "b \<in> B \<union> C" for b using D(1) E(1) that by blast
  show "{b..<b + extent ids b} \<subseteq> P \<union> Q" if "b \<in> B \<union> C" for b using D(2) E(2) that by blast
  show "\<exists>b\<in>B \<union> C. x \<in> {b..<b + extent ids b}" if "x \<in> P \<union> Q" for x using D(5) E(5) that by blast
  show "a = b" if m: "a \<in> B \<union> C" "b \<in> B \<union> C" "x \<in> {a..<a + extent ids a}" "x \<in> {b..<b + extent ids b}" for a b x
  proof -
    consider "a \<in> B" "b \<in> B" | "a \<in> C" "b \<in> C" | "a \<in> B" "b \<in> C" | "a \<in> C" "b \<in> B" using m(1,2) by blast
    then show ?thesis
    proof cases
      case 3
      then have "x \<in> P" "x \<in> Q" using D(2) E(2) m(3,4) by blast+
      then show ?thesis using assms(3) by blast
    next
      case 4
      then have "x \<in> P" "x \<in> Q" using D(2) E(2) m(3,4) by blast+
      then show ?thesis using assms(3) by blast
    qed (use D(4) E(4) m(3,4) in blast)+
  qed
qed

lemma partition_diff:
  assumes "partition ids B P" "C \<subseteq> B"
  shows "partition ids (B - C) (P - (\<Union>b\<in>C. {b..<b + extent ids b}))"
proof (rule partitionI)
  note D = partitionD [OF assms(1)]
  show "0 < extent ids b" if "b \<in> B - C" for b using D(1) that by blast
  show "{b..<b + extent ids b} \<subseteq> P - (\<Union>b\<in>C. {b..<b + extent ids b})" if b: "b \<in> B - C" for b
  proof
    fix x assume x: "x \<in> {b..<b + extent ids b}"
    then have "x \<notin> {c..<c + extent ids c}" if "c \<in> C" for c using D(4) [of b c x] that b assms(2) by blast
    then show "x \<in> P - (\<Union>b\<in>C. {b..<b + extent ids b})" using D(2) [of b] b x by blast
  qed
  show "\<exists>b\<in>B - C. x \<in> {b..<b + extent ids b}" if "x \<in> P - (\<Union>b\<in>C. {b..<b + extent ids b})" for x
    using D(5) [of x] that by blast
  show "a = b" if "a \<in> B - C" "b \<in> B - C" "x \<in> {a..<a + extent ids a}" "x \<in> {b..<b + extent ids b}" for a b x
    using D(4) that by blast
qed

lemma tiles_partition: "tiles ids p hs e \<Longrightarrow> partition ids (set hs) {p..<e}"
  using tiles_cover [of ids p hs e] tiles_disjoint [of ids p hs e] tile_in [of ids p hs e]
  unfolding partition_def by blast

lemma partition_tiles: "partition ids B {p..<e} \<Longrightarrow> p \<le> e \<Longrightarrow> \<exists>hs. tiles ids p hs e \<and> set hs = B"
proof (induction "e - p" arbitrary: p B rule: less_induct)
  case less
  note IH = less.hyps and D = partitionD [OF less.prems(1)]
  show ?case
  proof (cases "p = e")
    case True
    then have "B = {}" using D(3) by auto
    then show ?thesis using True by (intro exI [of _ "[]"]) simp
  next
    case False
    then have "p \<in> {p..<e}" using less.prems(2) by simp
    then obtain b where b: "b \<in> B" "p \<in> {b..<b + extent ids b}" using D(5) by blast
    then have pb: "p \<in> B" using D(3) [of b] by auto
    then have pos: "0 < extent ids p" and le: "p + extent ids p \<le> e" using D(1,2) [of p] False less.prems(2) by auto
    have "partition ids (B - {p}) ({p..<e} - (\<Union>b\<in>{p}. {b..<b + extent ids b}))"
      by (rule partition_diff [OF less.prems(1)]) (use pb in simp)
    moreover have "{p..<e} - (\<Union>b\<in>{p}. {b..<b + extent ids b}) = {p + extent ids p..<e}" by auto
    ultimately have rest: "partition ids (B - {p}) {p + extent ids p..<e}" by simp
    have lt: "e - (p + extent ids p) < e - p" using pos le by simp
    from IH [OF lt rest le] obtain hs where "tiles ids (p + extent ids p) hs e" "set hs = B - {p}" by blast
    then show ?thesis using pos pb by (intro exI [of _ "p # hs"]) auto
  qed
qed

section \<open>A cluster with holes\<close>

abbreviation roomy :: "HeapCluster \<Rightarrow> bool" where
  "roomy c \<equiv> 0 < m_payloadStart c \<and> m_payloadStart c \<le> m_payloadEnd c \<and> m_payloadEnd c - m_payloadStart c < 65536 \<and>
     Head (m_freeList c) \<notin> payload c \<and> Tail (m_freeList c) \<notin> payload c"

text \<open>\<open>B\<close> are the blocks of the cluster, \<open>fs\<close> those in the list, and \<open>P\<close> is what they cover.\<close>

definition divided :: "HeapCluster \<Rightarrow> nat set \<Rightarrow> nat list \<Rightarrow> nat set \<Rightarrow> bool" where
  "divided c B fs P \<longleftrightarrow> partition (m_ids c) B P \<and> P \<subseteq> payload c \<and> dll (m_freeList c) (m_links c) fs \<and> sorted_wrt (<) fs \<and>
     set fs = {b \<in> B. is_free c b} \<and> (\<forall>f\<in>set fs. \<exists>n. m_ids c f = RAW_ID DATATYPE_FREEBLOCK HB_Pinned n)"

lemma dividedD:
  assumes "divided c B fs P"
  shows "partition (m_ids c) B P" "P \<subseteq> payload c" "dll (m_freeList c) (m_links c) fs" "sorted_wrt (<) fs"
    "set fs = {b \<in> B. is_free c b}" "f \<in> set fs \<Longrightarrow> \<exists>n. m_ids c f = RAW_ID DATATYPE_FREEBLOCK HB_Pinned n"
  using assms by (auto simp: divided_def)

lemma divided_free_list:
  assumes "divided c B fs P"
  shows "free_list c fs" "covered c fs \<subseteq> P"
proof -
  note D = dividedD [OF assms] and Q = partitionD [OF dividedD(1) [OF assms]]
  have sub: "set fs \<subseteq> B" using D(5) by simp
  show cov: "covered c fs \<subseteq> P" using Q(2) sub by fastforce
  have "a + extent (m_ids c) a \<le> b" if "a \<in> set fs" "b \<in> set fs" "a < b" for a b
  proof (rule ccontr)
    assume "\<not> a + extent (m_ids c) a \<le> b"
    then have "b \<in> cells c a" using that(3) by simp
    moreover have "b \<in> cells c b" using Q(1) [of b] that(2) sub by auto
    ultimately show False using Q(4) [of a b b] that sub by blast
  qed
  then have "apart c fs" using D(4) by (auto intro: sorted_wrt_mono_rel [rotated])
  then show "free_list c fs" using D(2,3) cov Q(1) sub unfolding free_list_def by blast
qed

lemma divided_heap:
  assumes "divided c B fs (payload c)" "roomy c"
  shows "\<exists>hs. heap_ok c hs \<and> set hs = B \<and> filter (is_free c) hs = fs \<and> set (used c hs) = B - set fs"
proof -
  note D = dividedD [OF assms(1)]
  have "m_payloadStart c \<le> m_payloadEnd c" using assms(2) by simp
  from partition_tiles [OF D(1) this] obtain hs where hs: "tiles (m_ids c) (m_payloadStart c) hs (m_payloadEnd c)" "set hs = B" by blast
  have "sorted_wrt (\<lambda>a b. a + extent (m_ids c) a \<le> b) hs" by (rule tiles_apart(1) [OF hs(1)])
  then have "sorted_wrt (<) hs" using tile_in [OF hs(1)] by (fastforce intro: sorted_wrt_mono_rel [rotated])
  then have "sorted_wrt (<) (filter (is_free c) hs)" by (rule sorted_wrt_filter)
  moreover have "set (filter (is_free c) hs) = set fs" using hs(2) D(5) by auto
  ultimately have f: "filter (is_free c) hs = fs" using D(4) by (metis strict_sorted_equal)
  have "\<not> IsAlive (m_ids c h)" if "h \<in> set hs" "is_free c h" for h
  proof -
    have "h \<in> set fs" using that f by auto
    then show ?thesis using D(6) by fastforce
  qed
  then have "heap_ok c hs" using hs(1) D(3) f assms(2) by (simp add: heap_ok_def)
  then show ?thesis using hs(2) f D(5) by (auto simp: used_def)
qed

lemma heap_divided:
  assumes "heap_ok c hs" "\<forall>h\<in>set hs. is_free c h \<longrightarrow> (\<exists>n. m_ids c h = RAW_ID DATATYPE_FREEBLOCK HB_Pinned n)"
  shows "divided c (set hs) (filter (is_free c) hs) (payload c)" "roomy c"
proof -
  note D = heap_okD [OF assms(1)]
  have "sorted_wrt (\<lambda>a b. a + extent (m_ids c) a \<le> b) hs" by (rule tiles_apart(1) [OF D(1)])
  then have "sorted_wrt (<) hs" using tile_in [OF D(1)] by (fastforce intro: sorted_wrt_mono_rel [rotated])
  then have "sorted_wrt (<) (filter (is_free c) hs)" by (rule sorted_wrt_filter)
  then show "divided c (set hs) (filter (is_free c) hs) (payload c)"
    using tiles_partition [OF D(1)] D(2) assms(2) by (auto simp: divided_def)
  show "roomy c" using D tiles_bounds(1) [OF D(1)] by simp
qed

lemma free_list_partition:
  assumes "free_list c fs"
  shows "partition (m_ids c) (set fs) (covered c fs)" "sorted_wrt (<) fs"
proof -
  have F: "apart c fs" "\<forall>f\<in>set fs. 0 < extent (m_ids c) f" using assms by (simp_all add: free_list_def)
  have lt: "sorted_wrt (\<lambda>a b. a + extent (m_ids c) a \<le> b \<and> a < b) fs"
    using F by (fastforce intro: sorted_wrt_mono_rel [rotated])
  then show "sorted_wrt (<) fs" by (rule sorted_wrt_mono_rel [rotated]) simp
  have "a = b" if m: "a \<in> set fs" "b \<in> set fs" "x \<in> cells c a" "x \<in> cells c b" for a b x
  proof -
    obtain i j where ij: "i < length fs" "j < length fs" "a = fs ! i" "b = fs ! j" using m(1,2) by (auto simp: in_set_conv_nth)
    consider "i < j" | "j < i" | "i = j" by linarith
    then show ?thesis
    proof cases
      case 1
      then have "a + extent (m_ids c) a \<le> b" using F(1) ij by (simp add: sorted_wrt_iff_nth_less)
      then show ?thesis using m(3,4) by simp
    next
      case 2
      then have "b + extent (m_ids c) b \<le> a" using F(1) ij by (simp add: sorted_wrt_iff_nth_less)
      then show ?thesis using m(3,4) by simp
    qed (use ij in simp)
  qed
  then show "partition (m_ids c) (set fs) (covered c fs)"
    using F(2) by (intro partitionI) blast+
qed

text \<open>The words in use are not touched.\<close>

abbreviation words :: "HeapCluster \<Rightarrow> (nat \<Rightarrow> BlockId) \<times> Links" where
  "words c \<equiv> (m_ids c, m_links c)"

lemma divided_insert:
  assumes d: "divided c B fs P" "roomy c" and fuel: "length fs < fuel" and n: "0 < unat n"
    and S: "{node..<node + unat n} \<subseteq> payload c" "{node..<node + unat n} \<inter> P = {}"
  shows "\<exists>c' r fs'. InsertInOrder fuel node n c = Some (c', r) \<and> divided c' (B - set fs \<union> set fs') fs' (P \<union> {node..<node + unat n}) \<and>
    r \<in> set fs' \<and> node \<in> cells c' r \<and> set fs' \<subseteq> insert r (set fs) \<and> c' = within c (m_ids c') (m_links c') \<and>
    (\<forall>x. x \<noteq> r \<longrightarrow> m_ids c' x = m_ids c x) \<and> set fs' \<inter> (B - set fs) = {} \<and>
    agree (- (covered c fs \<union> {node..<node + unat n} \<union> {Head (m_freeList c), Tail (m_freeList c)})) (words c) (words c')"
proof -
  note D = dividedD [OF d(1)] and Q = partitionD [OF dividedD(1) [OF d(1)]]
  let ?S = "{node..<node + unat n}" and ?ends = "{Head (m_freeList c), Tail (m_freeList c)}"
  note fl = divided_free_list [OF d(1)]
  have room: "m_payloadEnd c - m_payloadStart c < 65536" "0 < m_payloadStart c" "Head (m_freeList c) \<notin> payload c" "Tail (m_freeList c) \<notin> payload c"
    using d(2) by simp_all
  have "?S \<inter> covered c fs = {}" using S(2) fl(2) by blast
  from InsertInOrder_spec [OF fl(1) fuel n room S(1) this] obtain c' fs' r where
    R: "InsertInOrder fuel node n c = Some (c', r)" "free_list c' fs'" "r \<in> set fs'" "node \<in> cells c' r" "covered c' fs' = covered c fs \<union> ?S"
      "\<forall>x. x \<noteq> r \<longrightarrow> m_ids c' x = m_ids c x" "m_freeList c' = m_freeList c" "m_payloadStart c' = m_payloadStart c" "m_payloadEnd c' = m_payloadEnd c"
      "set fs' \<subseteq> insert r (set fs)" "\<exists>n. m_ids c' r = RAW_ID DATATYPE_FREEBLOCK HB_Pinned n"
      "only_links (insert node (set (Head (m_freeList c) # fs @ [Tail (m_freeList c)]))) (m_links c) (m_links c')"
    by (elim exE conjE) (rule that, (assumption | blast)+)
  note part = free_list_partition [OF R(2)]
  have self: "f \<in> cells c f" if "f \<in> set fs" for f using Q(1) [of f] D(5) that by auto
  have r_in: "r \<in> covered c fs \<union> ?S" using partitionD(3) [OF part(1) R(3)] R(5) by simp
  have keep: "r \<notin> B - set fs"
  proof
    assume r: "r \<in> B - set fs"
    then have "r \<in> P" "r \<in> cells c r" using Q(1,3) [of r] by auto
    then obtain f where "f \<in> set fs" "r \<in> cells c f" using r_in S(2) by blast
    then show False using Q(4) [of r f r] r D(5) \<open>r \<in> cells c r\<close> by auto
  qed
  have same: "m_ids c' b = m_ids c b" if "b \<in> B - set fs" for b using R(6) keep that by metis
  have cov: "(\<Union>f\<in>set fs. {f..<f + extent (m_ids c) f}) = covered c fs" by simp
  have "set fs \<subseteq> B" using D(5) by simp
  from partition_diff [OF D(1) this] have "partition (m_ids c) (B - set fs) (P - covered c fs)" .
  then have "partition (m_ids c') (B - set fs) (P - covered c fs)" by (rule partition_cong) (simp add: same)
  moreover have "(P - covered c fs) \<inter> covered c' fs' = {}" using R(5) S(2) by blast
  ultimately have "partition (m_ids c') (B - set fs \<union> set fs') ((P - covered c fs) \<union> covered c' fs')"
    using part(1) partition_union by blast
  moreover have "(P - covered c fs) \<union> covered c' fs' = P \<union> ?S" using R(5) fl(2) by blast
  ultimately have P': "partition (m_ids c') (B - set fs \<union> set fs') (P \<union> ?S)" by simp
  have pinned: "\<exists>n. m_ids c' f = RAW_ID DATATYPE_FREEBLOCK HB_Pinned n" if "f \<in> set fs'" for f
    using R(6,10,11) D(6) [of f] that by (cases "f = r") auto
  have "set fs' = {b \<in> B - set fs \<union> set fs'. is_free c' b}"
  proof -
    have "\<not> is_free c' b" if "b \<in> B - set fs" for b using same [OF that] that D(5) by auto
    moreover have "is_free c' b" if "b \<in> set fs'" for b using pinned [OF that] by auto
    ultimately show ?thesis by blast
  qed
  moreover have "dll (m_freeList c') (m_links c') fs'" using R(2) by (simp add: free_list_def)
  ultimately have "divided c' (B - set fs \<union> set fs') fs' (P \<union> ?S)"
    using P' part(2) pinned D(2) S(1) R(8,9) unfolding divided_def by auto
  moreover have "agree (- (covered c fs \<union> ?S \<union> ?ends)) (words c) (words c')"
    unfolding agree_def
  proof
    fix x assume x: "x \<in> - (covered c fs \<union> ?S \<union> ?ends)"
    then have "x \<noteq> r" using r_in by blast
    moreover have "x \<notin> insert node (set (Head (m_freeList c) # fs @ [Tail (m_freeList c)]))"
      using x self n by auto
    ultimately show "fst (words c') x = fst (words c) x \<and> m_nextNode (snd (words c')) x = m_nextNode (snd (words c)) x \<and>
        m_prevNode (snd (words c')) x = m_prevNode (snd (words c)) x"
      using R(6,12) by (simp add: only_links_def)
  qed
  moreover have "set fs' \<inter> (B - set fs) = {}" using R(10) keep by blast
  moreover have "c' = within c (m_ids c') (m_links c')" using R(7-9) by (cases c; cases c') (simp add: within_def)
  ultimately show ?thesis using R by (intro exI [of _ c'] exI [of _ r] exI [of _ fs']) (intro conjI; assumption)
qed

section \<open>All clusters\<close>

definition clusters_ok :: "HeapCluster list \<Rightarrow> bool" where
  "clusters_ok cs \<longleftrightarrow> (\<forall>c\<in>set cs. roomy c) \<and> sorted_wrt (\<lambda>c d. foot c \<inter> foot d = {} \<and> m_payloadEnd c < m_payloadStart d) cs"

lemma clusters_okD:
  assumes "clusters_ok cs" "i < length cs"
  shows "roomy (cs ! i)" "j < length cs \<Longrightarrow> i \<noteq> j \<Longrightarrow> foot (cs ! i) \<inter> foot (cs ! j) = {}"
    "i < j \<Longrightarrow> j < length cs \<Longrightarrow> m_payloadEnd (cs ! i) < m_payloadStart (cs ! j)"
proof -
  show "roomy (cs ! i)" using assms nth_mem unfolding clusters_ok_def by blast
  have s: "foot (cs ! a) \<inter> foot (cs ! b) = {} \<and> m_payloadEnd (cs ! a) < m_payloadStart (cs ! b)" if "a < b" "b < length cs" for a b
    using assms(1) that by (simp add: clusters_ok_def sorted_wrt_iff_nth_less)
  then show "i < j \<Longrightarrow> j < length cs \<Longrightarrow> m_payloadEnd (cs ! i) < m_payloadStart (cs ! j)" by blast
  show "foot (cs ! i) \<inter> foot (cs ! j) = {}" if "j < length cs" "i \<noteq> j"
  proof (cases "i < j")
    case True
    then show ?thesis using s that(1) by blast
  next
    case False
    then have "j < i" using that(2) by simp
    then show ?thesis using s [of j i] assms(2) by blast
  qed
qed

abbreviation in_memory :: "HeapCluster \<Rightarrow> (nat \<Rightarrow> BlockId) \<times> Links \<Rightarrow> HeapCluster" where
  "in_memory c m \<equiv> within c (fst m) (snd m)"

definition layout :: "HeapCluster list \<Rightarrow> (nat \<Rightarrow> BlockId) \<times> Links \<Rightarrow> (nat \<Rightarrow> nat set) \<Rightarrow> (nat \<Rightarrow> nat list) \<Rightarrow> (nat \<Rightarrow> nat set) \<Rightarrow> bool" where
  "layout cs m B F P \<longleftrightarrow> (\<forall>j<length cs. divided (in_memory (cs ! j) m) (B j) (F j) (P j))"

abbreviation list_cells :: "(nat \<Rightarrow> BlockId) \<Rightarrow> nat list \<Rightarrow> nat set" where
  "list_cells ids fs \<equiv> (\<Union>f\<in>set fs. {f..<f + extent ids f})"

lemma divided_agree:
  assumes "divided (in_memory c m) B fs P" "agree (foot c) m m'"
  shows "divided (in_memory c m') B fs P"
proof -
  note D = dividedD [OF assms(1), unfolded within_simps] 
  have same: "fst m' b = fst m b" if "b \<in> B" for b
    using partitionD(3) [OF D(1) that] D(2) assms(2) by (auto simp: agree_def foot_def)
  have "partition (fst m') B P" by (rule partition_cong [OF D(1)]) (simp add: same)
  moreover have "dll (m_freeList c) (snd m') fs"
  proof (rule dll_cong [OF D(3)])
    fix x assume "x \<in> set (Head (m_freeList c) # fs @ [Tail (m_freeList c)])"
    moreover have "set fs \<subseteq> payload c" using D(2,5) partitionD(3) [OF D(1)] by auto
    ultimately have "x \<in> foot c" by (auto simp: foot_def)
    then show "m_nextNode (snd m') x = m_nextNode (snd m) x \<and> m_prevNode (snd m') x = m_prevNode (snd m) x"
      using assms(2) by (simp add: agree_def)
  qed
  moreover have "set fs = {b \<in> B. b_type (fst m' b) = DATATYPE_FREEBLOCK}" using D(5) same by auto
  moreover have "\<exists>n. fst m' f = RAW_ID DATATYPE_FREEBLOCK HB_Pinned n" if "f \<in> set fs" for f
    using D(5) D(6) [of f] that same [of f] by auto
  ultimately show ?thesis using D(2,4) by (simp add: divided_def)
qed

lemma insert_block_spec:
  assumes L: "layout cs m B F P" and cs: "clusters_ok cs" and i: "i < length cs" and fuel: "length (F i) < fuel" and n: "0 < unat n"
    and S: "{node..<node + unat n} \<subseteq> payload (cs ! i)" "{node..<node + unat n} \<inter> P i = {}"
  shows "\<exists>m' r fs'. insert_block fuel cs i node n m = Some (m', r) \<and>
    layout cs m' (B(i := B i - set (F i) \<union> set fs')) (F(i := fs')) (P(i := P i \<union> {node..<node + unat n})) \<and>
    r \<in> set fs' \<and> node \<in> {r..<r + extent (fst m') r} \<and> set fs' \<subseteq> insert r (set (F i)) \<and>
    (\<forall>x. x \<noteq> r \<longrightarrow> fst m' x = fst m x) \<and> set fs' \<inter> (B i - set (F i)) = {} \<and>
    agree (- (list_cells (fst m) (F i) \<union> {node..<node + unat n} \<union> {Head (m_freeList (cs ! i)), Tail (m_freeList (cs ! i))})) m m'"
proof -
  let ?c = "in_memory (cs ! i) m" and ?S = "{node..<node + unat n}"
  have d: "divided ?c (B i) (F i) (P i)" using L i by (simp add: layout_def)
  have room: "roomy ?c" and S': "?S \<subseteq> payload ?c" using clusters_okD(1) [OF cs i] S(1) by simp_all
  from divided_insert [OF d room fuel n S' S(2), unfolded within_simps prod.collapse] obtain c' r fs' where
    R: "InsertInOrder fuel node n ?c = Some (c', r)" "divided c' (B i - set (F i) \<union> set fs') fs' (P i \<union> ?S)" "r \<in> set fs'"
      "node \<in> cells c' r" "set fs' \<subseteq> insert r (set (F i))" "c' = within ?c (m_ids c') (m_links c')"
      "\<forall>x. x \<noteq> r \<longrightarrow> m_ids c' x = fst m x" "set fs' \<inter> (B i - set (F i)) = {}"
      "agree (- (list_cells (fst m) (F i) \<union> ?S \<union> {Head (m_freeList (cs ! i)), Tail (m_freeList (cs ! i))})) m (words c')"
    by (elim exE conjE) (rule that)
  let ?m = "words c'"
  have c': "c' = in_memory (cs ! i) ?m" using R(6) by (metis fst_conv snd_conv within_def HeapCluster.update_convs(4,5) HeapCluster.surjective)
  have "insert_block fuel cs i node n m = Some (?m, r)"
    using R(1) by (cases m) (simp add: insert_block_def)
  moreover have "layout cs ?m (B(i := B i - set (F i) \<union> set fs')) (F(i := fs')) (P(i := P i \<union> ?S))"
    unfolding layout_def
  proof (intro allI impI)
    fix j assume j: "j < length cs"
    show "divided (in_memory (cs ! j) ?m) ((B(i := B i - set (F i) \<union> set fs')) j) ((F(i := fs')) j) ((P(i := P i \<union> ?S)) j)"
    proof (cases "j = i")
      case True
      then show ?thesis using R(2) c' by simp
    next
      case False
      have dj: "divided (in_memory (cs ! j) m) (B j) (F j) (P j)" using L j by (simp add: layout_def)
      have "list_cells (fst m) (F i) \<subseteq> payload (cs ! i)"
        using divided_free_list(2) [OF d] dividedD(2) [OF d] by simp
      then have "list_cells (fst m) (F i) \<union> ?S \<union> {Head (m_freeList (cs ! i)), Tail (m_freeList (cs ! i))} \<subseteq> foot (cs ! i)"
        using S(1) by (auto simp: foot_def)
      moreover have "foot (cs ! j) \<inter> foot (cs ! i) = {}" using clusters_okD(2) [OF cs j i] False by blast
      ultimately have "agree (foot (cs ! j)) m ?m" using R(9) unfolding agree_def by blast
      then have "divided (in_memory (cs ! j) ?m) (B j) (F j) (P j)" by (rule divided_agree [OF dj])
      then show ?thesis using False by simp
    qed
  qed
  ultimately show ?thesis using R by (intro exI [of _ ?m] exI [of _ r] exI [of _ fs']) simp
qed

section \<open>Filling a free region\<close>

lemma unlink_spec:
  assumes L: "layout cs m B F P" and cs: "clusters_ok cs" and i: "i < length cs" and f: "f \<in> set (F i)"
  shows "layout cs (fst m, Unlink f (snd m)) (B(i := B i - {f})) (F(i := remove1 f (F i))) (P(i := P i - {f..<f + extent (fst m) f}))"
    "agree (- (set (F i) \<union> {Head (m_freeList (cs ! i)), Tail (m_freeList (cs ! i))})) m (fst m, Unlink f (snd m))"
    "set (remove1 f (F i)) = set (F i) - {f}"
proof -
  let ?c = "in_memory (cs ! i) m" and ?m = "(fst m, Unlink f (snd m))"
  have d: "divided ?c (B i) (F i) (P i)" using L i by (simp add: layout_def)
  note D = dividedD [OF d, unfolded within_simps]
  obtain xs ys where F: "F i = xs @ f # ys" using f by (meson split_list)
  have dist: "distinct (F i)" using D(3) by (simp add: dll_def)
  then show set_eq: "set (remove1 f (F i)) = set (F i) - {f}" by simp
  have rem: "remove1 f (F i) = xs @ ys" using dist by (simp add: F remove1_append)
  have only: "only_links (set (Head (m_freeList (cs ! i)) # (F i) @ [Tail (m_freeList (cs ! i))])) (snd m) (Unlink f (snd m))"
    using unlink_only [of "m_freeList (cs ! i)" "snd m" xs f ys] D(3) F by simp
  then show ag: "agree (- (set (F i) \<union> {Head (m_freeList (cs ! i)), Tail (m_freeList (cs ! i))})) m ?m"
    by (auto simp: agree_def only_links_def)
  have fB: "{f} \<subseteq> B i" using f D(5) by simp
  have one: "divided (in_memory (cs ! i) ?m) (B i - {f}) (remove1 f (F i)) (P i - {f..<f + extent (fst m) f})"
  proof -
    have "partition (fst m) (B i - {f}) (P i - {f..<f + extent (fst m) f})"
      using partition_diff [OF D(1) fB] by simp
    moreover have "dll (m_freeList (cs ! i)) (Unlink f (snd m)) (remove1 f (F i))"
      unfolding rem by (rule dll_unlink(1)) (use D(3) F in simp)
    moreover have "sorted_wrt (<) (remove1 f (F i))" using D(4) [unfolded F] unfolding rem by (simp add: sorted_wrt_append)
    ultimately show ?thesis using D(2,5,6) set_eq unfolding divided_def by auto
  qed
  have others: "divided (in_memory (cs ! j) ?m) (B j) (F j) (P j)" if j: "j < length cs" "j \<noteq> i" for j
  proof (rule divided_agree)
    show "divided (in_memory (cs ! j) m) (B j) (F j) (P j)" using L j by (simp add: layout_def)
    have "set (F i) \<subseteq> payload (cs ! i)" using D(2,5) partitionD(3) [OF D(1)] by auto
    then have "set (F i) \<union> {Head (m_freeList (cs ! i)), Tail (m_freeList (cs ! i))} \<subseteq> foot (cs ! i)" by (auto simp: foot_def)
    then show "agree (foot (cs ! j)) m ?m" using ag clusters_okD(2) [OF cs j(1) i j(2)] unfolding agree_def by blast
  qed
  show "layout cs ?m (B(i := B i - {f})) (F(i := remove1 f (F i))) (P(i := P i - {f..<f + extent (fst m) f}))"
    unfolding layout_def
  proof (intro allI impI)
    fix j assume j: "j < length cs"
    show "divided (in_memory (cs ! j) ?m) ((B(i := B i - {f})) j) ((F(i := remove1 f (F i))) j) ((P(i := P i - {f..<f + extent (fst m) f})) j)"
    proof (cases "j = i")
      case True
      show ?thesis unfolding True fun_upd_same by (rule one)
    next
      case False
      show ?thesis unfolding fun_upd_other [OF False] by (rule others [OF j False])
    qed
  qed
qed

lemma memmove_words:
  "fst (memmove_blocks f s n m) x = fst m (if x \<in> {f..<f + n} then s + (x - f) else x)"
  "m_nextNode (snd (memmove_blocks f s n m)) x = m_nextNode (snd m) (if x \<in> {f..<f + n} then s + (x - f) else x)"
  "m_prevNode (snd (memmove_blocks f s n m)) x = m_prevNode (snd m) (if x \<in> {f..<f + n} then s + (x - f) else x)"
  by (simp_all add: memmove_blocks_def split_beta Let_def)

lemma tiles_shift:
  assumes "tiles ids p hs e" "f \<le> p" "\<forall>x\<in>{p..<e}. extent ids' (x - p + f) = extent ids x"
  shows "tiles ids' f (map (\<lambda>h. h - p + f) hs) (e - p + f)"
proof -
  have "tiles ids' (q - p + f) (map (\<lambda>h. h - p + f) hs) (e - p + f)" if "tiles ids q hs e" "p \<le> q" for q
    using that
  proof (induction hs arbitrary: q)
    case (Cons h hs)
    have "h < e" using tiles_bounds(2) [OF Cons.prems(1), of h] by simp
    moreover have "q + extent ids q - p + f = q - p + f + extent ids q" using Cons.prems(2) by simp
    moreover have "tiles ids' (q + extent ids q - p + f) (map (\<lambda>h. h - p + f) hs) (e - p + f)"
      by (rule Cons.IH) (use Cons.prems in auto)
    moreover have "h = q" "0 < extent ids q" using Cons.prems(1) by auto
    ultimately show ?case using assms(3) Cons.prems(2) unfolding list.map tiles.simps by auto
  qed simp
  from this [OF assms(1)] show ?thesis by simp
qed

lemma memmove_spec:
  assumes L: "layout cs m B F P" and cs: "clusters_ok cs" and i: "i < length cs" and j: "j < length cs"
    and run: "tiles (fst m) s run (s + n)" "set run \<subseteq> B j - set (F j)"
    and D: "{f..<f + n} \<subseteq> payload (cs ! i)" "{f..<f + n} \<inter> (P i - {s..<s + n}) = {}" "f \<le> s"
  defines "R' \<equiv> set (map (\<lambda>h. h - s + f) run)"
  shows "layout cs (memmove_blocks f s n m) (\<lambda>k. (B k - (if k = j then set run else {})) \<union> (if k = i then R' else {})) F
    (\<lambda>k. (P k - (if k = j then {s..<s + n} else {})) \<union> (if k = i then {f..<f + n} else {}))"
  unfolding layout_def
proof (intro allI impI)
  fix k assume k: "k < length cs"
  let ?m = "memmove_blocks f s n m" and ?B = "B k - (if k = j then set run else {})" and ?P = "P k - (if k = j then {s..<s + n} else {})"
  let ?R = "if k = i then R' else {}" and ?D = "if k = i then {f..<f + n} else {}"
  have d: "divided (in_memory (cs ! q) m) (B q) (F q) (P q)" if "q < length cs" for q using L that by (simp add: layout_def)
  note K = dividedD [OF d [OF k], unfolded within_simps] and J = dividedD [OF d [OF j], unfolded within_simps]
  have S: "{s..<s + n} \<subseteq> P j" 
  proof -
    have "(\<Union>b\<in>set run. {b..<b + extent (fst m) b}) = {s..<s + n}" using tiles_cover [OF run(1)] .
    then show ?thesis using partitionD(2) [OF J(1)] run(2) by blast
  qed
  have pl: "payload (cs ! q) \<inter> payload (cs ! r) = {}" if "q < length cs" "r < length cs" "q \<noteq> r" for q r
    using clusters_okD(2) [OF cs that] by (auto simp: foot_def)
  have P_S: "?P = P k - {s..<s + n}"
  proof (cases "k = j")
    case False
    then show ?thesis using S J(2) K(2) pl [OF k j] by (simp add: Diff_triv, blast)
  qed simp
  have D_P: "?P \<inter> {f..<f + n} = {}"
  proof (cases "k = i")
    case False
    then show ?thesis using D(1) K(2) pl [OF k i] unfolding P_S by blast
  qed (use D(2) P_S in blast)
  have part: "partition (fst m) ?B ?P"
  proof (cases "k = j")
    case True
    then show ?thesis using partition_diff [OF K(1), of "set run"] run(2) tiles_cover [OF run(1)] by auto
  qed (use K(1) in simp)
  have same: "fst ?m b = fst m b" if "b \<in> ?B" for b
    using partitionD(3) [OF part that] D_P by (auto simp: memmove_words)
  have "partition (fst ?m) ?B ?P" by (rule partition_cong [OF part]) (simp add: same)
  moreover have "partition (fst ?m) ?R ?D"
  proof (cases "k = i")
    case True
    have "extent (fst ?m) (x - s + f) = extent (fst m) x" if "x \<in> {s..<s + n}" for x
      using that by (auto simp: memmove_words)
    then have "tiles (fst ?m) f (map (\<lambda>h. h - s + f) run) (s + n - s + f)" by (intro tiles_shift [OF run(1) D(3)]) blast
    then have "partition (fst ?m) R' {f..<f + n}" unfolding R'_def by (intro tiles_partition) (simp add: add.commute)
    then show ?thesis using True by simp
  qed (simp add: partition_def)
  moreover have "?P \<inter> ?D = {}" using D_P by auto
  ultimately have P': "partition (fst ?m) (?B \<union> ?R) (?P \<union> ?D)" by (rule partition_union)
  have Fk: "set (F k) \<subseteq> ?B" using K(5) run(2) by auto
  have "dll (m_freeList (cs ! k)) (snd ?m) (F k)"
  proof (rule dll_cong [OF K(3)])
    fix x assume x: "x \<in> set (Head (m_freeList (cs ! k)) # F k @ [Tail (m_freeList (cs ! k))])"
    have "x \<notin> {f..<f + n}"
    proof (cases "x \<in> set (F k)")
      case True
      then show ?thesis using partitionD(3) [OF part] Fk D_P by blast
    next
      case False
      then have x: "x \<in> {Head (m_freeList (cs ! k)), Tail (m_freeList (cs ! k))}" using x by auto
      then have "x \<notin> payload (cs ! k)" using clusters_okD(1) [OF cs k] by auto
      moreover have "x \<notin> payload (cs ! i)" if "k \<noteq> i"
        using clusters_okD(2) [OF cs k i that] x by (auto simp: foot_def)
      ultimately show ?thesis using D(1) by (cases "k = i") auto
    qed
    then have "(if x \<in> {f..<f + n} then s + (x - f) else x) = x" by (rule if_not_P)
    then show "m_nextNode (snd ?m) x = m_nextNode (snd m) x \<and> m_prevNode (snd ?m) x = m_prevNode (snd m) x"
      by (simp only: memmove_words)
  qed
  moreover have "set (F k) = {b \<in> ?B \<union> ?R. b_type (fst ?m b) = DATATYPE_FREEBLOCK}"
  proof -
    have "b_type (fst ?m b) \<noteq> DATATYPE_FREEBLOCK" if "b \<in> ?R" for b
    proof -
      from that obtain h where h: "h \<in> set run" "b = h - s + f" by (auto simp: R'_def split: if_splits)
      then have "h \<in> {s..<s + n}" using tiles_bounds(2) [OF run(1)] by fastforce
      then have "fst ?m b = fst m h" using h(2) by (auto simp: memmove_words)
      then show ?thesis using h(1) run(2) J(5) by auto
    qed
    then show ?thesis using same K(5) Fk by auto
  qed
  moreover have "\<exists>n. fst ?m g = RAW_ID DATATYPE_FREEBLOCK HB_Pinned n" if "g \<in> set (F k)" for g
    using K(6) [OF that] same [OF subsetD [OF Fk that]] by metis
  moreover have "?P \<union> ?D \<subseteq> payload (cs ! k)" using K(2) D(1) by auto
  ultimately show "divided (in_memory (cs ! k) ?m) (?B \<union> ?R) (F k) (?P \<union> ?D)"
    using P' K(4) by (simp add: divided_def)
qed

section \<open>The runs\<close>

lemma suffix_tiles:
  assumes "partition ids B {p..<e}" "p \<le> e" "s \<in> B \<or> s = e"
  shows "\<exists>hs. tiles ids s hs e \<and> set hs = {b \<in> B. s \<le> b}"
proof -
  obtain hs where hs: "tiles ids p hs e" "set hs = B" using partition_tiles [OF assms(1,2)] by blast
  show ?thesis
  proof (cases "s \<in> B")
    case True
    then obtain as bs where ab: "hs = as @ s # bs" using hs(2) by (metis split_list)
    then obtain m where m: "tiles ids p as m" "tiles ids m (s # bs) e" using hs(1) by (auto simp: tiles_append)
    then have t: "m = s" "tiles ids s (s # bs) e" by auto
    have "a < s" if "a \<in> set as" for a using tiles_bounds(2) [OF m(1) that] t(1) by simp
    moreover have "s \<le> b" if "b \<in> set (s # bs)" for b using tiles_bounds(2) [OF t(2) that] by simp
    ultimately have "set (s # bs) = {b \<in> B. s \<le> b}" using hs(2) ab by (auto simp: not_le [symmetric])
    then show ?thesis using t(2) by blast
  next
    case False
    then have "s = e" using assms(3) by simp
    moreover have "{b \<in> B. e \<le> b} = {}" using partitionD(3) [OF assms(1)] by fastforce
    ultimately show ?thesis by (intro exI [of _ "[]"]) simp
  qed
qed

lemma word_extent: "(ucast (b_size (ids s)) :: u32) = of_nat (extent ids s)"
  by (simp add: unsigned_ucast_eq word_of_nat_eq_iff take_bit_nat_eq_self)

lemma word_run:
  assumes "s + x \<le> s'"
  shows "(of_nat (s' - s) :: u32) = of_nat x + of_nat (s' - (s + x))"
proof -
  have "s' - s = x + (s' - (s + x))" using assms by simp
  then show ?thesis using of_nat_add by metis
qed

lemma skip_unmovable_spec:
  assumes "tiles ids s hs e" "length hs < n"
  shows "\<exists>us rest s'. skip_unmovable n ids s e = Some s' \<and> hs = us @ rest \<and> tiles ids s us s' \<and> tiles ids s' rest e \<and>
    (\<forall>h\<in>set us. unmovable ids h) \<and> (rest \<noteq> [] \<longrightarrow> \<not> unmovable ids s')"
  using assms
proof (induction hs arbitrary: s n)
  case Nil
  then obtain k where "n = Suc k" by (cases n) auto
  then show ?case using Nil by (intro exI [of _ "[]"]) auto
next
  case (Cons h hs)
  obtain k where k: "n = Suc k" "length hs < k" using Cons.prems(2) by (cases n) auto
  have h: "h = s" "0 < extent ids s" "tiles ids (s + extent ids s) hs e" "s < e"
    using Cons.prems(1) tiles_bounds(2) [OF Cons.prems(1), of h] by auto
  show ?case
  proof (cases "unmovable ids s")
    case True
    from Cons.IH [OF h(3) k(2)] obtain us rest s' where IH: "skip_unmovable k ids (s + extent ids s) e = Some s'" "hs = us @ rest"
      "tiles ids (s + extent ids s) us s'" "tiles ids s' rest e" "\<forall>h\<in>set us. unmovable ids h" "rest \<noteq> [] \<longrightarrow> \<not> unmovable ids s'" by blast
    then show ?thesis using True h k(1) by (intro exI [of _ "h # us"] exI [of _ rest] exI [of _ s']) auto
  next
    case False
    then show ?thesis using Cons.prems(1) k(1) by (intro exI [of _ "[]"] exI [of _ "h # hs"] exI [of _ s]) auto
  qed
qed

lemma slide_run_spec:
  assumes "tiles ids s hs e" "length hs < n"
  shows "\<exists>run rest s'. slide_run n ids s e mv = Some (s', mv + of_nat (s' - s)) \<and> hs = run @ rest \<and> tiles ids s run s' \<and> tiles ids s' rest e \<and>
    (\<forall>h\<in>set run. \<not> unmovable ids h) \<and> (hs \<noteq> [] \<and> \<not> unmovable ids s \<longrightarrow> run \<noteq> [])"
  using assms
proof (induction hs arbitrary: s n mv)
  case Nil
  then obtain k where "n = Suc k" by (cases n) auto
  then show ?case using Nil by (intro exI [of _ "[]"]) auto
next
  case (Cons h hs)
  obtain k where k: "n = Suc k" "length hs < k" using Cons.prems(2) by (cases n) auto
  have h: "h = s" "0 < extent ids s" "tiles ids (s + extent ids s) hs e" "s < e"
    using Cons.prems(1) tiles_bounds(2) [OF Cons.prems(1), of h] by auto
  show ?case
  proof (cases "unmovable ids s")
    case False
    let ?mv = "mv + ucast (b_size (ids s))"
    from Cons.IH [OF h(3) k(2), of ?mv] obtain run rest s' where IH:
      "slide_run k ids (s + extent ids s) e ?mv = Some (s', ?mv + of_nat (s' - (s + extent ids s)))" "hs = run @ rest"
      "tiles ids (s + extent ids s) run s'" "tiles ids s' rest e" "\<forall>h\<in>set run. \<not> unmovable ids h" by blast
    have "s + extent ids s \<le> s'" using tiles_bounds(1) [OF IH(3)] .
    then have mv: "?mv + of_nat (s' - (s + extent ids s)) = mv + of_nat (s' - s)" by (simp only: word_extent word_run add.assoc)
    have "slide_run n ids s e mv = slide_run k ids (s + extent ids s) e ?mv" using False h(4) k(1) by (simp add: Let_def)
    then have "slide_run n ids s e mv = Some (s', mv + of_nat (s' - s))" using IH(1) mv by simp
    moreover have "tiles ids s (h # run) s'" using h(1,2) IH(3) by simp
    moreover have "\<forall>g\<in>set (h # run). \<not> unmovable ids g" using IH(5) False h(1) by simp
    ultimately show ?thesis using IH(2,4) by - (rule exI [of _ "h # run"], rule exI [of _ rest], rule exI [of _ s'], auto)
  next
    case True
    then show ?thesis using Cons.prems(1) k(1) by (intro exI [of _ "[]"] exI [of _ "h # hs"] exI [of _ s]) auto
  qed
qed

lemma fit_run_spec:
  assumes "tiles ids s hs e" "length hs < n"
  shows "\<exists>run rest s'. fit_run n ids s e mv free = Some (s', mv + of_nat (s' - s), free - of_nat (s' - s)) \<and> hs = run @ rest \<and>
    tiles ids s run s' \<and> tiles ids s' rest e \<and> (\<forall>h\<in>set run. \<not> unmovable ids h) \<and> s' - s \<le> unat free"
  using assms
proof (induction hs arbitrary: s n mv free)
  case Nil
  then obtain k where "n = Suc k" by (cases n) auto
  then show ?case using Nil by (intro exI [of _ "[]"]) auto
next
  case (Cons h hs)
  obtain k where k: "n = Suc k" "length hs < k" using Cons.prems(2) by (cases n) auto
  have h: "h = s" "0 < extent ids s" "tiles ids (s + extent ids s) hs e" "s < e"
    using Cons.prems(1) tiles_bounds(2) [OF Cons.prems(1), of h] by auto
  let ?len = "ucast (b_size (ids s)) :: u32"
  have len: "unat ?len = extent ids s" by (rule unat_extent)
  show ?case
  proof (cases "free \<noteq> 0 \<and> \<not> unmovable ids s \<and> \<not> free < ?len")
    case True
    let ?mv = "mv + ?len" and ?free = "free - ?len"
    from Cons.IH [OF h(3) k(2), of ?mv ?free] obtain run rest s' where IH:
      "fit_run k ids (s + extent ids s) e ?mv ?free = Some (s', ?mv + of_nat (s' - (s + extent ids s)), ?free - of_nat (s' - (s + extent ids s)))"
      "hs = run @ rest" "tiles ids (s + extent ids s) run s'" "tiles ids s' rest e" "\<forall>h\<in>set run. \<not> unmovable ids h"
      "s' - (s + extent ids s) \<le> unat ?free" by blast
    have le: "s + extent ids s \<le> s'" using tiles_bounds(1) [OF IH(3)] .
    have "unat ?free = unat free - extent ids s" using True len by (simp add: unat_sub not_less)
    moreover have "extent ids s \<le> unat free" using True len by (simp add: word_le_nat_alt not_less)
    ultimately have fits: "s' - s \<le> unat free" using IH(6) le by simp
    have sum: "?mv + of_nat (s' - (s + extent ids s)) = mv + of_nat (s' - s)"
      "?free - of_nat (s' - (s + extent ids s)) = free - of_nat (s' - s)" using le by (simp_all only: word_extent word_run add.assoc diff_diff_eq)
    have "fit_run n ids s e mv free = fit_run k ids (s + extent ids s) e ?mv ?free" using True h(4) k(1) by (simp add: Let_def)
    then have "fit_run n ids s e mv free = Some (s', mv + of_nat (s' - s), free - of_nat (s' - s))" using IH(1) sum by simp
    moreover have "tiles ids s (h # run) s'" using h(1,2) IH(3) by simp
    moreover have "\<forall>g\<in>set (h # run). \<not> unmovable ids g" using IH(5) True h(1) by simp
    ultimately show ?thesis using IH(2,4) fits by - (rule exI [of _ "h # run"], rule exI [of _ rest], rule exI [of _ s'], auto)
  next
    case False
    then show ?thesis using Cons.prems(1) k(1) by (intro exI [of _ "[]"] exI [of _ "h # hs"] exI [of _ s]) (auto simp: Let_def)
  qed
qed

end
