(* ===== verification/CompactionMoves.thy ===== *)
theory CompactionMoves imports CompactionSteps begin

text \<open>
  A move of the compaction: a run of blocks goes into a free region, what it leaves becomes free, and
  every block in use has the words it had before, at its place or at its new place.
\<close>

abbreviation in_use :: "(nat \<Rightarrow> nat set) \<Rightarrow> (nat \<Rightarrow> nat list) \<Rightarrow> nat \<Rightarrow> nat set" where
  "in_use B F k \<equiv> B k - set (F k)"

abbreviation list_end :: "HeapCluster list \<Rightarrow> nat \<Rightarrow> nat" where
  "list_end cs i \<equiv> Tail (m_freeList (cs ! i))"

lemma layoutD:
  assumes "layout cs m B F P" "i < length cs"
  shows "partition (fst m) (B i) (P i)" "P i \<subseteq> payload (cs ! i)" "dll (m_freeList (cs ! i)) (snd m) (F i)" "sorted_wrt (<) (F i)"
    "set (F i) = {b \<in> B i. b_type (fst m b) = DATATYPE_FREEBLOCK}"
    "f \<in> set (F i) \<Longrightarrow> \<exists>n. fst m f = RAW_ID DATATYPE_FREEBLOCK HB_Pinned n" "list_cells (fst m) (F i) \<subseteq> P i"
    "B i \<subseteq> P i" "length (F i) < 65536 \<or> \<not> clusters_ok cs"
proof -
  have d: "divided (in_memory (cs ! i) m) (B i) (F i) (P i)" using assms by (simp add: layout_def)
  note D = dividedD [OF d, unfolded within_simps]
  show "partition (fst m) (B i) (P i)" "P i \<subseteq> payload (cs ! i)" "dll (m_freeList (cs ! i)) (snd m) (F i)" "sorted_wrt (<) (F i)"
    "set (F i) = {b \<in> B i. b_type (fst m b) = DATATYPE_FREEBLOCK}"
    "f \<in> set (F i) \<Longrightarrow> \<exists>n. fst m f = RAW_ID DATATYPE_FREEBLOCK HB_Pinned n" using D by auto
  show "list_cells (fst m) (F i) \<subseteq> P i" using divided_free_list(2) [OF d] by simp
  show BP: "B i \<subseteq> P i" using partitionD(3) [OF D(1)] by blast
  have "card (set (F i)) \<le> card (payload (cs ! i))" using D(5) BP D(2) by (intro card_mono) auto
  moreover have "distinct (F i)" using D(3) by (simp add: dll_def)
  ultimately have "length (F i) \<le> m_payloadEnd (cs ! i) - m_payloadStart (cs ! i)" by (simp add: distinct_card)
  then show "length (F i) < 65536 \<or> \<not> clusters_ok cs" using clusters_okD(1) [of cs i] assms(2) by fastforce
qed

lemma agree_mono: "agree S m m' \<Longrightarrow> T \<subseteq> S \<Longrightarrow> agree T m m'"
  by (auto simp: agree_def)

lemma next_in_list:
  assumes "dll l st xs" "f \<in> set xs"
  shows "m_nextNode st f \<in> insert (Tail l) (set xs - {f})" "m_nextNode st f \<noteq> 0"
proof -
  obtain us vs where xs: "xs = us @ f # vs" using assms(2) by (meson split_list)
  note N = dll_neighbours [OF assms(1) [unfolded xs]]
  have "distinct xs" using assms(1) by (simp add: dll_def)
  then show "m_nextNode st f \<in> insert (Tail l) (set xs - {f})" using N(2,4) by (auto simp: xs)
  show "m_nextNode st f \<noteq> 0" using N(2,6) by simp
qed

lemma clusters_apart:
  assumes "clusters_ok cs" "i < length cs" "j < length cs" "i \<noteq> j"
  shows "payload (cs ! i) \<inter> payload (cs ! j) = {}"
  using clusters_okD(2) [OF assms] by (auto simp: foot_def)

lemma ends_outside:
  assumes "clusters_ok cs" "i < length cs" "j < length cs"
  shows "Head (m_freeList (cs ! i)) \<notin> payload (cs ! j)" "list_end cs i \<notin> payload (cs ! j)"
proof -
  have "Head (m_freeList (cs ! i)) \<notin> payload (cs ! j) \<and> list_end cs i \<notin> payload (cs ! j)"
    using clusters_okD(1) [OF assms(1,2)] clusters_okD(2) [OF assms] by (cases "i = j") (auto simp: foot_def)
  then show "Head (m_freeList (cs ! i)) \<notin> payload (cs ! j)" "list_end cs i \<notin> payload (cs ! j)" by simp_all
qed

text \<open>A run of blocks in use.\<close>

lemma run_apart:
  assumes L: "layout cs m B F P" and cs: "clusters_ok cs" and i: "i < length cs" and j: "j < length cs"
    and run: "tiles (fst m) s run (s + n)" "set run \<subseteq> in_use B F j"
  shows "{s..<s + n} \<subseteq> P j" "list_cells (fst m) (F i) \<inter> {s..<s + n} = {}" "set (F i) \<subseteq> list_cells (fst m) (F i)"
proof -
  note I = layoutD [OF L i] and J = layoutD [OF L j]
  note cover = tiles_cover [OF run(1)]
  show S: "{s..<s + n} \<subseteq> P j" using cover partitionD(2) [OF J(1)] run(2) by blast
  show "set (F i) \<subseteq> list_cells (fst m) (F i)" using partitionD(1) [OF I(1)] I(5) by fastforce
  show "list_cells (fst m) (F i) \<inter> {s..<s + n} = {}"
  proof (cases "i = j")
    case True
    have "x \<notin> {s..<s + n}" if "g \<in> set (F i)" "x \<in> {g..<g + extent (fst m) g}" for g x
    proof
      assume "x \<in> {s..<s + n}"
      then obtain h where "h \<in> set run" "x \<in> {h..<h + extent (fst m) h}" using cover by blast
      then show False using partitionD(4) [OF I(1), of g h x] that I(5) run(2) True by blast
    qed
    then show ?thesis by blast
  next
    case False
    then show ?thesis using clusters_apart [OF cs i j] I(2,7) J(2) S by blast
  qed
qed

lemma shifted_run:
  assumes "tiles ids s run (s + n)"
  shows "set (map (\<lambda>h. h - s + f) run) \<subseteq> {f..<f + n}"
proof
  fix x assume "x \<in> set (map (\<lambda>h. h - s + f) run)"
  then obtain h where h: "h \<in> set run" "x = h - s + f" by auto
  then have "s \<le> h" "h < s + n" using tiles_bounds(2) [OF assms h(1)] by auto
  then show "x \<in> {f..<f + n}" using h(2) by auto
qed

text \<open>The free region goes and the run is copied.\<close>

lemma unlink_memmove_spec:
  fixes m :: "(nat \<Rightarrow> BlockId) \<times> Links" and f i :: nat and F :: "nat \<Rightarrow> nat list" and B :: "nat \<Rightarrow> nat set"
  defines "F1 \<equiv> F(i := remove1 f (F i))"
  assumes L: "layout cs m B F (\<lambda>k. payload (cs ! k))" and cs: "clusters_ok cs" and i: "i < length cs" and j: "j < length cs"
    and f: "f \<in> set (F i)" and run: "tiles (fst m) s run (s + n)" "set run \<subseteq> in_use B F j"
    and D: "{f..<f + n} \<subseteq> payload (cs ! i)" "{f..<f + n} \<subseteq> {f..<f + extent (fst m) f} \<union> {s..<s + n}" "f \<le> s"
  defines "m' \<equiv> memmove_blocks f s n (fst m, Unlink f (snd m))"
  shows "\<exists>B'. layout cs m' B' F1 (\<lambda>k. (payload (cs ! k) - (if k = i then {f..<f + extent (fst m) f} else {}) - (if k = j then {s..<s + n} else {})) \<union>
      (if k = i then {f..<f + n} else {})) \<and>
    (\<forall>k. in_use B' F1 k = (in_use B F k - (if k = j then set run else {})) \<union> (if k = i then set (map (\<lambda>h. h - s + f) run) else {}))"
    "set (F1 i) = set (F i) - {f}" "list_cells (fst m') (F1 i) \<inter> {f..<f + n} = {}" "list_cells (fst m') (F1 i) \<subseteq> list_cells (fst m) (F i)"
    "\<forall>x\<in>{f..<f + n}. fst m' x = fst m (s + (x - f)) \<and> m_nextNode (snd m') x = m_nextNode (snd m) (s + (x - f)) \<and>
       m_prevNode (snd m') x = m_prevNode (snd m) (s + (x - f))"
    "agree (- ({f..<f + n} \<union> list_cells (fst m) (F i) \<union> {Head (m_freeList (cs ! i)), Tail (m_freeList (cs ! i))})) m m'"
proof -
  let ?f = "{f..<f + extent (fst m) f}" and ?S = "{s..<s + n}" and ?D = "{f..<f + n}"
  let ?ends = "{Head (m_freeList (cs ! i)), Tail (m_freeList (cs ! i))}" and ?R = "set (map (\<lambda>h. h - s + f) run)"
  note I = layoutD [OF L i] and J = layoutD [OF L j]
  define m1 where "m1 = (fst m, Unlink f (snd m))"
  define B1 where "B1 = B(i := B i - {f})"
  define P1 where "P1 = (\<lambda>k. payload (cs ! k) - (if k = i then ?f else {}))"
  note un = unlink_spec [OF L cs i f, folded m1_def F1_def B1_def]
  have P1: "(\<lambda>k. payload (cs ! k))(i := payload (cs ! i) - ?f) = P1" by (auto simp: P1_def fun_eq_iff)
  have L1: "layout cs m1 B1 F1 P1" using un(1) unfolding P1 .
  have use1: "in_use B1 F1 k = in_use B F k" for k using un(3) f by (auto simp: B1_def F1_def)
  show set1: "set (F1 i) = set (F i) - {f}" using un(3) by (simp add: F1_def)
  have ids1: "fst m1 = fst m" by (simp add: m1_def)
  have m': "m' = memmove_blocks f s n m1" by (simp add: m'_def m1_def)
  have run1: "tiles (fst m1) s run (s + n)" "set run \<subseteq> in_use B1 F1 j" using run use1 ids1 by simp_all
  have D1: "?D \<inter> (P1 i - ?S) = {}" using D(2) by (auto simp: P1_def)
  define B2 where "B2 = (\<lambda>k. (B1 k - (if k = j then set run else {})) \<union> (if k = i then ?R else {}))"
  define P2 where "P2 = (\<lambda>k. (P1 k - (if k = j then ?S else {})) \<union> (if k = i then ?D else {}))"
  have L2: "layout cs m' B2 F1 P2"
    using memmove_spec [OF L1 cs i j run1 D(1) D1 D(3)] unfolding m' B2_def P2_def .
  note A1 = run_apart [OF L1 cs i j run1] and A = run_apart [OF L cs i j run]
  have apart: "list_cells (fst m1) (F1 i) \<inter> ?D = {}" using layoutD(7) [OF L1 i] A1(2) D1 by blast
  then have out: "g \<notin> ?D" if "g \<in> set (F1 i)" for g using A1(3) that by blast
  have "fst m' g = fst m1 g" if "g \<in> set (F1 i)" for g using out [OF that] by (auto simp: m' memmove_words)
  then have cells: "list_cells (fst m') (F1 i) = list_cells (fst m1) (F1 i)" by auto
  then show "list_cells (fst m') (F1 i) \<inter> ?D = {}" using apart by simp
  show "list_cells (fst m') (F1 i) \<subseteq> list_cells (fst m) (F i)" unfolding cells ids1 using set1 by auto
  have "in_use B2 F1 k = (in_use B F k - (if k = j then set run else {})) \<union> (if k = i then ?R else {})" for k
  proof (cases "k = i")
    case True
    have "set (F1 i) \<inter> ?R = {}" using out shifted_run [OF run(1), of f] by blast
    then show ?thesis using use1 [of k] True by (auto simp: B2_def)
  next
    case False
    then show ?thesis using use1 [of k] by (auto simp: B2_def)
  qed
  then show "\<exists>B'. layout cs m' B' F1 (\<lambda>k. (payload (cs ! k) - (if k = i then ?f else {}) - (if k = j then ?S else {})) \<union> (if k = i then ?D else {})) \<and>
    (\<forall>k. in_use B' F1 k = (in_use B F k - (if k = j then set run else {})) \<union> (if k = i then ?R else {}))"
    using L2 unfolding P2_def P1_def by blast
  show "\<forall>x\<in>?D. fst m' x = fst m (s + (x - f)) \<and> m_nextNode (snd m') x = m_nextNode (snd m) (s + (x - f)) \<and>
       m_prevNode (snd m') x = m_prevNode (snd m) (s + (x - f))"
  proof
    fix x assume x: "x \<in> ?D"
    then have S: "s + (x - f) \<in> ?S" by auto
    then have "s + (x - f) \<notin> set (F i) \<union> ?ends"
      using A ends_outside [OF cs i j] by auto
    then have "m_nextNode (snd m1) (s + (x - f)) = m_nextNode (snd m) (s + (x - f)) \<and> m_prevNode (snd m1) (s + (x - f)) = m_prevNode (snd m) (s + (x - f))"
      using un(2) by (simp add: agree_def)
    then show "fst m' x = fst m (s + (x - f)) \<and> m_nextNode (snd m') x = m_nextNode (snd m) (s + (x - f)) \<and>
       m_prevNode (snd m') x = m_prevNode (snd m) (s + (x - f))" using x by (simp add: m' memmove_words ids1)
  qed
  have "agree (- (?D \<union> list_cells (fst m) (F i) \<union> ?ends)) m m1" using un(2) A(3) unfolding agree_def by blast
  moreover have "agree (- (?D \<union> list_cells (fst m) (F i) \<union> ?ends)) m1 m'"
    by (auto simp: agree_def m' memmove_words)
  ultimately show "agree (- (?D \<union> list_cells (fst m) (F i) \<union> ?ends)) m m'" by (rule agree_trans)
qed

lemma insert_use:
  assumes "set fs' \<inter> (B i - set (F i)) = {}"
  shows "in_use (B(i := B i - set (F i) \<union> set fs')) (F(i := fs')) k = in_use B F k"
  using assms by auto

lemma fill_spec:
  fixes st :: Compaction
  defines "f \<equiv> freeRegion st" and "s \<equiv> currentSource st" and "i \<equiv> freeRegion_hc st" and "m \<equiv> (cp_ids st, cp_links st)"
  assumes L: "layout cs m B F (\<lambda>k. payload (cs ! k))" and cs: "clusters_ok cs" and i: "i < length cs" and j: "j < length cs"
    and f: "f \<in> set (F i)" and n: "unat move = n" and run: "tiles (fst m) s run (s + n)" "set run \<subseteq> in_use B F j"
    and D: "{f..<f + n} \<subseteq> payload (cs ! i)" "{f..<f + n} \<subseteq> {f..<f + extent (fst m) f} \<union> {s..<s + n}" "f \<le> s"
    and H: "{f + n..<f + n + unat size'} \<subseteq> payload (cs ! i)" "{f + n..<f + n + unat size'} \<subseteq> {f..<f + extent (fst m) f} \<union> {s..<s + n}"
    and fuel: "65536 \<le> fuel"
  shows "\<exists>m' free' B' F'. fill_region fuel cs move size' st = Some (m', free') \<and>
    layout cs m' B' F' (\<lambda>k. (payload (cs ! k) - (if k = i then {f..<f + extent (fst m) f} else {}) - (if k = j then {s..<s + n} else {})) \<union>
      (if k = i then {f..<f + n + unat size'} else {})) \<and>
    (\<forall>k. in_use B' F' k = (in_use B F k - (if k = j then set run else {})) \<union> (if k = i then set (map (\<lambda>h. h - s + f) run) else {})) \<and>
    free' \<in> insert (list_end cs i) (set (F' i)) \<and>
    (\<forall>x\<in>{f..<f + n}. fst m' x = fst m (s + (x - f)) \<and> m_nextNode (snd m') x = m_nextNode (snd m) (s + (x - f)) \<and>
       m_prevNode (snd m') x = m_prevNode (snd m) (s + (x - f))) \<and>
    agree (- ({f..<f + n + unat size'} \<union> list_cells (fst m) (F i) \<union> {Head (m_freeList (cs ! i)), Tail (m_freeList (cs ! i))})) m m'"
proof -
  let ?f = "{f..<f + extent (fst m) f}" and ?S = "{s..<s + n}" and ?D = "{f..<f + n}" and ?H = "{f + n..<f + n + unat size'}"
  let ?ends = "{Head (m_freeList (cs ! i)), Tail (m_freeList (cs ! i))}" and ?R = "set (map (\<lambda>h. h - s + f) run)"
  let ?P = "\<lambda>A k. (payload (cs ! k) - (if k = i then ?f else {}) - (if k = j then ?S else {})) \<union> (if k = i then A else {})"
  let ?use = "\<lambda>k. (in_use B F k - (if k = j then set run else {})) \<union> (if k = i then ?R else {})"
  let ?words = "\<lambda>m'. \<forall>x\<in>?D. fst m' x = fst m (s + (x - f)) \<and> m_nextNode (snd m') x = m_nextNode (snd m) (s + (x - f)) \<and>
       m_prevNode (snd m') x = m_prevNode (snd m) (s + (x - f))"
  define m2 where "m2 = memmove_blocks f s n (fst m, Unlink f (snd m))"
  define F1 where "F1 = F(i := remove1 f (F i))"
  note U = unlink_memmove_spec [OF L cs i j f run D, folded m2_def F1_def]
  from U(1) obtain B2 where L2: "layout cs m2 B2 F1 (?P ?D)" and use2: "\<And>k. in_use B2 F1 k = ?use k" by blast
  have fill: "fill_region fuel cs move size' st =
      (if size' \<noteq> 0 then insert_block fuel cs i (f + n) size' m2 else Some (m2, m_nextNode (snd m) f))"
    by (simp add: fill_region_def f_def s_def i_def m_def m2_def n Let_def)
  have DH: "?D \<union> ?H = {f..<f + n + unat size'}" by auto
  show ?thesis
  proof (cases "size' = 0")
    case True
    have "m_nextNode (snd m) f \<in> insert (list_end cs i) (set (F1 i))"
      using next_in_list(1) [OF layoutD(3) [OF L i] f] U(2) by simp
    moreover have e: "{f..<f + n + unat size'} = ?D" using True by simp
    ultimately show ?thesis unfolding e using fill True L2 use2 U(5,6)
      by (intro exI [of _ m2] exI [of _ "m_nextNode (snd m) f"] exI [of _ B2] exI [of _ F1]) simp
  next
    case False
    have hole: "?H \<inter> ?P ?D i = {}"
    proof (cases "i = j")
      case True
      then show ?thesis using H(2) by auto
    next
      case False
      have "?S \<subseteq> payload (cs ! j)" using run_apart(1) [OF L cs i j run] .
      then have "?H \<inter> ?S = {}" using clusters_apart [OF cs i j False] H(1) by blast
      then show ?thesis using H(2) False by auto
    qed
    have pos: "0 < unat size'" using False by (simp add: unat_gt_0)
    have len: "length (F1 i) < fuel" using layoutD(9) [OF L2 i] cs fuel by auto
    from insert_block_spec [OF L2 cs i len pos H(1) hole] obtain m' r fs' where
      R: "insert_block fuel cs i (f + n) size' m2 = Some (m', r)"
        "layout cs m' (B2(i := in_use B2 F1 i \<union> set fs')) (F1(i := fs')) ((?P ?D)(i := ?P ?D i \<union> ?H))"
        "r \<in> set fs'" "set fs' \<inter> in_use B2 F1 i = {}"
        "agree (- (list_cells (fst m2) (F1 i) \<union> ?H \<union> ?ends)) m2 m'"
      by (elim exE conjE) (rule that)
    have P: "(?P ?D)(i := ?P ?D i \<union> ?H) = ?P {f..<f + n + unat size'}" unfolding DH [symmetric] by (auto simp: fun_eq_iff)
    have use: "in_use (B2(i := in_use B2 F1 i \<union> set fs')) (F1(i := fs')) k = ?use k" for k
      unfolding use2 [of k, symmetric] by (rule insert_use) (rule R(4))
    have "?D \<subseteq> - (list_cells (fst m2) (F1 i) \<union> ?H \<union> ?ends)" using U(3) D(1) ends_outside [OF cs i i] by auto
    then have eq: "fst m' x = fst m2 x \<and> m_nextNode (snd m') x = m_nextNode (snd m2) x \<and> m_prevNode (snd m') x = m_prevNode (snd m2) x"
      if "x \<in> ?D" for x using that R(5) unfolding agree_def by blast
    have "?words m'"
    proof
      fix x assume x: "x \<in> ?D"
      show "fst m' x = fst m (s + (x - f)) \<and> m_nextNode (snd m') x = m_nextNode (snd m) (s + (x - f)) \<and>
          m_prevNode (snd m') x = m_prevNode (snd m) (s + (x - f))"
        using eq [OF x] bspec [OF U(5) x] by (simp only: simp_thms)
    qed
    moreover have "agree (- ({f..<f + n + unat size'} \<union> list_cells (fst m) (F i) \<union> ?ends)) m m'"
    proof (rule agree_trans)
      show "agree (- ({f..<f + n + unat size'} \<union> list_cells (fst m) (F i) \<union> ?ends)) m m2" using U(6) unfolding DH [symmetric] agree_def by blast
      show "agree (- ({f..<f + n + unat size'} \<union> list_cells (fst m) (F i) \<union> ?ends)) m2 m'"
        using R(5) U(4) unfolding DH [symmetric] agree_def by blast
    qed
    moreover have "layout cs m' (B2(i := in_use B2 F1 i \<union> set fs')) (F1(i := fs')) (?P {f..<f + n + unat size'})" using R(2) unfolding P .
    ultimately show ?thesis using fill False R(1,3) use
      by (intro exI [of _ m'] exI [of _ r] exI [of _ "B2(i := in_use B2 F1 i \<union> set fs')"] exI [of _ "F1(i := fs')"]) simp
  qed
qed

section \<open>The source becomes free\<close>

lemma free_source_spec:
  fixes st :: Compaction
  defines "s \<equiv> currentSource st" and "j \<equiv> currentSource_hc st"
  assumes L: "layout cs m B F P" and cs: "clusters_ok cs" and i: "i < length cs" and j: "j < length cs"
    and n: "unat move = n" "0 < n" and S: "{s..<s + n} \<subseteq> payload (cs ! j)" "{s..<s + n} \<inter> P j = {}"
    and free: "free \<in> insert (list_end cs i) (set (F i))" and fuel: "65536 \<le> fuel"
  shows "\<exists>m' free' B' F'. free_source fuel cs move st (m, free) = Some (m', free') \<and> layout cs m' B' F' (P(j := P j \<union> {s..<s + n})) \<and>
    (\<forall>k. in_use B' F' k = in_use B F k) \<and> free' \<in> insert (list_end cs i) (set (F' i)) \<and>
    agree (- (list_cells (fst m) (F j) \<union> {s..<s + n} \<union> {Head (m_freeList (cs ! j)), Tail (m_freeList (cs ! j))})) m m'"
proof -
  let ?S = "{s..<s + n}"
  have pos: "0 < unat move" using n by simp
  have len: "length (F j) < fuel" using layoutD(9) [OF L j] cs fuel by auto
  from insert_block_spec [OF L cs j len pos S [folded n(1)], unfolded n(1)] obtain m' r fs' where
    R: "insert_block fuel cs j s move m = Some (m', r)" "layout cs m' (B(j := in_use B F j \<union> set fs')) (F(j := fs')) (P(j := P j \<union> ?S))"
      "r \<in> set fs'" "set fs' \<subseteq> insert r (set (F j))" "\<forall>x. x \<noteq> r \<longrightarrow> fst m' x = fst m x" "set fs' \<inter> in_use B F j = {}"
      "agree (- (list_cells (fst m) (F j) \<union> ?S \<union> {Head (m_freeList (cs ! j)), Tail (m_freeList (cs ! j))})) m m'"
    by (elim exE conjE) (rule that)
  let ?B = "B(j := in_use B F j \<union> set fs')" and ?F = "F(j := fs')"
  let ?free = "if r < free \<and> free < r + extent (fst m') r then r else free"
  note R2 = layoutD [OF R(2) j] and J = layoutD [OF L j] and I = layoutD [OF L i]
  have r: "r \<in> ?B j" using R(3) by simp
  have r_cells: "{r..<r + extent (fst m') r} \<subseteq> payload (cs ! j)" using partitionD(2) [OF R2(1) r] R2(2) by blast
  have "?free \<in> insert (list_end cs i) (set (?F i))"
  proof (cases "free = list_end cs i")
    case True
    then have "free \<notin> payload (cs ! j)" using ends_outside(2) [OF cs i j] by simp
    then have "free \<notin> {r..<r + extent (fst m') r}" using r_cells by blast
    then show ?thesis using True by auto
  next
    case False
    then have fF: "free \<in> set (F i)" using free by simp
    show ?thesis
    proof (cases "i = j")
      case False
      have "free \<in> payload (cs ! i)" using fF I(2,5,8) by blast
      then have "free \<notin> {r..<r + extent (fst m') r}" using r_cells clusters_apart [OF cs i j False] by blast
      then show ?thesis using fF False by auto
    next
      case True
      have fB: "free \<in> B j" using fF J(5) True by blast
      then have "free \<in> P j" using J(8) by blast
      then have "free \<in> (P(j := P j \<union> ?S)) j" by simp
      then obtain g where g: "g \<in> ?B j" "free \<in> {g..<g + extent (fst m') g}" using partitionD(5) [OF R2(1)] by blast
      have self: "free \<in> {free..<free + extent (fst m) free}" using partitionD(1) [OF J(1) fB] by simp
      show ?thesis
      proof (cases "g = r")
        case True
        then show ?thesis using g(2) R(3) \<open>i = j\<close> by auto
      next
        case False
        then have same: "fst m' g = fst m g" using R(5) by blast
        have "g \<in> B j" using g(1) R(4) False J(5) by auto
        then have "g = free" using partitionD(4) [OF J(1) _ fB, of g free] g(2) self same by auto
        then have "free \<in> set fs'" using g(1) fF True R(6) by auto
        moreover have "free \<notin> {r..<r + extent (fst m') r}"
          using partitionD(4) [OF R2(1) g(1) r, of free] g(2) False by blast
        ultimately show ?thesis using True by auto
      qed
    qed
  qed
  moreover have "free_source fuel cs move st (m, free) = Some (m', ?free)"
    using R(1) by (simp add: free_source_def s_def j_def)
  moreover have "in_use ?B ?F k = in_use B F k" for k by (rule insert_use) (rule R(6))
  ultimately show ?thesis using R(2,7) by blast
qed

text \<open>A block in use lies apart from the lists of free blocks.\<close>

lemma use_apart:
  assumes L: "layout cs m B F P" and cs: "clusters_ok cs" and i: "i < length cs" and k: "k < length cs" and h: "h \<in> in_use B F k"
  shows "{h..<h + extent (fst m) h} \<inter> list_cells (fst m) (F i) = {}"
    "{h..<h + extent (fst m) h} \<inter> {Head (m_freeList (cs ! i)), Tail (m_freeList (cs ! i))} = {}"
    "{h..<h + extent (fst m) h} \<subseteq> P k"
proof -
  have t: "tiles (fst m) h [h] (h + extent (fst m) h)" using partitionD(1) [OF layoutD(1) [OF L k]] h by simp
  note A = run_apart [OF L cs i k t]
  show "{h..<h + extent (fst m) h} \<inter> list_cells (fst m) (F i) = {}" using A(2) h by auto
  show P: "{h..<h + extent (fst m) h} \<subseteq> P k" using A(1) h by auto
  show "{h..<h + extent (fst m) h} \<inter> {Head (m_freeList (cs ! i)), Tail (m_freeList (cs ! i))} = {}"
    using P layoutD(2) [OF L k] ends_outside [OF cs i k] by blast
qed

text \<open>Every other block in use lies apart from a run.\<close>

lemma run_off:
  assumes L: "layout cs m B F (\<lambda>k. payload (cs ! k))" and cs: "clusters_ok cs" and j: "j < length cs"
    and run: "tiles (fst m) s run (s + n)" "set run \<subseteq> in_use B F j"
    and k: "k < length cs" and h: "h \<in> in_use B F k" "h \<notin> set run"
  shows "{h..<h + extent (fst m) h} \<inter> {s..<s + n} = {}"
proof -
  note U = use_apart [OF L cs j k h(1)]
  have S: "{s..<s + n} \<subseteq> payload (cs ! j)" by (rule run_apart(1) [OF L cs j j run])
  have "x \<notin> {s..<s + n}" if x: "x \<in> {h..<h + extent (fst m) h}" for x
  proof
    assume S': "x \<in> {s..<s + n}"
    then obtain g where g: "g \<in> set run" "x \<in> {g..<g + extent (fst m) g}" using tiles_cover [OF run(1)] by blast
    have "k = j" using clusters_apart [OF cs k j] U(3) x S' S by blast
    then show False using partitionD(4) [OF layoutD(1) [OF L j], of h g x] h g x run(2) by blast
  qed
  then show ?thesis by blast
qed

section \<open>A move\<close>

text \<open>The run slides down over the region it touches, or it fits into the region and leaves its own place.\<close>

definition placed :: "(nat \<Rightarrow> BlockId) \<Rightarrow> bool \<Rightarrow> nat \<Rightarrow> nat \<Rightarrow> nat \<Rightarrow> nat \<Rightarrow> nat \<Rightarrow> u32 \<Rightarrow> bool" where
  "placed ids slide i j f s n size' \<longleftrightarrow>
     (if slide then i = j \<and> s = f + extent ids f \<and> unat size' = extent ids f
      else f \<le> s \<and> n \<le> extent ids f \<and> unat size' = extent ids f - n)"

lemma placed_cells:
  assumes "placed (fst m) slide i j f s n size'" and L: "layout cs m B F (\<lambda>k. payload (cs ! k))" and i: "i < length cs" and f: "f \<in> set (F i)"
    and S: "{s..<s + n} \<subseteq> payload (cs ! j)"
  shows "f \<le> s" "{f..<f + n} \<subseteq> {f..<f + extent (fst m) f} \<union> {s..<s + n}" "{f..<f + n} \<subseteq> payload (cs ! i)"
    "{f + n..<f + n + unat size'} \<subseteq> {f..<f + extent (fst m) f} \<union> {s..<s + n}" "{f + n..<f + n + unat size'} \<subseteq> payload (cs ! i)"
    "{f..<f + n + unat size'} = {f..<f + extent (fst m) f} \<union> (if slide then {s..<s + n} else {})"
proof -
  have "f \<in> B i" using layoutD(5) [OF L i] f by simp
  then have fp: "{f..<f + extent (fst m) f} \<subseteq> payload (cs ! i)" using partitionD(2) [OF layoutD(1) [OF L i]] by blast
  show "f \<le> s" "{f..<f + n} \<subseteq> {f..<f + extent (fst m) f} \<union> {s..<s + n}"
    "{f + n..<f + n + unat size'} \<subseteq> {f..<f + extent (fst m) f} \<union> {s..<s + n}"
    "{f..<f + n + unat size'} = {f..<f + extent (fst m) f} \<union> (if slide then {s..<s + n} else {})"
    using assms(1) by (auto simp: placed_def split: if_splits)
  then show "{f..<f + n} \<subseteq> payload (cs ! i)" "{f + n..<f + n + unat size'} \<subseteq> payload (cs ! i)"
    using fp S assms(1) by (cases slide; auto simp: placed_def)+
qed

lemma move_spec:
  fixes st :: Compaction
  defines "f \<equiv> freeRegion st" and "s \<equiv> currentSource st" and "i \<equiv> freeRegion_hc st" and "j \<equiv> currentSource_hc st" and "m \<equiv> (cp_ids st, cp_links st)"
  assumes L: "layout cs m B F (\<lambda>k. payload (cs ! k))" and cs: "clusters_ok cs" and i: "i < length cs" and j: "j < length cs"
    and f: "f \<in> set (F i)" and n: "unat move = n" "0 < n" and run: "tiles (fst m) s run (s + n)" "set run \<subseteq> in_use B F j"
    and place: "placed (fst m) slide i j f s n size'" and fuel: "65536 \<le> fuel"
  shows "\<exists>m' free' B' F'. move_blocks fuel cs slide move size' st = Some (m', free') \<and> layout cs m' B' F' (\<lambda>k. payload (cs ! k)) \<and>
    (\<forall>k. in_use B' F' k = (in_use B F k - (if k = j then set run else {})) \<union> (if k = i then set (map (\<lambda>h. h - s + f) run) else {})) \<and>
    free' \<in> insert (list_end cs i) (set (F' i)) \<and>
    (\<forall>x\<in>{f..<f + n}. fst m' x = fst m (s + (x - f)) \<and> m_nextNode (snd m') x = m_nextNode (snd m) (s + (x - f)) \<and>
       m_prevNode (snd m') x = m_prevNode (snd m) (s + (x - f))) \<and>
    (\<forall>k<length cs. \<forall>h\<in>in_use B F k - set run. agree {h..<h + extent (fst m) h} m m' \<and> h \<notin> {f..<f + n})"
proof -
  let ?f = "{f..<f + extent (fst m) f}" and ?S = "{s..<s + n}" and ?D = "{f..<f + n}"
  let ?use = "\<lambda>k. (in_use B F k - (if k = j then set run else {})) \<union> (if k = i then set (map (\<lambda>h. h - s + f) run) else {})"
  have S: "?S \<subseteq> payload (cs ! j)" by (rule run_apart(1) [OF L cs i j run])
  note C = placed_cells [OF place L i f S]
  from fill_spec [of cs st B F j move n run size' fuel, folded f_def s_def i_def m_def, OF L cs i j f n(1) run C(3,2,1,5,4) fuel]
  obtain m3 free3 B3 F3 where
    R: "fill_region fuel cs move size' st = Some (m3, free3)"
      "layout cs m3 B3 F3 (\<lambda>k. (payload (cs ! k) - (if k = i then ?f else {}) - (if k = j then ?S else {})) \<union> (if k = i then {f..<f + n + unat size'} else {}))"
      "\<forall>k. in_use B3 F3 k = ?use k" "free3 \<in> insert (list_end cs i) (set (F3 i))"
      "\<forall>x\<in>?D. fst m3 x = fst m (s + (x - f)) \<and> m_nextNode (snd m3) x = m_nextNode (snd m) (s + (x - f)) \<and>
         m_prevNode (snd m3) x = m_prevNode (snd m) (s + (x - f))"
      "agree (- ({f..<f + n + unat size'} \<union> list_cells (fst m) (F i) \<union> {Head (m_freeList (cs ! i)), Tail (m_freeList (cs ! i))})) m m3"
    by (elim exE conjE) (rule that)
  have fcells: "?f \<subseteq> list_cells (fst m) (F i)" using f by blast
  note off_S = run_off [OF L cs j run]
  have off_D: "h \<notin> ?D" if k: "k < length cs" and h: "h \<in> in_use B F k - set run" for k h
  proof -
    have h': "h \<in> in_use B F k" "h \<notin> set run" using h by simp_all
    have self: "h \<in> {h..<h + extent (fst m) h}" using partitionD(1) [OF layoutD(1) [OF L k]] h by simp
    have "h \<notin> ?S" using off_S [OF k h'] self by blast
    moreover have "h \<notin> ?f" using use_apart(1) [OF L cs i k h'(1)] self fcells by blast
    ultimately show ?thesis using C(2) by blast
  qed
  have keep3: "agree {h..<h + extent (fst m) h} m m3" if k: "k < length cs" and h: "h \<in> in_use B F k" "h \<notin> set run" for k h
  proof -
    note U = use_apart [OF L cs i k h(1)]
    have "{h..<h + extent (fst m) h} \<subseteq> - ({f..<f + n + unat size'} \<union> list_cells (fst m) (F i) \<union> {Head (m_freeList (cs ! i)), Tail (m_freeList (cs ! i))})"
      using U(1,2) fcells off_S [OF k h] unfolding C(6) by (auto split: if_splits)
    then show ?thesis using R(6) unfolding agree_def by blast
  qed
  show ?thesis
  proof (cases slide)
    case True
    have "(payload (cs ! k) - (if k = i then ?f else {}) - (if k = j then ?S else {})) \<union> (if k = i then {f..<f + n + unat size'} else {}) = payload (cs ! k)" for k
      unfolding C(6) using True place fcells S layoutD(2,7) [OF L i] by (auto simp: placed_def)
    then have "layout cs m3 B3 F3 (\<lambda>k. payload (cs ! k))" using R(2) by simp
    moreover have "move_blocks fuel cs slide move size' st = Some (m3, free3)" using R(1) True by (simp add: move_blocks_def)
    ultimately show ?thesis using R(3,4,5) keep3 off_D by (intro exI [of _ m3] exI [of _ free3] exI [of _ B3] exI [of _ F3]) blast
  next
    case False
    let ?P = "\<lambda>k. (payload (cs ! k) - (if k = i then ?f else {}) - (if k = j then ?S else {})) \<union> (if k = i then {f..<f + n + unat size'} else {})"
    have fill: "{f..<f + n + unat size'} = ?f" using C(6) False by simp
    have fS: "?f \<inter> ?S = {}" using run_apart(2) [OF L cs i j run] fcells by blast
    have hole: "?S \<inter> ?P j = {}" unfolding fill using fS by auto
    from free_source_spec [of cs m3 B3 F3 ?P i st move n free3 fuel, folded s_def j_def, OF R(2) cs i j n S hole R(4) fuel]
    obtain m' free' B' F' where
      T: "free_source fuel cs move st (m3, free3) = Some (m', free')" "layout cs m' B' F' (?P(j := ?P j \<union> ?S))"
        "\<forall>k. in_use B' F' k = in_use B3 F3 k" "free' \<in> insert (list_end cs i) (set (F' i))"
        "agree (- (list_cells (fst m3) (F3 j) \<union> ?S \<union> {Head (m_freeList (cs ! j)), Tail (m_freeList (cs ! j))})) m3 m'"
      by (elim exE conjE) (rule that)
    have "(?P(j := ?P j \<union> ?S)) k = payload (cs ! k)" for k
      unfolding fill using S fcells layoutD(7) [OF L i] by auto
    then have whole: "?P(j := ?P j \<union> ?S) = (\<lambda>k. payload (cs ! k))" by (rule ext)
    have "layout cs m' B' F' (\<lambda>k. payload (cs ! k))" using T(2) unfolding whole .
    note whole' = this
    have run': "move_blocks fuel cs slide move size' st = Some (m', free')" using R(1) T(1) False by (simp add: move_blocks_def)
    have use: "in_use B' F' k = ?use k" for k by (rule trans [OF spec [OF T(3)] spec [OF R(3)]])
    have keep4: "agree {g..<g + extent (fst m3) g} m3 m'" if "k < length cs" "g \<in> in_use B3 F3 k" "{g..<g + extent (fst m3) g} \<inter> ?S = {}" for k g
      by (rule agree_mono [OF T(5)]) (use use_apart(1,2) [OF R(2) cs j that(1,2)] that(3) in auto)
    have words: "fst m' x = fst m3 x \<and> m_nextNode (snd m') x = m_nextNode (snd m3) x \<and> m_prevNode (snd m') x = m_prevNode (snd m3) x"
      if x: "x \<in> ?D" for x
    proof -
      have "s + (x - f) \<in> ?S" using x by auto
      then obtain h where h: "h \<in> set run" "s + (x - f) \<in> {h..<h + extent (fst m) h}" using tiles_cover [OF run(1)] by blast
      define g where "g = h - s + f"
      have hs: "s \<le> h" "h + extent (fst m) h \<le> s + n" "0 < extent (fst m) h" using tiles_bounds(2) [OF run(1) h(1)] by simp_all
      then have gD: "g \<in> ?D" "s + (g - f) = h" by (auto simp: g_def)
      then have ext: "extent (fst m3) g = extent (fst m) h" using R(5) by simp
      have sub: "{g..<g + extent (fst m3) g} \<subseteq> ?D" using hs unfolding ext by (auto simp: g_def)
      have "?D \<subseteq> ?f" using place False by (auto simp: placed_def)
      then have off: "{g..<g + extent (fst m3) g} \<inter> ?S = {}" using sub fS by blast
      have "g \<in> in_use B3 F3 i" using R(3) h(1) by (auto simp: g_def)
      then have "agree {g..<g + extent (fst m3) g} m3 m'" by (rule keep4 [OF i _ off])
      moreover have "x \<in> {g..<g + extent (fst m3) g}" using h(2) x hs(1) unfolding ext by (auto simp: g_def)
      ultimately show ?thesis by (simp add: agree_def)
    qed
    have "agree {h..<h + extent (fst m) h} m m'" if k: "k < length cs" and h: "h \<in> in_use B F k - set run" for k h
    proof -
      have a: "agree {h..<h + extent (fst m) h} m m3" using keep3 [OF k] h by blast
      have pos: "0 < extent (fst m) h" using partitionD(1) [OF layoutD(1) [OF L k]] h by blast
      then have ext: "extent (fst m3) h = extent (fst m) h" using a by (simp add: agree_def)
      have "h \<in> in_use B3 F3 k" using R(3) h by auto
      then have "agree {h..<h + extent (fst m3) h} m3 m'" by (rule keep4 [OF k]) (use off_S [OF k] h ext in auto)
      then show ?thesis unfolding ext by (rule agree_trans [OF a])
    qed
    moreover have "\<forall>x\<in>?D. fst m' x = fst m (s + (x - f)) \<and> m_nextNode (snd m') x = m_nextNode (snd m) (s + (x - f)) \<and>
         m_prevNode (snd m') x = m_prevNode (snd m) (s + (x - f))"
    proof
      fix x assume x: "x \<in> ?D"
      show "fst m' x = fst m (s + (x - f)) \<and> m_nextNode (snd m') x = m_nextNode (snd m) (s + (x - f)) \<and>
         m_prevNode (snd m') x = m_prevNode (snd m) (s + (x - f))"
        using words [OF x] bspec [OF R(5) x] by (simp only: simp_thms)
    qed
    ultimately show ?thesis using T(4) use whole' run' off_D by blast
  qed
qed

end
