(* ===== verification/CompactionLoop.thy ===== *)
theory CompactionLoop imports CompactionMoves begin

text \<open>
  The loop of the compaction: what it keeps while it runs, and why it ends. The regions that have moved
  are followed as triples of a start, a length and a destination.
\<close>

section \<open>Regions that moved\<close>

type_synonym moved = "nat \<times> nat \<times> nat"

definition inside :: "nat \<Rightarrow> moved \<Rightarrow> bool" where
  "inside x = (\<lambda>(s, n, d). s \<le> x \<and> x < s + n)"

definition relocate :: "moved list \<Rightarrow> nat \<Rightarrow> nat" where
  "relocate gs x = (case find (inside x) gs of Some (s, n, d) \<Rightarrow> d + (x - s) | None \<Rightarrow> x)"

text \<open>In order, each moved backward, all before \<open>t\<close>.\<close>

definition moves_ok :: "moved list \<Rightarrow> nat \<Rightarrow> bool" where
  "moves_ok gs t \<longleftrightarrow> sorted_wrt (\<lambda>(s, n, d) (s', n', d'). s + n \<le> s') gs \<and> (\<forall>(s, n, d)\<in>set gs. 0 < n \<and> d < s \<and> s + n \<le> t)"

lemma relocate_Nil [simp]: "relocate [] x = x"
  by (simp add: relocate_def)

lemma relocate_append: "relocate (gs @ hs) x = (if \<exists>g\<in>set gs. inside x g then relocate gs x else relocate hs x)"
proof (induction gs)
  case (Cons g gs)
  then show ?case by (auto simp: relocate_def)
qed (simp add: relocate_def)

lemma relocate_single: "relocate [(s, n, d)] x = (if x \<in> {s..<s + n} then d + (x - s) else x)"
  by (simp add: relocate_def inside_def)

lemma relocate_inside:
  assumes "moves_ok gs t" "\<exists>g\<in>set gs. inside x g"
  shows "relocate gs x < x" "x < t"
proof -
  obtain g where g: "find (inside x) gs = Some g" using assms(2) by (metis find_None_iff not_None_eq)
  obtain s n d where sn: "g = (s, n, d)" by (cases g) auto
  have "inside x g" "g \<in> set gs" using g by (auto simp: find_Some_iff)
  then have "s \<le> x" "x < s + n" "d < s" "s + n \<le> t" using assms(1) sn by (auto simp: inside_def moves_ok_def)
  then show "relocate gs x < x" "x < t" using g sn by (simp_all add: relocate_def)
qed

lemma relocate_outside: "\<not> (\<exists>g\<in>set gs. inside x g) \<Longrightarrow> relocate gs x = x"
  by (simp add: relocate_def find_None_iff [THEN iffD2])

lemma relocate_beyond: "moves_ok gs t \<Longrightarrow> t \<le> x \<Longrightarrow> relocate gs x = x"
  using relocate_inside(2) relocate_outside by (meson not_less)

lemma relocate_add:
  assumes "moves_ok gs t" "t \<le> s"
  shows "relocate (gs @ [(s, n, d)]) x = (if x \<in> {s..<s + n} then d + (x - s) else relocate gs x)"
  using relocate_inside(2) [OF assms(1)] relocate_outside [of gs x] assms(2)
  by (force simp: relocate_append relocate_single)

lemma moves_ok_add: "moves_ok gs t \<Longrightarrow> t \<le> s \<Longrightarrow> 0 < n \<Longrightarrow> d < s \<Longrightarrow> s + n \<le> t' \<Longrightarrow> moves_ok (gs @ [(s, n, d)]) t'"
  by (fastforce simp: moves_ok_def sorted_wrt_append)

lemma moves_ok_mono: "moves_ok gs t \<Longrightarrow> t \<le> t' \<Longrightarrow> moves_ok gs t'"
  by (fastforce simp: moves_ok_def)

section \<open>The invariant\<close>

abbreviation memory :: "Compaction \<Rightarrow> (nat \<Rightarrow> BlockId) \<times> Links" where
  "memory st \<equiv> (cp_ids st, cp_links st)"

definition all_use :: "HeapCluster list \<Rightarrow> (nat \<Rightarrow> nat set) \<Rightarrow> (nat \<Rightarrow> nat list) \<Rightarrow> nat set" where
  "all_use cs B F = (\<Union>k\<in>{..<length cs}. in_use B F k)"

text \<open>The blocks \<open>U\<close> of the memory \<open>m0\<close> are where the regions say, with the words they had.\<close>

definition same_word :: "(nat \<Rightarrow> BlockId) \<times> Links \<Rightarrow> nat \<Rightarrow> (nat \<Rightarrow> BlockId) \<times> Links \<Rightarrow> nat \<Rightarrow> bool" where
  "same_word m x m' x' \<longleftrightarrow> fst m' x' = fst m x \<and> m_nextNode (snd m') x' = m_nextNode (snd m) x \<and> m_prevNode (snd m') x' = m_prevNode (snd m) x"

definition carried :: "(nat \<Rightarrow> BlockId) \<times> Links \<Rightarrow> nat set \<Rightarrow> (nat \<Rightarrow> BlockId) \<times> Links \<Rightarrow> nat set \<Rightarrow> moved list \<Rightarrow> bool" where
  "carried m0 U m V gs \<longleftrightarrow> inj_on (relocate gs) U \<and> V = relocate gs ` U \<and>
     (\<forall>h\<in>U. (unmovable (fst m0) h \<longrightarrow> relocate gs h = h) \<and> 0 < extent (fst m0) h \<and>
        (\<forall>x\<in>{h..<h + extent (fst m0) h}. relocate gs x = relocate gs h + (x - h) \<and> same_word m0 x m (relocate gs x)))"

lemma agree_word: "agree S m m' \<Longrightarrow> x \<in> S \<Longrightarrow> same_word m x m' x"
  by (simp add: agree_def same_word_def)

lemma same_word_trans: "same_word m x m' x' \<Longrightarrow> same_word m' x' m'' x'' \<Longrightarrow> same_word m x m'' x''"
  by (simp add: same_word_def)

lemma carried_move:
  assumes c: "carried m0 U m V gs" and gs: "moves_ok gs t" "t \<le> s"
    and run: "tiles (fst m) s run (s + n)" "set run \<subseteq> V" "\<forall>h\<in>set run. \<not> unmovable (fst m) h"
    and V': "V' = (V - set run) \<union> set (map (\<lambda>h. h - s + f) run)"
    and D: "\<forall>x\<in>{f..<f + n}. same_word m (s + (x - f)) m' x"
    and keep: "\<forall>h\<in>V - set run. agree {h..<h + extent (fst m) h} m m' \<and> h \<notin> {f..<f + n} \<and> {h..<h + extent (fst m) h} \<inter> {s..<s + n} = {}"
  shows "carried m0 U m' V' (gs @ [(s, n, f)])"
proof -
  let ?r = "relocate gs" and ?r' = "relocate (gs @ [(s, n, f)])" and ?S = "{s..<s + n}"
  have inj: "inj_on ?r U" and V: "V = ?r ` U" using c unfolding carried_def by blast+
  have pos: "0 < extent (fst m0) h" and fixed: "unmovable (fst m0) h \<Longrightarrow> ?r h = h" if "h \<in> U" for h
    using c that unfolding carried_def by blast+
  have place: "?r x = ?r h + (x - h)" "same_word m0 x m (?r x)" if "h \<in> U" "x \<in> {h..<h + extent (fst m0) h}" for h x
    using c that unfolding carried_def by blast+
  have head: "fst m (?r h) = fst m0 h" if "h \<in> U" for h
    using place(2) [OF that, of h] pos [OF that] by (simp add: same_word_def)
  have r': "?r' x = (if x \<in> ?S then f + (x - s) else ?r x)" for x by (rule relocate_add [OF gs])
  have stay: "?r h = h" if "s \<le> ?r h" for h
    using relocate_inside [OF gs(1), of h] relocate_outside [of gs h] that gs(2) by force
  have run_U: "h \<in> U" "?r h = h" "h \<in> ?S" "{h..<h + extent (fst m) h} \<subseteq> ?S" if hr: "h \<in> set run" for h
  proof -
    have b: "s \<le> h" "h + extent (fst m) h \<le> s + n" "0 < extent (fst m) h" using tiles_bounds(2) [OF run(1) hr] by simp_all
    obtain g where g: "g \<in> U" "h = ?r g" using hr run(2) V by blast
    have "?r g = g" using stay [of g] g b(1) by simp
    then show "h \<in> U" "?r h = h" using g by auto
    show "h \<in> ?S" "{h..<h + extent (fst m) h} \<subseteq> ?S" using b by auto
  qed
  have in_V: "?r h \<in> V" if "h \<in> U" for h using that V by blast
  have ext: "extent (fst m) (?r h) = extent (fst m0) h" if "h \<in> U" for h using head [OF that] by simp
  have off: "x \<notin> ?S" if h: "h \<in> U" "h \<notin> set run" and x: "x \<in> {h..<h + extent (fst m0) h}" for h x
  proof
    assume S: "x \<in> ?S"
    then have "?r x = x" using relocate_beyond [OF gs(1), of x] gs(2) by simp
    then have xr: "x \<in> {?r h..<?r h + extent (fst m) (?r h)}" using place(1) [OF h(1) x] x ext [OF h(1)] by auto
    show False
    proof (cases "?r h \<in> set run")
      case True
      then have "?r h = h" using run_U(3) [OF True] stay [of h] by auto
      then show False using True h(2) by simp
    next
      case False
      then show False using keep in_V [OF h(1)] xr S by blast
    qed
  qed
  have run': "?r' x = f + (x - s)" if "h \<in> set run" "x \<in> {h..<h + extent (fst m) h}" for h x
    using run_U(4) [OF that(1)] that(2) r' by auto
  have rest': "?r' x = ?r x" if "h \<in> U" "h \<notin> set run" "x \<in> {h..<h + extent (fst m0) h}" for h x
    unfolding r' using off [OF that] by (rule if_not_P)
  have self: "h \<in> {h..<h + extent (fst m0) h}" if "h \<in> U" for h using pos [OF that] by simp
  have not_run: "?r h \<in> V - set run" if "h \<in> U" "h \<notin> set run" for h
  proof -
    have "?r h \<notin> set run"
    proof
      assume r: "?r h \<in> set run"
      then have "?r h = h" using run_U(3) [OF r] stay [of h] by auto
      then show False using r that(2) by simp
    qed
    then show ?thesis using in_V [OF that(1)] by blast
  qed
  have rn: "?r' h = f + (h - s)" if "h \<in> set run" for h
    using run' [OF that, of h] tiles_bounds(2) [OF run(1) that] by simp
  have rr: "?r' h = ?r h" if "h \<in> U" "h \<notin> set run" for h using rest' [OF that self [OF that(1)]] .
  have D_in: "?r' h \<in> {f..<f + n}" if "h \<in> set run" for h using rn [OF that] run_U(3) [OF that] by auto
  have V_out: "?r h \<notin> {f..<f + n}" if "h \<in> U" "h \<notin> set run" for h
    using keep not_run [OF that] by blast
  have new: "?r' x = ?r' h + (x - h) \<and> same_word m0 x m' (?r' x)" if h: "h \<in> U" and x: "x \<in> {h..<h + extent (fst m0) h}" for h x
  proof (cases "h \<in> set run")
    case True
    note b = tiles_bounds(2) [OF run(1) True]
    have e: "extent (fst m) h = extent (fst m0) h" using ext [OF h] run_U(2) [OF True] by simp
    have x': "x \<in> {h..<h + extent (fst m) h}" using x e by simp
    have "?r' x = f + (x - s)" by (rule run' [OF True x'])
    moreover have "?r' h = f + (h - s)" by (rule rn [OF True])
    moreover have "?r x = x" using place(1) [OF h x] run_U(2) [OF True] x by simp
    then have "same_word m0 x m x" using place(2) [OF h x] by simp
    moreover have "same_word m x m' (f + (x - s))"
    proof -
      have "f + (x - s) \<in> {f..<f + n}" and "s + (f + (x - s) - f) = x" using x' b by auto
      then show ?thesis using D by metis
    qed
    ultimately show ?thesis using b x by (auto intro: same_word_trans)
  next
    case False
    have "?r x \<in> {?r h..<?r h + extent (fst m) (?r h)}" unfolding place(1) [OF h x] ext [OF h] using x by auto
    then have "same_word m (?r x) m' (?r x)" using keep not_run [OF h False] agree_word by blast
    then show ?thesis
      using rest' [OF h False x] rr [OF h False] place [OF h x] by (auto intro: same_word_trans)
  qed
  have "inj_on ?r' U"
  proof (rule inj_onI)
    fix a b assume ab: "a \<in> U" "b \<in> U" "?r' a = ?r' b"
    consider "a \<in> set run" "b \<in> set run" | "a \<notin> set run" "b \<notin> set run" | "a \<in> set run \<longleftrightarrow> b \<notin> set run" by blast
    then show "a = b"
    proof cases
      case 1
      then show ?thesis using rn [of a] rn [of b] ab(3) run_U(3) [of a] run_U(3) [of b] by auto
    next
      case 2
      then show ?thesis using rr ab inj by (metis inj_onD)
    next
      case 3
      then show ?thesis using D_in V_out rr ab by metis
    qed
  qed
  moreover have "V' = ?r' ` U"
  proof -
    have e1: "V - set run = ?r ` {h \<in> U. h \<notin> set run}"
    proof
      show "?r ` {h \<in> U. h \<notin> set run} \<subseteq> V - set run" using not_run by blast
      show "V - set run \<subseteq> ?r ` {h \<in> U. h \<notin> set run}"
      proof
        fix p assume p: "p \<in> V - set run"
        then obtain h where h: "h \<in> U" "p = ?r h" using V by blast
        have "h \<notin> set run" using run_U(2) [of h] h(2) p by auto
        then show "p \<in> ?r ` {h \<in> U. h \<notin> set run}" using h by blast
      qed
    qed
    have e2: "?r ` {h \<in> U. h \<notin> set run} = ?r' ` {h \<in> U. h \<notin> set run}" using rr by (intro image_cong) auto
    have e3: "set (map (\<lambda>h. h - s + f) run) = ?r' ` set run"
    proof -
      have "h - s + f = ?r' h" if "h \<in> set run" for h using rn [OF that] by (simp only: add.commute)
      then show ?thesis unfolding set_map by (rule image_cong [OF refl])
    qed
    have e4: "U = {h \<in> U. h \<notin> set run} \<union> set run" using run_U(1) by blast
    have "?r' ` U = ?r' ` {h \<in> U. h \<notin> set run} \<union> ?r' ` set run" by (subst e4, rule image_Un)
    then show ?thesis unfolding V' e1 e2 e3 by (rule sym)
  qed
  moreover have "unmovable (fst m0) h \<longrightarrow> ?r' h = h" if "h \<in> U" for h
  proof
    assume u: "unmovable (fst m0) h"
    have "h \<notin> set run"
    proof
      assume r: "h \<in> set run"
      then have e: "fst m h = fst m0 h" using head [OF that] run_U(2) by simp
      have "\<not> unmovable (fst m) h" using run(3) r by blast
      then show False using u unfolding e by (rule notE)
    qed
    then show "?r' h = h" using rr [OF that] fixed [OF that u] by simp
  qed
  ultimately show ?thesis using pos new unfolding carried_def by blast
qed

section \<open>A round of the loop\<close>

definition region_of :: "moved \<Rightarrow> RelocationRegion" where
  "region_of = (\<lambda>(s, n, d). moved_region d s (of_nat n))"

text \<open>The passes after \<open>ps0\<close>, and then the table, hold the regions; no table has more than its 128 places.\<close>

definition logged :: "RelocationRegion list list \<Rightarrow> Relocation \<Rightarrow> moved list \<Rightarrow> bool" where
  "logged ps0 rel gs \<longleftrightarrow> m_relocTotal rel = c_minimumSpaceForCompact \<and> length (m_relocBlocks rel) \<le> c_minimumSpaceForCompact \<and>
     (\<exists>ps. passes rel = ps0 @ ps \<and> concat ps @ m_relocBlocks rel = map region_of gs \<and> (\<forall>p\<in>set ps. length p \<le> c_minimumSpaceForCompact))"

text \<open>The state of the loop: the clusters are whole, and the blocks \<open>U\<close> of \<open>m0\<close> are where the log says.\<close>

definition compacting ::
  "HeapCluster list \<Rightarrow> (nat \<Rightarrow> BlockId) \<times> Links \<Rightarrow> nat set \<Rightarrow> RelocationRegion list list \<Rightarrow> Compaction \<Rightarrow> (nat \<Rightarrow> nat set) \<Rightarrow> (nat \<Rightarrow> nat list) \<Rightarrow> moved list \<Rightarrow> nat \<Rightarrow> bool" where
  "compacting cs m0 U ps0 st B F gs t \<longleftrightarrow> layout cs (memory st) B F (\<lambda>k. payload (cs ! k)) \<and>
     carried m0 U (memory st) (all_use cs B F) gs \<and> moves_ok gs t \<and> logged ps0 (cp_reloc st) gs"

definition at_source :: "HeapCluster list \<Rightarrow> (nat \<Rightarrow> nat set) \<Rightarrow> Compaction \<Rightarrow> nat \<Rightarrow> bool" where
  "at_source cs B st t \<longleftrightarrow> currentSource_hc st < length cs \<and> currentSource_end st = m_payloadEnd (cs ! currentSource_hc st) \<and>
     t \<le> currentSource st \<and> (currentSource st \<in> B (currentSource_hc st) \<or> currentSource st = currentSource_end st)"

definition at_free :: "HeapCluster list \<Rightarrow> (nat \<Rightarrow> nat list) \<Rightarrow> Compaction \<Rightarrow> bool" where
  "at_free cs F st \<longleftrightarrow> freeRegion_hc st < length cs \<and> freeRegion st \<in> set (F (freeRegion_hc st))"

lemma next_free_region_spec:
  assumes L: "layout cs m B F P" and cs: "clusters_ok cs"
  shows "\<exists>k p. next_free_region i (drop i cs) (snd m) = (k, p) \<and> (p = 0 \<or> i \<le> k \<and> k < length cs \<and> p \<in> set (F k))"
proof (induction "length cs - i" arbitrary: i)
  case 0
  then show ?case by simp
next
  case (Suc n)
  then have i: "i < length cs" by simp
  note d = layoutD(3) [OF L i]
  have dr: "drop i cs = cs ! i # drop (Suc i) cs" using i by (rule Cons_nth_drop_Suc [symmetric])
  show ?case
  proof (cases "F i = []")
    case True
    then have "m_nextNode (snd m) (FirstNode (m_freeList (cs ! i)) (snd m)) = 0" using dll_first(2) [OF d] by simp
    then have eq: "next_free_region i (drop i cs) (snd m) = next_free_region (Suc i) (drop (Suc i) cs) (snd m)"
      unfolding dr by (simp add: Let_def)
    have n: "n = length cs - Suc i" using Suc.hyps(2) by simp
    obtain k p where "next_free_region (Suc i) (drop (Suc i) cs) (snd m) = (k, p)" "p = 0 \<or> Suc i \<le> k \<and> k < length cs \<and> p \<in> set (F k)"
      using Suc.hyps(1) [OF n] by blast
    then show ?thesis unfolding eq by auto
  next
    case False
    then have "m_nextNode (snd m) (FirstNode (m_freeList (cs ! i)) (snd m)) \<noteq> 0" using dll_first(2) [OF d] by simp
    moreover have "FirstNode (m_freeList (cs ! i)) (snd m) = hd (F i)" using dll_first(1) [OF d] False by simp
    ultimately have "next_free_region i (drop i cs) (snd m) = (i, hd (F i))" unfolding dr by (simp add: Let_def)
    then show ?thesis using False i by auto
  qed
qed

lemma to_free_region_spec:
  assumes "layout cs (memory st) B F P" "clusters_ok cs"
  shows "\<exists>k p. to_free_region i cs st = st\<lparr>freeRegion_hc := k, freeRegion := p\<rparr> \<and> (p = 0 \<or> i \<le> k \<and> k < length cs \<and> p \<in> set (F k))"
proof -
  obtain k p where "next_free_region i (drop i cs) (cp_links st) = (k, p)" "p = 0 \<or> i \<le> k \<and> k < length cs \<and> p \<in> set (F k)"
    using next_free_region_spec [OF assms, of i] by auto
  then show ?thesis by (auto simp: to_free_region_def)
qed

lemma block_nonzero:
  assumes "layout cs m B F (\<lambda>k. payload (cs ! k))" "clusters_ok cs" "k < length cs" "b \<in> B k"
  shows "b \<noteq> 0" "m_payloadStart (cs ! k) \<le> b" "b + extent (fst m) b \<le> m_payloadEnd (cs ! k)" "b < m_payloadEnd (cs ! k)"
proof -
  have p: "{b..<b + extent (fst m) b} \<subseteq> payload (cs ! k)" "0 < extent (fst m) b"
    using partitionD(1,2) [OF layoutD(1) [OF assms(1,3)] assms(4)] by auto
  then show "m_payloadStart (cs ! k) \<le> b" "b + extent (fst m) b \<le> m_payloadEnd (cs ! k)" "b < m_payloadEnd (cs ! k)"
    by (auto simp: ivl_subset)
  then show "b \<noteq> 0" using clusters_okD(1) [OF assms(2,3)] by auto
qed

lemma next_region_spec:
  assumes L: "layout cs (memory st) B F (\<lambda>k. payload (cs ! k))" and cs: "clusters_ok cs" and i: "freeRegion_hc st < length cs"
    and f: "freeRegion st \<in> insert (list_end cs (freeRegion_hc st)) (set (F (freeRegion_hc st)))"
  shows "\<exists>goes_on k p. next_region cs st = (goes_on, st\<lparr>freeRegion_hc := k, freeRegion := p\<rparr>) \<and>
    (goes_on \<longrightarrow> k < length cs \<and> p \<in> set (F k) \<and> (k = freeRegion_hc st \<and> p = freeRegion st \<or> freeRegion_hc st < k)) \<and> (\<not> goes_on \<longrightarrow> p = 0)"
proof (cases "freeRegion st \<in> set (F (freeRegion_hc st))")
  case True
  have "m_nextNode (cp_links st) (freeRegion st) \<noteq> 0" using next_in_list(2) [OF layoutD(3) [OF L i] True] by simp
  then have "next_region cs st = (True, st\<lparr>freeRegion_hc := freeRegion_hc st, freeRegion := freeRegion st\<rparr>)"
    by (simp add: next_region_def)
  then show ?thesis using True i by blast
next
  case False
  then have "m_nextNode (cp_links st) (freeRegion st) = 0" using f layoutD(3) [OF L i] by (simp add: dll_def)
  moreover obtain k p where kp: "to_free_region (Suc (freeRegion_hc st)) cs st = st\<lparr>freeRegion_hc := k, freeRegion := p\<rparr>"
    "p = 0 \<or> Suc (freeRegion_hc st) \<le> k \<and> k < length cs \<and> p \<in> set (F k)"
    using to_free_region_spec [OF L cs] by blast
  ultimately have eq: "next_region cs st = (p \<noteq> 0, st\<lparr>freeRegion_hc := k, freeRegion := p\<rparr>)"
    by (simp add: next_region_def Let_def)
  show ?thesis unfolding eq using kp(2) by (intro exI [of _ "p \<noteq> 0"] exI [of _ k] exI [of _ p]) auto
qed

end
