(* ===== verification/CompactionRun.thy ===== *)
theory CompactionRun imports CompactionLoop begin

text \<open>
  A round of the inner loop of the compaction keeps the invariant and goes forward, so that the loop ends.
\<close>

lemma next_greater:
  assumes "dll l st xs" "sorted_wrt (<) xs" "f \<in> set xs"
  shows "m_nextNode st f = Tail l \<or> (m_nextNode st f \<in> set xs \<and> f < m_nextNode st f)"
proof -
  obtain us vs where xs: "xs = us @ f # vs" using assms(3) by (meson split_list)
  show ?thesis using dll_neighbours(2) [OF assms(1) [unfolded xs]] assms(2) by (cases vs) (auto simp: xs sorted_wrt_append)
qed

lemma free_unmovable [simp]: "IsFlagSet (RAW_ID t HB_Pinned n) HB_Unmovable"
  by (simp add: IsFlagSet_def HB_Unmovable_def HB_Pinned_def HB_Event_def)

text \<open>What is left of a cluster from a block on.\<close>

lemma suffix_of_cluster:
  assumes L: "layout cs m B F (\<lambda>k. payload (cs ! k))" and cs: "clusters_ok cs" and j: "j < length cs"
    and s: "s \<in> B j \<or> s = m_payloadEnd (cs ! j)" and fuel: "65536 \<le> (fuel :: nat)"
  shows "\<exists>hs. tiles (fst m) s hs (m_payloadEnd (cs ! j)) \<and> set hs = {b \<in> B j. s \<le> b} \<and> length hs < fuel"
proof -
  have p: "partition (fst m) (B j) (payload (cs ! j))" by (rule layoutD(1) [OF L j])
  have r: "m_payloadStart (cs ! j) \<le> m_payloadEnd (cs ! j)" "m_payloadEnd (cs ! j) - m_payloadStart (cs ! j) < 65536"
    using clusters_okD(1) [OF cs j] by simp_all
  obtain hs where hs: "tiles (fst m) s hs (m_payloadEnd (cs ! j))" "set hs = {b \<in> B j. s \<le> b}"
    using suffix_tiles [OF p r(1) s] by blast
  have "s \<ge> m_payloadStart (cs ! j)" using s r(1) block_nonzero(2) [OF L cs j] by blast
  then have "length hs < 65536" using tiles_length [OF hs(1)] r(2) by simp
  then show ?thesis using hs fuel by (intro exI [of _ hs]) simp
qed

text \<open>The blocks in use of all clusters, after a move.\<close>

lemma all_use_move:
  assumes L: "layout cs m B F (\<lambda>k. payload (cs ! k))" and cs: "clusters_ok cs" and i: "i < length cs" and j: "j < length cs"
    and run: "tiles (fst m) s run (s + n)" "set run \<subseteq> in_use B F j"
    and use: "\<forall>k. in_use B' F' k = (in_use B F k - (if k = j then set run else {})) \<union> (if k = i then T else {})"
  shows "all_use cs B' F' = (all_use cs B F - set run) \<union> T"
proof -
  have off: "h \<notin> set run" if k: "k < length cs" "k \<noteq> j" and h: "h \<in> in_use B F k" for k h
  proof
    assume "h \<in> set run"
    then have "h \<in> B j" "h \<in> B k" using run(2) h by blast+
    then have "h \<in> payload (cs ! j)" "h \<in> payload (cs ! k)" using layoutD(8) [OF L j] layoutD(8) [OF L k(1)] by blast+
    then show False using clusters_apart [OF cs k(1) j k(2)] by blast
  qed
  have "in_use B' F' k = (in_use B F k - set run) \<union> (if k = i then T else {})" if "k < length cs" for k
  proof (cases "k = j")
    case True
    then show ?thesis using spec [OF use, of k] by simp
  next
    case False
    have "in_use B F k - set run = in_use B F k" using off [OF that False] by blast
    then show ?thesis using spec [OF use, of k] False by simp
  qed
  then have "all_use cs B' F' = (\<Union>k\<in>{..<length cs}. (in_use B F k - set run) \<union> (if k = i then T else {}))"
    unfolding all_use_def by (intro SUP_cong) auto
  then show ?thesis using i unfolding all_use_def by (auto split: if_splits)
qed

lemma logged_move:
  assumes "logged ps0 rel gs" "length (m_relocBlocks rel) < c_minimumSpaceForCompact"
  shows "logged ps0 (rel\<lparr>m_relocBlocks := m_relocBlocks rel @ [moved_region f s (of_nat n)]\<rparr>) (gs @ [(s, n, f)])"
  using assms by (auto simp: logged_def region_of_def)

lemma logged_flush: "logged ps0 rel gs \<Longrightarrow> logged ps0 (Heap_Relocate rel) gs"
  by (auto simp: logged_def Heap_Relocate_def)

section \<open>The run that moves\<close>

definition fits :: "nat \<Rightarrow> Compaction \<Rightarrow> (nat \<times> u32 \<times> u32) option" where
  "fits fuel st =
     (let free_size = ucast (b_size (cp_ids st (freeRegion st))) in
      if currentSource st = freeRegion st + unat free_size
      then map_option (\<lambda>(src, move). (src, move, free_size)) (slide_run fuel (cp_ids st) (currentSource st) (currentSource_end st) 0)
      else fit_run fuel (cp_ids st) (currentSource st) (currentSource_end st) 0 free_size)"

lemma the_run:
  fixes st :: Compaction
  defines "f \<equiv> freeRegion st" and "s \<equiv> currentSource st" and "i \<equiv> freeRegion_hc st" and "j \<equiv> currentSource_hc st" and "ids \<equiv> cp_ids st"
  assumes L: "layout cs (memory st) B F (\<lambda>k. payload (cs ! k))" and cs: "clusters_ok cs" and i: "i < length cs" and j: "j < length cs"
    and f: "f \<in> set (F i)" and le: "f \<le> s" and s: "s \<in> B j" "\<not> unmovable ids s" and e: "currentSource_end st = m_payloadEnd (cs ! j)"
    and fuel: "65536 \<le> fuel"
  shows "\<exists>n size' run rest. fits fuel st = Some (s + n, of_nat n, size') \<and> tiles ids s run (s + n) \<and> tiles ids (s + n) rest (m_payloadEnd (cs ! j)) \<and>
    set run \<subseteq> in_use B F j \<and> (\<forall>h\<in>set run. \<not> unmovable ids h) \<and> set rest \<subseteq> B j \<and> length rest < fuel \<and> n < 65536 \<and>
    placed ids (s = f + extent ids f) i j f s n size' \<and> (n = 0 \<longrightarrow> s \<noteq> f + extent ids f)"
proof -
  note I = layoutD [OF L i, simplified, folded ids_def] and J = layoutD [OF L j, simplified, folded ids_def]
  let ?e = "m_payloadEnd (cs ! j)" and ?free = "ucast (b_size (ids f)) :: u32"
  note bs = block_nonzero [OF L cs j s(1), simplified, folded ids_def]
  have "f \<in> B i" using I(5) f by simp
  note bf = block_nonzero [OF L cs i this, simplified, folded ids_def]
  have room: "?e - m_payloadStart (cs ! j) < 65536" using clusters_okD(1) [OF cs j] by simp
  obtain hs where hs: "tiles ids s hs ?e" "set hs = {b \<in> B j. s \<le> b}" "length hs < fuel"
    using suffix_of_cluster [OF L cs j _ fuel, of s] s(1) unfolding ids_def by auto
  have uf: "unat ?free = extent ids f" by (rule unat_extent)
  have ne: "hs \<noteq> []" using hs(1) bs(4) by auto
  have use: "h \<in> in_use B F j" if h: "h \<in> set hs" "\<not> unmovable ids h" for h
  proof -
    have "h \<notin> set (F j)"
    proof
      assume "h \<in> set (F j)"
      from J(6) [OF this] show False using h(2) by auto
    qed
    then show ?thesis using h(1) hs(2) by auto
  qed
  show ?thesis
  proof (cases "s = f + extent ids f")
    case True
    have "i = j"
    proof (rule ccontr)
      assume "i \<noteq> j"
      then consider "i < j" | "j < i" by linarith
      then show False
      proof cases
        case 1
        then show ?thesis using clusters_okD(3) [OF cs i 1 j] bf(3) bs(2) True by simp
      next
        case 2
        then show ?thesis using clusters_okD(3) [OF cs j 2 i] bf(2) bs(4) True by simp
      qed
    qed
    obtain run rest s' where R: "slide_run fuel ids s ?e 0 = Some (s', 0 + of_nat (s' - s))" "hs = run @ rest" "tiles ids s run s'" "tiles ids s' rest ?e"
      "\<forall>h\<in>set run. \<not> unmovable ids h" "hs \<noteq> [] \<and> \<not> unmovable ids s \<longrightarrow> run \<noteq> []"
      using slide_run_spec [OF hs(1,3), of 0] by blast
    have b: "s \<le> s'" "s' \<le> ?e" using tiles_bounds(1) R(3,4) by blast+
    have "run \<noteq> []" using R(6) ne s(2) by simp
    then have "s < s'" using R(3) tiles_length [OF R(3)] by (cases run) auto
    moreover have "fits fuel st = Some (s + (s' - s), of_nat (s' - s), ?free)"
      using R(1) True uf e b(1) unfolding s_def f_def ids_def by (simp add: fits_def Let_def)
    moreover have "placed ids (s = f + extent ids f) i j f s (s' - s) ?free" using True \<open>i = j\<close> uf by (simp add: placed_def)
    moreover have "s' - s < 65536" using b(2) bs(2) room by linarith
    moreover have "set run \<subseteq> in_use B F j" using use R(2,5) by auto
    ultimately show ?thesis using R(2-5) hs(2,3) b(1)
      by - (rule exI [of _ "s' - s"], rule exI [of _ ?free], rule exI [of _ run], rule exI [of _ rest], auto)
  next
    case False
    obtain run rest s' where R: "fit_run fuel ids s ?e 0 ?free = Some (s', 0 + of_nat (s' - s), ?free - of_nat (s' - s))" "hs = run @ rest"
      "tiles ids s run s'" "tiles ids s' rest ?e" "\<forall>h\<in>set run. \<not> unmovable ids h" "s' - s \<le> unat ?free"
      using fit_run_spec [OF hs(1,3), of 0 ?free] by blast
    have b: "s \<le> s'" "s' \<le> ?e" using tiles_bounds(1) R(3,4) by blast+
    have n: "s' - s < 65536" using b(2) bs(2) room by linarith
    have un: "unat (of_nat (s' - s) :: u32) = s' - s" using n by (simp add: take_bit_nat_eq_self unsigned_of_nat)
    have "unat (?free - of_nat (s' - s)) = extent ids f - (s' - s)"
      using R(6) un uf by (simp only: word_le_nat_alt unat_sub)
    then have "placed ids (s = f + extent ids f) i j f s (s' - s) (?free - of_nat (s' - s))" using False R(6) uf le by (simp add: placed_def)
    moreover have "fits fuel st = Some (s + (s' - s), of_nat (s' - s), ?free - of_nat (s' - s))"
      using R(1) False uf e b(1) unfolding s_def f_def ids_def by (simp add: fits_def Let_def)
    moreover have "set run \<subseteq> in_use B F j" using use R(2,5) by auto
    ultimately show ?thesis using R(2-5) hs(2,3) b(1) n False
      by - (rule exI [of _ "s' - s"], rule exI [of _ "?free - of_nat (s' - s)"], rule exI [of _ run], rule exI [of _ rest], auto)
  qed
qed

text \<open>The state when a run of \<open>n\<close> blocks has moved, and the search stopped at \<open>src\<close>.\<close>

definition after_move :: "Compaction \<Rightarrow> (nat \<Rightarrow> BlockId) \<times> Links \<Rightarrow> nat \<Rightarrow> nat \<Rightarrow> nat \<Rightarrow> Compaction" where
  "after_move st m' free' src n = st\<lparr>cp_ids := fst m', cp_links := snd m', freeRegion := free', currentSource := src,
     cp_reloc := (cp_reloc st)\<lparr>m_relocBlocks := m_relocBlocks (cp_reloc st) @ [moved_region (freeRegion st) (currentSource st) (of_nat n)]\<rparr>\<rparr>"

lemma after_move_simps [simp]:
  "memory (after_move st m' free' src n) = m'" "freeRegion (after_move st m' free' src n) = free'"
  "currentSource (after_move st m' free' src n) = src" "freeRegion_hc (after_move st m' free' src n) = freeRegion_hc st"
  "currentSource_hc (after_move st m' free' src n) = currentSource_hc st" "currentSource_end (after_move st m' free' src n) = currentSource_end st"
  "cp_ids (after_move st m' free' src n) = fst m'" "cp_links (after_move st m' free' src n) = snd m'"
  by (simp_all add: after_move_def)

lemma compact_run_move:
  fixes st :: Compaction
  assumes "fits fuel st = Some (s', of_nat n, size')" "(of_nat n :: u32) \<noteq> 0"
    and "skip_unmovable fuel (cp_ids st) s' (currentSource_end st) = Some src"
    and "move_blocks fuel cs (currentSource st = freeRegion st + extent (cp_ids st) (freeRegion st)) (of_nat n) size' st = Some (m', free')"
  shows "compact_run fuel cs st = Some (next_region cs (after_move st m' free' src n))"
  using assms unfolding compact_run_def after_move_def fits_def by (cases m') (simp add: Let_def unat_extent)

lemma compact_run_stuck:
  fixes st :: Compaction
  assumes "fits fuel st = Some (s', 0, size')"
  shows "compact_run fuel cs st = Some (next_region cs (st\<lparr>freeRegion := m_nextNode (cp_links st) (freeRegion st), currentSource := s'\<rparr>))"
  using assms unfolding compact_run_def fits_def by (simp add: Let_def)

lemma moved_state:
  fixes st :: Compaction
  defines "f \<equiv> freeRegion st" and "s \<equiv> currentSource st" and "i \<equiv> freeRegion_hc st" and "j \<equiv> currentSource_hc st" and "m \<equiv> memory st"
  assumes I: "compacting cs m0 U ps0 st B F gs t" and A: "at_source cs B st t" "at_free cs F st" and cs: "clusters_ok cs"
    and room: "length (m_relocBlocks (cp_reloc st)) < c_minimumSpaceForCompact"
    and n: "0 < n" "n < 65536" and run: "tiles (fst m) s run (s + n)" "set run \<subseteq> in_use B F j" "\<forall>h\<in>set run. \<not> unmovable (fst m) h"
    and place: "placed (fst m) slide i j f s n size'" and fs: "f < s" and fuel: "65536 \<le> fuel"
    and src: "s + n \<le> src" "src \<in> in_use B F j - set run \<or> src = m_payloadEnd (cs ! j)"
  shows "\<exists>m' free' B' F'. move_blocks fuel cs slide (of_nat n) size' st = Some (m', free') \<and>
    compacting cs m0 U ps0 (after_move st m' free' src n) B' F' (gs @ [(s, n, f)]) (s + n) \<and>
    at_source cs B' (after_move st m' free' src n) (s + n) \<and> free' \<in> insert (list_end cs i) (set (F' i))"
proof -
  have L: "layout cs m B F (\<lambda>k. payload (cs ! k))" and c: "carried m0 U m (all_use cs B F) gs" and gs: "moves_ok gs t" and lg: "logged ps0 (cp_reloc st) gs"
    using I by (simp_all add: compacting_def m_def)
  have ij: "i < length cs" "j < length cs" "f \<in> set (F i)" "t \<le> s" "currentSource_end st = m_payloadEnd (cs ! j)"
    using A by (simp_all add: at_source_def at_free_def i_def j_def f_def s_def)
  have un: "unat (of_nat n :: u32) = n" using n(2) by (simp add: take_bit_nat_eq_self unsigned_of_nat)
  from move_spec [of cs st B F "of_nat n" n run slide size' fuel, folded f_def s_def i_def j_def m_def, OF L cs ij(1,2,3) un n(1) run(1,2) place fuel]
  obtain m' free' B' F' where R: "move_blocks fuel cs slide (of_nat n) size' st = Some (m', free')" "layout cs m' B' F' (\<lambda>k. payload (cs ! k))"
    "\<forall>k. in_use B' F' k = (in_use B F k - (if k = j then set run else {})) \<union> (if k = i then set (map (\<lambda>h. h - s + f) run) else {})"
    "free' \<in> insert (list_end cs i) (set (F' i))"
    "\<forall>x\<in>{f..<f + n}. fst m' x = fst m (s + (x - f)) \<and> m_nextNode (snd m') x = m_nextNode (snd m) (s + (x - f)) \<and>
       m_prevNode (snd m') x = m_prevNode (snd m) (s + (x - f))"
    "\<forall>k<length cs. \<forall>h\<in>in_use B F k - set run. agree {h..<h + extent (fst m) h} m m' \<and> h \<notin> {f..<f + n}"
    by (elim exE conjE) (rule that)
  have V: "all_use cs B' F' = (all_use cs B F - set run) \<union> set (map (\<lambda>h. h - s + f) run)"
    by (rule all_use_move [OF L cs ij(1,2) run(1,2) R(3)])
  have sub: "set run \<subseteq> all_use cs B F" using run(2) ij(2) unfolding all_use_def by blast
  have keep: "\<forall>h\<in>all_use cs B F - set run. agree {h..<h + extent (fst m) h} m m' \<and> h \<notin> {f..<f + n} \<and> {h..<h + extent (fst m) h} \<inter> {s..<s + n} = {}"
  proof
    fix h assume "h \<in> all_use cs B F - set run"
    then obtain k where k: "k < length cs" "h \<in> in_use B F k" "h \<notin> set run" unfolding all_use_def by blast
    show "agree {h..<h + extent (fst m) h} m m' \<and> h \<notin> {f..<f + n} \<and> {h..<h + extent (fst m) h} \<inter> {s..<s + n} = {}"
      using R(6) k run_off [OF L cs ij(2) run(1,2) k] by blast
  qed
  have D: "\<forall>x\<in>{f..<f + n}. same_word m (s + (x - f)) m' x" using R(5) by (simp add: same_word_def)
  have "carried m0 U m' (all_use cs B' F') (gs @ [(s, n, f)])"
    by (rule carried_move [OF c gs ij(4) run(1) sub run(3) V D keep])
  moreover have "moves_ok (gs @ [(s, n, f)]) (s + n)" by (rule moves_ok_add [OF gs ij(4) n(1) fs order_refl])
  moreover have "logged ps0 (cp_reloc (after_move st m' free' src n)) (gs @ [(s, n, f)])"
    using logged_move [OF lg room, of f s n] by (simp add: after_move_def f_def s_def)
  ultimately have C: "compacting cs m0 U ps0 (after_move st m' free' src n) B' F' (gs @ [(s, n, f)]) (s + n)"
    using R(2) by (simp add: compacting_def)
  have "src \<in> B' j \<or> src = m_payloadEnd (cs ! j)" using src(2) spec [OF R(3), of j] by auto
  then have "at_source cs B' (after_move st m' free' src n) (s + n)" using ij(2,5) src(1) by (simp add: at_source_def j_def)
  then show ?thesis using R(1,4) C by blast
qed

section \<open>A round of the loop\<close>

lemma compact_run_spec:
  assumes I: "compacting cs m0 U ps0 st B F gs t" and A: "at_source cs B st t" "at_free cs F st" and cs: "clusters_ok cs"
    and room: "length (m_relocBlocks (cp_reloc st)) < c_minimumSpaceForCompact" and le: "freeRegion st \<le> currentSource st"
    and s: "currentSource st \<in> B (currentSource_hc st)" "\<not> unmovable (cp_ids st) (currentSource st)" and fuel: "65536 \<le> fuel"
  shows "\<exists>go st' B' F' gs' t'. compact_run fuel cs st = Some (go, st') \<and> compacting cs m0 U ps0 st' B' F' gs' t' \<and> at_source cs B' st' t' \<and>
    currentSource_hc st' = currentSource_hc st \<and> (\<not> go \<longrightarrow> freeRegion st' = 0) \<and>
    (go \<longrightarrow> at_free cs F' st' \<and> (currentSource st < currentSource st' \<or> currentSource st' = currentSource st \<and> freeRegion st < freeRegion st'))"
proof -
  define f s i j ids where d: "f = freeRegion st" "s = currentSource st" "i = freeRegion_hc st" "j = currentSource_hc st" "ids = cp_ids st"
  have L: "layout cs (memory st) B F (\<lambda>k. payload (cs ! k))" using I by (simp add: compacting_def)
  have ij: "i < length cs" "j < length cs" "f \<in> set (F i)" "t \<le> s" and e: "currentSource_end st = m_payloadEnd (cs ! j)"
    using A by (simp_all add: at_source_def at_free_def d)
  have s': "s \<in> B j" "\<not> unmovable ids s" and le': "f \<le> s" using s le by (simp_all add: d)
  note R0 = the_run [of cs st B F fuel, folded d, OF L [folded d] cs ij(1-3) le' s' e fuel]
  obtain n size' run rest where R: "fits fuel st = Some (s + n, of_nat n, size')" "tiles ids s run (s + n)" "tiles ids (s + n) rest (m_payloadEnd (cs ! j))"
    "set run \<subseteq> in_use B F j" "\<forall>h\<in>set run. \<not> unmovable ids h" "set rest \<subseteq> B j" "length rest < fuel" "n < 65536"
    "placed ids (s = f + extent ids f) i j f s n size'"
    using R0 by (elim exE conjE) (rule that)
  show ?thesis
  proof (cases "n = 0")
    case True
    let ?st = "st\<lparr>freeRegion := m_nextNode (cp_links st) f, currentSource := s\<rparr>"
    have fits: "fits fuel st = Some (s, 0, size')" using R(1) True by simp
    have run': "compact_run fuel cs st = Some (next_region cs ?st)" using compact_run_stuck [OF fits] by (simp add: d)
    have N: "m_nextNode (cp_links st) f = list_end cs i \<or> (m_nextNode (cp_links st) f \<in> set (F i) \<and> f < m_nextNode (cp_links st) f)"
      using next_greater [OF layoutD(3,4) [OF L ij(1)] ij(3)] by simp
    have "layout cs (memory ?st) B F (\<lambda>k. payload (cs ! k))" using L by simp
    from next_region_spec [OF this cs] obtain go k p where G: "next_region cs ?st = (go, ?st\<lparr>freeRegion_hc := k, freeRegion := p\<rparr>)"
      "go \<longrightarrow> k < length cs \<and> p \<in> set (F k) \<and> (k = i \<and> p = m_nextNode (cp_links st) f \<or> i < k)" "\<not> go \<longrightarrow> p = 0"
      using ij(1) N by (auto simp: d)
    have "f < p" if "go"
    proof (cases "k = i")
      case True
      have "list_end cs i \<notin> set (F i)" using layoutD(3) [OF L ij(1)] by (simp add: dll_def)
      then show ?thesis using G(2) that N True by auto
    next
      case False
      then have k: "i < k" "k < length cs" "p \<in> set (F k)" using G(2) that by auto
      then have p: "p \<in> B k" "f \<in> B i" using layoutD(5) [OF L k(2)] layoutD(5) [OF L ij(1)] ij(3) by auto
      show ?thesis using block_nonzero(4) [OF L cs ij(1) p(2)] block_nonzero(2) [OF L cs k(2) p(1)] clusters_okD(3) [OF cs ij(1) k(1,2)] by simp
    qed
    moreover have "compacting cs m0 U ps0 (?st\<lparr>freeRegion_hc := k, freeRegion := p\<rparr>) B F gs t" using I by (simp add: compacting_def)
    moreover have "at_source cs B (?st\<lparr>freeRegion_hc := k, freeRegion := p\<rparr>) t" using A(1) by (auto simp: at_source_def d)
    ultimately show ?thesis unfolding run' G(1) using G(2,3)
      by - (rule exI [of _ go], rule exI [of _ "?st\<lparr>freeRegion_hc := k, freeRegion := p\<rparr>"], rule exI [of _ B], rule exI [of _ F], rule exI [of _ gs], rule exI [of _ t], auto simp: at_free_def d)
  next
    case False
    have fs: "f < s"
    proof (rule ccontr)
      assume "\<not> f < s"
      then have "f = s" using le' by simp
      then show False using s'(2) layoutD(6) [OF L ij(1,3)] by (auto simp: d)
    qed
    obtain us rest' src where K: "skip_unmovable fuel ids (s + n) (m_payloadEnd (cs ! j)) = Some src" "rest = us @ rest'" "tiles ids (s + n) us src"
      "tiles ids src rest' (m_payloadEnd (cs ! j))" "rest' \<noteq> [] \<longrightarrow> \<not> unmovable ids src"
      using skip_unmovable_spec [OF R(3,7)] by blast
    have src: "s + n \<le> src" using tiles_bounds(1) [OF K(3)] .
    have src': "src \<in> in_use B F j - set run \<or> src = m_payloadEnd (cs ! j)"
    proof (cases "rest' = []")
      case True
      then show ?thesis using K(4) by simp
    next
      case False
      then have "src \<in> set rest'" using K(4) by (cases rest') auto
      then have "src \<in> B j" using K(2) R(6) by auto
      moreover have "src \<notin> set (F j)"
      proof
        assume "src \<in> set (F j)"
        from layoutD(6) [OF L ij(2) this] show False using False K(5) by (auto simp: d)
      qed
      moreover have "src \<notin> set run" using tiles_bounds(2) [OF R(2), of src] src by auto
      ultimately show ?thesis by simp
    qed
    note M0 = moved_state [OF I A cs room, folded d, of n run "s = f + extent ids f" size' fuel src, simplified]
    obtain m' free' B' F' where M: "move_blocks fuel cs (s = f + extent ids f) (of_nat n) size' st = Some (m', free')"
      "compacting cs m0 U ps0 (after_move st m' free' src n) B' F' (gs @ [(s, n, f)]) (s + n)"
      "at_source cs B' (after_move st m' free' src n) (s + n)" "free' \<in> insert (list_end cs i) (set (F' i))"
      using M0 False R(2,4,5,8,9) fs fuel src src' by auto
    let ?st = "after_move st m' free' src n"
    have nz: "(of_nat n :: u32) \<noteq> 0" using False R(8) by (simp add: of_nat_eq_0_iff word_of_nat_eq_0_iff nat_dvd_not_less)
    have run': "compact_run fuel cs st = Some (next_region cs ?st)"
      by (rule compact_run_move [OF R(1) nz]) (use K(1) e M(1) in \<open>simp_all add: d\<close>)
    have L': "layout cs (memory ?st) B' F' (\<lambda>k. payload (cs ! k))" using M(2) by (simp add: compacting_def)
    from next_region_spec [OF this cs] obtain go k p where G: "next_region cs ?st = (go, ?st\<lparr>freeRegion_hc := k, freeRegion := p\<rparr>)"
      "go \<longrightarrow> k < length cs \<and> p \<in> set (F' k)" "\<not> go \<longrightarrow> p = 0"
      using ij(1) M(4) by (auto simp: d)
    have "compacting cs m0 U ps0 (?st\<lparr>freeRegion_hc := k, freeRegion := p\<rparr>) B' F' (gs @ [(s, n, f)]) (s + n)" using M(2) by (simp add: compacting_def)
    moreover have "at_source cs B' (?st\<lparr>freeRegion_hc := k, freeRegion := p\<rparr>) (s + n)" using M(3) by (auto simp: at_source_def)
    moreover have "currentSource st < src" using src False by (simp add: d)
    ultimately show ?thesis unfolding run' G(1) using G(2,3)
      by - (rule exI [of _ go], rule exI [of _ "?st\<lparr>freeRegion_hc := k, freeRegion := p\<rparr>"], rule exI [of _ B'], rule exI [of _ F'], rule exI [of _ "gs @ [(s, n, f)]"], rule exI [of _ "s + n"], auto simp: at_free_def)
  qed
qed

lemma at_free_block:
  assumes "layout cs m B F P" "at_free cs F st"
  shows "freeRegion st \<in> B (freeRegion_hc st)"
  using assms layoutD(5) [OF assms(1), of "freeRegion_hc st"] by (auto simp: at_free_def)

lemma source_bounds:
  assumes L: "layout cs m B F (\<lambda>k. payload (cs ! k))" and cs: "clusters_ok cs" and A: "at_source cs B st t"
  shows "m_payloadStart (cs ! currentSource_hc st) \<le> currentSource st" "currentSource st \<le> m_payloadEnd (cs ! currentSource_hc st)"
proof -
  have j: "currentSource_hc st < length cs" using A by (simp add: at_source_def)
  have "m_payloadStart (cs ! currentSource_hc st) \<le> m_payloadEnd (cs ! currentSource_hc st)" using clusters_okD(1) [OF cs j] by simp
  then show "m_payloadStart (cs ! currentSource_hc st) \<le> currentSource st" "currentSource st \<le> m_payloadEnd (cs ! currentSource_hc st)"
    using A block_nonzero(2,4) [OF L cs j] by (auto simp: at_source_def less_imp_le)
qed

lemma only_backward_spec:
  assumes I: "compacting cs m0 U ps0 st B F gs t" and A: "at_source cs B st t" "at_free cs F st" and cs: "clusters_ok cs"
  shows "\<exists>j s e. only_backward cs st = st\<lparr>currentSource_hc := j, currentSource := s, currentSource_end := e\<rparr> \<and>
    at_source cs B (only_backward cs st) t \<and> currentSource_hc st \<le> j \<and> currentSource st \<le> s \<and> freeRegion st \<le> s"
proof (cases "currentSource st < freeRegion st")
  case True
  let ?i = "freeRegion_hc st"
  have L: "layout cs (memory st) B F (\<lambda>k. payload (cs ! k))" using I by (simp add: compacting_def)
  have i: "?i < length cs" and f: "freeRegion st \<in> B ?i" using A(2) at_free_block [OF L] by (simp_all add: at_free_def)
  have t: "t \<le> currentSource st" and j: "currentSource_hc st < length cs" using A(1) by (simp_all add: at_source_def)
  have "currentSource_hc st \<le> ?i"
  proof (rule ccontr)
    assume "\<not> currentSource_hc st \<le> ?i"
    then have lt: "?i < currentSource_hc st" by simp
    show False using clusters_okD(3) [OF cs i lt j] block_nonzero(4) [OF L cs i f] source_bounds(1) [OF L cs A(1)] True by simp
  qed
  then show ?thesis using True i f t
    by (intro exI [of _ ?i] exI [of _ "freeRegion st"] exI [of _ "m_payloadEnd (cs ! ?i)"]) (simp add: only_backward_def at_source_def)
next
  case False
  then show ?thesis using A(1)
    by (intro exI [of _ "currentSource_hc st"] exI [of _ "currentSource st"] exI [of _ "currentSource_end st"]) (simp add: only_backward_def)
qed

lemma flush_full_spec:
  assumes "compacting cs m0 U ps0 st B F gs t"
  shows "\<exists>rel. flush_full st = st\<lparr>cp_reloc := rel\<rparr> \<and> compacting cs m0 U ps0 (st\<lparr>cp_reloc := rel\<rparr>) B F gs t \<and> length (m_relocBlocks rel) < c_minimumSpaceForCompact"
proof (cases "length (m_relocBlocks (cp_reloc st)) \<ge> m_relocTotal (cp_reloc st)")
  case True
  have "0 < c_minimumSpaceForCompact" by (simp add: c_minimumSpaceForCompact_def)
  moreover have "m_relocBlocks (Heap_Relocate (cp_reloc st)) = []" by (simp add: Heap_Relocate_def)
  ultimately show ?thesis using True assms logged_flush [of ps0 "cp_reloc st" gs]
    by (intro exI [of _ "Heap_Relocate (cp_reloc st)"]) (simp add: flush_full_def compacting_def)
next
  case False
  then show ?thesis using assms by (intro exI [of _ "cp_reloc st"]) (auto simp: flush_full_def compacting_def logged_def)
qed

text \<open>A round either goes forward, or ends the loop.\<close>

lemma compact_step_spec:
  assumes I: "compacting cs m0 U ps0 st B F gs t" and A: "at_source cs B st t" "at_free cs F st" and cs: "clusters_ok cs" and fuel: "65536 \<le> fuel"
  shows "\<exists>go st' B' F' gs' t'. compact_step fuel cs st = Some (go, st') \<and> compacting cs m0 U ps0 st' B' F' gs' t' \<and> at_source cs B' st' t' \<and>
    currentSource_hc st \<le> currentSource_hc st' \<and> (\<not> go \<longrightarrow> freeRegion st' = 0 \<or> at_free cs F' st') \<and>
    (go \<longrightarrow> at_free cs F' st' \<and> (currentSource st < currentSource st' \<or> currentSource st' = currentSource st \<and> freeRegion st < freeRegion st'))"
proof -
  obtain j s e where O: "only_backward cs st = st\<lparr>currentSource_hc := j, currentSource := s, currentSource_end := e\<rparr>"
    "at_source cs B (only_backward cs st) t" "currentSource_hc st \<le> j" "currentSource st \<le> s" "freeRegion st \<le> s"
    using only_backward_spec [OF I A cs] by blast
  have L: "layout cs (memory st) B F (\<lambda>k. payload (cs ! k))" using I by (simp add: compacting_def)
  have S: "j < length cs" "e = m_payloadEnd (cs ! j)" "t \<le> s" "s \<in> B j \<or> s = m_payloadEnd (cs ! j)"
    using O(2) unfolding O(1) by (auto simp: at_source_def)
  obtain hs where hs: "tiles (cp_ids st) s hs e" "set hs = {b \<in> B j. s \<le> b}" "length hs < fuel"
    using suffix_of_cluster [OF L cs S(1,4) fuel] S(2) by auto
  obtain us rest src where K: "skip_unmovable fuel (cp_ids st) s e = Some src" "hs = us @ rest" "tiles (cp_ids st) s us src"
      "tiles (cp_ids st) src rest e" "rest \<noteq> [] \<longrightarrow> \<not> unmovable (cp_ids st) src"
    using skip_unmovable_spec [OF hs(1,3)] by blast
  have src: "s \<le> src" using tiles_bounds(1) [OF K(3)] .
  let ?st = "st\<lparr>currentSource_hc := j, currentSource_end := e, currentSource := src\<rparr>"
  have I': "compacting cs m0 U ps0 ?st B F gs t" using I by (simp add: compacting_def)
  have F': "at_free cs F ?st" using A(2) by (simp add: at_free_def)
  have step: "compact_step fuel cs st = (if src = e then Some (False, ?st) else compact_run fuel cs (flush_full ?st))"
    using K(1) by (simp add: compact_step_def O(1) Let_def)
  show ?thesis
  proof (cases "src = e")
    case True
    then have "at_source cs B ?st t" using S src by (simp add: at_source_def)
    then show ?thesis using True step I' F' O(3)
      by - (rule exI [of _ False], rule exI [of _ ?st], rule exI [of _ B], rule exI [of _ F], rule exI [of _ gs], rule exI [of _ t], simp)
  next
    case False
    then have ne: "rest \<noteq> []" using K(4) by auto
    then have "src \<in> set rest" using K(4) by (cases rest) auto
    then have srcB: "src \<in> B j" using K(2) hs(2) by auto
    obtain rel where R: "flush_full ?st = ?st\<lparr>cp_reloc := rel\<rparr>" "compacting cs m0 U ps0 (?st\<lparr>cp_reloc := rel\<rparr>) B F gs t"
      "length (m_relocBlocks rel) < c_minimumSpaceForCompact" using flush_full_spec [OF I'] by blast
    let ?st2 = "?st\<lparr>cp_reloc := rel\<rparr>"
    have "at_source cs B ?st2 t" "at_free cs F ?st2" using S src srcB F' by (simp_all add: at_source_def at_free_def)
    from compact_run_spec [OF R(2) this cs _ _ _ _ fuel] obtain go st' B' F'' gs' t' where C:
      "compact_run fuel cs ?st2 = Some (go, st')" "compacting cs m0 U ps0 st' B' F'' gs' t'" "at_source cs B' st' t'" "currentSource_hc st' = j"
      "\<not> go \<longrightarrow> freeRegion st' = 0" "go \<longrightarrow> at_free cs F'' st' \<and> (src < currentSource st' \<or> currentSource st' = src \<and> freeRegion st < freeRegion st')"
      using R(3) O(5) src srcB K(5) ne by auto
    have "compact_step fuel cs st = Some (go, st')" using step False R(1) C(1) by simp
    moreover have "go \<longrightarrow> at_free cs F'' st' \<and> (currentSource st < currentSource st' \<or> currentSource st' = currentSource st \<and> freeRegion st < freeRegion st')"
      using C(6) O(4) src by auto
    ultimately show ?thesis using C(2,3,4,5) O(3)
      by - (rule exI [of _ go], rule exI [of _ st'], rule exI [of _ B'], rule exI [of _ F''], rule exI [of _ gs'], rule exI [of _ t'], simp)
  qed
qed

section \<open>The loops end\<close>

definition below :: "HeapCluster list \<Rightarrow> nat \<Rightarrow> bool" where
  "below cs E \<longleftrightarrow> (\<forall>c\<in>set cs. m_payloadEnd c \<le> E)"

definition steps_left :: "nat \<Rightarrow> Compaction \<Rightarrow> nat" where
  "steps_left E st = (E - currentSource st) * (E + 1) + (E - freeRegion st)"

lemma steps_left_less:
  assumes "currentSource st < currentSource st' \<or> currentSource st' = currentSource st \<and> freeRegion st < freeRegion st'"
    and "currentSource st' \<le> E" "freeRegion st' \<le> E"
  shows "steps_left E st' < steps_left E st"
proof (cases "currentSource st < currentSource st'")
  case True
  then have "(E - currentSource st' + 1) * (E + 1) \<le> (E - currentSource st) * (E + 1)" using assms(2) by (intro mult_le_mono1) simp
  moreover have "(E - currentSource st') * (E + 1) + (E - freeRegion st') < (E - currentSource st' + 1) * (E + 1)"
    unfolding add_mult_distrib by simp
  ultimately show ?thesis unfolding steps_left_def by linarith
next
  case False
  then show ?thesis using assms by (auto simp: steps_left_def)
qed

lemma compact_source_spec:
  assumes cs: "clusters_ok cs" "below cs E" and fuel: "65536 \<le> fuel"
  shows "compacting cs m0 U ps0 st B F gs t \<Longrightarrow> at_source cs B st t \<Longrightarrow> at_free cs F st \<Longrightarrow> steps_left E st < n \<Longrightarrow>
    \<exists>st' B' F' gs' t'. compact_source n fuel cs st = Some st' \<and> compacting cs m0 U ps0 st' B' F' gs' t' \<and> at_source cs B' st' t' \<and>
      currentSource_hc st \<le> currentSource_hc st' \<and> (freeRegion st' = 0 \<or> at_free cs F' st')"
proof (induction n arbitrary: st B F gs t)
  case (Suc n)
  obtain go st' B' F' gs' t' where S: "compact_step fuel cs st = Some (go, st')" "compacting cs m0 U ps0 st' B' F' gs' t'" "at_source cs B' st' t'"
    "currentSource_hc st \<le> currentSource_hc st'" "\<not> go \<longrightarrow> freeRegion st' = 0 \<or> at_free cs F' st'"
    "go \<longrightarrow> at_free cs F' st' \<and> (currentSource st < currentSource st' \<or> currentSource st' = currentSource st \<and> freeRegion st < freeRegion st')"
    using compact_step_spec [OF Suc.prems(1-3) cs(1) fuel] by (elim exE conjE) (rule that)
  show ?case
  proof (cases go)
    case False
    then show ?thesis using S
      by - (rule exI [of _ st'], rule exI [of _ B'], rule exI [of _ F'], rule exI [of _ gs'], rule exI [of _ t'], simp)
  next
    case True
    have L: "layout cs (memory st') B' F' (\<lambda>k. payload (cs ! k))" using S(2) by (simp add: compacting_def)
    have f: "at_free cs F' st'" using S(6) True by blast
    then have i: "freeRegion_hc st' < length cs" by (simp add: at_free_def)
    have "freeRegion st' \<le> E"
      using block_nonzero(4) [OF L cs(1) i at_free_block [OF L f]] cs(2) nth_mem [OF i] unfolding below_def by fastforce
    moreover have "currentSource st' \<le> E"
    proof -
      have j: "currentSource_hc st' < length cs" using S(3) by (simp add: at_source_def)
      show ?thesis using source_bounds(2) [OF L cs(1) S(3)] cs(2) nth_mem [OF j] unfolding below_def by fastforce
    qed
    ultimately have "steps_left E st' < steps_left E st" using S(6) True by (intro steps_left_less) auto
    then have "steps_left E st' < n" using Suc.prems(4) by simp
    from Suc.IH [OF S(2,3) f this] obtain st'' B'' F'' gs'' t'' where R: "compact_source n fuel cs st' = Some st''"
      "compacting cs m0 U ps0 st'' B'' F'' gs'' t''" "at_source cs B'' st'' t''" "currentSource_hc st' \<le> currentSource_hc st''"
      "freeRegion st'' = 0 \<or> at_free cs F'' st''" by (elim exE conjE) (rule that)
    then show ?thesis using S(1,4) True
      by - (rule exI [of _ st''], rule exI [of _ B''], rule exI [of _ F''], rule exI [of _ gs''], rule exI [of _ t''], simp)
  qed
qed simp

text \<open>Between two clusters: what has moved lies before the clusters to come.\<close>

abbreviation moved_before :: "HeapCluster list \<Rightarrow> nat \<Rightarrow> nat \<Rightarrow> bool" where
  "moved_before cs j t \<equiv> \<forall>k<length cs. j \<le> k \<longrightarrow> t \<le> m_payloadStart (cs ! k)"

lemma first_block:
  assumes L: "layout cs m B F (\<lambda>k. payload (cs ! k))" and cs: "clusters_ok cs" and j: "j < length cs"
  shows "m_payloadStart (cs ! j) \<in> B j \<or> m_payloadStart (cs ! j) = m_payloadEnd (cs ! j)"
proof (cases "m_payloadStart (cs ! j) = m_payloadEnd (cs ! j)")
  case False
  then have "m_payloadStart (cs ! j) \<in> payload (cs ! j)" using clusters_okD(1) [OF cs j] by simp
  then obtain b where b: "b \<in> B j" "m_payloadStart (cs ! j) \<in> {b..<b + extent (fst m) b}"
    using partitionD(5) [OF layoutD(1) [OF L j]] by blast
  then have "b = m_payloadStart (cs ! j)" using block_nonzero(2) [OF L cs j b(1)] by simp
  then show ?thesis using b(1) by simp
qed simp

lemma steps_left_bound: "steps_left E st < (E + 1) * (E + 1)"
proof -
  have "(E - currentSource st) * (E + 1) \<le> E * (E + 1)" by (intro mult_le_mono1) simp
  then show ?thesis unfolding steps_left_def by simp
qed

lemma compact_clusters_spec:
  assumes cs: "clusters_ok cs" "below cs E" and fuel: "65536 \<le> fuel" "(E + 1) * (E + 1) \<le> fuel"
  shows "compacting cs m0 U ps0 st B F gs t \<Longrightarrow> moved_before cs (currentSource_hc st) t \<Longrightarrow> freeRegion st = 0 \<or> at_free cs F st \<Longrightarrow>
    t \<le> E \<Longrightarrow> length cs - currentSource_hc st < n \<Longrightarrow>
    \<exists>st' B' F' gs' t'. compact_clusters n fuel cs st = Some st' \<and> compacting cs m0 U ps0 st' B' F' gs' t' \<and> t' \<le> E"
proof (induction n arbitrary: st B F gs t)
  case (Suc n)
  let ?j = "currentSource_hc st"
  show ?case
  proof (cases "?j < length cs")
    case False
    then show ?thesis using Suc.prems(1,4) by auto
  next
    case True
    let ?c = "cs ! ?j"
    let ?st = "st\<lparr>currentSource := m_payloadStart ?c, currentSource_end := m_payloadEnd ?c\<rparr>"
    have L: "layout cs (memory st) B F (\<lambda>k. payload (cs ! k))" using Suc.prems(1) by (simp add: compacting_def)
    have L': "layout cs (memory ?st) B F (\<lambda>k. payload (cs ! k))" using L by simp
    obtain st2 where st2: "st2 = (if freeRegion ?st = 0 then to_free_region 0 cs ?st else ?st)" by blast
    obtain k p where kp: "st2 = ?st\<lparr>freeRegion_hc := k, freeRegion := p\<rparr>" "p = 0 \<or> k < length cs \<and> p \<in> set (F k)"
    proof (cases "freeRegion ?st = 0")
      case True
      then show ?thesis using to_free_region_spec [OF L' cs(1), of 0] st2 that by auto
    next
      case False
      then have "at_free cs F st" using Suc.prems(3) by simp
      then show ?thesis using that [of "freeRegion st" "freeRegion_hc st"] False st2 by (simp add: at_free_def)
    qed
    have C: "compacting cs m0 U ps0 st2 B F gs t" using Suc.prems(1) by (simp add: kp(1) compacting_def)
    have run: "compact_clusters (Suc n) fuel cs st = (if freeRegion st2 = 0 then Some st2
        else (case compact_source fuel fuel cs st2 of None \<Rightarrow> None
              | Some s \<Rightarrow> compact_clusters n fuel cs (s\<lparr>currentSource_hc := Suc (currentSource_hc s)\<rparr>)))"
      using True st2 by (simp add: Let_def)
    show ?thesis
    proof (cases "freeRegion st2 = 0")
      case True
      then show ?thesis using run C Suc.prems(4) by auto
    next
      case False
      have A: "at_free cs F st2" using False kp by (auto simp: at_free_def)
      have "at_source cs B st2 t"
        using True Suc.prems(2) first_block [OF L cs(1) True] by (auto simp: kp(1) at_source_def)
      moreover have "steps_left E st2 < fuel" using steps_left_bound [of E st2] fuel(2) by (rule less_le_trans)
      ultimately obtain st' B' F' gs' t' where R: "compact_source fuel fuel cs st2 = Some st'" "compacting cs m0 U ps0 st' B' F' gs' t'"
        "at_source cs B' st' t'" "currentSource_hc st2 \<le> currentSource_hc st'" "freeRegion st' = 0 \<or> at_free cs F' st'"
        using compact_source_spec [OF cs fuel(1) C _ A, of fuel] by blast
      let ?st' = "st'\<lparr>currentSource_hc := Suc (currentSource_hc st')\<rparr>"
      have Lr: "layout cs (memory st') B' F' (\<lambda>k. payload (cs ! k))" using R(2) by (simp add: compacting_def)
      have j': "currentSource_hc st' < length cs" "t' \<le> currentSource st'" using R(3) by (simp_all add: at_source_def)
      have "t' \<le> m_payloadStart (cs ! k)" if "k < length cs" "Suc (currentSource_hc st') \<le> k" for k
        using clusters_okD(3) [OF cs(1) j'(1), of k] that source_bounds(2) [OF Lr cs(1) R(3)] j'(2) by simp
      then have "moved_before cs (currentSource_hc ?st') t'" by simp
      moreover have "t' \<le> E" using j' source_bounds(2) [OF Lr cs(1) R(3)] cs(2) nth_mem [OF j'(1)] unfolding below_def by fastforce
      moreover have "compacting cs m0 U ps0 ?st' B' F' gs' t'" using R(2) by (simp add: compacting_def)
      moreover have "freeRegion ?st' = 0 \<or> at_free cs F' ?st'" using R(5) by (simp add: at_free_def)
      moreover have "length cs - currentSource_hc ?st' < n" using Suc.prems(5) R(4) True by (simp add: kp(1))
      ultimately obtain st'' B'' F'' gs'' t'' where "compact_clusters n fuel cs ?st' = Some st''" "compacting cs m0 U ps0 st'' B'' F'' gs'' t''" "t'' \<le> E"
        using Suc.IH by blast
      then show ?thesis using run False R(1) by auto
    qed
  qed
qed simp

section \<open>The compaction\<close>

text \<open>
  The clusters before the compaction: each whole, its free blocks as the collection leaves them, and
  \<open>hss\<close> the blocks of each.
\<close>

definition compactable :: "HeapCluster list \<Rightarrow> (nat \<Rightarrow> BlockId) \<times> Links \<Rightarrow> nat list list \<Rightarrow> bool" where
  "compactable cs m hss \<longleftrightarrow> sorted_wrt (\<lambda>c d. foot c \<inter> foot d = {} \<and> m_payloadEnd c < m_payloadStart d) cs \<and> length hss = length cs \<and>
     (\<forall>k<length cs. heap_ok (in_memory (cs ! k) m) (hss ! k) \<and>
        (\<forall>h\<in>set (hss ! k). b_type (fst m h) = DATATYPE_FREEBLOCK \<longrightarrow> (\<exists>n. fst m h = RAW_ID DATATYPE_FREEBLOCK HB_Pinned n)))"

definition in_use_blocks :: "(nat \<Rightarrow> BlockId) \<Rightarrow> nat list list \<Rightarrow> nat set" where
  "in_use_blocks ids hss = {h \<in> set (concat hss). b_type (ids h) \<noteq> DATATYPE_FREEBLOCK}"

lemma compactable_layout:
  assumes "compactable cs m hss"
  shows "clusters_ok cs" "layout cs m (\<lambda>k. set (hss ! k)) (\<lambda>k. filter (is_free (in_memory (cs ! k) m)) (hss ! k)) (\<lambda>k. payload (cs ! k))"
    "all_use cs (\<lambda>k. set (hss ! k)) (\<lambda>k. filter (is_free (in_memory (cs ! k) m)) (hss ! k)) = in_use_blocks (fst m) hss"
proof -
  note D = assms [unfolded compactable_def]
  have H: "divided (in_memory (cs ! k) m) (set (hss ! k)) (filter (is_free (in_memory (cs ! k) m)) (hss ! k)) (payload (cs ! k))"
    "roomy (cs ! k)" if "k < length cs" for k
    using heap_divided [of "in_memory (cs ! k) m" "hss ! k"] D that by auto
  then show "clusters_ok cs" using D by (auto simp: clusters_ok_def in_set_conv_nth)
  show "layout cs m (\<lambda>k. set (hss ! k)) (\<lambda>k. filter (is_free (in_memory (cs ! k) m)) (hss ! k)) (\<lambda>k. payload (cs ! k))"
    using H(1) by (simp add: layout_def)
  have l: "length hss = length cs" using D by simp
  have "set hss = (!) hss ` {..<length cs}" unfolding l [symmetric] by (auto simp: set_conv_nth)
  then have "set (concat hss) = (\<Union>k\<in>{..<length cs}. set (hss ! k))" by simp
  then show "all_use cs (\<lambda>k. set (hss ! k)) (\<lambda>k. filter (is_free (in_memory (cs ! k) m)) (hss ! k)) = in_use_blocks (fst m) hss"
    by (auto simp: all_use_def in_use_blocks_def)
qed

lemma layout_compactable:
  assumes L: "layout cs m B F (\<lambda>k. payload (cs ! k))" and cs: "clusters_ok cs"
  shows "\<exists>hss. compactable cs m hss \<and> in_use_blocks (fst m) hss = all_use cs B F"
proof -
  have "\<exists>hs. heap_ok (in_memory (cs ! k) m) hs \<and> set hs = B k" if k: "k < length cs" for k
    using divided_heap [of "in_memory (cs ! k) m" "B k" "F k"] L clusters_okD(1) [OF cs k] k by (auto simp: layout_def)
  then obtain H where H: "\<forall>k<length cs. heap_ok (in_memory (cs ! k) m) (H k) \<and> set (H k) = B k" by metis
  let ?hss = "map H [0..<length cs]"
  have F: "\<exists>n. fst m h = RAW_ID DATATYPE_FREEBLOCK HB_Pinned n" if "k < length cs" "h \<in> B k" "b_type (fst m h) = DATATYPE_FREEBLOCK" for k h
    using layoutD(5,6) [OF L that(1)] that(2,3) by blast
  have c: "compactable cs m ?hss" using H F cs by (auto simp: compactable_def clusters_ok_def)
  have "in_use_blocks (fst m) ?hss = {h. \<exists>k<length cs. h \<in> B k \<and> b_type (fst m h) \<noteq> DATATYPE_FREEBLOCK}"
    using H by (auto simp: in_use_blocks_def)
  also have "\<dots> = all_use cs B F"
    using layoutD(5) [OF L] by (auto simp: all_use_def)
  finally show ?thesis using c by blast
qed

text \<open>The passes that were made since \<open>ps0\<close> are these regions, table by table.\<close>

definition passes_are :: "RelocationRegion list list \<Rightarrow> Relocation \<Rightarrow> moved list \<Rightarrow> bool" where
  "passes_are ps0 rel gs \<longleftrightarrow> m_relocBlocks rel = [] \<and>
     (\<exists>ps. passes rel = ps0 @ ps \<and> concat ps = map region_of gs \<and> (\<forall>p\<in>set ps. length p \<le> c_minimumSpaceForCompact))"

lemma Heap_Compact_spec:
  assumes C: "compactable cs m hss" "below cs E" and fuel: "65536 \<le> fuel" "(E + 1) * (E + 1) \<le> fuel" "length cs < fuel"
  shows "\<exists>s gs t hss'. Heap_Compact fuel cs (fst m) (snd m) rel = Some s \<and> compactable cs (memory s) hss' \<and> moves_ok gs t \<and> t \<le> E \<and>
    carried m (in_use_blocks (fst m) hss) (memory s) (in_use_blocks (cp_ids s) hss') gs \<and> passes_are (passes rel) (cp_reloc s) gs"
proof -
  let ?B = "\<lambda>k. set (hss ! k)" and ?F = "\<lambda>k. filter (is_free (in_memory (cs ! k) m)) (hss ! k)"
  note Y = compactable_layout [OF C(1)]
  let ?st = "\<lparr>cp_ids = fst m, cp_links = snd m, cp_reloc = Heap_Relocate_Prepare c_minimumSpaceForCompact rel,
          freeRegion_hc = 0, freeRegion = 0, currentSource_hc = 0, currentSource = 0, currentSource_end = 0\<rparr>"
  have pos: "0 < extent (fst m) h" if "h \<in> in_use_blocks (fst m) hss" for h
    using that partitionD(1) [OF layoutD(1) [OF Y(2)]] unfolding Y(3) [symmetric] all_use_def by blast
  have "carried m (in_use_blocks (fst m) hss) m (in_use_blocks (fst m) hss) []"
    using pos by (auto simp: carried_def same_word_def inj_on_def)
  then have "compacting cs m (in_use_blocks (fst m) hss) (passes rel) ?st ?B ?F [] 0"
    using Y(2) unfolding compacting_def Y(3) by (simp add: moves_ok_def logged_def Heap_Relocate_Prepare_def)
  note start = this
  have "\<exists>s B F gs t. compact_clusters fuel fuel cs ?st = Some s \<and> compacting cs m (in_use_blocks (fst m) hss) (passes rel) s B F gs t \<and> t \<le> E"
    by (rule compact_clusters_spec [OF Y(1) C(2) fuel(1,2) start]) (use fuel(3) in simp_all)
  then obtain s B F gs t where
    R: "compact_clusters fuel fuel cs ?st = Some s" "compacting cs m (in_use_blocks (fst m) hss) (passes rel) s B F gs t" "t \<le> E"
    by (elim exE conjE) (rule that)
  have L: "layout cs (memory s) B F (\<lambda>k. payload (cs ! k))" using R(2) by (simp add: compacting_def)
  obtain hss' where H: "compactable cs (memory s) hss'" "in_use_blocks (cp_ids s) hss' = all_use cs B F"
    using layout_compactable [OF L Y(1)] by auto
  have "logged (passes rel) (cp_reloc s) gs" using R(2) by (simp add: compacting_def)
  then have "logged (passes rel) (Heap_Relocate (cp_reloc s)) gs" by (rule logged_flush)
  moreover have "m_relocBlocks (Heap_Relocate (cp_reloc s)) = []" by (simp add: Heap_Relocate_def)
  ultimately have "passes_are (passes rel) (Heap_Relocate (cp_reloc s)) gs" by (simp add: logged_def passes_are_def)
  moreover have "Heap_Compact fuel cs (fst m) (snd m) rel = Some (s\<lparr>cp_reloc := Heap_Relocate (cp_reloc s)\<rparr>)"
    using R(1) by (simp add: Heap_Compact_def)
  ultimately show ?thesis using R(2,3) H
    by - (rule exI [of _ "s\<lparr>cp_reloc := Heap_Relocate (cp_reloc s)\<rparr>"], rule exI [of _ gs], rule exI [of _ t], rule exI [of _ hss'], simp add: compacting_def)
qed

end
