(* ===== verification/CompactionProps.thy ===== *)
theory CompactionProps imports CompactionRun begin

text \<open>
  What the compaction promises: where the blocks are afterwards, what they hold, and that the passes
  over the pointers, with their binary search, send every pointer into a block to where the block is.
\<close>

section \<open>Pointers\<close>

definition address :: "nat \<Rightarrow> nat \<Rightarrow> u32" where "address x b = of_nat (12 * x + b)"

text \<open>A pointer after the passes, each with its table.\<close>

definition relocate_pointer :: "RelocationRegion list list \<Rightarrow> u32 \<Rightarrow> u32" where
  "relocate_pointer ps = fold Heap_Relocate_ref ps"

abbreviation addressable :: "moved list \<Rightarrow> bool" where
  "addressable gs \<equiv> \<forall>(s, n, d)\<in>set gs. 12 * (s + n) < 4294967296"

lemma moves_addressable:
  assumes "moves_ok gs t" "12 * t < 4294967296"
  shows "addressable gs"
proof
  fix g assume g: "g \<in> set gs"
  obtain s n d where sn: "g = (s, n, d)" by (cases g) auto
  have "s + n \<le> t" using assms(1) g sn by (auto simp: moves_ok_def)
  then have "12 * (s + n) \<le> 12 * t" by (rule mult_le_mono2)
  then show "case g of (s, n, d) \<Rightarrow> 12 * (s + n) < 4294967296" using assms(2) sn by simp
qed

lemma word_small: "x < 4294967296 \<Longrightarrow> unat (of_nat x :: u32) = x"
  by (simp add: unsigned_of_nat take_bit_nat_eq_self)

lemma region_start: "m_start (region_of (s, n, d)) = of_nat (12 * s)"
  by (simp add: region_of_def moved_region_def byte_address_def)

lemma region_end: "m_end (region_of (s, n, d)) = of_nat (12 * (s + n))"
  by (simp add: region_of_def moved_region_def byte_address_def distrib_left)

lemma region_offset: "m_offset (region_of (s, n, d)) = of_nat (12 * d) - of_nat (12 * s)"
  by (simp add: region_of_def moved_region_def byte_address_def)

lemma in_region_address:
  assumes "12 * (s + n) < 4294967296" "12 * x + b < 4294967296" "b < 12"
  shows "in_region (address x b) (region_of (s, n, d)) \<longleftrightarrow> inside x (s, n, d)"
proof -
  have s: "12 * s < 4294967296" using assms(1) by simp
  have "12 * s \<le> 12 * x + b \<and> 12 * x + b < 12 * (s + n) \<longleftrightarrow> s \<le> x \<and> x < s + n" using assms(3) by auto
  then show ?thesis
    unfolding in_region_def inside_def address_def region_start region_end word_le_nat_alt word_less_nat_alt
      word_small [OF s] word_small [OF assms(1)] word_small [OF assms(2)] by simp
qed

lemma relocated_address:
  assumes "addressable gs" "12 * x + b < 4294967296" "b < 12"
  shows "relocated (map region_of gs) (address x b) = address (relocate gs x) b"
  using assms(1)
proof (induction gs)
  case (Cons g gs)
  obtain s n d where g: "g = (s, n, d)" by (cases g) auto
  have a: "12 * (s + n) < 4294967296" "addressable gs" using Cons.prems unfolding g by auto
  note iff = in_region_address [OF a(1) assms(2,3), of d]
  show ?case
  proof (cases "inside x g")
    case True
    then have x: "s \<le> x" by (simp add: g inside_def)
    have "address x b + (of_nat (12 * d) - of_nat (12 * s)) = address (d + (x - s)) b"
    proof -
      have "12 * x + b = 12 * s + (12 * (x - s) + b)" using x by simp
      then have "address x b = of_nat (12 * s) + of_nat (12 * (x - s) + b)" unfolding address_def by (simp only: of_nat_add)
      moreover have "address (d + (x - s)) b = of_nat (12 * d) + of_nat (12 * (x - s) + b)"
        unfolding address_def by (simp only: of_nat_add distrib_left add.assoc)
      ultimately show ?thesis by simp
    qed
    then show ?thesis using True iff by (simp add: g relocated_def relocate_def region_offset)
  next
    case False
    then have "relocated (map region_of (g # gs)) (address x b) = relocated (map region_of gs) (address x b)"
      using iff by (simp add: g relocated_def)
    moreover have "relocate (g # gs) x = relocate gs x" using False by (simp add: relocate_def)
    ultimately show ?thesis using Cons.IH a(2) by simp
  qed
qed (simp add: relocated_def)

text \<open>A table of the compaction is in order, as the search needs it.\<close>

lemma regions_of_moves:
  assumes "moves_ok gs t" "addressable gs"
  shows "regions_ok (map region_of gs)"
proof -
  have "m_start (region_of g) < m_end (region_of g)" if "g \<in> set gs" for g
  proof -
    obtain s n d where g: "g = (s, n, d)" by (cases g) auto
    have a: "12 * (s + n) < 4294967296" "0 < n" using assms that g by (auto simp: moves_ok_def)
    then have b: "12 * s < 4294967296" by simp
    show ?thesis unfolding g region_start region_end word_less_nat_alt word_small [OF a(1)] word_small [OF b] using a(2) by simp
  qed
  moreover have "sorted_wrt (\<lambda>r q. m_end r \<le> m_start q) (map region_of gs)"
    unfolding sorted_wrt_map
  proof (rule sorted_wrt_mono_rel)
    show "sorted_wrt (\<lambda>(s, n, d) (s', n', d'). s + n \<le> s') gs" using assms(1) by (simp add: moves_ok_def)
    show "m_end (region_of g) \<le> m_start (region_of h)" if m: "g \<in> set gs" "h \<in> set gs" and r: "(case g of (s, n, d) \<Rightarrow> \<lambda>(s', n', d'). s + n \<le> s') h" for g h
    proof -
      obtain s n d s' n' d' where gh: "g = (s, n, d)" "h = (s', n', d')" by (cases g; cases h) auto
      have a: "12 * (s + n) < 4294967296" "12 * s' < 4294967296" using assms(2) m gh by fastforce+
      show ?thesis unfolding gh region_start region_end word_le_nat_alt word_small [OF a(1)] word_small [OF a(2)] using r gh by simp
    qed
  qed
  ultimately show ?thesis unfolding regions_ok_def by (metis (no_types, lifting) imageE list.set_map)
qed

lemma moves_ok_append: "moves_ok (gs @ hs) t \<Longrightarrow> moves_ok gs t \<and> moves_ok hs t"
  by (auto simp: moves_ok_def sorted_wrt_append)

lemma relocate_again:
  assumes "moves_ok (gs @ hs) t"
  shows "relocate hs (relocate gs x) = relocate (gs @ hs) x"
proof (cases "\<exists>g\<in>set gs. inside x g")
  case True
  have "relocate gs x < x" using relocate_inside(1) moves_ok_append [OF assms] True by blast
  obtain g where g: "g \<in> set gs" "inside x g" using True by blast
  have "\<not> inside (relocate gs x) h" if "h \<in> set hs" for h
  proof -
    obtain s n d s' n' d' where gh: "g = (s, n, d)" "h = (s', n', d')" by (cases g; cases h) auto
    have "s + n \<le> s'" using assms g(1) that gh by (fastforce simp: moves_ok_def sorted_wrt_append)
    then show ?thesis using \<open>relocate gs x < x\<close> g(2) by (simp add: gh inside_def)
  qed
  then have "relocate hs (relocate gs x) = relocate gs x" using relocate_outside by blast
  then show ?thesis using True by (simp add: relocate_append)
next
  case False
  then show ?thesis using relocate_outside [OF False] by (simp add: relocate_append)
qed

lemma relocate_le: "moves_ok gs t \<Longrightarrow> relocate gs x \<le> x"
  using relocate_inside(1) relocate_outside by (metis eq_iff less_imp_le)

lemma relocate_pointer_address:
  assumes "moves_ok gs t" "addressable gs" "concat ps = map region_of gs" "12 * x + b < 4294967296" "b < 12"
  shows "relocate_pointer ps (address x b) = address (relocate gs x) b"
  using assms
proof (induction ps arbitrary: gs x)
  case (Cons p ps)
  have "map region_of gs = p @ concat ps" using Cons.prems(3) by simp
  then obtain us vs where uv: "gs = us @ vs" "p = map region_of us" "concat ps = map region_of vs"
    unfolding map_eq_append_conv by blast
  have M: "moves_ok us t" "moves_ok vs t" "addressable us" "addressable vs"
    using Cons.prems(1,2) uv(1) moves_ok_append [of us vs t] by auto
  have "Heap_Relocate_ref p (address x b) = address (relocate us x) b"
    unfolding uv(2) Heap_Relocate_ref_correct [OF regions_of_moves [OF M(1,3)]] by (rule relocated_address [OF M(3) Cons.prems(4,5)])
  then have "relocate_pointer (p # ps) (address x b) = relocate_pointer ps (address (relocate us x) b)" by (simp add: relocate_pointer_def)
  also have "\<dots> = address (relocate vs (relocate us x)) b"
    by (rule Cons.IH [OF M(2,4) uv(3) _ Cons.prems(5)]) (use relocate_le [OF M(1), of x] Cons.prems(4) in simp)
  also have "\<dots> = address (relocate gs x) b" using relocate_again Cons.prems(1) unfolding uv(1) by simp
  finally show ?case .
qed (simp add: relocate_pointer_def)

section \<open>The tables of a compaction\<close>

lemma moves_of_pass:
  assumes "moves_ok gs t" "concat ps = map region_of gs" "p \<in> set ps"
  shows "\<exists>hs. p = map region_of hs \<and> moves_ok hs t \<and> set hs \<subseteq> set gs"
proof -
  obtain us vs where "ps = us @ p # vs" using assms(3) by (meson split_list)
  then have "map region_of gs = concat us @ p @ concat vs" using assms(2) by simp
  then obtain as cs where a: "gs = as @ cs" "p @ concat vs = map region_of cs" unfolding map_eq_append_conv by blast
  then obtain hs bs where "cs = hs @ bs" "p = map region_of hs" unfolding append_eq_map_conv by blast
  then have h: "gs = as @ hs @ bs" "p = map region_of hs" using a(1) by simp_all
  have "moves_ok hs t" using assms(1) moves_ok_append [of as "hs @ bs" t] moves_ok_append [of hs bs t] unfolding h(1) by blast
  then show ?thesis using h by (intro exI [of _ hs]) auto
qed

text \<open>What the compaction needs: room for the addresses, and enough fuel.\<close>

definition fuelled :: "HeapCluster list \<Rightarrow> nat \<Rightarrow> nat \<Rightarrow> bool" where
  "fuelled cs E fuel \<longleftrightarrow> below cs E \<and> 12 * E < 4294967296 \<and> 65536 \<le> fuel \<and> (E + 1) * (E + 1) \<le> fuel \<and> length cs < fuel"

abbreviation new_passes :: "Relocation \<Rightarrow> Compaction \<Rightarrow> RelocationRegion list list" where
  "new_passes rel s \<equiv> drop (length (passes rel)) (passes (cp_reloc s))"

text \<open>All of it in one place; the properties below are parts of it.\<close>

lemma compaction_spec:
  assumes C: "compactable cs m hss" and F: "fuelled cs E fuel"
  shows "\<exists>s gs t hss'. Heap_Compact fuel cs (fst m) (snd m) rel = Some s \<and> compactable cs (memory s) hss' \<and> moves_ok gs t \<and> addressable gs \<and>
    carried m (in_use_blocks (fst m) hss) (memory s) (in_use_blocks (cp_ids s) hss') gs \<and> m_relocBlocks (cp_reloc s) = [] \<and>
    concat (new_passes rel s) = map region_of gs \<and> (\<forall>p\<in>set (new_passes rel s). length p \<le> c_minimumSpaceForCompact) \<and>
    passes (cp_reloc s) = passes rel @ new_passes rel s"
proof -
  have D: "below cs E" "65536 \<le> fuel" "(E + 1) * (E + 1) \<le> fuel" "length cs < fuel" using F by (simp_all only: fuelled_def)
  obtain s gs t hss' where R: "Heap_Compact fuel cs (fst m) (snd m) rel = Some s" "compactable cs (memory s) hss'" "moves_ok gs t" "t \<le> E"
    "carried m (in_use_blocks (fst m) hss) (memory s) (in_use_blocks (cp_ids s) hss') gs" "passes_are (passes rel) (cp_reloc s) gs"
    using Heap_Compact_spec [OF C D, of rel] by (elim exE conjE) (rule that)
  have "12 * t < 4294967296" using R(4) F by (simp add: fuelled_def)
  then have "addressable gs" by (rule moves_addressable [OF R(3)])
  moreover have "m_relocBlocks (cp_reloc s) = []" "concat (new_passes rel s) = map region_of gs"
    "\<forall>p\<in>set (new_passes rel s). length p \<le> c_minimumSpaceForCompact" "passes (cp_reloc s) = passes rel @ new_passes rel s"
    using R(6) by (auto simp: passes_are_def)
  ultimately show ?thesis using R(1-3,5) by blast
qed

lemma carriedD:
  assumes "carried m0 U m V gs" "h \<in> U"
  shows "unmovable (fst m0) h \<Longrightarrow> relocate gs h = h" "k < extent (fst m0) h \<Longrightarrow> relocate gs (h + k) = relocate gs h + k"
    "k < extent (fst m0) h \<Longrightarrow> same_word m0 (h + k) m (relocate gs h + k)"
proof -
  have "relocate gs x = relocate gs h + (x - h) \<and> same_word m0 x m (relocate gs x)" if "x \<in> {h..<h + extent (fst m0) h}" for x
    using assms that unfolding carried_def by blast
  from this [of "h + k"] show "k < extent (fst m0) h \<Longrightarrow> relocate gs (h + k) = relocate gs h + k"
    "k < extent (fst m0) h \<Longrightarrow> same_word m0 (h + k) m (relocate gs h + k)" by auto
  show "unmovable (fst m0) h \<Longrightarrow> relocate gs h = h" using assms unfolding carried_def by blast
qed

lemma in_use_addressable:
  assumes "compactable cs m hss" "fuelled cs E fuel" "h \<in> in_use_blocks (fst m) hss" "k < extent (fst m) h"
  shows "12 * (h + k) + 12 \<le> 4294967295"
proof -
  obtain hs where hs: "hs \<in> set hss" "h \<in> set hs" using assms(3) by (auto simp: in_use_blocks_def)
  obtain j where j: "j < length hss" "hs = hss ! j" using hs(1) by (auto simp: in_set_conv_nth)
  then have j: "j < length cs" "h \<in> set (hss ! j)" using assms(1) hs(2) by (simp_all add: compactable_def)
  note Y = compactable_layout(1,2) [OF assms(1)]
  have "h + k < m_payloadEnd (cs ! j)" using block_nonzero(3) [OF Y(2,1) j] assms(4) by simp
  also have "\<dots> \<le> E" using assms(2) nth_mem [OF j(1)] unfolding fuelled_def below_def by blast
  finally have "12 * (h + k) + 12 \<le> 12 * E" by simp
  then show ?thesis using assms(2) by (simp add: fuelled_def)
qed

section \<open>The promises\<close>

text \<open>A cluster of ten blocks: a free region, an object of 3, a pinned one, a free region, an object.\<close>

definition compact_sample :: "HeapCluster list" where
  "compact_sample = [\<lparr>m_payloadStart = 1, m_payloadEnd = 11, m_freeList = \<lparr>Head = 20, Tail = 21\<rparr>,
     m_ids = (\<lambda>x. zero_id)(1 := RAW_ID DATATYPE_FREEBLOCK HB_Pinned 2, 3 := RAW_ID DATATYPE_CLASS 0 3, 6 := RAW_ID DATATYPE_STRING HB_Pinned 1,
        7 := RAW_ID DATATYPE_FREEBLOCK HB_Pinned 3, 10 := RAW_ID DATATYPE_STRING 0 1),
     m_links = \<lparr>m_nextNode = (\<lambda>x. 0)(20 := 1, 1 := 7, 7 := 21), m_prevNode = (\<lambda>x. 0)(21 := 7, 7 := 1, 1 := 20)\<rparr>\<rparr>]"

abbreviation sample_memory :: "(nat \<Rightarrow> BlockId) \<times> Links" where
  "sample_memory \<equiv> words (compact_sample ! 0)"

lemma compact_sample_ok: "compactable compact_sample sample_memory [[1, 3, 6, 7, 10]]" "fuelled compact_sample 11 65536"
  by (simp_all add: compactable_def compact_sample_def heap_ok_def dll_def fuelled_def below_def, auto)

lemma compact_sample_use: "in_use_blocks (fst sample_memory) [[1, 3, 6, 7, 10]] = {3, 6, 10}"
  by (auto simp: in_use_blocks_def compact_sample_def)

text \<open>
  C5: The compaction ends, whatever the blocks and the free regions are. The blocks of every cluster
  tile its memory again and its list holds the free ones in order. Each block in use has exactly one
  place, at or before the one it had and its own when it is pinned or an event, and holds there,
  word by word, what it held; nothing else is in use.
\<close>

theorem compaction_moves_objects:
  assumes "compactable cs m hss" "fuelled cs E fuel"
  shows "\<exists>s place hss'. Heap_Compact fuel cs (fst m) (snd m) rel = Some s \<and> compactable cs (cp_ids s, cp_links s) hss' \<and>
    inj_on place (in_use_blocks (fst m) hss) \<and> in_use_blocks (cp_ids s) hss' = place ` in_use_blocks (fst m) hss \<and>
    (\<forall>h\<in>in_use_blocks (fst m) hss. place h \<le> h \<and> (unmovable (fst m) h \<longrightarrow> place h = h) \<and>
       (\<forall>k<extent (fst m) h. same_word m (h + k) (cp_ids s, cp_links s) (place h + k)))"
proof -
  obtain s gs t hss' where R: "Heap_Compact fuel cs (fst m) (snd m) rel = Some s" "compactable cs (memory s) hss'" "moves_ok gs t"
    "carried m (in_use_blocks (fst m) hss) (memory s) (in_use_blocks (cp_ids s) hss') gs"
    using compaction_spec [OF assms, of rel] by blast
  have "inj_on (relocate gs) (in_use_blocks (fst m) hss)" "in_use_blocks (cp_ids s) hss' = relocate gs ` in_use_blocks (fst m) hss"
    using R(4) unfolding carried_def by blast+
  then show ?thesis using R(1,2) relocate_le [OF R(3)] carriedD(1,3) [OF R(4)] by blast
qed

theorem compaction_moves_objects_witness:
  "\<exists>s place hss'. Heap_Compact 65536 compact_sample (fst sample_memory) (snd sample_memory) \<lparr>m_relocBlocks = [], m_relocTotal = 0, passes = []\<rparr> = Some s \<and>
    compactable compact_sample (cp_ids s, cp_links s) hss' \<and> in_use_blocks (cp_ids s) hss' = {place (3 :: nat), 6, place 10} \<and> place 3 \<le> 3 \<and> place 10 \<le> 10 \<and>
    cp_ids s (place 3) = RAW_ID DATATYPE_CLASS 0 3"
proof -
  have pin: "unmovable (fst sample_memory) 6" by (simp add: compact_sample_def)
  have ext: "extent (fst sample_memory) 3 = 3" "fst sample_memory 3 = RAW_ID DATATYPE_CLASS 0 3" by (simp_all add: compact_sample_def)
  obtain s place hss' where R: "Heap_Compact 65536 compact_sample (fst sample_memory) (snd sample_memory) \<lparr>m_relocBlocks = [], m_relocTotal = 0, passes = []\<rparr> = Some s"
    "compactable compact_sample (cp_ids s, cp_links s) hss'" "in_use_blocks (cp_ids s) hss' = place ` {3, 6, 10}"
    "\<forall>h\<in>{3, 6, 10}. place h \<le> h \<and> (unmovable (fst sample_memory) h \<longrightarrow> place h = h) \<and>
       (\<forall>k<extent (fst sample_memory) h. same_word sample_memory (h + k) (cp_ids s, cp_links s) (place h + k))"
    using compaction_moves_objects [OF compact_sample_ok, of "\<lparr>m_relocBlocks = [], m_relocTotal = 0, passes = []\<rparr>"]
    unfolding compact_sample_use by (elim exE conjE) (rule that)
  have p: "place 6 = 6" "place 3 \<le> 3" "place 10 \<le> 10" using R(4) pin by auto
  have "\<forall>k<extent (fst sample_memory) 3. same_word sample_memory (3 + k) (cp_ids s, cp_links s) (place 3 + k)" using R(4) by simp
  then have "same_word sample_memory (3 + 0) (cp_ids s, cp_links s) (place 3 + 0)" using ext(1) by (metis zero_less_numeral)
  then have "cp_ids s (place 3) = RAW_ID DATATYPE_CLASS 0 3" using ext(2) by (simp add: same_word_def)
  then show ?thesis using R(1-3) p
    by - (rule exI [of _ s], rule exI [of _ place], rule exI [of _ hss'], simp)
qed

text \<open>
  C4: After the passes of a compaction, a pointer into any word of any block in use points to the same byte
  of the same word of the block, wherever the block has gone and however many passes were made.
\<close>

theorem compaction_relocates_pointers:
  assumes "compactable cs m hss" "fuelled cs E fuel"
  shows "\<exists>s place. Heap_Compact fuel cs (fst m) (snd m) rel = Some s \<and>
    (\<forall>h\<in>in_use_blocks (fst m) hss. \<forall>k<extent (fst m) h. same_word m (h + k) (cp_ids s, cp_links s) (place h + k) \<and>
       (\<forall>b<12. relocate_pointer (new_passes rel s) (address (h + k) b) = address (place h + k) b))"
proof -
  obtain s gs t hss' where R: "Heap_Compact fuel cs (fst m) (snd m) rel = Some s" "moves_ok gs t" "addressable gs"
    "carried m (in_use_blocks (fst m) hss) (memory s) (in_use_blocks (cp_ids s) hss') gs" "concat (new_passes rel s) = map region_of gs"
    using compaction_spec [OF assms, of rel] by blast
  have "relocate_pointer (new_passes rel s) (address (h + k) b) = address (relocate gs h + k) b"
    if h: "h \<in> in_use_blocks (fst m) hss" and k: "k < extent (fst m) h" and b: "b < 12" for h k b
  proof -
    have "12 * (h + k) + b < 4294967296" using in_use_addressable [OF assms h k] b by simp
    from relocate_pointer_address [OF R(2,3,5) this b] show ?thesis unfolding carriedD(2) [OF R(4) h k] .
  qed
  then show ?thesis using R(1) carriedD(3) [OF R(4)] by blast
qed

theorem compaction_relocates_pointers_witness:
  "\<exists>s place. Heap_Compact 65536 compact_sample (fst sample_memory) (snd sample_memory) \<lparr>m_relocBlocks = [], m_relocTotal = 0, passes = []\<rparr> = Some s \<and>
    relocate_pointer (passes (cp_reloc s)) (address 4 8) = address (place (3 :: nat) + 1) 8 \<and>
    cp_ids s (place 3) = RAW_ID DATATYPE_CLASS 0 3"
proof -
  have ext: "extent (fst sample_memory) 3 = 3" "fst sample_memory 3 = RAW_ID DATATYPE_CLASS 0 3" by (simp_all add: compact_sample_def)
  obtain s place where R: "Heap_Compact 65536 compact_sample (fst sample_memory) (snd sample_memory) \<lparr>m_relocBlocks = [], m_relocTotal = 0, passes = []\<rparr> = Some s"
    "\<forall>h\<in>{3, 6, 10}. \<forall>k<extent (fst sample_memory) h. same_word sample_memory (h + k) (cp_ids s, cp_links s) (place h + k) \<and>
       (\<forall>b<12. relocate_pointer (new_passes \<lparr>m_relocBlocks = [], m_relocTotal = 0, passes = []\<rparr> s) (address (h + k) b) = address (place h + k) b)"
    using compaction_relocates_pointers [OF compact_sample_ok, of "\<lparr>m_relocBlocks = [], m_relocTotal = 0, passes = []\<rparr>"]
    unfolding compact_sample_use by (elim exE conjE) (rule that)
  have W: "\<forall>k<3. same_word sample_memory (3 + k) (cp_ids s, cp_links s) (place 3 + k) \<and>
       (\<forall>b<12. relocate_pointer (passes (cp_reloc s)) (address (3 + k) b) = address (place 3 + k) b)"
    using R(2) ext(1) by simp
  have "same_word sample_memory (3 + 0) (cp_ids s, cp_links s) (place 3 + 0)" using W by (metis zero_less_numeral)
  then have "cp_ids s (place 3) = RAW_ID DATATYPE_CLASS 0 3" using ext(2) by (simp add: same_word_def)
  moreover have "relocate_pointer (passes (cp_reloc s)) (address (3 + 1) 8) = address (place 3 + 1) 8" using spec [OF W, of 1] by simp
  ultimately show ?thesis using R(1) by - (rule exI [of _ s], rule exI [of _ place], simp)
qed

text \<open>
  C6: The table of the regions, 128 places on the stack of the compaction, is never overrun: it is emptied
  by a pass before it is full, and is empty at the end. In every pass its regions are not empty, lie
  apart and are in the order of their addresses, as the binary search of the pointers needs.
\<close>

theorem compaction_tables:
  assumes "compactable cs m hss" "fuelled cs E fuel"
  shows "\<exists>s ps. Heap_Compact fuel cs (fst m) (snd m) rel = Some s \<and> m_relocBlocks (cp_reloc s) = [] \<and> passes (cp_reloc s) = passes rel @ ps \<and>
    (\<forall>p\<in>set ps. length p \<le> 128 \<and> regions_ok p \<and> (\<forall>r\<in>set p. m_destination r < m_start r \<and> m_offset r = m_destination r - m_start r))"
proof -
  obtain s gs t hss' where R: "Heap_Compact fuel cs (fst m) (snd m) rel = Some s" "moves_ok gs t" "addressable gs" "m_relocBlocks (cp_reloc s) = []"
    "concat (new_passes rel s) = map region_of gs" "\<forall>p\<in>set (new_passes rel s). length p \<le> c_minimumSpaceForCompact"
    "passes (cp_reloc s) = passes rel @ new_passes rel s"
    using compaction_spec [OF assms, of rel] by blast
  have "regions_ok p \<and> (\<forall>r\<in>set p. m_destination r < m_start r \<and> m_offset r = m_destination r - m_start r)" if p: "p \<in> set (new_passes rel s)" for p
  proof -
    obtain hs where hs: "p = map region_of hs" "moves_ok hs t" "set hs \<subseteq> set gs" using moves_of_pass [OF R(2,5) p] by blast
    then have "addressable hs" using R(3) by blast
    moreover have "m_destination (region_of g) < m_start (region_of g)" if "g \<in> set hs" for g
    proof -
      obtain x n d where g: "g = (x, n, d)" by (cases g) auto
      have a: "12 * (x + n) < 4294967296" "d < x" using \<open>addressable hs\<close> hs(2) that g by (auto simp: moves_ok_def)
      then have b: "12 * x < 4294967296" "12 * d < 4294967296" by simp_all
      show ?thesis using a(2) by (simp add: g region_of_def moved_region_def byte_address_def word_less_nat_alt word_small [OF b(1)] word_small [OF b(2)] del: of_nat_mult)
    qed
    moreover have "m_offset (region_of g) = m_destination (region_of g) - m_start (region_of g)" for g
      by (cases g) (simp add: region_of_def moved_region_def)
    ultimately show ?thesis using hs(1,2) regions_of_moves by auto
  qed
  then show ?thesis using R(1,4,6,7) by (auto simp: c_minimumSpaceForCompact_def)
qed

theorem compaction_tables_witness:
  "\<exists>s. Heap_Compact 65536 compact_sample (fst sample_memory) (snd sample_memory) \<lparr>m_relocBlocks = [], m_relocTotal = 0, passes = []\<rparr> = Some s \<and>
    m_relocBlocks (cp_reloc s) = [] \<and> (\<forall>p\<in>set (passes (cp_reloc s)). length p \<le> 128 \<and> regions_ok p)"
  using compaction_tables [OF compact_sample_ok, of "\<lparr>m_relocBlocks = [], m_relocTotal = 0, passes = []\<rparr>"] by auto

end
