(* ===== verification/GcCompaction.thy ===== *)
theory GcCompaction imports GcCollectProps CompactionProps begin

text \<open>
  A collection and then a compaction, as the execution engine performs them when memory runs short: the
  heap that the collection leaves is one that the compaction can work on, and the objects in use
  come through both with their content, at the place their pointers are sent to.
\<close>

text \<open>The clusters are chained in the order of their addresses.\<close>

abbreviation in_order :: "HeapCluster list \<Rightarrow> bool" where
  "in_order cs \<equiv> sorted_wrt (\<lambda>c d. m_payloadEnd c < m_payloadStart d) cs"

lemma sorted_wrt_conj: "sorted_wrt P xs \<Longrightarrow> sorted_wrt Q xs \<Longrightarrow> sorted_wrt (\<lambda>x y. P x y \<and> Q x y) xs"
  by (induction xs) auto

lemma collected_compactable:
  assumes C: "collectable fuel v e cs hss fins ws U g" and R: "collected v e cs hss fins ws g r A hss'" and o: "in_order cs"
  shows "compactable cs (col_ids r, col_links r) hss'"
proof -
  have "sorted_wrt (\<lambda>c d. foot c \<inter> foot d = {}) cs" using C by (simp add: collectable_def)
  then have s: "sorted_wrt (\<lambda>c d. foot c \<inter> foot d = {} \<and> m_payloadEnd c < m_payloadStart d) cs" using o by (rule sorted_wrt_conj)
  have c: "cluster_recovered (cs ! i) (hss ! i) (marked A (gc_ids g), List_Initialize (m_weakDelegates_Reachable g) (gc_links g))
      (col_ids r, col_links r) (hss' ! i)" if "i < length cs" for i using R that by (simp add: collected_def)
  have "heap_ok (in_memory (cs ! i) (col_ids r, col_links r)) (hss' ! i)" if "i < length cs" for i
    using c [OF that] by (simp add: cluster_recovered_def)
  moreover have "\<exists>n. col_ids r h = RAW_ID DATATYPE_FREEBLOCK HB_Pinned n"
    if "i < length cs" "h \<in> set (hss' ! i)" "b_type (col_ids r h) = DATATYPE_FREEBLOCK" for i h
    using c [OF that(1)] that(2,3) by (simp add: cluster_recovered_def)
  moreover have "length hss' = length cs" using R by (simp add: collected_def)
  ultimately show ?thesis using s by (simp add: compactable_def)
qed

text \<open>A live object of the clusters after the collection.\<close>

lemma collected_object:
  assumes C: "collectable fuel v e cs hss fins ws U g" and R: "collected v e cs hss fins ws g r A hss'"
    and h: "h \<in> live v e fins g" "h \<in> set (concat hss)"
  shows "h \<in> in_use_blocks (col_ids r) hss'" "extent (col_ids r) h = extent (gc_ids g) h" "IsEvent (gc_ids g h) \<or> col_ids r h = gc_ids g h"
    "x \<in> {h..<h + extent (gc_ids g) h} \<Longrightarrow> b_type (col_ids r x) = b_type (gc_ids g x) \<and> b_size (col_ids r x) = b_size (gc_ids g x) \<and>
       m_nextNode (col_links r) x = m_nextNode (gc_links g) x \<and> m_prevNode (col_links r) x = m_prevNode (gc_links g) x"
proof -
  have len: "length hss = length cs" "length hss' = length cs"
    using C R by (auto simp: collectable_def collected_def list_all2_lengthD)
  obtain hs where "hs \<in> set hss" "h \<in> set hs" using h(2) by auto
  then obtain i where i: "i < length cs" "h \<in> set (hss ! i)" by (auto simp: in_set_conv_nth len(1))
  have c: "cluster_collected g A r (cs ! i) (hss ! i) (hss' ! i)" by (rule collected_clusters [OF C R i(1)])
  have "h \<in> A" using R h(1) by (auto simp: collected_def)
  then have u: "h \<in> set (used (within (cs ! i) (col_ids r) (col_links r)) (hss' ! i))"
    using c i(2) by (simp add: cluster_collected_def)
  have "hss' ! i \<in> set hss'" using i(1) len(2) by simp
  then show "h \<in> in_use_blocks (col_ids r) hss'" using u by (auto simp: used_def in_use_blocks_def)
  have "intact (within (cs ! i) (gc_ids g) (gc_links g)) (within (cs ! i) (col_ids r) (col_links r)) h"
    using c u by (simp add: cluster_collected_def)
  then have I: "IsEvent (gc_ids g h) \<or> col_ids r h = gc_ids g h"
    "\<forall>x\<in>{h..<h + extent (gc_ids g) h}. b_type (col_ids r x) = b_type (gc_ids g x) \<and> b_size (col_ids r x) = b_size (gc_ids g x) \<and>
       m_nextNode (col_links r) x = m_nextNode (gc_links g) x \<and> m_prevNode (col_links r) x = m_prevNode (gc_links g) x"
    by (simp_all add: intact_def)
  show "IsEvent (gc_ids g h) \<or> col_ids r h = gc_ids g h" by (rule I(1))
  show "x \<in> {h..<h + extent (gc_ids g) h} \<Longrightarrow> b_type (col_ids r x) = b_type (gc_ids g x) \<and> b_size (col_ids r x) = b_size (gc_ids g x) \<and>
       m_nextNode (col_links r) x = m_nextNode (gc_links g) x \<and> m_prevNode (col_links r) x = m_prevNode (gc_links g) x" using I(2) by blast
  have f: "tiles (gc_ids g) (m_payloadStart (cs ! i)) (hss ! i) (m_payloadEnd (cs ! i))"
    using C i(1) by (auto simp: collectable_def list_all2_conv_all_nth frame_ok_def)
  have "0 < extent (gc_ids g) h" using tiles_bounds(2) [OF f i(2)] by simp
  then have "h \<in> {h..<h + extent (gc_ids g) h}" by simp
  then have "b_size (col_ids r h) = b_size (gc_ids g h)" using I(2) by blast
  then show "extent (col_ids r) h = extent (gc_ids g) h" by simp
qed

text \<open>
  C1: When a collection is followed by a compaction, both end, and every object of the clusters that the roots
  reach is in use afterwards, at a place of its own, with the words it had before the collection
  (the header too, unless it is an event, whose mark is the code's to keep); and the passes of the
  compaction send every pointer into the object to the same byte of its new place.
\<close>

theorem collection_then_compaction:
  assumes "collectable fuel v e cs hss fins ws U g" "ExecuteGarbageCollection fuel v e cs fins ws g = Marked r"
    and "in_order cs" "fuelled cs E fuel'"
  shows "\<exists>s place hss'. Heap_Compact fuel' cs (col_ids r) (col_links r) rel = Some s \<and> compactable cs (cp_ids s, cp_links s) hss' \<and>
    inj_on place (live v e fins g \<inter> set (concat hss)) \<and>
    (\<forall>h\<in>live v e fins g \<inter> set (concat hss). place h \<in> in_use_blocks (cp_ids s) hss' \<and>
       (IsEvent (gc_ids g h) \<or> cp_ids s (place h) = gc_ids g h) \<and>
       (\<forall>k<extent (gc_ids g) h. b_type (cp_ids s (place h + k)) = b_type (gc_ids g (h + k)) \<and> b_size (cp_ids s (place h + k)) = b_size (gc_ids g (h + k)) \<and>
          m_nextNode (cp_links s) (place h + k) = m_nextNode (gc_links g) (h + k) \<and> m_prevNode (cp_links s) (place h + k) = m_prevNode (gc_links g) (h + k) \<and>
          (\<forall>b<12. relocate_pointer (new_passes rel s) (address (h + k) b) = address (place h + k) b)))"
proof -
  obtain A hss1 where c: "collected v e cs hss fins ws g r A hss1" using collection_spec [OF assms(1)] assms(2) by auto
  note Y = collected_compactable [OF assms(1) c assms(3)]
  obtain s gs t hss' where R: "Heap_Compact fuel' cs (col_ids r) (col_links r) rel = Some s" "compactable cs (memory s) hss'" "moves_ok gs t" "addressable gs"
    "carried (col_ids r, col_links r) (in_use_blocks (col_ids r) hss1) (memory s) (in_use_blocks (cp_ids s) hss') gs"
    "concat (new_passes rel s) = map region_of gs"
    using compaction_spec [OF Y assms(4), of rel] unfolding fst_conv snd_conv by (elim exE conjE) (rule that)
  let ?U = "in_use_blocks (col_ids r) hss1" and ?L = "live v e fins g \<inter> set (concat hss)"
  have inj: "inj_on (relocate gs) ?U" and im: "in_use_blocks (cp_ids s) hss' = relocate gs ` ?U" using R(5) unfolding carried_def by blast+
  have obj: "h \<in> ?U" "extent (col_ids r) h = extent (gc_ids g) h" "IsEvent (gc_ids g h) \<or> col_ids r h = gc_ids g h" if "h \<in> ?L" for h
    using collected_object(1-3) [OF assms(1) c, of h] that by blast+
  have "inj_on (relocate gs) ?L" by (rule inj_on_subset [OF inj]) (use obj(1) in blast)
  moreover have "relocate gs h \<in> in_use_blocks (cp_ids s) hss'" if "h \<in> ?L" for h using obj(1) [OF that] im by blast
  moreover have word: "same_word (col_ids r, col_links r) (h + k) (memory s) (relocate gs h + k)" if "h \<in> ?L" "k < extent (gc_ids g) h" for h k
    using carriedD(3) [OF R(5) obj(1) [OF that(1)]] obj(2) [OF that(1)] that(2) by simp
  moreover have "IsEvent (gc_ids g h) \<or> cp_ids s (relocate gs h) = gc_ids g h" if h: "h \<in> ?L" for h
  proof -
    have "0 < extent (col_ids r) h" using R(5) obj(1) [OF h] unfolding carried_def fst_conv by blast
    then have "0 < extent (gc_ids g) h" using obj(2) [OF h] by simp
    from word [OF h this] show ?thesis using obj(3) [OF h] by (simp add: same_word_def)
  qed
  moreover have "relocate_pointer (new_passes rel s) (address (h + k) b) = address (relocate gs h + k) b"
    if h: "h \<in> ?L" and k: "k < extent (gc_ids g) h" and b: "b < 12" for h k b
  proof -
    have k': "k < extent (fst (col_ids r, col_links r)) h" using k obj(2) [OF h] by simp
    have u: "h \<in> in_use_blocks (fst (col_ids r, col_links r)) hss1" using obj(1) [OF h] by simp
    have "12 * (h + k) + b < 4294967296" using in_use_addressable [OF Y assms(4) u k'] b by simp
    from relocate_pointer_address [OF R(3,4,6) this b] show ?thesis unfolding carriedD(2) [OF R(5) obj(1) [OF h] k'] .
  qed
  moreover have "b_type (cp_ids s (relocate gs h + k)) = b_type (gc_ids g (h + k)) \<and> b_size (cp_ids s (relocate gs h + k)) = b_size (gc_ids g (h + k)) \<and>
      m_nextNode (cp_links s) (relocate gs h + k) = m_nextNode (gc_links g) (h + k) \<and> m_prevNode (cp_links s) (relocate gs h + k) = m_prevNode (gc_links g) (h + k)"
    if h: "h \<in> ?L" and k: "k < extent (gc_ids g) h" for h k
  proof -
    have "h + k \<in> {h..<h + extent (gc_ids g) h}" using k by simp
    moreover have "h \<in> live v e fins g" "h \<in> set (concat hss)" using h by simp_all
    ultimately show ?thesis using collected_object(4) [OF assms(1) c] word [OF h k] by (simp add: same_word_def)
  qed
  ultimately show ?thesis using R(1,2)
    by - (rule exI [of _ s], rule exI [of _ "relocate gs"], rule exI [of _ hss'], blast)
qed

theorem collection_then_compaction_witness:
  "\<exists>r s place. ExecuteGarbageCollection 50 sample_view sample_roots sample_clusters [] sample_weak (sample_gc sample_ids []) = Marked r \<and>
     Heap_Compact 65536 sample_clusters (col_ids r) (col_links r) \<lparr>m_relocBlocks = [], m_relocTotal = 0, passes = []\<rparr> = Some s \<and>
     cp_ids s (place (10 :: nat)) = RAW_ID DATATYPE_SZARRAY 0 3 \<and> relocate_pointer (passes (cp_reloc s)) (address 11 4) = address (place 10 + 1) 4"
proof -
  let ?rel = "\<lparr>m_relocBlocks = [], m_relocTotal = 0, passes = []\<rparr>" and ?g = "sample_gc sample_ids []"
  have g: "gc_answers ?g = []" "gc_ids ?g = sample_ids" by (simp_all add: sample_gc_def)
  obtain r where r: "ExecuteGarbageCollection 50 sample_view sample_roots sample_clusters [] sample_weak ?g = Marked r"
    using collection_spec [OF sample_collectable] g(1)
    by (cases "ExecuteGarbageCollection 50 sample_view sample_roots sample_clusters [] sample_weak ?g") auto
  have o: "in_order sample_clusters" "fuelled sample_clusters 15 65536"
    by (simp_all add: sample_clusters_def fuelled_def below_def)
  have in10: "10 \<in> live sample_view sample_roots [] ?g \<inter> set (concat [[10, 13, 14]])" unfolding sample_live by simp
  have s10: "sample_ids 10 = RAW_ID DATATYPE_SZARRAY 0 3" "extent sample_ids 10 = 3" by (simp_all add: sample_ids_def)
  have ev: "\<not> IsEvent (sample_ids 10)" unfolding s10(1) by (simp add: IsFlagSet_def)
  obtain s place where S: "Heap_Compact 65536 sample_clusters (col_ids r) (col_links r) ?rel = Some s"
    "IsEvent (sample_ids 10) \<or> cp_ids s (place (10 :: nat)) = sample_ids 10"
    "\<forall>k<extent sample_ids 10. \<forall>b<12. relocate_pointer (new_passes ?rel s) (address (10 + k) b) = address (place 10 + k) b"
    using collection_then_compaction [OF sample_collectable r o, of ?rel] in10 unfolding g by blast
  have "relocate_pointer (passes (cp_reloc s)) (address (10 + 1) 4) = address (place 10 + 1) 4"
    using spec [OF S(3), of 1] s10(2) by simp
  then show ?thesis using r S(1,2) ev s10(1) by - (rule exI [of _ r], rule exI [of _ s], rule exI [of _ place], simp)
qed

end
