(* ===== verification/HeapNumerics.thy ===== *)
theory HeapNumerics imports HeapBlock "HOL-Library.Signed_Division" begin

text \<open>
  The numbers of the managed heap, \<^verbatim>\<open>src/CLR/Core/CLR_RT_HeapBlock.cpp\<close> and
  \<^verbatim>\<open>TinyCLR_Runtime__HeapBlock.h\<close>, in the build without a floating point unit
  (\<^verbatim>\<open>TINYCLR_EMULATED_FLOATINGPOINT\<close>): a block holds 64 bits of data, which its data type says how to
  read; \<^verbatim>\<open>R4\<close> and \<^verbatim>\<open>R8\<close> are fixed point numbers with 10 and 16 bits after the point. The sum,
  difference and product of signed integers wrap, as compiled; a division whose quotient does not fit
  and a shift by the width or more are undefined in C and are a result of their own here.
\<close>

section \<open>Values\<close>

record HeapValue =
  hv_type :: CLR_DataType
  hv_data :: u64

datatype HResult = CLR_E_WRONG_TYPE | CLR_E_DIVIDE_BY_ZERO | CLR_E_NULL_REFERENCE

datatype num_result = NumOk HeapValue | NumErr HResult | Undefined

definition HB_FloatShift :: nat where "HB_FloatShift = 10"
definition HB_DoubleShift :: nat where "HB_DoubleShift = 16"

text \<open>The members of the union of the data, little endian.\<close>

definition num_u1 :: "HeapValue \<Rightarrow> u8" where "num_u1 h = ucast (hv_data h)"
definition num_u2 :: "HeapValue \<Rightarrow> u16" where "num_u2 h = ucast (hv_data h)"
definition num_u4 :: "HeapValue \<Rightarrow> u32" where "num_u4 h = ucast (hv_data h)"
abbreviation num_u8 :: "HeapValue \<Rightarrow> u64" where "num_u8 h \<equiv> hv_data h"

definition put_u4 :: "u32 \<Rightarrow> HeapValue \<Rightarrow> HeapValue" where
  "put_u4 w h = h\<lparr>hv_data := (hv_data h AND NOT (mask 32)) OR ucast w\<rparr>"

definition put_u8 :: "u64 \<Rightarrow> HeapValue \<Rightarrow> HeapValue" where
  "put_u8 w h = h\<lparr>hv_data := w\<rparr>"

text \<open>A reference into an array is the address of the array and an index.\<close>

definition ref_array :: "HeapValue \<Rightarrow> u32" where "ref_array h = num_u4 h"
definition ref_index :: "HeapValue \<Rightarrow> u32" where "ref_index h = ucast (drop_bit 32 (hv_data h))"

definition put_index :: "u32 \<Rightarrow> HeapValue \<Rightarrow> HeapValue" where
  "put_index i h = h\<lparr>hv_data := (hv_data h AND mask 32) OR push_bit 32 (ucast i)\<rparr>"

text \<open>Division and remainder as in C.\<close>

definition c_div :: "'a::len word \<Rightarrow> 'a word \<Rightarrow> 'a word option" where
  "c_div a b = (if sint b = 0 \<or> (sint b = -1 \<and> sint a = - (2 ^ (LENGTH('a) - 1))) then None else Some (word_of_int (sint a sdiv sint b)))"

definition c_rem :: "'a::len word \<Rightarrow> 'a word \<Rightarrow> 'a word option" where
  "c_rem a b = (if sint b = 0 \<or> (sint b = -1 \<and> sint a = - (2 ^ (LENGTH('a) - 1))) then None else Some (word_of_int (sint a smod sint b)))"

definition c_divu :: "'a::len word \<Rightarrow> 'a word \<Rightarrow> 'a word option" where
  "c_divu a b = (if b = 0 then None else Some (a div b))"

definition c_remu :: "'a::len word \<Rightarrow> 'a word \<Rightarrow> 'a word option" where
  "c_remu a b = (if b = 0 then None else Some (a mod b))"

definition c_shift :: "(nat \<Rightarrow> 'a::len word \<Rightarrow> 'a word) \<Rightarrow> 'a word \<Rightarrow> u32 \<Rightarrow> 'a word option" where
  "c_shift f a n = (if unat n < LENGTH('a) then Some (f (unat n) a) else None)"

definition done4 :: "HeapValue \<Rightarrow> u32 option \<Rightarrow> num_result" where
  "done4 h r = (case r of None \<Rightarrow> Undefined | Some w \<Rightarrow> NumOk (put_u4 w h))"

definition done8 :: "HeapValue \<Rightarrow> u64 option \<Rightarrow> num_result" where
  "done8 h r = (case r of None \<Rightarrow> Undefined | Some w \<Rightarrow> NumOk (put_u8 w h))"

section \<open>Fixed point\<close>

definition R4_mul :: "u32 \<Rightarrow> u32 \<Rightarrow> u32" where
  "R4_mul a b = ucast (signed_drop_bit HB_FloatShift ((scast a :: u64) * scast b))"

definition R4_div :: "u32 \<Rightarrow> u32 \<Rightarrow> u32 option" where
  "R4_div a b = map_option ucast (c_div (push_bit HB_FloatShift (scast a :: u64)) (scast b))"

definition R8_accumulate :: "u64 \<Rightarrow> u64 \<Rightarrow> nat \<Rightarrow> u64" where
  "R8_accumulate op1 op2 part =
     (let v = op1 * ucast (ucast (drop_bit (16 * part) op2) :: u16) in
      if 16 * part \<ge> HB_DoubleShift then push_bit (16 * part - HB_DoubleShift) v else drop_bit (HB_DoubleShift - 16 * part) v)"

definition R8_mul :: "u64 \<Rightarrow> u64 \<Rightarrow> u64" where
  "R8_mul a b =
     (let (op1, fNegate) = (if sint a < 0 then (- a, True) else (a, False));
          (op2, fNegate) = (if sint b < 0 then (- b, \<not> fNegate) else (b, fNegate));
          res = R8_accumulate op1 op2 0 + R8_accumulate op1 op2 1 + R8_accumulate op1 op2 2 + R8_accumulate op1 op2 3
      in if fNegate then - res else res)"

definition R8_div :: "u64 \<Rightarrow> u64 \<Rightarrow> u64 option" where
  "R8_div a b = c_div (push_bit HB_DoubleShift a) b"

section \<open>Arithmetic\<close>

definition IsZero :: "HeapValue \<Rightarrow> bool" where
  "IsZero h =
     (case hv_type h of
        DATATYPE_OBJECT \<Rightarrow> num_u4 h = 0
      | DATATYPE_I8 \<Rightarrow> num_u8 h = 0 | DATATYPE_U8 \<Rightarrow> num_u8 h = 0
      | DATATYPE_R4 \<Rightarrow> num_u4 h = 0 | DATATYPE_R8 \<Rightarrow> num_u8 h = 0
      | _ \<Rightarrow> num_u4 h = 0)"

text \<open>\<open>m_sizeOfElement\<close> of an array; the offset that is added comes multiplied by it.\<close>

definition move_index :: "(u32 \<Rightarrow> u8) \<Rightarrow> (u32 \<Rightarrow> u32 \<Rightarrow> u32) \<Rightarrow> HeapValue \<Rightarrow> HeapValue \<Rightarrow> num_result" where
  "move_index sizeOfElement f right h =
     (if ref_array h = 0 then NumErr CLR_E_NULL_REFERENCE
      else (case c_div (num_u4 right) (ucast (sizeOfElement (ref_array h))) of
              None \<Rightarrow> Undefined
            | Some d \<Rightarrow> NumOk (put_index (f (ref_index h) d) h)))"

definition NumericAdd :: "(u32 \<Rightarrow> u8) \<Rightarrow> HeapValue \<Rightarrow> HeapValue \<Rightarrow> num_result" where
  "NumericAdd sz right h =
     (case hv_type h of
        DATATYPE_I4 \<Rightarrow> NumOk (put_u4 (num_u4 h + num_u4 right) h)
      | DATATYPE_U4 \<Rightarrow> NumOk (put_u4 (num_u4 h + num_u4 right) h)
      | DATATYPE_I8 \<Rightarrow> NumOk (put_u8 (num_u8 h + num_u8 right) h)
      | DATATYPE_U8 \<Rightarrow> NumOk (put_u8 (num_u8 h + num_u8 right) h)
      | DATATYPE_R4 \<Rightarrow> NumOk (put_u4 (num_u4 h + num_u4 right) h)
      | DATATYPE_R8 \<Rightarrow> NumOk (put_u8 (num_u8 h + num_u8 right) h)
      | DATATYPE_ARRAY_BYREF \<Rightarrow> move_index sz (+) right h
      | _ \<Rightarrow> NumErr CLR_E_WRONG_TYPE)"

definition NumericSub :: "(u32 \<Rightarrow> u8) \<Rightarrow> HeapValue \<Rightarrow> HeapValue \<Rightarrow> num_result" where
  "NumericSub sz right h =
     (case hv_type h of
        DATATYPE_U4 \<Rightarrow> NumOk (put_u4 (num_u4 h - num_u4 right) h)
      | DATATYPE_I4 \<Rightarrow> NumOk (put_u4 (num_u4 h - num_u4 right) h)
      | DATATYPE_U8 \<Rightarrow> NumOk (put_u8 (num_u8 h - num_u8 right) h)
      | DATATYPE_I8 \<Rightarrow> NumOk (put_u8 (num_u8 h - num_u8 right) h)
      | DATATYPE_R4 \<Rightarrow> NumOk (put_u4 (num_u4 h - num_u4 right) h)
      | DATATYPE_R8 \<Rightarrow> NumOk (put_u8 (num_u8 h - num_u8 right) h)
      | DATATYPE_ARRAY_BYREF \<Rightarrow> move_index sz (-) right h
      | _ \<Rightarrow> NumErr CLR_E_WRONG_TYPE)"

definition NumericMul :: "HeapValue \<Rightarrow> HeapValue \<Rightarrow> num_result" where
  "NumericMul right h =
     (case hv_type h of
        DATATYPE_U4 \<Rightarrow> NumOk (put_u4 (num_u4 h * num_u4 right) h)
      | DATATYPE_I4 \<Rightarrow> NumOk (put_u4 (num_u4 h * num_u4 right) h)
      | DATATYPE_U8 \<Rightarrow> NumOk (put_u8 (num_u8 h * num_u8 right) h)
      | DATATYPE_I8 \<Rightarrow> NumOk (put_u8 (num_u8 h * num_u8 right) h)
      | DATATYPE_R4 \<Rightarrow> NumOk (put_u4 (R4_mul (num_u4 h) (num_u4 right)) h)
      | DATATYPE_R8 \<Rightarrow> NumOk (put_u8 (R8_mul (num_u8 h) (num_u8 right)) h)
      | _ \<Rightarrow> NumErr CLR_E_WRONG_TYPE)"

definition NumericDiv :: "HeapValue \<Rightarrow> HeapValue \<Rightarrow> num_result" where
  "NumericDiv right h =
     (if IsZero right then NumErr CLR_E_DIVIDE_BY_ZERO
      else case hv_type h of
        DATATYPE_U4 \<Rightarrow> done4 h (c_div (num_u4 h) (num_u4 right))
      | DATATYPE_I4 \<Rightarrow> done4 h (c_div (num_u4 h) (num_u4 right))
      | DATATYPE_U8 \<Rightarrow> done8 h (c_div (num_u8 h) (num_u8 right))
      | DATATYPE_I8 \<Rightarrow> done8 h (c_div (num_u8 h) (num_u8 right))
      | DATATYPE_R4 \<Rightarrow> done4 h (R4_div (num_u4 h) (num_u4 right))
      | DATATYPE_R8 \<Rightarrow> done8 h (R8_div (num_u8 h) (num_u8 right))
      | _ \<Rightarrow> NumErr CLR_E_WRONG_TYPE)"

definition NumericDivUn :: "HeapValue \<Rightarrow> HeapValue \<Rightarrow> num_result" where
  "NumericDivUn right h =
     (if IsZero right then NumErr CLR_E_DIVIDE_BY_ZERO
      else case hv_type h of
        DATATYPE_I4 \<Rightarrow> done4 h (c_divu (num_u4 h) (num_u4 right))
      | DATATYPE_U4 \<Rightarrow> done4 h (c_divu (num_u4 h) (num_u4 right))
      | DATATYPE_I8 \<Rightarrow> done8 h (c_divu (num_u8 h) (num_u8 right))
      | DATATYPE_U8 \<Rightarrow> done8 h (c_divu (num_u8 h) (num_u8 right))
      | _ \<Rightarrow> NumErr CLR_E_WRONG_TYPE)"

definition NumericRem :: "HeapValue \<Rightarrow> HeapValue \<Rightarrow> num_result" where
  "NumericRem right h =
     (if IsZero right then NumErr CLR_E_DIVIDE_BY_ZERO
      else case hv_type h of
        DATATYPE_U4 \<Rightarrow> done4 h (c_remu (num_u4 h) (num_u4 right))
      | DATATYPE_I4 \<Rightarrow> done4 h (c_rem (num_u4 h) (num_u4 right))
      | DATATYPE_U8 \<Rightarrow> done8 h (c_remu (num_u8 h) (num_u8 right))
      | DATATYPE_I8 \<Rightarrow> done8 h (c_rem (num_u8 h) (num_u8 right))
      | DATATYPE_R4 \<Rightarrow> done4 h (c_rem (num_u4 h) (num_u4 right))
      | DATATYPE_R8 \<Rightarrow> done8 h (c_rem (num_u8 h) (num_u8 right))
      | _ \<Rightarrow> NumErr CLR_E_WRONG_TYPE)"

definition NumericRemUn :: "HeapValue \<Rightarrow> HeapValue \<Rightarrow> num_result" where
  "NumericRemUn right h =
     (if IsZero right then NumErr CLR_E_DIVIDE_BY_ZERO
      else case hv_type h of
        DATATYPE_I4 \<Rightarrow> done4 h (c_remu (num_u4 h) (num_u4 right))
      | DATATYPE_U4 \<Rightarrow> done4 h (c_remu (num_u4 h) (num_u4 right))
      | DATATYPE_I8 \<Rightarrow> done8 h (c_remu (num_u8 h) (num_u8 right))
      | DATATYPE_U8 \<Rightarrow> done8 h (c_remu (num_u8 h) (num_u8 right))
      | _ \<Rightarrow> NumErr CLR_E_WRONG_TYPE)"

definition NumericShl :: "HeapValue \<Rightarrow> HeapValue \<Rightarrow> num_result" where
  "NumericShl right h =
     (case hv_type h of
        DATATYPE_I4 \<Rightarrow> done4 h (c_shift push_bit (num_u4 h) (num_u4 right))
      | DATATYPE_U4 \<Rightarrow> done4 h (c_shift push_bit (num_u4 h) (num_u4 right))
      | DATATYPE_I8 \<Rightarrow> done8 h (c_shift push_bit (num_u8 h) (num_u4 right))
      | DATATYPE_U8 \<Rightarrow> done8 h (c_shift push_bit (num_u8 h) (num_u4 right))
      | _ \<Rightarrow> NumErr CLR_E_WRONG_TYPE)"

definition NumericShr :: "HeapValue \<Rightarrow> HeapValue \<Rightarrow> num_result" where
  "NumericShr right h =
     (case hv_type h of
        DATATYPE_U4 \<Rightarrow> done4 h (c_shift drop_bit (num_u4 h) (num_u4 right))
      | DATATYPE_I4 \<Rightarrow> done4 h (c_shift signed_drop_bit (num_u4 h) (num_u4 right))
      | DATATYPE_U8 \<Rightarrow> done8 h (c_shift drop_bit (num_u8 h) (num_u4 right))
      | DATATYPE_I8 \<Rightarrow> done8 h (c_shift signed_drop_bit (num_u8 h) (num_u4 right))
      | _ \<Rightarrow> NumErr CLR_E_WRONG_TYPE)"

definition NumericShrUn :: "HeapValue \<Rightarrow> HeapValue \<Rightarrow> num_result" where
  "NumericShrUn right h =
     (case hv_type h of
        DATATYPE_I4 \<Rightarrow> done4 h (c_shift drop_bit (num_u4 h) (num_u4 right))
      | DATATYPE_U4 \<Rightarrow> done4 h (c_shift drop_bit (num_u4 h) (num_u4 right))
      | DATATYPE_I8 \<Rightarrow> done8 h (c_shift drop_bit (num_u8 h) (num_u4 right))
      | DATATYPE_U8 \<Rightarrow> done8 h (c_shift drop_bit (num_u8 h) (num_u4 right))
      | _ \<Rightarrow> NumErr CLR_E_WRONG_TYPE)"

definition NumericNeg :: "HeapValue \<Rightarrow> num_result" where
  "NumericNeg h =
     (case hv_type h of
        DATATYPE_U4 \<Rightarrow> NumOk (put_u4 (- num_u4 h) h)
      | DATATYPE_I4 \<Rightarrow> NumOk (put_u4 (- num_u4 h) h)
      | DATATYPE_U8 \<Rightarrow> NumOk (put_u8 (- num_u8 h) h)
      | DATATYPE_I8 \<Rightarrow> NumOk (put_u8 (- num_u8 h) h)
      | DATATYPE_R4 \<Rightarrow> NumOk (put_u4 (- num_u4 h) h)
      | DATATYPE_R8 \<Rightarrow> NumOk (put_u8 (- num_u8 h) h)
      | _ \<Rightarrow> NumErr CLR_E_WRONG_TYPE)"

section \<open>Promotion, comparison, conversion\<close>

text \<open>The columns of \<open>c_CLR_RT_DataTypeLookup\<close> that the numbers use.\<close>

definition c_Numeric :: "CLR_DataType \<Rightarrow> bool" where
  "c_Numeric dt \<longleftrightarrow>
     dt \<in> {DATATYPE_BOOLEAN, DATATYPE_I1, DATATYPE_U1, DATATYPE_CHAR, DATATYPE_I2, DATATYPE_U2,
           DATATYPE_I4, DATATYPE_U4, DATATYPE_R4, DATATYPE_I8, DATATYPE_U8, DATATYPE_R8}"

definition c_Signed :: "CLR_DataType \<Rightarrow> bool" where
  "c_Signed dt \<longleftrightarrow>
     dt \<in> {DATATYPE_I1, DATATYPE_I2, DATATYPE_I4, DATATYPE_R4, DATATYPE_I8, DATATYPE_R8,
           DATATYPE_DATETIME, DATATYPE_TIMESPAN}"

fun m_sizeInBits :: "CLR_DataType \<Rightarrow> nat" where
  "m_sizeInBits DATATYPE_BOOLEAN = 1"
| "m_sizeInBits DATATYPE_I1 = 8" | "m_sizeInBits DATATYPE_U1 = 8"
| "m_sizeInBits DATATYPE_CHAR = 16" | "m_sizeInBits DATATYPE_I2 = 16" | "m_sizeInBits DATATYPE_U2 = 16"
| "m_sizeInBits DATATYPE_I4 = 32" | "m_sizeInBits DATATYPE_U4 = 32" | "m_sizeInBits DATATYPE_R4 = 32"
| "m_sizeInBits DATATYPE_I8 = 64" | "m_sizeInBits DATATYPE_U8 = 64" | "m_sizeInBits DATATYPE_R8 = 64"
| "m_sizeInBits DATATYPE_DATETIME = 64" | "m_sizeInBits DATATYPE_TIMESPAN = 64"
| "m_sizeInBits DATATYPE_STRING = 255"
| "m_sizeInBits _ = 0"

text \<open>\<open>DT_BL\<close> is the size of a heap block, 12 bytes.\<close>

fun m_sizeInBytes :: "CLR_DataType \<Rightarrow> nat" where
  "m_sizeInBytes DATATYPE_BOOLEAN = 1"
| "m_sizeInBytes DATATYPE_I1 = 1" | "m_sizeInBytes DATATYPE_U1 = 1"
| "m_sizeInBytes DATATYPE_CHAR = 2" | "m_sizeInBytes DATATYPE_I2 = 2" | "m_sizeInBytes DATATYPE_U2 = 2"
| "m_sizeInBytes DATATYPE_I4 = 4" | "m_sizeInBytes DATATYPE_U4 = 4" | "m_sizeInBytes DATATYPE_R4 = 4"
| "m_sizeInBytes DATATYPE_I8 = 8" | "m_sizeInBytes DATATYPE_U8 = 8" | "m_sizeInBytes DATATYPE_R8 = 8"
| "m_sizeInBytes DATATYPE_DATETIME = 12" | "m_sizeInBytes DATATYPE_TIMESPAN = 12"
| "m_sizeInBytes DATATYPE_STRING = 12" | "m_sizeInBytes DATATYPE_OBJECT = 12" | "m_sizeInBytes DATATYPE_CLASS = 12"
| "m_sizeInBytes DATATYPE_VALUETYPE = 12" | "m_sizeInBytes DATATYPE_SZARRAY = 12"
| "m_sizeInBytes DATATYPE_WEAKCLASS = 12" | "m_sizeInBytes DATATYPE_DELEGATE_HEAD = 12"
| "m_sizeInBytes _ = 0"

definition Promote :: "HeapValue \<Rightarrow> HeapValue" where
  "Promote h =
     (case hv_type h of
        DATATYPE_I1 \<Rightarrow> put_u4 (scast (num_u1 h)) (h\<lparr>hv_type := DATATYPE_I4\<rparr>)
      | DATATYPE_I2 \<Rightarrow> put_u4 (scast (num_u2 h)) (h\<lparr>hv_type := DATATYPE_I4\<rparr>)
      | DATATYPE_BOOLEAN \<Rightarrow> put_u4 (ucast (num_u1 h)) (h\<lparr>hv_type := DATATYPE_I4\<rparr>)
      | DATATYPE_U1 \<Rightarrow> put_u4 (ucast (num_u1 h)) (h\<lparr>hv_type := DATATYPE_I4\<rparr>)
      | DATATYPE_CHAR \<Rightarrow> put_u4 (ucast (num_u2 h)) (h\<lparr>hv_type := DATATYPE_I4\<rparr>)
      | DATATYPE_U2 \<Rightarrow> put_u4 (ucast (num_u2 h)) (h\<lparr>hv_type := DATATYPE_I4\<rparr>)
      | _ \<Rightarrow> h)"

text \<open>The four comparisons of \<open>CompareValues_Numeric\<close> differ in the type of the two numbers only.\<close>

definition CompareValues :: "int \<Rightarrow> int \<Rightarrow> int" where
  "CompareValues left right = (if left > right then 1 else if left < right then -1 else 0)"

definition CompareValues_Numeric :: "HeapValue \<Rightarrow> HeapValue \<Rightarrow> bool \<Rightarrow> nat \<Rightarrow> int" where
  "CompareValues_Numeric left right fSigned bytes =
     (if bytes = 4 then
        (if fSigned then CompareValues (sint (num_u4 left)) (sint (num_u4 right))
         else CompareValues (uint (num_u4 left)) (uint (num_u4 right)))
      else if bytes = 8 then
        (if fSigned then CompareValues (sint (num_u8 left)) (sint (num_u8 right))
         else CompareValues (uint (num_u8 left)) (uint (num_u8 right)))
      else if bytes = 2 then
        (if fSigned then CompareValues (sint (num_u2 left)) (sint (num_u2 right))
         else CompareValues (uint (num_u2 left)) (uint (num_u2 right)))
      else if bytes = 1 then
        (if fSigned then CompareValues (sint (num_u1 left)) (sint (num_u1 right))
         else CompareValues (uint (num_u1 left)) (uint (num_u1 right)))
      else -1)"

text \<open>
  \<open>Compare_Values\<close> from \<open>DATATYPE_R4\<close> on, and of two different types. The branches before it, which
  follow references and compare strings, delegates and pointers, are \<open>None\<close>.
\<close>

definition compares_references :: "CLR_DataType \<Rightarrow> CLR_DataType \<Rightarrow> bool" where
  "compares_references l r \<longleftrightarrow>
     l = r \<and> l \<in> {DATATYPE_OBJECT, DATATYPE_BYREF, DATATYPE_STRING, DATATYPE_DELEGATELIST_HEAD,
                  DATATYPE_DELEGATE_HEAD, DATATYPE_CLASS, DATATYPE_VALUETYPE, DATATYPE_SZARRAY,
                  DATATYPE_WEAKCLASS, DATATYPE_REFLECTION} \<or>
     l = DATATYPE_STRING \<and> r = DATATYPE_OBJECT \<or> l = DATATYPE_OBJECT \<and> r = DATATYPE_STRING"

definition Compare_Values :: "HeapValue \<Rightarrow> HeapValue \<Rightarrow> bool \<Rightarrow> int option" where
  "Compare_Values left right fSigned =
     (let leftDataType = hv_type left; rightDataType = hv_type right in
      if compares_references leftDataType rightDataType then None
      else if leftDataType = rightDataType then
        Some (if leftDataType = DATATYPE_R4 \<or> leftDataType = DATATYPE_R8
              then CompareValues_Numeric left right True (m_sizeInBytes leftDataType)
              else if c_Numeric leftDataType \<or> leftDataType = DATATYPE_DATETIME \<or> leftDataType = DATATYPE_TIMESPAN
              then CompareValues_Numeric left right fSigned (m_sizeInBytes leftDataType)
              else -1)
      else if c_Numeric leftDataType \<and> c_Numeric rightDataType \<and>
              m_sizeInBytes leftDataType = m_sizeInBytes rightDataType
      then Some (CompareValues_Numeric left right fSigned (m_sizeInBytes leftDataType))
      else Some (-1))"

text \<open>The first switch of \<open>Convert_Internal\<close>: the number at 64 bits and the bits after its point.\<close>

definition convert_extend :: "CLR_DataType \<Rightarrow> HeapValue \<Rightarrow> (u64 \<times> nat) option" where
  "convert_extend et h =
     (let dt = hv_type h in
      if dt = DATATYPE_I8 \<or> dt = DATATYPE_U8 then Some (num_u8 h, 0)
      else if dt = DATATYPE_R4 then Some (scast (num_u4 h), HB_FloatShift)
      else if dt = DATATYPE_R8 then Some (num_u8 h, HB_DoubleShift)
      else if c_Numeric dt then
        (let shift = 64 - m_sizeInBits dt; res = push_bit shift (num_u8 h) in
         Some (if c_Signed dt \<and> c_Signed et then signed_drop_bit shift res else drop_bit shift res, 0))
      else None)"

definition convert_scale :: "CLR_DataType \<Rightarrow> nat" where
  "convert_scale et = (if et = DATATYPE_R4 then HB_FloatShift else if et = DATATYPE_R8 then HB_DoubleShift else 0)"

definition convert_rescale :: "nat \<Rightarrow> nat \<Rightarrow> u64 \<Rightarrow> u64" where
  "convert_rescale scaleIn scaleOut w =
     (if scaleOut > scaleIn then push_bit (scaleOut - scaleIn) w
      else if scaleOut < scaleIn then
        signed_drop_bit (scaleIn - scaleOut)
          (if sint w < 0 then w + (push_bit (scaleIn - scaleOut) 1 - 1) else w)
      else w)"

definition Convert_Internal :: "CLR_DataType \<Rightarrow> HeapValue \<Rightarrow> num_result" where
  "Convert_Internal et h =
     (case convert_extend et h of
        None \<Rightarrow> NumErr CLR_E_WRONG_TYPE
      | Some (w, scaleIn) \<Rightarrow>
          NumOk (Promote (h\<lparr>hv_type := et, hv_data := convert_rescale scaleIn (convert_scale et) w\<rparr>)))"

definition Convert :: "CLR_DataType \<Rightarrow> bool \<Rightarrow> bool \<Rightarrow> HeapValue \<Rightarrow> num_result" where
  "Convert et fOverflow fUnsigned h = Convert_Internal et h"

text \<open>
  A literal of the byte code, an IEEE 754 number, as a fixed point number. \<open>mantissa\<close> has the width of
  the literal; a shift of it drops what leaves that width.
\<close>

definition SetFloat :: "u32 \<Rightarrow> HeapValue \<Rightarrow> HeapValue" where
  "SetFloat num h = put_u4 num (h\<lparr>hv_type := DATATYPE_R4\<rparr>)"

definition SetDouble :: "u64 \<Rightarrow> HeapValue \<Rightarrow> HeapValue" where
  "SetDouble num h = put_u8 num (h\<lparr>hv_type := DATATYPE_R8\<rparr>)"

definition shift_mantissa :: "'a::len word \<Rightarrow> int \<Rightarrow> 'a word" where
  "shift_mantissa mantissa exponent =
     (if exponent > 0 then push_bit (nat exponent) mantissa
      else if exponent < 0 then drop_bit (nat (- exponent)) mantissa
      else mantissa)"

definition SetFloatIEEE754 :: "u32 \<Rightarrow> HeapValue \<Rightarrow> HeapValue" where
  "SetFloatIEEE754 arg h =
     (let mantissa = (arg AND 0x007FFFFF) OR 0x00800000;
          exponent = uint (drop_bit 23 arg AND 0xFF) - 127 - (23 - int HB_FloatShift);
          res = (if exponent \<le> -32 then 0 else if exponent \<ge> 32 then 0x7FFFFFFF else shift_mantissa mantissa exponent)
      in SetFloat (if arg AND 0x80000000 \<noteq> 0 then - res else res) h)"

definition SetDoubleIEEE754 :: "u64 \<Rightarrow> HeapValue \<Rightarrow> HeapValue" where
  "SetDoubleIEEE754 arg h =
     (let mantissa = (arg AND 0x000FFFFFFFFFFFFF) OR 0x0010000000000000;
          exponent = uint (drop_bit 52 arg AND 0x7FF) - 1023 - (52 - int HB_DoubleShift);
          res = (if exponent \<le> -64 then 0 else if exponent \<ge> 64 then 0x7FFFFFFFFFFFFFFF else shift_mantissa mantissa exponent)
      in SetDouble (if arg AND 0x8000000000000000 \<noteq> 0 then - res else res) h)"

text \<open>\<open>DATATYPE_LAST_PRIMITIVE_TO_PRESERVE\<close> is \<open>DATATYPE_R8\<close>: the types up to it stay at an assignment.\<close>

definition preserves_type :: "CLR_DataType \<Rightarrow> bool" where
  "preserves_type dt \<longleftrightarrow> c_Numeric dt \<or> dt = DATATYPE_VOID"

definition AssignAndPreserveType :: "HeapValue \<Rightarrow> HeapValue \<Rightarrow> HeapValue" where
  "AssignAndPreserveType value h =
     (let h' = h\<lparr>hv_data := hv_data value\<rparr> in
      if preserves_type (hv_type h) then h' else h'\<lparr>hv_type := hv_type value\<rparr>)"

definition SetInteger4 :: "CLR_DataType \<Rightarrow> u32 \<Rightarrow> HeapValue \<Rightarrow> HeapValue" where
  "SetInteger4 dt num h = put_u4 num (h\<lparr>hv_type := dt\<rparr>)"

definition SetInteger8 :: "CLR_DataType \<Rightarrow> u64 \<Rightarrow> HeapValue \<Rightarrow> HeapValue" where
  "SetInteger8 dt num h = put_u8 num (h\<lparr>hv_type := dt\<rparr>)"

definition SetObjectReference :: "u32 \<Rightarrow> HeapValue \<Rightarrow> HeapValue" where
  "SetObjectReference ptr h = put_u4 ptr (h\<lparr>hv_type := DATATYPE_OBJECT\<rparr>)"

end
