(* ===== verification/Interpreter.thy ===== *)
theory Interpreter imports HeapNumerics begin

text \<open>
  The interpreter's loop, \<open>CLR_RT_Thread::Execute_IL\<close> of \<^verbatim>\<open>src/CLR/Core/Interpreter.cpp\<close>: fetching
  and decoding the byte code, and the instructions that work on the evaluation stack, the locals and
  the arguments of one frame: loads and stores, constants, branches, \<^verbatim>\<open>switch\<close>, arithmetic,
  comparisons and conversions. The instructions that reach objects, fields, arrays or other methods
  leave the frame to code outside this model (\<open>Elsewhere\<close>), at the state they start in.

  The build is one for a device without the source level debugger and without the opcode checks
  (\<^verbatim>\<open>TINYCLR_OPCODE_STACKCHANGES\<close>): a read below the stack, past its end, past the locals or
  the code is undefined.
\<close>

section \<open>The frame\<close>

text \<open>
  \<open>il_stack\<close> is the memory of \<open>m_evalStack\<close> and \<open>il_pos\<close> the number of values on it, so that
  \<open>evalPos[ 0 ]\<close> is the slot \<open>il_pos - 1\<close> and a slot above keeps what it held; \<open>il_ip\<close> is the offset
  of \<open>ip\<close> from \<open>m_IPstart\<close>. No local is pinned.
\<close>

record IL_Frame =
  il_code :: "u8 list"
  il_ip :: int
  il_args :: "HeapValue list"
  il_locals :: "HeapValue list"
  il_stack :: "HeapValue list"
  il_pos :: nat

datatype IL_Compare = CMP_EQ | CMP_NE | CMP_LT | CMP_LE | CMP_GT | CMP_GE

datatype IL_Condition = BR_ALWAYS | BR_FALSE | BR_TRUE | BR_CMP IL_Compare bool

datatype IL_Binary =
  BIN_ADD | BIN_SUB | BIN_MUL | BIN_DIV | BIN_DIV_UN | BIN_REM | BIN_REM_UN | BIN_AND | BIN_OR | BIN_XOR
| BIN_SHL | BIN_SHR | BIN_SHR_UN

text \<open>
  An instruction with its operand; a branch has its offset, a \<^verbatim>\<open>switch\<close> the number of its cases.
\<close>

datatype IL_Instr =
  IL_NOTHING
| IL_LDARG nat | IL_LDLOC nat | IL_STLOC nat | IL_STARG nat
| IL_LDNULL | IL_LDC_I4 u32 | IL_LDC_I8 u64 | IL_LDC_R4 u32 | IL_LDC_R8 u64
| IL_DUP | IL_POP
| IL_BR IL_Condition int | IL_SWITCH nat
| IL_BIN IL_Binary | IL_NEG | IL_NOT
| IL_CONV CLR_DataType bool bool | IL_CONV_NATIVE CLR_DataType bool bool
| IL_COMPARE IL_Compare bool
| IL_UNSUPPORTED | IL_UNKNOWN | IL_ELSEWHERE

datatype IL_Error = IL_HResult HResult | CLR_E_UNSUPPORTED_INSTRUCTION | CLR_E_UNKNOWN_INSTRUCTION

datatype il_result =
  Running IL_Frame
| Leave IL_Error IL_Frame
| QuantumExpired IL_Frame
| Elsewhere IL_Frame
| IL_Undefined

section \<open>Fetching\<close>

text \<open>The little endian reads \<open>TINYCLR_READ_UNALIGNED_*\<close>, of \<open>n\<close> bytes.\<close>

definition read_code :: "u8 list \<Rightarrow> int \<Rightarrow> nat \<Rightarrow> u8 list option" where
  "read_code code ip n = (if 0 \<le> ip \<and> nat ip + n \<le> List.length code then Some (take n (drop (nat ip) code)) else None)"

fun le_value :: "u8 list \<Rightarrow> int" where
  "le_value [] = 0"
| "le_value (b # bs) = uint b + 256 * le_value bs"

definition READ_UNSIGNED :: "u8 list \<Rightarrow> int \<Rightarrow> nat \<Rightarrow> int option" where
  "READ_UNSIGNED code ip n = map_option le_value (read_code code ip n)"

definition READ_SIGNED :: "u8 list \<Rightarrow> int \<Rightarrow> nat \<Rightarrow> int option" where
  "READ_SIGNED code ip n = map_option (\<lambda>bs. signed_take_bit (8 * n - 1) (le_value bs)) (read_code code ip n)"

text \<open>\<open>CLR_OPCODE\<close>: the byte, or 256 more than the byte after \<open>CEE_PREFIX1\<close>.\<close>

definition CEE_PREFIX1 :: int where "CEE_PREFIX1 = 0xFE"

definition fetch_opcode :: "u8 list \<Rightarrow> int \<Rightarrow> (int \<times> int) option" where
  "fetch_opcode code ip =
     (case READ_UNSIGNED code ip 1 of
        None \<Rightarrow> None
      | Some op \<Rightarrow>
          if op = CEE_PREFIX1
          then map_option (\<lambda>op2. (op2 + 256, ip + 2)) (READ_UNSIGNED code (ip + 1) 1)
          else Some (op, ip + 1))"

text \<open>An operand, and the instruction it makes.\<close>

definition with_unsigned :: "nat \<Rightarrow> u8 list \<Rightarrow> int \<Rightarrow> (int \<Rightarrow> IL_Instr) \<Rightarrow> (IL_Instr \<times> int) option" where
  "with_unsigned n code ip f = map_option (\<lambda>v. (f v, ip + int n)) (READ_UNSIGNED code ip n)"

definition with_signed :: "nat \<Rightarrow> u8 list \<Rightarrow> int \<Rightarrow> (int \<Rightarrow> IL_Instr) \<Rightarrow> (IL_Instr \<times> int) option" where
  "with_signed n code ip f = map_option (\<lambda>v. (f v, ip + int n)) (READ_SIGNED code ip n)"

section \<open>Decoding\<close>

text \<open>The conditions of the branches, in the order of their opcodes from \<open>CEE_BR_S\<close> and \<open>CEE_BR\<close>.\<close>

definition br_condition :: "int \<Rightarrow> IL_Condition" where
  "br_condition k =
     (if k = 0 then BR_ALWAYS else if k = 1 then BR_FALSE else if k = 2 then BR_TRUE
      else if k = 3 then BR_CMP CMP_EQ True else if k = 4 then BR_CMP CMP_GE True
      else if k = 5 then BR_CMP CMP_GT True else if k = 6 then BR_CMP CMP_LE True
      else if k = 7 then BR_CMP CMP_LT True else if k = 8 then BR_CMP CMP_NE False
      else if k = 9 then BR_CMP CMP_GE False else if k = 10 then BR_CMP CMP_GT False
      else if k = 11 then BR_CMP CMP_LE False else BR_CMP CMP_LT False)"

definition op_binary :: "int \<Rightarrow> IL_Binary option" where
  "op_binary op =
     (if op = 0x58 \<or> op = 0xD6 \<or> op = 0xD7 then Some BIN_ADD
      else if op = 0x59 \<or> op = 0xDA \<or> op = 0xDB then Some BIN_SUB
      else if op = 0x5A \<or> op = 0xD8 \<or> op = 0xD9 then Some BIN_MUL
      else if op = 0x5B then Some BIN_DIV else if op = 0x5C then Some BIN_DIV_UN
      else if op = 0x5D then Some BIN_REM else if op = 0x5E then Some BIN_REM_UN
      else if op = 0x5F then Some BIN_AND else if op = 0x60 then Some BIN_OR
      else if op = 0x61 then Some BIN_XOR else if op = 0x62 then Some BIN_SHL
      else if op = 0x63 then Some BIN_SHR else if op = 0x64 then Some BIN_SHR_UN
      else None)"

definition op_conversion :: "int \<Rightarrow> IL_Instr option" where
  "op_conversion op =
     (if op = 0x67 \<or> op = 0xB3 \<or> op = 0x82 then Some (IL_CONV DATATYPE_I1 (op \<noteq> 0x67) (op = 0x82))
      else if op = 0x68 \<or> op = 0xB5 \<or> op = 0x83 then Some (IL_CONV DATATYPE_I2 (op \<noteq> 0x68) (op = 0x83))
      else if op = 0x69 \<or> op = 0xB7 \<or> op = 0x84 then Some (IL_CONV DATATYPE_I4 (op \<noteq> 0x69) (op = 0x84))
      else if op = 0xD3 \<or> op = 0xD4 \<or> op = 0x8A then Some (IL_CONV_NATIVE DATATYPE_I4 (op \<noteq> 0xD3) (op = 0x8A))
      else if op = 0x6A \<or> op = 0xB9 \<or> op = 0x85 then Some (IL_CONV DATATYPE_I8 (op \<noteq> 0x6A) (op = 0x85))
      else if op = 0x6B then Some (IL_CONV DATATYPE_R4 False False)
      else if op = 0x76 \<or> op = 0x6C then Some (IL_CONV DATATYPE_R8 False (op = 0x76))
      else if op = 0xD2 \<or> op = 0xB4 \<or> op = 0x86 then Some (IL_CONV DATATYPE_U1 (op \<noteq> 0xD2) (op = 0x86))
      else if op = 0xD1 \<or> op = 0xB6 \<or> op = 0x87 then Some (IL_CONV DATATYPE_U2 (op \<noteq> 0xD1) (op = 0x87))
      else if op = 0x6D \<or> op = 0xB8 \<or> op = 0x88 then Some (IL_CONV DATATYPE_U4 (op \<noteq> 0x6D) (op = 0x88))
      else if op = 0xE0 \<or> op = 0xD5 \<or> op = 0x8B then Some (IL_CONV_NATIVE DATATYPE_U4 (op \<noteq> 0xE0) (op = 0x8B))
      else if op = 0x6E \<or> op = 0xBA \<or> op = 0x89 then Some (IL_CONV DATATYPE_U8 (op \<noteq> 0x6E) (op = 0x89))
      else None)"

definition op_compare :: "int \<Rightarrow> IL_Instr option" where
  "op_compare op =
     (if op = 0x101 then Some (IL_COMPARE CMP_EQ True)
      else if op = 0x102 then Some (IL_COMPARE CMP_GT True) else if op = 0x103 then Some (IL_COMPARE CMP_GT False)
      else if op = 0x104 then Some (IL_COMPARE CMP_LT True) else if op = 0x105 then Some (IL_COMPARE CMP_LT False)
      else None)"

text \<open>The opcodes that are refused, and the ones the loop handles outside this model.\<close>

definition op_unsupported :: "int \<Rightarrow> bool" where
  "op_unsupported op \<longleftrightarrow>
     op \<in> {0x100, 0x117, 0x27, 0x118, 0x29, 0xC3, 0x10F, 0xC6, 0x11D, 0xC2, 0xA3, 0xA4, 0x11E}"

definition op_elsewhere :: "int \<Rightarrow> bool" where
  "op_elsewhere op \<longleftrightarrow>
     op \<in> {0x0F, 0x12, 0x28, 0x2A, 0x106, 0x107, 0x10A, 0x10D, 0x111, 0x115, 0x116, 0x11A, 0x11C} \<or>
     0x46 \<le> op \<and> op \<le> 0x57 \<or> 0x6F \<le> op \<and> op \<le> 0x75 \<or> 0x79 \<le> op \<and> op \<le> 0x81 \<or>
     0x8C \<le> op \<and> op \<le> 0xA2 \<or> op = 0xA5 \<or> op = 0xD0 \<or> op = 0xDC \<or> op = 0xDD \<or> op = 0xDE \<or> op = 0xDF"

text \<open>The cases without an operand.\<close>

definition decode_simple :: "int \<Rightarrow> IL_Instr" where
  "decode_simple op =
     (if op = 0x00 \<or> op = 0x01 \<or> op = 0x112 \<or> op = 0x113 \<or> op = 0x114 then IL_NOTHING
      else if 0x02 \<le> op \<and> op \<le> 0x05 then IL_LDARG (nat (op - 0x02))
      else if 0x06 \<le> op \<and> op \<le> 0x09 then IL_LDLOC (nat (op - 0x06))
      else if 0x0A \<le> op \<and> op \<le> 0x0D then IL_STLOC (nat (op - 0x0A))
      else if op = 0x14 then IL_LDNULL
      else if 0x15 \<le> op \<and> op \<le> 0x1E then IL_LDC_I4 (word_of_int (op - 0x16))
      else if op = 0x25 then IL_DUP
      else if op = 0x26 then IL_POP
      else if op = 0x65 then IL_NEG
      else if op = 0x66 then IL_NOT
      else if op_binary op \<noteq> None then IL_BIN (the (op_binary op))
      else if op_conversion op \<noteq> None then the (op_conversion op)
      else if op_compare op \<noteq> None then the (op_compare op)
      else if op_unsupported op then IL_UNSUPPORTED
      else if op_elsewhere op then IL_ELSEWHERE
      else IL_UNKNOWN)"

definition decode :: "int \<Rightarrow> u8 list \<Rightarrow> int \<Rightarrow> (IL_Instr \<times> int) option" where
  "decode op code ip =
     (if op = 0x0E then with_unsigned 1 code ip (\<lambda>arg. IL_LDARG (nat arg))
      else if op = 0x109 then with_unsigned 2 code ip (\<lambda>arg. IL_LDARG (nat arg))
      else if op = 0x11 then with_unsigned 1 code ip (\<lambda>arg. IL_LDLOC (nat arg))
      else if op = 0x10C then with_unsigned 2 code ip (\<lambda>arg. IL_LDLOC (nat arg))
      else if op = 0x13 then with_unsigned 1 code ip (\<lambda>arg. IL_STLOC (nat arg))
      else if op = 0x10E then with_unsigned 2 code ip (\<lambda>arg. IL_STLOC (nat arg))
      else if op = 0x10 then with_unsigned 1 code ip (\<lambda>arg. IL_STARG (nat arg))
      else if op = 0x10B then with_unsigned 2 code ip (\<lambda>arg. IL_STARG (nat arg))
      else if op = 0x1F then with_signed 1 code ip (\<lambda>arg. IL_LDC_I4 (word_of_int arg))
      else if op = 0x20 then with_signed 4 code ip (\<lambda>arg. IL_LDC_I4 (word_of_int arg))
      else if op = 0x21 then with_signed 8 code ip (\<lambda>arg. IL_LDC_I8 (word_of_int arg))
      else if op = 0x22 then with_unsigned 4 code ip (\<lambda>arg. IL_LDC_R4 (word_of_int arg))
      else if op = 0x23 then with_unsigned 8 code ip (\<lambda>arg. IL_LDC_R8 (word_of_int arg))
      else if 0x2B \<le> op \<and> op \<le> 0x37 then with_signed 1 code ip (IL_BR (br_condition (op - 0x2B)))
      else if 0x38 \<le> op \<and> op \<le> 0x44 then with_signed 2 code ip (IL_BR (br_condition (op - 0x38)))
      else if op = 0x45 then with_unsigned 1 code ip (\<lambda>arg. IL_SWITCH (nat arg))
      else Some (decode_simple op, ip))"

section \<open>Executing\<close>

text \<open>\<open>evalPos[ 0 ]\<close>, \<open>evalPos[ -1 ]\<close>, a push, and a result in place of the operands.\<close>

definition eval_top :: "nat \<Rightarrow> IL_Frame \<Rightarrow> HeapValue" where
  "eval_top k f = il_stack f ! (il_pos f - 1 - k)"

definition holds :: "nat \<Rightarrow> IL_Frame \<Rightarrow> bool" where
  "holds n f \<longleftrightarrow> n \<le> il_pos f \<and> il_pos f \<le> List.length (il_stack f)"

definition push_slot :: "(HeapValue \<Rightarrow> HeapValue) \<Rightarrow> IL_Frame \<Rightarrow> il_result" where
  "push_slot g f =
     (if il_pos f < List.length (il_stack f)
      then Running (f\<lparr>il_stack := (il_stack f)[il_pos f := g (il_stack f ! il_pos f)], il_pos := il_pos f + 1\<rparr>)
      else IL_Undefined)"

definition pop_slots :: "nat \<Rightarrow> IL_Frame \<Rightarrow> IL_Frame" where
  "pop_slots n f = f\<lparr>il_pos := il_pos f - n\<rparr>"

definition set_top :: "HeapValue \<Rightarrow> IL_Frame \<Rightarrow> IL_Frame" where
  "set_top v f = f\<lparr>il_stack := (il_stack f)[il_pos f - 1 := v]\<rparr>"

definition finish :: "IL_Frame \<Rightarrow> num_result \<Rightarrow> il_result" where
  "finish f r =
     (case r of NumOk v \<Rightarrow> Running (set_top v f) | NumErr e \<Rightarrow> Leave (IL_HResult e) f | Undefined \<Rightarrow> IL_Undefined)"

fun cmp_holds :: "IL_Compare \<Rightarrow> int \<Rightarrow> bool" where
  "cmp_holds CMP_EQ r \<longleftrightarrow> r = 0"
| "cmp_holds CMP_NE r \<longleftrightarrow> r \<noteq> 0"
| "cmp_holds CMP_LT r \<longleftrightarrow> r < 0"
| "cmp_holds CMP_LE r \<longleftrightarrow> r \<le> 0"
| "cmp_holds CMP_GT r \<longleftrightarrow> r > 0"
| "cmp_holds CMP_GE r \<longleftrightarrow> r \<ge> 0"

fun numeric_binary :: "(u32 \<Rightarrow> u8) \<Rightarrow> IL_Binary \<Rightarrow> HeapValue \<Rightarrow> HeapValue \<Rightarrow> num_result" where
  "numeric_binary sz BIN_ADD right h = NumericAdd sz right h"
| "numeric_binary sz BIN_SUB right h = NumericSub sz right h"
| "numeric_binary sz BIN_MUL right h = NumericMul right h"
| "numeric_binary sz BIN_DIV right h = NumericDiv right h"
| "numeric_binary sz BIN_DIV_UN right h = NumericDivUn right h"
| "numeric_binary sz BIN_REM right h = NumericRem right h"
| "numeric_binary sz BIN_REM_UN right h = NumericRemUn right h"
| "numeric_binary sz BIN_AND right h = NumOk (put_u8 (num_u8 h AND num_u8 right) h)"
| "numeric_binary sz BIN_OR right h = NumOk (put_u8 (num_u8 h OR num_u8 right) h)"
| "numeric_binary sz BIN_XOR right h = NumOk (put_u8 (num_u8 h XOR num_u8 right) h)"
| "numeric_binary sz BIN_SHL right h = NumericShl right h"
| "numeric_binary sz BIN_SHR right h = NumericShr right h"
| "numeric_binary sz BIN_SHR_UN right h = NumericShrUn right h"

text \<open>
  \<open>Execute_BR\<close>, with the only look at the time quantum. A condition on references is decided outside.
\<close>

definition Execute_BR :: "bool \<Rightarrow> bool \<Rightarrow> int \<Rightarrow> IL_Frame \<Rightarrow> il_result" where
  "Execute_BR timeQuantumExpired fCondition offset f =
     (let f = (if fCondition then f\<lparr>il_ip := il_ip f + offset\<rparr> else f) in
      if timeQuantumExpired then QuantumExpired f else Running f)"

definition branch :: "bool \<Rightarrow> IL_Condition \<Rightarrow> int \<Rightarrow> IL_Frame \<Rightarrow> IL_Frame \<Rightarrow> il_result" where
  "branch q c offset f0 f =
     (case c of
        BR_ALWAYS \<Rightarrow> Execute_BR q True offset f
      | BR_FALSE \<Rightarrow> (if holds 1 f then Execute_BR q (IsZero (eval_top 0 f)) offset (pop_slots 1 f) else IL_Undefined)
      | BR_TRUE \<Rightarrow> (if holds 1 f then Execute_BR q (\<not> IsZero (eval_top 0 f)) offset (pop_slots 1 f) else IL_Undefined)
      | BR_CMP cmp fSigned \<Rightarrow>
          (if holds 2 f then
             (case Compare_Values (eval_top 1 f) (eval_top 0 f) fSigned of
                None \<Rightarrow> Elsewhere f0
              | Some r \<Rightarrow> Execute_BR q (cmp_holds cmp r) offset (pop_slots 2 f))
           else IL_Undefined))"

definition switch_branch :: "nat \<Rightarrow> IL_Frame \<Rightarrow> il_result" where
  "switch_branch numCases f =
     (if holds 1 f then
        (let caseSelected = unat (num_u4 (eval_top 0 f)); ip = il_ip f; f = pop_slots 1 f in
         if caseSelected < numCases then
           (case READ_SIGNED (il_code f) (ip + 2 * int caseSelected) 2 of
              None \<Rightarrow> IL_Undefined
            | Some offset \<Rightarrow> Running (f\<lparr>il_ip := ip + offset + 2 * int numCases\<rparr>))
         else Running (f\<lparr>il_ip := ip + 2 * int numCases\<rparr>))
      else IL_Undefined)"

text \<open>
  \<open>Execute_LoadAndPromote\<close>: a small integer becomes an \<open>I4\<close>; an object that is a value type is
  cloned, outside. \<open>isValueType\<close> is \<open>IsAValueType\<close>, which follows the reference.
\<close>

definition load :: "(HeapValue \<Rightarrow> bool) \<Rightarrow> HeapValue list \<Rightarrow> nat \<Rightarrow> IL_Frame \<Rightarrow> IL_Frame \<Rightarrow> il_result" where
  "load isValueType vs n f0 f =
     (if n < List.length vs then
        (if hv_type (vs ! n) = DATATYPE_OBJECT \<and> isValueType (vs ! n) then Elsewhere f0
         else push_slot (\<lambda>old. Promote (vs ! n)) f)
      else IL_Undefined)"

definition store :: "HeapValue list \<Rightarrow> nat \<Rightarrow> IL_Frame \<Rightarrow> HeapValue list option" where
  "store vs n f =
     (if n < List.length vs \<and> holds 1 f then Some (vs[n := AssignAndPreserveType (eval_top 0 f) (vs ! n)]) else None)"

text \<open>\<open>f0\<close> is the frame before the instruction, \<open>f\<close> the one with \<open>ip\<close> after it.\<close>

definition Execute_Instr ::
  "(u32 \<Rightarrow> u8) \<Rightarrow> (HeapValue \<Rightarrow> bool) \<Rightarrow> bool \<Rightarrow> IL_Instr \<Rightarrow> IL_Frame \<Rightarrow> IL_Frame \<Rightarrow> il_result" where
  "Execute_Instr sz isValueType q i f0 f =
     (case i of
        IL_NOTHING \<Rightarrow> Running f
      | IL_LDARG n \<Rightarrow> load isValueType (il_args f) n f0 f
      | IL_LDLOC n \<Rightarrow> load isValueType (il_locals f) n f0 f
      | IL_STLOC n \<Rightarrow>
          (case store (il_locals f) n f of None \<Rightarrow> IL_Undefined | Some vs \<Rightarrow> Running (pop_slots 1 (f\<lparr>il_locals := vs\<rparr>)))
      | IL_STARG n \<Rightarrow>
          (case store (il_args f) n f of None \<Rightarrow> IL_Undefined | Some vs \<Rightarrow> Running (pop_slots 1 (f\<lparr>il_args := vs\<rparr>)))
      | IL_LDNULL \<Rightarrow> push_slot (SetObjectReference 0) f
      | IL_LDC_I4 arg \<Rightarrow> push_slot (SetInteger4 DATATYPE_I4 arg) f
      | IL_LDC_I8 arg \<Rightarrow> push_slot (SetInteger8 DATATYPE_I8 arg) f
      | IL_LDC_R4 arg \<Rightarrow> push_slot (SetFloatIEEE754 arg) f
      | IL_LDC_R8 arg \<Rightarrow> push_slot (SetDoubleIEEE754 arg) f
      | IL_DUP \<Rightarrow> (if holds 1 f then push_slot (\<lambda>old. eval_top 0 f) f else IL_Undefined)
      | IL_POP \<Rightarrow> (if holds 1 f then Running (pop_slots 1 f) else IL_Undefined)
      | IL_BR c offset \<Rightarrow> branch q c offset f0 f
      | IL_SWITCH numCases \<Rightarrow> switch_branch numCases f
      | IL_BIN b \<Rightarrow>
          (if holds 2 f then finish (pop_slots 1 f) (numeric_binary sz b (eval_top 0 f) (eval_top 1 f)) else IL_Undefined)
      | IL_NEG \<Rightarrow> (if holds 1 f then finish f (NumericNeg (eval_top 0 f)) else IL_Undefined)
      | IL_NOT \<Rightarrow>
          (if holds 1 f then Running (set_top (put_u8 (NOT (num_u8 (eval_top 0 f))) (eval_top 0 f)) f) else IL_Undefined)
      | IL_CONV et fOverflow fUnsigned \<Rightarrow>
          (if holds 1 f then finish f (Convert et fOverflow fUnsigned (eval_top 0 f)) else IL_Undefined)
      | IL_CONV_NATIVE et fOverflow fUnsigned \<Rightarrow>
          (if holds 1 f then
             (if hv_type (eval_top 0 f) = DATATYPE_BYREF \<or> hv_type (eval_top 0 f) = DATATYPE_ARRAY_BYREF then Running f
              else finish f (Convert et fOverflow fUnsigned (eval_top 0 f)))
           else IL_Undefined)
      | IL_COMPARE cmp fSigned \<Rightarrow>
          (if holds 2 f then
             (case Compare_Values (eval_top 1 f) (eval_top 0 f) fSigned of
                None \<Rightarrow> Elsewhere f0
              | Some r \<Rightarrow>
                  Running (set_top (SetInteger4 DATATYPE_I4 (if cmp_holds cmp r then 1 else 0) (eval_top 1 f)) (pop_slots 1 f)))
           else IL_Undefined)
      | IL_UNSUPPORTED \<Rightarrow> Leave CLR_E_UNSUPPORTED_INSTRUCTION f
      | IL_UNKNOWN \<Rightarrow> Leave CLR_E_UNKNOWN_INSTRUCTION f
      | IL_ELSEWHERE \<Rightarrow> Elsewhere f0)"

definition Execute_step :: "(u32 \<Rightarrow> u8) \<Rightarrow> (HeapValue \<Rightarrow> bool) \<Rightarrow> bool \<Rightarrow> IL_Frame \<Rightarrow> il_result" where
  "Execute_step sz isValueType q f =
     (case fetch_opcode (il_code f) (il_ip f) of
        None \<Rightarrow> IL_Undefined
      | Some (op, ip) \<Rightarrow>
          (case decode op (il_code f) ip of
             None \<Rightarrow> IL_Undefined
           | Some (i, ip') \<Rightarrow> Execute_Instr sz isValueType q i f (f\<lparr>il_ip := ip'\<rparr>)))"

text \<open>
  The loop, for \<open>n\<close> instructions; \<open>q k\<close> is what \<open>m_timeQuantumExpired\<close> is at the \<open>k\<close>-th, which
  the timer interrupt sets.
\<close>

fun Execute_IL :: "(u32 \<Rightarrow> u8) \<Rightarrow> (HeapValue \<Rightarrow> bool) \<Rightarrow> (nat \<Rightarrow> bool) \<Rightarrow> nat \<Rightarrow> IL_Frame \<Rightarrow> il_result" where
  "Execute_IL sz isValueType q 0 f = Running f"
| "Execute_IL sz isValueType q (Suc n) f =
     (case Execute_step sz isValueType (q 0) f of
        Running f' \<Rightarrow> Execute_IL sz isValueType (\<lambda>k. q (Suc k)) n f'
      | r \<Rightarrow> r)"

end
