(* ===== verification/NumericValues.thy ===== *)
theory NumericValues imports HeapNumerics begin

text \<open>
  What the numbers of the heap mean as integers, and that the code computes with them as it should:
  the conversions, the fixed point product, the order and the literals.
\<close>

section \<open>What the numbers mean\<close>

text \<open>The integer a block holds; of \<open>R4\<close> and \<open>R8\<close>, the integer before scaling.\<close>

definition num_value :: "HeapValue \<Rightarrow> int" where
  "num_value h =
     (case hv_type h of
        DATATYPE_BOOLEAN \<Rightarrow> uint (num_u1 h) | DATATYPE_U1 \<Rightarrow> uint (num_u1 h) | DATATYPE_I1 \<Rightarrow> sint (num_u1 h)
      | DATATYPE_CHAR \<Rightarrow> uint (num_u2 h) | DATATYPE_U2 \<Rightarrow> uint (num_u2 h) | DATATYPE_I2 \<Rightarrow> sint (num_u2 h)
      | DATATYPE_I4 \<Rightarrow> sint (num_u4 h) | DATATYPE_U4 \<Rightarrow> uint (num_u4 h) | DATATYPE_R4 \<Rightarrow> sint (num_u4 h)
      | DATATYPE_I8 \<Rightarrow> sint (num_u8 h) | DATATYPE_U8 \<Rightarrow> uint (num_u8 h) | DATATYPE_R8 \<Rightarrow> sint (num_u8 h)
      | _ \<Rightarrow> sint (num_u8 h))"

fun wrap_to :: "CLR_DataType \<Rightarrow> int \<Rightarrow> int" where
  "wrap_to DATATYPE_BOOLEAN x = take_bit 8 x"
| "wrap_to DATATYPE_U1 x = take_bit 8 x" | "wrap_to DATATYPE_I1 x = signed_take_bit 7 x"
| "wrap_to DATATYPE_CHAR x = take_bit 16 x" | "wrap_to DATATYPE_U2 x = take_bit 16 x"
| "wrap_to DATATYPE_I2 x = signed_take_bit 15 x"
| "wrap_to DATATYPE_I4 x = signed_take_bit 31 x" | "wrap_to DATATYPE_U4 x = take_bit 32 x"
| "wrap_to DATATYPE_R4 x = signed_take_bit 31 x"
| "wrap_to DATATYPE_U8 x = take_bit 64 x"
| "wrap_to _ x = signed_take_bit 63 x"

definition small_types :: "CLR_DataType set" where
  "small_types = {DATATYPE_BOOLEAN, DATATYPE_I1, DATATYPE_U1, DATATYPE_CHAR, DATATYPE_I2, DATATYPE_U2}"

definition promoted :: "CLR_DataType \<Rightarrow> CLR_DataType" where
  "promoted dt = (if dt \<in> small_types then DATATYPE_I4 else dt)"

definition stack_number :: "CLR_DataType \<Rightarrow> bool" where
  "stack_number dt \<longleftrightarrow> dt \<in> {DATATYPE_I4, DATATYPE_U4, DATATYPE_I8, DATATYPE_U8, DATATYPE_R4, DATATYPE_R8}"

lemma u4_put_u4 [simp]: "num_u4 (put_u4 w h) = w"
  unfolding num_u4_def put_u4_def
  by (rule bit_word_eqI) (simp add: bit_simps)

lemma type_put_u4 [simp]: "hv_type (put_u4 w h) = hv_type h" by (simp add: put_u4_def)
lemma type_put_u8 [simp]: "hv_type (put_u8 w h) = hv_type h" by (simp add: put_u8_def)
lemma u8_put_u8 [simp]: "hv_data (put_u8 w h) = w" by (simp add: put_u8_def)
lemma type_put_index [simp]: "hv_type (put_index w h) = hv_type h" by (simp add: put_index_def)

lemma type_Promote [simp]: "hv_type (Promote h) = promoted (hv_type h)"
  by (cases "hv_type h") (simp_all add: Promote_def promoted_def small_types_def)

lemma ucast_word_of_int:
  "LENGTH('b::len) \<le> LENGTH('a::len) \<Longrightarrow> ucast (word_of_int x :: 'a word) = (word_of_int x :: 'b word)"
  by transfer simp

lemma num_of_int [simp]:
  "hv_data h = word_of_int x \<Longrightarrow> num_u1 h = word_of_int x"
  "hv_data h = word_of_int x \<Longrightarrow> num_u2 h = word_of_int x"
  "hv_data h = word_of_int x \<Longrightarrow> num_u4 h = word_of_int x"
  by (simp_all add: num_u1_def num_u2_def num_u4_def ucast_word_of_int)

lemma value_Promote:
  assumes "hv_data h = word_of_int x" and "c_Numeric (hv_type h)"
  shows "num_value (Promote h) = wrap_to (hv_type h) x"
  using assms
  by (cases "hv_type h")
    (simp_all add: Promote_def num_value_def c_Numeric_def sint_sbintrunc' uint_word_of_int_eq
      unsigned_of_int signed_ucast_eq signed_scast_eq signed_take_bit_take_bit)

text \<open>Shifts of 64 bit numbers as arithmetic.\<close>

lemma push_bit_of_int: "push_bit n (word_of_int x :: 'a::len word) = word_of_int (x * 2 ^ n)"
  by (simp add: push_bit_eq_mult)

lemma signed_drop_bit_value: "sint (signed_drop_bit n (w :: 'a::len word)) = sint w div 2 ^ n"
  by (simp add: sint_signed_drop_bit_eq drop_bit_eq_div)

lemma sdiv_pow_neg: "(x :: int) < 0 \<Longrightarrow> x sdiv 2 ^ n = (x + (2 ^ n - 1)) div 2 ^ n"
proof -
  assume "x < 0"
  have "x sdiv 2 ^ n = - ((- x) div 2 ^ n)" using \<open>x < 0\<close> by (simp add: signed_divide_int_def)
  also have "\<dots> = (x + (2 ^ n - 1)) div 2 ^ n"
  proof -
    define m :: int where "m = 2 ^ n"
    have m: "0 < m" by (simp add: m_def)
    have q: "- x = m * ((- x) div m) + (- x) mod m" by simp
    have "x + (m - 1) = m * (- ((- x) div m)) + (m - 1 - (- x) mod m)" using q by (simp add: algebra_simps)
    moreover have "0 \<le> m - 1 - (- x) mod m" "m - 1 - (- x) mod m < m"
      using m pos_mod_bound [OF m, of "- x"] pos_mod_sign [OF m, of "- x"] by linarith+
    ultimately show ?thesis unfolding m_def [symmetric]
      by (metis div_pos_pos_trivial div_mult_self2 add.commute add_0 less_irrefl m)
  qed
  finally show ?thesis .
qed

lemma sdiv_pow_pos: "0 \<le> (x :: int) \<Longrightarrow> x sdiv 2 ^ n = x div 2 ^ n"
  by (cases "x = 0") (simp_all add: signed_divide_int_def)

text \<open>The quotient of the scaling, towards zero.\<close>

lemma rescale_value:
  assumes "out < inn" and "w = word_of_int x" and "sint w = x" and "inn \<le> 62"
  shows "convert_rescale inn out w = word_of_int (x sdiv 2 ^ (inn - out))"
proof -
  define n where "n = inn - out"
  have n: "n \<le> 62" "0 < n" using assms by (auto simp: n_def)
  have b: "- (2 ^ 63) \<le> x" "x < 2 ^ 63" using sint_range_size [of w] assms(3) by (simp_all add: word_size)
  have pn: "(2::int) ^ n \<le> 2 ^ 62" using n by (intro power_increasing) auto
  have k: "word_of_int (sint (signed_drop_bit n v)) = signed_drop_bit n v" for v :: u64 by simp
  have "convert_rescale inn out w = word_of_int (if x < 0 then (x + (2 ^ n - 1)) div 2 ^ n else x div 2 ^ n)"
  proof (cases "x < 0")
    case True
    have "sint (w + (push_bit n 1 - 1)) = x + (2 ^ n - 1)"
    proof -
      have "w + (push_bit n 1 - 1) = word_of_int (x + (2 ^ n - 1))"
        using assms(2) by (simp add: push_bit_eq_mult)
      moreover have "signed_take_bit 63 (x + (2 ^ n - 1)) = x + (2 ^ n - 1)"
      proof (rule signed_take_bit_int_eq_self)
        have "(1::int) \<le> 2 ^ n" by simp
        then show "- (2 ^ 63) \<le> x + (2 ^ n - 1)" using b by linarith
        show "x + (2 ^ n - 1) < 2 ^ 63" using True pn by simp
      qed
      ultimately show ?thesis by (simp only: sint_sbintrunc') simp
    qed
    then show ?thesis using True assms(1,3) k [of "w + (push_bit n 1 - 1)"]
      by (simp add: convert_rescale_def n_def [symmetric] signed_drop_bit_value)
  next
    case False
    then show ?thesis using assms(1,3) k [of w]
      by (simp add: convert_rescale_def n_def [symmetric] signed_drop_bit_value)
  qed
  then show ?thesis by (simp add: sdiv_pow_neg sdiv_pow_pos n_def [symmetric])
qed

lemma sdiv_cancel: "0 < m \<Longrightarrow> (y * m) sdiv m = (y :: int)"
  by (simp add: signed_divide_int_def sgn_mult abs_mult sgn_mult_abs)

lemma sdiv_mult_cancel: "(x * 2 ^ out) sdiv 2 ^ inn = (if inn \<le> out then x * 2 ^ (out - inn) else x sdiv (2 :: int) ^ (inn - out))"
proof (cases "inn \<le> out")
  case True
  have "(2 :: int) ^ out = 2 ^ (out - inn) * 2 ^ inn" using True by (simp add: power_add [symmetric])
  then have "(x * 2 ^ out) sdiv 2 ^ inn = x * 2 ^ (out - inn)" 
    using sdiv_cancel [of "2 ^ inn" "x * 2 ^ (out - inn)"] by (simp add: mult.assoc)
  then show ?thesis using True by simp
next
  case False
  have e: "(2::int) ^ inn = 2 ^ (inn - out) * 2 ^ out" using False by (simp add: power_add [symmetric])
  show ?thesis using False unfolding e
    by (simp add: signed_divide_int_def sgn_mult abs_mult)
qed

definition convert_source :: "CLR_DataType \<Rightarrow> HeapValue \<Rightarrow> int" where
  "convert_source et h =
     (if c_Signed et \<or> hv_type h = DATATYPE_R4 \<or> hv_type h = DATATYPE_R8 then num_value h
      else take_bit (m_sizeInBits (hv_type h)) (num_value h))"

lemma shift_up_down:
  "drop_bit 32 (push_bit 32 w) = (ucast (ucast (w :: u64) :: u32) :: u64)"
  "signed_drop_bit 32 (push_bit 32 w) = (scast (ucast (w :: u64) :: u32) :: u64)"
  by (rule bit_word_eqI, auto simp: bit_simps)+

lemma word_of_int_take_bit: "word_of_int (take_bit 64 x) = (word_of_int x :: u64)"
  by transfer simp

lemma ucast_u4: "word_of_int (uint (w :: u32)) = (ucast w :: u64)" by transfer simp

lemma take_bit_u4: "take_bit 32 (uint (w :: u32)) = uint w" by transfer simp

lemma take_bit_sint_u4: "take_bit 32 (sint (w :: u32)) = uint w" by transfer (simp add: take_bit_signed_take_bit)

lemma convert_extend_source:
  assumes "stack_number (hv_type h)" and "c_Numeric et"
  obtains w inn where "convert_extend et h = Some (w, inn)" and "w = word_of_int (convert_source et h)"
    and "inn = convert_scale (hv_type h)" and "inn \<noteq> 0 \<Longrightarrow> sint w = convert_source et h"
proof -
  note defs = convert_extend_def convert_source_def convert_scale_def num_value_def HB_FloatShift_def HB_DoubleShift_def
  consider "hv_type h = DATATYPE_I4" | "hv_type h = DATATYPE_U4" | "hv_type h = DATATYPE_I8 \<or> hv_type h = DATATYPE_U8"
    | "hv_type h = DATATYPE_R4" | "hv_type h = DATATYPE_R8"
    using assms(1) by (auto simp: stack_number_def)
  then show ?thesis
  proof cases
    case 1
    show ?thesis
    proof (rule that)
      show "convert_extend et h = Some (word_of_int (convert_source et h), 0)"
        using 1 by (simp add: defs c_Numeric_def c_Signed_def num_u4_def shift_up_down take_bit_sint_u4 ucast_u4
            flip: scast_eq)
    qed (use 1 in \<open>simp_all add: defs\<close>)
  next
    case 2
    show ?thesis
    proof (rule that)
      show "convert_extend et h = Some (word_of_int (convert_source et h), 0)"
        using 2 by (simp add: defs c_Numeric_def c_Signed_def num_u4_def shift_up_down ucast_u4 take_bit_u4)
    qed (use 2 in \<open>simp_all add: defs\<close>)
  next
    case 3
    show ?thesis
    proof (rule that)
      show "convert_extend et h = Some (word_of_int (convert_source et h), 0)"
        using 3 by (elim disjE) (simp_all add: defs c_Numeric_def word_of_int_take_bit)
    qed (use 3 in \<open>auto simp: defs\<close>)
  next
    case 4
    then show ?thesis
      by (intro that [of "scast (num_u4 h)" HB_FloatShift])
        (simp_all add: defs sint_up_scast is_up_def target_size source_size)
  next
    case 5
    then show ?thesis by (intro that [of "num_u8 h" HB_DoubleShift]) (simp_all add: defs)
  qed
qed

text \<open>
  C35: A conversion between numbers takes the value of the source, as a signed number when the target
  is signed, scales it by the difference of the fixed points, rounds towards zero and wraps to the
  width of the target; a small target is promoted. It never fails on a number.
\<close>

theorem Convert_rounds_toward_zero:
  assumes "stack_number (hv_type h)" and "c_Numeric et"
  shows "\<exists>h'. Convert et ovf un h = NumOk h' \<and> hv_type h' = promoted et \<and>
           num_value h' = wrap_to et ((convert_source et h * 2 ^ convert_scale et) sdiv 2 ^ convert_scale (hv_type h))"
proof -
  obtain w inn where e: "convert_extend et h = Some (w, inn)"
    and w: "w = word_of_int (convert_source et h)" and i: "inn = convert_scale (hv_type h)"
    and s: "inn \<noteq> 0 \<Longrightarrow> sint w = convert_source et h"
    using convert_extend_source [OF assms] by blast
  have r: "convert_rescale inn (convert_scale et) w
    = word_of_int ((convert_source et h * 2 ^ convert_scale et) sdiv 2 ^ inn)"
  proof (cases "convert_scale et < inn")
    case True
    then show ?thesis using rescale_value [OF True w] s i
      by (simp add: sdiv_mult_cancel convert_scale_def HB_FloatShift_def HB_DoubleShift_def split: if_splits)
  next
    case False
    then show ?thesis using w by (simp add: sdiv_mult_cancel convert_rescale_def push_bit_eq_mult)
  qed
  show ?thesis using e r i assms(2)
    by (simp add: Convert_def Convert_Internal_def value_Promote)
qed

theorem Convert_rounds_toward_zero_witness:
  "\<exists>h'. Convert DATATYPE_I4 False False \<lparr>hv_type = DATATYPE_R8, hv_data = - 98304\<rparr> = NumOk h' \<and>
     hv_type h' = DATATYPE_I4 \<and> num_value h' = - 1"
  using Convert_rounds_toward_zero [of "\<lparr>hv_type = DATATYPE_R8, hv_data = - 98304\<rparr>" DATATYPE_I4 False False]
  by (simp add: stack_number_def c_Numeric_def c_Signed_def promoted_def small_types_def convert_source_def num_value_def
      convert_scale_def HB_DoubleShift_def signed_divide_int_def)

section \<open>The fixed point product\<close>

lemma take_bit_u8: "take_bit 64 (uint (w :: u64)) = uint w" by transfer simp

lemma part_value: "uint (ucast (ucast (drop_bit n (w :: u64)) :: u16) :: u64) = (uint w div 2 ^ n) mod 2 ^ 16"
  by (simp add: unsigned_ucast_eq unsigned_take_bit_eq take_bit_u8 unsigned_drop_bit_eq drop_bit_eq_div [of n "uint w"] take_bit_eq_mod [of 16 "_ :: int"])

lemma parts_sum:
  assumes "0 \<le> (b :: int)" and "b < 2 ^ 64"
  shows "b = b mod 2 ^ 16 + 2 ^ 16 * ((b div 2 ^ 16) mod 2 ^ 16 + 2 ^ 16 * ((b div 2 ^ 32) mod 2 ^ 16) + 2 ^ 32 * ((b div 2 ^ 48) mod 2 ^ 16))"
proof -
  define x1 x2 x3 where "x1 = b div 2 ^ 16" and "x2 = b div 2 ^ 32" and "x3 = b div 2 ^ 48"
  have "x2 = x1 div 2 ^ 16" "x3 = x2 div 2 ^ 16" by (simp_all add: x1_def x2_def x3_def flip: zdiv_zmult2_eq)
  moreover have "x3 mod 2 ^ 16 = x3" using assms by (simp add: x3_def)
  moreover have "b mod 2 ^ 16 = b - 2 ^ 16 * x1" by (simp add: x1_def minus_mult_div_eq_mod)
  moreover have "x1 mod 2 ^ 16 = x1 - 2 ^ 16 * (x1 div 2 ^ 16)" "x2 mod 2 ^ 16 = x2 - 2 ^ 16 * (x2 div 2 ^ 16)"
    by (simp_all add: minus_mult_div_eq_mod)
  ultimately have "b = b mod 2 ^ 16 + 2 ^ 16 * (x1 mod 2 ^ 16 + 2 ^ 16 * (x2 mod 2 ^ 16) + 2 ^ 32 * (x3 mod 2 ^ 16))"
    by (simp only:) (simp add: algebra_simps)
  then show ?thesis by (simp only: x1_def x2_def x3_def)
qed

lemma R8_accumulate_sum:
  assumes "uint op1 \<le> 2 ^ 48"
  shows "R8_accumulate op1 op2 0 + R8_accumulate op1 op2 1 + R8_accumulate op1 op2 2 + R8_accumulate op1 op2 3
    = word_of_int ((uint op1 * uint op2) div 2 ^ 16)"
proof -
  define a b where "a = uint op1" and "b = uint op2"
  have a: "0 \<le> a" "a \<le> 2 ^ 48" using assms by (simp_all add: a_def)
  define p where "p k = (b div 2 ^ (16 * k)) mod 2 ^ 16" for k
  have pp: "ucast (ucast (drop_bit (16 * k) op2) :: u16) = (word_of_int (p k) :: u64)" for k
    unfolding p_def b_def part_value [symmetric] by simp
  have o: "op1 = word_of_int a" by (simp add: a_def)
  have p0: "0 \<le> p 0" "p 0 \<le> 2 ^ 16 - 1" by (simp_all add: p_def)
  have "a * p 0 \<le> 2 ^ 48 * (2 ^ 16 - 1)" using a p0 by (intro mult_mono) auto
  then have lt: "a * p 0 < 2 ^ 64" by simp
  have lt': "take_bit 64 (a * p 0) = a * p 0" using lt a p0 by (simp add: take_bit_int_eq_self)
  have z: "R8_accumulate op1 op2 0 = word_of_int (a * p 0 div 2 ^ 16)"
  proof -
    have "uint (op1 * word_of_int (p 0)) = a * p 0"
    proof -
      have "op1 * word_of_int (p 0) = word_of_int (a * p 0)" by (simp add: o)
      moreover have "uint (word_of_int (a * p 0) :: u64) = a * p 0"
        using lt a p0 by (simp add: uint_word_of_int_eq take_bit_int_eq_self del: of_int_mult)
      ultimately show ?thesis by simp
    qed
    then have "uint (drop_bit 16 (op1 * word_of_int (p 0))) = a * p 0 div 2 ^ 16"
      by (simp add: unsigned_drop_bit_eq drop_bit_eq_div [of 16 "_ :: int"] lt' del: take_bit_eq_mod)
    then have "drop_bit 16 (op1 * word_of_int (p 0)) = word_of_int (a * p 0 div 2 ^ 16)" by (metis word_of_int_uint)
    then show ?thesis using pp [of 0] by (simp add: R8_accumulate_def HB_DoubleShift_def)
  qed
  have k: "R8_accumulate op1 op2 k = word_of_int (a * p k * 2 ^ (16 * k - 16))" if "1 \<le> k" for k
    using that pp [of k] by (simp add: R8_accumulate_def HB_DoubleShift_def o push_bit_eq_mult)
  have bs: "b = p 0 + 2 ^ 16 * (p 1 + 2 ^ 16 * p 2 + 2 ^ 32 * p 3)"
  proof -
    have "0 \<le> b" "b < 2 ^ 64" using uint_lt2p [of op2] by (simp_all add: b_def)
    moreover have "p 0 = b mod 2 ^ 16" "p 1 = (b div 2 ^ 16) mod 2 ^ 16" "p 2 = (b div 2 ^ 32) mod 2 ^ 16"
      "p 3 = (b div 2 ^ 48) mod 2 ^ 16" by (simp_all add: p_def)
    ultimately show ?thesis using parts_sum [of b] by (simp only:)
  qed
  have "(a * b) div 2 ^ 16 = a * p 0 div 2 ^ 16 + a * (p 1 + 2 ^ 16 * p 2 + 2 ^ 32 * p 3)"
  proof -
    have "a * b = a * p 0 + 2 ^ 16 * (a * (p 1 + 2 ^ 16 * p 2 + 2 ^ 32 * p 3))" by (subst bs) (simp add: algebra_simps)
    then show ?thesis by simp
  qed
  then show ?thesis unfolding a_def [symmetric] b_def [symmetric]
    by (simp add: z k algebra_simps)
qed

text \<open>
  The emulated product of two \<open>R8\<close> is the exact product, scaled back and rounded towards zero,
  as long as the left factor is at most \<open>2^32\<close> in absolute value (\<open>2^48\<close> before scaling).
\<close>

lemma R8_mul_exact:
  assumes "\<bar>sint a\<bar> \<le> 2 ^ 48"
  shows "R8_mul a b = word_of_int ((sint a * sint b) sdiv 2 ^ 16)"
proof -
  have abs: "uint (if sint w < 0 then - w else w) = \<bar>sint w\<bar>" for w :: u64
  proof -
    have "- (2 ^ 63) \<le> sint w" "sint w < 2 ^ 63" using sint_range_size [of w] by (simp_all add: word_size)
    then have "take_bit 64 \<bar>sint w\<bar> = \<bar>sint w\<bar>" by (intro take_bit_int_eq_self) auto
    moreover have "(if sint w < 0 then - w else w) = word_of_int \<bar>sint w\<bar>" by (simp add: abs_if)
    ultimately show ?thesis by (simp only: uint_word_of_int_eq) simp
  qed
  have quot: "(x * y) sdiv 2 ^ 16 = (if (x < 0) \<noteq> (y < 0) then - ((\<bar>x\<bar> * \<bar>y\<bar>) div 2 ^ 16) else (\<bar>x\<bar> * \<bar>y\<bar>) div 2 ^ 16)"
    for x y :: int
    by (cases "x = 0 \<or> y = 0") (auto simp: signed_divide_int_def sgn_mult abs_mult sgn_if zero_less_mult_iff)
  define op1 op2 where "op1 = (if sint a < 0 then - a else a)" and "op2 = (if sint b < 0 then - b else b)"
  have u: "uint op1 = \<bar>sint a\<bar>" "uint op2 = \<bar>sint b\<bar>" unfolding op1_def op2_def by (rule abs)+
  have m: "R8_mul a b = (if (sint a < 0) \<noteq> (sint b < 0)
      then - (R8_accumulate op1 op2 0 + R8_accumulate op1 op2 1 + R8_accumulate op1 op2 2 + R8_accumulate op1 op2 3)
      else R8_accumulate op1 op2 0 + R8_accumulate op1 op2 1 + R8_accumulate op1 op2 2 + R8_accumulate op1 op2 3)"
    by (simp add: R8_mul_def op1_def op2_def Let_def)
  have "R8_mul a b = (if (sint a < 0) \<noteq> (sint b < 0) then - word_of_int ((\<bar>sint a\<bar> * \<bar>sint b\<bar>) div 2 ^ 16)
      else word_of_int ((\<bar>sint a\<bar> * \<bar>sint b\<bar>) div 2 ^ 16))"
    unfolding m using assms u by (simp only: R8_accumulate_sum [of op1 op2])
  also have "\<dots> = word_of_int ((sint a * sint b) sdiv 2 ^ 16)"
    unfolding quot by simp
  finally show ?thesis .
qed

lemma R8_mul_exact_witness: "R8_mul (- 98304) 81920 = - 122880"
  using R8_mul_exact [of "- 98304" 81920] by simp

text \<open>
  A larger left factor loses the top of its product with the low part of the right one: \<open>2^33 * 0.5\<close>
  is 0, while \<open>0.5 * 2^33\<close> is \<open>2^32\<close>.
\<close>

lemma R8_mul_loses_the_product:
  "R8_mul (2 ^ 49) (2 ^ 15) = 0 \<and> R8_mul (2 ^ 15) (2 ^ 49) = 2 ^ 48"
  by (simp add: R8_mul_def R8_accumulate_def HB_DoubleShift_def Let_def)

section \<open>Order\<close>

lemma Compare_Values_orders_numbers:
  assumes "c_Numeric (hv_type l)" and "hv_type r = hv_type l" and "fSigned = c_Signed (hv_type l)"
  shows "Compare_Values l r fSigned = Some (sgn (num_value l - num_value r))"
  using assms
  by (cases "hv_type l")
    (simp_all add: Compare_Values_def compares_references_def c_Numeric_def c_Signed_def CompareValues_Numeric_def
      CompareValues_def num_value_def sgn_if)

text \<open>
  A date or a time span has the size of a block in the table, which none of the comparisons handles:
  two of them are never equal, and each is less than the other.
\<close>

lemma Compare_Values_dates:
  assumes "hv_type l = DATATYPE_DATETIME \<or> hv_type l = DATATYPE_TIMESPAN" and "hv_type r = hv_type l"
  shows "Compare_Values l r fSigned = Some (-1)"
  using assms by (auto simp: Compare_Values_def compares_references_def CompareValues_Numeric_def)

section \<open>Literals\<close>

lemma shift_mantissa_value:
  assumes "0 \<le> e \<Longrightarrow> uint m * 2 ^ nat e < 2 ^ LENGTH('a)"
  shows "uint (shift_mantissa (m :: 'a::len word) e) = (if 0 \<le> e then uint m * 2 ^ nat e else uint m div 2 ^ nat (- e))"
proof -
  have "uint (push_bit n m) = uint m * 2 ^ n" if "uint m * 2 ^ n < 2 ^ LENGTH('a)" for n
  proof -
    have "push_bit n m = word_of_int (uint m * 2 ^ n)" by (simp add: push_bit_eq_mult)
    moreover have "uint (word_of_int (uint m * 2 ^ n) :: 'a word) = uint m * 2 ^ n"
      unfolding uint_word_of_int_eq using that by (intro take_bit_int_eq_self) auto
    ultimately show ?thesis by simp
  qed
  moreover have "uint (drop_bit n m) = uint m div 2 ^ n" for n
    using take_bit_int_eq_self [of "uint m" "LENGTH('a)"] uint_lt2p [of m]
    by (simp add: unsigned_drop_bit_eq drop_bit_eq_div [of n "_ :: int"])
  ultimately show ?thesis using assms by (auto simp: shift_mantissa_def)
qed

definition float_field :: "u32 \<Rightarrow> nat" where "float_field arg = unat (drop_bit 23 arg AND 0xFF)"
definition float_mantissa :: "u32 \<Rightarrow> int" where "float_mantissa arg = uint ((arg AND 0x007FFFFF) OR 0x00800000)"

lemma uint_below: "take_bit n w = w \<Longrightarrow> uint (w :: 'a::len word) < 2 ^ n"
proof -
  assume "take_bit n w = w"
  then have "uint w = take_bit n (uint w)" using unsigned_take_bit_eq [of n w] by simp
  also have "\<dots> < 2 ^ n" by simp
  finally show ?thesis .
qed

lemma float_mantissa_bound: "float_mantissa arg < 2 ^ 24"
proof -
  have "take_bit 24 ((arg AND 0x007FFFFF) OR 0x00800000) = (arg AND 0x007FFFFF) OR (0x00800000 :: u32)"
    by (simp add: take_bit_eq_mask mask_eq_exp_minus_1 bit.conj_disj_distrib2 and.assoc)
  then show ?thesis unfolding float_mantissa_def by (rule uint_below)
qed

lemma div_pow: "(m * 2 ^ a) div 2 ^ b = (if b \<le> a then m * 2 ^ (a - b) else m div (2 :: int) ^ (b - a))"
proof (cases "b \<le> a")
  case True
  then have "(2 :: int) ^ a = 2 ^ (a - b) * 2 ^ b" by (simp add: power_add [symmetric])
  then show ?thesis using True by simp
next
  case False
  then have "(2 :: int) ^ b = 2 ^ (b - a) * 2 ^ a" by (simp add: power_add [symmetric])
  then show ?thesis using False by simp
qed

text \<open>
  A literal of 32 bits below \<open>2^21\<close> in absolute value becomes the multiple of \<open>2^-10\<close> next to it
  towards zero: \<open>mantissa * 2^(field - 150)\<close> is its IEEE 754 value.
\<close>

lemma SetFloatIEEE754_truncates:
  assumes "float_field arg \<le> 147"
  shows "num_value (SetFloatIEEE754 arg h) =
    (if arg AND 0x80000000 \<noteq> 0 then -1 else 1) * ((float_mantissa arg * 2 ^ (float_field arg + 10)) div 2 ^ 150)"
proof -
  define m where "m = ((arg AND 0x007FFFFF) OR 0x00800000 :: u32)"
  define e where "e = int (float_field arg) - 140"
  have m: "uint m = float_mantissa arg" "0 \<le> float_mantissa arg" "float_mantissa arg < 2 ^ 24"
    using float_mantissa_bound by (simp_all add: m_def float_mantissa_def)
  have k: "e \<le> 7" using assms by (simp add: e_def)
  have lt: "uint m * 2 ^ nat e < 2 ^ 31" if "0 \<le> e"
  proof -
    have "uint m * 2 ^ nat e \<le> (2 ^ 24 - 1) * 2 ^ 7" using m k that by (intro mult_mono power_increasing) auto
    then show ?thesis by simp
  qed
  define q where "q = (float_mantissa arg * 2 ^ (float_field arg + 10)) div 2 ^ 150"
  define res :: u32 where "res = (if e \<le> -32 then 0 else if e \<ge> 32 then 0x7FFFFFFF else shift_mantissa m e)"
  have qe: "q = (if 0 \<le> e then uint m * 2 ^ nat e else uint m div 2 ^ nat (- e))"
    unfolding q_def div_pow m(1) e_def by (auto simp: nat_diff_distrib' algebra_simps)
  have lt': "uint m * 2 ^ nat e < 2 ^ LENGTH(32)" if "0 \<le> e" using lt [OF that] by simp
  have small: "uint m div 2 ^ nat (- e) = 0" if "e \<le> -32"
  proof -
    have "(2::int) ^ 24 \<le> 2 ^ nat (- e)" using that by (intro power_increasing) auto
    then show ?thesis using m by (intro div_pos_pos_trivial) auto
  qed
  have q: "uint res = q" using k small unfolding res_def qe by (auto simp: shift_mantissa_value [OF lt'])
  have "q < 2 ^ 31" "0 \<le> q"
  proof -
    have "uint m div 2 ^ nat (- e) \<le> uint m" 
      using m zdiv_mono2 [of "uint m" 1 "2 ^ nat (- e)"] by simp
    then show "q < 2 ^ 31" "0 \<le> q" using lt m unfolding qe by (auto simp: pos_imp_zdiv_nonneg_iff)
  qed
  have r: "res = word_of_int q" unfolding q [symmetric] by simp
  have s: "SetFloatIEEE754 arg h = SetFloat (if arg AND 0x80000000 \<noteq> 0 then - res else res) h"
    unfolding SetFloatIEEE754_def res_def e_def m_def float_field_def HB_FloatShift_def Let_def by simp
  have "num_value (SetFloat w h) = sint w" for w by (simp add: SetFloat_def num_value_def)
  moreover have "signed_take_bit 31 q = q" "signed_take_bit 31 (- q) = - q"
    using \<open>q < 2 ^ 31\<close> \<open>0 \<le> q\<close> by (auto intro!: signed_take_bit_int_eq_self)
  ultimately show ?thesis unfolding s q_def [symmetric] by (simp add: r sint_sbintrunc' flip: of_int_minus)
qed

lemma SetFloatIEEE754_truncates_witness:
  "num_value (SetFloatIEEE754 0xBFC00000 \<lparr>hv_type = DATATYPE_VOID, hv_data = 0\<rparr>) = - 1536"
  using SetFloatIEEE754_truncates [of "0xBFC00000"] by (simp add: float_field_def float_mantissa_def)

text \<open>
  The code saturates from \<open>2^45\<close> on. Between, from \<open>2^21\<close>, the shift drops the number: the literal
  \<open>4194304.0f\<close> becomes 0.
\<close>

lemma SetFloatIEEE754_drops_large:
  "num_value (SetFloatIEEE754 0x4A800000 h) = 0"
  by (simp add: SetFloatIEEE754_def HB_FloatShift_def SetFloat_def num_value_def shift_mantissa_def)

lemma SetDoubleIEEE754_drops_large:
  "num_value (SetDoubleIEEE754 0x42F0000000000000 h) = 0"
  by (simp add: SetDoubleIEEE754_def HB_DoubleShift_def SetDouble_def num_value_def shift_mantissa_def)

end
