(* ===== verification/IntegerInstructions.thy ===== *)
theory IntegerInstructions imports Interpreter NumericValues begin

text \<open>
  What the instructions on integers compute: for two numbers of the type \<open>I4\<close> or \<open>I8\<close> the
  interpreter does to the bits of the blocks what \<open>int_binary\<close> does to the integers they hold, with
  the division by zero as an error and the one quotient that does not fit, and a shift by the width
  or more, undefined.
\<close>

section \<open>The integer instructions\<close>

text \<open>The result of an instruction as an integer.\<close>

definition abs_result :: "num_result \<Rightarrow> (HResult + int) option" where
  "abs_result r = (case r of NumOk v \<Rightarrow> Some (Inr (num_value v)) | NumErr e \<Rightarrow> Some (Inl e) | Undefined \<Rightarrow> None)"

lemma abs_result_simps [simp]:
  "abs_result (NumOk v) = Some (Inr (num_value v))" "abs_result (NumErr e) = Some (Inl e)" "abs_result Undefined = None"
  by (simp_all add: abs_result_def)

text \<open>The instructions on the integers of \<open>w\<close> bits.\<close>

definition int_div :: "nat \<Rightarrow> (int \<Rightarrow> int \<Rightarrow> int) \<Rightarrow> int \<Rightarrow> int \<Rightarrow> (HResult + int) option" where
  "int_div w f x y =
     (if y = 0 then Some (Inl CLR_E_DIVIDE_BY_ZERO)
      else if y = -1 \<and> x = - (2 ^ (w - 1)) then None
      else Some (Inr (signed_take_bit (w - 1) (f x y))))"

definition int_divu :: "nat \<Rightarrow> (int \<Rightarrow> int \<Rightarrow> int) \<Rightarrow> int \<Rightarrow> int \<Rightarrow> (HResult + int) option" where
  "int_divu w f x y =
     (if y = 0 then Some (Inl CLR_E_DIVIDE_BY_ZERO)
      else Some (Inr (signed_take_bit (w - 1) (f (take_bit w x) (take_bit w y)))))"

definition int_shift :: "nat \<Rightarrow> (int \<Rightarrow> nat \<Rightarrow> int) \<Rightarrow> int \<Rightarrow> int \<Rightarrow> (HResult + int) option" where
  "int_shift w f x y =
     (let n = nat (take_bit 32 y) in if n < w then Some (Inr (signed_take_bit (w - 1) (f x n))) else None)"

fun int_binary :: "nat \<Rightarrow> IL_Binary \<Rightarrow> int \<Rightarrow> int \<Rightarrow> (HResult + int) option" where
  "int_binary w BIN_ADD x y = Some (Inr (signed_take_bit (w - 1) (x + y)))"
| "int_binary w BIN_SUB x y = Some (Inr (signed_take_bit (w - 1) (x - y)))"
| "int_binary w BIN_MUL x y = Some (Inr (signed_take_bit (w - 1) (x * y)))"
| "int_binary w BIN_DIV x y = int_div w (sdiv) x y"
| "int_binary w BIN_REM x y = int_div w (smod) x y"
| "int_binary w BIN_DIV_UN x y = int_divu w (div) x y"
| "int_binary w BIN_REM_UN x y = int_divu w (mod) x y"
| "int_binary w BIN_AND x y = Some (Inr (x AND y))"
| "int_binary w BIN_OR x y = Some (Inr (x OR y))"
| "int_binary w BIN_XOR x y = Some (Inr (x XOR y))"
| "int_binary w BIN_SHL x y = int_shift w (\<lambda>x n. x * 2 ^ n) x y"
| "int_binary w BIN_SHR x y = int_shift w (\<lambda>x n. x div 2 ^ n) x y"
| "int_binary w BIN_SHR_UN x y = int_shift w (\<lambda>x n. take_bit w x div 2 ^ n) x y"

lemma value_put_u4 [simp]: "hv_type h = DATATYPE_I4 \<Longrightarrow> num_value (put_u4 w h) = sint w"
  by (simp add: num_value_def)

lemma value_put_u8 [simp]: "hv_type h = DATATYPE_I8 \<Longrightarrow> num_value (put_u8 w h) = sint w"
  by (simp add: num_value_def)

lemma value_put_u8_I4 [simp]: "hv_type h = DATATYPE_I4 \<Longrightarrow> num_value (put_u8 w h) = sint (ucast w :: u32)"
  by (simp add: num_value_def num_u4_def)

lemma abs_done:
  "hv_type h = DATATYPE_I4 \<Longrightarrow> abs_result (done4 h r) = map_option (\<lambda>w. Inr (sint w)) r"
  "hv_type h = DATATYPE_I8 \<Longrightarrow> abs_result (done8 h r') = map_option (\<lambda>w. Inr (sint w)) r'"
  by (simp_all add: done4_def done8_def split: option.splits)

lemma sint_zero_iff: "sint (w :: 'a::len word) = 0 \<longleftrightarrow> w = 0" by (rule signed_eq_0_iff)

lemma c_div_spec:
  "b \<noteq> 0 \<Longrightarrow> map_option (\<lambda>w. Inr (sint w)) (c_div (a :: 'a::len word) b) = int_div LENGTH('a) (sdiv) (sint a) (sint b)"
  "b \<noteq> 0 \<Longrightarrow> map_option (\<lambda>w. Inr (sint w)) (c_rem (a :: 'a::len word) b) = int_div LENGTH('a) (smod) (sint a) (sint b)"
  by (simp_all add: c_div_def c_rem_def int_div_def sint_zero_iff sint_sbintrunc')

lemma c_divu_spec:
  "b \<noteq> 0 \<Longrightarrow> map_option (\<lambda>w. Inr (sint w)) (c_divu (a :: 'a::len word) b) = int_divu LENGTH('a) (div) (sint a) (sint b)"
  "b \<noteq> 0 \<Longrightarrow> map_option (\<lambda>w. Inr (sint w)) (c_remu (a :: 'a::len word) b) = int_divu LENGTH('a) (mod) (sint a) (sint b)"
proof -
  have t: "take_bit LENGTH('a) (sint w) = uint w" for w :: "'a word" by transfer (simp add: take_bit_signed_take_bit)
  have "sint (a div b) = signed_take_bit (LENGTH('a) - 1) (uint a div uint b)"
    "sint (a mod b) = signed_take_bit (LENGTH('a) - 1) (uint a mod uint b)"
    by (simp_all add: word_div_def word_mod_def sint_sbintrunc')
  then show "b \<noteq> 0 \<Longrightarrow> map_option (\<lambda>w. Inr (sint w)) (c_divu (a :: 'a::len word) b) = int_divu LENGTH('a) (div) (sint a) (sint b)"
    "b \<noteq> 0 \<Longrightarrow> map_option (\<lambda>w. Inr (sint w)) (c_remu (a :: 'a::len word) b) = int_divu LENGTH('a) (mod) (sint a) (sint b)"
    by (simp_all add: c_divu_def c_remu_def int_divu_def sint_zero_iff t)
qed

lemma c_shift_spec:
  fixes a :: "'a::len word"
  assumes "\<And>n. n < LENGTH('a) \<Longrightarrow> sint (f n a) = signed_take_bit (LENGTH('a) - 1) (g (sint a) n)"
    and "take_bit 32 y = uint n"
  shows "map_option (\<lambda>w. Inr (sint w)) (c_shift f a n) = int_shift LENGTH('a) g (sint a) y"
  using assms(1) by (simp add: c_shift_def int_shift_def assms(2) Let_def)

lemma sint_push_bit:
  "sint (push_bit n (a :: 'a::len word)) = signed_take_bit (LENGTH('a) - 1) (sint a * 2 ^ n)"
proof -
  have "push_bit n a = word_of_int (sint a * 2 ^ n)" by (simp add: push_bit_eq_mult)
  then show ?thesis by (simp only: sint_sbintrunc')
qed

lemma sint_signed_drop_bit:
  "sint (signed_drop_bit n (a :: 'a::len word)) = signed_take_bit (LENGTH('a) - 1) (sint a div 2 ^ n)"
proof -
  have "signed_drop_bit n a = word_of_int (sint a div 2 ^ n)"
    unfolding signed_drop_bit_value [symmetric] by simp
  then show ?thesis by (simp only: sint_sbintrunc')
qed

lemma take_bit_sint: "take_bit LENGTH('a) (sint (w :: 'a::len word)) = uint w"
  by transfer (simp add: take_bit_signed_take_bit)

lemma sint_drop_bit:
  "sint (drop_bit n (a :: 'a::len word)) = signed_take_bit (LENGTH('a) - 1) (take_bit LENGTH('a) (sint a) div 2 ^ n)"
proof -
  have "uint (drop_bit n a) = uint a div 2 ^ n"
    using take_bit_int_eq_self [of "uint a" "LENGTH('a)"] uint_lt2p [of a]
    by (simp add: unsigned_drop_bit_eq drop_bit_eq_div [of n "_ :: int"])
  then have "drop_bit n a = word_of_int (uint a div 2 ^ n)" by (metis word_of_int_uint)
  then show ?thesis by (simp only: take_bit_sint sint_sbintrunc')
qed

lemma take_bit_u4_value:
  "hv_type h = DATATYPE_I4 \<or> hv_type h = DATATYPE_I8 \<Longrightarrow> take_bit 32 (num_value h) = uint (num_u4 h)"
proof (elim disjE)
  assume "hv_type h = DATATYPE_I8"
  moreover have "take_bit 32 (sint (w :: u64)) = uint (ucast w :: u32)" for w
    by transfer (simp add: take_bit_signed_take_bit)
  ultimately show ?thesis by (simp add: num_value_def num_u4_def)
qed (simp add: num_value_def take_bit_sint_u4)

lemma sint_ucast_logic:
  "sint (ucast (v AND w) :: u32) = sint (ucast (v :: u64) :: u32) AND sint (ucast w :: u32)"
  "sint (ucast (v OR w) :: u32) = sint (ucast (v :: u64) :: u32) OR sint (ucast w :: u32)"
  "sint (ucast (v XOR w) :: u32) = sint (ucast (v :: u64) :: u32) XOR sint (ucast w :: u32)"
  by (simp_all add: unsigned_and_eq unsigned_or_eq unsigned_xor_eq signed_and_eq signed_or_eq signed_xor_eq)

lemma c_shift_specs:
  fixes a :: "'a::len word"
  assumes "take_bit 32 y = uint n"
  shows "map_option (\<lambda>w. Inr (sint w)) (c_shift push_bit a n) = int_shift LENGTH('a) (\<lambda>x n. x * 2 ^ n) (sint a) y"
    and "map_option (\<lambda>w. Inr (sint w)) (c_shift signed_drop_bit a n) = int_shift LENGTH('a) (\<lambda>x n. x div 2 ^ n) (sint a) y"
    and "map_option (\<lambda>w. Inr (sint w)) (c_shift drop_bit a n) = int_shift LENGTH('a) (\<lambda>x n. take_bit LENGTH('a) x div 2 ^ n) (sint a) y"
  by (rule c_shift_spec; simp only: assms sint_push_bit sint_signed_drop_bit sint_drop_bit)+

lemma u4_put_u8: "num_u4 (put_u8 w h) = ucast w" by (simp add: num_u4_def)

text \<open>
  An instruction on two numbers of the type \<open>I4\<close>, or two of the type \<open>I8\<close>, has the result of
  the operation on the integers they hold, wrapped to the width; division and remainder by zero are
  the error \<open>CLR_E_DIVIDE_BY_ZERO\<close>.
\<close>

lemma integer_instructions:
  assumes "hv_type h = dt" and "hv_type right = dt" and "dt = DATATYPE_I4 \<or> dt = DATATYPE_I8"
  shows "abs_result (numeric_binary sz b right h) = int_binary (m_sizeInBits dt) b (num_value h) (num_value right)"
  using assms(3)
proof
  assume dt: "dt = DATATYPE_I4"
  note a = assms(1,2) [unfolded dt]
  have s: "take_bit 32 (sint (num_u4 right)) = uint (num_u4 right)" by (simp add: take_bit_sint_u4)
  have z: "int_div 32 f x 0 = Some (Inl CLR_E_DIVIDE_BY_ZERO)" "int_divu 32 f x 0 = Some (Inl CLR_E_DIVIDE_BY_ZERO)" for f x
    by (simp_all add: int_div_def int_divu_def)
  show ?thesis using a
    by (cases b)
      (simp_all add: dt NumericAdd_def NumericSub_def NumericMul_def NumericDiv_def NumericDivUn_def NumericRem_def
        NumericRemUn_def NumericShl_def NumericShr_def NumericShrUn_def abs_done IsZero_def num_value_def z
        c_div_spec [where 'a = 32, simplified] c_divu_spec [where 'a = 32, simplified] c_shift_specs [OF s, where 'a = 32, simplified]
        sint_word_add sint_word_diff sint_word_mult sint_ucast_logic u4_put_u8 flip: num_u4_def)
next
  assume dt: "dt = DATATYPE_I8"
  note a = assms(1,2) [unfolded dt]
  have s: "take_bit 32 (sint (hv_data right)) = uint (num_u4 right)"
    using take_bit_u4_value [of right] a by (simp add: num_value_def)
  have z: "int_div 64 f x 0 = Some (Inl CLR_E_DIVIDE_BY_ZERO)" "int_divu 64 f x 0 = Some (Inl CLR_E_DIVIDE_BY_ZERO)" for f x
    by (simp_all add: int_div_def int_divu_def)
  show ?thesis using a
    by (cases b)
      (simp_all add: dt NumericAdd_def NumericSub_def NumericMul_def NumericDiv_def NumericDivUn_def NumericRem_def
        NumericRemUn_def NumericShl_def NumericShr_def NumericShrUn_def abs_done IsZero_def num_value_def z
        c_div_spec [where 'a = 64, simplified] c_divu_spec [where 'a = 64, simplified] c_shift_specs [OF s, where 'a = 64, simplified]
        sint_word_add sint_word_diff sint_word_mult signed_and_eq signed_or_eq signed_xor_eq)
qed

lemma integer_instructions_witness:
  "abs_result (numeric_binary (\<lambda>a. 1) BIN_DIV \<lparr>hv_type = DATATYPE_I4, hv_data = 2\<rparr> \<lparr>hv_type = DATATYPE_I4, hv_data = - 7\<rparr>)
    = Some (Inr (- 3))"
  using integer_instructions [of "\<lparr>hv_type = DATATYPE_I4, hv_data = - 7\<rparr>" DATATYPE_I4
      "\<lparr>hv_type = DATATYPE_I4, hv_data = 2\<rparr>" "\<lambda>a. 1" BIN_DIV]
  by (simp add: num_value_def num_u4_def int_div_def signed_divide_int_def)

text \<open>
  The type \<open>U4\<close>, which a load of an unsigned local leaves on the stack, changes what an instruction
  means, and not in one way: \<^verbatim>\<open>div\<close> stays signed, \<^verbatim>\<open>rem\<close> and \<^verbatim>\<open>shr\<close> become unsigned. Quotient
  and remainder of \<open>0xFFFFFFFF\<close> by 2 are 0 and 1.
\<close>

lemma div_rem_disagree_on_unsigned:
  assumes "hv_type h = DATATYPE_U4" "num_u4 h = 0xFFFFFFFF" "hv_type right = DATATYPE_U4" "num_u4 right = 2"
  shows "numeric_binary sz BIN_DIV right h = NumOk (put_u4 0 h)"
    and "numeric_binary sz BIN_REM right h = NumOk (put_u4 1 h)"
  using assms
  by (simp_all add: NumericDiv_def NumericRem_def IsZero_def done4_def c_div_def c_remu_def signed_divide_int_def)

end
