(* ===== verification/InterpreterProps.thy ===== *)
theory InterpreterProps imports Interpreter NumericValues begin

text \<open>
  What the loop keeps and promises: the types of the stack, the locals and the arguments; the meaning
  of the integer instructions; and when a thread whose time is up stops.
\<close>

section \<open>Types\<close>

text \<open>The evaluation stack holds no small integer: every load and every conversion promotes it.\<close>

definition frame_ok :: "IL_Frame \<Rightarrow> bool" where
  "frame_ok f \<longleftrightarrow> il_pos f \<le> List.length (il_stack f) \<and> (\<forall>k<il_pos f. hv_type (il_stack f ! k) \<notin> small_types)"

text \<open>A store leaves the type of a local or an argument that is declared as a number.\<close>

definition same_type :: "HeapValue \<Rightarrow> HeapValue \<Rightarrow> bool" where
  "same_type a b \<longleftrightarrow> (preserves_type (hv_type a) \<longrightarrow> hv_type b = hv_type a)"

definition keeps_types :: "IL_Frame \<Rightarrow> IL_Frame \<Rightarrow> bool" where
  "keeps_types f f' \<longleftrightarrow>
     frame_ok f' \<and> il_code f' = il_code f \<and> List.length (il_stack f') = List.length (il_stack f) \<and>
     list_all2 same_type (il_locals f) (il_locals f') \<and> list_all2 same_type (il_args f) (il_args f')"

fun result_frame :: "il_result \<Rightarrow> IL_Frame option" where
  "result_frame (Running f) = Some f"
| "result_frame (Leave e f) = Some f"
| "result_frame (QuantumExpired f) = Some f"
| "result_frame (Elsewhere f) = Some f"
| "result_frame IL_Undefined = None"

definition result_ok :: "IL_Frame \<Rightarrow> il_result \<Rightarrow> bool" where
  "result_ok f r \<longleftrightarrow> (\<forall>f'. result_frame r = Some f' \<longrightarrow> keeps_types f f')"

lemma result_ok_simps [simp]:
  "result_ok f (Running g) = keeps_types f g" "result_ok f (Leave e g) = keeps_types f g"
  "result_ok f (QuantumExpired g) = keeps_types f g" "result_ok f (Elsewhere g) = keeps_types f g"
  "result_ok f IL_Undefined"
  by (simp_all add: result_ok_def)

lemma same_type_refl [simp]: "same_type a a" by (simp add: same_type_def)

lemma same_type_trans: "same_type a b \<Longrightarrow> same_type b c \<Longrightarrow> same_type a c" by (simp add: same_type_def)

lemma all_same_type_refl [simp]: "list_all2 same_type xs xs" by (simp add: list_all2_refl)

lemma all_same_type_trans: "list_all2 same_type xs ys \<Longrightarrow> list_all2 same_type ys zs \<Longrightarrow> list_all2 same_type xs zs"
  by (rule list_all2_trans [of same_type same_type same_type]) (rule same_type_trans)

lemma keeps_types_refl: "frame_ok f \<Longrightarrow> keeps_types f f" by (simp add: keeps_types_def)

lemma keeps_types_trans: "keeps_types f g \<Longrightarrow> keeps_types g h \<Longrightarrow> keeps_types f h"
  unfolding keeps_types_def by (auto intro: all_same_type_trans)

lemma promoted_not_small [simp]: "promoted dt \<notin> small_types"
  by (simp add: promoted_def small_types_def)

lemma not_small [simp]:
  "DATATYPE_I4 \<notin> small_types" "DATATYPE_I8 \<notin> small_types" "DATATYPE_R4 \<notin> small_types"
  "DATATYPE_R8 \<notin> small_types" "DATATYPE_OBJECT \<notin> small_types"
  by (simp_all add: small_types_def)

lemma same_type_store [simp]: "same_type h (AssignAndPreserveType v h)"
  by (simp add: same_type_def AssignAndPreserveType_def Let_def)

lemma all_same_type_update: "list_all2 same_type xs (xs[n := AssignAndPreserveType v (xs ! n)])"
  by (cases "n < List.length xs") (auto simp: list_all2_conv_all_nth nth_list_update)

section \<open>The pieces of a step keep the types\<close>

lemma push_slot_ok:
  assumes "frame_ok f" and "\<And>old. hv_type (g old) \<notin> small_types"
  shows "result_ok f (push_slot g f)"
  using assms by (auto simp: push_slot_def keeps_types_def frame_ok_def nth_list_update less_Suc_eq)

lemma pop_slots_ok: "frame_ok f \<Longrightarrow> keeps_types f (pop_slots n f)"
  by (auto simp: pop_slots_def keeps_types_def frame_ok_def)

lemma set_top_ok:
  assumes "frame_ok f" and "hv_type v \<notin> small_types"
  shows "keeps_types f (set_top v f)"
  using assms by (auto simp: set_top_def keeps_types_def frame_ok_def nth_list_update split: if_splits)

lemma keeps_types_frame_ok: "keeps_types f g \<Longrightarrow> frame_ok g" by (simp add: keeps_types_def)

lemma eval_top_type:
  assumes "frame_ok f" and "holds n f" and "k < n"
  shows "hv_type (eval_top k f) \<notin> small_types"
  using assms by (simp add: eval_top_def holds_def frame_ok_def)

lemma finish_ok:
  assumes "frame_ok f" and "\<And>v. r = NumOk v \<Longrightarrow> hv_type v \<notin> small_types"
  shows "result_ok f (finish f r)"
  using assms by (cases r) (simp_all add: finish_def set_top_ok keeps_types_refl)

lemma numeric_binary_type:
  "numeric_binary sz b right h = NumOk v \<Longrightarrow> hv_type v = hv_type h"
  by (cases b; cases "hv_type h")
    (auto simp: NumericAdd_def NumericSub_def NumericMul_def NumericDiv_def NumericDivUn_def NumericRem_def
      NumericRemUn_def NumericShl_def NumericShr_def NumericShrUn_def move_index_def done4_def done8_def
      split: if_splits option.splits)

lemma NumericNeg_type: "NumericNeg h = NumOk v \<Longrightarrow> hv_type v = hv_type h"
  by (cases "hv_type h") (auto simp: NumericNeg_def)

lemma Convert_type: "Convert et ovf un h = NumOk v \<Longrightarrow> hv_type v = promoted et"
  by (auto simp: Convert_def Convert_Internal_def split: option.splits)

lemma result_ok_trans: "keeps_types f0 f \<Longrightarrow> result_ok f r \<Longrightarrow> result_ok f0 r"
  by (auto simp: result_ok_def intro: keeps_types_trans)

lemma move_ip_ok: "frame_ok f \<Longrightarrow> keeps_types f (f\<lparr>il_ip := x\<rparr>)"
  by (simp add: keeps_types_def frame_ok_def)

lemma Execute_BR_ok: "frame_ok f \<Longrightarrow> result_ok f (Execute_BR q c offset f)"
  by (simp add: Execute_BR_def Let_def move_ip_ok keeps_types_refl)

lemma branch_ok:
  assumes "frame_ok f" and "keeps_types f f0"
  shows "result_ok f (branch q c offset f0 f)"
proof -
  have "result_ok f (Execute_BR q b offset (pop_slots n f))" for b n
    using result_ok_trans [OF pop_slots_ok [OF assms(1)]] Execute_BR_ok pop_slots_ok [OF assms(1)] keeps_types_frame_ok
    by blast
  then show ?thesis using assms
    by (cases c) (auto simp: branch_def Execute_BR_ok split: option.splits)
qed

lemma switch_branch_ok:
  assumes "frame_ok f"
  shows "result_ok f (switch_branch n f)"
proof -
  have "keeps_types f ((pop_slots 1 f)\<lparr>il_ip := x\<rparr>)" for x
    using keeps_types_trans pop_slots_ok [OF assms] move_ip_ok keeps_types_frame_ok by blast
  then show ?thesis by (auto simp: switch_branch_def Let_def split: option.splits)
qed

lemma load_ok:
  assumes "frame_ok f" and "keeps_types f f0"
  shows "result_ok f (load isV vs n f0 f)"
  using assms by (auto simp: load_def intro: push_slot_ok)

lemma store_locals_ok:
  assumes "frame_ok f" and "store (il_locals f) n f = Some vs"
  shows "keeps_types f (pop_slots 1 (f\<lparr>il_locals := vs\<rparr>))"
proof -
  have "keeps_types f (f\<lparr>il_locals := vs\<rparr>)"
    using assms by (auto simp: store_def keeps_types_def frame_ok_def all_same_type_update split: if_splits)
  then show ?thesis using keeps_types_trans pop_slots_ok keeps_types_frame_ok by blast
qed

lemma store_args_ok:
  assumes "frame_ok f" and "store (il_args f) n f = Some vs"
  shows "keeps_types f (pop_slots 1 (f\<lparr>il_args := vs\<rparr>))"
proof -
  have "keeps_types f (f\<lparr>il_args := vs\<rparr>)"
    using assms by (auto simp: store_def keeps_types_def frame_ok_def all_same_type_update split: if_splits)
  then show ?thesis using keeps_types_trans pop_slots_ok keeps_types_frame_ok by blast
qed

lemma popped_finish_ok:
  assumes "frame_ok f" and "\<And>v. r = NumOk v \<Longrightarrow> hv_type v \<notin> small_types"
  shows "result_ok f (finish (pop_slots n f) r)"
  using result_ok_trans [OF pop_slots_ok [OF assms(1)]] finish_ok [OF keeps_types_frame_ok [OF pop_slots_ok [OF assms(1)]] assms(2)]
  by blast

lemma Execute_Instr_ok:
  assumes "frame_ok f" and "keeps_types f f0"
  shows "result_ok f (Execute_Instr sz isV q i f0 f)"
proof (cases i)
  case (IL_BIN b)
  have "hv_type v \<notin> small_types" if "holds 2 f" "numeric_binary sz b (eval_top 0 f) (eval_top 1 f) = NumOk v" for v
    using numeric_binary_type [OF that(2)] eval_top_type [OF assms(1) that(1), of 1] by simp
  then show ?thesis using IL_BIN assms by (simp add: Execute_Instr_def popped_finish_ok)
next
  case IL_NEG
  have "hv_type v \<notin> small_types" if "holds 1 f" "NumericNeg (eval_top 0 f) = NumOk v" for v
    using NumericNeg_type [OF that(2)] eval_top_type [OF assms(1) that(1), of 0] by simp
  then show ?thesis using IL_NEG assms by (simp add: Execute_Instr_def finish_ok)
next
  case IL_NOT
  then show ?thesis using assms eval_top_type [OF assms(1), of 1 0] by (simp add: Execute_Instr_def set_top_ok)
next
  case (IL_COMPARE cmp sg)
  have "keeps_types f (set_top (SetInteger4 DATATYPE_I4 x h) (pop_slots 1 f))" for x h
    by (rule keeps_types_trans [OF pop_slots_ok [OF assms(1)]], rule set_top_ok)
      (use keeps_types_frame_ok pop_slots_ok assms(1) in \<open>auto simp: SetInteger4_def\<close>)
  then show ?thesis using IL_COMPARE assms by (simp add: Execute_Instr_def split: option.splits)
qed (use assms in \<open>auto simp: Execute_Instr_def load_ok branch_ok switch_branch_ok store_locals_ok [unfolded One_nat_def] store_args_ok [unfolded One_nat_def]
       pop_slots_ok keeps_types_refl finish_ok Convert_type eval_top_type SetObjectReference_def SetInteger4_def
       SetInteger8_def SetFloatIEEE754_def SetDoubleIEEE754_def SetFloat_def SetDouble_def Let_def
       intro!: push_slot_ok split: option.splits\<close>)

lemma Execute_step_ok:
  assumes "frame_ok f"
  shows "result_ok f (Execute_step sz isV q f)"
proof -
  have "result_ok f (Execute_Instr sz isV q i f (f\<lparr>il_ip := x\<rparr>))" for i x
  proof (rule result_ok_trans [OF move_ip_ok [OF assms]], rule Execute_Instr_ok)
    show "frame_ok (f\<lparr>il_ip := x\<rparr>)" "keeps_types (f\<lparr>il_ip := x\<rparr>) f" using assms by (simp_all add: keeps_types_def frame_ok_def)
  qed
  then show ?thesis by (auto simp: Execute_step_def split: option.splits)
qed

text \<open>
  C32: Whatever the byte code, the loop keeps the types of the frame: the evaluation stack stays within
  its memory and holds no small integer, a local or an argument that is declared as a number keeps
  its type, and the code does not change; so does the frame of every error and of every exit.
\<close>

theorem Execute_IL_keeps_types:
  assumes "frame_ok f"
  shows "result_ok f (Execute_IL sz isV q n f)"
  using assms
proof (induction n arbitrary: f q)
  case 0
  then show ?case by (simp add: keeps_types_refl)
next
  case (Suc n)
  have "result_ok f (Execute_IL sz isV q' n f')" if "Execute_step sz isV (q 0) f = Running f'" for q' f'
    using Execute_step_ok [OF Suc.prems, of sz isV "q 0"] that Suc.IH [of f' q'] result_ok_trans keeps_types_frame_ok by fastforce
  then show ?case using Execute_step_ok [OF Suc.prems, of sz isV "q 0"]
    by (cases "Execute_step sz isV (q 0) f") auto
qed

definition sample_frame :: IL_Frame where
  "sample_frame = \<lparr>il_code = [0x06, 0x17, 0x58, 0x0A], il_ip = 0, il_args = [],
     il_locals = [\<lparr>hv_type = DATATYPE_U1, hv_data = 255\<rparr>], il_stack = replicate 2 \<lparr>hv_type = DATATYPE_VOID, hv_data = 0\<rparr>, il_pos = 0\<rparr>"

theorem Execute_IL_keeps_types_witness:
  "result_ok sample_frame (Execute_IL (\<lambda>a. 1) (\<lambda>h. False) (\<lambda>k. False) 4 sample_frame)"
  by (rule Execute_IL_keeps_types) (simp add: frame_ok_def sample_frame_def)

section \<open>The time quantum\<close>














definition spin_code :: "u8 list" where "spin_code = [0x16, 0x45, 0x01, 0xFB, 0xFF]"

lemma spin_decoding:
  "fetch_opcode spin_code 0 = Some (0x16, 1)" "decode 0x16 spin_code 1 = Some (IL_LDC_I4 0, 1)"
  "fetch_opcode spin_code 1 = Some (0x45, 2)" "decode 0x45 spin_code 2 = Some (IL_SWITCH 1, 3)"
  "READ_SIGNED spin_code 3 2 = Some (-5)"
  by code_simp+

lemma spin_steps:
  assumes "il_code f = spin_code" "il_ip f = 0" "il_pos f = 0" "il_stack f \<noteq> []"
  shows "\<exists>f1 f2. Execute_step sz isV q1 f = Running f1 \<and> Execute_step sz isV q2 f1 = Running f2 \<and>
    il_code f2 = spin_code \<and> il_ip f2 = 0 \<and> il_pos f2 = 0 \<and> il_stack f2 \<noteq> []"
  using assms
  by (cases "il_stack f")
    (simp_all add: Execute_step_def spin_decoding Execute_Instr_def push_slot_def switch_branch_def holds_def
      pop_slots_def eval_top_def SetInteger4_def Let_def)

text \<open>
  C34: \<^verbatim>\<open>switch\<close> does not look at the quantum: the loop \<open>ldc.i4.0; switch (-5)\<close> keeps a thread whose
  time has expired in the interpreter for any number of instructions.
\<close>

theorem switch_loop_never_yields:
  assumes "il_code f = spin_code" "il_ip f = 0" "il_pos f = 0" "il_stack f \<noteq> []"
  shows "\<exists>g. Execute_IL sz isV (\<lambda>k. True) n f = Running g"
  using assms
proof (induction n arbitrary: f rule: less_induct)
  case (less n)
  obtain f1 f2 where s: "Execute_step sz isV True f = Running f1" "Execute_step sz isV True f1 = Running f2"
    and f2: "il_code f2 = spin_code" "il_ip f2 = 0" "il_pos f2 = 0" "il_stack f2 \<noteq> []"
    using spin_steps [OF less.prems] by blast
  consider "n = 0" | "n = 1" | m where "n = Suc (Suc m)" by (metis One_nat_def old.nat.exhaust)
  then show ?case
  proof cases
    case 3
    then show ?thesis using less.IH [OF _ f2, of m] s by simp
  qed (use s in simp_all)
qed

theorem switch_loop_never_yields_witness:
  "\<exists>g. Execute_IL (\<lambda>a. 1) (\<lambda>h. False) (\<lambda>k. True) 1000 (sample_frame\<lparr>il_code := spin_code\<rparr>) = Running g"
  by (rule switch_loop_never_yields) (simp_all add: sample_frame_def)

text \<open>
  \<^verbatim>\<open>unaligned.\<close> has an operand of one byte, which the loop does not skip: it is executed. With the
  alignment 4 it is \<^verbatim>\<open>ldarg.2\<close>.
\<close>

lemma unaligned_operand_is_executed:
  assumes "il_code f = [0xFE, 0x12, 0x04]" "il_ip f = 0" "2 < List.length (il_args f)"
    and "hv_type (il_args f ! 2) = DATATYPE_I4" "il_pos f < List.length (il_stack f)"
  shows "\<exists>g. Execute_IL sz isV (\<lambda>k. False) (Suc (Suc 0)) f = Running g \<and> il_ip g = 3 \<and> il_pos g = il_pos f + 1 \<and>
    il_stack g ! il_pos f = il_args f ! 2"
proof -
  have d: "fetch_opcode [0xFE, 0x12, 0x04] 0 = Some (0x112, 2)" "decode 0x112 [0xFE, 0x12, 0x04] 2 = Some (IL_NOTHING, 2)"
    "fetch_opcode [0xFE, 0x12, 0x04] 2 = Some (0x04, 3)" "decode 0x04 [0xFE, 0x12, 0x04] 3 = Some (IL_LDARG 2, 3)"
    by code_simp+
  show ?thesis using assms
    by (simp add: Execute_step_def d Execute_Instr_def load_def push_slot_def Promote_def)
qed

end
