(* ===== verification/Compression.thy ===== *)
theory Compression imports NetMF_Prelude begin

text \<open>
  The LZ77 format of images and resources, \<^verbatim>\<open>src/Support/WireProtocol/Compression.cpp\<close>: the decompressor that runs
  on the device, and the part of the compressor that writes the format. A buffer is read or
  written through the bytes behind the pointer and the number of them that the caller says there are; an
  access behind the buffer is \<open>Fault\<close>, the answer -1 is \<open>Fail\<close>, and a call that does not return is \<open>None\<close>. The search of the compressor for matches is
  not modelled: what it writes is a list of items, each a byte or a code, whatever it finds.
\<close>

datatype 'a LZ = Ok 'a | Fail | Fault

fun lz_bind :: "'a LZ \<Rightarrow> ('a \<Rightarrow> 'b LZ) \<Rightarrow> 'b LZ" where
  "lz_bind (Ok a) f = f a"
| "lz_bind Fail f = Fail"
| "lz_bind Fault f = Fault"

definition WINSIZE :: nat where "WINSIZE = 4096"

definition FAKE2REAL_POS :: "nat \<Rightarrow> nat" where "FAKE2REAL_POS x = x mod WINSIZE"

definition LENGTH_macro :: "u8 \<Rightarrow> nat" where "LENGTH_macro x = unat (x AND 0x0F) + 3"

definition OFFSET :: "u8 \<Rightarrow> u8 \<Rightarrow> nat" where
  "OFFSET x1 x2 = (unat (drop_bit 4 (x2 AND 0xF0)) * 0x0100 + unat x1) mod 0x1000 + 0x0010"

section \<open>The decompressor\<close>

record LZ77 =
  inBuf :: "u8 list"
  inLeft :: nat
  outBuf :: "u8 list"
  outLeft :: nat
  outRoom :: nat
  window :: "nat \<Rightarrow> u8"
  currPos :: nat

text \<open>\<open>CHECKEDREAD\<close> and \<open>CHECKEDWRITE\<close>, the latter with the byte of the window written before it.\<close>

definition checked_read :: "LZ77 \<Rightarrow> (u8 \<times> LZ77) LZ" where
  "checked_read s =
     (if inLeft s = 0 then Fail
      else case inBuf s of [] \<Rightarrow> Fault | b # rest \<Rightarrow> Ok (b, s\<lparr>inBuf := rest, inLeft := inLeft s - 1\<rparr>))"

definition checked_write :: "u8 \<Rightarrow> LZ77 \<Rightarrow> LZ77 LZ" where
  "checked_write b s =
     (if outLeft s = 0 then Fail
      else if outRoom s = 0 then Fault
      else Ok (s\<lparr>window := (window s)(FAKE2REAL_POS (currPos s) := b), outBuf := outBuf s @ [b],
                 outLeft := outLeft s - 1, outRoom := outRoom s - 1, currPos := currPos s + 1\<rparr>))"

fun copy_window :: "nat \<Rightarrow> nat \<Rightarrow> LZ77 \<Rightarrow> LZ77 LZ" where
  "copy_window 0 offset s = Ok s"
| "copy_window (Suc length') offset s =
     lz_bind (checked_write (window s (FAKE2REAL_POS offset)) s) (copy_window length' (offset + 1))"

definition decode_item :: "bool \<Rightarrow> LZ77 \<Rightarrow> LZ77 LZ" where
  "decode_item plain s =
     (if \<not> plain then
        lz_bind (checked_read s) (\<lambda>(byte1, s). lz_bind (checked_read s) (\<lambda>(byte2, s).
          copy_window (LENGTH_macro byte2) (OFFSET byte1 byte2) s))
      else lz_bind (checked_read s) (\<lambda>(byte1, s). checked_write byte1 s))"

function decode_items :: "nat \<Rightarrow> u8 \<Rightarrow> LZ77 \<Rightarrow> LZ77 LZ" where
  "decode_items counter bitMap s =
     (if counter < 8 \<and> outLeft s \<noteq> 0 then lz_bind (decode_item (bit bitMap counter) s) (decode_items (counter + 1) bitMap) else Ok s)"
  by pat_completeness auto
termination by (relation "measure (\<lambda>(counter, _). 8 - counter)") auto

declare decode_items.simps [simp del]

text \<open>The loop; \<open>None\<close> is a loop that does not end.\<close>

partial_function (option) decompress_loop :: "LZ77 \<Rightarrow> LZ77 LZ option" where
  "decompress_loop s =
     (if inLeft s \<noteq> 0 then
        (case lz_bind (checked_read s) (\<lambda>(bitMap, s). decode_items 0 bitMap s) of
           Ok s' \<Rightarrow> decompress_loop s' | Fail \<Rightarrow> Some Fail | Fault \<Rightarrow> Some Fault)
      else Some (Ok s))"

definition lz_start :: "u8 list \<Rightarrow> nat \<Rightarrow> nat \<Rightarrow> nat \<Rightarrow> LZ77" where
  "lz_start bytes inSize room outSize = \<lparr>inBuf = bytes, inLeft = inSize, outBuf = [], outLeft = outSize, outRoom = room, window = (\<lambda>_. 0x20), currPos = 0\<rparr>"

text \<open>
  The answer is 1 with what has been written, or -1; \<open>bytes\<close> and \<open>room\<close> are what the buffers really hold.
  The sizes are natural numbers: with a negative size (an \<open>int\<close>) the loops of the code do nothing.
\<close>

definition LZ77_Decompress :: "u8 list \<Rightarrow> nat \<Rightarrow> nat \<Rightarrow> nat \<Rightarrow> u8 list LZ option" where
  "LZ77_Decompress bytes inSize room outSize =
     map_option (\<lambda>r. lz_bind r (\<lambda>s. Ok (outBuf s))) (decompress_loop (lz_start bytes inSize room outSize))"

section \<open>The writer of the compressor\<close>

definition COMP_CODE :: "int \<Rightarrow> int \<Rightarrow> int" where
  "COMP_CODE x y = push_bit 8 ((x - 3) AND 0x0F) + push_bit 4 ((y - 0x10) AND 0x0F00) + ((y - 0x10) AND 0x00FF)"

definition COMP_CODE_LOBYTE :: "int \<Rightarrow> u8" where "COMP_CODE_LOBYTE x = word_of_int x"

definition COMP_CODE_HIBYTE :: "int \<Rightarrow> u8" where "COMP_CODE_HIBYTE x = ucast (drop_bit 8 (word_of_int x :: u16) AND 0xFF)"

record LZ77_Compressor =
  m_flagByte :: u8
  m_dataBytes :: "u8 list"
  m_dataCount :: nat
  m_flagCount :: nat
  m_outfile :: "u8 list"

text \<open>The compressor as its constructor leaves it; \<open>junk\<close> is what the 17 bytes happen to hold.\<close>

definition compressor :: "u8 list \<Rightarrow> LZ77_Compressor" where
  "compressor junk = \<lparr>m_flagByte = 0, m_dataBytes = junk, m_dataCount = 0, m_flagCount = 0, m_outfile = []\<rparr>"

definition set_data :: "nat \<Rightarrow> u8 \<Rightarrow> LZ77_Compressor \<Rightarrow> LZ77_Compressor option" where
  "set_data i b s = (if i < length (m_dataBytes s) then Some (s\<lparr>m_dataBytes := (m_dataBytes s)[i := b]\<rparr>) else None)"

definition WriteByte :: "u8 \<Rightarrow> LZ77_Compressor \<Rightarrow> LZ77_Compressor" where
  "WriteByte ch s = s\<lparr>m_outfile := m_outfile s @ [ch]\<rparr>"

definition WriteFlagByte :: "LZ77_Compressor \<Rightarrow> LZ77_Compressor option" where
  "WriteFlagByte s =
     (if m_flagCount s > 0 then
        map_option (\<lambda>s. (fold WriteByte (take (m_dataCount s) (m_dataBytes s)) (WriteByte (m_flagByte s) s))
          \<lparr>m_dataCount := 0, m_flagCount := 0, m_flagByte := 0, m_dataBytes := replicate (length (m_dataBytes s)) 0x20\<rparr>)
          (set_data (m_dataCount s) 0 s)
      else Some s)"

definition CheckFlagByte :: "LZ77_Compressor \<Rightarrow> LZ77_Compressor option" where
  "CheckFlagByte s =
     (let s = s\<lparr>m_dataCount := m_dataCount s + 1, m_flagCount := m_flagCount s + 1\<rparr> in
      if m_flagCount s = 8 then WriteFlagByte s else Some s)"

definition SaveUncompByte :: "u8 \<Rightarrow> LZ77_Compressor \<Rightarrow> LZ77_Compressor option" where
  "SaveUncompByte ch s =
     (let s = s\<lparr>m_flagByte := m_flagByte s OR push_bit (m_flagCount s) 1\<rparr> in
      Option.bind (set_data (m_dataCount s) ch s) CheckFlagByte)"

definition save_code :: "int \<Rightarrow> int \<Rightarrow> LZ77_Compressor \<Rightarrow> LZ77_Compressor option" where
  "save_code count offset s =
     (let iCompCode = COMP_CODE count offset in
      Option.bind (set_data (m_dataCount s) (COMP_CODE_LOBYTE iCompCode) s) (\<lambda>s.
        let s = s\<lparr>m_dataCount := m_dataCount s + 1\<rparr> in
        Option.bind (set_data (m_dataCount s) (COMP_CODE_HIBYTE iCompCode) s) CheckFlagByte))"

datatype LZ77_Item = Plain u8 | Code nat nat

fun write_item :: "LZ77_Item \<Rightarrow> LZ77_Compressor \<Rightarrow> LZ77_Compressor option" where
  "write_item (Plain ch) s = SaveUncompByte ch s"
| "write_item (Code count offset) s = save_code (int count) (int offset) s"

fun write_items :: "LZ77_Item list \<Rightarrow> LZ77_Compressor \<Rightarrow> LZ77_Compressor option" where
  "write_items [] s = WriteFlagByte s"
| "write_items (t # ts) s = Option.bind (write_item t s) (write_items ts)"

end
