(* ===== verification/CompressionProps.thy ===== *)
theory CompressionProps imports Compression begin

text \<open>
  The decompressor stays in its buffers whatever it is given, and undoes what the compressor writes: the
  window it keeps is the end of its output, so that a code is a copy from a distance back.
\<close>

section \<open>The buffers\<close>

text \<open>What the caller says is true of the buffers.\<close>

definition in_buffers :: "LZ77 \<Rightarrow> bool" where
  "in_buffers s \<longleftrightarrow> inLeft s \<le> length (inBuf s) \<and> outLeft s \<le> outRoom s"

text \<open>A step that stays in the buffers, reads on and does not lose output.\<close>

definition stays :: "LZ77 \<Rightarrow> LZ77 LZ \<Rightarrow> bool" where
  "stays s r \<longleftrightarrow> (case r of Fault \<Rightarrow> False | Fail \<Rightarrow> True
     | Ok s' \<Rightarrow> in_buffers s' \<and> length (outBuf s') + outLeft s' = length (outBuf s) + outLeft s \<and> inLeft s' \<le> inLeft s)"

lemma stays_bind: "stays s r \<Longrightarrow> (\<And>s'. r = Ok s' \<Longrightarrow> in_buffers s' \<Longrightarrow> stays s' (f s')) \<Longrightarrow> stays s (lz_bind r f)"
  by (cases r; cases "f (case r of Ok s' \<Rightarrow> s')") (force simp: stays_def)+

lemma stays_Ok: "in_buffers s \<Longrightarrow> stays s (Ok s)"
  by (simp add: stays_def)

lemma checked_write_stays: "in_buffers s \<Longrightarrow> stays s (checked_write b s)"
  by (auto simp: stays_def in_buffers_def checked_write_def)

lemma checked_read_cases:
  assumes "in_buffers s"
  shows "checked_read s = Fail \<and> inLeft s = 0 \<or>
    (\<exists>b s'. checked_read s = Ok (b, s') \<and> in_buffers s' \<and> outBuf s' = outBuf s \<and> outLeft s' = outLeft s \<and> inLeft s = Suc (inLeft s'))"
  using assms by (cases "inBuf s") (auto simp: checked_read_def in_buffers_def)

lemma read_stays:
  assumes "in_buffers s" "\<And>b s'. checked_read s = Ok (b, s') \<Longrightarrow> in_buffers s' \<Longrightarrow> stays s' (f (b, s'))"
  shows "stays s (lz_bind (checked_read s) f)"
proof -
  consider "checked_read s = Fail" | b s' where "checked_read s = Ok (b, s')" "in_buffers s'" "outBuf s' = outBuf s" "outLeft s' = outLeft s" "inLeft s = Suc (inLeft s')"
    using checked_read_cases [OF assms(1)] by blast
  then show ?thesis
  proof cases
    case 2
    then have "stays s' (f (b, s'))" using assms(2) by blast
    then show ?thesis using 2 by (auto simp: stays_def split: LZ.splits)
  qed (simp add: stays_def)
qed

lemma copy_window_stays: "in_buffers s \<Longrightarrow> stays s (copy_window n offset s)"
proof (induction n arbitrary: offset s)
  case (Suc n)
  then show ?case by (auto intro: stays_bind checked_write_stays)
qed (simp add: stays_Ok)

lemma decode_item_stays: "in_buffers s \<Longrightarrow> stays s (decode_item plain s)"
  unfolding decode_item_def
  by (auto intro!: read_stays copy_window_stays checked_write_stays)

lemma decode_items_stays: "in_buffers s \<Longrightarrow> stays s (decode_items counter bitMap s)"
proof (induction counter bitMap s rule: decode_items.induct)
  case (1 counter bitMap s)
  then show ?case
    by (subst decode_items.simps) (auto intro!: stays_bind decode_item_stays stays_Ok)
qed

text \<open>A round reads a byte, so the loop ends, and it ends well only when nothing is left to read.\<close>

lemma decompress_loop_ends:
  assumes "in_buffers s"
  shows "\<exists>r. decompress_loop s = Some r \<and> stays s r \<and> (\<forall>s'. r = Ok s' \<longrightarrow> inLeft s' = 0)"
  using assms
proof (induction "inLeft s" arbitrary: s rule: less_induct)
  case less
  show ?case
  proof (cases "inLeft s = 0")
    case True
    with less.prems show ?thesis by (subst decompress_loop.simps) (simp add: stays_Ok)
  next
    case False
    then obtain b s1 where r: "checked_read s = Ok (b, s1)" "in_buffers s1" "inLeft s = Suc (inLeft s1)"
      "outBuf s1 = outBuf s" "outLeft s1 = outLeft s"
      using checked_read_cases [OF less.prems] by auto
    note d = decode_items_stays [OF r(2), of 0 b]
    show ?thesis
    proof (cases "decode_items 0 b s1")
      case (Ok s2)
      with d have s2: "in_buffers s2" "inLeft s2 < inLeft s" using r(3) by (auto simp: stays_def)
      have "decompress_loop s = decompress_loop s2"
        using False r(1) Ok by (subst decompress_loop.simps) simp
      moreover obtain r' where "decompress_loop s2 = Some r'" "stays s2 r'" "\<forall>s'. r' = Ok s' \<longrightarrow> inLeft s' = 0"
        using less.hyps [OF s2(2,1)] by blast
      moreover have "stays s r'"
        using calculation(3) d r(3-5) unfolding Ok by (auto simp: stays_def split: LZ.splits)
      ultimately show ?thesis by auto
    next
      case Fail
      then have "decompress_loop s = Some Fail" using False r(1) by (subst decompress_loop.simps) simp
      then show ?thesis by (simp add: stays_def)
    next
      case Fault
      with d show ?thesis by (simp add: stays_def)
    qed
  qed
qed

section \<open>The window\<close>

text \<open>The byte of the ring at \<open>p\<close>: the one written last there, a distance back, or a blank from the start.\<close>

definition look_back :: "u8 list \<Rightarrow> nat \<Rightarrow> u8" where
  "look_back out p = (let d = (length out + 4095 - p mod 4096) mod 4096 + 1 in if d \<le> length out then out ! (length out - d) else 0x20)"

fun copy_back :: "nat \<Rightarrow> nat \<Rightarrow> u8 list \<Rightarrow> u8 list" where
  "copy_back 0 p out = out"
| "copy_back (Suc n) p out = copy_back n (p + 1) (out @ [look_back out p])"

fun expand :: "u8 list \<Rightarrow> LZ77_Item list \<Rightarrow> u8 list" where
  "expand out [] = out"
| "expand out (Plain b # ts) = expand (out @ [b]) ts"
| "expand out (Code n p # ts) = expand (copy_back n p out) ts"

lemma look_back_mod [simp]: "look_back out (p mod 4096) = look_back out p"
  by (simp add: look_back_def)

lemma look_back_Nil: "look_back [] p = 0x20"
  by (simp add: look_back_def)

lemma look_back_snoc:
  assumes "p < 4096"
  shows "look_back (out @ [b]) p = (if p = length out mod 4096 then b else look_back out p)"
proof -
  let ?n = "length out" and ?r = "(length out + 4095 - p) mod 4096"
  have n: "?n + 1 + 4095 - p = Suc (?n + 4095 - p)" using assms by simp
  have e: "(?n + 1 + 4095 - p) mod 4096 = (if ?r = 4095 then 0 else Suc ?r)" using mod_Suc [of "?n + 4095 - p" 4096]
    unfolding n by simp
  have iff: "?r = 4095 \<longleftrightarrow> p = ?n mod 4096"
  proof (cases "p \<le> ?n mod 4096")
    case True
    define j where "j = ?n mod 4096 - p"
    have j: "j < 4096" by (simp add: j_def less_imp_diff_less)
    have "?n + 4095 - p = 4095 + j + ?n div 4096 * 4096" using True div_mult_mod_eq [of ?n 4096] unfolding j_def by linarith
    then have "?r = (4095 + j) mod 4096" by (simp only: mod_mult_self1)
    also have "\<dots> = (if j = 0 then 4095 else j - 1)" using j by (cases j) auto
    finally show ?thesis using True j by (auto simp: j_def)
  next
    case False
    define j where "j = 4095 + ?n mod 4096 - p"
    have j: "j < 4095" using False assms unfolding j_def by linarith
    have "?n + 4095 - p = j + ?n div 4096 * 4096" using False assms div_mult_mod_eq [of ?n 4096] unfolding j_def by linarith
    then have "?r = j mod 4096" by (simp only: mod_mult_self1)
    then show ?thesis using j False by simp
  qed
  show ?thesis
  proof (cases "p = ?n mod 4096")
    case True
    then have "(?n + 1 + 4095 - p) mod 4096 = 0" using e iff by simp
    then show ?thesis using True assms by (simp add: look_back_def Let_def)
  next
    case False
    then have "(?n + 1 + 4095 - p) mod 4096 = Suc ?r" using e iff by simp
    then show ?thesis using False assms by (auto simp: look_back_def Let_def nth_append)
  qed
qed

definition window_ok :: "LZ77 \<Rightarrow> bool" where
  "window_ok s \<longleftrightarrow> currPos s = length (outBuf s) \<and> (\<forall>p<4096. window s p = look_back (outBuf s) p)"

text \<open>A state with its window, at a place of the input.\<close>

definition stands :: "LZ77 \<Rightarrow> u8 list \<Rightarrow> u8 list \<Rightarrow> nat \<Rightarrow> bool" where
  "stands s bytes out left \<longleftrightarrow> in_buffers s \<and> window_ok s \<and> inBuf s = bytes \<and> inLeft s = length bytes \<and> outBuf s = out \<and> outLeft s = left"

lemma read_at: "stands s (b # bytes) out left \<Longrightarrow> \<exists>s'. checked_read s = Ok (b, s') \<and> stands s' bytes out left"
  by (auto simp: stands_def checked_read_def in_buffers_def window_ok_def)

lemma write_at:
  assumes "stands s bytes out (Suc left)"
  shows "\<exists>s'. checked_write b s = Ok s' \<and> stands s' bytes (out @ [b]) left"
proof -
  let ?s = "s\<lparr>window := (window s)(FAKE2REAL_POS (currPos s) := b), outBuf := outBuf s @ [b],
                 outLeft := outLeft s - 1, outRoom := outRoom s - 1, currPos := currPos s + 1\<rparr>"
  have "window_ok ?s" using assms by (auto simp: stands_def window_ok_def look_back_snoc FAKE2REAL_POS_def WINSIZE_def)
  then have "stands ?s bytes (out @ [b]) left" using assms by (auto simp: stands_def in_buffers_def)
  moreover have "checked_write b s = Ok ?s" using assms by (auto simp: stands_def in_buffers_def checked_write_def)
  ultimately show ?thesis by blast
qed

lemma length_copy_back [simp]: "length (copy_back n p out) = length out + n"
  by (induction n p out rule: copy_back.induct) auto

lemma copy_at: "stands s bytes out (n + left) \<Longrightarrow> \<exists>s'. copy_window n p s = Ok s' \<and> stands s' bytes (copy_back n p out) left"
proof (induction n arbitrary: p s out)
  case (Suc n)
  have "window s (FAKE2REAL_POS p) = look_back out p" using Suc.prems by (simp add: stands_def window_ok_def FAKE2REAL_POS_def WINSIZE_def)
  moreover obtain s' where "checked_write (look_back out p) s = Ok s'" "stands s' bytes (out @ [look_back out p]) (n + left)"
    using write_at [of s bytes out "n + left" "look_back out p"] Suc.prems by auto
  ultimately show ?case using Suc.IH by auto
qed auto

lemma copy_back_mod: "copy_back n (p mod 4096) out = copy_back n p out"
proof (induction n arbitrary: p out)
  case (Suc n)
  have "copy_back n (p mod 4096 + 1) x = copy_back n (p + 1) x" for x
    using Suc.IH [of "p mod 4096 + 1" x] Suc.IH [of "p + 1" x] by (metis mod_add_left_eq)
  then show ?case by simp
qed simp

section \<open>The codes\<close>

lemma and_F00_int: "(v :: int) AND 0x0F00 = push_bit 8 (take_bit 4 (drop_bit 8 v))"
proof -
  have e: "(0x0F00 :: int) = push_bit 8 (mask 4)" by (simp add: mask_eq_exp_minus_1 push_bit_eq_mult)
  show ?thesis unfolding e by (rule bit_eqI) (auto simp: bit_and_iff bit_push_bit_iff bit_take_bit_iff bit_drop_bit_eq bit_mask_iff)
qed

lemma and_FF_int: "(v :: int) AND 0x00FF = v mod 256"
proof -
  have e: "(0x00FF :: int) = mask 8" by (simp add: mask_eq_exp_minus_1)
  show ?thesis unfolding e by (simp only: take_bit_eq_mask [symmetric]) (simp add: take_bit_eq_mod)
qed

lemma and_F_int: "(v :: int) AND 0x0F = v mod 16"
proof -
  have e: "(0x0F :: int) = mask 4" by (simp add: mask_eq_exp_minus_1)
  show ?thesis unfolding e by (simp only: take_bit_eq_mask [symmetric]) (simp add: take_bit_eq_mod)
qed

lemma COMP_CODE_value:
  assumes "3 \<le> n" "n \<le> 18"
  shows "COMP_CODE n y = 256 * (n - 3) + 4096 * ((y - 16) div 256 mod 16) + (y - 16) mod 256"
  using assms unfolding COMP_CODE_def and_F00_int and_FF_int and_F_int
  by (simp add: push_bit_eq_mult take_bit_eq_mod drop_bit_eq_div)

lemma unat_low_nibble: "unat ((x :: u8) AND 0x0F) = unat x mod 16"
proof -
  have e: "(0x0F :: u8) = mask 4" by (simp add: mask_eq_exp_minus_1)
  show ?thesis unfolding e by (simp only: take_bit_eq_mask [symmetric] unsigned_take_bit_eq) (simp add: take_bit_eq_mod)
qed

lemma unat_high_nibble: "unat (drop_bit 4 ((x :: u8) AND 0xF0)) = unat x div 16"
proof -
  have e: "(0xF0 :: u8) = push_bit 4 (mask 4)" by (simp add: mask_eq_exp_minus_1 push_bit_eq_mult)
  have "drop_bit 4 (x AND 0xF0) = drop_bit 4 x"
    unfolding e by (rule bit_word_eqI) (auto simp: bit_and_iff bit_push_bit_iff bit_drop_bit_eq bit_mask_iff dest: bit_u8_less)
  then have "unat (drop_bit 4 (x AND 0xF0)) = unat (drop_bit 4 x)" by (rule arg_cong)
  also have "\<dots> = unat x div 16" unfolding unsigned_drop_bit_eq by (simp add: drop_bit_eq_div take_bit_nat_eq_self unat_u8_less)
  finally show ?thesis .
qed

lemma nibble_bytes:
  assumes "0 \<le> c" "c < 65536"
  shows "unat (COMP_CODE_LOBYTE c) = nat (c mod 256)" "unat (COMP_CODE_HIBYTE c) = nat (c div 256)"
proof -
  show "unat (COMP_CODE_LOBYTE c) = nat (c mod 256)"
    unfolding COMP_CODE_LOBYTE_def by (simp add: unsigned_of_int take_bit_eq_mod)
  have w: "unat (word_of_int c :: u16) = nat c" using assms by (simp add: unsigned_of_int take_bit_int_eq_self)
  have e: "(0xFF :: u16) = mask 8" by (simp add: mask_eq_exp_minus_1)
  have lt: "nat c div 256 < 256" using assms by simp
  have "unat (COMP_CODE_HIBYTE c) = take_bit 8 (take_bit 8 (drop_bit 8 (take_bit 16 (nat c))))"
    unfolding COMP_CODE_HIBYTE_def e take_bit_eq_mask [symmetric] unsigned_ucast_eq unsigned_take_bit_eq unsigned_drop_bit_eq w by simp
  also have "\<dots> = nat c div 256" using assms lt by (simp add: take_bit_nat_eq_self drop_bit_eq_div)
  also have "\<dots> = nat (c div 256)" using assms by (simp add: nat_div_distrib)
  finally show "unat (COMP_CODE_HIBYTE c) = nat (c div 256)" .
qed

lemma code_fields:
  assumes "3 \<le> n" "n \<le> 18" "p < 4096"
  shows "LENGTH_macro (COMP_CODE_HIBYTE (COMP_CODE (int n) (int p))) = n"
    "OFFSET (COMP_CODE_LOBYTE (COMP_CODE (int n) (int p))) (COMP_CODE_HIBYTE (COMP_CODE (int n) (int p))) mod 4096 = p"
proof -
  let ?c = "COMP_CODE (int n) (int p)" and ?v = "int p - 16"
  define h l where "h = ?v div 256 mod 16" and "l = ?v mod 256"
  have hl: "0 \<le> h" "h < 16" "0 \<le> l" "l < 256" by (simp_all add: h_def l_def)
  have c: "?c = 256 * (int n - 3) + 4096 * h + l" using COMP_CODE_value [of "int n" "int p"] assms(1,2) by (simp add: h_def l_def)
  have v: "(256 * h + l) mod 4096 = ?v mod 4096"
  proof -
    have "?v = 256 * (?v div 256) + l" by (simp add: l_def)
    moreover have "?v div 256 = 16 * (?v div 256 div 16) + h" by (simp add: h_def)
    ultimately have "?v = 256 * h + l + (?v div 256 div 16) * 4096" by linarith
    then show ?thesis by (metis mod_mult_self1)
  qed
  have "0 \<le> ?c" "?c < 65536" unfolding c using hl assms(1,2) by simp_all
  note w = nibble_bytes [OF this]
  have c': "?c = (16 * h + (int n - 3)) * 256 + l" using c by simp
  have dm: "(k * 256 + l) div 256 = k" "(k * 256 + l) mod 256 = l" for k using hl by simp_all
  have d: "?c div 256 = 16 * h + (int n - 3)" "?c mod 256 = l" unfolding c' by (rule dm)+
  note hi = w(2) and lo = w(1) [unfolded d(2)]
  show "LENGTH_macro (COMP_CODE_HIBYTE ?c) = n"
  proof -
    have "nat (?c div 256) mod 16 = n - 3" unfolding d(1) using hl assms(1,2) by (simp add: nat_add_distrib nat_mult_distrib)
    then show ?thesis using assms(1) by (simp add: LENGTH_macro_def unat_low_nibble hi)
  qed
  have "nat (?c div 256) div 16 = nat h" unfolding d(1) using hl assms(1,2) by (simp add: nat_add_distrib nat_mult_distrib)
  then have "OFFSET (COMP_CODE_LOBYTE ?c) (COMP_CODE_HIBYTE ?c) = (nat h * 256 + nat l) mod 4096 + 16"
    unfolding OFFSET_def unat_high_nibble hi lo by simp
  also have "int \<dots> = ?v mod 4096 + 16" using hl v by (simp add: zmod_int mult.commute)
  finally have "int (OFFSET (COMP_CODE_LOBYTE ?c) (COMP_CODE_HIBYTE ?c) mod 4096) = (?v mod 4096 + 16) mod 4096"
    by (simp add: zmod_int)
  also have "\<dots> = int p" using assms(3) by (simp add: mod_add_left_eq)
  finally show "OFFSET (COMP_CODE_LOBYTE ?c) (COMP_CODE_HIBYTE ?c) mod 4096 = p" by simp
qed

section \<open>The format\<close>

fun item_bytes :: "LZ77_Item \<Rightarrow> u8 list" where
  "item_bytes (Plain b) = [b]"
| "item_bytes (Code n p) = [COMP_CODE_LOBYTE (COMP_CODE (int n) (int p)), COMP_CODE_HIBYTE (COMP_CODE (int n) (int p))]"

fun is_plain :: "LZ77_Item \<Rightarrow> bool" where
  "is_plain (Plain b) = True"
| "is_plain (Code n p) = False"

fun item_ok :: "LZ77_Item \<Rightarrow> bool" where
  "item_ok (Plain b) = True"
| "item_ok (Code n p) = (3 \<le> n \<and> n \<le> 18 \<and> p < 4096)"

fun flags_from :: "nat \<Rightarrow> LZ77_Item list \<Rightarrow> u8" where
  "flags_from k [] = 0"
| "flags_from k (t # ts) = (if is_plain t then push_bit k 1 else 0) OR flags_from (Suc k) ts"

abbreviation group_bytes :: "LZ77_Item list \<Rightarrow> u8 list" where
  "group_bytes g \<equiv> concat (map item_bytes g)"

text \<open>Groups of eight items, each after a byte that tells which of them are plain.\<close>

function pack :: "LZ77_Item list \<Rightarrow> u8 list" where
  "pack ts = (if ts = [] then [] else flags_from 0 (take 8 ts) # group_bytes (take 8 ts) @ pack (drop 8 ts))"
  by pat_completeness auto
termination by (relation "measure length") auto

declare pack.simps [simp del]

lemma pack_Nil [simp]: "pack [] = []"
  by (simp add: pack.simps)

lemma bit_flags_from: "k + length ts \<le> 8 \<Longrightarrow> bit (flags_from k ts) i \<longleftrightarrow> k \<le> i \<and> i < k + length ts \<and> is_plain (ts ! (i - k))"
proof (induction ts arbitrary: k)
  case (Cons t ts)
  have "bit (flags_from (Suc k) ts) i \<longleftrightarrow> Suc k \<le> i \<and> i < Suc k + length ts \<and> is_plain (ts ! (i - Suc k))"
    by (rule Cons.IH) (use Cons.prems in simp)
  moreover have "bit (push_bit k 1 :: u8) i \<longleftrightarrow> i = k" using Cons.prems by (auto simp: bit_exp_iff)
  ultimately show ?case using Cons.prems
    by (cases "i = k") (auto simp: bit_or_iff nth_Cons' Suc_le_eq)
qed simp

lemma flags_from_append: "flags_from k (ts @ us) = flags_from k ts OR flags_from (k + length ts) us"
  by (induction ts arbitrary: k) (auto simp: or.assoc)

lemma length_expand: "length (expand out ts) = length out + sum_list (map (\<lambda>t. case t of Plain b \<Rightarrow> 1 | Code n p \<Rightarrow> n) ts)"
  by (induction out ts rule: expand.induct) auto

lemma expand_append: "expand out (ts @ us) = expand (expand out ts) us"
  by (induction out ts rule: expand.induct) auto

section \<open>Reading a group\<close>

lemma item_stands:
  assumes "stands s (item_bytes t @ rest) out (length (expand out [t]) - length out + left)" "item_ok t"
  shows "\<exists>s'. decode_item (is_plain t) s = Ok s' \<and> stands s' rest (expand out [t]) left"
proof (cases t)
  case (Plain b)
  then obtain s1 where 1: "checked_read s = Ok (b, s1)" "stands s1 rest out (Suc left)"
    using read_at [of s b rest out "Suc left"] assms(1) by auto
  from write_at [OF 1(2), of b] show ?thesis using Plain 1(1) by (auto simp: decode_item_def)
next
  case (Code n p)
  let ?lo = "COMP_CODE_LOBYTE (COMP_CODE (int n) (int p))" and ?hi = "COMP_CODE_HIBYTE (COMP_CODE (int n) (int p))"
  have f: "LENGTH_macro ?hi = n" "OFFSET ?lo ?hi mod 4096 = p" using code_fields [of n p] assms(2) Code by auto
  obtain s1 where 1: "checked_read s = Ok (?lo, s1)" "stands s1 (?hi # rest) out (n + left)"
    using read_at [of s ?lo "?hi # rest" out "n + left"] assms(1) Code by auto
  obtain s2 where 2: "checked_read s1 = Ok (?hi, s2)" "stands s2 rest out (n + left)"
    using read_at [OF 1(2)] by blast
  obtain s3 where 3: "copy_window n (OFFSET ?lo ?hi) s2 = Ok s3" "stands s3 rest (copy_back n (OFFSET ?lo ?hi) out) left"
    using copy_at [OF 2(2)] by blast
  have "copy_back n (OFFSET ?lo ?hi) out = copy_back n p out" using copy_back_mod [of n "OFFSET ?lo ?hi" out] f(2) by simp
  then show ?thesis using Code 1(1) 2(1) 3 f(1) by (auto simp: decode_item_def)
qed

lemma expand_grows: "item_ok t \<Longrightarrow> length out < length (expand out [t])"
  by (cases t) auto

lemma expand_mono: "length out \<le> length (expand out ts)"
  by (simp add: length_expand)

text \<open>A group is read to its end, when it is full or nothing is left to write.\<close>

lemma group_stands:
  assumes "\<forall>i<length g. bit bm (k + i) \<longleftrightarrow> is_plain (g ! i)" "\<forall>t\<in>set g. item_ok t"
    and "k + length g \<le> 8" "k + length g = 8 \<or> left = 0"
    and "stands s (group_bytes g @ rest) out (length (expand out g) - length out + left)"
  shows "\<exists>s'. decode_items k bm s = Ok s' \<and> stands s' rest (expand out g) left"
  using assms
proof (induction g arbitrary: k s out)
  case Nil
  then have "k = 8 \<or> outLeft s = 0" by (auto simp: stands_def)
  then have "decode_items k bm s = Ok s" by (subst decode_items.simps) auto
  then show ?case using Nil.prems(5) by simp
next
  case (Cons t g)
  have e: "expand out (t # g) = expand (expand out [t]) g" using expand_append [of out "[t]" g] by simp
  have l: "length (expand out (t # g)) - length out + left =
      length (expand out [t]) - length out + (length (expand (expand out [t]) g) - length (expand out [t]) + left)"
    unfolding e using expand_mono [of out "[t]"] expand_mono [of "expand out [t]" g] by simp
  have b: "bit bm k \<longleftrightarrow> is_plain t" using Cons.prems(1) by auto
  have ok: "item_ok t" using Cons.prems(2) by simp
  have "stands s (item_bytes t @ (group_bytes g @ rest)) out
      (length (expand out [t]) - length out + (length (expand (expand out [t]) g) - length (expand out [t]) + left))"
    using Cons.prems(5) unfolding l by simp
  from item_stands [OF this ok] obtain s1 where
    1: "decode_item (is_plain t) s = Ok s1" "stands s1 (group_bytes g @ rest) (expand out [t]) (length (expand (expand out [t]) g) - length (expand out [t]) + left)"
    by blast
  have "\<forall>i<length g. bit bm (Suc k + i) \<longleftrightarrow> is_plain (g ! i)"
  proof (intro allI impI)
    fix i assume "i < length g"
    then have "bit bm (k + Suc i) \<longleftrightarrow> is_plain ((t # g) ! Suc i)" using Cons.prems(1) by (metis Suc_less_eq length_Cons)
    then show "bit bm (Suc k + i) \<longleftrightarrow> is_plain (g ! i)" by simp
  qed
  with Cons.IH [OF _ _ _ _ 1(2), of "Suc k"] Cons.prems(2,3,4) obtain s2 where
    2: "decode_items (Suc k) bm s1 = Ok s2" "stands s2 rest (expand (expand out [t]) g) left" by auto
  have "outLeft s \<noteq> 0" using Cons.prems(5) expand_grows [OF ok, of out] unfolding l by (auto simp: stands_def)
  then have "decode_items k bm s = decode_items (Suc k) bm s1" using 1(1) b Cons.prems(3) by (subst decode_items.simps) simp
  then show ?case using 2 e by simp
qed

lemma pack_stands:
  assumes "\<forall>t\<in>set ts. item_ok t" "stands s (pack ts) out (length (expand out ts) - length out)"
  shows "\<exists>s'. decompress_loop s = Some (Ok s') \<and> outBuf s' = expand out ts"
  using assms
proof (induction ts arbitrary: s out rule: pack.induct)
  case (1 ts)
  show ?case
  proof (cases "ts = []")
    case True
    then show ?thesis using "1.prems" by (subst decompress_loop.simps) (auto simp: stands_def)
  next
    case False
    let ?g = "take 8 ts" and ?r = "drop 8 ts"
    let ?fl = "flags_from 0 ?g"
    have p: "pack ts = ?fl # group_bytes ?g @ pack ?r" using False by (subst pack.simps) simp
    have e: "expand out ts = expand (expand out ?g) ?r" using expand_append [of out ?g ?r] by simp
    have l: "length (expand out ts) - length out = length (expand out ?g) - length out + (length (expand (expand out ?g) ?r) - length (expand out ?g))"
      unfolding e using expand_mono [of out ?g] expand_mono [of "expand out ?g" ?r] by simp
    obtain s1 where 1: "checked_read s = Ok (?fl, s1)" "stands s1 (group_bytes ?g @ pack ?r) out (length (expand out ts) - length out)"
      using read_at "1.prems"(2) unfolding p by blast
    have bits: "\<forall>i<length ?g. bit ?fl (0 + i) \<longleftrightarrow> is_plain (?g ! i)" using bit_flags_from [of 0 ?g] by simp
    have ok: "\<forall>t\<in>set ?g. item_ok t" "\<forall>t\<in>set ?r. item_ok t" using "1.prems"(1) by (meson in_set_takeD in_set_dropD)+
    have full: "0 + length ?g = 8 \<or> length (expand (expand out ?g) ?r) - length (expand out ?g) = 0" by (cases "length ts \<le> 8") auto
    obtain s2 where 2: "decode_items 0 ?fl s1 = Ok s2" "stands s2 (pack ?r) (expand out ?g) (length (expand (expand out ?g) ?r) - length (expand out ?g))"
      using group_stands [OF bits ok(1) _ full 1(2) [unfolded l]] by auto
    obtain s3 where 3: "decompress_loop s2 = Some (Ok s3)" "outBuf s3 = expand (expand out ?g) ?r"
      using "1.IH" [OF False ok(2) 2(2)] by blast
    have "inLeft s \<noteq> 0" using "1.prems"(2) unfolding p by (simp add: stands_def)
    then have "decompress_loop s = Some (Ok s3)" using 1(1) 2(1) 3(1) by (subst decompress_loop.simps) simp
    then show ?thesis using 3(2) e by simp
  qed
qed


section \<open>Writing a group\<close>

text \<open>The group that is being collected.\<close>

definition collects :: "LZ77_Compressor \<Rightarrow> LZ77_Item list \<Rightarrow> bool" where
  "collects s g \<longleftrightarrow> m_flagCount s = length g \<and> m_flagByte s = flags_from 0 g \<and> m_dataCount s = length (group_bytes g) \<and>
     take (m_dataCount s) (m_dataBytes s) = group_bytes g \<and> length (m_dataBytes s) = 17"

lemma group_bytes_length: "length (group_bytes g) \<le> 2 * length g"
proof (induction g)
  case (Cons t g)
  then show ?case by (cases t) auto
qed simp

lemma fold_WriteByte: "fold WriteByte bs s = s\<lparr>m_outfile := m_outfile s @ bs\<rparr>"
  by (induction bs arbitrary: s) (simp_all add: WriteByte_def)

lemma WriteFlagByte_collects:
  assumes "collects s g" "g \<noteq> []" "length g \<le> 8"
  shows "\<exists>s'. WriteFlagByte s = Some s' \<and> collects s' [] \<and> m_outfile s' = m_outfile s @ flags_from 0 g # group_bytes g"
proof -
  have "m_dataCount s < 17" using assms(1,3) group_bytes_length [of g] by (simp add: collects_def)
  then show ?thesis using assms by (auto simp: collects_def WriteFlagByte_def set_data_def fold_WriteByte WriteByte_def)
qed

text \<open>After the last byte of an item the group is written out if it is full.\<close>

definition collected_more :: "LZ77_Compressor \<Rightarrow> LZ77_Item list \<Rightarrow> LZ77_Compressor \<Rightarrow> bool" where
  "collected_more s g s' \<longleftrightarrow>
     (if length g = 8 then collects s' [] \<and> m_outfile s' = m_outfile s @ flags_from 0 g # group_bytes g
      else collects s' g \<and> m_outfile s' = m_outfile s)"

lemma CheckFlagByte_collects:
  assumes "collects (s\<lparr>m_dataCount := m_dataCount s + 1, m_flagCount := m_flagCount s + 1\<rparr>) g" "g \<noteq> []" "length g \<le> 8"
  shows "\<exists>s'. CheckFlagByte s = Some s' \<and> collected_more s g s'"
proof (cases "length g = 8")
  case True
  let ?s = "s\<lparr>m_dataCount := m_dataCount s + 1, m_flagCount := m_flagCount s + 1\<rparr>"
  obtain s' where "WriteFlagByte ?s = Some s'" "collects s' []" "m_outfile s' = m_outfile ?s @ flags_from 0 g # group_bytes g"
    using WriteFlagByte_collects [OF assms] by blast
  moreover have "m_flagCount s + 1 = 8" using assms(1) True by (simp add: collects_def)
  ultimately show ?thesis using True by (simp add: CheckFlagByte_def collected_more_def Let_def)
next
  case False
  then have "m_flagCount s + 1 \<noteq> 8" using assms(1) by (simp add: collects_def)
  then show ?thesis using False assms(1) by (simp add: CheckFlagByte_def collected_more_def Let_def)
qed

lemma take_store: "i < length xs \<Longrightarrow> take (Suc i) (xs[i := b]) = take i xs @ [b]"
  by (simp add: take_Suc_conv_app_nth)

lemma write_item_collects:
  assumes "collects s g" "length g < 8"
  shows "\<exists>s'. write_item t s = Some s' \<and> collected_more s (g @ [t]) s'"
proof -
  have len: "m_dataCount s \<le> 14" "length (m_dataBytes s) = 17" "m_flagCount s = length g"
    using assms group_bytes_length [of g] by (simp_all add: collects_def)
  show ?thesis
  proof (cases t)
    case (Plain b)
    let ?s = "s\<lparr>m_flagByte := m_flagByte s OR push_bit (m_flagCount s) 1, m_dataBytes := (m_dataBytes s)[m_dataCount s := b]\<rparr>"
    have "collects (?s\<lparr>m_dataCount := m_dataCount ?s + 1, m_flagCount := m_flagCount ?s + 1\<rparr>) (g @ [t])"
      using assms(1) len Plain by (auto simp: collects_def flags_from_append take_store)
    from CheckFlagByte_collects [OF this] obtain s' where "CheckFlagByte ?s = Some s'" "collected_more ?s (g @ [t]) s'"
      using assms(2) by auto
    then show ?thesis using len Plain by (simp add: SaveUncompByte_def set_data_def Let_def collected_more_def)
  next
    case (Code n p)
    let ?c = "COMP_CODE (int n) (int p)"
    let ?s = "s\<lparr>m_dataCount := Suc (m_dataCount s),
      m_dataBytes := (m_dataBytes s)[m_dataCount s := COMP_CODE_LOBYTE ?c, Suc (m_dataCount s) := COMP_CODE_HIBYTE ?c]\<rparr>"
    have "take (Suc (Suc (m_dataCount s))) (m_dataBytes ?s) = take (m_dataCount s) (m_dataBytes s) @ [COMP_CODE_LOBYTE ?c, COMP_CODE_HIBYTE ?c]"
      using len by (simp add: take_store)
    then have "collects (?s\<lparr>m_dataCount := m_dataCount ?s + 1, m_flagCount := m_flagCount ?s + 1\<rparr>) (g @ [t])"
      using assms(1) len Code by (auto simp: collects_def flags_from_append)
    from CheckFlagByte_collects [OF this] obtain s' where "CheckFlagByte ?s = Some s'" "collected_more ?s (g @ [t]) s'"
      using assms(2) by auto
    then show ?thesis using len Code by (simp add: save_code_def set_data_def Let_def collected_more_def)
  qed
qed

lemma pack_group: "length g = 8 \<Longrightarrow> pack (g @ ts) = flags_from 0 g # group_bytes g @ pack ts"
  by (subst pack.simps) auto

lemma write_items_collects:
  assumes "collects s g" "length g < 8"
  shows "\<exists>s'. write_items ts s = Some s' \<and> m_outfile s' = m_outfile s @ pack (g @ ts)"
  using assms
proof (induction ts arbitrary: s g)
  case Nil
  show ?case
  proof (cases "g = []")
    case True
    then show ?thesis using Nil.prems by (auto simp: WriteFlagByte_def collects_def)
  next
    case False
    then have "pack g = flags_from 0 g # group_bytes g" using Nil.prems(2) by (subst pack.simps) simp
    then show ?thesis using WriteFlagByte_collects [OF Nil.prems(1) False] Nil.prems(2) by auto
  qed
next
  case (Cons t ts)
  obtain s1 where 1: "write_item t s = Some s1" "collected_more s (g @ [t]) s1"
    using write_item_collects [OF Cons.prems] by blast
  show ?case
  proof (cases "length (g @ [t]) = 8")
    case True
    then have "collects s1 []" "m_outfile s1 = m_outfile s @ flags_from 0 (g @ [t]) # group_bytes (g @ [t])"
      using 1(2) by (simp_all add: collected_more_def)
    moreover from Cons.IH [OF this(1)] obtain s2 where "write_items ts s1 = Some s2" "m_outfile s2 = m_outfile s1 @ pack ts" by auto
    moreover have "pack (g @ t # ts) = flags_from 0 (g @ [t]) # group_bytes (g @ [t]) @ pack ts" using pack_group [OF True, of ts] by simp
    ultimately show ?thesis using 1(1) by simp
  next
    case False
    then have "collects s1 (g @ [t])" "m_outfile s1 = m_outfile s" using 1(2) by (simp_all add: collected_more_def)
    moreover from Cons.IH [OF this(1)] obtain s2 where "write_items ts s1 = Some s2" "m_outfile s2 = m_outfile s1 @ pack ((g @ [t]) @ ts)"
      using False Cons.prems(2) by auto
    ultimately show ?thesis using 1(1) by simp
  qed
qed

lemma copy_back_numeral: "copy_back (numeral n) p out = copy_back (pred_numeral n) (p + 1) (out @ [look_back out p])"
  by (simp add: numeral_eq_Suc)

section \<open>The promises\<close>

text \<open>
  C36: What the compressor writes is decompressed to what it stands for: for every list of items, bytes and
  codes of 3 to 18 bytes from any place of the window, however the items fall into groups of
  eight, the writer stays in its buffer of 17 bytes, and the decompressor, told the length that the
  header records, answers the expansion of the items, a code being a copy from a distance back in
  the output, or of blanks before its start.
\<close>

theorem lz77_roundtrip:
  assumes "\<forall>t\<in>set ts. item_ok t" "length junk = 17" "length (expand [] ts) \<le> room"
  shows "\<exists>s. write_items ts (compressor junk) = Some s \<and>
    LZ77_Decompress (m_outfile s) (length (m_outfile s)) room (length (expand [] ts)) = Some (Ok (expand [] ts))"
proof -
  have "collects (compressor junk) []" using assms(2) by (simp add: collects_def compressor_def)
  from write_items_collects [OF this, of ts] obtain s where s: "write_items ts (compressor junk) = Some s" "m_outfile s = pack ts"
    by (auto simp: compressor_def)
  have "window_ok (lz_start (pack ts) (length (pack ts)) room (length (expand [] ts)))"
    by (simp add: window_ok_def lz_start_def look_back_Nil)
  then have "stands (lz_start (pack ts) (length (pack ts)) room (length (expand [] ts))) (pack ts) [] (length (expand [] ts) - length ([] :: u8 list))"
    using assms(3) by (simp add: stands_def in_buffers_def lz_start_def)
  from pack_stands [OF assms(1) this] show ?thesis using s by (auto simp: LZ77_Decompress_def)
qed

theorem lz77_roundtrip_witness:
  "\<exists>s. write_items [Plain 65, Plain 66, Code 6 0, Code 3 4095] (compressor (replicate 17 0)) = Some s \<and>
    LZ77_Decompress (m_outfile s) (length (m_outfile s)) 11 11 = Some (Ok [65, 66, 65, 66, 65, 66, 65, 66, 0x20, 65, 66])"
proof -
  have e: "expand [] [Plain 65, Plain 66, Code 6 0, Code 3 4095] = [65, 66, 65, 66, 65, 66, 65, 66, 0x20, 65, 66]"
    by (simp add: copy_back_numeral look_back_def Let_def)
  have l: "length [65, 66, 65, 66, 65, 66, 65, 66, 0x20, 65, 66 :: u8] = 11" by simp
  show ?thesis by (rule lz77_roundtrip [of "[Plain 65, Plain 66, Code 6 0, Code 3 4095]" "replicate 17 0" 11, unfolded e l]) simp_all
qed

text \<open>
  C37: Whatever bytes it is given, the decompressor returns, never reads behind the input or writes behind the
  output it was told of, and answers at most as much as the output holds.
\<close>

theorem lz77_in_bounds:
  assumes "inSize \<le> length bytes" "outSize \<le> room"
  shows "\<exists>r. LZ77_Decompress bytes inSize room outSize = Some r \<and> r \<noteq> Fault \<and>
    (\<forall>out. r = Ok out \<longrightarrow> length out \<le> outSize)"
proof -
  have "in_buffers (lz_start bytes inSize room outSize)" using assms by (simp add: in_buffers_def lz_start_def)
  from decompress_loop_ends [OF this] obtain r where
    "decompress_loop (lz_start bytes inSize room outSize) = Some r" "stays (lz_start bytes inSize room outSize) r" by blast
  then show ?thesis
    by (cases r) (auto simp: LZ77_Decompress_def stays_def lz_start_def)
qed

theorem lz77_in_bounds_witness:
  "\<exists>r. LZ77_Decompress [0, 0xF0, 0xFF] 3 2 2 = Some r \<and> r \<noteq> Fault"
  using lz77_in_bounds [of 3 "[0, 0xF0, 0xFF]" 2 2] by auto

text \<open>The answer is 1 as soon as the input ends where a group could start, with the output full or not.\<close>

lemma lz77_short_output:
  "LZ77_Decompress [1, 65] 2 1 1 = Some (Ok [65])" "LZ77_Decompress [] 0 9 9 = Some (Ok [])"
  "LZ77_Decompress [1, 65] 2 9 9 = Some Fail"
  by (simp_all add: LZ77_Decompress_def lz_start_def decompress_loop.simps eval_nat_numeral decode_items.simps
      decode_item_def checked_read_def checked_write_def)

end
