(* ===== verification/RandomNumbers.thy ===== *)
theory RandomNumbers imports NetMF_Prelude "HOL-Library.Signed_Division" begin

text \<open>
  The random numbers of the class library, \<^verbatim>\<open>src/CLR/Core/Random.cpp\<close>, and the entry points that hand them to
  managed code (\<^verbatim>\<open>corlib_native_System_Random.cpp\<close>). The state is the signed 32-bit \<open>m_next\<close>.
\<close>

definition IA :: u32 where "IA = 16807"
definition IM :: u32 where "IM = 2147483647"
definition IQ :: u32 where "IQ = 127773"
definition IR :: u32 where "IR = 2836"
definition MASK :: u32 where "MASK = 123459876"

definition Random_Initialize :: "u64 \<Rightarrow> u32" where
  "Random_Initialize st = ucast st XOR ucast (drop_bit 32 st)"

definition Random_Initialize_seed :: "u32 \<Rightarrow> u32" where "Random_Initialize_seed seed = seed"

text \<open>The step on the state without its mask; the quotient is the signed one of C.\<close>

definition schrage :: "u32 \<Rightarrow> u32" where
  "schrage v =
     (let k = word_of_int (sint v sdiv sint IQ);
          v = IA * (v - k * IQ) - IR * k
      in if sint v < 0 then v + IM else v)"

definition Next :: "u32 \<Rightarrow> u32 \<times> u32" where
  "Next m_next = (let v = schrage (m_next XOR MASK) XOR MASK in (v, v))"

text \<open>The number is the first component, the new state the second. With emulated floating point 1.0 is 2^16.\<close>

definition NextDouble :: "u32 \<Rightarrow> int \<times> u32" where
  "NextDouble m_next = (let (v, m_next) = Next m_next in (sint v sdiv (0x7FFFFFFF div 2 ^ 16), m_next))"

text \<open>Three bytes of every number, and the lowest of the last one for what remains.\<close>

fun next_triples :: "nat \<Rightarrow> u32 \<Rightarrow> u8 list \<times> u32" where
  "next_triples 0 s = ([], s)"
| "next_triples (Suc i) s =
     (let (rand, s) = Next s; (bs, s) = next_triples i s
      in (ucast rand # ucast (signed_drop_bit 8 rand) # ucast (signed_drop_bit 16 rand) # bs, s))"

fun low_bytes :: "nat \<Rightarrow> u32 \<Rightarrow> u8 list" where
  "low_bytes 0 rand = []"
| "low_bytes (Suc i) rand = ucast rand # low_bytes i (signed_drop_bit 8 rand)"

definition NextBytes :: "nat \<Rightarrow> u32 \<Rightarrow> u8 list \<times> u32" where
  "NextBytes count s =
     (let (bs, s) = next_triples (count div 3) s; i = count mod 3 in
      if i > 0 then (let (rand, s) = Next s in (bs @ low_bytes i rand, s)) else (bs, s))"

datatype RandomResult = Number u32 | CLR_E_OUT_OF_RANGE | DivisionByZero

definition Next_below :: "u32 \<Rightarrow> u32 \<Rightarrow> RandomResult \<times> u32" where
  "Next_below maxValue s =
     (if sint maxValue < 0 then (CLR_E_OUT_OF_RANGE, s)
      else (let (v, s) = Next s in
        (if maxValue = 0 then DivisionByZero else Number (word_of_int (sint v smod sint maxValue)), s)))"

section \<open>The step is multiplication modulo a prime\<close>

lemma sint_range: "- 2147483648 \<le> sint (w :: u32)" "sint (w :: u32) < 2147483648"
  using sint_greater_eq [of w] sint_less [of w] by simp_all

lemma sint_fits: "- 2147483648 \<le> i \<Longrightarrow> i < 2147483648 \<Longrightarrow> sint (word_of_int i :: u32) = i"
  by (simp add: signed_of_int signed_take_bit_int_eq_self)

lemma word_of_sint: "(word_of_int (sint w) :: u32) = w"
  by simp

text \<open>The split of Schrage: the product with the remainder and the quotient stays in 32 bits.\<close>

lemma schrage_bounds:
  fixes r k :: int
  assumes "0 \<le> r \<and> r < 127773 \<and> 0 \<le> k \<and> k \<le> 16807 \<or> r \<le> 0 \<and> - 127773 < r \<and> k \<le> 0 \<and> - 16807 \<le> k"
  shows "- 2147483647 < 16807 * r - 2836 * k" "16807 * r - 2836 * k < 2147483647"
proof -
  have "- 2147483647 < 16807 * r - 2836 * k \<and> 16807 * r - 2836 * k < 2147483647"
    using assms
  proof (elim disjE conjE)
    assume "0 \<le> r" "r < 127773" "0 \<le> k" "k \<le> 16807"
    then show ?thesis by (intro conjI; linarith)
  next
    assume "r \<le> 0" "- 127773 < r" "k \<le> 0" "- 16807 \<le> k"
    then show ?thesis by (intro conjI; linarith)
  qed
  then show "- 2147483647 < 16807 * r - 2836 * k" "16807 * r - 2836 * k < 2147483647" by simp_all
qed

lemma schrage_split:
  assumes "- 2147483648 \<le> x" "x < 2147483648"
  defines "k \<equiv> x sdiv (127773 :: int)"
  defines "t \<equiv> 16807 * (x - k * 127773) - 2836 * k"
  shows "- 2147483647 < t" "t < 2147483647" "t mod 2147483647 = 16807 * x mod 2147483647"
    "- 16807 \<le> k" "k \<le> 16807" "- 127773 < x - k * 127773" "x - k * 127773 < 127773"
proof -
  let ?r = "x - k * 127773"
  have "t = 16807 * x + (- k) * 2147483647" by (simp add: t_def algebra_simps)
  then show "t mod 2147483647 = 16807 * x mod 2147483647" by (metis mod_mult_self1)
  have "- 16807 \<le> k \<and> k \<le> 16807 \<and> - 127773 < ?r \<and> ?r < 127773 \<and> - 2147483647 < t \<and> t < 2147483647"
  proof (cases "0 \<le> x")
    case True
    then have k: "k = x div 127773" by (cases "x = 0") (simp_all add: k_def signed_divide_int_def)
    have "?r = x mod 127773" unfolding k by (simp add: minus_div_mult_eq_mod)
    then have "0 \<le> ?r" "?r < 127773" by simp_all
    moreover have "0 \<le> k" "k \<le> 16807" using True assms(2) unfolding k by simp_all
    ultimately show ?thesis unfolding t_def using schrage_bounds [of ?r k] by simp
  next
    case False
    then have k: "k = - ((- x) div 127773)" by (simp add: k_def signed_divide_int_def)
    have "?r = - ((- x) mod 127773)" unfolding k using minus_div_mult_eq_mod [of "- x" 127773] by linarith
    moreover have "0 \<le> (- x) mod 127773" "(- x) mod 127773 < 127773" by simp_all
    ultimately have "?r \<le> 0" "- 127773 < ?r" by linarith+
    moreover have "0 \<le> (- x) div 127773" "(- x) div 127773 \<le> 16807" using False assms(1) by simp_all
    then have "k \<le> 0" "- 16807 \<le> k" unfolding k by linarith+
    ultimately show ?thesis unfolding t_def using schrage_bounds [of ?r k] by simp
  qed
  then show "- 2147483647 < t" "t < 2147483647" "- 16807 \<le> k" "k \<le> 16807" "- 127773 < ?r" "?r < 127773" by blast+
qed

lemma sint_schrage: "sint (schrage v) = 16807 * sint v mod 2147483647"
proof -
  let ?x = "sint v" and ?k = "sint v sdiv (127773 :: int)"
  let ?t = "16807 * (?x - ?k * 127773) - 2836 * ?k"
  note S = schrage_split [OF sint_range [of v]]
  have q: "sint IQ = 127773" by (simp add: IQ_def)
  have w: "IA * (v - word_of_int ?k * IQ) - IR * word_of_int ?k = (word_of_int ?t :: u32)"
    by (simp add: IA_def IQ_def IR_def)
  have t: "sint (word_of_int ?t :: u32) = ?t" by (rule sint_fits) (use S(1,2) in linarith)+
  have r: "schrage v = (if ?t < 0 then word_of_int (?t + 2147483647) else word_of_int ?t)"
    unfolding schrage_def Let_def q w t by (simp add: IM_def)
  show ?thesis
  proof (cases "?t < 0")
    case True
    have "sint (word_of_int (?t + 2147483647) :: u32) = ?t + 2147483647" by (rule sint_fits) (use S(1,2) True in linarith)+
    also have "\<dots> = (?t + 2147483647) mod 2147483647" by (rule mod_pos_pos_trivial [symmetric]) (use S(1) True in linarith)+
    also have "\<dots> = 16807 * ?x mod 2147483647" using S(3) by simp
    finally show ?thesis using r True by simp
  next
    case False
    then have "?t = ?t mod 2147483647" using S(2) by (intro mod_pos_pos_trivial [symmetric]) linarith+
    then have "?t = 16807 * ?x mod 2147483647" using S(3) by (rule trans)
    then have "sint (word_of_int ?t :: u32) = 16807 * ?x mod 2147483647" by (rule trans [OF t])
    moreover have "schrage v = word_of_int ?t" using r False by (simp only: if_False)
    ultimately show ?thesis by (simp only:)
  qed
qed

section \<open>What the callers get\<close>

lemma sint_nonneg_bit: "0 \<le> sint (w :: u32) \<longleftrightarrow> \<not> bit w 31"
  using bit_last_iff [of w] by (simp add: not_less [symmetric])

lemma Next_masked: "fst (Next m) = schrage (m XOR MASK) XOR MASK" "snd (Next m) = fst (Next m)"
  by (simp_all add: Next_def Let_def)

lemma Next_nonneg: "0 \<le> sint (fst (Next m))"
proof -
  have "0 \<le> sint (schrage (m XOR MASK))" unfolding sint_schrage by simp
  moreover have "\<not> bit MASK 31" unfolding MASK_def sint_nonneg_bit [symmetric] by simp
  ultimately show ?thesis unfolding Next_masked sint_nonneg_bit by (simp add: bit_xor_iff)
qed

lemma length_next_triples: "length (fst (next_triples n s)) = 3 * n"
  by (induction n arbitrary: s) (auto simp: Let_def split: prod.splits, metis fst_conv)

lemma length_low_bytes [simp]: "length (low_bytes n r) = n"
  by (induction n arbitrary: r) auto

lemma NextBytes_fills: "length (fst (NextBytes n s)) = n"
proof -
  have "length (fst (next_triples (n div 3) s)) = 3 * (n div 3)" by (rule length_next_triples)
  then show ?thesis using div_mult_mod_eq [of n 3] by (auto simp: NextBytes_def Let_def split: prod.splits)
qed

text \<open>
  C38: The step of the generator, Schrage's way of staying within 32 bits, is the multiplication by 16807
  modulo the prime 2^31 - 1 of the state without its mask, for every state, negative seeds included;
  so the numbers are the random numbers the comment in the code refers to, and never negative.
\<close>

theorem Next_is_minimal_standard:
  "sint (snd (Next m) XOR MASK) = 16807 * sint (m XOR MASK) mod 2147483647 \<and> snd (Next m) = fst (Next m) \<and> 0 \<le> sint (fst (Next m))"
  using Next_nonneg [of m] by (simp add: Next_masked sint_schrage xor.assoc)

text \<open>The largest number is reached, and with emulated floating point it exceeds the 1.0 it should stay below.\<close>

lemma NextDouble_exceeds_one: "fst (NextDouble 1618071962) = 65538" "(65538 :: int) > 2 ^ 16" "fst (Next 1618071962) = 0x7FFFFFFF"
proof -
  have n: "Next 1618071962 = (0x7FFFFFFF, 0x7FFFFFFF)"
    by (simp add: Next_def schrage_def MASK_def IA_def IM_def IQ_def IR_def Let_def)
  show "fst (NextDouble 1618071962) = 65538" "fst (Next 1618071962) = 0x7FFFFFFF" unfolding NextDouble_def n by simp_all
qed simp

text \<open>A bound of zero, which the check lets pass, divides by zero.\<close>

lemma Next_below_zero: "fst (Next_below 0 m) = DivisionByZero"
  by (simp add: Next_below_def Let_def split: prod.splits)

lemma Next_below_bound:
  assumes "0 < sint maxValue"
  shows "\<exists>v. fst (Next_below maxValue m) = Number v \<and> 0 \<le> sint v \<and> sint v < sint maxValue"
proof -
  let ?n = "sint (fst (Next m))" and ?b = "sint maxValue"
  have m: "?n smod ?b = ?n mod ?b" using Next_nonneg [of m] assms by (cases "?n = 0") (simp_all add: signed_modulo_int_def sgn_if)
  have r: "0 \<le> ?n mod ?b" "?n mod ?b < ?b" using assms by simp_all
  have "sint (word_of_int (?n mod ?b) :: u32) = ?n mod ?b" by (rule sint_fits) (use r sint_range [of maxValue] in linarith)+
  moreover have "maxValue \<noteq> 0" using assms by auto
  ultimately show ?thesis using assms r by (cases "Next m") (use m in \<open>simp add: Next_below_def Let_def\<close>)
qed

end
