(* ===== verification/MemoryStream.thy ===== *)
theory MemoryStream imports NetMF_Prelude begin

text \<open>
  The stream of bits that serialized objects are written to, \<open>CLR_RT_HeapBlock_MemoryStream\<close> of
  \<^verbatim>\<open>src/CLR/Core/Streams.cpp\<close>, and the numbers of variable length over it, of
  \<^verbatim>\<open>src/CLR/Core/Serialization/BinaryFormatter.cpp\<close>. The buffers are a list, \<open>m_current\<close> the index of one of
  them or, at the length of the list, the node that ends it. \<open>fresh\<close> are the buffers that the
  event cache will hand out, each with what its memory happens to hold. An access behind a buffer, or to
  a buffer through the node that ends the list, is None. C++ leaves the shifts of a number of 32 bits by 32 and
  more undefined, which widths above 32 lead to; here they give 0, and the properties ask of \<open>ReadBits\<close> and \<open>WriteBits\<close>
  at most 32 bits. \<open>ReadCompressedUnsigned\<close> shifts and or-s also after a failed second read, when \<open>extra\<close> is not
  set in the code; here it is 0 then, and nothing is stated of that value.
\<close>

datatype HR = S_OK | CLR_E_OUT_OF_RANGE | CLR_E_OUT_OF_MEMORY

text \<open>The data of a buffer is its own payload, or that of the array the stream was made for.\<close>

record Buffer =
  m_data :: "u8 list option"
  m_length :: nat
  m_payload :: "u8 list"

record MemoryStream =
  m_buffers :: "Buffer list"
  m_current :: nat
  m_pos :: int
  m_avail :: nat
  fresh :: "u8 list list"

definition c_PayloadSize :: nat where "c_PayloadSize = 32 * 12 - 4 - 4"

abbreviation current :: "MemoryStream \<Rightarrow> Buffer" where "current s \<equiv> m_buffers s ! m_current s"

definition set_current :: "Buffer \<Rightarrow> MemoryStream \<Rightarrow> MemoryStream" where
  "set_current b s = s\<lparr>m_buffers := (m_buffers s)[m_current s := b]\<rparr>"

definition NewBuffer :: "MemoryStream \<Rightarrow> bool \<times> MemoryStream" where
  "NewBuffer s =
     (case fresh s of
        [] \<Rightarrow> (False, s)
      | p # ps \<Rightarrow> (True, s\<lparr>m_buffers := m_buffers s @ [\<lparr>m_data = None, m_length = 0, m_payload = p\<rparr>],
          m_current := length (m_buffers s), m_pos := -1, m_avail := 0, fresh := ps\<rparr>))"

definition Stream_Initialize :: "u8 list option \<Rightarrow> nat \<Rightarrow> u8 list list \<Rightarrow> HR \<times> MemoryStream" where
  "Stream_Initialize buf len ps =
     (let (made, s) = NewBuffer \<lparr>m_buffers = [], m_current = 0, m_pos = 0, m_avail = 0, fresh = ps\<rparr> in
      if \<not> made then (CLR_E_OUT_OF_MEMORY, s)
      else (S_OK, if buf \<noteq> None then set_current ((current s)\<lparr>m_data := buf, m_length := len\<rparr>) s else s))"

definition Rewind :: "MemoryStream \<Rightarrow> MemoryStream" where
  "Rewind s = s\<lparr>m_current := 0, m_pos := -1, m_avail := 0\<rparr>"

definition Reset :: "MemoryStream \<Rightarrow> MemoryStream" where
  "Reset s = Rewind (s\<lparr>m_buffers := map (m_length_update (\<lambda>_. 0)) (m_buffers s)\<rparr>)"

text \<open>The copy that \<open>ToArray\<close> makes, once it has its array.\<close>

definition ToArray :: "MemoryStream \<Rightarrow> u8 list option" where
  "ToArray s = (if \<forall>b\<in>set (m_buffers s). m_length b \<le> length (m_payload b) then Some (concat (map (\<lambda>b. take (m_length b) (m_payload b)) (m_buffers s))) else None)"

definition BitsAvailable :: "MemoryStream \<Rightarrow> int" where
  "BitsAvailable s = int (m_avail s) - 8 * m_pos s - 8 + sum_list (map (\<lambda>b. 8 * int (m_length b)) (drop (m_current s) (m_buffers s)))"

definition BitsWritten :: "MemoryStream \<Rightarrow> int" where
  "BitsWritten s = m_pos s * 8 - int (m_avail s) + 8 + sum_list (map (\<lambda>b. 8 * int (m_length b)) (take (m_current s) (m_buffers s)))"

section \<open>Reading\<close>

function skip_empty :: "MemoryStream \<Rightarrow> (HR \<times> MemoryStream) option" where
  "skip_empty s =
     (if m_current s < length (m_buffers s) then
        (if m_pos s \<ge> int (m_length (current s)) then
           (let s = s\<lparr>m_current := m_current s + 1\<rparr> in
            if m_current s = length (m_buffers s) then Some (CLR_E_OUT_OF_RANGE, s) else skip_empty (s\<lparr>m_pos := 0\<rparr>))
         else Some (S_OK, s))
      else None)"
  by pat_completeness auto
termination by (relation "measure (\<lambda>s. length (m_buffers s) - m_current s)") auto

declare skip_empty.simps [simp del]

text \<open>A byte becomes available.\<close>

definition next_byte :: "MemoryStream \<Rightarrow> (HR \<times> MemoryStream) option" where
  "next_byte s = (if m_avail s = 0 then skip_empty (s\<lparr>m_pos := m_pos s + 1, m_avail := 8\<rparr>) else Some (S_OK, s))"

definition data_byte :: "MemoryStream \<Rightarrow> u8 option" where
  "data_byte s =
     (if m_current s < length (m_buffers s) then
        (let bytes = (case m_data (current s) of Some buf \<Rightarrow> buf | None \<Rightarrow> m_payload (current s)) in
         if 0 \<le> m_pos s \<and> nat (m_pos s) < length bytes then Some (bytes ! nat (m_pos s)) else None)
      else None)"

text \<open>Every round takes at least one bit, so \<open>bits\<close> rounds are enough. The answer has the number and the stream.\<close>

fun read_loop :: "nat \<Rightarrow> u32 \<Rightarrow> nat \<Rightarrow> MemoryStream \<Rightarrow> (HR \<times> u32 \<times> MemoryStream) option" where
  "read_loop n val 0 s = Some (S_OK, val, s)"
| "read_loop 0 val (Suc bits) s = None"
| "read_loop (Suc n) val (Suc bits) s =
     (case next_byte s of
        None \<Rightarrow> None
      | Some (hr, s) \<Rightarrow>
          if hr \<noteq> S_OK then Some (hr, val, s)
          else (case data_byte s of
             None \<Rightarrow> None
           | Some data \<Rightarrow>
               (let insert' = (if Suc bits < m_avail s then Suc bits else m_avail s);
                    pos = Suc bits - insert';
                    val = val OR push_bit pos (drop_bit (m_avail s - insert') (ucast data) AND mask insert')
                in read_loop n val (Suc bits - insert') (s\<lparr>m_avail := m_avail s - insert'\<rparr>))))"

text \<open>The number is stored only when all bits were read.\<close>

definition ReadBits :: "u32 \<Rightarrow> nat \<Rightarrow> MemoryStream \<Rightarrow> (HR \<times> u32 \<times> MemoryStream) option" where
  "ReadBits res bits s = map_option (\<lambda>(hr, val, s). (hr, if hr = S_OK then val else res, s)) (read_loop bits 0 bits s)"

text \<open>The two halves of the number in the memory of a little-endian target.\<close>

definition ReadBits64 :: "u64 \<Rightarrow> nat \<Rightarrow> MemoryStream \<Rightarrow> (HR \<times> u64 \<times> MemoryStream) option" where
  "ReadBits64 res bits s =
     (let low = (\<lambda>hi bits s. map_option (\<lambda>(hr, lo, s). (hr, push_bit 32 (ucast hi) OR ucast lo :: u64, s)) (ReadBits (ucast res) bits s)) in
      if bits > 32 then
        (case ReadBits (ucast (drop_bit 32 res)) (bits - 32) s of
           None \<Rightarrow> None
         | Some (hr, hi, s) \<Rightarrow> if hr \<noteq> S_OK then Some (hr, push_bit 32 (ucast hi) OR ucast (ucast res :: u32), s) else low hi 32 s)
      else low (0 :: u32) bits s)"

fun ReadArray :: "nat \<Rightarrow> MemoryStream \<Rightarrow> (HR \<times> u8 list \<times> MemoryStream) option" where
  "ReadArray 0 s = Some (S_OK, [], s)"
| "ReadArray (Suc bytes) s =
     (case ReadBits 0 8 s of
        None \<Rightarrow> None
      | Some (hr, data, s) \<Rightarrow>
          if hr \<noteq> S_OK then Some (hr, [], s)
          else map_option (\<lambda>(hr, buf, s). (hr, ucast data # buf, s)) (ReadArray bytes s))"

section \<open>Writing\<close>

function make_room :: "MemoryStream \<Rightarrow> (HR \<times> MemoryStream) option" where
  "make_room s =
     (let s = s\<lparr>m_pos := m_pos s + 1\<rparr> in
      if 0 \<le> m_pos s \<and> m_pos s < int c_PayloadSize then
        (if m_current s < length (m_buffers s) \<and> nat (m_pos s) < length (m_payload (current s)) then
           Some (S_OK, (set_current ((current s)\<lparr>m_length := m_length (current s) + 1,
             m_payload := (m_payload (current s))[nat (m_pos s) := 0]\<rparr>) s)\<lparr>m_avail := 8\<rparr>)
         else None)
      else (case NewBuffer s of (False, s) \<Rightarrow> Some (CLR_E_OUT_OF_MEMORY, s) | (True, s) \<Rightarrow> make_room s))"
  by pat_completeness auto
termination by (relation "measure (\<lambda>s. length (fresh s))") (auto simp: NewBuffer_def split: list.splits)

declare make_room.simps [simp del]

definition byte_room :: "MemoryStream \<Rightarrow> (HR \<times> MemoryStream) option" where
  "byte_room s = (if m_avail s = 0 then make_room s else Some (S_OK, s))"

definition or_byte :: "u8 \<Rightarrow> MemoryStream \<Rightarrow> MemoryStream option" where
  "or_byte b s =
     (if m_current s < length (m_buffers s) \<and> 0 \<le> m_pos s \<and> nat (m_pos s) < length (m_payload (current s)) then
        Some (set_current ((current s)\<lparr>m_payload := (m_payload (current s))[nat (m_pos s) := (m_payload (current s) ! nat (m_pos s)) OR b]\<rparr>) s)
      else None)"

fun write_loop :: "nat \<Rightarrow> u32 \<Rightarrow> nat \<Rightarrow> MemoryStream \<Rightarrow> (HR \<times> MemoryStream) option" where
  "write_loop n val 0 s = Some (S_OK, s)"
| "write_loop 0 val (Suc bits) s = None"
| "write_loop (Suc n) val (Suc bits) s =
     (case byte_room s of
        None \<Rightarrow> None
      | Some (hr, s) \<Rightarrow>
          if hr \<noteq> S_OK then Some (hr, s)
          else
            (let insert' = (if Suc bits < m_avail s then Suc bits else m_avail s);
                 pos = Suc bits - insert'
             in case or_byte (ucast (push_bit (m_avail s - insert') (drop_bit pos val AND mask insert'))) s of
                  None \<Rightarrow> None
                | Some s \<Rightarrow> write_loop n val (Suc bits - insert') (s\<lparr>m_avail := m_avail s - insert'\<rparr>)))"

definition WriteBits :: "u32 \<Rightarrow> nat \<Rightarrow> MemoryStream \<Rightarrow> (HR \<times> MemoryStream) option" where
  "WriteBits val bits s = write_loop bits val bits s"

definition WriteBits64 :: "u64 \<Rightarrow> nat \<Rightarrow> MemoryStream \<Rightarrow> (HR \<times> MemoryStream) option" where
  "WriteBits64 res bits s =
     (if bits > 32 then
        (case WriteBits (ucast (drop_bit 32 res)) (bits - 32) s of
           None \<Rightarrow> None
         | Some (hr, s) \<Rightarrow> if hr \<noteq> S_OK then Some (hr, s) else WriteBits (ucast res) 32 s)
      else WriteBits (ucast res) bits s)"

fun WriteArray :: "u8 list \<Rightarrow> MemoryStream \<Rightarrow> (HR \<times> MemoryStream) option" where
  "WriteArray [] s = Some (S_OK, s)"
| "WriteArray (b # buf) s =
     (case WriteBits (ucast b) 8 s of
        None \<Rightarrow> None
      | Some (hr, s) \<Rightarrow> if hr \<noteq> S_OK then Some (hr, s) else WriteArray buf s)"

section \<open>Numbers of variable length\<close>

definition ReadCompressedUnsigned :: "u32 \<Rightarrow> MemoryStream \<Rightarrow> (HR \<times> u32 \<times> MemoryStream) option" where
  "ReadCompressedUnsigned val s =
     (case ReadBits val 8 s of
        None \<Rightarrow> None
      | Some (hr, val, s) \<Rightarrow>
          if hr \<noteq> S_OK then Some (hr, val, s)
          else if val = 0xFF then Some (S_OK, 0xFFFFFFFF, s)
          else (let bits = (if val AND 0xC0 = 0x80 then 8 else if val AND 0xC0 = 0xC0 then 24 else 0) in
            if bits \<noteq> 0 then
              map_option (\<lambda>(hr, extra, s). (hr, push_bit bits (val AND NOT 0xC0) OR extra, s)) (ReadBits 0 bits s)
            else Some (S_OK, val, s)))"

definition WriteCompressedUnsigned :: "u32 \<Rightarrow> MemoryStream \<Rightarrow> (HR \<times> MemoryStream) option" where
  "WriteCompressedUnsigned val s =
     (if val = 0xFFFFFFFF then WriteBits val 8 s
      else if val < 0x80 then WriteBits val 8 s
      else if val < 0x3F00 then WriteBits (val OR 0x8000) 16 s
      else if val < 0x3F000000 then WriteBits (val OR 0xC0000000) 32 s
      else Some (CLR_E_OUT_OF_RANGE, s))"

end
