(* ===== verification/MemoryStreamBits.thy ===== *)
theory MemoryStreamBits imports MemoryStream begin

text \<open>
  Words as lists of bits: what a number contributes to a stream, the number that bits of a stream make,
  and the bits of a byte that \<open>WriteBits\<close> puts a part of a number into and \<open>ReadBits\<close> takes it from.
\<close>

section \<open>Words as lists of bits, the highest first\<close>

definition word_bits :: "nat \<Rightarrow> 'a::len word \<Rightarrow> bool list" where
  "word_bits n w = rev (map (bit w) [0..<n])"

definition bits_val :: "bool list \<Rightarrow> 'a::len word" where
  "bits_val bs = horner_sum of_bool 2 (rev bs)"

definition bits_of :: "u8 list \<Rightarrow> bool list" where
  "bits_of bytes = concat (map (word_bits 8) bytes)"

lemma length_word_bits [simp]: "length (word_bits n w) = n" by (simp add: word_bits_def)

lemma nth_word_bits: "i < n \<Longrightarrow> word_bits n w ! i = bit w (n - Suc i)"
  by (simp add: word_bits_def rev_nth)

lemma word_bits_0 [simp]: "word_bits 0 w = []" by (simp add: word_bits_def)

lemma bits_of_simps [simp]: "bits_of [] = []" "bits_of (b # bs) = word_bits 8 b @ bits_of bs" "bits_of (bs @ cs) = bits_of bs @ bits_of cs"
  by (simp_all add: bits_of_def)

lemma length_bits_of [simp]: "length (bits_of bs) = 8 * length bs" by (induction bs) auto

lemma word_bits_eqI: "(\<And>i. i < n \<Longrightarrow> bit v i = bit w i) \<Longrightarrow> word_bits n v = word_bits n w"
  by (simp add: word_bits_def)

lemma word_bits_split: "word_bits (k + p) v = word_bits k (drop_bit p v) @ word_bits p v"
  by (rule nth_equalityI) (auto simp: nth_word_bits nth_append bit_drop_bit_eq intro!: arg_cong2 [where f = bit])

lemma bit_bits_val: "bit (bits_val bs :: 'a::len word) i \<longleftrightarrow> i < LENGTH('a) \<and> i < length bs \<and> bs ! (length bs - Suc i)"
  by (auto simp: bits_val_def bit_horner_sum_bit_word_iff rev_nth)

lemma bits_val_word_bits: "bits_val (word_bits n w) = take_bit n w"
  by (rule bit_word_eqI) (auto simp: bit_bits_val bit_take_bit_iff nth_word_bits)

lemma bits_val_append: "bits_val (bs @ cs) = (push_bit (length cs) (bits_val bs) OR bits_val cs :: 'a::len word)"
proof (rule bit_word_eqI)
  fix i assume i: "i < LENGTH('a)"
  show "bit (bits_val (bs @ cs) :: 'a word) i = bit (push_bit (length cs) (bits_val bs) OR bits_val cs :: 'a word) i"
  proof (cases "i < length cs")
    case True
    then have "length bs + length cs - Suc i = length bs + (length cs - Suc i)" by arith
    moreover have "\<not> length bs + (length cs - Suc i) < length bs" by arith
    ultimately show ?thesis using True i by (simp add: bit_bits_val bit_or_iff bit_push_bit_iff nth_append)
  next
    case False
    then have "length bs + length cs - Suc i = length bs - Suc (i - length cs)" by arith
    then show ?thesis using False i by (auto simp: bit_bits_val bit_or_iff bit_push_bit_iff nth_append)
  qed
qed

lemma bits_val_Nil [simp]: "bits_val [] = 0" by (simp add: bits_val_def)

lemma ucast_bits_val: "length bs \<le> LENGTH('a) \<Longrightarrow> LENGTH('a) \<le> LENGTH('b) \<Longrightarrow> ucast (bits_val bs :: 'a::len word) = (bits_val bs :: 'b::len word)"
  by (rule bit_word_eqI) (auto simp: bit_bits_val bit_ucast_iff)

text \<open>The bits of a byte that a field is put into, and those a field is taken from.\<close>

lemma word_bits_insert:
  assumes z: "drop (8 - a) (word_bits 8 (x :: u8)) = replicate a False" and a: "a \<le> 8" and k: "k \<le> a"
  shows "word_bits 8 (x OR ucast (push_bit (a - k) (v AND mask k :: u32))) = take (8 - a) (word_bits 8 x) @ word_bits k v @ replicate (a - k) False"
proof -
  have low: "\<not> bit x i" if "i < a" for i
  proof -
    have "drop (8 - a) (word_bits 8 x) ! (a - Suc i) = False" using z that by simp
    then show ?thesis using that a by (simp add: nth_word_bits)
  qed
  show ?thesis
  proof (rule nth_equalityI)
    fix j assume "j < length (word_bits 8 (x OR ucast (push_bit (a - k) (v AND mask k))))"
    then have j: "j < 8" by simp
    have hi: "\<not> bit (ucast (push_bit (a - k) (v AND mask k)) :: u8) (7 - j)" if "j < 8 - a"
      using that k by (auto simp: bit_ucast_iff bit_push_bit_iff bit_and_iff bit_mask_iff)
    consider "j < 8 - a" | "8 - a \<le> j" "j < 8 - a + k" | "8 - a + k \<le> j" by linarith
    then show "word_bits 8 (x OR ucast (push_bit (a - k) (v AND mask k))) ! j = (take (8 - a) (word_bits 8 x) @ word_bits k v @ replicate (a - k) False) ! j"
    proof cases
      case 1 then show ?thesis using j hi by (simp add: nth_append nth_word_bits bit_or_iff)
    next
      case 2
      then have e: "j + a - 8 < k" "k - Suc (j - (8 - a)) = 7 - j - (a - k)" "\<not> j < 8 - a" "7 - j < a" using a k j by arith+
      have i: "a - k \<le> 7 - j" "7 - j - (a - k) < k" "7 - j < 8" using 2 a k j by arith+
      have "bit (x OR ucast (push_bit (a - k) (v AND mask k))) (7 - j) = bit v (7 - j - (a - k))"
        using low [OF e(4)] i bit_u32_less [of v "7 - j - (a - k)"]
        by (auto simp: bit_or_iff bit_ucast_iff bit_push_bit_iff bit_and_iff bit_mask_iff)
      moreover have "(take (8 - a) (word_bits 8 x) @ word_bits k v @ replicate (a - k) False) ! j = bit v (7 - j - (a - k))"
        using 2 e(1,2,3) a by (simp add: nth_append nth_word_bits)
      ultimately show ?thesis using j by (simp add: nth_word_bits)
    next
      case 3
      then have "\<not> bit x (7 - j)" using low [of "7 - j"] j a k by simp
      then show ?thesis using 3 j a k by (auto simp: nth_append nth_word_bits bit_or_iff bit_ucast_iff bit_push_bit_iff bit_and_iff)
    qed
  qed (use a k in auto)
qed

lemma bits_val_extract:
  assumes "a \<le> 8" "k \<le> a"
  shows "drop_bit (a - k) (ucast (x :: u8)) AND mask k = (bits_val (take k (drop (8 - a) (word_bits 8 x))) :: u32)"
proof (rule bit_word_eqI)
  fix i assume "i < LENGTH(32)"
  then show "bit (drop_bit (a - k) (ucast x) AND mask k :: u32) i = bit (bits_val (take k (drop (8 - a) (word_bits 8 x))) :: u32) i"
    using assms by (auto simp: bit_bits_val bit_and_iff bit_mask_iff bit_drop_bit_eq bit_ucast_iff nth_word_bits min_def intro: bit_u8_less intro!: arg_cong2 [where f = bit])
qed

end
