(* ===== verification/MemoryStreamWrite.thy ===== *)
theory MemoryStreamWrite imports MemoryStreamBits begin

text \<open>
  Writing to a stream: the invariant of a stream that holds a list of bits, and that every operation
  appends its bits or, when the buffers cannot hold them, reports that memory is out.
\<close>

section \<open>The invariant\<close>

abbreviation written :: "Buffer list \<Rightarrow> Buffer \<Rightarrow> u8 list" where
  "written pre cur \<equiv> concat (map m_payload pre) @ take (m_length cur) (m_payload cur)"

definition whole :: "Buffer \<Rightarrow> bool" where
  "whole b \<longleftrightarrow> m_data b = None \<and> length (m_payload b) = c_PayloadSize"

definition writing_at :: "Buffer list \<Rightarrow> Buffer \<Rightarrow> MemoryStream \<Rightarrow> bool list \<Rightarrow> bool" where
  "writing_at pre cur s bs \<longleftrightarrow>
     m_buffers s = pre @ [cur] \<and> m_current s = length pre \<and>
     (\<forall>b\<in>set pre. whole b \<and> m_length b = c_PayloadSize) \<and> whole cur \<and> (\<forall>p\<in>set (fresh s). length p = c_PayloadSize) \<and>
     int (m_length cur) = m_pos s + 1 \<and> m_length cur \<le> c_PayloadSize \<and>
     m_avail s \<le> 8 \<and> (m_length cur = 0 \<longrightarrow> m_avail s = 0) \<and>
     bits_of (written pre cur) = bs @ replicate (m_avail s) False"

definition writing :: "MemoryStream \<Rightarrow> bool list \<Rightarrow> bool" where
  "writing s bs \<longleftrightarrow> (\<exists>pre cur. writing_at pre cur s bs)"

definition capacity :: "MemoryStream \<Rightarrow> nat" where
  "capacity s = 8 * c_PayloadSize * (length (m_buffers s) + length (fresh s))"

lemma written_length: "(\<forall>b\<in>set pre. whole b) \<Longrightarrow> length (concat (map m_payload pre)) = c_PayloadSize * length pre"
  by (induction pre) (auto simp: whole_def)

lemma writing_at_bits:
  assumes "writing_at pre cur s bs"
  shows "length bs + m_avail s = 8 * (c_PayloadSize * length pre + m_length cur)"
proof -
  have "length (bits_of (written pre cur)) = length bs + m_avail s" using assms by (simp add: writing_at_def)
  then show ?thesis using assms written_length [of pre] by (simp add: writing_at_def whole_def)
qed

lemma writing_capacity: "writing s bs \<Longrightarrow> length bs \<le> capacity s"
  using writing_at_bits by (fastforce simp: writing_def capacity_def writing_at_def algebra_simps)

section \<open>Room for a byte\<close>

lemma payload_pos: "0 < c_PayloadSize" by (simp add: c_PayloadSize_def)

lemma make_room_here:
  assumes w: "writing_at pre cur s bs" and a: "m_avail s = 0" and r: "m_length cur < c_PayloadSize"
  shows "\<exists>s'. make_room s = Some (S_OK, s') \<and> writing s' bs \<and> m_avail s' = 8 \<and> capacity s' = capacity s"
proof -
  let ?q = "m_length cur"
  let ?cur = "cur\<lparr>m_length := ?q + 1, m_payload := (m_payload cur)[?q := 0]\<rparr>"
  let ?s = "s\<lparr>m_pos := m_pos s + 1, m_avail := 8, m_buffers := pre @ [?cur]\<rparr>"
  have p: "m_pos s + 1 = int ?q" using w by (simp add: writing_at_def)
  have l: "?q < length (m_payload cur)" using w r by (simp add: writing_at_def whole_def)
  have m: "make_room s = Some (S_OK, ?s)"
    using w r p l by (subst make_room.simps) (simp add: Let_def set_current_def writing_at_def)
  have "take (?q + 1) (m_payload ?cur) = take ?q (m_payload cur) @ [0]" using l by (simp add: take_Suc_conv_app_nth)
  moreover have "word_bits 8 (0 :: u8) = replicate 8 False" by (rule nth_equalityI) (simp_all add: nth_word_bits)
  moreover have "bits_of (written pre cur) = bs" using w a by (simp add: writing_at_def)
  ultimately have "bits_of (written pre ?cur) = bs @ replicate 8 False" by simp
  then have "writing_at pre ?cur ?s bs"
    using w r p unfolding writing_at_def whole_def by simp
  moreover have "capacity ?s = capacity s" using w by (simp add: capacity_def writing_at_def)
  ultimately show ?thesis using m by (auto simp: writing_def)
qed

lemma make_room_spec:
  assumes "writing s bs" and a: "m_avail s = 0"
  shows "if length bs < capacity s then \<exists>s'. make_room s = Some (S_OK, s') \<and> writing s' bs \<and> m_avail s' = 8 \<and> capacity s' = capacity s
    else \<exists>s'. make_room s = Some (CLR_E_OUT_OF_MEMORY, s')"
proof -
  obtain pre cur where w: "writing_at pre cur s bs" using assms by (auto simp: writing_def)
  have n: "length bs = 8 * (c_PayloadSize * length pre + m_length cur)" using writing_at_bits [OF w] a by simp
  have c: "capacity s = 8 * c_PayloadSize * (length pre + 1 + length (fresh s))" using w by (simp add: capacity_def writing_at_def)
  show ?thesis
  proof (cases "m_length cur < c_PayloadSize")
    case True
    then have "length bs < capacity s" unfolding n c by (simp add: algebra_simps)
    then show ?thesis using make_room_here [OF w a True] by simp
  next
    case False
    then have full: "m_length cur = c_PayloadSize" "m_pos s + 1 = int c_PayloadSize" using w by (auto simp: writing_at_def)
    show ?thesis
    proof (cases "fresh s")
      case Nil
      then have "\<not> length bs < capacity s" unfolding n c using full by simp
      moreover have "\<exists>s'. make_room s = Some (CLR_E_OUT_OF_MEMORY, s')"
        using full Nil by (subst make_room.simps) (simp add: Let_def NewBuffer_def)
      ultimately show ?thesis by simp
    next
      case (Cons p ps)
      let ?new = "\<lparr>m_data = None, m_length = 0, m_payload = p\<rparr>"
      let ?s = "s\<lparr>m_buffers := pre @ [cur, ?new], m_current := length pre + 1, m_pos := -1, m_avail := 0, fresh := ps\<rparr>"
      have lt: "length bs < capacity s" unfolding n c using full Cons payload_pos by (simp add: algebra_simps)
      have m: "make_room s = make_room ?s"
        using w full Cons by (subst make_room.simps) (simp add: Let_def NewBuffer_def writing_at_def)
      have "writing_at (pre @ [cur]) ?new ?s bs"
        using w full Cons a unfolding writing_at_def whole_def by auto
      then have "\<exists>s'. make_room ?s = Some (S_OK, s') \<and> writing s' bs \<and> m_avail s' = 8 \<and> capacity s' = capacity ?s"
        using payload_pos by (intro make_room_here) auto
      moreover have "capacity ?s = capacity s" using w Cons by (simp add: capacity_def writing_at_def)
      ultimately show ?thesis using lt m by simp
    qed
  qed
qed

lemma byte_room_spec:
  assumes "writing s bs"
  shows "if length bs < capacity s then \<exists>s'. byte_room s = Some (S_OK, s') \<and> writing s' bs \<and> 0 < m_avail s' \<and> m_avail s' \<le> 8 \<and> capacity s' = capacity s
    else \<exists>s'. byte_room s = Some (CLR_E_OUT_OF_MEMORY, s')"
proof (cases "m_avail s = 0")
  case True
  then show ?thesis using make_room_spec [OF assms] by (fastforce simp: byte_room_def)
next
  case False
  obtain pre cur where w: "writing_at pre cur s bs" using assms by (auto simp: writing_def)
  have "length bs < capacity s"
    using writing_at_bits [OF w] w False by (auto simp: capacity_def writing_at_def algebra_simps intro: le_less_trans)
  then show ?thesis using False assms w by (auto simp: byte_room_def writing_at_def)
qed

section \<open>Bits into the byte\<close>

lemma padded_byte:
  assumes e: "A @ W = bs @ replicate a False" and a: "a \<le> length W"
  shows "drop (length W - a) W = replicate a False" "bs = A @ take (length W - a) W"
proof -
  have "length (A @ W) = length (bs @ replicate a False)" by (simp only: e)
  then have l: "length bs = length A + (length W - a)" using a by simp
  show "drop (length W - a) W = replicate a False" using arg_cong [OF e, of "drop (length bs)"] by (simp add: l)
  show "bs = A @ take (length W - a) W" using arg_cong [OF e, of "take (length bs)"] by (simp add: l)
qed

lemma or_byte_spec:
  assumes "writing s bs" and a: "0 < m_avail s" and k: "k \<le> m_avail s"
  shows "\<exists>s'. or_byte (ucast (push_bit (m_avail s - k) (v AND mask k :: u32))) s = Some s' \<and>
    writing (s'\<lparr>m_avail := m_avail s - k\<rparr>) (bs @ word_bits k v) \<and> m_avail s' = m_avail s \<and> capacity s' = capacity s"
proof -
  obtain pre cur where w: "writing_at pre cur s bs" using assms by (auto simp: writing_def)
  obtain q where q: "m_length cur = Suc q" using w a by (cases "m_length cur") (auto simp: writing_at_def)
  have pos: "m_pos s = int q" using w q by (simp add: writing_at_def)
  have a8: "m_avail s \<le> 8" using w by (simp add: writing_at_def)
  have ql: "q < length (m_payload cur)" using w q by (simp add: writing_at_def whole_def)
  let ?b = "ucast (push_bit (m_avail s - k) (v AND mask k)) :: u8"
  let ?x = "m_payload cur ! q"
  let ?cur = "cur\<lparr>m_payload := (m_payload cur)[q := ?x OR ?b]\<rparr>"
  let ?s = "s\<lparr>m_buffers := pre @ [?cur]\<rparr>"
  let ?old = "bits_of (concat (map m_payload pre) @ take q (m_payload cur))"
  have o: "or_byte ?b s = Some ?s"
    using w pos ql by (simp add: or_byte_def set_current_def writing_at_def)
  have "?old @ word_bits 8 ?x = bs @ replicate (m_avail s) False"
    using w q ql by (simp add: writing_at_def take_Suc_conv_app_nth)
  then have "drop (8 - m_avail s) (word_bits 8 ?x) = replicate (m_avail s) False" and bs: "bs = ?old @ take (8 - m_avail s) (word_bits 8 ?x)"
    using padded_byte [of ?old "word_bits 8 ?x"] a8 by simp_all
  then have "word_bits 8 (?x OR ?b) = take (8 - m_avail s) (word_bits 8 ?x) @ word_bits k v @ replicate (m_avail s - k) False"
    using word_bits_insert a8 k by blast
  then have "bits_of (written pre ?cur) = (bs @ word_bits k v) @ replicate (m_avail s - k) False"
    using q ql by (simp add: bs take_Suc_conv_app_nth)
  then have "writing_at pre ?cur (?s\<lparr>m_avail := m_avail s - k\<rparr>) (bs @ word_bits k v)"
    using w q a8 unfolding writing_at_def whole_def by simp
  then show ?thesis using o w by (auto simp: writing_def capacity_def writing_at_def)
qed

section \<open>Fields\<close>

definition appends :: "(HR \<times> MemoryStream) option \<Rightarrow> MemoryStream \<Rightarrow> bool list \<Rightarrow> bool list \<Rightarrow> bool" where
  "appends r s bs cs \<longleftrightarrow>
     (if length bs + length cs \<le> capacity s then \<exists>s'. r = Some (S_OK, s') \<and> writing s' (bs @ cs) \<and> capacity s' = capacity s
      else \<exists>s'. r = Some (CLR_E_OUT_OF_MEMORY, s'))"

lemma appends_then:
  assumes r: "appends r s bs cs"
    and f: "\<And>s'. writing s' (bs @ cs) \<Longrightarrow> appends (f s') s' (bs @ cs) ds"
  shows "appends (case r of None \<Rightarrow> None | Some (hr, s) \<Rightarrow> if hr \<noteq> S_OK then Some (hr, s) else f s) s bs (cs @ ds)"
proof (cases "length bs + length cs \<le> capacity s")
  case True
  then obtain s' where s': "r = Some (S_OK, s')" "writing s' (bs @ cs)" "capacity s' = capacity s" using r by (auto simp: appends_def)
  then show ?thesis using f [OF s'(2)] by (auto simp: appends_def add.assoc split: if_splits)
next
  case False
  then show ?thesis using r by (auto simp: appends_def)
qed

lemma appends_Nil: "writing s bs \<Longrightarrow> appends (Some (S_OK, s)) s bs []"
  using writing_capacity by (auto simp: appends_def)

text \<open>A round of the loop puts at least one bit into the stream.\<close>

lemma write_round:
  assumes w: "writing s bs" and c: "length bs < capacity s"
  shows "\<exists>k s'. 0 < k \<and> k \<le> Suc bits \<and> write_loop (Suc n) val (Suc bits) s = write_loop n val (Suc bits - k) s' \<and>
    writing s' (bs @ word_bits k (drop_bit (Suc bits - k) val)) \<and> capacity s' = capacity s"
proof -
  obtain s1 where r: "byte_room s = Some (S_OK, s1)" and w1: "writing s1 bs" and a: "0 < m_avail s1" and c1: "capacity s1 = capacity s"
    using byte_room_spec [OF w] c by auto
  let ?k = "if Suc bits < m_avail s1 then Suc bits else m_avail s1"
  let ?p = "Suc bits - ?k"
  have k: "?k \<le> m_avail s1" "0 < ?k" "?k \<le> Suc bits" using a by auto
  obtain s2 where o: "or_byte (ucast (push_bit (m_avail s1 - ?k) (drop_bit ?p val AND mask ?k))) s1 = Some s2"
    and w2: "writing (s2\<lparr>m_avail := m_avail s1 - ?k\<rparr>) (bs @ word_bits ?k (drop_bit ?p val))"
    and a2: "m_avail s2 = m_avail s1" and c2: "capacity s2 = capacity s1"
    using or_byte_spec [OF w1 a k(1)] by blast
  have "write_loop (Suc n) val (Suc bits) s = write_loop n val ?p (s2\<lparr>m_avail := m_avail s1 - ?k\<rparr>)"
    using r o a2 by (simp add: Let_def)
  moreover have "capacity (s2\<lparr>m_avail := m_avail s1 - ?k\<rparr>) = capacity s" using c1 c2 payload_pos by (simp add: capacity_def)
  ultimately show ?thesis using k w2 by blast
qed

lemma write_loop_appends:
  "writing s bs \<Longrightarrow> bits \<le> n \<Longrightarrow> appends (write_loop n val bits s) s bs (word_bits bits val)"
proof (induction n arbitrary: bits s bs)
  case 0
  then show ?case by (simp add: appends_Nil)
next
  case (Suc n)
  consider "bits = 0" | m where "bits = Suc m" "length bs < capacity s" | m where "bits = Suc m" "\<not> length bs < capacity s"
    by (cases bits) auto
  then show ?case
  proof cases
    case 1
    then show ?thesis using Suc.prems by (simp add: appends_Nil)
  next
    case (2 m)
    obtain k s' where k: "0 < k" "k \<le> bits" and e: "write_loop (Suc n) val bits s = write_loop n val (bits - k) s'"
      and w: "writing s' (bs @ word_bits k (drop_bit (bits - k) val))" and c: "capacity s' = capacity s"
      using write_round [OF Suc.prems(1) 2(2), of m n val] 2(1) by auto
    have "appends (write_loop n val (bits - k) s') s' (bs @ word_bits k (drop_bit (bits - k) val)) (word_bits (bits - k) val)"
      using w k Suc.prems(2) by (intro Suc.IH) auto
    moreover have "word_bits bits val = word_bits k (drop_bit (bits - k) val) @ word_bits (bits - k) val"
      using word_bits_split [of k "bits - k" val] k by simp
    ultimately show ?thesis using k c by (auto simp: e appends_def split: if_splits)
  next
    case (3 m)
    then obtain s' where "byte_room s = Some (CLR_E_OUT_OF_MEMORY, s')" using byte_room_spec [OF Suc.prems(1)] by auto
    then show ?thesis using 3 by (simp add: appends_def)
  qed
qed

lemma WriteBits_appends: "writing s bs \<Longrightarrow> appends (WriteBits val bits s) s bs (word_bits bits val)"
  by (simp add: WriteBits_def write_loop_appends)

lemma word_bits_ucast: "n \<le> 32 \<Longrightarrow> word_bits n (ucast (w :: u64) :: u32) = word_bits n w"
  by (rule word_bits_eqI) (simp add: bit_ucast_iff)

lemma WriteBits64_appends:
  assumes w: "writing s bs" and n: "bits \<le> 64"
  shows "appends (WriteBits64 val bits s) s bs (word_bits bits val)"
proof (cases "bits > 32")
  case True
  have "word_bits bits val = word_bits (bits - 32) (ucast (drop_bit 32 val) :: u32) @ word_bits 32 (ucast val :: u32)"
    using word_bits_split [of "bits - 32" 32 val] True n by (simp add: word_bits_ucast)
  then show ?thesis
    using True appends_then [OF WriteBits_appends [OF w] WriteBits_appends] by (simp add: WriteBits64_def)
next
  case False
  then show ?thesis using WriteBits_appends [OF w, of "ucast val" bits] by (simp add: WriteBits64_def word_bits_ucast)
qed

lemma WriteArray_appends: "writing s bs \<Longrightarrow> appends (WriteArray bytes s) s bs (bits_of bytes)"
proof (induction bytes arbitrary: s bs)
  case Nil
  then show ?case by (simp add: appends_Nil)
next
  case (Cons b bytes)
  have "word_bits 8 (ucast b :: u32) = word_bits 8 b" by (rule word_bits_eqI) (simp add: bit_ucast_iff)
  then show ?case using appends_then [OF WriteBits_appends [OF Cons.prems, of "ucast b" 8] Cons.IH] by simp
qed

section \<open>The bits that were written\<close>

lemma writing_BitsWritten:
  assumes "writing s bs" shows "BitsWritten s = int (length bs)"
proof -
  obtain pre cur where w: "writing_at pre cur s bs" using assms by (auto simp: writing_def)
  have "sum_list (map (\<lambda>b. 8 * int (m_length b)) pre) = 8 * int (c_PayloadSize * length pre)" if "\<forall>b\<in>set pre. m_length b = c_PayloadSize"
    using that by (induction pre) (auto simp: algebra_simps)
  then have "BitsWritten s = m_pos s * 8 - int (m_avail s) + 8 + 8 * (int c_PayloadSize * int (length pre))"
    using w by (simp add: BitsWritten_def writing_at_def)
  moreover have "int (length bs) + int (m_avail s) = 8 * (int c_PayloadSize * int (length pre) + int (m_length cur))"
    using arg_cong [OF writing_at_bits [OF w], of int] by simp
  ultimately show ?thesis using w by (simp add: writing_at_def)
qed

lemma writing_ToArray:
  assumes "writing s bs" shows "\<exists>bytes. ToArray s = Some bytes \<and> bits_of bytes = bs @ replicate (m_avail s) False"
proof -
  obtain pre cur where w: "writing_at pre cur s bs" using assms by (auto simp: writing_def)
  have "map (\<lambda>b. take (m_length b) (m_payload b)) pre = map m_payload pre"
    using w by (auto simp: writing_at_def whole_def)
  then have "concat (map (\<lambda>b. take (m_length b) (m_payload b)) pre) = concat (map m_payload pre)" by (simp only:)
  moreover have "\<forall>b\<in>set (m_buffers s). m_length b \<le> length (m_payload b)" using w by (auto simp: writing_at_def whole_def)
  moreover have "m_buffers s = pre @ [cur]" using w by (simp add: writing_at_def)
  ultimately have "ToArray s = Some (written pre cur)" by (simp add: ToArray_def)
  then show ?thesis using w by (simp add: writing_at_def)
qed

lemma Initialize_writing:
  assumes "\<forall>p\<in>set ps. length p = c_PayloadSize" "ps \<noteq> []"
  shows "\<exists>s. Stream_Initialize None 0 ps = (S_OK, s) \<and> writing s [] \<and> capacity s = 8 * c_PayloadSize * length ps"
proof -
  obtain p ps' where ps: "ps = p # ps'" using assms by (cases ps) auto
  let ?b = "\<lparr>m_data = None, m_length = 0, m_payload = p\<rparr>"
  let ?s = "\<lparr>m_buffers = [?b], m_current = 0, m_pos = -1, m_avail = 0, fresh = ps'\<rparr>"
  have "writing_at [] ?b ?s []" using assms ps by (simp add: writing_at_def whole_def)
  then have "writing ?s []" unfolding writing_def by blast
  then show ?thesis using ps by (simp add: Stream_Initialize_def NewBuffer_def capacity_def)
qed

end
