(* ===== verification/MemoryStreamRead.thy ===== *)
theory MemoryStreamRead imports MemoryStreamWrite begin

text \<open>
  Reading from a stream: the invariant of a stream with a list of bits ahead, and that every operation
  takes its bits from the list or, when there are too few, reports the end, without an access outside a
  buffer.
\<close>

section \<open>The bits ahead\<close>

abbreviation buffer_bytes :: "Buffer \<Rightarrow> u8 list" where
  "buffer_bytes b \<equiv> (case m_data b of Some buf \<Rightarrow> buf | None \<Rightarrow> m_payload b)"

definition used :: "Buffer \<Rightarrow> u8 list" where
  "used b = take (m_length b) (buffer_bytes b)"

definition upcoming :: "MemoryStream \<Rightarrow> bool list" where
  "upcoming s = drop (8 * nat (m_pos s + 1) - m_avail s) (bits_of (used (current s))) @
     bits_of (concat (map used (drop (Suc (m_current s)) (m_buffers s))))"

definition readable :: "MemoryStream \<Rightarrow> bool" where
  "readable s \<longleftrightarrow> m_current s < length (m_buffers s) \<and> (\<forall>b\<in>set (m_buffers s). m_length b \<le> length (buffer_bytes b))"

definition reading :: "MemoryStream \<Rightarrow> bool list \<Rightarrow> bool" where
  "reading s bs \<longleftrightarrow> readable s \<and> m_avail s \<le> 8 \<and> - 1 \<le> m_pos s \<and> m_pos s + 1 \<le> int (m_length (current s)) \<and>
     (0 < m_avail s \<longrightarrow> 0 \<le> m_pos s) \<and> upcoming s = bs"

lemma length_used: "readable s \<Longrightarrow> b \<in> set (m_buffers s) \<Longrightarrow> length (used b) = m_length b"
  by (auto simp: readable_def used_def)

lemma length_used_current: "readable s \<Longrightarrow> length (used (current s)) = m_length (current s)"
  by (intro length_used) (auto simp: readable_def)

section \<open>The next byte\<close>

lemma upcoming_next:
  assumes p: "int (m_length (current s)) \<le> m_pos s" and a: "m_avail s = 8" and r: "readable s" and c: "Suc (m_current s) < length (m_buffers s)"
  shows "upcoming s = upcoming (s\<lparr>m_current := m_current s + 1, m_pos := 0\<rparr>)"
proof -
  have "drop (8 * nat (m_pos s + 1) - m_avail s) (bits_of (used (current s))) = []"
    using p a length_used_current [OF r] by simp
  moreover have "drop (Suc (m_current s)) (m_buffers s) = m_buffers s ! Suc (m_current s) # drop (Suc (Suc (m_current s))) (m_buffers s)"
    using c by (simp add: Cons_nth_drop_Suc)
  ultimately show ?thesis using a by (simp add: upcoming_def)
qed

lemma upcoming_last:
  assumes p: "int (m_length (current s)) \<le> m_pos s" and a: "m_avail s = 8" and r: "readable s" and c: "Suc (m_current s) = length (m_buffers s)"
  shows "upcoming s = []"
  using p a c length_used_current [OF r] by (simp add: upcoming_def)

lemma upcoming_here:
  assumes "m_pos s < int (m_length (current s))" "0 \<le> m_pos s" "m_avail s = 8" "readable s"
  shows "upcoming s \<noteq> []"
  using assms length_used_current [OF assms(4)] by (simp add: upcoming_def)

lemma skip_empty_spec:
  assumes "readable s" "0 \<le> m_pos s" "m_avail s = 8"
  shows "if upcoming s = [] then \<exists>s'. skip_empty s = Some (CLR_E_OUT_OF_RANGE, s')
    else \<exists>s'. skip_empty s = Some (S_OK, s') \<and> reading s' (upcoming s) \<and> m_avail s' = 8"
  using assms
proof (induction s rule: skip_empty.induct)
  case (1 s)
  have c: "m_current s < length (m_buffers s)" using "1.prems"(1) by (simp add: readable_def)
  consider "m_pos s < int (m_length (current s))" | "int (m_length (current s)) \<le> m_pos s" "Suc (m_current s) = length (m_buffers s)"
    | "int (m_length (current s)) \<le> m_pos s" "Suc (m_current s) < length (m_buffers s)" using c by linarith
  then show ?case
  proof cases
    case 1
    then have "skip_empty s = Some (S_OK, s)" using c by (simp add: skip_empty.simps)
    moreover have "reading s (upcoming s)" using "1.prems" 1 by (simp add: reading_def)
    ultimately show ?thesis using upcoming_here [OF 1 "1.prems"(2,3,1)] "1.prems"(3) by simp
  next
    case 2
    then have "\<exists>s'. skip_empty s = Some (CLR_E_OUT_OF_RANGE, s')" using c by (simp add: skip_empty.simps Let_def)
    then show ?thesis using upcoming_last [OF 2(1) "1.prems"(3,1) 2(2)] by simp
  next
    case 3
    let ?s = "s\<lparr>m_current := m_current s + 1, m_pos := 0\<rparr>"
    have e: "skip_empty s = skip_empty ?s" using c 3 by (subst skip_empty.simps) (simp add: Let_def)
    have "readable ?s" using "1.prems"(1) 3 by (simp add: readable_def)
    then have "if upcoming ?s = [] then \<exists>s'. skip_empty ?s = Some (CLR_E_OUT_OF_RANGE, s')
      else \<exists>s'. skip_empty ?s = Some (S_OK, s') \<and> reading s' (upcoming ?s) \<and> m_avail s' = 8"
      using "1.IH" [OF c _ refl] 3 "1.prems"(3) by simp
    then show ?thesis unfolding e upcoming_next [OF 3(1) "1.prems"(3,1) 3(2)] .
  qed
qed

lemma next_byte_spec:
  assumes r: "reading s bs"
  shows "if bs = [] then \<exists>s'. next_byte s = Some (CLR_E_OUT_OF_RANGE, s')
    else \<exists>s'. next_byte s = Some (S_OK, s') \<and> reading s' bs \<and> 0 < m_avail s'"
proof (cases "m_avail s = 0")
  case True
  let ?s = "s\<lparr>m_pos := m_pos s + 1, m_avail := 8\<rparr>"
  have "nat (m_pos s + 2) = Suc (nat (m_pos s + 1))" using r by (simp add: reading_def Suc_nat_eq_nat_zadd1)
  then have "upcoming ?s = bs" using r True by (simp add: reading_def upcoming_def add.assoc)
  moreover have "readable ?s" "0 \<le> m_pos ?s" using r by (simp_all add: reading_def readable_def)
  ultimately show ?thesis using skip_empty_spec [of ?s] True by (fastforce simp: next_byte_def)
next
  case False
  then have "0 < length bs"
    using r length_used_current [of s] by (auto simp: reading_def upcoming_def)
  then show ?thesis using False r by (auto simp: next_byte_def)
qed

section \<open>Bits from the byte\<close>

lemma data_byte_spec:
  assumes r: "reading s bs" and a: "0 < m_avail s"
  shows "\<exists>x later. data_byte s = Some x \<and> bs = drop (8 - m_avail s) (word_bits 8 x) @ later"
proof -
  let ?q = "nat (m_pos s)"
  let ?u = "used (current s)"
  have rd: "readable s" and a8: "m_avail s \<le> 8" and p: "0 \<le> m_pos s" "?q < m_length (current s)" "nat (m_pos s + 1) = Suc ?q"
    using r a by (auto simp: reading_def)
  have l: "?q < length ?u" using length_used_current [OF rd] p by simp
  have "m_length (current s) \<le> length (buffer_bytes (current s))" using rd by (simp add: readable_def)
  then have d: "data_byte s = Some (?u ! ?q)"
    using rd p less_le_trans [OF p(2)] by (simp add: data_byte_def readable_def used_def Let_def)
  have "?u = take ?q ?u @ ?u ! ?q # drop (Suc ?q) ?u" using l by (rule id_take_nth_drop)
  then have "bits_of ?u = bits_of (take ?q ?u) @ word_bits 8 (?u ! ?q) @ bits_of (drop (Suc ?q) ?u)" by (metis bits_of_simps(2,3))
  moreover have "8 * Suc ?q - m_avail s = length (bits_of (take ?q ?u)) + (8 - m_avail s)" using l a8 by simp
  ultimately have "drop (8 * Suc ?q - m_avail s) (bits_of ?u) = drop (8 - m_avail s) (word_bits 8 (?u ! ?q)) @ bits_of (drop (Suc ?q) ?u)"
    using a8 by (simp add: drop_append)
  then have "bs = drop (8 - m_avail s) (word_bits 8 (?u ! ?q)) @ bits_of (drop (Suc ?q) ?u) @ bits_of (concat (map used (drop (Suc (m_current s)) (m_buffers s))))"
    using r p(3) by (simp add: reading_def upcoming_def)
  then show ?thesis using d by blast
qed

lemma reading_fewer:
  assumes r: "reading s bs" and k: "k \<le> m_avail s"
  shows "reading (s\<lparr>m_avail := m_avail s - k\<rparr>) (drop k bs)"
proof (cases "m_avail s = 0")
  case True
  then show ?thesis using assms by (simp add: reading_def upcoming_def readable_def)
next
  case False
  then have p: "0 \<le> m_pos s" "nat (m_pos s + 1) = Suc (nat (m_pos s))" and a8: "m_avail s \<le> 8" and rd: "readable s"
    and l: "nat (m_pos s) < m_length (current s)" using r by (auto simp: reading_def)
  have "8 * Suc (nat (m_pos s)) - (m_avail s - k) = k + (8 * Suc (nat (m_pos s)) - m_avail s)" using k a8 by simp
  moreover have "k \<le> length (bits_of (used (current s))) - (8 * Suc (nat (m_pos s)) - m_avail s)"
    using k a8 l length_used_current [OF rd] by simp
  ultimately have "upcoming (s\<lparr>m_avail := m_avail s - k\<rparr>) = drop k (upcoming s)"
    using p(2) by (simp add: upcoming_def)
  then show ?thesis using r by (auto simp: reading_def readable_def)
qed

section \<open>Fields\<close>

definition takes :: "(HR \<times> 'a \<times> MemoryStream) option \<Rightarrow> bool list \<Rightarrow> nat \<Rightarrow> 'a \<Rightarrow> bool" where
  "takes r bs n v \<longleftrightarrow>
     (if n \<le> length bs then \<exists>s'. r = Some (S_OK, v, s') \<and> reading s' (drop n bs) else \<exists>v s'. r = Some (CLR_E_OUT_OF_RANGE, v, s'))"

lemma read_round:
  assumes r: "reading s bs" and n: "bs \<noteq> []"
  shows "\<exists>k s'. 0 < k \<and> k \<le> Suc bits \<and> k \<le> length bs \<and> reading s' (drop k bs) \<and>
    read_loop (Suc n) val (Suc bits) s = read_loop n (val OR push_bit (Suc bits - k) (bits_val (take k bs))) (Suc bits - k) s'"
proof -
  obtain s1 where s1: "next_byte s = Some (S_OK, s1)" "reading s1 bs" "0 < m_avail s1" using next_byte_spec [OF r] n by auto
  let ?k = "if Suc bits < m_avail s1 then Suc bits else m_avail s1"
  have a8: "m_avail s1 \<le> 8" using s1(2) by (simp add: reading_def)
  obtain x later where x: "data_byte s1 = Some x" "bs = drop (8 - m_avail s1) (word_bits 8 x) @ later"
    using data_byte_spec [OF s1(2,3)] by blast
  have k: "0 < ?k" "?k \<le> Suc bits" "?k \<le> m_avail s1" "?k \<le> length bs" using s1(3) a8 x(2) by auto
  have "take ?k bs = take ?k (drop (8 - m_avail s1) (word_bits 8 x))" using k(3) a8 unfolding x(2) by simp
  then have "drop_bit (m_avail s1 - ?k) (ucast x) AND mask ?k = (bits_val (take ?k bs) :: u32)"
    using bits_val_extract [OF a8 k(3)] by simp
  then have "read_loop (Suc n) val (Suc bits) s =
      read_loop n (val OR push_bit (Suc bits - ?k) (bits_val (take ?k bs))) (Suc bits - ?k) (s1\<lparr>m_avail := m_avail s1 - ?k\<rparr>)"
    using s1(1) x(1) by (simp only: read_loop.simps Let_def option.case prod.case if_False not_True_eq_False simp_thms)
  then show ?thesis using k reading_fewer [OF s1(2) k(3)] by blast
qed

lemma read_loop_takes:
  "reading s bs \<Longrightarrow> bits \<le> n \<Longrightarrow> takes (read_loop n val bits s) bs bits (val OR bits_val (take bits bs))"
proof (induction n arbitrary: val bits s bs)
  case 0
  then show ?case by (simp add: takes_def)
next
  case (Suc n)
  consider "bits = 0" | m where "bits = Suc m" "bs \<noteq> []" | m where "bits = Suc m" "bs = []" by (cases bits) auto
  then show ?case
  proof cases
    case 1
    then show ?thesis using Suc.prems by (simp add: takes_def)
  next
    case (2 m)
    let ?val = "\<lambda>k. val OR push_bit (bits - k) (bits_val (take k bs))"
    obtain k s' where k: "0 < k" "k \<le> bits" "k \<le> length bs" and w: "reading s' (drop k bs)"
      and e: "read_loop (Suc n) val bits s = read_loop n (?val k) (bits - k) s'"
      using read_round [OF Suc.prems(1) 2(2), of m n val] 2(1) by auto
    have ih: "takes (read_loop n (?val k) (bits - k) s') (drop k bs) (bits - k) (?val k OR bits_val (take (bits - k) (drop k bs)))"
      using w k Suc.prems(2) by (intro Suc.IH) auto
    show ?thesis
    proof (cases "bits \<le> length bs")
      case True
      have "take bits bs = take k bs @ take (bits - k) (drop k bs)" using k by (metis le_add_diff_inverse take_add)
      moreover have "length (take (bits - k) (drop k bs)) = bits - k" using True k by simp
      ultimately have "bits_val (take bits bs) = push_bit (bits - k) (bits_val (take k bs)) OR (bits_val (take (bits - k) (drop k bs)) :: u32)"
        by (simp only: bits_val_append)
      then show ?thesis using ih True k unfolding e by (auto simp: takes_def or.assoc split: if_splits)
    next
      case False
      then show ?thesis using ih k unfolding e by (auto simp: takes_def)
    qed
  next
    case (3 m)
    then obtain s' where "next_byte s = Some (CLR_E_OUT_OF_RANGE, s')" using next_byte_spec [OF Suc.prems(1)] by auto
    then show ?thesis using 3 by (simp add: takes_def)
  qed
qed

lemma ReadBits_takes: "reading s bs \<Longrightarrow> takes (ReadBits res bits s) bs bits (bits_val (take bits bs))"
  using read_loop_takes [of s bs bits bits 0] by (auto simp: ReadBits_def takes_def split: if_splits)

lemma ReadBits64_takes:
  assumes r: "reading s bs" and n: "bits \<le> 64"
  shows "takes (ReadBits64 res bits s) bs bits (bits_val (take bits bs))"
proof (cases "bits > 32")
  case False
  have "takes (ReadBits (ucast res) bits s) bs bits (bits_val (take bits bs))" using r by (rule ReadBits_takes)
  moreover have "ucast (bits_val (take bits bs) :: u32) = (bits_val (take bits bs) :: u64)" using False by (intro ucast_bits_val) simp_all
  ultimately show ?thesis using False by (auto simp: takes_def ReadBits64_def split: if_splits)
next
  case True
  note hi = ReadBits_takes [OF r, of "ucast (drop_bit 32 res)" "bits - 32"]
  show ?thesis
  proof (cases "bits - 32 \<le> length bs")
    case False
    then have "\<not> bits \<le> length bs" by simp
    then show ?thesis using True False hi by (auto simp: takes_def ReadBits64_def)
  next
    case enough: True
    then obtain s1 where s1: "ReadBits (ucast (drop_bit 32 res)) (bits - 32) s = Some (S_OK, bits_val (take (bits - 32) bs), s1)"
      and r1: "reading s1 (drop (bits - 32) bs)" using hi by (auto simp: takes_def)
    note lo = ReadBits_takes [OF r1, of "ucast res" 32]
    show ?thesis
    proof (cases "bits \<le> length bs")
      case False
      then have "\<not> 32 \<le> length (drop (bits - 32) bs)" using True by simp
      then obtain v s2 where "ReadBits (ucast res) 32 s1 = Some (CLR_E_OUT_OF_RANGE, v, s2)" using lo by (auto simp: takes_def)
      then show ?thesis using True s1 False by (simp add: takes_def ReadBits64_def)
    next
      case all: True
      have "take bits bs = take (bits - 32) bs @ take 32 (drop (bits - 32) bs)" using True by (metis le_add_diff_inverse2 less_imp_le_nat take_add)
      moreover have "length (take 32 (drop (bits - 32) bs)) = 32" using all True by simp
      ultimately have "bits_val (take bits bs) = push_bit 32 (bits_val (take (bits - 32) bs)) OR (bits_val (take 32 (drop (bits - 32) bs)) :: u64)"
        by (simp only: bits_val_append)
      moreover have "ucast (bits_val (take (bits - 32) bs) :: u32) = (bits_val (take (bits - 32) bs) :: u64)"
        using n by (intro ucast_bits_val) simp_all
      moreover have "ucast (bits_val (take 32 (drop (bits - 32) bs)) :: u32) = (bits_val (take 32 (drop (bits - 32) bs)) :: u64)"
        by (intro ucast_bits_val) simp_all
      moreover obtain s2 where "ReadBits (ucast res) 32 s1 = Some (S_OK, bits_val (take 32 (drop (bits - 32) bs)), s2)"
        "reading s2 (drop bits bs)" using lo all True by (auto simp: takes_def split: if_splits)
      ultimately show ?thesis using True all s1 by (simp add: takes_def ReadBits64_def)
    qed
  qed
qed

text \<open>What was written is read back.\<close>

lemma ReadBits_back:
  assumes "reading s (word_bits n v @ bs)"
  shows "\<exists>s'. ReadBits res n s = Some (S_OK, take_bit n v, s') \<and> reading s' bs"
  using ReadBits_takes [OF assms, of res n] by (simp add: takes_def bits_val_word_bits)

lemma ReadBits64_back:
  assumes "reading s (word_bits n v @ bs)" "n \<le> 64"
  shows "\<exists>s'. ReadBits64 res n s = Some (S_OK, take_bit n v, s') \<and> reading s' bs"
  using ReadBits64_takes [OF assms, of res] by (simp add: takes_def bits_val_word_bits)

lemma ReadArray_back:
  "reading s (bits_of bytes @ bs) \<Longrightarrow> \<exists>s'. ReadArray (length bytes) s = Some (S_OK, bytes, s') \<and> reading s' bs"
proof (induction bytes arbitrary: s)
  case Nil
  then show ?case by simp
next
  case (Cons b bytes)
  have "word_bits 8 (ucast b :: u32) = word_bits 8 b" by (rule word_bits_eqI) (simp add: bit_ucast_iff)
  then have "reading s (word_bits 8 (ucast b :: u32) @ bits_of bytes @ bs)" using Cons.prems by simp
  then obtain s1 where s1: "ReadBits 0 8 s = Some (S_OK, take_bit 8 (ucast b), s1)" "reading s1 (bits_of bytes @ bs)"
    using ReadBits_back by blast
  obtain s2 where "ReadArray (length bytes) s1 = Some (S_OK, bytes, s2)" "reading s2 bs" using Cons.IH [OF s1(2)] by blast
  moreover have "ucast (take_bit 8 (ucast b :: u32)) = b"
    by (rule bit_word_eqI) (simp add: bit_ucast_iff bit_take_bit_iff)
  ultimately show ?case using s1 by simp
qed

lemma reading_BitsAvailable:
  assumes "reading s bs" shows "BitsAvailable s = int (length bs)"
proof -
  have rd: "readable s" and p: "- 1 \<le> m_pos s" "m_pos s + 1 \<le> int (m_length (current s))" and a: "m_avail s \<le> 8" "0 < m_avail s \<longrightarrow> 0 \<le> m_pos s"
    using assms by (auto simp: reading_def)
  have d: "drop (m_current s) (m_buffers s) = current s # drop (Suc (m_current s)) (m_buffers s)"
    using rd by (simp add: readable_def Cons_nth_drop_Suc)
  have "int (length (concat (map used bl))) = sum_list (map (\<lambda>b. int (m_length b)) bl)" if "set bl \<subseteq> set (m_buffers s)" for bl
    using that by (induction bl) (auto simp: length_used [OF rd])
  then have rest: "int (length (concat (map used (drop (Suc (m_current s)) (m_buffers s))))) = sum_list (map (\<lambda>b. int (m_length b)) (drop (Suc (m_current s)) (m_buffers s)))"
    by (simp add: set_drop_subset)
  have "length bs = (8 * m_length (current s) - (8 * nat (m_pos s + 1) - m_avail s)) + 8 * length (concat (map used (drop (Suc (m_current s)) (m_buffers s))))"
    using assms length_used_current [OF rd] by (auto simp: reading_def upcoming_def)
  moreover have "int (8 * m_length (current s) - (8 * nat (m_pos s + 1) - m_avail s)) = 8 * int (m_length (current s)) - 8 * (m_pos s + 1) + int (m_avail s)"
    using p a by (cases "m_pos s = -1") (auto simp: of_nat_diff)
  ultimately show ?thesis using rest by (simp add: BitsAvailable_def d sum_list_const_mult)
qed

section \<open>Streams to read\<close>

lemma reading_start:
  assumes "m_buffers s \<noteq> []" "\<forall>b\<in>set (m_buffers s). m_length b \<le> length (buffer_bytes b)"
    and "m_current s = 0" "m_pos s = -1" "m_avail s = 0"
  shows "reading s (bits_of (concat (map used (m_buffers s))))"
  using assms by (cases "m_buffers s") (auto simp: reading_def upcoming_def readable_def)

lemma Rewind_reading:
  assumes "writing s bs" shows "reading (Rewind s) (bs @ replicate (m_avail s) False)"
proof -
  obtain pre cur where w: "writing_at pre cur s bs" using assms by (auto simp: writing_def)
  have "map used pre = map m_payload pre" using w by (auto simp: writing_at_def whole_def used_def)
  then have "concat (map used pre) = concat (map m_payload pre)" by (simp only:)
  moreover have "used cur = take (m_length cur) (m_payload cur)" using w by (simp add: writing_at_def whole_def used_def)
  ultimately have "bits_of (concat (map used (m_buffers (Rewind s)))) = bs @ replicate (m_avail s) False"
    using w by (simp add: writing_at_def Rewind_def)
  moreover have "reading (Rewind s) (bits_of (concat (map used (m_buffers (Rewind s)))))"
    using w by (intro reading_start) (auto simp: Rewind_def writing_at_def whole_def)
  ultimately show ?thesis by simp
qed

lemma Initialize_reading:
  assumes "ps \<noteq> []" shows "\<exists>s. Stream_Initialize (Some buf) (length buf) ps = (S_OK, s) \<and> reading s (bits_of buf)"
proof -
  obtain p ps' where ps: "ps = p # ps'" using assms by (cases ps) auto
  let ?s = "\<lparr>m_buffers = [\<lparr>m_data = Some buf, m_length = length buf, m_payload = p\<rparr>], m_current = 0, m_pos = -1, m_avail = 0, fresh = ps'\<rparr>"
  have "reading ?s (bits_of (concat (map used (m_buffers ?s))))" by (rule reading_start) auto
  then have "reading ?s (bits_of buf)" by (simp add: used_def)
  then show ?thesis using ps by (simp add: Stream_Initialize_def NewBuffer_def set_current_def)
qed

end
