(* ===== verification/MemoryStreamProps.thy ===== *)
theory MemoryStreamProps imports MemoryStreamRead begin

text \<open>
  Numbers of variable length over a stream, and the properties of a stream: fields of every kind that are
  written come back when the stream is rewound and when a stream is made for the copy of its bytes, and
  reading stays inside the bytes a stream was made for.
\<close>

section \<open>Numbers of variable length\<close>

definition writable :: "u32 \<Rightarrow> bool" where
  "writable v \<longleftrightarrow> v = 0xFFFFFFFF \<or> v < 0x3F000000"

definition number_bits :: "u32 \<Rightarrow> bool list" where
  "number_bits v =
     (if v = 0xFFFFFFFF \<or> v < 0x80 then word_bits 8 v
      else if v < 0x3F00 then word_bits 16 (v OR 0x8000) else word_bits 32 (v OR 0xC0000000))"

lemma WriteCompressedUnsigned_appends:
  "writing s bs \<Longrightarrow> writable v \<Longrightarrow> appends (WriteCompressedUnsigned v s) s bs (number_bits v)"
  using WriteBits_appends [of s bs] by (auto simp: WriteCompressedUnsigned_def number_bits_def writable_def)

lemma WriteCompressedUnsigned_refuses: "\<not> writable v \<Longrightarrow> WriteCompressedUnsigned v s = Some (CLR_E_OUT_OF_RANGE, s)"
  by (auto simp: WriteCompressedUnsigned_def writable_def word_less_nat_alt)

lemma high_bit:
  assumes v: "unat (v :: u32) < 2 ^ n" and i: "n \<le> i" shows "\<not> bit v i"
proof
  assume b: "bit v i"
  have "bit (unat v) i" using b bit_u32_less [OF b] by (simp add: bit_unsigned_iff)
  then have "bit (take_bit n (unat v)) i" using v by (simp add: take_bit_nat_eq_self)
  then show False using i by (simp add: bit_take_bit_iff)
qed

text \<open>The first byte of a number tells its length.\<close>

lemma tag_bits:
  "(0x80 :: u32) = push_bit 7 1" "(0xC0 :: u32) = push_bit 7 1 OR push_bit 6 1"
  "(0x8000 :: u32) = push_bit 15 1" "(0xC0000000 :: u32) = push_bit 31 1 OR push_bit 30 1"
  by (simp_all add: push_bit_eq_mult)

lemma bit_tags: "bit (0x80 :: u32) i \<longleftrightarrow> i = 7" "bit (0xC0 :: u32) i \<longleftrightarrow> i = 7 \<or> i = 6"
    "bit (0x8000 :: u32) i \<longleftrightarrow> i = 15" "bit (0xC0000000 :: u32) i \<longleftrightarrow> i = 31 \<or> i = 30"
  unfolding tag_bits by (auto simp only: bit_or_iff bit_push_bit_iff bit_1_iff) auto

lemma tag_masks:
  assumes b: "\<And>i. 6 \<le> i \<Longrightarrow> \<not> bit h i" and c: "\<And>i. bit (c :: u32) i \<longleftrightarrow> i = 7" and d: "\<And>i. bit (d :: u32) i \<longleftrightarrow> i = 7 \<or> i = 6"
  shows "(h OR c) AND d = c" "(h OR d) AND d = d" "(h OR c) AND NOT d = h" "(h OR d) AND NOT d = h"
  using b by (auto intro!: bit_word_eqI simp: bit_and_iff bit_or_iff bit_not_iff c d)

lemma first_byte:
  assumes "unat (h :: u32) < 63"
  shows "h OR 0x80 \<noteq> 0xFF" "h OR 0xC0 \<noteq> 0xFF" "(h OR 0x80) AND 0xC0 = 0x80" "(h OR 0xC0) AND 0xC0 = 0xC0"
    "(h OR 0x80) AND NOT 0xC0 = h" "(h OR 0xC0) AND NOT 0xC0 = h"
proof -
  have b: "\<not> bit h i" if "6 \<le> i" for i using high_bit [of h 6 i] that assms by simp
  have t: "take_bit 6 h = h" using b by (intro bit_word_eqI) (metis bit_take_bit_iff not_le)
  show "h OR 0x80 \<noteq> 0xFF"
  proof
    assume "h OR 0x80 = 0xFF"
    then have "take_bit 6 (h OR 0x80) = take_bit 6 0xFF" by simp
    then have "h = 63" using t by (simp add: take_bit_or)
    then show False using assms by simp
  qed
  show "h OR 0xC0 \<noteq> 0xFF"
  proof
    assume "h OR 0xC0 = 0xFF"
    then have "take_bit 6 (h OR 0xC0) = take_bit 6 0xFF" by simp
    then have "h = 63" using t by (simp add: take_bit_or)
    then show False using assms by simp
  qed
  show "(h OR 0x80) AND 0xC0 = 0x80" "(h OR 0xC0) AND 0xC0 = 0xC0" "(h OR 0x80) AND NOT 0xC0 = h" "(h OR 0xC0) AND NOT 0xC0 = h"
    by (rule tag_masks [OF b bit_tags(1,2)]; assumption)+
qed

lemma short_byte:
  assumes "unat (v :: u32) < 128" shows "v \<noteq> 0xFF" "v AND 0xC0 \<noteq> 0x80" "v AND 0xC0 \<noteq> 0xC0"
proof -
  have b: "\<not> bit v 7" using high_bit [of v 7 7] assms by simp
  show "v \<noteq> 0xFF" using assms by auto
  have "\<not> bit (v AND c) 7" for c using b by (simp add: bit_and_iff)
  moreover have "bit (0x80 :: u32) 7" "bit (0xC0 :: u32) 7" by (simp_all only: bit_tags) simp_all
  ultimately show "v AND 0xC0 \<noteq> 0x80" "v AND 0xC0 \<noteq> 0xC0" by metis+
qed

lemma number_split:
  assumes c: "\<And>i. bit (c :: u32) i \<longleftrightarrow> p \<le> i \<and> bit d (i - p)" and d: "\<And>i. bit (d :: u32) i \<Longrightarrow> i < 8"
    and v: "\<And>i. p + 6 \<le> i \<Longrightarrow> \<not> bit (v :: u32) i"
  shows "take_bit 8 (drop_bit p (v OR c)) = drop_bit p v OR d" "push_bit p (drop_bit p v) OR take_bit p (v OR c) = v"
proof -
  show "take_bit 8 (drop_bit p (v OR c)) = drop_bit p v OR d"
  proof (rule bit_word_eqI)
    fix i
    have "bit v (p + i) \<Longrightarrow> i < 8" using v [of "p + i"] by (cases "6 \<le> i") auto
    then show "bit (take_bit 8 (drop_bit p (v OR c))) i = bit (drop_bit p v OR d) i"
      using d [of i] by (auto simp: bit_take_bit_iff bit_drop_bit_eq bit_or_iff c)
  qed
  show "push_bit p (drop_bit p v) OR take_bit p (v OR c) = v"
    by (rule bit_word_eqI) (auto simp: bit_take_bit_iff bit_drop_bit_eq bit_or_iff bit_push_bit_iff c not_le)
qed

lemma ReadCompressed_long:
  assumes r: "reading s (word_bits (8 + p) (v OR c) @ bs)" and p: "p = 8 \<and> d = (0x80 :: u32) \<or> p = 24 \<and> d = 0xC0"
    and c: "\<And>i. bit (c :: u32) i \<longleftrightarrow> p \<le> i \<and> bit d (i - p)" and v: "\<And>i. p + 6 \<le> i \<Longrightarrow> \<not> bit (v :: u32) i"
    and h: "unat (drop_bit p v) < 63"
  shows "\<exists>s'. ReadCompressedUnsigned res s = Some (S_OK, v, s') \<and> reading s' bs"
proof -
  have d: "bit d i \<Longrightarrow> i < 8" for i using p by (auto simp only: bit_tags)
  note split = number_split [OF c d v]
  have "reading s (word_bits 8 (drop_bit p (v OR c)) @ word_bits p (v OR c) @ bs)" using r by (simp add: word_bits_split)
  then obtain s1 where s1: "ReadBits res 8 s = Some (S_OK, drop_bit p v OR d, s1)" and r1: "reading s1 (word_bits p (v OR c) @ bs)"
    using ReadBits_back split(1) by metis
  obtain s2 where s2: "ReadBits 0 p s1 = Some (S_OK, take_bit p (v OR c), s2)" "reading s2 bs" using ReadBits_back [OF r1] by blast
  note byte = first_byte [OF h]
  show ?thesis using p
  proof
    assume p: "p = 8 \<and> d = 0x80"
    then have "ReadCompressedUnsigned res s = Some (S_OK, push_bit p (drop_bit p v) OR take_bit p (v OR c), s2)"
      using s1 s2 byte by (simp add: ReadCompressedUnsigned_def Let_def)
    then show ?thesis using s2 split(2) by simp
  next
    assume p: "p = 24 \<and> d = 0xC0"
    then have "ReadCompressedUnsigned res s = Some (S_OK, push_bit p (drop_bit p v) OR take_bit p (v OR c), s2)"
      using s1 s2 byte by (simp add: ReadCompressedUnsigned_def Let_def)
    then show ?thesis using s2 split(2) by simp
  qed
qed

lemma ReadCompressed_back:
  assumes r: "reading s (number_bits v @ bs)" and w: "writable v"
  shows "\<exists>s'. ReadCompressedUnsigned res s = Some (S_OK, v, s') \<and> reading s' bs"
proof -
  consider "v = 0xFFFFFFFF" | "v \<noteq> 0xFFFFFFFF" "unat v < 128" | "v \<noteq> 0xFFFFFFFF" "\<not> unat v < 128" "unat v < 0x3F00"
    | "v \<noteq> 0xFFFFFFFF" "\<not> unat v < 0x3F00" "unat v < 0x3F000000"
    using w by (auto simp: writable_def word_less_nat_alt)
  then show ?thesis
  proof cases
    case 1
    then have "reading s (word_bits 8 v @ bs)" using r by (simp add: number_bits_def)
    then obtain s1 where "ReadBits res 8 s = Some (S_OK, take_bit 8 v, s1)" "reading s1 bs" using ReadBits_back by blast
    moreover have "take_bit 8 v = 0xFF" using 1 by simp
    ultimately show ?thesis using 1 by (simp add: ReadCompressedUnsigned_def)
  next
    case 2
    then have "reading s (word_bits 8 v @ bs)" using r by (simp add: number_bits_def word_less_nat_alt)
    then obtain s1 where "ReadBits res 8 s = Some (S_OK, take_bit 8 v, s1)" "reading s1 bs" using ReadBits_back by blast
    moreover have "\<not> bit v i" if "8 \<le> i" for i using high_bit [of v 7 i] 2 that by simp
    then have "take_bit 8 v = v" by (intro bit_word_eqI) (metis bit_take_bit_iff not_le)
    ultimately show ?thesis using short_byte [OF 2(2)] by (simp add: ReadCompressedUnsigned_def)
  next
    case 3
    then have r: "reading s (word_bits (8 + 8) (v OR 0x8000) @ bs)" using r by (simp add: number_bits_def word_less_nat_alt)
    have v: "\<not> bit v i" if "8 + 6 \<le> i" for i using high_bit [of v 14 i] 3 that by simp
    have h: "unat (drop_bit 8 v) < 63" using 3 by (subst unat_drop_bit_eq, subst drop_bit_eq_div) (simp add: less_mult_imp_div_less)
    have c: "bit (0x8000 :: u32) i \<longleftrightarrow> 8 \<le> i \<and> bit (0x80 :: u32) (i - 8)" for i by (auto simp only: bit_tags)
    show ?thesis by (rule ReadCompressed_long [OF r _ c v h]) simp_all
  next
    case 4
    then have r: "reading s (word_bits (8 + 24) (v OR 0xC0000000) @ bs)" using r by (simp add: number_bits_def word_less_nat_alt)
    have v: "\<not> bit v i" if "24 + 6 \<le> i" for i using high_bit [of v 30 i] 4 that by simp
    have h: "unat (drop_bit 24 v) < 63" using 4 by (subst unat_drop_bit_eq, subst drop_bit_eq_div) (simp add: less_mult_imp_div_less)
    have c: "bit (0xC0000000 :: u32) i \<longleftrightarrow> 24 \<le> i \<and> bit (0xC0 :: u32) (i - 24)" for i by (auto simp only: bit_tags)
    show ?thesis by (rule ReadCompressed_long [OF r _ c v h]) simp_all
  qed
qed

section \<open>Fields of every kind\<close>

datatype field = Bits u32 nat | Bits64 u64 nat | Number u32 | Bytes "u8 list"

fun write_field :: "field \<Rightarrow> MemoryStream \<Rightarrow> (HR \<times> MemoryStream) option" where
  "write_field (Bits v n) s = WriteBits v n s"
| "write_field (Bits64 v n) s = WriteBits64 v n s"
| "write_field (Number v) s = WriteCompressedUnsigned v s"
| "write_field (Bytes bytes) s = WriteArray bytes s"

fun write_fields :: "field list \<Rightarrow> MemoryStream \<Rightarrow> (HR \<times> MemoryStream) option" where
  "write_fields [] s = Some (S_OK, s)"
| "write_fields (f # fs) s =
     (case write_field f s of None \<Rightarrow> None | Some (hr, s) \<Rightarrow> if hr \<noteq> S_OK then Some (hr, s) else write_fields fs s)"

text \<open>A field is read into a variable that may hold anything; only the shape of the field is used.\<close>

fun read_field :: "field \<Rightarrow> MemoryStream \<Rightarrow> (HR \<times> field \<times> MemoryStream) option" where
  "read_field (Bits v n) s = map_option (\<lambda>(hr, v, s). (hr, Bits v n, s)) (ReadBits 0 n s)"
| "read_field (Bits64 v n) s = map_option (\<lambda>(hr, v, s). (hr, Bits64 v n, s)) (ReadBits64 0 n s)"
| "read_field (Number v) s = map_option (\<lambda>(hr, v, s). (hr, Number v, s)) (ReadCompressedUnsigned 0 s)"
| "read_field (Bytes bytes) s = map_option (\<lambda>(hr, bytes, s). (hr, Bytes bytes, s)) (ReadArray (length bytes) s)"

fun read_fields :: "field list \<Rightarrow> MemoryStream \<Rightarrow> (HR \<times> field list \<times> MemoryStream) option" where
  "read_fields [] s = Some (S_OK, [], s)"
| "read_fields (f # fs) s =
     (case read_field f s of None \<Rightarrow> None
      | Some (hr, f, s) \<Rightarrow> if hr \<noteq> S_OK then Some (hr, [], s) else map_option (\<lambda>(hr, fs, s). (hr, f # fs, s)) (read_fields fs s))"

fun field_ok :: "field \<Rightarrow> bool" where
  "field_ok (Bits v n) = (n \<le> 32 \<and> take_bit n v = v)"
| "field_ok (Bits64 v n) = (n \<le> 64 \<and> take_bit n v = v)"
| "field_ok (Number v) = writable v"
| "field_ok (Bytes bytes) = True"

fun field_bits :: "field \<Rightarrow> bool list" where
  "field_bits (Bits v n) = word_bits n v"
| "field_bits (Bits64 v n) = word_bits n v"
| "field_bits (Number v) = number_bits v"
| "field_bits (Bytes bytes) = bits_of bytes"

abbreviation fields_bits :: "field list \<Rightarrow> bool list" where
  "fields_bits fs \<equiv> concat (map field_bits fs)"

lemma write_field_appends: "writing s bs \<Longrightarrow> field_ok f \<Longrightarrow> appends (write_field f s) s bs (field_bits f)"
  by (cases f) (simp_all add: WriteBits_appends WriteBits64_appends WriteCompressedUnsigned_appends WriteArray_appends)

lemma write_fields_appends:
  "writing s bs \<Longrightarrow> \<forall>f\<in>set fs. field_ok f \<Longrightarrow> appends (write_fields fs s) s bs (fields_bits fs)"
proof (induction fs arbitrary: s bs)
  case Nil
  then show ?case by (simp add: appends_Nil)
next
  case (Cons f fs)
  then show ?case using appends_then [OF write_field_appends [OF Cons.prems(1), of f] Cons.IH] by simp
qed

lemma read_field_back:
  assumes "reading s (field_bits f @ bs)" "field_ok f"
  shows "\<exists>s'. read_field f s = Some (S_OK, f, s') \<and> reading s' bs"
proof (cases f)
  case (Bits v n)
  then show ?thesis using ReadBits_back [of s n v bs 0] assms by auto
next
  case (Bits64 v n)
  then show ?thesis using ReadBits64_back [of s n v bs 0] assms by auto
next
  case (Number v)
  then show ?thesis using ReadCompressed_back [of s v bs 0] assms by auto
next
  case (Bytes bytes)
  then show ?thesis using ReadArray_back [of s bytes bs] assms by auto
qed

lemma read_fields_back:
  "reading s (fields_bits fs @ bs) \<Longrightarrow> \<forall>f\<in>set fs. field_ok f \<Longrightarrow> \<exists>s'. read_fields fs s = Some (S_OK, fs, s') \<and> reading s' bs"
proof (induction fs arbitrary: s)
  case Nil
  then show ?case by simp
next
  case (Cons f fs)
  have "reading s (field_bits f @ fields_bits fs @ bs)" using Cons.prems(1) by simp
  then obtain s1 where s1: "read_field f s = Some (S_OK, f, s1)" "reading s1 (fields_bits fs @ bs)"
    using read_field_back Cons.prems(2) by fastforce
  obtain s2 where "read_fields fs s1 = Some (S_OK, fs, s2)" "reading s2 bs" using Cons.IH [OF s1(2)] Cons.prems(2) by auto
  then show ?case using s1(1) by simp
qed

section \<open>Properties\<close>

text \<open>
  C39: fields that are written to a new stream (numbers of any width up to 32 and 64 bits, numbers of
  variable length, arrays of bytes, at any alignment, over as many buffers as they need) are all
  accepted exactly when the buffers that can be had hold their bits; \<open>BitsWritten\<close> then counts them,
  reading the rewound stream gives every field back, and so does reading a stream that is made for the
  bytes that \<open>ToArray\<close> copies.
\<close>

theorem stream_roundtrip:
  assumes ps: "ps \<noteq> []" "\<forall>p\<in>set ps. length p = c_PayloadSize" and ok: "\<forall>f\<in>set fs. field_ok f" and qs: "qs \<noteq> []"
  shows "\<exists>s. Stream_Initialize None 0 ps = (S_OK, s) \<and>
    (if length (fields_bits fs) \<le> 8 * c_PayloadSize * length ps then
       \<exists>w bytes r. write_fields fs s = Some (S_OK, w) \<and> BitsWritten w = int (length (fields_bits fs)) \<and>
         (\<exists>r. read_fields fs (Rewind w) = Some (S_OK, fs, r)) \<and>
         ToArray w = Some bytes \<and> Stream_Initialize (Some bytes) (length bytes) qs = (S_OK, r) \<and>
         (\<exists>r'. read_fields fs r = Some (S_OK, fs, r'))
     else \<exists>w. write_fields fs s = Some (CLR_E_OUT_OF_MEMORY, w))"
proof -
  obtain s where s: "Stream_Initialize None 0 ps = (S_OK, s)" "writing s []" "capacity s = 8 * c_PayloadSize * length ps"
    using Initialize_writing [OF ps(2,1)] by blast
  note a = write_fields_appends [OF s(2) ok]
  show ?thesis
  proof (cases "length (fields_bits fs) \<le> 8 * c_PayloadSize * length ps")
    case False
    then show ?thesis using a s by (auto simp: appends_def)
  next
    case True
    then obtain w where w: "write_fields fs s = Some (S_OK, w)" "writing w (fields_bits fs)" using a s(3) by (auto simp: appends_def)
    obtain r1 where r1: "read_fields fs (Rewind w) = Some (S_OK, fs, r1)" using read_fields_back [OF Rewind_reading [OF w(2)] ok] by blast
    obtain bytes where b: "ToArray w = Some bytes" "bits_of bytes = fields_bits fs @ replicate (m_avail w) False" using writing_ToArray [OF w(2)] by blast
    obtain r where r: "Stream_Initialize (Some bytes) (length bytes) qs = (S_OK, r)" "reading r (fields_bits fs @ replicate (m_avail w) False)"
      using Initialize_reading [OF qs] b(2) by metis
    obtain r2 where r2: "read_fields fs r = Some (S_OK, fs, r2)" "reading r2 (replicate (m_avail w) False)" using read_fields_back [OF r(2) ok] by blast
    show ?thesis using True s(1) w(1) writing_BitsWritten [OF w(2)] r1 b(1) r(1) r2(1) by auto
  qed
qed

lemma stream_roundtrip_witness:
  "\<exists>s. Stream_Initialize None 0 (replicate 2 (replicate c_PayloadSize 0xFF)) = (S_OK, s) \<and>
     (\<exists>w. write_fields [Bits 5 3, Number 0x3E00, Bits64 0x123456789 40, Bytes [1, 2], Number 0xFFFFFFFF] s = Some (S_OK, w))"
  using stream_roundtrip [of "replicate 2 (replicate c_PayloadSize 0xFF)" "[Bits 5 3, Number 0x3E00, Bits64 0x123456789 40, Bytes [1, 2], Number 0xFFFFFFFF]" "[[]]"]
  by (auto simp: c_PayloadSize_def writable_def number_bits_def take_bit_eq_mod)

text \<open>Numbers that are read one after the other.\<close>

fun read_numbers :: "nat list \<Rightarrow> MemoryStream \<Rightarrow> (HR \<times> u64 list \<times> MemoryStream) option" where
  "read_numbers [] s = Some (S_OK, [], s)"
| "read_numbers (n # ns) s =
     (case ReadBits64 0 n s of None \<Rightarrow> None
      | Some (hr, v, s) \<Rightarrow> if hr \<noteq> S_OK then Some (hr, [], s) else map_option (\<lambda>(hr, vs, s). (hr, v # vs, s)) (read_numbers ns s))"

fun cut :: "nat list \<Rightarrow> bool list \<Rightarrow> u64 list" where
  "cut [] bs = []"
| "cut (n # ns) bs = bits_val (take n bs) # cut ns (drop n bs)"

lemma read_numbers_spec:
  "reading s bs \<Longrightarrow> \<forall>n\<in>set ns. n \<le> 64 \<Longrightarrow>
   if sum_list ns \<le> length bs then \<exists>s'. read_numbers ns s = Some (S_OK, cut ns bs, s') \<and> reading s' (drop (sum_list ns) bs)
   else \<exists>vs s'. read_numbers ns s = Some (CLR_E_OUT_OF_RANGE, vs, s')"
proof (induction ns arbitrary: s bs)
  case Nil
  then show ?case by simp
next
  case (Cons n ns)
  have t: "takes (ReadBits64 0 n s) bs n (bits_val (take n bs))" using ReadBits64_takes Cons.prems by simp
  show ?case
  proof (cases "n \<le> length bs")
    case False
    then show ?thesis using t by (auto simp: takes_def)
  next
    case True
    then obtain s1 where s1: "ReadBits64 0 n s = Some (S_OK, bits_val (take n bs), s1)" "reading s1 (drop n bs)" using t by (auto simp: takes_def)
    show ?thesis using Cons.IH [OF s1(2)] Cons.prems(2) True s1(1)
      by (cases "n + sum_list ns \<le> length bs") (auto simp: add.commute split: if_splits)
  qed
qed

text \<open>
  C40: a stream made for an array of bytes never reads outside of the array: numbers of any widths up to
  64 bits that are read one after the other are the bits of the array in order as long as there are
  enough, with \<open>BitsAvailable\<close> the ones left, and the first number that needs more is answered with
  CLR_E_OUT_OF_RANGE.
\<close>

theorem stream_read_in_bounds:
  assumes ps: "ps \<noteq> []" and ns: "\<forall>n\<in>set ns. n \<le> 64"
  shows "\<exists>s. Stream_Initialize (Some buf) (length buf) ps = (S_OK, s) \<and>
    (if sum_list ns \<le> 8 * length buf then
       \<exists>s'. read_numbers ns s = Some (S_OK, cut ns (bits_of buf), s') \<and> BitsAvailable s' = int (8 * length buf - sum_list ns)
     else \<exists>vs s'. read_numbers ns s = Some (CLR_E_OUT_OF_RANGE, vs, s'))"
proof -
  obtain s where s: "Stream_Initialize (Some buf) (length buf) ps = (S_OK, s)" "reading s (bits_of buf)" using Initialize_reading [OF ps] by blast
  show ?thesis using read_numbers_spec [OF s(2) ns] s(1) reading_BitsAvailable
    by (cases "sum_list ns \<le> 8 * length buf") fastforce+
qed

lemma stream_read_in_bounds_witness:
  "\<exists>s. Stream_Initialize (Some [0xAB, 0xCD]) 2 [[]] = (S_OK, s) \<and> (\<exists>vs s'. read_numbers [3, 9, 5] s = Some (CLR_E_OUT_OF_RANGE, vs, s'))"
  using stream_read_in_bounds [of "[[]]" "[3, 9, 5]" "[0xAB, 0xCD]"] by (simp del: read_numbers.simps add: numeral_2_eq_2)

text \<open>
  Once the end was reported, \<open>m_current\<close> is the node that ends the list and a byte counts as available, so
  another read looks for the data of a buffer in that node.
\<close>

lemma read_after_the_end:
  "case Stream_Initialize (Some []) 0 [[]] of (_, s) \<Rightarrow>
     (case ReadBits 0 8 s of Some (hr, _, s') \<Rightarrow> hr = CLR_E_OUT_OF_RANGE \<and> ReadBits 0 8 s' = None | None \<Rightarrow> False)"
  by code_simp

text \<open>\<open>ToArray\<close> copies the payload of the buffers, also when the stream was made for an array.\<close>

lemma ToArray_of_array_stream:
  "case Stream_Initialize (Some [1, 2]) 2 [replicate 8 (0xEE :: u8)] of (_, s) \<Rightarrow> ToArray s = Some [0xEE, 0xEE]"
  by code_simp

end
