(* ===== verification/ThreadLocks.thy ===== *)
theory ThreadLocks imports NetMF_Prelude begin

text \<open>
  The locks of managed threads: \<open>CLR_RT_HeapBlock_Lock\<close> and \<open>CLR_RT_HeapBlock_LockRequest\<close> of
  \<^verbatim>\<open>src/CLR/Core\<close> with the operations of the execution engine that find, take, give back and clean up locks
  (\<^verbatim>\<open>Execution.cpp\<close>, \<^verbatim>\<open>Thread.cpp\<close>). Locks, threads and subthreads are numbered by their addresses; a lock
  hangs in the list of the thread that owns it. An instance of a class has a pointer to its lock in its
  header; for other resources (arrays, strings, types) the locks of all threads are searched. \<open>grants\<close>
  are the answers of the event cache when a node is asked for, which it has when the list is at its end.
\<close>

datatype HR = S_OK | CLR_E_THREAD_WAITING | CLR_E_OUT_OF_MEMORY | CLR_E_LOCK_SYNCHRONIZATION_EXCEPTION

datatype Status = TH_S_Ready | TH_S_Waiting | TH_S_Terminated | TH_S_Unstarted

datatype Resource = Instance nat | Foreign nat

record Owner =
  m_owningSubThread :: nat
  m_recursion :: u32

record LockRequest =
  m_subthreadWaiting :: nat
  m_timeExpire :: int
  m_fForce :: bool

record Lock =
  m_owningThread :: nat
  m_resource :: Resource
  m_owners :: "Owner list"
  m_requests :: "LockRequest list"

record SubThread =
  s_owningThread :: nat
  s_lockRequestsCount :: u32

text \<open>The flags are those of the current frame of the thread; \<open>m_counter\<close> is \<open>GetExecutionCounter\<close>.\<close>

record Thread =
  m_locks :: "nat list"
  m_lockRequestsCount :: u32
  m_status :: Status
  m_suspended :: bool
  m_aborted :: bool
  m_counter :: int
  m_waitForEvents :: u32
  m_waitForEvents_Timeout :: int
  m_waitForObject :: "nat option"
  c_PendingSynchronize :: bool
  c_Synchronized :: bool
  c_PendingSynchronizeGlobally :: bool
  c_SynchronizedGlobally :: bool

record Engine =
  locks :: "nat \<Rightarrow> Lock"
  threads :: "nat \<Rightarrow> Thread"
  subThreads :: "nat \<Rightarrow> SubThread"
  objectLock :: "nat \<Rightarrow> nat option"
  m_threadsReady :: "nat list"
  m_threadsWaiting :: "nat list"
  grants :: "bool list"
  m_raisedEvents :: u32

definition TIMEOUT_INFINITE :: int where "TIMEOUT_INFINITE = 0x7FFFFFFFFFFFFFFF"

abbreviation upd_lock :: "nat \<Rightarrow> (Lock \<Rightarrow> Lock) \<Rightarrow> Engine \<Rightarrow> Engine" where
  "upd_lock l f e \<equiv> e\<lparr>locks := (locks e)(l := f (locks e l))\<rparr>"

abbreviation upd_thread :: "nat \<Rightarrow> (Thread \<Rightarrow> Thread) \<Rightarrow> Engine \<Rightarrow> Engine" where
  "upd_thread t f e \<equiv> e\<lparr>threads := (threads e)(t := f (threads e t))\<rparr>"

abbreviation upd_sub :: "nat \<Rightarrow> (SubThread \<Rightarrow> SubThread) \<Rightarrow> Engine \<Rightarrow> Engine" where
  "upd_sub s f e \<equiv> e\<lparr>subThreads := (subThreads e)(s := f (subThreads e s))\<rparr>"

abbreviation thread_of :: "Engine \<Rightarrow> nat \<Rightarrow> nat" where
  "thread_of e s \<equiv> s_owningThread (subThreads e s)"

definition extract_node :: "Engine \<Rightarrow> bool \<times> Engine" where
  "extract_node e = (case grants e of [] \<Rightarrow> (True, e) | g # gs \<Rightarrow> (g, e\<lparr>grants := gs\<rparr>))"

section \<open>Threads\<close>

fun insert_thread :: "(nat \<Rightarrow> int) \<Rightarrow> int \<Rightarrow> nat \<Rightarrow> nat list \<Rightarrow> nat list" where
  "insert_thread counter pri t [] = [t]"
| "insert_thread counter pri t (x # xs) = (if counter x < pri then t # x # xs else x # insert_thread counter pri t xs)"

definition unlink_thread :: "nat \<Rightarrow> Engine \<Rightarrow> Engine" where
  "unlink_thread t e = e\<lparr>m_threadsReady := removeAll t (m_threadsReady e), m_threadsWaiting := removeAll t (m_threadsWaiting e)\<rparr>"

definition InsertThreadRoundRobin :: "nat \<Rightarrow> Engine \<Rightarrow> Engine" where
  "InsertThreadRoundRobin t e0 =
     (let e = unlink_thread t e0;
          e = upd_thread t (\<lambda>th. th\<lparr>m_waitForEvents := 0, m_waitForEvents_Timeout := TIMEOUT_INFINITE, m_waitForObject := None\<rparr>) e
      in e\<lparr>m_threadsReady := insert_thread (\<lambda>x. m_counter (threads e x)) (m_counter (threads e t)) t (m_threadsReady e)\<rparr>)"

definition PutWaiting :: "nat \<Rightarrow> Engine \<Rightarrow> Engine" where
  "PutWaiting t e0 = (let e = unlink_thread t e0 in e\<lparr>m_threadsWaiting := m_threadsWaiting e @ [t]\<rparr>)"

text \<open>\<open>PutInProperList\<close> of a thread that is ready.\<close>

definition PutReady :: "nat \<Rightarrow> Engine \<Rightarrow> Engine" where
  "PutReady t e = (if \<not> m_suspended (threads e t) then InsertThreadRoundRobin t e else PutWaiting t e)"

definition Restart :: "nat \<Rightarrow> bool \<Rightarrow> Engine \<Rightarrow> Engine" where
  "Restart t fDeleteEvent e0 =
     (let e = PutReady t (upd_thread t (m_status_update (\<lambda>_. TH_S_Ready)) e0)
      in if fDeleteEvent then upd_thread t (\<lambda>th. th\<lparr>m_waitForEvents := 0, m_waitForEvents_Timeout := TIMEOUT_INFINITE\<rparr>) e else e)"

text \<open>The thread gets an exception with the flag.\<close>

definition Abort :: "nat \<Rightarrow> Engine \<Rightarrow> Engine" where
  "Abort t e =
     (if m_status (threads e t) \<noteq> TH_S_Terminated then Restart t True (upd_thread t (m_aborted_update (\<lambda>_. True)) e) else e)"

definition Sleep :: "nat \<Rightarrow> int \<Rightarrow> Engine \<Rightarrow> HR \<times> Engine" where
  "Sleep t timeExpire e =
     (CLR_E_THREAD_WAITING, upd_thread t (\<lambda>th. th\<lparr>m_waitForEvents_Timeout := timeExpire, m_status := TH_S_Waiting\<rparr>) e)"

text \<open>The answer has whether an event was there; \<open>now\<close> is the machine time.\<close>

definition WaitEvents :: "nat \<Rightarrow> int \<Rightarrow> u32 \<Rightarrow> int \<Rightarrow> Engine \<Rightarrow> HR \<times> bool \<times> Engine" where
  "WaitEvents t timeExpire events now e =
     (if m_raisedEvents e AND events \<noteq> 0 then (S_OK, True, e\<lparr>m_raisedEvents := m_raisedEvents e AND NOT events\<rparr>)
      else if now < timeExpire then
        (CLR_E_THREAD_WAITING, False,
         upd_thread t (\<lambda>th. th\<lparr>m_waitForEvents := events, m_waitForEvents_Timeout := timeExpire, m_status := TH_S_Waiting\<rparr>) e)
      else (S_OK, False, e))"

text \<open>
  The threads of a list that wait for one of the events. A thread that is restarted goes to another list
  or to the end of this one, with its events cleared, so that each is met once.
\<close>

fun SignalEvents_threads :: "nat list \<Rightarrow> u32 \<Rightarrow> Engine \<Rightarrow> Engine" where
  "SignalEvents_threads [] events e = e"
| "SignalEvents_threads (t # ts) events e =
     SignalEvents_threads ts events (if m_waitForEvents (threads e t) AND events \<noteq> 0 then Restart t True e else e)"

definition SignalEvents :: "u32 \<Rightarrow> Engine \<Rightarrow> Engine" where
  "SignalEvents events e0 =
     (let e = e0\<lparr>m_raisedEvents := m_raisedEvents e0 OR events\<rparr>;
          e = SignalEvents_threads (m_threadsReady e) events e
      in SignalEvents_threads (m_threadsWaiting e) events e)"

definition ChangeLockRequestCount :: "nat \<Rightarrow> int \<Rightarrow> Engine \<Rightarrow> bool \<times> Engine" where
  "ChangeLockRequestCount s diff e0 =
     (let t = thread_of e0 s;
          e = upd_sub s (s_lockRequestsCount_update (\<lambda>n. n + word_of_int diff)) e0;
          e = upd_thread t (m_lockRequestsCount_update (\<lambda>n. n + word_of_int diff)) e
      in if m_lockRequestsCount (threads e t) = 0 then (True, Restart t False e)
         else (False, upd_thread t (m_status_update (\<lambda>_. TH_S_Waiting)) e))"

section \<open>Finding and making locks\<close>

definition FindLockObject_threads :: "nat list \<Rightarrow> Resource \<Rightarrow> Engine \<Rightarrow> nat option" where
  "FindLockObject_threads ts r e = find (\<lambda>l. m_resource (locks e l) = r) (concat (map (\<lambda>t. m_locks (threads e t)) ts))"

definition FindLockObject :: "Resource \<Rightarrow> Engine \<Rightarrow> nat option" where
  "FindLockObject r e =
     (case r of
        Instance a \<Rightarrow> objectLock e a
      | Foreign _ \<Rightarrow>
          (case FindLockObject_threads (m_threadsReady e) r e of
             Some l \<Rightarrow> Some l
           | None \<Rightarrow> FindLockObject_threads (m_threadsWaiting e) r e))"

definition set_object_lock :: "Resource \<Rightarrow> nat option \<Rightarrow> Engine \<Rightarrow> Engine" where
  "set_object_lock r lo e = (case r of Instance a \<Rightarrow> e\<lparr>objectLock := (objectLock e)(a := lo)\<rparr> | Foreign _ \<Rightarrow> e)"

definition unlink_lock :: "nat \<Rightarrow> Engine \<Rightarrow> Engine" where
  "unlink_lock l e = e\<lparr>threads := (\<lambda>t. m_locks_update (removeAll l) (threads e t))\<rparr>"

definition link_lock :: "nat \<Rightarrow> nat \<Rightarrow> Engine \<Rightarrow> Engine" where
  "link_lock l t e = upd_thread t (m_locks_update (\<lambda>ls. ls @ [l])) (unlink_lock l e)"

text \<open>A lock in the node \<open>l\<close>.\<close>

definition Lock_CreateInstance :: "nat \<Rightarrow> nat \<Rightarrow> Resource \<Rightarrow> Engine \<Rightarrow> Engine" where
  "Lock_CreateInstance l t r e =
     link_lock l t (set_object_lock r (Some l)
       (upd_lock l (\<lambda>_. \<lparr>m_owningThread = t, m_resource = r, m_owners = [], m_requests = []\<rparr>) e))"

section \<open>Taking a lock\<close>

definition LockRequest_CreateInstance :: "nat \<Rightarrow> nat \<Rightarrow> int \<Rightarrow> bool \<Rightarrow> Engine \<Rightarrow> HR \<times> Engine" where
  "LockRequest_CreateInstance l s timeExpire fForce e =
     (case extract_node e of
        (False, e) \<Rightarrow> (CLR_E_OUT_OF_MEMORY, e)
      | (True, e) \<Rightarrow>
          (CLR_E_THREAD_WAITING,
           snd (ChangeLockRequestCount s 1
             (upd_lock l (m_requests_update (\<lambda>rs. rs @ [\<lparr>m_subthreadWaiting = s, m_timeExpire = timeExpire, m_fForce = fForce\<rparr>])) e))))"

text \<open>The first owner node of the subthread is counted up.\<close>

fun recurse :: "nat \<Rightarrow> Owner list \<Rightarrow> Owner list option" where
  "recurse s [] = None"
| "recurse s (w # ws) =
     (if m_owningSubThread w = s then Some (w\<lparr>m_recursion := m_recursion w + 1\<rparr> # ws) else map_option (Cons w) (recurse s ws))"

definition IncrementOwnership :: "nat \<Rightarrow> nat \<Rightarrow> int \<Rightarrow> bool \<Rightarrow> Engine \<Rightarrow> HR \<times> Engine" where
  "IncrementOwnership l s timeExpire fForce e =
     (if m_owningThread (locks e l) = thread_of e s then
        (case recurse s (m_owners (locks e l)) of
           Some ws \<Rightarrow> (S_OK, upd_lock l (m_owners_update (\<lambda>_. ws)) e)
         | None \<Rightarrow>
             (case extract_node e of
                (False, e) \<Rightarrow> (CLR_E_OUT_OF_MEMORY, e)
              | (True, e) \<Rightarrow> (S_OK, upd_lock l (m_owners_update (Cons \<lparr>m_owningSubThread = s, m_recursion = 1\<rparr>)) e)))
      else LockRequest_CreateInstance l s timeExpire fForce e)"

definition LockObject :: "Resource \<Rightarrow> nat \<Rightarrow> int \<Rightarrow> bool \<Rightarrow> nat option \<Rightarrow> Engine \<Rightarrow> HR \<times> Engine" where
  "LockObject r s timeExpire fForce node e =
     (case FindLockObject r e of
        Some l \<Rightarrow> IncrementOwnership l s timeExpire fForce e
      | None \<Rightarrow>
          (case node of
             None \<Rightarrow> (CLR_E_OUT_OF_MEMORY, e)
           | Some l \<Rightarrow> IncrementOwnership l s timeExpire fForce (Lock_CreateInstance l (thread_of e s) r e)))"

section \<open>Giving a lock back\<close>

text \<open>The flags of the frame of the new owner.\<close>

definition synchronized :: "Thread \<Rightarrow> Thread" where
  "synchronized th =
     (let th = (if c_PendingSynchronizeGlobally th then th\<lparr>c_PendingSynchronizeGlobally := False, c_SynchronizedGlobally := True\<rparr> else th)
      in if c_PendingSynchronize th then th\<lparr>c_PendingSynchronize := False, c_Synchronized := True\<rparr> else th)"

definition ChangeOwner :: "nat \<Rightarrow> Engine \<Rightarrow> Engine" where
  "ChangeOwner l e0 =
     (let e = upd_lock l (m_owners_update (\<lambda>_. [])) e0 in
      case m_requests (locks e l) of
        req # reqs \<Rightarrow>
          (let s = m_subthreadWaiting req;
               t = thread_of e s;
               e = upd_lock l (m_requests_update (\<lambda>_. reqs)) e;
               e = snd (ChangeLockRequestCount s (- 1) e);
               e = upd_lock l (m_owningThread_update (\<lambda>_. t)) (link_lock l t e);
               e = snd (IncrementOwnership l s TIMEOUT_INFINITE False e)
           in upd_thread t synchronized e)
      | [] \<Rightarrow> unlink_lock l (set_object_lock (m_resource (locks e l)) None e))"

fun release :: "nat \<Rightarrow> Owner list \<Rightarrow> Owner list option" where
  "release s [] = None"
| "release s (w # ws) =
     (if m_owningSubThread w = s then
        (let n = m_recursion w - 1 in Some (if n = 0 then ws else w\<lparr>m_recursion := n\<rparr> # ws))
      else map_option (Cons w) (release s ws))"

definition DecrementOwnership :: "nat option \<Rightarrow> nat \<Rightarrow> Engine \<Rightarrow> HR \<times> Engine" where
  "DecrementOwnership lock s e0 =
     (case lock of
        None \<Rightarrow> (CLR_E_LOCK_SYNCHRONIZATION_EXCEPTION, e0)
      | Some l \<Rightarrow>
          if m_owningThread (locks e0 l) = thread_of e0 s then
            (case release s (m_owners (locks e0 l)) of
               None \<Rightarrow> (CLR_E_LOCK_SYNCHRONIZATION_EXCEPTION, e0)
             | Some ws \<Rightarrow>
                 (let e = upd_lock l (m_owners_update (\<lambda>_. ws)) e0 in
                  (S_OK, if m_owners (locks e l) = [] then ChangeOwner l e else e)))
          else (CLR_E_LOCK_SYNCHRONIZATION_EXCEPTION, e0))"

definition UnlockObject :: "Resource \<Rightarrow> nat \<Rightarrow> Engine \<Rightarrow> HR \<times> Engine" where
  "UnlockObject r s e = DecrementOwnership (FindLockObject r e) s e"

section \<open>Cleaning up\<close>

definition DestroyOwner :: "nat \<Rightarrow> nat \<Rightarrow> Engine \<Rightarrow> Engine" where
  "DestroyOwner s l e0 =
     (let e = upd_lock l (m_owners_update (filter (\<lambda>w. m_owningSubThread w \<noteq> s))) e0
      in if m_owners (locks e l) = [] then ChangeOwner l e else e)"

text \<open>The requests of a lock, of the locks of a thread, of the threads of a list; True ends the walk.\<close>

fun delete_requests :: "nat option \<Rightarrow> nat option \<Rightarrow> nat \<Rightarrow> LockRequest list \<Rightarrow> Engine \<Rightarrow> bool \<times> Engine" where
  "delete_requests tt st l [] e = (False, e)"
| "delete_requests tt st l (req # reqs) e =
     (let s = m_subthreadWaiting req in
      if Some s = st \<or> Some (thread_of e s) = tt then
        (case ChangeLockRequestCount s (- 1) (upd_lock l (m_requests_update (remove1 req)) e) of
           (True, e) \<Rightarrow> (True, e)
         | (False, e) \<Rightarrow> delete_requests tt st l reqs e)
      else delete_requests tt st l reqs e)"

fun delete_in_locks :: "nat option \<Rightarrow> nat option \<Rightarrow> nat list \<Rightarrow> Engine \<Rightarrow> bool \<times> Engine" where
  "delete_in_locks tt st [] e = (False, e)"
| "delete_in_locks tt st (l # ls) e =
     (case delete_requests tt st l (m_requests (locks e l)) e of
        (True, e) \<Rightarrow> (True, e)
      | (False, e) \<Rightarrow> delete_in_locks tt st ls e)"

fun DeleteLockRequests_threads :: "nat option \<Rightarrow> nat option \<Rightarrow> nat list \<Rightarrow> Engine \<Rightarrow> bool \<times> Engine" where
  "DeleteLockRequests_threads tt st [] e = (False, e)"
| "DeleteLockRequests_threads tt st (t # ts) e =
     (case delete_in_locks tt st (m_locks (threads e t)) e of
        (True, e) \<Rightarrow> (True, e)
      | (False, e) \<Rightarrow> DeleteLockRequests_threads tt st ts e)"

definition DeleteLockRequests :: "nat option \<Rightarrow> nat option \<Rightarrow> Engine \<Rightarrow> Engine" where
  "DeleteLockRequests tt st e =
     (if (case tt of Some t \<Rightarrow> m_lockRequestsCount (threads e t) \<noteq> 0 | None \<Rightarrow> False) \<or>
         (case st of Some s \<Rightarrow> s_lockRequestsCount (subThreads e s) \<noteq> 0 | None \<Rightarrow> False) then
        (let e = snd (DeleteLockRequests_threads tt st (m_threadsReady e) e)
         in snd (DeleteLockRequests_threads tt st (m_threadsWaiting e) e))
      else e)"

text \<open>
  What \<open>CLR_RT_SubThread::DestroyInstance\<close> does to the locks for each subthread that it destroys. The list is
  that of the start of the loop: a lock that is handed to another subthread of the thread comes to its
  end.
\<close>

definition ReleaseSubThread :: "nat \<Rightarrow> nat \<Rightarrow> Engine \<Rightarrow> Engine" where
  "ReleaseSubThread t s e = DeleteLockRequests None (Some s) (fold (DestroyOwner s) (m_locks (threads e t)) e)"

end
