(* ===== verification/ThreadLocksInvariant.thy ===== *)
theory ThreadLocksInvariant imports ThreadLocks begin

text \<open>
  The invariants of the locks of threads: what each operation changes; that every lock hangs in the list of the
  thread that owns it and every resource has at most one (\<open>good\<close>); and that a thread waits exactly while it
  sleeps or one request of it hangs in a lock of another thread (\<open>waits\<close>), for all threads but those that
  were restarted while they had a request. All operations keep both.
\<close>

section \<open>What the parts change\<close>

definition listed :: "Engine \<Rightarrow> nat set" where
  "listed e = set (m_threadsReady e) \<union> set (m_threadsWaiting e)"

lemma listed_updates [simp]:
  "listed (e\<lparr>locks := a\<rparr>) = listed e" "listed (e\<lparr>threads := b\<rparr>) = listed e" "listed (e\<lparr>subThreads := c\<rparr>) = listed e"
  "listed (e\<lparr>objectLock := d\<rparr>) = listed e" "listed (e\<lparr>grants := g\<rparr>) = listed e" "listed (e\<lparr>m_raisedEvents := m\<rparr>) = listed e"
  by (simp_all add: listed_def)

lemma set_insert_thread [simp]: "set (insert_thread c p t ts) = insert t (set ts)"
  by (induction ts) auto

lemma Restart_parts [simp]:
  "locks (Restart t b e) = locks e" "subThreads (Restart t b e) = subThreads e" "objectLock (Restart t b e) = objectLock e"
  "grants (Restart t b e) = grants e" "m_locks (threads (Restart t b e) x) = m_locks (threads e x)"
  "m_lockRequestsCount (threads (Restart t b e) x) = m_lockRequestsCount (threads e x)"
  "m_status (threads (Restart t b e) x) = (if x = t then TH_S_Ready else m_status (threads e x))"
  "listed (Restart t b e) = insert t (listed e)"
  by (auto simp: Restart_def PutReady_def InsertThreadRoundRobin_def PutWaiting_def unlink_thread_def Let_def listed_def)

lemma ChangeLockRequestCount_parts [simp]:
  fixes s d e defines "e' \<equiv> snd (ChangeLockRequestCount s d e)"
  shows "locks e' = locks e" "objectLock e' = objectLock e" "grants e' = grants e" "thread_of e' x = thread_of e x"
    "m_locks (threads e' t) = m_locks (threads e t)"
    "m_lockRequestsCount (threads e' t) = m_lockRequestsCount (threads e t) + (if t = thread_of e s then word_of_int d else 0)"
    "s_lockRequestsCount (subThreads e' x) = s_lockRequestsCount (subThreads e x) + (if x = s then word_of_int d else 0)"
    "m_status (threads e' t) =
       (if t = thread_of e s then (if m_lockRequestsCount (threads e t) + word_of_int d = 0 then TH_S_Ready else TH_S_Waiting) else m_status (threads e t))"
    "thread_of e s \<in> listed e \<Longrightarrow> listed e' = listed e"
  unfolding e'_def by (auto simp: ChangeLockRequestCount_def Let_def)

lemma extract_node_parts:
  assumes "extract_node e = (b, e')"
  shows "locks e' = locks e" "subThreads e' = subThreads e" "objectLock e' = objectLock e" "threads e' = threads e"
    "listed e' = listed e" "set (grants e') \<subseteq> set (grants e)"
    "False \<notin> set (grants e) \<Longrightarrow> b"
  using assms by (auto simp: extract_node_def split: list.splits)

lemma set_object_lock_parts [simp]:
  "locks (set_object_lock r lo e) = locks e" "subThreads (set_object_lock r lo e) = subThreads e" "threads (set_object_lock r lo e) = threads e"
  "listed (set_object_lock r lo e) = listed e"
  "grants (set_object_lock r lo e) = grants e"
  "objectLock (set_object_lock r lo e) a = (if r = Instance a then lo else objectLock e a)"
  by (auto simp: set_object_lock_def split: Resource.splits)

lemma link_lock_parts [simp]:
  "locks (link_lock l t e) = locks e" "subThreads (link_lock l t e) = subThreads e" "objectLock (link_lock l t e) = objectLock e"
  "listed (link_lock l t e) = listed e" "grants (link_lock l t e) = grants e"
  "m_locks (threads (link_lock l t e) x) = removeAll l (m_locks (threads e x)) @ (if x = t then [l] else [])"
  "m_lockRequestsCount (threads (link_lock l t e) x) = m_lockRequestsCount (threads e x)"
  "m_status (threads (link_lock l t e) x) = m_status (threads e x)"
  by (simp_all add: link_lock_def unlink_lock_def)

lemma unlink_lock_parts [simp]:
  "locks (unlink_lock l e) = locks e" "subThreads (unlink_lock l e) = subThreads e" "objectLock (unlink_lock l e) = objectLock e"
  "listed (unlink_lock l e) = listed e" "grants (unlink_lock l e) = grants e"
  "m_locks (threads (unlink_lock l e) x) = removeAll l (m_locks (threads e x))"
  "m_lockRequestsCount (threads (unlink_lock l e) x) = m_lockRequestsCount (threads e x)"
  "m_status (threads (unlink_lock l e) x) = m_status (threads e x)"
  by (simp_all add: unlink_lock_def)

lemma synchronized_parts [simp]:
  "m_locks (synchronized th) = m_locks th" "m_lockRequestsCount (synchronized th) = m_lockRequestsCount th" "m_status (synchronized th) = m_status th"
  by (simp_all add: synchronized_def Let_def)

text \<open>A lock is handed to the first that waits for it.\<close>

lemma ChangeOwner_grant:
  assumes rq: "m_requests (locks e l) = req # reqs" and s: "s = m_subthreadWaiting req" and t: "t = thread_of e s"
    and ls: "t \<in> listed e"
  shows "\<exists>ws. locks (ChangeOwner l e) = (locks e)(l := \<lparr>m_owningThread = t, m_resource = m_resource (locks e l), m_owners = ws, m_requests = reqs\<rparr>) \<and>
      (if False \<in> set (grants e) then ws = [] \<or> ws = [\<lparr>m_owningSubThread = s, m_recursion = 1\<rparr>] else ws = [\<lparr>m_owningSubThread = s, m_recursion = 1\<rparr>])"
    "m_locks (threads (ChangeOwner l e) x) = removeAll l (m_locks (threads e x)) @ (if x = t then [l] else [])"
    "m_lockRequestsCount (threads (ChangeOwner l e) x) = m_lockRequestsCount (threads e x) - (if x = t then 1 else 0)"
    "s_lockRequestsCount (subThreads (ChangeOwner l e) y) = s_lockRequestsCount (subThreads e y) - (if y = s then 1 else 0)"
    "m_status (threads (ChangeOwner l e) x) = (if x = t then (if m_lockRequestsCount (threads e t) = 1 then TH_S_Ready else TH_S_Waiting) else m_status (threads e x))"
    "objectLock (ChangeOwner l e) = objectLock e" "thread_of (ChangeOwner l e) y = thread_of e y" "listed (ChangeOwner l e) = listed e"
    "set (grants (ChangeOwner l e)) \<subseteq> set (grants e)"
proof -
  define e1 where "e1 = upd_lock l (m_requests_update (\<lambda>_. reqs)) (upd_lock l (m_owners_update (\<lambda>_. [])) e)"
  define e2 where "e2 = upd_lock l (m_owningThread_update (\<lambda>_. t)) (link_lock l t (snd (ChangeLockRequestCount s (- 1) e1)))"
  obtain b e3 where x: "extract_node e2 = (b, e3)" by (cases "extract_node e2")
  note p = extract_node_parts [OF x]
  have t1: "thread_of e1 s = t" "t \<in> listed e1" using t ls by (simp_all add: e1_def)
  have o: "recurse s (m_owners (locks e2 l)) = None" by (simp add: e2_def e1_def)
  have c: "ChangeOwner l e = upd_thread t synchronized (snd (IncrementOwnership l s TIMEOUT_INFINITE False e2))"
    using rq s t by (simp add: ChangeOwner_def Let_def e1_def e2_def)
  have i: "snd (IncrementOwnership l s TIMEOUT_INFINITE False e2) =
      (if b then upd_lock l (m_owners_update (Cons \<lparr>m_owningSubThread = s, m_recursion = 1\<rparr>)) e3 else e3)"
    using o x t1(1) by (cases b) (simp_all add: IncrementOwnership_def e2_def)
  have l2: "locks e2 = (locks e)(l := \<lparr>m_owningThread = t, m_resource = m_resource (locks e l), m_owners = [], m_requests = reqs\<rparr>)"
    by (rule ext) (simp add: e2_def e1_def)
  have g: "grants e2 = grants e" by (simp add: e2_def e1_def)
  have e2: "m_locks (threads e2 x) = removeAll l (m_locks (threads e x)) @ (if x = t then [l] else [])"
    "m_lockRequestsCount (threads e2 x) = m_lockRequestsCount (threads e x) - (if x = t then 1 else 0)"
    "m_status (threads e2 x) = (if x = t then (if m_lockRequestsCount (threads e t) = 1 then TH_S_Ready else TH_S_Waiting) else m_status (threads e x))"
    "s_lockRequestsCount (subThreads e2 y) = s_lockRequestsCount (subThreads e y) - (if y = s then 1 else 0)"
    "objectLock e2 = objectLock e" "thread_of e2 y = thread_of e y" "listed e2 = listed e" for x y
    using t1 ChangeLockRequestCount_parts(9) [of e1 s "- 1"] by (simp_all add: e2_def) (auto simp: e1_def t)
  show "\<exists>ws. locks (ChangeOwner l e) = (locks e)(l := \<lparr>m_owningThread = t, m_resource = m_resource (locks e l), m_owners = ws, m_requests = reqs\<rparr>) \<and>
      (if False \<in> set (grants e) then ws = [] \<or> ws = [\<lparr>m_owningSubThread = s, m_recursion = 1\<rparr>] else ws = [\<lparr>m_owningSubThread = s, m_recursion = 1\<rparr>])"
    by (rule exI [of _ "if b then [\<lparr>m_owningSubThread = s, m_recursion = 1\<rparr>] else []"]) (use p(1,7) in \<open>auto simp: c i l2 g\<close>)
  show "m_locks (threads (ChangeOwner l e) x) = removeAll l (m_locks (threads e x)) @ (if x = t then [l] else [])"
    "m_lockRequestsCount (threads (ChangeOwner l e) x) = m_lockRequestsCount (threads e x) - (if x = t then 1 else 0)"
    "m_status (threads (ChangeOwner l e) x) = (if x = t then (if m_lockRequestsCount (threads e t) = 1 then TH_S_Ready else TH_S_Waiting) else m_status (threads e x))"
    "s_lockRequestsCount (subThreads (ChangeOwner l e) y) = s_lockRequestsCount (subThreads e y) - (if y = s then 1 else 0)"
    "objectLock (ChangeOwner l e) = objectLock e" "thread_of (ChangeOwner l e) y = thread_of e y"
    using p e2 by (auto simp: c i)
  show "listed (ChangeOwner l e) = listed e" using p e2 by (simp add: c i)
  show "set (grants (ChangeOwner l e)) \<subseteq> set (grants e)" using p(6) g by (auto simp: c i)
qed

text \<open>A lock nobody waits for is taken down.\<close>

lemma ChangeOwner_free:
  assumes rq: "m_requests (locks e l) = []"
  shows "ChangeOwner l e = unlink_lock l (set_object_lock (m_resource (locks e l)) None (upd_lock l (m_owners_update (\<lambda>_. [])) e))"
  using rq by (simp add: ChangeOwner_def Let_def)

section \<open>The invariant\<close>

definition live :: "Engine \<Rightarrow> nat \<Rightarrow> bool" where
  "live e l \<longleftrightarrow> (\<exists>t. l \<in> set (m_locks (threads e t)))"

text \<open>The requests of a thread for a lock.\<close>

definition pend :: "Engine \<Rightarrow> nat \<Rightarrow> nat \<Rightarrow> LockRequest list" where
  "pend e t l = filter (\<lambda>r. thread_of e (m_subthreadWaiting r) = t) (m_requests (locks e l))"

definition quiet :: "Engine \<Rightarrow> nat \<Rightarrow> bool" where
  "quiet e t \<longleftrightarrow> m_lockRequestsCount (threads e t) = 0 \<and>
     (\<forall>s. thread_of e s = t \<longrightarrow> s_lockRequestsCount (subThreads e s) = 0) \<and> (\<forall>l. live e l \<longrightarrow> pend e t l = [])"

definition blocked_on :: "Engine \<Rightarrow> nat \<Rightarrow> nat \<Rightarrow> LockRequest \<Rightarrow> bool" where
  "blocked_on e t l r \<longleftrightarrow> m_status (threads e t) = TH_S_Waiting \<and> m_lockRequestsCount (threads e t) = 1 \<and>
     live e l \<and> pend e t l = [r] \<and> m_owningThread (locks e l) \<noteq> t \<and>
     (\<forall>s. thread_of e s = t \<longrightarrow> s_lockRequestsCount (subThreads e s) = (if s = m_subthreadWaiting r then 1 else 0)) \<and>
     (\<forall>l'. live e l' \<and> l' \<noteq> l \<longrightarrow> pend e t l' = [])"

definition blocked :: "Engine \<Rightarrow> nat \<Rightarrow> bool" where
  "blocked e t \<longleftrightarrow> (\<exists>l r. blocked_on e t l r)"

definition owners_ok :: "Engine \<Rightarrow> nat \<Rightarrow> Owner list \<Rightarrow> bool" where
  "owners_ok e t ws \<longleftrightarrow> (\<forall>w\<in>set ws. thread_of e (m_owningSubThread w) = t) \<and> distinct (map m_owningSubThread ws)"

definition good :: "Engine \<Rightarrow> bool" where
  "good e \<longleftrightarrow>
     (\<forall>t l. l \<in> set (m_locks (threads e t)) \<longrightarrow> m_owningThread (locks e l) = t) \<and>
     (\<forall>t. distinct (m_locks (threads e t))) \<and>
     (\<forall>a l. objectLock e a = Some l \<longleftrightarrow> live e l \<and> m_resource (locks e l) = Instance a) \<and>
     (\<forall>l l'. live e l \<and> live e l' \<and> m_resource (locks e l) = m_resource (locks e l') \<longrightarrow> l = l') \<and>
     (\<forall>l. live e l \<longrightarrow> owners_ok e (m_owningThread (locks e l)) (m_owners (locks e l)) \<and> m_owningThread (locks e l) \<in> listed e) \<and>
     (\<forall>s. thread_of e s \<in> listed e)"

text \<open>A thread of \<open>Z\<close> sleeps; the others wait only for a lock. Nothing is said of the threads of \<open>X\<close>.\<close>

definition at_rest :: "nat set \<Rightarrow> Engine \<Rightarrow> nat \<Rightarrow> bool" where
  "at_rest Z e t \<longleftrightarrow>
     quiet e t \<and> m_status (threads e t) = (if t \<in> Z then TH_S_Waiting else TH_S_Ready) \<or> blocked e t \<and> t \<notin> Z"

definition waits :: "nat set \<Rightarrow> nat set \<Rightarrow> Engine \<Rightarrow> bool" where
  "waits X Z e \<longleftrightarrow> (\<forall>t. t \<notin> X \<longrightarrow> at_rest Z e t)"

abbreviation sound :: "nat set \<Rightarrow> nat set \<Rightarrow> Engine \<Rightarrow> bool" where
  "sound X Z e \<equiv> good e \<and> waits X Z e"

lemma waitsD: "waits X Z e \<Longrightarrow> t \<notin> X \<Longrightarrow> at_rest Z e t"
  by (simp add: waits_def)

lemma goodD:
  assumes "good e"
  shows "l \<in> set (m_locks (threads e t)) \<Longrightarrow> m_owningThread (locks e l) = t" "distinct (m_locks (threads e t))"
    "objectLock e a = Some l \<longleftrightarrow> live e l \<and> m_resource (locks e l) = Instance a"
    "live e l \<Longrightarrow> live e l' \<Longrightarrow> m_resource (locks e l) = m_resource (locks e l') \<Longrightarrow> l = l'"
    "live e l \<Longrightarrow> owners_ok e (m_owningThread (locks e l)) (m_owners (locks e l))" "live e l \<Longrightarrow> m_owningThread (locks e l) \<in> listed e"
    "thread_of e s \<in> listed e"
  using assms by (simp_all add: good_def)

lemma goodI:
  assumes "\<And>t l. l \<in> set (m_locks (threads e t)) \<Longrightarrow> m_owningThread (locks e l) = t" "\<And>t. distinct (m_locks (threads e t))"
    "\<And>a l. objectLock e a = Some l \<longleftrightarrow> live e l \<and> m_resource (locks e l) = Instance a"
    "\<And>l l'. live e l \<Longrightarrow> live e l' \<Longrightarrow> m_resource (locks e l) = m_resource (locks e l') \<Longrightarrow> l = l'"
    "\<And>l. live e l \<Longrightarrow> owners_ok e (m_owningThread (locks e l)) (m_owners (locks e l))" "\<And>l. live e l \<Longrightarrow> m_owningThread (locks e l) \<in> listed e"
    "\<And>s. thread_of e s \<in> listed e"
  shows "good e"
  using assms by (simp add: good_def)

lemma good_live: "good e \<Longrightarrow> live e l \<longleftrightarrow> l \<in> set (m_locks (threads e (m_owningThread (locks e l))))"
  using goodD(1) by (auto simp: live_def)

text \<open>Only what the invariants read matters.\<close>

lemma live_cong: "(\<And>t. m_locks (threads e' t) = m_locks (threads e t)) \<Longrightarrow> live e' l = live e l"
  by (simp add: live_def)

lemma good_frame:
  assumes g: "good e" and o: "objectLock e' = objectLock e" and i: "listed e \<subseteq> listed e'"
    and l: "\<And>l. m_owningThread (locks e' l) = m_owningThread (locks e l)" "\<And>l. m_resource (locks e' l) = m_resource (locks e l)"
    and s: "\<And>s. thread_of e' s = thread_of e s" and t: "\<And>t. m_locks (threads e' t) = m_locks (threads e t)"
    and w: "\<And>l. live e l \<Longrightarrow> owners_ok e (m_owningThread (locks e l)) (m_owners (locks e' l))"
  shows "good e'"
proof -
  have v: "live e' = live e" by (simp add: live_def fun_eq_iff t)
  have w': "live e l \<Longrightarrow> owners_ok e' (m_owningThread (locks e l)) (m_owners (locks e' l))" for l using w [of l] by (simp add: owners_ok_def s)
  show ?thesis using g w' i by (auto simp: good_def v l s t o)
qed

lemma good_owners:
  assumes g: "good e" and ws: "owners_ok e (m_owningThread (locks e l)) ws"
  shows "good (upd_lock l (m_owners_update (\<lambda>_. ws)) e)"
  by (rule good_frame [OF g]) (use g ws in \<open>auto simp: goodD(5)\<close>)

lemma good_grants: "good e \<Longrightarrow> extract_node e = (b, e') \<Longrightarrow> good e'"
  by (rule good_frame [of e]) (simp_all add: extract_node_parts goodD(5))

text \<open>What an operation does not touch of a thread.\<close>

lemma at_rest_other:
  assumes r: "at_rest Z e t" and st: "m_status (threads e' t) = m_status (threads e t)" "m_lockRequestsCount (threads e' t) = m_lockRequestsCount (threads e t)"
    and s: "\<And>s. thread_of e' s = thread_of e s" "\<And>s. thread_of e s = t \<Longrightarrow> s_lockRequestsCount (subThreads e' s) = s_lockRequestsCount (subThreads e s)"
    and p: "\<And>l. live e' l \<Longrightarrow> pend e' t l = (if live e l then pend e t l else [])"
    and o: "\<And>l. live e l \<Longrightarrow> pend e t l \<noteq> [] \<Longrightarrow> m_owningThread (locks e l) \<noteq> t \<Longrightarrow> live e' l \<and> m_owningThread (locks e' l) \<noteq> t"
  shows "at_rest Z e' t"
proof (cases "blocked e t \<and> t \<notin> Z")
  case True
  then obtain l r where b: "blocked_on e t l r" by (auto simp: blocked_def)
  then have "live e' l \<and> m_owningThread (locks e' l) \<noteq> t" using o [of l] by (simp add: blocked_on_def)
  then have "blocked_on e' t l r" using b p st s unfolding blocked_on_def by auto
  then show ?thesis using True by (auto simp: at_rest_def blocked_def)
next
  case False
  then have "quiet e t" "m_status (threads e t) = (if t \<in> Z then TH_S_Waiting else TH_S_Ready)" using r by (auto simp: at_rest_def)
  moreover from this have "quiet e' t" using p st s unfolding quiet_def by auto
  ultimately show ?thesis using st by (simp add: at_rest_def)
qed

lemma waits_frame:
  assumes w: "waits X Z e" and "\<And>t. t \<notin> X \<Longrightarrow> m_status (threads e' t) = m_status (threads e t)"
    "\<And>t. m_lockRequestsCount (threads e' t) = m_lockRequestsCount (threads e t)" "\<And>s. thread_of e' s = thread_of e s"
    "\<And>s. s_lockRequestsCount (subThreads e' s) = s_lockRequestsCount (subThreads e s)" "\<And>t. m_locks (threads e' t) = m_locks (threads e t)"
    "\<And>l. m_owningThread (locks e' l) = m_owningThread (locks e l)" "\<And>l. m_requests (locks e' l) = m_requests (locks e l)"
  shows "waits X Z e'"
proof -
  have v: "live e' = live e" by (simp add: live_def fun_eq_iff assms)
  have p: "pend e' = pend e" by (simp add: pend_def fun_eq_iff assms)
  show ?thesis unfolding waits_def
    by (intro allI impI at_rest_other [OF waitsD [OF w]]) (use assms in \<open>auto simp: v p\<close>)
qed

lemma waits_owners: "waits X Z e \<Longrightarrow> waits X Z (upd_lock l (m_owners_update f) e)"
  by (rule waits_frame [of X Z e]) simp_all

lemma waits_grants: "waits X Z e \<Longrightarrow> extract_node e = (b, e') \<Longrightarrow> waits X Z e'"
  by (rule waits_frame [of X Z e]) (simp_all add: extract_node_parts)

text \<open>The parts of a thread that are read, after it is put into a list.\<close>

lemma PutReady_parts [simp]:
  "locks (PutReady t e) = locks e" "subThreads (PutReady t e) = subThreads e" "objectLock (PutReady t e) = objectLock e"
  "m_locks (threads (PutReady t e) x) = m_locks (threads e x)" "m_lockRequestsCount (threads (PutReady t e) x) = m_lockRequestsCount (threads e x)"
  "m_status (threads (PutReady t e) x) = m_status (threads e x)" "listed (PutReady t e) = insert t (listed e)"
  by (auto simp: PutReady_def InsertThreadRoundRobin_def PutWaiting_def unlink_thread_def Let_def listed_def)

lemma PutWaiting_parts [simp]:
  "locks (PutWaiting t e) = locks e" "subThreads (PutWaiting t e) = subThreads e" "objectLock (PutWaiting t e) = objectLock e"
  "threads (PutWaiting t e) = threads e" "listed (PutWaiting t e) = insert t (listed e)"
  by (auto simp: PutWaiting_def unlink_thread_def Let_def listed_def)

lemma sound_PutWaiting: "sound X Z e \<Longrightarrow> sound X Z (PutWaiting t e)"
  by (auto intro!: good_frame [of e] waits_frame [of X Z e] goodD(5))

lemma sound_PutReady: "sound X Z e \<Longrightarrow> sound X Z (PutReady t e)"
  by (auto intro!: good_frame [of e] waits_frame [of X Z e] goodD(5))

section \<open>A lock is handed on or taken down\<close>

lemma at_rest_pend: "at_rest Z e t \<Longrightarrow> live e l \<Longrightarrow> r \<in> set (pend e t l) \<Longrightarrow> blocked_on e t l r \<and> t \<notin> Z"
  unfolding at_rest_def
proof (elim disjE conjE)
  assume "blocked e t" "t \<notin> Z" and l: "live e l" "r \<in> set (pend e t l)"
  then obtain l' r' where b: "blocked_on e t l' r'" by (auto simp: blocked_def)
  moreover have "l' = l" using b l by (cases "l' = l") (auto simp: blocked_on_def)
  ultimately show ?thesis using l \<open>t \<notin> Z\<close> by (auto simp: blocked_on_def)
qed (auto simp: quiet_def)

text \<open>The first that waits for a lock is blocked on it.\<close>

lemma first_blocked:
  assumes w: "waits X Z e" and l: "live e l" and rq: "m_requests (locks e l) = req # reqs" and t: "t = thread_of e (m_subthreadWaiting req)" and x: "t \<notin> X"
  shows "blocked_on e t l req" "t \<notin> Z" "filter (\<lambda>r. thread_of e (m_subthreadWaiting r) = t) reqs = []"
proof -
  have "req \<in> set (pend e t l)" using rq t by (simp add: pend_def)
  then show b: "blocked_on e t l req" and "t \<notin> Z" using at_rest_pend [OF waitsD [OF w x] l] by auto
  then show "filter (\<lambda>r. thread_of e (m_subthreadWaiting r) = t) reqs = []" using rq t by (simp add: blocked_on_def pend_def)
qed

lemma good_ChangeOwner_grant:
  assumes g: "good e" and l: "live e l" and rq: "m_requests (locks e l) = req # reqs"
  shows "good (ChangeOwner l e)"
proof -
  define s t e' where "s = m_subthreadWaiting req" and "t = thread_of e s" and "e' = ChangeOwner l e"
  note f = ChangeOwner_grant [OF rq s_def t_def goodD(7) [OF g, of s, folded t_def], folded e'_def]
  obtain ws where ws: "locks e' = (locks e)(l := \<lparr>m_owningThread = t, m_resource = m_resource (locks e l), m_owners = ws, m_requests = reqs\<rparr>)"
    "ws = [] \<or> ws = [\<lparr>m_owningSubThread = s, m_recursion = 1\<rparr>]" using f(1) by (auto split: if_splits)
  have res: "m_resource (locks e' x) = m_resource (locks e x)" for x by (simp add: ws(1))
  have own: "m_owningThread (locks e' x) = (if x = l then t else m_owningThread (locks e x))" for x by (simp add: ws(1))
  have v: "live e' x = live e x" for x using l by (auto simp: live_def f(2))
  have "good e'"
  proof (rule goodI)
    fix x y assume "y \<in> set (m_locks (threads e' x))"
    then show "m_owningThread (locks e' y) = x" using goodD(1) [OF g] by (auto simp: f(2) own split: if_splits)
  next
    fix x show "distinct (m_locks (threads e' x))" using goodD(2) [OF g] by (auto simp: f(2) distinct_removeAll)
  next
    fix a y show "objectLock e' a = Some y \<longleftrightarrow> live e' y \<and> m_resource (locks e' y) = Instance a" using goodD(3) [OF g] by (simp add: f(6) v res)
  next
    fix y z assume "live e' y" "live e' z" "m_resource (locks e' y) = m_resource (locks e' z)"
    then show "y = z" using goodD(4) [OF g] by (simp add: v res)
  next
    fix y assume y: "live e' y"
    show "owners_ok e' (m_owningThread (locks e' y)) (m_owners (locks e' y))"
      using goodD(5) [OF g, of y] y ws(2) by (auto simp: ws(1) owners_ok_def f(7) v t_def)
    show "m_owningThread (locks e' y) \<in> listed e'" using goodD(6,7) [OF g] y by (simp add: own f(8) v t_def)
  next
    fix y show "thread_of e' y \<in> listed e'" using goodD(7) [OF g] by (simp add: f(7,8))
  qed
  then show ?thesis by (simp add: e'_def)
qed

text \<open>The thread that gets the lock is ready and asks for nothing more; the others wait as before.\<close>

lemma waits_ChangeOwner_grant:
  assumes g: "good e" and w: "waits X Z e" and l: "live e l" and rq: "m_requests (locks e l) = req # reqs"
  shows "waits X Z (ChangeOwner l e)"
proof -
  define s t e' where "s = m_subthreadWaiting req" and "t = thread_of e s" and "e' = ChangeOwner l e"
  note f = ChangeOwner_grant [OF rq s_def t_def goodD(7) [OF g, of s, folded t_def], folded e'_def]
  obtain ws where ws: "locks e' = (locks e)(l := \<lparr>m_owningThread = t, m_resource = m_resource (locks e l), m_owners = ws, m_requests = reqs\<rparr>)"
    using f(1) by (auto split: if_splits)
  have v: "live e' x = live e x" for x using l by (auto simp: live_def f(2))
  have p: "pend e' x y = (if x = t \<and> y = l then filter (\<lambda>r. thread_of e (m_subthreadWaiting r) = t) reqs else pend e x y)" for x y
    using rq by (auto simp: pend_def ws f(7) t_def s_def)
  have "at_rest Z e' x" if x: "x \<notin> X" for x
  proof (cases "x = t")
    case True
    note b = first_blocked [OF w l rq, of t, folded s_def, OF t_def]
    have "quiet e' t" "m_status (threads e' t) = TH_S_Ready" "t \<notin> Z" using b x True by (auto simp: quiet_def blocked_on_def f v p s_def)
    then show ?thesis using True by (simp add: at_rest_def)
  next
    case False
    show ?thesis by (rule at_rest_other [OF waitsD [OF w x]]) (use False in \<open>auto simp: f v p ws t_def\<close>)
  qed
  then show ?thesis by (simp add: waits_def e'_def)
qed

lemma good_ChangeOwner_free:
  assumes g: "good e" and l: "live e l" and rq: "m_requests (locks e l) = []"
  shows "good (ChangeOwner l e)" "\<not> live (ChangeOwner l e) l"
proof -
  define e' where "e' = ChangeOwner l e"
  have e': "e' = unlink_lock l (set_object_lock (m_resource (locks e l)) None (upd_lock l (m_owners_update (\<lambda>_. [])) e))"
    using ChangeOwner_free [OF rq] by (simp add: e'_def)
  have m: "m_locks (threads e' x) = removeAll l (m_locks (threads e x))" "m_status (threads e' x) = m_status (threads e x)"
    "m_lockRequestsCount (threads e' x) = m_lockRequestsCount (threads e x)" "subThreads e' = subThreads e" "listed e' = listed e" for x by (simp_all add: e')
  have ob: "objectLock e' a = (if m_resource (locks e l) = Instance a then None else objectLock e a)" for a by (simp add: e')
  have k: "x \<noteq> l \<Longrightarrow> locks e' x = locks e x" "m_requests (locks e' x) = m_requests (locks e x)" for x by (simp_all add: e')
  have v: "live e' x \<longleftrightarrow> live e x \<and> x \<noteq> l" for x by (auto simp: live_def m)
  have "good e'"
  proof (rule goodI)
    fix x y assume "y \<in> set (m_locks (threads e' x))"
    then show "m_owningThread (locks e' y) = x" using goodD(1) [OF g] by (auto simp: m k)
  next
    fix x show "distinct (m_locks (threads e' x))" using goodD(2) [OF g] by (simp add: m distinct_removeAll)
  next
    fix a y
    have "m_resource (locks e l) = Instance a \<Longrightarrow> live e y \<Longrightarrow> m_resource (locks e y) = Instance a \<Longrightarrow> y = l" using goodD(4) [OF g, of y l] l by simp
    then show "objectLock e' a = Some y \<longleftrightarrow> live e' y \<and> m_resource (locks e' y) = Instance a" using goodD(3) [OF g, of a y] l
      by (cases "y = l") (auto simp: ob v k)
  next
    fix y z assume "live e' y" "live e' z" "m_resource (locks e' y) = m_resource (locks e' z)"
    then show "y = z" using goodD(4) [OF g] by (simp add: v k)
  next
    fix y assume y: "live e' y"
    then show "owners_ok e' (m_owningThread (locks e' y)) (m_owners (locks e' y))" "m_owningThread (locks e' y) \<in> listed e'"
      using goodD(5,6) [OF g, of y] by (simp_all add: v k m owners_ok_def)
  next
    fix y show "thread_of e' y \<in> listed e'" using goodD(7) [OF g] by (simp add: m)
  qed
  then show "good (ChangeOwner l e)" "\<not> live (ChangeOwner l e) l" using v by (simp_all add: e'_def)
qed

lemma waits_ChangeOwner_free:
  assumes w: "waits X Z e" and rq: "m_requests (locks e l) = []"
  shows "waits X Z (ChangeOwner l e)"
  unfolding waits_def ChangeOwner_free [OF rq]
  by (intro allI impI at_rest_other [OF waitsD [OF w]]) (use rq in \<open>auto simp: live_def pend_def fun_upd_def\<close>)

lemma good_ChangeOwner: "good e \<Longrightarrow> live e l \<Longrightarrow> good (ChangeOwner l e)"
  using good_ChangeOwner_grant good_ChangeOwner_free by (cases "m_requests (locks e l)") auto

lemma sound_ChangeOwner: "sound X Z e \<Longrightarrow> live e l \<Longrightarrow> sound X Z (ChangeOwner l e)"
  using good_ChangeOwner waits_ChangeOwner_grant waits_ChangeOwner_free by (cases "m_requests (locks e l)") auto

section \<open>A lock is found, made and asked for\<close>

text \<open>In a good state a resource has at most one lock, and that one is found.\<close>

lemma FindLockObject_iff:
  assumes g: "good e"
  shows "FindLockObject r e = Some l \<longleftrightarrow> live e l \<and> m_resource (locks e l) = r"
proof (cases r)
  case (Instance a)
  then show ?thesis using goodD(3) [OF g] by (simp add: FindLockObject_def)
next
  case (Foreign a)
  have f: "live e k \<and> m_resource (locks e k) = r" if "FindLockObject_threads ts r e = Some k" for ts k
  proof -
    from that obtain i where "i < length (concat (map (\<lambda>t. m_locks (threads e t)) ts))" "k = concat (map (\<lambda>t. m_locks (threads e t)) ts) ! i" "m_resource (locks e k) = r"
      unfolding FindLockObject_threads_def find_Some_iff by auto
    then have "k \<in> set (concat (map (\<lambda>t. m_locks (threads e t)) ts))" using nth_mem by metis
    then show ?thesis using \<open>m_resource (locks e k) = r\<close> by (auto simp: live_def)
  qed
  have n: "FindLockObject_threads ts r e = None \<Longrightarrow> live e k \<Longrightarrow> m_resource (locks e k) = r \<Longrightarrow> m_owningThread (locks e k) \<notin> set ts" for ts k
    unfolding FindLockObject_threads_def find_None_iff using good_live [OF g, of k] by auto
  show ?thesis
  proof
    assume "FindLockObject r e = Some l"
    then show "live e l \<and> m_resource (locks e l) = r" using f Foreign by (auto simp: FindLockObject_def split: option.splits)
  next
    assume l: "live e l \<and> m_resource (locks e l) = r"
    have i: "m_owningThread (locks e l) \<in> listed e" using goodD(6) [OF g] l by simp
    show "FindLockObject r e = Some l"
    proof (cases "FindLockObject r e")
      case None
      then show ?thesis using n l i Foreign by (auto simp: FindLockObject_def listed_def split: option.splits)
    next
      case (Some k)
      then have "live e k \<and> m_resource (locks e k) = r" using f Foreign by (auto simp: FindLockObject_def split: option.splits)
      then show ?thesis using goodD(4) [OF g, of k l] l Some by simp
    qed
  qed
qed

lemma good_Lock_CreateInstance:
  assumes g: "good e" and r: "FindLockObject r e = None" and l: "\<not> live e l" and t: "t \<in> listed e"
  shows "good (Lock_CreateInstance l t r e)" "live (Lock_CreateInstance l t r e) x \<longleftrightarrow> live e x \<or> x = l"
proof -
  define e' where "e' = Lock_CreateInstance l t r e"
  have l': "l \<notin> set (m_locks (threads e x))" for x using l by (simp add: live_def)
  have m: "m_locks (threads e' x) = m_locks (threads e x) @ (if x = t then [l] else [])" "m_status (threads e' x) = m_status (threads e x)"
    "m_lockRequestsCount (threads e' x) = m_lockRequestsCount (threads e x)" "subThreads e' = subThreads e" "listed e' = listed e" for x
    using l' [of x] by (simp_all add: e'_def Lock_CreateInstance_def removeAll_id)
  have ob: "objectLock e' a = (if r = Instance a then Some l else objectLock e a)" for a by (simp add: e'_def Lock_CreateInstance_def)
  have k: "locks e' = (locks e)(l := \<lparr>m_owningThread = t, m_resource = r, m_owners = [], m_requests = []\<rparr>)" by (simp add: e'_def Lock_CreateInstance_def)
  have v: "live e' x \<longleftrightarrow> live e x \<or> x = l" for x by (auto simp: live_def m)
  have nr: "live e x \<Longrightarrow> m_resource (locks e x) \<noteq> r" for x using FindLockObject_iff [OF g, of r x] r by auto
  have "good e'"
  proof (rule goodI)
    fix x y assume "y \<in> set (m_locks (threads e' x))"
    then show "m_owningThread (locks e' y) = x" using goodD(1) [OF g, of y x] l' by (auto simp: m k split: if_splits)
  next
    fix x show "distinct (m_locks (threads e' x))" using goodD(2) [OF g, of x] l' by (simp add: m)
  next
    fix a y show "objectLock e' a = Some y \<longleftrightarrow> live e' y \<and> m_resource (locks e' y) = Instance a"
      using goodD(3) [OF g, of a y] l nr by (auto simp: ob v k)
  next
    fix y z assume "live e' y" "live e' z" "m_resource (locks e' y) = m_resource (locks e' z)"
    then show "y = z" using goodD(4) [OF g, of y z] nr by (auto simp: v k split: if_splits)
  next
    fix y assume y: "live e' y"
    then show "owners_ok e' (m_owningThread (locks e' y)) (m_owners (locks e' y))" "m_owningThread (locks e' y) \<in> listed e'"
      using goodD(5,6) [OF g, of y] t by (auto simp: v k m owners_ok_def)
  next
    fix y show "thread_of e' y \<in> listed e'" using goodD(7) [OF g] by (simp add: m)
  qed
  then show "good (Lock_CreateInstance l t r e)" "live (Lock_CreateInstance l t r e) x \<longleftrightarrow> live e x \<or> x = l" using v by (simp_all add: e'_def)
qed

lemma sound_Lock_CreateInstance:
  assumes a: "sound X Z e" and r: "FindLockObject r e = None" and l: "\<not> live e l" and t: "t \<in> listed e"
  shows "sound X Z (Lock_CreateInstance l t r e)"
proof -
  have g: "good e" and w: "waits X Z e" using a by auto
  note c = good_Lock_CreateInstance [OF g r l t]
  have k: "locks (Lock_CreateInstance l t r e) = (locks e)(l := \<lparr>m_owningThread = t, m_resource = r, m_owners = [], m_requests = []\<rparr>)"
    "subThreads (Lock_CreateInstance l t r e) = subThreads e" by (simp_all add: Lock_CreateInstance_def)
  have m: "m_status (threads (Lock_CreateInstance l t r e) x) = m_status (threads e x)"
    "m_lockRequestsCount (threads (Lock_CreateInstance l t r e) x) = m_lockRequestsCount (threads e x)" for x by (simp_all add: Lock_CreateInstance_def)
  have p: "pend (Lock_CreateInstance l t r e) x y = (if y = l then [] else pend e x y)" for x y by (simp add: pend_def k)
  have "live e y \<Longrightarrow> y \<noteq> l" for y using l by auto
  then have "waits X Z (Lock_CreateInstance l t r e)" unfolding waits_def
    by (intro allI impI at_rest_other [OF waitsD [OF w]]) (use l in \<open>auto simp: c(2) p k m\<close>)
  then show ?thesis using c(1) by simp
qed

text \<open>A thread asks for a lock of another thread, and is blocked on it when it is ready and at rest.\<close>

lemma good_request:
  fixes x :: int and f :: bool and l s :: nat
  assumes g: "good e"
  defines "e' \<equiv> snd (ChangeLockRequestCount s 1 (upd_lock l (m_requests_update (\<lambda>rs. rs @ [\<lparr>m_subthreadWaiting = s, m_timeExpire = x, m_fForce = f\<rparr>])) e))"
  shows "good e'" "locks e' = (locks e)(l := (locks e l)\<lparr>m_requests := m_requests (locks e l) @ [\<lparr>m_subthreadWaiting = s, m_timeExpire = x, m_fForce = f\<rparr>]\<rparr>)"
    "live e' y = live e y" "thread_of e' u = thread_of e u"
proof -
  let ?u = "upd_lock l (m_requests_update (\<lambda>rs. rs @ [\<lparr>m_subthreadWaiting = s, m_timeExpire = x, m_fForce = f\<rparr>])) e"
  have "listed e' = listed e" using goodD(7) [OF g, of s] ChangeLockRequestCount_parts(9) [of ?u s 1] by (simp add: e'_def)
  then show "good e'" by (intro good_frame [OF g]) (auto simp: e'_def goodD(5) [OF g])
  show "locks e' = (locks e)(l := (locks e l)\<lparr>m_requests := m_requests (locks e l) @ [\<lparr>m_subthreadWaiting = s, m_timeExpire = x, m_fForce = f\<rparr>]\<rparr>)"
    "live e' y = live e y" "thread_of e' u = thread_of e u" by (simp_all add: e'_def fun_eq_iff live_def)
qed

lemma waits_request:
  fixes x :: int and f :: bool and l s :: nat
  assumes w: "waits X Z e" and l: "live e l" and t: "t = thread_of e s" and r: "m_status (threads e t) = TH_S_Ready" and n: "m_owningThread (locks e l) \<noteq> t"
  defines "e' \<equiv> snd (ChangeLockRequestCount s 1 (upd_lock l (m_requests_update (\<lambda>rs. rs @ [\<lparr>m_subthreadWaiting = s, m_timeExpire = x, m_fForce = f\<rparr>])) e))"
  shows "waits X Z e'"
proof -
  let ?r = "\<lparr>m_subthreadWaiting = s, m_timeExpire = x, m_fForce = f\<rparr>"
  have m: "m_locks (threads e' y) = m_locks (threads e y)" "m_lockRequestsCount (threads e' y) = m_lockRequestsCount (threads e y) + (if y = t then 1 else 0)"
    "s_lockRequestsCount (subThreads e' u) = s_lockRequestsCount (subThreads e u) + (if u = s then 1 else 0)" "thread_of e' u = thread_of e u"
    "m_status (threads e' y) = (if y = t then (if m_lockRequestsCount (threads e t) + 1 = 0 then TH_S_Ready else TH_S_Waiting) else m_status (threads e y))"
    "m_owningThread (locks e' k) = m_owningThread (locks e k)" for y u k
    using t by (simp_all add: e'_def)
  have v: "live e' y = live e y" for y by (simp add: live_def m)
  have p: "pend e' y z = pend e y z @ (if y = t \<and> z = l then [?r] else [])" for y z by (auto simp: pend_def e'_def t)
  have "at_rest Z e' y" if y: "y \<notin> X" for y
  proof (cases "y = t")
    case True
    then have i: "quiet e t" "t \<notin> Z" using waitsD [OF w y] r by (auto simp: at_rest_def blocked_def blocked_on_def split: if_splits)
    then have "blocked_on e' t l ?r" using l n t by (auto simp: blocked_on_def quiet_def m v p)
    then show ?thesis using True i by (auto simp: at_rest_def blocked_def)
  next
    case False
    show ?thesis by (rule at_rest_other [OF waitsD [OF w y]]) (use False t in \<open>auto simp: m v p\<close>)
  qed
  then show ?thesis by (simp add: waits_def)
qed

lemma recurse_owners:
  "recurse s ws = Some us \<Longrightarrow> map m_owningSubThread us = map m_owningSubThread ws"
  by (induction ws arbitrary: us) (auto split: if_splits)

lemma recurse_None: "recurse s ws = None \<longleftrightarrow> s \<notin> m_owningSubThread ` set ws"
  by (induction ws) auto

lemma release_None: "release s ws = None \<longleftrightarrow> s \<notin> m_owningSubThread ` set ws"
  by (induction ws) (auto simp: Let_def)

lemma release_owners:
  "release s ws = Some us \<Longrightarrow> set (map m_owningSubThread us) \<subseteq> set (map m_owningSubThread ws) \<and> (distinct (map m_owningSubThread ws) \<longrightarrow> distinct (map m_owningSubThread us))"
proof (induction ws arbitrary: us)
  case (Cons w ws)
  then show ?case by (cases "m_owningSubThread w = s") (fastforce simp: Let_def split: if_splits)+
qed simp

lemma owners_ok_map: "owners_ok e t ws \<longleftrightarrow> (\<forall>s\<in>set (map m_owningSubThread ws). thread_of e s = t) \<and> distinct (map m_owningSubThread ws)"
  by (simp add: owners_ok_def)

lemma upd_owners: "upd_lock l (m_owners_update f) e = upd_lock l (m_owners_update (\<lambda>_. f (m_owners (locks e l)))) e"
  by (cases "locks e l") simp

section \<open>Every operation keeps the invariant\<close>

lemma good_IncrementOwnership:
  assumes g: "good e" and l: "live e l"
  shows "good (snd (IncrementOwnership l s x f e))"
proof (cases "m_owningThread (locks e l) = thread_of e s")
  case False
  obtain b e1 where b: "extract_node e = (b, e1)" by (cases "extract_node e")
  have g1: "good e1" using good_grants [OF g b] .
  then show ?thesis using good_request(1) [OF g1] b False by (cases b) (auto simp: IncrementOwnership_def LockRequest_CreateInstance_def)
next
  case True
  note w = goodD(5) [OF g l]
  show ?thesis
  proof (cases "recurse s (m_owners (locks e l))")
    case (Some ws)
    have "owners_ok e (m_owningThread (locks e l)) ws" using w unfolding owners_ok_map recurse_owners [OF Some] .
    then show ?thesis using True Some good_owners [OF g] by (simp add: IncrementOwnership_def)
  next
    case None
    obtain b e1 where b: "extract_node e = (b, e1)" by (cases "extract_node e")
    note p = extract_node_parts [OF b]
    have g1: "good e1" using good_grants [OF g b] .
    have "owners_ok e1 (m_owningThread (locks e1 l)) (\<lparr>m_owningSubThread = s, m_recursion = 1\<rparr> # m_owners (locks e1 l))"
      using w None True by (auto simp: owners_ok_def p(1,2) recurse_None)
    then have "good (upd_lock l (m_owners_update (Cons \<lparr>m_owningSubThread = s, m_recursion = 1\<rparr>)) e1)"
      using good_owners [OF g1] by (simp add: upd_owners [where f = "Cons _"])
    then show ?thesis using True None b g1 by (cases b) (simp_all add: IncrementOwnership_def)
  qed
qed

lemma waits_IncrementOwnership:
  assumes w: "waits X Z e" and l: "live e l" and r: "m_status (threads e (thread_of e s)) = TH_S_Ready"
  shows "waits X Z (snd (IncrementOwnership l s x f e))"
proof -
  obtain b e1 where b: "extract_node e = (b, e1)" by (cases "extract_node e")
  note p = extract_node_parts [OF b] and w1 = waits_grants [OF w b]
  have c: "live e1 l" "m_status (threads e1 (thread_of e1 s)) = TH_S_Ready" "m_owningThread (locks e1 l) = m_owningThread (locks e l)" "thread_of e1 s = thread_of e s"
    using l r by (simp_all add: live_def p(1-4))
  note q = waits_request [OF w1 c(1) refl c(2), of x f]
  show ?thesis
    using q w w1 b c by (cases "m_owningThread (locks e l) = thread_of e s"; cases "recurse s (m_owners (locks e l))"; cases b)
      (simp_all add: IncrementOwnership_def LockRequest_CreateInstance_def waits_owners)
qed

lemma sound_LockObject:
  assumes a: "sound X Z e" and r: "m_status (threads e (thread_of e s)) = TH_S_Ready" and n: "\<forall>l. node = Some l \<longrightarrow> \<not> live e l"
  shows "sound X Z (snd (LockObject r' s x f node e))"
proof (cases "FindLockObject r' e")
  case (Some l)
  then have "live e l" using FindLockObject_iff a by simp
  then show ?thesis using good_IncrementOwnership waits_IncrementOwnership [OF _ _ r] a Some by (simp add: LockObject_def)
next
  case None
  show ?thesis
  proof (cases node)
    case None
    then show ?thesis using a \<open>FindLockObject r' e = None\<close> by (simp add: LockObject_def)
  next
    case (Some l)
    let ?e = "Lock_CreateInstance l (thread_of e s) r' e"
    have l: "\<not> live e l" and g: "good e" using n Some a by simp_all
    note t = goodD(7) [OF g, of s]
    note c = sound_Lock_CreateInstance [OF a None l t] good_Lock_CreateInstance(2) [OF g None l t]
    have "thread_of ?e s = thread_of e s" "m_status (threads ?e (thread_of ?e s)) = TH_S_Ready" using r by (simp_all add: Lock_CreateInstance_def)
    then have "sound X Z (snd (IncrementOwnership l s x f ?e))"
      using good_IncrementOwnership waits_IncrementOwnership c by simp
    then show ?thesis using Some None by (simp add: LockObject_def)
  qed
qed

lemma live_owners [simp]: "live (upd_lock l (m_owners_update f) e) x = live e x" by (simp add: live_def)

lemma sound_DecrementOwnership:
  assumes a: "sound X Z e" and l: "\<forall>l. lock = Some l \<longrightarrow> live e l"
  shows "sound X Z (snd (DecrementOwnership lock s e))"
proof (cases lock)
  case (Some l)
  then have l: "live e l" using l by simp
  have g: "good e" and w: "waits X Z e" using a by auto
  show ?thesis
  proof (cases "release s (m_owners (locks e l))")
    case None
    then show ?thesis using a Some by (simp add: DecrementOwnership_def)
  next
    case r: (Some ws)
    have "owners_ok e (m_owningThread (locks e l)) ws"
      using goodD(5) [OF g l] release_owners [OF r] by (auto simp: owners_ok_map)
    then have "sound X Z (upd_lock l (m_owners_update (\<lambda>_. ws)) e)" using good_owners [OF g] waits_owners [OF w] by blast
    then show ?thesis using a Some r l sound_ChangeOwner [where e = "upd_lock l (m_owners_update (\<lambda>_. ws)) e" and l = l and X = X and Z = Z]
      by (cases "ws = []") (simp_all add: DecrementOwnership_def Let_def)
  qed
qed (simp add: DecrementOwnership_def a)

lemma sound_UnlockObject: "sound X Z e \<Longrightarrow> sound X Z (snd (UnlockObject r s e))"
  unfolding UnlockObject_def by (rule sound_DecrementOwnership) (auto simp: FindLockObject_iff)

lemma sound_less_owners:
  assumes a: "sound X Z e" and l: "live e l"
  shows "sound X Z (upd_lock l (m_owners_update (filter (\<lambda>w. m_owningSubThread w \<noteq> s))) e)"
proof -
  let ?ws = "filter (\<lambda>w. m_owningSubThread w \<noteq> s) (m_owners (locks e l))"
  have g: "good e" using a by auto
  have "owners_ok e (m_owningThread (locks e l)) ?ws" using goodD(5) [OF g l] by (auto simp: owners_ok_def distinct_map_filter)
  then have "good (upd_lock l (m_owners_update (\<lambda>_. ?ws)) e)" by (rule good_owners [OF g])
  then show ?thesis using a waits_owners by (simp only: upd_owners [where f = "filter _"])
qed

lemma sound_DestroyOwner: "sound X Z e \<Longrightarrow> live e l \<Longrightarrow> sound X Z (DestroyOwner s l e)"
  using sound_less_owners [where s = s and X = X and Z = Z and e = e and l = l] sound_ChangeOwner [where e = "upd_lock l (m_owners_update (filter (\<lambda>w. m_owningSubThread w \<noteq> s))) e" and l = l and X = X and Z = Z]
  by (simp add: DestroyOwner_def Let_def)

section \<open>A thread sleeps or is restarted\<close>

text \<open>A thread that is ready and goes to sleep has nothing in a queue.\<close>

lemma sound_asleep:
  assumes a: "sound X Z e" and r: "m_status (threads e t) = TH_S_Ready"
    and k: "m_status (f (threads e t)) = TH_S_Waiting" "m_locks (f (threads e t)) = m_locks (threads e t)"
      "m_lockRequestsCount (f (threads e t)) = m_lockRequestsCount (threads e t)"
  shows "sound X (insert t Z) (upd_thread t f e)"
proof -
  let ?e = "upd_thread t f e"
  have w: "waits X Z e" and g: "good e" using a by auto
  have "m_locks (threads ?e x) = m_locks (threads e x)" for x using k by simp
  then have v: "live ?e = live e" by (simp add: live_def fun_eq_iff del: fun_upd_apply)
  have p: "pend ?e = pend e" by (simp add: pend_def fun_eq_iff)
  have "at_rest (insert t Z) ?e x" if x: "x \<notin> X" for x
  proof (cases "x = t")
    case True
    then have "quiet e t" using waitsD [OF w x] r by (auto simp: at_rest_def blocked_def blocked_on_def)
    then show ?thesis using True k by (auto simp: at_rest_def quiet_def v p)
  next
    case False
    have "at_rest Z ?e x" by (rule at_rest_other [OF waitsD [OF w x]]) (use False in \<open>auto simp: v p\<close>)
    then show ?thesis using False by (simp add: at_rest_def)
  qed
  moreover have "good ?e" by (rule good_frame [OF g]) (use k in \<open>auto simp: goodD(5) [OF g]\<close>)
  ultimately show ?thesis by (simp add: waits_def)
qed

text \<open>The threads with a request in a queue.\<close>

definition asking :: "Engine \<Rightarrow> nat \<Rightarrow> bool" where
  "asking e t \<longleftrightarrow> (\<exists>l. live e l \<and> pend e t l \<noteq> [])"

lemma at_rest_asking: "at_rest Z e t \<Longrightarrow> asking e t \<longleftrightarrow> blocked e t"
  unfolding asking_def
proof
  assume r: "at_rest Z e t" and "\<exists>l. live e l \<and> pend e t l \<noteq> []"
  then obtain l where "live e l" "hd (pend e t l) \<in> set (pend e t l)" by auto
  then show "blocked e t" using at_rest_pend [OF r] by (auto simp: blocked_def)
next
  assume "blocked e t"
  then show "\<exists>l. live e l \<and> pend e t l \<noteq> []" by (auto simp: blocked_def blocked_on_def)
qed

lemma sound_Restart:
  assumes a: "sound X Z e"
  shows "sound (if asking e t then insert t X else X) (Z - {t}) (Restart t b e)"
proof -
  let ?e = "Restart t b e"
  have w: "waits X Z e" and g: "good e" using a by auto
  have v: "live ?e = live e" by (simp add: live_def fun_eq_iff)
  have p: "pend ?e = pend e" by (simp add: pend_def fun_eq_iff)
  have "at_rest (Z - {t}) ?e x" if x: "x \<notin> X" "\<not> (x = t \<and> asking e t)" for x
  proof (cases "x = t")
    case True
    then have "quiet e t" using waitsD [OF w x(1)] x(2) at_rest_asking [of Z e t] by (auto simp: at_rest_def)
    then show ?thesis using True by (auto simp: at_rest_def quiet_def v p)
  next
    case False
    have "at_rest Z ?e x" by (rule at_rest_other [OF waitsD [OF w x(1)]]) (use False in \<open>auto simp: v p\<close>)
    then show ?thesis using False by (simp add: at_rest_def)
  qed
  moreover have "good ?e" by (rule good_frame [OF g]) (auto simp: goodD(5) [OF g])
  ultimately show ?thesis by (auto simp: waits_def)
qed

section \<open>A subthread that ends\<close>

lemma filter_remove1_other: "\<not> Q r \<Longrightarrow> filter Q (remove1 r rs) = filter Q rs"
  by (induction rs) auto

lemma filter_remove1_this: "filter Q rs = [r] \<Longrightarrow> filter Q (remove1 r rs) = []"
proof (induction rs)
  case (Cons a rs)
  show ?case
  proof (cases "Q a")
    case True
    then show ?thesis using Cons.prems by simp
  next
    case False
    then have f: "filter Q rs = [r]" using Cons.prems by simp
    then have "r \<in> set (filter Q rs)" by simp
    then have "a \<noteq> r" using False by auto
    then show ?thesis using Cons.IH [OF f] False by simp
  qed
qed simp

text \<open>A request goes: the threads of \<open>X\<close> aside, that is the only one of its thread.\<close>

lemma remove_request:
  defines "d e l r \<equiv> ChangeLockRequestCount (m_subthreadWaiting r) (- 1) (upd_lock l (m_requests_update (remove1 r)) e)"
  assumes a: "sound X Z e" and x: "thread_of e (m_subthreadWaiting r) \<in> X \<or> blocked_on e (thread_of e (m_subthreadWaiting r)) l r \<and> thread_of e (m_subthreadWaiting r) \<notin> Z"
  shows "sound X Z (snd (d e l r))" "m_owners (locks (snd (d e l r)) u) = m_owners (locks e u)" "live (snd (d e l r)) u = live e u"
    "thread_of (snd (d e l r)) u = thread_of e u"
    "thread_of e (m_subthreadWaiting r) \<notin> X \<Longrightarrow> fst (d e l r) \<and> quiet (snd (d e l r)) (thread_of e (m_subthreadWaiting r))"
proof -
  define s t e' where "s = m_subthreadWaiting r" and "t = thread_of e s" and "e' = snd (d e l r)"
  have w: "waits X Z e" and g: "good e" using a by auto
  have m: "m_locks (threads e' y) = m_locks (threads e y)" "m_lockRequestsCount (threads e' y) = m_lockRequestsCount (threads e y) - (if y = t then 1 else 0)"
    "s_lockRequestsCount (subThreads e' u) = s_lockRequestsCount (subThreads e u) - (if u = s then 1 else 0)"
    "m_status (threads e' y) = (if y = t then (if m_lockRequestsCount (threads e t) = 1 then TH_S_Ready else TH_S_Waiting) else m_status (threads e y))" "thread_of e' u = thread_of e u"
    "objectLock e' = objectLock e" "listed e' = listed e" for y u
    using goodD(7) [OF g, of s] ChangeLockRequestCount_parts(9) [of "upd_lock l (m_requests_update (remove1 r)) e" s "- 1"]
    by (auto simp: e'_def d_def s_def t_def)
  have k: "m_owningThread (locks e' y) = m_owningThread (locks e y)" "m_resource (locks e' y) = m_resource (locks e y)" "m_owners (locks e' y) = m_owners (locks e y)"
    "m_requests (locks e' y) = (if y = l then remove1 r (m_requests (locks e y)) else m_requests (locks e y))" for y
    by (simp_all add: e'_def d_def)
  have v: "live e' y = live e y" for y by (simp add: live_def m)
  have p: "y \<noteq> t \<Longrightarrow> pend e' y z = pend e y z" for y z
    using filter_remove1_other [of "\<lambda>q. thread_of e (m_subthreadWaiting q) = y" r] by (auto simp: pend_def m k s_def t_def)
  have q: "fst (d e l r) \<and> quiet e' t \<and> m_status (threads e' t) = TH_S_Ready \<and> t \<notin> Z" if "t \<notin> X"
  proof -
    have b: "blocked_on e t l r" "t \<notin> Z" using x that by (auto simp: t_def s_def)
    then have "pend e' t l = []" "pend e' t z = pend e t z \<or> z = l" for z
      using filter_remove1_this [of "\<lambda>q. thread_of e (m_subthreadWaiting q) = t" "m_requests (locks e l)" r] by (auto simp: blocked_on_def pend_def m k)
    then have "quiet e' t" using b by (auto simp: quiet_def blocked_on_def m v s_def) (metis)
    moreover have "fst (d e l r)" using b by (simp add: d_def ChangeLockRequestCount_def Let_def blocked_on_def t_def s_def)
    ultimately show ?thesis using b by (simp add: blocked_on_def m)
  qed
  have "at_rest Z e' y" if y: "y \<notin> X" for y
  proof (cases "y = t")
    case False
    show ?thesis by (rule at_rest_other [OF waitsD [OF w y]]) (use False in \<open>auto simp: m v p k t_def\<close>)
  qed (use q y in \<open>simp add: at_rest_def\<close>)
  moreover have "good e'" by (rule good_frame [OF g]) (auto simp: m k goodD(5) [OF g])
  ultimately show "sound X Z (snd (d e l r))" by (simp add: waits_def e'_def)
  show "m_owners (locks (snd (d e l r)) u) = m_owners (locks e u)" "live (snd (d e l r)) u = live e u" "thread_of (snd (d e l r)) u = thread_of e u"
    using v m k by (simp_all add: e'_def)
  show "thread_of e (m_subthreadWaiting r) \<notin> X \<Longrightarrow> fst (d e l r) \<and> quiet (snd (d e l r)) (thread_of e (m_subthreadWaiting r))"
    using q by (simp add: t_def s_def e'_def)
qed

text \<open>A walk ends with the request of the subthread removed, or changes nothing as there is none.\<close>

definition asks :: "Engine \<Rightarrow> nat \<Rightarrow> nat \<Rightarrow> bool" where
  "asks e s l \<longleftrightarrow> s \<in> m_subthreadWaiting ` set (m_requests (locks e l))"

definition walk_ok :: "nat set \<Rightarrow> nat set \<Rightarrow> Engine \<Rightarrow> nat \<Rightarrow> bool \<Rightarrow> bool \<times> Engine \<Rightarrow> bool" where
  "walk_ok X Z e s found d \<longleftrightarrow>
     (if found then fst d \<and> sound X Z (snd d) \<and> quiet (snd d) (thread_of e s) \<and>
        (\<forall>x. m_owners (locks (snd d) x) = m_owners (locks e x) \<and> live (snd d) x = live e x \<and> thread_of (snd d) x = thread_of e x)
      else d = (False, e))"

lemma walk_then:
  "walk_ok X Z e s a d \<Longrightarrow> walk_ok X Z e s b (k e) \<Longrightarrow> walk_ok X Z e s (a \<or> b) (case d of (True, e) \<Rightarrow> (True, e) | (False, e) \<Rightarrow> k e)"
  by (cases d; cases a; cases "fst d") (simp_all add: walk_ok_def)

lemma delete_requests_walk:
  assumes a: "sound X Z e" and x: "thread_of e s \<notin> X" and l: "live e l"
  shows "set rs \<subseteq> set (m_requests (locks e l)) \<Longrightarrow> walk_ok X Z e s (s \<in> m_subthreadWaiting ` set rs) (delete_requests None (Some s) l rs e)"
proof (induction rs)
  case Nil
  then show ?case by (simp add: walk_ok_def)
next
  case (Cons r rs)
  show ?case
  proof (cases "m_subthreadWaiting r = s")
    case False
    then show ?thesis using Cons by (auto simp: Let_def)
  next
    case True
    have "at_rest Z e (thread_of e s)" using waitsD x a by blast
    moreover have "r \<in> set (pend e (thread_of e s) l)" using Cons.prems True by (simp add: pend_def)
    ultimately have b: "blocked_on e (thread_of e s) l r \<and> thread_of e s \<notin> Z" by (rule at_rest_pend [OF _ l])
    note d = remove_request [OF a, of r l, unfolded True, OF disjI2 [OF b]]
    obtain e' where e': "ChangeLockRequestCount s (- 1) (upd_lock l (m_requests_update (remove1 r)) e) = (True, e')"
      using d(5) [OF x] by (metis prod.collapse)
    then show ?thesis using d x True by (simp add: walk_ok_def)
  qed
qed

lemma delete_in_locks_walk:
  assumes a: "sound X Z e" and x: "thread_of e s \<notin> X"
  shows "\<forall>l\<in>set ls. live e l \<Longrightarrow> walk_ok X Z e s (\<exists>l\<in>set ls. asks e s l) (delete_in_locks None (Some s) ls e)"
proof (induction ls)
  case Nil
  then show ?case by (simp add: walk_ok_def)
next
  case (Cons l ls)
  have "walk_ok X Z e s (asks e s l) (delete_requests None (Some s) l (m_requests (locks e l)) e)"
    using delete_requests_walk [OF a x, of l] Cons.prems by (simp add: asks_def)
  from walk_then [where k = "delete_in_locks None (Some s) ls", OF this] show ?case using Cons by simp
qed

lemma DeleteLockRequests_threads_walk:
  assumes a: "sound X Z e" and x: "thread_of e s \<notin> X"
  shows "walk_ok X Z e s (\<exists>t\<in>set ts. \<exists>l\<in>set (m_locks (threads e t)). asks e s l) (DeleteLockRequests_threads None (Some s) ts e)"
proof (induction ts)
  case Nil
  then show ?case by (simp add: walk_ok_def)
next
  case (Cons t ts)
  have "walk_ok X Z e s (\<exists>l\<in>set (m_locks (threads e t)). asks e s l) (delete_in_locks None (Some s) (m_locks (threads e t)) e)"
    using delete_in_locks_walk [OF a x] by (auto simp: live_def)
  from walk_then [where k = "DeleteLockRequests_threads None (Some s) ts", OF this Cons] show ?case by simp
qed

lemma asks_quiet: "quiet e (thread_of e s) \<Longrightarrow> live e l \<Longrightarrow> \<not> asks e s l"
  by (auto simp: quiet_def asks_def pend_def filter_empty_conv)

lemma DeleteLockRequests_spec:
  assumes a: "sound X Z e" and x: "thread_of e s \<notin> X"
  shows "sound X Z (DeleteLockRequests None (Some s) e)" "live (DeleteLockRequests None (Some s) e) l \<Longrightarrow> \<not> asks (DeleteLockRequests None (Some s) e) s l"
    "m_owners (locks (DeleteLockRequests None (Some s) e) l) = m_owners (locks e l)" "live (DeleteLockRequests None (Some s) e) l = live e l"
    "thread_of (DeleteLockRequests None (Some s) e) u = thread_of e u"
proof -
  define e1 where "e1 = snd (DeleteLockRequests_threads None (Some s) (m_threadsReady e) e)"
  define e2 where "e2 = snd (DeleteLockRequests_threads None (Some s) (m_threadsWaiting e1) e1)"
  have g: "good e" and rest: "at_rest Z e (thread_of e s)" using a waitsD x by blast+
  have z: "\<not> asks e s l" if "s_lockRequestsCount (subThreads e s) = 0" "live e l" for l
  proof
    assume "asks e s l"
    then obtain r where r: "r \<in> set (pend e (thread_of e s) l)" "m_subthreadWaiting r = s" by (auto simp: asks_def pend_def)
    have "blocked_on e (thread_of e s) l r" using at_rest_pend [OF rest that(2) r(1)] ..
    then have "s_lockRequestsCount (subThreads e s) = (if s = m_subthreadWaiting r then 1 else 0)" unfolding blocked_on_def by blast
    then show False using that(1) r(2) by simp
  qed
  have w1: "walk_ok X Z e s (\<exists>t\<in>set (m_threadsReady e). \<exists>l\<in>set (m_locks (threads e t)). asks e s l) (DeleteLockRequests_threads None (Some s) (m_threadsReady e) e)"
    by (rule DeleteLockRequests_threads_walk [OF a x])
  then have a1: "sound X Z e1" using a by (auto simp: walk_ok_def e1_def split: if_splits)
  have s1: "m_owners (locks e1 l) = m_owners (locks e l)" "live e1 l = live e l" "thread_of e1 l = thread_of e l" for l
    using w1 by (auto simp: walk_ok_def e1_def split: if_splits)
  have w2: "walk_ok X Z e1 s (\<exists>t\<in>set (m_threadsWaiting e1). \<exists>l\<in>set (m_locks (threads e1 t)). asks e1 s l) (DeleteLockRequests_threads None (Some s) (m_threadsWaiting e1) e1)"
    by (rule DeleteLockRequests_threads_walk [OF a1]) (simp add: s1 x)
  then have a2: "sound X Z e2" using a1 by (auto simp: walk_ok_def e2_def split: if_splits)
  have s2: "m_owners (locks e2 l) = m_owners (locks e l)" "live e2 l = live e l" "thread_of e2 l = thread_of e l" for l
    using w2 s1 by (auto simp: walk_ok_def e2_def split: if_splits)
  have n: "\<not> asks e2 s l" if l: "live e2 l" for l
  proof (cases "(\<exists>t\<in>set (m_threadsReady e). \<exists>l\<in>set (m_locks (threads e t)). asks e s l) \<or> (\<exists>t\<in>set (m_threadsWaiting e1). \<exists>l\<in>set (m_locks (threads e1 t)). asks e1 s l)")
    case True
    have "quiet e2 (thread_of e2 s)"
    proof (cases "\<exists>t\<in>set (m_threadsWaiting e1). \<exists>l\<in>set (m_locks (threads e1 t)). asks e1 s l")
      case True
      then show ?thesis using w2 s1 s2 by (simp add: walk_ok_def e2_def)
    next
      case False
      then have "e2 = e1" using w2 by (simp add: walk_ok_def e2_def)
      then show ?thesis using w1 True False s1 by (auto simp: walk_ok_def e1_def split: if_splits)
    qed
    then show ?thesis using asks_quiet l by blast
  next
    case False
    then have "e1 = e" using w1 by (simp add: walk_ok_def e1_def)
    moreover then have "e2 = e" using w2 False by (simp add: walk_ok_def e2_def)
    ultimately show ?thesis using False l goodD(6) [OF g, of l] good_live [OF g, of l] by (auto simp: listed_def)
  qed
  have d: "DeleteLockRequests None (Some s) e = (if s_lockRequestsCount (subThreads e s) \<noteq> 0 then e2 else e)"
    by (simp add: DeleteLockRequests_def e1_def e2_def Let_def)
  show "sound X Z (DeleteLockRequests None (Some s) e)" using a a2 by (simp add: d)
  show "live (DeleteLockRequests None (Some s) e) l \<Longrightarrow> \<not> asks (DeleteLockRequests None (Some s) e) s l"
    using n [of l] z [of l] by (simp add: d split: if_splits)
  show "m_owners (locks (DeleteLockRequests None (Some s) e) l) = m_owners (locks e l)" "live (DeleteLockRequests None (Some s) e) l = live e l"
    "thread_of (DeleteLockRequests None (Some s) e) u = thread_of e u"
    using s2 by (simp_all add: d)
qed

text \<open>The requests of a thread of \<open>X\<close> may be several; the other threads do not notice when some go.\<close>

definition keeps :: "nat set \<Rightarrow> nat set \<Rightarrow> nat \<Rightarrow> (Engine \<Rightarrow> bool \<times> Engine) \<Rightarrow> bool" where
  "keeps X Z s f \<longleftrightarrow> (\<forall>e. sound X Z e \<and> thread_of e s \<in> X \<longrightarrow> sound X Z (snd (f e)) \<and> thread_of (snd (f e)) s = thread_of e s)"

lemma keeps_then: "keeps X Z s f \<Longrightarrow> keeps X Z s k \<Longrightarrow> keeps X Z s (\<lambda>e. case f e of (True, e) \<Rightarrow> (True, e) | (False, e) \<Rightarrow> k e)"
  unfolding keeps_def by (auto split: prod.splits bool.splits)

lemma keeps_request: "keeps X Z s (delete_requests None (Some s) l rs)"
proof (induction rs)
  case (Cons r rs)
  show ?case
  proof (cases "m_subthreadWaiting r = s")
    case True
    then have "keeps X Z s (\<lambda>e. ChangeLockRequestCount s (- 1) (upd_lock l (m_requests_update (remove1 r)) e))"
      using remove_request [where X = X and Z = Z and r = r and l = l] unfolding keeps_def by blast
    from keeps_then [OF this Cons] show ?thesis using True by (simp add: Let_def)
  qed (use Cons in \<open>simp add: keeps_def Let_def\<close>)
qed (simp add: keeps_def)

lemma keeps_in_locks: "keeps X Z s (delete_in_locks None (Some s) ls)"
proof (induction ls)
  case (Cons l ls)
  have "keeps X Z s (\<lambda>e. delete_requests None (Some s) l (m_requests (locks e l)) e)" using keeps_request [of X Z s l] by (simp add: keeps_def)
  from keeps_then [OF this Cons] show ?case by simp
qed (simp add: keeps_def)

lemma keeps_threads: "keeps X Z s (DeleteLockRequests_threads None (Some s) ts)"
proof (induction ts)
  case (Cons t ts)
  have "keeps X Z s (\<lambda>e. delete_in_locks None (Some s) (m_locks (threads e t)) e)" using keeps_in_locks [of X Z s] by (simp add: keeps_def)
  from keeps_then [OF this Cons] show ?case by simp
qed (simp add: keeps_def)

lemma sound_DeleteLockRequests: "sound X Z e \<Longrightarrow> sound X Z (DeleteLockRequests None (Some s) e)"
proof (cases "thread_of e s \<in> X")
  case True
  moreover assume "sound X Z e"
  ultimately have "sound X Z (snd (DeleteLockRequests_threads None (Some s) (m_threadsReady e) e)) \<and>
      thread_of (snd (DeleteLockRequests_threads None (Some s) (m_threadsReady e) e)) s \<in> X"
    using keeps_threads [of X Z s "m_threadsReady e"] unfolding keeps_def by auto
  then show ?thesis using keeps_threads [of X Z s] \<open>sound X Z e\<close> unfolding keeps_def by (simp add: DeleteLockRequests_def Let_def)
qed (rule DeleteLockRequests_spec)

text \<open>What a change of the owner does to the lock, and that it does nothing to another one.\<close>

lemma ChangeOwner_effect:
  assumes a: "sound X Z e" and l: "live e l"
  shows "x \<noteq> l \<Longrightarrow> locks (ChangeOwner l e) x = locks e x" "x \<noteq> l \<Longrightarrow> live (ChangeOwner l e) x = live e x"
    "live (ChangeOwner l e) l \<Longrightarrow> m_owningThread (locks e l) \<notin> X \<Longrightarrow> m_owningThread (locks (ChangeOwner l e) l) \<noteq> m_owningThread (locks e l)"
    "m_resource (locks (ChangeOwner l e) x) = m_resource (locks e x)"
    "thread_of (ChangeOwner l e) y = thread_of e y"
proof -
  have g: "good e" and w: "waits X Z e" using a by auto
  have "(x \<noteq> l \<longrightarrow> locks (ChangeOwner l e) x = locks e x \<and> live (ChangeOwner l e) x = live e x) \<and>
    (live (ChangeOwner l e) l \<and> m_owningThread (locks e l) \<notin> X \<longrightarrow> m_owningThread (locks (ChangeOwner l e) l) \<noteq> m_owningThread (locks e l)) \<and>
    m_resource (locks (ChangeOwner l e) x) = m_resource (locks e x) \<and> thread_of (ChangeOwner l e) y = thread_of e y"
  proof (cases "m_requests (locks e l)")
    case Nil
    then show ?thesis using good_ChangeOwner_free(2) [OF g l Nil] by (simp add: ChangeOwner_free live_def)
  next
    case (Cons req reqs)
    note f = ChangeOwner_grant [OF Cons refl refl goodD(7) [OF g]]
    obtain ws where k: "locks (ChangeOwner l e) = (locks e)(l := \<lparr>m_owningThread = thread_of e (m_subthreadWaiting req), m_resource = m_resource (locks e l), m_owners = ws, m_requests = reqs\<rparr>)"
      using f(1) by auto
    show ?thesis using first_blocked(1) [OF w l Cons refl] f(7) by (auto simp: k live_def f(2) blocked_on_def)
  qed
  then show "x \<noteq> l \<Longrightarrow> locks (ChangeOwner l e) x = locks e x" "x \<noteq> l \<Longrightarrow> live (ChangeOwner l e) x = live e x"
    "live (ChangeOwner l e) l \<Longrightarrow> m_owningThread (locks e l) \<notin> X \<Longrightarrow> m_owningThread (locks (ChangeOwner l e) l) \<noteq> m_owningThread (locks e l)"
    "m_resource (locks (ChangeOwner l e) x) = m_resource (locks e x)" "thread_of (ChangeOwner l e) y = thread_of e y" by blast+
qed

definition owns :: "Engine \<Rightarrow> nat \<Rightarrow> nat \<Rightarrow> bool" where
  "owns e s l \<longleftrightarrow> s \<in> m_owningSubThread ` set (m_owners (locks e l))"

lemma owns_thread: "good e \<Longrightarrow> live e l \<Longrightarrow> owns e s l \<Longrightarrow> m_owningThread (locks e l) = thread_of e s"
  using goodD(5) [of e l] by (auto simp: owns_def owners_ok_def)

lemma DestroyOwner_effect:
  assumes a: "sound X Z e" and l: "live e l" and t: "m_owningThread (locks e l) = thread_of e s"
  shows "x \<noteq> l \<Longrightarrow> locks (DestroyOwner s l e) x = locks e x" "x \<noteq> l \<Longrightarrow> live (DestroyOwner s l e) x = live e x"
    "live (DestroyOwner s l e) l \<Longrightarrow> thread_of e s \<notin> X \<Longrightarrow> \<not> owns (DestroyOwner s l e) s l" "thread_of (DestroyOwner s l e) y = thread_of e y"
proof -
  define e1 where "e1 = upd_lock l (m_owners_update (filter (\<lambda>w. m_owningSubThread w \<noteq> s))) e"
  have d: "DestroyOwner s l e = (if m_owners (locks e1 l) = [] then ChangeOwner l e1 else e1)" by (simp add: DestroyOwner_def Let_def e1_def)
  have k: "x \<noteq> l \<Longrightarrow> locks e1 x = locks e x" "live e1 x = live e x" "\<not> owns e1 s l" "m_owningThread (locks e1 l) = m_owningThread (locks e l)" "thread_of e1 y = thread_of e y" for x y
    by (auto simp: e1_def owns_def)
  have a1: "sound X Z e1" unfolding e1_def by (rule sound_less_owners [OF a l])
  then have g1: "good e1" by simp
  have l1: "live e1 l" using l k(2) by simp
  note c = ChangeOwner_effect [OF a1 l1]
  have n: "live (ChangeOwner l e1) l \<Longrightarrow> thread_of e s \<notin> X \<Longrightarrow> \<not> owns (ChangeOwner l e1) s l"
    using owns_thread [OF good_ChangeOwner [OF g1 l1], of l s] c(3) k(4) t by (auto simp: c(5) k(5))
  show "x \<noteq> l \<Longrightarrow> locks (DestroyOwner s l e) x = locks e x" "x \<noteq> l \<Longrightarrow> live (DestroyOwner s l e) x = live e x"
    "live (DestroyOwner s l e) l \<Longrightarrow> thread_of e s \<notin> X \<Longrightarrow> \<not> owns (DestroyOwner s l e) s l" "thread_of (DestroyOwner s l e) y = thread_of e y"
    using n c(1,2,5) k by (auto simp: d)
qed

lemma fold_DestroyOwner:
  assumes "sound X Z e" "distinct ls" "\<forall>l\<in>set ls. live e l \<and> m_owningThread (locks e l) = thread_of e s"
  shows "sound X Z (fold (DestroyOwner s) ls e) \<and> thread_of (fold (DestroyOwner s) ls e) s = thread_of e s \<and>
    (thread_of e s \<notin> X \<and> (\<forall>l. live e l \<and> owns e s l \<longrightarrow> l \<in> set ls) \<longrightarrow>
       (\<forall>l. live (fold (DestroyOwner s) ls e) l \<longrightarrow> \<not> owns (fold (DestroyOwner s) ls e) s l))"
  using assms
proof (induction ls arbitrary: e)
  case (Cons l ls)
  have l: "live e l" "m_owningThread (locks e l) = thread_of e s" using Cons.prems by auto
  note d = DestroyOwner_effect [OF Cons.prems(1) l]
  let ?e = "DestroyOwner s l e"
  have s1: "sound X Z ?e" using sound_DestroyOwner [OF Cons.prems(1) l(1)] .
  have s2: "\<forall>x\<in>set ls. live ?e x \<and> m_owningThread (locks ?e x) = thread_of ?e s"
  proof
    fix x assume "x \<in> set ls"
    then have "x \<noteq> l" "live e x \<and> m_owningThread (locks e x) = thread_of e s" using Cons.prems by auto
    then show "live ?e x \<and> m_owningThread (locks ?e x) = thread_of ?e s" using d by simp
  qed
  have s3: "\<forall>x. live ?e x \<and> owns ?e s x \<longrightarrow> x \<in> set ls" if o: "thread_of e s \<notin> X" "\<forall>x. live e x \<and> owns e s x \<longrightarrow> x \<in> set (l # ls)"
  proof (intro allI impI)
    fix x assume x: "live ?e x \<and> owns ?e s x"
    then have "x \<noteq> l" using d(3) o(1) by auto
    then show "x \<in> set ls" using x d(1,2) o(2) by (auto simp: owns_def)
  qed
  have f: "fold (DestroyOwner s) (l # ls) e = fold (DestroyOwner s) ls ?e" by simp
  have "distinct ls" using Cons.prems(2) by simp
  note ih = Cons.IH [OF s1 this s2, unfolded d(4)]
  show ?case unfolding f using ih s3 by blast
qed simp

lemma ReleaseSubThread_spec:
  assumes a: "sound X Z e" and t: "t = thread_of e s"
  shows "sound X Z (ReleaseSubThread t s e)"
    "thread_of e s \<notin> X \<Longrightarrow> live (ReleaseSubThread t s e) l \<Longrightarrow> \<not> owns (ReleaseSubThread t s e) s l \<and> \<not> asks (ReleaseSubThread t s e) s l"
proof -
  let ?e = "fold (DestroyOwner s) (m_locks (threads e t)) e"
  have g: "good e" using a by simp
  have "\<forall>l\<in>set (m_locks (threads e t)). live e l \<and> m_owningThread (locks e l) = thread_of e s" using goodD(1) [OF g] t by (auto simp: live_def)
  moreover have "\<forall>l. live e l \<and> owns e s l \<longrightarrow> l \<in> set (m_locks (threads e t))" using owns_thread [OF g] good_live [OF g] t by auto
  ultimately have f: "sound X Z ?e" "thread_of ?e s = thread_of e s" "thread_of e s \<notin> X \<Longrightarrow> \<forall>l. live ?e l \<longrightarrow> \<not> owns ?e s l"
    using fold_DestroyOwner [OF a goodD(2) [OF g]] by blast+
  show "sound X Z (ReleaseSubThread t s e)" using sound_DeleteLockRequests [OF f(1)] by (simp add: ReleaseSubThread_def)
  show "\<not> owns (ReleaseSubThread t s e) s l \<and> \<not> asks (ReleaseSubThread t s e) s l" if x: "thread_of e s \<notin> X" "live (ReleaseSubThread t s e) l"
  proof -
    have "thread_of ?e s \<notin> X" using f(2) x(1) by simp
    note d = DeleteLockRequests_spec [OF f(1) this]
    have "live ?e l" using x(2) d(4) by (simp add: ReleaseSubThread_def)
    then show ?thesis using d(2) [of l] d(3) [of l] f(3) x by (simp add: ReleaseSubThread_def owns_def)
  qed
qed

end
