(* ===== verification/ThreadLocksProps.thy ===== *)
theory ThreadLocksProps imports ThreadLocksInvariant begin

text \<open>
  Locks as monitors: in every state that the operations reach, taking and giving back a lock are the
  operations of a monitor with a queue, a thread waits exactly while it sleeps or is in one queue, and a
  subthread that ends leaves nothing behind; and what goes wrong when a node cannot be had or a thread is
  restarted by an exception while it is in a queue.
\<close>

section \<open>Monitors\<close>

text \<open>The thread that holds a monitor, its subthreads with the times each took it, and the queue of the others.\<close>

type_synonym monitor = "nat \<times> (nat \<times> u32) list \<times> nat list"

fun enter :: "nat \<Rightarrow> nat \<Rightarrow> monitor option \<Rightarrow> HR \<times> monitor option" where
  "enter t s None = (S_OK, Some (t, [(s, 1)], []))"
| "enter t s (Some (t', ws, q)) =
     (if t' = t then (S_OK, Some (t, if s \<in> fst ` set ws then map (\<lambda>(x, n). (x, if x = s then n + 1 else n)) ws else (s, 1) # ws, q))
      else (CLR_E_THREAD_WAITING, Some (t', ws, q @ [s])))"

fun leave :: "(nat \<Rightarrow> nat) \<Rightarrow> nat \<Rightarrow> monitor option \<Rightarrow> HR \<times> monitor option" where
  "leave own s None = (CLR_E_LOCK_SYNCHRONIZATION_EXCEPTION, None)"
| "leave own s (Some (t, ws, q)) =
     (if own s = t \<and> s \<in> fst ` set ws then
        (let ws' = map (\<lambda>(x, n). (x, if x = s then n - 1 else n)) (filter (\<lambda>w. w \<noteq> (s, 1)) ws) in
         (S_OK, if ws' \<noteq> [] then Some (t, ws', q)
                else (case q of [] \<Rightarrow> None | s' # q' \<Rightarrow> Some (own s', [(s', 1)], q'))))
      else (CLR_E_LOCK_SYNCHRONIZATION_EXCEPTION, Some (t, ws, q)))"

abbreviation holder :: "Owner \<Rightarrow> nat \<times> u32" where
  "holder w \<equiv> (m_owningSubThread w, m_recursion w)"

definition monitor_of :: "Lock \<Rightarrow> monitor" where
  "monitor_of k = (m_owningThread k, map holder (m_owners k), map m_subthreadWaiting (m_requests k))"

definition monitors :: "Engine \<Rightarrow> Resource \<Rightarrow> monitor option" where
  "monitors e r = map_option (\<lambda>l. monitor_of (locks e l)) (FindLockObject r e)"

lemma monitors_Some: "good e \<Longrightarrow> live e l \<Longrightarrow> m_resource (locks e l) = r \<Longrightarrow> monitors e r = Some (monitor_of (locks e l))"
  using FindLockObject_iff [of e r l] by (simp add: monitors_def)

text \<open>An operation on one lock changes the monitor of its resource only.\<close>

lemma monitors_only:
  assumes g: "good e" "good e'" and o: "\<And>x. x \<noteq> l \<Longrightarrow> locks e' x = locks e x" "\<And>x. x \<noteq> l \<Longrightarrow> live e' x = live e x"
    and r: "live e l \<Longrightarrow> m_resource (locks e l) = r" "live e' l \<Longrightarrow> m_resource (locks e' l) = r" and l: "live e l \<or> live e' l"
  shows "monitors e' = (monitors e)(r := if live e' l then Some (monitor_of (locks e' l)) else None)"
proof
  fix q
  note f = FindLockObject_iff [OF g(1), of q] and f' = FindLockObject_iff [OF g(2), of q]
  show "monitors e' q = ((monitors e)(r := if live e' l then Some (monitor_of (locks e' l)) else None)) q"
  proof (cases "q = r")
    case True
    show ?thesis
    proof (cases "live e' l")
      case v: True
      then show ?thesis using monitors_Some [OF g(2) v] r(2) True by simp
    next
      case v: False
      then have "live e l" using l by simp
      then have "FindLockObject r e = Some l" using FindLockObject_iff [OF g(1)] r(1) by simp
      have "FindLockObject r e' \<noteq> Some x" for x
      proof
        assume x: "FindLockObject r e' = Some x"
        then have "live e' x" "m_resource (locks e' x) = r" "x \<noteq> l" using FindLockObject_iff [OF g(2), of r x] v by auto
        then have "x \<noteq> l" "live e x" "m_resource (locks e x) = r" using o [of x] by auto
        then show False using goodD(4) [OF g(1), of x l] \<open>live e l\<close> r(1) by simp
      qed
      then show ?thesis using v True by (cases "FindLockObject r e'") (auto simp: monitors_def)
    qed
  next
    case False
    have "FindLockObject q e' = FindLockObject q e \<and> (\<forall>x. FindLockObject q e = Some x \<longrightarrow> x \<noteq> l)"
    proof (cases "FindLockObject q e")
      case None
      have "FindLockObject q e' \<noteq> Some x" for x using None f [of x] f' [of x] o [of x] r(2) False by (cases "x = l") auto
      then show ?thesis using None by (cases "FindLockObject q e'") auto
    next
      case (Some x)
      then have "x \<noteq> l" using f [of x] r(1) False by auto
      then show ?thesis using Some f [of x] f' [of x] o [of x] by auto
    qed
    then show ?thesis using False o(1) by (cases "FindLockObject q e") (auto simp: monitors_def)
  qed
qed

section \<open>Entering\<close>

lemma recurse_holders:
  "recurse s ws = Some us \<Longrightarrow> distinct (map m_owningSubThread ws) \<Longrightarrow>
   map holder us = map (\<lambda>(x, n). (x, if x = s then n + 1 else n)) (map holder ws)"
proof (induction ws arbitrary: us)
  case (Cons w ws)
  show ?case
  proof (cases "m_owningSubThread w = s")
    case True
    then have "\<forall>x\<in>set ws. m_owningSubThread x \<noteq> s" using Cons.prems(2) by (auto simp: image_iff)
    then show ?thesis using Cons.prems(1) True by auto
  next
    case False
    then show ?thesis using Cons by auto
  qed
qed simp

lemma holder_subs: "fst ` set (map holder ws) = m_owningSubThread ` set ws"
  by force

lemma extract_succeeds: "False \<notin> set (grants e) \<Longrightarrow> \<exists>e1. extract_node e = (True, e1)"
  by (auto simp: extract_node_def split: list.splits)

lemma IncrementOwnership_monitor:
  assumes g: "good e" and l: "live e l" and a: "False \<notin> set (grants e)"
    and h: "IncrementOwnership l s x f e = (hr, e')"
  shows "good e'" "y \<noteq> l \<Longrightarrow> locks e' y = locks e y" "live e' y = live e y" "m_resource (locks e' y) = m_resource (locks e y)"
    "enter (thread_of e s) s (Some (monitor_of (locks e l))) = (hr, Some (monitor_of (locks e' l)))"
proof -
  show "good e'" using good_IncrementOwnership [OF g l, of s x f] h by simp
  note w = goodD(5) [OF g l]
  have "(y \<noteq> l \<longrightarrow> locks e' y = locks e y) \<and> live e' y = live e y \<and> m_resource (locks e' y) = m_resource (locks e y) \<and>
    enter (thread_of e s) s (Some (monitor_of (locks e l))) = (hr, Some (monitor_of (locks e' l)))"
  proof (cases "m_owningThread (locks e l) = thread_of e s")
    case False
    obtain e1 where b: "extract_node e = (True, e1)" using extract_succeeds [OF a] by blast
    note p = extract_node_parts [OF b]
    note q = good_request [OF good_grants [OF g b], of s l x f]
    have e': "hr = CLR_E_THREAD_WAITING" "e' = snd (ChangeLockRequestCount s 1 (upd_lock l (m_requests_update (\<lambda>rs. rs @ [\<lparr>m_subthreadWaiting = s, m_timeExpire = x, m_fForce = f\<rparr>])) e1))"
      using h False b by (simp_all add: IncrementOwnership_def LockRequest_CreateInstance_def)
    show ?thesis using q(2,3) False unfolding e' by (simp add: monitor_of_def p(1,2,4) live_def)
  next
    case True
    show ?thesis
    proof (cases "recurse s (m_owners (locks e l))")
      case (Some ws)
      have "s \<in> m_owningSubThread ` set (m_owners (locks e l))" using Some recurse_None [of s "m_owners (locks e l)"] by simp
      moreover have "map holder ws = map (\<lambda>(x, n). (x, if x = s then n + 1 else n)) (map holder (m_owners (locks e l)))"
        using recurse_holders [OF Some] w by (simp add: owners_ok_def)
      ultimately show ?thesis using h True Some by (auto simp: IncrementOwnership_def monitor_of_def holder_subs simp del: set_map)
    next
      case None
      obtain e1 where b: "extract_node e = (True, e1)" using extract_succeeds [OF a] by blast
      note p = extract_node_parts [OF b]
      have "s \<notin> m_owningSubThread ` set (m_owners (locks e l))" using None by (simp add: recurse_None)
      then show ?thesis using h True None b by (auto simp: IncrementOwnership_def monitor_of_def holder_subs p live_def simp del: set_map)
    qed
  qed
  then show "y \<noteq> l \<Longrightarrow> locks e' y = locks e y" "live e' y = live e y" "m_resource (locks e' y) = m_resource (locks e y)"
    "enter (thread_of e s) s (Some (monitor_of (locks e l))) = (hr, Some (monitor_of (locks e' l)))" by blast+
qed

lemma LockObject_monitor:
  assumes g: "good e" and a: "False \<notin> set (grants e)" and n: "\<not> live e l"
    and h: "LockObject r s x f (Some l) e = (hr, e')"
  shows "hr = fst (enter (thread_of e s) s (monitors e r))" "monitors e' = (monitors e)(r := snd (enter (thread_of e s) s (monitors e r)))"
proof -
  have "hr = fst (enter (thread_of e s) s (monitors e r)) \<and> monitors e' = (monitors e)(r := snd (enter (thread_of e s) s (monitors e r)))"
  proof (cases "FindLockObject r e")
    case (Some k)
    then have k: "live e k" "m_resource (locks e k) = r" using FindLockObject_iff [OF g] by auto
    have "IncrementOwnership k s x f e = (hr, e')" using h Some by (simp add: LockObject_def)
    note m = IncrementOwnership_monitor [OF g k(1) a this]
    have "monitors e' = (monitors e)(r := if live e' k then Some (monitor_of (locks e' k)) else None)"
      by (rule monitors_only [OF g m(1)]) (use m(2-4) k in auto)
    then show ?thesis using m(3,5) k monitors_Some [OF g k] by simp
  next
    case None
    define e1 where "e1 = Lock_CreateInstance l (thread_of e s) r e"
    note c = good_Lock_CreateInstance [OF g None n goodD(7) [OF g, of s], folded e1_def]
    have t: "thread_of e1 s = thread_of e s" "grants e1 = grants e" by (simp_all add: e1_def Lock_CreateInstance_def)
    have k: "locks e1 = (locks e)(l := \<lparr>m_owningThread = thread_of e s, m_resource = r, m_owners = [], m_requests = []\<rparr>)" by (simp add: e1_def Lock_CreateInstance_def)
    have "IncrementOwnership l s x f e1 = (hr, e')" using h None by (simp add: LockObject_def e1_def)
    moreover have "live e1 l" "False \<notin> set (grants e1)" using c(2) a t(2) by simp_all
    ultimately have m: "good e'" "y \<noteq> l \<Longrightarrow> locks e' y = locks e1 y" "live e' y = live e1 y" "m_resource (locks e' y) = m_resource (locks e1 y)"
      "enter (thread_of e1 s) s (Some (monitor_of (locks e1 l))) = (hr, Some (monitor_of (locks e' l)))" for y
      using IncrementOwnership_monitor [OF c(1), of l s x f hr e'] by blast+
    have "monitors e' = (monitors e)(r := if live e' l then Some (monitor_of (locks e' l)) else None)"
      by (rule monitors_only [OF g m(1)]) (use m(2-4) k c(2) n in auto)
    moreover have "monitors e r = None" using None by (simp add: monitors_def)
    moreover have "enter (thread_of e s) s None = (hr, Some (monitor_of (locks e' l)))" using m(5) by (simp add: k t monitor_of_def)
    ultimately show ?thesis using m(3) c(2) by simp
  qed
  then show "hr = fst (enter (thread_of e s) s (monitors e r))" "monitors e' = (monitors e)(r := snd (enter (thread_of e s) s (monitors e r)))" by simp_all
qed

section \<open>Leaving\<close>

lemma release_holders:
  "release s ws = Some us \<Longrightarrow> distinct (map m_owningSubThread ws) \<Longrightarrow>
   map holder us = map (\<lambda>(x, n). (x, if x = s then n - 1 else n)) (filter (\<lambda>w. w \<noteq> (s, 1)) (map holder ws))"
proof (induction ws arbitrary: us)
  case (Cons w ws)
  show ?case
  proof (cases "m_owningSubThread w = s")
    case True
    then have n: "\<forall>x\<in>set ws. m_owningSubThread x \<noteq> s" using Cons.prems(2) by (auto simp: image_iff)
    then have "map (\<lambda>(x, n). (x, if x = s then n - 1 else n)) (filter (\<lambda>w. w \<noteq> (s, 1)) (map holder ws)) = map holder ws"
      by (induction ws) auto
    then show ?thesis using Cons.prems(1) True by (auto simp: Let_def split: if_splits)
  next
    case False
    then show ?thesis using Cons by auto
  qed
qed simp

lemma UnlockObject_monitor:
  assumes so: "sound X Z e" and a: "False \<notin> set (grants e)" and h: "UnlockObject r s e = (hr, e')"
  shows "hr = fst (leave (thread_of e) s (monitors e r))" "monitors e' = (monitors e)(r := snd (leave (thread_of e) s (monitors e r)))"
proof -
  have g: "good e" using so by simp
  have "hr = fst (leave (thread_of e) s (monitors e r)) \<and> monitors e' = (monitors e)(r := snd (leave (thread_of e) s (monitors e r)))"
  proof (cases "FindLockObject r e")
    case None
    then show ?thesis using h by (auto simp: UnlockObject_def DecrementOwnership_def monitors_def)
  next
    case (Some l)
    then have l: "live e l" "m_resource (locks e l) = r" using FindLockObject_iff [OF g] by auto
    note mo = monitors_Some [OF g l]
    have s: "release s (m_owners (locks e l)) = None \<longleftrightarrow> s \<notin> fst ` set (map holder (m_owners (locks e l)))"
      using release_None [of s "m_owners (locks e l)"] by (simp only: holder_subs)
    show ?thesis
    proof (cases "m_owningThread (locks e l) = thread_of e s \<and> release s (m_owners (locks e l)) \<noteq> None")
      case False
      then show ?thesis using h Some mo s by (auto simp: UnlockObject_def DecrementOwnership_def monitor_of_def simp del: set_map split: option.splits)
    next
      case True
      then obtain ws where r: "release s (m_owners (locks e l)) = Some ws" and t: "m_owningThread (locks e l) = thread_of e s" by auto
      define e1 where "e1 = upd_lock l (m_owners_update (\<lambda>_. ws)) e"
      have "owners_ok e (m_owningThread (locks e l)) ws" using goodD(5) [OF g l(1)] release_owners [OF r] by (auto simp: owners_ok_map)
      then have s1: "sound X Z e1" unfolding e1_def using good_owners [OF g] waits_owners so by blast
      then have g1: "good e1" by simp
      have k1: "x \<noteq> l \<Longrightarrow> locks e1 x = locks e x" "live e1 x = live e x" "m_requests (locks e1 l) = m_requests (locks e l)" "m_resource (locks e1 l) = r"
        "m_owners (locks e1 l) = ws" "m_owningThread (locks e1 l) = thread_of e s" "thread_of e1 x = thread_of e x" "grants e1 = grants e" for x
        using l t by (simp_all add: e1_def)
      have e': "hr = S_OK" "e' = (if ws = [] then ChangeOwner l e1 else e1)"
        using h Some r t by (auto simp: UnlockObject_def DecrementOwnership_def Let_def e1_def)
      have ho: "map holder ws = map (\<lambda>(x, n). (x, if x = s then n - 1 else n)) (filter (\<lambda>w. w \<noteq> (s, 1)) (map holder (m_owners (locks e l))))"
        using release_holders [OF r] goodD(5) [OF g l(1)] by (simp add: owners_ok_def)
      let ?q = "map m_subthreadWaiting (m_requests (locks e l))"
      have lv: "leave (thread_of e) s (monitors e r) = (S_OK, if ws \<noteq> [] then Some (thread_of e s, map holder ws, ?q)
          else (case ?q of [] \<Rightarrow> None | s' # q' \<Rightarrow> Some (thread_of e s', [(s', 1)], q')))"
      proof -
        have "(filter (\<lambda>w. w \<noteq> (s, 1)) (map holder (m_owners (locks e l))) = []) = (ws = [])" using arg_cong [OF ho, of "\<lambda>x. x = []"] by simp
        then show ?thesis using s r t by (simp add: mo monitor_of_def Let_def ho del: set_map)
      qed
      show ?thesis
      proof (cases "ws = []")
        case False
        have "monitors e' = (monitors e)(r := if live e' l then Some (monitor_of (locks e' l)) else None)"
          by (rule monitors_only [OF g, of _ l]) (use False e' g1 k1 l in auto)
        then show ?thesis using False e' k1 l lv by (simp add: monitor_of_def)
      next
        case True
        have l1: "live e1 l" using l(1) k1(2) by simp
        note c = ChangeOwner_effect [OF s1 l1]
        have m: "monitors e' = (monitors e)(r := if live e' l then Some (monitor_of (locks e' l)) else None)"
          by (rule monitors_only [OF g, of _ l]) (use True e' good_ChangeOwner [OF g1 l1] k1 l c in auto)
        show ?thesis
        proof (cases "m_requests (locks e l)")
          case Nil
          then show ?thesis using True e' m lv good_ChangeOwner_free(2) [OF g1 l1] k1(3) by simp
        next
          case (Cons req reqs)
          note f = ChangeOwner_grant [OF _ refl refl goodD(7) [OF g1], of l req reqs, unfolded k1(3), OF Cons]
          have "locks e' l = \<lparr>m_owningThread = thread_of e (m_subthreadWaiting req), m_resource = r, m_owners = [\<lparr>m_owningSubThread = m_subthreadWaiting req, m_recursion = 1\<rparr>], m_requests = reqs\<rparr>"
            using f(1) a True e' k1(4,7,8) by auto
          moreover have "live e' l" using f(2) True e' by (auto simp: live_def)
          ultimately show ?thesis using m lv e' True Cons by (simp add: monitor_of_def)
        qed
      qed
    qed
  qed
  then show "hr = fst (leave (thread_of e) s (monitors e r))" "monitors e' = (monitors e)(r := snd (leave (thread_of e) s (monitors e r)))" by simp_all
qed

section \<open>Reachable states\<close>

text \<open>The threads of which a subthread is in the queue of a monitor.\<close>

definition queued :: "Engine \<Rightarrow> nat \<Rightarrow> bool" where
  "queued e t \<longleftrightarrow> (\<exists>r t' ws q. monitors e r = Some (t', ws, q) \<and> t \<in> thread_of e ` set q)"

text \<open>
  At the start no lock exists, no thread waits and every subthread belongs to a thread in a list. A thread
  that is ready takes locks and gives them back, sleeps or waits for events; it is put into the list of
  its status, is suspended and resumed; events are raised; any thread is restarted (its time is over, an event
  it waits for is there, an object it waits for is signalled, a time constraint is over) or aborted at any time, and a
  subthread ends at any time. Every call in the code passes TIMEOUT_INFINITE to \<open>LockObject\<close>. \<open>X\<close> are the
  threads that were restarted while they were in a queue, \<open>Z\<close> those that went to sleep and were not restarted
  since.
\<close>

definition initial :: "Engine \<Rightarrow> bool" where
  "initial e \<longleftrightarrow> (\<forall>t. m_locks (threads e t) = [] \<and> m_status (threads e t) = TH_S_Ready \<and> m_lockRequestsCount (threads e t) = 0) \<and>
     (\<forall>s. s_lockRequestsCount (subThreads e s) = 0 \<and> thread_of e s \<in> listed e) \<and> (\<forall>a. objectLock e a = None)"

abbreviation restarted :: "Engine \<Rightarrow> nat \<Rightarrow> nat set \<Rightarrow> nat set" where
  "restarted e t X \<equiv> if queued e t then insert t X else X"

inductive history :: "nat set \<Rightarrow> nat set \<Rightarrow> Engine \<Rightarrow> bool" where
  start: "initial e \<Longrightarrow> history {} {} e"
| lock: "history X Z e \<Longrightarrow> m_status (threads e (thread_of e s)) = TH_S_Ready \<Longrightarrow> \<forall>l. node = Some l \<longrightarrow> \<not> live e l \<Longrightarrow>
    history X Z (snd (LockObject r s TIMEOUT_INFINITE f node e))"
| unlock: "history X Z e \<Longrightarrow> history X Z (snd (UnlockObject r s e))"
| sleep: "history X Z e \<Longrightarrow> m_status (threads e t) = TH_S_Ready \<Longrightarrow> history X (insert t Z) (snd (Sleep t timeExpire e))"
| wait_events: "history X Z e \<Longrightarrow> m_status (threads e t) = TH_S_Ready \<Longrightarrow> WaitEvents t timeExpire events now e = (hr, fSuccess, e') \<Longrightarrow>
    history X (if hr = CLR_E_THREAD_WAITING then insert t Z else Z) e'"
| restart: "history X Z e \<Longrightarrow> history (restarted e t X) (Z - {t}) (Restart t b e)"
| abort: "history X Z e \<Longrightarrow> history (restarted e t X) (Z - {t}) (Abort t e)"
| raise: "history X Z e \<Longrightarrow> history X Z (e\<lparr>m_raisedEvents := v\<rparr>)"
| suspend: "history X Z e \<Longrightarrow> history X Z (upd_thread t (m_suspended_update (\<lambda>_. b)) e)"
| wait: "history X Z e \<Longrightarrow> m_status (threads e t) = TH_S_Waiting \<Longrightarrow> history X Z (PutWaiting t e)"
| ready: "history X Z e \<Longrightarrow> m_status (threads e t) = TH_S_Ready \<Longrightarrow> history X Z (PutReady t e)"
| ends: "history X Z e \<Longrightarrow> history X Z (ReleaseSubThread (thread_of e s) s e)"

definition reachable :: "Engine \<Rightarrow> bool" where
  "reachable e \<longleftrightarrow> (\<exists>X Z. history X Z e)"

lemma sound_initial: "initial e \<Longrightarrow> sound {} {} e"
  by (auto simp: initial_def good_def waits_def at_rest_def live_def quiet_def)

lemma queue_pend: "t \<in> thread_of e ` set (map m_subthreadWaiting (m_requests (locks e l))) \<longleftrightarrow> pend e t l \<noteq> []"
  by (force simp: pend_def filter_empty_conv)

lemma monitors_lock:
  "good e \<Longrightarrow> monitors e r = Some (t', ws, q) \<Longrightarrow> \<exists>l. live e l \<and> m_resource (locks e l) = r \<and> m_owningThread (locks e l) = t' \<and>
     ws = map holder (m_owners (locks e l)) \<and> q = map m_subthreadWaiting (m_requests (locks e l))"
  using FindLockObject_iff [of e] by (auto simp: monitors_def monitor_of_def)

lemma queued_asking:
  assumes g: "good e" shows "queued e t \<longleftrightarrow> asking e t"
proof
  assume "queued e t"
  then obtain r t' ws q where m: "monitors e r = Some (t', ws, q)" and t: "t \<in> thread_of e ` set q" unfolding queued_def by blast
  obtain l where "live e l" "q = map m_subthreadWaiting (m_requests (locks e l))" using monitors_lock [OF g m] by blast
  then show "asking e t" using t queue_pend [of t e l] by (auto simp: asking_def)
next
  assume "asking e t"
  then obtain l where l: "live e l" "pend e t l \<noteq> []" by (auto simp: asking_def)
  then show "queued e t" using monitors_Some [OF g l(1) refl] queue_pend [of t e l] unfolding queued_def monitor_of_def by blast
qed

lemma sound_Abort:
  assumes a: "sound X Z e"
  shows "sound (restarted e t X) (Z - {t}) (Abort t e)"
proof -
  have g: "good e" using a by simp
  define e1 where "e1 = upd_thread t (m_aborted_update (\<lambda>_. True)) e"
  have k: "live e1 = live e" "pend e1 = pend e" by (auto simp: live_def pend_def fun_eq_iff e1_def)
  have s1: "sound X Z e1" using a unfolding e1_def by (auto intro!: good_frame [of e] waits_frame [of X Z e] goodD(5))
  show ?thesis
  proof (cases "m_status (threads e t) = TH_S_Terminated")
    case True
    then have "t \<in> X" using a by (auto simp: waits_def at_rest_def blocked_def blocked_on_def split: if_splits)
    then show ?thesis using True a by (auto simp: Abort_def waits_def at_rest_def insert_absorb)
  next
    case False
    then show ?thesis using sound_Restart [OF s1, of t True] by (simp add: Abort_def queued_asking [OF g] asking_def k flip: e1_def)
  qed
qed

lemma history_sound: "history X Z e \<Longrightarrow> sound X Z e"
proof (induction rule: history.induct)
  case (start e)
  then show ?case by (rule sound_initial)
next
  case (lock X Z e s node r f)
  then show ?case by (intro sound_LockObject)
next
  case (unlock X Z e r s)
  then show ?case by (intro sound_UnlockObject)
next
  case (sleep X Z e t x)
  show ?case unfolding Sleep_def snd_conv by (rule sound_asleep [OF sleep.IH sleep.hyps(2)]) simp_all
next
  case (wait_events X Z e t x events now hr b e')
  note s = sound_asleep [OF wait_events.IH wait_events.hyps(2), of "\<lambda>th. th\<lparr>m_waitForEvents := events, m_waitForEvents_Timeout := x, m_status := TH_S_Waiting\<rparr>"]
  have "sound X Z (e\<lparr>m_raisedEvents := v\<rparr>)" for v using wait_events.IH by (auto intro!: good_frame [of e] waits_frame [of X Z e] goodD(5))
  then show ?case using wait_events.hyps(3) wait_events.IH s by (auto simp: WaitEvents_def split: if_splits)
next
  case (restart X Z e t b)
  have q: "queued e t \<longleftrightarrow> asking e t" using restart.IH queued_asking by blast
  show ?case unfolding q by (rule sound_Restart [OF restart.IH])
next
  case (abort X Z e t)
  show ?case by (rule sound_Abort [OF abort.IH])
next
  case (raise X Z e v)
  then show ?case by (auto intro!: good_frame [of e] waits_frame [of X Z e] goodD(5))
next
  case (suspend X Z e t b)
  then show ?case by (auto intro!: good_frame [of e] waits_frame [of X Z e] goodD(5))
next
  case (wait X Z e t)
  then show ?case by (intro sound_PutWaiting)
next
  case (ready X Z e t)
  then show ?case by (intro sound_PutReady)
next
  case (ends X Z e s)
  then show ?case by (intro ReleaseSubThread_spec) auto
qed

text \<open>The monitor of a resource is read off its lock, and the queue has the requests.\<close>

lemma queue_length: "length (filter (\<lambda>s. thread_of e s = t) (map m_subthreadWaiting (m_requests (locks e l)))) = length (pend e t l)"
  by (simp add: pend_def filter_map comp_def)

section \<open>Properties\<close>

text \<open>
  C17: in every reachable state, as long as the event cache has nodes, locks are monitors. A thread that takes
  the lock of a resource enters its monitor: a free one becomes its own, in its own it is counted per
  subthread, and for that of another thread it goes to the end of the queue and is told to wait; giving
  back a lock leaves the monitor: the count goes down, the last one hands the monitor to the first in the
  queue or frees it, and one that does not hold it gets an exception. The monitors of all other resources stay as they are.
\<close>

theorem locks_are_monitors:
  assumes e: "reachable e" and a: "False \<notin> set (grants e)"
  shows "(m_status (threads e (thread_of e s)) = TH_S_Ready \<and> \<not> live e l \<longrightarrow>
      (case LockObject r s TIMEOUT_INFINITE f (Some l) e of (hr, e') \<Rightarrow>
         hr = fst (enter (thread_of e s) s (monitors e r)) \<and> monitors e' = (monitors e)(r := snd (enter (thread_of e s) s (monitors e r))))) \<and>
    (case UnlockObject r s e of (hr, e') \<Rightarrow>
       hr = fst (leave (thread_of e) s (monitors e r)) \<and> monitors e' = (monitors e)(r := snd (leave (thread_of e) s (monitors e r))))"
proof -
  obtain X Z where so: "sound X Z e" using e history_sound unfolding reachable_def by blast
  then have g: "good e" by simp
  show ?thesis using LockObject_monitor [OF g a] UnlockObject_monitor [OF so a]
    by (auto split: prod.splits)
qed

text \<open>Three threads, 0 to 2, with one subthread each; every other subthread is one of thread 0.\<close>

definition three_threads :: "bool list \<Rightarrow> Engine" where
  "three_threads gs =
     \<lparr>locks = (\<lambda>_. \<lparr>m_owningThread = 0, m_resource = Foreign 0, m_owners = [], m_requests = []\<rparr>),
      threads = (\<lambda>_. \<lparr>m_locks = [], m_lockRequestsCount = 0, m_status = TH_S_Ready, m_suspended = False, m_aborted = False, m_counter = 0, m_waitForEvents = 0,
        m_waitForEvents_Timeout = TIMEOUT_INFINITE, m_waitForObject = None, c_PendingSynchronize = False, c_Synchronized = False,
        c_PendingSynchronizeGlobally = False, c_SynchronizedGlobally = False\<rparr>),
      subThreads = (\<lambda>s. \<lparr>s_owningThread = (if s < 3 then s else 0), s_lockRequestsCount = 0\<rparr>),
      objectLock = (\<lambda>_. None), m_threadsReady = [0, 1, 2], m_threadsWaiting = [], grants = gs, m_raisedEvents = 0\<rparr>"

lemma initial_three_threads: "initial (three_threads gs)"
  by (auto simp: initial_def three_threads_def listed_def)

lemma reachable_three_threads: "reachable (three_threads gs)"
  unfolding reachable_def using start [OF initial_three_threads] by blast

lemma locks_are_monitors_witness:
  "monitors (snd (LockObject (Instance 7) 1 TIMEOUT_INFINITE False (Some 100) (three_threads []))) (Instance 7) = Some (1, [(1, 1)], [])"
proof -
  have m: "monitors (three_threads []) (Instance 7) = None" by (simp add: three_threads_def monitors_def FindLockObject_def)
  have "(case LockObject (Instance 7) 1 TIMEOUT_INFINITE False (Some 100) (three_threads []) of (hr, e') \<Rightarrow>
      monitors e' = (monitors (three_threads []))(Instance 7 := snd (enter 1 1 (monitors (three_threads []) (Instance 7)))))"
    using locks_are_monitors [OF reachable_three_threads [of "[]"], of 1 100 "Instance 7" False]
    by (auto simp: three_threads_def live_def)
  then show ?thesis by (auto simp: m split: prod.splits)
qed

lemma waiting_queued:
  assumes h: "history X Z e" and x: "t \<notin> X"
  shows "(m_status (threads e t) = TH_S_Waiting \<longleftrightarrow> t \<in> Z \<or> queued e t) \<and> \<not> (t \<in> Z \<and> queued e t)"
proof -
  have g: "good e" and w: "waits X Z e" using history_sound [OF h] by auto
  show ?thesis
    using waitsD [OF w x] at_rest_asking [OF waitsD [OF w x]] queued_asking [OF g, of t]
    by (auto simp: at_rest_def asking_def quiet_def blocked_def blocked_on_def split: if_splits)
qed

text \<open>
  C18: in every reachable state, also when nodes could not be had, a thread waits exactly while it sleeps or
  one of its subthreads is in the queue of a monitor, and never both; it is then in one queue only, once,
  and the monitor is held by another thread. This is stated for every thread but those that were restarted
  (by an abort or the end of a time constraint) while they were in a queue: their request stays there, as
  \<open>abandoned_request_gets_the_lock\<close> shows. The subthreads that hold a monitor are all of the thread that it
  belongs to, so two threads never hold one.
\<close>

theorem threads_wait_in_one_queue:
  assumes h: "history X Z e"
  shows "(t \<notin> X \<longrightarrow> (m_status (threads e t) = TH_S_Waiting \<longleftrightarrow> t \<in> Z \<or> queued e t) \<and> \<not> (t \<in> Z \<and> queued e t)) \<and>
    (monitors e r = Some (t', ws, q) \<longrightarrow>
       (\<forall>(s, n)\<in>set ws. thread_of e s = t') \<and>
       (t \<notin> X \<and> t \<in> thread_of e ` set q \<longrightarrow> t' \<noteq> t \<and> length (filter (\<lambda>s. thread_of e s = t) q) = 1 \<and>
          (\<forall>r' t2 ws2 q2. monitors e r' = Some (t2, ws2, q2) \<and> t \<in> thread_of e ` set q2 \<longrightarrow> r' = r)))"
proof -
  have g: "good e" and w: "waits X Z e" using history_sound [OF h] by auto
  note mon = monitors_lock [OF g] and q = queue_pend [of t e] and len = queue_length [of e t]
  have "(\<forall>(s, n)\<in>set ws. thread_of e s = t') \<and>
       (t \<notin> X \<and> t \<in> thread_of e ` set q \<longrightarrow> t' \<noteq> t \<and> length (filter (\<lambda>s. thread_of e s = t) q) = 1 \<and>
          (\<forall>r' t2 ws2 q2. monitors e r' = Some (t2, ws2, q2) \<and> t \<in> thread_of e ` set q2 \<longrightarrow> r' = r))"
    if m: "monitors e r = Some (t', ws, q)"
  proof -
    obtain l where l: "live e l" "m_resource (locks e l) = r" "m_owningThread (locks e l) = t'" "ws = map holder (m_owners (locks e l))"
      "q = map m_subthreadWaiting (m_requests (locks e l))" using mon [OF m] by blast
    have "\<forall>(s, n)\<in>set ws. thread_of e s = t'" using goodD(5) [OF g l(1)] l by (auto simp: owners_ok_def)
    moreover have "t' \<noteq> t \<and> length (filter (\<lambda>s. thread_of e s = t) q) = 1 \<and>
        (\<forall>r' t2 ws2 q2. monitors e r' = Some (t2, ws2, q2) \<and> t \<in> thread_of e ` set q2 \<longrightarrow> r' = r)" if x: "t \<notin> X" and t: "t \<in> thread_of e ` set q"
    proof -
      have "pend e t l \<noteq> []" using t q [of l] l(5) by simp
      then obtain p where bl: "blocked_on e t l p" using at_rest_pend [OF waitsD [OF w x] l(1)] by (meson list.set_sel(1))
      then have b: "live e l' \<Longrightarrow> pend e t l' \<noteq> [] \<Longrightarrow> l' = l" for l' by (auto simp: blocked_on_def)
      have "r' = r" if "monitors e r' = Some (t2, ws2, q2)" "t \<in> thread_of e ` set q2" for r' t2 ws2 q2
        using mon [OF that(1)] that(2) q b l(2) by metis
      then show ?thesis using bl len [of l] l(3,5) by (auto simp: blocked_on_def)
    qed
    ultimately show ?thesis by blast
  qed
  then show ?thesis using waiting_queued [OF h] by blast
qed

text \<open>Thread 1 has the lock of the object 7, thread 2 asks for it, and thread 0 sleeps.\<close>

definition one_waits :: Engine where
  "one_waits =
     snd (LockObject (Instance 7) 2 TIMEOUT_INFINITE False None
       (snd (LockObject (Instance 7) 1 TIMEOUT_INFINITE False (Some 100) (three_threads []))))"

lemma one_waits_history: "history {} {} one_waits"
proof -
  let ?e = "snd (LockObject (Instance 7) 1 TIMEOUT_INFINITE False (Some 100) (three_threads []))"
  have "history {} {} ?e" by (rule lock [OF start [OF initial_three_threads]]) (simp_all add: three_threads_def live_def)
  moreover have "m_status (threads ?e (thread_of ?e 2)) = TH_S_Ready" by code_simp
  ultimately show ?thesis unfolding one_waits_def by (rule lock) simp
qed

definition one_sleeps :: Engine where
  "one_sleeps = snd (Sleep 0 1000 one_waits)"

lemma one_sleeps_history: "history {} {0} one_sleeps"
proof -
  have "m_status (threads one_waits 0) = TH_S_Ready" by code_simp
  then show ?thesis unfolding one_sleeps_def by (rule sleep [OF one_waits_history])
qed

lemma threads_wait_in_one_queue_witness:
  "queued one_sleeps 2 \<and> \<not> queued one_sleeps 1 \<and> \<not> queued one_sleeps 0 \<and> map (\<lambda>t. m_status (threads one_sleeps t)) [0, 1, 2] = [TH_S_Waiting, TH_S_Ready, TH_S_Waiting]"
proof -
  have s: "map (\<lambda>t. m_status (threads one_sleeps t)) [0, 1, 2] = [TH_S_Waiting, TH_S_Ready, TH_S_Waiting]" by code_simp
  note t = threads_wait_in_one_queue [OF one_sleeps_history, THEN conjunct1, rule_format]
  show ?thesis using s t [of 0] t [of 1] t [of 2] by simp
qed

text \<open>A subthread that ends holds no monitor and is in no queue.\<close>

lemma ended_subthread_is_gone:
  assumes h: "history X Z e" and x: "thread_of e s \<notin> X" and m: "monitors (ReleaseSubThread (thread_of e s) s e) r = Some (t, ws, q)"
  shows "s \<notin> fst ` set ws \<and> s \<notin> set q"
proof -
  let ?e = "ReleaseSubThread (thread_of e s) s e"
  note g = ReleaseSubThread_spec [OF history_sound [OF h], of "thread_of e s" s]
  have "good ?e" using g(1) by simp
  then obtain l where l: "live ?e l" "ws = map holder (m_owners (locks ?e l))" "q = map m_subthreadWaiting (m_requests (locks ?e l))"
    using m FindLockObject_iff by (auto simp: monitors_def monitor_of_def)
  have "\<not> owns ?e s l \<and> \<not> asks ?e s l" using g(2) [OF refl x l(1)] .
  then show ?thesis by (auto simp: l(2,3) owns_def asks_def)
qed

text \<open>To signal events is to raise them and to restart threads.\<close>

lemma history_SignalEvents_threads: "history X Z e \<Longrightarrow> \<exists>X Z. history X Z (SignalEvents_threads ts events e)"
proof (induction ts arbitrary: X Z e)
  case (Cons t ts)
  then show ?case using restart [OF Cons.prems, of t True] by (cases "m_waitForEvents (threads e t) AND events = 0") auto
qed auto

lemma reachable_SignalEvents: "reachable e \<Longrightarrow> reachable (SignalEvents events e)"
  unfolding reachable_def SignalEvents_def Let_def using history_SignalEvents_threads raise by metis

section \<open>Where locks are no monitors\<close>

text \<open>
  When the node for the owner cannot be had, \<open>LockObject\<close> has already made the lock: the thread is told
  that memory is out and cannot give the lock back, but every other thread waits for it.
\<close>

definition after_failure :: Engine where
  "after_failure = snd (LockObject (Instance 7) 1 TIMEOUT_INFINITE False (Some 100) (three_threads [False]))"

lemma failed_lock_is_kept:
  "fst (LockObject (Instance 7) 1 TIMEOUT_INFINITE False (Some 100) (three_threads [False])) = CLR_E_OUT_OF_MEMORY \<and>
   fst (UnlockObject (Instance 7) 1 after_failure) = CLR_E_LOCK_SYNCHRONIZATION_EXCEPTION \<and>
   fst (LockObject (Instance 7) 2 TIMEOUT_INFINITE False (Some 101) after_failure) = CLR_E_THREAD_WAITING"
  by code_simp

text \<open>
  A thread that waits for a lock and is restarted by an exception (an abort, or a time constraint that is
  over) leaves its request in the queue: the lock is handed to it although its call has failed, and a third
  thread waits for a lock that nobody will give back.
\<close>

definition after_abort :: Engine where
  "after_abort = snd (UnlockObject (Instance 7) 1 (Abort 2 one_waits))"

lemma abandoned_request_gets_the_lock:
  "monitors after_abort (Instance 7) = Some (2, [(2, 1)], []) \<and>
   fst (LockObject (Instance 7) 0 TIMEOUT_INFINITE False None after_abort) = CLR_E_THREAD_WAITING"
  by code_simp

text \<open>That is a history in which thread 2 is the only one of which the queues say nothing.\<close>

lemma abandoned_request_history: "history {2} {} after_abort"
proof -
  have "m_status (threads one_waits 2) = TH_S_Waiting" by code_simp
  then have "queued one_waits 2" using waiting_queued [OF one_waits_history] by simp
  then have "history {2} {} (Abort 2 one_waits)" using abort [OF one_waits_history, of 2] by simp
  then show ?thesis unfolding after_abort_def by (rule unlock)
qed

end
