(* ===== verification/Spec2Isabelle.thy ===== *)
theory Spec2Isabelle imports Crc32 MethodCacheAvl SimpleHeap TimeDriver Completions HalQueue Collections UnicodeHelper WireProtocol Messaging GcCollectProps GcCompaction IntegerInstructions InterpreterProps CompressionProps RandomNumbers MemoryStreamProps ThreadLocksProps begin

text \<open>
  Verification development of the native runtime of the .NET Micro Framework: the interpreter of
  managed code with its heap and its collector under \<^verbatim>\<open>src/CLR\<close>, and the platform layer it runs on
  under \<^verbatim>\<open>src/DeviceCode\<close> and \<^verbatim>\<open>src/Support\<close>. The code is C++; every definition is translated from it,
  keeps its name where the logic allows it, and computes.

  The parts and how they work together. A thread executes the instructions of a method in a
  loop over its stack frame (\<^verbatim>\<open>Interpreter.cpp\<close>). Its values are heap blocks of 12 bytes, on the stack as in
  the managed heap, and its numbers are computed in them (\<^verbatim>\<open>CLR_RT_HeapBlock.cpp\<close>). The managed heap is a
  chain of clusters; each hands out runs of blocks from a list of free ones (\<^verbatim>\<open>CLR_RT_HeapCluster.cpp\<close>).
  When memory runs short the collector marks what the roots reach, clears the weak
  references to the rest and has every cluster recover it (\<^verbatim>\<open>GarbageCollector.cpp\<close>,
  \<^verbatim>\<open>GarbageCollector_ComputeReachabilityGraph.cpp\<close>); a compaction then moves the blocks that may move toward the
  start of memory and relocates the pointers (\<^verbatim>\<open>GarbageCollector_Compaction.cpp\<close>). The method of a virtual
  call is found through a cache, of which the variant in a balanced tree is modelled (\<^verbatim>\<open>Cache.cpp\<close>, \<^verbatim>\<open>AVLTree.cpp\<close>
  under \<^verbatim>\<open>TINYCLR_USE_AVLTREE_FOR_METHODLOOKUP\<close>; no build under \<^verbatim>\<open>src\<close> turns it on, they use a hash table); lists, queues and
  stacks of the class library are native (\<^verbatim>\<open>CLR_RT_HeapBlock_ArrayList.cpp\<close> and its neighbours), and so is the
  conversion of strings. A debugger or another device talks to the runtime in packets checked by a CRC
  (\<^verbatim>\<open>WireProtocol.cpp\<close>, \<^verbatim>\<open>CRC.cpp\<close>), above which messages are kept until they are asked for
  (\<^verbatim>\<open>Messaging.cpp\<close>). Below, the platform layer has a heap of its own, ring buffers, a clock, and a
  list of timed calls driven by one compare register.

  The theories, from the ground up.

  \<^bold>\<open>NetMF_Prelude\<close> has the machine integers as words, the collections of rules and lemmas on lists.
  \<^bold>\<open>DblLinkedList\<close> has the intrusive lists of \<^verbatim>\<open>tinyhal.h\<close> on maps of links, the predicate \<open>dll\<close> that a list
  of nodes is in them, a run of all list operations on several lists that share the links, and the locale \<open>fifo\<close>, the contract of a queue, interpreted here, in \<^bold>\<open>HalQueue\<close> (both
  ring buffers of \<^verbatim>\<open>tinyhal.h\<close>) and in \<^bold>\<open>Collections\<close> (array list, queue and stack of the class library).
  \<^bold>\<open>Completions\<close> has the timed and deferred calls, with the calls made as a trace, in the release build (without the
  debug assertions). \<^bold>\<open>Collections\<close> keeps the sizes and capacities at 32 bits and takes from its environment how long an array
  can be had.

  \<^bold>\<open>Crc32\<close> copies the table of \<^verbatim>\<open>CRC.cpp\<close> and shows that the loop divides polynomials and detects every
  burst of up to 32 bits. \<^bold>\<open>WireProtocol\<close> has the packets, the sending and the receiving state machine of
  \<^verbatim>\<open>WireProtocol.cpp\<close>, and the locale \<open>application\<close> of what sits above; \<^bold>\<open>Messaging\<close> interprets it with
  \<open>CLR_Messaging\<close> and shows that a conversation over the protocol delivers in order and executes no
  request twice.

  \<^bold>\<open>AvlTree\<close> has the balanced tree, with its owner as a locale of callbacks; \<^bold>\<open>MethodCacheAvl\<close> interprets it with
  \<open>VirtualMethodTable\<close> and shows that this variant of the cache is one: it answers what the type system answers and gives
  up the entry that was used least recently.

  \<^bold>\<open>SimpleHeap\<close> has the native allocator in the build with guard words (a request so long that its size wraps
  around is outside of the bound that the property names), with the locale \<open>allocator\<close> of what
  its users rely on. \<^bold>\<open>TimeDriver\<close> has the calendar, \<^bold>\<open>UnicodeHelper\<close> the conversion between UTF-8 and
  UTF-16 with the strings as the characters before and behind the pointers. \<^bold>\<open>Compression\<close> has the LZ77
  decompressor and the writer of the compressor (\<^verbatim>\<open>Compression.cpp\<close>), and \<^bold>\<open>CompressionProps\<close> shows that the
  first undoes the second, and ends within its buffers on any input (its loop is a partial function, with no fuel); \<^bold>\<open>RandomNumbers\<close> has the generator of
  \<^verbatim>\<open>Random.cpp\<close>, which is shown to be the multiplication modulo a prime that it should be. \<^bold>\<open>MemoryStream\<close> has
  the stream of bits that objects are serialized to (\<^verbatim>\<open>Streams.cpp\<close>) with the numbers of variable length
  (\<^verbatim>\<open>BinaryFormatter.cpp\<close>); \<^bold>\<open>MemoryStreamBits\<close>, \<^bold>\<open>MemoryStreamWrite\<close> and \<^bold>\<open>MemoryStreamRead\<close> show that writing
  appends to a list of bits and reading takes from one, and \<^bold>\<open>MemoryStreamProps\<close> that one undoes the other.

  \<^bold>\<open>HeapBlock\<close> has the header of a block and the tilings of a stretch of memory by blocks; \<^bold>\<open>HeapCluster\<close> the
  initialisation and allocation of a cluster with the invariant \<open>heap_ok\<close>: the blocks tile the payload and the
  list holds the free ones in order. \<^bold>\<open>HeapRecovery\<close> has \<open>RecoverFromGC\<close> and \<open>InsertInOrder\<close> and the promises
  of a cluster over any sequence of its operations; \<^bold>\<open>HeapMemory\<close> several clusters in one memory.

  \<^bold>\<open>GarbageCollector\<close> has the marking with its stacks and roots, \<^bold>\<open>GcMarking\<close> the proof that it is exact,
  \<^bold>\<open>GcProps\<close> its promises and where it fails; \<^bold>\<open>GcCollect\<close> a whole collection and \<^bold>\<open>GcCollectProps\<close> what it keeps
  and frees. \<^bold>\<open>Relocation\<close> has the table of moved regions with the binary search of a pointer, \<^bold>\<open>HeapCompaction\<close>
  the compaction; \<^bold>\<open>CompactionSteps\<close> describes its steps on clusters with holes, \<^bold>\<open>CompactionMoves\<close> one move,
  \<^bold>\<open>CompactionLoop\<close> the invariant of the loop and the log of moves it keeps, \<^bold>\<open>CompactionRun\<close> why the loop keeps it and ends, and
  \<^bold>\<open>CompactionProps\<close> and \<^bold>\<open>GcCompaction\<close> what follows for objects and pointers, the second for a collection and
  a compaction in sequence.

  \<^bold>\<open>ThreadLocks\<close> has the locks of threads (\<^verbatim>\<open>CLR_RT_HeapBlock_Lock.cpp\<close>, and what \<^verbatim>\<open>Execution.cpp\<close> and \<^verbatim>\<open>Thread.cpp\<close> do with
  them) and the other steps that set the status of a thread: sleeping, waiting for events, restart and abort;
  \<^bold>\<open>ThreadLocksInvariant\<close> shows the invariants that every operation keeps and \<^bold>\<open>ThreadLocksProps\<close> that
  locks are monitors with a queue, and why a thread waits.

  \<^bold>\<open>HeapNumerics\<close> has the arithmetic of numbers in heap blocks, \<^bold>\<open>NumericValues\<close> what it means in integers;
  \<^bold>\<open>Interpreter\<close> the loop with its instructions on numbers, \<^bold>\<open>IntegerInstructions\<close> and \<^bold>\<open>InterpreterProps\<close> what they
  compute, the types they keep and when a thread whose time is up stops.

  How state and code correspond. A structure is a record with the fields of the code; a pointer is a
  number, a list or table in memory a map from addresses, and storage that is only indexed a
  list. Memory of the managed heap is two maps, from the address of a block (counted in blocks of 12
  bytes) to its header and to its two data words, seen as links. A function returns the new state; a
  failure is a value of an option or of a type of results, and an access outside of a buffer is one
  too. What the code asks of parts outside the model (the allocator of mark stacks, the tables of
  the type system, the ports, the clock) is an argument.

  Bounds and fuel. Loops that the code does not bound take fuel, and every property of them
  says how much is enough: the walks of a cluster end within its length in blocks, below 65536 as the size in a header has
  16 bits; marking within twice the size of the part of the heap it reaches, and one; the receiver of packets within
  eight steps for each byte that has arrived, and seven; the interpreter within the bytes of code that
  are left; the compaction within the square of the last address and one, since each round moves the
  source forward, or the free region while the source stays. The addresses of blocks stay below
  2^32 / 12.

  What is assumed where. The collection starts from a heap in which every pointer leads to a block that
  is not marked and the parts of arrays are flat (\<open>clean_heap\<close>), which it is shown to leave behind for the
  next one; the theorems on it leave weak delegates aside, for which the slow marking has an error that is
  shown. Clusters lie apart and, for the compaction, in the order of their addresses, each ended by
  the header of the next. Signed overflow, which C++ leaves open, wraps, as it does in the code that the
  compilers of the port make. The interpreter is the build without source level debugger and
  without hardware floating point.

  Findings. Where the code does not do what it means to, the model follows the code, and the difference
  is stated: a second mark stack that is not switched to, a switch instruction that never yields, products and
  literals of emulated floating point that lose their value, surrogates computed with a wrong offset, reply
  handlers that are swapped, a random number above 1.0, a stream that is left at the end of its list of buffers, locks that
  nobody can give back, and smaller ones, listed with the manifest. Where one is a theorem or a lemma, its
  text says so.

  Not modelled, and why. The type system, the execution engine with its threads, and the libraries built on
  them work on the tables of assembly images that the metadata processor of the build generates; what the models need of
  them is a parameter. The passes of the compaction over all pointers are recorded with their tables and the lookup of
  each pointer is modelled; which fields of a block a pass visits depends on the same tables. The just-in-time
  compiler is a statement about ARM code, graphics are operations on pixel buffers, file systems, block
  storage, serial ports and board support are drivers. The compressor's search for matches runs on
  development hosts only. The network stack and the cryptographic
  libraries are third-party code. Managed code, host tools, tests and build files are not part of the native runtime.
\<close>

end
